(* ===== verification/Prelude.thy ===== *)
theory Prelude
  imports Main "HOL-Library.Word"
begin

text \<open>
  Shared vocabulary of the development: the machine types of the C code (a 64-bit, little-endian
  target, which is what the iOS build compiles for), the shape of a C function that returns 0 or 1
  and updates its state argument, byte strings read as big- and little-endian numbers, and the
  lemmas about bit operations, lists and numbers that several components use.
\<close>

unbundle bit_operations_syntax

named_theorems op_simps "unfolding rules for functions that return a status and a state"
named_theorems byte_simps "bit operations on bytes and words as arithmetic"

section \<open>Machine types\<close>

type_synonym u8 = "8 word"
type_synonym u16 = "16 word"
type_synonym u32 = "32 word"
type_synonym u64 = "64 word"
type_synonym bytes = "u8 list"

text \<open>\<open>size_t\<close> is 64 bits wide; sizes and lengths are natural numbers, and a sum that the code
  lets wrap around is written with \<open>size_add\<close>.\<close>

definition size_mod :: nat where
  "size_mod = 2 ^ 64"

definition size_add :: "nat \<Rightarrow> nat \<Rightarrow> nat" where
  "size_add a b = (a + b) mod size_mod"

lemma size_mod_pos [simp]: "0 < size_mod"
  by (simp add: size_mod_def)

lemma size_add_exact: "a + b < size_mod \<Longrightarrow> size_add a b = a + b"
  by (simp add: size_add_def)

lemma size_add_wraps:
  assumes "a < size_mod" "b < size_mod"
  shows "size_add a b < a \<longleftrightarrow> size_mod \<le> a + b"
proof (cases "a + b < size_mod")
  case True
  then show ?thesis by (simp add: size_add_def)
next
  case False
  then have "(a + b) mod size_mod = a + b - size_mod"
    using assms by (simp add: mod_if)
  then show ?thesis using False assms by (simp add: size_add_def)
qed

definition INT_MAX :: nat where "INT_MAX = 2147483647"

section \<open>Arrays\<close>

text \<open>\<open>memcpy\<close> of \<open>xs\<close> to index \<open>i\<close> of an array, and \<open>memmove\<close> inside it.\<close>

definition memcpy_at :: "nat \<Rightarrow> 'a list \<Rightarrow> 'a list \<Rightarrow> 'a list" where
  "memcpy_at i xs b = take i b @ xs @ drop (i + length xs) b"

definition memmove_at :: "nat \<Rightarrow> nat \<Rightarrow> nat \<Rightarrow> 'a list \<Rightarrow> 'a list" where
  "memmove_at dst src n b = memcpy_at dst (take n (drop src b)) b"

section \<open>Operations that return a status\<close>

text \<open>
  The C functions return 1 (or \<open>true\<close>) with their results in out-parameters, or 0, and in both
  cases may have changed the object they work on. An operation maps the state to the result
  (\<open>None\<close> is the return value 0) and the state it leaves behind, also when it fails.
\<close>

type_synonym ('s, 'a) op = "'s \<Rightarrow> 'a option \<times> 's"

definition op_return :: "'a \<Rightarrow> ('s, 'a) op" where
  "op_return x s = (Some x, s)"

definition op_fail :: "('s, 'a) op" where
  "op_fail s = (None, s)"

definition op_bind :: "('s, 'a) op \<Rightarrow> ('a \<Rightarrow> ('s, 'b) op) \<Rightarrow> ('s, 'b) op" where
  "op_bind m f s = (case m s of (None, t) \<Rightarrow> (None, t) | (Some x, t) \<Rightarrow> f x t)"

definition op_guard :: "bool \<Rightarrow> ('s, unit) op" where
  "op_guard b = (if b then op_return () else op_fail)"

lemma op_return_apply [op_simps]: "op_return x s = (Some x, s)"
  by (simp add: op_return_def)

lemma op_fail_apply [op_simps]: "op_fail s = (None, s)"
  by (simp add: op_fail_def)

lemma op_guard_apply [op_simps]: "op_guard b s = (if b then (Some (), s) else (None, s))"
  by (simp add: op_guard_def op_simps)

lemma op_bind_Some [simp]: "m s = (Some x, t) \<Longrightarrow> op_bind m f s = f x t"
  by (simp add: op_bind_def)

lemma op_bind_None [simp]: "m s = (None, t) \<Longrightarrow> op_bind m f s = (None, t)"
  by (simp add: op_bind_def)

lemma op_bind_eq_Some:
  "op_bind m f s = (Some y, u) \<longleftrightarrow> (\<exists>x t. m s = (Some x, t) \<and> f x t = (Some y, u))"
  by (auto simp: op_bind_def split: prod.splits option.splits)

lemma op_bind_assoc: "op_bind (op_bind m f) g = op_bind m (\<lambda>x. op_bind (f x) g)"
  by (rule ext) (simp add: op_bind_def split: prod.split option.split)

lemma op_bind_return [simp]: "op_bind m op_return = m"
  by (rule ext) (auto simp: op_bind_def op_simps split: prod.split option.split)

lemma op_bind_unit [simp]: "op_bind m (\<lambda>_. op_return ()) = (m :: ('s, unit) op)"
  using op_bind_return [of m] by (simp add: op_return_def)

lemma op_return_bind [simp]: "op_bind (op_return x) f = f x"
  by (rule ext) (simp add: op_bind_def op_simps)

section \<open>Bit operations as arithmetic\<close>

lemma and_mask_take_bit [byte_simps]:
  "(w :: 'a::len word) AND 0x0F = take_bit 4 w"
  "w AND 0x07 = take_bit 3 w"
  "w AND 0x1F = take_bit 5 w"
  "w AND 0x3F = take_bit 6 w"
  "w AND 0x7F = take_bit 7 w"
  "w AND 0xFF = take_bit 8 w"
  by (simp_all add: take_bit_eq_mask mask_eq_exp_minus_1)

lemma unat_take_bit_mod: "unat (take_bit n (w :: 'a::len word)) = unat w mod 2 ^ n"
  by (rule trans [OF unsigned_take_bit_eq take_bit_eq_mod])

lemma unat_drop_bit_div: "unat (drop_bit n (w :: 'a::len word)) = unat w div 2 ^ n"
  by (rule trans [OF unat_drop_bit_eq drop_bit_eq_div])

lemma unat_push_bit_mod:
  "unat (push_bit n (w :: 'a::len word)) = unat w * 2 ^ n mod 2 ^ LENGTH('a)"
  unfolding unsigned_push_bit_eq by (simp only: push_bit_eq_mult take_bit_eq_mod)

lemma unat_push_bit_exact:
  assumes "unat (w :: 'a::len word) * 2 ^ n < 2 ^ LENGTH('a)"
  shows "unat (push_bit n w) = unat w * 2 ^ n"
  using assms by (simp only: unat_push_bit_mod mod_less)

lemma unat_ucast_mod:
  "unat (ucast (w :: 'a::len word) :: 'b::len word) = unat w mod 2 ^ LENGTH('b)"
  by (simp only: unsigned_ucast_eq take_bit_eq_mod)

lemma unat_ucast_up:
  assumes "LENGTH('a::len) \<le> LENGTH('b::len)"
  shows "unat (ucast (w :: 'a word) :: 'b word) = unat w"
proof -
  have "unat w < 2 ^ LENGTH('a)" by (rule unsigned_less)
  also have "\<dots> \<le> 2 ^ LENGTH('b)" using assms by simp
  finally show ?thesis by (simp only: unat_ucast_mod mod_less)
qed

lemma unat_ucast_byte [simp]:
  "unat (ucast (b :: u8) :: u16) = unat b"
  "unat (ucast (b :: u8) :: u32) = unat b"
  "unat (ucast (b :: u8) :: u64) = unat b"
  by (rule unat_ucast_up, simp)+

lemma unat_byte_less [simp]: "unat (b :: u8) < 256"
  using unsigned_less [of b] by simp

lemma unat_word_less [simp]:
  "unat (v :: u16) < 65536"
  "unat (w :: u32) < 4294967296"
  "unat (x :: u64) < 18446744073709551616"
  by (rule order_less_le_trans [OF unsigned_less], simp)+

lemma eq_word_of_natI: "unat x = n \<Longrightarrow> x = word_of_nat n"
  by auto

lemma unat_div_less_u64: "unat (word_of_nat (unat (v :: u64) div k) :: u64) = unat v div k"
proof -
  have "unat v div k \<le> unat v" by simp
  also have "\<dots> < 18446744073709551616" by simp
  finally show ?thesis by (simp add: unat_of_nat)
qed

text \<open>Setting low bits that are clear is addition.\<close>

lemma or_low_bits_nat: "b < 2 ^ n \<Longrightarrow> a * 2 ^ n OR b = a * 2 ^ n + (b :: nat)"
proof -
  assume b: "b < 2 ^ n"
  then have tb: "take_bit n b = b" by (simp add: take_bit_nat_eq_self)
  have "a * 2 ^ n + b = push_bit n a + take_bit n b"
    by (simp add: push_bit_eq_mult tb)
  also have "\<dots> = push_bit n a OR take_bit n b"
    by (rule disjunctive_add_eq_or) (auto simp: bit_eq_iff bit_simps)
  finally show ?thesis by (simp add: push_bit_eq_mult tb)
qed

lemma unat_or_low_bits:
  assumes "unat (x :: 'a::len word) = a * 2 ^ n" "unat y < 2 ^ n"
  shows "unat (x OR y) = a * 2 ^ n + unat y"
  using assms by (simp add: unsigned_or_eq or_low_bits_nat)

lemma unat_push_or:
  assumes "unat (x :: 'a::len word) * 2 ^ n < 2 ^ LENGTH('a)" "unat y < 2 ^ n"
  shows "unat (push_bit n x OR y) = unat x * 2 ^ n + unat y"
  using assms by (intro unat_or_low_bits) (simp_all only: unat_push_bit_exact)

text \<open>A statement about every byte is decided by evaluating it on the 256 values.\<close>

lemma all_bytes_upt: "(\<forall>b :: u8. P b) \<longleftrightarrow> list_all (\<lambda>n. P (word_of_nat n)) [0..<256]"
proof
  assume "list_all (\<lambda>n. P (word_of_nat n)) [0..<256]"
  then have *: "P (word_of_nat n)" if "n < 256" for n
    using that by (simp add: list_all_iff)
  show "\<forall>b :: u8. P b"
  proof
    fix b :: u8
    show "P b" using * [OF unat_byte_less [of b]] by simp
  qed
qed (simp add: list_all_iff)

lemma high_bit_byte: "(b :: u8) AND 0x80 \<noteq> 0 \<longleftrightarrow> 128 \<le> unat b"
proof -
  have "\<forall>b :: u8. (b AND 0x80 \<noteq> 0) = (128 \<le> unat b)"
    unfolding all_bytes_upt by code_simp
  then show ?thesis by blast
qed

section \<open>Byte strings as numbers\<close>

fun be_nat :: "bytes \<Rightarrow> nat" where
  "be_nat [] = 0"
| "be_nat (b # bs) = unat b * 256 ^ length bs + be_nat bs"

fun nat_be :: "nat \<Rightarrow> nat \<Rightarrow> bytes" where
  "nat_be 0 v = []"
| "nat_be (Suc n) v = nat_be n (v div 256) @ [word_of_nat v]"

fun le_nat :: "bytes \<Rightarrow> nat" where
  "le_nat [] = 0"
| "le_nat (b # bs) = unat b + 256 * le_nat bs"

fun nat_le :: "nat \<Rightarrow> nat \<Rightarrow> bytes" where
  "nat_le 0 v = []"
| "nat_le (Suc n) v = word_of_nat v # nat_le n (v div 256)"

lemma length_nat_be [simp]: "length (nat_be n v) = n"
  by (induction n v rule: nat_be.induct) auto

lemma length_nat_le [simp]: "length (nat_le n v) = n"
  by (induction n v rule: nat_le.induct) auto

lemma unat_of_nat_byte [simp]: "unat (word_of_nat v :: u8) = v mod 256"
  by (simp add: unat_of_nat)

lemma be_nat_append: "be_nat (xs @ ys) = be_nat xs * 256 ^ length ys + be_nat ys"
  by (induction xs) (auto simp: algebra_simps power_add)

lemma be_nat_less: "be_nat bs < 256 ^ length bs"
proof (induction bs)
  case (Cons b bs)
  have "unat b * 256 ^ length bs + be_nat bs < unat b * 256 ^ length bs + 256 ^ length bs"
    using Cons.IH by simp
  also have "\<dots> = Suc (unat b) * 256 ^ length bs" by simp
  also have "\<dots> \<le> 256 * 256 ^ length bs"
    using unat_byte_less [of b] by (intro mult_le_mono1) linarith
  finally show ?case by simp
qed simp

lemma le_nat_less: "le_nat bs < 256 ^ length bs"
proof (induction bs)
  case (Cons b bs)
  then have "unat b + 256 * le_nat bs < 256 + 256 * (256 ^ length bs - 1)"
    using unat_byte_less [of b] by (intro add_less_le_mono) auto
  then show ?case by (simp add: diff_mult_distrib2)
qed simp

lemma be_nat_nat_be: "be_nat (nat_be n v) = v mod 256 ^ n"
proof (induction n v rule: nat_be.induct)
  case (2 n v)
  have "be_nat (nat_be (Suc n) v) = v div 256 mod 256 ^ n * 256 + v mod 256"
    using 2 by (simp add: be_nat_append)
  also have "\<dots> = v mod 256 ^ Suc n"
    by (metis mod_mult2_eq mult.commute power_Suc)
  finally show ?case .
qed simp

lemma le_nat_nat_le: "le_nat (nat_le n v) = v mod 256 ^ n"
proof (induction n v rule: nat_le.induct)
  case (2 n v)
  have "le_nat (nat_le (Suc n) v) = v mod 256 + 256 * (v div 256 mod 256 ^ n)"
    using 2 by simp
  also have "\<dots> = v mod 256 ^ Suc n"
    by (metis add.commute mod_mult2_eq power_Suc)
  finally show ?case .
qed simp

lemma byte_256 [simp]: "(256 :: u8) = 0"
  using word_exp_length_eq_0 [where 'a = 8] by simp

lemma nat_le_le_nat: "nat_le (length bs) (le_nat bs) = bs"
  by (induction bs) auto

lemma nat_be_be_nat: "nat_be (length bs) (be_nat bs) = bs"
proof (induction bs rule: rev_induct)
  case (snoc b bs)
  then show ?case by (simp add: be_nat_append)
qed simp

lemma nat_be_mod: "nat_be n (v mod 256 ^ n) = nat_be n v"
  by (metis be_nat_nat_be length_nat_be nat_be_be_nat)

lemma le_nat_append: "le_nat (xs @ ys) = le_nat xs + 256 ^ length xs * le_nat ys"
  by (induction xs) (auto simp: algebra_simps)

lemma be_nat_rev: "be_nat (rev bs) = le_nat bs"
  by (induction bs) (auto simp: be_nat_append)

lemma bit_le_nat: "n < 8 * length bs \<Longrightarrow> bit (le_nat bs) n \<longleftrightarrow> bit (bs ! (n div 8)) (n mod 8)"
proof (induction bs arbitrary: n)
  case (Cons b bs)
  have eq: "le_nat (b # bs) = push_bit 8 (le_nat bs) OR unat b"
    using or_low_bits_nat [of "unat b" 8 "le_nat bs"] by (simp add: push_bit_eq_mult)
  show ?case
  proof (cases "n < 8")
    case True
    then show ?thesis unfolding eq by (auto simp: bit_simps possible_bit_def)
  next
    case False
    then obtain m where m: "n = m + 8" using le_Suc_ex [of 8 n] by (auto simp: add.commute)
    have "\<not> bit (unat b) n" 
      using m bit_imp_le_length[of b n] by (auto simp: bit_simps)
    moreover have "bit (push_bit 8 (le_nat bs)) n = bit (le_nat bs) m"
      using m by (simp add: bit_push_bit_iff possible_bit_def)
    moreover have "(m + 8) div 8 = Suc (m div 8)" by simp
    ultimately show ?thesis unfolding eq using Cons m by (simp add: bit_or_iff)
  qed
qed simp

lemma word_push8_or: "push_bit 8 (r :: u64) OR ucast (b :: u8) = r * 256 + word_of_nat (unat b)"
proof -
  have "push_bit 8 r OR ucast b = push_bit 8 r + (ucast b :: u64)"
    by (rule disjunctive_add_eq_or [symmetric])
      (auto simp: bit_eq_iff bit_simps dest: bit_imp_le_length)
  then show ?thesis by (simp add: push_bit_eq_mult)
qed

lemma fold_push8_or:
  "fold (\<lambda>b r. push_bit 8 r OR ucast b) bs (r :: u64)
   = r * 256 ^ length bs + word_of_nat (be_nat bs)"
  by (induction bs arbitrary: r) (simp_all add: word_push8_or algebra_simps)

lemma unat_be_nat_word:
  "256 ^ length bs \<le> (2 :: nat) ^ LENGTH('a) \<Longrightarrow> unat (word_of_nat (be_nat bs) :: 'a::len word) = be_nat bs"
  using be_nat_less [of bs] by (simp add: unat_of_nat)

end
