(* ===== verification/Mem.thy ===== *)
theory Mem
  imports Prelude
begin

text \<open>
  The byte-level support code of BoringSSL: allocation on top of libc \<open>malloc\<close>, memory and string
  functions, character classes (\<open>crypto/mem.c\<close>), byte swaps, loads and rotations
  (\<open>crypto/internal.h\<close>).

  An allocated object is the list of its bytes; the size that \<open>OPENSSL_malloc\<close> stores in front of
  it is the length of the list. libc \<open>malloc\<close> is a parameter \<open>h\<close>: the block (of unspecified
  contents) it returns for a request, or nothing. \<open>heap_ok\<close> is what the C standard promises of it.
\<close>

type_synonym heap = "nat \<Rightarrow> bytes option"

definition heap_ok :: "heap \<Rightarrow> bool" where
  "heap_ok h \<longleftrightarrow> (\<forall>n b. h n = Some b \<longrightarrow> length b = n)"

section \<open>Pointers and sizes\<close>

type_synonym ptr = u64

definition sizeof_ptr :: nat where "sizeof_ptr = 8"

definition size_mul :: "nat \<Rightarrow> nat \<Rightarrow> nat" where
  "size_mul a b = (a * b) mod size_mod"

section \<open>Allocation\<close>

definition OPENSSL_MALLOC_PREFIX :: nat where
  "OPENSSL_MALLOC_PREFIX = 8"

definition OPENSSL_malloc :: "heap \<Rightarrow> nat \<Rightarrow> bytes option" where
  "OPENSSL_malloc h sz =
     (if size_add sz OPENSSL_MALLOC_PREFIX < sz then None
      else case h (size_add sz OPENSSL_MALLOC_PREFIX) of
             None \<Rightarrow> None
           | Some ptr \<Rightarrow> Some (drop OPENSSL_MALLOC_PREFIX ptr))"

definition OPENSSL_zalloc :: "heap \<Rightarrow> nat \<Rightarrow> bytes option" where
  "OPENSSL_zalloc h sz =
     (case OPENSSL_malloc h sz of None \<Rightarrow> None | Some ret \<Rightarrow> Some (replicate sz 0))"

definition OPENSSL_calloc :: "heap \<Rightarrow> nat \<Rightarrow> nat \<Rightarrow> bytes option" where
  "OPENSSL_calloc h num sz =
     (if sz \<noteq> 0 \<and> num > (size_mod - 1) div sz then None
      else OPENSSL_zalloc h (num * sz))"

text \<open>\<open>OPENSSL_realloc\<close> of the object \<open>orig\<close>, or of \<open>NULL\<close>.\<close>

definition OPENSSL_realloc :: "heap \<Rightarrow> bytes option \<Rightarrow> nat \<Rightarrow> bytes option" where
  "OPENSSL_realloc h orig new_size =
     (case orig of
        None \<Rightarrow> OPENSSL_malloc h new_size
      | Some old \<Rightarrow>
          (case OPENSSL_malloc h new_size of
             None \<Rightarrow> None
           | Some ret \<Rightarrow>
               let to_copy = (if length old < new_size then length old else new_size)
               in Some (take to_copy old @ drop to_copy ret)))"

definition OPENSSL_memdup :: "heap \<Rightarrow> bytes \<Rightarrow> bytes option" where
  "OPENSSL_memdup h data =
     (if length data = 0 then None
      else case OPENSSL_malloc h (length data) of
             None \<Rightarrow> None
           | Some ret \<Rightarrow> Some (data @ drop (length data) ret))"

lemma heap_okD: "heap_ok h \<Longrightarrow> h n = Some b \<Longrightarrow> length b = n"
  by (simp add: heap_ok_def)

lemma OPENSSL_malloc_length:
  assumes "heap_ok h" "OPENSSL_malloc h n = Some b" "n < size_mod"
  shows "length b = n"
proof -
  have "\<not> size_mod \<le> n + OPENSSL_MALLOC_PREFIX"
    using assms size_add_wraps [of n OPENSSL_MALLOC_PREFIX]
    by (auto simp: OPENSSL_malloc_def OPENSSL_MALLOC_PREFIX_def size_mod_def split: if_splits)
  then show ?thesis
    using assms
    by (auto simp: OPENSSL_malloc_def size_add_exact split: if_splits option.splits dest: heap_okD)
qed

lemma OPENSSL_realloc_spec:
  assumes "heap_ok h" "OPENSSL_realloc h (Some old) n = Some b" "length old \<le> n" "n < size_mod"
  shows "length b = n" and "take (length old) b = old"
  using assms
  by (auto simp: OPENSSL_realloc_def Let_def split: option.splits if_splits
      dest!: OPENSSL_malloc_length)

section \<open>Memory and strings\<close>

text \<open>\<open>CRYPTO_memcmp\<close> visits every byte whatever the contents and collects the differences.\<close>

definition CRYPTO_memcmp :: "bytes \<Rightarrow> bytes \<Rightarrow> nat \<Rightarrow> u8" where
  "CRYPTO_memcmp a b len = fold (\<lambda>i x. x OR (a ! i XOR b ! i)) [0..<len] 0"

definition OPENSSL_hash32 :: "bytes \<Rightarrow> u32" where
  "OPENSSL_hash32 xs = fold (\<lambda>b h. (h XOR ucast b) * 16777619) xs 2166136261"

text \<open>\<open>OPENSSL_memchr\<close> returns the position of the first byte equal to \<open>c\<close>.\<close>

fun OPENSSL_memchr :: "bytes \<Rightarrow> u8 \<Rightarrow> nat option" where
  "OPENSSL_memchr [] c = None"
| "OPENSSL_memchr (x # xs) c = (if x = c then Some 0 else map_option Suc (OPENSSL_memchr xs c))"

text \<open>\<open>memcmp\<close> orders by the first difference, as unsigned bytes.\<close>

fun OPENSSL_memcmp :: "bytes \<Rightarrow> bytes \<Rightarrow> int" where
  "OPENSSL_memcmp (a # as) (b # bs) =
     (if a = b then OPENSSL_memcmp as bs else if a < b then -1 else 1)"
| "OPENSSL_memcmp _ _ = 0"

fun OPENSSL_strnlen :: "bytes \<Rightarrow> nat \<Rightarrow> nat" where
  "OPENSSL_strnlen s 0 = 0"
| "OPENSSL_strnlen [] (Suc len) = 0"
| "OPENSSL_strnlen (c # s) (Suc len) = (if c = 0 then 0 else Suc (OPENSSL_strnlen s len))"

definition OPENSSL_strndup :: "heap \<Rightarrow> bytes \<Rightarrow> nat \<Rightarrow> bytes option" where
  "OPENSSL_strndup h str sz =
     (let sz = OPENSSL_strnlen str sz; alloc_size = size_add sz 1
      in if alloc_size < sz then None
         else case OPENSSL_malloc h alloc_size of
                None \<Rightarrow> None
              | Some ret \<Rightarrow> Some (take sz str @ [0] @ drop (sz + 1) ret))"

fun c_strlen :: "bytes \<Rightarrow> nat option" where
  "c_strlen [] = None"
| "c_strlen (c # s) = (if c = 0 then Some 0 else map_option Suc (c_strlen s))"

text \<open>\<open>OPENSSL_strdup\<close> copies the string and its NUL; a string without one is outside of the model.\<close>

definition OPENSSL_strdup :: "heap \<Rightarrow> bytes option \<Rightarrow> bytes option" where
  "OPENSSL_strdup h s =
     (case s of
        None \<Rightarrow> None
      | Some s \<Rightarrow> (case c_strlen s of None \<Rightarrow> None | Some n \<Rightarrow> OPENSSL_memdup h (take (n + 1) s)))"

definition OPENSSL_strhash :: "bytes \<Rightarrow> u32 option" where
  "OPENSSL_strhash s = map_option (\<lambda>n. OPENSSL_hash32 (take n s)) (c_strlen s)"

text \<open>
  \<open>OPENSSL_strlcpy dst src dst_size\<close> returns the new contents of \<open>dst\<close> and the length it tried to
  create. \<open>src\<close> is NUL-terminated; where the code would read or write outside the two arrays
  the result is \<open>None\<close>.
\<close>

fun OPENSSL_strlcpy :: "bytes \<Rightarrow> bytes \<Rightarrow> nat \<Rightarrow> (bytes \<times> nat) option" where
  "OPENSSL_strlcpy dst [] dst_size = None"
| "OPENSSL_strlcpy dst (c # src) dst_size =
     (if dst_size > 1 \<and> c \<noteq> 0 then
        (case dst of
           [] \<Rightarrow> None
         | _ # ds \<Rightarrow> map_option (\<lambda>(out, l). (c # out, Suc l)) (OPENSSL_strlcpy ds src (dst_size - 1)))
      else if dst_size \<noteq> 0 then
        (case dst of
           [] \<Rightarrow> None
         | _ # ds \<Rightarrow> map_option (\<lambda>l. (0 # ds, l)) (c_strlen (c # src)))
      else map_option (\<lambda>l. (dst, l)) (c_strlen (c # src)))"

fun OPENSSL_strlcat :: "bytes \<Rightarrow> bytes \<Rightarrow> nat \<Rightarrow> (bytes \<times> nat) option" where
  "OPENSSL_strlcat [] src dst_size = (if dst_size > 0 then None else OPENSSL_strlcpy [] src 0)"
| "OPENSSL_strlcat (d # dst) src dst_size =
     (if dst_size > 0 \<and> d \<noteq> 0
      then map_option (\<lambda>(out, l). (d # out, Suc l)) (OPENSSL_strlcat dst src (dst_size - 1))
      else OPENSSL_strlcpy (d # dst) src dst_size)"

section \<open>Characters\<close>

definition OPENSSL_isalpha :: "int \<Rightarrow> bool" where
  "OPENSSL_isalpha c \<longleftrightarrow> (97 \<le> c \<and> c \<le> 122) \<or> (65 \<le> c \<and> c \<le> 90)"

definition OPENSSL_isdigit :: "int \<Rightarrow> bool" where
  "OPENSSL_isdigit c \<longleftrightarrow> 48 \<le> c \<and> c \<le> 57"

definition OPENSSL_isxdigit :: "int \<Rightarrow> bool" where
  "OPENSSL_isxdigit c \<longleftrightarrow> OPENSSL_isdigit c \<or> (97 \<le> c \<and> c \<le> 102) \<or> (65 \<le> c \<and> c \<le> 70)"

definition OPENSSL_fromxdigit :: "int \<Rightarrow> u8 option" where
  "OPENSSL_fromxdigit c =
     (if OPENSSL_isdigit c then Some (word_of_int (c - 48))
      else if 97 \<le> c \<and> c \<le> 102 then Some (word_of_int (c - 97 + 10))
      else if 65 \<le> c \<and> c \<le> 70 then Some (word_of_int (c - 65 + 10))
      else None)"

definition OPENSSL_isalnum :: "int \<Rightarrow> bool" where
  "OPENSSL_isalnum c \<longleftrightarrow> OPENSSL_isalpha c \<or> OPENSSL_isdigit c"

definition OPENSSL_tolower :: "int \<Rightarrow> int" where
  "OPENSSL_tolower c = (if 65 \<le> c \<and> c \<le> 90 then c + (97 - 65) else c)"

definition OPENSSL_isspace :: "int \<Rightarrow> bool" where
  "OPENSSL_isspace c \<longleftrightarrow> c = 9 \<or> c = 10 \<or> c = 11 \<or> c = 12 \<or> c = 13 \<or> c = 32"

text \<open>The strings are NUL-terminated arrays of (signed) \<open>char\<close>; a read past the end is \<open>None\<close>.\<close>

fun OPENSSL_strcasecmp :: "bytes \<Rightarrow> bytes \<Rightarrow> int option" where
  "OPENSSL_strcasecmp (a # as) (b # bs) =
     (let aa = OPENSSL_tolower (sint a); bb = OPENSSL_tolower (sint b)
      in if aa < bb then Some (-1)
         else if aa > bb then Some 1
         else if aa = 0 then Some 0
         else OPENSSL_strcasecmp as bs)"
| "OPENSSL_strcasecmp _ _ = None"

fun OPENSSL_strncasecmp :: "bytes \<Rightarrow> bytes \<Rightarrow> nat \<Rightarrow> int option" where
  "OPENSSL_strncasecmp _ _ 0 = Some 0"
| "OPENSSL_strncasecmp (a # as) (b # bs) (Suc n) =
     (let aa = OPENSSL_tolower (sint a); bb = OPENSSL_tolower (sint b)
      in if aa < bb then Some (-1)
         else if aa > bb then Some 1
         else if aa = 0 then Some 0
         else OPENSSL_strncasecmp as bs n)"
| "OPENSSL_strncasecmp _ _ (Suc n) = None"

section \<open>Byte order\<close>

definition CRYPTO_bswap2 :: "u16 \<Rightarrow> u16" where
  "CRYPTO_bswap2 x = drop_bit 8 x OR push_bit 8 x"

definition CRYPTO_bswap4 :: "u32 \<Rightarrow> u32" where
  "CRYPTO_bswap4 x =
     (let x = drop_bit 16 x OR push_bit 16 x
      in drop_bit 8 (x AND 0xff00ff00) OR push_bit 8 (x AND 0x00ff00ff))"

definition CRYPTO_bswap8 :: "u64 \<Rightarrow> u64" where
  "CRYPTO_bswap8 x =
     (ucast (CRYPTO_bswap4 (ucast (drop_bit 32 x))) :: u64)
     OR push_bit 32 (ucast (CRYPTO_bswap4 (ucast x)))"

definition CRYPTO_load_u64_le :: "bytes \<Rightarrow> u64" where
  "CRYPTO_load_u64_le bs = word_of_nat (le_nat (take 8 bs))"

definition CRYPTO_load_u64_be :: "bytes \<Rightarrow> u64" where
  "CRYPTO_load_u64_be bs = CRYPTO_bswap8 (CRYPTO_load_u64_le bs)"

definition CRYPTO_store_u64_le :: "u64 \<Rightarrow> bytes" where
  "CRYPTO_store_u64_le v = nat_le 8 (unat v)"

definition CRYPTO_rotl_u64 :: "u64 \<Rightarrow> nat \<Rightarrow> u64" where
  "CRYPTO_rotl_u64 value shift =
     push_bit shift value OR drop_bit ((64 - shift) mod 64) value"

lemma bit_bswap4: "n < 32 \<Longrightarrow> bit (CRYPTO_bswap4 x) n \<longleftrightarrow> bit x (8 * (3 - n div 8) + n mod 8)"
proof -
  assume "n < 32"
  then have "n \<in> set [0..<32]" by simp
  then have "n \<in> {0,1,2,3,4,5,6,7,8,9,10,11,12,13,14,15,16,17,18,19,20,21,22,23,24,25,26,27,28,29,30,31}"
    by (simp add: upt_rec eval_nat_numeral)
  then show ?thesis
    by (elim insertE emptyE) (auto simp: CRYPTO_bswap4_def Let_def bit_simps numeral_2_eq_2 [symmetric] dest: bit_imp_le_length)
qed
lemma bit_bswap2: "n < 16 \<Longrightarrow> bit (CRYPTO_bswap2 x) n \<longleftrightarrow> bit x (8 * (1 - n div 8) + n mod 8)"
proof -
  assume "n < 16"
  then have "n \<in> set [0..<16]" by simp
  then have "n \<in> {0,1,2,3,4,5,6,7,8,9,10,11,12,13,14,15}"
    by (simp add: upt_rec eval_nat_numeral)
  then show ?thesis
    by (elim insertE emptyE) (auto simp: CRYPTO_bswap2_def Let_def bit_simps numeral_2_eq_2 [symmetric] dest: bit_imp_le_length)
qed


text \<open>A function that mirrors the bytes of its argument turns little-endian reading into
  big-endian reading.\<close>

lemma mirror_le_nat:
  fixes f :: "'a::len word \<Rightarrow> 'a word"
  assumes mirror: "\<And>x n. n < 8 * k \<Longrightarrow> bit (f x) n \<longleftrightarrow> bit x (8 * (k - 1 - n div 8) + n mod 8)"
    and len: "LENGTH('a) = 8 * k" and bs: "length bs = k"
  shows "f (word_of_nat (le_nat bs)) = word_of_nat (be_nat bs)"
proof (rule bit_word_eqI)
  fix n assume "n < LENGTH('a)"
  then have n: "n < 8 * k" by (simp add: len)
  then have "n div 8 < k" by (simp add: less_mult_imp_div_less mult.commute)
  then have m: "8 * (k - 1 - n div 8) + n mod 8 < 8 * k" by (simp add: algebra_simps)
  have idx: "rev bs ! (n div 8) = bs ! (k - 1 - n div 8)" using \<open>n div 8 < k\<close> bs by (simp add: rev_nth)
  have "bit (le_nat (rev bs)) n = bit (rev bs ! (n div 8)) (n mod 8)"
    using n bs by (intro bit_le_nat) simp
  moreover have "bit (le_nat bs) (8 * (k - 1 - n div 8) + n mod 8) = bit (bs ! (k - 1 - n div 8)) (n mod 8)"
    using m bs bit_le_nat [of "8 * (k - 1 - n div 8) + n mod 8" bs] by simp
  ultimately show "bit (f (word_of_nat (le_nat bs))) n = bit (word_of_nat (be_nat bs) :: 'a word) n"
    using n m by (simp add: mirror bit_of_nat_iff possible_bit_def len be_nat_rev [of "rev bs", simplified] idx)
qed

lemma bit_bswap8: "n < 64 \<Longrightarrow> bit (CRYPTO_bswap8 x) n \<longleftrightarrow> bit x (8 * (7 - n div 8) + n mod 8)"
proof -
  assume n: "n < 64"
  show ?thesis
  proof (cases "n < 32")
    case True
    have "32 + (8 * (3 - n div 8) + n mod 8) = 8 * (7 - n div 8) + n mod 8"
    proof -
      have "n div 8 \<le> 3" using True by simp
      then show ?thesis by linarith
    qed
    moreover have "8 * (3 - n div 8) + n mod 8 < 32" using True by simp
    ultimately show ?thesis using True
      by (simp add: CRYPTO_bswap8_def bit_or_iff bit_push_bit_iff bit_unsigned_iff bit_bswap4 bit_drop_bit_eq possible_bit_def
          add.assoc [symmetric])
  next
    case False
    then have "n - 32 < 32" and d: "(n - 32) div 8 = n div 8 - 4" and r: "(n - 32) mod 8 = n mod 8"
      using n by (simp_all add: le_div_geq le_mod_geq)
    moreover have "8 * (3 - (n div 8 - 4)) + n mod 8 = 8 * (7 - n div 8) + n mod 8"
      using False n by simp
    moreover have "8 * (7 - n div 8) + n mod 8 < 32"
    proof -
      have "4 \<le> n div 8" using False div_le_mono [of 32 n 8] by simp
      moreover have "n mod 8 < 8" by simp
      ultimately show ?thesis by linarith
    qed
    moreover have "\<not> bit (CRYPTO_bswap4 (ucast (drop_bit 32 x))) n"
      using False bit_imp_le_length [of "CRYPTO_bswap4 (ucast (drop_bit 32 x))" n] by auto
    ultimately show ?thesis using False n
      by (simp add: CRYPTO_bswap8_def bit_or_iff bit_push_bit_iff bit_unsigned_iff bit_bswap4 bit_drop_bit_eq possible_bit_def)
  qed
qed

lemma bswap_le_nat:
  "length bs = 2 \<Longrightarrow> CRYPTO_bswap2 (word_of_nat (le_nat bs)) = word_of_nat (be_nat bs)"
  "length bs = 4 \<Longrightarrow> CRYPTO_bswap4 (word_of_nat (le_nat bs)) = word_of_nat (be_nat bs)"
  "length bs = 8 \<Longrightarrow> CRYPTO_bswap8 (word_of_nat (le_nat bs)) = word_of_nat (be_nat bs)"
  by (rule mirror_le_nat; simp add: bit_bswap2 bit_bswap4 bit_bswap8)+

lemma bswap_be_nat:
  "length bs = 2 \<Longrightarrow> CRYPTO_bswap2 (word_of_nat (be_nat bs)) = word_of_nat (le_nat bs)"
  "length bs = 4 \<Longrightarrow> CRYPTO_bswap4 (word_of_nat (be_nat bs)) = word_of_nat (le_nat bs)"
  "length bs = 8 \<Longrightarrow> CRYPTO_bswap8 (word_of_nat (be_nat bs)) = word_of_nat (le_nat bs)"
  using bswap_le_nat [of "rev bs"] by (simp_all add: be_nat_rev be_nat_rev [of "rev bs", simplified])

lemma bswap_eq_le_nat:
  "CRYPTO_bswap2 v = word_of_nat (be_nat (nat_le 2 (unat v)))"
  "CRYPTO_bswap4 w = word_of_nat (be_nat (nat_le 4 (unat w)))"
  "CRYPTO_bswap8 x = word_of_nat (be_nat (nat_le 8 (unat x)))"
  using bswap_le_nat(1) [of "nat_le 2 (unat v)"] bswap_le_nat(2) [of "nat_le 4 (unat w)"]
    bswap_le_nat(3) [of "nat_le 8 (unat x)"]
  by (simp_all add: le_nat_nat_le)

lemma bswap_bswap [simp]:
  "CRYPTO_bswap2 (CRYPTO_bswap2 v) = v"
  "CRYPTO_bswap4 (CRYPTO_bswap4 w) = w"
  "CRYPTO_bswap8 (CRYPTO_bswap8 x) = x"
  by (simp_all add: bswap_eq_le_nat(1) [of v] bswap_eq_le_nat(2) [of w] bswap_eq_le_nat(3) [of x]
      bswap_be_nat le_nat_nat_le)

lemma nat_be_bswap:
  "nat_be 2 (unat (CRYPTO_bswap2 v)) = nat_le 2 (unat v)"
  "nat_be 4 (unat (CRYPTO_bswap4 w)) = nat_le 4 (unat w)"
  "nat_be 8 (unat (CRYPTO_bswap8 x)) = nat_le 8 (unat x)"
  using nat_be_be_nat [of "nat_le 2 (unat v)"] nat_be_be_nat [of "nat_le 4 (unat w)"]
    nat_be_be_nat [of "nat_le 8 (unat x)"]
  by (simp_all add: bswap_eq_le_nat unat_be_nat_word)

lemma CRYPTO_load_u64_be_be_nat:
  "8 \<le> length bs \<Longrightarrow> CRYPTO_load_u64_be bs = word_of_nat (be_nat (take 8 bs))"
  by (simp add: CRYPTO_load_u64_be_def CRYPTO_load_u64_le_def bswap_le_nat)

section \<open>Comparison and copying\<close>

lemma word_xor_eq_0: "(a :: 'a::len word) XOR b = 0 \<longleftrightarrow> a = b"
  by (auto simp: bit_eq_iff bit_simps)

lemma CRYPTO_memcmp_eq_0:
  assumes "n \<le> length a" "n \<le> length b"
  shows "CRYPTO_memcmp a b n = 0 \<longleftrightarrow> take n a = take n b"
  using assms
proof (induction n)
  case (Suc n)
  have "CRYPTO_memcmp a b (Suc n) = CRYPTO_memcmp a b n OR (a ! n XOR b ! n)"
    by (simp add: CRYPTO_memcmp_def)
  then have "CRYPTO_memcmp a b (Suc n) = 0 \<longleftrightarrow> CRYPTO_memcmp a b n = 0 \<and> a ! n = b ! n"
    by (simp add: or_eq_0_iff word_xor_eq_0)
  then show ?case using Suc by (simp add: take_Suc_conv_app_nth)
qed (simp add: CRYPTO_memcmp_def)

lemma OPENSSL_memchr_Some:
  "OPENSSL_memchr xs c = Some n \<Longrightarrow> n < length xs \<and> xs ! n = c \<and> c \<notin> set (take n xs)"
proof (induction xs arbitrary: n)
  case (Cons x xs)
  then show ?case by (cases n) (auto split: if_splits)
qed simp

lemma OPENSSL_memchr_None: "OPENSSL_memchr xs c = None \<longleftrightarrow> c \<notin> set xs"
  by (induction xs) auto

lemma c_strlen_append: "c \<notin> set xs \<Longrightarrow> c = 0 \<Longrightarrow> c_strlen (xs @ c # ys) = Some (length xs)"
  by (induction xs) auto

end
