(* ===== verification/ConstTime.thy ===== *)
theory ConstTime
  imports Mem
begin

text \<open>
  The constant-time comparison and selection functions of \<open>crypto/internal.h\<close>, with
  \<open>crypto_word_t\<close> of 64 bits. \<open>value_barrier_w\<close> is the identity. Each function is the branch-free
  formula of the code; the lemmas give the comparison it computes.
\<close>

definition CONSTTIME_TRUE_W :: u64 where "CONSTTIME_TRUE_W = NOT 0"
definition CONSTTIME_FALSE_W :: u64 where "CONSTTIME_FALSE_W = 0"

definition value_barrier_w :: "u64 \<Rightarrow> u64" where
  "value_barrier_w a = a"

definition constant_time_msb_w :: "u64 \<Rightarrow> u64" where
  "constant_time_msb_w a = 0 - drop_bit 63 a"

definition constant_time_lt_w :: "u64 \<Rightarrow> u64 \<Rightarrow> u64" where
  "constant_time_lt_w a b = constant_time_msb_w (a XOR ((a XOR b) OR ((a - b) XOR a)))"

definition constant_time_lt_8 :: "u64 \<Rightarrow> u64 \<Rightarrow> u8" where
  "constant_time_lt_8 a b = ucast (constant_time_lt_w a b)"

definition constant_time_ge_w :: "u64 \<Rightarrow> u64 \<Rightarrow> u64" where
  "constant_time_ge_w a b = NOT (constant_time_lt_w a b)"

definition constant_time_ge_8 :: "u64 \<Rightarrow> u64 \<Rightarrow> u8" where
  "constant_time_ge_8 a b = ucast (constant_time_ge_w a b)"

definition constant_time_is_zero_w :: "u64 \<Rightarrow> u64" where
  "constant_time_is_zero_w a = constant_time_msb_w (NOT a AND (a - 1))"

definition constant_time_is_zero_8 :: "u64 \<Rightarrow> u8" where
  "constant_time_is_zero_8 a = ucast (constant_time_is_zero_w a)"

definition constant_time_eq_w :: "u64 \<Rightarrow> u64 \<Rightarrow> u64" where
  "constant_time_eq_w a b = constant_time_is_zero_w (a XOR b)"

definition constant_time_eq_8 :: "u64 \<Rightarrow> u64 \<Rightarrow> u8" where
  "constant_time_eq_8 a b = ucast (constant_time_eq_w a b)"

text \<open>An \<open>int\<close> argument is converted to \<open>crypto_word_t\<close> with its sign.\<close>

definition constant_time_eq_int :: "32 word \<Rightarrow> 32 word \<Rightarrow> u64" where
  "constant_time_eq_int a b = constant_time_eq_w (scast a) (scast b)"

definition constant_time_eq_int_8 :: "32 word \<Rightarrow> 32 word \<Rightarrow> u8" where
  "constant_time_eq_int_8 a b = constant_time_eq_8 (scast a) (scast b)"

definition constant_time_select_w :: "u64 \<Rightarrow> u64 \<Rightarrow> u64 \<Rightarrow> u64" where
  "constant_time_select_w msk a b =
     (let msk = value_barrier_w msk in (msk AND a) OR (NOT msk AND b))"

definition constant_time_select_8 :: "u64 \<Rightarrow> u8 \<Rightarrow> u8 \<Rightarrow> u8" where
  "constant_time_select_8 msk a b =
     (let m = ucast (value_barrier_w msk) in (m AND a) OR (NOT m AND b))"

definition constant_time_select_int :: "u64 \<Rightarrow> 32 word \<Rightarrow> 32 word \<Rightarrow> 32 word" where
  "constant_time_select_int msk a b = ucast (constant_time_select_w msk (scast a) (scast b))"

text \<open>The loop over \<open>n\<close> bytes of \<open>dst\<close> and \<open>src\<close>.\<close>

definition constant_time_conditional_memcpy :: "bytes \<Rightarrow> bytes \<Rightarrow> u64 \<Rightarrow> bytes" where
  "constant_time_conditional_memcpy dst src msk =
     map2 (\<lambda>out i. constant_time_select_8 msk i out) dst src"

definition constant_time_conditional_memxor :: "bytes \<Rightarrow> bytes \<Rightarrow> u64 \<Rightarrow> bytes" where
  "constant_time_conditional_memxor dst src msk =
     map2 (\<lambda>out i. out XOR (ucast (value_barrier_w msk) AND i)) dst src"

section \<open>What they compute\<close>

lemma bit63_iff: "bit (w :: u64) 63 \<longleftrightarrow> 2 ^ 63 \<le> unat w"
proof -
  have "bit w 63 \<longleftrightarrow> bit (unat w) 63" by (simp add: bit_unsigned_iff)
  also have "\<dots> \<longleftrightarrow> odd (unat w div 2 ^ 63)" by (simp only: bit_iff_odd)
  also have "\<dots> \<longleftrightarrow> 2 ^ 63 \<le> unat w"
  proof (cases "2 ^ 63 \<le> unat w")
    case True
    then obtain k where k: "unat w = 2 ^ 63 + k" using le_Suc_ex by blast
    then have "k < 2 ^ 63" using unat_word_less(3) [of w] by simp
    then have "unat w div 2 ^ 63 = 1" unfolding k by simp
    then show ?thesis using True by (simp only: simp_thms odd_one)
  next
    case False
    then have "unat w div 2 ^ 63 = 0" by (simp only: div_eq_0_iff not_le) simp
    then show ?thesis using False by (simp only: simp_thms even_zero)
  qed
  finally show ?thesis .
qed

lemma msb_w: "constant_time_msb_w a = (if bit a 63 then CONSTTIME_TRUE_W else CONSTTIME_FALSE_W)"
proof -
  have "bit a (63 + n) \<longleftrightarrow> n = 0 \<and> bit a 63" for n
    using bit_imp_le_length [of a "63 + n"] by auto
  then have "drop_bit 63 a = (if bit a 63 then 1 else 0)"
    by (intro bit_word_eqI) (auto simp: bit_simps)
  then show ?thesis by (simp add: constant_time_msb_w_def CONSTTIME_TRUE_W_def CONSTTIME_FALSE_W_def)
qed

lemma lt_w: "constant_time_lt_w a b = (if a < b then CONSTTIME_TRUE_W else CONSTTIME_FALSE_W)"
proof -
  have "bit (a XOR ((a XOR b) OR ((a - b) XOR a))) 63 \<longleftrightarrow> (if bit a 63 = bit b 63 then bit (a - b) 63 else bit b 63)"
    by (auto simp: bit_simps)
  also have "\<dots> \<longleftrightarrow> a < b"
  proof (cases "b \<le> a")
    case True
    then have "unat (a - b) = unat a - unat b" "unat b \<le> unat a" by (simp_all add: unat_sub word_le_nat_alt)
    then show ?thesis using True unat_word_less(3) [of a] unfolding bit63_iff by (auto simp del: unat_word_less)
  next
    case False
    then have lt: "unat a < unat b" by (simp add: word_le_nat_alt)
    have "unat (a - b) = unat a + 2 ^ 64 - unat b"
      using unat_sub_if_size [of a b] lt by (simp add: word_size)
    then show ?thesis using False lt unat_word_less(3) [of b] unfolding bit63_iff by (auto simp del: unat_word_less)
  qed
  finally show ?thesis by (simp add: constant_time_lt_w_def msb_w)
qed

lemma ge_w: "constant_time_ge_w a b = (if b \<le> a then CONSTTIME_TRUE_W else CONSTTIME_FALSE_W)"
  by (auto simp: constant_time_ge_w_def lt_w CONSTTIME_TRUE_W_def CONSTTIME_FALSE_W_def)

lemma is_zero_w: "constant_time_is_zero_w a = (if a = 0 then CONSTTIME_TRUE_W else CONSTTIME_FALSE_W)"
proof -
  have "bit (NOT a AND (a - 1)) 63 \<longleftrightarrow> a = 0"
  proof (cases "a = 0")
    case False
    then have "unat (a - 1) = unat a - 1" by (simp add: unat_minus_one)
    moreover have "bit (NOT a AND (a - 1)) 63 \<longleftrightarrow> \<not> bit a 63 \<and> bit (a - 1) 63" by (simp add: bit_simps)
    ultimately show ?thesis using False unfolding bit63_iff by linarith
  qed (simp add: bit_simps)
  then show ?thesis by (simp add: constant_time_is_zero_w_def msb_w)
qed

lemma eq_w: "constant_time_eq_w a b = (if a = b then CONSTTIME_TRUE_W else CONSTTIME_FALSE_W)"
  by (simp add: constant_time_eq_w_def is_zero_w word_xor_eq_0)

lemma byte_ff: "(0xff :: u8) = NOT 0"
  by simp

lemma ucast_consttime [simp]:
  "(ucast CONSTTIME_TRUE_W :: u8) = 0xff" "(ucast CONSTTIME_FALSE_W :: u8) = 0"
  by (rule bit_word_eqI, simp add: CONSTTIME_TRUE_W_def CONSTTIME_FALSE_W_def byte_ff bit_simps)+

lemma select_w:
  "constant_time_select_w CONSTTIME_TRUE_W a b = a" "constant_time_select_w CONSTTIME_FALSE_W a b = b"
  by (simp_all add: constant_time_select_w_def value_barrier_w_def CONSTTIME_TRUE_W_def CONSTTIME_FALSE_W_def)

lemma select_8:
  "ucast msk = (0xff :: u8) \<Longrightarrow> constant_time_select_8 msk a b = a"
  "ucast msk = (0 :: u8) \<Longrightarrow> constant_time_select_8 msk a b = b"
  by (simp_all add: constant_time_select_8_def value_barrier_w_def byte_ff)

lemma select_int:
  "constant_time_select_int CONSTTIME_TRUE_W a b = a" "constant_time_select_int CONSTTIME_FALSE_W a b = b"
  by (rule bit_word_eqI, simp add: constant_time_select_int_def select_w bit_simps)+

lemma eq_int: "constant_time_eq_int a b = (if a = b then CONSTTIME_TRUE_W else CONSTTIME_FALSE_W)"
proof -
  have "(scast a :: u64) = scast b \<Longrightarrow> a = b"
    by (metis select_int(1) constant_time_select_int_def select_w(1))
  then show ?thesis by (auto simp: constant_time_eq_int_def eq_w)
qed

lemma conditional_memcpy:
  assumes "length dst = length src"
  shows "constant_time_conditional_memcpy dst src CONSTTIME_TRUE_W = src"
    "constant_time_conditional_memcpy dst src CONSTTIME_FALSE_W = dst"
  using assms
  by (induction dst src rule: list_induct2) (simp_all add: constant_time_conditional_memcpy_def select_8)

lemma conditional_memxor:
  assumes "length dst = length src"
  shows "constant_time_conditional_memxor dst src CONSTTIME_TRUE_W = map2 (XOR) dst src"
    "constant_time_conditional_memxor dst src CONSTTIME_FALSE_W = dst"
  using assms
  by (induction dst src rule: list_induct2)
    (simp_all add: constant_time_conditional_memxor_def value_barrier_w_def byte_ff)

end
