(* ===== verification/Base64.thy ===== *)
theory Base64
  imports ConstTime
begin

text \<open>
  \<open>crypto/base64/base64.c\<close>: the constant-time character conversions, block and streaming encoder,
  block and streaming decoder. A function that writes to \<open>out\<close> returns the bytes it stores there.
\<close>

section \<open>Characters\<close>

definition constant_time_lt_args_8 :: "u8 \<Rightarrow> u8 \<Rightarrow> u8" where
  "constant_time_lt_args_8 a b =
     (let aw = ucast a; bw = ucast b in ucast (constant_time_msb_w (aw - bw)))"

definition constant_time_in_range_8 :: "u8 \<Rightarrow> u8 \<Rightarrow> u8 \<Rightarrow> u8" where
  "constant_time_in_range_8 a lo hi = (let a = a - lo in constant_time_lt_args_8 a (hi - lo + 1))"

definition conv_bin2ascii :: "u8 \<Rightarrow> u8" where
  "conv_bin2ascii a =
     (let a = a AND 0x3f;
          ret = constant_time_select_8 (ucast (constant_time_eq_8 (ucast a) 62)) 0x2b 0x2f;
          ret = constant_time_select_8 (ucast (constant_time_lt_args_8 a 62)) (a - 52 + 0x30) ret;
          ret = constant_time_select_8 (ucast (constant_time_lt_args_8 a 52)) (a - 26 + 0x61) ret;
          ret = constant_time_select_8 (ucast (constant_time_lt_args_8 a 26)) (a + 0x41) ret
      in ret)"

definition base64_ascii_to_bin :: "u8 \<Rightarrow> u8" where
  "base64_ascii_to_bin a =
     (let is_upper = constant_time_in_range_8 a 0x41 0x5a;
          is_lower = constant_time_in_range_8 a 0x61 0x7a;
          is_digit = constant_time_in_range_8 a 0x30 0x39;
          is_plus = constant_time_eq_8 (ucast a) 0x2b;
          is_slash = constant_time_eq_8 (ucast a) 0x2f;
          is_equals = constant_time_eq_8 (ucast a) 0x3d;
          ret = 0;
          ret = ret OR (is_upper AND (a - 0x41));
          ret = ret OR (is_lower AND (a - 0x61 + 26));
          ret = ret OR (is_digit AND (a - 0x30 + 52));
          ret = ret OR (is_plus AND 62);
          ret = ret OR (is_slash AND 63);
          is_valid = is_upper OR is_lower OR is_digit OR is_plus OR is_slash OR is_equals;
          ret = ret OR NOT is_valid
      in ret)"

section \<open>Encoding\<close>

definition EVP_EncodedLength :: "nat \<Rightarrow> nat option" where
  "EVP_EncodedLength len =
     (if size_add len 2 < len then None
      else
        let len = size_add len 2 div 3 in
        if (len * 4 mod size_mod) div 4 \<noteq> len then None
        else
          let len = len * 4 mod size_mod in
          if size_add len 1 < len then None else Some (size_add len 1))"

text \<open>The loop of \<open>EVP_EncodeBlock\<close>, on what remains of \<open>src\<close>.\<close>

fun encode_block_loop :: "bytes \<Rightarrow> bytes" where
  "encode_block_loop [] = []"
| "encode_block_loop (s0 # s1 # s2 # src) =
     (let l = push_bit 16 (ucast s0 :: u32) OR push_bit 8 (ucast s1) OR ucast s2
      in conv_bin2ascii (ucast (drop_bit 18 l)) # conv_bin2ascii (ucast (drop_bit 12 l))
         # conv_bin2ascii (ucast (drop_bit 6 l)) # conv_bin2ascii (ucast l) # encode_block_loop src)"
| "encode_block_loop [s0, s1] =
     (let l = push_bit 16 (ucast s0 :: u32); l = l OR push_bit 8 (ucast s1)
      in [conv_bin2ascii (ucast (drop_bit 18 l)), conv_bin2ascii (ucast (drop_bit 12 l)),
          conv_bin2ascii (ucast (drop_bit 6 l)), 0x3d])"
| "encode_block_loop [s0] =
     (let l = push_bit 16 (ucast s0 :: u32)
      in [conv_bin2ascii (ucast (drop_bit 18 l)), conv_bin2ascii (ucast (drop_bit 12 l)), 0x3d, 0x3d])"

text \<open>The stored bytes, with the terminating NUL, and the return value.\<close>

definition EVP_EncodeBlock :: "bytes \<Rightarrow> bytes \<times> nat" where
  "EVP_EncodeBlock src = (encode_block_loop src @ [0], length (encode_block_loop src))"

text \<open>\<open>EVP_ENCODE_CTX\<close>; \<open>ctx_data\<close> has 48 bytes.\<close>

record encode_ctx =
  data_used :: nat
  ctx_data :: bytes
  eof_seen :: bool
  error_encountered :: bool

definition sizeof_data :: nat where "sizeof_data = 48"

definition EVP_EncodeInit :: encode_ctx where
  "EVP_EncodeInit = \<lparr>data_used = 0, ctx_data = replicate sizeof_data 0, eof_seen = False,
                      error_encountered = False\<rparr>"

text \<open>The \<open>while\<close> loop over whole lines: the bytes stored before the final NUL, the rest of
  the input and the total. The flag tells whether the total stayed without wrap-around.\<close>

function encode_lines :: "nat \<Rightarrow> bytes \<Rightarrow> bytes \<Rightarrow> bool \<times> bytes \<times> bytes \<times> nat" where
  "encode_lines tot out inp =
     (if length inp \<ge> sizeof_data then
        let (line, encoded) = EVP_EncodeBlock (take sizeof_data inp);
            inp = drop sizeof_data inp;
            out = out @ take encoded line @ [0x0a]
        in if size_add tot (encoded + 1) < tot then (False, out, inp, tot)
           else encode_lines (size_add tot (encoded + 1)) out inp
      else (True, out, inp, tot))"
  by auto
termination
  by (relation "measure (\<lambda>(tot, out, inp). length inp)") (auto simp: sizeof_data_def)

declare encode_lines.simps [simp del]

text \<open>The result is the context, the stored bytes (with the NUL after the last line) and \<open>*out_len\<close>.\<close>

definition EVP_EncodeUpdate :: "bytes \<Rightarrow> encode_ctx \<Rightarrow> encode_ctx \<times> bytes \<times> nat" where
  "EVP_EncodeUpdate inp ctx =
     (if length inp = 0 then (ctx, [], 0)
      else if sizeof_data - data_used ctx > length inp then
        (ctx\<lparr>ctx_data := take (data_used ctx) (ctx_data ctx) @ inp @ drop (data_used ctx + length inp) (ctx_data ctx),
             data_used := data_used ctx + length inp\<rparr>, [], 0)
      else
        let (ctx, out, inp, tot) =
              (if data_used ctx \<noteq> 0 then
                 let todo = sizeof_data - data_used ctx;
                     data = take (data_used ctx) (ctx_data ctx) @ take todo inp;
                     inp = drop todo inp;
                     (line, encoded) = EVP_EncodeBlock data
                 in (ctx\<lparr>ctx_data := data, data_used := 0\<rparr>, take encoded line @ [0x0a], inp, encoded + 1)
               else (ctx, [], inp, 0));
            (no_wrap, out, inp, tot) = encode_lines tot out inp
        in if \<not> no_wrap then (ctx, out @ [0], 0)
           else
             let ctx = (if length inp \<noteq> 0
                        then ctx\<lparr>ctx_data := inp @ drop (length inp) (ctx_data ctx)\<rparr> else ctx);
                 ctx = ctx\<lparr>data_used := length inp\<rparr>;
                 tot = (if tot > INT_MAX then 0 else tot)
             in (ctx, out @ [0], tot))"

definition EVP_EncodeFinal :: "encode_ctx \<Rightarrow> encode_ctx \<times> bytes \<times> nat" where
  "EVP_EncodeFinal ctx =
     (if data_used ctx = 0 then (ctx, [], 0)
      else
        let (out, encoded) = EVP_EncodeBlock (take (data_used ctx) (ctx_data ctx));
            out = take encoded out @ [0x0a, 0]
        in (ctx\<lparr>data_used := 0\<rparr>, out, encoded + 1))"

section \<open>Decoding\<close>

definition EVP_DecodedLength :: "nat \<Rightarrow> nat option" where
  "EVP_DecodedLength len = (if len mod 4 \<noteq> 0 then None else Some (len div 4 * 3))"

definition base64_decode_quad :: "u8 \<Rightarrow> u8 \<Rightarrow> u8 \<Rightarrow> u8 \<Rightarrow> bytes option" where
  "base64_decode_quad in0 in1 in2 in3 =
     (let a = base64_ascii_to_bin in0; b = base64_ascii_to_bin in1;
          c = base64_ascii_to_bin in2; d = base64_ascii_to_bin in3
      in if a = 0xff \<or> b = 0xff \<or> c = 0xff \<or> d = 0xff then None
         else
           let v = push_bit 18 (ucast a :: u32) OR push_bit 12 (ucast b) OR push_bit 6 (ucast c) OR ucast d;
               padding_pattern = (in0 = 0x3d, in1 = 0x3d, in2 = 0x3d, in3 = 0x3d)
           in if padding_pattern = (False, False, False, False)
              then Some [ucast (drop_bit 16 v), ucast (drop_bit 8 v), ucast v]
              else if padding_pattern = (False, False, False, True)
              then Some [ucast (drop_bit 16 v), ucast (drop_bit 8 v)]
              else if padding_pattern = (False, False, True, True)
              then Some [ucast (drop_bit 16 v)]
              else None)"

definition EVP_DecodeInit :: encode_ctx where
  "EVP_DecodeInit = \<lparr>data_used = 0, ctx_data = replicate sizeof_data 0, eof_seen = False,
                      error_encountered = False\<rparr>"

text \<open>The loop of \<open>EVP_DecodeUpdate\<close>: the status (\<open>None\<close> is \<open>return -1\<close>), the context, the output.\<close>

fun decode_update_loop :: "bytes \<Rightarrow> bytes \<Rightarrow> encode_ctx \<Rightarrow> unit option \<times> encode_ctx \<times> bytes" where
  "decode_update_loop [] out ctx = (Some (), ctx, out)"
| "decode_update_loop (c # inp) out ctx =
     (if c \<in> {0x20, 0x09, 0x0d, 0x0a} then decode_update_loop inp out ctx
      else if eof_seen ctx then (None, ctx\<lparr>error_encountered := True\<rparr>, out)
      else
        let ctx = ctx\<lparr>ctx_data := (ctx_data ctx)[data_used ctx := c], data_used := data_used ctx + 1\<rparr> in
        if data_used ctx = 4 then
          (case base64_decode_quad (ctx_data ctx ! 0) (ctx_data ctx ! 1) (ctx_data ctx ! 2) (ctx_data ctx ! 3) of
             None \<Rightarrow> (None, ctx\<lparr>error_encountered := True\<rparr>, out)
           | Some bs \<Rightarrow>
               let ctx = ctx\<lparr>data_used := 0\<rparr>;
                   ctx = (if length bs < 3 then ctx\<lparr>eof_seen := True\<rparr> else ctx)
               in decode_update_loop inp (out @ bs) ctx)
        else decode_update_loop inp out ctx)"

text \<open>The result is the return value, the context, the stored bytes and \<open>*out_len\<close>.\<close>

definition EVP_DecodeUpdate :: "bytes \<Rightarrow> encode_ctx \<Rightarrow> int \<times> encode_ctx \<times> bytes \<times> nat" where
  "EVP_DecodeUpdate inp ctx =
     (if error_encountered ctx then (-1, ctx, [], 0)
      else
        case decode_update_loop inp [] ctx of
          (None, ctx, out) \<Rightarrow> (-1, ctx, out, 0)
        | (Some _, ctx, out) \<Rightarrow>
            if length out > INT_MAX then (-1, ctx\<lparr>error_encountered := True\<rparr>, out, 0)
            else (if eof_seen ctx then 0 else 1, ctx, out, length out))"

definition EVP_DecodeFinal :: "encode_ctx \<Rightarrow> int" where
  "EVP_DecodeFinal ctx = (if error_encountered ctx \<or> data_used ctx \<noteq> 0 then -1 else 1)"

text \<open>The loop of \<open>EVP_DecodeBase64\<close> over the quads: \<open>None\<close> for a failure.\<close>

fun decode_quads :: "bytes \<Rightarrow> bytes option" where
  "decode_quads (in0 # in1 # in2 # in3 # inp) =
     (case base64_decode_quad in0 in1 in2 in3 of
        None \<Rightarrow> None
      | Some bs \<Rightarrow>
          if length bs \<noteq> 3 \<and> inp \<noteq> [] then None
          else map_option ((@) bs) (decode_quads inp))"
| "decode_quads _ = Some []"

definition EVP_DecodeBase64 :: "nat \<Rightarrow> bytes \<Rightarrow> bytes option" where
  "EVP_DecodeBase64 max_out inp =
     (if length inp mod 4 \<noteq> 0 then None
      else
        case EVP_DecodedLength (length inp) of
          None \<Rightarrow> None
        | Some max_len \<Rightarrow> if max_out < max_len then None else decode_quads inp)"

definition trim_front :: "bytes \<Rightarrow> bytes" where
  "trim_front src = dropWhile (\<lambda>c. \<not> (c \<noteq> 0x20 \<and> c \<noteq> 0x09)) src"

definition trim_back :: "bytes \<Rightarrow> bytes" where
  "trim_back src = rev (dropWhile (\<lambda>c. c \<in> {0x20, 0x09, 0x0d, 0x0a}) (rev src))"

text \<open>The stored bytes, whose number is the return value; \<open>None\<close> is \<open>-1\<close>.\<close>

definition EVP_DecodeBlock :: "bytes \<Rightarrow> bytes option" where
  "EVP_DecodeBlock src =
     (let src = trim_back (trim_front src) in
      case EVP_DecodedLength (length src) of
        None \<Rightarrow> None
      | Some dst_len \<Rightarrow>
          if dst_len > INT_MAX then None
          else case EVP_DecodeBase64 dst_len src of
                 None \<Rightarrow> None
               | Some dst \<Rightarrow> Some (dst @ replicate ((3 - length dst mod 3) mod 3) 0))"


section \<open>The alphabet\<close>

text \<open>Table 1 of RFC 4648, and what the branch-free formulas compute.\<close>

definition base64_alphabet :: bytes where
  "base64_alphabet =
     map (\<lambda>i. word_of_nat i :: u8) ([65..<91] @ [97..<123] @ [48..<58] @ [43, 47])"

lemma lt_args_8: "constant_time_lt_args_8 a b = (if a < b then 0xff else 0)"
proof -
  have "bit (ucast a - ucast b :: u64) 63 \<longleftrightarrow> a < b"
  proof (cases "b \<le> a")
    case True
    then have "unat (ucast a - ucast b :: u64) = unat a - unat b"
      by (subst unat_sub) (simp_all add: word_le_nat_alt)
    then show ?thesis using True unat_byte_less [of a] unfolding bit63_iff
      by (auto simp del: unat_byte_less)
  next
    case False
    then have lt: "unat a < unat b" by (simp add: word_le_nat_alt)
    then have "unat (ucast a - ucast b :: u64) = unat a + 2 ^ 64 - unat b"
      using unat_sub_if_size [of "ucast a :: u64" "ucast b"] by (simp add: word_size)
    then show ?thesis using False lt unat_byte_less [of b] unfolding bit63_iff
      by (auto simp del: unat_byte_less)
  qed
  then show ?thesis by (simp add: constant_time_lt_args_8_def msb_w)
qed

lemma eq_8: "constant_time_eq_8 (ucast (a :: u8)) (ucast (b :: u8)) = (if a = b then 0xff else 0)"
proof -
  have "(ucast a :: u64) = ucast b \<longleftrightarrow> a = b"
    unfolding word_unat_eq_iff by simp
  then show ?thesis by (simp add: constant_time_eq_8_def eq_w)
qed

lemma unat_numeral_255: "unat (0xff :: u8) = 255"
  by simp

lemma in_range_8:
  assumes "lo \<le> hi" "hi - lo \<noteq> 0xff"
  shows "constant_time_in_range_8 a lo hi = (if lo \<le> a \<and> a \<le> hi then 0xff else 0)"
proof -
  have "unat (hi - lo) = unat hi - unat lo" using assms by (simp add: unat_sub word_le_nat_alt)
  moreover have "unat (hi - lo) \<noteq> 255" using assms(2) by (metis word_unat_eq_iff unat_numeral_255)
  ultimately have hi: "unat (hi - lo + 1) = unat hi - unat lo + 1"
    using unat_byte_less [of "hi - lo"] by (subst unat_word_ariths(1)) simp
  have "unat (a - lo) = (if unat lo \<le> unat a then unat a - unat lo else unat a + 256 - unat lo)"
    using unat_sub_if_size [of a lo] by (simp add: word_size)
  then have "a - lo < hi - lo + 1 \<longleftrightarrow> lo \<le> a \<and> a \<le> hi"
    using assms(1) unat_byte_less [of a] unat_byte_less [of hi] unfolding word_less_nat_alt word_le_nat_alt hi
    by (auto simp del: unat_byte_less)
  then show ?thesis by (simp add: constant_time_in_range_8_def lt_args_8)
qed


lemma conv_bin2ascii_cases:
  "conv_bin2ascii a =
     (let a = a AND 0x3f in
      if a < 26 then a + 0x41 else if a < 52 then a + 0x47 else if a < 62 then a - 4
      else if a = 62 then 0x2b else 0x2f)"
  using eq_8 [of "a AND 0x3f" 62]
  by (simp add: conv_bin2ascii_def Let_def lt_args_8 select_8)

lemma ascii_to_bin_cases:
  "base64_ascii_to_bin a =
     (if 0x41 \<le> a \<and> a \<le> 0x5a then a - 0x41
      else if 0x61 \<le> a \<and> a \<le> 0x7a then a - 0x47
      else if 0x30 \<le> a \<and> a \<le> 0x39 then a + 4
      else if a = 0x2b then 62 else if a = 0x2f then 63 else if a = 0x3d then 0 else 0xff)"
proof -
  have ff: "0xff AND x = x" "NOT (0xff :: u8) = 0" "0xff OR x = 0xff" "x OR 0xff = 0xff" for x :: u8
    unfolding byte_ff by simp_all
  show ?thesis
    using eq_8 [of a "0x2b"] eq_8 [of a "0x2f"] eq_8 [of a "0x3d"]
    by (auto simp: base64_ascii_to_bin_def Let_def in_range_8 ff byte_ff [symmetric] word_le_nat_alt)
qed


text \<open>Both conversions as arithmetic on the number of the character.\<close>

definition sextet_char :: "nat \<Rightarrow> nat" where
  "sextet_char n =
     (if n < 26 then n + 65 else if n < 52 then n + 71 else if n < 62 then n - 4
      else if n = 62 then 43 else 47)"

lemma unat_and_3f [simp]: "unat ((a :: u8) AND 0x3f) = unat a mod 64"
  unfolding and_mask_take_bit unat_take_bit_mod by simp

lemma unat_conv_bin2ascii: "unat (conv_bin2ascii a) = sextet_char (unat a mod 64)"
proof -
  define b where "b = a AND 0x3f"
  have b: "unat b = unat a mod 64" by (simp add: b_def)
  then have le: "unat b < 64" by simp
  have "unat (if b < 26 then b + 0x41 else if b < 52 then b + 0x47 else if b < 62 then b - 4
              else if b = 62 then 0x2b else 0x2f) = sextet_char (unat b)"
    using le by (auto simp: sextet_char_def word_less_nat_alt word_unat_eq_iff unat_word_ariths(1) unat_sub word_le_nat_alt)
  then show ?thesis by (simp add: conv_bin2ascii_cases Let_def b_def [symmetric] b)
qed

lemma sextet_char_alphabet: "n < 64 \<Longrightarrow> sextet_char n = unat (base64_alphabet ! n)"
proof -
  have "list_all (\<lambda>n. sextet_char n = unat (base64_alphabet ! n)) [0..<64]"
    unfolding base64_alphabet_def by code_simp
  then show "n < 64 \<Longrightarrow> ?thesis" by (simp add: list_all_iff)
qed

lemma conv_bin2ascii_table: "conv_bin2ascii a = base64_alphabet ! (unat a mod 64)"
  by (simp add: word_unat_eq_iff unat_conv_bin2ascii sextet_char_alphabet)

definition char_sextet :: "nat \<Rightarrow> nat" where
  "char_sextet c =
     (if 65 \<le> c \<and> c \<le> 90 then c - 65 else if 97 \<le> c \<and> c \<le> 122 then c - 71
      else if 48 \<le> c \<and> c \<le> 57 then c + 4
      else if c = 43 then 62 else if c = 47 then 63 else if c = 61 then 0 else 255)"

lemma unat_ascii_to_bin: "unat (base64_ascii_to_bin a) = char_sextet (unat a)"
proof -
  have "unat (a - 65) = unat a - 65" if "65 \<le> unat a"
    using that by (simp add: unat_sub word_le_nat_alt)
  moreover have "unat (a - 71) = unat a - 71" if "97 \<le> unat a"
    using that by (simp add: unat_sub word_le_nat_alt)
  moreover have "unat (a + 4) = unat a + 4" if "unat a \<le> 57"
    using that by (simp add: unat_word_ariths(1))
  ultimately show ?thesis
    by (simp add: ascii_to_bin_cases char_sextet_def word_le_nat_alt word_unat_eq_iff)
qed

lemma char_sextet_inverse:
  "n < 64 \<Longrightarrow> char_sextet (sextet_char n) = n"
  "char_sextet c \<noteq> 255 \<Longrightarrow> c \<noteq> 61 \<Longrightarrow> char_sextet c < 64 \<and> sextet_char (char_sextet c) = c"
  by (auto simp: char_sextet_def sextet_char_def split: if_splits)

lemma ascii_to_bin_conv [simp]: "base64_ascii_to_bin (conv_bin2ascii a) = a AND 0x3f"
  by (simp add: word_unat_eq_iff unat_ascii_to_bin unat_conv_bin2ascii char_sextet_inverse)

lemma conv_ascii_to_bin:
  assumes "base64_ascii_to_bin c \<noteq> 0xff" "c \<noteq> 0x3d"
  shows "conv_bin2ascii (base64_ascii_to_bin c) = c" and "unat (base64_ascii_to_bin c) < 64"
proof -
  have "char_sextet (unat c) \<noteq> 255" "unat c \<noteq> 61"
    using assms by (auto simp: word_unat_eq_iff unat_ascii_to_bin)
  then show "conv_bin2ascii (base64_ascii_to_bin c) = c" and "unat (base64_ascii_to_bin c) < 64"
    using char_sextet_inverse(2) by (simp_all add: word_unat_eq_iff unat_ascii_to_bin unat_conv_bin2ascii)
qed

lemma base64_char_facts [simp]:
  "conv_bin2ascii a \<noteq> 0x3d" "conv_bin2ascii a \<noteq> 0x20" "conv_bin2ascii a \<noteq> 0x09"
  "conv_bin2ascii a \<noteq> 0x0d" "conv_bin2ascii a \<noteq> 0x0a"
  by (auto simp: word_unat_eq_iff unat_conv_bin2ascii sextet_char_def)

lemma ascii_to_bin_pad [simp]: "base64_ascii_to_bin 0x3d = 0"
  by (simp add: ascii_to_bin_cases word_le_nat_alt)

lemma and_3f_ne_ff [simp]: "a AND 0x3f \<noteq> (0xff :: u8)"
proof
  assume "a AND 0x3f = (0xff :: u8)"
  then have "unat a mod 64 = 255" by (simp add: unat_and_3f [symmetric])
  moreover have "unat a mod 64 < 64" by simp
  ultimately show False by simp
qed

lemma less_8_cases: "(n :: nat) < 8 \<Longrightarrow> n \<in> {0, 1, 2, 3, 4, 5, 6, 7}"
  by auto

definition sextets :: "u8 \<Rightarrow> u8 \<Rightarrow> u8 \<Rightarrow> u8 \<Rightarrow> u32" where
  "sextets a b c d = push_bit 18 (ucast a) OR push_bit 12 (ucast b) OR push_bit 6 (ucast c) OR ucast d"

lemma bit_and_3f: "bit (a AND 0x3f :: u8) n \<longleftrightarrow> n < 6 \<and> bit a n"
  unfolding and_mask_take_bit by (simp add: bit_take_bit_iff)

lemma bit_sextets:
  assumes "n < 24"
  shows "bit (sextets (a AND 0x3f) (b AND 0x3f) (c AND 0x3f) (d AND 0x3f)) n
    \<longleftrightarrow> (if n < 6 then bit d n else if n < 12 then bit c (n - 6)
         else if n < 18 then bit b (n - 12) else bit a (n - 18))"
proof -
  consider "n < 6" | "6 \<le> n" "n < 12" | "12 \<le> n" "n < 18" | "18 \<le> n" by linarith
  then show ?thesis
    by cases (use assms in \<open>simp_all add: sextets_def bit_or_iff bit_push_bit_iff bit_unsigned_iff bit_and_3f
      possible_bit_def less_diff_conv2\<close>)
qed

lemma base64_decode_quad_sextets:
  assumes "a \<noteq> 0x3d" "b \<noteq> 0x3d"
    "base64_ascii_to_bin a \<noteq> 0xff" "base64_ascii_to_bin b \<noteq> 0xff"
    "base64_ascii_to_bin c \<noteq> 0xff" "base64_ascii_to_bin d \<noteq> 0xff"
  defines "v \<equiv> sextets (base64_ascii_to_bin a) (base64_ascii_to_bin b) (base64_ascii_to_bin c) (base64_ascii_to_bin d)"
  shows "base64_decode_quad a b c d =
    (if c \<noteq> 0x3d \<and> d \<noteq> 0x3d then Some [ucast (drop_bit 16 v), ucast (drop_bit 8 v), ucast v]
     else if c \<noteq> 0x3d then Some [ucast (drop_bit 16 v), ucast (drop_bit 8 v)]
     else if d = 0x3d then Some [ucast (drop_bit 16 v)] else None)"
  using assms(1-6) by (simp add: base64_decode_quad_def Let_def v_def sextets_def)

lemma sextets_of_word:
  fixes l :: u32
  assumes "m \<le> 16" "c AND 0x3f = ucast (drop_bit 6 l) AND 0x3f \<or> 12 \<le> m"
    "d AND 0x3f = ucast l AND 0x3f \<or> 6 \<le> m"
  shows "(ucast (drop_bit m (sextets (ucast (drop_bit 18 l) AND 0x3f) (ucast (drop_bit 12 l) AND 0x3f)
            (c AND 0x3f) (d AND 0x3f))) :: u8) = ucast (drop_bit m l)"
proof (rule bit_word_eqI)
  fix n assume "n < LENGTH(8)"
  then have n: "m + n < 24" "n < 8" using assms(1) by auto
  have c: "bit c (m + n - 6) \<longleftrightarrow> bit l (m + n)" if "6 \<le> m + n" "m + n < 12"
    using assms(2) that bit_and_3f [of c "m + n - 6"] bit_and_3f [of "ucast (drop_bit 6 l)" "m + n - 6"]
    by (auto simp: bit_unsigned_iff bit_drop_bit_eq)
  have d: "bit d (m + n) \<longleftrightarrow> bit l (m + n)" if "m + n < 6"
    using assms(3) that bit_and_3f [of d "m + n"] bit_and_3f [of "ucast l" "m + n"]
    by (auto simp: bit_unsigned_iff)
  show "bit (ucast (drop_bit m (sextets (ucast (drop_bit 18 l) AND 0x3f) (ucast (drop_bit 12 l) AND 0x3f)
            (c AND 0x3f) (d AND 0x3f))) :: u8) n \<longleftrightarrow> bit (ucast (drop_bit m l) :: u8) n"
    using n c d by (auto simp: bit_unsigned_iff bit_drop_bit_eq possible_bit_def bit_sextets)
qed

lemma base64_decode_quad_encode:
  "base64_decode_quad (conv_bin2ascii (ucast (drop_bit 18 l))) (conv_bin2ascii (ucast (drop_bit 12 l)))
     (conv_bin2ascii (ucast (drop_bit 6 l))) (conv_bin2ascii (ucast l))
   = Some [ucast (drop_bit 16 l), ucast (drop_bit 8 l), ucast (l :: u32)]"
  "base64_decode_quad (conv_bin2ascii (ucast (drop_bit 18 l))) (conv_bin2ascii (ucast (drop_bit 12 l)))
     (conv_bin2ascii (ucast (drop_bit 6 l))) 0x3d
   = Some [ucast (drop_bit 16 l), ucast (drop_bit 8 l)]"
  "base64_decode_quad (conv_bin2ascii (ucast (drop_bit 18 l))) (conv_bin2ascii (ucast (drop_bit 12 l)))
     0x3d 0x3d = Some [ucast (drop_bit 16 l)]"
  using sextets_of_word [of 16 _ l] sextets_of_word [of 8 "ucast (drop_bit 6 l)" l]
    sextets_of_word [of 0 "ucast (drop_bit 6 l)" l "ucast l"]
    sextets_of_word [of 16 0 l 0] sextets_of_word [of 16 "ucast (drop_bit 6 l)" l 0] sextets_of_word [of 8 "ucast (drop_bit 6 l)" l 0]
  by (simp_all add: base64_decode_quad_sextets)

section \<open>Blocks\<close>

lemma group_bytes:
  fixes s0 s1 s2 :: u8
  defines "l \<equiv> push_bit 16 (ucast s0 :: u32) OR push_bit 8 (ucast s1) OR ucast s2"
  shows "ucast (drop_bit 16 l) = s0" "ucast (drop_bit 8 l) = s1" "ucast l = s2"
proof -
  have "\<not> bit (b :: u8) (8 + n)" for b n using bit_imp_le_length [of b "8 + n"] by auto
  moreover have "\<not> bit (b :: u8) (16 + n)" for b n using bit_imp_le_length [of b "16 + n"] by auto
  ultimately show "ucast (drop_bit 16 l) = s0" "ucast (drop_bit 8 l) = s1" "ucast l = s2"
    by (intro bit_word_eqI; simp add: l_def bit_simps possible_bit_def)+
qed

lemma length_encode_block_loop: "length (encode_block_loop xs) = (length xs + 2) div 3 * 4"
proof (induction xs rule: encode_block_loop.induct)
  case (2 s0 s1 s2 src)
  moreover have "(length (s0 # s1 # s2 # src) + 2) div 3 = (length src + 2) div 3 + 1"
    by (simp add: div_add_self2 [of 3 "length src + 2", simplified])
  ultimately show ?case by (simp add: Let_def)
qed (simp_all add: Let_def)

lemma encode_block_loop_Nil_iff [simp]: "encode_block_loop xs = [] \<longleftrightarrow> xs = []"
  by (induction xs rule: encode_block_loop.induct) (simp_all add: Let_def)

lemma length_4_Cons: "length (xs :: bytes) mod 4 = 0 \<Longrightarrow> xs \<noteq> [] \<Longrightarrow> \<exists>a b c d ys. xs = a # b # c # d # ys"
  by (cases xs rule: decode_quads.cases) auto

lemma encode_block_loop_group:
  "encode_block_loop (s0 # s1 # s2 # src) =
     (let l = push_bit 16 (ucast s0) OR push_bit 8 (ucast s1) OR ucast s2 :: u32
      in conv_bin2ascii (ucast (drop_bit 18 l)) # conv_bin2ascii (ucast (drop_bit 12 l))
         # conv_bin2ascii (ucast (drop_bit 6 l)) # conv_bin2ascii (ucast l) # encode_block_loop src)"
  by (simp only: encode_block_loop.simps)

lemma decode_quads_encode: "decode_quads (encode_block_loop xs) = Some xs"
proof (induction xs rule: encode_block_loop.induct)
  case (2 s0 s1 s2 src)
  define l :: u32 where "l = push_bit 16 (ucast s0) OR push_bit 8 (ucast s1) OR ucast s2"
  show ?case
    using 2 base64_decode_quad_encode(1) [of l] unfolding encode_block_loop.simps Let_def l_def [symmetric]
    by (simp add: group_bytes [of s0 s1 s2, folded l_def])
next
  case (3 s0 s1)
  define l :: u32 where "l = push_bit 16 (ucast s0) OR push_bit 8 (ucast s1)"
  show ?case
    using group_bytes [of s0 s1 0] unfolding encode_block_loop.simps Let_def l_def [symmetric]
    by (simp add: base64_decode_quad_encode l_def [symmetric])
next
  case (4 s0)
  define l :: u32 where "l = push_bit 16 (ucast s0)"
  show ?case
    using group_bytes [of s0 0 0] unfolding encode_block_loop.simps Let_def l_def [symmetric]
    by (simp add: base64_decode_quad_encode l_def [symmetric])
qed simp

text \<open>The block decoder inverts the block encoder, whatever the length of the input.\<close>

lemma DecodeBase64_EncodeBlock:
  assumes "(length xs + 2) div 3 * 3 \<le> max_out"
  shows "EVP_DecodeBase64 max_out (take (snd (EVP_EncodeBlock xs)) (fst (EVP_EncodeBlock xs))) = Some xs"
proof -
  have "length (encode_block_loop xs) mod 4 = 0" by (simp add: length_encode_block_loop)
  moreover have "length (encode_block_loop xs) div 4 * 3 = (length xs + 2) div 3 * 3"
    by (simp add: length_encode_block_loop)
  ultimately show ?thesis
    using assms by (simp add: EVP_EncodeBlock_def EVP_DecodeBase64_def EVP_DecodedLength_def decode_quads_encode)
qed

lemma EncodedLength_exact:
  "EVP_EncodedLength n = (if (n + 2) div 3 * 4 + 1 < size_mod then Some ((n + 2) div 3 * 4 + 1) else None)"
  if "n < size_mod" for n
proof (cases "n + 2 < size_mod")
  case True
  define m where "m = (n + 2) div 3"
  have "m < 2 ^ 63" using True by (simp add: m_def size_mod_def)
  have "m * 4 mod size_mod div 4 = m \<longleftrightarrow> m * 4 + 1 < size_mod"
  proof
    assume *: "m * 4 mod size_mod div 4 = m"
    have "m * 4 mod size_mod < 2 ^ 62 * 4" by (simp add: size_mod_def)
    from less_mult_imp_div_less [OF this] have "m < 2 ^ 62" by (simp only: *)
    then show "m * 4 + 1 < size_mod" by (simp add: size_mod_def)
  qed simp
  moreover have "\<not> size_add n 2 < n" using True by (simp add: size_add_exact)
  moreover have "size_add (m * 4) 1 = m * 4 + 1" if "m * 4 + 1 < size_mod" using that by (rule size_add_exact)
  ultimately show ?thesis
    unfolding EVP_EncodedLength_def size_add_exact [OF True] Let_def m_def [symmetric] by auto
next
  case False
  then have "size_add n 2 < n" using that size_add_wraps [of n 2] by (simp add: size_mod_def)
  moreover have "\<not> (n + 2) div 3 * 4 + 1 < size_mod" using False by (simp add: size_mod_def)
  ultimately show ?thesis by (simp add: EVP_EncodedLength_def)
qed

text \<open>A decoded string has the length its padding announces, and it fits in \<open>EVP_DecodedLength\<close>.\<close>

lemma decode_quad_length: "base64_decode_quad a b c d = Some bs \<Longrightarrow> 1 \<le> length bs \<and> length bs \<le> 3"
  by (auto simp: base64_decode_quad_def Let_def split: if_splits)

lemma decode_quads_length:
  "decode_quads s = Some xs \<Longrightarrow> length s mod 4 = 0 \<Longrightarrow> (length xs + 2) div 3 * 4 = length s"
proof (induction s arbitrary: xs rule: decode_quads.induct)
  case (1 a b c d t)
  then obtain bs ys where bs: "base64_decode_quad a b c d = Some bs" "xs = bs @ ys" "decode_quads t = Some ys"
    "length bs = 3 \<or> t = []"
    by (auto split: option.splits if_splits)
  have len: "length t mod 4 = 0" using 1(3) by simp
  show ?case
  proof (cases "length bs = 3")
    case True
    then have "(length ys + 2) div 3 * 4 = length t" using 1(1) bs len by simp
    moreover have "(length xs + 2) div 3 = (length ys + 2) div 3 + 1"
      using bs True div_add_self2 [of 3 "length ys + 2"] by (simp add: add.commute)
    ultimately show ?thesis by simp
  next
    case False
    then have "length bs = 1 \<or> length bs = 2" "ys = []" "t = []" using bs decode_quad_length [OF bs(1)] by auto
    then show ?thesis using bs by auto
  qed
qed auto

text \<open>Without padding the decoder is injective: it accepts only what the encoder writes.\<close>

lemma unat_less_64_iff: "unat (a :: u8) < 64 \<longleftrightarrow> a AND 0x3f = a"
  using mod_less_divisor [of 64 "unat a"] by (auto simp: word_unat_eq_iff)

lemma conv_bin2ascii_and [simp]: "conv_bin2ascii (a AND 0x3f) = conv_bin2ascii a"
  by (simp add: word_unat_eq_iff unat_conv_bin2ascii)

lemma sextets_parts:
  assumes "k \<le> 18" "k = 18 \<and> e = a \<or> k = 12 \<and> e = b \<or> k = 6 \<and> e = c \<or> k = 0 \<and> e = d"
  shows "ucast (drop_bit k (sextets (a AND 0x3f) (b AND 0x3f) (c AND 0x3f) (d AND 0x3f))) AND 0x3f = e AND 0x3f"
proof (rule bit_word_eqI)
  fix n
  show "bit (ucast (drop_bit k (sextets (a AND 0x3f) (b AND 0x3f) (c AND 0x3f) (d AND 0x3f))) AND 0x3f :: u8) n
      \<longleftrightarrow> bit (e AND 0x3f) n"
    using assms by (auto simp: bit_and_3f bit_unsigned_iff bit_drop_bit_eq possible_bit_def bit_sextets)
qed

lemma bytes_of_sextets:
  fixes a b c d :: u8
  defines "v \<equiv> sextets (a AND 0x3f) (b AND 0x3f) (c AND 0x3f) (d AND 0x3f)"
  shows "push_bit 16 (ucast (ucast (drop_bit 16 v) :: u8)) OR push_bit 8 (ucast (ucast (drop_bit 8 v) :: u8))
      OR ucast (ucast v :: u8) = v"
proof (rule bit_word_eqI)
  fix n assume n: "n < LENGTH(32)"
  have high: "\<not> bit v n" if "24 \<le> n"
    using that bit_imp_le_length [of "a AND 0x3f" "n - 18"] bit_and_3f [of a "n - 18"]
    by (auto simp: v_def sextets_def bit_or_iff bit_push_bit_iff bit_unsigned_iff bit_and_3f)
  consider "n < 8" | "8 \<le> n" "n < 16" | "16 \<le> n" "n < 24" | "24 \<le> n" by linarith
  then show "bit (push_bit 16 (ucast (ucast (drop_bit 16 v) :: u8)) OR push_bit 8 (ucast (ucast (drop_bit 8 v) :: u8))
      OR ucast (ucast v :: u8) :: u32) n \<longleftrightarrow> bit v n"
    by cases (use n high in \<open>simp_all add: bit_or_iff bit_push_bit_iff bit_unsigned_iff bit_drop_bit_eq
      possible_bit_def less_diff_conv2\<close>)
qed

lemma decode_quad_unpadded:
  assumes "base64_decode_quad a b c d = Some [x, y, z]"
  shows "encode_block_loop (x # y # z # t) = a # b # c # d # encode_block_loop t"
proof -
  let ?b = base64_ascii_to_bin
  define v where "v = sextets (?b a) (?b b) (?b c) (?b d)"
  have valid: "\<forall>e \<in> {a, b, c, d}. e \<noteq> 0x3d \<and> ?b e \<noteq> 0xff" and x: "x = ucast (drop_bit 16 v)"
    and y: "y = ucast (drop_bit 8 v)" and z: "z = ucast v"
    using assms by (auto simp: base64_decode_quad_def Let_def v_def sextets_def split: if_splits)
  then have small: "\<forall>e \<in> {a, b, c, d}. ?b e = ?b e AND 0x3f"
    using conv_ascii_to_bin(2) unat_less_64_iff by metis
  then have v: "v = sextets (?b a AND 0x3f) (?b b AND 0x3f) (?b c AND 0x3f) (?b d AND 0x3f)" by (simp add: v_def)
  have l: "push_bit 16 (ucast x) OR push_bit 8 (ucast y) OR ucast z = v"
    unfolding x y z v by (rule bytes_of_sextets)
  have "conv_bin2ascii (ucast (drop_bit k v)) = e"
    if "k = 18 \<and> e = a \<or> k = 12 \<and> e = b \<or> k = 6 \<and> e = c \<or> k = 0 \<and> e = d" for k e
  proof -
    have "(ucast (drop_bit k v) :: u8) AND 0x3f = ?b e AND 0x3f"
      unfolding v by (rule sextets_parts) (use that in auto)
    then have "conv_bin2ascii (ucast (drop_bit k v)) = conv_bin2ascii (?b e)"
      by (metis conv_bin2ascii_and)
    then show ?thesis using valid that conv_ascii_to_bin(1) by auto
  qed
  from this [of 18 a] this [of 12 b] this [of 6 c] this [of 0 d] show ?thesis
    by (simp add: l Let_def)
qed

lemma decode_quads_unpadded:
  "decode_quads s = Some xs \<Longrightarrow> length s mod 4 = 0 \<Longrightarrow> length xs mod 3 = 0 \<Longrightarrow> encode_block_loop xs = s"
proof (induction s arbitrary: xs rule: decode_quads.induct)
  case (1 a b c d t)
  then obtain bs ys where bs: "base64_decode_quad a b c d = Some bs" "xs = bs @ ys" "decode_quads t = Some ys"
    "length bs = 3 \<or> t = []"
    by (auto split: option.splits if_splits)
  have "length bs = 3"
    using bs 1(4) decode_quad_length [OF bs(1)] by (cases "t = []") auto
  moreover then obtain x y z where "bs = [x, y, z]"
    by (auto simp: length_Suc_conv eval_nat_numeral)
  ultimately show ?case using 1 bs decode_quad_unpadded [of a b c d x y z ys] by auto
qed auto

end
