(* ===== verification/Base64Stream.thy ===== *)
theory Base64Stream
  imports Base64
begin

text \<open>
  The streaming functions of \<open>crypto/base64/base64.c\<close>: whatever pieces the input arrives in, the encoder
  writes the lines of the whole input, and the decoder accepts and returns what the block decoder does
  on the whole input without its white space.
\<close>

section \<open>The streaming encoder\<close>

text \<open>The reference: lines of 48 bytes, each encoded and ended by a newline.\<close>

function base64_lines :: "bytes \<Rightarrow> bytes" where
  "base64_lines xs =
     (if xs = [] then []
      else encode_block_loop (take sizeof_data xs) @ [0x0a] @ base64_lines (drop sizeof_data xs))"
  by auto
termination
  by (relation "measure length") (auto simp: sizeof_data_def)

declare base64_lines.simps [simp del]

text \<open>The complete lines of a string, and what is left over.\<close>

function full_lines :: "bytes \<Rightarrow> bytes" where
  "full_lines xs =
     (if sizeof_data \<le> length xs
      then encode_block_loop (take sizeof_data xs) @ [0x0a] @ full_lines (drop sizeof_data xs) else [])"
  by auto
termination
  by (relation "measure length") (auto simp: sizeof_data_def)

declare full_lines.simps [simp del]

definition left_over :: "bytes \<Rightarrow> bytes" where
  "left_over xs = drop (length xs div sizeof_data * sizeof_data) xs"

lemma left_over_simps:
  "length xs < sizeof_data \<Longrightarrow> left_over xs = xs"
  "sizeof_data \<le> length xs \<Longrightarrow> left_over xs = left_over (drop sizeof_data xs)"
proof -
  show "length xs < sizeof_data \<Longrightarrow> left_over xs = xs" by (simp add: left_over_def)
  assume le: "sizeof_data \<le> length xs"
  then obtain m where m: "length xs = m + sizeof_data" using le_Suc_ex by (metis add.commute)
  have "length xs div sizeof_data = Suc (m div sizeof_data)" by (simp add: m sizeof_data_def)
  then show "left_over xs = left_over (drop sizeof_data xs)" using m by (simp add: left_over_def add.commute)
qed

lemma length_left_over: "length (left_over xs) < sizeof_data"
proof -
  have "length (left_over xs) = length xs mod sizeof_data" by (simp add: left_over_def minus_div_mult_eq_mod)
  then show ?thesis by (simp add: sizeof_data_def)
qed

lemma full_lines_append:
  "full_lines (xs @ ys) = full_lines xs @ full_lines (left_over xs @ ys) \<and>
   left_over (xs @ ys) = left_over (left_over xs @ ys)"
proof (induction xs rule: full_lines.induct)
  case (1 xs)
  show ?case
  proof (cases "sizeof_data \<le> length xs")
    case True
    then show ?thesis
      using 1 [OF True] full_lines.simps [of xs] full_lines.simps [of "xs @ ys"]
        left_over_simps(2) [of "xs @ ys"] left_over_simps(2) [of xs]
      by simp
  next
    case False
    then show ?thesis by (simp add: left_over_simps full_lines.simps [of xs])
  qed
qed

lemma base64_lines_full:
  "base64_lines xs =
     full_lines xs @ (if left_over xs = [] then [] else encode_block_loop (left_over xs) @ [0x0a])"
proof (induction xs rule: full_lines.induct)
  case (1 xs)
  consider "xs = []" | "xs \<noteq> []" "length xs < sizeof_data" | "sizeof_data \<le> length xs" by linarith
  then show ?case
  proof cases
    case 3
    then have "xs \<noteq> []" by (auto simp: sizeof_data_def)
    then show ?thesis
      using 3 1 [OF 3] base64_lines.simps [of xs] full_lines.simps [of xs] left_over_simps(2) [OF 3] by simp
  qed (simp_all add: base64_lines.simps [of xs] base64_lines.simps [of "[]"] full_lines.simps [of xs]
      full_lines.simps [of "[]"] left_over_simps sizeof_data_def)
qed

lemma length_full_lines: "length (full_lines xs) = 65 * (length xs div sizeof_data)"
proof (induction xs rule: full_lines.induct)
  case (1 xs)
  show ?case
  proof (cases "sizeof_data \<le> length xs")
    case True
    then obtain m where m: "length xs = m + sizeof_data" using le_Suc_ex by (metis add.commute)
    then show ?thesis
      using 1 [OF True] full_lines.simps [of xs] div_add_self2 [of sizeof_data m]
      by (simp add: length_encode_block_loop sizeof_data_def)
  qed (simp add: full_lines.simps [of xs])
qed

lemma EncodeBlock_take: "take (snd (EVP_EncodeBlock xs)) (fst (EVP_EncodeBlock xs)) = encode_block_loop xs"
  by (simp add: EVP_EncodeBlock_def)

lemma encode_lines_spec:
  assumes "tot + 65 * (length inp div sizeof_data) < size_mod"
  shows "encode_lines tot out inp
    = (True, out @ full_lines inp, left_over inp, tot + 65 * (length inp div sizeof_data))"
  using assms
proof (induction tot out inp rule: encode_lines.induct)
  case (1 tot out inp)
  show ?case
  proof (cases "sizeof_data \<le> length inp")
    case True
    then obtain m where m: "length inp = m + sizeof_data" using le_Suc_ex by (metis add.commute)
    then have d: "length inp div sizeof_data = Suc (m div sizeof_data)" by (simp add: sizeof_data_def)
    have e: "length (encode_block_loop (take sizeof_data inp)) = 64"
      using True by (simp add: length_encode_block_loop sizeof_data_def)
    have s: "size_add tot 65 = tot + 65" using 1(2) d by (intro size_add_exact) simp
    show ?thesis
      using 1(1) [OF True, of "EVP_EncodeBlock (take sizeof_data inp)" "fst (EVP_EncodeBlock (take sizeof_data inp))" 64] 1(2) True d m e s
        encode_lines.simps [of tot out inp] full_lines.simps [of inp] left_over_simps(2) [OF True]
      by (simp add: EVP_EncodeBlock_def Let_def)
  qed (simp add: encode_lines.simps [of tot] full_lines.simps [of inp] left_over_simps)
qed

text \<open>The bytes that wait in the context, and the invariant of a context between two calls.\<close>

definition buffered :: "encode_ctx \<Rightarrow> bytes" where
  "buffered ctx = take (data_used ctx) (ctx_data ctx)"

definition ctx_ok :: "encode_ctx \<Rightarrow> bool" where
  "ctx_ok ctx \<longleftrightarrow> length (ctx_data ctx) = sizeof_data \<and> data_used ctx < sizeof_data"

lemma ctx_ok_init [simp]: "ctx_ok EVP_EncodeInit" "buffered EVP_EncodeInit = []"
  by (simp_all add: ctx_ok_def buffered_def EVP_EncodeInit_def sizeof_data_def)

lemma length_buffered: "ctx_ok ctx \<Longrightarrow> length (buffered ctx) = data_used ctx"
  by (simp add: ctx_ok_def buffered_def)

text \<open>The longest input whose output length surely fits in an \<open>int\<close>.\<close>

definition max_update :: nat where "max_update = 1585000000"

lemma EncodeUpdate_spec:
  assumes ok: "ctx_ok ctx" and small: "length inp \<le> max_update"
    and e: "EVP_EncodeUpdate inp ctx = (ctx', out, n)"
  shows "ctx_ok ctx'" "take n out = full_lines (buffered ctx @ inp)" "buffered ctx' = left_over (buffered ctx @ inp)"
proof -
  let ?b = "buffered ctx"
  note lb = length_buffered [OF ok]
  have du: "data_used ctx < sizeof_data" using ok by (simp add: ctx_ok_def)
  have "ctx_ok ctx' \<and> take n out = full_lines (?b @ inp) \<and> buffered ctx' = left_over (?b @ inp)"
  proof (cases "sizeof_data - data_used ctx > length inp")
    case True
    then have "full_lines (?b @ inp) = []" "left_over (?b @ inp) = ?b @ inp"
      using lb full_lines.simps [of "?b @ inp"] by (simp_all add: left_over_simps)
    then show ?thesis
      using e ok True by (cases "inp = []") (auto simp: EVP_EncodeUpdate_def ctx_ok_def buffered_def)
  next
    case False
    then have ne: "inp \<noteq> []" using du by auto
    define todo where "todo = (if data_used ctx = 0 then 0 else sizeof_data - data_used ctx)"
    define line where "line = (if data_used ctx = 0 then [] else encode_block_loop (?b @ take todo inp) @ [0x0a])"
    define data where "data = (if data_used ctx = 0 then ctx_data ctx else ?b @ take todo inp)"
    define rest where "rest = drop todo inp"
    have todo: "todo \<le> length inp" using False by (simp add: todo_def)
    have len: "length line = (if data_used ctx = 0 then 0 else 65)" "length data = sizeof_data"
      using False lb ok du by (auto simp: line_def data_def todo_def length_encode_block_loop ctx_ok_def sizeof_data_def)
    have b0: "data_used ctx = 0 \<Longrightarrow> ?b = []" by (simp add: buffered_def)
    have full: "full_lines (?b @ inp) = line @ full_lines rest \<and> left_over (?b @ inp) = left_over rest"
    proof (cases "data_used ctx = 0")
      case True
      then show ?thesis by (simp add: b0 line_def rest_def todo_def)
    next
      case used: False
      have len48: "sizeof_data \<le> length (?b @ inp)" using False lb by simp
      moreover have "take sizeof_data (?b @ inp) = ?b @ take todo inp" "drop sizeof_data (?b @ inp) = rest"
        using used lb du by (simp_all add: todo_def rest_def)
      ultimately show ?thesis
        using used full_lines.simps [of "?b @ inp"] left_over_simps(2) [OF len48] by (simp add: line_def)
    qed
    have lr: "length rest \<le> max_update" using small by (simp add: rest_def)
    have rest_div: "length rest div sizeof_data \<le> 33020833"
      using lr div_le_mono [OF lr, of sizeof_data] by (simp add: max_update_def sizeof_data_def)
    have total: "length line + 65 * (length rest div sizeof_data) \<le> INT_MAX"
      using rest_div len(1) by (auto simp: INT_MAX_def)
    have lines: "encode_lines (length line) line rest
        = (True, line @ full_lines rest, left_over rest, length line + 65 * (length rest div sizeof_data))"
      using total by (intro encode_lines_spec) (simp add: INT_MAX_def size_mod_def)
    have step: "EVP_EncodeUpdate inp ctx =
      (let ctx = ctx\<lparr>ctx_data := data, data_used := 0\<rparr>; inp = left_over rest
       in ((if length inp \<noteq> 0 then ctx\<lparr>ctx_data := inp @ drop (length inp) (ctx_data ctx)\<rparr> else ctx)\<lparr>data_used := length inp\<rparr>,
           (line @ full_lines rest) @ [0], length line + 65 * (length rest div sizeof_data)))"
    proof (cases "data_used ctx = 0")
      case True
      then show ?thesis
        using False ne lines total
        by (simp add: EVP_EncodeUpdate_def Let_def line_def data_def rest_def todo_def)
    next
      case used: False
      have l64: "length (encode_block_loop (?b @ take (sizeof_data - data_used ctx) inp)) = 64"
        using len(1) used by (simp add: line_def todo_def)
      have "EVP_EncodeBlock (?b @ take (sizeof_data - data_used ctx) inp)
          = (encode_block_loop (?b @ take (sizeof_data - data_used ctx) inp) @ [0], 64)"
        using l64 by (simp add: EVP_EncodeBlock_def)
      then show ?thesis
        using False ne lines total used l64
        by (simp add: EVP_EncodeUpdate_def Let_def line_def data_def rest_def todo_def buffered_def)
    qed
    show ?thesis
      using e length_left_over [of rest] len(2) full
      by (auto simp: step Let_def ctx_ok_def buffered_def length_full_lines split: if_splits)
  qed
  then show "ctx_ok ctx'" "take n out = full_lines (?b @ inp)" "buffered ctx' = left_over (?b @ inp)" by blast+
qed

text \<open>Any number of calls of \<open>EVP_EncodeUpdate\<close>, then \<open>EVP_EncodeFinal\<close>; the caller keeps the
  first \<open>*out_len\<close> bytes of what each call stores.\<close>

fun encode_updates :: "bytes list \<Rightarrow> encode_ctx \<Rightarrow> encode_ctx \<times> bytes" where
  "encode_updates [] ctx = (ctx, [])"
| "encode_updates (c # cs) ctx =
     (let (ctx, out, n) = EVP_EncodeUpdate c ctx; (ctx, rest) = encode_updates cs ctx
      in (ctx, take n out @ rest))"

definition encode_stream :: "bytes list \<Rightarrow> bytes" where
  "encode_stream cs =
     (let (ctx, out) = encode_updates cs EVP_EncodeInit; (ctx, last_line, n) = EVP_EncodeFinal ctx
      in out @ take n last_line)"

lemma encode_updates_spec:
  "ctx_ok ctx \<Longrightarrow> \<forall>c \<in> set cs. length c \<le> max_update \<Longrightarrow> encode_updates cs ctx = (ctx', out) \<Longrightarrow>
   ctx_ok ctx' \<and> full_lines (buffered ctx @ concat cs) = out \<and> left_over (buffered ctx @ concat cs) = buffered ctx'"
proof (induction cs arbitrary: ctx ctx' out)
  case Nil
  then show ?case
    using length_buffered [of ctx] by (auto simp: full_lines.simps [of "buffered ctx'"] left_over_simps ctx_ok_def)
next
  case (Cons c cs)
  obtain ctx1 out1 n where u: "EVP_EncodeUpdate c ctx = (ctx1, out1, n)" by (cases "EVP_EncodeUpdate c ctx")
  obtain out2 where r: "encode_updates cs ctx1 = (ctx', out2)" "out = take n out1 @ out2"
    using Cons.prems(3) u by (auto split: prod.splits)
  note u' = EncodeUpdate_spec [OF Cons.prems(1) _ u]
  have "ctx_ok ctx' \<and> full_lines (buffered ctx1 @ concat cs) = out2
      \<and> left_over (buffered ctx1 @ concat cs) = buffered ctx'"
    using Cons.IH [OF u'(1) _ r(1)] Cons.prems(2) by simp
  then show ?case
    using full_lines_append [of "buffered ctx @ c" "concat cs"] u'(2,3) Cons.prems(2) r(2) by simp
qed

lemma EncodeFinal_spec:
  assumes "ctx_ok ctx" "EVP_EncodeFinal ctx = (ctx', out, n)"
  shows "take n out = (if buffered ctx = [] then [] else encode_block_loop (buffered ctx) @ [0x0a])"
    and "data_used ctx' = 0"
  using assms length_buffered [OF assms(1)]
  by (auto simp: EVP_EncodeFinal_def EVP_EncodeBlock_def buffered_def split: if_splits)

text \<open>However the input is cut into pieces, the streaming encoder writes the same lines.\<close>

lemma encode_stream_lines:
  assumes "\<forall>c \<in> set cs. length c \<le> max_update"
  shows "encode_stream cs = base64_lines (concat cs)"
proof -
  obtain ctx out where u: "encode_updates cs EVP_EncodeInit = (ctx, out)" by (cases "encode_updates cs EVP_EncodeInit")
  obtain ctx' o' n where f: "EVP_EncodeFinal ctx = (ctx', o', n)" by (cases "EVP_EncodeFinal ctx")
  have "ctx_ok ctx \<and> full_lines (concat cs) = out \<and> left_over (concat cs) = buffered ctx"
    using encode_updates_spec [OF _ assms u] by simp
  then show ?thesis
    using EncodeFinal_spec(1) [OF _ f] by (simp add: encode_stream_def u f base64_lines_full)
qed

section \<open>The streaming decoder\<close>

definition is_space_char :: "u8 \<Rightarrow> bool" where
  "is_space_char c \<longleftrightarrow> c \<in> {0x20, 0x09, 0x0d, 0x0a}"

definition strip_spaces :: "bytes \<Rightarrow> bytes" where
  "strip_spaces s = filter (\<lambda>c. \<not> is_space_char c) s"

text \<open>White space never changes the state, and the loop can be stopped and resumed anywhere.\<close>

text \<open>One turn of the loop.\<close>

definition dec_step :: "u8 \<Rightarrow> encode_ctx \<Rightarrow> bytes option \<times> encode_ctx" where
  "dec_step c ctx =
     (if is_space_char c then (Some [], ctx)
      else if eof_seen ctx then (None, ctx\<lparr>error_encountered := True\<rparr>)
      else
        let ctx = ctx\<lparr>ctx_data := (ctx_data ctx)[data_used ctx := c], data_used := data_used ctx + 1\<rparr> in
        if data_used ctx \<noteq> 4 then (Some [], ctx)
        else case base64_decode_quad (ctx_data ctx ! 0) (ctx_data ctx ! 1) (ctx_data ctx ! 2) (ctx_data ctx ! 3) of
               None \<Rightarrow> (None, ctx\<lparr>error_encountered := True\<rparr>)
             | Some bs \<Rightarrow> (Some bs, if length bs < 3 then ctx\<lparr>data_used := 0, eof_seen := True\<rparr>
                                    else ctx\<lparr>data_used := 0\<rparr>))"

lemma decode_update_loop_Cons:
  "decode_update_loop (c # s) out ctx =
     (case dec_step c ctx of
        (None, ctx) \<Rightarrow> (None, ctx, out)
      | (Some bs, ctx) \<Rightarrow> decode_update_loop s (out @ bs) ctx)"
  by (auto simp: dec_step_def is_space_char_def Let_def split: option.splits)

declare decode_update_loop.simps(2) [simp del]
declare decode_update_loop_Cons [simp]

lemma decode_update_loop_strip: "decode_update_loop (strip_spaces s) out ctx = decode_update_loop s out ctx"
  by (induction s arbitrary: out ctx)
    (auto simp: strip_spaces_def dec_step_def split: option.splits prod.splits)

lemma decode_update_loop_append:
  "decode_update_loop (s @ t) out ctx =
     (case decode_update_loop s out ctx of
        (None, ctx, out) \<Rightarrow> (None, ctx, out)
      | (Some _, ctx, out) \<Rightarrow> decode_update_loop t out ctx)"
  by (induction s arbitrary: out ctx) (auto split: option.splits prod.splits)

lemma decode_update_loop_out:
  "decode_update_loop s out ctx =
     (case decode_update_loop s [] ctx of (r, ctx, out') \<Rightarrow> (r, ctx, out @ out'))"
proof (induction s arbitrary: out ctx)
  case (Cons c s)
  obtain r ctx1 where d: "dec_step c ctx = (r, ctx1)" by (cases "dec_step c ctx")
  then show ?case
    using Cons.IH [of "out @ the r" ctx1] Cons.IH [of "the r" ctx1]
    by (cases r) (simp_all split: prod.splits)
qed simp

text \<open>The invariant of a decoding context: fewer than four characters wait, none after padding.\<close>

definition dec_ok :: "encode_ctx \<Rightarrow> bool" where
  "dec_ok ctx \<longleftrightarrow> length (ctx_data ctx) = sizeof_data \<and> data_used ctx < 4
     \<and> (eof_seen ctx \<longrightarrow> data_used ctx = 0) \<and> \<not> error_encountered ctx"

lemma dec_ok_init [simp]: "dec_ok EVP_DecodeInit"
  by (simp add: dec_ok_def EVP_DecodeInit_def sizeof_data_def)

lemma dec_step_keeps:
  "dec_step c ctx = (r, ctx1) \<Longrightarrow> dec_ok ctx \<Longrightarrow>
   case r of None \<Rightarrow> error_encountered ctx1
   | Some bs \<Rightarrow> dec_ok ctx1 \<and> length bs + data_used ctx1 \<le> 1 + data_used ctx"
  by (auto simp: dec_step_def dec_ok_def Let_def split: if_splits option.splits dest!: decode_quad_length)

lemma decode_update_loop_keeps:
  "decode_update_loop s out ctx = (r, ctx1, out1) \<Longrightarrow> dec_ok ctx \<Longrightarrow>
   (if r = None then error_encountered ctx1 else dec_ok ctx1) \<and> length out1 \<le> length out + length s + data_used ctx"
proof (induction s arbitrary: out ctx)
  case (Cons c s)
  obtain q ctx2 where d: "dec_step c ctx = (q, ctx2)" by (cases "dec_step c ctx")
  then show ?case
    using Cons dec_step_keeps [OF d Cons.prems(2)] by (cases q) (force split: if_splits)+
qed auto

text \<open>From a context where nothing waits the loop follows the quads.\<close>

definition clean :: "encode_ctx \<Rightarrow> bool" where
  "clean ctx \<longleftrightarrow> dec_ok ctx \<and> data_used ctx = 0 \<and> \<not> eof_seen ctx"

lemma clean_init [simp]: "clean EVP_DecodeInit"
  by (simp add: clean_def) (simp add: EVP_DecodeInit_def)

lemma dec_step_store:
  assumes "\<not> is_space_char c" "\<not> eof_seen ctx" "data_used ctx < 3"
  shows "dec_step c ctx =
    (Some [], ctx\<lparr>ctx_data := (ctx_data ctx)[data_used ctx := c], data_used := data_used ctx + 1\<rparr>)"
  using assms by (simp add: dec_step_def Let_def)

lemma dec_step_quad:
  assumes "\<not> is_space_char d" "\<not> eof_seen ctx" "data_used ctx = 3" "ctx_data ctx = a # b # c # x # ds"
  shows "dec_step d ctx =
    (case base64_decode_quad a b c d of
       None \<Rightarrow> (None, ctx\<lparr>ctx_data := a # b # c # d # ds, data_used := 4, error_encountered := True\<rparr>)
     | Some bs \<Rightarrow> (Some bs, ctx\<lparr>ctx_data := a # b # c # d # ds, data_used := 0, eof_seen := length bs < 3\<rparr>))"
  using assms by (simp add: dec_step_def Let_def numeral_3_eq_3 split: option.split)

lemma decode_update_loop_quad:
  assumes "clean ctx" "\<not> is_space_char a" "\<not> is_space_char b" "\<not> is_space_char c" "\<not> is_space_char d"
  defines "ctx1 \<equiv> ctx\<lparr>ctx_data := [a, b, c, d] @ drop 4 (ctx_data ctx), data_used := 0\<rparr>"
  shows "decode_update_loop (a # b # c # d # s) out ctx =
    (case base64_decode_quad a b c d of
       None \<Rightarrow> (None, ctx1\<lparr>data_used := 4, error_encountered := True\<rparr>, out)
     | Some bs \<Rightarrow> decode_update_loop s (out @ bs) (if length bs < 3 then ctx1\<lparr>eof_seen := True\<rparr> else ctx1))"
proof -
  have "length (ctx_data ctx) = Suc (Suc (Suc (Suc 44)))" using assms(1) by (simp add: clean_def dec_ok_def sizeof_data_def)
  then obtain w x y z ds where ds: "ctx_data ctx = w # x # y # z # ds"
    by (auto simp only: length_Suc_conv)
  have ctx: "data_used ctx = 0" "\<not> eof_seen ctx" using assms(1) by (simp_all add: clean_def)
  obtain e where c: "ctx = \<lparr>data_used = 0, ctx_data = w # x # y # z # ds, eof_seen = False, error_encountered = e\<rparr>"
    using ctx ds by (cases ctx) simp
  define c3 where "c3 = \<lparr>data_used = 3, ctx_data = a # b # c # z # ds, eof_seen = False, error_encountered = e\<rparr>"
  have "decode_update_loop (a # b # c # d # s) out ctx
      = (case dec_step d c3 of (None, ctx) \<Rightarrow> (None, ctx, out) | (Some bs, ctx) \<Rightarrow> decode_update_loop s (out @ bs) ctx)"
    using assms(2-4) by (simp add: c dec_step_store c3_def eval_nat_numeral)
  moreover have "dec_step d c3 = (case base64_decode_quad a b c d of
       None \<Rightarrow> (None, c3\<lparr>ctx_data := a # b # c # d # ds, data_used := 4, error_encountered := True\<rparr>)
     | Some bs \<Rightarrow> (Some bs, c3\<lparr>ctx_data := a # b # c # d # ds, data_used := 0, eof_seen := length bs < 3\<rparr>))"
    by (rule dec_step_quad) (use assms(5) in \<open>simp_all add: c3_def\<close>)
  ultimately show ?thesis
    by (cases "base64_decode_quad a b c d") (simp_all add: c3_def ctx1_def c)
qed

lemma decode_update_loop_short:
  assumes "clean ctx" "length s < 4" "\<forall>c \<in> set s. \<not> is_space_char c"
  shows "\<exists>ctx1. decode_update_loop s out ctx = (Some (), ctx1, out) \<and> data_used ctx1 = length s"
proof -
  have "length s = 0 \<or> length s = 1 \<or> length s = 2 \<or> length s = 3" using assms(2) by linarith
  then have "s = [] \<or> (\<exists>a. s = [a]) \<or> (\<exists>a b. s = [a, b]) \<or> (\<exists>a b c. s = [a, b, c])"
    by (auto simp: length_Suc_conv eval_nat_numeral)
  then show ?thesis using assms(1,3) by (auto simp: clean_def dec_step_def Let_def)
qed

definition finish :: "unit option \<times> encode_ctx \<times> bytes \<Rightarrow> bytes option" where
  "finish = (\<lambda>(r, ctx, out). if r \<noteq> None \<and> data_used ctx = 0 then Some out else None)"

lemma finish_short:
  assumes "clean ctx" "length s < 4" "\<forall>c \<in> set s. \<not> is_space_char c"
  shows "finish (decode_update_loop s out ctx) = (if s = [] then Some out else None)"
  using decode_update_loop_short [OF assms, of out] by (auto simp: finish_def)

lemma finish_loop:
  "clean ctx \<Longrightarrow> \<forall>c \<in> set s. \<not> is_space_char c \<Longrightarrow>
   finish (decode_update_loop s out ctx)
     = (if length s mod 4 = 0 then map_option ((@) out) (decode_quads s) else None)"
proof (induction s arbitrary: out ctx rule: decode_quads.induct)
  case (1 a b c d s)
  define ctx1 where "ctx1 = ctx\<lparr>ctx_data := [a, b, c, d] @ drop 4 (ctx_data ctx), data_used := 0\<rparr>"
  have cl: "clean ctx1" using 1(2) by (auto simp: ctx1_def clean_def dec_ok_def sizeof_data_def)
  have step: "decode_update_loop (a # b # c # d # s) out ctx =
    (case base64_decode_quad a b c d of
       None \<Rightarrow> (None, ctx1\<lparr>data_used := 4, error_encountered := True\<rparr>, out)
     | Some bs \<Rightarrow> decode_update_loop s (out @ bs) (if length bs < 3 then ctx1\<lparr>eof_seen := True\<rparr> else ctx1))"
    unfolding ctx1_def by (rule decode_update_loop_quad) (use 1 in auto)
  have len: "length (a # b # c # d # s) mod 4 = length s mod 4" by simp
  show ?case
  proof (cases "base64_decode_quad a b c d")
    case None
    then show ?thesis unfolding step by (simp add: finish_def)
  next
    case (Some bs)
    show ?thesis
    proof (cases "length bs < 3")
      case True
      have "finish (decode_update_loop s (out @ bs) (ctx1\<lparr>eof_seen := True\<rparr>)) = (if s = [] then Some (out @ bs) else None)"
        using 1(3) by (cases s) (auto simp: finish_def dec_step_def ctx1_def)
      then show ?thesis unfolding step using Some True by auto
    next
      case False
      then have "length bs = 3" using decode_quad_length [OF Some] by simp
      then show ?thesis
        unfolding step len using Some 1(1) [OF Some _ cl, of "out @ bs"] 1(3)
        by (cases "decode_quads s") simp_all
    qed
  qed
qed (simp_all add: finish_short del: decode_update_loop_Cons decode_update_loop.simps)

text \<open>Any number of calls of \<open>EVP_DecodeUpdate\<close>, stopped at the first failure, then
  \<open>EVP_DecodeFinal\<close>.\<close>

fun decode_updates :: "bytes list \<Rightarrow> encode_ctx \<Rightarrow> encode_ctx \<times> bytes option" where
  "decode_updates [] ctx = (ctx, Some [])"
| "decode_updates (c # cs) ctx =
     (case EVP_DecodeUpdate c ctx of
        (r, ctx, out, n) \<Rightarrow>
          if r = -1 then (ctx, None)
          else case decode_updates cs ctx of (ctx, rest) \<Rightarrow> (ctx, map_option ((@) (take n out)) rest))"

definition decode_stream :: "bytes list \<Rightarrow> bytes option" where
  "decode_stream cs =
     (case decode_updates cs EVP_DecodeInit of
        (ctx, out) \<Rightarrow> if EVP_DecodeFinal ctx = 1 then out else None)"

lemma decode_updates_spec:
  "dec_ok ctx \<Longrightarrow> \<forall>c \<in> set cs. length c + 4 \<le> INT_MAX \<Longrightarrow>
   (case decode_updates cs ctx of (ctx', out) \<Rightarrow> if EVP_DecodeFinal ctx' = 1 then out else None)
     = finish (decode_update_loop (concat cs) [] ctx)"
proof (induction cs arbitrary: ctx)
  case Nil
  then show ?case by (simp add: finish_def EVP_DecodeFinal_def dec_ok_def)
next
  case (Cons c cs)
  obtain r ctx1 out1 where l: "decode_update_loop c [] ctx = (r, ctx1, out1)" by (cases "decode_update_loop c [] ctx")
  have keeps: "if r = None then error_encountered ctx1 else dec_ok ctx1" "length out1 \<le> length c + data_used ctx"
    using decode_update_loop_keeps [OF l Cons.prems(1)] by auto
  have ne: "\<not> error_encountered ctx" using Cons.prems(1) by (simp add: dec_ok_def)
  show ?case
  proof (cases r)
    case None
    then have "EVP_DecodeUpdate c ctx = (-1, ctx1, out1, 0)" using ne l by (simp add: EVP_DecodeUpdate_def)
    then show ?thesis using None keeps l by (simp add: finish_def EVP_DecodeFinal_def decode_update_loop_append)
  next
    case (Some u)
    have "length out1 \<le> INT_MAX" using keeps(2) Cons.prems by (auto simp: dec_ok_def)
    then have u: "EVP_DecodeUpdate c ctx = (if eof_seen ctx1 then 0 else 1, ctx1, out1, length out1)"
      using ne l Some by (simp add: EVP_DecodeUpdate_def)
    have "finish (decode_update_loop (concat (c # cs)) [] ctx)
        = map_option ((@) out1) (finish (decode_update_loop (concat cs) [] ctx1))"
      using l Some decode_update_loop_out [of "concat cs" out1 ctx1]
      by (auto simp: decode_update_loop_append finish_def split: prod.splits)
    moreover have "(case decode_updates cs ctx1 of (ctx', out) \<Rightarrow> if EVP_DecodeFinal ctx' = 1 then out else None)
        = finish (decode_update_loop (concat cs) [] ctx1)"
      using Cons keeps Some by simp
    ultimately show ?thesis using u by (auto split: prod.splits)
  qed
qed

lemma append_Nil_id: "(@) [] = id"
  by auto

lemma decode_stream_block:
  assumes "\<forall>c \<in> set cs. length c + 4 \<le> INT_MAX"
  shows "decode_stream cs =
    (if length (strip_spaces (concat cs)) mod 4 = 0 then decode_quads (strip_spaces (concat cs)) else None)"
  using decode_updates_spec [OF dec_ok_init assms]
    finish_loop [OF clean_init, of "strip_spaces (concat cs)" "[]"] decode_update_loop_strip [of "concat cs"]
  by (simp add: decode_stream_def strip_spaces_def append_Nil_id option.map_id)

text \<open>The lines of the encoder, without their newlines, are the encoded block.\<close>

lemma encode_block_loop_append:
  "length xs mod 3 = 0 \<Longrightarrow> encode_block_loop (xs @ ys) = encode_block_loop xs @ encode_block_loop ys"
  by (induction xs rule: encode_block_loop.induct) (simp_all add: Let_def)

lemma encode_block_loop_chars: "c \<in> set (encode_block_loop xs) \<Longrightarrow> \<not> is_space_char c"
  by (induction xs rule: encode_block_loop.induct) (auto simp: Let_def is_space_char_def)

lemma strip_base64_lines: "strip_spaces (base64_lines xs) = encode_block_loop xs"
proof (induction xs rule: base64_lines.induct)
  case (1 xs)
  show ?case
  proof (cases "xs = []")
    case False
    have "encode_block_loop xs = encode_block_loop (take sizeof_data xs) @ encode_block_loop (drop sizeof_data xs)"
    proof (cases "sizeof_data \<le> length xs")
      case True
      then show ?thesis
        using encode_block_loop_append [of "take sizeof_data xs" "drop sizeof_data xs"] by (simp add: sizeof_data_def)
    qed simp
    moreover have "filter (\<lambda>c. \<not> is_space_char c) (encode_block_loop ys) = encode_block_loop ys" for ys
      using encode_block_loop_chars [of _ ys] by (simp add: filter_id_conv)
    ultimately show ?thesis
      using 1 [OF False] False by (simp add: base64_lines.simps [of xs] strip_spaces_def is_space_char_def)
  qed (simp add: base64_lines.simps [of "[]"] strip_spaces_def)
qed

lemma decode_stream_encode_lines:
  assumes "concat cs = base64_lines xs" "\<forall>c \<in> set cs. length c + 4 \<le> INT_MAX"
  shows "decode_stream cs = Some xs"
  using assms
  by (simp add: decode_stream_block strip_base64_lines length_encode_block_loop decode_quads_encode)

end
