(* ===== verification/Codec.thy ===== *)
theory Codec
  imports Prelude "HOL-Library.Sublist"
begin

text \<open>
  The two interfaces between encoders and parsers. A \<open>parser\<close> consumes a prefix of its input. An
  \<open>exact_codec\<close> is a parser that accepts exactly the encodings of valid values: parsing inverts
  encoding, and what is accepted is the canonical encoding of the result. Canonicity, injectivity
  and prefix-freedom follow once, here, for every format of the library.
\<close>

locale parser =
  fixes get :: "(bytes, 'a) op"
  assumes suffix_left: "get bs = (r, rest) \<Longrightarrow> suffix rest bs"
begin

lemma never_grows: "get bs = (r, rest) \<Longrightarrow> length rest \<le> length bs"
  by (auto dest: suffix_left simp: suffix_length_le)

lemma consumed:
  assumes "get bs = (r, rest)"
  obtains pre where "bs = pre @ rest"
  using suffix_left [OF assms] by (auto simp: suffix_def)

end

locale exact_codec =
  fixes put :: "'a \<Rightarrow> bytes" and get :: "(bytes, 'a) op" and valid :: "'a \<Rightarrow> bool"
  assumes get_put: "valid x \<Longrightarrow> get (put x @ rest) = (Some x, rest)"
    and put_get: "get bs = (Some x, rest) \<Longrightarrow> valid x \<and> bs = put x @ rest"
begin

lemma accepts_iff: "get bs = (Some x, rest) \<longleftrightarrow> valid x \<and> bs = put x @ rest"
  using get_put put_get by auto

lemma get_exact: "valid x \<Longrightarrow> get (put x) = (Some x, [])"
  using get_put [of x "[]"] by simp

lemma put_prefix_free:
  assumes "valid x" "valid y" "put x @ r = put y @ s"
  shows "x = y" and "r = s"
proof -
  have "(Some x, r) = (Some y, s)"
    using get_put [OF assms(1), of r] get_put [OF assms(2), of s] assms(3) by metis
  then show "x = y" "r = s" by simp_all
qed

lemma put_inj: "valid x \<Longrightarrow> valid y \<Longrightarrow> put x = put y \<Longrightarrow> x = y"
  using put_prefix_free [of x y "[]" "[]"] by simp

lemma put_not_prefix:
  assumes "valid x" "valid y" "x \<noteq> y"
  shows "\<not> prefix (put x) (put y)"
proof
  assume "prefix (put x) (put y)"
  then obtain zs where "put y @ [] = put x @ zs" by (auto simp: prefix_def)
  then show False using put_prefix_free(1) assms by metis
qed

lemma put_nonempty:
  assumes "valid x" "valid y" "x \<noteq> y"
  shows "put x \<noteq> []"
  using put_not_prefix [OF assms] by auto

end

text \<open>A sequence of values, encoded back to back, is read back item by item.\<close>

fun op_repeat :: "nat \<Rightarrow> ('s, 'a) op \<Rightarrow> ('s, 'a list) op" where
  "op_repeat 0 m = op_return []"
| "op_repeat (Suc n) m = op_bind m (\<lambda>x. op_bind (op_repeat n m) (\<lambda>xs. op_return (x # xs)))"

context exact_codec
begin

lemma repeat_put:
  "list_all valid xs \<Longrightarrow>
   op_repeat (length xs) get (concat (map put xs) @ rest) = (Some xs, rest)"
  by (induction xs) (simp_all add: op_simps get_put)

lemma repeat_accepts:
  "op_repeat n get bs = (Some xs, rest) \<Longrightarrow>
   length xs = n \<and> list_all valid xs \<and> bs = concat (map put xs) @ rest"
proof (induction n arbitrary: bs xs)
  case 0
  then show ?case by (simp add: op_simps)
next
  case (Suc n)
  then obtain x ys t where "get bs = (Some x, t)" "op_repeat n get t = (Some ys, rest)"
    "xs = x # ys"
    by (auto simp: op_bind_eq_Some op_simps)
  then show ?case using Suc.IH [of t ys] put_get [of bs x t] by simp
qed

end

section \<open>Parsers compose\<close>

lemma parser_bind:
  assumes "parser m" "\<And>x. parser (f x)"
  shows "parser (op_bind m f)"
proof
  fix bs r rest
  assume r: "op_bind m f bs = (r, rest)"
  show "suffix rest bs"
  proof (cases "m bs")
    case (Pair a t)
    then have "suffix t bs" using assms(1) by (rule parser.suffix_left [rotated])
    moreover have "suffix rest t" if "f x t = (r, rest)" for x
      using assms(2) that by (rule parser.suffix_left)
    ultimately show ?thesis
      using r Pair by (cases a) (auto simp: op_bind_def intro: suffix_order.order_trans)
  qed
qed

lemma parser_return: "parser (op_return x)"
  by standard (simp add: op_simps)

lemma parser_fail: "parser op_fail"
  by standard (simp add: op_simps)


text \<open>A codec stays one when its values are renamed by a bijection.\<close>

lemma exact_codec_map:
  assumes "exact_codec put get valid" "\<And>x. f (g x) = x" "\<And>x. g (f x) = x"
  shows "exact_codec (\<lambda>y. put (g y)) (op_bind get (\<lambda>x. op_return (f x))) (\<lambda>y. valid (g y))"
proof
  fix y rest bs
  show "op_bind get (\<lambda>x. op_return (f x)) (put (g y) @ rest) = (Some y, rest)" if "valid (g y)"
    using exact_codec.get_put [OF assms(1) that] by (simp add: op_simps assms(2))
  assume "op_bind get (\<lambda>x. op_return (f x)) bs = (Some y, rest)"
  then obtain x where "get bs = (Some x, rest)" "y = f x"
    by (auto simp: op_bind_eq_Some op_simps)
  then show "valid (g y) \<and> bs = put (g y) @ rest"
    using exact_codec.put_get [OF assms(1)] by (simp add: assms(3))
qed

end
