(* ===== verification/Cbs.thy ===== *)
theory Cbs
  imports Mem Codec
begin

text \<open>
  The byte-string parser of BoringSSL, \<open>crypto/bytestring/cbs.c\<close>: fixed-width integers,
  length-prefixed strings, decimal and base-128 numbers. ASN.1 is in \<open>CbsAsn1\<close>.

  A \<open>CBS\<close> is a pointer and a length; it is modelled by the bytes it spans, so that advancing the
  pointer is dropping bytes. A parsing function is an operation on the \<open>CBS\<close>: it keeps what the
  code leaves in the \<open>CBS\<close> when it returns 0 half way.
\<close>

type_synonym cbs = bytes

section \<open>Fixed-width reads\<close>

definition cbs_get :: "nat \<Rightarrow> (cbs, bytes) op" where
  "cbs_get n cbs = (if length cbs < n then (None, cbs) else (Some (take n cbs), drop n cbs))"

definition CBS_skip :: "nat \<Rightarrow> (cbs, unit) op" where
  "CBS_skip len = op_bind (cbs_get len) (\<lambda>dummy. op_return ())"

text \<open>\<open>CBS_stow\<close> frees the old \<open>*out_ptr\<close>; its result is the status, \<open>*out_ptr\<close> and \<open>*out_len\<close>.\<close>

definition CBS_stow :: "heap \<Rightarrow> cbs \<Rightarrow> bool \<times> bytes option \<times> nat" where
  "CBS_stow h cbs =
     (if length cbs = 0 then (True, None, 0)
      else case OPENSSL_memdup h cbs of
             None \<Rightarrow> (False, None, 0)
           | Some out_ptr \<Rightarrow> (True, Some out_ptr, length cbs))"

definition CBS_strdup :: "heap \<Rightarrow> cbs \<Rightarrow> bytes option" where
  "CBS_strdup h cbs = OPENSSL_strndup h cbs (length cbs)"

definition CBS_contains_zero_byte :: "cbs \<Rightarrow> bool" where
  "CBS_contains_zero_byte cbs \<longleftrightarrow> OPENSSL_memchr cbs 0 \<noteq> None"

definition CBS_mem_equal :: "cbs \<Rightarrow> bytes \<Rightarrow> nat \<Rightarrow> bool" where
  "CBS_mem_equal cbs data len \<longleftrightarrow>
     (if len \<noteq> length cbs then False else CRYPTO_memcmp cbs data len = 0)"

definition cbs_get_u :: "nat \<Rightarrow> (cbs, u64) op" where
  "cbs_get_u len =
     op_bind (cbs_get len)
       (\<lambda>data. op_return (fold (\<lambda>b result. push_bit 8 result OR ucast b) data 0))"

definition CBS_get_u8 :: "(cbs, u8) op" where
  "CBS_get_u8 = op_bind (cbs_get 1) (\<lambda>v. op_return (v ! 0))"

definition CBS_get_u16 :: "(cbs, u16) op" where
  "CBS_get_u16 = op_bind (cbs_get_u 2) (\<lambda>v. op_return (ucast v))"

definition CBS_get_u16le :: "(cbs, u16) op" where
  "CBS_get_u16le = op_bind CBS_get_u16 (\<lambda>out. op_return (CRYPTO_bswap2 out))"

definition CBS_get_u24 :: "(cbs, u32) op" where
  "CBS_get_u24 = op_bind (cbs_get_u 3) (\<lambda>v. op_return (ucast v))"

definition CBS_get_u32 :: "(cbs, u32) op" where
  "CBS_get_u32 = op_bind (cbs_get_u 4) (\<lambda>v. op_return (ucast v))"

definition CBS_get_u32le :: "(cbs, u32) op" where
  "CBS_get_u32le = op_bind CBS_get_u32 (\<lambda>out. op_return (CRYPTO_bswap4 out))"

definition CBS_get_u64 :: "(cbs, u64) op" where
  "CBS_get_u64 = cbs_get_u 8"

definition CBS_get_u64le :: "(cbs, u64) op" where
  "CBS_get_u64le = op_bind (cbs_get_u 8) (\<lambda>out. op_return (CRYPTO_bswap8 out))"

definition CBS_get_last_u8 :: "(cbs, u8) op" where
  "CBS_get_last_u8 cbs =
     (if length cbs = 0 then (None, cbs)
      else (Some (cbs ! (length cbs - 1)), take (length cbs - 1) cbs))"

definition CBS_get_bytes :: "nat \<Rightarrow> (cbs, cbs) op" where
  "CBS_get_bytes len = op_bind (cbs_get len) (\<lambda>v. op_return v)"

definition CBS_copy_bytes :: "nat \<Rightarrow> (cbs, bytes) op" where
  "CBS_copy_bytes len = op_bind (cbs_get len) (\<lambda>v. op_return v)"

section \<open>Length-prefixed strings\<close>

definition cbs_get_length_prefixed :: "nat \<Rightarrow> (cbs, cbs) op" where
  "cbs_get_length_prefixed len_len = op_bind (cbs_get_u len_len) (\<lambda>len. CBS_get_bytes (unat len))"

definition CBS_get_u8_length_prefixed :: "(cbs, cbs) op" where
  "CBS_get_u8_length_prefixed = cbs_get_length_prefixed 1"

definition CBS_get_u16_length_prefixed :: "(cbs, cbs) op" where
  "CBS_get_u16_length_prefixed = cbs_get_length_prefixed 2"

definition CBS_get_u24_length_prefixed :: "(cbs, cbs) op" where
  "CBS_get_u24_length_prefixed = cbs_get_length_prefixed 3"

definition CBS_get_until_first :: "u8 \<Rightarrow> (cbs, cbs) op" where
  "CBS_get_until_first c cbs =
     (case OPENSSL_memchr cbs c of None \<Rightarrow> (None, cbs) | Some split \<Rightarrow> CBS_get_bytes split cbs)"

section \<open>Decimal numbers\<close>

definition UINT64_MAX :: u64 where
  "UINT64_MAX = 0xFFFFFFFFFFFFFFFF"

text \<open>The loop of \<open>CBS_get_u64_decimal\<close>, with the value and \<open>seen_digit\<close> so far.\<close>

fun u64_decimal_loop :: "u64 \<Rightarrow> bool \<Rightarrow> (cbs, u64) op" where
  "u64_decimal_loop v seen_digit [] = (if seen_digit then Some v else None, [])"
| "u64_decimal_loop v seen_digit (c # cbs) =
     (if \<not> OPENSSL_isdigit (uint c) then (if seen_digit then Some v else None, c # cbs)
      else if (v = 0 \<and> seen_digit) \<or> v > UINT64_MAX div 10
              \<or> v * 10 > UINT64_MAX - (ucast c - 48) then (None, cbs)
      else u64_decimal_loop (v * 10 + (ucast c - 48)) True cbs)"

definition CBS_get_u64_decimal :: "(cbs, u64) op" where
  "CBS_get_u64_decimal = u64_decimal_loop 0 False"

section \<open>Base-128 numbers\<close>

text \<open>The \<open>do\<close>/\<open>while\<close> loop of \<open>parse_base128_integer\<close>, from the value so far.\<close>

fun base128_loop :: "u64 \<Rightarrow> (cbs, u64) op" where
  "base128_loop v [] = (None, [])"
| "base128_loop v (b # cbs) =
     (if drop_bit (64 - 7) v \<noteq> 0 then (None, cbs)
      else if v = 0 \<and> b = 0x80 then (None, cbs)
      else let v' = push_bit 7 v OR ucast (b AND 0x7f)
           in if b AND 0x80 \<noteq> 0 then base128_loop v' cbs else (Some v', cbs))"

definition parse_base128_integer :: "(cbs, u64) op" where
  "parse_base128_integer = base128_loop 0"


section \<open>What the reads consume\<close>

lemma cbs_get_append [op_simps]: "length xs = n \<Longrightarrow> cbs_get n (xs @ rest) = (Some xs, rest)"
  by (simp add: cbs_get_def)

lemma cbs_get_eq_Some:
  "cbs_get n cbs = (Some xs, rest) \<longleftrightarrow> cbs = xs @ rest \<and> length xs = n"
  by (auto simp: cbs_get_def split: if_splits)

lemma cbs_get_eq_None: "cbs_get n cbs = (None, rest) \<longleftrightarrow> rest = cbs \<and> length cbs < n"
  by (auto simp: cbs_get_def)

lemma cbs_get_u_append [op_simps]:
  "length bs = n \<Longrightarrow> cbs_get_u n (bs @ rest) = (Some (word_of_nat (be_nat bs)), rest)"
  by (simp add: cbs_get_u_def op_simps fold_push8_or)

lemma cbs_get_u_eq_Some:
  "cbs_get_u n cbs = (Some v, rest)
   \<longleftrightarrow> (\<exists>bs. cbs = bs @ rest \<and> length bs = n \<and> v = word_of_nat (be_nat bs))"
  by (auto simp: cbs_get_u_def op_bind_eq_Some cbs_get_eq_Some op_simps fold_push8_or)

lemma CBS_get_u8_Cons [op_simps]: "CBS_get_u8 (b # rest) = (Some b, rest)"
  using cbs_get_append [of "[b]" 1 rest] by (simp add: CBS_get_u8_def op_simps)

lemma CBS_get_u8_Nil [op_simps]: "CBS_get_u8 [] = (None, [])"
  by (simp add: CBS_get_u8_def cbs_get_def)

lemma CBS_get_bytes_append [op_simps]:
  "length xs = n \<Longrightarrow> CBS_get_bytes n (xs @ rest) = (Some xs, rest)"
  by (simp add: CBS_get_bytes_def op_simps)

lemma CBS_get_bytes_eq: "CBS_get_bytes n = cbs_get n"
  by (rule ext) (auto simp: CBS_get_bytes_def op_bind_def op_simps split: prod.split option.split)

lemma CBS_skip_append [op_simps]: "length xs = n \<Longrightarrow> CBS_skip n (xs @ rest) = (Some (), rest)"
  by (simp add: CBS_skip_def op_simps)

interpretation cbs_get_p: parser "cbs_get n" for n
  by standard (auto simp: cbs_get_def suffix_drop split: if_splits)

lemma parser_cbs_get_u: "parser (cbs_get_u n)"
  unfolding cbs_get_u_def by (intro parser_bind parser_return cbs_get_p.parser_axioms)

lemma parser_CBS_get_u8: "parser CBS_get_u8"
  unfolding CBS_get_u8_def by (intro parser_bind parser_return cbs_get_p.parser_axioms)

lemma parser_CBS_get_bytes: "parser (CBS_get_bytes n)"
  unfolding CBS_get_bytes_eq by (rule cbs_get_p.parser_axioms)

lemma parser_length_prefixed: "parser (cbs_get_length_prefixed n)"
  unfolding cbs_get_length_prefixed_def
  by (intro parser_bind parser_cbs_get_u parser_CBS_get_bytes)

section \<open>Fixed-width integers are exact codecs\<close>

lemma be_nat_eq_iff_nat_be: "length bs = n \<Longrightarrow> v < 256 ^ n \<Longrightarrow> be_nat bs = v \<longleftrightarrow> bs = nat_be n v"
  by (metis be_nat_nat_be mod_less nat_be_be_nat)

lemma ucast_word_of_nat:
  "LENGTH('b::len) \<le> LENGTH('a::len) \<Longrightarrow> (ucast (word_of_nat n :: 'a word) :: 'b word) = word_of_nat n"
  by (rule bit_word_eqI) (simp add: bit_simps)

lemma word_of_nat_be_nat_eq:
  assumes "length bs = n" "256 ^ n \<le> (2 :: nat) ^ LENGTH('a)"
  shows "(word_of_nat (be_nat bs) :: 'a::len word) = v \<longleftrightarrow> unat v < 256 ^ n \<and> bs = nat_be n (unat v)"
proof -
  have u: "unat (word_of_nat (be_nat bs) :: 'a word) = be_nat bs"
    using assms by (intro unat_be_nat_word) simp
  have "(word_of_nat (be_nat bs) :: 'a word) = v \<longleftrightarrow> be_nat bs = unat v"
    using u word_unat_eq_iff [of "word_of_nat (be_nat bs) :: 'a word" v] by metis
  then show ?thesis
    using be_nat_less [of bs] assms(1) nat_be_be_nat [of bs] be_nat_nat_be [of n "unat v"] by auto
qed

interpretation u8_codec: exact_codec "\<lambda>v. [v]" CBS_get_u8 "\<lambda>_. True"
proof
  fix bs :: cbs and x rest
  show "CBS_get_u8 ([x] @ rest) = (Some x, rest)" by (simp add: op_simps)
  assume "CBS_get_u8 bs = (Some x, rest)"
  then show "True \<and> bs = [x] @ rest" by (cases bs) (auto simp: op_simps)
qed

lemma cbs_get_u_codec:
  fixes conv :: "u64 \<Rightarrow> 'a::len word"
  assumes n: "256 ^ n \<le> (2 :: nat) ^ LENGTH('a)"
    and conv: "\<And>bs. length bs = n \<Longrightarrow> conv (word_of_nat (be_nat bs)) = word_of_nat (be_nat bs)"
  shows "exact_codec (\<lambda>v. nat_be n (unat v)) (op_bind (cbs_get_u n) (\<lambda>v. op_return (conv v)))
           (\<lambda>v. unat v < 256 ^ n)"
proof
  fix x :: "'a word" and rest bs
  show "op_bind (cbs_get_u n) (\<lambda>v. op_return (conv v)) (nat_be n (unat x) @ rest) = (Some x, rest)"
    if "unat x < 256 ^ n"
  proof -
    let ?bs = "nat_be n (unat x)"
    have "conv (word_of_nat (be_nat ?bs)) = word_of_nat (be_nat ?bs)" by (rule conv) simp
    also have "\<dots> = x" using that by (simp add: be_nat_nat_be)
    finally show ?thesis by (simp add: op_simps)
  qed
  assume "op_bind (cbs_get_u n) (\<lambda>v. op_return (conv v)) bs = (Some x, rest)"
  then obtain xs where xs: "bs = xs @ rest" "length xs = n" "x = conv (word_of_nat (be_nat xs))"
    by (auto simp: op_bind_eq_Some cbs_get_u_eq_Some op_simps)
  then have "(word_of_nat (be_nat xs) :: 'a word) = x" by (simp add: conv)
  then show "unat x < 256 ^ n \<and> bs = nat_be n (unat x) @ rest"
    using xs(1,2) n by (subst (asm) word_of_nat_be_nat_eq) auto
qed

interpretation u16_codec: exact_codec "\<lambda>v. nat_be 2 (unat v)" CBS_get_u16 "\<lambda>v. unat v < 256 ^ 2"
  unfolding CBS_get_u16_def by (rule cbs_get_u_codec) (simp_all add: ucast_word_of_nat)

interpretation u24_codec: exact_codec "\<lambda>v. nat_be 3 (unat v)" CBS_get_u24 "\<lambda>v. unat v < 256 ^ 3"
  unfolding CBS_get_u24_def by (rule cbs_get_u_codec) (simp_all add: ucast_word_of_nat)

interpretation u32_codec: exact_codec "\<lambda>v. nat_be 4 (unat v)" CBS_get_u32 "\<lambda>v. unat v < 256 ^ 4"
  unfolding CBS_get_u32_def by (rule cbs_get_u_codec) (simp_all add: ucast_word_of_nat)

interpretation u64_codec: exact_codec "\<lambda>v. nat_be 8 (unat v)" CBS_get_u64 "\<lambda>v. unat v < 256 ^ 8"
  using cbs_get_u_codec [where n = 8 and conv = "\<lambda>v :: u64. v"] by (simp add: CBS_get_u64_def)


interpretation u16le_codec: exact_codec "\<lambda>v. nat_le 2 (unat v)" CBS_get_u16le "\<lambda>v. True"
  using exact_codec_map [OF u16_codec.exact_codec_axioms, of CRYPTO_bswap2 CRYPTO_bswap2]
  by (simp add: CBS_get_u16le_def nat_be_bswap)

interpretation u32le_codec: exact_codec "\<lambda>v. nat_le 4 (unat v)" CBS_get_u32le "\<lambda>v. True"
  using exact_codec_map [OF u32_codec.exact_codec_axioms, of CRYPTO_bswap4 CRYPTO_bswap4]
  by (simp add: CBS_get_u32le_def nat_be_bswap)

interpretation u64le_codec: exact_codec "\<lambda>v. nat_le 8 (unat v)" CBS_get_u64le "\<lambda>v. True"
  using exact_codec_map [OF u64_codec.exact_codec_axioms, of CRYPTO_bswap8 CRYPTO_bswap8]
  by (simp add: CBS_get_u64le_def CBS_get_u64_def nat_be_bswap)

section \<open>Length-prefixed strings are an exact codec\<close>

lemma length_prefixed_codec:
  assumes "n \<le> 8"
  shows "exact_codec (\<lambda>xs. nat_be n (length xs) @ xs) (cbs_get_length_prefixed n)
           (\<lambda>xs. length xs < 256 ^ n)"
proof
  have n: "(256 :: nat) ^ n \<le> 2 ^ LENGTH(64)"
    using power_increasing [OF assms, of "256 :: nat"] by simp
  fix xs rest bs
  show "cbs_get_length_prefixed n ((nat_be n (length xs) @ xs) @ rest) = (Some xs, rest)"
    if "length xs < 256 ^ n"
    using that n by (simp add: cbs_get_length_prefixed_def op_simps be_nat_nat_be unat_of_nat)
  assume "cbs_get_length_prefixed n bs = (Some xs, rest)"
  then obtain ls where ls: "bs = ls @ xs @ rest" "length ls = n" "be_nat ls = length xs"
    using n
    by (auto simp: cbs_get_length_prefixed_def op_bind_eq_Some cbs_get_u_eq_Some CBS_get_bytes_eq
        cbs_get_eq_Some unat_be_nat_word)
  then show "length xs < 256 ^ n \<and> bs = (nat_be n (length xs) @ xs) @ rest"
    using be_nat_less [of ls] nat_be_be_nat [of ls] by auto
qed

interpretation u8_prefixed_codec:
  exact_codec "\<lambda>xs. nat_be 1 (length xs) @ xs" CBS_get_u8_length_prefixed "\<lambda>xs. length xs < 256 ^ 1"
  unfolding CBS_get_u8_length_prefixed_def by (rule length_prefixed_codec) simp

interpretation u16_prefixed_codec:
  exact_codec "\<lambda>xs. nat_be 2 (length xs) @ xs" CBS_get_u16_length_prefixed "\<lambda>xs. length xs < 256 ^ 2"
  unfolding CBS_get_u16_length_prefixed_def by (rule length_prefixed_codec) simp

interpretation u24_prefixed_codec:
  exact_codec "\<lambda>xs. nat_be 3 (length xs) @ xs" CBS_get_u24_length_prefixed "\<lambda>xs. length xs < 256 ^ 3"
  unfolding CBS_get_u24_length_prefixed_def by (rule length_prefixed_codec) simp

end
