(* ===== verification/CbsNum.thy ===== *)
theory CbsNum
  imports Cbs
begin

text \<open>
  The two variable-length number formats of \<open>cbs.c\<close>: decimal text, as in OBJECT IDENTIFIER
  literals, and big-endian base 128, as in DER tags and OBJECT IDENTIFIER components. For each, the
  parser accepts exactly the canonical numeral of its result.
\<close>

section \<open>Decimal numerals\<close>

text \<open>What \<open>snprintf\<close> writes for \<open>%\<close>\<open>PRIu64\<close>: the decimal digits, no leading zeros.\<close>

definition digit_char :: "nat \<Rightarrow> u8" where
  "digit_char d = word_of_nat (48 + d)"

fun decimal :: "nat \<Rightarrow> bytes" where
  "decimal n = (if n < 10 then [digit_char n]
                else decimal (n div 10) @ [digit_char (n mod 10)])"

declare decimal.simps [simp del]

lemma unat_digit_char [simp]: "d < 10 \<Longrightarrow> unat (digit_char d) = 48 + d"
  unfolding digit_char_def by (subst unat_of_nat_byte) simp

lemma digit_char_unat: "48 \<le> unat c \<Longrightarrow> digit_char (unat c - 48) = c"
  unfolding digit_char_def by simp

lemma isdigit_byte: "OPENSSL_isdigit (uint (c :: u8)) \<longleftrightarrow> 48 \<le> unat c \<and> unat c \<le> 57"
proof -
  have "uint c = int (unat c)" by simp
  then show ?thesis unfolding OPENSSL_isdigit_def by linarith
qed

lemma digit_value:
  assumes "48 \<le> unat (c :: u8)" "unat c \<le> 57"
  shows "unat (ucast c - 48 :: u64) = unat c - 48"
  using assms by (subst unat_sub) (simp_all add: word_le_nat_alt)

lemma decimal_step:
  assumes "0 < n" "48 \<le> unat c" "unat c \<le> 57"
  shows "decimal (n * 10 + (unat c - 48)) = decimal n @ [c]"
proof -
  define d where "d = unat c - 48"
  have "d < 10" using assms by (simp add: d_def)
  then have "(n * 10 + d) div 10 = n" "(n * 10 + d) mod 10 = d" by simp_all
  moreover have "digit_char d = c" using assms(2) by (simp add: d_def digit_char_unat)
  ultimately show ?thesis using assms(1) by (subst decimal.simps) (simp add: d_def)
qed

text \<open>One accepted digit: the overflow test passes exactly when the new value fits.\<close>

lemma u64_decimal_fits:
  assumes "48 \<le> unat (c :: u8)" "unat c \<le> 57"
  shows "v > UINT64_MAX div 10 \<or> v * 10 > UINT64_MAX - (ucast c - 48)
    \<longleftrightarrow> 2 ^ 64 \<le> unat v * 10 + (unat c - 48)" (is "?l \<longleftrightarrow> ?r")
proof -
  let ?d = "unat c - 48"
  have d: "?d \<le> 9" using assms by simp
  have div: "v > UINT64_MAX div 10 \<longleftrightarrow> unat v > 1844674407370955161"
    by (simp add: UINT64_MAX_def word_less_nat_alt unat_div)
  have sub: "unat (UINT64_MAX - (ucast c - 48)) = 18446744073709551615 - ?d"
    using d digit_value [OF assms]
    by (subst unat_sub) (simp_all add: UINT64_MAX_def word_le_nat_alt)
  show ?thesis
  proof (cases "unat v > 1844674407370955161")
    case True
    then show ?thesis using div by simp
  next
    case False
    then have "unat (v * 10) = unat v * 10" by (subst unat_mult_lem [THEN iffD1]) simp_all
    then show ?thesis using False div sub d by (auto simp: word_less_nat_alt)
  qed
qed

lemma u64_decimal_value:
  assumes "48 \<le> unat (c :: u8)" "unat c \<le> 57" "unat v * 10 + (unat c - 48) < 2 ^ 64"
  shows "unat (v * 10 + (ucast c - 48) :: u64) = unat v * 10 + (unat c - 48)"
proof -
  have "unat (v * 10) = unat v * 10" using assms by (subst unat_mult_lem [THEN iffD1]) simp_all
  then show ?thesis using assms digit_value [OF assms(1,2)]
    by (subst unat_add_lem [THEN iffD1]) simp_all
qed

lemma u64_decimal_loop_digits:
  assumes "n < 2 ^ 64"
  shows "u64_decimal_loop 0 False (decimal n @ rest) = u64_decimal_loop (word_of_nat n) True rest"
  using assms
proof (induction n arbitrary: rest rule: decimal.induct)
  case (1 n)
  show ?case
  proof (cases "n < 10")
    case True
    let ?c = "digit_char n"
    have c: "unat ?c = 48 + n" "48 \<le> unat ?c" "unat ?c \<le> 57" using True by simp_all
    have "unat (0 * 10 + (ucast ?c - 48) :: u64) = n"
      using u64_decimal_value [OF c(2,3), of 0] c True by simp
    then have "(0 * 10 + (ucast ?c - 48) :: u64) = word_of_nat n" by (rule eq_word_of_natI)
    then show ?thesis
      using True c u64_decimal_fits [OF c(2,3), of 0] by (subst decimal.simps) (simp add: isdigit_byte)
  next
    case False
    let ?c = "digit_char (n mod 10)" and ?v = "word_of_nat (n div 10) :: u64"
    have c: "unat ?c = 48 + n mod 10" "48 \<le> unat ?c" "unat ?c \<le> 57" by simp_all
    have v: "unat ?v = n div 10" using "1.prems" by (simp add: unat_of_nat)
    then have fit: "unat ?v * 10 + (unat ?c - 48) = n" using c by simp
    have "unat (?v * 10 + (ucast ?c - 48)) = n"
      using u64_decimal_value [OF c(2,3), of ?v] fit "1.prems" by simp
    then have val: "?v * 10 + (ucast ?c - 48) = word_of_nat n" by (rule eq_word_of_natI)
    have nz: "?v \<noteq> 0"
    proof
      assume "?v = 0"
      then have "n div 10 = 0" using v by simp
      then show False using False by simp
    qed
    have "u64_decimal_loop 0 False (decimal n @ rest)
          = u64_decimal_loop 0 False (decimal (n div 10) @ ?c # rest)"
      using False by (subst decimal.simps) simp
    also have "\<dots> = u64_decimal_loop ?v True (?c # rest)"
      using "1.IH" [OF False] "1.prems" by simp
    also have "\<dots> = u64_decimal_loop (word_of_nat n) True rest"
      using c nz val fit u64_decimal_fits [OF c(2,3), of ?v] "1.prems"
      by (simp add: isdigit_byte)
    finally show ?thesis .
  qed
qed

lemma u64_decimal_loop_sound:
  "u64_decimal_loop v True cbs = (Some x, rest) \<Longrightarrow>
   decimal (unat v) @ cbs = decimal (unat x) @ rest \<and>
   (rest = [] \<or> \<not> OPENSSL_isdigit (uint (hd rest)))"
proof (induction cbs arbitrary: v)
  case (Cons c cbs)
  show ?case
  proof (cases "OPENSSL_isdigit (uint c)")
    case True
    then have c: "48 \<le> unat c" "unat c \<le> 57" by (auto simp: isdigit_byte)
    have ok: "v \<noteq> 0" "unat v * 10 + (unat c - 48) < 2 ^ 64"
      and tail: "u64_decimal_loop (v * 10 + (ucast c - 48)) True cbs = (Some x, rest)"
      using Cons.prems True u64_decimal_fits [OF c, of v] by (auto split: if_splits)
    have "decimal (unat (v * 10 + (ucast c - 48))) = decimal (unat v) @ [c]"
      using u64_decimal_value [OF c ok(2)] decimal_step [OF _ c, of "unat v"] ok(1)
      by (simp add: unat_gt_0)
    then show ?thesis using Cons.IH [OF tail] by simp
  next
    case False
    then show ?thesis using Cons.prems by auto
  qed
qed auto

lemma u64_decimal_accepts_iff:
  "CBS_get_u64_decimal cbs = (Some v, rest) \<longleftrightarrow>
   cbs = decimal (unat v) @ rest \<and> (rest = [] \<or> \<not> OPENSSL_isdigit (uint (hd rest)))"
proof
  assume r: "CBS_get_u64_decimal cbs = (Some v, rest)"
  show "cbs = decimal (unat v) @ rest \<and> (rest = [] \<or> \<not> OPENSSL_isdigit (uint (hd rest)))"
  proof (cases cbs)
    case (Cons c cs)
    then have dig: "OPENSSL_isdigit (uint c)"
      using r by (auto simp: CBS_get_u64_decimal_def split: if_splits)
    then have c: "48 \<le> unat c" "unat c \<le> 57" by (auto simp: isdigit_byte)
    have "u64_decimal_loop (ucast c - 48) True cs = (Some v, rest)"
      using r Cons dig by (auto simp: CBS_get_u64_decimal_def split: if_splits)
    moreover have "decimal (unat (ucast c - 48 :: u64)) = [c]"
      using digit_value [OF c] c digit_char_unat [OF c(1)] by (subst decimal.simps) auto
    ultimately show ?thesis using u64_decimal_loop_sound [of "ucast c - 48" cs v rest] Cons by simp
  qed (use r in \<open>simp add: CBS_get_u64_decimal_def\<close>)
next
  assume "cbs = decimal (unat v) @ rest \<and> (rest = [] \<or> \<not> OPENSSL_isdigit (uint (hd rest)))"
  then show "CBS_get_u64_decimal cbs = (Some v, rest)"
    using u64_decimal_loop_digits [of "unat v" rest]
    by (cases rest) (auto simp: CBS_get_u64_decimal_def)
qed

section \<open>Base-128 numerals\<close>

text \<open>All septets but the last carry the continuation bit.\<close>

definition septet_more :: "nat \<Rightarrow> u8" where
  "septet_more d = word_of_nat (128 + d)"

fun base128_hi :: "nat \<Rightarrow> bytes" where
  "base128_hi n = (if n = 0 then [] else base128_hi (n div 128) @ [septet_more (n mod 128)])"

declare base128_hi.simps [simp del]

definition base128 :: "nat \<Rightarrow> bytes" where
  "base128 n = base128_hi (n div 128) @ [word_of_nat (n mod 128)]"

lemma unat_septet_more [simp]: "d < 128 \<Longrightarrow> unat (septet_more d) = 128 + d"
  unfolding septet_more_def by (subst unat_of_nat_byte) simp

lemma septet_more_unat: "128 \<le> unat b \<Longrightarrow> septet_more (unat b - 128) = b"
  unfolding septet_more_def by simp

lemma base128_hi_0 [simp]: "base128_hi 0 = []"
  by (simp add: base128_hi.simps)

lemma base128_value:
  assumes "unat v < 2 ^ 57"
  shows "unat (push_bit 7 v OR ucast ((b :: u8) AND 0x7f) :: u64) = unat v * 128 + unat b mod 128"
proof -
  have "unat (ucast (b AND 0x7f) :: u64) = unat b mod 128"
    by (simp add: byte_simps unat_take_bit_mod)
  then show ?thesis using unat_push_or [of v 7 "ucast (b AND 0x7f)"] assms by simp
qed

lemma base128_too_large: "drop_bit 57 (v :: u64) \<noteq> 0 \<longleftrightarrow> 2 ^ 57 \<le> unat v"
proof -
  have "drop_bit 57 v = 0 \<longleftrightarrow> unat v div 2 ^ 57 = 0"
    using word_unat_eq_iff [of "drop_bit 57 v" 0] by (simp only: unat_drop_bit_div unat_0)
  also have "\<dots> \<longleftrightarrow> unat v < 2 ^ 57" by (simp add: div_eq_0_iff)
  finally show ?thesis by (simp add: not_less)
qed

lemma byte_eq_128: "(b :: u8) = 0x80 \<longleftrightarrow> unat b = 128"
  using word_unat_eq_iff [of b "0x80"] by simp

lemma base128_hi_step:
  assumes "n \<noteq> 0 \<or> b \<noteq> 0x80" "128 \<le> unat b"
  shows "base128_hi (n * 128 + unat b mod 128) = base128_hi n @ [b]"
proof -
  define d where "d = unat b - 128"
  have ub: "unat b = 128 + d" using assms(2) by (simp add: d_def)
  then have d: "d < 128" "unat b mod 128 = d" using unat_byte_less [of b] by simp_all
  have "n \<noteq> 0 \<or> d \<noteq> 0" using assms byte_eq_128 [of b] by (auto simp: d_def)
  then have "n * 128 + d \<noteq> 0" by simp
  moreover have "(n * 128 + d) div 128 = n" "(n * 128 + d) mod 128 = d" using d by simp_all
  moreover have "septet_more d = b" using assms(2) by (simp add: d_def septet_more_unat)
  ultimately have "base128_hi (n * 128 + d) = base128_hi n @ [b]"
    using base128_hi.simps [of "n * 128 + d"] by (simp only: if_False)
  then show ?thesis by (simp only: d)
qed

lemma base128_loop_more:
  assumes "unat v < 2 ^ 57" "\<not> (v = 0 \<and> b = 0x80)" "128 \<le> unat b"
  shows "base128_loop v (b # cbs) = base128_loop (push_bit 7 v OR ucast (b AND 0x7f)) cbs"
proof -
  have "drop_bit (64 - 7) v = 0" using base128_too_large [of v] assms(1) by simp
  moreover have "b AND 0x80 \<noteq> 0" using high_bit_byte [of b] assms(3) by simp
  ultimately show ?thesis using assms(2) by (auto simp: Let_def)
qed

lemma base128_loop_last:
  assumes "unat v < 2 ^ 57" "unat b < 128"
  shows "base128_loop v (b # cbs) = (Some (push_bit 7 v OR ucast (b AND 0x7f)), cbs)"
proof -
  have "drop_bit (64 - 7) v = 0" using base128_too_large [of v] assms(1) by simp
  moreover have "b AND 0x80 = 0" using high_bit_byte [of b] assms(2) by auto
  moreover have "b \<noteq> 0x80" using byte_eq_128 [of b] assms(2) by auto
  ultimately show ?thesis by (auto simp: Let_def)
qed

declare base128_loop.simps(2) [simp del]

lemma base128_loop_hi:
  "n < 2 ^ 64 \<Longrightarrow> base128_loop 0 (base128_hi n @ rest) = base128_loop (word_of_nat n) rest"
proof (induction n arbitrary: rest rule: base128_hi.induct)
  case (1 n)
  show ?case
  proof (cases "n = 0")
    case False
    let ?b = "septet_more (n mod 128)" and ?v = "word_of_nat (n div 128) :: u64"
    have b: "unat ?b = 128 + n mod 128" by simp
    have v: "unat ?v = n div 128" using "1.prems" by (simp add: unat_of_nat)
    have small: "unat ?v < 2 ^ 57" using v "1.prems" by (simp add: less_mult_imp_div_less)
    have nz: "\<not> (?v = 0 \<and> ?b = 0x80)"
    proof
      assume "?v = 0 \<and> ?b = 0x80"
      then have "n div 128 = 0" "n mod 128 = 0" using v b byte_eq_128 [of ?b] by auto
      then show False using False by (metis div_mult_mod_eq mult_zero_left add_0)
    qed
    have "unat (push_bit 7 ?v OR ucast (?b AND 0x7f)) = n"
      using base128_value [OF small, of ?b] v b by simp
    then have val: "push_bit 7 ?v OR ucast (?b AND 0x7f) = word_of_nat n"
      by (rule eq_word_of_natI)
    have "base128_loop 0 (base128_hi n @ rest) = base128_loop ?v (?b # rest)"
      using "1.IH" [OF False, of "?b # rest"] "1.prems" False by (subst base128_hi.simps) simp
    also have "\<dots> = base128_loop (word_of_nat n) rest"
      using base128_loop_more [OF small nz, of rest] b unfolding val by simp
    finally show ?thesis .
  qed simp
qed

lemma base128_loop_sound:
  "base128_loop v cbs = (Some x, rest) \<Longrightarrow> base128_hi (unat v) @ cbs = base128 (unat x) @ rest"
proof (induction cbs arbitrary: v)
  case (Cons b cbs)
  let ?v = "push_bit 7 v OR ucast (b AND 0x7f) :: u64"
  have small: "unat v < 2 ^ 57" and nz: "\<not> (v = 0 \<and> b = 0x80)"
    using Cons.prems base128_too_large [of v] by (auto simp: not_le base128_loop.simps(2) split: if_splits)
  have val: "unat ?v = unat v * 128 + unat b mod 128" by (rule base128_value [OF small])
  show ?case
  proof (cases "128 \<le> unat b")
    case True
    then have "base128_loop ?v cbs = (Some x, rest)"
      using Cons.prems high_bit_byte [of b] by (auto simp: Let_def base128_loop.simps(2) split: if_splits)
    then have "base128_hi (unat ?v) @ cbs = base128 (unat x) @ rest" by (rule Cons.IH)
    moreover have "base128_hi (unat ?v) = base128_hi (unat v) @ [b]"
      unfolding val by (rule base128_hi_step) (use True nz in \<open>auto simp: unat_0_iff\<close>)
    ultimately show ?thesis by simp
  next
    case False
    then have "x = ?v" "rest = cbs"
      using Cons.prems high_bit_byte [of b] by (auto simp: Let_def base128_loop.simps(2) split: if_splits)
    then show ?thesis using False by (simp add: base128_def val)
  qed
qed simp

interpretation base128_codec: exact_codec "\<lambda>v. base128 (unat v)" parse_base128_integer "\<lambda>_. True"
proof
  fix v :: u64 and rest bs
  let ?b = "word_of_nat (unat v mod 128) :: u8" and ?w = "word_of_nat (unat v div 128) :: u64"
  have w: "unat ?w = unat v div 128" by (rule unat_div_less_u64)
  then have small: "unat ?w < 2 ^ 57" using unat_word_less(3) [of v] by (simp add: less_mult_imp_div_less)
  have b: "unat ?b = unat v mod 128" by simp
  have "unat (push_bit 7 ?w OR ucast (?b AND 0x7f)) = unat v"
    using base128_value [OF small, of ?b] w b by simp
  then have val: "push_bit 7 ?w OR ucast (?b AND 0x7f) = v" by (simp add: word_unat_eq_iff)
  have "base128_loop 0 (base128 (unat v) @ rest) = base128_loop ?w (?b # rest)"
    using base128_loop_hi [of "unat v div 128" "?b # rest"] div_le_dividend [of "unat v" 128]
      unat_word_less(3) [of v]
    by (simp add: base128_def del: div_le_dividend)
  also have "\<dots> = (Some v, rest)"
    using base128_loop_last [OF small, of ?b rest] b unfolding val by simp
  finally show "parse_base128_integer (base128 (unat v) @ rest) = (Some v, rest)"
    by (simp add: parse_base128_integer_def)
  show "True \<and> bs = base128 (unat v) @ rest" if "parse_base128_integer bs = (Some v, rest)"
    using base128_loop_sound [of 0 bs v rest] that by (simp add: parse_base128_integer_def)
qed

end
