(* ===== verification/CbsAsn1.thy ===== *)
theory CbsAsn1
  imports CbsNum
begin

text \<open>
  The DER and BER part of \<open>crypto/bytestring/cbs.c\<close>: tags, elements, INTEGER, BOOLEAN, BIT STRING,
  OBJECT IDENTIFIER and optional elements. Encodings are described by \<open>asn1_tag_bytes\<close>,
  \<open>der_length\<close> and \<open>der_element\<close>; the parser accepts exactly those.
\<close>

section \<open>Tags\<close>

definition CBS_ASN1_TAG_SHIFT :: nat where "CBS_ASN1_TAG_SHIFT = 24"
definition CBS_ASN1_CONSTRUCTED :: u32 where "CBS_ASN1_CONSTRUCTED = 0x20000000"
definition CBS_ASN1_TAG_NUMBER_MASK :: u32 where "CBS_ASN1_TAG_NUMBER_MASK = 0x1fffffff"
definition CBS_ASN1_BOOLEAN :: u32 where "CBS_ASN1_BOOLEAN = 0x1"
definition CBS_ASN1_INTEGER :: u32 where "CBS_ASN1_INTEGER = 0x2"
definition CBS_ASN1_OCTETSTRING :: u32 where "CBS_ASN1_OCTETSTRING = 0x4"

text \<open>The class and constructed bits of the identifier octet, joined with the tag number.\<close>

definition asn1_tag_join :: "u8 \<Rightarrow> u32 \<Rightarrow> u32" where
  "asn1_tag_join tag_byte tag_number =
     (let tag = push_bit CBS_ASN1_TAG_SHIFT ((ucast tag_byte :: u32) AND 0xe0) in tag OR tag_number)"

text \<open>The high tag number form: within the supported bounds, and not a small number.\<close>

definition high_tag_number :: "(cbs, u32) op" where
  "high_tag_number =
     op_bind parse_base128_integer (\<lambda>v.
       if v > ucast CBS_ASN1_TAG_NUMBER_MASK \<or> v < 0x1f then op_fail else op_return (ucast v))"

definition parse_asn1_tag :: "(cbs, u32) op" where
  "parse_asn1_tag =
     op_bind CBS_get_u8 (\<lambda>tag_byte.
       let tag_number = (ucast tag_byte :: u32) AND 0x1f
       in op_bind (if tag_number = 0x1f then high_tag_number else op_return tag_number)
            (\<lambda>tag_number.
               let tag = asn1_tag_join tag_byte tag_number
               in if tag AND NOT CBS_ASN1_CONSTRUCTED = 0 then op_fail else op_return tag))"

section \<open>Elements\<close>

text \<open>The out-parameters of \<open>cbs_get_any_asn1_element\<close>; a \<open>NULL\<close> one is ignored by the caller.\<close>

record asn1_element =
  element :: cbs
  element_tag :: u32
  header_len :: nat
  ber_found :: bool
  indefinite :: bool

definition asn1_finish :: "u32 \<Rightarrow> nat \<Rightarrow> bool \<Rightarrow> bool \<Rightarrow> nat \<Rightarrow> (cbs, asn1_element) op" where
  "asn1_finish tag hlen ber indef len =
     op_bind (CBS_get_bytes len) (\<lambda>out. op_return
       \<lparr>element = out, element_tag = tag, header_len = hlen, ber_found = ber, indefinite = indef\<rparr>)"

definition cbs_get_any_asn1_element :: "bool \<Rightarrow> (cbs, asn1_element) op" where
  "cbs_get_any_asn1_element ber_ok cbs =
     (case parse_asn1_tag cbs of
        (None, _) \<Rightarrow> (None, cbs)
      | (Some tag, header) \<Rightarrow>
          (case CBS_get_u8 header of
             (None, _) \<Rightarrow> (None, cbs)
           | (Some length_byte, header) \<Rightarrow>
               let hlen = length cbs - length header in
               if length_byte AND 0x80 = 0 then
                 asn1_finish tag hlen False False (unat length_byte + hlen) cbs
               else
                 let num_bytes = unat (length_byte AND 0x7f) in
                 if ber_ok \<and> tag AND CBS_ASN1_CONSTRUCTED \<noteq> 0 \<and> num_bytes = 0 then
                   asn1_finish tag hlen True True hlen cbs
                 else if num_bytes = 0 \<or> num_bytes > 4 then (None, cbs)
                 else
                   (case cbs_get_u num_bytes header of
                      (None, _) \<Rightarrow> (None, cbs)
                    | (Some len64, _) \<Rightarrow>
                        let not_minimal = len64 < 128 \<or> drop_bit ((num_bytes - 1) * 8) len64 = 0;
                            len = unat len64
                        in if \<not> ber_ok \<and> not_minimal then (None, cbs)
                           else if size_add (size_add len hlen) num_bytes < len then (None, cbs)
                           else asn1_finish tag (hlen + num_bytes) not_minimal False
                                  (size_add (size_add len hlen) num_bytes) cbs)))"

definition CBS_get_any_asn1_element :: "(cbs, asn1_element) op" where
  "CBS_get_any_asn1_element = cbs_get_any_asn1_element False"

definition CBS_get_any_ber_asn1_element :: "(cbs, asn1_element) op" where
  "CBS_get_any_ber_asn1_element = cbs_get_any_asn1_element True"

text \<open>\<open>CBS_skip(out, header_len)\<close> on the element just read.\<close>

definition skip_header :: "asn1_element \<Rightarrow> ('s, cbs) op" where
  "skip_header e s =
     (case CBS_skip (header_len e) (element e) of
        (None, _) \<Rightarrow> (None, s) | (Some _, out) \<Rightarrow> (Some out, s))"

definition CBS_get_any_asn1 :: "(cbs, cbs \<times> u32) op" where
  "CBS_get_any_asn1 =
     op_bind CBS_get_any_asn1_element (\<lambda>e.
       op_bind (skip_header e) (\<lambda>out. op_return (out, element_tag e)))"

definition cbs_get_asn1 :: "u32 \<Rightarrow> bool \<Rightarrow> (cbs, cbs) op" where
  "cbs_get_asn1 tag_value skip =
     op_bind CBS_get_any_asn1_element (\<lambda>e.
       op_bind (op_guard (element_tag e = tag_value)) (\<lambda>_.
         if skip then skip_header e else op_return (element e)))"

definition CBS_get_asn1 :: "u32 \<Rightarrow> (cbs, cbs) op" where
  "CBS_get_asn1 tag_value = cbs_get_asn1 tag_value True"

definition CBS_get_asn1_element :: "u32 \<Rightarrow> (cbs, cbs) op" where
  "CBS_get_asn1_element tag_value = cbs_get_asn1 tag_value False"

definition CBS_peek_asn1_tag :: "cbs \<Rightarrow> u32 \<Rightarrow> bool" where
  "CBS_peek_asn1_tag cbs tag_value \<longleftrightarrow> fst (parse_asn1_tag cbs) = Some tag_value"

section \<open>INTEGER and BOOLEAN\<close>

text \<open>The validity of an INTEGER body, with \<open>*out_is_negative\<close> as the result.\<close>

definition CBS_is_valid_asn1_integer :: "cbs \<Rightarrow> bool option" where
  "CBS_is_valid_asn1_integer cbs =
     (case CBS_get_u8 cbs of
        (None, _) \<Rightarrow> None
      | (Some first_byte, copy) \<Rightarrow>
          let is_negative = (first_byte AND 0x80 \<noteq> 0) in
          (case CBS_get_u8 copy of
             (None, _) \<Rightarrow> Some is_negative
           | (Some second_byte, _) \<Rightarrow>
               if (first_byte = 0x00 \<and> second_byte AND 0x80 = 0)
                  \<or> (first_byte = 0xff \<and> second_byte AND 0x80 \<noteq> 0)
               then None else Some is_negative))"

definition CBS_is_unsigned_asn1_integer :: "cbs \<Rightarrow> bool" where
  "CBS_is_unsigned_asn1_integer cbs \<longleftrightarrow> CBS_is_valid_asn1_integer cbs = Some False"

fun asn1_uint64_loop :: "u64 \<Rightarrow> bytes \<Rightarrow> u64 option" where
  "asn1_uint64_loop out [] = Some out"
| "asn1_uint64_loop out (b # data) =
     (if drop_bit 56 out \<noteq> 0 then None else asn1_uint64_loop (push_bit 8 out OR ucast b) data)"

definition CBS_get_asn1_uint64 :: "(cbs, u64) op" where
  "CBS_get_asn1_uint64 =
     op_bind (CBS_get_asn1 CBS_ASN1_INTEGER) (\<lambda>bs.
       op_bind (op_guard (CBS_is_unsigned_asn1_integer bs)) (\<lambda>_.
         case asn1_uint64_loop 0 bs of None \<Rightarrow> op_fail | Some out \<Rightarrow> op_return out))"

text \<open>The \<open>int64_t\<close> result is the word with its bits; \<open>sint\<close> reads it.\<close>

definition CBS_get_asn1_int64 :: "(cbs, u64) op" where
  "CBS_get_asn1_int64 =
     op_bind (CBS_get_asn1 CBS_ASN1_INTEGER) (\<lambda>bs.
       case CBS_is_valid_asn1_integer bs of
         None \<Rightarrow> op_fail
       | Some is_negative \<Rightarrow>
           if length bs > 8 then op_fail
           else
             let sign_extend = replicate 8 (if is_negative then 0xff else 0);
                 sign_extend = take (8 - length bs) sign_extend @ bs
             in op_return (CRYPTO_load_u64_be sign_extend))"

definition CBS_get_asn1_bool :: "(cbs, bool) op" where
  "CBS_get_asn1_bool =
     op_bind (CBS_get_asn1 CBS_ASN1_BOOLEAN) (\<lambda>bs.
       op_bind (op_guard (length bs = 1)) (\<lambda>_.
         let v = bs ! 0 in
         op_bind (op_guard (\<not> (v \<noteq> 0 \<and> v \<noteq> 0xff))) (\<lambda>_. op_return (v \<noteq> 0))))"

section \<open>Optional elements\<close>

text \<open>\<open>Some None\<close> is success with \<open>*out_present = 0\<close>.\<close>

definition CBS_get_optional_asn1 :: "u32 \<Rightarrow> (cbs, cbs option) op" where
  "CBS_get_optional_asn1 tag cbs =
     (if CBS_peek_asn1_tag cbs tag
      then op_bind (CBS_get_asn1 tag) (\<lambda>out. op_return (Some out)) cbs
      else (Some None, cbs))"

text \<open>An inner parse of \<open>child\<close> that must use it up.\<close>

definition parse_all :: "(cbs, 'a) op \<Rightarrow> cbs \<Rightarrow> ('s, 'a) op" where
  "parse_all m child s =
     (case m child of (Some x, rest) \<Rightarrow> (if length rest \<noteq> 0 then None else Some x, s)
                    | (None, _) \<Rightarrow> (None, s))"

definition CBS_get_optional_asn1_octet_string :: "u32 \<Rightarrow> (cbs, cbs \<times> bool) op" where
  "CBS_get_optional_asn1_octet_string tag =
     op_bind (CBS_get_optional_asn1 tag) (\<lambda>r.
       case r of
         Some child \<Rightarrow>
           op_bind (parse_all (CBS_get_asn1 CBS_ASN1_OCTETSTRING) child) (\<lambda>out. op_return (out, True))
       | None \<Rightarrow> op_return ([], False))"

definition CBS_get_optional_asn1_uint64 :: "u32 \<Rightarrow> u64 \<Rightarrow> (cbs, u64) op" where
  "CBS_get_optional_asn1_uint64 tag default_value =
     op_bind (CBS_get_optional_asn1 tag) (\<lambda>r.
       case r of
         Some child \<Rightarrow> parse_all CBS_get_asn1_uint64 child
       | None \<Rightarrow> op_return default_value)"

definition CBS_get_optional_asn1_bool :: "u32 \<Rightarrow> bool \<Rightarrow> (cbs, bool) op" where
  "CBS_get_optional_asn1_bool tag default_value =
     op_bind (CBS_get_optional_asn1 tag) (\<lambda>r.
       case r of
         Some child \<Rightarrow>
           op_bind (parse_all (CBS_get_asn1 CBS_ASN1_BOOLEAN) child) (\<lambda>child2.
             if length child2 \<noteq> 1 then op_fail
             else let boolean = child2 ! 0 in
               if boolean = 0 then op_return False
               else if boolean = 0xff then op_return True
               else op_fail)
       | None \<Rightarrow> op_return default_value)"

section \<open>BIT STRING and OBJECT IDENTIFIER\<close>

definition CBS_is_valid_asn1_bitstring :: "cbs \<Rightarrow> bool" where
  "CBS_is_valid_asn1_bitstring cbs \<longleftrightarrow>
     (case CBS_get_u8 cbs of
        (None, _) \<Rightarrow> False
      | (Some num_unused_bits, in_) \<Rightarrow>
          if num_unused_bits > 7 then False
          else if num_unused_bits = 0 then True
          else (case CBS_get_last_u8 in_ of
                  (None, _) \<Rightarrow> False
                | (Some last_byte, _) \<Rightarrow> last_byte AND (push_bit (unat num_unused_bits) 1 - 1) = 0))"

definition CBS_asn1_bitstring_has_bit :: "cbs \<Rightarrow> u32 \<Rightarrow> bool" where
  "CBS_asn1_bitstring_has_bit cbs bit_no \<longleftrightarrow>
     (if \<not> CBS_is_valid_asn1_bitstring cbs then False
      else let byte_num = unat (drop_bit 3 bit_no) + 1; bit_num = 7 - unat (bit_no AND 7)
           in byte_num < length cbs \<and> cbs ! byte_num AND push_bit bit_num 1 \<noteq> 0)"

fun asn1_oid_loop :: "u8 \<Rightarrow> bytes \<Rightarrow> bool" where
  "asn1_oid_loop prev [] = (prev AND 0x80 = 0)"
| "asn1_oid_loop prev (v # copy) =
     (if prev AND 0x80 = 0 \<and> v = 0x80 then False else asn1_oid_loop v copy)"

definition CBS_is_valid_asn1_oid :: "cbs \<Rightarrow> bool" where
  "CBS_is_valid_asn1_oid cbs \<longleftrightarrow> (if length cbs = 0 then False else asn1_oid_loop 0 cbs)"

end
