(* ===== verification/Der.thy ===== *)
theory Der
  imports CbsAsn1
begin

text \<open>
  The DER format that \<open>cbs.c\<close> parses and \<open>cbb.c\<close> writes, as functions from values to bytes, and the
  proof that the parser accepts exactly these encodings: tag, length, element, INTEGER.
\<close>

section \<open>Tags\<close>

definition asn1_tag_bits :: "u32 \<Rightarrow> u8" where
  "asn1_tag_bits tag = ucast (drop_bit 24 tag) AND 0xe0"

definition asn1_tag_bytes :: "u32 \<Rightarrow> bytes" where
  "asn1_tag_bytes tag =
     (let tag_number = tag AND CBS_ASN1_TAG_NUMBER_MASK
      in if tag_number \<ge> 0x1f
         then [asn1_tag_bits tag OR 0x1f] @ base128 (unat tag_number)
         else [asn1_tag_bits tag OR ucast tag_number])"

definition valid_asn1_tag :: "u32 \<Rightarrow> bool" where
  "valid_asn1_tag tag \<longleftrightarrow> tag AND NOT CBS_ASN1_CONSTRUCTED \<noteq> 0"

lemma byte_and_class: "unat ((b :: u8) AND 0xe0) = unat b div 32 * 32"
proof -
  have "\<forall>b :: u8. unat (b AND 0xe0) = unat b div 32 * 32"
    unfolding all_bytes_upt by code_simp
  then show ?thesis by blast
qed

lemma ucast_and_class: "unat ((ucast (b :: u8) :: u32) AND 0xe0) = unat b div 32 * 32"
proof -
  have "(ucast b :: u32) AND 0xe0 = ucast (b AND 0xe0)"
    by (rule bit_word_eqI) (auto simp: bit_simps dest: bit_imp_le_length)
  then show ?thesis by (simp add: byte_and_class)
qed

lemma unat_tag_number: "unat (tag AND CBS_ASN1_TAG_NUMBER_MASK) = unat tag mod 2 ^ 29"
proof -
  have "tag AND CBS_ASN1_TAG_NUMBER_MASK = take_bit 29 tag"
    by (simp add: CBS_ASN1_TAG_NUMBER_MASK_def take_bit_eq_mask mask_eq_exp_minus_1)
  then show ?thesis by (simp only: unat_take_bit_mod)
qed

lemma unat_asn1_tag_bits: "unat (asn1_tag_bits tag) = unat tag div 2 ^ 29 * 32"
proof -
  have "unat (ucast (drop_bit 24 tag) :: u8) = unat tag div 2 ^ 24 mod 256"
    by (simp add: unat_ucast_mod unat_drop_bit_div)
  also have "\<dots> = unat tag div 2 ^ 24"
    by (rule mod_less, rule less_mult_imp_div_less) simp
  finally have "unat (asn1_tag_bits tag) = unat tag div 2 ^ 24 div 32 * 32"
    by (simp only: asn1_tag_bits_def byte_and_class)
  then show ?thesis by (simp only: div_mult2_eq [symmetric]) simp
qed

text \<open>A tag from its class bits and its number.\<close>

definition mk_tag :: "nat \<Rightarrow> nat \<Rightarrow> u32" where
  "mk_tag c n = word_of_nat (c * 2 ^ 29 + n)"

lemma asn1_tag_join_eq:
  assumes "unat n < 2 ^ 29"
  shows "asn1_tag_join b n = mk_tag (unat b div 32) (unat n)"
  unfolding mk_tag_def
proof (rule eq_word_of_natI)
  have "unat b div 32 < 8" by (rule less_mult_imp_div_less) simp
  then have "unat (push_bit 24 ((ucast b :: u32) AND 0xe0)) = unat b div 32 * 2 ^ 29"
    by (subst unat_push_bit_exact) (simp_all only: ucast_and_class, simp_all)
  then show "unat (asn1_tag_join b n) = unat b div 32 * 2 ^ 29 + unat n"
    unfolding asn1_tag_join_def Let_def CBS_ASN1_TAG_SHIFT_def
    by (rule unat_or_low_bits [OF _ assms])
qed

lemma asn1_tag_bytes_low:
  assumes "unat tag mod 2 ^ 29 < 31"
  shows "asn1_tag_bytes tag = [word_of_nat (unat tag div 2 ^ 29 * 32 + unat tag mod 2 ^ 29)]"
proof -
  let ?n = "tag AND CBS_ASN1_TAG_NUMBER_MASK"
  have n: "unat ?n < 31" using assms by (simp only: unat_tag_number)
  have "unat (asn1_tag_bits tag OR ucast ?n) = unat tag div 2 ^ 29 * 2 ^ 5 + unat (ucast ?n :: u8)"
    by (rule unat_or_low_bits) (use n in \<open>simp_all add: unat_asn1_tag_bits unat_ucast_mod\<close>)
  also have "unat (ucast ?n :: u8) = unat tag mod 2 ^ 29"
    using n by (simp add: unat_ucast_mod) (simp add: unat_tag_number)
  finally have "asn1_tag_bits tag OR ucast ?n
      = word_of_nat (unat tag div 2 ^ 29 * 2 ^ 5 + unat tag mod 2 ^ 29)"
    by (rule eq_word_of_natI)
  then show ?thesis using n by (simp add: asn1_tag_bytes_def Let_def word_le_nat_alt)
qed

lemma asn1_tag_bytes_high:
  assumes "31 \<le> unat tag mod 2 ^ 29"
  shows "asn1_tag_bytes tag
         = word_of_nat (unat tag div 2 ^ 29 * 32 + 31) # base128 (unat tag mod 2 ^ 29)"
proof -
  have n: "31 \<le> unat (tag AND CBS_ASN1_TAG_NUMBER_MASK)" using assms by (simp only: unat_tag_number)
  have "unat (asn1_tag_bits tag OR 0x1f) = unat tag div 2 ^ 29 * 2 ^ 5 + unat (0x1f :: u8)"
    by (rule unat_or_low_bits) (simp_all add: unat_asn1_tag_bits)
  then have "asn1_tag_bits tag OR 0x1f = word_of_nat (unat tag div 2 ^ 29 * 2 ^ 5 + unat (0x1f :: u8))"
    by (rule eq_word_of_natI)
  then show ?thesis
    using n by (simp add: asn1_tag_bytes_def Let_def word_le_nat_alt) (simp add: unat_tag_number)
qed


lemma unat_numeral_31: "unat (0x1f :: u32) = 31"
  by simp

lemma unat_byte_and_1f: "unat ((ucast (b :: u8) :: u32) AND 0x1f) = unat b mod 32"
  by (simp add: byte_simps unat_take_bit_mod)

text \<open>The parser on the two forms of an identifier octet.\<close>

lemma parse_asn1_tag_low:
  assumes "unat b mod 32 \<noteq> 31"
  shows "parse_asn1_tag (b # rest) =
    (let tag = mk_tag (unat b div 32) (unat b mod 32)
     in if valid_asn1_tag tag then (Some tag, rest) else (None, rest))"
proof -
  let ?n = "(ucast b :: u32) AND 0x1f"
  have n: "?n \<noteq> 0x1f" using assms unat_byte_and_1f [of b] by (metis unat_numeral_31)
  have "unat ?n < 2 ^ 29" using unat_byte_and_1f [of b] mod_less_divisor [of 32 "unat b"] by simp
  then have "asn1_tag_join b ?n = mk_tag (unat b div 32) (unat b mod 32)"
    by (simp only: asn1_tag_join_eq unat_byte_and_1f)
  then show ?thesis
    using n by (simp add: parse_asn1_tag_def op_simps Let_def valid_asn1_tag_def)
qed

lemma high_tag_number_iff:
  "high_tag_number bs = (Some n, rest) \<longleftrightarrow>
   (\<exists>v. parse_base128_integer bs = (Some v, rest) \<and> 31 \<le> unat v \<and> unat v < 2 ^ 29
        \<and> n = word_of_nat (unat v))"
proof -
  have "\<not> (v > ucast CBS_ASN1_TAG_NUMBER_MASK \<or> v < 0x1f) \<longleftrightarrow> 31 \<le> unat v \<and> unat v < 2 ^ 29"
    for v :: u64
    by (auto simp: CBS_ASN1_TAG_NUMBER_MASK_def word_less_nat_alt not_less)
  moreover have "(ucast v :: u32) = word_of_nat (unat v)" for v :: u64
    using ucast_word_of_nat [where 'a = 64 and 'b = 32, of "unat v"] by simp
  ultimately show ?thesis
    by (auto simp: high_tag_number_def op_bind_eq_Some op_simps split: if_splits)
qed

lemma parse_asn1_tag_high:
  assumes "unat b mod 32 = 31"
  shows "parse_asn1_tag (b # bs) = (Some tag, rest) \<longleftrightarrow>
    (\<exists>v. parse_base128_integer bs = (Some v, rest) \<and> 31 \<le> unat v \<and> unat v < 2 ^ 29
         \<and> tag = mk_tag (unat b div 32) (unat v) \<and> valid_asn1_tag tag)"
proof -
  have n: "(ucast b :: u32) AND 0x1f = 0x1f"
    using assms unat_byte_and_1f [of b] word_unat_eq_iff [of "(ucast b :: u32) AND 0x1f" "0x1f"] by simp
  have join: "asn1_tag_join b (word_of_nat (unat v)) = mk_tag (unat b div 32) (unat v)"
    if "unat v < 2 ^ 29" for v :: u64
    using that asn1_tag_join_eq [of "word_of_nat (unat v)" b] by (simp add: unat_of_nat unat_ucast_mod)
  have "parse_asn1_tag (b # bs) = (Some tag, rest) \<longleftrightarrow>
    (\<exists>n. high_tag_number bs = (Some n, rest) \<and> tag = asn1_tag_join b n \<and> valid_asn1_tag tag)"
    by (auto simp: parse_asn1_tag_def op_simps op_bind_eq_Some Let_def n valid_asn1_tag_def
        split: if_splits)
  also have "\<dots> \<longleftrightarrow> (\<exists>v. parse_base128_integer bs = (Some v, rest) \<and> 31 \<le> unat v \<and> unat v < 2 ^ 29
         \<and> tag = mk_tag (unat b div 32) (unat v) \<and> valid_asn1_tag tag)"
    unfolding high_tag_number_iff using join by metis
  finally show ?thesis .
qed

lemma unat_mk_tag: "c < 8 \<Longrightarrow> n < 2 ^ 29 \<Longrightarrow> unat (mk_tag c n) = c * 2 ^ 29 + n"
  unfolding mk_tag_def unat_of_nat by (rule mod_less) simp

lemma mk_tag_parts:
  assumes "c < 8" "n < 2 ^ 29"
  shows "unat (mk_tag c n) div 2 ^ 29 = c" "unat (mk_tag c n) mod 2 ^ 29 = n"
  using assms by (simp_all add: unat_mk_tag)

lemma mk_tag_unat: "mk_tag (unat tag div 2 ^ 29) (unat tag mod 2 ^ 29) = tag"
  unfolding mk_tag_def by (simp only: div_mult_mod_eq) simp

lemma byte_class: "unat (b :: u8) div 32 < 8"
  by (rule less_mult_imp_div_less) simp

lemma byte_parts: "word_of_nat (unat (b :: u8) div 32 * 32 + unat b mod 32) = b"
  by (simp only: div_mult_mod_eq) simp

lemma unat_tag_class: "unat (tag :: u32) div 2 ^ 29 < 8"
  by (rule less_mult_imp_div_less) simp

interpretation asn1_tag_codec: exact_codec asn1_tag_bytes parse_asn1_tag valid_asn1_tag
proof
  fix tag rest bs
  show "parse_asn1_tag (asn1_tag_bytes tag @ rest) = (Some tag, rest)" if "valid_asn1_tag tag"
  proof (cases "unat tag mod 2 ^ 29 < 31")
    case True
    let ?b = "word_of_nat (unat tag div 2 ^ 29 * 32 + unat tag mod 2 ^ 29) :: u8"
    have b: "unat ?b = unat tag div 2 ^ 29 * 32 + unat tag mod 2 ^ 29"
      unfolding unat_of_nat_byte by (rule mod_less) (use True unat_tag_class [of tag] in linarith)
    then have parts: "unat ?b div 32 = unat tag div 2 ^ 29" "unat ?b mod 32 = unat tag mod 2 ^ 29"
      using True by simp_all
    have "parse_asn1_tag (?b # rest) = (Some tag, rest)"
      using parse_asn1_tag_low [of ?b rest] True that unfolding parts mk_tag_unat by simp
    then show ?thesis unfolding asn1_tag_bytes_low [OF True] by simp
  next
    case False
    let ?b = "word_of_nat (unat tag div 2 ^ 29 * 32 + 31) :: u8" and ?v = "word_of_nat (unat tag mod 2 ^ 29) :: u64"
    have b: "unat ?b = unat tag div 2 ^ 29 * 32 + 31"
      unfolding unat_of_nat_byte by (rule mod_less) (use unat_tag_class [of tag] in linarith)
    then have parts: "unat ?b div 32 = unat tag div 2 ^ 29" "unat ?b mod 32 = 31" by simp_all
    have v: "unat ?v = unat tag mod 2 ^ 29"
      unfolding unat_of_nat by (rule mod_less, rule order_less_le_trans [OF mod_less_divisor]) simp_all
    have "parse_base128_integer (base128 (unat tag mod 2 ^ 29) @ rest) = (Some ?v, rest)"
      using base128_codec.get_put [of ?v rest] unfolding v by simp
    then have "parse_asn1_tag (?b # base128 (unat tag mod 2 ^ 29) @ rest) = (Some tag, rest)"
      unfolding parse_asn1_tag_high [OF parts(2)] 
      using False that mod_less_divisor [of "2 ^ 29" "unat tag"]
      by (intro exI [of _ ?v]) (simp only: v parts mk_tag_unat not_less, simp)
    then show ?thesis using False by (simp add: asn1_tag_bytes_high)
  qed
  show "valid_asn1_tag tag \<and> bs = asn1_tag_bytes tag @ rest" if r: "parse_asn1_tag bs = (Some tag, rest)"
  proof (cases bs)
    case Nil
    then show ?thesis using r by (simp add: parse_asn1_tag_def op_bind_def op_simps)
  next
    case (Cons b cs)
    show ?thesis
    proof (cases "unat b mod 32 = 31")
      case False
      have t: "tag = mk_tag (unat b div 32) (unat b mod 32)" "valid_asn1_tag tag" "rest = cs"
        using r parse_asn1_tag_low [OF False, of cs] Cons by (auto simp: Let_def split: if_splits)
      have "unat b mod 32 < 2 ^ 29" by (rule order_less_le_trans [OF mod_less_divisor]) simp_all
      note parts = mk_tag_parts [OF byte_class [of b] this, folded t(1)]
      have "unat b mod 32 < 31" using False mod_less_divisor [of 32 "unat b"] by linarith
      then have "unat tag mod 2 ^ 29 < 31" by (simp only: parts)
      from asn1_tag_bytes_low [OF this] have "asn1_tag_bytes tag = [b]"
        by (simp only: parts byte_parts)
      then show ?thesis using t Cons by simp
    next
      case True
      then obtain v where v: "parse_base128_integer cs = (Some v, rest)" "31 \<le> unat v"
        "unat v < 2 ^ 29" "tag = mk_tag (unat b div 32) (unat v)" "valid_asn1_tag tag"
        using r Cons parse_asn1_tag_high [OF True] by auto
      note parts = mk_tag_parts [OF byte_class [of b] v(3), folded v(4)]
      have "asn1_tag_bytes tag = b # base128 (unat v)"
        using asn1_tag_bytes_high [of tag] v(2) byte_parts [of b] True unfolding parts by simp
      then show ?thesis using v(5) Cons base128_codec.put_get [OF v(1)] by simp
    qed
  qed
qed


section \<open>Lengths\<close>

text \<open>The number of bytes that follow the first length byte; none for the short form.\<close>

definition der_len_len :: "nat \<Rightarrow> nat" where
  "der_len_len n =
     (if n > 0xffffff then 4 else if n > 0xffff then 3 else if n > 0xff then 2
      else if n > 0x7f then 1 else 0)"

definition der_length :: "nat \<Rightarrow> bytes" where
  "der_length n =
     (if n \<le> 0x7f then [word_of_nat n]
      else word_of_nat (0x80 + der_len_len n) # nat_be (der_len_len n) n)"

definition der_header :: "u32 \<Rightarrow> nat \<Rightarrow> bytes" where
  "der_header tag n = asn1_tag_bytes tag @ der_length n"

definition der_element :: "u32 \<Rightarrow> bytes \<Rightarrow> bytes" where
  "der_element tag contents = der_header tag (length contents) @ contents"

lemma der_len_len_unique:
  assumes "1 \<le> k" "k \<le> 4" "128 \<le> n" "256 ^ (k - 1) \<le> n" "n < 256 ^ k"
  shows "der_len_len n = k"
proof -
  have "k = 1 \<or> k = 2 \<or> k = 3 \<or> k = 4" using assms by linarith
  then show ?thesis using assms by (auto simp: der_len_len_def)
qed

lemma der_len_len_bounds:
  assumes "128 \<le> n" "n < 2 ^ 32"
  shows "1 \<le> der_len_len n" "der_len_len n \<le> 4" "256 ^ (der_len_len n - 1) \<le> n"
    "n < 256 ^ der_len_len n"
  using assms by (auto simp: der_len_len_def)

lemma length_base128_hi: "n < 128 ^ k \<Longrightarrow> length (base128_hi n) \<le> k"
proof (induction k arbitrary: n)
  case (Suc k)
  then have "n div 128 < 128 ^ k" by (simp add: less_mult_imp_div_less)
  then show ?case using Suc.IH by (subst base128_hi.simps) simp
qed simp

lemma length_asn1_tag_bytes: "length (asn1_tag_bytes tag) \<le> 6" "asn1_tag_bytes tag \<noteq> []"
proof -
  let ?n = "unat tag mod 2 ^ 29"
  have "?n < 2 ^ 29" by simp
  then have "?n div 128 < 128 ^ 4" by (simp add: less_mult_imp_div_less)
  then have "length (base128 ?n) \<le> 5" using length_base128_hi by (auto simp: base128_def)
  then show "length (asn1_tag_bytes tag) \<le> 6" "asn1_tag_bytes tag \<noteq> []"
    by (cases "?n < 31"; simp add: asn1_tag_bytes_low asn1_tag_bytes_high)+
qed

section \<open>Elements\<close>

abbreviation der_result :: "u32 \<Rightarrow> bytes \<Rightarrow> asn1_element" where
  "der_result tag contents \<equiv>
     \<lparr>element = der_element tag contents, element_tag = tag,
      header_len = length (der_header tag (length contents)), ber_found = False, indefinite = False\<rparr>"

lemma length_byte_cases: "(L :: u8) AND 0x80 = 0 \<longleftrightarrow> unat L < 128"
  using high_bit_byte [of L] by auto

lemma num_bytes: "128 \<le> unat L \<Longrightarrow> unat ((L :: u8) AND 0x7f) = unat L - 128"
proof -
  assume "128 \<le> unat L"
  then obtain d where d: "unat L = 128 + d" using le_Suc_ex by blast
  then have "d < 128" using unat_byte_less [of L] by simp
  then show ?thesis using d by (simp add: byte_simps unat_take_bit_mod)
qed

text \<open>The parser after the tag has been read.\<close>

lemma element_short:
  assumes "valid_asn1_tag tag" "unat L < 128"
  shows "cbs_get_any_asn1_element ber_ok (asn1_tag_bytes tag @ L # bs) =
    asn1_finish tag (length (asn1_tag_bytes tag) + 1) False False
      (unat L + (length (asn1_tag_bytes tag) + 1)) (asn1_tag_bytes tag @ L # bs)"
  using assms length_byte_cases [of L]
  by (simp add: cbs_get_any_asn1_element_def asn1_tag_codec.get_put op_simps Let_def)

lemma element_long:
  assumes "valid_asn1_tag tag" "unat L = 128 + length ls" "1 \<le> length ls" "length ls \<le> 4"
  shows "cbs_get_any_asn1_element ber_ok (asn1_tag_bytes tag @ L # ls @ bs) =
    (let n = be_nat ls; cbs = asn1_tag_bytes tag @ L # ls @ bs;
         not_minimal = n < 128 \<or> n < 256 ^ (length ls - 1);
         hlen = length (asn1_tag_bytes tag) + 1 + length ls
     in if \<not> ber_ok \<and> not_minimal then (None, cbs)
        else asn1_finish tag hlen not_minimal False (n + hlen) cbs)"
proof -
  have L: "L AND 0x80 \<noteq> 0" "unat (L AND 0x7f) = length ls"
    using assms length_byte_cases [of L] num_bytes [of L] by auto
  have n: "unat (word_of_nat (be_nat ls) :: u64) = be_nat ls"
    by (rule unat_be_nat_word)
      (use assms(4) power_increasing [of "length ls" 4 "256 :: nat"] in simp)
  have "be_nat ls < 256 ^ length ls" by (rule be_nat_less)
  also have "\<dots> \<le> 256 ^ 4" using assms(4) by (intro power_increasing) simp_all
  finally have small: "be_nat ls < 2 ^ 32" by simp
  have add: "size_add (size_add (be_nat ls) (Suc (length (asn1_tag_bytes tag)))) (length ls)
      = be_nat ls + Suc (length (asn1_tag_bytes tag)) + length ls"
    using small length_asn1_tag_bytes(1) [of tag] assms(4)
    by (simp add: size_add_def size_mod_def)
  have drop: "drop_bit ((length ls - 1) * 8) (word_of_nat (be_nat ls) :: u64) = 0
      \<longleftrightarrow> be_nat ls < 256 ^ (length ls - 1)"
  proof -
    have "(256 :: nat) ^ (length ls - 1) = 2 ^ ((length ls - 1) * 8)"
      by (simp add: mult.commute [of _ 8] power_mult)
    then show ?thesis
      using word_unat_eq_iff [of "drop_bit ((length ls - 1) * 8) (word_of_nat (be_nat ls) :: u64)" 0]
      by (simp only: unat_drop_bit_div n unat_0 div_eq_0_iff) simp
  qed
  have less: "(word_of_nat (be_nat ls) :: u64) < 128 \<longleftrightarrow> be_nat ls < 128"
    by (simp add: word_less_nat_alt n)
  show ?thesis
    using assms(1,3,4) L
    by (auto simp: cbs_get_any_asn1_element_def asn1_tag_codec.get_put op_simps Let_def
        drop [simplified] less n add add.assoc)
qed

lemma unat_len_byte: "k \<le> 127 \<Longrightarrow> unat (word_of_nat (128 + k) :: u8) = 128 + k"
  unfolding unat_of_nat_byte by simp

lemma asn1_finish_eq_Some:
  "asn1_finish tag hlen ber indef len cbs = (Some e, rest) \<longleftrightarrow>
   (\<exists>out. cbs = out @ rest \<and> length out = len \<and>
      e = \<lparr>element = out, element_tag = tag, header_len = hlen, ber_found = ber, indefinite = indef\<rparr>)"
  by (auto simp: asn1_finish_def op_bind_eq_Some CBS_get_bytes_eq cbs_get_eq_Some op_simps)

lemma split_prefix:
  assumes "bs = out @ rest" "bs = hd' @ tl'" "length hd' \<le> length out"
  obtains c where "out = hd' @ c"
  using assms by (metis append_eq_append_conv2 append_eq_conv_conj append_take_drop_id take_append take_all)

lemma der_element_append:
  "der_element tag c @ rest = asn1_tag_bytes tag @ der_length (length c) @ c @ rest"
  by (simp add: der_element_def der_header_def)

lemma der_element_get:
  assumes "valid_asn1_tag tag" "length c < 2 ^ 32"
  shows "CBS_get_any_asn1_element (der_element tag c @ rest) = (Some (der_result tag c), rest)"
proof (cases "length c < 128")
  case True
  let ?L = "word_of_nat (length c) :: u8"
  have L: "unat ?L = length c" unfolding unat_of_nat_byte using True by simp
  have len: "der_length (length c) = [?L]" using True by (simp add: der_length_def)
  show ?thesis
    using element_short [OF assms(1), of ?L False "c @ rest"] True
    unfolding CBS_get_any_asn1_element_def der_element_append len L
    by (simp add: asn1_finish_eq_Some der_element_def der_header_def len)
next
  case False
  define k where "k = der_len_len (length c)"
  let ?ls = "nat_be k (length c)" and ?L = "word_of_nat (128 + k) :: u8"
  have k: "1 \<le> k" "k \<le> 4" "256 ^ (k - 1) \<le> length c" "length c < 256 ^ k"
    using der_len_len_bounds [of "length c"] False assms(2) unfolding k_def by auto
  have L: "unat ?L = 128 + length ?ls" using k unat_len_byte [of k] by simp
  have n: "be_nat ?ls = length c" using k(4) by (simp add: be_nat_nat_be)
  have len: "der_length (length c) = ?L # ?ls" using False by (simp add: der_length_def k_def)
  show ?thesis
    using element_long [OF assms(1) L, of False "c @ rest"] k False
    unfolding CBS_get_any_asn1_element_def der_element_append len n
    by (simp add: Let_def n asn1_finish_eq_Some der_element_def der_header_def len not_less)
qed

lemma der_element_put:
  assumes "CBS_get_any_asn1_element bs = (Some e, rest)"
  shows "\<exists>tag c. valid_asn1_tag tag \<and> length c < 2 ^ 32 \<and> bs = der_element tag c @ rest \<and> e = der_result tag c"
proof -
  obtain tag cs where tag: "parse_asn1_tag bs = (Some tag, cs)"
    using assms by (auto simp: CBS_get_any_asn1_element_def cbs_get_any_asn1_element_def
        split: prod.splits option.splits)
  note valid = asn1_tag_codec.put_get [OF tag, THEN conjunct1]
    and bs = asn1_tag_codec.put_get [OF tag, THEN conjunct2]
  obtain L ds where cs: "cs = L # ds"
    using assms tag by (cases cs) (auto simp: CBS_get_any_asn1_element_def cbs_get_any_asn1_element_def op_simps)
  show ?thesis
  proof (cases "unat L < 128")
    case True
    then obtain out where out: "bs = out @ rest" "length out = unat L + (length (asn1_tag_bytes tag) + 1)"
      "e = \<lparr>element = out, element_tag = tag, header_len = length (asn1_tag_bytes tag) + 1,
            ber_found = False, indefinite = False\<rparr>"
      using assms element_short [OF valid True, of False ds] unfolding bs cs CBS_get_any_asn1_element_def
      by (auto simp: asn1_finish_eq_Some)
    obtain c where o': "out = (asn1_tag_bytes tag @ [L]) @ c"
      by (rule split_prefix [OF out(1) _, of "asn1_tag_bytes tag @ [L]" ds]) (use out(2) bs cs in auto)
    then have lc: "length c = unat L" using out(2) by simp
    then have "L = word_of_nat (length c)" by simp
    then have "der_length (length c) = [L]" using True lc by (simp add: der_length_def)
    then show ?thesis using valid out True o' lc
      by (intro exI [of _ tag] exI [of _ c]) (simp add: der_element_def der_header_def)
  next
    case False
    define k where "k = unat L - 128"
    have L: "unat L = 128 + k" "L AND 0x80 \<noteq> 0" "unat (L AND 0x7f) = k"
      using False length_byte_cases [of L] num_bytes [of L] by (auto simp: k_def)
    have k: "1 \<le> k" "k \<le> 4" and "\<exists>v ds'. cbs_get_u k ds = (Some v, ds')"
      using assms L unfolding bs cs
      by (auto simp: CBS_get_any_asn1_element_def cbs_get_any_asn1_element_def op_simps
          asn1_tag_codec.get_put valid split: if_splits option.splits prod.splits)
    then obtain ls ds' where ls: "ds = ls @ ds'" "length ls = k" by (auto simp: cbs_get_u_eq_Some)
    have n: "128 \<le> be_nat ls" "256 ^ (k - 1) \<le> be_nat ls" and
      fin: "asn1_finish tag (length (asn1_tag_bytes tag) + 1 + k) False False
        (be_nat ls + (length (asn1_tag_bytes tag) + 1 + k)) bs = (Some e, rest)"
      using assms element_long [OF valid, of L ls False ds'] L k ls
      unfolding bs cs CBS_get_any_asn1_element_def by (auto simp: Let_def split: if_splits)
    from fin obtain out where out: "bs = out @ rest" "length out = be_nat ls + (length (asn1_tag_bytes tag) + 1 + k)"
      "e = \<lparr>element = out, element_tag = tag, header_len = length (asn1_tag_bytes tag) + 1 + k,
            ber_found = False, indefinite = False\<rparr>"
      by (auto simp: asn1_finish_eq_Some)
    obtain c where o': "out = (asn1_tag_bytes tag @ L # ls) @ c"
      by (rule split_prefix [OF out(1) _, of "asn1_tag_bytes tag @ L # ls" ds'])
        (use out(2) ls bs cs in auto)
    have lc: "length c = be_nat ls" using out(2) ls by (simp add: o')
    have small: "be_nat ls < 256 ^ k" using be_nat_less [of ls] ls by simp
    also have "\<dots> \<le> 256 ^ 4" using k by (intro power_increasing) simp_all
    finally have "length c < 2 ^ 32" using lc by simp
    moreover have kk: "der_len_len (length c) = k" using der_len_len_unique [OF k n small] lc by simp
    have "L = word_of_nat (128 + k)" using L(1) by (rule eq_word_of_natI)
    then have "der_length (length c) = L # ls"
      using n lc kk ls nat_be_be_nat [of ls] by (simp add: der_length_def)
    ultimately show ?thesis using valid out o' ls
      by (intro exI [of _ tag] exI [of _ c]) (simp add: der_element_def der_header_def)
  qed
qed

lemma any_asn1_element_accepts_iff:
  "CBS_get_any_asn1_element bs = (Some e, rest) \<longleftrightarrow>
   (\<exists>tag c. valid_asn1_tag tag \<and> length c < 2 ^ 32 \<and> bs = der_element tag c @ rest \<and> e = der_result tag c)"
  (is "?l \<longleftrightarrow> ?r")
proof
  show "?l \<Longrightarrow> ?r" by (rule der_element_put)
  show "?r \<Longrightarrow> ?l" by (elim exE conjE) (simp add: der_element_get)
qed

lemma skip_header_der_result [simp]: "skip_header (der_result tag c) s = (Some c, s)"
  by (simp add: skip_header_def der_element_def CBS_skip_append)

interpretation any_asn1_codec: exact_codec "\<lambda>(c, tag). der_element tag c" CBS_get_any_asn1
  "\<lambda>(c, tag). valid_asn1_tag tag \<and> length c < 2 ^ 32"
proof
  fix x rest bs
  show "CBS_get_any_asn1 ((case x of (c, tag) \<Rightarrow> der_element tag c) @ rest) = (Some x, rest)"
    if "case x of (c, tag) \<Rightarrow> valid_asn1_tag tag \<and> length c < 2 ^ 32"
    using that by (cases x) (simp add: CBS_get_any_asn1_def der_element_get op_simps)
  show "(case x of (c, tag) \<Rightarrow> valid_asn1_tag tag \<and> length c < 2 ^ 32) \<and>
      bs = (case x of (c, tag) \<Rightarrow> der_element tag c) @ rest" if "CBS_get_any_asn1 bs = (Some x, rest)"
    using that by (auto simp: CBS_get_any_asn1_def op_bind_eq_Some any_asn1_element_accepts_iff op_simps)
qed

lemma cbs_get_asn1_accepts_iff:
  "cbs_get_asn1 tag skip bs = (Some r, rest) \<longleftrightarrow>
   (\<exists>c. valid_asn1_tag tag \<and> length c < 2 ^ 32 \<and> bs = der_element tag c @ rest
      \<and> r = (if skip then c else der_element tag c))" (is "?l \<longleftrightarrow> ?r")
proof
  assume ?l
  then obtain e t where e: "CBS_get_any_asn1_element bs = (Some e, t)" "element_tag e = tag"
    "(if skip then skip_header e else op_return (element e)) t = (Some r, rest)"
    by (auto simp: cbs_get_asn1_def op_bind_eq_Some op_simps split: if_splits)
  then obtain c where "valid_asn1_tag tag" "length c < 2 ^ 32" "bs = der_element tag c @ t"
    "e = der_result tag c"
    unfolding any_asn1_element_accepts_iff by auto
  then show ?r using e(3) by (auto simp: op_simps split: if_splits)
next
  assume ?r
  then show ?l by (elim exE conjE) (simp add: cbs_get_asn1_def der_element_get op_simps)
qed

lemma CBS_get_asn1_accepts_iff:
  "CBS_get_asn1 tag bs = (Some c, rest) \<longleftrightarrow>
   valid_asn1_tag tag \<and> length c < 2 ^ 32 \<and> bs = der_element tag c @ rest"
  unfolding CBS_get_asn1_def cbs_get_asn1_accepts_iff by simp

interpretation asn1_codec: exact_codec "der_element tag" "CBS_get_asn1 tag"
  "\<lambda>c. valid_asn1_tag tag \<and> length c < 2 ^ 32" for tag
  by standard (simp_all add: CBS_get_asn1_accepts_iff)

lemma CBS_get_asn1_element_accepts_iff:
  "CBS_get_asn1_element tag bs = (Some e, rest) \<longleftrightarrow>
   (\<exists>c. valid_asn1_tag tag \<and> length c < 2 ^ 32 \<and> e = der_element tag c \<and> bs = e @ rest)"
  unfolding CBS_get_asn1_element_def cbs_get_asn1_accepts_iff by auto

text \<open>A parser without the BER switch never reports BER or an indefinite length.\<close>

lemma der_element_no_ber:
  "CBS_get_any_asn1_element bs = (Some e, rest) \<Longrightarrow> \<not> ber_found e \<and> \<not> indefinite e"
  by (auto simp: any_asn1_element_accepts_iff)

section \<open>INTEGER\<close>

text \<open>The shortest big-endian body of a number, with a leading zero when the top bit is set.\<close>

fun be_min :: "nat \<Rightarrow> bytes" where
  "be_min n = (if n = 0 then [] else be_min (n div 256) @ [word_of_nat n])"

declare be_min.simps [simp del]

definition asn1_uint_body :: "nat \<Rightarrow> bytes" where
  "asn1_uint_body n = (let bs = be_min n in if bs = [] \<or> 128 \<le> unat (hd bs) then 0 # bs else bs)"

lemma be_min_0 [simp]: "be_min 0 = []"
  by (simp add: be_min.simps)

lemma be_nat_be_min [simp]: "be_nat (be_min n) = n"
proof (induction n rule: be_min.induct)
  case (1 n)
  then show ?case by (subst be_min.simps) (simp add: be_nat_append)
qed

lemma hd_be_min: "0 < n \<Longrightarrow> hd (be_min n) \<noteq> 0"
proof (induction n rule: be_min.induct)
  case (1 n)
  show ?case
  proof (cases "n div 256 = 0")
    case True
    then have "n < 256" by (simp add: div_eq_0_iff)
    have "(word_of_nat n :: u8) \<noteq> 0"
      using word_unat_eq_iff [of "word_of_nat n :: u8" 0] 1(2) \<open>n < 256\<close> by simp
    then show ?thesis using 1(2) True by (subst be_min.simps) simp
  next
    case False
    then have "be_min (n div 256) \<noteq> []" by (subst be_min.simps) simp
    then show ?thesis using 1 False by (subst be_min.simps) simp
  qed
qed

lemma be_min_be_nat: "bs = [] \<or> hd bs \<noteq> 0 \<Longrightarrow> be_min (be_nat bs) = bs"
proof (induction bs rule: rev_induct)
  case (snoc b bs)
  have ih: "be_min (be_nat bs) = bs" using snoc by (cases bs) auto
  have v: "be_nat (bs @ [b]) = be_nat bs * 256 + unat b" by (simp add: be_nat_append)
  have "be_nat (bs @ [b]) \<noteq> 0"
  proof (cases bs)
    case Nil
    then show ?thesis using snoc.prems by (simp add: unat_eq_zero)
  next
    case (Cons c cs)
    then have "unat c \<noteq> 0" using snoc.prems by (simp add: unat_eq_zero)
    then show ?thesis using Cons by (simp add: be_nat_append)
  qed
  then show ?case using ih by (subst be_min.simps) (simp add: v)
qed simp

lemma length_be_min: "n < 256 ^ k \<Longrightarrow> length (be_min n) \<le> k"
proof (induction k arbitrary: n)
  case (Suc k)
  then have "n div 256 < 256 ^ k" by (simp add: less_mult_imp_div_less)
  then show ?case using Suc.IH by (subst be_min.simps) simp
qed simp


lemma uint64_loop_exact:
  "asn1_uint64_loop out bs =
    (let n = unat out * 256 ^ length bs + be_nat bs in if n < 2 ^ 64 then Some (word_of_nat n) else None)"
proof (induction bs arbitrary: out)
  case Nil
  then show ?case using unat_word_less(3) [of out] by (simp add: Let_def)
next
  case (Cons b bs)
  let ?o = "push_bit 8 out OR ucast b :: u64" and ?n = "unat out * 256 ^ length (b # bs) + be_nat (b # bs)"
  have d: "drop_bit 56 out = 0 \<longleftrightarrow> unat out < 2 ^ 56"
    using word_unat_eq_iff [of "drop_bit 56 out" 0] by (simp only: unat_drop_bit_div unat_0 div_eq_0_iff) simp
  show ?case
  proof (cases "unat out < 2 ^ 56")
    case True
    then have "unat ?o = unat out * 256 + unat b" using unat_push_or [of out 8 "ucast b"] by simp
    then have "unat ?o * 256 ^ length bs + be_nat bs = ?n" by (simp add: algebra_simps)
    then show ?thesis using True d Cons.IH [of ?o] by (simp add: add.assoc)
  next
    case False
    then have "2 ^ 56 * (256 * 256 ^ length bs) \<le> ?n"
      by (intro trans_le_add1) (simp add: mult_le_mono1)
    moreover have "2 ^ 64 * 1 \<le> 2 ^ 56 * (256 * 256 ^ length bs :: nat)" by simp
    ultimately have "\<not> ?n < 2 ^ 64" by linarith
    then show ?thesis using False d by (simp add: Let_def)
  qed
qed

lemma is_unsigned_iff: "CBS_is_unsigned_asn1_integer bs \<longleftrightarrow> bs = asn1_uint_body (be_nat bs)"
proof (cases bs)
  case Nil
  then show ?thesis
    by (simp add: CBS_is_unsigned_asn1_integer_def CBS_is_valid_asn1_integer_def op_simps asn1_uint_body_def)
next
  case (Cons a cs)
  have z: "be_nat bs = be_nat cs" if "a = 0" using Cons that by simp
  show ?thesis
  proof (cases cs)
    case Nil
    have "be_min (unat a) = (if a = 0 then [] else [a])"
      using be_min_be_nat [of "[a]"] by simp
    then show ?thesis using Cons Nil length_byte_cases [of a]
      by (auto simp: CBS_is_unsigned_asn1_integer_def CBS_is_valid_asn1_integer_def op_simps asn1_uint_body_def)
  next
    case (Cons b ds)
    have valid: "CBS_is_unsigned_asn1_integer bs \<longleftrightarrow> unat a < 128 \<and> \<not> (a = 0 \<and> unat b < 128)"
      using \<open>bs = a # cs\<close> Cons length_byte_cases [of a] length_byte_cases [of b]
      by (auto simp: CBS_is_unsigned_asn1_integer_def CBS_is_valid_asn1_integer_def op_simps Let_def)
    show ?thesis
    proof (cases "a = 0")
      case False
      then have "be_min (be_nat bs) = bs" using be_min_be_nat [of bs] \<open>bs = a # cs\<close> by simp
      then show ?thesis unfolding valid using False \<open>bs = a # cs\<close>
        by (auto simp: asn1_uint_body_def Let_def split: if_splits)
    next
      case True
      show ?thesis
      proof (cases "b = 0")
        case False
        then have "be_min (be_nat cs) = cs" using be_min_be_nat [of cs] Cons by simp
        then show ?thesis unfolding valid z [OF True] using True Cons \<open>bs = a # cs\<close>
          by (auto simp: asn1_uint_body_def)
      next
        case b0: True
        have "asn1_uint_body (be_nat cs) \<noteq> bs"
        proof
          assume e: "asn1_uint_body (be_nat cs) = bs"
          then have "be_min (be_nat cs) = cs \<or> be_min (be_nat cs) = bs \<and> be_min (be_nat cs) \<noteq> []"
            using \<open>bs = a # cs\<close> by (auto simp: asn1_uint_body_def Let_def split: if_splits)
          then show False
            using e True b0 Cons \<open>bs = a # cs\<close> hd_be_min [of "be_nat cs"]
            by (cases "be_nat cs = 0") (auto simp: asn1_uint_body_def)
        qed
        then show ?thesis unfolding valid z [OF True] using True b0 by auto
      qed
    qed
  qed
qed

lemma be_nat_uint_body [simp]: "be_nat (asn1_uint_body n) = n"
  by (simp add: asn1_uint_body_def Let_def)

lemma length_uint_body: "n < 256 ^ k \<Longrightarrow> length (asn1_uint_body n) \<le> Suc k"
  using length_be_min [of n k] by (simp add: asn1_uint_body_def Let_def)

lemma valid_universal_tags:
  "valid_asn1_tag CBS_ASN1_INTEGER" "valid_asn1_tag CBS_ASN1_BOOLEAN" "valid_asn1_tag CBS_ASN1_OCTETSTRING"
  by (simp_all add: valid_asn1_tag_def CBS_ASN1_INTEGER_def CBS_ASN1_BOOLEAN_def CBS_ASN1_OCTETSTRING_def
      CBS_ASN1_CONSTRUCTED_def)

interpretation asn1_uint64_codec:
  exact_codec "\<lambda>v. der_element CBS_ASN1_INTEGER (asn1_uint_body (unat v))" CBS_get_asn1_uint64 "\<lambda>_. True"
proof
  fix v :: u64 and rest bs
  have "length (asn1_uint_body (unat v)) < 2 ^ 32"
    by (rule order_le_less_trans [OF length_uint_body [of _ 8]]) simp_all
  then show "CBS_get_asn1_uint64 (der_element CBS_ASN1_INTEGER (asn1_uint_body (unat v)) @ rest) = (Some v, rest)"
    using is_unsigned_iff [of "asn1_uint_body (unat v)"]
    by (simp add: CBS_get_asn1_uint64_def asn1_codec.get_put valid_universal_tags uint64_loop_exact op_simps)
  assume "CBS_get_asn1_uint64 bs = (Some v, rest)"
  then obtain c where "CBS_get_asn1 CBS_ASN1_INTEGER bs = (Some c, rest)"
    "CBS_is_unsigned_asn1_integer c" "asn1_uint64_loop 0 c = Some v"
    by (auto simp: CBS_get_asn1_uint64_def op_bind_eq_Some op_simps split: if_splits option.splits)
  then show "True \<and> bs = der_element CBS_ASN1_INTEGER (asn1_uint_body (unat v)) @ rest"
    by (auto simp: CBS_get_asn1_accepts_iff is_unsigned_iff uint64_loop_exact Let_def unat_of_nat
        split: if_splits)
qed


text \<open>Signed: an INTEGER body is a two's complement number without a redundant first byte.\<close>

definition redundant_sign :: "u8 \<Rightarrow> u8 \<Rightarrow> bool" where
  "redundant_sign a b \<longleftrightarrow> (a = 0x00 \<and> b AND 0x80 = 0) \<or> (a = 0xff \<and> b AND 0x80 \<noteq> 0)"

fun strip_sign :: "bytes \<Rightarrow> bytes" where
  "strip_sign (a # b # bs) = (if redundant_sign a b then strip_sign (b # bs) else a # b # bs)"
| "strip_sign bs = bs"

definition sign_byte :: "bool \<Rightarrow> u8" where
  "sign_byte neg = (if neg then 0xff else 0)"

lemma sign_byte_high [simp]: "sign_byte neg AND 0x80 \<noteq> 0 \<longleftrightarrow> neg"
  by (simp add: sign_byte_def)

lemma valid_integer_iff:
  "CBS_is_valid_asn1_integer bs = Some neg \<longleftrightarrow>
   bs \<noteq> [] \<and> strip_sign bs = bs \<and> (hd bs AND 0x80 \<noteq> 0) = neg"
proof -
  have len: "length (strip_sign xs) \<le> length xs" for xs by (induction xs rule: strip_sign.induct) auto
  have ne: "strip_sign (b # cs) \<noteq> a # b # cs" for a b cs using len [of "b # cs"] by auto
  show ?thesis
    by (cases bs rule: strip_sign.cases)
      (use ne in \<open>auto simp: CBS_is_valid_asn1_integer_def op_simps Let_def redundant_sign_def\<close>)
qed

lemma strip_sign_extended:
  assumes "bs \<noteq> []" "(hd bs AND 0x80 \<noteq> 0) = neg"
  shows "strip_sign (replicate k (sign_byte neg) @ bs) = strip_sign bs"
proof (induction k)
  case (Suc k)
  have "redundant_sign (sign_byte neg) (hd (replicate k (sign_byte neg) @ bs))"
    using assms by (cases k) (auto simp: redundant_sign_def sign_byte_def)
  then show ?case using Suc assms(1)
    by (cases "replicate k (sign_byte neg) @ bs") auto
qed simp

lemma strip_sign_props:
  assumes "bs \<noteq> []"
  shows "strip_sign bs \<noteq> []" "strip_sign (strip_sign bs) = strip_sign bs"
    "(hd (strip_sign bs) AND 0x80 \<noteq> 0) = (hd bs AND 0x80 \<noteq> 0)"
    "bs = replicate (length bs - length (strip_sign bs)) (sign_byte (hd bs AND 0x80 \<noteq> 0)) @ strip_sign bs"
    "length (strip_sign bs) \<le> length bs"
proof -
  have "strip_sign bs \<noteq> [] \<and> strip_sign (strip_sign bs) = strip_sign bs
    \<and> (hd (strip_sign bs) AND 0x80 \<noteq> 0) = (hd bs AND 0x80 \<noteq> 0)
    \<and> bs = replicate (length bs - length (strip_sign bs)) (sign_byte (hd bs AND 0x80 \<noteq> 0)) @ strip_sign bs
    \<and> length (strip_sign bs) \<le> length bs"
    using assms
  proof (induction bs rule: strip_sign.induct)
    case (1 a b bs)
    show ?case
    proof (cases "redundant_sign a b")
      case True
      then have h: "(a AND 0x80 \<noteq> 0) = (b AND 0x80 \<noteq> 0)" "a = sign_byte (b AND 0x80 \<noteq> 0)"
        by (auto simp: redundant_sign_def sign_byte_def)
      then show ?thesis using 1 True by (auto simp: Suc_diff_le)
    qed simp
  qed auto
  then show "strip_sign bs \<noteq> []" "strip_sign (strip_sign bs) = strip_sign bs"
    "(hd (strip_sign bs) AND 0x80 \<noteq> 0) = (hd bs AND 0x80 \<noteq> 0)"
    "bs = replicate (length bs - length (strip_sign bs)) (sign_byte (hd bs AND 0x80 \<noteq> 0)) @ strip_sign bs"
    "length (strip_sign bs) \<le> length bs" by blast+
qed

definition asn1_int64_body :: "u64 \<Rightarrow> bytes" where
  "asn1_int64_body v = strip_sign (nat_be 8 (unat v))"

lemma load_u64_be_eq_iff: "length bs = 8 \<Longrightarrow> CRYPTO_load_u64_be bs = v \<longleftrightarrow> bs = nat_be 8 (unat v)"
  using word_of_nat_be_nat_eq [of bs 8 v] unat_word_less(3) [of v] by (simp add: CRYPTO_load_u64_be_be_nat)

lemma length_int64_body: "length (asn1_int64_body v) \<le> 8"
  using strip_sign_props(5) [of "nat_be 8 (unat v)"] length_nat_be [of 8 "unat v"]
  by (cases "nat_be 8 (unat v)") (auto simp: asn1_int64_body_def)

lemma take_sign_byte: "take (8 - n) (replicate 8 (if neg then 0xff else 0)) = replicate (8 - n) (sign_byte neg)"
  by (simp add: sign_byte_def min_def)

lemma get_asn1_int64_eq_Some:
  "CBS_get_asn1_int64 bs = (Some v, rest) \<longleftrightarrow>
   (\<exists>c n. CBS_get_asn1 CBS_ASN1_INTEGER bs = (Some c, rest) \<and> CBS_is_valid_asn1_integer c = Some n
      \<and> length c \<le> 8 \<and> CRYPTO_load_u64_be (replicate (8 - length c) (sign_byte n) @ c) = v)"
proof -
  have body: "(case x of None \<Rightarrow> op_fail | Some neg \<Rightarrow> if P then op_fail else op_return (f neg)) t = (Some v, rest)
    \<longleftrightarrow> t = rest \<and> (\<exists>n. x = Some n \<and> \<not> P \<and> f n = v)" for x P and f :: "bool \<Rightarrow> u64" and t :: cbs
    by (cases x) (auto simp: op_simps)
  show ?thesis
    unfolding CBS_get_asn1_int64_def op_bind_eq_Some Let_def take_sign_byte body not_less by blast
qed

interpretation asn1_int64_codec:
  exact_codec "\<lambda>v. der_element CBS_ASN1_INTEGER (asn1_int64_body v)" CBS_get_asn1_int64 "\<lambda>_. True"
proof
  fix v :: u64 and rest bs
  let ?bs = "nat_be 8 (unat v)"
  have ne: "?bs \<noteq> []" using length_nat_be [of 8 "unat v"] by (metis list.size(3) zero_neq_numeral)
  note props = strip_sign_props [OF ne]
  define neg where "neg = (hd ?bs AND 0x80 \<noteq> 0)"
  have valid: "CBS_is_valid_asn1_integer (asn1_int64_body v) = Some neg"
    using props(1-3) by (simp add: valid_integer_iff asn1_int64_body_def neg_def)
  have "replicate (8 - length (asn1_int64_body v)) (sign_byte neg) @ asn1_int64_body v = ?bs"
    using props(4) by (simp add: asn1_int64_body_def neg_def)
  then have "CRYPTO_load_u64_be (replicate (8 - length (asn1_int64_body v)) (sign_byte neg) @ asn1_int64_body v) = v"
    using load_u64_be_eq_iff [OF length_nat_be, of "unat v" v] by metis
  moreover have "length (asn1_int64_body v) < 2 ^ 32" using length_int64_body [of v] by simp
  ultimately show "CBS_get_asn1_int64 (der_element CBS_ASN1_INTEGER (asn1_int64_body v) @ rest) = (Some v, rest)"
    unfolding get_asn1_int64_eq_Some
    using length_int64_body [of v] valid asn1_codec.get_put [of CBS_ASN1_INTEGER "asn1_int64_body v" rest]
      valid_universal_tags(1) by blast
  assume "CBS_get_asn1_int64 bs = (Some v, rest)"
  then obtain c n where c: "CBS_get_asn1 CBS_ASN1_INTEGER bs = (Some c, rest)"
    "CBS_is_valid_asn1_integer c = Some n" "length c \<le> 8"
    "CRYPTO_load_u64_be (replicate (8 - length c) (sign_byte n) @ c) = v"
    unfolding get_asn1_int64_eq_Some by blast
  then have "nat_be 8 (unat v) = replicate (8 - length c) (sign_byte n) @ c"
    using load_u64_be_eq_iff [of "replicate (8 - length c) (sign_byte n) @ c" v] by simp
  then have "asn1_int64_body v = c"
    using c(2) by (simp add: asn1_int64_body_def strip_sign_extended valid_integer_iff)
  then show "True \<and> bs = der_element CBS_ASN1_INTEGER (asn1_int64_body v) @ rest"
    using c(1) by (simp add: CBS_get_asn1_accepts_iff)
qed

text \<open>BOOLEAN: only the two DER values.\<close>

lemma get_asn1_bool_eq_Some:
  "CBS_get_asn1_bool bs = (Some b, rest) \<longleftrightarrow>
   CBS_get_asn1 CBS_ASN1_BOOLEAN bs = (Some [if b then 0xff else 0], rest)"
proof -
  have body: "op_bind (op_guard (length c = 1)) (\<lambda>_.
      let v = c ! 0 in op_bind (op_guard (\<not> (v \<noteq> 0 \<and> v \<noteq> 0xff))) (\<lambda>_. op_return (v \<noteq> 0))) t = (Some b, rest)
    \<longleftrightarrow> t = rest \<and> c = [if b then 0xff else 0]" for c :: bytes and t :: cbs
  proof (cases c rule: remdups_adj.cases)
    case (2 a)
    show ?thesis unfolding 2 by (simp add: op_bind_def op_simps)
  qed (simp_all add: op_bind_def op_simps)
  show ?thesis unfolding CBS_get_asn1_bool_def by (subst op_bind_eq_Some) (simp only: body, blast)
qed

interpretation asn1_bool_codec:
  exact_codec "\<lambda>b. der_element CBS_ASN1_BOOLEAN [if b then 0xff else 0]" CBS_get_asn1_bool "\<lambda>_. True"
  by standard (simp_all add: get_asn1_bool_eq_Some CBS_get_asn1_accepts_iff valid_universal_tags)

end
