(* ===== verification/Cbb.thy ===== *)
theory Cbb
  imports Der
begin

text \<open>
  The byte-string builder of BoringSSL, \<open>crypto/bytestring/cbb.c\<close>: the growing or fixed buffer, the
  chain of pending length-prefixed children and \<open>CBB_flush\<close>, which closes them.

  A top-level \<open>CBB\<close> and its pending children share one buffer. The model is that buffer with the
  chain of children, outermost first: \<open>cbb->child\<close> of the \<open>CBB\<close> at depth \<open>d\<close> is the entry \<open>d\<close> of
  the chain, and \<open>NULL\<close> when the chain has \<open>d\<close> entries. A \<open>CBB\<close> is named by its depth, 0 for the
  top-level one. A depth beyond the chain is a child that was flushed or discarded, whose \<open>base\<close> is
  \<open>NULL\<close>; where the code would dereference it, \<open>cbb_trap\<close> is set. (Handles that a caller keeps
  after the \<open>CBB\<close> they name was invalidated are not told apart from a later child of that depth.)
\<close>

section \<open>State\<close>

record cbb_child =
  offset :: nat
  pending_len_len :: nat
  pending_is_asn1 :: bool

text \<open>\<open>cbb_buf\<close> is the memory block of \<open>cap\<close> bytes. Allocation number \<open>i\<close> of this builder is
  answered by \<open>cbb_heap i\<close>.\<close>

record cbb =
  cbb_buf :: bytes
  cbb_len :: nat
  cbb_cap :: nat
  cbb_can_resize :: bool
  cbb_error :: bool
  cbb_children :: "cbb_child list"
  cbb_heap :: "nat \<Rightarrow> heap"
  cbb_allocs :: nat
  cbb_trap :: bool

definition CBB_zero :: "(nat \<Rightarrow> heap) \<Rightarrow> cbb" where
  "CBB_zero h = \<lparr>cbb_buf = [], cbb_len = 0, cbb_cap = 0, cbb_can_resize = False, cbb_error = False,
     cbb_children = [], cbb_heap = h, cbb_allocs = 0, cbb_trap = False\<rparr>"

definition cbb_init :: "bytes \<Rightarrow> nat \<Rightarrow> bool \<Rightarrow> cbb \<Rightarrow> cbb" where
  "cbb_init buf cap can_resize cbb =
     cbb\<lparr>cbb_children := [], cbb_buf := buf, cbb_len := 0, cbb_cap := cap,
         cbb_can_resize := can_resize, cbb_error := False\<rparr>"

definition CBB_init :: "nat \<Rightarrow> (nat \<Rightarrow> heap) \<Rightarrow> unit option \<times> cbb" where
  "CBB_init initial_capacity h =
     (let cbb = CBB_zero h in
      case OPENSSL_malloc (h 0) initial_capacity of
        None \<Rightarrow> if initial_capacity > 0 then (None, cbb\<lparr>cbb_allocs := 1\<rparr>)
                else (Some (), cbb_init [] initial_capacity True (cbb\<lparr>cbb_allocs := 1\<rparr>))
      | Some buf \<Rightarrow> (Some (), cbb_init buf initial_capacity True (cbb\<lparr>cbb_allocs := 1\<rparr>)))"

definition CBB_init_fixed :: "bytes \<Rightarrow> nat \<Rightarrow> (nat \<Rightarrow> heap) \<Rightarrow> cbb" where
  "CBB_init_fixed buf len h = cbb_init buf len False (CBB_zero h)"

definition attached :: "nat \<Rightarrow> cbb \<Rightarrow> bool" where
  "attached d cbb \<longleftrightarrow> d \<le> length (cbb_children cbb)"

section \<open>The buffer\<close>

text \<open>Both return the position \<open>*out - base->buf\<close>. \<open>realloc\<close> of \<open>NULL\<close> is that of an empty block.\<close>

definition cbb_buffer_reserve :: "nat \<Rightarrow> (cbb, nat) op" where
  "cbb_buffer_reserve len base =
     (let newlen = size_add (cbb_len base) len in
      if newlen < cbb_len base then (None, base\<lparr>cbb_error := True\<rparr>)
      else if newlen > cbb_cap base then
        if \<not> cbb_can_resize base then (None, base\<lparr>cbb_error := True\<rparr>)
        else
          let newcap = cbb_cap base * 2 mod size_mod;
              newcap = (if newcap < cbb_cap base \<or> newcap < newlen then newlen else newcap);
              h = cbb_heap base (cbb_allocs base);
              base = base\<lparr>cbb_allocs := cbb_allocs base + 1\<rparr>
          in (case OPENSSL_realloc h (Some (cbb_buf base)) newcap of
                None \<Rightarrow> (None, base\<lparr>cbb_error := True\<rparr>)
              | Some newbuf \<Rightarrow>
                  (Some (cbb_len base), base\<lparr>cbb_buf := newbuf, cbb_cap := newcap\<rparr>))
      else (Some (cbb_len base), base))"

definition cbb_buffer_add :: "nat \<Rightarrow> (cbb, nat) op" where
  "cbb_buffer_add len =
     op_bind (cbb_buffer_reserve len)
       (\<lambda>out base. (Some out, base\<lparr>cbb_len := size_add (cbb_len base) len\<rparr>))"

text \<open>The loop that stores the low bytes of \<open>v\<close> big-endian at \<open>off\<close> and leaves \<open>v\<close> shifted out.\<close>

fun put_be :: "nat \<Rightarrow> nat \<Rightarrow> nat \<Rightarrow> bytes \<Rightarrow> bytes \<times> nat" where
  "put_be 0 off v b = (b, v)"
| "put_be (Suc i) off v b = put_be i off (v div 256) (b[off + i := word_of_nat v])"

section \<open>Flushing\<close>

definition cbb_on_error :: "nat \<Rightarrow> cbb \<Rightarrow> cbb" where
  "cbb_on_error d cbb =
     (if attached d cbb then cbb\<lparr>cbb_error := True, cbb_children := take d (cbb_children cbb)\<rparr>
      else cbb\<lparr>cbb_trap := True\<rparr>)"

definition cbb_goto_err :: "nat \<Rightarrow> (cbb, 'a) op" where
  "cbb_goto_err d cbb = (None, cbb_on_error d cbb)"

text \<open>The ASN.1 length: how many bytes, the first one, and what is left to write after it.\<close>

definition asn1_length_form :: "nat \<Rightarrow> nat \<times> u8 \<times> nat" where
  "asn1_length_form len =
     (if len > 0xffffff then (5, 0x84, len)
      else if len > 0xffff then (4, 0x83, len)
      else if len > 0xff then (3, 0x82, len)
      else if len > 0x7f then (2, 0x81, len)
      else (1, word_of_nat len, 0))"

definition flush_put_length :: "nat \<Rightarrow> nat \<Rightarrow> nat \<Rightarrow> (cbb, unit) op" where
  "flush_put_length off n len base =
     (case put_be n off len (cbb_buf base) of
        (b, len) \<Rightarrow> (if len \<noteq> 0 then None else Some (), base\<lparr>cbb_buf := b\<rparr>))"

definition flush_make_room :: "nat \<Rightarrow> nat \<Rightarrow> nat \<Rightarrow> (cbb, unit) op" where
  "flush_make_room child_start len_len len =
     (if len_len \<noteq> 1 then
        let extra_bytes = len_len - 1 in
        op_bind (cbb_buffer_add extra_bytes) (\<lambda>_ base.
          (Some (), base\<lparr>cbb_buf := memmove_at (child_start + extra_bytes) child_start len (cbb_buf base)\<rparr>))
      else op_return ())"

definition flush_child :: "cbb_child \<Rightarrow> nat \<Rightarrow> (cbb, unit) op" where
  "flush_child child child_start base =
     (let len = cbb_len base - child_start in
      if pending_is_asn1 child then
        if len > 0xfffffffe then (None, base)
        else
          (case asn1_length_form len of
             (len_len, initial_length_byte, len) \<Rightarrow>
               op_bind (flush_make_room child_start len_len len) (\<lambda>_ base.
                 flush_put_length (offset child + 1) (len_len - 1) len
                   (base\<lparr>cbb_buf := (cbb_buf base)[offset child := initial_length_byte]\<rparr>)) base)
      else flush_put_length (offset child) (pending_len_len child) len base)"

function CBB_flush :: "nat \<Rightarrow> cbb \<Rightarrow> unit option \<times> cbb" where
  "CBB_flush d cbb =
     (if \<not> attached d cbb \<or> cbb_error cbb then (None, cbb)
      else if d = length (cbb_children cbb) then (Some (), cbb)
      else
        let child = cbb_children cbb ! d;
            child_start = size_add (offset child) (pending_len_len child)
        in (case CBB_flush (Suc d) cbb of
              (None, cbb) \<Rightarrow> cbb_goto_err d cbb
            | (Some _, cbb) \<Rightarrow>
                if child_start < offset child \<or> cbb_len cbb < child_start then cbb_goto_err d cbb
                else (case flush_child child child_start cbb of
                        (None, cbb) \<Rightarrow> cbb_goto_err d cbb
                      | (Some _, cbb) \<Rightarrow>
                          (Some (), cbb\<lparr>cbb_children := take d (cbb_children cbb)\<rparr>))))"
  by auto
termination
  by (relation "measure (\<lambda>(d, cbb). length (cbb_children cbb) - d)") (auto simp: attached_def)

declare CBB_flush.simps [simp del]

text \<open>The result is \<open>*out_data\<close> and \<open>*out_len\<close>, \<open>None\<close> for a failure; \<open>wants_out\<close> tells that the
  two pointers are not \<open>NULL\<close>. The buffer is no longer the builder's.\<close>

definition CBB_finish :: "nat \<Rightarrow> bool \<Rightarrow> (cbb, bytes \<times> nat) op" where
  "CBB_finish d wants_out =
     op_bind (op_guard (d = 0)) (\<lambda>_.
       op_bind (CBB_flush d) (\<lambda>_ cbb.
         if cbb_can_resize cbb \<and> \<not> wants_out then (None, cbb)
         else (Some (cbb_buf cbb, cbb_len cbb), cbb\<lparr>cbb_buf := []\<rparr>)))"

text \<open>\<open>CBB_data\<close> as a position in the buffer. Neither may be called with a pending child.\<close>

definition CBB_data :: "nat \<Rightarrow> cbb \<Rightarrow> nat" where
  "CBB_data d cbb =
     (if d > 0 then offset (cbb_children cbb ! (d - 1)) + pending_len_len (cbb_children cbb ! (d - 1))
      else 0)"

definition CBB_len :: "nat \<Rightarrow> cbb \<Rightarrow> nat" where
  "CBB_len d cbb =
     (if d > 0 then
        cbb_len cbb - offset (cbb_children cbb ! (d - 1)) - pending_len_len (cbb_children cbb ! (d - 1))
      else cbb_len cbb)"

section \<open>Writing\<close>

definition cbb_add_child :: "nat \<Rightarrow> nat \<Rightarrow> bool \<Rightarrow> (cbb, unit) op" where
  "cbb_add_child d len_len is_asn1 cbb =
     (let off = cbb_len cbb in
      op_bind (cbb_buffer_add len_len) (\<lambda>prefix_bytes cbb.
        let cbb = cbb\<lparr>cbb_buf := memcpy_at prefix_bytes (replicate len_len 0) (cbb_buf cbb)\<rparr>;
            out_child = \<lparr>offset = off, pending_len_len = len_len, pending_is_asn1 = is_asn1\<rparr>
        in (Some (), cbb\<lparr>cbb_children := take d (cbb_children cbb) @ [out_child]\<rparr>)) cbb)"

definition cbb_add_length_prefixed :: "nat \<Rightarrow> nat \<Rightarrow> (cbb, unit) op" where
  "cbb_add_length_prefixed d len_len =
     op_bind (CBB_flush d) (\<lambda>_. cbb_add_child d len_len False)"

definition CBB_add_u8_length_prefixed :: "nat \<Rightarrow> (cbb, unit) op" where
  "CBB_add_u8_length_prefixed d = cbb_add_length_prefixed d 1"

definition CBB_add_u16_length_prefixed :: "nat \<Rightarrow> (cbb, unit) op" where
  "CBB_add_u16_length_prefixed d = cbb_add_length_prefixed d 2"

definition CBB_add_u24_length_prefixed :: "nat \<Rightarrow> (cbb, unit) op" where
  "CBB_add_u24_length_prefixed d = cbb_add_length_prefixed d 3"

definition CBB_add_space :: "nat \<Rightarrow> nat \<Rightarrow> (cbb, nat) op" where
  "CBB_add_space d len = op_bind (CBB_flush d) (\<lambda>_. cbb_buffer_add len)"

definition CBB_reserve :: "nat \<Rightarrow> nat \<Rightarrow> (cbb, nat) op" where
  "CBB_reserve d len = op_bind (CBB_flush d) (\<lambda>_. cbb_buffer_reserve len)"

definition CBB_add_bytes :: "nat \<Rightarrow> bytes \<Rightarrow> (cbb, unit) op" where
  "CBB_add_bytes d data =
     op_bind (CBB_add_space d (length data)) (\<lambda>out cbb.
       (Some (), cbb\<lparr>cbb_buf := memcpy_at out data (cbb_buf cbb)\<rparr>))"

definition CBB_add_zeros :: "nat \<Rightarrow> nat \<Rightarrow> (cbb, unit) op" where
  "CBB_add_zeros d len =
     op_bind (CBB_add_space d len) (\<lambda>out cbb.
       (Some (), cbb\<lparr>cbb_buf := memcpy_at out (replicate len 0) (cbb_buf cbb)\<rparr>))"

definition CBB_did_write :: "nat \<Rightarrow> nat \<Rightarrow> (cbb, unit) op" where
  "CBB_did_write d len cbb =
     (if \<not> attached d cbb then (None, cbb\<lparr>cbb_trap := True\<rparr>)
      else
        let newlen = size_add (cbb_len cbb) len in
        if d < length (cbb_children cbb) \<or> newlen < cbb_len cbb \<or> newlen > cbb_cap cbb then (None, cbb)
        else (Some (), cbb\<lparr>cbb_len := newlen\<rparr>))"

definition cbb_add_u :: "nat \<Rightarrow> u64 \<Rightarrow> nat \<Rightarrow> (cbb, unit) op" where
  "cbb_add_u d v len_len =
     op_bind (CBB_add_space d len_len) (\<lambda>out cbb.
       case put_be len_len out (unat v) (cbb_buf cbb) of
         (b, v) \<Rightarrow>
           if v \<noteq> 0 then cbb_goto_err d (cbb\<lparr>cbb_buf := b\<rparr>) else (Some (), cbb\<lparr>cbb_buf := b\<rparr>))"

definition CBB_add_u8 :: "nat \<Rightarrow> u8 \<Rightarrow> (cbb, unit) op" where
  "CBB_add_u8 d v = cbb_add_u d (ucast v) 1"

definition CBB_add_u16 :: "nat \<Rightarrow> u16 \<Rightarrow> (cbb, unit) op" where
  "CBB_add_u16 d v = cbb_add_u d (ucast v) 2"

definition CBB_add_u16le :: "nat \<Rightarrow> u16 \<Rightarrow> (cbb, unit) op" where
  "CBB_add_u16le d v = CBB_add_u16 d (CRYPTO_bswap2 v)"

definition CBB_add_u24 :: "nat \<Rightarrow> u32 \<Rightarrow> (cbb, unit) op" where
  "CBB_add_u24 d v = cbb_add_u d (ucast v) 3"

definition CBB_add_u32 :: "nat \<Rightarrow> u32 \<Rightarrow> (cbb, unit) op" where
  "CBB_add_u32 d v = cbb_add_u d (ucast v) 4"

definition CBB_add_u32le :: "nat \<Rightarrow> u32 \<Rightarrow> (cbb, unit) op" where
  "CBB_add_u32le d v = CBB_add_u32 d (CRYPTO_bswap4 v)"

definition CBB_add_u64 :: "nat \<Rightarrow> u64 \<Rightarrow> (cbb, unit) op" where
  "CBB_add_u64 d v = cbb_add_u d v 8"

definition CBB_add_u64le :: "nat \<Rightarrow> u64 \<Rightarrow> (cbb, unit) op" where
  "CBB_add_u64le d v = CBB_add_u64 d (CRYPTO_bswap8 v)"

definition CBB_discard_child :: "nat \<Rightarrow> cbb \<Rightarrow> cbb" where
  "CBB_discard_child d cbb =
     (if length (cbb_children cbb) \<le> d then cbb
      else cbb\<lparr>cbb_len := offset (cbb_children cbb ! d), cbb_children := take d (cbb_children cbb)\<rparr>)"

end
