(* ===== verification/CbbFlush.thy ===== *)
theory CbbFlush
  imports Cbb
begin

text \<open>
  What the builder promises. \<open>cbb_wf\<close> is its invariant; \<open>closed\<close> is the abstract flush, a function
  on the bytes written so far and the pending children, and \<open>CBB_flush\<close> computes it. An operation
  that appends bytes is an instance of the locale \<open>cbb_writer\<close>.
\<close>

section \<open>The invariant and the abstract flush\<close>

definition cbb_data :: "cbb \<Rightarrow> bytes" where
  "cbb_data cbb = take (cbb_len cbb) (cbb_buf cbb)"

definition child_start :: "cbb_child \<Rightarrow> nat" where
  "child_start k = offset k + pending_len_len k"

fun chain_ok :: "nat \<Rightarrow> cbb_child list \<Rightarrow> nat \<Rightarrow> bool" where
  "chain_ok lo [] n \<longleftrightarrow> lo \<le> n"
| "chain_ok lo (k # ks) n \<longleftrightarrow>
     lo \<le> offset k \<and> (pending_is_asn1 k \<longrightarrow> pending_len_len k = 1) \<and> chain_ok (child_start k) ks n"

definition cbb_wf :: "cbb \<Rightarrow> bool" where
  "cbb_wf cbb \<longleftrightarrow>
     length (cbb_buf cbb) = cbb_cap cbb \<and> cbb_len cbb \<le> cbb_cap cbb \<and> cbb_cap cbb < size_mod
     \<and> chain_ok 0 (cbb_children cbb) (cbb_len cbb) \<and> (\<forall>i. heap_ok (cbb_heap cbb i))"

definition prefix_of :: "cbb_child \<Rightarrow> nat \<Rightarrow> bytes" where
  "prefix_of k n = (if pending_is_asn1 k then der_length n else nat_be (pending_len_len k) n)"

definition prefix_fits :: "cbb_child \<Rightarrow> nat \<Rightarrow> bool" where
  "prefix_fits k n \<longleftrightarrow> (if pending_is_asn1 k then n \<le> 0xfffffffe else n < 256 ^ pending_len_len k)"

fun closed :: "bytes \<Rightarrow> cbb_child list \<Rightarrow> bytes option" where
  "closed xs [] = Some xs"
| "closed xs (k # ks) =
     (case closed xs ks of
        None \<Rightarrow> None
      | Some ys \<Rightarrow>
          let body = drop (child_start k) ys in
          if prefix_fits k (length body) then Some (take (offset k) ys @ prefix_of k (length body) @ body)
          else None)"

text \<open>The buffer can take \<open>n\<close> bytes in all: it is that large, or it can grow and memory is there.\<close>

definition can_hold :: "cbb \<Rightarrow> nat \<Rightarrow> bool" where
  "can_hold cbb n \<longleftrightarrow>
     \<not> cbb_error cbb \<and>
     (n \<le> cbb_cap cbb \<or>
      cbb_can_resize cbb \<and> (\<forall>i m. m < size_mod \<longrightarrow> cbb_heap cbb i m \<noteq> None) \<and> n < 2 ^ 62)"

lemma length_cbb_data [simp]: "cbb_wf cbb \<Longrightarrow> length (cbb_data cbb) = cbb_len cbb"
  by (simp add: cbb_data_def cbb_wf_def)

lemma chain_ok_le: "chain_ok lo ks n \<Longrightarrow> lo \<le> n"
proof (induction ks arbitrary: lo)
  case (Cons k ks)
  then have "lo \<le> offset k" "child_start k \<le> n" by auto
  then show ?case by (simp add: child_start_def)
qed simp

lemma chain_ok_mono: "chain_ok lo ks n \<Longrightarrow> n \<le> m \<Longrightarrow> chain_ok lo ks m"
  by (induction ks arbitrary: lo) auto

lemma chain_ok_append: "chain_ok lo (ks @ js) n \<longleftrightarrow>
    (\<exists>m. chain_ok lo ks m \<and> chain_ok m js n)" (is "?l \<longleftrightarrow> ?r")
proof (induction ks arbitrary: lo)
  case Nil
  have "chain_ok lo js n" if "lo \<le> m" "chain_ok m js n" for m
    using that by (cases js) auto
  then show ?case by auto
qed auto

lemma chain_ok_take: "chain_ok lo ks n \<Longrightarrow> chain_ok lo (take d ks) n"
proof -
  assume "chain_ok lo ks n"
  then have "chain_ok lo (take d ks @ drop d ks) n" by simp
  then obtain m where "chain_ok lo (take d ks) m" "chain_ok m (drop d ks) n"
    unfolding chain_ok_append by blast
  then show ?thesis using chain_ok_le chain_ok_mono by blast
qed

lemma chain_ok_drop: "chain_ok lo ks n \<Longrightarrow> \<exists>m. chain_ok m (drop d ks) n"
  by (metis append_take_drop_id chain_ok_append)

section \<open>Stores into the block\<close>

lemma length_memcpy_at: "i + length xs \<le> length b \<Longrightarrow> length (memcpy_at i xs b) = length b"
  by (simp add: memcpy_at_def)

lemma memcpy_at_Nil [simp]: "memcpy_at i [] b = b"
  by (simp add: memcpy_at_def)

lemma put_be_memcpy:
  "off + n \<le> length b \<Longrightarrow> put_be n off v b = (memcpy_at off (nat_be n v) b, v div 256 ^ n)"
proof (induction n off v b rule: put_be.induct)
  case (2 i off v b)
  have "memcpy_at off (nat_be i (v div 256)) (b[off + i := word_of_nat v]) = memcpy_at off (nat_be (Suc i) v) b"
    using 2(2) by (simp add: memcpy_at_def take_update_cancel drop_update_swap upd_conv_take_nth_drop)
  then show ?case using 2 by (simp add: div_mult2_eq)
qed simp

lemma take_memcpy_at:
  "i + length xs \<le> length b \<Longrightarrow> take (i + length xs) (memcpy_at i xs b) = take i b @ xs"
  by (simp add: memcpy_at_def)

text \<open>Bytes stored behind the first \<open>n\<close> leave those alone.\<close>

lemma take_memcpy_at_behind: "n \<le> i \<Longrightarrow> i \<le> length b \<Longrightarrow> take n (memcpy_at i xs b) = take n b"
  by (simp add: memcpy_at_def min_def)

section \<open>The buffer grows\<close>

lemma cbb_buffer_reserve_cases:
  assumes "cbb_wf c" "cbb_buffer_reserve n c = (r, c')"
  obtains e a b k where "c' = c\<lparr>cbb_error := e, cbb_allocs := a, cbb_buf := b, cbb_cap := k\<rparr>"
    "length b = k" "k < size_mod" "cbb_cap c \<le> k" "take (cbb_len c) b = take (cbb_len c) (cbb_buf c)"
    "r = None \<and> e \<or> r = Some (cbb_len c) \<and> e = cbb_error c
       \<and> cbb_len c \<le> size_add (cbb_len c) n \<and> size_add (cbb_len c) n \<le> k"
proof -
  define m where "m = size_add (cbb_len c) n"
  have wf: "length (cbb_buf c) = cbb_cap c" "cbb_len c \<le> cbb_cap c" "cbb_cap c < size_mod" "m < size_mod"
    "heap_ok (cbb_heap c i)" for i
    using assms(1) by (auto simp: cbb_wf_def m_def size_add_def)
  note r = assms(2) [symmetric, unfolded cbb_buffer_reserve_def Let_def m_def [symmetric]]
  consider "m < cbb_len c \<or> cbb_cap c < m \<and> \<not> cbb_can_resize c" | "cbb_len c \<le> m" "m \<le> cbb_cap c"
    | "cbb_len c \<le> m" "cbb_cap c < m" "cbb_can_resize c" by linarith
  then show ?thesis
  proof cases
    case 1
    then have "r = None" "c' = c\<lparr>cbb_error := True\<rparr>" using r by (auto split: if_splits)
    then show ?thesis using wf
      by (intro that [where e = True and a = "cbb_allocs c" and b = "cbb_buf c" and k = "cbb_cap c"]) simp_all
  next
    case 2
    then have "r = Some (cbb_len c)" "c' = c" using r by auto
    then show ?thesis using wf 2
      by (intro that [where e = "cbb_error c" and a = "cbb_allocs c" and b = "cbb_buf c" and k = "cbb_cap c"]) (simp_all add: m_def)
  next
    case 3
    define k where "k = (if cbb_cap c * 2 mod size_mod < cbb_cap c \<or> cbb_cap c * 2 mod size_mod < m
      then m else cbb_cap c * 2 mod size_mod)"
    have k: "k < size_mod" "m \<le> k" "cbb_cap c \<le> k" using 3 wf(4) by (auto simp: k_def)
    show ?thesis
    proof (cases "OPENSSL_realloc (cbb_heap c (cbb_allocs c)) (Some (cbb_buf c)) k")
      case None
      then have "r = None" "c' = c\<lparr>cbb_allocs := cbb_allocs c + 1, cbb_error := True\<rparr>"
        using r 3 by (auto simp: k_def [symmetric])
      then show ?thesis using wf
        by (intro that [where e = True and a = "cbb_allocs c + 1" and b = "cbb_buf c" and k = "cbb_cap c"]) simp_all
    next
      case (Some b)
      have b: "length b = k" "take (cbb_cap c) b = cbb_buf c"
        using OPENSSL_realloc_spec [OF wf(5) Some] k wf(1) by simp_all
      then have "take (cbb_len c) b = take (cbb_len c) (cbb_buf c)"
        using wf(2) by (metis min.absorb1 take_take)
      moreover have "r = Some (cbb_len c)" "c' = c\<lparr>cbb_allocs := cbb_allocs c + 1, cbb_buf := b, cbb_cap := k\<rparr>"
        using r 3 Some by (auto simp: k_def [symmetric])
      ultimately show ?thesis using wf k b 3
        by (intro that [where e = "cbb_error c" and a = "cbb_allocs c + 1" and b = b and k = k]) (simp_all add: m_def)
    qed
  qed
qed

lemma cbb_buffer_reserve_spec:
  assumes "cbb_wf c" "cbb_buffer_reserve n c = (r, c')" "n < size_mod"
  shows "cbb_wf c'" "cbb_len c' = cbb_len c" "cbb_children c' = cbb_children c"
    "cbb_data c' = cbb_data c" "cbb_trap c' = cbb_trap c" "r = None \<Longrightarrow> cbb_error c'"
    "r = Some p \<Longrightarrow> p = cbb_len c \<and> cbb_len c + n \<le> cbb_cap c' \<and> cbb_error c' = cbb_error c"
    "can_hold c m \<Longrightarrow> r \<noteq> None \<Longrightarrow> can_hold c' m"
proof -
  obtain e a b k where c': "c' = c\<lparr>cbb_error := e, cbb_allocs := a, cbb_buf := b, cbb_cap := k\<rparr>"
    "length b = k" "k < size_mod" "cbb_cap c \<le> k" "take (cbb_len c) b = take (cbb_len c) (cbb_buf c)"
    "r = None \<and> e \<or> r = Some (cbb_len c) \<and> e = cbb_error c
       \<and> cbb_len c \<le> size_add (cbb_len c) n \<and> size_add (cbb_len c) n \<le> k"
    by (rule cbb_buffer_reserve_cases [OF assms(1,2)])
  have len: "cbb_len c \<le> cbb_cap c" "cbb_len c < size_mod" using assms(1) by (auto simp: cbb_wf_def)
  show "cbb_wf c'" "cbb_len c' = cbb_len c" "cbb_children c' = cbb_children c"
    "cbb_data c' = cbb_data c" "cbb_trap c' = cbb_trap c"
    using c'(2-5) assms(1) unfolding c'(1) by (auto simp: cbb_wf_def cbb_data_def)
  show "r = None \<Longrightarrow> cbb_error c'" using c'(6) unfolding c'(1) by auto
  show "p = cbb_len c \<and> cbb_len c + n \<le> cbb_cap c' \<and> cbb_error c' = cbb_error c" if "r = Some p"
  proof -
    have "\<not> size_add (cbb_len c) n < cbb_len c" "size_add (cbb_len c) n \<le> k" using that c'(6) by auto
    then have "cbb_len c + n \<le> k"
      using size_add_wraps [OF len(2) assms(3)] by (simp add: size_add_exact)
    then show ?thesis using that c'(6) unfolding c'(1) by auto
  qed
  show "can_hold c m \<Longrightarrow> r \<noteq> None \<Longrightarrow> can_hold c' m"
    using c'(4,6) unfolding c'(1) by (auto simp: can_hold_def)
qed

lemma cbb_buffer_reserve_succeeds:
  assumes "cbb_wf c" "can_hold c (cbb_len c + n)"
  shows "fst (cbb_buffer_reserve n c) \<noteq> None"
proof -
  let ?m = "cbb_len c + n"
  have cap: "cbb_len c \<le> cbb_cap c" "cbb_cap c < size_mod" using assms(1) by (auto simp: cbb_wf_def)
  have m: "?m < size_mod" using assms cap by (auto simp: can_hold_def size_mod_def)
  show ?thesis
  proof (cases "?m \<le> cbb_cap c")
    case True
    then show ?thesis using m by (simp add: cbb_buffer_reserve_def Let_def size_add_exact)
  next
    case False
    then have h: "cbb_can_resize c" "\<And>i j. j < size_mod \<Longrightarrow> cbb_heap c i j \<noteq> None" "?m < 2 ^ 62"
      using assms(2) by (auto simp: can_hold_def)
    define k where "k = (if cbb_cap c * 2 mod size_mod < cbb_cap c \<or> cbb_cap c * 2 mod size_mod < ?m
      then ?m else cbb_cap c * 2 mod size_mod)"
    have "cbb_cap c * 2 < 2 ^ 63" using False h(3) by simp
    then have "k < 2 ^ 63" using h(3) by (auto simp: k_def size_mod_def)
    then have "size_add k OPENSSL_MALLOC_PREFIX = k + 8" "k + 8 < size_mod"
      by (simp_all add: size_add_def size_mod_def OPENSSL_MALLOC_PREFIX_def)
    then have "OPENSSL_malloc (cbb_heap c (cbb_allocs c)) k \<noteq> None"
      using h(2) by (auto simp: OPENSSL_malloc_def split: option.splits)
    then show ?thesis
      using m False h(1)
      by (auto simp: cbb_buffer_reserve_def Let_def size_add_exact k_def [symmetric] OPENSSL_realloc_def
          split: option.splits)
  qed
qed

text \<open>\<open>cbb_buffer_add\<close> puts \<open>n\<close> bytes of unspecified contents behind the data.\<close>

lemma cbb_buffer_add_spec:
  assumes "cbb_wf c" "cbb_buffer_add n c = (r, c')" "n < size_mod"
  shows "cbb_wf c'" "cbb_children c' = cbb_children c" "cbb_trap c' = cbb_trap c" "r = None \<Longrightarrow> cbb_error c'"
    "r = None \<Longrightarrow> cbb_data c' = cbb_data c"
    "r = Some p \<Longrightarrow> p = cbb_len c \<and> cbb_len c' = cbb_len c + n \<and> cbb_error c' = cbb_error c
       \<and> take (cbb_len c) (cbb_buf c') = cbb_data c"
    "can_hold c m \<Longrightarrow> r \<noteq> None \<Longrightarrow> can_hold c' m"
proof -
  obtain r0 c0 where r0: "cbb_buffer_reserve n c = (r0, c0)" by fastforce
  note s = cbb_buffer_reserve_spec [OF assms(1) r0 assms(3)]
  have "r0 = None \<Longrightarrow> r = None \<and> c' = c0"
    using assms(2) r0 by (auto simp: cbb_buffer_add_def op_bind_def)
  moreover have some: "r0 = Some q \<Longrightarrow> r = Some q \<and> c' = c0\<lparr>cbb_len := cbb_len c + n\<rparr> \<and> cbb_len c + n \<le> cbb_cap c0
      \<and> q = cbb_len c \<and> cbb_error c0 = cbb_error c" for q
    using assms(2) r0 s(1,2,7) by (auto simp: cbb_buffer_add_def op_bind_def size_add_exact cbb_wf_def)
  moreover have "chain_ok 0 (cbb_children c0) (cbb_len c)" using assms(1) s(3) by (simp add: cbb_wf_def)
  ultimately show "cbb_wf c'" "cbb_children c' = cbb_children c" "cbb_trap c' = cbb_trap c"
    "r = None \<Longrightarrow> cbb_error c'" "r = None \<Longrightarrow> cbb_data c' = cbb_data c"
    "r = Some p \<Longrightarrow> p = cbb_len c \<and> cbb_len c' = cbb_len c + n \<and> cbb_error c' = cbb_error c
       \<and> take (cbb_len c) (cbb_buf c') = cbb_data c"
    "can_hold c m \<Longrightarrow> r \<noteq> None \<Longrightarrow> can_hold c' m"
    using s by (cases r0; auto simp: cbb_wf_def cbb_data_def can_hold_def elim: chain_ok_mono)+
qed

lemma cbb_buffer_add_succeeds:
  "cbb_wf c \<Longrightarrow> can_hold c (cbb_len c + n) \<Longrightarrow> fst (cbb_buffer_add n c) \<noteq> None"
  using cbb_buffer_reserve_succeeds [of c n]
  by (auto simp: cbb_buffer_add_def op_bind_def split: prod.splits option.splits)

section \<open>Closing one child\<close>

lemma moved_contents:
  assumes "length P = off" "length B = n" "length xs = e" "e \<le> length R"
  shows "memcpy_at (off + 1) xs ((memmove_at (off + 1 + e) (off + 1) n (P @ x # B @ R))[off := i])
    = P @ i # xs @ B @ drop e R"
proof -
  have "take n (drop (off + 1) (P @ x # B @ R)) = B" using assms by simp
  then have "memmove_at (off + 1 + e) (off + 1) n (P @ x # B @ R) = P @ x # take e (B @ R) @ B @ drop e R"
    using assms by (simp add: memmove_at_def memcpy_at_def add.commute)
  moreover have "length (take e (B @ R)) = e" using assms by simp
  ultimately show ?thesis using assms by (simp add: memcpy_at_def list_update_append)
qed

lemma asn1_length_form_eq:
  assumes "n \<le> 0xfffffffe"
  shows "asn1_length_form n =
    (der_len_len n + 1, hd (der_length n), if der_len_len n = 0 then 0 else n)"
  by (auto simp: asn1_length_form_def der_len_len_def der_length_def)

lemma der_length_split: "der_length n = hd (der_length n) # (if der_len_len n = 0 then [] else nat_be (der_len_len n) n)"
  by (auto simp: der_length_def der_len_len_def)

lemma flush_put_length_spec:
  assumes "off + n \<le> length (cbb_buf c)"
  shows "flush_put_length off n v c =
    (if v < 256 ^ n then Some () else None, c\<lparr>cbb_buf := memcpy_at off (nat_be n v) (cbb_buf c)\<rparr>)"
  using assms by (simp add: flush_put_length_def put_be_memcpy div_eq_0_iff)

text \<open>The bytes of a buffer around a child that starts at \<open>offset k\<close>.\<close>

lemma split_at_child:
  assumes "child_start k \<le> cbb_len c" "cbb_wf c"
  obtains P L B where "cbb_data c = P @ L @ B" "length P = offset k" "length L = pending_len_len k"
    "length B = cbb_len c - child_start k"
proof
  show "cbb_data c = take (offset k) (cbb_data c) @ take (pending_len_len k) (drop (offset k) (cbb_data c))
      @ drop (child_start k) (cbb_data c)"
    by (metis append_take_drop_id drop_drop add.commute child_start_def)
qed (use assms in \<open>simp_all add: child_start_def\<close>)

lemma flush_child_plain:
  assumes "cbb_wf c" "child_start k \<le> cbb_len c" "\<not> pending_is_asn1 k" "flush_child k (child_start k) c = (r, c')"
  defines "body \<equiv> drop (child_start k) (cbb_data c)"
  shows "c' = c\<lparr>cbb_buf := cbb_buf c'\<rparr>" "length (cbb_buf c') = length (cbb_buf c)"
    "r \<noteq> None \<longleftrightarrow> prefix_fits k (length body)"
    "cbb_data c' = take (offset k) (cbb_data c) @ prefix_of k (length body) @ body"
proof -
  have len: "length body = cbb_len c - child_start k" using assms(1) by (simp add: body_def)
  have buf: "offset k + pending_len_len k \<le> length (cbb_buf c)"
    using assms(1,2) by (simp add: cbb_wf_def child_start_def)
  have f: "flush_child k (child_start k) c = (if length body < 256 ^ pending_len_len k then Some () else None,
      c\<lparr>cbb_buf := memcpy_at (offset k) (nat_be (pending_len_len k) (length body)) (cbb_buf c)\<rparr>)"
    using assms(3) flush_put_length_spec [OF buf] by (simp add: flush_child_def Let_def len)
  then have r: "r = (if length body < 256 ^ pending_len_len k then Some () else None)"
    and c': "c' = c\<lparr>cbb_buf := memcpy_at (offset k) (nat_be (pending_len_len k) (length body)) (cbb_buf c)\<rparr>"
    using assms(4) by simp_all
  show "c' = c\<lparr>cbb_buf := cbb_buf c'\<rparr>" "r \<noteq> None \<longleftrightarrow> prefix_fits k (length body)"
    using assms(3) r c' by (simp_all add: prefix_fits_def)
  show "length (cbb_buf c') = length (cbb_buf c)" using buf c' by (simp add: length_memcpy_at)
  obtain P L B where s: "cbb_data c = P @ L @ B" "length P = offset k" "length L = pending_len_len k"
    "length B = cbb_len c - child_start k"
    by (rule split_at_child [OF assms(2,1)])
  have "cbb_buf c = P @ L @ B @ drop (cbb_len c) (cbb_buf c)"
    using s(1) append_take_drop_id [of "cbb_len c" "cbb_buf c"] by (simp add: cbb_data_def)
  then obtain R where R: "cbb_buf c = P @ L @ B @ R" by blast
  have n: "cbb_len c = length P + length L + length B"
    using arg_cong [OF s(1), of length] assms(1) by simp
  have b: "body = B" using s by (simp add: body_def child_start_def)
  show "cbb_data c' = take (offset k) (cbb_data c) @ prefix_of k (length body) @ body"
    unfolding c' cbb_data_def by (simp add: R memcpy_at_def n b prefix_of_def assms(3) flip: s(2,3))
qed

lemma flush_child_asn1:
  assumes "cbb_wf c" "child_start k \<le> cbb_len c" "pending_is_asn1 k" "pending_len_len k = 1"
    "flush_child k (child_start k) c = (r, c')"
  defines "body \<equiv> drop (child_start k) (cbb_data c)"
  shows "cbb_wf c'" "cbb_children c' = cbb_children c" "cbb_trap c' = cbb_trap c"
    "cbb_error c \<Longrightarrow> cbb_error c'"
    "r \<noteq> None \<Longrightarrow> prefix_fits k (length body) \<and> cbb_error c' = cbb_error c \<and>
       cbb_data c' = take (offset k) (cbb_data c) @ prefix_of k (length body) @ body"
    "r \<noteq> None \<Longrightarrow> can_hold c m \<Longrightarrow> can_hold c' m"
    "prefix_fits k (length body) \<Longrightarrow> can_hold c (cbb_len c + der_len_len (length body)) \<Longrightarrow> r \<noteq> None"
proof -
  define n e where "n = length body" and "e = der_len_len n"
  have len: "cbb_len c - child_start k = n" using assms(1) by (simp add: n_def body_def)
  have wf: "cbb_len c \<le> length (cbb_buf c)" "offset k + 1 \<le> cbb_len c"
    using assms(1,2,4) by (auto simp: cbb_wf_def child_start_def)
  obtain P L B where "cbb_data c = P @ L @ B" "length P = offset k" "length L = pending_len_len k"
    "length B = cbb_len c - child_start k"
    by (rule split_at_child [OF assms(2,1)])
  then obtain P x B where s: "cbb_data c = P @ x # B" "length P = offset k" "length B = n"
    using assms(4) len by (auto simp: length_Suc_conv)
  have b: "body = B" "cbb_len c = length P + 1 + length B"
    using s length_cbb_data [OF assms(1)] assms(4) by (simp_all add: body_def child_start_def)
  have pre: "prefix_of k n = der_length n" using assms(3) by (simp add: prefix_of_def)
  consider (large) "n > 0xfffffffe" | (short) "n \<le> 0xfffffffe" "e = 0" | (long) "n \<le> 0xfffffffe" "e \<noteq> 0"
    by linarith
  then have "cbb_wf c' \<and> cbb_children c' = cbb_children c \<and> cbb_trap c' = cbb_trap c \<and> (cbb_error c \<longrightarrow> cbb_error c')
    \<and> (r \<noteq> None \<longrightarrow> prefix_fits k n \<and> cbb_error c' = cbb_error c \<and> cbb_data c' = P @ der_length n @ B
         \<and> (can_hold c m \<longrightarrow> can_hold c' m))
    \<and> (prefix_fits k n \<longrightarrow> can_hold c (cbb_len c + e) \<longrightarrow> r \<noteq> None)"
  proof cases
    case large
    then have "r = None" "c' = c" using assms(3,5) len by (auto simp: flush_child_def Let_def)
    then show ?thesis using assms(1,3) large by (simp add: prefix_fits_def)
  next
    case short
    have "c' = c\<lparr>cbb_buf := (cbb_buf c)[offset k := hd (der_length n)]\<rparr>" "r = Some ()"
      using assms(3,5) short asn1_length_form_eq [OF short(1)]
      unfolding flush_child_def len e_def [symmetric]
      by (auto simp: Let_def flush_make_room_def op_simps flush_put_length_def)
    moreover have "der_length n = [hd (der_length n)]"
      using der_length_split [of n] short(2) by (simp add: e_def)
    moreover have "take (cbb_len c) ((cbb_buf c)[offset k := y]) = P @ y # B" for y
      using s(1,2) by (simp add: cbb_data_def take_update_swap list_update_append)
    moreover have "prefix_fits k n" using short(1) assms(3) by (simp add: prefix_fits_def)
    ultimately show ?thesis
      using assms(1) by (auto simp: cbb_wf_def cbb_data_def can_hold_def)
  next
    case long
    obtain r1 c1 where r1: "cbb_buffer_add e c = (r1, c1)" by fastforce
    have "e \<le> 4" by (auto simp: e_def der_len_len_def)
    then have "e < size_mod" by (simp add: size_mod_def)
    note add = cbb_buffer_add_spec [OF assms(1) r1 this]
    have nf: "n < 256 ^ e" using der_len_len_bounds(4) [of n] long by (auto simp: e_def der_len_len_def split: if_splits)
    have fits: "prefix_fits k n" using long(1) assms(3) by (simp add: prefix_fits_def)
    show ?thesis
    proof (cases r1)
      case None
      then have "r = None" "c' = c1"
        using assms(3,5) long r1 asn1_length_form_eq [OF long(1)]
        unfolding flush_child_def len e_def [symmetric]
        by (auto simp: Let_def flush_make_room_def op_bind_def)
      then show ?thesis
        using add(1-4) None cbb_buffer_add_succeeds [OF assms(1), of e] r1 by auto
    next
      case (Some q)
      note a = add(6) [OF Some]
      define R where "R = drop (cbb_len c) (cbb_buf c1)"
      have buf: "cbb_buf c1 = P @ x # B @ R"
        using a s(1) append_take_drop_id [of "cbb_len c" "cbb_buf c1"] unfolding R_def by (metis append.assoc append_Cons)
      have eR: "e \<le> length R" using a add(1) by (auto simp: R_def cbb_wf_def)
      let ?mv = "(memmove_at (offset k + 1 + e) (offset k + 1) n (cbb_buf c1))[offset k := hd (der_length n)]"
      have new: "memcpy_at (offset k + 1) (nat_be e n) ?mv = P @ hd (der_length n) # nat_be e n @ B @ drop e R"
        unfolding buf by (rule moved_contents) (use s eR in simp_all)
      have lmv: "length ?mv = length (cbb_buf c1)"
        using buf s eR by (simp add: memmove_at_def memcpy_at_def)
      have "offset k + 1 + e \<le> length ?mv" using buf s eR unfolding lmv by simp
      then have "flush_put_length (offset k + 1) e n (c1\<lparr>cbb_buf := ?mv\<rparr>)
          = (Some (), c1\<lparr>cbb_buf := P @ hd (der_length n) # nat_be e n @ B @ drop e R\<rparr>)"
        using flush_put_length_spec [of "offset k + 1" e "c1\<lparr>cbb_buf := ?mv\<rparr>" n] nf new by simp
      then have res: "r = Some ()" "c' = c1\<lparr>cbb_buf := P @ hd (der_length n) # nat_be e n @ B @ drop e R\<rparr>"
        using assms(3,4,5) long r1 Some asn1_length_form_eq [OF long(1)]
        unfolding flush_child_def len e_def [symmetric]
        by (simp_all add: Let_def flush_make_room_def op_bind_def op_simps child_start_def)
      have dl: "der_length n = hd (der_length n) # nat_be e n"
        using der_length_split [of n] long(2) by (simp add: e_def)
      have "cbb_data c' = P @ (hd (der_length n) # nat_be e n) @ B"
        using a b(2) eR by (simp add: res cbb_data_def)
      then have "cbb_data c' = P @ der_length n @ B" using dl by simp
      moreover have "length (cbb_buf c') = length (cbb_buf c1)" using buf eR by (simp add: res)
      then have "cbb_wf c'" using add(1) by (simp add: res cbb_wf_def)
      ultimately show ?thesis
        using res(1) add(2,3) a fits add(7) [of m] Some by (auto simp: res(2) can_hold_def)
    qed
  qed
  then show "cbb_wf c'" "cbb_children c' = cbb_children c" "cbb_trap c' = cbb_trap c"
    "cbb_error c \<Longrightarrow> cbb_error c'"
    "r \<noteq> None \<Longrightarrow> prefix_fits k (length body) \<and> cbb_error c' = cbb_error c \<and>
       cbb_data c' = take (offset k) (cbb_data c) @ prefix_of k (length body) @ body"
    "r \<noteq> None \<Longrightarrow> can_hold c m \<Longrightarrow> can_hold c' m"
    "prefix_fits k (length body) \<Longrightarrow> can_hold c (cbb_len c + der_len_len (length body)) \<Longrightarrow> r \<noteq> None"
    using s b pre unfolding n_def [symmetric] e_def [symmetric] by auto
qed

section \<open>\<open>CBB_flush\<close> computes the abstract flush\<close>

lemma can_hold_mono: "can_hold c n \<Longrightarrow> m \<le> n \<Longrightarrow> can_hold c m"
  by (auto simp: can_hold_def)

lemma prefix_of_length: "pending_is_asn1 k \<longrightarrow> pending_len_len k = 1 \<Longrightarrow>
    length (prefix_of k n) = pending_len_len k + (if pending_is_asn1 k then der_len_len n else 0)"
  by (auto simp: prefix_of_def der_length_def der_len_len_def)

lemma last_child_start:
  assumes "cbb_wf c" "d < length (cbb_children c)" "cbb_wf c1" "cbb_children c1 = take (Suc d) (cbb_children c)"
  shows "child_start (cbb_children c ! d) \<le> cbb_len c1"
    "pending_is_asn1 (cbb_children c ! d) \<longrightarrow> pending_len_len (cbb_children c ! d) = 1"
proof -
  let ?k = "cbb_children c ! d"
  have "cbb_children c1 = take d (cbb_children c) @ [?k]"
    using assms(2,4) by (simp add: take_Suc_conv_app_nth)
  then obtain m where "chain_ok m [?k] (cbb_len c1)"
    using assms(3) chain_ok_append [of 0 "take d (cbb_children c)" "[?k]"] by (auto simp: cbb_wf_def)
  then show "child_start ?k \<le> cbb_len c1" "pending_is_asn1 ?k \<longrightarrow> pending_len_len ?k = 1" by auto
qed

text \<open>Both kinds of children at once.\<close>

lemma flush_child_spec:
  assumes "cbb_wf c" "child_start k \<le> cbb_len c" "pending_is_asn1 k \<longrightarrow> pending_len_len k = 1"
    "flush_child k (child_start k) c = (r, c')"
  defines "body \<equiv> drop (child_start k) (cbb_data c)"
  shows "cbb_wf c'" "cbb_children c' = cbb_children c" "cbb_trap c' = cbb_trap c"
    "r \<noteq> None \<Longrightarrow> prefix_fits k (length body) \<and> cbb_error c' = cbb_error c \<and>
       cbb_data c' = take (offset k) (cbb_data c) @ prefix_of k (length body) @ body"
    "r \<noteq> None \<Longrightarrow> can_hold c m \<Longrightarrow> can_hold c' m"
    "prefix_fits k (length body) \<Longrightarrow>
       can_hold c (length (take (offset k) (cbb_data c) @ prefix_of k (length body) @ body)) \<Longrightarrow> r \<noteq> None"
proof -
  have "length (take (offset k) (cbb_data c) @ prefix_of k (length body) @ body)
      = cbb_len c + (if pending_is_asn1 k then der_len_len (length body) else 0)"
    using assms(1,2) prefix_of_length [OF assms(3)] by (simp add: body_def child_start_def)
  note n = this
  have "cbb_wf c' \<and> cbb_children c' = cbb_children c \<and> cbb_trap c' = cbb_trap c \<and>
      (r \<noteq> None \<longrightarrow> prefix_fits k (length body) \<and> cbb_error c' = cbb_error c \<and>
         cbb_data c' = take (offset k) (cbb_data c) @ prefix_of k (length body) @ body) \<and>
      (r \<noteq> None \<longrightarrow> can_hold c m \<longrightarrow> can_hold c' m) \<and>
      (prefix_fits k (length body) \<longrightarrow>
       can_hold c (length (take (offset k) (cbb_data c) @ prefix_of k (length body) @ body)) \<longrightarrow> r \<noteq> None)"
  proof (cases "pending_is_asn1 k")
    case True
    then show ?thesis
      unfolding n if_P [OF True]
      using flush_child_asn1 [OF assms(1,2) True assms(3) [rule_format, OF True] assms(4), folded body_def]
      by blast
  next
    case False
    note f = flush_child_plain [OF assms(1,2) False assms(4), folded body_def]
    have "c' = c\<lparr>cbb_buf := b\<rparr> \<Longrightarrow> length b = length (cbb_buf c) \<Longrightarrow> cbb_wf c' \<and> cbb_children c' = cbb_children c
        \<and> cbb_trap c' = cbb_trap c \<and> cbb_error c' = cbb_error c \<and> (can_hold c m \<longrightarrow> can_hold c' m)" for b
      using assms(1) by (auto simp: cbb_wf_def can_hold_def)
    from this [OF f(1,2)] show ?thesis using f(3,4) by blast
  qed
  then show "cbb_wf c'" "cbb_children c' = cbb_children c" "cbb_trap c' = cbb_trap c"
    "r \<noteq> None \<Longrightarrow> prefix_fits k (length body) \<and> cbb_error c' = cbb_error c \<and>
       cbb_data c' = take (offset k) (cbb_data c) @ prefix_of k (length body) @ body"
    "r \<noteq> None \<Longrightarrow> can_hold c m \<Longrightarrow> can_hold c' m"
    "prefix_fits k (length body) \<Longrightarrow>
       can_hold c (length (take (offset k) (cbb_data c) @ prefix_of k (length body) @ body)) \<Longrightarrow> r \<noteq> None"
    by blast+
qed

definition flush_post :: "nat \<Rightarrow> cbb \<Rightarrow> unit option \<Rightarrow> cbb \<Rightarrow> bool" where
  "flush_post d c r c' \<longleftrightarrow>
     cbb_wf c' \<and> cbb_trap c' = cbb_trap c \<and> (attached d c \<longrightarrow> attached d c') \<and>
     (r = None \<longrightarrow> \<not> attached d c \<or> cbb_error c') \<and>
     (r \<noteq> None \<longrightarrow> attached d c \<and> \<not> cbb_error c \<and> \<not> cbb_error c' \<and>
        cbb_children c' = take d (cbb_children c) \<and>
        closed (cbb_data c) (drop d (cbb_children c)) = Some (cbb_data c') \<and>
        (\<forall>m. can_hold c m \<longrightarrow> can_hold c' m)) \<and>
     (\<forall>ys. attached d c \<longrightarrow> closed (cbb_data c) (drop d (cbb_children c)) = Some ys \<longrightarrow>
        can_hold c (length ys) \<longrightarrow> r \<noteq> None)"

lemma on_error_post:
  assumes "cbb_wf c" "attached d c"
  shows "cbb_wf (cbb_on_error d c)" "cbb_trap (cbb_on_error d c) = cbb_trap c" "attached d (cbb_on_error d c)"
    "cbb_error (cbb_on_error d c)"
  using assms chain_ok_take by (auto simp: cbb_on_error_def cbb_wf_def attached_def)

lemma CBB_flush_spec: "cbb_wf c \<Longrightarrow> CBB_flush d c = (r, c') \<Longrightarrow> flush_post d c r c'"
proof (induction d c arbitrary: r c' rule: CBB_flush.induct)
  case (1 d c)
  consider "\<not> attached d c \<or> cbb_error c" | "attached d c" "\<not> cbb_error c" "d = length (cbb_children c)"
    | (inner) "attached d c" "\<not> cbb_error c" "d < length (cbb_children c)"
    unfolding attached_def by (metis le_neq_implies_less)
  then show ?case
  proof cases
    case inner
    define k where "k = cbb_children c ! d"
    obtain r1 c1 where r1: "CBB_flush (Suc d) c = (r1, c1)" by fastforce
    have p: "flush_post (Suc d) c r1 c1"
      by (rule "1.IH" [OF _ _ _ _ "1.prems"(1) r1]) (use inner in auto)
    have d: "drop d (cbb_children c) = k # drop (Suc d) (cbb_children c)"
      using inner(3) by (simp add: k_def Cons_nth_drop_Suc)
    have att: "attached d c1" "attached (Suc d) c" using p inner(3) by (auto simp: flush_post_def attached_def)
    note err = on_error_post [OF _ att(1)]
    show ?thesis
    proof (cases r1)
      case None
      have "r = None" "c' = cbb_on_error d c1"
        using "1.prems"(2) inner r1 None by (auto simp: CBB_flush.simps [of d c] cbb_goto_err_def Let_def)
      moreover have "\<not> can_hold c (length ys)" if cl: "closed (cbb_data c) (drop d (cbb_children c)) = Some ys" for ys
      proof
        assume h: "can_hold c (length ys)"
        obtain zs where z: "closed (cbb_data c) (drop (Suc d) (cbb_children c)) = Some zs"
          and ys: "prefix_fits k (length (drop (child_start k) zs))"
            "ys = take (offset k) zs @ prefix_of k (length (drop (child_start k) zs)) @ drop (child_start k) zs"
          using cl unfolding d by (auto simp: Let_def split: option.splits if_splits)
        have "pending_is_asn1 k \<longrightarrow> pending_len_len k = 1"
          using chain_ok_drop [of 0 "cbb_children c" "cbb_len c" d] "1.prems"(1) d by (auto simp: cbb_wf_def)
        then have "length zs \<le> length ys"
          unfolding ys(2) by (auto simp: prefix_of_length child_start_def)
        then have "can_hold c (length zs)" using h can_hold_mono by blast
        then show False using p z att(2) None by (auto simp: flush_post_def)
      qed
      ultimately show ?thesis using p err inner by (auto simp: flush_post_def)
    next
      case (Some u)
      then have p1: "cbb_wf c1" "cbb_trap c1 = cbb_trap c" "\<not> cbb_error c1"
        "cbb_children c1 = take (Suc d) (cbb_children c)"
        "closed (cbb_data c) (drop (Suc d) (cbb_children c)) = Some (cbb_data c1)"
        "\<And>m. can_hold c m \<Longrightarrow> can_hold c1 m"
        using p by (auto simp: flush_post_def)
      note k = last_child_start [OF "1.prems"(1) inner(3) p1(1,4), folded k_def]
      have ck: "size_add (offset k) (pending_len_len k) = child_start k"
        using k(1) p1(1) by (simp add: child_start_def cbb_wf_def size_add_exact)
      obtain r2 c2 where r2: "flush_child k (child_start k) c1 = (r2, c2)" by fastforce
      note f = flush_child_spec [OF p1(1) k r2]
      have res: "(r, c') = (case r2 of None \<Rightarrow> cbb_goto_err d c2 | Some _ \<Rightarrow>
          (Some (), c2\<lparr>cbb_children := take d (cbb_children c2)\<rparr>))"
        using "1.prems"(2) inner r1 Some ck r2 k(1)
        by (auto simp: CBB_flush.simps [of d c] Let_def k_def [symmetric] child_start_def not_less split: option.splits)
      have cl: "closed (cbb_data c) (drop d (cbb_children c)) =
          (let body = drop (child_start k) (cbb_data c1)
           in if prefix_fits k (length body)
              then Some (take (offset k) (cbb_data c1) @ prefix_of k (length body) @ body) else None)"
        unfolding d using p1(5) by simp
      show ?thesis
      proof (cases r2)
        case None
        have "attached d c2" using att(1) f(2) by (simp add: attached_def)
        from on_error_post [OF f(1) this] show ?thesis
          using res None f(3,6) p1(2,6) inner unfolding flush_post_def cl Let_def
          by (auto simp: cbb_goto_err_def)
      next
        case (Some v)
        have "chain_ok 0 (take d (cbb_children c2)) (cbb_len c2)"
          using f(1) chain_ok_take by (auto simp: cbb_wf_def)
        then have "cbb_wf (c2\<lparr>cbb_children := take d (cbb_children c2)\<rparr>)" using f(1) by (simp add: cbb_wf_def)
        moreover have "cbb_data (c2\<lparr>cbb_children := ks\<rparr>) = cbb_data c2" "can_hold (c2\<lparr>cbb_children := ks\<rparr>) = can_hold c2" for ks
          by (auto simp: cbb_data_def can_hold_def fun_eq_iff)
        ultimately show ?thesis
          using res Some f(2-5) p1(2,3,4,6) inner unfolding flush_post_def cl Let_def
          by (auto simp: attached_def)
      qed
    qed
  qed (use "1.prems" in \<open>auto simp: CBB_flush.simps [of d c] CBB_flush.simps [of "length (cbb_children c)" c]
      flush_post_def attached_def can_hold_def\<close>)
qed


section \<open>Operations that append\<close>

text \<open>What a write of \<open>xs\<close> to the \<open>CBB\<close> at depth \<open>d\<close> promises.\<close>

definition write_post :: "nat \<Rightarrow> bytes \<Rightarrow> cbb \<Rightarrow> 'a option \<Rightarrow> cbb \<Rightarrow> bool" where
  "write_post d xs c r c' \<longleftrightarrow>
     cbb_wf c' \<and> (attached d c \<longrightarrow> cbb_trap c' = cbb_trap c \<and> attached d c') \<and>
     (r = None \<longrightarrow> \<not> attached d c \<or> cbb_error c') \<and>
     (r \<noteq> None \<longrightarrow> attached d c \<and> \<not> cbb_error c \<and> \<not> cbb_error c' \<and>
        cbb_children c' = take d (cbb_children c) \<and>
        (\<exists>ys. closed (cbb_data c) (drop d (cbb_children c)) = Some ys \<and> cbb_data c' = ys @ xs) \<and>
        (\<forall>m. can_hold c m \<longrightarrow> can_hold c' m)) \<and>
     (\<forall>ys. attached d c \<longrightarrow> closed (cbb_data c) (drop d (cbb_children c)) = Some ys \<longrightarrow>
        can_hold c (length (ys @ xs)) \<longrightarrow> r \<noteq> None)"

definition emits :: "nat \<Rightarrow> bytes \<Rightarrow> (cbb, 'a) op \<Rightarrow> bool" where
  "emits d xs m \<longleftrightarrow> (\<forall>c r c'. cbb_wf c \<longrightarrow> m c = (r, c') \<longrightarrow> write_post d xs c r c')"

lemma emitsD: "emits d xs m \<Longrightarrow> cbb_wf c \<Longrightarrow> m c = (r, c') \<Longrightarrow> write_post d xs c r c'"
  by (simp add: emits_def)

lemma emits_flush: "emits d [] (CBB_flush d)"
  unfolding emits_def
proof (intro allI impI)
  fix c r c'
  assume "cbb_wf c" "CBB_flush d c = (r, c')"
  then have "flush_post d c r c'" by (rule CBB_flush_spec)
  then show "write_post d [] c r c'" by (cases r) (simp_all add: write_post_def flush_post_def)
qed

lemma after_write:
  assumes "write_post d xs c (Some u) c'"
  shows "drop d (cbb_children c') = []" "attached d c" "attached d c'" "cbb_wf c'"
    "cbb_trap c' = cbb_trap c" "length (cbb_children c') = d" "\<not> cbb_error c'"
  using assms by (auto simp: write_post_def attached_def)

lemma emits_bind:
  assumes "emits d xs m" "\<And>u. emits d ys (f u)"
  shows "emits d (xs @ ys) (op_bind m f)"
  unfolding emits_def
proof (intro allI impI)
  fix c r c'
  assume c: "cbb_wf c" and r: "op_bind m f c = (r, c')"
  obtain r1 c1 where m: "m c = (r1, c1)" by fastforce
  note p1 = emitsD [OF assms(1) c m]
  show "write_post d (xs @ ys) c r c'"
  proof (cases r1)
    case None
    then have "r = None" "c' = c1" using r m by auto
    moreover have "can_hold c (length zs + (length xs + length ys)) \<Longrightarrow> can_hold c (length zs + length xs)" for zs :: bytes
      by (erule can_hold_mono) simp
    ultimately show ?thesis using p1 None by (auto simp: write_post_def)
  next
    case (Some u)
    then have "f u c1 = (r, c')" using r m by simp
    note a = after_write [OF p1 [unfolded Some]] and p2 = emitsD [OF assms(2) after_write(4) [OF p1 [unfolded Some]] this]
    show ?thesis using p1 p2 a unfolding write_post_def Some by fastforce
  qed
qed

definition cbb_err :: "nat \<Rightarrow> (cbb, 'a) op \<Rightarrow> (cbb, 'a) op" where
  "cbb_err d m cbb = (case m cbb of (None, cbb) \<Rightarrow> cbb_goto_err d cbb | r \<Rightarrow> r)"

lemma emits_err: "emits d xs m \<Longrightarrow> emits d xs (cbb_err d m)"
  unfolding emits_def
proof (intro allI impI)
  fix c r c'
  assume m: "\<forall>c r c'. cbb_wf c \<longrightarrow> m c = (r, c') \<longrightarrow> write_post d xs c r c'"
    and c: "cbb_wf c" and r: "cbb_err d m c = (r, c')"
  obtain r1 c1 where r1: "m c = (r1, c1)" by fastforce
  then have p: "write_post d xs c r1 c1" using m c by blast
  show "write_post d xs c r c'"
  proof (cases r1)
    case None
    then have "r = None" "c' = cbb_on_error d c1" using r r1 by (auto simp: cbb_err_def cbb_goto_err_def)
    moreover have "cbb_wf (cbb_on_error d c1)" if "cbb_wf c1"
      using that chain_ok_take by (auto simp: cbb_on_error_def cbb_wf_def)
    moreover have "attached d c1 \<Longrightarrow> attached d (cbb_on_error d c1) \<and> cbb_error (cbb_on_error d c1) \<and> cbb_trap (cbb_on_error d c1) = cbb_trap c1"
      by (auto simp: cbb_on_error_def attached_def)
    ultimately show ?thesis using p None by (auto simp: write_post_def)
  next
    case (Some u)
    then show ?thesis using p r r1 by (simp add: cbb_err_def)
  qed
qed

text \<open>A step at the end of the buffer, after the flush.\<close>

lemma emits_raw:
  assumes "\<And>c r c'. cbb_wf c \<Longrightarrow> m c = (r, c') \<Longrightarrow>
      cbb_wf c' \<and> cbb_trap c' = cbb_trap c \<and> cbb_children c' = cbb_children c \<and> (r = None \<longrightarrow> cbb_error c') \<and>
      (r \<noteq> None \<longrightarrow> cbb_error c' = cbb_error c \<and> cbb_data c' = cbb_data c @ xs \<and> (\<forall>m. can_hold c m \<longrightarrow> can_hold c' m))
      \<and> (can_hold c (cbb_len c + length xs) \<longrightarrow> r \<noteq> None)"
  shows "emits d xs (op_bind (CBB_flush d) (\<lambda>_. m))"
  unfolding emits_def
proof (intro allI impI)
  fix c r c'
  assume c: "cbb_wf c" and r: "op_bind (CBB_flush d) (\<lambda>_. m) c = (r, c')"
  obtain r1 c1 where f: "CBB_flush d c = (r1, c1)" by fastforce
  note p1 = emitsD [OF emits_flush c f]
  show "write_post d xs c r c'"
  proof (cases r1)
    case None
    then have "r = None" "c' = c1" using r f by auto
    moreover have "can_hold c (length zs + length xs) \<Longrightarrow> can_hold c (length zs)" for zs :: bytes
      by (erule can_hold_mono) simp
    ultimately show ?thesis using p1 None by (auto simp: write_post_def)
  next
    case (Some u)
    then have m: "m c1 = (r, c')" using r f by simp
    note a = after_write [OF p1 [unfolded Some]]
    have "cbb_len c1 = length (cbb_data c1)" using a(4) by simp
    then show ?thesis using p1 assms [OF a(4) m] a unfolding write_post_def Some attached_def by fastforce
  qed
qed

lemma cbb_data_memcpy:
  assumes "cbb_wf c" "take n (cbb_buf c) = ys" "cbb_len c = n + length xs"
  shows "cbb_data (c\<lparr>cbb_buf := memcpy_at n xs (cbb_buf c)\<rparr>) = ys @ xs"
    "cbb_wf (c\<lparr>cbb_buf := memcpy_at n xs (cbb_buf c)\<rparr>)"
proof -
  have "n + length xs \<le> length (cbb_buf c)" using assms by (simp add: cbb_wf_def)
  then show "cbb_data (c\<lparr>cbb_buf := memcpy_at n xs (cbb_buf c)\<rparr>) = ys @ xs"
    "cbb_wf (c\<lparr>cbb_buf := memcpy_at n xs (cbb_buf c)\<rparr>)"
    using assms take_memcpy_at [of n xs "cbb_buf c"]
    by (simp_all add: cbb_data_def cbb_wf_def length_memcpy_at)
qed

lemma emits_store:
  assumes "length xs = n" "n < size_mod"
  shows "emits d xs (op_bind (CBB_add_space d n) (\<lambda>out c. (Some (), c\<lparr>cbb_buf := memcpy_at out xs (cbb_buf c)\<rparr>)))"
  unfolding CBB_add_space_def op_bind_assoc
proof (rule emits_raw)
  fix c r c'
  assume c: "cbb_wf c" and
    r: "op_bind (cbb_buffer_add n) (\<lambda>out c. (Some (), c\<lparr>cbb_buf := memcpy_at out xs (cbb_buf c)\<rparr>)) c = (r, c')"
  obtain r1 c1 where b: "cbb_buffer_add n c = (r1, c1)" by fastforce
  note s = cbb_buffer_add_spec [OF c b assms(2)] and t = cbb_buffer_add_succeeds [OF c, of n]
  show "cbb_wf c' \<and> cbb_trap c' = cbb_trap c \<and> cbb_children c' = cbb_children c \<and> (r = None \<longrightarrow> cbb_error c') \<and>
      (r \<noteq> None \<longrightarrow> cbb_error c' = cbb_error c \<and> cbb_data c' = cbb_data c @ xs \<and> (\<forall>m. can_hold c m \<longrightarrow> can_hold c' m))
      \<and> (can_hold c (cbb_len c + length xs) \<longrightarrow> r \<noteq> None)"
  proof (cases r1)
    case None
    then show ?thesis using r b s t assms(1) by auto
  next
    case (Some p)
    then have c': "r = Some ()" "c' = c1\<lparr>cbb_buf := memcpy_at p xs (cbb_buf c1)\<rparr>" using r b by auto
    note q = s(6) [OF Some]
    have "cbb_data c' = cbb_data c @ xs" "cbb_wf c'"
      using cbb_data_memcpy [OF s(1), of "cbb_len c" "cbb_data c" xs] q assms(1) by (simp_all add: c'(2))
    moreover have "can_hold c m \<Longrightarrow> can_hold c' m" for m
      using s(7) [of m] Some by (simp add: c'(2) can_hold_def)
    ultimately show ?thesis using s(2,3) q c' by simp
  qed
qed

section \<open>The writers\<close>

locale cbb_writer =
  fixes add :: "nat \<Rightarrow> 'a \<Rightarrow> (cbb, unit) op" and enc :: "'a \<Rightarrow> bytes" and ok :: "'a \<Rightarrow> bool"
  assumes writes: "ok x \<Longrightarrow> emits d (enc x) (add d x)"
begin

lemma keeps_wf: "ok x \<Longrightarrow> cbb_wf c \<Longrightarrow> add d x c = (r, c') \<Longrightarrow> cbb_wf c'"
  using emitsD [OF writes] unfolding write_post_def by blast

lemma fails_with_error: "ok x \<Longrightarrow> cbb_wf c \<Longrightarrow> attached d c \<Longrightarrow> add d x c = (None, c') \<Longrightarrow> cbb_error c'"
  using emitsD [OF writes] unfolding write_post_def by blast

lemma error_is_final:
  assumes "ok x" "cbb_wf c" "cbb_error c"
  shows "fst (add d x c) = None"
  using emitsD [OF writes [OF assms(1)] assms(2), of d "fst (add d x c)" "snd (add d x c)"] assms(3)
  unfolding write_post_def prod.collapse by blast

lemma appends:
  assumes "ok x" "cbb_wf c" "add d x c = (Some u, c')" "cbb_children c = take d (cbb_children c)"
  shows "cbb_data c' = cbb_data c @ enc x" "cbb_children c' = cbb_children c"
proof -
  have "drop d (cbb_children c) = []" using assms(4) by (metis drop_all length_take min.cobounded2)
  then show "cbb_data c' = cbb_data c @ enc x" "cbb_children c' = cbb_children c"
    using emitsD [OF writes [OF assms(1)] assms(2,3)] assms(4) by (auto simp: write_post_def)
qed

lemma succeeds:
  assumes "ok x" "cbb_wf c" "length (cbb_children c) = d" "can_hold c (cbb_len c + length (enc x))"
  obtains c' where "add d x c = (Some (), c')" "cbb_wf c'" "cbb_data c' = cbb_data c @ enc x"
    "cbb_children c' = cbb_children c" "\<And>n. can_hold c n \<Longrightarrow> can_hold c' n"
proof -
  obtain r c' where r: "add d x c = (r, c')" by fastforce
  note p = emitsD [OF writes [OF assms(1)] assms(2) r]
  then have "r = Some ()" using assms(2-4) by (auto simp: write_post_def attached_def)
  then show ?thesis using p assms(3) r that [of c'] by (auto simp: write_post_def attached_def)
qed

lemma repeat_writes:
  "list_all ok xs \<Longrightarrow> emits d (concat (map enc xs)) (fold (\<lambda>x m. op_bind m (\<lambda>_. add d x)) xs (CBB_flush d))"
proof (induction xs rule: rev_induct)
  case (snoc x xs)
  then show ?case using emits_bind [of d "concat (map enc xs)" _ "enc x" "\<lambda>_. add d x"] writes by simp
qed (simp add: emits_flush)

end

lemma add_space_spec:
  assumes "cbb_wf c" "CBB_add_space d n c = (Some p, c')" "n < size_mod"
  shows "p + n \<le> length (cbb_buf c')" "cbb_wf c'" "attached d c'" "length (cbb_children c') = d"
    "p = length (cbb_data c') - n"
proof -
  obtain u c1 where f: "CBB_flush d c = (Some u, c1)" and b: "cbb_buffer_add n c1 = (Some p, c')"
    using assms(2) by (auto simp: CBB_add_space_def op_bind_eq_Some)
  note a = after_write [OF emitsD [OF emits_flush assms(1) f]]
  note s = cbb_buffer_add_spec [OF a(4) b assms(3)]
  show "p + n \<le> length (cbb_buf c')" "cbb_wf c'" "attached d c'" "length (cbb_children c') = d"
    "p = length (cbb_data c') - n"
    using s(1,2,6) a(3,6) by (auto simp: cbb_wf_def attached_def cbb_data_def)
qed

lemma cbb_add_u_store:
  assumes "cbb_wf c" "n < size_mod" "unat v < 256 ^ n"
  shows "cbb_add_u d v n c =
    op_bind (CBB_add_space d n) (\<lambda>out c. (Some (), c\<lparr>cbb_buf := memcpy_at out (nat_be n (unat v)) (cbb_buf c)\<rparr>)) c"
proof -
  obtain r c1 where r: "CBB_add_space d n c = (r, c1)" by fastforce
  show ?thesis
  proof (cases r)
    case None
    then show ?thesis using r by (simp add: cbb_add_u_def)
  next
    case (Some p)
    then have "p + n \<le> length (cbb_buf c1)" using add_space_spec(1) [OF assms(1) _ assms(2)] r by simp
    then show ?thesis using r Some assms(3) by (simp add: cbb_add_u_def put_be_memcpy div_less)
  qed
qed

lemma emits_add_u: "n < size_mod \<Longrightarrow> unat v < 256 ^ n \<Longrightarrow> emits d (nat_be n (unat v)) (cbb_add_u d v n)"
  using emits_store [of "nat_be n (unat v)" n d] cbb_add_u_store [of _ n v d] by (simp add: emits_def)

lemma emits_add_ucast:
  assumes "LENGTH('a::len) \<le> LENGTH(64)" "n < size_mod" "unat (x :: 'a word) < 256 ^ n"
  shows "emits d (nat_be n (unat x)) (cbb_add_u d (ucast x) n)"
  using emits_add_u [of n "ucast x" d] assms unat_ucast_up [OF assms(1), of x] by simp

text \<open>A value that needs more bytes than it was given puts the builder into the error state.\<close>

lemma cbb_add_u_too_large:
  assumes "cbb_wf c" "n < size_mod" "256 ^ n \<le> unat v" "attached d c" "cbb_add_u d v n c = (r, c')"
  shows "r = None" "cbb_error c'"
proof -
  obtain s c1 where s: "CBB_add_space d n c = (s, c1)" by fastforce
  have "r = None \<and> cbb_error c'"
  proof (cases s)
    case None
    then have "CBB_add_space d n c = (None, c')" "r = None" using s assms(5) by (auto simp: cbb_add_u_def)
    moreover have "emits d (replicate n 0) (CBB_add_zeros d n)"
      unfolding CBB_add_zeros_def by (rule emits_store) (use assms(2) in simp_all)
    moreover have "CBB_add_zeros d n c = (None, c')" using calculation(1) by (simp add: CBB_add_zeros_def)
    ultimately show ?thesis
      using assms(1,4) emitsD [of d "replicate n 0" "CBB_add_zeros d n" c None c'] unfolding write_post_def by blast
  next
    case (Some p)
    note a = add_space_spec [OF assms(1) s [unfolded Some] assms(2)]
    have "unat v div 256 ^ n \<noteq> 0" using assms(3) by (simp add: div_eq_0_iff)
    then have "(r, c') = cbb_goto_err d (c1\<lparr>cbb_buf := memcpy_at p (nat_be n (unat v)) (cbb_buf c1)\<rparr>)"
      using assms(5) s Some a(1) by (simp add: cbb_add_u_def put_be_memcpy)
    then show ?thesis using a(3) by (simp add: cbb_goto_err_def cbb_on_error_def attached_def)
  qed
  then show "r = None" "cbb_error c'" by auto
qed

lemma small_sizes: "Suc 0 < size_mod" "2 < size_mod" "3 < size_mod" "4 < size_mod" "8 < size_mod"
  by (simp_all add: size_mod_def)

interpretation u8_writer: cbb_writer CBB_add_u8 "\<lambda>v. [v]" "\<lambda>_. True"
proof
  fix x :: u8 and d
  have "nat_be 1 (unat (ucast x :: u64)) = [x]" by (simp add: One_nat_def del: One_nat_def [symmetric])
  then show "emits d [x] (CBB_add_u8 d x)"
    using emits_add_u [of 1 "ucast x" d] by (simp add: CBB_add_u8_def small_sizes)
qed

interpretation u16_writer: cbb_writer CBB_add_u16 "\<lambda>v. nat_be 2 (unat v)" "\<lambda>_. True"
  by standard (simp_all add: CBB_add_u16_def small_sizes emits_add_ucast)

interpretation u24_writer: cbb_writer CBB_add_u24 "\<lambda>v. nat_be 3 (unat v)" "\<lambda>v. unat v < 256 ^ 3"
  by standard (simp_all add: CBB_add_u24_def small_sizes emits_add_ucast)

interpretation u32_writer: cbb_writer CBB_add_u32 "\<lambda>v. nat_be 4 (unat v)" "\<lambda>_. True"
  by standard (simp_all add: CBB_add_u32_def small_sizes emits_add_ucast)

interpretation u64_writer: cbb_writer CBB_add_u64 "\<lambda>v. nat_be 8 (unat v)" "\<lambda>_. True"
  by standard (use emits_add_u [of 8] in \<open>simp add: CBB_add_u64_def small_sizes\<close>)

interpretation u16le_writer: cbb_writer CBB_add_u16le "\<lambda>v. nat_le 2 (unat v)" "\<lambda>_. True"
  by standard (use u16_writer.writes in \<open>simp add: CBB_add_u16le_def flip: nat_be_bswap\<close>)

interpretation u32le_writer: cbb_writer CBB_add_u32le "\<lambda>v. nat_le 4 (unat v)" "\<lambda>_. True"
  by standard (use u32_writer.writes in \<open>simp add: CBB_add_u32le_def flip: nat_be_bswap\<close>)

interpretation u64le_writer: cbb_writer CBB_add_u64le "\<lambda>v. nat_le 8 (unat v)" "\<lambda>_. True"
  by standard (use u64_writer.writes in \<open>simp add: CBB_add_u64le_def flip: nat_be_bswap\<close>)

interpretation bytes_writer: cbb_writer CBB_add_bytes "\<lambda>xs. xs" "\<lambda>xs. length xs < size_mod"
  by standard (simp add: CBB_add_bytes_def emits_store)

interpretation zeros_writer: cbb_writer CBB_add_zeros "\<lambda>n. replicate n 0" "\<lambda>n. n < size_mod"
  by standard (simp add: CBB_add_zeros_def emits_store)

section \<open>Length-prefixed contents\<close>

text \<open>A child is opened, \<open>inner\<close> writes its contents, the flush of the parent closes it.\<close>

definition cbb_nested :: "nat \<Rightarrow> (cbb, unit) op \<Rightarrow> (nat \<Rightarrow> (cbb, unit) op) \<Rightarrow> (cbb, unit) op" where
  "cbb_nested d open_child inner = op_bind open_child (\<lambda>_. op_bind (inner (Suc d)) (\<lambda>_. CBB_flush d))"

abbreviation pending :: "nat \<Rightarrow> nat \<Rightarrow> bool \<Rightarrow> cbb_child" where
  "pending off n asn1 \<equiv> \<lparr>offset = off, pending_len_len = n, pending_is_asn1 = asn1\<rparr>"

lemma prefix_pending:
  "prefix_fits (pending off n asn1) m \<longleftrightarrow> prefix_fits (pending 0 n asn1) m"
  "prefix_of (pending off n asn1) m = prefix_of (pending 0 n asn1) m"
  by (simp_all add: prefix_fits_def prefix_of_def)

lemma cbb_add_child_spec:
  assumes "cbb_wf c" "length (cbb_children c) = d" "asn1 \<longrightarrow> n = 1" "n < size_mod"
    "cbb_add_child d n asn1 c = (r, c')"
  shows "cbb_trap c' = cbb_trap c" "cbb_wf c'" "r = None \<Longrightarrow> cbb_error c' \<and> cbb_children c' = cbb_children c"
    "r \<noteq> None \<Longrightarrow> cbb_error c' = cbb_error c \<and> cbb_data c' = cbb_data c @ replicate n 0
      \<and> cbb_children c' = cbb_children c @ [pending (cbb_len c) n asn1]"
    "r \<noteq> None \<Longrightarrow> can_hold c m \<Longrightarrow> can_hold c' m"
    "can_hold c (cbb_len c + n) \<Longrightarrow> r \<noteq> None"
proof -
  obtain r1 c1 where b: "cbb_buffer_add n c = (r1, c1)" by fastforce
  note s = cbb_buffer_add_spec [OF assms(1) b assms(4)] and t = cbb_buffer_add_succeeds [OF assms(1), of n]
  let ?k = "pending (cbb_len c) n asn1"
  have "cbb_trap c' = cbb_trap c \<and> cbb_wf c' \<and> (r = None \<longrightarrow> cbb_error c' \<and> cbb_children c' = cbb_children c)
    \<and> (r \<noteq> None \<longrightarrow> cbb_error c' = cbb_error c \<and> cbb_data c' = cbb_data c @ replicate n 0
      \<and> cbb_children c' = cbb_children c @ [?k] \<and> (can_hold c m \<longrightarrow> can_hold c' m))
    \<and> (can_hold c (cbb_len c + n) \<longrightarrow> r \<noteq> None)"
  proof (cases r1)
    case None
    then have "r = None" "c' = c1" using assms(5) b by (auto simp: cbb_add_child_def Let_def)
    then show ?thesis using s None t b by auto
  next
    case (Some p)
    note q = s(6) [OF Some]
    let ?c = "c1\<lparr>cbb_buf := memcpy_at p (replicate n 0) (cbb_buf c1)\<rparr>"
    have c': "r = Some ()" "c' = ?c\<lparr>cbb_children := cbb_children c @ [?k]\<rparr>"
      using assms(2,5) b Some s(2) by (auto simp: cbb_add_child_def Let_def)
    note m = cbb_data_memcpy [OF s(1), of "cbb_len c" "cbb_data c" "replicate n 0"]
    have "cbb_data ?c = cbb_data c @ replicate n 0" "cbb_wf ?c" using m q by simp_all
    moreover have "cbb_data (?c\<lparr>cbb_children := ks\<rparr>) = cbb_data ?c" for ks by (simp add: cbb_data_def)
    moreover have "chain_ok 0 (cbb_children c @ [?k]) (cbb_len c + n)"
      unfolding chain_ok_append using assms(1,3) by (auto simp: cbb_wf_def child_start_def)
    ultimately have "cbb_data c' = cbb_data c @ replicate n 0" "cbb_wf c'"
      using q by (simp_all add: c' cbb_wf_def)
    moreover have "can_hold c m \<Longrightarrow> can_hold c' m" using s(7) [of m] Some by (simp add: c' can_hold_def)
    ultimately show ?thesis using c' q s(3) by simp
  qed
  then show "cbb_trap c' = cbb_trap c" "cbb_wf c'" "r = None \<Longrightarrow> cbb_error c' \<and> cbb_children c' = cbb_children c"
    "r \<noteq> None \<Longrightarrow> cbb_error c' = cbb_error c \<and> cbb_data c' = cbb_data c @ replicate n 0
      \<and> cbb_children c' = cbb_children c @ [?k]"
    "r \<noteq> None \<Longrightarrow> can_hold c m \<Longrightarrow> can_hold c' m"
    "can_hold c (cbb_len c + n) \<Longrightarrow> r \<noteq> None" by blast+
qed

lemma emits_nested:
  fixes inner :: "nat \<Rightarrow> (cbb, unit) op"
  assumes pre: "emits d xs pre" and inner: "emits (Suc d) body (inner (Suc d))"
    and k: "asn1 \<longrightarrow> n = 1" "n < size_mod" and fits: "prefix_fits (pending 0 n asn1) (length body)"
  shows "emits d (xs @ prefix_of (pending 0 n asn1) (length body) @ body)
    (cbb_nested d (op_bind pre (\<lambda>_. cbb_add_child d n asn1)) inner)"
  unfolding emits_def
proof (intro allI impI)
  fix c r c'
  let ?p = "prefix_of (pending 0 n asn1) (length body)"
  assume c: "cbb_wf c" and r: "cbb_nested d (op_bind pre (\<lambda>_. cbb_add_child d n asn1)) inner c = (r, c')"
  have lp: "n \<le> length ?p" using prefix_of_length [of "pending 0 n asn1"] k(1) by simp
  obtain r1 c1 where m1: "pre c = (r1, c1)" by fastforce
  note p1 = emitsD [OF pre c m1]
  have le: "can_hold c (length (ys @ xs @ ?p @ body)) \<Longrightarrow> j \<le> n + length body \<Longrightarrow> can_hold c (length (ys @ xs) + j)"
    for ys j using lp by (elim can_hold_mono) simp
  show "write_post d (xs @ ?p @ body) c r c'"
  proof (cases r1)
    case None
    then have "r = None" "c' = c1" using r m1 by (auto simp: cbb_nested_def)
    then show ?thesis using p1 None le [where j = 0] by (auto simp: write_post_def)
  next
    case (Some u)
    note a1 = after_write [OF p1 [unfolded Some]]
    have h1: "can_hold c (length (ys @ xs @ ?p @ body)) \<Longrightarrow> can_hold c1 (length (ys @ xs @ ?p @ body))"
      and d1: "\<exists>ys. closed (cbb_data c) (drop d (cbb_children c)) = Some ys \<and> cbb_data c1 = ys @ xs" for ys
      using p1 Some by (auto simp: write_post_def)
    then obtain ys where ys: "closed (cbb_data c) (drop d (cbb_children c)) = Some ys" "cbb_data c1 = ys @ xs" by blast
    obtain r2 c2 where m2: "cbb_add_child d n asn1 c1 = (r2, c2)" by fastforce
    note p2 = cbb_add_child_spec [OF a1(4,6) k m2]
    show ?thesis
    proof (cases r2)
      case None
      then have "r = None" "c' = c2" using r m1 m2 Some by (auto simp: cbb_nested_def op_bind_def)
      moreover have "\<not> can_hold c (length (ys @ xs @ ?p @ body))"
      proof
        assume h: "can_hold c (length (ys @ xs @ ?p @ body))"
        have "cbb_len c1 = length (ys @ xs)" using ys(2) a1(4) by (metis length_cbb_data)
        then have "can_hold c1 (cbb_len c1 + n)"
          using h1 [OF h] lp by (elim can_hold_mono) simp
        then show False using p2(6) None by blast
      qed
      ultimately show ?thesis
        using p1 p2(1-3) a1 None ys(1) unfolding write_post_def by (auto simp: attached_def)
    next
      case (Some v)
      then have c2: "cbb_error c2 = cbb_error c1" "cbb_data c2 = ys @ xs @ replicate n 0"
        "cbb_children c2 = cbb_children c1 @ [pending (cbb_len c1) n asn1]"
        and h2: "\<And>m. can_hold c1 m \<Longrightarrow> can_hold c2 m"
        using p2 ys(2) by auto
      obtain r3 c3 where m3: "inner (Suc d) c2 = (r3, c3)" by fastforce
      note p3 = emitsD [OF inner p2(2) m3]
      have d2: "drop (Suc d) (cbb_children c2) = []" "attached (Suc d) c2" "take (Suc d) (cbb_children c2) = cbb_children c2"
        using c2(3) a1(6) by (auto simp: attached_def)
      have "can_hold c (length (ys @ xs @ ?p @ body)) \<Longrightarrow> can_hold c2 (length (cbb_data c2 @ body))"
        using h2 [OF h1, of ys] lp can_hold_mono [of c2 "length (ys @ xs @ ?p @ body)"] by (simp add: c2(2))
      then have t3: "can_hold c (length (ys @ xs @ ?p @ body)) \<Longrightarrow> r3 \<noteq> None"
        using p3 d2 by (auto simp: write_post_def)
      have trap: "cbb_trap c3 = cbb_trap c" "attached d c3"
        using p3 d2 p2(1) a1(5) by (auto simp: write_post_def attached_def)
      show ?thesis
      proof (cases r3)
        case None
        then have "r = None" "c' = c3"
          using r m1 m2 m3 \<open>r1 = Some u\<close> \<open>r2 = Some v\<close> by (auto simp: cbb_nested_def op_bind_def)
        then show ?thesis
          using p3 None t3 trap a1 d2 ys(1) unfolding write_post_def by auto
      next
        case (Some w)
        note a3 = after_write [OF p3 [unfolded Some]]
        have c3: "cbb_data c3 = ys @ xs @ replicate n 0 @ body" "cbb_children c3 = cbb_children c1 @ [pending (cbb_len c1) n asn1]"
          and h3: "\<And>m. can_hold c2 m \<Longrightarrow> can_hold c3 m"
          using p3 d2 c2 Some by (auto simp: write_post_def)
        have m4: "CBB_flush d c3 = (r, c')"
          using r m1 m2 m3 Some \<open>r1 = Some u\<close> \<open>r2 = Some v\<close> by (simp add: cbb_nested_def op_bind_def)
        have len: "cbb_len c1 = length (ys @ xs)" using ys(2) a1(4) by (metis length_cbb_data)
        have dr: "drop d (cbb_children c3) = [pending (cbb_len c1) n asn1]" "take d (cbb_children c3) = cbb_children c1"
          using c3(2) a1(6) by simp_all
        have cl: "closed (cbb_data c3) (drop d (cbb_children c3)) = Some (ys @ xs @ ?p @ body)"
          using fits prefix_pending [of "length (ys @ xs)" n asn1 "length body"] unfolding dr
          by (simp add: c3(1) len child_start_def)
        note p4 = emitsD [OF emits_flush a3(4) m4]
        have "cbb_children c1 = take d (cbb_children c)" "\<not> cbb_error c"
          using p1 \<open>r1 = Some u\<close> by (auto simp: write_post_def)
        moreover have "can_hold c m \<Longrightarrow> can_hold c3 m" for m
          using p1 \<open>r1 = Some u\<close> h2 h3 by (auto simp: write_post_def)
        ultimately show ?thesis
          using p4 trap a1 cl dr ys(1) unfolding write_post_def by auto
      qed
    qed
  qed
qed

end
