(* ===== verification/CbbAsn1.thy ===== *)
theory CbbAsn1
  imports CbbFlush
begin

text \<open>
  The ASN.1 half of \<open>cbb.c\<close>: tags, elements, INTEGER, BOOLEAN, OCTET STRING, OBJECT IDENTIFIER and
  SET OF, with \<open>CBS_asn1_oid_to_text\<close> of \<open>cbs.c\<close>, which is written with a builder. A C local
  \<open>CBB child\<close> of the builder at depth \<open>d\<close> is the builder at depth \<open>Suc d\<close>. The \<open>goto err\<close> blocks
  are \<open>cbb_err\<close>.
\<close>

section \<open>Base-128 integers and elements\<close>

function base128_len_loop :: "u64 \<Rightarrow> nat \<Rightarrow> nat" where
  "base128_len_loop copy len_len =
     (if copy > 0 then base128_len_loop (drop_bit 7 copy) (len_len + 1) else len_len)"
  by auto
termination
proof (relation "measure (\<lambda>(copy, n). unat copy)")
  fix copy :: u64 and n :: nat
  assume "0 < copy"
  then have "unat copy > 0" by (simp add: unat_gt_0 word_gt_0)
  then show "((drop_bit 7 copy, n + 1), copy, n) \<in> measure (\<lambda>(copy, n). unat copy)"
    by (simp add: unat_drop_bit_div)
qed simp

declare base128_len_loop.simps [simp del]

definition base128_byte :: "u64 \<Rightarrow> nat \<Rightarrow> u8" where
  "base128_byte v i =
     (let byte = ucast (drop_bit (7 * i) v AND 0x7f) in if i \<noteq> 0 then byte OR 0x80 else byte)"

fun add_base128_loop :: "nat \<Rightarrow> u64 \<Rightarrow> nat \<Rightarrow> (cbb, unit) op" where
  "add_base128_loop d v 0 = op_return ()"
| "add_base128_loop d v (Suc i) =
     op_bind (CBB_add_u8 d (base128_byte v i)) (\<lambda>_. add_base128_loop d v i)"

definition add_base128_integer :: "nat \<Rightarrow> u64 \<Rightarrow> (cbb, unit) op" where
  "add_base128_integer d v =
     (let len_len = base128_len_loop v 0; len_len = (if len_len = 0 then 1 else len_len)
      in add_base128_loop d v len_len)"

definition CBB_add_asn1 :: "nat \<Rightarrow> u32 \<Rightarrow> (cbb, unit) op" where
  "CBB_add_asn1 d tag =
     op_bind (CBB_flush d) (\<lambda>_.
       let tag_bits = (ucast (drop_bit CBS_ASN1_TAG_SHIFT tag) :: u8) AND 0xe0;
           tag_number = tag AND CBS_ASN1_TAG_NUMBER_MASK
       in op_bind
            (if tag_number \<ge> 0x1f then
               op_bind (CBB_add_u8 d (tag_bits OR 0x1f)) (\<lambda>_. add_base128_integer d (ucast tag_number))
             else CBB_add_u8 d (tag_bits OR ucast tag_number))
            (\<lambda>_. cbb_add_child d 1 True))"

section \<open>INTEGER, OCTET STRING and BOOLEAN\<close>

text \<open>The loop over the eight bytes of the value, most significant first; its result is \<open>started\<close>.\<close>

fun asn1_uint64_bytes :: "nat \<Rightarrow> u64 \<Rightarrow> nat list \<Rightarrow> bool \<Rightarrow> (cbb, bool) op" where
  "asn1_uint64_bytes d v [] started = op_return started"
| "asn1_uint64_bytes d v (i # is) started =
     (let byte = ucast (drop_bit (8 * (7 - i)) v) in
      if \<not> started then
        if byte = 0 then asn1_uint64_bytes d v is started
        else op_bind (if byte AND 0x80 \<noteq> 0 then CBB_add_u8 d 0 else op_return ())
               (\<lambda>_. op_bind (CBB_add_u8 d byte) (\<lambda>_. asn1_uint64_bytes d v is True))
      else op_bind (CBB_add_u8 d byte) (\<lambda>_. asn1_uint64_bytes d v is started))"

definition CBB_add_asn1_uint64_with_tag :: "nat \<Rightarrow> u64 \<Rightarrow> u32 \<Rightarrow> (cbb, unit) op" where
  "CBB_add_asn1_uint64_with_tag d v tag =
     op_bind
       (cbb_err d
          (op_bind (CBB_add_asn1 d tag) (\<lambda>_.
             op_bind (asn1_uint64_bytes (Suc d) v [0..<8] False)
               (\<lambda>started. if \<not> started then CBB_add_u8 (Suc d) 0 else op_return ()))))
       (\<lambda>_. CBB_flush d)"

definition CBB_add_asn1_uint64 :: "nat \<Rightarrow> u64 \<Rightarrow> (cbb, unit) op" where
  "CBB_add_asn1_uint64 d v = CBB_add_asn1_uint64_with_tag d v CBS_ASN1_INTEGER"

text \<open>\<open>bytes\<close> is the object representation of the \<open>int64_t\<close>, least significant byte first.\<close>

fun int64_start :: "bytes \<Rightarrow> nat \<Rightarrow> nat" where
  "int64_start xs 0 = 0"
| "int64_start xs (Suc n) =
     (if xs ! Suc n = 0xff \<and> xs ! n AND 0x80 \<noteq> 0 then int64_start xs n else Suc n)"

fun add_down :: "nat \<Rightarrow> bytes \<Rightarrow> nat \<Rightarrow> (cbb, unit) op" where
  "add_down d xs 0 = CBB_add_u8 d (xs ! 0)"
| "add_down d xs (Suc i) = op_bind (CBB_add_u8 d (xs ! Suc i)) (\<lambda>_. add_down d xs i)"

definition CBB_add_asn1_int64_with_tag :: "nat \<Rightarrow> u64 \<Rightarrow> u32 \<Rightarrow> (cbb, unit) op" where
  "CBB_add_asn1_int64_with_tag d v tag =
     (if sint v \<ge> 0 then CBB_add_asn1_uint64_with_tag d v tag
      else
        let xs = nat_le 8 (unat v); start = int64_start xs 7
        in op_bind
             (cbb_err d (op_bind (CBB_add_asn1 d tag) (\<lambda>_. add_down (Suc d) xs start)))
             (\<lambda>_. CBB_flush d))"

definition CBB_add_asn1_int64 :: "nat \<Rightarrow> u64 \<Rightarrow> (cbb, unit) op" where
  "CBB_add_asn1_int64 d v = CBB_add_asn1_int64_with_tag d v CBS_ASN1_INTEGER"

definition CBB_add_asn1_octet_string :: "nat \<Rightarrow> bytes \<Rightarrow> (cbb, unit) op" where
  "CBB_add_asn1_octet_string d data =
     cbb_err d
       (op_bind (CBB_add_asn1 d CBS_ASN1_OCTETSTRING) (\<lambda>_.
          op_bind (CBB_add_bytes (Suc d) data) (\<lambda>_. CBB_flush d)))"

definition CBB_add_asn1_bool :: "nat \<Rightarrow> bool \<Rightarrow> (cbb, unit) op" where
  "CBB_add_asn1_bool d v =
     cbb_err d
       (op_bind (CBB_add_asn1 d CBS_ASN1_BOOLEAN) (\<lambda>_.
          op_bind (CBB_add_u8 (Suc d) (if v then 0xff else 0)) (\<lambda>_. CBB_flush d)))"

section \<open>OBJECT IDENTIFIER text\<close>

definition parse_dotted_decimal :: "(cbs, u64) op" where
  "parse_dotted_decimal =
     op_bind CBS_get_u64_decimal (\<lambda>out cbs.
       case CBS_get_u8 cbs of
         (None, cbs) \<Rightarrow> (Some out, cbs)
       | (Some dot, cbs) \<Rightarrow> (if dot = 0x2e \<and> length cbs > 0 then Some out else None, cbs))"

lemma decimal_nonempty [simp]: "decimal n \<noteq> []"
  by (subst decimal.simps) simp

lemma parse_dotted_decimal_shrinks:
  "parse_dotted_decimal cbs = (Some v, rest) \<Longrightarrow> length rest < length cbs"
proof -
  assume p: "parse_dotted_decimal cbs = (Some v, rest)"
  then obtain w t where t: "CBS_get_u64_decimal cbs = (Some w, t)"
    and r: "(case CBS_get_u8 t of (None, cbs) \<Rightarrow> (Some w, cbs)
       | (Some dot, cbs) \<Rightarrow> (if dot = 0x2e \<and> length cbs > 0 then Some w else None, cbs)) = (Some v, rest)"
    by (auto simp: parse_dotted_decimal_def op_bind_eq_Some)
  have "v = w" "length rest \<le> length t"
    using r by (cases t; auto simp: op_simps split: if_splits)+
  moreover have "cbs = decimal (unat w) @ t" using t by (simp add: u64_decimal_accepts_iff)
  moreover have "0 < length (decimal (unat w))" by simp
  ultimately show ?thesis by (simp only: length_append)
qed

function oid_from_text_loop :: "nat \<Rightarrow> cbs \<Rightarrow> (cbb, unit) op" where
  "oid_from_text_loop d cbs =
     (if length cbs > 0 then
        (case parse_dotted_decimal cbs of
           (None, _) \<Rightarrow> op_fail
         | (Some a, cbs) \<Rightarrow> op_bind (add_base128_integer d a) (\<lambda>_. oid_from_text_loop d cbs))
      else op_return ())"
  by auto
termination
  by (relation "measure (\<lambda>(d, cbs). length cbs)") (auto dest: parse_dotted_decimal_shrinks [OF sym])

declare oid_from_text_loop.simps [simp del]

definition CBB_add_asn1_oid_from_text :: "nat \<Rightarrow> bytes \<Rightarrow> (cbb, unit) op" where
  "CBB_add_asn1_oid_from_text d text =
     op_bind (CBB_flush d) (\<lambda>_.
       case parse_dotted_decimal text of
         (None, _) \<Rightarrow> op_fail
       | (Some a, cbs) \<Rightarrow>
           (case parse_dotted_decimal cbs of
              (None, _) \<Rightarrow> op_fail
            | (Some b, cbs) \<Rightarrow>
                if a > 2 \<or> (a < 2 \<and> b > 39) \<or> b > UINT64_MAX - 80 then op_fail
                else op_bind (add_base128_integer d (40 * a + b)) (\<lambda>_. oid_from_text_loop d cbs)))"

definition add_decimal :: "nat \<Rightarrow> u64 \<Rightarrow> (cbb, unit) op" where
  "add_decimal d v = CBB_add_bytes d (decimal (unat v))"

lemma base128_nonempty [simp]: "base128 n \<noteq> []"
  by (simp add: base128_def)

lemma parse_base128_shrinks: "parse_base128_integer cbs = (Some v, rest) \<Longrightarrow> length rest < length cbs"
  by (drule base128_codec.put_get) simp

function oid_to_text_loop :: "cbs \<Rightarrow> (cbb, unit) op" where
  "oid_to_text_loop copy =
     (if length copy \<noteq> 0 then
        (case parse_base128_integer copy of
           (None, _) \<Rightarrow> op_fail
         | (Some v, copy) \<Rightarrow>
             op_bind (CBB_add_u8 0 0x2e) (\<lambda>_. op_bind (add_decimal 0 v) (\<lambda>_. oid_to_text_loop copy)))
      else op_return ())"
  by auto
termination
  by (relation "measure length") (auto dest: parse_base128_shrinks [OF sym])

declare oid_to_text_loop.simps [simp del]

definition oid_first_components :: "u64 \<Rightarrow> (cbb, unit) op" where
  "oid_first_components v =
     (if v \<ge> 80 then
        op_bind (CBB_add_bytes 0 [0x32, 0x2e]) (\<lambda>_. add_decimal 0 (v - 80))
      else
        op_bind (add_decimal 0 (v div 40)) (\<lambda>_.
          op_bind (CBB_add_u8 0 0x2e) (\<lambda>_. add_decimal 0 (v mod 40))))"

text \<open>The result is the NUL-terminated string in its buffer of \<open>CBB_finish\<close>, \<open>None\<close> for \<open>NULL\<close>.\<close>

definition CBS_asn1_oid_to_text :: "(nat \<Rightarrow> heap) \<Rightarrow> cbs \<Rightarrow> bytes option" where
  "CBS_asn1_oid_to_text h cbs =
     (case CBB_init 32 h of
        (None, _) \<Rightarrow> None
      | (Some _, cbb) \<Rightarrow>
          (case parse_base128_integer cbs of
             (None, _) \<Rightarrow> None
           | (Some v, copy) \<Rightarrow>
               map_option fst (fst (
                 op_bind (oid_first_components v) (\<lambda>_.
                   op_bind (oid_to_text_loop copy) (\<lambda>_.
                     op_bind (CBB_add_u8 0 0) (\<lambda>_. CBB_finish 0 True))) cbb))))"

section \<open>SET OF\<close>

definition compare_set_of_element :: "cbs \<Rightarrow> cbs \<Rightarrow> int" where
  "compare_set_of_element a b =
     (let a_len = length a; b_len = length b; min_len = (if a_len < b_len then a_len else b_len);
          ret = OPENSSL_memcmp (take min_len a) (take min_len b)
      in if ret \<noteq> 0 then ret else if a_len = b_len then 0 else if a_len < b_len then -1 else 1)"

text \<open>The C library's \<open>qsort\<close>, as insertion sort with the comparison function.\<close>

fun qsort_insert :: "('a \<Rightarrow> 'a \<Rightarrow> int) \<Rightarrow> 'a \<Rightarrow> 'a list \<Rightarrow> 'a list" where
  "qsort_insert cmp x [] = [x]"
| "qsort_insert cmp x (y # ys) = (if cmp x y \<le> 0 then x # y # ys else y # qsort_insert cmp x ys)"

definition qsort :: "('a \<Rightarrow> 'a \<Rightarrow> int) \<Rightarrow> 'a list \<Rightarrow> 'a list" where
  "qsort cmp xs = foldr (qsort_insert cmp) xs []"

lemma any_asn1_element_shrinks:
  "CBS_get_any_asn1_element cbs = (Some e, rest) \<Longrightarrow> length rest < length cbs"
  using length_asn1_tag_bytes(2) by (auto simp: any_asn1_element_accepts_iff der_element_def der_header_def)

text \<open>The first loop: the number of elements, \<open>None\<close> when one does not parse.\<close>

function count_children :: "cbs \<Rightarrow> nat \<Rightarrow> nat option" where
  "count_children cbs num_children =
     (if length cbs \<noteq> 0 then
        (case CBS_get_any_asn1_element cbs of
           (None, _) \<Rightarrow> None
         | (Some _, cbs) \<Rightarrow> count_children cbs (num_children + 1))
      else Some num_children)"
  by auto
termination
  by (relation "measure (\<lambda>(cbs, n). length cbs)") (auto dest: any_asn1_element_shrinks [OF sym])

declare count_children.simps [simp del]

fun write_children :: "nat \<Rightarrow> bytes list \<Rightarrow> bytes \<Rightarrow> bytes" where
  "write_children off [] b = b"
| "write_children off (x # xs) b = write_children (off + length x) xs (memcpy_at off x b)"

definition sizeof_CBS :: nat where "sizeof_CBS = 16"

definition CBB_flush_asn1_set_of :: "nat \<Rightarrow> (cbb, unit) op" where
  "CBB_flush_asn1_set_of d =
     op_bind (CBB_flush d) (\<lambda>_ cbb.
       let buf_len = CBB_len d cbb; contents = take buf_len (drop (CBB_data d cbb) (cbb_buf cbb)) in
       case count_children contents 0 of
         None \<Rightarrow> (None, cbb)
       | Some num_children \<Rightarrow>
           if num_children < 2 then (Some (), cbb)
           else
             let buf = OPENSSL_memdup (cbb_heap cbb (cbb_allocs cbb)) contents;
                 children = OPENSSL_calloc (cbb_heap cbb (cbb_allocs cbb + 1)) num_children sizeof_CBS;
                 cbb = cbb\<lparr>cbb_allocs := cbb_allocs cbb + 2\<rparr>
             in if children = None then (None, cbb)
                else
                  (case buf of
                     None \<Rightarrow> (None, cbb)
                   | Some cbs \<Rightarrow>
                       (case op_repeat num_children CBS_get_any_asn1_element (take buf_len cbs) of
                          (None, _) \<Rightarrow> (None, cbb)
                        | (Some es, _) \<Rightarrow>
                            let sorted = qsort compare_set_of_element (map element es)
                            in (Some (), cbb\<lparr>cbb_buf := write_children (CBB_data d cbb) sorted (cbb_buf cbb)\<rparr>))))"

section \<open>Bytes written one at a time\<close>

fun add_all :: "nat \<Rightarrow> bytes \<Rightarrow> (cbb, unit) op" where
  "add_all d [] = op_return ()"
| "add_all d (x # xs) = op_bind (CBB_add_u8 d x) (\<lambda>_. add_all d xs)"

lemma add_all_append: "add_all d (xs @ ys) = op_bind (add_all d xs) (\<lambda>_. add_all d ys)"
  by (induction xs) (simp_all add: op_bind_assoc)

lemma emits_add_all: "xs \<noteq> [] \<Longrightarrow> emits d xs (add_all d xs)"
proof (induction xs)
  case (Cons x xs)
  show ?case
  proof (cases "xs = []")
    case True
    then show ?thesis using u8_writer.writes by simp
  next
    case False
    then show ?thesis using emits_bind [OF u8_writer.writes [where x = x and d = d], of xs "\<lambda>_. add_all d xs"] Cons by simp
  qed
qed simp

lemma op_bind_err: "op_bind (cbb_err d m) f = (\<lambda>c. case m c of (None, c) \<Rightarrow> cbb_goto_err d c | (Some u, c) \<Rightarrow> f u c)"
  by (rule ext) (simp add: op_bind_def cbb_err_def cbb_goto_err_def split: prod.split option.split)

lemma emits_err_bind:
  assumes "emits d xs (op_bind m f)"
  shows "emits d xs (op_bind (cbb_err d m) f)"
  unfolding emits_def
proof (intro allI impI)
  fix c r c'
  assume c: "cbb_wf c" and r: "op_bind (cbb_err d m) f c = (r, c')"
  obtain r1 c1 where m: "m c = (r1, c1)" by fastforce
  show "write_post d xs c r c'"
  proof (cases r1)
    case (Some u)
    then have "op_bind m f c = (r, c')" using r m by (simp add: op_bind_err)
    then show ?thesis by (rule emitsD [OF assms c])
  next
    case None
    then have "cbb_err d (op_bind m f) c = (r, c')" using r m by (simp add: op_bind_err cbb_err_def)
    then show ?thesis by (rule emitsD [OF emits_err [OF assms] c])
  qed
qed

section \<open>Base 128\<close>

lemma base128_len_loop_eq:
  "base128_len_loop v n = n + length (base128_hi (unat v))"
proof (induction v n rule: base128_len_loop.induct)
  case (1 copy n)
  show ?case
  proof (cases "copy > 0")
    case True
    then have "unat copy \<noteq> 0" by (simp add: word_gt_0 unat_eq_zero)
    then show ?thesis using 1 True
      by (subst base128_len_loop.simps, subst base128_hi.simps) (simp add: unat_drop_bit_div)
  next
    case False
    then have "copy = 0" by (simp add: word_gt_0)
    then show ?thesis by (subst base128_len_loop.simps) simp
  qed
qed

lemma add_base128_loop_eq: "add_base128_loop d v n = add_all d (map (base128_byte v) (rev [0..<n]))"
  by (induction n) simp_all

lemma byte_or_128:
  assumes "unat (b :: u8) < 128"
  shows "b OR 0x80 = septet_more (unat b)"
proof -
  have "\<forall>b :: u8. unat b < 128 \<longrightarrow> unat (b OR 0x80) = 128 + unat b"
    unfolding all_bytes_upt by code_simp
  then have "unat (b OR 0x80) = 128 + unat b" using assms by blast
  then show ?thesis unfolding septet_more_def by (rule eq_word_of_natI)
qed

lemma base128_byte_eq:
  "base128_byte v i = (if i = 0 then word_of_nat (unat v mod 128) else septet_more (unat v div 128 ^ i mod 128))"
proof -
  have p: "(2 :: nat) ^ (7 * i) = 128 ^ i" by (simp add: power_mult)
  have u: "unat (ucast (drop_bit (7 * i) v AND 0x7f) :: u8) = unat v div 128 ^ i mod 128"
    by (simp add: byte_simps unat_ucast_mod unat_take_bit_mod unat_drop_bit_div p mod_mod_cancel)
  show ?thesis
  proof (cases "i = 0")
    case True
    have "(ucast (v AND 0x7f) :: u8) = word_of_nat (unat v mod 128)"
      using u True by (intro eq_word_of_natI) simp
    then show ?thesis using True by (simp add: base128_byte_def)
  next
    case False
    then show ?thesis using u byte_or_128 [of "ucast (drop_bit (7 * i) v AND 0x7f)"]
      by (simp add: base128_byte_def Let_def)
  qed
qed

lemma base128_hi_map:
  "base128_hi m = map (\<lambda>i. septet_more (m div 128 ^ i mod 128)) (rev [0..<length (base128_hi m)])"
proof (induction m rule: base128_hi.induct)
  case (1 m)
  show ?case
  proof (cases "m = 0")
    case False
    define k where "k = length (base128_hi (m div 128))"
    have len: "length (base128_hi m) = Suc k" using False by (subst base128_hi.simps) (simp add: k_def)
    have e: "m div 128 div 128 ^ i = m div 128 ^ Suc i" for i by (simp add: div_mult2_eq)
    have "rev [0..<Suc k] = map Suc (rev [0..<k]) @ [0]" by (simp add: upt_conv_Cons map_Suc_upt flip: rev_map)
    moreover have "base128_hi (m div 128) = map (\<lambda>i. septet_more (m div 128 ^ Suc i mod 128)) (rev [0..<k])"
      using 1 False unfolding k_def e by simp
    ultimately show ?thesis unfolding len using False by (subst base128_hi.simps) simp
  qed simp
qed

lemma base128_bytes:
  "map (base128_byte v) (rev [0..<(let k = base128_len_loop v 0 in if k = 0 then 1 else k)]) = base128 (unat v)"
proof -
  define n where "n = (let k = base128_len_loop v 0 in if k = 0 then 1 else k)"
  define k where "k = length (base128_hi (unat v div 128))"
  have n: "n = Suc k"
  proof (cases "unat v = 0")
    case False
    then have "length (base128_hi (unat v)) = Suc k" by (subst base128_hi.simps) (simp add: k_def)
    then show ?thesis by (simp add: n_def base128_len_loop_eq)
  qed (simp add: n_def base128_len_loop_eq k_def)
  have "rev [0..<Suc k] = map Suc (rev [0..<k]) @ [0]" by (simp add: upt_conv_Cons map_Suc_upt flip: rev_map)
  moreover have "base128_hi (unat v div 128) = map (\<lambda>i. septet_more (unat v div 128 ^ Suc i mod 128)) (rev [0..<k])"
    using base128_hi_map [of "unat v div 128"] unfolding k_def by (simp add: div_mult2_eq)
  ultimately have "map (base128_byte v) (rev [0..<n]) = base128 (unat v)"
    unfolding n by (simp add: base128_byte_eq base128_def)
  then show ?thesis by (simp only: n_def)
qed

lemma emits_base128: "emits d (base128 (unat v)) (add_base128_integer d v)"
  unfolding base128_bytes [of v, symmetric] add_base128_integer_def Let_def add_base128_loop_eq
  by (rule emits_add_all) simp

interpretation base128_writer: cbb_writer add_base128_integer "\<lambda>v. base128 (unat v)" "\<lambda>_. True"
  by standard (rule emits_base128)

section \<open>Elements\<close>

lemma emits_add_tag:
  "emits d (asn1_tag_bytes tag)
     (op_bind (CBB_flush d) (\<lambda>_.
       let tag_bits = (ucast (drop_bit CBS_ASN1_TAG_SHIFT tag) :: u8) AND 0xe0;
           tag_number = tag AND CBS_ASN1_TAG_NUMBER_MASK
       in if tag_number \<ge> 0x1f then
            op_bind (CBB_add_u8 d (tag_bits OR 0x1f)) (\<lambda>_. add_base128_integer d (ucast tag_number))
          else CBB_add_u8 d (tag_bits OR ucast tag_number)))"
proof -
  let ?n = "tag AND CBS_ASN1_TAG_NUMBER_MASK"
  have bits: "(ucast (drop_bit CBS_ASN1_TAG_SHIFT tag) :: u8) AND 0xe0 = asn1_tag_bits tag"
    by (simp add: asn1_tag_bits_def CBS_ASN1_TAG_SHIFT_def)
  have num: "unat (ucast ?n :: u64) = unat ?n" by (rule unat_ucast_up) simp
  have "emits d (asn1_tag_bytes tag)
    (if ?n \<ge> 0x1f then op_bind (CBB_add_u8 d (asn1_tag_bits tag OR 0x1f)) (\<lambda>_. add_base128_integer d (ucast ?n))
     else CBB_add_u8 d (asn1_tag_bits tag OR ucast ?n))"
    using emits_bind [OF u8_writer.writes [where x = "asn1_tag_bits tag OR 0x1f" and d = d] emits_base128 [of d "ucast ?n"]]
      u8_writer.writes [where x = "asn1_tag_bits tag OR ucast ?n" and d = d]
    by (simp add: asn1_tag_bytes_def Let_def num)
  from emits_bind [OF emits_flush this] show ?thesis unfolding bits Let_def by simp
qed

lemma emits_asn1:
  assumes "emits (Suc d) body (inner (Suc d))" "length body \<le> 0xfffffffe"
  shows "emits d (der_element tag body) (cbb_nested d (CBB_add_asn1 d tag) inner)"
proof -
  let ?pre = "op_bind (CBB_flush d) (\<lambda>_.
       let tag_bits = (ucast (drop_bit CBS_ASN1_TAG_SHIFT tag) :: u8) AND 0xe0;
           tag_number = tag AND CBS_ASN1_TAG_NUMBER_MASK
       in if tag_number \<ge> 0x1f then
            op_bind (CBB_add_u8 d (tag_bits OR 0x1f)) (\<lambda>_. add_base128_integer d (ucast tag_number))
          else CBB_add_u8 d (tag_bits OR ucast tag_number))"
  have eq: "CBB_add_asn1 d tag = op_bind ?pre (\<lambda>_. cbb_add_child d 1 True)"
    unfolding CBB_add_asn1_def op_bind_assoc Let_def ..
  have "emits d (asn1_tag_bytes tag @ prefix_of (pending 0 1 True) (length body) @ body)
      (cbb_nested d (op_bind ?pre (\<lambda>_. cbb_add_child d 1 True)) inner)"
    by (rule emits_nested [where inner = inner and d = d, OF emits_add_tag assms(1)]) (use assms(2) small_sizes in \<open>simp_all add: prefix_fits_def\<close>)
  then show ?thesis unfolding eq by (simp add: der_element_def der_header_def prefix_of_def)
qed

lemma emits_length_prefixed:
  assumes "emits (Suc d) body (inner (Suc d))" "length body < 256 ^ n" "n < size_mod"
  shows "emits d (nat_be n (length body) @ body) (cbb_nested d (cbb_add_length_prefixed d n) inner)"
proof -
  have "emits d ([] @ prefix_of (pending 0 n False) (length body) @ body)
      (cbb_nested d (op_bind (CBB_flush d) (\<lambda>_. cbb_add_child d n False)) inner)"
    by (rule emits_nested [where inner = inner and d = d, OF emits_flush assms(1)]) (use assms in \<open>simp_all add: prefix_fits_def\<close>)
  then show ?thesis by (simp add: cbb_add_length_prefixed_def prefix_of_def)
qed

section \<open>INTEGER\<close>

text \<open>The bytes that the loop of \<open>CBB_add_asn1_uint64\<close> writes for a big-endian byte string.\<close>

definition skip_zeros :: "bytes \<Rightarrow> bytes" where
  "skip_zeros xs = (let ys = dropWhile (\<lambda>b. b = 0) xs
                    in if ys = [] then [] else if hd ys AND 0x80 \<noteq> 0 then 0 # ys else ys)"

lemma asn1_uint64_bytes_started:
  "asn1_uint64_bytes d v is True = op_bind (add_all d (map (\<lambda>i. ucast (drop_bit (8 * (7 - i)) v)) is)) (\<lambda>_. op_return True)"
  by (induction "is") (simp_all add: op_bind_assoc Let_def)

lemma asn1_uint64_bytes_eq:
  "asn1_uint64_bytes d v is False =
    (let xs = skip_zeros (map (\<lambda>i. ucast (drop_bit (8 * (7 - i)) v)) is)
     in op_bind (add_all d xs) (\<lambda>_. op_return (xs \<noteq> [])))"
proof (induction "is")
  case (Cons i "is")
  let ?b = "ucast (drop_bit (8 * (7 - i)) v) :: u8"
  show ?case
  proof (cases "?b = 0")
    case True
    then show ?thesis using Cons by (simp add: skip_zeros_def Let_def)
  next
    case False
    then show ?thesis
      by (simp add: skip_zeros_def Let_def asn1_uint64_bytes_started op_bind_assoc)
  qed
qed (simp add: skip_zeros_def)

lemma nat_be_8:
  "nat_be 8 n = [word_of_nat (n div 2 ^ 56), word_of_nat (n div 2 ^ 48), word_of_nat (n div 2 ^ 40),
     word_of_nat (n div 2 ^ 32), word_of_nat (n div 2 ^ 24), word_of_nat (n div 2 ^ 16),
     word_of_nat (n div 2 ^ 8), word_of_nat n]"
proof -
  have "8 = Suc (Suc (Suc (Suc (Suc (Suc (Suc (Suc 0)))))))" by simp
  then show ?thesis
    by (simp only: nat_be.simps append_Nil append_Cons div_mult2_eq [symmetric]) simp
qed

lemma map_bytes_be: "map (\<lambda>i. ucast (drop_bit (8 * (7 - i)) (v :: u64)) :: u8) [0..<8] = nat_be 8 (unat v)"
proof -
  have "(ucast w :: u8) = word_of_nat (unat w)" for w :: u64
    using ucast_word_of_nat [where 'a = 64 and 'b = 8, of "unat w"] by simp
  then have "ucast (drop_bit n v) = (word_of_nat (unat v div 2 ^ n) :: u8)" for n
    by (simp only: unat_drop_bit_div)
  then show ?thesis by (simp add: upt_rec nat_be_8)
qed

lemma be_nat_dropWhile: "be_nat (dropWhile (\<lambda>b. b = 0) xs) = be_nat xs"
  by (induction xs) auto

lemma uint_body_skip_zeros:
  "asn1_uint_body (be_nat xs) = (if skip_zeros xs = [] then [0] else skip_zeros xs)"
proof -
  define ys where "ys = dropWhile (\<lambda>b. b = 0) xs"
  have "ys = [] \<or> hd ys \<noteq> 0" using hd_dropWhile [of "\<lambda>b. b = 0" xs] by (auto simp: ys_def)
  then have "be_min (be_nat xs) = ys" using be_min_be_nat [of ys] by (simp add: ys_def be_nat_dropWhile)
  then show ?thesis
    using high_bit_byte [of "hd ys"]
    by (auto simp: asn1_uint_body_def skip_zeros_def Let_def ys_def [symmetric])
qed

lemma emits_uint_body:
  "emits d (asn1_uint_body (unat v))
    (op_bind (asn1_uint64_bytes d v [0..<8] False) (\<lambda>started. if \<not> started then CBB_add_u8 d 0 else op_return ()))"
proof -
  let ?xs = "skip_zeros (nat_be 8 (unat v))"
  have v: "be_nat (nat_be 8 (unat v)) = unat v" using unat_word_less(3) [of v] by (simp add: be_nat_nat_be)
  have "op_bind (asn1_uint64_bytes d v [0..<8] False) (\<lambda>started. if \<not> started then CBB_add_u8 d 0 else op_return ())
      = (if ?xs = [] then CBB_add_u8 d 0 else add_all d ?xs)"
    unfolding asn1_uint64_bytes_eq map_bytes_be Let_def by (simp add: op_bind_assoc)
  then show ?thesis
    using uint_body_skip_zeros [of "nat_be 8 (unat v)"] emits_add_all [of ?xs d] u8_writer.writes [where x = 0 and d = d]
    unfolding v by (simp split: if_splits)
qed

lemma length_bodies: "length (asn1_uint_body (unat (v :: u64))) \<le> 9"
  using length_uint_body [of "unat v" 8] unat_word_less(3) [of v] by simp

lemma emits_asn1_uint64:
  "emits d (der_element tag (asn1_uint_body (unat v))) (CBB_add_asn1_uint64_with_tag d v tag)"
proof -
  let ?inner = "\<lambda>d. op_bind (asn1_uint64_bytes d v [0..<8] False) (\<lambda>started. if \<not> started then CBB_add_u8 d 0 else op_return ())"
  have "emits d (der_element tag (asn1_uint_body (unat v))) (cbb_nested d (CBB_add_asn1 d tag) ?inner)"
    by (rule emits_asn1 [where inner = ?inner]) (use emits_uint_body length_bodies [of v] in simp_all)
  then show ?thesis
    unfolding CBB_add_asn1_uint64_with_tag_def cbb_nested_def op_bind_assoc [symmetric] by (rule emits_err_bind)
qed

lemma add_down_eq: "n < length xs \<Longrightarrow> add_down d xs n = add_all d (rev (take (Suc n) xs))"
proof (induction n)
  case 0
  then show ?case by (cases xs) simp_all
next
  case (Suc n)
  then show ?case by (simp add: take_Suc_conv_app_nth [of "Suc n"])
qed

lemma int64_start_strip:
  "n < length xs \<Longrightarrow> xs ! n AND 0x80 \<noteq> 0 \<Longrightarrow>
   strip_sign (rev (take (Suc n) xs)) = rev (take (Suc (int64_start xs n)) xs) \<and> int64_start xs n \<le> n"
proof (induction n)
  case 0
  then show ?case by (cases xs) simp_all
next
  case (Suc n)
  have t: "rev (take (Suc (Suc n)) xs) = xs ! Suc n # xs ! n # rev (take n xs)"
    "rev (take (Suc n) xs) = xs ! n # rev (take n xs)"
    using Suc.prems by (simp_all add: take_Suc_conv_app_nth)
  have "xs ! Suc n \<noteq> 0" using Suc.prems(2) by auto
  then have r: "redundant_sign (xs ! Suc n) (xs ! n) \<longleftrightarrow> xs ! Suc n = 0xff \<and> xs ! n AND 0x80 \<noteq> 0"
    by (simp add: redundant_sign_def)
  show ?case
  proof (cases "redundant_sign (xs ! Suc n) (xs ! n)")
    case True
    then show ?thesis using Suc r t by auto
  next
    case False
    then have "\<not> (xs ! Suc n = 0xff \<and> xs ! n AND 0x80 \<noteq> 0)" using r by blast
    then have "int64_start xs (Suc n) = Suc n" by (simp only: int64_start.simps if_False)
    then show ?thesis using False by (simp add: t(1))
  qed
qed

lemma sign_bit_first_byte: "(hd (nat_be 8 (unat (v :: u64))) AND 0x80 \<noteq> 0) \<longleftrightarrow> sint v < 0"
proof -
  have d: "unat v div 2 ^ 56 < 256" using unat_word_less(3) [of v] by (simp add: less_mult_imp_div_less)
  then have "unat (hd (nat_be 8 (unat v))) = unat v div 2 ^ 56" by (simp add: nat_be_8)
  then have "(hd (nat_be 8 (unat v)) AND 0x80 \<noteq> 0) \<longleftrightarrow> 128 \<le> unat v div 2 ^ 56"
    by (simp only: high_bit_byte)
  also have "\<dots> \<longleftrightarrow> odd (unat v div 2 ^ 63)"
  proof -
    have "unat v div 2 ^ 63 = unat v div 2 ^ 56 div 128" by (simp flip: div_mult2_eq)
    moreover have "128 \<le> x \<longleftrightarrow> odd (x div 128)" if "x < 256" for x :: nat
    proof (cases "128 \<le> x")
      case True
      then obtain k where "x = 128 + k" using le_Suc_ex by blast
      then have "x div 128 = 1" using that by simp
      then show ?thesis using True by simp
    qed simp
    ultimately show ?thesis using d by metis
  qed
  also have "\<dots> \<longleftrightarrow> bit (unat v) 63" by (simp only: bit_iff_odd)
  also have "\<dots> \<longleftrightarrow> bit v 63" by (simp add: bit_unsigned_iff)
  also have "\<dots> \<longleftrightarrow> sint v < 0" using bit_last_iff [of v] by simp
  finally show ?thesis .
qed


lemma int64_body_nonneg:
  assumes "0 \<le> sint (v :: u64)"
  shows "asn1_int64_body v = asn1_uint_body (unat v)"
proof -
  let ?bs = "nat_be 8 (unat v)"
  have ne: "?bs \<noteq> []" by (simp add: nat_be_8)
  note p = strip_sign_props [OF ne]
  have "hd ?bs AND 0x80 = 0" using sign_bit_first_byte [of v] assms by auto
  then have "CBS_is_unsigned_asn1_integer (asn1_int64_body v)"
    and z: "?bs = replicate (8 - length (asn1_int64_body v)) 0 @ asn1_int64_body v"
    using p by (simp_all add: CBS_is_unsigned_asn1_integer_def valid_integer_iff asn1_int64_body_def sign_byte_def)
  then have "asn1_int64_body v = asn1_uint_body (be_nat (asn1_int64_body v))"
    by (simp add: is_unsigned_iff)
  moreover have "be_nat (replicate k 0 @ xs) = be_nat xs" for k xs by (induction k) simp_all
  then have "be_nat ?bs = be_nat (asn1_int64_body v)" using z by metis
  moreover have "be_nat ?bs = unat v" using unat_word_less(3) [of v] by (simp add: be_nat_nat_be)
  ultimately show ?thesis by simp
qed

lemma rev_nat_le: "rev (nat_le n v) = nat_be n v"
  by (induction n v rule: nat_be.induct) simp_all

lemma emits_asn1_int64:
  "emits d (der_element tag (asn1_int64_body v)) (CBB_add_asn1_int64_with_tag d v tag)"
proof (cases "sint v \<ge> 0")
  case True
  then show ?thesis
    using emits_asn1_uint64 [of d tag v] by (simp add: CBB_add_asn1_int64_with_tag_def int64_body_nonneg)
next
  case False
  let ?xs = "nat_le 8 (unat v)" and ?start = "int64_start (nat_le 8 (unat v)) 7"
  have bs: "rev (take (Suc 7) ?xs) = nat_be 8 (unat v)" by (simp add: rev_nat_le)
  have "?xs \<noteq> []" by (metis length_nat_le list.size(3) zero_neq_numeral)
  then have "hd (rev ?xs) = ?xs ! 7" by (simp add: hd_rev last_conv_nth)
  then have "?xs ! 7 AND 0x80 \<noteq> 0" using sign_bit_first_byte [of v] False by (simp add: rev_nat_le)
  then have s: "asn1_int64_body v = rev (take (Suc ?start) ?xs)" "?start \<le> 7"
    using int64_start_strip [of 7 ?xs] bs by (simp_all add: asn1_int64_body_def)
  let ?inner = "\<lambda>d. add_down d ?xs ?start"
  have e: "add_down d' ?xs ?start = add_all d' (asn1_int64_body v)" for d'
    using s by (simp add: add_down_eq)
  have "asn1_int64_body v \<noteq> []" using s by (simp add: \<open>?xs \<noteq> []\<close>)
  then have "emits d (der_element tag (asn1_int64_body v)) (cbb_nested d (CBB_add_asn1 d tag) ?inner)"
    by (intro emits_asn1 [where inner = ?inner])
      (use emits_add_all length_int64_body [of v] in \<open>simp_all add: e\<close>)
  then have "emits d (der_element tag (asn1_int64_body v))
    (op_bind (cbb_err d (op_bind (CBB_add_asn1 d tag) (\<lambda>_. add_down (Suc d) ?xs ?start))) (\<lambda>_. CBB_flush d))"
    unfolding cbb_nested_def op_bind_assoc [symmetric] by (rule emits_err_bind)
  then show ?thesis using False by (simp add: CBB_add_asn1_int64_with_tag_def Let_def)
qed

lemma emits_octet_string:
  "length data \<le> 0xfffffffe \<Longrightarrow> emits d (der_element CBS_ASN1_OCTETSTRING data) (CBB_add_asn1_octet_string d data)"
  using emits_err [OF emits_asn1 [where inner = "\<lambda>d. CBB_add_bytes d data" and tag = CBS_ASN1_OCTETSTRING]]
    bytes_writer.writes [of data "Suc d"]
  by (simp add: CBB_add_asn1_octet_string_def cbb_nested_def size_mod_def)

lemma emits_bool:
  "emits d (der_element CBS_ASN1_BOOLEAN [if b then 0xff else 0]) (CBB_add_asn1_bool d b)"
  using emits_err [OF emits_asn1 [where inner = "\<lambda>d. CBB_add_u8 d (if b then 0xff else 0)" and tag = CBS_ASN1_BOOLEAN]]
    u8_writer.writes [where x = "if b then 0xff else 0" and d = "Suc d"]
  by (simp add: CBB_add_asn1_bool_def cbb_nested_def)

section \<open>What the builder writes, the parser reads\<close>

locale cbb_codec = w: cbb_writer add enc ok + c: exact_codec enc get valid
  for add :: "nat \<Rightarrow> 'a \<Rightarrow> (cbb, unit) op" and enc ok get valid +
  assumes ok_valid: "ok x \<Longrightarrow> valid x"
begin

lemma written_is_read:
  assumes "ok x" "cbb_wf c" "length (cbb_children c) = d" "add d x c = (Some u, c')"
  shows "get (drop (cbb_len c) (cbb_data c')) = (Some x, [])"
  using w.appends(1) [OF assms(1,2,4)] assms(2,3) c.get_exact [OF ok_valid [OF assms(1)]] by simp

text \<open>A whole sequence: the adds succeed when there is room, and parsing returns the values.\<close>

lemma sequence_is_read:
  assumes "list_all ok xs" "cbb_wf c" "cbb_children c = []" "can_hold c (cbb_len c + length (concat (map enc xs)))"
  obtains c' where "fold (\<lambda>x m. op_bind m (\<lambda>_. add 0 x)) xs (CBB_flush 0) c = (Some (), c')"
    "op_repeat (length xs) get (drop (cbb_len c) (cbb_data c')) = (Some xs, [])"
proof -
  let ?m = "fold (\<lambda>x m. op_bind m (\<lambda>_. add 0 x)) xs (CBB_flush 0)"
  obtain r c' where r: "?m c = (r, c')" by fastforce
  note p = emitsD [OF w.repeat_writes [OF assms(1)] assms(2) r]
  then have "r = Some ()" using assms(2-4) by (auto simp: write_post_def attached_def)
  moreover have "cbb_data c' = cbb_data c @ concat (map enc xs)"
    using p assms(3) \<open>r = Some ()\<close> by (auto simp: write_post_def)
  moreover have "list_all valid xs" using assms(1) ok_valid by (auto simp: list_all_iff)
  ultimately show ?thesis using that [of c'] r assms(2) c.repeat_put [of xs "[]"] by simp
qed

end

interpretation u8_rw: cbb_codec CBB_add_u8 "\<lambda>v. [v]" "\<lambda>_. True" CBS_get_u8 "\<lambda>_. True"
  by unfold_locales
interpretation u16_rw: cbb_codec CBB_add_u16 "\<lambda>v. nat_be 2 (unat v)" "\<lambda>_. True" CBS_get_u16 "\<lambda>v. unat v < 256 ^ 2"
  by unfold_locales simp
interpretation u24_rw: cbb_codec CBB_add_u24 "\<lambda>v. nat_be 3 (unat v)" "\<lambda>v. unat v < 256 ^ 3"
    CBS_get_u24 "\<lambda>v. unat v < 256 ^ 3"
  by unfold_locales
interpretation u32_rw: cbb_codec CBB_add_u32 "\<lambda>v. nat_be 4 (unat v)" "\<lambda>_. True" CBS_get_u32 "\<lambda>v. unat v < 256 ^ 4"
  by unfold_locales simp
interpretation u64_rw: cbb_codec CBB_add_u64 "\<lambda>v. nat_be 8 (unat v)" "\<lambda>_. True" CBS_get_u64 "\<lambda>v. unat v < 256 ^ 8"
  by unfold_locales simp
interpretation u16le_rw: cbb_codec CBB_add_u16le "\<lambda>v. nat_le 2 (unat v)" "\<lambda>_. True" CBS_get_u16le "\<lambda>_. True"
  by unfold_locales
interpretation u32le_rw: cbb_codec CBB_add_u32le "\<lambda>v. nat_le 4 (unat v)" "\<lambda>_. True" CBS_get_u32le "\<lambda>_. True"
  by unfold_locales
interpretation u64le_rw: cbb_codec CBB_add_u64le "\<lambda>v. nat_le 8 (unat v)" "\<lambda>_. True" CBS_get_u64le "\<lambda>_. True"
  by unfold_locales
interpretation base128_rw: cbb_codec add_base128_integer "\<lambda>v. base128 (unat v)" "\<lambda>_. True"
    parse_base128_integer "\<lambda>_. True"
  by unfold_locales
interpretation asn1_uint64_rw: cbb_codec CBB_add_asn1_uint64
    "\<lambda>v. der_element CBS_ASN1_INTEGER (asn1_uint_body (unat v))" "\<lambda>_. True" CBS_get_asn1_uint64 "\<lambda>_. True"
  by unfold_locales (simp_all add: CBB_add_asn1_uint64_def emits_asn1_uint64)
interpretation asn1_int64_rw: cbb_codec CBB_add_asn1_int64
    "\<lambda>v. der_element CBS_ASN1_INTEGER (asn1_int64_body v)" "\<lambda>_. True" CBS_get_asn1_int64 "\<lambda>_. True"
  by unfold_locales (simp_all add: CBB_add_asn1_int64_def emits_asn1_int64)
interpretation octet_string_rw: cbb_codec CBB_add_asn1_octet_string "der_element CBS_ASN1_OCTETSTRING"
    "\<lambda>xs. length xs \<le> 0xfffffffe" "CBS_get_asn1 CBS_ASN1_OCTETSTRING"
    "\<lambda>c. valid_asn1_tag CBS_ASN1_OCTETSTRING \<and> length c < 2 ^ 32"
  by unfold_locales (simp_all add: emits_octet_string valid_universal_tags)
interpretation asn1_bool_rw: cbb_codec CBB_add_asn1_bool "\<lambda>b. der_element CBS_ASN1_BOOLEAN [if b then 0xff else 0]"
    "\<lambda>_. True" CBS_get_asn1_bool "\<lambda>_. True"
  by unfold_locales (simp_all add: emits_bool)

end
