(* ===== verification/Oid.thy ===== *)
theory Oid
  imports CbbAsn1 "HOL-Library.Multiset"
begin

text \<open>
  OBJECT IDENTIFIERs between their dotted text and their DER contents:
  \<open>CBB_add_asn1_oid_from_text\<close> (\<open>cbb.c\<close>) and \<open>CBS_asn1_oid_to_text\<close> (\<open>cbs.c\<close>) are inverse. And
  SET OF, which \<open>CBB_flush_asn1_set_of\<close> sorts into the order of the standard, \<open>x690_le\<close>.
\<close>

section \<open>Dotted text\<close>

fun dotted :: "u64 list \<Rightarrow> bytes" where
  "dotted [] = []"
| "dotted [v] = decimal (unat v)"
| "dotted (v # vs) = decimal (unat v) @ 0x2e # dotted vs"

text \<open>The first number of the encoding stands for the first two components.\<close>

definition oid_first :: "u64 \<Rightarrow> u64" where
  "oid_first v = (if v \<ge> 80 then 2 else v div 40)"

definition oid_second :: "u64 \<Rightarrow> u64" where
  "oid_second v = (if v \<ge> 80 then v - 80 else v mod 40)"

definition oid_text :: "u64 \<Rightarrow> u64 list \<Rightarrow> bytes" where
  "oid_text v vs = dotted (oid_first v # oid_second v # vs)"

definition oid_contents :: "u64 \<Rightarrow> u64 list \<Rightarrow> bytes" where
  "oid_contents v vs = concat (map (\<lambda>v. base128 (unat v)) (v # vs))"

lemma dotted_Cons: "vs \<noteq> [] \<Longrightarrow> dotted (v # vs) = decimal (unat v) @ 0x2e # dotted vs"
  by (cases vs) simp_all

lemma dotted_nonempty: "vs \<noteq> [] \<Longrightarrow> dotted vs \<noteq> []"
  by (cases vs rule: dotted.cases) simp_all

lemma parse_dotted_iff:
  "parse_dotted_decimal cbs = (Some v, rest) \<longleftrightarrow>
   cbs = decimal (unat v) \<and> rest = [] \<or> cbs = decimal (unat v) @ 0x2e # rest \<and> rest \<noteq> []" (is "?l \<longleftrightarrow> ?r")
proof
  assume ?l
  then obtain w t where t: "CBS_get_u64_decimal cbs = (Some w, t)"
    and r: "(case CBS_get_u8 t of (None, cbs) \<Rightarrow> (Some w, cbs)
       | (Some dot, cbs) \<Rightarrow> (if dot = 0x2e \<and> length cbs > 0 then Some w else None, cbs)) = (Some v, rest)"
    by (auto simp: parse_dotted_decimal_def op_bind_eq_Some)
  have "cbs = decimal (unat w) @ t" using t by (simp add: u64_decimal_accepts_iff)
  then show ?r using r by (cases t) (auto simp: op_simps split: if_splits)
next
  assume r: ?r
  define t where "t = (if rest = [] then [] else 0x2e # rest)"
  have "cbs = decimal (unat v) @ t" using r by (auto simp: t_def)
  moreover have "t = [] \<or> \<not> OPENSSL_isdigit (uint (hd t))" by (simp add: t_def OPENSSL_isdigit_def)
  ultimately have "CBS_get_u64_decimal cbs = (Some v, t)" by (simp add: u64_decimal_accepts_iff)
  then show ?l by (cases "rest = []") (simp_all add: parse_dotted_decimal_def op_simps t_def)
qed

lemma parse_dotted_dotted: "parse_dotted_decimal (dotted (v # vs)) = (Some v, dotted vs)"
  by (cases "vs = []") (simp_all add: parse_dotted_iff dotted_Cons dotted_nonempty)

lemma parse_dotted_sound:
  "parse_dotted_decimal cbs = (Some v, rest) \<Longrightarrow> rest = dotted vs \<Longrightarrow> (rest = [] \<Longrightarrow> vs = []) \<Longrightarrow> cbs = dotted (v # vs)"
proof -
  assume p: "parse_dotted_decimal cbs = (Some v, rest)" and r: "rest = dotted vs" "rest = [] \<Longrightarrow> vs = []"
  show ?thesis
  proof (cases "vs = []")
    case True
    then show ?thesis using p r(1) by (simp add: parse_dotted_iff)
  next
    case False
    then show ?thesis using p r dotted_nonempty [OF False] by (simp add: parse_dotted_iff dotted_Cons)
  qed
qed

text \<open>The parser of the remaining components.\<close>

function dotted_values :: "cbs \<Rightarrow> u64 list option" where
  "dotted_values cbs =
     (if length cbs > 0 then
        (case parse_dotted_decimal cbs of
           (None, _) \<Rightarrow> None
         | (Some a, cbs) \<Rightarrow> map_option (Cons a) (dotted_values cbs))
      else Some [])"
  by auto
termination
  by (relation "measure length") (auto dest: parse_dotted_decimal_shrinks [OF sym])

declare dotted_values.simps [simp del]

lemma dotted_values_step:
  "cbs \<noteq> [] \<Longrightarrow> parse_dotted_decimal cbs = (None, rest) \<Longrightarrow> dotted_values cbs = None"
  "cbs \<noteq> [] \<Longrightarrow> parse_dotted_decimal cbs = (Some a, rest) \<Longrightarrow>
     dotted_values cbs = map_option (Cons a) (dotted_values rest)"
  "dotted_values [] = Some []"
  by (subst dotted_values.simps, simp)+

lemma dotted_values_iff: "dotted_values cbs = Some vs \<longleftrightarrow> cbs = dotted vs"
proof
  show "dotted_values cbs = Some vs \<Longrightarrow> cbs = dotted vs"
  proof (induction cbs arbitrary: vs rule: dotted_values.induct)
    case (1 cbs)
    show ?case
    proof (cases "cbs = []")
      case True
      then show ?thesis using "1.prems" by (simp add: dotted_values_step)
    next
      case False
      obtain r rest where p: "parse_dotted_decimal cbs = (r, rest)" by fastforce
      then obtain a where a: "r = Some a"
        using "1.prems" False dotted_values_step(1) [OF False, of rest] by (cases r) simp_all
      then have "map_option (Cons a) (dotted_values rest) = Some vs"
        using "1.prems" p dotted_values_step(2) [OF False, of a rest] by metis
      then obtain ws where w: "dotted_values rest = Some ws" "vs = a # ws" by (auto simp del: dotted.simps)
      have "0 < length cbs" using False by simp
      from "1.IH" [OF this p [symmetric] a w(1)] have "rest = dotted ws" .
      moreover have "rest = [] \<Longrightarrow> ws = []" using w(1) by (auto simp: dotted_values_step)
      ultimately show ?thesis unfolding w(2) by (intro parse_dotted_sound [OF p [unfolded a]])
    qed
  qed
  have "dotted_values (dotted vs) = Some vs"
  proof (induction vs)
    case (Cons v vs)
    have "dotted (v # vs) \<noteq> []" by (rule dotted_nonempty) simp
    then show ?case using Cons dotted_values_step(2) [OF _ parse_dotted_dotted [of v vs]] by simp
  qed (simp add: dotted_values_step)
  then show "cbs = dotted vs \<Longrightarrow> dotted_values cbs = Some vs" by simp
qed

section \<open>From text\<close>

definition add_components :: "nat \<Rightarrow> u64 list \<Rightarrow> (cbb, unit) op" where
  "add_components d vs = foldr (\<lambda>v m. op_bind (add_base128_integer d v) (\<lambda>_. m)) vs (op_return ())"

lemma emits_components:
  "emits d xs (m :: (cbb, unit) op) \<Longrightarrow>
   emits d (xs @ concat (map (\<lambda>v. base128 (unat v)) vs)) (op_bind m (\<lambda>_. add_components d vs))"
proof (induction vs arbitrary: xs m)
  case Nil
  then show ?case by (simp add: add_components_def)
next
  case (Cons v vs)
  have "emits d (xs @ base128 (unat v)) (op_bind m (\<lambda>_. add_base128_integer d v))"
    by (rule emits_bind [OF Cons.prems emits_base128])
  from Cons.IH [OF this] show ?case by (simp add: op_bind_assoc add_components_def)
qed

lemma oid_from_text_loop_eq:
  "oid_from_text_loop d cbs c = (Some u, c') \<longleftrightarrow>
   (\<exists>vs. cbs = dotted vs \<and> add_components d vs c = (Some u, c'))"
proof (induction d cbs arbitrary: c rule: oid_from_text_loop.induct)
  case (1 d cbs)
  show ?case
  proof (cases "cbs = []")
    case True
    have "[] = dotted vs \<longleftrightarrow> vs = []" for vs by (metis dotted.simps(1) dotted_nonempty)
    then show ?thesis using True by (simp add: oid_from_text_loop.simps [of d "[]"] add_components_def)
  next
    case False
    show ?thesis
    proof (cases "parse_dotted_decimal cbs")
      case (Pair r rest)
      show ?thesis
      proof (cases r)
        case None
        have "dotted_values cbs = None" using dotted_values_step(1) [OF False] Pair None by simp
        then have "cbs \<noteq> dotted vs" for vs using dotted_values_iff [of cbs vs] by auto
        then show ?thesis using False Pair None by (simp add: oid_from_text_loop.simps [of d cbs] op_simps)
      next
        case (Some a)
        have "cbs = dotted vs \<longleftrightarrow> (\<exists>ws. rest = dotted ws \<and> vs = a # ws)" for vs
        proof -
          have "dotted_values cbs = map_option (Cons a) (dotted_values rest)"
            using dotted_values_step(2) [OF False] Pair Some by simp
          then show ?thesis using dotted_values_iff [of cbs vs] dotted_values_iff [of rest] by auto
        qed
        note cbs = this
        have "0 < length cbs" using False by simp
        note ih = "1.IH" [OF this Pair [symmetric] Some]
        have "oid_from_text_loop d cbs c = (Some u, c') \<longleftrightarrow>
            (\<exists>x t. add_base128_integer d a c = (Some x, t) \<and> oid_from_text_loop d rest t = (Some u, c'))"
          using False Pair Some by (simp add: oid_from_text_loop.simps [of d cbs] op_bind_eq_Some)
        also have "\<dots> \<longleftrightarrow> (\<exists>ws. rest = dotted ws \<and> add_components d (a # ws) c = (Some u, c'))"
          unfolding ih by (auto simp: add_components_def op_bind_eq_Some)
        finally show ?thesis unfolding cbs by blast
      qed
    qed
  qed
qed


lemma first_two:
  assumes "a \<le> 2" "a < 2 \<Longrightarrow> b \<le> 39" "b \<le> UINT64_MAX - 80"
  shows "oid_first (40 * a + b) = a" "oid_second (40 * a + b) = b"
proof -
  have a: "unat a \<le> 2" "unat a < 2 \<Longrightarrow> unat b \<le> 39" "unat b \<le> 2 ^ 64 - 81"
    using assms by (simp_all add: word_le_nat_alt word_less_nat_alt UINT64_MAX_def)
  have "unat (40 * a) = 40 * unat a" using a(1) by (subst unat_mult_lem [THEN iffD1]) simp_all
  then have u: "unat (40 * a + b) = 40 * unat a + unat b"
    using a(1,3) by (subst unat_add_lem [THEN iffD1]) simp_all
  have eq: "x = y \<longleftrightarrow> unat x = unat y" for x y :: u64 by (simp add: word_unat_eq_iff)
  have "oid_first (40 * a + b) = a \<and> oid_second (40 * a + b) = b"
  proof (cases "unat a = 2")
    case True
    then have "a = 2" using eq [of a 2] by simp
    moreover have "80 \<le> 40 * a + b" using u True by (simp add: word_le_nat_alt)
    ultimately show ?thesis by (simp add: oid_first_def oid_second_def)
  next
    case False
    then have small: "unat a < 2" "unat b \<le> 39" using a by simp_all
    then have "\<not> 80 \<le> 40 * a + b" using u by (simp add: word_le_nat_alt)
    moreover have "unat ((40 * a + b) div 40) = unat a" "unat ((40 * a + b) mod 40) = unat b"
      using small by (simp_all add: unat_div unat_mod_distrib u)
    ultimately show ?thesis by (simp add: oid_first_def oid_second_def eq)
  qed
  then show "oid_first (40 * a + b) = a" "oid_second (40 * a + b) = b" by simp_all
qed

lemma first_two_back:
  "oid_first v \<le> 2" "oid_first v < 2 \<Longrightarrow> oid_second v \<le> 39" "oid_second v \<le> UINT64_MAX - 80"
  "40 * oid_first v + oid_second v = v"
proof -
  have *: "oid_first v \<le> 2 \<and> (oid_first v < 2 \<longrightarrow> oid_second v \<le> 39) \<and> oid_second v \<le> UINT64_MAX - 80
    \<and> 40 * oid_first v + oid_second v = v"
  proof (cases "v \<ge> 80")
    case True
    then have "unat (v - 80) = unat v - 80" "80 \<le> unat v" by (simp_all add: unat_sub word_le_nat_alt)
    moreover have "unat v - 80 \<le> 18446744073709551535" using unat_word_less(3) [of v] by linarith
    ultimately show ?thesis using True
      by (simp add: oid_first_def oid_second_def UINT64_MAX_def word_le_nat_alt)
  next
    case False
    then have "unat v < 80" by (simp add: word_le_nat_alt)
    then have "unat v div 40 < 2" "unat v mod 40 \<le> 39" by (simp_all add: less_mult_imp_div_less)
    moreover have "40 * (v div 40) + v mod 40 = v"
      using word_mod_div_equality [of v 40] by (simp add: mult.commute)
    ultimately show ?thesis using False
      by (simp add: oid_first_def oid_second_def UINT64_MAX_def word_le_nat_alt word_less_nat_alt unat_div unat_mod_distrib)
  qed
  then show "oid_first v \<le> 2" "oid_first v < 2 \<Longrightarrow> oid_second v \<le> 39" "oid_second v \<le> UINT64_MAX - 80"
    "40 * oid_first v + oid_second v = v" by blast+
qed


lemma oid_from_text_step:
  "CBB_add_asn1_oid_from_text d text c = (Some u, c') \<longleftrightarrow>
   (\<exists>v vs. text = oid_text v vs \<and>
      op_bind (CBB_flush d) (\<lambda>_. add_components d (v # vs)) c = (Some u, c'))" (is "?l \<longleftrightarrow> ?r")
proof
  assume ?l
  then obtain t where f: "CBB_flush d c = (Some (), t)"
    and r: "(case parse_dotted_decimal text of
         (None, _) \<Rightarrow> op_fail
       | (Some a, cbs) \<Rightarrow>
           (case parse_dotted_decimal cbs of
              (None, _) \<Rightarrow> op_fail
            | (Some b, cbs) \<Rightarrow>
                if a > 2 \<or> (a < 2 \<and> b > 39) \<or> b > UINT64_MAX - 80 then op_fail
                else op_bind (add_base128_integer d (40 * a + b)) (\<lambda>_. oid_from_text_loop d cbs))) t = (Some u, c')"
    by (auto simp: CBB_add_asn1_oid_from_text_def op_bind_eq_Some)
  obtain a rest where a: "parse_dotted_decimal text = (Some a, rest)"
    using r by (cases "parse_dotted_decimal text"; cases "fst (parse_dotted_decimal text)") (auto simp: op_simps)
  obtain b rest2 where b: "parse_dotted_decimal rest = (Some b, rest2)"
    using r a by (cases "parse_dotted_decimal rest"; cases "fst (parse_dotted_decimal rest)") (auto simp: op_simps)
  have ab: "a \<le> 2" "a < 2 \<Longrightarrow> b \<le> 39" "b \<le> UINT64_MAX - 80"
    and s: "op_bind (add_base128_integer d (40 * a + b)) (\<lambda>_. oid_from_text_loop d rest2) t = (Some u, c')"
    using r a b by (auto simp: op_simps not_less split: if_splits)
  then obtain vs where vs: "rest2 = dotted vs" "add_components d ((40 * a + b) # vs) t = (Some u, c')"
    by (auto simp: op_bind_eq_Some oid_from_text_loop_eq add_components_def)
  have e: "rest2 = [] \<Longrightarrow> vs = []" using vs(1) dotted_nonempty by force
  have rest: "rest = dotted (b # vs)" by (rule parse_dotted_sound [OF b vs(1)]) (rule e)
  have "text = dotted (a # b # vs)"
    by (rule parse_dotted_sound [OF a rest]) (use rest dotted_nonempty [of "b # vs"] in metis)
  then have "text = oid_text (40 * a + b) vs" using first_two [OF ab] by (simp add: oid_text_def)
  then show ?r using f vs(2) by (auto simp: op_bind_eq_Some)
next
  assume ?r
  then obtain v vs t where t: "text = oid_text v vs" "CBB_flush d c = (Some (), t)"
    "add_components d (v # vs) t = (Some u, c')" by (auto simp: op_bind_eq_Some)
  note fb = first_two_back [of v]
  have "op_bind (add_base128_integer d v) (\<lambda>_. oid_from_text_loop d (dotted vs)) t = (Some u, c')"
    using t(3) by (auto simp: add_components_def op_bind_eq_Some oid_from_text_loop_eq)
  moreover have "\<not> (oid_first v > 2 \<or> oid_first v < 2 \<and> oid_second v > 39 \<or> oid_second v > UINT64_MAX - 80)"
    using fb(1-3) unfolding not_less [symmetric] by blast
  ultimately show ?l
    using t(2) unfolding t(1) oid_text_def CBB_add_asn1_oid_from_text_def
    by (auto simp: parse_dotted_dotted fb(4) simp del: dotted.simps)
qed

lemma emits_oid: "emits d (oid_contents v vs) (op_bind (CBB_flush d) (\<lambda>_. add_components d (v # vs)))"
  using emits_components [OF emits_flush, of d "v # vs"] by (simp add: oid_contents_def)

text \<open>What the call accepts, and what it appends.\<close>

lemma oid_from_text_appends:
  assumes "cbb_wf c" "cbb_children c = []" "CBB_add_asn1_oid_from_text 0 text c = (Some u, c')"
  shows "\<exists>v vs. text = oid_text v vs \<and> cbb_wf c' \<and> cbb_data c' = cbb_data c @ oid_contents v vs"
proof -
  obtain v vs where t: "text = oid_text v vs"
    and e: "op_bind (CBB_flush 0) (\<lambda>_. add_components 0 (v # vs)) c = (Some u, c')"
    using assms(3) by (auto simp: oid_from_text_step)
  show ?thesis using emitsD [OF emits_oid assms(1) e] assms(2) t by (auto simp: write_post_def)
qed

lemma oid_from_text_accepts:
  assumes "cbb_wf c" "cbb_children c = []" "can_hold c (cbb_len c + length (oid_contents v vs))"
  shows "\<exists>u c'. CBB_add_asn1_oid_from_text 0 (oid_text v vs) c = (Some u, c')"
proof -
  obtain r c' where r: "op_bind (CBB_flush 0) (\<lambda>_. add_components 0 (v # vs)) c = (r, c')" by fastforce
  have "r \<noteq> None"
    using emitsD [OF emits_oid assms(1) r] assms(2,3) length_cbb_data [OF assms(1)] by (auto simp: write_post_def attached_def)
  then show ?thesis using r oid_from_text_step [of 0 "oid_text v vs" c] by (metis option.exhaust)
qed

section \<open>To text\<close>

lemma oid_to_text_loop_eq:
  "oid_to_text_loop (concat (map (\<lambda>v. base128 (unat v)) vs)) =
   foldr (\<lambda>v m. op_bind (CBB_add_u8 0 0x2e) (\<lambda>_. op_bind (add_decimal 0 v) (\<lambda>_. m))) vs (op_return ())"
proof (induction vs)
  case (Cons v vs)
  then show ?case
    using base128_codec.get_put [of v "concat (map (\<lambda>v. base128 (unat v)) vs)"]
    by (subst oid_to_text_loop.simps) simp
qed (subst oid_to_text_loop.simps, simp)

lemma length_decimal: "n < 10 ^ Suc k \<Longrightarrow> length (decimal n) \<le> Suc k"
proof (induction k arbitrary: n)
  case (Suc k)
  then have "n div 10 < 10 ^ Suc k" by (simp add: less_mult_imp_div_less)
  then show ?case using Suc.IH by (subst decimal.simps) simp
qed (simp add: decimal.simps)

lemma emits_decimal: "emits d (decimal (unat v)) (add_decimal d v)"
proof -
  have "length (decimal (unat v)) \<le> 20"
    using length_decimal [of "unat v" 19] unat_word_less(3) [of v] by simp
  then show ?thesis using bytes_writer.writes [of "decimal (unat v)" d]
    by (simp add: add_decimal_def size_mod_def)
qed

lemma emits_dotted_tail:
  "emits 0 xs (m :: (cbb, unit) op) \<Longrightarrow>
   emits 0 (xs @ concat (map (\<lambda>v. 0x2e # decimal (unat v)) vs))
     (op_bind m (\<lambda>_. foldr (\<lambda>v m. op_bind (CBB_add_u8 0 0x2e) (\<lambda>_. op_bind (add_decimal 0 v) (\<lambda>_. m))) vs (op_return ())))"
proof (induction vs arbitrary: xs m)
  case (Cons v vs)
  have "emits 0 ((xs @ [0x2e]) @ decimal (unat v))
      (op_bind (op_bind m (\<lambda>_. CBB_add_u8 0 0x2e)) (\<lambda>_. add_decimal 0 v))"
    by (rule emits_bind [OF emits_bind [OF Cons.prems u8_writer.writes] emits_decimal]) simp
  from Cons.IH [OF this] show ?case by (simp add: op_bind_assoc)
qed simp

lemma dotted_concat: "dotted (v # vs) = decimal (unat v) @ concat (map (\<lambda>v. 0x2e # decimal (unat v)) vs)"
  by (induction vs arbitrary: v) simp_all

lemma emits_first_components:
  "emits 0 (dotted [oid_first v, oid_second v]) (oid_first_components v)"
proof (cases "v \<ge> 80")
  case True
  have "decimal 2 = [0x32]" by (subst decimal.simps) (simp add: digit_char_def)
  then show ?thesis
    using True emits_bind [OF bytes_writer.writes [of "[0x32, 0x2e]" 0] emits_decimal [of 0 "v - 80"]]
    by (simp add: oid_first_components_def oid_first_def oid_second_def size_mod_def)
next
  case False
  have "emits 0 (decimal (unat (v div 40)) @ [0x2e] @ decimal (unat (v mod 40)))
    (op_bind (add_decimal 0 (v div 40)) (\<lambda>_. op_bind (CBB_add_u8 0 0x2e) (\<lambda>_. add_decimal 0 (v mod 40))))"
    by (rule emits_bind [OF emits_decimal emits_bind [OF u8_writer.writes emits_decimal]]) simp
  then show ?thesis using False by (simp add: oid_first_components_def oid_first_def oid_second_def)
qed

text \<open>When memory is there: the text with its terminator.\<close>

definition heap_total :: "(nat \<Rightarrow> heap) \<Rightarrow> bool" where
  "heap_total h \<longleftrightarrow> (\<forall>i. heap_ok (h i) \<and> (\<forall>n < size_mod. h i n \<noteq> None))"

lemma CBB_init_spec:
  assumes "heap_total h" "cap < 2 ^ 62"
  obtains c where "CBB_init cap h = (Some (), c)" "cbb_wf c" "cbb_children c = []" "cbb_data c = []"
    "cbb_len c = 0" "\<And>n. n < 2 ^ 62 \<Longrightarrow> can_hold c n" "cbb_can_resize c"
proof -
  have s: "size_add cap OPENSSL_MALLOC_PREFIX = cap + 8" "cap + 8 < size_mod"
    using assms(2) by (simp_all add: size_add_def OPENSSL_MALLOC_PREFIX_def size_mod_def)
  then obtain y where y: "h 0 (cap + 8) = Some y" using assms(1) by (auto simp: heap_total_def)
  define b where "b = drop OPENSSL_MALLOC_PREFIX y"
  have b: "OPENSSL_malloc (h 0) cap = Some b" using s y by (simp add: OPENSSL_malloc_def b_def)
  moreover have "length b = cap"
    using OPENSSL_malloc_length [OF _ b] assms(1) s by (simp add: heap_total_def)
  ultimately have b: "OPENSSL_malloc (h 0) cap = Some b" "length b = cap" by simp_all
  show ?thesis
    by (rule that [of "cbb_init b cap True ((CBB_zero h)\<lparr>cbb_allocs := 1\<rparr>)"])
      (use b s assms(1) in \<open>simp_all add: CBB_init_def cbb_init_def CBB_zero_def cbb_wf_def cbb_data_def can_hold_def
         heap_total_def Let_def\<close>)
qed

lemma oid_to_text_spec:
  assumes "heap_total h" "length (oid_text v vs) < 2 ^ 61"
  obtains buf where "CBS_asn1_oid_to_text h (oid_contents v vs) = Some buf"
    "take (length (oid_text v vs) + 1) buf = oid_text v vs @ [0]"
proof -
  let ?tail = "concat (map (\<lambda>v. base128 (unat v)) vs)"
  let ?m = "op_bind (oid_first_components v) (\<lambda>_. op_bind (oid_to_text_loop ?tail) (\<lambda>_. CBB_add_u8 0 0))"
  have e: "emits 0 ((dotted [oid_first v, oid_second v] @ concat (map (\<lambda>v. 0x2e # decimal (unat v)) vs)) @ [0]) ?m"
    using emits_bind [OF emits_dotted_tail [OF emits_first_components, of v vs] u8_writer.writes [where x = 0 and d = 0]]
    by (simp add: oid_to_text_loop_eq op_bind_assoc)
  have t: "dotted [oid_first v, oid_second v] @ concat (map (\<lambda>v. 0x2e # decimal (unat v)) vs) = oid_text v vs"
    unfolding oid_text_def dotted_concat by simp
  have m: "emits 0 (oid_text v vs @ [0]) ?m" using e unfolding t .
  obtain c where c: "CBB_init 32 h = (Some (), c)" "cbb_wf c" "cbb_children c = []" "cbb_data c = []"
    "cbb_len c = 0" "\<And>n. n < 2 ^ 62 \<Longrightarrow> can_hold c n" "cbb_can_resize c"
    by (rule CBB_init_spec [OF assms(1), of 32]) (simp, blast)
  obtain r c1 where r: "?m c = (r, c1)" by fastforce
  note p = emitsD [OF m c(2) r]
  have "can_hold c (length (oid_text v vs @ [0]))" using assms(2) by (intro c(6)) simp
  then have r1: "r = Some ()" using p c(3,4) by (auto simp: write_post_def attached_def)
  then have c1: "cbb_wf c1" "cbb_children c1 = []" "cbb_data c1 = oid_text v vs @ [0]" "\<not> cbb_error c1"
    using p c(3,4) by (auto simp: write_post_def)
  have "CBB_finish 0 True c1 = (Some (cbb_buf c1, cbb_len c1), c1\<lparr>cbb_buf := []\<rparr>)"
    using c1(2,4) by (simp add: CBB_finish_def op_simps CBB_flush.simps attached_def)
  then have "op_bind (oid_first_components v) (\<lambda>_. op_bind (oid_to_text_loop ?tail) (\<lambda>_.
      op_bind (CBB_add_u8 0 0) (\<lambda>_. CBB_finish 0 True))) c = (Some (cbb_buf c1, cbb_len c1), c1\<lparr>cbb_buf := []\<rparr>)"
    using r r1 op_bind_Some [of ?m c "()" c1 "\<lambda>_. CBB_finish 0 True"] by (simp add: op_bind_assoc)
  moreover have "parse_base128_integer (oid_contents v vs) = (Some v, ?tail)"
    using base128_codec.get_put [of v ?tail] by (simp add: oid_contents_def)
  ultimately have "CBS_asn1_oid_to_text h (oid_contents v vs) = Some (cbb_buf c1)"
    using c(1) by (simp add: CBS_asn1_oid_to_text_def)
  moreover have "cbb_len c1 = length (oid_text v vs) + 1"
    using c1(3) length_cbb_data [OF c1(1)] by simp
  ultimately show ?thesis using that c1(3) by (simp add: cbb_data_def)
qed


section \<open>SET OF\<close>

definition set_of_le :: "bytes \<Rightarrow> bytes \<Rightarrow> bool" where
  "set_of_le a b \<longleftrightarrow> compare_set_of_element a b \<le> 0"

lemma memcmp_prefix:
  "compare_set_of_element (x # a) (y # b) = (if x = y then compare_set_of_element a b else if x < y then -1 else 1)"
  by (auto simp: compare_set_of_element_def Let_def)

lemma compare_Nil:
  "compare_set_of_element [] b = (if b = [] then 0 else -1)"
  "a \<noteq> [] \<Longrightarrow> compare_set_of_element a [] = 1"
  by (auto simp: compare_set_of_element_def Let_def)

text \<open>The comparison is the lexicographic order of byte strings.\<close>

lemma set_of_le_total: "set_of_le a b \<or> set_of_le b a"
proof (induction a arbitrary: b)
  case (Cons x a)
  then show ?case by (cases b) (auto simp: set_of_le_def memcmp_prefix compare_Nil)
qed (simp add: set_of_le_def compare_Nil)

lemma set_of_le_antisym: "set_of_le a b \<Longrightarrow> set_of_le b a \<Longrightarrow> a = b"
proof (induction a arbitrary: b)
  case (Cons x a)
  then show ?case by (cases b) (auto simp: set_of_le_def memcmp_prefix compare_Nil split: if_splits)
qed (simp add: set_of_le_def compare_Nil split: if_splits)

lemma set_of_le_trans: "set_of_le a b \<Longrightarrow> set_of_le b c \<Longrightarrow> set_of_le a c"
proof (induction a arbitrary: b c)
  case (Cons x a)
  then show ?case
    by (cases b; cases c) (auto simp: set_of_le_def memcmp_prefix compare_Nil split: if_splits)
qed (simp add: set_of_le_def compare_Nil)

lemma set_qsort_insert [simp]: "set (qsort_insert cmp x ys) = insert x (set ys)"
  by (induction ys) auto

lemma mset_qsort_insert [simp]: "mset (qsort_insert cmp x ys) = add_mset x (mset ys)"
  by (induction ys) auto

lemma mset_qsort: "mset (qsort cmp xs) = mset xs"
  by (induction xs) (simp_all add: qsort_def)

lemma sorted_qsort_insert:
  "sorted_wrt set_of_le ys \<Longrightarrow> sorted_wrt set_of_le (qsort_insert compare_set_of_element x ys)"
proof (induction ys)
  case (Cons y ys)
  show ?case
  proof (cases "set_of_le x y")
    case True
    then show ?thesis using Cons.prems set_of_le_trans [OF True] by (auto simp: set_of_le_def)
  next
    case False
    then have "set_of_le y x" using set_of_le_total by blast
    then show ?thesis using Cons False by (auto simp: set_of_le_def)
  qed
qed simp

lemma sorted_qsort: "sorted_wrt set_of_le (qsort compare_set_of_element xs)"
  by (induction xs) (simp_all add: qsort_def sorted_qsort_insert)

text \<open>The children that the loops find in the concatenation of DER elements.\<close>

definition is_der :: "bytes \<Rightarrow> bool" where
  "is_der x \<longleftrightarrow> (\<exists>tag c. valid_asn1_tag tag \<and> length c < 2 ^ 32 \<and> x = der_element tag c)"

lemma is_der_get:
  assumes "is_der x"
  obtains e where "CBS_get_any_asn1_element (x @ rest) = (Some e, rest)" "element e = x"
proof -
  obtain tag c where "valid_asn1_tag tag" "length c < 2 ^ 32" "x = der_element tag c"
    using assms unfolding is_der_def by blast
  then show ?thesis using der_element_get [of tag c rest] that [of "der_result tag c"] by simp
qed

lemma is_der_nonempty: "is_der x \<Longrightarrow> x \<noteq> []"
  using length_asn1_tag_bytes(2) by (auto simp: is_der_def der_element_def der_header_def)

lemma ex_list: "(\<exists>xs. P xs) \<longleftrightarrow> P [] \<or> (\<exists>x ys. P (x # ys))"
  by (metis list.exhaust)

lemma count_children_iff:
  "count_children cbs k = Some n \<longleftrightarrow> (\<exists>xs. list_all is_der xs \<and> cbs = concat xs \<and> n = k + length xs)"
proof (induction cbs k arbitrary: n rule: count_children.induct)
  case (1 cbs k)
  show ?case
  proof (cases "cbs = []")
    case True
    have "[] = concat xs \<longleftrightarrow> xs = []" if "list_all is_der xs" for xs
      using that is_der_nonempty by (cases xs) auto
    then have "(\<exists>xs. list_all is_der xs \<and> [] = concat xs \<and> n = k + length xs) \<longleftrightarrow> n = k"
      by (subst ex_list) (auto dest: is_der_nonempty)
    moreover have "count_children [] k = Some k" by (subst count_children.simps) simp
    ultimately show ?thesis using True by auto
  next
    case False
    then have pos: "length cbs \<noteq> 0" by simp
    show ?thesis
    proof (cases "CBS_get_any_asn1_element cbs")
      case (Pair r rest)
      have *: "(\<exists>xs. list_all is_der xs \<and> cbs = concat xs \<and> n = k + length xs) \<longleftrightarrow>
          (\<exists>x ys. is_der x \<and> list_all is_der ys \<and> cbs = x @ concat ys \<and> n = k + 1 + length ys)" for n
        by (subst ex_list) (use False in simp)
      show ?thesis
      proof (cases r)
        case None
        have "\<not> (is_der x \<and> cbs = x @ zs)" for x zs
          using Pair None by (metis is_der_get option.distinct(1) prod.inject)
        then show ?thesis unfolding * using pos Pair None by (subst count_children.simps) auto
      next
        case (Some e)
        then obtain x where x: "is_der x" "cbs = x @ rest"
          using Pair unfolding is_der_def by (auto simp: any_asn1_element_accepts_iff)
        have u: "x' = x \<and> zs = rest" if d: "is_der x'" "cbs = x' @ zs" for x' zs
        proof -
          obtain e' where "CBS_get_any_asn1_element (x' @ zs) = (Some e', zs)" "element e' = x'"
            by (rule is_der_get [OF d(1)])
          then show ?thesis using Pair d(2) x(2) by auto
        qed
        have "count_children cbs k = count_children rest (k + 1)"
          using pos Pair Some by (subst count_children.simps) simp
        then show ?thesis unfolding * using "1.IH" [OF pos Pair [symmetric] Some] x u by metis
      qed
    qed
  qed
qed

lemma repeat_elements:
  "list_all is_der xs \<Longrightarrow>
   \<exists>es. op_repeat (length xs) CBS_get_any_asn1_element (concat xs) = (Some es, []) \<and> map element es = xs"
proof (induction xs)
  case (Cons x xs)
  then obtain es where es: "op_repeat (length xs) CBS_get_any_asn1_element (concat xs) = (Some es, [])"
    "map element es = xs" by auto
  obtain e where e: "CBS_get_any_asn1_element (x @ concat xs) = (Some e, concat xs)" "element e = x"
    using Cons.prems by (auto intro: is_der_get [of x "concat xs"])
  show ?case by (intro exI [of _ "e # es"]) (simp add: op_simps e es)
qed (simp add: op_simps)

lemma write_children_memcpy:
  "off + length (concat xs) \<le> length b \<Longrightarrow> write_children off xs b = memcpy_at off (concat xs) b"
proof (induction xs arbitrary: off b)
  case (Cons x xs)
  then have "write_children off (x # xs) b = memcpy_at (off + length x) (concat xs) (memcpy_at off x b)"
    by (simp add: length_memcpy_at)
  also have "\<dots> = memcpy_at off (x @ concat xs) b" using Cons.prems by (simp add: memcpy_at_def add.commute add.left_commute)
  finally show ?case by simp
qed simp


lemma sorted_unique:
  "sorted_wrt set_of_le xs \<Longrightarrow> sorted_wrt set_of_le ys \<Longrightarrow> mset xs = mset ys \<Longrightarrow> xs = ys"
proof (induction xs arbitrary: ys)
  case (Cons x xs)
  then obtain y zs where ys: "ys = y # zs" by (cases ys) auto
  have "set_of_le x y"
  proof (cases "x = y")
    case True
    then show ?thesis using set_of_le_total [of x x] by simp
  next
    case False
    have "y \<in> set (x # xs)" using Cons.prems(3) ys by (metis list.set_intros(1) set_mset_mset)
    then show ?thesis using Cons.prems(1) False by auto
  qed
  moreover have "set_of_le y x"
  proof (cases "x = y")
    case True
    then show ?thesis using set_of_le_total [of x x] by simp
  next
    case False
    have "x \<in> set (y # zs)" using Cons.prems(3) ys by (metis list.set_intros(1) set_mset_mset)
    then show ?thesis using Cons.prems(2) False ys by auto
  qed
  ultimately have "x = y" by (rule set_of_le_antisym)
  then show ?case using Cons ys by simp
qed simp

text \<open>
  The order that X.690, 11.6, prescribes, said without the comparison of the code: of two encodings the
  shorter one is padded with zero octets at its end, and then they are compared as numbers, the first
  octet being the most significant one.
\<close>

definition padded :: "nat \<Rightarrow> bytes \<Rightarrow> bytes" where
  "padded k x = x @ replicate (k - length x) 0"

definition x690_le :: "bytes \<Rightarrow> bytes \<Rightarrow> bool" where
  "x690_le a b \<longleftrightarrow> (let k = max (length a) (length b) in be_nat (padded k a) \<le> be_nat (padded k b))"

lemma length_padded [simp]: "length x \<le> k \<Longrightarrow> length (padded k x) = k"
  by (simp add: padded_def)

lemma be_nat_zeros [simp]: "be_nat (replicate k 0) = 0"
  by (induction k) simp_all

lemma set_of_le_padded:
  "set_of_le a b \<Longrightarrow> length a \<le> k \<Longrightarrow> length b \<le> k \<Longrightarrow> be_nat (padded k a) \<le> be_nat (padded k b)"
proof (induction a arbitrary: b k)
  case Nil
  then show ?case by (simp add: padded_def)
next
  case (Cons x a)
  then obtain y b' where b: "b = y # b'" by (cases b) (simp_all add: set_of_le_def compare_Nil)
  obtain k' where k: "k = Suc k'" using Cons.prems(2) by (cases k) simp_all
  have l: "length a \<le> k'" "length b' \<le> k'" using Cons.prems k b by simp_all
  have p: "padded k (x # a) = x # padded k' a" "padded k b = y # padded k' b'" using k b by (simp_all add: padded_def)
  show ?case
  proof (cases "x = y")
    case True
    then have "set_of_le a b'" using Cons.prems(1) b by (simp add: set_of_le_def memcmp_prefix)
    then show ?thesis using Cons.IH [OF _ l] True p l by simp
  next
    case False
    then have "unat x + 1 \<le> unat y" using Cons.prems(1) b by (auto simp: set_of_le_def memcmp_prefix word_less_nat_alt split: if_splits)
    then have "(unat x + 1) * 256 ^ k' \<le> unat y * 256 ^ k'" by (rule mult_le_mono1)
    moreover have "be_nat (padded k' a) < 256 ^ k'" using be_nat_less [of "padded k' a"] l by simp
    ultimately show ?thesis using p l by simp
  qed
qed

text \<open>No DER element is the beginning of another one.\<close>

lemma is_der_prefix: "is_der a \<Longrightarrow> is_der b \<Longrightarrow> b = a @ rest \<Longrightarrow> b = a"
  by (metis append_Nil2 is_der_get prod.inject)

lemma x690_antisym:
  assumes "is_der a" "is_der b" "x690_le a b" "x690_le b a"
  shows "a = b"
proof -
  let ?k = "max (length a) (length b)"
  have "be_nat (padded ?k a) = be_nat (padded ?k b)" using assms(3,4) by (simp add: x690_le_def Let_def max.commute)
  then have eq: "padded ?k a = padded ?k b"
    using nat_be_be_nat [of "padded ?k a"] nat_be_be_nat [of "padded ?k b"] by simp
  show ?thesis
  proof (cases "length a \<le> length b")
    case True
    then have "b = a @ replicate (length b - length a) 0" using eq by (simp add: padded_def)
    then show ?thesis using is_der_prefix [OF assms(1,2)] by metis
  next
    case False
    then have "a = b @ replicate (length a - length b) 0" using eq by (simp add: padded_def)
    then show ?thesis using is_der_prefix [OF assms(2,1)] by metis
  qed
qed

lemma x690_le_iff: "is_der a \<Longrightarrow> is_der b \<Longrightarrow> x690_le a b \<longleftrightarrow> set_of_le a b"
  using set_of_le_padded [of a b "max (length a) (length b)"] set_of_le_padded [of b a "max (length a) (length b)"]
    x690_antisym [of a b] set_of_le_total [of a b]
  by (auto simp: x690_le_def Let_def max.commute)

lemma sorted_x690: "list_all is_der xs \<Longrightarrow> sorted_wrt x690_le xs \<longleftrightarrow> sorted_wrt set_of_le xs"
  by (induction xs) (auto simp: list_all_iff x690_le_iff)

text \<open>The one list of the elements of \<open>xs\<close> in that order.\<close>

lemma qsort_x690:
  assumes "list_all is_der xs"
  shows "sorted_wrt x690_le (qsort compare_set_of_element xs)"
    and "mset zs = mset xs \<Longrightarrow> sorted_wrt x690_le zs \<Longrightarrow> zs = qsort compare_set_of_element xs"
proof -
  have der: "list_all is_der ys" if "mset ys = mset xs" for ys
    using assms that by (metis list_all_iff set_mset_mset)
  show "sorted_wrt x690_le (qsort compare_set_of_element xs)"
    using sorted_x690 [OF der [OF mset_qsort]] sorted_qsort by blast
  show "zs = qsort compare_set_of_element xs" if "mset zs = mset xs" "sorted_wrt x690_le zs"
    by (rule sorted_unique) (use that sorted_x690 [OF der [OF that(1)]] in \<open>simp_all add: sorted_qsort mset_qsort\<close>)
qed

lemma qsort_mset_set: "set (qsort cmp xs) = set xs"
  using mset_qsort [of cmp xs] by (metis set_mset_mset)

lemma length_concat_qsort: "length (concat (qsort cmp xs)) = length (concat xs)"
proof -
  have "sum_list (map length (qsort cmp xs)) = sum_list (map length xs)"
    using mset_qsort [of cmp xs] by (metis mset_map sum_mset_sum_list)
  then show ?thesis by (simp add: length_concat)
qed

lemma is_der_length: "is_der x \<Longrightarrow> 1 \<le> length x"
  using is_der_nonempty by (cases x) auto

lemma length_le_concat: "list_all is_der xs \<Longrightarrow> length xs \<le> length (concat xs)"
  by (induction xs) (auto dest!: is_der_length)

lemma heap_total_malloc:
  assumes "heap_total h" "n < 2 ^ 62"
  obtains b where "OPENSSL_malloc (h i) n = Some b" "length b = n"
proof -
  have s: "size_add n OPENSSL_MALLOC_PREFIX = n + 8" "n + 8 < size_mod"
    using assms(2) by (simp_all add: size_add_def OPENSSL_MALLOC_PREFIX_def size_mod_def)
  then obtain y where y: "h i (n + 8) = Some y" using assms(1) by (auto simp: heap_total_def)
  have b: "OPENSSL_malloc (h i) n = Some (drop OPENSSL_MALLOC_PREFIX y)" using s y by (simp add: OPENSSL_malloc_def)
  then show ?thesis using that OPENSSL_malloc_length [OF _ b] assms(1) s by (simp add: heap_total_def)
qed

lemma sorted_one: "length xs < 2 \<Longrightarrow> qsort cmp xs = xs"
  by (cases xs rule: remdups_adj.cases) (simp_all add: qsort_def)

lemma flush_set_of_spec:
  assumes "cbb_wf c" "length (cbb_children c) = d" "\<not> cbb_error c" "heap_total (cbb_heap c)"
    "drop (CBB_data d c) (cbb_data c) = concat xs" "list_all is_der xs" "length (concat xs) < 2 ^ 56"
    "CBB_data d c \<le> cbb_len c"
  obtains c' where "CBB_flush_asn1_set_of d c = (Some (), c')" "cbb_wf c'" "cbb_children c' = cbb_children c"
    "cbb_data c' = take (CBB_data d c) (cbb_data c) @ concat (qsort compare_set_of_element xs)"
proof -
  let ?st = "CBB_data d c" and ?n = "length (concat xs)" and ?s = "qsort compare_set_of_element xs"
  have flush: "CBB_flush d c = (Some (), c)"
    using assms(2,3) by (simp add: CBB_flush.simps [of d c] attached_def)
  have bl: "CBB_len d c = cbb_len c - ?st" by (simp add: CBB_len_def CBB_data_def)
  have n: "?n = cbb_len c - ?st"
    using arg_cong [OF assms(5), of length] length_cbb_data [OF assms(1)] by (metis length_drop)
  have ct: "take (CBB_len d c) (drop ?st (cbb_buf c)) = concat xs"
    using assms(5) by (simp add: cbb_data_def drop_take bl)
  have cc: "count_children (concat xs) 0 = Some (length xs)"
    using assms(6) by (auto simp: count_children_iff)
  show ?thesis
  proof (cases "length xs < 2")
    case True
    have "CBB_flush_asn1_set_of d c = (Some (), c)"
      using flush ct cc True by (simp add: CBB_flush_asn1_set_of_def Let_def)
    moreover have "cbb_data c = take ?st (cbb_data c) @ concat ?s"
      using assms(5) sorted_one [OF True, of compare_set_of_element] by (metis append_take_drop_id)
    ultimately show ?thesis using that assms(1) by blast
  next
    case False
    have "?n < 2 ^ 62" using assms(7) by simp
    then obtain b where b: "OPENSSL_malloc (cbb_heap c (cbb_allocs c)) ?n = Some b" "length b = ?n"
      by (rule heap_total_malloc [OF assms(4)])
    have "concat xs \<noteq> []" using False assms(6) is_der_nonempty by (cases xs) auto
    then have dup: "OPENSSL_memdup (cbb_heap c (cbb_allocs c)) (concat xs) = Some (concat xs)"
      using b by (simp add: OPENSSL_memdup_def)
    have k: "length xs < 2 ^ 56" using length_le_concat [OF assms(6)] assms(7) by linarith
    then have "length xs * sizeof_CBS < 2 ^ 62" by (simp add: sizeof_CBS_def)
    then obtain ch where "OPENSSL_malloc (cbb_heap c (cbb_allocs c + 1)) (length xs * sizeof_CBS) = Some ch"
      by (rule heap_total_malloc [OF assms(4)])
    then have cal: "OPENSSL_calloc (cbb_heap c (cbb_allocs c + 1)) (length xs) sizeof_CBS \<noteq> None"
      using k by (simp add: OPENSSL_calloc_def OPENSSL_zalloc_def sizeof_CBS_def size_mod_def)
    obtain es where es: "op_repeat (length xs) CBS_get_any_asn1_element (concat xs) = (Some es, [])"
      "map element es = xs" using repeat_elements [OF assms(6)] by blast
    let ?c = "c\<lparr>cbb_allocs := cbb_allocs c + 2\<rparr>"
    have tk: "take (CBB_len d c) (concat xs) = concat xs" using n bl by simp
    have "CBB_data d ?c = ?st" by (simp add: CBB_data_def)
    then have res: "CBB_flush_asn1_set_of d c = (Some (), ?c\<lparr>cbb_buf := write_children ?st ?s (cbb_buf c)\<rparr>)"
      using flush ct cc False dup cal es tk by (simp add: CBB_flush_asn1_set_of_def Let_def)
    have len: "?st + length (concat ?s) = cbb_len c" "cbb_len c \<le> length (cbb_buf c)"
      using n assms(1,8) by (simp_all add: length_concat_qsort cbb_wf_def)
    then have w: "write_children ?st ?s (cbb_buf c) = memcpy_at ?st (concat ?s) (cbb_buf c)"
      by (intro write_children_memcpy) simp
    have "take (cbb_len c) (memcpy_at ?st (concat ?s) (cbb_buf c)) = take ?st (cbb_buf c) @ concat ?s"
      using take_memcpy_at [of ?st "concat ?s" "cbb_buf c"] len by simp
    moreover have "take ?st (cbb_data c) = take ?st (cbb_buf c)" using assms(8) by (simp add: cbb_data_def min_def)
    moreover have "length (memcpy_at ?st (concat ?s) (cbb_buf c)) = length (cbb_buf c)"
      using len by (intro length_memcpy_at) simp
    ultimately show ?thesis
      using assms(1) by (intro that [OF res]) (simp_all add: w cbb_wf_def cbb_data_def)
  qed
qed

end
