(* ===== verification/Build.thy ===== *)
theory Build
  imports Oid
begin

text \<open>
  Whole messages. A tree of raw bytes, ASN.1 elements and length-prefixed blocks is written by nested
  calls of the builder, from \<open>CBB_init\<close> to \<open>CBB_finish\<close>, and comes out as its rendering.
\<close>

datatype msg = Raw bytes | Asn1 u32 "msg list" | Prefixed nat "msg list"

fun render :: "msg \<Rightarrow> bytes" where
  "render (Raw xs) = xs"
| "render (Asn1 tag ms) = der_element tag (concat (map render ms))"
| "render (Prefixed n ms) = nat_be n (length (concat (map render ms))) @ concat (map render ms)"

fun msg_fits :: "msg \<Rightarrow> bool" where
  "msg_fits (Raw xs) \<longleftrightarrow> length xs < size_mod"
| "msg_fits (Asn1 tag ms) \<longleftrightarrow> list_all msg_fits ms \<and> length (concat (map render ms)) \<le> 0xfffffffe"
| "msg_fits (Prefixed n ms) \<longleftrightarrow>
     list_all msg_fits ms \<and> n < size_mod \<and> length (concat (map render ms)) < 256 ^ n"

text \<open>The calls a program makes for the message, on the \<open>CBB\<close> at depth \<open>d\<close>.\<close>

fun build :: "nat \<Rightarrow> msg \<Rightarrow> (cbb, unit) op" and build_list :: "nat \<Rightarrow> msg list \<Rightarrow> (cbb, unit) op" where
  "build d (Raw xs) = CBB_add_bytes d xs"
| "build d (Asn1 tag ms) = cbb_nested d (CBB_add_asn1 d tag) (\<lambda>d. build_list d ms)"
| "build d (Prefixed n ms) = cbb_nested d (cbb_add_length_prefixed d n) (\<lambda>d. build_list d ms)"
| "build_list d [] = CBB_flush d"
| "build_list d (m # ms) = op_bind (build d m) (\<lambda>_. build_list d ms)"

lemma emits_build:
  "msg_fits m \<Longrightarrow> emits d (render m) (build d m)"
  "list_all msg_fits ms \<Longrightarrow> emits d (concat (map render ms)) (build_list d ms)"
proof (induction d m and d ms rule: build_build_list.induct)
  case (1 d xs)
  then show ?case using bytes_writer.writes [of xs d] by simp
next
  case (2 d tag ms)
  then show ?case by (auto intro!: emits_asn1)
next
  case (3 d n ms)
  then show ?case by (auto intro!: emits_length_prefixed)
next
  case (4 d)
  then show ?case by (simp add: emits_flush)
next
  case (5 d m ms)
  then show ?case using emits_bind [of d "render m" "build d m" "concat (map render ms)"] by simp
qed

lemma finish_emits:
  assumes "emits 0 xs m" "heap_total h" "cap < 2 ^ 62" "length xs < 2 ^ 62"
  obtains c c' buf where "CBB_init cap h = (Some (), c)"
    "op_bind m (\<lambda>_. CBB_finish 0 True) c = (Some (buf, length xs), c')" "take (length xs) buf = xs"
proof -
  obtain c where c: "CBB_init cap h = (Some (), c)" "cbb_wf c" "cbb_children c = []" "cbb_data c = []"
    and room: "\<And>n. n < 2 ^ 62 \<Longrightarrow> can_hold c n"
    using CBB_init_spec [OF assms(2,3)] by metis
  obtain r c1 where r: "m c = (r, c1)" by fastforce
  note p = emitsD [OF assms(1) c(2) r]
  have "r \<noteq> None" using p c room [OF assms(4)] by (auto simp: write_post_def attached_def)
  then obtain u where u: "r = Some u" by auto
  have c1: "cbb_wf c1" "cbb_children c1 = []" "cbb_data c1 = xs" "\<not> cbb_error c1"
    using p u c by (auto simp: write_post_def)
  have len: "cbb_len c1 = length xs" using c1(1,3) length_cbb_data by metis
  have "CBB_flush 0 c1 = (Some (), c1)"
    using c1 by (simp add: CBB_flush.simps [of 0 c1] attached_def)
  then have "op_bind m (\<lambda>_. CBB_finish 0 True) c = (Some (cbb_buf c1, length xs), c1\<lparr>cbb_buf := []\<rparr>)"
    using r u by (simp add: CBB_finish_def op_simps len)
  then show ?thesis using that [OF c(1)] c1(3) by (simp add: cbb_data_def len)
qed

lemma build_renders:
  assumes "msg_fits m" "heap_total h" "cap < 2 ^ 62" "length (render m) < 2 ^ 62"
  obtains c c' buf where "CBB_init cap h = (Some (), c)"
    "op_bind (build 0 m) (\<lambda>_. CBB_finish 0 True) c = (Some (buf, length (render m)), c')"
    "take (length (render m)) buf = render m"
  using finish_emits [OF emits_build(1) [OF assms(1)] assms(2-4)] by metis

end
