(* ===== verification/Ber.thy ===== *)
theory Ber
  imports Build
begin

text \<open>
  \<open>crypto/bytestring/ber.c\<close>: the conversion of BER, with indefinite lengths, lengths that are longer than
  necessary and strings in pieces, to DER; and \<open>crypto/bytestring/asn1_compat.c\<close>.

  The recursion of \<open>cbs_find_ber\<close> and \<open>cbs_convert_ber\<close> is a call of their loops after the test of the
  depth. The input that is left is the result of a conversion; where a failing call leaves its input
  is not modelled, since its caller fails too.
\<close>

section \<open>Tags\<close>

definition CBS_ASN1_UTF8STRING :: u32 where "CBS_ASN1_UTF8STRING = 0xc"
definition CBS_ASN1_NUMERICSTRING :: u32 where "CBS_ASN1_NUMERICSTRING = 0x12"
definition CBS_ASN1_PRINTABLESTRING :: u32 where "CBS_ASN1_PRINTABLESTRING = 0x13"
definition CBS_ASN1_T61STRING :: u32 where "CBS_ASN1_T61STRING = 0x14"
definition CBS_ASN1_VIDEOTEXSTRING :: u32 where "CBS_ASN1_VIDEOTEXSTRING = 0x15"
definition CBS_ASN1_IA5STRING :: u32 where "CBS_ASN1_IA5STRING = 0x16"
definition CBS_ASN1_GRAPHICSTRING :: u32 where "CBS_ASN1_GRAPHICSTRING = 0x19"
definition CBS_ASN1_VISIBLESTRING :: u32 where "CBS_ASN1_VISIBLESTRING = 0x1a"
definition CBS_ASN1_GENERALSTRING :: u32 where "CBS_ASN1_GENERALSTRING = 0x1b"
definition CBS_ASN1_UNIVERSALSTRING :: u32 where "CBS_ASN1_UNIVERSALSTRING = 0x1c"
definition CBS_ASN1_BMPSTRING :: u32 where "CBS_ASN1_BMPSTRING = 0x1e"

definition kMaxDepth :: nat where "kMaxDepth = 128"

definition is_string_type :: "u32 \<Rightarrow> bool" where
  "is_string_type tag \<longleftrightarrow> tag AND NOT CBS_ASN1_CONSTRUCTED \<in>
     {CBS_ASN1_OCTETSTRING, CBS_ASN1_UTF8STRING, CBS_ASN1_NUMERICSTRING, CBS_ASN1_PRINTABLESTRING,
      CBS_ASN1_T61STRING, CBS_ASN1_VIDEOTEXSTRING, CBS_ASN1_IA5STRING, CBS_ASN1_GRAPHICSTRING,
      CBS_ASN1_VISIBLESTRING, CBS_ASN1_GENERALSTRING, CBS_ASN1_UNIVERSALSTRING, CBS_ASN1_BMPSTRING}"

section \<open>An element of the input\<close>

text \<open>The lengths that are accepted: the short form, or one to four bytes, not necessarily the fewest.\<close>

definition ber_length :: "nat \<Rightarrow> bytes \<Rightarrow> bool" where
  "ber_length n l \<longleftrightarrow> (n < 128 \<and> l = [word_of_nat n])
    \<or> (\<exists>ls. 1 \<le> length ls \<and> length ls \<le> 4 \<and> be_nat ls = n \<and> l = word_of_nat (128 + length ls) # ls)"

definition ber_definite :: "u32 \<Rightarrow> bytes \<Rightarrow> bytes \<Rightarrow> asn1_element" where
  "ber_definite tag l c = \<lparr>element = asn1_tag_bytes tag @ l @ c, element_tag = tag,
     header_len = length (asn1_tag_bytes tag) + length l, ber_found = (l \<noteq> der_length (length c)), indefinite = False\<rparr>"

definition ber_indefinite :: "u32 \<Rightarrow> asn1_element" where
  "ber_indefinite tag = \<lparr>element = asn1_tag_bytes tag @ [0x80], element_tag = tag,
     header_len = length (asn1_tag_bytes tag) + 1, ber_found = True, indefinite = True\<rparr>"

lemma der_length_long:
  assumes "1 \<le> length ls" "length ls \<le> 4"
  shows "word_of_nat (128 + length ls) # ls = der_length (be_nat ls) \<longleftrightarrow> \<not> (be_nat ls < 128 \<or> be_nat ls < 256 ^ (length ls - 1))"
proof
  have small: "be_nat ls < 256 ^ length ls" by (rule be_nat_less)
  show "word_of_nat (128 + length ls) # ls = der_length (be_nat ls)"
    if n: "\<not> (be_nat ls < 128 \<or> be_nat ls < 256 ^ (length ls - 1))"
  proof -
    have "der_len_len (be_nat ls) = length ls"
      using der_len_len_unique [OF assms _ _ small] n by (simp add: not_less)
    then show ?thesis using n nat_be_be_nat [of ls] by (simp add: der_length_def)
  qed
  assume eq: "word_of_nat (128 + length ls) # ls = der_length (be_nat ls)"
  have long: "\<not> be_nat ls \<le> 127"
    using eq assms(1) by (auto simp: der_length_def split: if_splits)
  then have "length ls = der_len_len (be_nat ls)" using arg_cong [OF eq, of length] by (simp add: der_length_def)
  moreover have "be_nat ls < 2 ^ 32"
    using order_less_le_trans [OF small power_increasing [of "length ls" 4 "256 :: nat"]] assms(2) by simp
  ultimately show "\<not> (be_nat ls < 128 \<or> be_nat ls < 256 ^ (length ls - 1))"
    using der_len_len_bounds [of "be_nat ls"] long by simp
qed

lemma get_ber_definite:
  assumes "valid_asn1_tag tag" "ber_length (length c) l"
  shows "CBS_get_any_ber_asn1_element (asn1_tag_bytes tag @ l @ c @ rest) = (Some (ber_definite tag l c), rest)"
  using assms(2) unfolding ber_length_def
proof
  assume l: "length c < 128 \<and> l = [word_of_nat (length c)]"
  let ?L = "word_of_nat (length c) :: u8"
  have "unat ?L = length c" unfolding unat_of_nat_byte using l by simp
  then show ?thesis
    using element_short [OF assms(1), of ?L True "c @ rest"] l
    by (simp add: CBS_get_any_ber_asn1_element_def asn1_finish_eq_Some ber_definite_def der_length_def)
next
  assume "\<exists>ls. 1 \<le> length ls \<and> length ls \<le> 4 \<and> be_nat ls = length c \<and> l = word_of_nat (128 + length ls) # ls"
  then obtain ls where ls: "1 \<le> length ls" "length ls \<le> 4" "be_nat ls = length c" "l = word_of_nat (128 + length ls) # ls"
    by blast
  have L: "unat (word_of_nat (128 + length ls) :: u8) = 128 + length ls" using ls(2) by (intro unat_len_byte) simp
  show ?thesis
    using element_long [OF assms(1) L ls(1,2), of True "c @ rest"] der_length_long [OF ls(1,2)] ls(3,4)
    by (simp add: CBS_get_any_ber_asn1_element_def Let_def asn1_finish_eq_Some ber_definite_def del: of_nat_add)
qed

lemma get_ber_indefinite:
  assumes "valid_asn1_tag tag" "tag AND CBS_ASN1_CONSTRUCTED \<noteq> 0"
  shows "CBS_get_any_ber_asn1_element (asn1_tag_bytes tag @ 0x80 # rest) = (Some (ber_indefinite tag), rest)"
  using assms
  by (simp add: CBS_get_any_ber_asn1_element_def cbs_get_any_asn1_element_def asn1_tag_codec.get_put op_simps
      Let_def asn1_finish_eq_Some ber_indefinite_def)

lemma get_ber_cases:
  assumes "CBS_get_any_ber_asn1_element bs = (Some e, rest)"
  obtains (definite) tag l c where "valid_asn1_tag tag" "ber_length (length c) l"
      "bs = asn1_tag_bytes tag @ l @ c @ rest" "e = ber_definite tag l c"
    | (indefinite) tag where "valid_asn1_tag tag" "tag AND CBS_ASN1_CONSTRUCTED \<noteq> 0"
      "bs = asn1_tag_bytes tag @ 0x80 # rest" "e = ber_indefinite tag"
proof -
  obtain tag cs where tag: "parse_asn1_tag bs = (Some tag, cs)"
    using assms by (auto simp: CBS_get_any_ber_asn1_element_def cbs_get_any_asn1_element_def
        split: prod.splits option.splits)
  note valid = asn1_tag_codec.put_get [OF tag, THEN conjunct1]
    and bs = asn1_tag_codec.put_get [OF tag, THEN conjunct2]
  obtain L ds where cs: "cs = L # ds"
    using assms tag by (cases cs) (auto simp: CBS_get_any_ber_asn1_element_def cbs_get_any_asn1_element_def op_simps)
  show ?thesis
  proof (cases "unat L < 128")
    case True
    then obtain out where out: "bs = out @ rest" "length out = unat L + (length (asn1_tag_bytes tag) + 1)"
      "e = \<lparr>element = out, element_tag = tag, header_len = length (asn1_tag_bytes tag) + 1,
            ber_found = False, indefinite = False\<rparr>"
      using assms element_short [OF valid True, of True ds] unfolding bs cs CBS_get_any_ber_asn1_element_def
      by (auto simp: asn1_finish_eq_Some)
    obtain c where o': "out = (asn1_tag_bytes tag @ [L]) @ c"
      by (rule split_prefix [OF out(1) _, of "asn1_tag_bytes tag @ [L]" ds]) (use out(2) bs cs in auto)
    then have lc: "length c = unat L" using out(2) by simp
    then have "L = word_of_nat (length c)" by simp
    then have "ber_length (length c) [L]" "der_length (length c) = [L]"
      using True lc by (simp_all add: ber_length_def der_length_def)
    then show ?thesis using definite [OF valid, of c "[L]"] out o' by (simp add: ber_definite_def)
  next
    case False
    define k where "k = unat L - 128"
    have L: "unat L = 128 + k" "L AND 0x80 \<noteq> 0" "unat (L AND 0x7f) = k"
      using False length_byte_cases [of L] num_bytes [of L] by (auto simp: k_def)
    show ?thesis
    proof (cases "tag AND CBS_ASN1_CONSTRUCTED \<noteq> 0 \<and> k = 0")
      case True
      then have "L = 0x80" using L(1) by (simp add: word_unat_eq_iff)
      then have "CBS_get_any_ber_asn1_element bs = (Some (ber_indefinite tag), ds)"
        using get_ber_indefinite [OF valid, of ds] True bs cs by simp
      then show ?thesis using assms indefinite [OF valid] True bs cs \<open>L = 0x80\<close> by simp
    next
      case False
      have k: "1 \<le> k" "k \<le> 4" and "\<exists>v ds'. cbs_get_u k ds = (Some v, ds')"
        using assms L False unfolding bs cs
        by (auto simp: CBS_get_any_ber_asn1_element_def cbs_get_any_asn1_element_def op_simps
            asn1_tag_codec.get_put valid split: if_splits option.splits prod.splits)
      then obtain ls ds' where ls: "ds = ls @ ds'" "length ls = k" by (auto simp: cbs_get_u_eq_Some)
      obtain out where out: "bs = out @ rest" "length out = be_nat ls + (length (asn1_tag_bytes tag) + 1 + k)"
        using assms element_long [OF valid, of L ls True ds'] L k ls
        unfolding bs cs CBS_get_any_ber_asn1_element_def by (auto simp: Let_def asn1_finish_eq_Some)
      obtain c where o': "out = (asn1_tag_bytes tag @ L # ls) @ c"
        by (rule split_prefix [OF out(1) _, of "asn1_tag_bytes tag @ L # ls" ds'])
          (use out(2) ls bs cs in auto)
      have lc: "length c = be_nat ls" using out(2) ls by (simp add: o')
      have "L = word_of_nat (128 + k)" using L(1) by (rule eq_word_of_natI)
      then have len: "ber_length (length c) (L # ls)" using k ls lc by (auto simp: ber_length_def)
      have b: "bs = asn1_tag_bytes tag @ (L # ls) @ c @ rest" using out o' by simp
      show ?thesis
        using definite [OF valid len b] get_ber_definite [OF valid len, of rest] assms unfolding b by simp
    qed
  qed
qed

text \<open>Every element takes bytes from the input.\<close>

lemma length_ber_length: "ber_length n l \<Longrightarrow> 1 \<le> length l \<and> length (der_length n) \<le> length l"
proof -
  assume l: "ber_length n l"
  have "der_len_len n \<le> length ls" if "n < 256 ^ length ls" "1 \<le> length ls" for ls :: bytes
  proof (rule ccontr)
    assume "\<not> der_len_len n \<le> length ls"
    then have "length ls \<le> der_len_len n - 1" by simp
    then have "(256 :: nat) ^ length ls \<le> 256 ^ (der_len_len n - 1)" by (rule power_increasing) simp
    moreover have "128 \<le> n \<Longrightarrow> 256 ^ (der_len_len n - 1) \<le> n" by (auto simp: der_len_len_def)
    moreover have "128 \<le> n" using \<open>\<not> der_len_len n \<le> length ls\<close> that(2) by (auto simp: der_len_len_def split: if_splits)
    ultimately show False using that(1) by linarith
  qed
  then show ?thesis using l be_nat_less by (auto simp: ber_length_def der_length_def)
qed

lemma ber_element_shrinks:
  assumes "CBS_get_any_ber_asn1_element bs = (Some e, rest)"
  shows "length rest < length bs"
    and "skip_header e s = (Some c, t) \<Longrightarrow> length c < length bs"
proof -
  have "length rest < length bs \<and> (skip_header e s = (Some c, t) \<longrightarrow> length c < length bs)"
    using assms
  proof (cases rule: get_ber_cases)
    case (definite tag l c')
    moreover have "skip_header (ber_definite tag l c') s = (Some c', s)"
      using CBS_skip_append [of "asn1_tag_bytes tag @ l" _ c'] by (simp add: skip_header_def ber_definite_def)
    ultimately show ?thesis using length_asn1_tag_bytes(2) [of tag] by auto
  next
    case (indefinite tag)
    moreover have "skip_header (ber_indefinite tag) s = (Some [], s)"
      using CBS_skip_append [of "asn1_tag_bytes tag @ [0x80]" _ "[]"] by (simp add: skip_header_def ber_indefinite_def)
    ultimately show ?thesis using length_asn1_tag_bytes(2) [of tag] by auto
  qed
  then show "length rest < length bs" "skip_header e s = (Some c, t) \<Longrightarrow> length c < length bs" by auto
qed

section \<open>Looking for BER\<close>

text \<open>The result is \<open>*ber_found\<close>.\<close>

function find_ber_loop :: "nat \<Rightarrow> cbs \<Rightarrow> bool option" where
  "find_ber_loop depth inp =
     (if length inp > 0 then
        (case CBS_get_any_ber_asn1_element inp of
           (None, _) \<Rightarrow> None
         | (Some e, rest) \<Rightarrow>
             if ber_found e then Some True
             else if element_tag e AND CBS_ASN1_CONSTRUCTED \<noteq> 0 then
               if is_string_type (element_tag e) then Some True
               else
                 (case skip_header e rest of
                    (None, _) \<Rightarrow> None
                  | (Some contents, _) \<Rightarrow>
                      (case (if depth + 1 > kMaxDepth then None else find_ber_loop (depth + 1) contents) of
                         None \<Rightarrow> None
                       | Some found \<Rightarrow> if found then Some True else find_ber_loop depth rest))
             else find_ber_loop depth rest)
      else Some False)"
  by auto
termination
  by (relation "measure (\<lambda>(depth, inp). length inp)") (auto dest: ber_element_shrinks [OF sym] sym)

declare find_ber_loop.simps [simp del]

definition cbs_find_ber :: "cbs \<Rightarrow> nat \<Rightarrow> bool option" where
  "cbs_find_ber orig_in depth = (if depth > kMaxDepth then None else find_ber_loop depth orig_in)"

section \<open>Converting\<close>

definition cbs_get_eoc :: "(cbs, unit) op" where
  "cbs_get_eoc cbs =
     (if length cbs \<ge> 2 \<and> cbs ! 0 = 0 \<and> cbs ! 1 = 0 then CBS_skip 2 cbs else (None, cbs))"

text \<open>Where the contents of an element go: the builder's depth, and the tag of the strings in it.\<close>

definition convert_open :: "nat \<Rightarrow> u32 \<Rightarrow> asn1_element \<Rightarrow> (cbb, nat \<times> u32) op" where
  "convert_open d string_tag e =
     (let tag = element_tag e
      in if string_tag \<noteq> 0 then
           if tag AND NOT CBS_ASN1_CONSTRUCTED \<noteq> string_tag then op_fail else op_return (d, string_tag)
         else
           let (out_tag, child_string_tag) =
             (if tag AND CBS_ASN1_CONSTRUCTED \<noteq> 0 \<and> is_string_type tag
              then (tag AND NOT CBS_ASN1_CONSTRUCTED, tag AND NOT CBS_ASN1_CONSTRUCTED)
              else (tag, string_tag))
           in op_bind (CBB_add_asn1 d out_tag) (\<lambda>_. op_return (Suc d, child_string_tag)))"

text \<open>The contents of an element, converted by \<open>convert\<close> when they are elements themselves. The result, as that
  of the loop, is the input that is left.\<close>

type_synonym converter = "nat \<Rightarrow> u32 \<Rightarrow> bool \<Rightarrow> nat \<Rightarrow> cbs \<Rightarrow> cbb \<Rightarrow> cbs option \<times> cbb"

definition convert_contents :: "converter \<Rightarrow> nat \<Rightarrow> u32 \<Rightarrow> nat \<Rightarrow> asn1_element \<Rightarrow> (cbs \<Rightarrow> cbb \<Rightarrow> cbs option \<times> cbb)" where
  "convert_contents convert child child_string_tag depth e rest out =
     (if indefinite e then
        if depth + 1 > kMaxDepth then (None, out)
        else convert child child_string_tag True (depth + 1) rest out
      else
        (case skip_header e rest of
           (None, _) \<Rightarrow> (None, out)
         | (Some contents, _) \<Rightarrow>
             if element_tag e AND CBS_ASN1_CONSTRUCTED \<noteq> 0 then
               if depth + 1 > kMaxDepth then (None, out)
               else
                 (case convert child child_string_tag False (depth + 1) contents out of
                    (None, out) \<Rightarrow> (None, out)
                  | (Some _, out) \<Rightarrow> (Some rest, out))
             else
               (case CBB_add_bytes child contents out of
                  (None, out) \<Rightarrow> (None, out)
                | (Some _, out) \<Rightarrow> (Some rest, out))))"

lemma convert_contents_cong [fundef_cong]:
  assumes "child = child'" "cst = cst'" "depth = depth'" "e = e'" "rest = rest'" "out = out'"
    and "indefinite e' \<Longrightarrow> convert child' cst' True (depth' + 1) rest' out' = convert' child' cst' True (depth' + 1) rest' out'"
    and "\<And>contents t. \<not> indefinite e' \<Longrightarrow> skip_header e' rest' = (Some contents, t) \<Longrightarrow>
      convert child' cst' False (depth' + 1) contents out' = convert' child' cst' False (depth' + 1) contents out'"
  shows "convert_contents convert child cst depth e rest out = convert_contents convert' child' cst' depth' e' rest' out'"
proof (cases "indefinite e'")
  case True
  then show ?thesis using assms by (simp add: convert_contents_def)
next
  case False
  obtain c t where "skip_header e' rest' = (c, t)" by fastforce
  then show ?thesis using assms False by (cases c) (simp_all add: convert_contents_def)
qed

function (domintros) convert_loop :: "nat \<Rightarrow> u32 \<Rightarrow> bool \<Rightarrow> nat \<Rightarrow> cbs \<Rightarrow> cbb \<Rightarrow> cbs option \<times> cbb" where
  "convert_loop d string_tag looking_for_eoc depth inp out =
     (if length inp > 0 then
        case (if looking_for_eoc then cbs_get_eoc inp else (None, inp)) of
          (Some _, rest) \<Rightarrow> (Some rest, out)
        | (None, _) \<Rightarrow>
            (case CBS_get_any_ber_asn1_element inp of
               (None, _) \<Rightarrow> (None, out)
             | (Some e, rest) \<Rightarrow>
                 (case convert_open d string_tag e out of
                    (None, out) \<Rightarrow> (None, out)
                  | (Some (child, child_string_tag), out) \<Rightarrow>
                      (case convert_contents convert_loop child child_string_tag depth e rest out of
                         (None, out) \<Rightarrow> (None, out)
                       | (Some rest, out) \<Rightarrow>
                           (case CBB_flush d out of
                              (None, out) \<Rightarrow> (None, out)
                            | (Some _, out) \<Rightarrow> convert_loop d string_tag looking_for_eoc depth rest out))))
      else if looking_for_eoc then (None, out) else (Some inp, out))"
  by pat_completeness auto

lemma cbs_get_eoc_shrinks: "cbs_get_eoc inp = (Some u, rest) \<Longrightarrow> length rest \<le> length inp"
  by (auto simp: cbs_get_eoc_def CBS_skip_def op_bind_eq_Some cbs_get_eq_Some op_simps split: if_splits)

text \<open>What is left of the input is a part of it; the recursion on it ends.\<close>

lemma convert_contents_left:
  assumes "convert_contents convert child cst depth e rest out = (Some r, out')"
    "indefinite e \<Longrightarrow> convert child cst True (depth + 1) rest out = (Some r, out') \<Longrightarrow> length r \<le> length rest"
  shows "length r \<le> length rest"
  using assms by (auto simp: convert_contents_def split: if_splits option.splits prod.splits)

lemma convert_loop_shrinks:
  assumes "convert_loop_dom (d, string_tag, looking_for_eoc, depth, inp, out)"
    "convert_loop d string_tag looking_for_eoc depth inp out = (Some rest, out')"
  shows "length rest \<le> length inp"
  using assms
proof (induction arbitrary: rest out' rule: convert_loop.pinduct)
  case (1 d string_tag looking_for_eoc depth inp out)
  show ?case
  proof (cases "\<exists>u r. (if looking_for_eoc then cbs_get_eoc inp else (None, inp)) = (Some u, r) \<or> length inp = 0")
    case True
    then show ?thesis
      using "1.prems" unfolding convert_loop.psimps [OF "1.hyps"]
      by (auto split: if_splits dest: cbs_get_eoc_shrinks)
  next
    case False
    then obtain r0 where start: "(if looking_for_eoc then cbs_get_eoc inp else (None, inp)) = (None, r0)" "0 < length inp"
      by (metis gr0I not_Some_eq surj_pair)
    obtain e r1 child cst o1 r2 o2 u o3 where step: "CBS_get_any_ber_asn1_element inp = (Some e, r1)"
      "convert_open d string_tag e out = (Some (child, cst), o1)"
      "convert_contents convert_loop child cst depth e r1 o1 = (Some r2, o2)"
      "CBB_flush d o2 = (Some u, o3)" "convert_loop d string_tag looking_for_eoc depth r2 o3 = (Some rest, out')"
      using "1.prems" unfolding convert_loop.psimps [OF "1.hyps"]
      using start(2) by (auto simp: start(1) split: option.splits prod.splits)
    have "length r2 \<le> length r1"
      using step(3)
    proof (rule convert_contents_left)
      assume "indefinite e" "convert_loop child cst True (depth + 1) r1 o1 = (Some r2, o2)"
      then show "length r2 \<le> length r1"
        by (rule "1.IH"(1) [OF start(2) start(1) [symmetric] refl step(1) [symmetric] refl step(2) [symmetric] refl refl])
    qed
    also have "length r1 < length inp" using step(1) by (rule ber_element_shrinks)
    finally have "length r2 < length inp" .
    moreover have "length rest \<le> length r2"
      using "1.IH"(3) [OF start(2) start(1) [symmetric] refl step(1) [symmetric] refl step(2) [symmetric] refl refl
          step(3) [symmetric] refl step(4) [symmetric] refl step(5)] .
    ultimately show ?thesis by simp
  qed
qed

lemma convert_step_shrinks:
  assumes "(Some e, rest) = CBS_get_any_ber_asn1_element inp"
    "(Some r, out') = convert_contents convert_loop child cst depth e rest out"
    "indefinite e \<Longrightarrow> convert_loop_dom (child, cst, True, Suc depth, rest, out)"
  shows "length r < length inp"
  using convert_contents_left [OF assms(2) [symmetric]] convert_loop_shrinks [OF assms(3)]
    ber_element_shrinks(1) [OF assms(1) [symmetric]] by fastforce

termination convert_loop
  by (relation "measure (\<lambda>(d, string_tag, eoc, depth, inp, out). length inp)")
    (auto dest: ber_element_shrinks [OF sym] intro: convert_step_shrinks)

declare convert_loop.simps [simp del]

definition cbs_convert_ber :: "nat \<Rightarrow> u32 \<Rightarrow> bool \<Rightarrow> nat \<Rightarrow> cbs \<Rightarrow> (cbb, cbs) op" where
  "cbs_convert_ber d string_tag looking_for_eoc depth inp out =
     (if depth > kMaxDepth then (None, out) else convert_loop d string_tag looking_for_eoc depth inp out)"

text \<open>\<open>*out_storage\<close> is \<open>NULL\<close> or the converted bytes. The heap is that of \<open>CBB_init\<close>.\<close>

definition CBS_asn1_ber_to_der :: "(nat \<Rightarrow> heap) \<Rightarrow> (cbs, cbs \<times> bytes option) op" where
  "CBS_asn1_ber_to_der h inp =
     (case cbs_find_ber inp 0 of
        None \<Rightarrow> (None, inp)
      | Some conversion_needed \<Rightarrow>
          if \<not> conversion_needed then
            (case CBS_get_any_asn1_element inp of
               (None, _) \<Rightarrow> (None, inp)
             | (Some e, rest) \<Rightarrow> (Some (element e, None), rest))
          else
            (case CBB_init (length inp) h of
               (None, _) \<Rightarrow> (None, inp)
             | (Some _, cbb) \<Rightarrow>
                 (case cbs_convert_ber 0 0 False 0 inp cbb of
                    (None, _) \<Rightarrow> (None, inp)
                  | (Some rest, cbb) \<Rightarrow>
                      (case CBB_finish 0 True cbb of
                         (None, _) \<Rightarrow> (None, rest)
                       | (Some (buf, len), _) \<Rightarrow> (Some (take len buf, Some buf), rest)))))"

function implicit_string_loop :: "u32 \<Rightarrow> cbs \<Rightarrow> (cbb, unit) op" where
  "implicit_string_loop inner_tag child result =
     (if length child > 0 then
        (case CBS_get_asn1 inner_tag child of
           (None, _) \<Rightarrow> (None, result)
         | (Some chunk, child) \<Rightarrow>
             (case CBB_add_bytes 0 chunk result of
                (None, result) \<Rightarrow> (None, result)
              | (Some _, result) \<Rightarrow> implicit_string_loop inner_tag child result))
      else (Some (), result))"
  by pat_completeness auto
termination
  by (relation "measure (\<lambda>(tag, child, result). length child)")
    (use length_asn1_tag_bytes(2) in \<open>auto simp: CBS_get_asn1_accepts_iff der_element_def der_header_def dest!: sym [of "(Some _, _)"]\<close>)

declare implicit_string_loop.simps [simp del]

definition CBS_get_asn1_implicit_string :: "(nat \<Rightarrow> heap) \<Rightarrow> u32 \<Rightarrow> u32 \<Rightarrow> (cbs, cbs \<times> bytes option) op" where
  "CBS_get_asn1_implicit_string h outer_tag inner_tag inp =
     (if CBS_peek_asn1_tag inp outer_tag then
        (case CBS_get_asn1 outer_tag inp of (None, rest) \<Rightarrow> (None, rest) | (Some out, rest) \<Rightarrow> (Some (out, None), rest))
      else
        (case CBB_init (length inp) h of
           (None, _) \<Rightarrow> (None, inp)
         | (Some _, result) \<Rightarrow>
             (case CBS_get_asn1 (outer_tag OR CBS_ASN1_CONSTRUCTED) inp of
                (None, rest) \<Rightarrow> (None, rest)
              | (Some child, rest) \<Rightarrow>
                  (case implicit_string_loop inner_tag child result of
                     (None, _) \<Rightarrow> (None, rest)
                   | (Some _, result) \<Rightarrow>
                       (case CBB_finish 0 True result of
                          (None, _) \<Rightarrow> (None, rest)
                        | (Some (buf, len), _) \<Rightarrow> (Some (take len buf, Some buf), rest))))))"

section \<open>The result of an encoder\<close>

text \<open>\<open>outp\<close> is \<open>None\<close> for \<open>NULL\<close>, \<open>Some None\<close> for a pointer to \<open>NULL\<close>, and otherwise the bytes it points to; with
  the length comes the new \<open>*outp\<close>: a new object, or the bytes that were overwritten (then the pointer is
  advanced past them).\<close>

definition CBB_finish_i2d :: "bytes option option \<Rightarrow> (cbb, nat \<times> bytes option option) op" where
  "CBB_finish_i2d outp cbb =
     (case CBB_finish 0 True cbb of
        (None, cbb) \<Rightarrow> (None, cbb)
      | (Some (der, der_len), cbb) \<Rightarrow>
          if der_len > INT_MAX then (None, cbb)
          else
            let outp = (case outp of
                          None \<Rightarrow> None
                        | Some None \<Rightarrow> Some (Some der)
                        | Some (Some dest) \<Rightarrow> Some (Some (memcpy_at 0 (take der_len der) dest)))
            in (Some (der_len, outp), cbb))"

end
