(* ===== verification/BerSpec.thy ===== *)
theory BerSpec
  imports Ber
begin

text \<open>
  What the conversion of BER does. A BER value is a tree; a relation says which byte strings encode it,
  and a function gives the one encoding the conversion writes, or that it is refused. The conversion of
  any encoding of a tree is that encoding.
\<close>

section \<open>BER values and their encodings\<close>

datatype ber = Primitive u32 bytes | Constructed u32 "ber list"

inductive ber_encodes :: "ber \<Rightarrow> bytes \<Rightarrow> bool" and ber_encodes_list :: "ber list \<Rightarrow> bytes \<Rightarrow> bool" where
  primitive: "valid_asn1_tag tag \<Longrightarrow> tag AND CBS_ASN1_CONSTRUCTED = 0 \<Longrightarrow> ber_length (length c) l
    \<Longrightarrow> ber_encodes (Primitive tag c) (asn1_tag_bytes tag @ l @ c)"
| definite: "valid_asn1_tag tag \<Longrightarrow> tag AND CBS_ASN1_CONSTRUCTED \<noteq> 0 \<Longrightarrow> ber_encodes_list ts c \<Longrightarrow> ber_length (length c) l
    \<Longrightarrow> ber_encodes (Constructed tag ts) (asn1_tag_bytes tag @ l @ c)"
| indefinite: "valid_asn1_tag tag \<Longrightarrow> tag AND CBS_ASN1_CONSTRUCTED \<noteq> 0 \<Longrightarrow> ber_encodes_list ts c
    \<Longrightarrow> ber_encodes (Constructed tag ts) (asn1_tag_bytes tag @ 0x80 # c @ [0, 0])"
| none: "ber_encodes_list [] []"
| more: "ber_encodes t x \<Longrightarrow> ber_encodes_list ts xs \<Longrightarrow> ber_encodes_list (t # ts) (x @ xs)"

inductive_cases encodes_noneE: "ber_encodes_list [] xs"
inductive_cases encodes_moreE: "ber_encodes_list (t # ts) xs"

definition append_option :: "bytes option \<Rightarrow> bytes option \<Rightarrow> bytes option" where
  "append_option x y = (case x of None \<Rightarrow> None | Some xs \<Rightarrow> map_option ((@) xs) y)"

lemma append_option_simps [simp]:
  "append_option None y = None" "append_option x None = None" "append_option (Some a) (Some b) = Some (a @ b)"
  "append_option (Some []) y = y" "append_option x (Some []) = x"
  by (cases x; cases y; simp add: append_option_def)+

text \<open>
  The DER encoding of a value inside \<open>depth\<close> others. Strings lose their inner structure: inside a
  constructed string, all values are of its type \<open>st\<close> and only their contents are written.
\<close>

fun ber_der :: "nat \<Rightarrow> u32 \<Rightarrow> ber \<Rightarrow> bytes option" and ber_der_list :: "nat \<Rightarrow> u32 \<Rightarrow> ber list \<Rightarrow> bytes option" where
  "ber_der depth st (Primitive tag c) =
     (if st = 0 then Some (der_element tag c) else if tag = st then Some c else None)"
| "ber_der depth st (Constructed tag ts) =
     (let string = tag AND NOT CBS_ASN1_CONSTRUCTED
      in if depth + 1 > kMaxDepth then None
         else if st \<noteq> 0 then if string = st then ber_der_list (depth + 1) st ts else None
         else if is_string_type tag then map_option (der_element string) (ber_der_list (depth + 1) string ts)
         else map_option (der_element tag) (ber_der_list (depth + 1) 0 ts))"
| "ber_der_list depth st [] = Some []"
| "ber_der_list depth st (t # ts) = append_option (ber_der depth st t) (ber_der_list depth st ts)"

section \<open>Operations that may be refused\<close>

text \<open>On a builder that has no error and no pending children below \<open>d\<close>, the operation \<open>m\<close> appends \<open>xs\<close> and
  returns \<open>v\<close>, unless memory runs out; or it fails in any case.\<close>

definition converts :: "nat \<Rightarrow> bytes option \<Rightarrow> 'a \<Rightarrow> (cbb, 'a) op \<Rightarrow> bool" where
  "converts d x v m \<longleftrightarrow>
     (\<forall>c r c'. cbb_wf c \<longrightarrow> \<not> cbb_error c \<longrightarrow> length (cbb_children c) = d \<longrightarrow> m c = (r, c') \<longrightarrow>
        (case x of None \<Rightarrow> r = None | Some xs \<Rightarrow> write_post d xs c r c' \<and> (r \<noteq> None \<longrightarrow> r = Some v)))"

lemma convertsD:
  assumes "converts d x v m" "cbb_wf c" "\<not> cbb_error c" "length (cbb_children c) = d" "m c = (r, c')"
  shows "x = None \<Longrightarrow> r = None" "x = Some xs \<Longrightarrow> write_post d xs c r c'" "r \<noteq> None \<Longrightarrow> r = Some v"
  using assms by (auto simp: converts_def split: option.splits)

lemma converts_emits: "emits d xs m \<Longrightarrow> converts d (Some xs) () m"
  by (simp add: converts_def emits_def)

lemma converts_fail [simp]: "converts d None v op_fail"
  by (simp add: converts_def op_simps)

lemma converts_return [simp]: "converts d (Some []) v (op_return v)"
  by (auto simp: converts_def op_simps write_post_def attached_def)

lemma flush_idle: "\<lbrakk>cbb_wf c; \<not> cbb_error c; length (cbb_children c) = d\<rbrakk> \<Longrightarrow> CBB_flush d c = (Some (), c)"
  by (simp add: CBB_flush.simps [of d c] attached_def)

lemma converts_bind:
  assumes m: "converts d x v m" and f: "converts d y w (f v)"
  shows "converts d (append_option x y) w (op_bind m f)"
  unfolding converts_def
proof (intro allI impI)
  fix c r c'
  assume c: "cbb_wf c" "\<not> cbb_error c" "length (cbb_children c) = d" and r: "op_bind m f c = (r, c')"
  obtain r1 c1 where r1: "m c = (r1, c1)" by fastforce
  note m = convertsD [OF m c r1]
  show "case append_option x y of None \<Rightarrow> r = None | Some xs \<Rightarrow> write_post d xs c r c' \<and> (r \<noteq> None \<longrightarrow> r = Some w)"
  proof (cases x)
    case None
    then show ?thesis using m r r1 by simp
  next
    case (Some xs)
    note p1 = m(2) [OF Some]
    show ?thesis
    proof (cases r1)
      case None
      then have "r = None" "c' = c1" using r r1 by auto
      moreover have "can_hold c (length zs + (length xs + n)) \<Longrightarrow> can_hold c (length zs + length xs)" for zs :: bytes and n
        by (erule can_hold_mono) simp
      ultimately show ?thesis using p1 None Some by (cases y) (auto simp: write_post_def)
    next
      case (Some u)
      then have "f v c1 = (r, c')" using r r1 m(3) by simp
      note a = after_write [OF p1 [unfolded Some]] and f = convertsD [OF f a(4) a(7) a(6) this]
      show ?thesis
      proof (cases y)
        case None
        then show ?thesis using f by simp
      next
        case y: (Some ys)
        note p2 = f(2) [OF y]
        have "write_post d (xs @ ys) c r c'"
          using p1 p2 a unfolding write_post_def Some by fastforce
        then show ?thesis using f(3) y \<open>x = Some xs\<close> by simp
      qed
    qed
  qed
qed

lemma converts_flush:
  assumes "converts d x v m"
  shows "converts d x v (op_bind m (\<lambda>v. op_bind (CBB_flush d) (\<lambda>_. op_return v)))"
  using converts_bind [OF assms, of "Some []" v "\<lambda>v. op_bind (CBB_flush d) (\<lambda>_. op_return v)"]
    converts_bind [OF converts_emits [OF emits_flush], of d "Some []" v "\<lambda>_. op_return v"] by simp

text \<open>The flush that the writers of the builder begin with.\<close>

lemma converts_emits_flush:
  assumes "converts d (Some xs) v m"
  shows "emits d xs (op_bind (CBB_flush d) (\<lambda>_. m))"
  unfolding emits_def
proof (intro allI impI)
  fix c r c'
  assume c: "cbb_wf c" and r: "op_bind (CBB_flush d) (\<lambda>_. m) c = (r, c')"
  obtain r1 c1 where f: "CBB_flush d c = (r1, c1)" by fastforce
  note p1 = emitsD [OF emits_flush c f]
  show "write_post d xs c r c'"
  proof (cases r1)
    case None
    then have "r = None" "c' = c1" using r f by auto
    moreover have "can_hold c (length zs + length xs) \<Longrightarrow> can_hold c (length zs)" for zs :: bytes
      by (erule can_hold_mono) simp
    ultimately show ?thesis using p1 None by (auto simp: write_post_def)
  next
    case (Some u)
    then have m: "m c1 = (r, c')" using r f by simp
    note a = after_write [OF p1 [unfolded Some]]
    show ?thesis using p1 convertsD(2) [OF assms a(4) a(7) a(6) m refl] a unfolding write_post_def Some by fastforce
  qed
qed

section \<open>An element inside another\<close>

lemma add_asn1_idle:
  assumes "cbb_wf c" "CBB_add_asn1 d tag c = (Some u, c')"
  shows "cbb_wf c'" "\<not> cbb_error c'" "length (cbb_children c') = Suc d"
proof -
  let ?pre = "op_bind (CBB_flush d) (\<lambda>_.
       let tag_bits = (ucast (drop_bit CBS_ASN1_TAG_SHIFT tag) :: u8) AND 0xe0;
           tag_number = tag AND CBS_ASN1_TAG_NUMBER_MASK
       in if tag_number \<ge> 0x1f then
            op_bind (CBB_add_u8 d (tag_bits OR 0x1f)) (\<lambda>_. add_base128_integer d (ucast tag_number))
          else CBB_add_u8 d (tag_bits OR ucast tag_number))"
  have "CBB_add_asn1 d tag = op_bind ?pre (\<lambda>_. cbb_add_child d 1 True)"
    unfolding CBB_add_asn1_def op_bind_assoc Let_def ..
  then obtain u1 c1 where c1: "?pre c = (Some u1, c1)" "cbb_add_child d 1 True c1 = (Some u, c')"
    using assms(2) by (auto simp: op_bind_eq_Some)
  note a = after_write [OF emitsD [OF emits_add_tag assms(1) c1(1)]]
  show "cbb_wf c'" "\<not> cbb_error c'" "length (cbb_children c') = Suc d"
    using cbb_add_child_spec(2,4) [OF a(4,6) _ _ c1(2)] a(6,7) small_sizes by auto
qed

lemma converts_nested:
  assumes inner: "converts (Suc d) x v inner" and fits: "\<And>xs. x = Some xs \<Longrightarrow> length xs \<le> 0xfffffffe"
  shows "converts d (map_option (der_element tag) x) v
    (op_bind (CBB_add_asn1 d tag) (\<lambda>_. op_bind inner (\<lambda>v. op_bind (CBB_flush d) (\<lambda>_. op_return v))))"
  unfolding converts_def
proof (intro allI impI)
  fix c r c'
  assume c: "cbb_wf c" "\<not> cbb_error c" "length (cbb_children c) = d"
    and r: "op_bind (CBB_add_asn1 d tag) (\<lambda>_. op_bind inner (\<lambda>v. op_bind (CBB_flush d) (\<lambda>_. op_return v))) c = (r, c')"
  obtain r1 c1 where r1: "CBB_add_asn1 d tag c = (r1, c1)" by fastforce
  note idle = add_asn1_idle [OF c(1), of d tag _ c1]
  show "case map_option (der_element tag) x of None \<Rightarrow> r = None
    | Some xs \<Rightarrow> write_post d xs c r c' \<and> (r \<noteq> None \<longrightarrow> r = Some v)"
  proof (cases x)
    case None
    then show ?thesis using r r1 idle convertsD(1) [OF inner] by (auto simp: op_bind_def split: option.splits prod.splits)
  next
    case (Some xs)
    let ?in = "\<lambda>d. op_bind (CBB_flush d) (\<lambda>_. op_bind inner (\<lambda>_. op_return ()))"
    let ?m = "cbb_nested d (CBB_add_asn1 d tag) ?in"
    have "converts (Suc d) (Some xs) () (op_bind inner (\<lambda>_. op_return ()))"
      using converts_bind [OF inner [unfolded Some], of "Some []" "()" "\<lambda>_. op_return ()"] by simp
    then have "emits (Suc d) xs (?in (Suc d))" by (rule converts_emits_flush)
    then have e: "emits d (der_element tag xs) ?m" using fits [OF Some] by (rule emits_asn1)
    have "?m c = (map_option (\<lambda>_. ()) r, c') \<and> (r \<noteq> None \<longrightarrow> r = Some v)"
    proof (cases r1)
      case (Some u)
      have "CBB_flush (Suc d) c1 = (Some (), c1)" using idle r1 Some by (intro flush_idle) auto
      moreover have "r = Some v" if "inner c1 = (Some v', c2)" "CBB_flush d c2 = (Some (), c')" "r \<noteq> None" for v' c2
        using convertsD(3) [OF inner _ _ _ that(1)] r r1 that Some idle by (auto simp: op_simps)
      ultimately show ?thesis
        using r r1 Some by (auto simp: cbb_nested_def op_bind_def op_simps split: option.splits prod.splits)
    qed (use r r1 in \<open>auto simp: cbb_nested_def\<close>)
    then show ?thesis using emitsD [OF e c(1)] Some by (fastforce simp: write_post_def)
  qed
qed

section \<open>One turn of the loop\<close>

definition convert_element :: "nat \<Rightarrow> u32 \<Rightarrow> nat \<Rightarrow> cbs \<Rightarrow> (cbb, cbs) op" where
  "convert_element d st depth inp =
     (case CBS_get_any_ber_asn1_element inp of
        (None, _) \<Rightarrow> op_fail
      | (Some e, rest) \<Rightarrow>
          op_bind (convert_open d st e) (\<lambda>(child, cst).
            op_bind (convert_contents convert_loop child cst depth e rest) (\<lambda>rest.
              op_bind (CBB_flush d) (\<lambda>_. op_return rest))))"

lemma convert_loop_step:
  assumes "length inp > 0" "fst (if eoc then cbs_get_eoc inp else (None, inp)) = None"
  shows "convert_loop d st eoc depth inp = op_bind (convert_element d st depth inp) (\<lambda>rest. convert_loop d st eoc depth rest)"
proof
  fix out
  show "convert_loop d st eoc depth inp out = op_bind (convert_element d st depth inp) (\<lambda>rest. convert_loop d st eoc depth rest) out"
    using assms unfolding convert_loop.simps [of d st eoc depth inp out]
    by (auto simp: convert_element_def op_bind_def op_simps split: prod.splits option.splits)
qed

text \<open>What becomes of the contents \<open>body\<close> of an element.\<close>

definition wrapped :: "u32 \<Rightarrow> u32 \<Rightarrow> bytes option \<Rightarrow> bytes option" where
  "wrapped st tag body =
     (if st \<noteq> 0 then if tag AND NOT CBS_ASN1_CONSTRUCTED = st then body else None
      else if tag AND CBS_ASN1_CONSTRUCTED \<noteq> 0 \<and> is_string_type tag
           then map_option (der_element (tag AND NOT CBS_ASN1_CONSTRUCTED)) body
           else map_option (der_element tag) body)"

definition inner_string_tag :: "u32 \<Rightarrow> u32 \<Rightarrow> u32" where
  "inner_string_tag st tag =
     (if st = 0 \<and> tag AND CBS_ASN1_CONSTRUCTED \<noteq> 0 \<and> is_string_type tag then tag AND NOT CBS_ASN1_CONSTRUCTED else st)"

lemma converts_element:
  assumes get: "CBS_get_any_ber_asn1_element inp = (Some e, rest)" and tag: "element_tag e = tag"
    and contents: "\<And>child. converts child body left (convert_contents convert_loop child (inner_string_tag st tag) depth e rest)"
    and fits: "\<And>xs. body = Some xs \<Longrightarrow> length xs \<le> 0xfffffffe"
  shows "converts d (wrapped st tag body) left (convert_element d st depth inp)"
proof (cases "st \<noteq> 0")
  case True
  show ?thesis
  proof (cases "tag AND NOT CBS_ASN1_CONSTRUCTED = st")
    case same: True
    have "convert_element d st depth inp
      = op_bind (convert_contents convert_loop d (inner_string_tag st tag) depth e rest)
          (\<lambda>rest. op_bind (CBB_flush d) (\<lambda>_. op_return rest))"
      using True same by (simp add: convert_element_def get convert_open_def tag Let_def op_simps inner_string_tag_def op_bind_assoc)
    then show ?thesis using converts_flush [OF contents] True same by (simp add: wrapped_def)
  next
    case False
    then have "convert_element d st depth inp = op_fail"
      using True by (simp add: convert_element_def get convert_open_def tag Let_def op_simps fun_eq_iff op_bind_def)
    then show ?thesis using True False by (simp add: wrapped_def)
  qed
next
  case False
  let ?out = "if tag AND CBS_ASN1_CONSTRUCTED \<noteq> 0 \<and> is_string_type tag then tag AND NOT CBS_ASN1_CONSTRUCTED else tag"
  have "convert_element d st depth inp
    = op_bind (CBB_add_asn1 d ?out) (\<lambda>_. op_bind (convert_contents convert_loop (Suc d) (inner_string_tag st tag) depth e rest)
          (\<lambda>rest. op_bind (CBB_flush d) (\<lambda>_. op_return rest)))"
    using False by (simp add: convert_element_def get convert_open_def tag Let_def inner_string_tag_def op_bind_assoc)
  moreover have "wrapped st tag body = map_option (der_element ?out) body" using False by (simp add: wrapped_def)
  ultimately show ?thesis using converts_nested [OF contents fits] by simp
qed

text \<open>What the contents become: the bytes of a primitive element, or the conversion of the elements in it.\<close>

lemma skip_header_definite [simp]: "skip_header (ber_definite tag l c) s = (Some c, s)"
  using CBS_skip_append [of "asn1_tag_bytes tag @ l" _ c] by (simp add: skip_header_def ber_definite_def)

lemma definite_simps [simp]:
  "element_tag (ber_definite tag l c) = tag" "indefinite (ber_definite tag l c) = False"
  "ber_found (ber_definite tag l c) \<longleftrightarrow> l \<noteq> der_length (length c)"
  "element_tag (ber_indefinite tag) = tag" "indefinite (ber_indefinite tag)" "ber_found (ber_indefinite tag)"
  by (simp_all add: ber_definite_def ber_indefinite_def)

definition nested_der :: "nat \<Rightarrow> u32 \<Rightarrow> ber list \<Rightarrow> bytes option" where
  "nested_der depth st ts = (if depth + 1 > kMaxDepth then None else ber_der_list (depth + 1) st ts)"

lemma ber_der_wrapped:
  "tag AND CBS_ASN1_CONSTRUCTED = 0 \<Longrightarrow> ber_der depth st (Primitive tag c) = wrapped st tag (Some c)"
  "tag AND CBS_ASN1_CONSTRUCTED \<noteq> 0 \<Longrightarrow>
     ber_der depth st (Constructed tag ts) = wrapped st tag (nested_der depth (inner_string_tag st tag) ts)"
proof -
  assume "tag AND CBS_ASN1_CONSTRUCTED = 0"
  then have "tag AND NOT CBS_ASN1_CONSTRUCTED = tag" by (simp add: bit_eq_iff bit_simps) blast
  then show "ber_der depth st (Primitive tag c) = wrapped st tag (Some c)"
    using \<open>tag AND CBS_ASN1_CONSTRUCTED = 0\<close> by (simp add: wrapped_def)
next
  assume "tag AND CBS_ASN1_CONSTRUCTED \<noteq> 0"
  then show "ber_der depth st (Constructed tag ts) = wrapped st tag (nested_der depth (inner_string_tag st tag) ts)"
    by (simp add: wrapped_def nested_der_def inner_string_tag_def Let_def)
qed

declare ber_der.simps [simp del]

section \<open>The size of the result\<close>

lemma length_der_length:
  assumes "n < 2 ^ 32"
  shows "length (der_length n) \<le> 5" "n < 256 \<Longrightarrow> length (der_length n) \<le> 2"
proof -
  have "der_len_len n \<le> 4" using assms by (simp add: der_len_len_def)
  then show "length (der_length n) \<le> 5" "n < 256 \<Longrightarrow> length (der_length n) \<le> 2"
    by (auto simp: der_length_def der_len_len_def)
qed

lemma ber_length_two: "ber_length n l \<Longrightarrow> 128 \<le> n \<Longrightarrow> 2 \<le> length l"
  by (auto simp: ber_length_def)

lemma length_cleared_tag: "length (asn1_tag_bytes (tag AND NOT CBS_ASN1_CONSTRUCTED)) = length (asn1_tag_bytes tag)"
proof -
  have "(tag AND NOT CBS_ASN1_CONSTRUCTED) AND CBS_ASN1_TAG_NUMBER_MASK = tag AND CBS_ASN1_TAG_NUMBER_MASK"
    unfolding and.assoc by (rule arg_cong [where f = "\<lambda>m. tag AND m"])
      (simp add: CBS_ASN1_TAG_NUMBER_MASK_def CBS_ASN1_CONSTRUCTED_def CBS_ASN1_TAG_SHIFT_def)
  then show ?thesis by (simp add: asn1_tag_bytes_def Let_def)
qed

lemma wrapped_length:
  assumes "wrapped st tag (Some b) = Some y" "length b \<le> 2 * m" "m < 2 ^ 31" "128 \<le> m \<Longrightarrow> 2 \<le> k" "1 \<le> k"
  shows "length y \<le> 2 * (length (asn1_tag_bytes tag) + k + m)"
proof -
  have "y = b \<or> (\<exists>t. y = der_element t b \<and> length (asn1_tag_bytes t) = length (asn1_tag_bytes tag))"
    using assms(1) length_cleared_tag by (auto simp: wrapped_def split: if_splits)
  moreover have "length (der_length (length b)) \<le> 1 + 2 * k"
    using length_der_length [of "length b"] assms(2-5) by (cases "length b < 256") auto
  moreover have "1 \<le> length (asn1_tag_bytes tag)" using length_asn1_tag_bytes(2) [of tag] by (cases "asn1_tag_bytes tag") auto
  ultimately show ?thesis using assms(2) by (auto simp: der_element_def der_header_def)
qed

lemma ber_der_length:
  "ber_encodes t x \<Longrightarrow> length x < 2 ^ 31 \<Longrightarrow> ber_der depth st t = Some y \<Longrightarrow> length y \<le> 2 * length x"
  "ber_encodes_list ts x \<Longrightarrow> length x < 2 ^ 31 \<Longrightarrow> ber_der_list depth st ts = Some y \<Longrightarrow> length y \<le> 2 * length x"
proof (induction t x and ts x arbitrary: depth st y and depth st y rule: ber_encodes_ber_encodes_list.inducts)
  case (primitive tag c l)
  then show ?case
    using wrapped_length [of st tag c y "length c" "length l"] length_ber_length ber_length_two
    by (simp add: ber_der_wrapped)
next
  case (definite tag ts c l)
  obtain b where b: "wrapped st tag (Some b) = Some y" "nested_der depth (inner_string_tag st tag) ts = Some b"
    using definite.prems definite.hyps(2) by (auto simp: ber_der_wrapped wrapped_def split: if_splits)
  then have "length b \<le> 2 * length c" using definite.IH definite.prems by (auto simp: nested_der_def split: if_splits)
  then show ?case
    using wrapped_length [OF b(1), of "length c" "length l"] definite.hyps definite.prems length_ber_length [of "length c" l]
      ber_length_two [of "length c" l] by simp
next
  case (indefinite tag ts c)
  obtain b where b: "wrapped st tag (Some b) = Some y" "nested_der depth (inner_string_tag st tag) ts = Some b"
    using indefinite.prems indefinite.hyps(2) by (auto simp: ber_der_wrapped wrapped_def split: if_splits)
  then have "length b \<le> 2 * length c" using indefinite.IH indefinite.prems by (auto simp: nested_der_def split: if_splits)
  then show ?case using wrapped_length [OF b(1), of "length c" 3] indefinite.prems by simp
next
  case none
  then show ?case by simp
next
  case (more t x ts xs)
  then obtain a b where "ber_der depth st t = Some a" "ber_der_list depth st ts = Some b" "y = a @ b"
    by (cases "ber_der depth st t"; cases "ber_der_list depth st ts") auto
  then show ?case using more by (fastforce dest: more.IH)
qed

lemma nested_der_fits:
  assumes "nested_der depth st ts = Some y" "ber_encodes_list ts x" "length x < 2 ^ 31"
  shows "length y \<le> 0xfffffffe"
proof -
  have "length y \<le> 2 * length x"
    using assms ber_der_length(2) by (auto simp: nested_der_def split: if_splits)
  then show ?thesis using assms(3) by simp
qed

section \<open>The conversion writes the DER encoding\<close>

lemma encodes_not_eoc: "ber_encodes t x \<Longrightarrow> x \<noteq> [] \<and> x ! 0 \<noteq> 0"
proof -
  have "asn1_tag_bytes tag \<noteq> [] \<and> asn1_tag_bytes tag ! 0 \<noteq> 0" if "valid_asn1_tag tag" for tag
  proof (rule conjI)
    show "asn1_tag_bytes tag ! 0 \<noteq> 0"
    proof
      assume "asn1_tag_bytes tag ! 0 = 0"
      then obtain r where r: "asn1_tag_bytes tag = 0 # r"
        using length_asn1_tag_bytes(2) [of tag] by (cases "asn1_tag_bytes tag") auto
      have "parse_asn1_tag (0 # r) = (Some tag, [])" using asn1_tag_codec.get_put [OF that, of "[]"] r by simp
      then show False
        by (simp add: parse_asn1_tag_def op_simps Let_def CBS_ASN1_CONSTRUCTED_def CBS_ASN1_TAG_SHIFT_def asn1_tag_join_def split: if_splits)
    qed
  qed (rule length_asn1_tag_bytes(2))
  then show "ber_encodes t x \<Longrightarrow> x \<noteq> [] \<and> x ! 0 \<noteq> 0"
    by (auto elim!: ber_encodes.cases simp: nth_append)
qed

lemma converts_contents:
  assumes "\<And>d depth st eoc rest. (\<not> eoc \<longrightarrow> rest = []) \<Longrightarrow>
      converts d (ber_der_list depth st ts) rest (convert_loop d st eoc depth (c @ (if eoc then 0 # 0 # rest else [])))"
  shows "tag AND CBS_ASN1_CONSTRUCTED \<noteq> 0 \<Longrightarrow>
      converts d (nested_der depth st ts) rest (convert_contents convert_loop d st depth (ber_definite tag l c) rest)"
    "converts d (nested_der depth st ts) rest (convert_contents convert_loop d st depth (ber_indefinite tag) (c @ 0 # 0 # rest))"
proof -
  have inner: "converts d (ber_der_list (depth + 1) st ts) [] (convert_loop d st False (depth + 1) c)"
    using assms [of False "[]"] by simp
  show "converts d (nested_der depth st ts) rest (convert_contents convert_loop d st depth (ber_definite tag l c) rest)"
    if "tag AND CBS_ASN1_CONSTRUCTED \<noteq> 0"
  proof (cases "depth + 1 > kMaxDepth")
    case True
    then have "convert_contents convert_loop d st depth (ber_definite tag l c) rest = op_fail"
      using that by (simp add: convert_contents_def op_simps fun_eq_iff)
    then show ?thesis using True by (simp add: nested_der_def)
  next
    case False
    then have "convert_contents convert_loop d st depth (ber_definite tag l c) rest
      = op_bind (convert_loop d st False (depth + 1) c) (\<lambda>_. op_return rest)"
      using that by (simp add: convert_contents_def op_simps op_bind_def fun_eq_iff split: prod.split option.split)
    then show ?thesis
      using converts_bind [OF inner, of "Some []" rest "\<lambda>_. op_return rest"] False by (simp add: nested_der_def)
  qed
  show "converts d (nested_der depth st ts) rest (convert_contents convert_loop d st depth (ber_indefinite tag) (c @ 0 # 0 # rest))"
  proof (cases "depth + 1 > kMaxDepth")
    case True
    then have "convert_contents convert_loop d st depth (ber_indefinite tag) (c @ 0 # 0 # rest) = op_fail"
      by (simp add: convert_contents_def op_simps fun_eq_iff)
    then show ?thesis using True by (simp add: nested_der_def)
  next
    case False
    then have "convert_contents convert_loop d st depth (ber_indefinite tag) (c @ 0 # 0 # rest)
      = convert_loop d st True (depth + 1) (c @ 0 # 0 # rest)"
      by (simp add: convert_contents_def fun_eq_iff)
    then show ?thesis using assms [of True rest d "depth + 1" st] False by (simp add: nested_der_def)
  qed
qed

lemma convert_encoding:
  "ber_encodes t x \<Longrightarrow> length x < 2 ^ 31 \<Longrightarrow>
     converts d (ber_der depth st t) rest (convert_element d st depth (x @ rest))"
  "ber_encodes_list ts xs \<Longrightarrow> length xs < 2 ^ 31 \<Longrightarrow> \<not> eoc \<longrightarrow> rest = [] \<Longrightarrow>
     converts d (ber_der_list depth st ts) rest (convert_loop d st eoc depth (xs @ (if eoc then 0 # 0 # rest else [])))"
proof (induction t x and ts xs arbitrary: d depth st rest and d depth st eoc rest
    rule: ber_encodes_ber_encodes_list.inducts)
  case (primitive tag c l)
  have "converts child (Some c) rest (convert_contents convert_loop child cst depth (ber_definite tag l c) rest)" for child cst
  proof -
    have "convert_contents convert_loop child cst depth (ber_definite tag l c) rest
      = op_bind (CBB_add_bytes child c) (\<lambda>_. op_return rest)"
      using primitive.hyps by (simp add: convert_contents_def op_simps op_bind_def fun_eq_iff split: prod.split option.split)
    moreover have "length c < size_mod" using primitive.prems by (simp add: size_mod_def)
    ultimately show ?thesis
      using converts_bind [OF converts_emits [OF bytes_writer.writes], of c child "Some []" rest "\<lambda>_. op_return rest"] by simp
  qed
  then show ?case
    using converts_element [OF get_ber_definite [OF primitive.hyps(1,3)], of tag "Some c" rest st depth rest d] primitive.hyps(2) primitive.prems
    by (simp add: ber_der_wrapped)
next
  case (definite tag ts c l)
  have "length c < 2 ^ 31" using definite.prems by simp
  then show ?case
    using converts_element [OF get_ber_definite [OF definite.hyps(1,4)], of tag
        "nested_der depth (inner_string_tag st tag) ts" rest st depth rest d]
      converts_contents(1) [OF definite.IH definite.hyps(2)] nested_der_fits [OF _ definite.hyps(3)] definite.hyps(2)
    by (simp add: ber_der_wrapped)
next
  case (indefinite tag ts c)
  have "length c < 2 ^ 31" using indefinite.prems by simp
  then show ?case
    using converts_element [OF get_ber_indefinite [OF indefinite.hyps(1,2)], of tag
        "nested_der depth (inner_string_tag st tag) ts" rest st depth "c @ 0 # 0 # rest" d]
      converts_contents(2) [OF indefinite.IH] nested_der_fits [OF _ indefinite.hyps(3)] indefinite.hyps(2)
    by (simp add: ber_der_wrapped)
next
  case none
  show ?case
  proof (cases eoc)
    case True
    have "convert_loop d st True depth (0 # 0 # rest) = op_return rest"
      by (simp add: fun_eq_iff convert_loop.simps [of d st True] cbs_get_eoc_def op_simps CBS_skip_append [of "[0,0]", simplified])
    then show ?thesis using True by simp
  next
    case False
    then have "convert_loop d st False depth [] = op_return rest"
      using none by (simp add: fun_eq_iff convert_loop.simps [of d st False] op_simps)
    then show ?thesis using False by simp
  qed
next
  case (more t x ts xs)
  let ?tail = "xs @ (if eoc then 0 # 0 # rest else [])"
  have x: "x \<noteq> []" "x ! 0 \<noteq> 0" using encodes_not_eoc [OF more.hyps(1)] by auto
  then have "fst (if eoc then cbs_get_eoc (x @ ?tail) else (None, x @ ?tail)) = None"
    by (simp add: cbs_get_eoc_def nth_append)
  then have "convert_loop d st eoc depth (x @ ?tail)
    = op_bind (convert_element d st depth (x @ ?tail)) (\<lambda>rest. convert_loop d st eoc depth rest)"
    using x by (intro convert_loop_step) simp_all
  moreover have "converts d (ber_der depth st t) ?tail (convert_element d st depth (x @ ?tail))"
    using more.prems(1) by (intro more.IH(1)) simp
  moreover have "converts d (ber_der_list depth st ts) rest (convert_loop d st eoc depth ?tail)"
    using more.prems by (intro more.IH(2)) simp_all
  ultimately show ?case
    using converts_bind by fastforce
qed

end
