(* ===== verification/BerDer.thy ===== *)
theory BerDer
  imports BerSpec
begin

text \<open>
  \<open>CBS_asn1_ber_to_der\<close> as a whole: the walk that looks for BER, the choice it makes, that only encodings are
  accepted, and that what comes out is DER, which a second conversion leaves alone. Then strings in
  pieces and the result of an encoder.
\<close>

section \<open>The walk that looks for BER\<close>

text \<open>When it finds none, the elements are the DER encoding already; it fails only where the conversion does.\<close>

lemma find_ber_der:
  "ber_encodes t x \<Longrightarrow> length x < 2 ^ 31 \<Longrightarrow>
     (case find_ber_loop depth (x @ rest) of
        None \<Rightarrow> ber_der depth 0 t = None \<or> find_ber_loop depth rest = None
      | Some found \<Rightarrow> found \<or> ber_der depth 0 t = Some x \<and> find_ber_loop depth rest = Some False)"
  "ber_encodes_list ts xs \<Longrightarrow> length xs < 2 ^ 31 \<Longrightarrow>
     (case find_ber_loop depth xs of
        None \<Rightarrow> ber_der_list depth 0 ts = None
      | Some found \<Rightarrow> found \<or> ber_der_list depth 0 ts = Some xs)"
proof (induction t x and ts xs arbitrary: depth rest and depth rule: ber_encodes_ber_encodes_list.inducts)
  case (primitive tag c l)
  show ?case
    using get_ber_definite [OF primitive.hyps(1,3), of rest] primitive.hyps(2) length_asn1_tag_bytes(2) [of tag]
    by (auto simp: find_ber_loop.simps [of depth "asn1_tag_bytes tag @ _"] ber_der_wrapped wrapped_def der_element_def der_header_def
        split: option.split)
next
  case (definite tag ts c l)
  show ?case
    using get_ber_definite [OF definite.hyps(1,4), of rest] definite.hyps(2) length_asn1_tag_bytes(2) [of tag]
      definite.IH [of "depth + 1"] definite.prems
    by (auto simp: find_ber_loop.simps [of depth "asn1_tag_bytes tag @ _"] ber_der_wrapped wrapped_def der_element_def der_header_def
        nested_der_def inner_string_tag_def split: option.splits if_splits)
next
  case (indefinite tag ts c)
  show ?case
    using get_ber_indefinite [OF indefinite.hyps(1,2), of "c @ 0 # 0 # rest"] length_asn1_tag_bytes(2) [of tag]
    by (simp add: find_ber_loop.simps [of depth "asn1_tag_bytes tag @ _"])
next
  case none
  show ?case by (simp add: find_ber_loop.simps [of depth "[]"])
next
  case (more t x ts xs)
  have "length x < 2 ^ 31" "length xs < 2 ^ 31" using more.prems by simp_all
  from more.IH(1) [OF this(1), of depth xs] more.IH(2) [OF this(2), of depth] show ?case
    by (cases "find_ber_loop depth (x @ xs)"; cases "find_ber_loop depth xs") auto
qed

section \<open>The whole conversion\<close>

lemma init_converts_finish:
  assumes m: "converts 0 x v m" and "heap_total h" "cap < 2 ^ 62" and fits: "\<And>y. x = Some y \<Longrightarrow> length y < 2 ^ 62"
  shows "\<exists>c. CBB_init cap h = (Some (), c) \<and>
    (case x of
       None \<Rightarrow> fst (m c) = None
     | Some y \<Rightarrow> \<exists>c1 buf c2. m c = (Some v, c1) \<and> CBB_finish 0 True c1 = (Some (buf, length y), c2) \<and> take (length y) buf = y)"
proof -
  obtain c where c: "CBB_init cap h = (Some (), c)" "cbb_wf c" "cbb_children c = []" and "can_hold c 0"
    using CBB_init_spec [OF assms(2,3)] by (metis zero_less_numeral zero_less_power)
  then have noerr: "\<not> cbb_error c" by (simp add: can_hold_def)
  obtain r c1 where r: "m c = (r, c1)" by fastforce
  have idle: "length (cbb_children c) = 0" using c(3) by simp
  note post = convertsD [OF m c(2) noerr idle r]
  show ?thesis
  proof (cases x)
    case None
    then show ?thesis using post r c(1) by simp
  next
    case (Some y)
    let ?m = "op_bind (CBB_flush 0) (\<lambda>_. m)"
    have "emits 0 y ?m" using m Some by (simp add: converts_emits_flush)
    then obtain c' buf where c': "op_bind ?m (\<lambda>_. CBB_finish 0 True) c = (Some (buf, length y), c')"
      "take (length y) buf = y"
      using finish_emits [of y ?m h cap] fits [OF Some] assms(2,3) c(1) by (metis prod.inject)
    have "CBB_flush 0 c = (Some (), c)" using c(2) noerr idle by (rule flush_idle)
    then have "r = Some v" "CBB_finish 0 True c1 = (Some (buf, length y), c')"
      using c'(1) r post(3) by (cases r; simp)+
    then show ?thesis using Some r c'(2) c(1) by auto
  qed
qed

lemma convert_elements:
  assumes "ber_encodes_list ts x" "length x < 2 ^ 31" "heap_total h" "cbs_find_ber x 0 = Some True"
  shows "case ber_der_list 0 0 ts of
      None \<Rightarrow> CBS_asn1_ber_to_der h x = (None, x)
    | Some y \<Rightarrow> \<exists>storage. CBS_asn1_ber_to_der h x = (Some (y, Some storage), [])"
proof -
  have "converts 0 (ber_der_list 0 0 ts) [] (convert_loop 0 0 False 0 (x @ (if False then 0 # 0 # [] else [])))"
    using assms(1,2) by (rule convert_encoding(2)) simp
  then have m: "converts 0 (ber_der_list 0 0 ts) [] (cbs_convert_ber 0 0 False 0 x)"
    by (simp add: cbs_convert_ber_def [abs_def] kMaxDepth_def)
  have "length y < 2 ^ 62" if "ber_der_list 0 0 ts = Some y" for y
    using ber_der_length(2) [OF assms(1,2) that] assms(2) by simp
  moreover have "length x < 2 ^ 62" using assms(2) by simp
  ultimately show ?thesis
    using init_converts_finish [OF m assms(3), of "length x"]
    by (cases "ber_der_list 0 0 ts") (auto simp: CBS_asn1_ber_to_der_def assms(4) split: prod.splits option.splits)
qed

lemma wrapped_element:
  assumes "wrapped 0 tag body = Some y" "valid_asn1_tag tag"
  shows "\<exists>tag c. valid_asn1_tag tag \<and> y = der_element tag c"
proof -
  have "valid_asn1_tag (tag AND NOT CBS_ASN1_CONSTRUCTED)"
    using assms(2) by (simp add: valid_asn1_tag_def and.assoc)
  then show ?thesis using assms by (cases body) (auto simp: wrapped_def split: if_splits)
qed

lemma ber_der_element:
  assumes "ber_encodes t x" "ber_der depth 0 t = Some y"
  shows "\<exists>tag c. valid_asn1_tag tag \<and> y = der_element tag c"
  using assms by (cases rule: ber_encodes.cases) (auto simp: ber_der_wrapped dest!: wrapped_element)

lemma convert_ber_to_der:
  assumes "ber_encodes t x" "length x < 2 ^ 31" "heap_total h"
  shows "case ber_der 0 0 t of
      None \<Rightarrow> CBS_asn1_ber_to_der h x = (None, x)
    | Some y \<Rightarrow> \<exists>storage. CBS_asn1_ber_to_der h x = (Some (y, storage), [])"
proof -
  have l: "ber_encodes_list [t] x"
    using ber_encodes_ber_encodes_list.more [OF assms(1) ber_encodes_ber_encodes_list.none] by simp
  have find: "cbs_find_ber x 0 = find_ber_loop 0 (x @ [])" by (simp add: cbs_find_ber_def)
  have nil: "find_ber_loop 0 [] = Some False" by (simp add: find_ber_loop.simps [of 0 "[]"])
  note f = find_ber_der(1) [OF assms(1,2), of 0 "[]", folded find, unfolded nil]
  show ?thesis
  proof (cases "cbs_find_ber x 0")
    case None
    then show ?thesis using f by (simp add: CBS_asn1_ber_to_der_def)
  next
    case (Some found)
    show ?thesis
    proof (cases found)
      case True
      then show ?thesis using convert_elements [OF l assms(2,3)] Some by (cases "ber_der 0 0 t") auto
    next
      case False
      then have der: "ber_der 0 0 t = Some x" using f Some by simp
      obtain tag c where "valid_asn1_tag tag" "x = der_element tag c"
        using ber_der_element [OF assms(1) der] by blast
      moreover from this have "length c < 2 ^ 32" using assms(2) by (simp add: der_element_def)
      ultimately have "CBS_get_any_asn1_element x = (Some (der_result tag c), [])" "element (der_result tag c) = x"
        using der_element_get [of tag c "[]"] assms(2) by simp_all
      then show ?thesis using der False Some by (simp add: CBS_asn1_ber_to_der_def)
    qed
  qed
qed

section \<open>Only encodings are converted\<close>

lemma get_eoc_Some: "cbs_get_eoc inp = (Some u, rest) \<Longrightarrow> inp = 0 # 0 # rest"
  by (cases inp; cases "tl inp") (auto simp: cbs_get_eoc_def CBS_skip_append [of "[0, 0]", simplified] op_simps split: if_splits)

lemma element_encodes:
  assumes "CBS_get_any_ber_asn1_element inp = (Some e, rest)"
    and "convert_contents convert child st depth e rest out = (Some r, out')"
    and eoc: "\<And>r o'. indefinite e \<Longrightarrow> convert child st True (depth + 1) rest out = (Some r, o') \<Longrightarrow>
      \<exists>ts x. ber_encodes_list ts x \<and> rest = x @ 0 # 0 # r"
    and all: "\<And>c s r o'. skip_header e rest = (Some c, s) \<Longrightarrow> \<not> indefinite e \<Longrightarrow> convert child st False (depth + 1) c out = (Some r, o') \<Longrightarrow>
      \<exists>ts. ber_encodes_list ts c"
  shows "\<exists>t x. ber_encodes t x \<and> inp = x @ r"
  using assms(1)
proof (cases rule: get_ber_cases)
  case (definite tag l c)
  show ?thesis
  proof (cases "tag AND CBS_ASN1_CONSTRUCTED = 0")
    case True
    then have "ber_encodes (Primitive tag c) (asn1_tag_bytes tag @ l @ c)" "r = rest"
      using definite assms(2) ber_encodes_ber_encodes_list.primitive
      by (auto simp: convert_contents_def split: option.splits prod.splits)
    then show ?thesis using definite by auto
  next
    case False
    then obtain ts where "ber_encodes_list ts c" "r = rest"
      using definite assms(2) all [of c rest]
      by (auto simp: convert_contents_def split: option.splits prod.splits if_splits)
    then show ?thesis using definite False ber_encodes_ber_encodes_list.definite [of tag ts c l] by auto
  qed
next
  case (indefinite tag)
  then obtain ts x where "ber_encodes_list ts x" "rest = x @ 0 # 0 # r"
    using assms(2) eoc by (auto simp: convert_contents_def split: if_splits)
  then show ?thesis using indefinite ber_encodes_ber_encodes_list.indefinite [of tag ts x] by auto
qed

lemma convert_loop_encodes:
  "convert_loop d st eoc depth inp out = (Some r, out') \<Longrightarrow>
     (\<not> eoc \<longrightarrow> r = []) \<and> (\<exists>ts x. ber_encodes_list ts x \<and> inp = x @ (if eoc then 0 # 0 # r else []))"
proof (induction d st eoc depth inp out arbitrary: r out' rule: convert_loop.induct)
  case (1 d st eoc depth inp out)
  show ?case
  proof (cases "length inp > 0")
    case False
    then show ?thesis using "1.prems" ber_encodes_ber_encodes_list.none
      unfolding convert_loop.simps [of d st eoc depth inp out] by (auto split: if_splits)
  next
    case pos: True
    obtain u r0 where start: "(if eoc then cbs_get_eoc inp else (None, inp)) = (u, r0)" by fastforce
    show ?thesis
    proof (cases u)
      case (Some v)
      then have "eoc" "inp = 0 # 0 # r" using start "1.prems" pos get_eoc_Some
        unfolding convert_loop.simps [of d st eoc depth inp out] by (auto split: if_splits)
      then show ?thesis using ber_encodes_ber_encodes_list.none by fastforce
    next
      case None
      note start = start [unfolded None]
      obtain e r1 child cst o1 r2 o2 w o3 where step: "CBS_get_any_ber_asn1_element inp = (Some e, r1)"
        "convert_open d st e out = (Some (child, cst), o1)"
        "convert_contents convert_loop child cst depth e r1 o1 = (Some r2, o2)"
        "CBB_flush d o2 = (Some w, o3)" "convert_loop d st eoc depth r2 o3 = (Some r, out')"
        using "1.prems" pos unfolding convert_loop.simps [of d st eoc depth inp]
        by (auto simp: start split: option.splits prod.splits)
      note IH = "1.IH" [OF pos start [symmetric] refl step(1) [symmetric] refl step(2) [symmetric] refl refl]
      obtain t x where t: "ber_encodes t x" "inp = x @ r2"
      proof -
        have "\<exists>t x. ber_encodes t x \<and> inp = x @ r2"
          using step(1,3)
        proof (rule element_encodes)
          show "\<exists>ts x. ber_encodes_list ts x \<and> r1 = x @ 0 # 0 # r"
            if "indefinite e" "convert_loop child cst True (depth + 1) r1 o1 = (Some r, o')" for r o'
            using IH(1) [OF that(1)] that(2) by simp
          show "\<exists>ts. ber_encodes_list ts c"
            if "skip_header e r1 = (Some c, s)" "\<not> indefinite e" "convert_loop child cst False (depth + 1) c o1 = (Some r, o')" for c s r o'
            using IH(2) [OF that(2,1)] that(3) by simp
        qed
        then show thesis using that by blast
      qed
      have "(\<not> eoc \<longrightarrow> r = []) \<and> (\<exists>ts x. ber_encodes_list ts x \<and> r2 = x @ (if eoc then 0 # 0 # r else []))"
        using "1.IH"(3) [OF pos start [symmetric] refl step(1) [symmetric] refl step(2) [symmetric] refl refl
            step(3) [symmetric] refl step(4) [symmetric] refl step(5)] .
      then show ?thesis using t ber_encodes_ber_encodes_list.more [OF t(1)] by fastforce
    qed
  qed
qed

lemma find_ber_encodes:
  "find_ber_loop depth inp = Some False \<Longrightarrow> \<exists>ts. ber_encodes_list ts inp"
proof (induction depth inp rule: find_ber_loop.induct)
  case (1 depth inp)
  show ?case
  proof (cases "length inp > 0")
    case False
    then show ?thesis using ber_encodes_ber_encodes_list.none by auto
  next
    case pos: True
    then obtain e rest where e: "CBS_get_any_ber_asn1_element inp = (Some e, rest)" "\<not> ber_found e"
      using "1.prems" unfolding find_ber_loop.simps [of depth inp] by (auto split: option.splits prod.splits if_splits)
    obtain tag l c where el: "valid_asn1_tag tag" "ber_length (length c) l" "inp = asn1_tag_bytes tag @ l @ c @ rest"
      "e = ber_definite tag l c"
      using e(1) by (cases rule: get_ber_cases) (use e(2) in auto)
    note IH = "1.IH" [OF pos e(1) [symmetric] refl e(2)]
    have rest: "find_ber_loop depth rest = Some False"
      and inner: "tag AND CBS_ASN1_CONSTRUCTED \<noteq> 0 \<Longrightarrow> \<not> is_string_type tag \<and> depth + 1 \<le> kMaxDepth \<and> find_ber_loop (depth + 1) c = Some False"
      using "1.prems" pos e el(4) unfolding find_ber_loop.simps [of depth inp]
      by (auto split: option.splits if_splits)
    obtain ts where ts: "ber_encodes_list ts rest"
    proof (cases "tag AND CBS_ASN1_CONSTRUCTED = 0")
      case True
      then show thesis using that IH(3) rest el(4) by auto
    next
      case False
      then show thesis using that IH(2) [of "Some c" rest c False] rest inner el(4) by auto
    qed
    have "\<exists>t. ber_encodes t (asn1_tag_bytes tag @ l @ c)"
    proof (cases "tag AND CBS_ASN1_CONSTRUCTED = 0")
      case True
      then show ?thesis using ber_encodes_ber_encodes_list.primitive el(1,2) by blast
    next
      case False
      then obtain cs where "ber_encodes_list cs c" using IH(1) inner el(4) by (auto split: if_splits)
      then show ?thesis using ber_encodes_ber_encodes_list.definite [OF el(1) False _ el(2)] by blast
    qed
    then show ?thesis using ber_encodes_ber_encodes_list.more [OF _ ts] el(3) by fastforce
  qed
qed

section \<open>The result is DER\<close>

lemma ber_length_der: "n < 2 ^ 32 \<Longrightarrow> ber_length n (der_length n)"
proof (cases "n < 128")
  case False
  assume "n < 2 ^ 32"
  then have "1 \<le> der_len_len n" "der_len_len n \<le> 4" "be_nat (nat_be (der_len_len n) n) = n"
    using der_len_len_bounds [of n] False by (simp_all add: be_nat_nat_be)
  then show ?thesis
    using False by (auto simp: ber_length_def der_length_def intro!: exI [of _ "nat_be (der_len_len n) n"])
qed (simp add: ber_length_def der_length_def)

lemma find_ber_element:
  assumes "valid_asn1_tag tag" "length c < 2 ^ 32"
    and "tag AND CBS_ASN1_CONSTRUCTED \<noteq> 0 \<Longrightarrow>
      \<not> is_string_type tag \<and> depth + 1 \<le> kMaxDepth \<and> find_ber_loop (depth + 1) c = Some False"
  shows "find_ber_loop depth (der_element tag c @ rest) = find_ber_loop depth rest"
  using get_ber_definite [OF assms(1) ber_length_der [OF assms(2)], of rest] assms(3) length_asn1_tag_bytes(2) [of tag]
  by (cases "tag AND CBS_ASN1_CONSTRUCTED = 0")
    (simp_all add: find_ber_loop.simps [of depth "_ @ _"] der_element_def der_header_def)

lemma find_ber_wrapped:
  assumes "wrapped 0 tag (nested_der depth (inner_string_tag 0 tag) ts) = Some y" "valid_asn1_tag tag"
    "tag AND CBS_ASN1_CONSTRUCTED \<noteq> 0" "ber_encodes_list ts c" "length c < 2 ^ 31"
    and IH: "\<And>b. ber_der_list (depth + 1) 0 ts = Some b \<Longrightarrow> find_ber_loop (depth + 1) b = Some False"
  shows "find_ber_loop depth (y @ rest) = find_ber_loop depth rest"
proof -
  obtain b where b: "nested_der depth (inner_string_tag 0 tag) ts = Some b" "wrapped 0 tag (Some b) = Some y"
    using assms(1) by (auto simp: wrapped_def split: if_splits)
  have small: "length b < 2 ^ 32" using nested_der_fits [OF b(1) assms(4,5)] by simp
  show ?thesis
  proof (cases "is_string_type tag")
    case True
    then have "y = der_element (tag AND NOT CBS_ASN1_CONSTRUCTED) b" using b(2) assms(3) by (simp add: wrapped_def)
    moreover have "valid_asn1_tag (tag AND NOT CBS_ASN1_CONSTRUCTED)"
      "(tag AND NOT CBS_ASN1_CONSTRUCTED) AND CBS_ASN1_CONSTRUCTED = 0"
      using assms(2) by (simp_all add: valid_asn1_tag_def and.assoc)
    ultimately show ?thesis using find_ber_element [OF _ small] by simp
  next
    case False
    then have "y = der_element tag b" "depth + 1 \<le> kMaxDepth" "ber_der_list (depth + 1) 0 ts = Some b"
      using b assms(3) by (auto simp: wrapped_def nested_der_def inner_string_tag_def split: if_splits)
    then show ?thesis using find_ber_element [OF assms(2) small] False IH by simp
  qed
qed

lemma find_ber_result:
  "ber_encodes t x \<Longrightarrow> length x < 2 ^ 31 \<Longrightarrow> ber_der depth 0 t = Some y \<Longrightarrow>
     find_ber_loop depth (y @ rest) = find_ber_loop depth rest"
  "ber_encodes_list ts xs \<Longrightarrow> length xs < 2 ^ 31 \<Longrightarrow> ber_der_list depth 0 ts = Some ys \<Longrightarrow>
     find_ber_loop depth ys = Some False"
proof (induction t x and ts xs arbitrary: depth y rest and depth ys rule: ber_encodes_ber_encodes_list.inducts)
  case (primitive tag c l)
  then have "y = der_element tag c" by (simp add: ber_der_wrapped wrapped_def)
  moreover have "length c < 2 ^ 32" using primitive.prems(1) by simp
  ultimately show ?case using find_ber_element [OF primitive.hyps(1)] primitive.hyps(2) by simp
next
  case (definite tag ts c l)
  have c: "length c < 2 ^ 31" using definite.prems(1) by simp
  show ?case
    using definite.prems(2) definite.hyps(1-3) c definite.IH [OF c] by (intro find_ber_wrapped) (simp_all add: ber_der_wrapped)
next
  case (indefinite tag ts c)
  have c: "length c < 2 ^ 31" using indefinite.prems(1) by simp
  show ?case
    using indefinite.prems(2) indefinite.hyps(1-3) c indefinite.IH [OF c] by (intro find_ber_wrapped) (simp_all add: ber_der_wrapped)
next
  case none
  then show ?case by (simp add: find_ber_loop.simps [of depth "[]"])
next
  case (more t x ts xs)
  have small: "length x < 2 ^ 31" "length xs < 2 ^ 31" using more.prems(1) by simp_all
  obtain a b where "ber_der depth 0 t = Some a" "ber_der_list depth 0 ts = Some b" "ys = a @ b"
    using more.prems(2) by (cases "ber_der depth 0 t"; cases "ber_der_list depth 0 ts") auto
  then show ?case using more.IH(1) [OF small(1), of depth a b] more.IH(2) [OF small(2), of depth b] by simp
qed

lemma get_any_unchanged:
  assumes "ber_encodes t x" "length x < 2 ^ 31" "ber_der 0 0 t = Some y"
  shows "CBS_asn1_ber_to_der h y = (Some (y, None), [])"
proof -
  have "find_ber_loop 0 y = Some False"
    using find_ber_result(1) [OF assms, of "[]"] by (simp add: find_ber_loop.simps [of 0 "[]"])
  moreover obtain tag c where y: "valid_asn1_tag tag" "y = der_element tag c"
    using ber_der_element [OF assms(1,3)] by blast
  have "length y \<le> 2 * length x" using ber_der_length(1) [OF assms] .
  then have "length c < 2 ^ 32" using assms(2) y(2) by (simp add: der_element_def)
  then have "CBS_get_any_asn1_element y = (Some (der_result tag c), [])" "element (der_result tag c) = y"
    using der_element_get [OF y(1), of c "[]"] y(2) by simp_all
  ultimately show ?thesis by (simp add: CBS_asn1_ber_to_der_def cbs_find_ber_def)
qed

lemma converted_was_encoding:
  assumes "CBS_asn1_ber_to_der h x = (Some (y, storage), rest)" "length x < 2 ^ 31" "heap_total h"
  shows "\<exists>ts. ber_encodes_list ts x \<and>
    (if storage = None then ber_der_list 0 0 ts = Some x \<and> x = y @ rest else ber_der_list 0 0 ts = Some y \<and> rest = [])"
proof (cases "cbs_find_ber x 0")
  case None
  then show ?thesis using assms(1) by (simp add: CBS_asn1_ber_to_der_def)
next
  case (Some found)
  show ?thesis
  proof (cases found)
    case False
    then obtain ts where ts: "ber_encodes_list ts x" using Some find_ber_encodes [of 0 x] by (auto simp: cbs_find_ber_def)
    then have "ber_der_list 0 0 ts = Some x"
      using find_ber_der(2) [OF ts assms(2), of 0] Some False by (simp add: cbs_find_ber_def)
    moreover obtain e where "CBS_get_any_asn1_element x = (Some e, rest)" "y = element e" "storage = None"
      using assms(1) Some False by (auto simp: CBS_asn1_ber_to_der_def split: prod.splits option.splits)
    moreover from this have "x = y @ rest" using any_asn1_element_accepts_iff [of x e rest] by auto
    ultimately show ?thesis using ts by auto
  next
    case True
    obtain cbb cbb' r where "convert_loop 0 0 False 0 x cbb = (Some r, cbb')"
      using assms(1) Some True
      by (auto simp: CBS_asn1_ber_to_der_def cbs_convert_ber_def kMaxDepth_def split: prod.splits option.splits)
    then obtain ts where ts: "ber_encodes_list ts x" using convert_loop_encodes [of 0 0 False 0 x] by fastforce
    then show ?thesis
      using convert_elements [OF ts assms(2,3)] assms(1) Some True by (cases "ber_der_list 0 0 ts") auto
  qed
qed

section \<open>Strings in pieces\<close>

lemma implicit_string_pieces:
  assumes "valid_asn1_tag tag" "length (concat (map (der_element tag) cs)) < 2 ^ 32"
  shows "converts 0 (Some (concat cs)) () (implicit_string_loop tag (concat (map (der_element tag) cs)))"
  using assms(2)
proof (induction cs)
  case Nil
  have "implicit_string_loop tag [] = op_return ()" by (simp add: fun_eq_iff implicit_string_loop.simps [of tag "[]"] op_simps)
  then show ?case by simp
next
  case (Cons c cs)
  let ?r = "concat (map (der_element tag) cs)"
  have small: "length c < 2 ^ 32" "length c < size_mod" using Cons.prems by (simp_all add: der_element_def size_mod_def)
  have ne: "der_element tag c \<noteq> []" using length_asn1_tag_bytes(2) [of tag] by (simp add: der_element_def der_header_def)
  have "CBS_get_asn1 tag (der_element tag c @ ?r) = (Some c, ?r)" using assms(1) small(1) by (simp add: CBS_get_asn1_accepts_iff)
  then have "implicit_string_loop tag (der_element tag c @ ?r)
    = op_bind (CBB_add_bytes 0 c) (\<lambda>_. implicit_string_loop tag ?r)"
    using ne by (simp add: fun_eq_iff implicit_string_loop.simps [of tag "_ @ _"] op_bind_def split: prod.split option.split)
  then show ?case
    using converts_bind [OF converts_emits [OF bytes_writer.writes [OF small(2)]] Cons.IH] Cons.prems by simp
qed

lemma implicit_string_concatenates:
  assumes outer: "valid_asn1_tag (outer OR CBS_ASN1_CONSTRUCTED)" "outer AND CBS_ASN1_CONSTRUCTED = 0"
    and "valid_asn1_tag tag" "heap_total h" "length (concat (map (der_element tag) cs)) < 2 ^ 32" "length rest < 2 ^ 32"
  shows "\<exists>storage. CBS_get_asn1_implicit_string h outer tag
      (der_element (outer OR CBS_ASN1_CONSTRUCTED) (concat (map (der_element tag) cs)) @ rest) = (Some (concat cs, Some storage), rest)"
proof -
  let ?c = "concat (map (der_element tag) cs)"
  let ?x = "der_element (outer OR CBS_ASN1_CONSTRUCTED) ?c @ rest"
  have "outer \<noteq> outer OR CBS_ASN1_CONSTRUCTED"
  proof
    assume "outer = outer OR CBS_ASN1_CONSTRUCTED"
    then have "outer AND CBS_ASN1_CONSTRUCTED = (outer OR CBS_ASN1_CONSTRUCTED) AND CBS_ASN1_CONSTRUCTED" by simp
    also have "\<dots> = CBS_ASN1_CONSTRUCTED" by (simp add: bit_eq_iff bit_simps)
    finally show False using outer(2) by (simp add: CBS_ASN1_CONSTRUCTED_def CBS_ASN1_TAG_SHIFT_def)
  qed
  then have peek: "\<not> CBS_peek_asn1_tag ?x outer"
    using asn1_tag_codec.get_put [OF outer(1)] by (simp add: CBS_peek_asn1_tag_def der_element_def der_header_def)
  have get: "CBS_get_asn1 (outer OR CBS_ASN1_CONSTRUCTED) ?x = (Some ?c, rest)"
    using outer(1) assms(5) by (simp add: CBS_get_asn1_accepts_iff)
  have "length (concat cs) \<le> length ?c" by (induction cs) (simp_all add: der_element_def)
  then have "length (concat cs) < 2 ^ 62" using assms(5) by simp
  moreover have "length ?x < 2 ^ 62"
    using assms(5,6) length_asn1_tag_bytes(1) [of "outer OR CBS_ASN1_CONSTRUCTED"] length_der_length(1) [OF assms(5)]
    by (simp add: der_element_def der_header_def)
  ultimately show ?thesis
    using init_converts_finish [OF implicit_string_pieces [OF assms(3,5)] assms(4), of "length ?x"] peek get
    by (auto simp: CBS_get_asn1_implicit_string_def)
qed

section \<open>The result of an encoder\<close>

lemma finish_i2d_emits:
  assumes "emits 0 xs m" "heap_total h" "cap < 2 ^ 62" "length xs < 2 ^ 62"
  shows "\<exists>c. CBB_init cap h = (Some (), c) \<and>
    (case fst (op_bind m (\<lambda>_. CBB_finish_i2d (Some None)) c) of
       None \<Rightarrow> length xs > INT_MAX
     | Some (n, outp) \<Rightarrow> n = length xs \<and> (\<exists>der. outp = Some (Some der) \<and> take n der = xs))"
proof -
  obtain c c' buf where c: "CBB_init cap h = (Some (), c)"
    "op_bind m (\<lambda>_. CBB_finish 0 True) c = (Some (buf, length xs), c')" "take (length xs) buf = xs"
    using finish_emits [OF assms] by metis
  then obtain u c1 where "m c = (Some u, c1)" "CBB_finish 0 True c1 = (Some (buf, length xs), c')"
    by (auto simp: op_bind_eq_Some)
  then show ?thesis using c(1,3) by (auto simp: CBB_finish_i2d_def)
qed

end
