(* ===== verification/BufMem.thy ===== *)
theory BufMem
  imports Mem
begin

text \<open>
  The growing memory buffer \<open>BUF_MEM\<close> (\<open>crypto/buf/buf.c\<close>). Its contents are the first \<open>length\<close> bytes of the
  allocated ones, and its operations are those of a list of bytes, which may fail and then change
  nothing. Each call has its own answer of the allocator.
\<close>

record buf_mem =
  mem_length :: nat
  mem_data :: "bytes option"
  mem_max :: nat

definition BUF_MEM_new :: buf_mem where
  "BUF_MEM_new = \<lparr>mem_length = 0, mem_data = None, mem_max = 0\<rparr>"

definition BUF_MEM_reserve :: "heap \<Rightarrow> nat \<Rightarrow> (buf_mem, unit) op" where
  "BUF_MEM_reserve h cap buf =
     (if mem_max buf \<ge> cap then (Some (), buf)
      else
        let n = size_add cap 3
        in if n < cap then (None, buf)
           else
             let n = n div 3; alloc_size = size_mul n 4
             in if alloc_size div 4 \<noteq> n then (None, buf)
                else
                  (case OPENSSL_realloc h (mem_data buf) alloc_size of
                     None \<Rightarrow> (None, buf)
                   | Some new_buf \<Rightarrow> (Some (), buf\<lparr>mem_data := Some new_buf, mem_max := alloc_size\<rparr>)))"

text \<open>The bytes that the pointer \<open>data\<close> points to; a write to \<open>NULL\<close> is of no bytes.\<close>

definition mem_write :: "nat \<Rightarrow> bytes \<Rightarrow> buf_mem \<Rightarrow> buf_mem" where
  "mem_write i xs buf = buf\<lparr>mem_data := map_option (memcpy_at i xs) (mem_data buf)\<rparr>"

definition BUF_MEM_grow :: "heap \<Rightarrow> nat \<Rightarrow> buf_mem \<Rightarrow> nat \<times> buf_mem" where
  "BUF_MEM_grow h len buf =
     (case BUF_MEM_reserve h len buf of
        (None, buf) \<Rightarrow> (0, buf)
      | (Some _, buf) \<Rightarrow>
          let buf = (if mem_length buf < len then mem_write (mem_length buf) (replicate (len - mem_length buf) 0) buf else buf)
          in (len, buf\<lparr>mem_length := len\<rparr>))"

definition BUF_MEM_grow_clean :: "heap \<Rightarrow> nat \<Rightarrow> buf_mem \<Rightarrow> nat \<times> buf_mem" where
  "BUF_MEM_grow_clean h len buf = BUF_MEM_grow h len buf"

definition BUF_MEM_append :: "heap \<Rightarrow> bytes \<Rightarrow> (buf_mem, unit) op" where
  "BUF_MEM_append h inp buf =
     (if length inp = 0 then (Some (), buf)
      else
        let new_len = size_add (mem_length buf) (length inp)
        in if new_len < length inp then (None, buf)
           else
             (case BUF_MEM_reserve h new_len buf of
                (None, buf) \<Rightarrow> (None, buf)
              | (Some _, buf) \<Rightarrow> (Some (), (mem_write (mem_length buf) inp buf)\<lparr>mem_length := new_len\<rparr>)))"

text \<open>Strings: the functions of \<open>mem.c\<close> under their older names.\<close>

definition BUF_strdup :: "heap \<Rightarrow> bytes option \<Rightarrow> bytes option" where "BUF_strdup h str = OPENSSL_strdup h str"
definition BUF_strnlen :: "bytes \<Rightarrow> nat \<Rightarrow> nat" where "BUF_strnlen str max_len = OPENSSL_strnlen str max_len"
definition BUF_strndup :: "heap \<Rightarrow> bytes \<Rightarrow> nat \<Rightarrow> bytes option" where "BUF_strndup h str sz = OPENSSL_strndup h str sz"
definition BUF_strlcpy :: "bytes \<Rightarrow> bytes \<Rightarrow> nat \<Rightarrow> (bytes \<times> nat) option" where
  "BUF_strlcpy dst src dst_size = OPENSSL_strlcpy dst src dst_size"
definition BUF_strlcat :: "bytes \<Rightarrow> bytes \<Rightarrow> nat \<Rightarrow> (bytes \<times> nat) option" where
  "BUF_strlcat dst src dst_size = OPENSSL_strlcat dst src dst_size"
definition BUF_memdup :: "heap \<Rightarrow> bytes \<Rightarrow> bytes option" where "BUF_memdup h data = OPENSSL_memdup h data"

section \<open>The buffer as a list\<close>

definition mem_wf :: "buf_mem \<Rightarrow> bool" where
  "mem_wf buf \<longleftrightarrow> mem_length buf \<le> mem_max buf \<and> mem_max buf < size_mod
     \<and> (case mem_data buf of None \<Rightarrow> mem_max buf = 0 | Some b \<Rightarrow> length b = mem_max buf)"

definition mem_contents :: "buf_mem \<Rightarrow> bytes" where
  "mem_contents buf = take (mem_length buf) (case mem_data buf of None \<Rightarrow> [] | Some b \<Rightarrow> b)"

lemma length_contents: "mem_wf buf \<Longrightarrow> length (mem_contents buf) = mem_length buf"
  by (auto simp: mem_wf_def mem_contents_def split: option.splits)

lemma BUF_MEM_new_wf: "mem_wf BUF_MEM_new" "mem_contents BUF_MEM_new = []"
  by (simp_all add: mem_wf_def mem_contents_def BUF_MEM_new_def size_mod_def)

text \<open>The size that is asked for is a third more than what is needed, and never less.\<close>

lemma reserve_size:
  assumes "cap < size_mod" "\<not> size_add cap 3 < cap" "size_mul (size_add cap 3 div 3) 4 div 4 = size_add cap 3 div 3"
  shows "cap < size_mul (size_add cap 3 div 3) 4" "size_mul (size_add cap 3 div 3) 4 < size_mod"
proof -
  have n: "size_add cap 3 = cap + 3" using assms(1,2) size_add_wraps [of cap 3] size_add_exact [of cap 3]
    by (cases "cap + 3 < size_mod") (simp_all add: size_mod_def)
  have "4 * ((cap + 3) div 3) mod size_mod = size_mul (size_add cap 3 div 3) 4" by (simp add: n size_mul_def mult.commute)
  moreover have "(cap + 3) div 3 * 4 < size_mod"
  proof (rule ccontr)
    assume "\<not> (cap + 3) div 3 * 4 < size_mod"
    moreover have "size_mul (size_add cap 3 div 3) 4 div 4 \<le> (size_mod - 1) div 4"
      by (rule div_le_mono) (simp add: size_mul_def size_mod_def mod_less_divisor less_Suc_eq_le [symmetric])
    ultimately show False using assms(3) by (simp add: n size_mod_def)
  qed
  ultimately show "cap < size_mul (size_add cap 3 div 3) 4" "size_mul (size_add cap 3 div 3) 4 < size_mod"
    by (simp_all add: n size_mul_def)
qed

lemma BUF_MEM_reserve_spec:
  assumes "mem_wf buf" "heap_ok h" "cap < size_mod" "BUF_MEM_reserve h cap buf = (r, buf')"
  shows "mem_wf buf' \<and> mem_length buf' = mem_length buf \<and> mem_contents buf' = mem_contents buf
    \<and> (r = None \<longrightarrow> buf' = buf) \<and> (r \<noteq> None \<longrightarrow> cap \<le> mem_max buf')"
proof (cases "cap \<le> mem_max buf \<or> r = None")
  case True
  then show ?thesis using assms(1,4) by (auto simp: BUF_MEM_reserve_def Let_def split: if_splits option.splits)
next
  case False
  let ?n = "size_mul (size_add cap 3 div 3) 4"
  have "\<not> size_add cap 3 < cap" "?n div 4 = size_add cap 3 div 3"
    using False assms(4) by (auto simp: BUF_MEM_reserve_def Let_def split: if_splits)
  then obtain b where b: "OPENSSL_realloc h (mem_data buf) ?n = Some b" "buf' = buf\<lparr>mem_data := Some b, mem_max := ?n\<rparr>"
    using False assms(4) by (auto simp: BUF_MEM_reserve_def Let_def split: option.splits)
  note s = reserve_size [OF assms(3) \<open>\<not> size_add cap 3 < cap\<close> \<open>?n div 4 = size_add cap 3 div 3\<close>]
  have max: "mem_max buf < ?n" using False s(1) by simp
  show ?thesis
  proof (cases "mem_data buf")
    case None
    then have "OPENSSL_malloc h ?n = Some b" "mem_max buf = 0" "mem_length buf = 0"
      using b(1) assms(1) by (auto simp: OPENSSL_realloc_def mem_wf_def)
    then show ?thesis using OPENSSL_malloc_length [OF assms(2) _ s(2)] b(2) s None False by (auto simp: mem_wf_def mem_contents_def)
  next
    case (Some old)
    then have old: "length old = mem_max buf" using assms(1) by (simp add: mem_wf_def)
    have new: "length b = ?n" "take (length old) b = old"
      using OPENSSL_realloc_spec [OF assms(2) _ _ s(2), of old b] b(1) Some old max by simp_all
    have "take (mem_length buf) b = take (mem_length buf) (take (length old) b)"
      using assms(1) old by (simp add: mem_wf_def)
    then have "take (mem_length buf) b = take (mem_length buf) old" using new(2) by simp
    then show ?thesis using new(1) b(2) s assms(1) max Some False by (auto simp: mem_wf_def mem_contents_def)
  qed
qed

text \<open>The reservation succeeds when there is memory and the sizes can be computed.\<close>

lemma BUF_MEM_reserve_succeeds:
  assumes "\<And>n. n < 2 ^ 63 \<Longrightarrow> h n \<noteq> None" "cap < 2 ^ 62"
  shows "fst (BUF_MEM_reserve h cap buf) \<noteq> None"
proof -
  have n: "size_add cap 3 = cap + 3" using assms(2) size_add_exact [of cap 3] by (simp add: size_mod_def)
  have le: "(cap + 3) div 3 * 4 < 2 ^ 63 - 8" using assms(2) by simp
  have m: "size_mul ((cap + 3) div 3) 4 = (cap + 3) div 3 * 4" using le by (simp add: size_mul_def size_mod_def)
  have "OPENSSL_malloc h ((cap + 3) div 3 * 4) \<noteq> None"
    using assms(1) [of "(cap + 3) div 3 * 4 + 8"] le size_add_exact [of "(cap + 3) div 3 * 4" 8]
    by (auto simp: OPENSSL_malloc_def OPENSSL_MALLOC_PREFIX_def size_mod_def split: option.splits)
  then obtain b where "OPENSSL_realloc h (mem_data buf) ((cap + 3) div 3 * 4) = Some b"
    by (cases "mem_data buf") (auto simp: OPENSSL_realloc_def Let_def split: option.splits)
  then show ?thesis by (auto simp: BUF_MEM_reserve_def Let_def n m split: option.splits)
qed

lemma mem_write_contents:
  assumes "mem_wf buf" "mem_length buf + length xs \<le> mem_max buf"
  shows "mem_wf ((mem_write (mem_length buf) xs buf)\<lparr>mem_length := mem_length buf + length xs\<rparr>)"
    "mem_contents ((mem_write (mem_length buf) xs buf)\<lparr>mem_length := mem_length buf + length xs\<rparr>) = mem_contents buf @ xs"
  using assms by (auto simp: mem_wf_def mem_write_def mem_contents_def memcpy_at_def split: option.splits)

section \<open>Operations on the list\<close>

lemma BUF_MEM_append_spec:
  assumes "mem_wf buf" "heap_ok h" "length xs < size_mod" "BUF_MEM_append h xs buf = (r, buf')"
  shows "mem_wf buf' \<and> mem_contents buf' = (if r = None then mem_contents buf else mem_contents buf @ xs)"
proof (cases "xs = []")
  case True
  then show ?thesis using assms by (auto simp: BUF_MEM_append_def)
next
  case False
  let ?n = "size_add (mem_length buf) (length xs)"
  have small: "mem_length buf < size_mod" using assms(1) by (simp add: mem_wf_def)
  show ?thesis
  proof (cases "?n < length xs")
    case True
    then show ?thesis using assms False by (auto simp: BUF_MEM_append_def)
  next
    case fits: False
    then have n: "?n = mem_length buf + length xs"
      using size_add_exact [of "mem_length buf" "length xs"] size_add_wraps [of "length xs" "mem_length buf"] small assms(3)
      by (cases "mem_length buf + length xs < size_mod") (simp_all add: size_add_def add.commute)
    obtain r1 b1 where res: "BUF_MEM_reserve h ?n buf = (r1, b1)" by fastforce
    have "?n < size_mod" by (simp add: size_add_def size_mod_def)
    note s = BUF_MEM_reserve_spec [OF assms(1,2) this res]
    show ?thesis
    proof (cases r1)
      case None
      then show ?thesis using assms(1,4) s fits False res by (auto simp: BUF_MEM_append_def Let_def)
    next
      case (Some u)
      then show ?thesis using assms(4) s fits False res mem_write_contents [of b1 xs] n
        by (auto simp: BUF_MEM_append_def Let_def)
    qed
  qed
qed

lemma BUF_MEM_grow_spec:
  assumes "mem_wf buf" "heap_ok h" "len < size_mod" "BUF_MEM_grow h len buf = (n, buf')"
  shows "mem_wf buf' \<and> (n = len \<and> mem_contents buf' = take len (mem_contents buf) @ replicate (len - mem_length buf) 0
    \<or> n = 0 \<and> buf' = buf \<and> mem_max buf < len)"
proof -
  obtain r1 b1 where res: "BUF_MEM_reserve h len buf = (r1, b1)" by fastforce
  note s = BUF_MEM_reserve_spec [OF assms(1-3) res]
  show ?thesis
  proof (cases r1)
    case None
    then have "\<not> len \<le> mem_max buf" using res by (auto simp: BUF_MEM_reserve_def)
    then show ?thesis using assms(1,4) s res None by (auto simp: BUF_MEM_grow_def)
  next
    case (Some u)
    show ?thesis
    proof (cases "mem_length buf < len")
      case True
      then show ?thesis
        using assms(4) s Some res mem_write_contents [of b1 "replicate (len - mem_length buf) 0"] length_contents [OF assms(1)]
        by (auto simp: BUF_MEM_grow_def Let_def)
    next
      case False
      have "mem_contents (b1\<lparr>mem_length := len\<rparr>) = take len (mem_contents b1)"
        using False s by (auto simp: mem_contents_def split: option.splits)
      moreover have "mem_wf (b1\<lparr>mem_length := len\<rparr>)" using s False by (auto simp: mem_wf_def split: option.splits)
      ultimately show ?thesis using assms(4) s Some res False by (auto simp: BUF_MEM_grow_def Let_def)
    qed
  qed
qed

text \<open>A program of calls.\<close>

datatype mem_cmd = Append bytes | Grow nat | Reserve nat

fun run_mem :: "(nat \<Rightarrow> heap) \<Rightarrow> mem_cmd list \<Rightarrow> buf_mem \<Rightarrow> bool list \<times> buf_mem" where
  "run_mem h [] buf = ([], buf)"
| "run_mem h (cmd # cmds) buf =
     (let (done, buf) =
        (case cmd of
           Append xs \<Rightarrow> (case BUF_MEM_append (h 0) xs buf of (r, buf) \<Rightarrow> (r \<noteq> None, buf))
         | Grow n \<Rightarrow> (case BUF_MEM_grow (h 0) n buf of (m, buf) \<Rightarrow> (m = n, buf))
         | Reserve n \<Rightarrow> (case BUF_MEM_reserve (h 0) n buf of (r, buf) \<Rightarrow> (r \<noteq> None, buf)));
        (rs, buf) = run_mem (\<lambda>i. h (Suc i)) cmds buf
      in (done # rs, buf))"

fun list_mem :: "mem_cmd list \<Rightarrow> bool list \<Rightarrow> bytes \<Rightarrow> bytes" where
  "list_mem (cmd # cmds) (r # rs) xs =
     list_mem cmds rs
       (if \<not> r then xs
        else case cmd of Append ys \<Rightarrow> xs @ ys | Grow n \<Rightarrow> take n xs @ replicate (n - length xs) 0 | Reserve n \<Rightarrow> xs)"
| "list_mem _ _ xs = xs"

fun mem_cmd_ok :: "mem_cmd \<Rightarrow> bool" where
  "mem_cmd_ok (Append xs) \<longleftrightarrow> length xs < size_mod"
| "mem_cmd_ok (Grow n) \<longleftrightarrow> n < size_mod"
| "mem_cmd_ok (Reserve n) \<longleftrightarrow> n < size_mod"

lemma run_mem_refines:
  "mem_wf buf \<Longrightarrow> \<forall>i. heap_ok (h i) \<Longrightarrow> list_all mem_cmd_ok cmds \<Longrightarrow> run_mem h cmds buf = (rs, buf') \<Longrightarrow>
     mem_wf buf' \<and> mem_contents buf' = list_mem cmds rs (mem_contents buf)"
proof (induction cmds arbitrary: h buf rs)
  case Nil
  then show ?case by simp
next
  case (Cons cmd cmds)
  let ?step = "case cmd of
           Append xs \<Rightarrow> (case BUF_MEM_append (h 0) xs buf of (r, buf) \<Rightarrow> (r \<noteq> None, buf))
         | Grow n \<Rightarrow> (case BUF_MEM_grow (h 0) n buf of (m, buf) \<Rightarrow> (m = n, buf))
         | Reserve n \<Rightarrow> (case BUF_MEM_reserve (h 0) n buf of (r, buf) \<Rightarrow> (r \<noteq> None, buf))"
  obtain r b where rb: "?step = (r, b)" by fastforce
  then obtain rs' where rs: "run_mem (\<lambda>i. h (Suc i)) cmds b = (rs', buf')" "rs = r # rs'"
    using Cons.prems(4) by (auto simp: Let_def split: prod.splits)
  have ok: "heap_ok (h 0)" using Cons.prems(2) by blast
  have "mem_wf b \<and> mem_contents b = list_mem [cmd] [r] (mem_contents buf)"
  proof (cases cmd)
    case (Append xs)
    then show ?thesis
      using BUF_MEM_append_spec [OF Cons.prems(1) ok, of xs "fst (BUF_MEM_append (h 0) xs buf)" b] rb Cons.prems(3)
      by (auto split: prod.splits)
  next
    case (Grow n)
    then show ?thesis
      using BUF_MEM_grow_spec [OF Cons.prems(1) ok, of n "fst (BUF_MEM_grow (h 0) n buf)" b] rb Cons.prems(3)
        length_contents [OF Cons.prems(1)]
      by (auto split: prod.splits)
  next
    case (Reserve n)
    then show ?thesis
      using BUF_MEM_reserve_spec [OF Cons.prems(1) ok, of n "fst (BUF_MEM_reserve (h 0) n buf)" b] rb Cons.prems(3)
      by (auto split: prod.splits)
  qed
  moreover from this have "mem_wf buf' \<and> mem_contents buf' = list_mem cmds rs' (mem_contents b)"
    using Cons.IH [of b "\<lambda>i. h (Suc i)" rs'] Cons.prems(2,3) rs(1) by simp
  ultimately show ?case using rs(2) by simp
qed

text \<open>With memory and moderate sizes, every call succeeds.\<close>

fun mem_cmd_size :: "mem_cmd \<Rightarrow> nat" where
  "mem_cmd_size (Append xs) = length xs"
| "mem_cmd_size (Grow n) = n"
| "mem_cmd_size (Reserve n) = n"

definition heap_gives :: "(nat \<Rightarrow> heap) \<Rightarrow> bool" where
  "heap_gives h \<longleftrightarrow> (\<forall>i. heap_ok (h i) \<and> (\<forall>n < 2 ^ 63. h i n \<noteq> None))"

lemma run_mem_step_succeeds:
  assumes "mem_wf buf" "heap_gives h" "mem_length buf + mem_cmd_size cmd < 2 ^ 62"
  shows "case cmd of
      Append xs \<Rightarrow> fst (BUF_MEM_append (h 0) xs buf) \<noteq> None
    | Grow n \<Rightarrow> fst (BUF_MEM_grow (h 0) n buf) = n
    | Reserve n \<Rightarrow> fst (BUF_MEM_reserve (h 0) n buf) \<noteq> None"
proof -
  have res: "cap < 2 ^ 62 \<Longrightarrow> \<exists>b. BUF_MEM_reserve (h 0) cap buf = (Some (), b)" for cap
    using BUF_MEM_reserve_succeeds [of "h 0" cap buf] assms(2)
    by (cases "BUF_MEM_reserve (h 0) cap buf") (auto simp: heap_gives_def)
  show ?thesis
  proof (cases cmd)
    case (Append xs)
    then have "size_add (mem_length buf) (length xs) = mem_length buf + length xs"
      using assms(3) by (intro size_add_exact) (simp add: size_mod_def)
    then show ?thesis using Append res [of "mem_length buf + length xs"] assms(3) by (auto simp: BUF_MEM_append_def)
  next
    case (Grow n)
    then show ?thesis using res [of n] assms(3) by (auto simp: BUF_MEM_grow_def Let_def)
  next
    case (Reserve n)
    then show ?thesis using res [of n] assms(3) by auto
  qed
qed

lemma run_mem_succeeds:
  "mem_wf buf \<Longrightarrow> heap_gives h \<Longrightarrow> mem_length buf + sum_list (map mem_cmd_size cmds) < 2 ^ 62 \<Longrightarrow>
     run_mem h cmds buf = (rs, buf') \<Longrightarrow> rs = replicate (length cmds) True"
proof (induction cmds arbitrary: h buf rs)
  case Nil
  then show ?case by simp
next
  case (Cons cmd cmds)
  obtain b rs1 where run: "run_mem h [cmd] buf = (rs1, b)" by fastforce
  have small: "mem_length buf + mem_cmd_size cmd < 2 ^ 62" using Cons.prems(3) by simp
  have ok: "list_all mem_cmd_ok [cmd]" using small by (cases cmd) (simp_all add: size_mod_def)
  have heap: "\<forall>i. heap_ok (h i)" using Cons.prems(2) by (simp add: heap_gives_def)
  have "rs1 = [True]"
    using run_mem_step_succeeds [OF Cons.prems(1,2) small] run by (cases cmd) (auto split: prod.splits)
  moreover note spec = run_mem_refines [OF Cons.prems(1) heap ok run]
  ultimately have "mem_contents b = list_mem [cmd] [True] (mem_contents buf)" by simp
  then have "mem_length b \<le> mem_length buf + mem_cmd_size cmd"
    using length_contents [of b] length_contents [of buf] spec Cons.prems(1) by (cases cmd) auto
  moreover obtain rs' where rs: "run_mem (\<lambda>i. h (Suc i)) cmds b = (rs', buf')" "rs = True # rs'"
    using Cons.prems(4) run \<open>rs1 = [True]\<close> by (auto simp: Let_def split: prod.splits)
  moreover have "heap_gives (\<lambda>i. h (Suc i))" using Cons.prems(2) by (simp add: heap_gives_def)
  ultimately show ?case using Cons.IH [of b "\<lambda>i. h (Suc i)" rs'] spec Cons.prems(3) by simp
qed

end
