(* ===== verification/StreamModes.thy ===== *)
theory StreamModes
  imports Mem
begin

text \<open>
  The modes of operation that turn a block cipher into a stream cipher: counter mode (\<open>fipsmodule/modes/ctr.c\<close>),
  output feedback (\<open>ofb.c\<close>) and cipher feedback (\<open>cfb.c\<close>). The block cipher, a function pointer of the code, is an argument:
  a function on 16 bytes, with the key applied. An input of \<open>len\<close> bytes at \<open>in\<close> is the list of its bytes, and the
  result is the list that is written to \<open>out\<close>, which may be the same array but must not overlap otherwise.
\<close>

type_synonym block128 = "bytes \<Rightarrow> bytes"

text \<open>A machine word of a block, with the byte at its offset as the lowest one, is read and written on a 64-bit machine.\<close>

definition load_word_at :: "bytes \<Rightarrow> nat \<Rightarrow> u64" where
  "load_word_at p i = CRYPTO_load_u64_le (take 8 (drop i p))"

definition CRYPTO_xor16 :: "bytes \<Rightarrow> bytes \<Rightarrow> bytes" where
  "CRYPTO_xor16 a b =
     concat (map (\<lambda>i. CRYPTO_store_u64_le (load_word_at a i XOR load_word_at b i)) [0, 8])"

section \<open>Parts of a block\<close>

text \<open>
  The first loop of the modes: what is left of the last block of the keystream is used up. The result is what
  is written, the new \<open>n\<close> and the input that is left.
\<close>

fun use_buffer :: "bytes \<Rightarrow> nat \<Rightarrow> bytes \<Rightarrow> bytes \<times> nat \<times> bytes" where
  "use_buffer buf n [] = ([], n, [])"
| "use_buffer buf n (x # inp) =
     (if n = 0 then ([], n, x # inp)
      else case use_buffer buf ((n + 1) mod 16) inp of (out, rest) \<Rightarrow> ((x XOR buf ! n) # out, rest))"

text \<open>The loop at the end, for less than a block.\<close>

fun use_rest :: "bytes \<Rightarrow> nat \<Rightarrow> bytes \<Rightarrow> bytes \<times> nat" where
  "use_rest buf n [] = ([], n)"
| "use_rest buf n (x # inp) = (case use_rest buf (n + 1) inp of (out, n') \<Rightarrow> ((x XOR buf ! n) # out, n'))"

section \<open>Counter mode\<close>

fun counter_loop :: "nat \<Rightarrow> u32 \<Rightarrow> bytes \<Rightarrow> bytes" where
  "counter_loop 0 c counter = counter"
| "counter_loop (Suc n) c counter =
     (let c = c + ucast (counter ! n) in counter_loop n (drop_bit 8 c) (counter[n := ucast c]))"

definition ctr128_inc :: "bytes \<Rightarrow> bytes" where "ctr128_inc counter = counter_loop 16 1 counter"
definition ctr96_inc :: "bytes \<Rightarrow> bytes" where "ctr96_inc counter = counter_loop 12 1 counter"

record ctr_state =
  ctr_ivec :: bytes
  ecount_buf :: bytes
  ctr_num :: nat

function ctr_blocks :: "block128 \<Rightarrow> bytes \<Rightarrow> ctr_state \<Rightarrow> bytes \<times> bytes \<times> ctr_state" where
  "ctr_blocks block inp s =
     (if length inp \<ge> 16 then
        let buf = block (ctr_ivec s);
            s = s\<lparr>ecount_buf := buf, ctr_ivec := ctr128_inc (ctr_ivec s), ctr_num := 0\<rparr>
        in case ctr_blocks block (drop 16 inp) s of (out, rest, s) \<Rightarrow> (CRYPTO_xor16 (take 16 inp) buf @ out, rest, s)
      else ([], inp, s))"
  by auto
termination by (relation "measure (\<lambda>(block, inp, s). length inp)") auto

declare ctr_blocks.simps [simp del]

definition CRYPTO_ctr128_encrypt :: "block128 \<Rightarrow> bytes \<Rightarrow> ctr_state \<Rightarrow> bytes \<times> ctr_state" where
  "CRYPTO_ctr128_encrypt block inp s =
     (case use_buffer (ecount_buf s) (ctr_num s) inp of
        (out1, n, inp) \<Rightarrow>
          (case ctr_blocks block inp (s\<lparr>ctr_num := n\<rparr>) of
             (out2, inp, s) \<Rightarrow>
               if length inp > 0 then
                 let s = s\<lparr>ecount_buf := block (ctr_ivec s), ctr_ivec := ctr128_inc (ctr_ivec s)\<rparr>
                 in (case use_rest (ecount_buf s) (ctr_num s) inp of
                       (out3, n) \<Rightarrow> (out1 @ out2 @ out3, s\<lparr>ctr_num := n\<rparr>))
               else (out1 @ out2, s)))"

text \<open>
  \<open>func\<close> encrypts whole blocks with a counter of 32 bits and does not update the counter; its second argument
  is \<open>ivec\<close>. The variable \<open>ctr32\<close> is carried along.
\<close>

type_synonym ctr128 = "bytes \<Rightarrow> bytes \<Rightarrow> bytes"

definition store_counter :: "u32 \<Rightarrow> bytes \<Rightarrow> bytes" where
  "store_counter ctr32 ivec =
     (let ivec = take 12 ivec @ nat_be 4 (unat ctr32) @ drop 16 ivec in if ctr32 = 0 then ctr96_inc ivec else ivec)"

definition ctr32_limit :: "u32 \<Rightarrow> nat \<Rightarrow> nat \<times> u32" where
  "ctr32_limit ctr32 len =
     (let blocks = len div 16;
          blocks = (if blocks > 2 ^ 28 then 2 ^ 28 else blocks);
          ctr32 = ctr32 + word_of_nat blocks
      in if unat ctr32 < blocks then (blocks - unat ctr32, 0) else (blocks, ctr32))"

lemma ctr32_limit_pos:
  assumes "(blocks, c) = ctr32_limit ctr32 len" "len \<ge> 16"
  shows "blocks > 0"
  using assms by (auto simp: ctr32_limit_def Let_def split: if_splits)

function ctr32_blocks :: "ctr128 \<Rightarrow> bytes \<Rightarrow> u32 \<Rightarrow> bytes \<Rightarrow> bytes \<times> bytes \<times> u32 \<times> bytes" where
  "ctr32_blocks func inp ctr32 ivec =
     (if length inp \<ge> 16 then
        (case ctr32_limit ctr32 (length inp) of
           (blocks, ctr32) \<Rightarrow>
             let out1 = func (take (16 * blocks) inp) ivec; ivec = store_counter ctr32 ivec
             in case ctr32_blocks func (drop (16 * blocks) inp) ctr32 ivec of (out, rest) \<Rightarrow> (out1 @ out, rest))
      else ([], inp, ctr32, ivec))"
  by auto
termination
proof (relation "measure (\<lambda>(func, inp, ctr32, ivec). length inp)", goal_cases)
  case 1
  then show ?case by simp
next
  case (2 func inp ctr32 ivec)
  then show ?case using ctr32_limit_pos by fastforce
qed

declare ctr32_blocks.simps [simp del]

definition CRYPTO_ctr128_encrypt_ctr32 :: "ctr128 \<Rightarrow> bytes \<Rightarrow> ctr_state \<Rightarrow> bytes \<times> ctr_state" where
  "CRYPTO_ctr128_encrypt_ctr32 func inp s =
     (case use_buffer (ecount_buf s) (ctr_num s) inp of
        (out1, n, inp) \<Rightarrow>
          let ctr32 = word_of_nat (be_nat (take 4 (drop 12 (ctr_ivec s))))
          in (case ctr32_blocks func inp ctr32 (ctr_ivec s) of
                (out2, inp, ctr32, ivec) \<Rightarrow>
                  if length inp > 0 then
                    let buf = func (replicate 16 0) ivec;
                        ivec = store_counter (ctr32 + 1) ivec
                    in (case use_rest buf n inp of
                          (out3, n) \<Rightarrow> (out1 @ out2 @ out3, s\<lparr>ctr_ivec := ivec, ecount_buf := buf, ctr_num := n\<rparr>))
                  else (out1 @ out2, s\<lparr>ctr_ivec := ivec, ctr_num := n\<rparr>)))"

section \<open>Output feedback\<close>

record ofb_state =
  ofb_ivec :: bytes
  ofb_num :: nat

function ofb_blocks :: "block128 \<Rightarrow> bytes \<Rightarrow> ofb_state \<Rightarrow> bytes \<times> bytes \<times> ofb_state" where
  "ofb_blocks block inp s =
     (if length inp \<ge> 16 then
        let s = s\<lparr>ofb_ivec := block (ofb_ivec s), ofb_num := 0\<rparr>
        in case ofb_blocks block (drop 16 inp) s of (out, rest) \<Rightarrow> (CRYPTO_xor16 (take 16 inp) (ofb_ivec s) @ out, rest)
      else ([], inp, s))"
  by auto
termination by (relation "measure (\<lambda>(block, inp, s). length inp)") auto

declare ofb_blocks.simps [simp del]

definition CRYPTO_ofb128_encrypt :: "block128 \<Rightarrow> bytes \<Rightarrow> ofb_state \<Rightarrow> bytes \<times> ofb_state" where
  "CRYPTO_ofb128_encrypt block inp s =
     (case use_buffer (ofb_ivec s) (ofb_num s) inp of
        (out1, n, inp) \<Rightarrow>
          (case ofb_blocks block inp (s\<lparr>ofb_num := n\<rparr>) of
             (out2, inp, s) \<Rightarrow>
               if length inp > 0 then
                 let s = s\<lparr>ofb_ivec := block (ofb_ivec s)\<rparr>
                 in (case use_rest (ofb_ivec s) (ofb_num s) inp of
                       (out3, n) \<Rightarrow> (out1 @ out2 @ out3, s\<lparr>ofb_num := n\<rparr>))
               else (out1 @ out2, s)))"

section \<open>Cipher feedback\<close>

record cfb_state =
  cfb_ivec :: bytes
  cfb_num :: nat

text \<open>One byte: the ciphertext goes to \<open>ivec\<close>. When decrypting, it is the input.\<close>

definition cfb_byte :: "bool \<Rightarrow> u8 \<Rightarrow> bytes \<Rightarrow> nat \<Rightarrow> u8 \<times> bytes" where
  "cfb_byte enc x ivec n =
     (if enc then let c = ivec ! n XOR x in (c, ivec[n := c])
      else (ivec ! n XOR x, ivec[n := x]))"

fun cfb_buffer :: "bool \<Rightarrow> bytes \<Rightarrow> nat \<Rightarrow> bytes \<Rightarrow> bytes \<times> bytes \<times> nat \<times> bytes" where
  "cfb_buffer enc ivec n [] = ([], ivec, n, [])"
| "cfb_buffer enc ivec n (x # inp) =
     (if n = 0 then ([], ivec, n, x # inp)
      else case cfb_byte enc x ivec n of
             (c, ivec) \<Rightarrow> (case cfb_buffer enc ivec ((n + 1) mod 16) inp of (out, rest) \<Rightarrow> (c # out, rest)))"

function cfb_words :: "bool \<Rightarrow> bytes \<Rightarrow> nat \<Rightarrow> bytes \<Rightarrow> bytes \<times> bytes" where
  "cfb_words enc ivec n inp =
     (if n < 16 then
        let t = load_word_at inp n;
            tmp = load_word_at ivec n XOR t;
            ivec = memcpy_at n (CRYPTO_store_u64_le (if enc then tmp else t)) ivec
        in (case cfb_words enc ivec (n + 8) inp of (out, ivec) \<Rightarrow> (CRYPTO_store_u64_le tmp @ out, ivec))
      else ([], ivec))"
  by auto
termination by (relation "measure (\<lambda>(enc, ivec, n, inp). 16 - n)") auto

declare cfb_words.simps [simp del]

function cfb_blocks :: "block128 \<Rightarrow> bool \<Rightarrow> bytes \<Rightarrow> cfb_state \<Rightarrow> bytes \<times> bytes \<times> cfb_state" where
  "cfb_blocks block enc inp s =
     (if length inp \<ge> 16 then
        (case cfb_words enc (block (cfb_ivec s)) (cfb_num s) inp of
           (out1, ivec) \<Rightarrow>
             (case cfb_blocks block enc (drop 16 inp) (s\<lparr>cfb_ivec := ivec, cfb_num := 0\<rparr>) of
                (out, rest) \<Rightarrow> (out1 @ out, rest)))
      else ([], inp, s))"
  by auto
termination by (relation "measure (\<lambda>(block, enc, inp, s). length inp)") auto

declare cfb_blocks.simps [simp del]

fun cfb_rest :: "bool \<Rightarrow> bytes \<Rightarrow> nat \<Rightarrow> bytes \<Rightarrow> bytes \<times> bytes \<times> nat" where
  "cfb_rest enc ivec n [] = ([], ivec, n)"
| "cfb_rest enc ivec n (x # inp) =
     (case cfb_byte enc x ivec n of
        (c, ivec) \<Rightarrow> (case cfb_rest enc ivec (n + 1) inp of (out, rest) \<Rightarrow> (c # out, rest)))"

definition CRYPTO_cfb128_encrypt :: "block128 \<Rightarrow> bool \<Rightarrow> bytes \<Rightarrow> cfb_state \<Rightarrow> bytes \<times> cfb_state" where
  "CRYPTO_cfb128_encrypt block enc inp s =
     (case cfb_buffer enc (cfb_ivec s) (cfb_num s) inp of
        (out1, ivec, n, inp) \<Rightarrow>
          (case cfb_blocks block enc inp (s\<lparr>cfb_ivec := ivec, cfb_num := n\<rparr>) of
             (out2, inp, s) \<Rightarrow>
               if length inp > 0 then
                 (case cfb_rest enc (block (cfb_ivec s)) (cfb_num s) inp of
                    (out3, ivec, n) \<Rightarrow> (out1 @ out2 @ out3, s\<lparr>cfb_ivec := ivec, cfb_num := n\<rparr>))
               else (out1 @ out2, s)))"

text \<open>
  Feedback of \<open>nbits\<close> bits. The array \<open>ovec\<close> of the code has 33 bytes, of which those after the old \<open>ivec\<close> and the
  new ciphertext are not initialised; they are zero here (none of them reaches the result).
\<close>

definition cfbr_encrypt_block :: "block128 \<Rightarrow> bool \<Rightarrow> bytes \<Rightarrow> nat \<Rightarrow> bytes \<Rightarrow> (bytes \<times> bytes) option" where
  "cfbr_encrypt_block block enc inp nbits ivec =
     (if nbits = 0 \<or> nbits > 128 then None
      else
        let new = block ivec;
            m = (nbits + 7) div 8;
            out = map (\<lambda>n. inp ! n XOR new ! n) [0..<m];
            ovec = memcpy_at 16 (if enc then out else take m inp) (memcpy_at 0 ivec (replicate 33 0));
            rem = nbits mod 8;
            m = nbits div 8
        in Some (out,
             if rem = 0 then take 16 (drop m ovec)
             else map (\<lambda>n. push_bit rem (ovec ! (n + m)) OR drop_bit (8 - rem) (ovec ! (n + m + 1))) [0..<16]))"

fun CRYPTO_cfb128_8_encrypt :: "block128 \<Rightarrow> bool \<Rightarrow> bytes \<Rightarrow> bytes \<Rightarrow> bytes \<times> bytes" where
  "CRYPTO_cfb128_8_encrypt block enc [] ivec = ([], ivec)"
| "CRYPTO_cfb128_8_encrypt block enc (x # inp) ivec =
     (case cfbr_encrypt_block block enc [x] 8 ivec of
        None \<Rightarrow> ([], ivec)
      | Some (out1, ivec) \<Rightarrow>
          (case CRYPTO_cfb128_8_encrypt block enc inp ivec of (out, ivec) \<Rightarrow> (out1 @ out, ivec)))"

text \<open>
  Feedback of one bit: the bits of a byte are taken from the highest one. \<open>out\<close> may be the array of the input, since a bit
  is read before it is written; here the two are separate, and the bits of \<open>out\<close> that are not reached keep their values.
\<close>

function cfb_bits :: "block128 \<Rightarrow> bool \<Rightarrow> bytes \<Rightarrow> nat \<Rightarrow> nat \<Rightarrow> bytes \<Rightarrow> bytes \<Rightarrow> bytes \<times> bytes" where
  "cfb_bits block enc inp n bits out ivec =
     (if n < bits then
        let c = (if inp ! (n div 8) AND push_bit (7 - n mod 8) 1 \<noteq> 0 then 0x80 else 0)
        in (case cfbr_encrypt_block block enc [c] 1 ivec of
              None \<Rightarrow> (out, ivec)
            | Some (d, ivec) \<Rightarrow>
                cfb_bits block enc inp (n + 1) bits
                  (out[n div 8 := out ! (n div 8) AND NOT (push_bit (7 - n mod 8) 1)
                                  OR drop_bit (n mod 8) (d ! 0 AND 0x80)]) ivec)
      else (out, ivec))"
  by auto
termination by (relation "measure (\<lambda>(block, enc, inp, n, bits, out, ivec). bits - n)") auto

declare cfb_bits.simps [simp del]

definition CRYPTO_cfb128_1_encrypt :: "block128 \<Rightarrow> bool \<Rightarrow> bytes \<Rightarrow> bytes \<Rightarrow> nat \<Rightarrow> bytes \<Rightarrow> bytes \<times> bytes" where
  "CRYPTO_cfb128_1_encrypt block enc inp out bits ivec = cfb_bits block enc inp 0 bits out ivec"

end
