(* ===== verification/Cbc.thy ===== *)
theory Cbc
  imports StreamModes
begin

text \<open>
  Cipher block chaining (\<open>fipsmodule/modes/cbc.c\<close>). What the code does depends on how its arrays overlap, so that the
  memory is explicit: it is a list of bytes, and \<open>in\<close>, \<open>out\<close>, \<open>ivec\<close> and the pointer \<open>iv\<close> are positions in it. The array
  \<open>tmp\<close> of the decryption is a local variable. A call that the C standard leaves undefined (\<open>memcpy\<close> of memory that
  overlaps) has no result.
\<close>

definition read_at :: "bytes \<Rightarrow> nat \<Rightarrow> nat \<Rightarrow> bytes" where
  "read_at m p n = take n (drop p m)"

definition write_at :: "nat \<Rightarrow> bytes \<Rightarrow> bytes \<Rightarrow> bytes" where
  "write_at p xs m = memcpy_at p xs m"

definition OPENSSL_memcpy :: "bytes \<Rightarrow> nat \<Rightarrow> nat \<Rightarrow> nat \<Rightarrow> bytes option" where
  "OPENSSL_memcpy m dst src n =
     (if n = 0 then Some m
      else if dst < src + n \<and> src < dst + n then None
      else Some (write_at dst (read_at m src n) m))"

definition xor_word_to :: "bytes \<Rightarrow> nat \<Rightarrow> nat \<Rightarrow> nat \<Rightarrow> bytes" where
  "xor_word_to m out a b = write_at out (CRYPTO_store_u64_le (load_word_at m a XOR load_word_at m b)) m"

definition xor16_at :: "bytes \<Rightarrow> nat \<Rightarrow> nat \<Rightarrow> nat \<Rightarrow> bytes" where
  "xor16_at m out a b = (let m = xor_word_to m out a b in xor_word_to m (out + 8) (a + 8) (b + 8))"

section \<open>Encryption\<close>

function cbc_encrypt_blocks :: "block128 \<Rightarrow> bytes \<Rightarrow> nat \<Rightarrow> nat \<Rightarrow> nat \<Rightarrow> nat \<Rightarrow> bytes \<times> nat \<times> nat \<times> nat \<times> nat" where
  "cbc_encrypt_blocks block m inp out len iv =
     (if len \<ge> 16 then
        let m = xor16_at m out inp iv;
            m = write_at out (block (read_at m out 16)) m
        in cbc_encrypt_blocks block m (inp + 16) (out + 16) (len - 16) out
      else (m, inp, out, len, iv))"
  by auto
termination by (relation "measure (\<lambda>(block, m, inp, out, len, iv). len)") auto

declare cbc_encrypt_blocks.simps [simp del]

text \<open>The bytes of the last block: those of the input, and then those of the vector.\<close>

function cbc_pad :: "bytes \<Rightarrow> nat \<Rightarrow> nat \<Rightarrow> nat \<Rightarrow> nat \<Rightarrow> nat \<Rightarrow> bytes" where
  "cbc_pad m inp out len iv n =
     (if n < 16 \<and> n < len then cbc_pad (m[out + n := m ! (inp + n) XOR m ! (iv + n)]) inp out len iv (n + 1)
      else if n < 16 then cbc_pad (m[out + n := m ! (iv + n)]) inp out len iv (n + 1)
      else m)"
  by auto
termination by (relation "measure (\<lambda>(m, inp, out, len, iv, n). 16 - n)") auto

declare cbc_pad.simps [simp del]

function cbc_encrypt_tail :: "block128 \<Rightarrow> bytes \<Rightarrow> nat \<Rightarrow> nat \<Rightarrow> nat \<Rightarrow> nat \<Rightarrow> bytes \<times> nat" where
  "cbc_encrypt_tail block m inp out len iv =
     (if len > 0 then
        let m = cbc_pad m inp out len iv 0;
            m = write_at out (block (read_at m out 16)) m
        in if len \<le> 16 then (m, out) else cbc_encrypt_tail block m (inp + 16) (out + 16) (len - 16) out
      else (m, iv))"
  by auto
termination by (relation "measure (\<lambda>(block, m, inp, out, len, iv). len)") auto

declare cbc_encrypt_tail.simps [simp del]

definition CRYPTO_cbc128_encrypt :: "block128 \<Rightarrow> bytes \<Rightarrow> nat \<Rightarrow> nat \<Rightarrow> nat \<Rightarrow> nat \<Rightarrow> bytes option" where
  "CRYPTO_cbc128_encrypt block m inp out len ivec =
     (if len = 0 then Some m
      else case cbc_encrypt_blocks block m inp out len ivec of
             (m, inp, out, len, iv) \<Rightarrow>
               (case cbc_encrypt_tail block m inp out len iv of (m, iv) \<Rightarrow> OPENSSL_memcpy m ivec iv 16))"

section \<open>Decryption\<close>

text \<open>When \<open>out\<close> is far enough from \<open>in\<close>, the last block of the ciphertext is read where it is.\<close>

function cbc_decrypt_apart :: "block128 \<Rightarrow> bytes \<Rightarrow> nat \<Rightarrow> nat \<Rightarrow> nat \<Rightarrow> nat \<Rightarrow> bytes \<times> nat \<times> nat \<times> nat \<times> nat" where
  "cbc_decrypt_apart block m inp out len iv =
     (if len \<ge> 16 then
        let m = write_at out (block (read_at m inp 16)) m;
            m = xor16_at m out out iv
        in cbc_decrypt_apart block m (inp + 16) (out + 16) (len - 16) inp
      else (m, inp, out, len, iv))"
  by auto
termination by (relation "measure (\<lambda>(block, m, inp, out, len, iv). len)") auto

declare cbc_decrypt_apart.simps [simp del]

text \<open>Otherwise it is saved in \<open>ivec\<close>, word by word.\<close>

function cbc_decrypt_words :: "bytes \<Rightarrow> bytes \<Rightarrow> nat \<Rightarrow> nat \<Rightarrow> nat \<Rightarrow> nat \<Rightarrow> bytes" where
  "cbc_decrypt_words tmp m inp out ivec n =
     (if n < 16 then
        let c = load_word_at m (inp + n);
            m = write_at (out + n) (CRYPTO_store_u64_le (load_word_at tmp n XOR load_word_at m (ivec + n))) m;
            m = write_at (ivec + n) (CRYPTO_store_u64_le c) m
        in cbc_decrypt_words tmp m inp out ivec (n + 8)
      else m)"
  by auto
termination by (relation "measure (\<lambda>(tmp, m, inp, out, ivec, n). 16 - n)") auto

declare cbc_decrypt_words.simps [simp del]

function cbc_decrypt_saving :: "block128 \<Rightarrow> bytes \<Rightarrow> nat \<Rightarrow> nat \<Rightarrow> nat \<Rightarrow> nat \<Rightarrow> bytes \<times> nat \<times> nat \<times> nat" where
  "cbc_decrypt_saving block m inp out len ivec =
     (if len \<ge> 16 then
        let m = cbc_decrypt_words (block (read_at m inp 16)) m inp out ivec 0
        in cbc_decrypt_saving block m (inp + 16) (out + 16) (len - 16) ivec
      else (m, inp, out, len))"
  by auto
termination by (relation "measure (\<lambda>(block, m, inp, out, len, ivec). len)") auto

declare cbc_decrypt_saving.simps [simp del]

function cbc_decrypt_bytes :: "bytes \<Rightarrow> bytes \<Rightarrow> nat \<Rightarrow> nat \<Rightarrow> nat \<Rightarrow> nat \<Rightarrow> nat \<Rightarrow> bytes" where
  "cbc_decrypt_bytes tmp m inp out len ivec n =
     (if n < 16 \<and> n < len then
        let c = m ! (inp + n);
            m = m[out + n := tmp ! n XOR m ! (ivec + n)];
            m = m[ivec + n := c]
        in cbc_decrypt_bytes tmp m inp out len ivec (n + 1)
      else if len \<le> 16 \<and> n < 16 then cbc_decrypt_bytes tmp (m[ivec + n := m ! (inp + n)]) inp out len ivec (n + 1)
      else m)"
  by auto
termination by (relation "measure (\<lambda>(tmp, m, inp, out, len, ivec, n). 16 - n)") auto

declare cbc_decrypt_bytes.simps [simp del]

function cbc_decrypt_tail :: "block128 \<Rightarrow> bytes \<Rightarrow> nat \<Rightarrow> nat \<Rightarrow> nat \<Rightarrow> nat \<Rightarrow> bytes" where
  "cbc_decrypt_tail block m inp out len ivec =
     (if len > 0 then
        let m = cbc_decrypt_bytes (block (read_at m inp 16)) m inp out len ivec 0
        in if len \<le> 16 then m else cbc_decrypt_tail block m (inp + 16) (out + 16) (len - 16) ivec
      else m)"
  by auto
termination by (relation "measure (\<lambda>(block, m, inp, out, len, ivec). len)") auto

declare cbc_decrypt_tail.simps [simp del]

definition CRYPTO_cbc128_decrypt :: "block128 \<Rightarrow> bytes \<Rightarrow> nat \<Rightarrow> nat \<Rightarrow> nat \<Rightarrow> nat \<Rightarrow> bytes option" where
  "CRYPTO_cbc128_decrypt block m inp out len ivec =
     (if len = 0 then Some m
      else if (inp \<ge> 32 \<and> out \<le> inp - 32) \<or> inp < out then
        (case cbc_decrypt_apart block m inp out len ivec of
           (m, inp, out, len, iv) \<Rightarrow>
             (case OPENSSL_memcpy m ivec iv 16 of
                None \<Rightarrow> None
              | Some m \<Rightarrow> Some (cbc_decrypt_tail block m inp out len ivec)))
      else
        (case cbc_decrypt_saving block m inp out len ivec of
           (m, inp, out, len) \<Rightarrow> Some (cbc_decrypt_tail block m inp out len ivec)))"

end
