(* ===== verification/StreamModesSpec.thy ===== *)
theory StreamModesSpec
  imports StreamModes
begin

text \<open>
  What the stream modes compute: every one of them is a machine that reads and writes one byte at a time, so that an
  input may be cut into pieces anywhere.
\<close>

section \<open>Words of a block\<close>

lemma nat_high_bit: "(p :: nat) < 256 \<Longrightarrow> 8 \<le> n \<Longrightarrow> \<not> bit p n"
  using bit_take_bit_iff [of 8 p n] take_bit_nat_eq_self [of p 8] by simp

lemma le_nat_xor:
  "length a = length b \<Longrightarrow> le_nat (map2 (XOR) a b) = le_nat a XOR le_nat b"
proof (induction a b rule: list_induct2)
  case (Cons x a y b)
  have *: "(p + 256 * q) XOR (r + 256 * t) = (p XOR r) + 256 * (q XOR t)" if "p < 256" "r < 256" for p q r t :: nat
  proof -
    have "p + 256 * q = p OR push_bit 8 q" "r + 256 * t = r OR push_bit 8 t"
      using that or_low_bits_nat [of p 8 q] or_low_bits_nat [of r 8 t]
      by (simp_all add: push_bit_eq_mult or.commute add.commute mult.commute)
    moreover have "p XOR r < 256"
      using that XOR_upper [of "int p" 8 "int r"] by (simp add: xor_nat_def)
    then have "(p XOR r) + 256 * (q XOR t) = (p XOR r) OR push_bit 8 (q XOR t)"
      using or_low_bits_nat [of "p XOR r" 8 "q XOR t"]
      by (simp add: push_bit_eq_mult or.commute add.commute mult.commute)
    moreover have "(p OR push_bit 8 q) XOR (r OR push_bit 8 t) = (p XOR r) OR push_bit 8 (q XOR t)"
    proof (rule bit_eqI)
      fix n
      have "n \<ge> 8 \<Longrightarrow> \<not> bit p n" "n \<ge> 8 \<Longrightarrow> \<not> bit r n"
        using that by (simp_all add: nat_high_bit)
      then show "bit ((p OR push_bit 8 q) XOR (r OR push_bit 8 t)) n = bit ((p XOR r) OR push_bit 8 (q XOR t)) n"
        by (auto simp: bit_simps)
    qed
    ultimately show ?thesis by simp
  qed
  show ?case using Cons * [of "unat x" "unat y"] by (simp add: unsigned_xor_eq)
qed simp

lemma nat_le_xor: "length a = n \<Longrightarrow> length b = n \<Longrightarrow> nat_le n (le_nat a XOR le_nat b) = map2 (XOR) a b"
  using nat_le_le_nat [of "map2 (XOR) a b"] by (simp add: le_nat_xor)

lemma store_xor_words:
  assumes "length a = 8" "length b = 8"
  shows "CRYPTO_store_u64_le (CRYPTO_load_u64_le a XOR CRYPTO_load_u64_le b) = map2 (XOR) a b"
  using assms be_nat_less [of "rev a"] be_nat_less [of "rev b"]
  by (simp add: CRYPTO_store_u64_le_def CRYPTO_load_u64_le_def unsigned_xor_eq unat_of_nat take_bit_eq_mod
      be_nat_rev nat_le_xor)

lemma store_load_word: "length a = 8 \<Longrightarrow> CRYPTO_store_u64_le (CRYPTO_load_u64_le a) = a"
  using be_nat_less [of "rev a"] nat_le_le_nat [of a]
  by (simp add: CRYPTO_store_u64_le_def CRYPTO_load_u64_le_def unat_of_nat be_nat_rev)

lemma CRYPTO_xor16_map2:
  assumes "length a = 16" "length b = 16"
  shows "CRYPTO_xor16 a b = map2 (XOR) a b"
proof -
  have "map2 (XOR) (take 8 a @ drop 8 a) (take 8 b @ drop 8 b) = CRYPTO_xor16 a b"
    using assms by (subst zip_append) (simp_all add: CRYPTO_xor16_def load_word_at_def store_xor_words)
  then show ?thesis by simp
qed

section \<open>Machines that work on a stream\<close>

fun run_machine :: "('s \<Rightarrow> 'a \<Rightarrow> 'a \<times> 's) \<Rightarrow> 'a list \<Rightarrow> 's \<Rightarrow> 'a list \<times> 's" where
  "run_machine step [] s = ([], s)"
| "run_machine step (x # xs) s =
     (case step s x of (y, s) \<Rightarrow> (case run_machine step xs s of (ys, s) \<Rightarrow> (y # ys, s)))"

lemma run_machine_append:
  "run_machine step (xs @ ys) s =
     (case run_machine step xs s of (a, s) \<Rightarrow> (case run_machine step ys s of (b, s) \<Rightarrow> (a @ b, s)))"
  by (induction xs arbitrary: s) (simp_all split: prod.splits)

lemma length_run_machine: "length (fst (run_machine step xs s)) = length xs"
  by (induction xs arbitrary: s) (auto split: prod.splits, metis fst_conv)

text \<open>An operation on inputs of any length that does the same as a machine, in the states where it may be used.\<close>

locale stream =
  fixes step :: "'s \<Rightarrow> 'a \<Rightarrow> 'a \<times> 's"
    and crypt :: "'a list \<Rightarrow> 's \<Rightarrow> 'a list \<times> 's"
    and usable :: "'s \<Rightarrow> bool"
  assumes crypt_run: "usable s \<Longrightarrow> crypt xs s = run_machine step xs s"
    and usable_step: "usable s \<Longrightarrow> usable (snd (step s x))"
begin

lemma usable_run: "usable s \<Longrightarrow> usable (snd (run_machine step xs s))"
  by (induction xs arbitrary: s) (auto split: prod.splits dest: usable_step, metis snd_conv usable_step)

lemma usable_crypt: "usable s \<Longrightarrow> usable (snd (crypt xs s))"
  by (simp add: crypt_run usable_run)

lemma in_pieces:
  assumes "usable s"
  shows "crypt (xs @ ys) s =
           (case crypt xs s of (a, s) \<Rightarrow> (case crypt ys s of (b, s) \<Rightarrow> (a @ b, s)))"
  using assms usable_run [of s xs] by (auto simp: crypt_run run_machine_append split: prod.splits)

lemma same_length: "usable s \<Longrightarrow> length (fst (crypt xs s)) = length xs"
  by (simp add: crypt_run length_run_machine)

end

text \<open>Two of them, of which the second undoes what the first does and ends in the same state.\<close>

locale stream_pair =
  enc: stream step crypt usable + dec: stream dec_step decrypt usable
  for step crypt and usable :: "'s \<Rightarrow> bool" and dec_step decrypt +
  assumes undo: "usable s \<Longrightarrow> dec_step s (fst (step s x)) = (x, snd (step s x))"
begin

lemma run_undone:
  "usable s \<Longrightarrow> run_machine dec_step (fst (run_machine step xs s)) s = (xs, snd (run_machine step xs s))"
proof (induction xs arbitrary: s)
  case (Cons x xs)
  obtain y t where 1: "step s x = (y, t)" by (cases "step s x")
  obtain ys u where 2: "run_machine step xs t = (ys, u)" by (cases "run_machine step xs t")
  show ?case
    using Cons.IH [of t] undo [of s x] enc.usable_step [of s x] Cons.prems by (simp add: 1 2)
qed simp

lemma decrypts: "usable s \<Longrightarrow> decrypt (fst (crypt xs s)) s = (xs, snd (crypt xs s))"
  by (simp add: enc.crypt_run dec.crypt_run run_undone)

end

section \<open>Keystreams\<close>

text \<open>
  What counter mode and output feedback share: the input is combined with a stream of blocks, of which \<open>buf\<close> is the
  current one and \<open>pos\<close> the next byte of it.
\<close>

locale keystream =
  fixes pos :: "'s \<Rightarrow> nat"
    and buf :: "'s \<Rightarrow> bytes"
    and set_pos :: "nat \<Rightarrow> 's \<Rightarrow> 's"
    and fresh :: "'s \<Rightarrow> 's"
    and step :: "'s \<Rightarrow> u8 \<Rightarrow> u8 \<times> 's"
    and blocks :: "bytes \<Rightarrow> 's \<Rightarrow> bytes \<times> bytes \<times> 's"
    and crypt :: "bytes \<Rightarrow> 's \<Rightarrow> bytes \<times> 's"
    and sized :: bool
  assumes pos_set [simp]: "pos (set_pos n s) = n"
    and buf_set [simp]: "buf (set_pos n s) = buf s"
    and set_set [simp]: "set_pos n (set_pos m s) = set_pos n s"
    and set_same [simp]: "set_pos (pos s) s = s"
    and fresh_set [simp]: "fresh (set_pos n s) = set_pos n (fresh s)"
    and pos_fresh [simp]: "pos (fresh s) = pos s"
    and length_fresh: "sized \<Longrightarrow> length (buf (fresh s)) = 16"
    and step_eq: "step s x =
      (let s = (if pos s = 0 then fresh s else s) in (x XOR buf s ! pos s, set_pos ((pos s + 1) mod 16) s))"
    and blocks_more: "16 \<le> length inp \<Longrightarrow> blocks inp s =
      (case blocks (drop 16 inp) (set_pos 0 (fresh s)) of
         (out, rest) \<Rightarrow> (CRYPTO_xor16 (take 16 inp) (buf (fresh s)) @ out, rest))"
    and blocks_done: "length inp < 16 \<Longrightarrow> blocks inp s = ([], inp, s)"
    and crypt_eq: "crypt inp s =
      (case use_buffer (buf s) (pos s) inp of
         (out1, n, inp) \<Rightarrow>
           (case blocks inp (set_pos n s) of
              (out2, inp, s) \<Rightarrow>
                if length inp > 0 then
                  (case use_rest (buf (fresh s)) (pos s) inp of
                     (out3, n) \<Rightarrow> (out1 @ out2 @ out3, set_pos n (fresh s)))
                else (out1 @ out2, s)))"
begin

lemma step_0: "pos s = 0 \<Longrightarrow> step s x = (x XOR buf (fresh s) ! 0, set_pos 1 (fresh s))"
  by (simp add: step_eq Let_def)

lemma step_pos: "0 < pos s \<Longrightarrow> step s x = (x XOR buf s ! pos s, set_pos ((pos s + 1) mod 16) s)"
  by (simp add: step_eq Let_def)

lemma run_use_buffer:
  "use_buffer (buf s) (pos s) xs = (out, n, rest) \<Longrightarrow>
   run_machine step xs s = (case run_machine step rest (set_pos n s) of (out2, s) \<Rightarrow> (out @ out2, s))"
proof (induction xs arbitrary: s out n rest)
  case (Cons x xs)
  show ?case
  proof (cases "pos s = 0")
    case True
    then show ?thesis using Cons.prems set_same [of s] by auto
  next
    case False
    then show ?thesis
      using Cons.prems Cons.IH [of "set_pos ((pos s + 1) mod 16) s"]
      by (auto simp: step_pos split: prod.splits)
  qed
qed auto

lemma use_buffer_end: "use_buffer b m xs = (out, n, rest) \<Longrightarrow> m < 16 \<Longrightarrow> n < 16 \<and> (rest = [] \<or> n = 0)"
  by (induction b m xs arbitrary: out n rest rule: use_buffer.induct) (auto split: if_splits prod.splits)

lemma run_use_rest:
  "0 < pos s \<Longrightarrow> pos s + length xs < 16 \<Longrightarrow> use_rest (buf s) (pos s) xs = (out, n) \<Longrightarrow>
   run_machine step xs s = (out, set_pos n s)"
proof (induction xs arbitrary: s out n)
  case (Cons x xs)
  then show ?case using Cons.IH [of "set_pos (pos s + 1) s"]
    by (auto simp: step_pos split: prod.splits)
qed (auto simp: set_same)

lemma run_to_end:
  "0 < pos s \<Longrightarrow> pos s < 16 \<Longrightarrow> pos s + length xs = 16 \<Longrightarrow> length (buf s) = 16 \<Longrightarrow>
   run_machine step xs s = (map2 (XOR) xs (drop (pos s) (buf s)), set_pos 0 s)"
proof (induction xs arbitrary: s)
  case (Cons x xs)
  show ?case
  proof (cases "pos s = 15")
    case True
    then show ?thesis using Cons.prems by (simp add: step_pos Cons_nth_drop_Suc [symmetric])
  next
    case False
    then show ?thesis using Cons.prems Cons.IH [of "set_pos (pos s + 1) s"]
      by (simp add: step_pos Cons_nth_drop_Suc [symmetric])
  qed
qed simp

lemma run_block:
  assumes "sized" "pos s = 0" "length xs = 16"
  shows "run_machine step xs s = (CRYPTO_xor16 xs (buf (fresh s)), set_pos 0 (fresh s))"
proof -
  obtain x ys where xs: "xs = x # ys" "length ys = 15" using assms(3) by (cases xs) auto
  have "run_machine step xs s =
      (case run_machine step ys (set_pos 1 (fresh s)) of (out, s') \<Rightarrow> ((x XOR buf (fresh s) ! 0) # out, s'))"
    using assms by (simp add: xs step_0)
  also have "\<dots> = (map2 (XOR) xs (buf (fresh s)), set_pos 0 (fresh s))"
    using run_to_end [of "set_pos 1 (fresh s)" ys] xs length_fresh [OF assms(1), of s]
    by (cases "buf (fresh s)") auto
  finally show ?thesis using assms(3) length_fresh [OF assms(1), of s] by (simp add: CRYPTO_xor16_map2)
qed

lemma run_blocks:
  assumes "sized"
  shows "pos s = 0 \<Longrightarrow> blocks xs s = (out, rest, t) \<Longrightarrow>
    pos t = 0 \<and> length rest < 16 \<and>
    run_machine step xs s = (case run_machine step rest t of (out2, t) \<Rightarrow> (out @ out2, t))"
proof (induction "length xs" arbitrary: xs s out rest t rule: less_induct)
  case less
  show ?case
  proof (cases "16 \<le> length xs")
    case True
    obtain out' where b: "blocks (drop 16 xs) (set_pos 0 (fresh s)) = (out', rest, t)"
      "out = CRYPTO_xor16 (take 16 xs) (buf (fresh s)) @ out'"
      using less.prems blocks_more [OF True, of s] by (auto split: prod.splits)
    have "run_machine step (take 16 xs @ drop 16 xs) s =
        (case run_machine step (drop 16 xs) (set_pos 0 (fresh s)) of
           (out2, t) \<Rightarrow> (CRYPTO_xor16 (take 16 xs) (buf (fresh s)) @ out2, t))"
      using True less.prems(1) by (simp only: run_machine_append) (simp add: run_block assms)
    then show ?thesis
      using less.hyps [of "drop 16 xs" "set_pos 0 (fresh s)" out' rest t] b True
      by (auto split: prod.splits)
  next
    case False
    then show ?thesis using less.prems by (auto simp: blocks_done split: prod.splits)
  qed
qed

lemma run_rest:
  assumes "pos s = 0" "length xs < 16" "xs \<noteq> []" "use_rest (buf (fresh s)) (pos s) xs = (out, n)"
  shows "run_machine step xs s = (out, set_pos n (fresh s))"
proof -
  obtain x ys where xs: "xs = x # ys" using assms(3) by (cases xs) auto
  then show ?thesis
    using assms run_use_rest [of "set_pos 1 (fresh s)" ys] by (auto simp: step_0 split: prod.splits)
qed

lemma blocks_nil [simp]: "blocks [] s = ([], [], s)"
  by (simp add: blocks_done)

theorem crypt_is_run:
  assumes "sized" "pos s < 16"
  shows "crypt xs s = run_machine step xs s"
proof -
  obtain out1 n xs1 where 1: "use_buffer (buf s) (pos s) xs = (out1, n, xs1)" by (cases "use_buffer (buf s) (pos s) xs")
  obtain out2 xs2 t where 2: "blocks xs1 (set_pos n s) = (out2, xs2, t)" by (cases "blocks xs1 (set_pos n s)")
  have n: "xs1 = [] \<or> n = 0" using use_buffer_end [OF 1 assms(2)] by simp
  have "run_machine step xs s = (case run_machine step xs1 (set_pos n s) of (out2, s) \<Rightarrow> (out1 @ out2, s))"
    by (rule run_use_buffer [OF 1])
  moreover have "run_machine step xs1 (set_pos n s) = (case run_machine step xs2 t of (out3, t) \<Rightarrow> (out2 @ out3, t))"
    using n run_blocks [OF assms(1) _ 2] 2 by auto
  moreover have "xs2 \<noteq> [] \<Longrightarrow> pos t = 0 \<and> length xs2 < 16" using n run_blocks [OF assms(1) _ 2] 2 by auto
  ultimately show ?thesis
    using 1 2 run_rest [of t xs2] by (auto simp: crypt_eq split: prod.splits)
qed

end

section \<open>Counter mode and output feedback\<close>

text \<open>All that is said of the block cipher here: its results are blocks.\<close>

definition block_sized :: "block128 \<Rightarrow> bool" where
  "block_sized block \<longleftrightarrow> (\<forall>b. length (block b) = 16)"

definition ctr_fresh :: "block128 \<Rightarrow> ctr_state \<Rightarrow> ctr_state" where
  "ctr_fresh block s = s\<lparr>ecount_buf := block (ctr_ivec s), ctr_ivec := ctr128_inc (ctr_ivec s)\<rparr>"

definition ctr_step :: "block128 \<Rightarrow> ctr_state \<Rightarrow> u8 \<Rightarrow> u8 \<times> ctr_state" where
  "ctr_step block s x =
     (let s = (if ctr_num s = 0 then ctr_fresh block s else s)
      in (x XOR ecount_buf s ! ctr_num s, s\<lparr>ctr_num := (ctr_num s + 1) mod 16\<rparr>))"

definition ofb_fresh :: "block128 \<Rightarrow> ofb_state \<Rightarrow> ofb_state" where
  "ofb_fresh block s = s\<lparr>ofb_ivec := block (ofb_ivec s)\<rparr>"

definition ofb_step :: "block128 \<Rightarrow> ofb_state \<Rightarrow> u8 \<Rightarrow> u8 \<times> ofb_state" where
  "ofb_step block s x =
     (let s = (if ofb_num s = 0 then ofb_fresh block s else s)
      in (x XOR ofb_ivec s ! ofb_num s, s\<lparr>ofb_num := (ofb_num s + 1) mod 16\<rparr>))"

interpretation ctr: keystream ctr_num ecount_buf "\<lambda>n. ctr_num_update (\<lambda>_. n)" "ctr_fresh block" "ctr_step block"
    "ctr_blocks block" "CRYPTO_ctr128_encrypt block" "block_sized block"
proof unfold_locales
  fix inp s
  show "16 \<le> length inp \<Longrightarrow> ctr_blocks block inp s =
      (case ctr_blocks block (drop 16 inp) (ctr_fresh block s\<lparr>ctr_num := 0\<rparr>) of
         (out, rest) \<Rightarrow> (CRYPTO_xor16 (take 16 inp) (ecount_buf (ctr_fresh block s)) @ out, rest))"
    by (subst ctr_blocks.simps) (simp add: Let_def ctr_fresh_def split: prod.splits)
  show "length inp < 16 \<Longrightarrow> ctr_blocks block inp s = ([], inp, s)"
    by (subst ctr_blocks.simps) simp
qed (auto simp: ctr_fresh_def ctr_step_def block_sized_def CRYPTO_ctr128_encrypt_def Let_def split: prod.splits)

interpretation ofb: keystream ofb_num ofb_ivec "\<lambda>n. ofb_num_update (\<lambda>_. n)" "ofb_fresh block" "ofb_step block"
    "ofb_blocks block" "CRYPTO_ofb128_encrypt block" "block_sized block"
proof unfold_locales
  fix inp s
  show "16 \<le> length inp \<Longrightarrow> ofb_blocks block inp s =
      (case ofb_blocks block (drop 16 inp) (ofb_fresh block s\<lparr>ofb_num := 0\<rparr>) of
         (out, rest) \<Rightarrow> (CRYPTO_xor16 (take 16 inp) (ofb_ivec (ofb_fresh block s)) @ out, rest))"
    by (subst ofb_blocks.simps) (simp add: Let_def ofb_fresh_def split: prod.splits)
  show "length inp < 16 \<Longrightarrow> ofb_blocks block inp s = ([], inp, s)"
    by (subst ofb_blocks.simps) simp
qed (auto simp: ofb_fresh_def ofb_step_def block_sized_def CRYPTO_ofb128_encrypt_def Let_def split: prod.splits)

text \<open>The same keystream is added again: both are their own inverse.\<close>

lemma ctr_step_undo: "ctr_step block s (fst (ctr_step block s x)) = (x, snd (ctr_step block s x))"
  by (simp add: ctr_step_def Let_def xor.assoc)

lemma ofb_step_undo: "ofb_step block s (fst (ofb_step block s x)) = (x, snd (ofb_step block s x))"
  by (simp add: ofb_step_def Let_def xor.assoc)

interpretation ctr_pair: stream_pair "ctr_step block" "CRYPTO_ctr128_encrypt block"
    "\<lambda>s. block_sized block \<and> ctr_num s < 16" "ctr_step block" "CRYPTO_ctr128_encrypt block"
  by unfold_locales (auto simp: ctr.crypt_is_run ctr_step_undo, auto simp: ctr_step_def Let_def)

interpretation ofb_pair: stream_pair "ofb_step block" "CRYPTO_ofb128_encrypt block"
    "\<lambda>s. block_sized block \<and> ofb_num s < 16" "ofb_step block" "CRYPTO_ofb128_encrypt block"
  by unfold_locales (auto simp: ofb.crypt_is_run ofb_step_undo, auto simp: ofb_step_def Let_def)

section \<open>Cipher feedback\<close>

definition cfb_step :: "block128 \<Rightarrow> bool \<Rightarrow> cfb_state \<Rightarrow> u8 \<Rightarrow> u8 \<times> cfb_state" where
  "cfb_step block enc s x =
     (case cfb_byte enc x (if cfb_num s = 0 then block (cfb_ivec s) else cfb_ivec s) (cfb_num s) of
        (c, ivec) \<Rightarrow> (c, s\<lparr>cfb_ivec := ivec, cfb_num := (cfb_num s + 1) mod 16\<rparr>))"

lemma cfb_step_0:
  "cfb_num s = 0 \<Longrightarrow> cfb_step block enc s x =
     (case cfb_byte enc x (block (cfb_ivec s)) 0 of (c, ivec) \<Rightarrow> (c, s\<lparr>cfb_ivec := ivec, cfb_num := 1\<rparr>))"
  by (simp add: cfb_step_def)

lemma cfb_step_pos:
  "0 < cfb_num s \<Longrightarrow> cfb_step block enc s x =
     (case cfb_byte enc x (cfb_ivec s) (cfb_num s) of
        (c, ivec) \<Rightarrow> (c, s\<lparr>cfb_ivec := ivec, cfb_num := (cfb_num s + 1) mod 16\<rparr>))"
  by (simp add: cfb_step_def)

text \<open>What a part of a block leaves in the place of the keystream.\<close>

definition cfb_kept :: "bool \<Rightarrow> bytes \<Rightarrow> bytes \<Rightarrow> bytes" where
  "cfb_kept enc xs ks = (if enc then map2 (XOR) xs ks else xs)"

lemma cfb_run_buffer:
  "cfb_buffer enc (cfb_ivec s) (cfb_num s) xs = (out, ivec, n, rest) \<Longrightarrow>
   run_machine (cfb_step block enc) xs s =
     (case run_machine (cfb_step block enc) rest (s\<lparr>cfb_ivec := ivec, cfb_num := n\<rparr>) of (out2, s) \<Rightarrow> (out @ out2, s))"
proof (induction xs arbitrary: s out ivec n rest)
  case (Cons x xs)
  show ?case
  proof (cases "cfb_num s = 0")
    case True
    then have "out = []" "rest = x # xs" "s\<lparr>cfb_ivec := ivec, cfb_num := n\<rparr> = s"
      using Cons.prems by (auto intro: cfb_state.equality)
    then show ?thesis by simp
  next
    case False
    obtain c iv where c: "cfb_byte enc x (cfb_ivec s) (cfb_num s) = (c, iv)" by fastforce
    show ?thesis
      using False Cons.prems Cons.IH [of "s\<lparr>cfb_ivec := iv, cfb_num := (cfb_num s + 1) mod 16\<rparr>"]
      by (auto simp: cfb_step_pos c split: prod.splits)
  qed
qed auto

lemma cfb_buffer_end:
  "cfb_buffer enc iv m xs = (out, ivec, n, rest) \<Longrightarrow> m < 16 \<Longrightarrow> n < 16 \<and> (rest = [] \<or> n = 0)"
  by (induction enc iv m xs arbitrary: out ivec n rest rule: cfb_buffer.induct) (auto split: if_splits prod.splits)

lemma cfb_run_rest:
  "0 < cfb_num s \<Longrightarrow> cfb_num s + length xs < 16 \<Longrightarrow>
   cfb_rest enc (cfb_ivec s) (cfb_num s) xs = (out, ivec, n) \<Longrightarrow>
   run_machine (cfb_step block enc) xs s = (out, s\<lparr>cfb_ivec := ivec, cfb_num := n\<rparr>)"
proof (induction xs arbitrary: s out ivec n)
  case (Cons x xs)
  obtain c iv where c: "cfb_byte enc x (cfb_ivec s) (cfb_num s) = (c, iv)" by fastforce
  show ?case
    using Cons.prems Cons.IH [of "s\<lparr>cfb_ivec := iv, cfb_num := cfb_num s + 1\<rparr>"]
    by (auto simp: cfb_step_pos c split: prod.splits)
qed simp

lemma cfb_byte_eq: "cfb_byte enc x iv n = (x XOR iv ! n, iv[n := if enc then x XOR iv ! n else x])"
  by (simp add: cfb_byte_def Let_def xor.commute)

lemma cfb_run_to_end:
  "0 < cfb_num s \<Longrightarrow> cfb_num s < 16 \<Longrightarrow> cfb_num s + length xs = 16 \<Longrightarrow> length (cfb_ivec s) = 16 \<Longrightarrow>
   run_machine (cfb_step block enc) xs s =
     (map2 (XOR) xs (drop (cfb_num s) (cfb_ivec s)),
      s\<lparr>cfb_ivec := take (cfb_num s) (cfb_ivec s) @ cfb_kept enc xs (drop (cfb_num s) (cfb_ivec s)), cfb_num := 0\<rparr>)"
proof (induction xs arbitrary: s)
  case (Cons x xs)
  show ?case
  proof (cases "cfb_num s = 15")
    case True
    then show ?thesis using Cons.prems
      by (simp add: cfb_step_pos cfb_byte_eq cfb_kept_def Cons_nth_drop_Suc [symmetric] upd_conv_take_nth_drop)
  next
    case False
    then show ?thesis using Cons.prems Cons.IH [of "s\<lparr>cfb_ivec := (cfb_ivec s)[cfb_num s := if enc then x XOR cfb_ivec s ! cfb_num s else x], cfb_num := cfb_num s + 1\<rparr>"]
      by (simp add: cfb_step_pos cfb_byte_eq cfb_kept_def Cons_nth_drop_Suc [symmetric] upd_conv_take_nth_drop)
  qed
qed simp

lemma cfb_run_block:
  assumes "block_sized block" "cfb_num s = 0" "length xs = 16"
  shows "run_machine (cfb_step block enc) xs s =
    (map2 (XOR) xs (block (cfb_ivec s)), s\<lparr>cfb_ivec := cfb_kept enc xs (block (cfb_ivec s)), cfb_num := 0\<rparr>)"
proof -
  obtain x ys where xs: "xs = x # ys" "length ys = 15" using assms(3) by (cases xs) auto
  obtain k ks where ks: "block (cfb_ivec s) = k # ks" "length ks = 15"
    using assms(1) by (cases "block (cfb_ivec s)") (auto simp: block_sized_def dest: spec [of _ "cfb_ivec s"])
  show ?thesis
    using cfb_run_to_end [of "s\<lparr>cfb_ivec := (if enc then x XOR k else x) # ks, cfb_num := 1\<rparr>" ys block enc] assms(2) xs ks
    by (auto simp: cfb_step_0 cfb_byte_def cfb_kept_def Let_def xor.commute)
qed

lemma xor_word_at:
  assumes "n + 8 \<le> length a" "n + 8 \<le> length b"
  shows "CRYPTO_store_u64_le (load_word_at a n XOR load_word_at b n) = map2 (XOR) (take 8 (drop n b)) (take 8 (drop n a))"
  using assms store_xor_words [of "take 8 (drop n b)" "take 8 (drop n a)"] by (simp add: load_word_at_def xor.commute)

lemma store_word_at: "n + 8 \<le> length a \<Longrightarrow> CRYPTO_store_u64_le (load_word_at a n) = take 8 (drop n a)"
  by (simp add: load_word_at_def store_load_word)

lemma cfb_words_step:
  assumes "n < 16" "n + 8 \<le> length ivec" "n + 8 \<le> length inp"
  shows "cfb_words enc ivec n inp =
    (case cfb_words enc (memcpy_at n (cfb_kept enc (take 8 (drop n inp)) (take 8 (drop n ivec))) ivec) (n + 8) inp of
       (out, iv) \<Rightarrow> (map2 (XOR) (take 8 (drop n inp)) (take 8 (drop n ivec)) @ out, iv))"
  using assms by (subst cfb_words.simps) (simp add: xor_word_at store_word_at cfb_kept_def Let_def split: prod.splits)

lemma length_cfb_kept [simp]: "length xs = length ks \<Longrightarrow> length (cfb_kept enc xs ks) = length ks"
  by (simp add: cfb_kept_def)

lemma cfb_kept_append:
  "length xs = length ks \<Longrightarrow> cfb_kept enc (xs @ ys) (ks @ ls) = cfb_kept enc xs ks @ cfb_kept enc ys ls"
  by (simp add: cfb_kept_def)

lemma cfb_words_16: "cfb_words enc ivec 16 inp = ([], ivec)"
  by (simp add: cfb_words.simps)

lemma cfb_words_block:
  assumes "length ivec = 16" "16 \<le> length inp"
  shows "cfb_words enc ivec 0 inp = (map2 (XOR) (take 16 inp) ivec, cfb_kept enc (take 16 inp) ivec)"
proof -
  define x y v w where "x = take 8 inp" and "y = take 8 (drop 8 inp)" and "v = take 8 ivec" and "w = drop 8 ivec"
  have eq: "take 16 inp = x @ y" "ivec = v @ w"
    using take_add [of 8 8 inp] by (simp_all add: x_def y_def v_def w_def)
  have len: "length x = 8" "length y = 8" "length v = 8" "length w = 8"
    using assms by (simp_all add: x_def y_def v_def w_def)
  have "cfb_words enc (v @ w) 0 inp =
      (case cfb_words enc (cfb_kept enc x v @ w) 8 inp of (out, ivec) \<Rightarrow> (map2 (XOR) x v @ out, ivec))"
    using assms len cfb_words_step [of 0 "v @ w" inp enc, folded x_def] by (simp add: memcpy_at_def x_def [symmetric])
  moreover have "cfb_words enc (cfb_kept enc x v @ w) 8 inp = (map2 (XOR) y w, cfb_kept enc x v @ cfb_kept enc y w)"
    using assms len by (subst cfb_words_step) (simp_all add: memcpy_at_def cfb_words_16 flip: y_def)
  ultimately show ?thesis using len by (simp add: eq cfb_kept_append)
qed

lemma cfb_blocks_done: "length inp < 16 \<Longrightarrow> cfb_blocks block enc inp s = ([], inp, s)"
  by (subst cfb_blocks.simps) simp

lemma cfb_blocks_more:
  assumes "16 \<le> length inp" "block_sized block" "cfb_num s = 0"
  shows "cfb_blocks block enc inp s =
    (case run_machine (cfb_step block enc) (take 16 inp) s of
       (out1, s) \<Rightarrow> (case cfb_blocks block enc (drop 16 inp) s of (out, rest) \<Rightarrow> (out1 @ out, rest)))"
  using assms
  by (subst cfb_blocks.simps) (simp add: cfb_run_block cfb_words_block block_sized_def)

lemma cfb_run_blocks:
  assumes "block_sized block"
  shows "cfb_num s = 0 \<Longrightarrow> cfb_blocks block enc xs s = (out, rest, t) \<Longrightarrow>
    cfb_num t = 0 \<and> length rest < 16 \<and>
    run_machine (cfb_step block enc) xs s = (case run_machine (cfb_step block enc) rest t of (out2, t) \<Rightarrow> (out @ out2, t))"
proof (induction "length xs" arbitrary: xs s out rest t rule: less_induct)
  case less
  show ?case
  proof (cases "16 \<le> length xs")
    case True
    obtain out1 s1 where 1: "run_machine (cfb_step block enc) (take 16 xs) s = (out1, s1)" by fastforce
    have s1: "cfb_num s1 = 0" using 1 True assms less.prems(1) by (auto simp: cfb_run_block)
    obtain out' where b: "cfb_blocks block enc (drop 16 xs) s1 = (out', rest, t)" "out = out1 @ out'"
      using less.prems True assms by (auto simp: cfb_blocks_more 1 split: prod.splits)
    have "run_machine (cfb_step block enc) (take 16 xs @ drop 16 xs) s =
        (case run_machine (cfb_step block enc) (drop 16 xs) s1 of (out2, t) \<Rightarrow> (out1 @ out2, t))"
      by (simp only: run_machine_append) (simp add: 1)
    then show ?thesis
      using less.hyps [OF _ s1 b(1)] b True by (auto split: prod.splits)
  next
    case False
    then show ?thesis using less.prems by (auto simp: cfb_blocks_done split: prod.splits)
  qed
qed

lemma cfb_run_last:
  assumes "cfb_num s = 0" "length xs < 16" "xs \<noteq> []" "cfb_rest enc (block (cfb_ivec s)) (cfb_num s) xs = (out, ivec, n)"
  shows "run_machine (cfb_step block enc) xs s = (out, s\<lparr>cfb_ivec := ivec, cfb_num := n\<rparr>)"
proof -
  obtain x ys where xs: "xs = x # ys" using assms(3) by (cases xs) auto
  obtain c iv where c: "cfb_byte enc x (block (cfb_ivec s)) 0 = (c, iv)" by fastforce
  show ?thesis
    using assms cfb_run_rest [of "s\<lparr>cfb_ivec := iv, cfb_num := 1\<rparr>" ys] c
    by (auto simp: xs cfb_step_0 split: prod.splits)
qed

lemma cfb_is_run:
  assumes "block_sized block" "cfb_num s < 16"
  shows "CRYPTO_cfb128_encrypt block enc xs s = run_machine (cfb_step block enc) xs s"
proof -
  obtain out1 iv n xs1 where 1: "cfb_buffer enc (cfb_ivec s) (cfb_num s) xs = (out1, iv, n, xs1)"
    by (cases "cfb_buffer enc (cfb_ivec s) (cfb_num s) xs")
  let ?s = "s\<lparr>cfb_ivec := iv, cfb_num := n\<rparr>"
  obtain out2 xs2 t where 2: "cfb_blocks block enc xs1 ?s = (out2, xs2, t)" by (cases "cfb_blocks block enc xs1 ?s")
  have n: "xs1 = [] \<or> n = 0" using cfb_buffer_end [OF 1 assms(2)] by simp
  have "run_machine (cfb_step block enc) xs s =
      (case run_machine (cfb_step block enc) xs1 ?s of (out2, s) \<Rightarrow> (out1 @ out2, s))"
    by (rule cfb_run_buffer [OF 1])
  moreover have "run_machine (cfb_step block enc) xs1 ?s =
      (case run_machine (cfb_step block enc) xs2 t of (out3, t) \<Rightarrow> (out2 @ out3, t))"
    using n cfb_run_blocks [OF assms(1) _ 2] 2 by (auto simp: cfb_blocks_done)
  moreover have "xs2 \<noteq> [] \<Longrightarrow> cfb_num t = 0 \<and> length xs2 < 16"
    using n cfb_run_blocks [OF assms(1) _ 2] 2 by (auto simp: cfb_blocks_done)
  ultimately show ?thesis
    using 1 2 cfb_run_last [of t xs2] by (auto simp: CRYPTO_cfb128_encrypt_def split: prod.splits)
qed

lemma cfb_step_undo:
  "cfb_num s < 16 \<Longrightarrow> block_sized block \<Longrightarrow> length (cfb_ivec s) = 16 \<Longrightarrow>
   cfb_step block False s (fst (cfb_step block True s x)) = (x, snd (cfb_step block True s x))"
  by (auto simp: cfb_step_def cfb_byte_eq xor.assoc block_sized_def)

lemma cfb_step_usable:
  "cfb_num s < 16 \<Longrightarrow> block_sized block \<Longrightarrow> length (cfb_ivec s) = 16 \<Longrightarrow>
   length (cfb_ivec (snd (cfb_step block enc s x))) = 16 \<and> cfb_num (snd (cfb_step block enc s x)) < 16"
  by (auto simp: cfb_step_def cfb_byte_eq block_sized_def)

interpretation cfb_pair: stream_pair "cfb_step block True" "CRYPTO_cfb128_encrypt block True"
    "\<lambda>s. block_sized block \<and> cfb_num s < 16 \<and> length (cfb_ivec s) = 16" "cfb_step block False"
    "CRYPTO_cfb128_encrypt block False"
  by unfold_locales (auto simp: cfb_is_run cfb_step_undo dest: cfb_step_usable)

end
