(* ===== verification/CbcSpec.thy ===== *)
theory CbcSpec
  imports Cbc StreamModesSpec
begin

text \<open>
  Cipher block chaining does what it is defined to do, wherever the code allows the arrays to overlap: encryption on
  whole blocks, decryption on any length; a message is decrypted in its place.
\<close>

section \<open>Memory\<close>

named_theorems mem_simps

lemma length_write_at [mem_simps]: "p + length xs \<le> length m \<Longrightarrow> length (write_at p xs m) = length m"
  by (simp add: write_at_def memcpy_at_def)

lemma length_read_at [mem_simps]: "p + n \<le> length m \<Longrightarrow> length (read_at m p n) = n"
  by (simp add: read_at_def)

lemma nth_write_at:
  "p + length xs \<le> length m \<Longrightarrow> i < length m \<Longrightarrow>
   write_at p xs m ! i = (if p \<le> i \<and> i < p + length xs then xs ! (i - p) else m ! i)"
  by (auto simp: write_at_def memcpy_at_def nth_append)

lemma nth_read_at: "p + n \<le> length m \<Longrightarrow> i < n \<Longrightarrow> read_at m p n ! i = m ! (p + i)"
  by (simp add: read_at_def)

lemma read_write_other [mem_simps]:
  assumes "p + length xs \<le> length m" "q + n \<le> length m" "q + n \<le> p \<or> p + length xs \<le> q"
  shows "read_at (write_at p xs m) q n = read_at m q n"
  using assms by (intro nth_equalityI) (auto simp: length_read_at length_write_at nth_read_at nth_write_at)

lemma read_write_same [mem_simps]:
  assumes "p + length xs \<le> length m" "length xs = n"
  shows "read_at (write_at p xs m) p n = xs"
  using assms by (intro nth_equalityI) (auto simp: length_read_at length_write_at nth_read_at nth_write_at)

lemma write_commute:
  assumes "p + length xs \<le> length m" "q + length ys \<le> length m" "p + length xs \<le> q \<or> q + length ys \<le> p"
  shows "write_at p xs (write_at q ys m) = write_at q ys (write_at p xs m)"
  using assms by (intro nth_equalityI) (auto simp: length_write_at nth_write_at)

lemma write_append:
  assumes "p + length xs + length ys \<le> length m"
  shows "write_at (p + length xs) ys (write_at p xs m) = write_at p (xs @ ys) m"
  using assms by (intro nth_equalityI) (auto simp: length_write_at nth_write_at nth_append)

lemma write_over:
  assumes "p + length xs \<le> length m" "length ys = length xs"
  shows "write_at p xs (write_at p ys m) = write_at p xs m"
  using assms by (intro nth_equalityI) (auto simp: length_write_at nth_write_at)

lemma write_nil [simp]: "write_at p [] m = m"
  by (simp add: write_at_def memcpy_at_def)

lemma write_read: "p + n \<le> length m \<Longrightarrow> write_at p (read_at m p n) m = m"
  by (intro nth_equalityI) (auto simp: length_write_at length_read_at nth_write_at nth_read_at)

lemma read_append: "read_at m p (n + k) = read_at m p n @ read_at m (p + n) k"
  using take_add [of n k "drop p m"] by (simp add: read_at_def add.commute)

lemma load_word_read: "load_word_at m p = CRYPTO_load_u64_le (read_at m p 8)"
  by (simp add: load_word_at_def read_at_def)

lemma length_store [simp]: "length (CRYPTO_store_u64_le w) = 8"
  by (simp add: CRYPTO_store_u64_le_def)

section \<open>One block\<close>

lemma map2_xor_append:
  "length a = length c \<Longrightarrow> map2 (XOR) (a @ b) (c @ d) = map2 (XOR) a c @ map2 (XOR) b (d :: bytes)"
  by simp

text \<open>Two blocks are combined into a third, which may be one of the two.\<close>

lemma xor16_at_spec:
  assumes "a + 16 \<le> length m" "b + 16 \<le> length m" "out + 16 \<le> length m"
    and "a = out \<or> a + 16 \<le> out \<or> out + 16 \<le> a" "b = out \<or> b + 16 \<le> out \<or> out + 16 \<le> b"
  shows "xor16_at m out a b = write_at out (map2 (XOR) (read_at m a 16) (read_at m b 16)) m"
proof -
  define x where "x = map2 (XOR) (read_at m a 8) (read_at m b 8)"
  define y where "y = map2 (XOR) (read_at m (a + 8) 8) (read_at m (b + 8) 8)"
  have len: "length x = 8" "length y = 8" using assms by (simp_all add: x_def y_def mem_simps)
  have 1: "xor_word_to m out a b = write_at out x m"
    using assms by (simp add: xor_word_to_def load_word_read store_xor_words mem_simps x_def)
  have "read_at (write_at out x m) (a + 8) 8 = read_at m (a + 8) 8" "read_at (write_at out x m) (b + 8) 8 = read_at m (b + 8) 8"
    using assms len by (auto simp: mem_simps)
  then have "xor16_at m out a b = write_at (out + 8) y (write_at out x m)"
    using assms len by (simp add: xor16_at_def 1 xor_word_to_def [of "write_at out x m"] load_word_read store_xor_words mem_simps y_def)
  also have "\<dots> = write_at out (x @ y) m"
    using write_append [of out x y m] len assms(3) by simp
  also have "x @ y = map2 (XOR) (read_at m a 16) (read_at m b 16)"
    using read_append [of m a 8 8] read_append [of m b 8 8] assms by (simp add: x_def y_def mem_simps)
  finally show ?thesis .
qed

lemma cbc_decrypt_words_step:
  assumes "n < 16" "inp + n + 8 \<le> length m" "out + n + 8 \<le> length m" "ivec + n + 8 \<le> length m" "n + 8 \<le> length tmp"
    and "ivec + 16 \<le> out \<or> out + 16 \<le> ivec" "n \<le> 8"
  shows "cbc_decrypt_words tmp m inp out ivec n =
    cbc_decrypt_words tmp
      (write_at (ivec + n) (read_at m (inp + n) 8)
        (write_at (out + n) (map2 (XOR) (take 8 (drop n tmp)) (read_at m (ivec + n) 8)) m)) inp out ivec (n + 8)"
  using assms
  by (subst cbc_decrypt_words.simps)
    (simp add: load_word_read store_xor_words store_load_word mem_simps Let_def, simp add: read_at_def store_xor_words)

lemma cbc_decrypt_words_spec:
  assumes "inp + 16 \<le> length m" "out + 16 \<le> length m" "ivec + 16 \<le> length m" "length tmp = 16"
    and "ivec + 16 \<le> out \<or> out + 16 \<le> ivec" "ivec + 16 \<le> inp \<or> inp + 16 \<le> ivec" "out \<le> inp"
  shows "cbc_decrypt_words tmp m inp out ivec 0 =
    write_at ivec (read_at m inp 16) (write_at out (map2 (XOR) tmp (read_at m ivec 16)) m)"
proof -
  define a where "a = map2 (XOR) (take 8 tmp) (read_at m ivec 8)"
  define b where "b = map2 (XOR) (drop 8 tmp) (read_at m (ivec + 8) 8)"
  define c where "c = read_at m inp 8"
  define d where "d = read_at m (inp + 8) 8"
  have len: "length a = 8" "length b = 8" "length c = 8" "length d = 8"
    using assms by (simp_all add: a_def b_def c_def d_def mem_simps)
  define m1 where "m1 = write_at ivec c (write_at out a m)"
  have m1: "length m1 = length m" "read_at m1 (inp + 8) 8 = d" "read_at m1 (ivec + 8) 8 = read_at m (ivec + 8) 8"
    using assms len by (auto simp: m1_def d_def mem_simps)
  have "cbc_decrypt_words tmp m inp out ivec 0 = cbc_decrypt_words tmp m1 inp out ivec 8"
    using assms by (subst cbc_decrypt_words_step) (auto simp: m1_def a_def c_def)
  also have "\<dots> = write_at (ivec + 8) d (write_at (out + 8) b m1)"
    using assms by (subst cbc_decrypt_words_step) (auto simp: m1 b_def cbc_decrypt_words.simps)
  also have "\<dots> = write_at (ivec + 8) d (write_at ivec c (write_at (out + 8) b (write_at out a m)))"
  proof -
    have "write_at (out + 8) b m1 = write_at ivec c (write_at (out + 8) b (write_at out a m))"
      unfolding m1_def using assms len by (intro write_commute) (auto simp: mem_simps)
    then show ?thesis by simp
  qed
  also have "\<dots> = write_at ivec (c @ d) (write_at out (a @ b) m)"
    using assms len write_append [of ivec c d "write_at out (a @ b) m"] write_append [of out a b m] by (simp add: mem_simps)
  also have "c @ d = read_at m inp 16" using read_append [of m inp 8 8] by (simp add: c_def d_def)
  also have "a @ b = map2 (XOR) tmp (read_at m ivec 16)"
  proof -
    have "map2 (XOR) (take 8 tmp @ drop 8 tmp) (read_at m ivec 8 @ read_at m (ivec + 8) 8) = a @ b"
      using assms by (subst map2_xor_append) (simp_all add: a_def b_def mem_simps)
    then show ?thesis using read_append [of m ivec 8 8] by simp
  qed
  finally show ?thesis .
qed

section \<open>The mode of operation\<close>

fun cbc_encrypt :: "block128 \<Rightarrow> bytes \<Rightarrow> bytes list \<Rightarrow> bytes list" where
  "cbc_encrypt block iv [] = []"
| "cbc_encrypt block iv (p # ps) = (let c = block (map2 (XOR) p iv) in c # cbc_encrypt block c ps)"

fun cbc_decrypt :: "block128 \<Rightarrow> bytes \<Rightarrow> bytes list \<Rightarrow> bytes list" where
  "cbc_decrypt dblock iv [] = []"
| "cbc_decrypt dblock iv (c # cs) = map2 (XOR) (dblock c) iv # cbc_decrypt dblock c cs"

text \<open>The blocks that are in memory.\<close>

fun blocks_at :: "bytes \<Rightarrow> nat \<Rightarrow> nat \<Rightarrow> bytes list" where
  "blocks_at m p 0 = []"
| "blocks_at m p (Suc k) = read_at m p 16 # blocks_at m (p + 16) k"

lemma length_blocks_at [simp]: "length (blocks_at m p k) = k"
  by (induction k arbitrary: p) simp_all

lemma blocks_at_sized: "p + 16 * k \<le> length m \<Longrightarrow> b \<in> set (blocks_at m p k) \<Longrightarrow> length b = 16"
proof (induction k arbitrary: p)
  case (Suc k)
  then show ?case using Suc.IH [of "p + 16"] by (auto simp: mem_simps)
qed simp

lemma concat_blocks_at: "concat (blocks_at m p k) = read_at m p (16 * k)"
proof (induction k arbitrary: p)
  case (Suc k)
  have "read_at m p (16 * Suc k) = read_at m p 16 @ read_at m (p + 16) (16 * k)"
    by (simp add: read_append)
  then show ?case using Suc by simp
qed (simp add: read_at_def)

lemma blocks_at_write:
  "p + length xs \<le> length m \<Longrightarrow> q + 16 * k \<le> length m \<Longrightarrow> q + 16 * k \<le> p \<or> p + length xs \<le> q \<Longrightarrow>
   blocks_at (write_at p xs m) q k = blocks_at m q k"
  by (induction k arbitrary: q) (auto simp: mem_simps)

lemma blocks_at_cong:
  "read_at m p (16 * k) = read_at m' p' (16 * k) \<Longrightarrow> p + 16 * k \<le> length m \<Longrightarrow> p' + 16 * k \<le> length m' \<Longrightarrow>
   blocks_at m p k = blocks_at m' p' k"
  by (induction k arbitrary: p p') (simp_all add: read_append mem_simps)

lemma length_cbc_encrypt [simp]: "length (cbc_encrypt block iv ps) = length ps"
  by (induction block iv ps rule: cbc_encrypt.induct) (simp_all add: Let_def)

lemma length_cbc_decrypt [simp]: "length (cbc_decrypt dblock iv cs) = length cs"
  by (induction dblock iv cs rule: cbc_decrypt.induct) simp_all

lemma cbc_encrypt_sized: "block_sized block \<Longrightarrow> b \<in> set (cbc_encrypt block iv ps) \<Longrightarrow> length b = 16"
  by (induction block iv ps rule: cbc_encrypt.induct) (auto simp: Let_def block_sized_def)

lemma cbc_decrypt_sized:
  "block_sized dblock \<Longrightarrow> length iv = 16 \<Longrightarrow> \<forall>c \<in> set cs. length c = 16 \<Longrightarrow>
   b \<in> set (cbc_decrypt dblock iv cs) \<Longrightarrow> length b = 16"
  by (induction dblock iv cs rule: cbc_decrypt.induct) (auto simp: block_sized_def)

lemma map2_xor_undo: "length a = length b \<Longrightarrow> map2 (XOR) (map2 (XOR) a b) b = (a :: bytes)"
  by (induction a b rule: list_induct2) (simp_all add: xor.assoc)

lemma cbc_inverse:
  assumes "\<And>b. length b = 16 \<Longrightarrow> dblock (block b) = b"
  shows "\<forall>p \<in> set ps. length p = 16 \<Longrightarrow> length iv = 16 \<Longrightarrow> block_sized block \<Longrightarrow>
    cbc_decrypt dblock iv (cbc_encrypt block iv ps) = ps"
proof (induction ps arbitrary: iv)
  case (Cons p ps)
  then show ?case using assms [of "map2 (XOR) p iv"] by (simp add: Let_def map2_xor_undo block_sized_def)
qed simp

lemma concat_sized: "\<forall>b \<in> set bs. length b = 16 \<Longrightarrow> length (concat bs) = 16 * length bs"
  by (induction bs) simp_all

lemma concat_cbc_decrypt:
  "block_sized dblock \<Longrightarrow> length iv = 16 \<Longrightarrow> p + 16 * k \<le> length m \<Longrightarrow>
   length (concat (cbc_decrypt dblock iv (blocks_at m p k))) = 16 * k"
  by (subst concat_sized) (auto dest: cbc_decrypt_sized blocks_at_sized)

lemma concat_cbc_encrypt: "block_sized block \<Longrightarrow> length (concat (cbc_encrypt block iv ps)) = 16 * length ps"
  by (subst concat_sized) (auto dest: cbc_encrypt_sized)

lemma cbc_decrypt_apart_spec:
  assumes sized: "block_sized dblock" and r: "r < 16"
  shows "inp + 16 * k \<le> length m \<Longrightarrow> out + 16 * k \<le> length m \<Longrightarrow> iv + 16 \<le> length m \<Longrightarrow>
    out + 32 \<le> inp \<or> inp + 16 * k \<le> out \<Longrightarrow> k = 0 \<or> iv + 16 \<le> out \<or> out + 16 \<le> iv \<Longrightarrow>
    cbc_decrypt_apart dblock m inp out (16 * k + r) iv =
      (write_at out (concat (cbc_decrypt dblock (read_at m iv 16) (blocks_at m inp k))) m,
       inp + 16 * k, out + 16 * k, r, if k = 0 then iv else inp + 16 * (k - 1))"
proof (induction k arbitrary: m inp out iv)
  case 0
  then show ?case using r by (simp add: cbc_decrypt_apart.simps)
next
  case (Suc k)
  have b: "inp + 16 \<le> length m" "out + 16 \<le> length m" "inp + 16 + 16 * k \<le> length m" "out + 16 + 16 * k \<le> length m"
    using Suc.prems by auto
  define p where "p = map2 (XOR) (dblock (read_at m inp 16)) (read_at m iv 16)"
  have p: "length p = 16" "length (dblock (read_at m inp 16)) = 16"
    using sized Suc.prems(3) by (simp_all add: p_def block_sized_def mem_simps)
  define m1 where "m1 = write_at out p m"
  have "xor16_at (write_at out (dblock (read_at m inp 16)) m) out out iv = m1"
    using Suc.prems p b by (subst xor16_at_spec) (auto simp: mem_simps m1_def p_def write_over)
  then have 1: "cbc_decrypt_apart dblock m inp out (16 * Suc k + r) iv =
      cbc_decrypt_apart dblock m1 (inp + 16) (out + 16) (16 * k + r) inp"
    by (subst cbc_decrypt_apart.simps) (simp add: Let_def)
  have m1: "length m1 = length m" "read_at m1 inp 16 = read_at m inp 16"
    "blocks_at m1 (inp + 16) k = blocks_at m (inp + 16) k"
    unfolding m1_def using Suc.prems(4) p b by (auto simp: mem_simps intro!: read_write_other blocks_at_write)
  define ps where "ps = concat (cbc_decrypt dblock (read_at m inp 16) (blocks_at m (inp + 16) k))"
  have ps: "length ps = 16 * k"
    unfolding ps_def using b sized by (intro concat_cbc_decrypt) (auto simp: mem_simps)
  have 2: "cbc_decrypt_apart dblock m1 (inp + 16) (out + 16) (16 * k + r) inp =
      (write_at (out + 16) ps m1, inp + 16 + 16 * k, out + 16 + 16 * k, r, if k = 0 then inp else inp + 16 + 16 * (k - 1))"
    using Suc.IH [of "inp + 16" m1 "out + 16" inp] Suc.prems(4) b m1 by (auto simp: ps_def)
  have "write_at (out + 16) ps m1 = write_at out (p @ ps) m"
    using write_append [of out p ps m] p ps b by (simp add: m1_def)
  then show ?case using 1 2 by (cases k) (simp_all add: p_def ps_def)
qed

lemma cbc_decrypt_saving_spec:
  assumes sized: "block_sized dblock" and r: "r < 16"
  shows "inp + 16 * k \<le> length m \<Longrightarrow> out + 16 * k \<le> length m \<Longrightarrow> ivec + 16 \<le> length m \<Longrightarrow>
    out \<le> inp \<Longrightarrow> ivec + 16 \<le> out \<or> out + 16 * k \<le> ivec \<Longrightarrow> ivec + 16 \<le> inp \<or> inp + 16 * k \<le> ivec \<Longrightarrow>
    cbc_decrypt_saving dblock m inp out (16 * k + r) ivec =
      (write_at ivec (last (read_at m ivec 16 # blocks_at m inp k))
         (write_at out (concat (cbc_decrypt dblock (read_at m ivec 16) (blocks_at m inp k))) m),
       inp + 16 * k, out + 16 * k, r)"
proof (induction k arbitrary: m inp out)
  case 0
  then show ?case using r by (simp add: cbc_decrypt_saving.simps write_read)
next
  case (Suc k)
  have b: "inp + 16 \<le> length m" "out + 16 \<le> length m" "inp + 16 + 16 * k \<le> length m" "out + 16 + 16 * k \<le> length m"
    using Suc.prems by auto
  have d: "ivec + 16 \<le> out \<or> out + 16 + 16 * k \<le> ivec" "ivec + 16 \<le> inp \<or> inp + 16 + 16 * k \<le> ivec"
    using Suc.prems(5,6) by auto
  define p c where "p = map2 (XOR) (dblock (read_at m inp 16)) (read_at m ivec 16)" and "c = read_at m inp 16"
  have p: "length p = 16" "length c = 16" "length (dblock (read_at m inp 16)) = 16"
    using sized Suc.prems(3) b by (simp_all add: p_def c_def block_sized_def mem_simps)
  define m1 where "m1 = write_at ivec c (write_at out p m)"
  have "cbc_decrypt_words (dblock (read_at m inp 16)) m inp out ivec 0 = m1"
    using Suc.prems(3,4) p b d by (subst cbc_decrypt_words_spec) (auto simp: m1_def p_def c_def)
  then have 1: "cbc_decrypt_saving dblock m inp out (16 * Suc k + r) ivec =
      cbc_decrypt_saving dblock m1 (inp + 16) (out + 16) (16 * k + r) ivec"
    by (subst cbc_decrypt_saving.simps) (simp add: Let_def)
  have m1: "length m1 = length m" "read_at m1 ivec 16 = c" "blocks_at m1 (inp + 16) k = blocks_at m (inp + 16) k"
  proof -
    show "length m1 = length m" "read_at m1 ivec 16 = c"
      unfolding m1_def using Suc.prems(3) p b d by (simp_all add: mem_simps)
    show "blocks_at m1 (inp + 16) k = blocks_at m (inp + 16) k"
      unfolding m1_def using Suc.prems(3,4) p b d by (subst blocks_at_write; (subst blocks_at_write)?) (auto simp: mem_simps)
  qed
  define ps where "ps = concat (cbc_decrypt dblock c (blocks_at m (inp + 16) k))"
  have ps: "length ps = 16 * k"
    unfolding ps_def using b sized p by (intro concat_cbc_decrypt) (auto simp: mem_simps)
  define l where "l = last (c # blocks_at m (inp + 16) k)"
  have l: "length l = 16"
    unfolding l_def using p blocks_at_sized [OF b(3)] by auto
  have 2: "cbc_decrypt_saving dblock m1 (inp + 16) (out + 16) (16 * k + r) ivec =
      (write_at ivec l (write_at (out + 16) ps m1), inp + 16 + 16 * k, out + 16 + 16 * k, r)"
    using Suc.IH [of "inp + 16" m1 "out + 16"] Suc.prems(3,4) b d m1 by (auto simp: ps_def l_def)
  have "write_at (out + 16) ps m1 = write_at ivec c (write_at (out + 16) ps (write_at out p m))"
    unfolding m1_def using Suc.prems(3) p ps b d by (intro write_commute) (auto simp: mem_simps)
  also have "write_at (out + 16) ps (write_at out p m) = write_at out (p @ ps) m"
    using write_append [of out p ps m] p ps b by simp
  finally have "write_at ivec l (write_at (out + 16) ps m1) = write_at ivec l (write_at out (p @ ps) m)"
    using Suc.prems(3) p ps l b by (simp add: write_over mem_simps)
  then show ?case using 1 2 by (simp add: p_def ps_def l_def c_def)
qed

lemma cbc_encrypt_blocks_spec:
  assumes sized: "block_sized block"
  shows "inp + 16 * k \<le> length m \<Longrightarrow> out + 16 * k \<le> length m \<Longrightarrow> iv + 16 \<le> length m \<Longrightarrow>
    inp = out \<or> out + 16 \<le> inp \<or> inp + 16 * k \<le> out \<Longrightarrow> k = 0 \<or> iv + 16 \<le> out \<or> out + 16 \<le> iv \<Longrightarrow>
    cbc_encrypt_blocks block m inp out (16 * k) iv =
      (write_at out (concat (cbc_encrypt block (read_at m iv 16) (blocks_at m inp k))) m,
       inp + 16 * k, out + 16 * k, 0, if k = 0 then iv else out + 16 * (k - 1))"
proof (induction k arbitrary: m inp out iv)
  case 0
  then show ?case by (simp add: cbc_encrypt_blocks.simps)
next
  case (Suc k)
  have b: "inp + 16 \<le> length m" "out + 16 \<le> length m" "inp + 16 + 16 * k \<le> length m" "out + 16 + 16 * k \<le> length m"
    using Suc.prems by auto
  define x where "x = map2 (XOR) (read_at m inp 16) (read_at m iv 16)"
  define c where "c = block x"
  have c: "length x = 16" "length c = 16"
    using sized Suc.prems(3) b by (simp_all add: x_def c_def block_sized_def mem_simps)
  define m1 where "m1 = write_at out c m"
  have "xor16_at m out inp iv = write_at out x m"
    using Suc.prems b by (subst xor16_at_spec) (auto simp: x_def)
  then have 1: "cbc_encrypt_blocks block m inp out (16 * Suc k) iv =
      cbc_encrypt_blocks block m1 (inp + 16) (out + 16) (16 * k) out"
    using b c by (subst cbc_encrypt_blocks.simps) (simp add: Let_def mem_simps write_over m1_def c_def)
  have m1: "length m1 = length m" "read_at m1 out 16 = c" "blocks_at m1 (inp + 16) k = blocks_at m (inp + 16) k"
    unfolding m1_def using Suc.prems(4) c b by (auto simp: mem_simps intro!: blocks_at_write)
  define cs where "cs = concat (cbc_encrypt block c (blocks_at m (inp + 16) k))"
  have 2: "cbc_encrypt_blocks block m1 (inp + 16) (out + 16) (16 * k) out =
      (write_at (out + 16) cs m1, inp + 16 + 16 * k, out + 16 + 16 * k, 0, if k = 0 then out else out + 16 + 16 * (k - 1))"
    using Suc.IH [of "inp + 16" m1 "out + 16" out] Suc.prems(4) b m1 by (auto simp: cs_def)
  have "length cs = 16 * k" using concat_cbc_encrypt [OF sized] by (simp add: cs_def)
  then have "write_at (out + 16) cs m1 = write_at out (c @ cs) m"
    using write_append [of out c cs m] c b by (simp add: m1_def)
  then show ?case using 1 2 by (cases k) (simp_all add: cs_def c_def x_def Let_def)
qed

section \<open>What the functions leave in memory\<close>

lemma read_at_end:
  assumes "length (concat bs) = 16 * length bs" "\<forall>b \<in> set bs. length b = 16" "bs \<noteq> []" "p + 16 * length bs \<le> length m"
  shows "read_at (write_at p (concat bs) m) (p + 16 * (length bs - 1)) 16 = last bs"
proof -
  obtain as b where bs: "bs = as @ [b]" using assms(3) by (cases bs rule: rev_cases) auto
  have as: "length (concat as) = 16 * length as" using assms(2) by (intro concat_sized) (auto simp: bs)
  have "write_at p (concat bs) m = write_at (p + 16 * length as) b (write_at p (concat as) m)"
    using write_append [of p "concat as" b m] as assms(2,4) by (simp add: bs)
  then show ?thesis
    using as assms(2,4) by (simp add: bs mem_simps)
qed

lemma last_blocks_at_Suc: "last (blocks_at m p (Suc k)) = read_at m (p + 16 * k) 16"
proof (induction k arbitrary: p)
  case (Suc k)
  have "last (blocks_at m p (Suc (Suc k))) = last (blocks_at m (p + 16) (Suc k))"
    unfolding blocks_at.simps(2) [of m p "Suc k"] by (rule last_ConsR) simp
  then show ?case using Suc.IH [of "p + 16"] by (simp add: add.assoc)
qed simp

lemma last_blocks_at: "0 < k \<Longrightarrow> last (blocks_at m p k) = read_at m (p + 16 * (k - 1)) 16"
  using last_blocks_at_Suc [of m p "k - 1"] by simp

definition apart :: "nat \<Rightarrow> nat \<Rightarrow> nat \<Rightarrow> nat \<Rightarrow> bool" where
  "apart p n q k \<longleftrightarrow> p + n \<le> q \<or> q + k \<le> p"

lemma cbc128_encrypt_spec:
  assumes "block_sized block" "inp + 16 * k \<le> length m" "out + 16 * k \<le> length m" "ivec + 16 \<le> length m"
    and "inp = out \<or> out + 16 \<le> inp \<or> inp + 16 * k \<le> out" "apart ivec 16 out (16 * k)"
  shows "CRYPTO_cbc128_encrypt block m inp out (16 * k) ivec =
    (let cs = cbc_encrypt block (read_at m ivec 16) (blocks_at m inp k)
     in Some (write_at ivec (last (read_at m ivec 16 # cs)) (write_at out (concat cs) m)))"
proof (cases "k = 0")
  case True
  then show ?thesis using assms(4) by (simp add: CRYPTO_cbc128_encrypt_def write_read)
next
  case False
  define cs where "cs = cbc_encrypt block (read_at m ivec 16) (blocks_at m inp k)"
  have cs: "length cs = k" "cs \<noteq> []" "\<forall>b \<in> set cs. length b = 16" "length (concat cs) = 16 * k"
    using False assms(1) concat_cbc_encrypt [OF assms(1)] by (auto simp: cs_def dest: cbc_encrypt_sized simp flip: length_0_conv)
  have "cbc_encrypt_blocks block m inp out (16 * k) ivec =
      (write_at out (concat cs) m, inp + 16 * k, out + 16 * k, 0, out + 16 * (k - 1))"
    using cbc_encrypt_blocks_spec [OF assms(1-4)] assms(5,6) False by (auto simp: cs_def apart_def)
  moreover have "read_at (write_at out (concat cs) m) (out + 16 * (k - 1)) 16 = last cs"
    using read_at_end [of cs out m] cs assms(3) by simp
  moreover have "\<not> (ivec < out + 16 * (k - 1) + 16 \<and> out + 16 * (k - 1) < ivec + 16)"
    using assms(6) False by (auto simp: apart_def)
  ultimately show ?thesis
    using False cs(2) by (simp add: CRYPTO_cbc128_encrypt_def cbc_encrypt_tail.simps OPENSSL_memcpy_def flip: cs_def)
qed

text \<open>The last block of a message that is not of whole blocks: a whole block is read, and a part of it written.\<close>

lemma cbc_decrypt_bytes_spec:
  assumes "inp + 16 \<le> length m" "out + r \<le> length m" "ivec + 16 \<le> length m" "0 < r" "r \<le> 16" "length tmp = 16"
    and "apart ivec 16 out r" "apart ivec 16 inp 16" "out \<le> inp \<or> inp + 16 \<le> out"
  shows "cbc_decrypt_bytes tmp m inp out r ivec 0 =
    write_at ivec (read_at m inp 16) (write_at out (take r (map2 (XOR) tmp (read_at m ivec 16))) m)"
proof -
  define c p where "c = read_at m inp 16" and "p = map2 (XOR) tmp (read_at m ivec 16)"
  have len: "length c = 16" "length p = 16" using assms by (simp_all add: c_def p_def mem_simps)
  define M where "M = (\<lambda>n. write_at ivec (take n c) (write_at out (take (min n r) p) m))"
  have M: "length (M n) = length m"
    "i < length m \<Longrightarrow> M n ! i = (if ivec \<le> i \<and> i < ivec + n then c ! (i - ivec)
       else if out \<le> i \<and> i < out + min n r then p ! (i - out) else m ! i)" if "n \<le> 16" for n i
    using that assms(2-5) len by (auto simp: M_def length_write_at nth_write_at min_def split: if_splits)
  have c: "c ! n = m ! (inp + n)" "p ! n = tmp ! n XOR m ! (ivec + n)" if "n < 16" for n
    using that assms(1,3,6) by (simp_all add: c_def p_def nth_read_at length_read_at)
  have rd: "M n ! (inp + n) = c ! n" "M n ! (ivec + n) = m ! (ivec + n)" if "n < 16" for n
    using that assms(1,3,7-9) c(1) [OF that] M(2) [of n] by (auto simp: apart_def)
  have "cbc_decrypt_bytes tmp (M n) inp out r ivec n = M 16" if "n \<le> 16" for n
    using that
  proof (induction "16 - n" arbitrary: n)
    case 0
    then show ?case by (simp add: cbc_decrypt_bytes.simps)
  next
    case (Suc k)
    then have n: "n < 16" by simp
    have "M (Suc n) = (if n < r then (M n)[out + n := tmp ! n XOR m ! (ivec + n)] else M n)[ivec + n := c ! n]"
    proof (rule nth_equalityI)
      fix i assume "i < length (M (Suc n))"
      then have i: "i < length m" using M(1) [of "Suc n"] n by simp
      show "M (Suc n) ! i = (if n < r then (M n)[out + n := tmp ! n XOR m ! (ivec + n)] else M n)[ivec + n := c ! n] ! i"
        using i n c(2) [OF n] M(1,2) [of n] M(2) [of "Suc n"] assms(3,7) by (auto simp: nth_list_update apart_def less_Suc_eq)
    qed (use n M(1) [of n] M(1) [of "Suc n"] in simp)
    moreover have "cbc_decrypt_bytes tmp (M (Suc n)) inp out r ivec (Suc n) = M 16" using Suc by simp
    ultimately show ?case
      using n rd [OF n] assms(5,7) rd(1) [OF n] M(1) [of n] by (subst cbc_decrypt_bytes.simps) (auto simp: Let_def nth_list_update apart_def)
  qed
  from this [of 0] show ?thesis using length_read_at [OF assms(1)] assms(5) by (simp add: M_def c_def p_def min_absorb2)
qed

lemma cbc_decrypt_tail_spec:
  assumes "block_sized dblock" "inp + 16 \<le> length m" "out + r \<le> length m" "ivec + 16 \<le> length m" "0 < r" "r \<le> 16"
    and "apart ivec 16 out r" "apart ivec 16 inp 16" "out \<le> inp \<or> inp + 16 \<le> out"
  shows "cbc_decrypt_tail dblock m inp out r ivec =
    write_at ivec (read_at m inp 16) (write_at out (take r (map2 (XOR) (dblock (read_at m inp 16)) (read_at m ivec 16))) m)"
proof -
  have "length (dblock (read_at m inp 16)) = 16" using assms(1,2) by (simp add: block_sized_def mem_simps)
  then show ?thesis using assms by (subst cbc_decrypt_tail.simps) (simp add: Let_def cbc_decrypt_bytes_spec)
qed

text \<open>The whole blocks, with \<open>r\<close> bytes left.\<close>

lemma cbc128_decrypt_blocks:
  assumes "block_sized dblock" "r < 16" "inp + 16 * k \<le> length m" "out + 16 * k \<le> length m" "ivec + 16 \<le> length m"
    and "out \<le> inp \<or> inp + 16 * k \<le> out" "apart ivec 16 out (16 * k)" "apart ivec 16 inp (16 * k)" "0 < k"
  shows "CRYPTO_cbc128_decrypt dblock m inp out (16 * k + r) ivec =
    Some (cbc_decrypt_tail dblock
       (write_at ivec (last (blocks_at m inp k)) (write_at out (concat (cbc_decrypt dblock (read_at m ivec 16) (blocks_at m inp k))) m))
       (inp + 16 * k) (out + 16 * k) r ivec)"
proof -
  define ps where "ps = concat (cbc_decrypt dblock (read_at m ivec 16) (blocks_at m inp k))"
  have ps: "length ps = 16 * k"
    unfolding ps_def using assms by (intro concat_cbc_decrypt) (auto simp: mem_simps)
  have ne: "blocks_at m inp k \<noteq> []" using assms(9) by (simp flip: length_0_conv)
  show ?thesis
  proof (cases "(inp \<ge> 32 \<and> out \<le> inp - 32) \<or> inp < out")
    case True
    have far: "out + 32 \<le> inp \<or> inp + 16 * k \<le> out" using True assms(6) by auto
    have "cbc_decrypt_apart dblock m inp out (16 * k + r) ivec =
        (write_at out ps m, inp + 16 * k, out + 16 * k, r, inp + 16 * (k - 1))"
      using cbc_decrypt_apart_spec [OF assms(1-5) far] assms(7,9) by (auto simp: ps_def apart_def)
    moreover have "read_at (write_at out ps m) (inp + 16 * (k - 1)) 16 = last (blocks_at m inp k)"
    proof -
      have "inp + 16 * (k - 1) + 16 \<le> length m" using assms(3,9) by simp
      moreover have "inp + 16 * (k - 1) + 16 \<le> out \<or> out + length ps \<le> inp + 16 * (k - 1)" using far assms(9) ps by auto
      ultimately show ?thesis using ps assms(4,9) by (simp add: last_blocks_at mem_simps)
    qed
    moreover have "\<not> (ivec < inp + 16 * (k - 1) + 16 \<and> inp + 16 * (k - 1) < ivec + 16)"
      using assms(8,9) by (auto simp: apart_def)
    ultimately show ?thesis
      using assms(9) True by (simp add: CRYPTO_cbc128_decrypt_def OPENSSL_memcpy_def flip: ps_def)
  next
    case near: False
    then have "out \<le> inp" by auto
    then have "cbc_decrypt_saving dblock m inp out (16 * k + r) ivec =
        (write_at ivec (last (blocks_at m inp k)) (write_at out ps m), inp + 16 * k, out + 16 * k, r)"
      using cbc_decrypt_saving_spec [OF assms(1-5)] assms(7,8) ne by (simp add: ps_def apart_def)
    then show ?thesis
      unfolding CRYPTO_cbc128_decrypt_def if_not_P [OF near] using assms(9) by (simp flip: ps_def)
  qed
qed

lemma cbc_decrypt_snoc:
  "cbc_decrypt dblock iv (cs @ [c]) = cbc_decrypt dblock iv cs @ [map2 (XOR) (dblock c) (last (iv # cs))]"
  by (induction dblock iv cs rule: cbc_decrypt.induct) simp_all

lemma blocks_at_snoc: "blocks_at m p (Suc k) = blocks_at m p k @ [read_at m (p + 16 * k) 16]"
proof (induction k arbitrary: p)
  case (Suc k)
  have "blocks_at m p (Suc (Suc k)) = read_at m p 16 # blocks_at m (p + 16) (Suc k)" by (rule blocks_at.simps)
  also have "blocks_at m (p + 16) (Suc k) = blocks_at m (p + 16) k @ [read_at m (p + 16 * Suc k) 16]"
    using Suc.IH [of "p + 16"] by (simp add: add.assoc)
  finally show ?case by simp
qed simp

text \<open>
  Any length. The call is undefined in one case: a message shorter than a block, where the code copies the
  vector to itself.
\<close>

lemma cbc128_decrypt_any:
  assumes "block_sized dblock" "inp + 16 * K \<le> length m" "out + len \<le> length m" "ivec + 16 \<le> length m"
    and "out \<le> inp \<or> inp + 16 * K \<le> out" "apart ivec 16 out len" "apart ivec 16 inp (16 * K)" and K: "K = (len + 15) div 16"
    and defd: "0 < len \<Longrightarrow> len < 16 \<Longrightarrow> \<not> (out + 32 \<le> inp \<or> inp < out)"
  shows "CRYPTO_cbc128_decrypt dblock m inp out len ivec =
    (let cs = blocks_at m inp K
     in Some (write_at ivec (last (read_at m ivec 16 # cs))
          (write_at out (take len (concat (cbc_decrypt dblock (read_at m ivec 16) cs))) m)))"
proof (cases "len = 0")
  case True
  then show ?thesis using assms(4) K by (simp add: CRYPTO_cbc128_decrypt_def write_read)
next
  case False
  define k r where "k = len div 16" and "r = len mod 16"
  have len: "len = 16 * k + r" "r < 16" by (simp_all add: k_def r_def)
  define iv cs where "iv = read_at m ivec 16" and "cs = blocks_at m inp k"
  define ps where "ps = concat (cbc_decrypt dblock iv cs)"
  define m1 where "m1 = write_at ivec (last (iv # cs)) (write_at out ps m)"
  have "K = (16 * k + (r + 15)) div 16" using K len(1) by (simp add: add.assoc)
  also have "\<dots> = k + (r + 15) div 16" by (rule div_mult_self4) simp
  finally have K2: "K = k + (r + 15) div 16" .
  moreover have "(r + 15) div 16 = 1" if "r \<noteq> 0" using that len(2) by (intro div_nat_eqI) simp_all
  ultimately have kK: "k \<le> K" "K = (if r = 0 then k else Suc k)" by simp_all
  have bs: "inp + 16 * k \<le> length m" "out + 16 * k \<le> length m" using assms(2,3) kK(1) len by auto
  have ps: "length ps = 16 * k"
    unfolding ps_def cs_def using assms(1,4) bs by (intro concat_cbc_decrypt) (auto simp: iv_def mem_simps)
  have l: "length (last (iv # cs)) = 16"
    using assms(4) blocks_at_sized [OF bs(1)] by (auto simp: iv_def cs_def mem_simps)
  have dec: "CRYPTO_cbc128_decrypt dblock m inp out len ivec = Some (cbc_decrypt_tail dblock m1 (inp + 16 * k) (out + 16 * k) r ivec)"
  proof (cases "k = 0")
    case True
    then have "CRYPTO_cbc128_decrypt dblock m inp out len ivec = Some (cbc_decrypt_tail dblock m inp out r ivec)"
      using False len defd by (auto simp: CRYPTO_cbc128_decrypt_def cbc_decrypt_saving.simps)
    moreover have "m1 = m" using True assms(4) by (simp add: m1_def ps_def cs_def iv_def write_read)
    ultimately show ?thesis using True by simp
  next
    case k: False
    then have "cs \<noteq> []" by (simp add: cs_def flip: length_0_conv)
    then show ?thesis
      using cbc128_decrypt_blocks [OF assms(1) len(2) bs assms(4)] assms(5-7) kK(1) k
      unfolding len(1) by (auto simp: m1_def ps_def cs_def iv_def apart_def)
  qed
  show ?thesis
  proof (cases "r = 0")
    case True
    then show ?thesis using dec kK len(1) ps by (simp add: cbc_decrypt_tail.simps m1_def ps_def cs_def iv_def Let_def)
  next
    case r: False
    have K': "K = Suc k" using kK(2) r by simp
    define c where "c = read_at m (inp + 16 * k) 16"
    define p where "p = map2 (XOR) (dblock c) (last (iv # cs))"
    have b: "inp + 16 * k + 16 \<le> length m" "out + 16 * k + r \<le> length m" using assms(2,3) K' len(1) by simp_all
    have a: "apart ivec 16 (out + 16 * k) r" "apart ivec 16 (inp + 16 * k) 16" "apart ivec 16 out (16 * k)"
      "out + 16 * k \<le> inp + 16 * k \<or> inp + 16 * k + 16 \<le> out + 16 * k"
      using assms(5-7) len(1) K' by (auto simp: apart_def)
    have m1: "length m1 = length m" "read_at m1 ivec 16 = last (iv # cs)"
      using bs assms(4) ps l by (simp_all add: m1_def mem_simps)
    have "read_at m1 (inp + 16 * k) 16 = read_at (write_at out ps m) (inp + 16 * k) 16"
      unfolding m1_def using a(2) b bs assms(4) ps l by (intro read_write_other) (auto simp: apart_def mem_simps)
    also have "\<dots> = c" unfolding c_def using assms(5) b bs ps K' by (intro read_write_other) auto
    finally have c: "read_at m1 (inp + 16 * k) 16 = c" .
    have lc: "length c = 16" "length p = 16" using b assms(1) l by (simp_all add: c_def p_def block_sized_def mem_simps)
    have "cbc_decrypt_tail dblock m1 (inp + 16 * k) (out + 16 * k) r ivec = write_at ivec c (write_at (out + 16 * k) (take r p) m1)"
      using cbc_decrypt_tail_spec [OF assms(1), of "inp + 16 * k" m1 "out + 16 * k" r ivec] a b c m1 assms(4) r len(2)
      by (simp add: p_def)
    also have "write_at (out + 16 * k) (take r p) m1 = write_at ivec (last (iv # cs)) (write_at (out + 16 * k) (take r p) (write_at out ps m))"
      unfolding m1_def using a(1) b bs assms(4) ps l lc len(2) by (intro write_commute) (auto simp: apart_def mem_simps)
    also have "write_at (out + 16 * k) (take r p) (write_at out ps m) = write_at out (ps @ take r p) m"
      using write_append [of out ps "take r p" m] ps b(2) lc len(2) by simp
    also have "write_at ivec c (write_at ivec (last (iv # cs)) (write_at out (ps @ take r p) m)) = write_at ivec c (write_at out (ps @ take r p) m)"
      using assms(3,4) ps l lc len by (intro write_over) (simp_all add: mem_simps)
    finally have tail: "cbc_decrypt_tail dblock m1 (inp + 16 * k) (out + 16 * k) r ivec = write_at ivec c (write_at out (ps @ take r p) m)" .
    have "blocks_at m inp K = cs @ [c]" unfolding K' blocks_at_snoc by (simp add: cs_def c_def)
    moreover have "take len (concat (cbc_decrypt dblock iv (cs @ [c]))) = ps @ take r p"
      using ps len(1) by (simp add: cbc_decrypt_snoc ps_def p_def)
    ultimately show ?thesis using dec tail by (simp add: iv_def Let_def)
  qed
qed

lemma cbc128_decrypt_spec:
  assumes "block_sized dblock" "inp + 16 * k \<le> length m" "out + 16 * k \<le> length m" "ivec + 16 \<le> length m"
    and "out \<le> inp \<or> inp + 16 * k \<le> out" "apart ivec 16 out (16 * k)" "apart ivec 16 inp (16 * k)"
  shows "CRYPTO_cbc128_decrypt dblock m inp out (16 * k) ivec =
    (let cs = blocks_at m inp k
     in Some (write_at ivec (last (read_at m ivec 16 # cs))
          (write_at out (concat (cbc_decrypt dblock (read_at m ivec 16) cs)) m)))"
proof -
  have "length (concat (cbc_decrypt dblock (read_at m ivec 16) (blocks_at m inp k))) = 16 * k"
    using assms by (intro concat_cbc_decrypt) (auto simp: mem_simps)
  moreover have "k = (16 * k + 15) div 16" by simp
  ultimately show ?thesis using cbc128_decrypt_any [OF assms] by simp
qed

text \<open>A message that is encrypted in its place is decrypted in its place, with the vector it was encrypted with.\<close>

lemma blocks_at_written:
  assumes "\<forall>b \<in> set bs. length b = 16" "p + 16 * length bs \<le> length m"
  shows "blocks_at (write_at p (concat bs) m) p (length bs) = bs"
proof -
  let ?m = "write_at p (concat bs) m"
  have len: "length (concat bs) = 16 * length bs" by (rule concat_sized [OF assms(1)])
  then have "length ?m = length m" using assms(2) by (simp add: mem_simps)
  then have read: "length b = 16" if "b \<in> set (blocks_at ?m p (length bs))" for b
    using blocks_at_sized [OF _ that] assms(2) by simp
  have "length x = length y" if "(x, y) \<in> set (zip (blocks_at ?m p (length bs)) bs)" for x y
    using read [OF set_zip_leftD [OF that]] assms(1) set_zip_rightD [OF that] by simp
  then have "\<forall>(x, y) \<in> set (zip (blocks_at ?m p (length bs)) bs). length x = length y"
    by blast
  moreover have "concat (blocks_at ?m p (length bs)) = concat bs"
    using assms(2) len by (simp add: concat_blocks_at mem_simps)
  ultimately show ?thesis by (subst (asm) concat_eq_concat_iff) simp_all
qed

lemma cbc_in_place:
  assumes "block_sized block" "block_sized dblock" "\<And>b. length b = 16 \<Longrightarrow> dblock (block b) = b"
    and "p + 16 * k \<le> length m" "ivec + 16 \<le> length m" "apart ivec 16 p (16 * k)"
  obtains m1 m2 where "CRYPTO_cbc128_encrypt block m p p (16 * k) ivec = Some m1"
    "CRYPTO_cbc128_decrypt dblock (write_at ivec (read_at m ivec 16) m1) p p (16 * k) ivec = Some m2"
    "write_at ivec (read_at m ivec 16) m2 = m"
proof -
  define iv ps where "iv = read_at m ivec 16" and "ps = blocks_at m p k"
  define cs where "cs = cbc_encrypt block iv ps"
  have iv: "length iv = 16" using assms(5) by (simp add: iv_def mem_simps)
  have ps: "\<forall>b \<in> set ps. length b = 16" "length ps = k" "concat ps = read_at m p (16 * k)"
    using assms(4) by (auto simp: ps_def concat_blocks_at dest: blocks_at_sized)
  have cs: "\<forall>b \<in> set cs. length b = 16" "length cs = k" "length (concat cs) = 16 * k"
    using assms(1) ps concat_cbc_encrypt [OF assms(1)] by (auto simp: cs_def dest: cbc_encrypt_sized)
  define m0 where "m0 = write_at p (concat cs) m"
  have m0: "length m0 = length m" "read_at m0 ivec 16 = iv" "blocks_at m0 p k = cs"
    using assms(4-6) cs blocks_at_written [of cs p m] by (auto simp: m0_def iv_def apart_def mem_simps)
  define l where "l = last (iv # cs)"
  have l: "length l = 16" using iv cs by (auto simp: l_def)
  have enc: "CRYPTO_cbc128_encrypt block m p p (16 * k) ivec = Some (write_at ivec l m0)"
    using cbc128_encrypt_spec [OF assms(1,4,4,5) _ assms(6)] by (simp add: Let_def iv_def ps_def cs_def m0_def l_def)
  have restored: "write_at ivec iv (write_at ivec l m0) = m0"
    using assms(5) iv l m0 write_read [of ivec 16 m0] by (simp add: write_over)
  have "concat (cbc_decrypt dblock iv cs) = concat ps"
    using cbc_inverse [OF assms(3) ps(1) iv assms(1)] by (simp add: cs_def)
  then have dec: "CRYPTO_cbc128_decrypt dblock m0 p p (16 * k) ivec = Some (write_at ivec l (write_at p (concat ps) m0))"
    using cbc128_decrypt_spec [OF assms(2), of p k m0 p ivec] assms(4-6) m0 by (simp add: Let_def l_def)
  have "write_at p (concat ps) m0 = m"
    using assms(4) cs ps(3) write_read [of p "16 * k" m] by (simp add: m0_def write_over mem_simps)
  then have "write_at ivec iv (write_at ivec l (write_at p (concat ps) m0)) = m"
    using assms(5) iv l write_read [of ivec 16 m] by (simp add: write_over flip: iv_def)
  then show thesis using that [OF enc] dec restored by (simp flip: iv_def)
qed

end
