(* ===== verification/CfbSpec.thy ===== *)
theory CfbSpec
  imports StreamModesSpec
begin

text \<open>
  Cipher feedback of a part of a block: the initialization vector is a register of 128 bits into which the ciphertext is
  shifted, and bytes or bits that were encrypted are decrypted.
\<close>

section \<open>The shift register\<close>

lemma be_nat_shift:
  assumes "0 < r" "r < 8"
  shows "k < length xs \<Longrightarrow>
    be_nat (map (\<lambda>n. push_bit r (xs ! n) OR drop_bit (8 - r) (xs ! (n + 1))) [0..<k]) =
      be_nat (take (k + 1) xs) div 2 ^ (8 - r) mod 256 ^ k"
proof (induction k)
  case (Suc k)
  define p q where "p = be_nat (take (k + 1) xs)" and "q = unat (xs ! (k + 1))"
  have q: "q < 256" "be_nat (take (Suc k + 1) xs) = p * 256 + q"
    using Suc.prems by (simp_all add: p_def q_def take_Suc_conv_app_nth be_nat_append)
  have e: "(256 :: nat) = 2 ^ r * 2 ^ (8 - r)" using assms by (simp flip: power_add)
  have lo: "p mod 256 = unat (xs ! k)"
    using Suc.prems unat_byte_less [of "xs ! k"] by (simp add: p_def take_Suc_conv_app_nth be_nat_append)
  have cut: "unat (xs ! k) * 2 ^ r mod 256 = p mod 2 ^ (8 - r) * 2 ^ r"
  proof -
    have "unat (xs ! k) * 2 ^ r mod 256 = unat (xs ! k) mod 2 ^ (8 - r) * 2 ^ r"
      by (subst e, subst mult.commute, subst mult_mod_right [symmetric]) (simp add: mult.commute)
    also have "unat (xs ! k) mod 2 ^ (8 - r) = p mod 2 ^ (8 - r)"
      by (simp only: lo [symmetric] e mod_mult_self3 mod_mod_cancel dvd_triv_right)
    finally show ?thesis .
  qed
  have small: "p mod 2 ^ (8 - r) * 2 ^ r + q div 2 ^ (8 - r) < 256"
  proof -
    have "q div 2 ^ (8 - r) < 2 ^ r" using q(1) e by (simp add: less_mult_imp_div_less)
    moreover have "p mod 2 ^ (8 - r) + 1 \<le> 2 ^ (8 - r)" by (simp add: Suc_leI)
    then have "(p mod 2 ^ (8 - r) + 1) * 2 ^ r \<le> 256" unfolding e by (subst mult.commute) (rule mult_le_mono2)
    ultimately show ?thesis by simp
  qed
  have "unat (drop_bit (8 - r) (xs ! (k + 1))) < 2 ^ r"
    using q(1) e by (simp add: unat_drop_bit_div less_mult_imp_div_less flip: q_def)
  then have u: "unat (push_bit r (xs ! k) OR drop_bit (8 - r) (xs ! (k + 1))) =
      p mod 2 ^ (8 - r) * 2 ^ r + q div 2 ^ (8 - r)"
    using cut by (subst unat_or_low_bits [where n = r]) (simp_all add: unat_push_bit_mod unat_drop_bit_div q_def)
  have "(p * 256 + q) div 2 ^ (8 - r) = p * 2 ^ r + q div 2 ^ (8 - r)"
    unfolding e by (simp add: mult.assoc [symmetric])
  also have "\<dots> = p div 2 ^ (8 - r) * 256 + (p mod 2 ^ (8 - r) * 2 ^ r + q div 2 ^ (8 - r))"
  proof -
    have "p * 2 ^ r = (p div 2 ^ (8 - r) * 2 ^ (8 - r) + p mod 2 ^ (8 - r)) * 2 ^ r"
      by (simp only: div_mult_mod_eq)
    then show ?thesis unfolding e by (simp only: distrib_right mult.assoc) (simp add: mult.commute)
  qed
  finally have "be_nat (take (Suc k + 1) xs) div 2 ^ (8 - r) mod 256 ^ Suc k =
      p div 2 ^ (8 - r) mod 256 ^ k * 256 + (p mod 2 ^ (8 - r) * 2 ^ r + q div 2 ^ (8 - r))"
    using small by (simp only: q(2)) (simp add: mod_mult2_eq)
  then show ?case
    using Suc u by (simp add: be_nat_append p_def)
qed simp

lemma mod_div_mod: "b + c \<le> a \<Longrightarrow> (x :: nat) mod 2 ^ a div 2 ^ b mod 2 ^ c = x div 2 ^ b mod 2 ^ c"
  unfolding take_bit_eq_mod [symmetric] drop_bit_eq_div [symmetric] by (rule bit_eqI) (auto simp: bit_simps)

lemma be_nat_drop: "n \<le> length xs \<Longrightarrow> be_nat (drop n xs) = be_nat xs mod 256 ^ (length xs - n)"
  using be_nat_append [of "take n xs" "drop n xs"] be_nat_less [of "drop n xs"] by simp

lemma cfbr_shifts:
  assumes "cfbr_encrypt_block block enc inp nbits ivec = Some (out, iv)" "length ivec = 16" "m = (nbits + 7) div 8"
    "m \<le> length inp"
  shows "0 < nbits" "nbits \<le> 128" "out = map (\<lambda>n. inp ! n XOR block ivec ! n) [0..<m]" "length iv = 16"
    "be_nat iv = (be_nat ivec * 2 ^ nbits + be_nat (if enc then out else take m inp) div 2 ^ (8 * m - nbits)) mod 2 ^ 128"
proof -
  note def = assms(1) [unfolded cfbr_encrypt_block_def Let_def, folded assms(3)]
  show n: "0 < nbits" "nbits \<le> 128" and out: "out = map (\<lambda>n. inp ! n XOR block ivec ! n) [0..<m]"
    using def by (auto split: if_splits)
  define C where "C = (if enc then out else take m inp)"
  have m: "m \<le> 16" "0 < m" using n assms(3) by auto
  have C: "length C = m" using assms(4) out by (simp add: C_def)
  define q where "q = nbits div 8"
  define ovec where "ovec = memcpy_at 16 C (memcpy_at 0 ivec (replicate 33 0))"
  have ovec: "ovec = ivec @ C @ replicate (17 - m) 0" "length ovec = 33"
    using C m assms(2) by (simp_all add: ovec_def memcpy_at_def)
  have iv: "iv = (if nbits mod 8 = 0 then take 16 (drop q ovec)
      else map (\<lambda>n. push_bit (nbits mod 8) (ovec ! (n + q)) OR drop_bit (8 - nbits mod 8) (ovec ! (n + q + 1))) [0..<16])"
    using def n by (auto simp: ovec_def C_def q_def split: if_splits)
  have q: "q \<le> 16" "q \<le> m" using n assms(3) by (auto simp: q_def)
  show "length iv = 16" using iv ovec(2) q by simp
  have base: "be_nat (ivec @ C) = be_nat ivec * 256 ^ m + be_nat C" by (simp add: be_nat_append C)
  have "be_nat iv = (be_nat ivec * 2 ^ nbits + be_nat C div 2 ^ (8 * m - nbits)) mod 2 ^ 128"
  proof (cases "nbits mod 8 = 0")
    case True
    then have qm: "m = q" "nbits = 8 * q" using assms(3) by (auto simp: q_def)
    have "iv = drop q (ivec @ C)"
      using iv True ovec(1) qm C assms(2) q by (simp add: take_drop)
    then show ?thesis
      using be_nat_drop [of q "ivec @ C"] base C assms(2) qm by (simp add: power_mult)
  next
    case False
    then have qm: "m = q + 1" "8 * m - nbits = 8 - nbits mod 8" "nbits mod 8 < 8"
      using False assms(3) unfolding q_def by presburger+
    have pw: "256 ^ m = (2 :: nat) ^ nbits * 2 ^ (8 * m - nbits)"
    proof -
      have "nbits + (8 * m - nbits) = 8 * m" using assms(3) by presburger
      then show ?thesis by (simp add: power_mult flip: power_add)
    qed
    have "iv = map (\<lambda>n. push_bit (nbits mod 8) (drop q ovec ! n) OR drop_bit (8 - nbits mod 8) (drop q ovec ! (n + 1))) [0..<16]"
      using iv False q ovec(2) by (auto simp: add.commute)
    then have "be_nat iv = be_nat (take 17 (drop q ovec)) div 2 ^ (8 - nbits mod 8) mod 256 ^ 16"
      using be_nat_shift [of "nbits mod 8" 16 "drop q ovec"] False q ovec(2) by simp
    also have "take 17 (drop q ovec) = drop q (ivec @ C)"
      using ovec(1) qm C assms(2) by (simp add: take_drop)
    also have "be_nat \<dots> = be_nat (ivec @ C) mod 2 ^ 136"
      using be_nat_drop [of q "ivec @ C"] C assms(2) qm by simp
    also have "be_nat (ivec @ C) mod 2 ^ 136 div 2 ^ (8 - nbits mod 8) mod 256 ^ 16 =
        be_nat (ivec @ C) div 2 ^ (8 * m - nbits) mod 2 ^ 128"
      using mod_div_mod [of "8 * m - nbits" 128 136 "be_nat (ivec @ C)"] qm by simp
    also have "be_nat (ivec @ C) div 2 ^ (8 * m - nbits) = be_nat ivec * 2 ^ nbits + be_nat C div 2 ^ (8 * m - nbits)"
      unfolding base pw by (simp add: mult.assoc [symmetric])
    finally show ?thesis .
  qed
  then show "be_nat iv = (be_nat ivec * 2 ^ nbits + be_nat (if enc then out else take m inp) div 2 ^ (8 * m - nbits)) mod 2 ^ 128"
    by (simp add: C_def)
qed

section \<open>Bytes\<close>

text \<open>With feedback of 8 bits, every byte of ciphertext is shifted into the register.\<close>

definition cfb8_step :: "block128 \<Rightarrow> bool \<Rightarrow> bytes \<Rightarrow> u8 \<Rightarrow> u8 \<times> bytes" where
  "cfb8_step block enc ivec x =
     (let c = x XOR hd (block ivec) in (c, tl ivec @ [if enc then c else x]))"

lemma cfbr_8:
  assumes "block_sized block" "length ivec = 16"
  shows "cfbr_encrypt_block block enc [x] 8 ivec =
    Some ([fst (cfb8_step block enc ivec x)], snd (cfb8_step block enc ivec x))"
proof -
  have "block ivec ! 0 = hd (block ivec)"
    using assms by (cases "block ivec") (auto simp: block_sized_def dest: spec [of _ ivec])
  moreover have "take 15 (drop (Suc 0) ivec) = tl ivec"
    using assms by (simp add: drop_Suc)
  ultimately show ?thesis
    using assms(2) by (cases ivec) (auto simp: cfbr_encrypt_block_def Let_def memcpy_at_def cfb8_step_def)
qed

lemma cfb8_is_run:
  "block_sized block \<Longrightarrow> length ivec = 16 \<Longrightarrow>
   CRYPTO_cfb128_8_encrypt block enc xs ivec = run_machine (cfb8_step block enc) xs ivec"
proof (induction xs arbitrary: ivec)
  case (Cons x xs)
  have "length (snd (cfb8_step block enc ivec x)) = 16" using Cons.prems by (simp add: cfb8_step_def Let_def)
  then show ?case using Cons by (simp add: cfbr_8 split: prod.splits)
qed simp

interpretation cfb8_pair: stream_pair "cfb8_step block True" "CRYPTO_cfb128_8_encrypt block True"
    "\<lambda>ivec. block_sized block \<and> length ivec = 16" "cfb8_step block False" "CRYPTO_cfb128_8_encrypt block False"
  by unfold_locales (auto simp: cfb8_is_run cfb8_step_def Let_def xor.assoc)

section \<open>Bits\<close>

text \<open>The bits of a byte string, from the highest bit of the first byte on.\<close>

definition bit_at :: "bytes \<Rightarrow> nat \<Rightarrow> bool" where
  "bit_at xs n \<longleftrightarrow> bit (xs ! (n div 8)) (7 - n mod 8)"

definition shift_in :: "bytes \<Rightarrow> bool \<Rightarrow> bytes" where
  "shift_in ivec b = nat_be 16 (be_nat ivec * 2 + of_bool b)"

definition cfb1_step :: "block128 \<Rightarrow> bool \<Rightarrow> bytes \<Rightarrow> bool \<Rightarrow> bool \<times> bytes" where
  "cfb1_step block enc ivec x =
     (let c = (x \<noteq> bit_at (block ivec) 0) in (c, shift_in ivec (if enc then c else x)))"

lemma bit_0x80: "bit (0x80 :: u8) n \<longleftrightarrow> n = 7"
proof (cases "n < 8")
  case True
  then have "n = 0 \<or> n = 1 \<or> n = 2 \<or> n = 3 \<or> n = 4 \<or> n = 5 \<or> n = 6 \<or> n = 7" by arith
  then show ?thesis by (elim disjE) simp_all
next
  case False
  then show ?thesis using bit_imp_le_length [of "0x80 :: u8" n] by auto
qed

lemma and_bit_test: "k < 8 \<Longrightarrow> (x :: u8) AND push_bit k 1 \<noteq> 0 \<longleftrightarrow> bit x k"
  by (simp add: push_bit_of_1 and_exp_eq_0_iff_not_bit)

lemma high_bit_div: "unat (x :: u8) div 128 = of_bool (bit x 7)"
proof -
  have "bit x 7 \<longleftrightarrow> odd (unat x div 128)"
  proof -
    have "bit x 7 \<longleftrightarrow> bit (unat x) 7" by (simp add: bit_unsigned_iff)
    then show ?thesis by (simp add: bit_iff_odd)
  qed
  moreover have "unat x div 128 < 2" using unat_byte_less [of x] by (simp add: less_mult_imp_div_less)
  ultimately show ?thesis by (cases "unat x div 128 = 0") auto
qed

lemma cfbr_1:
  assumes "length ivec = 16" "c = (if x then 0x80 else 0)"
  obtains d where "cfbr_encrypt_block block enc [c] 1 ivec = Some ([d], snd (cfb1_step block enc ivec x))"
    "bit d 7 \<longleftrightarrow> fst (cfb1_step block enc ivec x)"
proof -
  define d where "d = c XOR block ivec ! 0"
  obtain out iv where e: "cfbr_encrypt_block block enc [c] 1 ivec = Some (out, iv)"
    by (auto simp: cfbr_encrypt_block_def Let_def)
  note s = cfbr_shifts [OF e assms(1), of 1]
  have out: "out = [d]" using s(3) by (simp add: d_def)
  have cd: "bit d 7 \<longleftrightarrow> fst (cfb1_step block enc ivec x)" "bit c 7 \<longleftrightarrow> x"
    using assms(2) by (auto simp: d_def bit_simps bit_0x80 cfb1_step_def Let_def bit_at_def)
  have "iv = nat_be 16 (be_nat iv)" using s(4) nat_be_be_nat [of iv] by simp
  also have "be_nat iv = (be_nat ivec * 2 + of_bool (bit (if enc then d else c) 7)) mod 256 ^ 16"
    using s(5) out high_bit_div by simp
  also have "nat_be 16 \<dots> = shift_in ivec (bit (if enc then d else c) 7)"
    by (simp only: nat_be_mod shift_in_def)
  finally have "iv = snd (cfb1_step block enc ivec x)"
    using cd by (simp add: cfb1_step_def Let_def)
  then show thesis using that e out cd by simp
qed

lemma length_shift_in [simp]: "length (shift_in ivec b) = 16"
  by (simp add: shift_in_def)

lemma length_cfb1_step [simp]: "length (snd (cfb1_step block enc ivec x)) = 16"
  by (simp add: cfb1_step_def Let_def)

interpretation cfb1_pair: stream_pair "cfb1_step block True" "run_machine (cfb1_step block True)" "\<lambda>_. True"
    "cfb1_step block False" "run_machine (cfb1_step block False)"
  by unfold_locales (auto simp: cfb1_step_def Let_def)

text \<open>A bit of the output is replaced, and the others stay.\<close>

lemma bit_put:
  assumes "a < 8" "b < 8"
  shows "bit (y AND NOT (push_bit (7 - a) 1) OR drop_bit a (d AND 0x80) :: u8) (7 - b) \<longleftrightarrow>
    (if b = a then bit d 7 else bit y (7 - b))"
proof -
  have 1: "a + (7 - b) = 7 \<longleftrightarrow> b = a" and 2: "7 - a = 7 - b \<longleftrightarrow> b = a" and 3: "7 - b < 8" using assms by arith+
  have "bit (push_bit (7 - a) (1 :: u8)) (7 - b) \<longleftrightarrow> b = a"
    unfolding push_bit_of_1 bit_exp_iff using 2 3 by auto
  moreover have "bit (drop_bit a (d AND (0x80 :: u8))) (7 - b) \<longleftrightarrow> bit d (a + (7 - b)) \<and> a + (7 - b) = 7"
    unfolding bit_drop_bit_eq comp_def bit_and_iff bit_0x80 by (rule refl)
  ultimately show ?thesis
    unfolding bit_or_iff bit_and_iff bit_not_iff using 1 3 by auto
qed

lemma bit_at_put:
  assumes "n div 8 < length out"
  shows "bit_at (out[n div 8 := out ! (n div 8) AND NOT (push_bit (7 - n mod 8) 1) OR drop_bit (n mod 8) (d AND 0x80)]) j \<longleftrightarrow>
    (if j = n then bit d 7 else bit_at out j)"
proof (cases "j div 8 = n div 8")
  case True
  then have "j = n \<longleftrightarrow> j mod 8 = n mod 8" by (metis div_mult_mod_eq)
  then show ?thesis
    using assms True bit_put [of "n mod 8" "j mod 8" "out ! (n div 8)" d] by (simp add: bit_at_def)
next
  case False
  then show ?thesis by (auto simp: bit_at_def)
qed

lemma cfb_bits_run:
  assumes "bits \<le> 8 * length inp"
  shows "n \<le> bits \<Longrightarrow> bits \<le> 8 * length out \<Longrightarrow> length ivec = 16 \<Longrightarrow>
    cfb_bits block enc inp n bits out ivec = (out', iv) \<Longrightarrow>
    \<exists>ys. run_machine (cfb1_step block enc) (map (bit_at inp) [n..<bits]) ivec = (ys, iv) \<and> length out' = length out \<and>
      (\<forall>j. bit_at out' j = (if n \<le> j \<and> j < bits then ys ! (j - n) else bit_at out j))"
proof (induction "bits - n" arbitrary: n out ivec out' iv)
  case 0
  then have "bits = n" by simp
  then show ?case using 0 by (auto simp: cfb_bits.simps)
next
  case (Suc k)
  then have n: "n < bits" "k = bits - Suc n" by auto
  let ?c = "if inp ! (n div 8) AND push_bit (7 - n mod 8) 1 \<noteq> 0 then 0x80 else 0 :: u8"
  let ?s = "cfb1_step block enc ivec (bit_at inp n)"
  have c: "?c = (if bit_at inp n then 0x80 else 0)"
    by (subst and_bit_test) (simp_all add: bit_at_def)
  obtain d where d: "cfbr_encrypt_block block enc [?c] 1 ivec = Some ([d], snd ?s)" "bit d 7 \<longleftrightarrow> fst ?s"
    by (rule cfbr_1 [OF Suc.prems(3) c])
  define out1 where "out1 =
    out[n div 8 := out ! (n div 8) AND NOT (push_bit (7 - n mod 8) 1) OR drop_bit (n mod 8) (d AND 0x80)]"
  have "cfb_bits block enc inp (Suc n) bits out1 (snd ?s) = (out', iv)"
    using Suc.prems(4) n d(1) by (subst (asm) cfb_bits.simps) (simp add: Let_def out1_def)
  moreover have "length out1 = length out" by (simp add: out1_def)
  ultimately obtain ys where ys: "run_machine (cfb1_step block enc) (map (bit_at inp) [Suc n..<bits]) (snd ?s) = (ys, iv)"
    "length out' = length out"
    "\<forall>j. bit_at out' j = (if Suc n \<le> j \<and> j < bits then ys ! (j - Suc n) else bit_at out1 j)"
    using Suc.hyps(1) [OF n(2), of out1 "snd ?s" out' iv] Suc.prems(2) n by auto
  have b: "bit_at out1 j = (if j = n then fst ?s else bit_at out j)" for j
    using n Suc.prems(2) d(2) bit_at_put [of n out d j] by (simp add: out1_def)
  have "bit_at out' j = (if n \<le> j \<and> j < bits then (fst ?s # ys) ! (j - n) else bit_at out j)" for j
    using ys(3) b n by (cases "j = n") (auto simp: nth_Cons' Suc_le_eq)
  then show ?case
    using ys(1,2) n by (intro exI [of _ "fst ?s # ys"]) (simp add: upt_conv_Cons case_prod_unfold)
qed

theorem cfb1_decrypts:
  assumes "bits \<le> 8 * length inp" "bits \<le> 8 * length out" "bits \<le> 8 * length res" "length ivec = 16"
    and enc: "CRYPTO_cfb128_1_encrypt block True inp out bits ivec = (c, iv)"
    and dec: "CRYPTO_cfb128_1_encrypt block False c res bits ivec = (p, jv)"
  shows "jv = iv" "length p = length res" "\<forall>n. bit_at p n = (if n < bits then bit_at inp n else bit_at res n)"
proof -
  obtain cs where cs: "run_machine (cfb1_step block True) (map (bit_at inp) [0..<bits]) ivec = (cs, iv)"
    "length c = length out" "\<forall>j. bit_at c j = (if j < bits then cs ! j else bit_at out j)"
    using cfb_bits_run [OF assms(1) _ assms(2,4) enc [unfolded CRYPTO_cfb128_1_encrypt_def]] by auto
  have len: "length cs = bits" using length_run_machine [of "cfb1_step block True" "map (bit_at inp) [0..<bits]" ivec] cs(1) by simp
  have "map (bit_at c) [0..<bits] = cs" using cs(3) len by (auto intro: nth_equalityI)
  then obtain ps where ps: "run_machine (cfb1_step block False) cs ivec = (ps, jv)" "length p = length res"
    "\<forall>j. bit_at p j = (if j < bits then ps ! j else bit_at res j)"
    using cfb_bits_run [OF _ _ assms(3,4) dec [unfolded CRYPTO_cfb128_1_encrypt_def]] cs(2) assms(2) by auto
  have "ps = map (bit_at inp) [0..<bits]" "jv = iv"
    using cfb1_pair.decrypts [of block "map (bit_at inp) [0..<bits]" ivec] cs(1) ps(1) by auto
  then show "jv = iv" "length p = length res" "\<forall>n. bit_at p n = (if n < bits then bit_at inp n else bit_at res n)"
    using ps by auto
qed

end
