(* ===== verification/CtrSpec.thy ===== *)
theory CtrSpec
  imports StreamModesSpec
begin

text \<open>
  The counter of counter mode is a number of 128 bits, and the variant for functions that only count in the lowest 32 bits
  does the same as the one that counts for itself.
\<close>

section \<open>Counters are numbers\<close>

lemma counter_loop_nat:
  "n \<le> length counter \<Longrightarrow> unat c < 2 ^ 24 \<Longrightarrow>
   counter_loop n c counter = nat_be n (be_nat (take n counter) + unat c) @ drop n counter"
proof (induction n arbitrary: c counter)
  case (Suc n)
  define d where "d = c + ucast (counter ! n)"
  have small: "unat c + unat (counter ! n) < 2 ^ 24 + 256"
    by (rule add_strict_mono [OF Suc.prems(2) unat_byte_less])
  have d: "unat d = unat c + unat (counter ! n)"
  proof -
    have "unat c + unat (counter ! n) < 2 ^ 32" using small by simp
    then show ?thesis by (simp add: d_def unat_word_ariths)
  qed
  have "unat (drop_bit 8 d) < 2 ^ 24"
    using d small by (simp add: unat_drop_bit_div)
  then have "counter_loop (Suc n) c counter =
      nat_be n (be_nat (take n counter) + unat d div 256) @ drop n (counter[n := ucast d])"
    using Suc by (simp add: d_def [symmetric] Let_def unat_drop_bit_div)
  moreover have "be_nat (take (Suc n) counter) + unat c = be_nat (take n counter) * 256 + unat d"
    using Suc.prems(1) d by (simp add: take_Suc_conv_app_nth be_nat_append)
  moreover have "(be_nat (take n counter) * 256 + unat d) div 256 = be_nat (take n counter) + unat d div 256"
    by simp
  moreover have "(ucast d :: u8) = word_of_nat (be_nat (take n counter) * 256 + unat d)"
    by (simp add: word_eq_iff_unsigned unat_ucast_mod)
  moreover have "drop n (counter[n := ucast d]) = ucast d # drop (Suc n) counter"
    using Suc.prems(1) by (simp add: upd_conv_take_nth_drop)
  ultimately show ?case
    by (simp only: nat_be.simps append_assoc append_Cons append_Nil)
qed simp

lemma ctr128_inc_nat: "length iv = 16 \<Longrightarrow> ctr128_inc iv = nat_be 16 (be_nat iv + 1)"
  by (simp add: ctr128_inc_def counter_loop_nat)

lemma ctr96_inc_nat: "length iv = 16 \<Longrightarrow> ctr96_inc iv = nat_be 12 (be_nat (take 12 iv) + 1) @ drop 12 iv"
  by (simp add: ctr96_inc_def counter_loop_nat)

lemma nat_be_split: "nat_be (m + n) v = nat_be m (v div 256 ^ n) @ nat_be n v"
  by (induction n arbitrary: v) (simp_all add: div_mult2_eq [symmetric] mult.commute)

lemma nat_be_16: "nat_be 16 v = nat_be 12 (v div 2 ^ 32) @ nat_be 4 v"
  using nat_be_split [of 12 4 v] by simp

lemma be_nat_16: "length iv = 16 \<Longrightarrow> be_nat iv = be_nat (take 12 iv) * 2 ^ 32 + be_nat (drop 12 iv)"
  using be_nat_append [of "take 12 iv" "drop 12 iv"] by simp

lemma nat_be_id: "length iv = n \<Longrightarrow> nat_be n (be_nat iv) = iv"
  using nat_be_be_nat [of iv] by simp

lemma be_nat_drop_12: "length iv = 16 \<Longrightarrow> be_nat (drop 12 iv) < 2 ^ 32"
  using be_nat_less [of "drop 12 iv"] by simp

text \<open>A counter of which only the lowest 32 bits change, and the carry.\<close>

lemma nat_be_no_carry:
  assumes "length iv = 16" "be_nat (drop 12 iv) + k < 2 ^ 32"
  shows "nat_be 16 (be_nat iv + k) = take 12 iv @ nat_be 4 (be_nat (drop 12 iv) + k)"
proof -
  have "(be_nat iv + k) div 2 ^ 32 = be_nat (take 12 iv)"
    using assms by (simp add: be_nat_16)
  moreover have "nat_be 4 (be_nat iv + k) = nat_be 4 (be_nat (drop 12 iv) + k)"
    using nat_be_mod [of 4 "be_nat iv + k"] nat_be_mod [of 4 "be_nat (drop 12 iv) + k"] assms(1)
    by (simp add: be_nat_16 add.assoc)
  ultimately show ?thesis using assms(1) by (simp add: nat_be_16 nat_be_id)
qed

lemma nat_be_carry:
  assumes "length iv = 16" "be_nat (drop 12 iv) + k = 2 ^ 32"
  shows "nat_be 16 (be_nat iv + k) = nat_be 12 (be_nat (take 12 iv) + 1) @ nat_be 4 0"
proof -
  have s: "be_nat iv + k = (be_nat (take 12 iv) + 1) * 2 ^ 32" using assms by (simp add: be_nat_16)
  have "nat_be 4 (be_nat iv + k) = nat_be 4 0"
    using nat_be_mod [of 4 "be_nat iv + k"] by (simp add: s)
  then show ?thesis unfolding nat_be_16 by (simp add: s)
qed

lemma store_counter_nat:
  assumes "length iv = 16" "be_nat (drop 12 iv) + k \<le> 2 ^ 32" "0 < k"
  shows "store_counter (word_of_nat (be_nat (drop 12 iv) + k)) iv = nat_be 16 (be_nat iv + k)"
proof (cases "be_nat (drop 12 iv) + k = 2 ^ 32")
  case True
  then have "word_of_nat (be_nat (drop 12 iv) + k) = (0 :: u32)" by simp
  then show ?thesis
    using assms True by (simp add: store_counter_def Let_def ctr96_inc_nat nat_be_carry)
next
  case False
  then have "be_nat (drop 12 iv) + k < 2 ^ 32" using assms(2) by simp
  moreover from this have "unat (word_of_nat (be_nat (drop 12 iv) + k) :: u32) = be_nat (drop 12 iv) + k"
    by (simp only: unat_of_nat) simp
  moreover from this have "word_of_nat (be_nat (drop 12 iv) + k) \<noteq> (0 :: u32)"
    using assms(3) by (metis add_is_0 gr_implies_not0 unat_0)
  ultimately show ?thesis
    using assms(1) by (simp add: store_counter_def Let_def nat_be_no_carry)
qed

lemma ctr32_limit_nat:
  assumes "ctr32_limit (word_of_nat c) len = (blocks, d)" "c < 2 ^ 32" "16 \<le> len"
  shows "0 < blocks" "blocks \<le> len div 16" "c + blocks \<le> 2 ^ 32" "d = word_of_nat (c + blocks)"
proof -
  define b where "b = min (len div 16) (2 ^ 28)"
  have b: "0 < b" "b \<le> 2 ^ 28" "b \<le> len div 16" using assms(3) by (auto simp: b_def)
  have u: "unat (word_of_nat c + word_of_nat b :: u32) = (c + b) mod 2 ^ 32"
    by (simp add: unat_word_ariths unat_of_nat mod_add_eq)
  have l: "ctr32_limit (word_of_nat c) len =
      (if (c + b) mod 2 ^ 32 < b then (b - (c + b) mod 2 ^ 32, 0) else (b, word_of_nat (c + b)))"
  proof -
    have "(if len div 16 > 2 ^ 28 then 2 ^ 28 else len div 16) = b" by (simp add: b_def)
    then show ?thesis unfolding ctr32_limit_def Let_def by (simp only: u) simp
  qed
  have "0 < blocks \<and> blocks \<le> len div 16 \<and> c + blocks \<le> 2 ^ 32 \<and> d = word_of_nat (c + blocks)"
  proof (cases "c + b < 2 ^ 32")
    case True
    then show ?thesis using assms(1) b l by auto
  next
    case False
    then have "(c + b) mod 2 ^ 32 = c + b - 2 ^ 32"
      using assms(2) b(2) mod_if [of "c + b" "2 ^ 32"] by simp
    then have "(blocks, d) = (2 ^ 32 - c, 0)"
      using assms(1,2) b(2) l False by (simp split: if_splits)
    then have "blocks = 2 ^ 32 - c" "d = 0" by simp_all
    moreover from this have "word_of_nat (c + blocks) = (0 :: u32)" using assms(2) by (simp del: of_nat_add)
    ultimately show ?thesis using b False assms(2) by auto
  qed
  then show "0 < blocks" "blocks \<le> len div 16" "c + blocks \<le> 2 ^ 32" "d = word_of_nat (c + blocks)" by auto
qed

section \<open>Functions that count in 32 bits\<close>

text \<open>
  The contract of a \<open>ctr128_f\<close>: it encrypts whole blocks in counter mode, as long as the counter fits in 32 bits. Nothing
  is said of what it does with a carry.
\<close>

definition keystream_blocks :: "block128 \<Rightarrow> (nat \<Rightarrow> bytes) \<Rightarrow> nat \<Rightarrow> bytes" where
  "keystream_blocks block counter k = concat (map (\<lambda>i. block (counter i)) [0..<k])"

definition counts_32 :: "block128 \<Rightarrow> ctr128 \<Rightarrow> bool" where
  "counts_32 block func \<longleftrightarrow>
     (\<forall>inp ivec k. length inp = 16 * k \<and> length ivec = 16 \<and> be_nat (drop 12 ivec) + k \<le> 2 ^ 32 \<longrightarrow>
        func inp ivec =
          map2 (XOR) inp (keystream_blocks block (\<lambda>i. take 12 ivec @ nat_be 4 (be_nat (drop 12 ivec) + i)) k))"

lemma length_keystream_blocks [simp]:
  "block_sized block \<Longrightarrow> length (keystream_blocks block counter k) = 16 * k"
  by (induction k) (simp_all add: keystream_blocks_def block_sized_def)

lemma keystream_blocks_cong:
  "(\<And>i. i < k \<Longrightarrow> f i = g i) \<Longrightarrow> keystream_blocks block f k = keystream_blocks block g k"
  unfolding keystream_blocks_def by (intro arg_cong [where f = concat] map_cong) auto

lemma keystream_blocks_Suc: "keystream_blocks block f (Suc k) = keystream_blocks block f k @ block (f k)"
  by (simp add: keystream_blocks_def)

lemma counts_32D:
  assumes "counts_32 block func" "length inp = 16 * k" "length ivec = 16" "be_nat (drop 12 ivec) + k \<le> 2 ^ 32"
  shows "func inp ivec = map2 (XOR) inp (keystream_blocks block (\<lambda>i. nat_be 16 (be_nat ivec + i)) k)"
proof -
  have "keystream_blocks block (\<lambda>i. nat_be 16 (be_nat ivec + i)) k =
      keystream_blocks block (\<lambda>i. take 12 ivec @ nat_be 4 (be_nat (drop 12 ivec) + i)) k"
    using assms by (intro keystream_blocks_cong nat_be_no_carry) auto
  then show ?thesis using assms by (simp add: counts_32_def)
qed

lemma ctr128_inc_nat_be: "ctr128_inc (nat_be 16 v) = nat_be 16 (v + 1)"
proof -
  have "nat_be 16 (v mod 256 ^ 16 + 1) = nat_be 16 (v + 1)"
    using nat_be_mod [of 16 "v mod 256 ^ 16 + 1"] nat_be_mod [of 16 "v + 1"] by (simp only: mod_add_left_eq)
  then show ?thesis by (simp add: ctr128_inc_nat be_nat_nat_be)
qed

text \<open>What the machine of counter mode does with \<open>k\<close> blocks.\<close>

lemma ctr_run_blocks:
  assumes "block_sized block" "ctr_num s = 0" "ctr_ivec s = nat_be 16 v"
  shows "length xs = 16 * k \<Longrightarrow> \<exists>t. run_machine (ctr_step block) xs s =
      (map2 (XOR) xs (keystream_blocks block (\<lambda>i. nat_be 16 (v + i)) k), t) \<and>
      ctr_num t = 0 \<and> ctr_ivec t = nat_be 16 (v + k)"
proof (induction k arbitrary: xs)
  case 0
  then show ?case using assms by (simp add: keystream_blocks_def)
next
  case (Suc k)
  define ys zs where "ys = take (16 * k) xs" and "zs = drop (16 * k) xs"
  have xs: "xs = ys @ zs" "length ys = 16 * k" "length zs = 16" using Suc.prems by (simp_all add: ys_def zs_def)
  obtain t where t: "run_machine (ctr_step block) ys s =
      (map2 (XOR) ys (keystream_blocks block (\<lambda>i. nat_be 16 (v + i)) k), t)"
    "ctr_num t = 0" "ctr_ivec t = nat_be 16 (v + k)"
    using Suc.IH [OF xs(2)] by blast
  have "run_machine (ctr_step block) zs t = (map2 (XOR) zs (block (nat_be 16 (v + k))), ctr_fresh block t\<lparr>ctr_num := 0\<rparr>)"
    using ctr.run_block [OF assms(1) t(2) xs(3)] assms(1) xs(3) t(3)
    by (simp add: ctr_fresh_def CRYPTO_xor16_map2 block_sized_def)
  then show ?case
    using t xs assms(1)
    by (simp add: run_machine_append keystream_blocks_Suc zip_append block_sized_def ctr_fresh_def ctr128_inc_nat_be)
qed

lemma low_counter: "be_nat (drop 12 (nat_be 16 v)) = v mod 2 ^ 32"
  by (simp add: nat_be_16 be_nat_nat_be)

lemma word_32_mod: "word_of_nat (n mod 2 ^ 32) = (word_of_nat n :: u32)"
  by (simp add: word_of_nat_eq_iff take_bit_eq_mod)

lemma ctr32_blocks_run:
  assumes "block_sized block" "counts_32 block func"
  shows "length ivec = 16 \<Longrightarrow> ctr_ivec s = ivec \<Longrightarrow> ctr_num s = 0 \<Longrightarrow>
    ctr32_blocks func inp (word_of_nat (be_nat (drop 12 ivec))) ivec = (out, rest, c, iv) \<Longrightarrow>
    length iv = 16 \<and> length rest < 16 \<and> c = word_of_nat (be_nat (drop 12 iv)) \<and>
    (\<exists>t. ctr_ivec t = iv \<and> ctr_num t = 0 \<and> (inp = rest \<longrightarrow> t = s) \<and>
       run_machine (ctr_step block) inp s = (case run_machine (ctr_step block) rest t of (out2, t) \<Rightarrow> (out @ out2, t)))"
proof (induction "length inp" arbitrary: inp ivec s out rest c iv rule: less_induct)
  case less
  show ?case
  proof (cases "16 \<le> length inp")
    case True
    define p where "p = be_nat (drop 12 ivec)"
    obtain k d where l: "ctr32_limit (word_of_nat p) (length inp) = (k, d)" by fastforce
    have p: "p < 2 ^ 32" using be_nat_drop_12 [OF less.prems(1)] by (simp add: p_def)
    note k = ctr32_limit_nat [OF l p True]
    define ivec' where "ivec' = nat_be 16 (be_nat ivec + k)"
    have st: "store_counter d ivec = ivec'"
      using store_counter_nat [OF less.prems(1), of k] k by (simp only: p_def ivec'_def)
    have d: "d = word_of_nat (be_nat (drop 12 ivec'))"
  proof -
    have "be_nat (drop 12 ivec') = (p + k) mod 2 ^ 32"
      using be_nat_16 [OF less.prems(1)] by (simp add: low_counter ivec'_def p_def add.assoc)
    then show ?thesis using k(4) by (simp only: word_32_mod)
  qed
    define ys zs where "ys = take (16 * k) inp" and "zs = drop (16 * k) inp"
    have len: "length ys = 16 * k" "length zs < length inp" "inp = ys @ zs"
      using k True by (auto simp: ys_def zs_def)
    obtain out' where o: "ctr32_blocks func zs (word_of_nat (be_nat (drop 12 ivec'))) ivec' = (out', rest, c, iv)"
      "out = func ys ivec @ out'"
      using less.prems(4) True
      by (subst (asm) ctr32_blocks.simps)
        (auto simp: l [unfolded p_def] Let_def st d [symmetric] ys_def zs_def split: prod.splits)
    obtain t where t: "run_machine (ctr_step block) ys s = (func ys ivec, t)" "ctr_num t = 0" "ctr_ivec t = ivec'"
      using ctr_run_blocks [OF assms(1) less.prems(3), of "be_nat ivec" ys k] counts_32D [OF assms(2) len(1) less.prems(1)]
        less.prems(1,2) k(3) len(1) by (auto simp: nat_be_id ivec'_def p_def)
    obtain u where u: "length iv = 16" "length rest < 16" "c = word_of_nat (be_nat (drop 12 iv))"
      "ctr_ivec u = iv" "ctr_num u = 0"
      "run_machine (ctr_step block) zs t = (case run_machine (ctr_step block) rest u of (out2, t) \<Rightarrow> (out' @ out2, t))"
      using less.hyps [OF len(2) _ t(3,2) o(1)] by (auto simp: ivec'_def)
    then show ?thesis
      using True o(2) t(1) by (intro conjI exI [of _ u]) (auto simp: len(3) run_machine_append split: prod.splits)
  next
    case False
    then have "ctr32_blocks func inp (word_of_nat (be_nat (drop 12 ivec))) ivec =
        ([], inp, word_of_nat (be_nat (drop 12 ivec)), ivec)"
      by (subst ctr32_blocks.simps) simp
    then show ?thesis using less.prems False by (auto split: prod.splits)
  qed
qed

lemma word_of_nat_take_12: "length iv = 16 \<Longrightarrow> take 4 (drop 12 iv) = drop 12 iv"
  by simp

lemma ctr32_last_block:
  assumes "block_sized block" "counts_32 block func" "length iv = 16"
  shows "func (replicate 16 0) iv = block iv"
    and "store_counter (word_of_nat (be_nat (drop 12 iv)) + 1) iv = ctr128_inc iv"
proof -
  have c: "be_nat (drop 12 iv) + 1 \<le> 2 ^ 32" using be_nat_drop_12 [OF assms(3)] by simp
  have "func (replicate 16 0) iv = map2 (XOR) (replicate 16 0) (block iv)"
    using counts_32D [OF assms(2) _ assms(3) c, of "replicate 16 0"] assms(3)
    by (simp add: keystream_blocks_def nat_be_id)
  also have "\<dots> = block iv"
    using assms(1) by (simp add: zip_replicate1 block_sized_def comp_def)
  finally show "func (replicate 16 0) iv = block iv" .
  show "store_counter (word_of_nat (be_nat (drop 12 iv)) + 1) iv = ctr128_inc iv"
    using store_counter_nat [OF assms(3) c] assms(3) by (simp add: ctr128_inc_nat add.commute)
qed

definition same_position :: "ctr_state \<Rightarrow> ctr_state \<Rightarrow> bool" where
  "same_position s t \<longleftrightarrow>
     ctr_ivec s = ctr_ivec t \<and> ctr_num s = ctr_num t \<and> (ctr_num s \<noteq> 0 \<longrightarrow> ecount_buf s = ecount_buf t)"

lemma ctr32_run:
  assumes "block_sized block" "counts_32 block func" "length (ctr_ivec s) = 16" "ctr_num s < 16"
    and run: "run_machine (ctr_step block) inp s = (out, t)"
  shows "\<exists>u. CRYPTO_ctr128_encrypt_ctr32 func inp s = (out, u) \<and> same_position u t"
proof -
  obtain out1 n xs1 where 1: "use_buffer (ecount_buf s) (ctr_num s) inp = (out1, n, xs1)"
    by (cases "use_buffer (ecount_buf s) (ctr_num s) inp")
  obtain out2 xs2 c iv where 2:
    "ctr32_blocks func xs1 (word_of_nat (be_nat (drop 12 (ctr_ivec s)))) (ctr_ivec s) = (out2, xs2, c, iv)"
    by (cases "ctr32_blocks func xs1 (word_of_nat (be_nat (drop 12 (ctr_ivec s)))) (ctr_ivec s)")
  let ?s = "s\<lparr>ctr_num := n\<rparr>"
  have r1: "run_machine (ctr_step block) inp s =
      (case run_machine (ctr_step block) xs1 ?s of (out2, s) \<Rightarrow> (out1 @ out2, s))"
    by (rule ctr.run_use_buffer [OF 1])
  show ?thesis
  proof (cases "xs1 = []")
    case True
    then have "xs2 = []" "out2 = []" "iv = ctr_ivec s" using 2 by (simp_all add: ctr32_blocks.simps)
    then show ?thesis
      using run r1 1 2 assms(3) True by (simp add: CRYPTO_ctr128_encrypt_ctr32_def same_position_def word_of_nat_take_12)
  next
    case False
    then have n: "n = 0" using ctr.use_buffer_end [OF 1 assms(4)] by simp
    obtain u where u: "length iv = 16" "length xs2 < 16" "c = word_of_nat (be_nat (drop 12 iv))"
      "ctr_ivec u = iv" "ctr_num u = 0"
      "run_machine (ctr_step block) xs1 ?s = (case run_machine (ctr_step block) xs2 u of (out3, t) \<Rightarrow> (out2 @ out3, t))"
      using ctr32_blocks_run [OF assms(1,2,3) _ _ 2, of ?s] n by auto
    show ?thesis
    proof (cases "xs2 = []")
      case True
      then show ?thesis
        using run r1 u 1 2 n assms(3)
        by (auto simp: CRYPTO_ctr128_encrypt_ctr32_def same_position_def word_of_nat_take_12)
    next
      case False
      obtain out3 m where 3: "use_rest (block iv) 0 xs2 = (out3, m)" by fastforce
      have "run_machine (ctr_step block) xs2 u = (out3, ctr_fresh block u\<lparr>ctr_num := m\<rparr>)"
        using ctr.run_rest [of u xs2 block] u False 3 by (simp add: ctr_fresh_def)
      then show ?thesis
        using run r1 u 1 2 3 n False assms(3) ctr32_last_block [OF assms(1,2) u(1)]
        by (auto simp: CRYPTO_ctr128_encrypt_ctr32_def same_position_def word_of_nat_take_12 ctr_fresh_def Let_def)
    qed
  qed
qed

end
