(* ===== verification/Lhash.thy ===== *)
theory Lhash
  imports Mem
begin

text \<open>
  \<open>crypto/lhash/lhash.c\<close>: the chaining hash table behind every \<open>LHASH_OF(type)\<close>. The table holds
  pointers to the caller's objects; it calls the caller's hash and comparison functions (\<open>lh_hash\<close>,
  \<open>lh_comp\<close>) through wrappers that are arguments of the operations, as in \<open>Stack\<close>.

  A chain is the list of its items. Iteration holds on to the address of an item while a callback may
  free it, so an item has an address; the result of \<open>OPENSSL_malloc(sizeof(LHASH_ITEM))\<close>, an address
  or \<open>NULL\<close> (0), is an argument of the insertion. The bucket array comes from the heap \<open>h\<close>.
\<close>

section \<open>The structure\<close>

record lhash_item =
  iaddr :: ptr
  idata :: ptr
  ihash :: u32

record lhash =
  num_items :: nat
  buckets :: "lhash_item list list"
  num_buckets :: nat
  callback_depth :: u32
  lh_comp :: ptr
  lh_hash :: ptr

type_synonym hash_helper = "ptr \<Rightarrow> ptr \<Rightarrow> u32"
type_synonym cmp_helper = "ptr \<Rightarrow> ptr \<Rightarrow> ptr \<Rightarrow> int"

definition kMinNumBuckets :: nat where "kMinNumBuckets = 16"

definition kMaxAverageChainLength :: nat where "kMaxAverageChainLength = 2"

definition kMinAverageChainLength :: nat where "kMinAverageChainLength = 1"

definition sizeof_lhash :: nat where "sizeof_lhash = 48"

definition UINT_MAX :: u32 where "UINT_MAX = 0xFFFFFFFF"

definition OPENSSL_lh_new :: "heap \<Rightarrow> ptr \<Rightarrow> ptr \<Rightarrow> lhash option" where
  "OPENSSL_lh_new h hash cmp =
     (case OPENSSL_zalloc h sizeof_lhash of
        None \<Rightarrow> None
      | Some _ \<Rightarrow>
          (case OPENSSL_calloc h kMinNumBuckets sizeof_ptr of
             None \<Rightarrow> None
           | Some _ \<Rightarrow>
               Some \<lparr>num_items = 0, buckets = replicate kMinNumBuckets [], num_buckets = kMinNumBuckets,
                     callback_depth = 0, lh_comp = cmp, lh_hash = hash\<rparr>))"

text \<open>The addresses of the items that are freed, in order.\<close>

definition OPENSSL_lh_free :: "lhash option \<Rightarrow> ptr list" where
  "OPENSSL_lh_free lh =
     (case lh of None \<Rightarrow> [] | Some lh \<Rightarrow> concat (map (\<lambda>i. map iaddr (buckets lh ! i)) [0..<num_buckets lh]))"

definition OPENSSL_lh_num_items :: "lhash \<Rightarrow> nat" where
  "OPENSSL_lh_num_items lh = num_items lh"

section \<open>Searching\<close>

text \<open>
  The pointer to the pointer to an item is the number of the bucket and the position in its chain. At the
  end of the chain it points to a pointer that is \<open>NULL\<close>.
\<close>

type_synonym next_ptr = "nat \<times> nat"

fun find_in_chain :: "(lhash_item \<Rightarrow> bool) \<Rightarrow> lhash_item list \<Rightarrow> nat" where
  "find_in_chain found [] = 0"
| "find_in_chain found (cur # rest) = (if found cur then 0 else Suc (find_in_chain found rest))"

definition deref_next :: "lhash \<Rightarrow> next_ptr \<Rightarrow> lhash_item option" where
  "deref_next lh p =
     (if snd p < length (buckets lh ! fst p) then Some (buckets lh ! fst p ! snd p) else None)"

definition get_next_ptr_and_hash :: "hash_helper \<Rightarrow> cmp_helper \<Rightarrow> lhash \<Rightarrow> ptr \<Rightarrow> next_ptr \<times> u32" where
  "get_next_ptr_and_hash call_hash_func call_cmp_func lh d =
     (let hash = call_hash_func (lh_hash lh) d;
          b = unat hash mod num_buckets lh
      in ((b, find_in_chain (\<lambda>cur. call_cmp_func (lh_comp lh) (idata cur) d = 0) (buckets lh ! b)), hash))"

text \<open>The key of a search by key may be of another type; \<open>cmp_key\<close> is the comparison with the key.\<close>

definition get_next_ptr_by_key :: "lhash \<Rightarrow> u32 \<Rightarrow> (ptr \<Rightarrow> int) \<Rightarrow> next_ptr" where
  "get_next_ptr_by_key lh key_hash cmp_key =
     (let b = unat key_hash mod num_buckets lh
      in (b, find_in_chain (\<lambda>cur. cmp_key (idata cur) = 0) (buckets lh ! b)))"

definition OPENSSL_lh_retrieve :: "hash_helper \<Rightarrow> cmp_helper \<Rightarrow> lhash \<Rightarrow> ptr \<Rightarrow> ptr" where
  "OPENSSL_lh_retrieve call_hash_func call_cmp_func lh d =
     (case deref_next lh (fst (get_next_ptr_and_hash call_hash_func call_cmp_func lh d)) of
        None \<Rightarrow> 0
      | Some item \<Rightarrow> idata item)"

definition OPENSSL_lh_retrieve_key :: "lhash \<Rightarrow> u32 \<Rightarrow> (ptr \<Rightarrow> int) \<Rightarrow> ptr" where
  "OPENSSL_lh_retrieve_key lh key_hash cmp_key =
     (case deref_next lh (get_next_ptr_by_key lh key_hash cmp_key) of
        None \<Rightarrow> 0
      | Some item \<Rightarrow> idata item)"

section \<open>Resizing\<close>

text \<open>Moving the items of a chain to the front of the chains of a new array.\<close>

fun move_chain :: "nat \<Rightarrow> lhash_item list \<Rightarrow> lhash_item list list \<Rightarrow> lhash_item list list" where
  "move_chain n [] new_buckets = new_buckets"
| "move_chain n (cur # rest) new_buckets =
     (let new_bucket = unat (ihash cur) mod n
      in move_chain n rest (new_buckets[new_bucket := cur # new_buckets ! new_bucket]))"

definition lh_rebucket :: "heap \<Rightarrow> nat \<Rightarrow> lhash \<Rightarrow> lhash" where
  "lh_rebucket h new_num_buckets lh =
     (let alloc_size = size_mul sizeof_ptr new_num_buckets
      in if alloc_size div sizeof_ptr \<noteq> new_num_buckets then lh
         else case OPENSSL_zalloc h alloc_size of
                None \<Rightarrow> lh
              | Some _ \<Rightarrow>
                  lh\<lparr>buckets := fold (\<lambda>i. move_chain new_num_buckets (buckets lh ! i)) [0..<num_buckets lh]
                                  (replicate new_num_buckets []),
                     num_buckets := new_num_buckets\<rparr>)"

definition lh_maybe_resize :: "heap \<Rightarrow> lhash \<Rightarrow> lhash" where
  "lh_maybe_resize h lh =
     (if callback_depth lh > 0 then lh
      else
        let avg_chain_length = num_items lh div num_buckets lh
        in if avg_chain_length > kMaxAverageChainLength then
             let new_num_buckets = size_mul (num_buckets lh) 2
             in if new_num_buckets > num_buckets lh then lh_rebucket h new_num_buckets lh else lh
           else if avg_chain_length < kMinAverageChainLength \<and> num_buckets lh > kMinNumBuckets then
             let new_num_buckets = num_buckets lh div 2;
                 new_num_buckets = (if new_num_buckets < kMinNumBuckets then kMinNumBuckets else new_num_buckets)
             in lh_rebucket h new_num_buckets lh
           else lh)"

section \<open>Changing the table\<close>

text \<open>The status, the data that was replaced and the new table.\<close>

definition OPENSSL_lh_insert :: "heap \<Rightarrow> ptr \<Rightarrow> hash_helper \<Rightarrow> cmp_helper \<Rightarrow> lhash \<Rightarrow> ptr \<Rightarrow> nat \<times> ptr \<times> lhash" where
  "OPENSSL_lh_insert h item call_hash_func call_cmp_func lh d =
     (case get_next_ptr_and_hash call_hash_func call_cmp_func lh d of
        ((b, i), hash) \<Rightarrow>
          (case deref_next lh (b, i) of
             Some cur \<Rightarrow>
               (1, idata cur, lh\<lparr>buckets := (buckets lh)[b := (buckets lh ! b)[i := cur\<lparr>idata := d\<rparr>]]\<rparr>)
           | None \<Rightarrow>
               if item = 0 then (0, 0, lh)
               else (1, 0,
                 lh_maybe_resize h
                   (lh\<lparr>buckets := (buckets lh)[b := buckets lh ! b @ [\<lparr>iaddr = item, idata = d, ihash = hash\<rparr>]],
                      num_items := size_add (num_items lh) 1\<rparr>))))"

definition OPENSSL_lh_delete :: "heap \<Rightarrow> hash_helper \<Rightarrow> cmp_helper \<Rightarrow> lhash \<Rightarrow> ptr \<Rightarrow> ptr \<times> lhash" where
  "OPENSSL_lh_delete h call_hash_func call_cmp_func lh d =
     (case fst (get_next_ptr_and_hash call_hash_func call_cmp_func lh d) of
        (b, i) \<Rightarrow>
          (case deref_next lh (b, i) of
             None \<Rightarrow> (0, lh)
           | Some item \<Rightarrow>
               (idata item,
                lh_maybe_resize h
                  (lh\<lparr>buckets := (buckets lh)[b := take i (buckets lh ! b) @ drop (Suc i) (buckets lh ! b)],
                     num_items := size_add (num_items lh) (size_mod - 1)\<rparr>))))"

section \<open>Iteration\<close>

text \<open>
  The callback gets the data of an item and may change the table and everything else (\<open>'s\<close>, \<open>arg\<close>
  included); its result is \<open>None\<close> when it does not return. The loop remembers the address of the
  next item, 0 at the end of the chain. Reading an item that is in no chain any more, because the callback
  freed it, has the result \<open>None\<close>, as has an iteration that does not end.
\<close>

type_synonym 's lh_callback = "ptr \<Rightarrow> lhash \<times> 's \<Rightarrow> (lhash \<times> 's) option"

definition head_addr :: "lhash_item list \<Rightarrow> ptr" where
  "head_addr c = (case c of [] \<Rightarrow> 0 | x # _ \<Rightarrow> iaddr x)"

fun item_in_chain :: "ptr \<Rightarrow> lhash_item list \<Rightarrow> (ptr \<times> ptr) option" where
  "item_in_chain a [] = None"
| "item_in_chain a (x # xs) = (if iaddr x = a then Some (idata x, head_addr xs) else item_in_chain a xs)"

text \<open>The data of the item at an address, and its \<open>next\<close>.\<close>

fun item_at :: "ptr \<Rightarrow> lhash_item list list \<Rightarrow> (ptr \<times> ptr) option" where
  "item_at a [] = None"
| "item_at a (c # cs) = (case item_in_chain a c of None \<Rightarrow> item_at a cs | Some r \<Rightarrow> Some r)"

partial_function (option) doall_chain :: "'s lh_callback \<Rightarrow> ptr \<Rightarrow> lhash \<times> 's \<Rightarrow> (lhash \<times> 's) option" where
  "doall_chain func cur st =
     (if cur = 0 then Some st
      else Option.bind (item_at cur (buckets (fst st))) (\<lambda>(d, next_addr).
             Option.bind (func d st) (doall_chain func next_addr)))"

partial_function (option) doall_buckets :: "'s lh_callback \<Rightarrow> nat \<Rightarrow> lhash \<times> 's \<Rightarrow> (lhash \<times> 's) option" where
  "doall_buckets func i st =
     (if i < num_buckets (fst st)
      then Option.bind (doall_chain func (head_addr (buckets (fst st) ! i)) st) (doall_buckets func (i + 1))
      else Some st)"

definition OPENSSL_lh_doall_arg :: "heap \<Rightarrow> 's lh_callback \<Rightarrow> lhash option \<times> 's \<Rightarrow> (lhash option \<times> 's) option" where
  "OPENSSL_lh_doall_arg h func st =
     (case st of
        (None, s) \<Rightarrow> Some (None, s)
      | (Some lh, s) \<Rightarrow>
          let lh = (if callback_depth lh < UINT_MAX then lh\<lparr>callback_depth := callback_depth lh + 1\<rparr> else lh)
          in map_option
               (\<lambda>(lh, s).
                  let lh = (if callback_depth lh < UINT_MAX then lh\<lparr>callback_depth := callback_depth lh - 1\<rparr> else lh)
                  in (Some (lh_maybe_resize h lh), s))
               (doall_buckets func 0 (lh, s)))"

end
