(* ===== verification/LhashSpec.thy ===== *)
theory LhashSpec
  imports Lhash "HOL-Library.Multiset"
begin

text \<open>
  The hash table as a map. \<open>lh_wf\<close> is the shape of a table (every item is in the chain of its cached
  hash, the counter counts the items, no two items share an address); \<open>lh_inv\<close> adds that the cached
  hashes are those of the data, that no two items have the same key, and that the table holds pointers of
  a set \<open>D\<close> only. The interface to the caller's functions is the locale \<open>lhash_functions\<close>: on the objects that
  \<open>D\<close> points to, equal objects are those with the same key, and the hash depends on the key only.
\<close>

definition lh_items :: "lhash \<Rightarrow> lhash_item list" where
  "lh_items lh = concat (buckets lh)"

definition lh_placed :: "nat \<Rightarrow> lhash_item list list \<Rightarrow> bool" where
  "lh_placed n bs \<longleftrightarrow> length bs = n \<and> (\<forall>b < n. \<forall>x \<in> set (bs ! b). unat (ihash x) mod n = b)"

definition lh_wf :: "lhash \<Rightarrow> bool" where
  "lh_wf lh \<longleftrightarrow> kMinNumBuckets \<le> num_buckets lh \<and> num_buckets lh < size_mod
    \<and> lh_placed (num_buckets lh) (buckets lh)
    \<and> num_items lh = length (lh_items lh) \<and> num_items lh < size_mod
    \<and> distinct (map iaddr (lh_items lh)) \<and> 0 \<notin> iaddr ` set (lh_items lh)"

definition lh_keyed :: "ptr set \<Rightarrow> (ptr \<Rightarrow> 'k) \<Rightarrow> ('k \<Rightarrow> u32) \<Rightarrow> lhash \<Rightarrow> bool" where
  "lh_keyed D key khash lh \<longleftrightarrow> idata ` set (lh_items lh) \<subseteq> D \<and> (\<forall>x \<in> set (lh_items lh). ihash x = khash (key (idata x)))
    \<and> distinct (map (key \<circ> idata) (lh_items lh))"

definition lh_inv :: "ptr \<Rightarrow> ptr \<Rightarrow> ptr set \<Rightarrow> (ptr \<Rightarrow> 'k) \<Rightarrow> ('k \<Rightarrow> u32) \<Rightarrow> lhash \<Rightarrow> bool" where
  "lh_inv hash_fn cmp_fn D key khash lh \<longleftrightarrow>
     lh_wf lh \<and> lh_keyed D key khash lh \<and> lh_hash lh = hash_fn \<and> lh_comp lh = cmp_fn"

text \<open>The map that a table stands for.\<close>

definition lh_map :: "(ptr \<Rightarrow> 'k) \<Rightarrow> lhash \<Rightarrow> 'k \<Rightarrow> ptr option" where
  "lh_map key lh k = map_option idata (find (\<lambda>x. key (idata x) = k) (lh_items lh))"

section \<open>Chains and buckets\<close>

lemma find_in_chain_le: "find_in_chain P c \<le> length c"
  by (induction c) auto

lemma find_in_chain_found: "find_in_chain P c < length c \<Longrightarrow> P (c ! find_in_chain P c)"
  by (induction c) auto

lemma find_in_chain_end: "find_in_chain P c = length c \<longleftrightarrow> (\<forall>x \<in> set c. \<not> P x)"
  by (induction c) auto

lemma in_bucket: "b < length bs \<Longrightarrow> x \<in> set (bs ! b) \<Longrightarrow> x \<in> set (concat bs)"
  using nth_mem [of b bs] by auto

lemma items_around:
  assumes "b < length bs"
  shows "concat bs = concat (take b bs) @ bs ! b @ concat (drop (Suc b) bs)"
    and "concat (bs[b := c]) = concat (take b bs) @ c @ concat (drop (Suc b) bs)"
proof -
  show "concat bs = concat (take b bs) @ bs ! b @ concat (drop (Suc b) bs)"
    using assms by (metis append_take_drop_id concat.simps(2) concat_append Cons_nth_drop_Suc)
  show "concat (bs[b := c]) = concat (take b bs) @ c @ concat (drop (Suc b) bs)"
    using assms by (simp add: upd_conv_take_nth_drop)
qed

lemma mset_concat_update:
  assumes "b < length bs"
  shows "mset (concat (bs[b := c])) + mset (bs ! b) = mset (concat bs) + mset c"
  by (simp add: items_around(2) [OF assms] items_around(1) [OF assms])

lemma lh_placed_update:
  assumes "lh_placed n bs" "\<And>x. x \<in> set c \<Longrightarrow> unat (ihash x) mod n = b"
  shows "lh_placed n (bs[b := c])"
proof (cases "b < n")
  case True
  then show ?thesis using assms by (auto simp: lh_placed_def nth_list_update split: if_splits)
next
  case False
  then show ?thesis using assms by (simp add: lh_placed_def)
qed

lemma lh_placed_member:
  assumes "lh_placed n bs" "0 < n"
  shows "x \<in> set (bs ! (unat (ihash x) mod n)) \<longleftrightarrow> x \<in> set (concat bs)"
proof
  show "x \<in> set (bs ! (unat (ihash x) mod n)) \<Longrightarrow> x \<in> set (concat bs)"
    using assms by (auto simp: lh_placed_def intro!: bexI [of _ "bs ! (unat (ihash x) mod n)"] nth_mem)
  show "x \<in> set (concat bs) \<Longrightarrow> x \<in> set (bs ! (unat (ihash x) mod n))"
    using assms by (auto simp: lh_placed_def in_set_conv_nth [of _ bs])
qed

section \<open>Resizing keeps the items\<close>

lemma move_chain_length [simp]: "length (move_chain n c bs) = length bs"
  by (induction n c bs rule: move_chain.induct) (simp_all add: Let_def)

lemma move_chain_items:
  assumes "0 < n" "length bs = n"
  shows "mset (concat (move_chain n c bs)) = mset c + mset (concat bs)"
  using assms(2)
proof (induction c arbitrary: bs)
  case (Cons cur rest)
  define k where "k = unat (ihash cur) mod n"
  have "k < length bs" using assms(1) Cons.prems by (simp add: k_def)
  from mset_concat_update [OF this, of "cur # bs ! k"]
  have "mset (concat (bs[k := cur # bs ! k])) = add_mset cur (mset (concat bs))" by simp
  then show ?case using Cons.IH [of "bs[k := cur # bs ! k]"] Cons.prems by (simp add: k_def Let_def)
qed simp

lemma move_chain_placed: "lh_placed n bs \<Longrightarrow> lh_placed n (move_chain n c bs)"
proof (induction c arbitrary: bs)
  case (Cons cur rest)
  define k where "k = unat (ihash cur) mod n"
  have "lh_placed n (bs[k := cur # bs ! k])"
  proof (cases "k < n")
    case True
    then show ?thesis using Cons.prems
      by (intro lh_placed_update) (auto simp: k_def lh_placed_def)
  next
    case False
    then show ?thesis using Cons.prems by (simp add: lh_placed_def list_update_beyond)
  qed
  from Cons.IH [OF this] show ?case by (simp add: Let_def k_def)
qed simp

lemma lh_placed_empty: "lh_placed n (replicate n [])"
  by (simp add: lh_placed_def)

lemma move_all:
  assumes "0 < n"
  shows "lh_placed n (fold (\<lambda>c. move_chain n c) cs (replicate n []))
    \<and> mset (concat (fold (\<lambda>c. move_chain n c) cs (replicate n []))) = mset (concat cs)"
proof (induction cs rule: rev_induct)
  case Nil
  show ?case by (simp add: lh_placed_empty)
next
  case (snoc c cs)
  let ?bs = "fold (\<lambda>c. move_chain n c) cs (replicate n [])"
  have "lh_placed n (move_chain n c ?bs)" using snoc by (intro move_chain_placed) simp
  moreover have "length ?bs = n" using snoc by (simp add: lh_placed_def)
  ultimately show ?case using snoc by (simp add: move_chain_items [OF assms])
qed

lemma fold_nth: "fold (\<lambda>i. f (xs ! i)) [0..<length xs] = fold f xs"
proof -
  have "fold f (map ((!) xs) [0..<length xs]) = fold (f \<circ> (!) xs) [0..<length xs]" by (simp add: fold_map)
  then show ?thesis by (simp add: map_nth comp_def)
qed

text \<open>Whatever the allocator does, the items stay the same up to their order, and the shape is kept.\<close>

lemma lh_rebucket_keeps:
  assumes "lh_wf lh" "kMinNumBuckets \<le> n" "n < size_mod"
  shows "lh_wf (lh_rebucket h n lh)" "mset (lh_items (lh_rebucket h n lh)) = mset (lh_items lh)"
    "lh_hash (lh_rebucket h n lh) = lh_hash lh" "lh_comp (lh_rebucket h n lh) = lh_comp lh"
    "num_items (lh_rebucket h n lh) = num_items lh"
proof -
  have n: "0 < n" using assms(2) by (simp add: kMinNumBuckets_def)
  let ?bs = "fold (\<lambda>i. move_chain n (buckets lh ! i)) [0..<num_buckets lh] (replicate n [])"
  have l: "length (buckets lh) = num_buckets lh" using assms(1) by (simp add: lh_wf_def lh_placed_def)
  have eq: "?bs = fold (\<lambda>c. move_chain n c) (buckets lh) (replicate n [])"
    using fold_nth [of "\<lambda>c. move_chain n c" "buckets lh"] by (simp add: l)
  have moved: "lh_placed n ?bs" "mset (concat ?bs) = mset (lh_items lh)"
    using move_all [OF n, of "buckets lh"] unfolding eq lh_items_def by auto
  have cases: "lh_rebucket h n lh = lh \<or> lh_rebucket h n lh = lh\<lparr>buckets := ?bs, num_buckets := n\<rparr>"
    by (simp add: lh_rebucket_def Let_def split: option.split)
  show items: "mset (lh_items (lh_rebucket h n lh)) = mset (lh_items lh)"
    using cases moved(2) by (auto simp: lh_items_def)
  have s: "set (concat ?bs) = set (lh_items lh)" "length (concat ?bs) = length (lh_items lh)"
    "distinct (map iaddr (concat ?bs)) = distinct (map iaddr (lh_items lh))"
    using moved(2) mset_eq_setD mset_eq_length by (blast, blast)
      (metis moved(2) mset_map mset_eq_imp_distinct_iff)
  have "lh_wf (lh\<lparr>buckets := ?bs, num_buckets := n\<rparr>)"
    using assms moved(1) s by (simp add: lh_wf_def lh_items_def)
  then show "lh_wf (lh_rebucket h n lh)" using cases assms(1) by auto
  show "lh_hash (lh_rebucket h n lh) = lh_hash lh" "lh_comp (lh_rebucket h n lh) = lh_comp lh"
    "num_items (lh_rebucket h n lh) = num_items lh"
    using cases by auto
qed

lemma lh_maybe_resize_keeps:
  assumes "lh_wf lh"
  shows "lh_wf (lh_maybe_resize h lh)" "mset (lh_items (lh_maybe_resize h lh)) = mset (lh_items lh)"
    "lh_hash (lh_maybe_resize h lh) = lh_hash lh" "lh_comp (lh_maybe_resize h lh) = lh_comp lh"
    "num_items (lh_maybe_resize h lh) = num_items lh"
proof -
  have wf: "kMinNumBuckets \<le> num_buckets lh" "num_buckets lh < size_mod"
    using assms by (auto simp: lh_wf_def)
  define halved where "halved = (if num_buckets lh div 2 < kMinNumBuckets then kMinNumBuckets else num_buckets lh div 2)"
  have "lh_maybe_resize h lh = lh
    \<or> (\<exists>n. kMinNumBuckets \<le> n \<and> n < size_mod \<and> lh_maybe_resize h lh = lh_rebucket h n lh)"
  proof -
    have up: "size_mul (num_buckets lh) 2 < size_mod" by (simp add: size_mul_def)
    have down: "kMinNumBuckets \<le> halved" "halved < size_mod"
      using wf by (auto simp: halved_def)
    show ?thesis
      using wf up down
      unfolding lh_maybe_resize_def Let_def halved_def [symmetric]
      by (auto intro: exI [of _ "size_mul (num_buckets lh) 2"] exI [of _ halved])
  qed
  then show "lh_wf (lh_maybe_resize h lh)" "mset (lh_items (lh_maybe_resize h lh)) = mset (lh_items lh)"
    "lh_hash (lh_maybe_resize h lh) = lh_hash lh" "lh_comp (lh_maybe_resize h lh) = lh_comp lh"
    "num_items (lh_maybe_resize h lh) = num_items lh"
    using assms lh_rebucket_keeps [OF assms] by auto
qed

section \<open>Invariant and items\<close>

text \<open>The invariant depends on the items of the table only up to their order.\<close>

lemma lh_inv_resize:
  assumes "lh_inv hf cf D key khash lh"
  shows "lh_inv hf cf D key khash (lh_maybe_resize h lh)"
proof -
  have wf: "lh_wf lh" using assms by (simp add: lh_inv_def)
  note kept = lh_maybe_resize_keeps [OF wf, of h]
  have "distinct (map (key \<circ> idata) (lh_items (lh_maybe_resize h lh))) = distinct (map (key \<circ> idata) (lh_items lh))"
    using kept(2) by (metis mset_map mset_eq_imp_distinct_iff)
  moreover have "set (lh_items (lh_maybe_resize h lh)) = set (lh_items lh)"
    using kept(2) by (rule mset_eq_setD)
  ultimately show ?thesis using assms kept by (simp add: lh_inv_def lh_keyed_def)
qed

lemma lh_map_eq:
  assumes "lh_keyed D key khash lh"
  shows "lh_map key lh k = Some p \<longleftrightarrow> (\<exists>x \<in> set (lh_items lh). key (idata x) = k \<and> idata x = p)"
proof
  show "lh_map key lh k = Some p \<Longrightarrow> \<exists>x \<in> set (lh_items lh). key (idata x) = k \<and> idata x = p"
    by (auto simp: lh_map_def find_Some_iff)
  assume "\<exists>x \<in> set (lh_items lh). key (idata x) = k \<and> idata x = p"
  then obtain x where x: "x \<in> set (lh_items lh)" "key (idata x) = k" "idata x = p" by blast
  then obtain y where y: "find (\<lambda>x. key (idata x) = k) (lh_items lh) = Some y"
    by (metis (mono_tags, lifting) find_None_iff option.exhaust)
  then have "y \<in> set (lh_items lh)" "key (idata y) = k" by (auto simp: find_Some_iff)
  moreover have "inj_on (key \<circ> idata) (set (lh_items lh))"
    using assms by (simp add: lh_keyed_def distinct_map)
  ultimately have "y = x" using x by (simp add: inj_on_def)
  then show "lh_map key lh k = Some p" using y x by (simp add: lh_map_def)
qed

lemma lh_map_None: "lh_map key lh k = None \<longleftrightarrow> (\<forall>x \<in> set (lh_items lh). key (idata x) \<noteq> k)"
  by (auto simp: lh_map_def find_None_iff)

lemma lh_map_of_items:
  assumes "lh_keyed D key khash lh" "lh_keyed D key khash lh'" "set (lh_items lh') = set (lh_items lh)"
  shows "lh_map key lh' = lh_map key lh"
  using lh_map_eq [OF assms(1)] lh_map_eq [OF assms(2)]
  by (intro ext option.expand) (metis assms(3) not_None_eq, metis assms(3) not_None_eq option.sel)

lemma lh_map_resize:
  assumes "lh_inv hf cf D key khash lh"
  shows "lh_map key (lh_maybe_resize h lh) = lh_map key lh"
proof (rule lh_map_of_items)
  show "lh_keyed D key khash lh" "lh_keyed D key khash (lh_maybe_resize h lh)"
    using assms lh_inv_resize [OF assms] by (simp_all add: lh_inv_def)
  show "set (lh_items (lh_maybe_resize h lh)) = set (lh_items lh)"
    using assms by (intro mset_eq_setD lh_maybe_resize_keeps) (simp add: lh_inv_def)
qed

lemma num_items_is_card:
  assumes "lh_inv hf cf D key khash lh"
  shows "num_items lh = card (dom (lh_map key lh))"
proof -
  have keyed: "lh_keyed D key khash lh" using assms by (simp add: lh_inv_def)
  have "dom (lh_map key lh) = set (map (key \<circ> idata) (lh_items lh))"
    unfolding dom_def using lh_map_eq [OF keyed] by auto
  then show ?thesis
    using assms keyed by (simp add: lh_inv_def lh_wf_def lh_keyed_def distinct_card del: set_map)
qed

lemma OPENSSL_lh_new_empty:
  assumes "OPENSSL_lh_new h hf cf = Some lh"
  shows "lh_inv hf cf D key khash lh" "lh_map key lh = Map.empty" "num_buckets lh = kMinNumBuckets"
    "callback_depth lh = 0"
proof -
  have lh: "lh = \<lparr>num_items = 0, buckets = replicate kMinNumBuckets [], num_buckets = kMinNumBuckets,
                     callback_depth = 0, lh_comp = cf, lh_hash = hf\<rparr>"
    using assms by (auto simp: OPENSSL_lh_new_def split: option.splits)
  have items: "lh_items lh = []" by (simp add: lh lh_items_def)
  show "lh_inv hf cf D key khash lh"
    by (simp add: lh_inv_def lh_wf_def lh_keyed_def items)
      (simp add: lh lh_placed_empty kMinNumBuckets_def size_mod_def)
  show "lh_map key lh = Map.empty" by (rule ext) (simp add: lh_map_None items)
  show "num_buckets lh = kMinNumBuckets" "callback_depth lh = 0" by (simp_all add: lh)
qed

text \<open>A change of one chain.\<close>

lemma lh_inv_change:
  assumes "lh_inv hf cf D key khash lh" "\<And>x. x \<in> set c \<Longrightarrow> unat (ihash x) mod num_buckets lh = b"
    and changed: "concat ((buckets lh)[b := c]) = ys"
    and "n = length ys" "n < size_mod" "distinct (map iaddr ys)" "0 \<notin> iaddr ` set ys"
    and "idata ` set ys \<subseteq> D" "\<And>x. x \<in> set ys \<Longrightarrow> ihash x = khash (key (idata x))" "distinct (map (key \<circ> idata) ys)"
  shows "lh_inv hf cf D key khash (lh\<lparr>buckets := (buckets lh)[b := c], num_items := n\<rparr>)"
  using assms lh_placed_update [of "num_buckets lh" "buckets lh" c b]
  by (simp add: lh_inv_def lh_wf_def lh_keyed_def lh_items_def)

lemma map_eqI:
  assumes "\<And>k p. f k = Some p \<longleftrightarrow> g k = Some p"
  shows "f = g"
  by (rule ext) (metis assms option.exhaust)

lemma lh_keyed_unique:
  assumes "lh_keyed D key khash lh" "lh_items lh = A @ y # B"
  shows "\<forall>x \<in> set (A @ B). key (idata x) \<noteq> key (idata y)"
  using assms by (auto simp: lh_keyed_def image_iff)

lemma lh_map_added:
  assumes "lh_keyed D key khash lh" "lh_keyed D key khash lh'" "lh_items lh = A @ B" "lh_items lh' = A @ y # B"
  shows "lh_map key lh' = (lh_map key lh)(key (idata y) \<mapsto> idata y)"
proof (rule map_eqI)
  fix k p
  note unique = lh_keyed_unique [OF assms(2,4)]
  from unique show "lh_map key lh' k = Some p \<longleftrightarrow> ((lh_map key lh)(key (idata y) \<mapsto> idata y)) k = Some p"
    unfolding lh_map_eq [OF assms(2)] using lh_map_eq [OF assms(1), of k p] by (auto simp: assms(3,4))
qed

lemma lh_map_replaced:
  assumes "lh_keyed D key khash lh" "lh_keyed D key khash lh'" "lh_items lh = A @ x # B" "lh_items lh' = A @ y # B"
    "key (idata x) = key (idata y)"
  shows "lh_map key lh' = (lh_map key lh)(key (idata y) \<mapsto> idata y)"
proof (rule map_eqI)
  fix k p
  note unique = lh_keyed_unique [OF assms(2,4)]
  from unique show "lh_map key lh' k = Some p \<longleftrightarrow> ((lh_map key lh)(key (idata y) \<mapsto> idata y)) k = Some p"
    unfolding lh_map_eq [OF assms(2)] using lh_map_eq [OF assms(1), of k p] by (auto simp: assms(3-5))
qed

lemma lh_map_removed:
  assumes "lh_keyed D key khash lh" "lh_keyed D key khash lh'" "lh_items lh = A @ x # B" "lh_items lh' = A @ B"
  shows "lh_map key lh' = (lh_map key lh)(key (idata x) := None)"
proof (rule map_eqI)
  fix k p
  note unique = lh_keyed_unique [OF assms(1,3)]
  from unique show "lh_map key lh' k = Some p \<longleftrightarrow> ((lh_map key lh)(key (idata x) := None)) k = Some p"
    unfolding lh_map_eq [OF assms(2)] using lh_map_eq [OF assms(1), of k p] by (auto simp: assms(3,4))
qed

text \<open>
  A search for the key \<open>k\<close> ends at the item with this key, which is the only one, or at the end of the chain to
  which such an item would belong.
\<close>

lemma search_key:
  assumes "lh_inv hf cf D key khash lh" "\<And>p. p \<in> D \<Longrightarrow> found p \<longleftrightarrow> key p = k"
  defines "b \<equiv> unat (khash k) mod num_buckets lh"
  defines "i \<equiv> find_in_chain (\<lambda>x. found (idata x)) (buckets lh ! b)"
  shows "b < length (buckets lh)" "i \<le> length (buckets lh ! b)"
    "i < length (buckets lh ! b) \<Longrightarrow> key (idata (buckets lh ! b ! i)) = k"
    "i = length (buckets lh ! b) \<Longrightarrow> \<forall>x \<in> set (lh_items lh). key (idata x) \<noteq> k"
proof -
  have shape: "lh_wf lh" "lh_keyed D key khash lh" using assms(1) by (auto simp: lh_inv_def)
  then have n: "0 < num_buckets lh" "length (buckets lh) = num_buckets lh"
    by (auto simp: lh_wf_def lh_placed_def kMinNumBuckets_def)
  then show b: "b < length (buckets lh)" by (simp add: b_def)
  show i: "i \<le> length (buckets lh ! b)" unfolding i_def by (rule find_in_chain_le)
  have found: "found (idata x) \<longleftrightarrow> key (idata x) = k" if "x \<in> set (lh_items lh)" for x
    using shape that by (intro assms(2)) (auto simp: lh_keyed_def)
  show "key (idata (buckets lh ! b ! i)) = k" if "i < length (buckets lh ! b)"
  proof -
    have "buckets lh ! b ! i \<in> set (lh_items lh)"
      unfolding lh_items_def by (rule in_bucket [OF b nth_mem [OF that]])
    then show ?thesis
      using found find_in_chain_found [of "\<lambda>x. found (idata x)" "buckets lh ! b"] that by (simp add: i_def)
  qed
  show "\<forall>x \<in> set (lh_items lh). key (idata x) \<noteq> k" if "i = length (buckets lh ! b)"
  proof (intro ballI notI)
    fix x assume x: "x \<in> set (lh_items lh)" and k: "key (idata x) = k"
    then have "ihash x = khash k" using shape by (auto simp: lh_keyed_def)
    moreover have "x \<in> set (buckets lh ! (unat (ihash x) mod num_buckets lh))"
      using lh_placed_member [of "num_buckets lh" "buckets lh" x] shape n x
      by (simp add: lh_wf_def lh_items_def)
    ultimately have "x \<in> set (buckets lh ! b)" by (simp add: b_def)
    then show False
      using that k found [OF x] find_in_chain_end [of "\<lambda>x. found (idata x)" "buckets lh ! b"] by (simp add: i_def)
  qed
qed

text \<open>Retrieving by key, for a comparison of the key with an object that is compatible with that of the table.\<close>

lemma retrieve_key_map:
  assumes "lh_inv hf cf D key khash lh" "\<And>p. p \<in> D \<Longrightarrow> cmp_key p = 0 \<longleftrightarrow> key p = k"
  shows "OPENSSL_lh_retrieve_key lh (khash k) cmp_key = (case lh_map key lh k of None \<Rightarrow> 0 | Some p \<Rightarrow> p)"
proof -
  have keyed: "lh_keyed D key khash lh" using assms(1) by (simp add: lh_inv_def)
  let ?b = "unat (khash k) mod num_buckets lh"
  let ?i = "find_in_chain (\<lambda>x. cmp_key (idata x) = 0) (buckets lh ! ?b)"
  note s = search_key [OF assms(1), of "\<lambda>p. cmp_key p = 0" k, OF assms(2)]
  show ?thesis
  proof (cases "?i < length (buckets lh ! ?b)")
    case True
    then have "buckets lh ! ?b ! ?i \<in> set (lh_items lh)"
      unfolding lh_items_def by (intro in_bucket [OF s(1)] nth_mem)
    then have "lh_map key lh k = Some (idata (buckets lh ! ?b ! ?i))"
      using s(3) [OF _ True] by (auto simp: lh_map_eq [OF keyed])
    then show ?thesis using True by (simp add: OPENSSL_lh_retrieve_key_def get_next_ptr_by_key_def deref_next_def Let_def)
  next
    case False
    then have "?i = length (buckets lh ! ?b)" using s(2) by simp
    then have "lh_map key lh k = None" using s(4) by (simp add: lh_map_None)
    then show ?thesis using False by (simp add: OPENSSL_lh_retrieve_key_def get_next_ptr_by_key_def deref_next_def Let_def)
  qed
qed

text \<open>The counter cannot overflow: there are fewer addresses than numbers.\<close>

lemma room_for_item:
  assumes "lh_wf lh" "item \<notin> iaddr ` set (lh_items lh)" "item \<noteq> 0"
  shows "num_items lh + 1 < size_mod"
proof -
  have "num_items lh = card (iaddr ` set (lh_items lh))"
    using assms(1) by (simp add: lh_wf_def distinct_card flip: set_map)
  also have "\<dots> \<le> card (UNIV - {0, item})"
    using assms by (intro card_mono) (auto simp: lh_wf_def)
  also have "\<dots> = 2 ^ 64 - 2"
    using assms(3) by (simp add: card_Diff_subset card_word)
  finally show ?thesis by (simp add: size_mod_def)
qed

text \<open>The invariant and the map look at the keys of the items only.\<close>

lemma lh_inv_cong:
  assumes "lh_inv hf cf D key khash lh" "\<And>p. p \<in> idata ` set (lh_items lh) \<Longrightarrow> p \<in> D' \<and> key' p = key p"
  shows "lh_inv hf cf D' key' khash lh" "lh_map key' lh = lh_map key lh"
proof -
  have same: "map (key' \<circ> idata) (lh_items lh) = map (key \<circ> idata) (lh_items lh)" using assms(2) by auto
  show "lh_inv hf cf D' key' khash lh"
    using assms unfolding lh_inv_def lh_keyed_def same by auto
  show "lh_map key' lh = lh_map key lh"
    using assms(2) unfolding lh_map_def by (intro ext arg_cong [of _ _ "map_option idata"] find_cong) auto
qed

section \<open>The interface to the caller's functions\<close>

locale lhash_functions =
  fixes call_hash_func :: hash_helper and call_cmp_func :: cmp_helper
    and hf cf :: ptr and D :: "ptr set" and key :: "ptr \<Rightarrow> 'k" and khash :: "'k \<Rightarrow> u32"
  assumes hash_of_key: "p \<in> D \<Longrightarrow> call_hash_func hf p = khash (key p)"
    and cmp_of_keys: "p \<in> D \<Longrightarrow> q \<in> D \<Longrightarrow> call_cmp_func cf p q = 0 \<longleftrightarrow> key p = key q"
begin

abbreviation "valid \<equiv> lh_inv hf cf D key khash"

abbreviation "position lh d \<equiv> get_next_ptr_and_hash call_hash_func call_cmp_func lh d"

text \<open>The search as the operations do it. The list of all items is given around the place, so that a change of
  the chain is a change of the list.\<close>

lemma search:
  assumes "valid lh" "d \<in> D"
  obtains b i where
    "position lh d = ((b, i), khash (key d))" "b = unat (khash (key d)) mod num_buckets lh"
    "b < length (buckets lh)" "i \<le> length (buckets lh ! b)"
    "i < length (buckets lh ! b) \<Longrightarrow> key (idata (buckets lh ! b ! i)) = key d"
    "i = length (buckets lh ! b) \<Longrightarrow> \<forall>x \<in> set (lh_items lh). key (idata x) \<noteq> key d"
proof -
  have "lh_hash lh = hf" "lh_comp lh = cf" using assms(1) by (auto simp: lh_inv_def)
  then have "position lh d = ((unat (khash (key d)) mod num_buckets lh,
      find_in_chain (\<lambda>x. call_cmp_func cf (idata x) d = 0) (buckets lh ! (unat (khash (key d)) mod num_buckets lh))),
      khash (key d))"
    by (simp add: get_next_ptr_and_hash_def Let_def hash_of_key [OF assms(2)])
  from that [OF this refl] show ?thesis
    using search_key [OF assms(1), of "\<lambda>p. call_cmp_func cf p d = 0" "key d", OF cmp_of_keys [OF _ assms(2)]]
    by blast
qed

lemma search_cases:
  assumes "valid lh" "d \<in> D"
  obtains (hit) b i x A B where
    "position lh d = ((b, i), khash (key d))" "deref_next lh (b, i) = Some x" "key (idata x) = key d"
    "unat (ihash x) mod num_buckets lh = b"
    "lh_items lh = A @ x # B"
    "\<And>e. concat ((buckets lh)[b := (buckets lh ! b)[i := e]]) = A @ e # B"
    "concat ((buckets lh)[b := take i (buckets lh ! b) @ drop (Suc i) (buckets lh ! b)]) = A @ B"
  | (miss) b i A B where
    "position lh d = ((b, i), khash (key d))" "deref_next lh (b, i) = None"
    "b = unat (khash (key d)) mod num_buckets lh"
    "\<forall>x \<in> set (lh_items lh). key (idata x) \<noteq> key d" "lh_items lh = A @ B"
    "\<And>e. concat ((buckets lh)[b := buckets lh ! b @ [e]]) = A @ e # B"
proof -
  obtain b i where s: "position lh d = ((b, i), khash (key d))" "b = unat (khash (key d)) mod num_buckets lh"
    "b < length (buckets lh)" "i \<le> length (buckets lh ! b)"
    "i < length (buckets lh ! b) \<Longrightarrow> key (idata (buckets lh ! b ! i)) = key d"
    "i = length (buckets lh ! b) \<Longrightarrow> \<forall>x \<in> set (lh_items lh). key (idata x) \<noteq> key d"
    by (rule search [OF assms]) blast
  let ?c = "buckets lh ! b"
  show ?thesis
  proof (cases "i < length ?c")
    case True
    let ?A = "concat (take b (buckets lh)) @ take i ?c" and ?B = "drop (Suc i) ?c @ concat (drop (Suc b) (buckets lh))"
    have c: "?c = take i ?c @ ?c ! i # drop (Suc i) ?c" using True by (rule id_take_nth_drop)
    have "unat (ihash (?c ! i)) mod num_buckets lh = b"
      using assms True s(3) by (auto simp: lh_inv_def lh_wf_def lh_placed_def)
    moreover have "lh_items lh = ?A @ ?c ! i # ?B"
      unfolding lh_items_def items_around(1) [OF s(3)] by (subst c) (simp del: append_take_drop_id)
    moreover have "concat ((buckets lh)[b := ?c[i := e]]) = ?A @ e # ?B" for e
      using True by (simp add: items_around(2) [OF s(3)] upd_conv_take_nth_drop)
    moreover have "concat ((buckets lh)[b := take i ?c @ drop (Suc i) ?c]) = ?A @ ?B"
      by (simp add: items_around(2) [OF s(3)])
    moreover have "deref_next lh (b, i) = Some (?c ! i)" using True by (simp add: deref_next_def)
    ultimately show ?thesis using hit s(1) s(5) [OF True] by blast
  next
    case False
    then have i: "i = length ?c" using s(4) by simp
    let ?A = "concat (take b (buckets lh)) @ ?c" and ?B = "concat (drop (Suc b) (buckets lh))"
    have "lh_items lh = ?A @ ?B" unfolding lh_items_def by (simp add: items_around(1) [OF s(3)])
    moreover have "concat ((buckets lh)[b := ?c @ [e]]) = ?A @ e # ?B" for e
      by (simp add: items_around(2) [OF s(3)])
    moreover have "deref_next lh (b, i) = None" by (simp add: deref_next_def i)
    ultimately show ?thesis using miss s(1,2) s(6) [OF i] by blast
  qed
qed

text \<open>Retrieving is reading the map; an absent key reads as \<open>NULL\<close>.\<close>

lemma retrieve_map:
  assumes "valid lh" "d \<in> D"
  shows "OPENSSL_lh_retrieve call_hash_func call_cmp_func lh d = (case lh_map key lh (key d) of None \<Rightarrow> 0 | Some p \<Rightarrow> p)"
proof -
  have keyed: "lh_keyed D key khash lh" using assms by (simp add: lh_inv_def)
  show ?thesis
  proof (rule search_cases [OF assms])
    fix b i x A B
    assume "position lh d = ((b, i), khash (key d))" "deref_next lh (b, i) = Some x"
      "key (idata x) = key d" "lh_items lh = A @ x # B"
    then show ?thesis using lh_map_eq [OF keyed, of "key d" "idata x"]
      by (auto simp: OPENSSL_lh_retrieve_def)
  next
    fix b i A B
    assume "position lh d = ((b, i), khash (key d))" "deref_next lh (b, i) = None"
      "\<forall>x \<in> set (lh_items lh). key (idata x) \<noteq> key d"
    then show ?thesis by (simp add: OPENSSL_lh_retrieve_def lh_map_None [THEN iffD2])
  qed
qed

text \<open>Inserting: an equal item is replaced and returned; otherwise the item is added, unless the allocation of
  the item fails, and then nothing changes. Neither depends on whether a resize succeeds.\<close>

lemma insert_map:
  assumes "valid lh" "d \<in> D" "item \<notin> iaddr ` set (lh_items lh)"
  obtains lh' where "valid lh'" and
    "OPENSSL_lh_insert h item call_hash_func call_cmp_func lh d =
       (case lh_map key lh (key d) of
          Some old \<Rightarrow> (1, old, lh')
        | None \<Rightarrow> (if item = 0 then 0 else 1, 0, lh'))"
    "lh_map key lh' = (if lh_map key lh (key d) = None \<and> item = 0 then lh_map key lh else (lh_map key lh)(key d \<mapsto> d))"
proof -
  have keyed: "lh_keyed D key khash lh" and wf: "lh_wf lh" using assms(1) by (simp_all add: lh_inv_def)
  show ?thesis
  proof (rule search_cases [OF assms(1,2)])
    fix b i x A B
    assume hit: "position lh d = ((b, i), khash (key d))" "deref_next lh (b, i) = Some x"
      "key (idata x) = key d" "unat (ihash x) mod num_buckets lh = b" "lh_items lh = A @ x # B"
      "\<And>e. concat ((buckets lh)[b := (buckets lh ! b)[i := e]]) = A @ e # B"
    let ?c = "(buckets lh ! b)[i := x\<lparr>idata := d\<rparr>]"
    let ?lh = "lh\<lparr>buckets := (buckets lh)[b := ?c]\<rparr>"
    have "b < num_buckets lh" using hit(4) wf by (auto simp: lh_wf_def kMinNumBuckets_def)
    then have placed: "unat (ihash y) mod num_buckets lh = b" if "y \<in> set ?c" for y
      using that hit(4) wf by (auto simp: lh_wf_def lh_placed_def dest!: set_update_subset_insert [THEN subsetD])
    have "valid (lh\<lparr>buckets := (buckets lh)[b := ?c], num_items := num_items lh\<rparr>)"
      using wf keyed hit(3,5) assms(2)
      by (intro lh_inv_change [OF assms(1) placed hit(6)]) (auto simp: lh_wf_def lh_keyed_def)
    moreover have "lh\<lparr>buckets := (buckets lh)[b := ?c], num_items := num_items lh\<rparr> = ?lh" by simp
    ultimately have valid: "valid ?lh" by simp
    then have "lh_map key ?lh = (lh_map key lh)(key d \<mapsto> d)"
      using lh_map_replaced [OF keyed _ hit(5), of ?lh "x\<lparr>idata := d\<rparr>"] hit(3,6)
      by (simp add: lh_inv_def lh_items_def)
    moreover have "lh_map key lh (key d) = Some (idata x)"
      using hit(3,5) by (auto simp: lh_map_eq [OF keyed])
    moreover have "OPENSSL_lh_insert h item call_hash_func call_cmp_func lh d = (1, idata x, ?lh)"
      using hit by (simp add: OPENSSL_lh_insert_def)
    ultimately show ?thesis using that [OF valid] by simp
  next
    fix b i A B
    assume miss: "position lh d = ((b, i), khash (key d))" "deref_next lh (b, i) = None"
      "b = unat (khash (key d)) mod num_buckets lh"
      "\<forall>x \<in> set (lh_items lh). key (idata x) \<noteq> key d" "lh_items lh = A @ B"
      "\<And>e. concat ((buckets lh)[b := buckets lh ! b @ [e]]) = A @ e # B"
    have none: "lh_map key lh (key d) = None" using miss(4) by (simp add: lh_map_None)
    show ?thesis
    proof (cases "item = 0")
      case True
      then have "OPENSSL_lh_insert h item call_hash_func call_cmp_func lh d = (0, 0, lh)"
        using miss by (simp add: OPENSSL_lh_insert_def)
      then show ?thesis using that [OF assms(1)] none True by simp
    next
      case False
      let ?e = "\<lparr>iaddr = item, idata = d, ihash = khash (key d)\<rparr>"
      let ?c = "buckets lh ! b @ [?e]"
      let ?lh = "lh\<lparr>buckets := (buckets lh)[b := ?c], num_items := size_add (num_items lh) 1\<rparr>"
      have b: "b < num_buckets lh" using miss(3) wf by (simp add: lh_wf_def kMinNumBuckets_def)
      have placed: "unat (ihash y) mod num_buckets lh = b" if "y \<in> set ?c" for y
        using that miss(3) wf b by (auto simp: lh_wf_def lh_placed_def)
      have count: "size_add (num_items lh) 1 = Suc (num_items lh)"
        using room_for_item [OF wf assms(3) False] by (simp add: size_add_exact)
      have valid: "valid ?lh"
        using wf keyed miss(4,5) False assms(2,3) room_for_item [OF wf assms(3) False] unfolding count
        by (intro lh_inv_change [OF assms(1) placed miss(6)]) (auto simp: lh_wf_def lh_keyed_def)
      then have "lh_map key ?lh = (lh_map key lh)(key d \<mapsto> d)"
        using lh_map_added [OF keyed _ miss(5), of ?lh ?e] miss(6) by (simp add: lh_inv_def lh_items_def)
      moreover have "OPENSSL_lh_insert h item call_hash_func call_cmp_func lh d = (1, 0, lh_maybe_resize h ?lh)"
        using miss False by (simp add: OPENSSL_lh_insert_def)
      ultimately show ?thesis
        using that [OF lh_inv_resize [OF valid, of h]] none False lh_map_resize [OF valid, of h] by simp
    qed
  qed
qed

text \<open>Deleting: the item with an equal key, if there is one, is removed and returned.\<close>

lemma delete_map:
  assumes "valid lh" "d \<in> D"
  obtains lh' where "valid lh'"
    "OPENSSL_lh_delete h call_hash_func call_cmp_func lh d = (case lh_map key lh (key d) of None \<Rightarrow> 0 | Some p \<Rightarrow> p, lh')"
    "lh_map key lh' = (lh_map key lh)(key d := None)"
proof -
  have keyed: "lh_keyed D key khash lh" and wf: "lh_wf lh" using assms(1) by (simp_all add: lh_inv_def)
  show ?thesis
  proof (rule search_cases [OF assms])
    fix b i x A B
    assume hit: "position lh d = ((b, i), khash (key d))" "deref_next lh (b, i) = Some x"
      "key (idata x) = key d" "unat (ihash x) mod num_buckets lh = b" "lh_items lh = A @ x # B"
      "concat ((buckets lh)[b := take i (buckets lh ! b) @ drop (Suc i) (buckets lh ! b)]) = A @ B"
    let ?c = "take i (buckets lh ! b) @ drop (Suc i) (buckets lh ! b)"
    let ?lh = "lh\<lparr>buckets := (buckets lh)[b := ?c], num_items := size_add (num_items lh) (size_mod - 1)\<rparr>"
    have "b < num_buckets lh" using hit(4) wf by (auto simp: lh_wf_def kMinNumBuckets_def)
    then have placed: "unat (ihash y) mod num_buckets lh = b" if "y \<in> set ?c" for y
      using that wf by (auto simp: lh_wf_def lh_placed_def dest: in_set_takeD in_set_dropD)
    have items: "num_items lh = Suc (length (A @ B))" "num_items lh < size_mod" using wf hit(5) by (auto simp: lh_wf_def)
    have count: "size_add (num_items lh) (size_mod - 1) = length (A @ B)"
    proof -
      have "num_items lh + (size_mod - 1) = length (A @ B) + size_mod"
        using items by simp
      then show ?thesis using items by (simp add: size_add_def)
    qed
    have valid: "valid ?lh"
      using wf keyed hit(5) items unfolding count
      by (intro lh_inv_change [OF assms(1) placed hit(6)]) (auto simp: lh_wf_def lh_keyed_def)
    then have "lh_map key ?lh = (lh_map key lh)(key d := None)"
      using lh_map_removed [OF keyed _ hit(5), of ?lh] hit(3,6) by (simp add: lh_inv_def lh_items_def)
    moreover have "lh_map key lh (key d) = Some (idata x)"
      using hit(3,5) by (auto simp: lh_map_eq [OF keyed])
    moreover have "OPENSSL_lh_delete h call_hash_func call_cmp_func lh d = (idata x, lh_maybe_resize h ?lh)"
      using hit by (simp add: OPENSSL_lh_delete_def)
    ultimately show ?thesis
      using that [OF lh_inv_resize [OF valid, of h]] lh_map_resize [OF valid, of h] by simp
  next
    fix b i A B
    assume "position lh d = ((b, i), khash (key d))" "deref_next lh (b, i) = None"
      "\<forall>x \<in> set (lh_items lh). key (idata x) \<noteq> key d"
    then show ?thesis
      using that [OF assms(1)] by (simp add: OPENSSL_lh_delete_def lh_map_None [THEN iffD2] fun_upd_idem)
  qed
qed

end

end
