(* ===== verification/LhashIter.thy ===== *)
theory LhashIter
  imports LhashSpec
begin

text \<open>
  Iteration over a hash table with a callback that may delete the item it is called on, which is how tables
  are emptied. \<open>callback_depth\<close> keeps the buckets in place meanwhile: every item of the table is visited
  exactly once, and no item is read after it was freed.
\<close>

text \<open>The callback updates the rest of the memory and decides, for the data it gets, whether to delete it.\<close>

definition deleting_callback :: "(lhash \<Rightarrow> ptr \<Rightarrow> ptr \<times> lhash) \<Rightarrow> (ptr \<Rightarrow> 's \<Rightarrow> bool) \<Rightarrow> (ptr \<Rightarrow> 's \<Rightarrow> 's) \<Rightarrow> 's lh_callback" where
  "deleting_callback delete doomed update d st =
     Some (if doomed d (snd st) then snd (delete (fst st) d) else fst st, update d (snd st))"

text \<open>What is left of a list of items.\<close>

fun surviving :: "(ptr \<Rightarrow> 's \<Rightarrow> bool) \<Rightarrow> (ptr \<Rightarrow> 's \<Rightarrow> 's) \<Rightarrow> lhash_item list \<Rightarrow> 's \<Rightarrow> lhash_item list" where
  "surviving doomed update [] s = []"
| "surviving doomed update (x # xs) s =
     (if doomed (idata x) s then [] else [x]) @ surviving doomed update xs (update (idata x) s)"

definition visit :: "(ptr \<Rightarrow> 's \<Rightarrow> 's) \<Rightarrow> lhash_item list \<Rightarrow> 's \<Rightarrow> 's" where
  "visit update xs = fold (\<lambda>x. update (idata x)) xs"

lemma visit_simps [simp]:
  "visit update [] s = s" "visit update (x # xs) s = visit update xs (update (idata x) s)"
  "visit update (xs @ ys) s = visit update ys (visit update xs s)"
  by (simp_all add: visit_def)

lemma surviving_append:
  "surviving doomed update (xs @ ys) s = surviving doomed update xs s @ surviving doomed update ys (visit update xs s)"
  by (induction xs arbitrary: s) auto

lemma item_in_chain_found:
  assumes "distinct (map iaddr (P @ x # R))"
  shows "item_in_chain (iaddr x) (P @ x # R) = Some (idata x, head_addr R)"
  using assms by (induction P) (auto simp: image_iff)

lemma item_in_chain_absent: "a \<notin> iaddr ` set c \<Longrightarrow> item_in_chain a c = None"
  by (induction c) auto

lemma item_at_found:
  assumes "distinct (map iaddr (concat bs))" "b < length bs" "bs ! b = P @ x # R"
  shows "item_at (iaddr x) bs = Some (idata x, head_addr R)"
  using assms
proof (induction bs arbitrary: b)
  case (Cons c cs)
  show ?case
  proof (cases b)
    case 0
    then show ?thesis using Cons.prems item_in_chain_found [of P x R] by simp
  next
    case (Suc k)
    then have "x \<in> set (concat cs)" using Cons.prems in_bucket [of k cs x] by simp
    then have "iaddr x \<notin> iaddr ` set c" using Cons.prems(1) by (auto simp: map_concat)
    then show ?thesis using Suc Cons by (simp add: item_in_chain_absent)
  qed
qed simp

lemma lh_maybe_resize_iterating: "0 < callback_depth lh \<Longrightarrow> lh_maybe_resize h lh = lh"
  by (simp add: lh_maybe_resize_def)

lemma depth_step:
  fixes c :: u32
  shows "c < UINT_MAX \<Longrightarrow> 0 < c + 1" "\<not> c < UINT_MAX \<Longrightarrow> 0 < c" "c < UINT_MAX - 1 \<Longrightarrow> c < UINT_MAX"
    "c < UINT_MAX - 1 \<Longrightarrow> c + 1 < UINT_MAX"
proof -
  have next_depth: "unat (c + 1) = unat c + 1" if "unat c < 4294967295"
    using that by (simp add: unat_word_ariths)
  show "c < UINT_MAX \<Longrightarrow> 0 < c + 1" "\<not> c < UINT_MAX \<Longrightarrow> 0 < c" "c < UINT_MAX - 1 \<Longrightarrow> c < UINT_MAX"
    "c < UINT_MAX - 1 \<Longrightarrow> c + 1 < UINT_MAX"
    by (simp_all add: UINT_MAX_def word_less_nat_alt next_depth)
qed

context lhash_functions
begin

text \<open>During an iteration a deletion takes the item out of its chain and changes nothing else.\<close>

lemma delete_in_place:
  assumes "valid lh" "0 < callback_depth lh" "b < num_buckets lh" "buckets lh ! b = P @ x # R"
  obtains n where "valid (lh\<lparr>buckets := (buckets lh)[b := P @ R], num_items := n\<rparr>)"
    "OPENSSL_lh_delete h call_hash_func call_cmp_func lh (idata x)
       = (idata x, lh\<lparr>buckets := (buckets lh)[b := P @ R], num_items := n\<rparr>)"
proof -
  have keyed: "lh_keyed D key khash lh" and wf: "lh_wf lh" using assms(1) by (simp_all add: lh_inv_def)
  have l: "b < length (buckets lh)" using wf assms(3) by (simp add: lh_wf_def lh_placed_def)
  then have x: "x \<in> set (lh_items lh)" using assms(4) in_bucket [of b "buckets lh" x] by (simp add: lh_items_def)
  then have d: "idata x \<in> D" using keyed by (auto simp: lh_keyed_def)
  obtain b' i where s: "position lh (idata x) = ((b', i), khash (key (idata x)))"
    "b' = unat (khash (key (idata x))) mod num_buckets lh" "i \<le> length (buckets lh ! b')"
    "i < length (buckets lh ! b') \<Longrightarrow> key (idata (buckets lh ! b' ! i)) = key (idata x)"
    "i = length (buckets lh ! b') \<Longrightarrow> \<forall>y \<in> set (lh_items lh). key (idata y) \<noteq> key (idata x)"
    by (rule search [OF assms(1) d]) blast
  have "unat (ihash x) mod num_buckets lh = b"
    using wf assms(3,4) by (simp add: lh_wf_def lh_placed_def)
  then have b: "b' = b" using s(2) keyed x by (simp add: lh_keyed_def)
  have i: "i < length (P @ x # R)" using s(3,5) x b assms(4) by fastforce
  then have "(P @ x # R) ! i \<in> set (buckets lh ! b)" unfolding assms(4) by (rule nth_mem)
  then have "(P @ x # R) ! i \<in> set (lh_items lh)" unfolding lh_items_def by (rule in_bucket [OF l])
  moreover have "inj_on (key \<circ> idata) (set (lh_items lh))" using keyed by (simp add: lh_keyed_def distinct_map)
  ultimately have at: "(P @ x # R) ! i = x"
    using x s(4) i b assms(4) by (simp add: inj_on_def)
  have "distinct (map iaddr (concat (buckets lh)))" using wf by (simp add: lh_wf_def lh_items_def)
  then have "distinct (map iaddr (P @ x # R))"
    unfolding items_around(1) [OF l] assms(4) map_append distinct_append by blast
  then have "distinct (P @ x # R)" unfolding distinct_map by (rule conjunct1)
  then have i: "i = length P" using at i nth_eq_iff_index_eq [of "P @ x # R" i "length P"] by simp
  let ?lh = "lh\<lparr>buckets := (buckets lh)[b := P @ R], num_items := size_add (num_items lh) (size_mod - 1)\<rparr>"
  have del: "OPENSSL_lh_delete h call_hash_func call_cmp_func lh (idata x) = (idata x, ?lh)"
    using s(1) assms(2,4) i by (simp add: OPENSSL_lh_delete_def b deref_next_def lh_maybe_resize_iterating)
  moreover have "valid ?lh"
    using delete_map [OF assms(1) d, of h] del by (metis snd_conv)
  ultimately show ?thesis using that by blast
qed

text \<open>One chain.\<close>

abbreviation "iterate h doomed update \<equiv>
  deleting_callback (OPENSSL_lh_delete h call_hash_func call_cmp_func) doomed update"

lemma doall_chain_deleting:
  assumes "valid lh" "0 < callback_depth lh" "b < num_buckets lh" "buckets lh ! b = P @ xs"
  shows "\<exists>n. doall_chain (iterate h doomed update) (head_addr xs) (lh, s) =
      Some (lh\<lparr>buckets := (buckets lh)[b := P @ surviving doomed update xs s], num_items := n\<rparr>, visit update xs s)
    \<and> valid (lh\<lparr>buckets := (buckets lh)[b := P @ surviving doomed update xs s], num_items := n\<rparr>)"
  using assms
proof (induction xs arbitrary: P lh s)
  case Nil
  have "lh\<lparr>buckets := (buckets lh)[b := P], num_items := num_items lh\<rparr> = lh" using Nil(4) by (simp flip: Nil(4) [simplified])
  then show ?case using Nil
    by (intro exI [of _ "num_items lh"]) (simp add: head_addr_def doall_chain.simps)
next
  case (Cons x xs)
  have wf: "lh_wf lh" using Cons.prems by (simp add: lh_inv_def)
  then have l: "b < length (buckets lh)" using Cons.prems(3) by (simp add: lh_wf_def lh_placed_def)
  then have "x \<in> set (lh_items lh)"
    using Cons.prems(4) in_bucket [of b "buckets lh" x] by (simp add: lh_items_def)
  then have a: "iaddr x \<noteq> 0" using wf by (auto simp: lh_wf_def)
  have at: "item_at (iaddr x) (buckets lh) = Some (idata x, head_addr xs)"
    using wf by (intro item_at_found [OF _ l Cons.prems(4)]) (simp add: lh_wf_def lh_items_def)
  let ?s = "update (idata x) s"
  have step: "doall_chain (iterate h doomed update) (head_addr (x # xs)) (lh, s) =
      doall_chain (iterate h doomed update) (head_addr xs)
        (if doomed (idata x) s then snd (OPENSSL_lh_delete h call_hash_func call_cmp_func lh (idata x)) else lh, ?s)"
    using a at by (subst doall_chain.simps) (simp add: head_addr_def deleting_callback_def)
  show ?case
  proof (cases "doomed (idata x) s")
    case True
    obtain n where n: "valid (lh\<lparr>buckets := (buckets lh)[b := P @ xs], num_items := n\<rparr>)"
      "OPENSSL_lh_delete h call_hash_func call_cmp_func lh (idata x)
        = (idata x, lh\<lparr>buckets := (buckets lh)[b := P @ xs], num_items := n\<rparr>)"
      by (rule delete_in_place [OF Cons.prems])
    show ?thesis
      using Cons.IH [OF n(1), of P ?s] Cons.prems(2,3) l True step n(2) by simp
  next
    case False
    then show ?thesis using Cons.IH [OF Cons.prems(1-3), of "P @ [x]" ?s] Cons.prems(4) step by simp
  qed
qed

text \<open>All chains from bucket \<open>i\<close> on.\<close>

lemma doall_buckets_deleting:
  assumes "valid lh" "0 < callback_depth lh" "i \<le> num_buckets lh"
  shows "\<exists>lh'. doall_buckets (iterate h doomed update) i (lh, s)
      = Some (lh', visit update (concat (drop i (buckets lh))) s)
    \<and> valid lh' \<and> callback_depth lh' = callback_depth lh \<and> take i (buckets lh') = take i (buckets lh)
    \<and> concat (drop i (buckets lh')) = surviving doomed update (concat (drop i (buckets lh))) s"
  using assms
proof (induction "num_buckets lh - i" arbitrary: i lh s)
  case 0
  moreover have "length (buckets lh) = num_buckets lh"
    using 0(2) by (simp add: lh_inv_def lh_wf_def lh_placed_def)
  ultimately show ?case by (intro exI [of _ lh]) (simp add: doall_buckets.simps)
next
  case (Suc k)
  have l: "length (buckets lh) = num_buckets lh"
    using Suc.prems(1) by (simp add: lh_inv_def lh_wf_def lh_placed_def)
  have i: "i < num_buckets lh" using Suc.hyps(2) by simp
  let ?c = "buckets lh ! i"
  obtain n where n: "doall_chain (iterate h doomed update) (head_addr ?c) (lh, s) =
      Some (lh\<lparr>buckets := (buckets lh)[i := surviving doomed update ?c s], num_items := n\<rparr>, visit update ?c s)"
    "valid (lh\<lparr>buckets := (buckets lh)[i := surviving doomed update ?c s], num_items := n\<rparr>)"
    using doall_chain_deleting [OF Suc.prems(1,2) i, of "[]" ?c h doomed update s] by auto
  let ?lh = "lh\<lparr>buckets := (buckets lh)[i := surviving doomed update ?c s], num_items := n\<rparr>"
  have k: "k = num_buckets ?lh - (i + 1)" using Suc.hyps(2) by simp
  obtain lh' where lh': "doall_buckets (iterate h doomed update) (i + 1) (?lh, visit update ?c s)
      = Some (lh', visit update (concat (drop (i + 1) (buckets ?lh))) (visit update ?c s))"
    "valid lh'" "callback_depth lh' = callback_depth lh" "take (i + 1) (buckets lh') = take (i + 1) (buckets ?lh)"
    "concat (drop (i + 1) (buckets lh')) = surviving doomed update (concat (drop (i + 1) (buckets ?lh))) (visit update ?c s)"
    using Suc.hyps(1) [OF k n(2), of "visit update ?c s"] Suc.prems(2) i by auto
  have rest: "drop i (buckets lh) = ?c # drop (i + 1) (buckets lh)" using i l by (simp add: Cons_nth_drop_Suc)
  have l': "i < length (buckets lh')"
    using arg_cong [OF lh'(4), of length] i l by simp
  have "buckets lh' ! i = surviving doomed update ?c s"
    using arg_cong [OF lh'(4), of "\<lambda>xs. xs ! i"] i l by simp
  then have rest': "drop i (buckets lh') = surviving doomed update ?c s # drop (i + 1) (buckets lh')"
    using l' by (simp add: Cons_nth_drop_Suc [symmetric])
  have "take i (buckets lh') = take i (buckets lh)"
    using arg_cong [OF lh'(4), of "take i"] by (simp add: min_def)
  moreover have "doall_buckets (iterate h doomed update) i (lh, s)
      = doall_buckets (iterate h doomed update) (i + 1) (?lh, visit update ?c s)"
    using n(1) i by (subst doall_buckets.simps) simp
  ultimately show ?case
    using lh' by (intro exI [of _ lh']) (simp add: rest rest' surviving_append)
qed

text \<open>The whole iteration. The counter is back at its value afterwards, unless it got stuck at its maximum.\<close>

lemma doall_deleting:
  assumes "valid lh"
  shows "\<exists>lh'. OPENSSL_lh_doall_arg h (iterate h doomed update) (Some lh, s) = Some (Some lh', visit update (lh_items lh) s)
    \<and> valid lh' \<and> mset (lh_items lh') = mset (surviving doomed update (lh_items lh) s)
    \<and> (callback_depth lh < UINT_MAX - 1 \<longrightarrow> callback_depth lh' = callback_depth lh)"
proof -
  define lh1 where "lh1 = (if callback_depth lh < UINT_MAX then lh\<lparr>callback_depth := callback_depth lh + 1\<rparr> else lh)"
  have lh1: "valid lh1" "lh_items lh1 = lh_items lh"
    using assms by (simp_all add: lh1_def lh_inv_def lh_wf_def lh_keyed_def lh_items_def)
  have depth: "0 < callback_depth lh1"
    "callback_depth lh < UINT_MAX - 1 \<Longrightarrow> callback_depth lh1 = callback_depth lh + 1 \<and> callback_depth lh1 < UINT_MAX"
    using depth_step [of "callback_depth lh"] by (auto simp: lh1_def)
  obtain lh2 where lh2: "doall_buckets (iterate h doomed update) 0 (lh1, s) = Some (lh2, visit update (lh_items lh) s)"
    "valid lh2" "callback_depth lh2 = callback_depth lh1" "lh_items lh2 = surviving doomed update (lh_items lh) s"
    using doall_buckets_deleting [OF lh1(1) depth(1), of 0 h doomed update s] lh1(2) by (auto simp: lh_items_def)
  define lh3 where "lh3 = (if callback_depth lh2 < UINT_MAX then lh2\<lparr>callback_depth := callback_depth lh2 - 1\<rparr> else lh2)"
  have lh3: "valid lh3" "lh_items lh3 = surviving doomed update (lh_items lh) s"
    "callback_depth lh < UINT_MAX - 1 \<Longrightarrow> callback_depth lh3 = callback_depth lh"
    using lh2 depth(2) by (auto simp: lh3_def lh_inv_def lh_wf_def lh_keyed_def lh_items_def)
  have "OPENSSL_lh_doall_arg h (iterate h doomed update) (Some lh, s)
      = Some (Some (lh_maybe_resize h lh3), visit update (lh_items lh) s)"
    using lh2(1) by (simp add: OPENSSL_lh_doall_arg_def Let_def lh1_def [symmetric] lh3_def)
  moreover have "valid (lh_maybe_resize h lh3)" using lh3(1) by (rule lh_inv_resize)
  moreover have "mset (lh_items (lh_maybe_resize h lh3)) = mset (surviving doomed update (lh_items lh) s)"
    using lh3 by (subst lh_maybe_resize_keeps(2)) (simp_all add: lh_inv_def)
  moreover have "callback_depth (lh_maybe_resize h lh3) = callback_depth lh3"
    by (simp add: lh_maybe_resize_def lh_rebucket_def Let_def split: option.split)
  ultimately show ?thesis using lh3(3) by auto
qed

end

section \<open>A table with one item\<close>

definition one_item_table :: lhash where
  "one_item_table = \<lparr>num_items = 1, buckets = (replicate 16 [])[5 := [\<lparr>iaddr = 9, idata = 37, ihash = 37\<rparr>]],
     num_buckets = 16, callback_depth = 0, lh_comp = 2, lh_hash = 1\<rparr>"

lemma one_item_table_items: "lh_items one_item_table = [\<lparr>iaddr = 9, idata = 37, ihash = 37\<rparr>]"
  by (simp add: lh_items_def one_item_table_def numeral_eq_Suc)

lemma one_item_table_num: "num_items one_item_table = 1"
  by (simp add: one_item_table_def)

lemma one_item_table_ok: "lh_inv 1 2 UNIV (\<lambda>p. p) ucast one_item_table"
proof -
  have "lh_placed 16 (buckets one_item_table)"
    unfolding one_item_table_def lhash.simps by (rule lh_placed_update [OF lh_placed_empty]) simp
  then show ?thesis
    by (simp add: lh_inv_def lh_wf_def lh_keyed_def one_item_table_items one_item_table_num)
      (simp add: one_item_table_def kMinNumBuckets_def size_mod_def)
qed

lemma one_item_table_map: "lh_map (\<lambda>p. p) one_item_table 37 = Some 37"
  by (simp add: lh_map_def one_item_table_items)

end
