(* ===== verification/PbStream.thy ===== *)
theory PbStream
  imports Codec
begin

text \<open>
  nanopb (\<open>pb_encode.c\<close>, \<open>pb_decode.c\<close>), the protocol buffer library behind Firestore: its input and
  output streams. The configuration is that of the pod: 32-bit field sizes, 64-bit values, dynamic
  allocation, error messages.

  A stream reads from a buffer or through a callback of the user, which is a function on a state of
  any type \<open>'s\<close>: it returns the bytes asked for, or fails. The error message of a stream is the first
  one that was set.
\<close>

section \<open>Input streams\<close>

datatype 's source = Buffer bytes | Callback "nat \<Rightarrow> 's \<Rightarrow> bytes option \<times> 's" 's

record 's istream =
  source :: "'s source"
  bytes_left :: nat
  ierrmsg :: "string option"

text \<open>\<open>PB_SET_ERROR\<close> and \<open>PB_RETURN_ERROR\<close>.\<close>

definition ireturn_error :: "string \<Rightarrow> ('s istream, 'a) op" where
  "ireturn_error msg stream =
     (None, stream\<lparr>ierrmsg := (case ierrmsg stream of None \<Rightarrow> Some msg | Some m \<Rightarrow> Some m)\<rparr>)"

definition buf_read :: "nat \<Rightarrow> bytes \<Rightarrow> bytes \<times> bytes" where
  "buf_read count state = (take count state, drop count state)"

text \<open>\<open>stream->callback(stream, buf, count)\<close>\<close>

fun call_source :: "nat \<Rightarrow> 's source \<Rightarrow> bytes option \<times> 's source" where
  "call_source count (Buffer state) = (case buf_read count state of (bs, state) \<Rightarrow> (Some bs, Buffer state))"
| "call_source count (Callback f state) = (case f count state of (r, state) \<Rightarrow> (r, Callback f state))"

definition pb_read_direct :: "nat \<Rightarrow> ('s istream, bytes) op" where
  "pb_read_direct count stream =
     (if bytes_left stream < count then ireturn_error ''end-of-stream'' stream
      else case call_source count (source stream) of
             (None, src) \<Rightarrow> ireturn_error ''io error'' (stream\<lparr>source := src\<rparr>)
           | (Some buf, src) \<Rightarrow> (Some buf, stream\<lparr>source := src, bytes_left := bytes_left stream - count\<rparr>))"

text \<open>\<open>pb_read\<close> into a buffer, and without one (\<open>buf == NULL\<close>), when the bytes are thrown away.\<close>

definition pb_read :: "nat \<Rightarrow> ('s istream, bytes) op" where
  "pb_read count = (if count = 0 then op_return [] else pb_read_direct count)"

function pb_read_chunks :: "nat \<Rightarrow> ('s istream, unit) op" where
  "pb_read_chunks count =
     (if count > 16 then op_bind (pb_read 16) (\<lambda>_. pb_read_chunks (count - 16))
      else op_bind (pb_read count) (\<lambda>_. op_return ()))"
  by auto
termination by (relation "measure id") auto

declare pb_read_chunks.simps [simp del]

definition pb_read_null :: "nat \<Rightarrow> ('s istream, unit) op" where
  "pb_read_null count stream =
     (if count = 0 then (Some (), stream)
      else case source stream of
             Callback _ _ \<Rightarrow> pb_read_chunks count stream
           | Buffer _ \<Rightarrow> op_bind (pb_read_direct count) (\<lambda>_. op_return ()) stream)"

definition pb_readbyte :: "('s istream, u8) op" where
  "pb_readbyte stream =
     (if bytes_left stream = 0 then ireturn_error ''end-of-stream'' stream
      else case call_source 1 (source stream) of
             (None, src) \<Rightarrow> ireturn_error ''io error'' (stream\<lparr>source := src\<rparr>)
           | (Some buf, src) \<Rightarrow> (Some (hd buf), stream\<lparr>source := src, bytes_left := bytes_left stream - 1\<rparr>))"

definition pb_istream_from_buffer :: "bytes \<Rightarrow> nat \<Rightarrow> 's istream" where
  "pb_istream_from_buffer buf bufsize = \<lparr>source = Buffer buf, bytes_left = bufsize, ierrmsg = None\<rparr>"

section \<open>Output streams\<close>

text \<open>
  A stream without a callback only counts. The state of a stream over a buffer is the buffer and the
  position of the next byte.
\<close>

record 's ostream =
  callback :: "(bytes \<Rightarrow> 's \<Rightarrow> bool \<times> 's) option"
  state :: 's
  max_size :: nat
  bytes_written :: nat
  oerrmsg :: "string option"

definition oreturn_error :: "string \<Rightarrow> ('s ostream, 'a) op" where
  "oreturn_error msg stream =
     (None, stream\<lparr>oerrmsg := (case oerrmsg stream of None \<Rightarrow> Some msg | Some m \<Rightarrow> Some m)\<rparr>)"

definition buf_write :: "bytes \<Rightarrow> bytes \<times> nat \<Rightarrow> bool \<times> bytes \<times> nat" where
  "buf_write buf st = (case st of (mem, dest) \<Rightarrow> (True, memcpy_at dest buf mem, dest + length buf))"

definition pb_ostream_from_buffer :: "bytes \<Rightarrow> nat \<Rightarrow> (bytes \<times> nat) ostream" where
  "pb_ostream_from_buffer buf bufsize =
     \<lparr>callback = Some buf_write, state = (buf, 0), max_size = bufsize, bytes_written = 0, oerrmsg = None\<rparr>"

text \<open>\<open>PB_OSTREAM_SIZING\<close>; its state is never used.\<close>

definition PB_OSTREAM_SIZING :: "'s \<Rightarrow> 's ostream" where
  "PB_OSTREAM_SIZING st = \<lparr>callback = None, state = st, max_size = 0, bytes_written = 0, oerrmsg = None\<rparr>"

text \<open>\<open>pb_write(stream, buf, count)\<close>; the buffer of a sizing stream may be \<open>NULL\<close>, here the empty list.\<close>

definition pb_write :: "bytes \<Rightarrow> nat \<Rightarrow> ('s ostream, unit) op" where
  "pb_write buf count stream =
     (let counted = (\<lambda>stream. (Some (), stream\<lparr>bytes_written := size_add (bytes_written stream) count\<rparr>)) in
      case callback stream of
        None \<Rightarrow> counted stream
      | Some f \<Rightarrow>
          if count = 0 then counted stream
          else if size_add (bytes_written stream) count < bytes_written stream
                \<or> size_add (bytes_written stream) count > max_size stream then oreturn_error ''stream full'' stream
          else case f (take count buf) (state stream) of
                 (ok, st) \<Rightarrow>
                   let stream = stream\<lparr>state := st\<rparr>
                   in if \<not> ok then oreturn_error ''io error'' stream else counted stream)"

section \<open>A stream as the bytes it delivers\<close>

text \<open>A callback delivers \<open>bs\<close> if it answers every request within \<open>bs\<close> with the next bytes of it.\<close>

inductive delivers :: "(nat \<Rightarrow> 's \<Rightarrow> bytes option \<times> 's) \<Rightarrow> 's \<Rightarrow> bytes \<Rightarrow> bool" for f where
  delivers: "(\<And>n. 0 < n \<Longrightarrow> n \<le> length bs \<Longrightarrow> \<exists>st'. f n st = (Some (take n bs), st') \<and> delivers f st' (drop n bs)) \<Longrightarrow>
    delivers f st bs"

inductive_cases deliversE: "delivers f st bs"

fun source_has :: "'s source \<Rightarrow> bytes \<Rightarrow> bool" where
  "source_has (Buffer mem) bs \<longleftrightarrow> prefix bs mem"
| "source_has (Callback f st) bs \<longleftrightarrow> delivers f st bs"

text \<open>A stream that may read \<open>bs\<close>, from a source that has the bytes \<open>behind\<close> after them.\<close>

definition holds :: "bytes \<Rightarrow> 's istream \<Rightarrow> bytes \<Rightarrow> bool" where
  "holds behind s bs \<longleftrightarrow> bytes_left s = length bs \<and> source_has (source s) (bs @ behind)"

lemma source_read:
  assumes "source_has src bs" "0 < n" "n \<le> length bs"
  shows "\<exists>src'. call_source n src = (Some (take n bs), src') \<and> source_has src' (drop n bs)"
proof (cases src)
  case (Buffer mem)
  then obtain zs where "mem = bs @ zs" using assms(1) by (auto simp: prefix_def)
  then show ?thesis using Buffer assms(3) by (simp add: buf_read_def prefix_def)
next
  case (Callback f st)
  then have "delivers f st bs" using assms(1) by simp
  then obtain st' where "f n st = (Some (take n bs), st')" "delivers f st' (drop n bs)"
    using assms(2,3) by cases blast
  then show ?thesis using Callback by simp
qed

lemma holds_from_buffer: "holds behind (pb_istream_from_buffer (bs @ behind @ zs) (length bs)) bs"
  by (simp add: holds_def pb_istream_from_buffer_def prefix_def)

text \<open>
  An operation on streams refines a parser on bytes: on every stream that holds \<open>bs\<close> it returns what
  the parser returns on \<open>bs\<close>, and leaves a stream that holds what the parser leaves.
\<close>

definition stream_reads :: "('s istream, 'a) op \<Rightarrow> (bytes, 'a) op \<Rightarrow> bool" where
  "stream_reads m p \<longleftrightarrow>
     (\<forall>behind s bs. holds behind s bs \<longrightarrow>
        (case p bs of
           (Some x, rest) \<Rightarrow> \<exists>t. m s = (Some x, t) \<and> holds behind t rest \<and> ierrmsg t = ierrmsg s
         | (None, rest) \<Rightarrow> \<exists>t. m s = (None, t)))"

lemma stream_readsI:
  assumes "\<And>behind s bs x rest. holds behind s bs \<Longrightarrow> p bs = (Some x, rest) \<Longrightarrow> \<exists>t. m s = (Some x, t) \<and> holds behind t rest \<and> ierrmsg t = ierrmsg s"
    and "\<And>behind s bs rest. holds behind s bs \<Longrightarrow> p bs = (None, rest) \<Longrightarrow> \<exists>t. m s = (None, t)"
  shows "stream_reads m p"
  using assms by (auto simp: stream_reads_def split: prod.splits option.splits)

lemma stream_reads_Some:
  assumes "stream_reads m p" "holds behind s bs" "p bs = (Some x, rest)"
  obtains t where "m s = (Some x, t)" "holds behind t rest" "ierrmsg t = ierrmsg s"
  using assms by (fastforce simp: stream_reads_def)

lemma stream_reads_None:
  assumes "stream_reads m p" "holds behind s bs" "p bs = (None, rest)"
  obtains t where "m s = (None, t)"
  using assms by (fastforce simp: stream_reads_def)

lemma stream_reads_iff:
  assumes "stream_reads m p" "holds behind s bs"
  shows "(\<exists>t. m s = (Some x, t)) \<longleftrightarrow> (\<exists>rest. p bs = (Some x, rest))"
proof (cases "p bs")
  case (Pair r rest)
  then show ?thesis
    using stream_reads_Some [OF assms] stream_reads_None [OF assms] by (cases r) (fastforce, metis fst_conv option.distinct(1))
qed

lemma stream_reads_return [intro]: "stream_reads (op_return x) (op_return x)"
  by (rule stream_readsI) (auto simp: op_simps)

lemma stream_reads_fail [intro]: "stream_reads (ireturn_error msg) op_fail"
  by (rule stream_readsI) (auto simp: op_simps ireturn_error_def)

lemma stream_reads_bind [intro]:
  fixes m :: "('s istream, 'a) op" and f :: "'a \<Rightarrow> ('s istream, 'b) op"
  assumes "stream_reads m p" "\<And>x. stream_reads (f x) (g x)"
  shows "stream_reads (op_bind m f) (op_bind p g)"
proof (rule stream_readsI)
  fix s :: "'s istream" and behind bs y rest assume h: "holds behind s bs"
  show "\<exists>t. op_bind m f s = (Some y, t) \<and> holds behind t rest \<and> ierrmsg t = ierrmsg s" if "op_bind p g bs = (Some y, rest)"
  proof -
    obtain x mid where p: "p bs = (Some x, mid)" "g x mid = (Some y, rest)" using \<open>op_bind p g bs = (Some y, rest)\<close> by (auto simp: op_bind_eq_Some)
    obtain t where t: "m s = (Some x, t)" "holds behind t mid" "ierrmsg t = ierrmsg s" using stream_reads_Some [OF assms(1) h p(1)] .
    obtain u where "f x t = (Some y, u)" "holds behind u rest" "ierrmsg u = ierrmsg t" using stream_reads_Some [OF assms(2) t(2) p(2)] .
    then show ?thesis using t by simp
  qed
  show "\<exists>t. op_bind m f s = (None, t)" if n: "op_bind p g bs = (None, rest)"
  proof (cases "p bs")
    case (Pair r mid)
    show ?thesis
    proof (cases r)
      case None
      then show ?thesis using stream_reads_None [OF assms(1) h] Pair by (metis op_bind_None)
    next
      case (Some x)
      then obtain t where t: "m s = (Some x, t)" "holds behind t mid" using stream_reads_Some [OF assms(1) h] Pair by metis
      have "g x mid = (None, rest)" using n Pair Some by simp
      then obtain u where "f x t = (None, u)" using stream_reads_None [OF assms(2) t(2)] by metis
      then show ?thesis using t by simp
    qed
  qed
qed

text \<open>The primitive readers.\<close>

definition take_bytes :: "nat \<Rightarrow> (bytes, bytes) op" where
  "take_bytes n bs = (if n \<le> length bs then (Some (take n bs), drop n bs) else (None, bs))"

definition take_byte :: "(bytes, u8) op" where
  "take_byte bs = (case bs of [] \<Rightarrow> (None, []) | b # rest \<Rightarrow> (Some b, rest))"

lemma take_bytes_add:
  "op_bind (take_bytes m) (\<lambda>_. op_bind (take_bytes n) (\<lambda>_. op_return ())) bs
   = (case take_bytes (m + n) bs of (Some _, rest) \<Rightarrow> (Some (), rest) | (None, _) \<Rightarrow> (None, snd (op_bind (take_bytes m) (\<lambda>_. take_bytes n) bs)))"
  by (auto simp: take_bytes_def op_bind_def op_simps add.commute)

lemma read_direct_reads: "0 < n \<Longrightarrow> stream_reads (pb_read_direct n) (take_bytes n)"
proof (rule stream_readsI)
  fix s :: "'s istream" and behind bs x rest assume n: "0 < n" and h: "holds behind s bs"
  show "\<exists>t. pb_read_direct n s = (Some x, t) \<and> holds behind t rest \<and> ierrmsg t = ierrmsg s" if "take_bytes n bs = (Some x, rest)"
  proof -
    have x: "n \<le> length bs" "x = take n bs" "rest = drop n bs" using that by (auto simp: take_bytes_def split: if_splits)
    obtain src where "call_source n (source s) = (Some x, src)" "source_has src (rest @ behind)"
      using source_read [of "source s" "bs @ behind" n] n h x by (auto simp: holds_def)
    then show ?thesis using h x by (simp add: pb_read_direct_def holds_def)
  qed
  show "\<exists>t. pb_read_direct n s = (None, t)" if "take_bytes n bs = (None, rest)"
    using that h by (auto simp: take_bytes_def holds_def pb_read_direct_def ireturn_error_def split: if_splits)
qed

lemma read_reads [intro]: "stream_reads (pb_read n) (take_bytes n)"
proof (cases "n = 0")
  case True
  have "take_bytes 0 = op_return []" by (rule ext) (simp add: take_bytes_def op_simps)
  then show ?thesis using True by (simp add: pb_read_def stream_reads_return)
next
  case False
  then show ?thesis using read_direct_reads by (simp add: pb_read_def)
qed

lemma readbyte_reads [intro]: "stream_reads pb_readbyte take_byte"
proof (rule stream_readsI)
  fix s :: "'s istream" and behind bs x rest assume h: "holds behind s bs"
  show "\<exists>t. pb_readbyte s = (Some x, t) \<and> holds behind t rest \<and> ierrmsg t = ierrmsg s" if "take_byte bs = (Some x, rest)"
  proof -
    have bs: "bs = x # rest" using that by (auto simp: take_byte_def split: list.splits)
    then obtain src where "call_source 1 (source s) = (Some [x], src)" "source_has src (rest @ behind)"
      using source_read [of "source s" "bs @ behind" 1] h by (auto simp: holds_def)
    then show ?thesis using h bs by (simp add: pb_readbyte_def holds_def)
  qed
  show "\<exists>t. pb_readbyte s = (None, t)" if "take_byte bs = (None, rest)"
    using that h by (auto simp: take_byte_def holds_def pb_readbyte_def ireturn_error_def split: list.splits)
qed

definition drop_bytes :: "nat \<Rightarrow> (bytes, unit) op" where
  "drop_bytes n bs = (if n \<le> length bs then (Some (), drop n bs) else (None, bs))"

lemma stream_reads_cong:
  fixes m :: "('s istream, 'a) op"
  assumes "stream_reads m p" "\<And>bs. fst (p bs) = fst (q bs)" "\<And>bs x rest. p bs = (Some x, rest) \<Longrightarrow> q bs = (Some x, rest)"
  shows "stream_reads m q"
proof (rule stream_readsI)
  fix s :: "'s istream" and behind bs x rest assume h: "holds behind s bs"
  show "\<exists>t. m s = (Some x, t) \<and> holds behind t rest \<and> ierrmsg t = ierrmsg s" if q: "q bs = (Some x, rest)"
  proof -
    have "fst (p bs) = Some x" using assms(2) [of bs] q by simp
    then obtain r where "p bs = (Some x, r)" by (cases "p bs") simp
    then show ?thesis using assms(3) q stream_reads_Some [OF assms(1) h] by (metis prod.inject)
  qed
  show "\<exists>t. m s = (None, t)" if q: "q bs = (None, rest)"
  proof -
    have "fst (p bs) = None" using assms(2) [of bs] q by simp
    then obtain r where "p bs = (None, r)" by (cases "p bs") simp
    then show ?thesis using stream_reads_None [OF assms(1) h] by metis
  qed
qed

lemma read_chunks_reads: "stream_reads (pb_read_chunks n :: ('s istream, unit) op) (drop_bytes n)"
proof (induction n rule: pb_read_chunks.induct)
  case (1 n)
  show ?case
  proof (cases "16 < n")
    case True
    have "stream_reads (pb_read_chunks n :: ('s istream, unit) op) (op_bind (take_bytes 16) (\<lambda>_. drop_bytes (n - 16)))"
      using True stream_reads_bind [OF read_reads 1 [OF True]] by (subst pb_read_chunks.simps) simp
    then show ?thesis
      by (rule stream_reads_cong) (use True in \<open>auto simp: op_bind_def take_bytes_def drop_bytes_def split: if_splits\<close>)
  next
    case False
    have "stream_reads (pb_read_chunks n :: ('s istream, unit) op) (op_bind (take_bytes n) (\<lambda>_. op_return ()))"
      using False stream_reads_bind [OF read_reads stream_reads_return] by (subst pb_read_chunks.simps) simp
    then show ?thesis
      by (rule stream_reads_cong) (auto simp: op_bind_def take_bytes_def drop_bytes_def op_simps split: if_splits)
  qed
qed

lemma stream_reads_either:
  fixes m :: "('s istream, 'a) op"
  assumes "stream_reads m1 p" "stream_reads m2 p" "\<And>s. m s = m1 s \<or> m s = m2 s"
  shows "stream_reads m p"
proof (rule stream_readsI)
  fix s :: "'s istream" and behind bs x rest assume h: "holds behind s bs"
  show "\<exists>t. m s = (Some x, t) \<and> holds behind t rest \<and> ierrmsg t = ierrmsg s" if p: "p bs = (Some x, rest)"
    using stream_reads_Some [OF assms(1) h p] stream_reads_Some [OF assms(2) h p] assms(3) [of s] by metis
  show "\<exists>t. m s = (None, t)" if p: "p bs = (None, rest)"
    using stream_reads_None [OF assms(1) h p] stream_reads_None [OF assms(2) h p] assms(3) [of s] by metis
qed

lemma read_null_reads [intro]: "stream_reads (pb_read_null n :: ('s istream, unit) op) (drop_bytes n)"
proof (cases "n = 0")
  case True
  then show ?thesis by (intro stream_readsI) (auto simp: pb_read_null_def drop_bytes_def)
next
  case False
  have direct: "stream_reads (op_bind (pb_read_direct n) (\<lambda>_. op_return ())) (drop_bytes n)"
    by (rule stream_reads_cong [OF stream_reads_bind [OF read_direct_reads stream_reads_return]])
      (use False in \<open>auto simp: op_bind_def take_bytes_def drop_bytes_def op_simps split: if_splits\<close>)
  have "pb_read_null n s = op_bind (pb_read_direct n) (\<lambda>_. op_return ()) s \<or> pb_read_null n s = pb_read_chunks n s"
    for s :: "'s istream" using False by (cases "source s") (simp_all add: pb_read_null_def)
  then show ?thesis by (rule stream_reads_either [OF direct read_chunks_reads])
qed

section \<open>A stream as the bytes it was given\<close>

text \<open>
  What a callback of an output stream promises: while there is capacity, it accepts the bytes and
  they are the next bytes of the output.
\<close>

locale sink =
  fixes f :: "bytes \<Rightarrow> 's \<Rightarrow> bool \<times> 's" and out :: "'s \<Rightarrow> bytes" and cap :: "'s \<Rightarrow> nat"
  assumes accepts: "length c \<le> cap st \<Longrightarrow> \<exists>st'. f c st = (True, st') \<and> out st' = out st @ c \<and> cap st' = cap st - length c"

interpretation buffer_sink: sink buf_write "\<lambda>(mem, pos). take pos mem" "\<lambda>(mem, pos). length mem - pos"
proof
  fix c :: bytes and st :: "bytes \<times> nat" assume c: "length c \<le> (case st of (mem, pos) \<Rightarrow> length mem - pos)"
  obtain mem pos where st: "st = (mem, pos)" by fastforce
  show "\<exists>st'. buf_write c st = (True, st') \<and> (case st' of (mem, pos) \<Rightarrow> take pos mem) = (case st of (mem, pos) \<Rightarrow> take pos mem) @ c
      \<and> (case st' of (mem, pos) \<Rightarrow> length mem - pos) = (case st of (mem, pos) \<Rightarrow> length mem - pos) - length c"
    using c st by (cases "c = []") (auto simp: buf_write_def memcpy_at_def)
qed

definition room_ok :: "('s \<Rightarrow> nat) \<Rightarrow> 's ostream \<Rightarrow> bool" where
  "room_ok cap s \<longleftrightarrow> bytes_written s \<le> max_size s \<and> max_size s < size_mod \<and> max_size s - bytes_written s \<le> cap (state s)"

text \<open>
  An operation writes \<open>xs\<close>: a sizing stream counts its length; any other stream is given exactly \<open>xs\<close>
  if it has room for it, and otherwise the operation fails with a message after a prefix of it.
\<close>

definition stream_written :: "('s \<Rightarrow> bytes) \<Rightarrow> ('s \<Rightarrow> nat) \<Rightarrow> bytes \<Rightarrow> 's ostream \<Rightarrow> unit option \<Rightarrow> 's ostream \<Rightarrow> bool" where
  "stream_written out cap xs s r t \<longleftrightarrow>
     callback t = callback s \<and> max_size t = max_size s \<and> room_ok cap t \<and>
     (if bytes_written s + length xs \<le> max_size s
      then r = Some () \<and> out (state t) = out (state s) @ xs \<and> bytes_written t = bytes_written s + length xs
        \<and> cap (state s) \<le> cap (state t) + length xs \<and> (oerrmsg s = None \<longrightarrow> oerrmsg t = None)
      else r = None \<and> oerrmsg t \<noteq> None \<and> (\<exists>ys. prefix ys xs \<and> out (state t) = out (state s) @ ys))"

definition writes :: "bytes \<Rightarrow> ('s ostream, unit) op \<Rightarrow> bool" where
  "writes xs m \<longleftrightarrow>
     (\<forall>s. callback s = None \<longrightarrow> bytes_written s < size_mod \<longrightarrow> m s = (Some (), s\<lparr>bytes_written := size_add (bytes_written s) (length xs)\<rparr>)) \<and>
     (\<forall>s f out cap. callback s = Some f \<longrightarrow> sink f out cap \<longrightarrow> room_ok cap s \<longrightarrow> bytes_written s + length xs < size_mod \<longrightarrow>
        (\<exists>r t. m s = (r, t) \<and> stream_written out cap xs s r t))"

lemma writes_sizing: "writes xs m \<Longrightarrow> callback s = None \<Longrightarrow> bytes_written s < size_mod \<Longrightarrow> m s = (Some (), s\<lparr>bytes_written := size_add (bytes_written s) (length xs)\<rparr>)"
  by (simp add: writes_def)

lemma writes_sink:
  assumes "writes xs m" "callback s = Some f" "sink f out cap" "room_ok cap s" "bytes_written s + length xs < size_mod"
  obtains r t where "m s = (r, t)" "stream_written out cap xs s r t"
  using assms unfolding writes_def by metis

lemma size_add_assoc: "size_add (size_add a b) c = size_add a (b + c)"
  by (simp add: size_add_def mod_simps add.assoc)

lemma writes_return [intro]: "writes [] (op_return ())"
  unfolding writes_def by (auto simp: op_simps stream_written_def room_ok_def size_add_def)

lemma writes_pb_write [intro]:
  assumes "length xs = n"
  shows "writes xs (pb_write xs n)"
  unfolding writes_def
proof (intro conjI allI impI)
  fix s :: "'s ostream"
  show "pb_write xs n s = (Some (), s\<lparr>bytes_written := size_add (bytes_written s) (length xs)\<rparr>)" if "callback s = None"
    using that assms by (simp add: pb_write_def)
  fix f out cap assume s: "callback s = Some f" "sink f out cap" and room: "room_ok cap s"
    and fits: "bytes_written s + length xs < size_mod"
  note sp = s(2) [THEN sink.accepts, of xs "state s"]
  show "\<exists>r t. pb_write xs n s = (r, t) \<and> stream_written out cap xs s r t"
  proof (cases "n = 0")
    case True
    then show ?thesis
      using s room assms by (auto simp: pb_write_def stream_written_def room_ok_def size_add_def)
  next
    case n: False
    show ?thesis
    proof (cases "bytes_written s + n \<le> max_size s")
      case True
      then have "size_add (bytes_written s) n = bytes_written s + n" using room by (intro size_add_exact) (simp add: room_ok_def)
      moreover obtain st' where "f xs (state s) = (True, st')" "out st' = out (state s) @ xs" "cap st' = cap (state s) - length xs"
        using sp True room assms by (force simp: room_ok_def)
      ultimately show ?thesis using s room True n assms by (auto simp: pb_write_def stream_written_def room_ok_def)
    next
      case False
      have "size_add (bytes_written s) n > max_size s"
        using False size_add_exact [of "bytes_written s" n] fits assms by simp
      then have "pb_write xs n s = oreturn_error ''stream full'' s" using s n by (auto simp: pb_write_def)
      then show ?thesis
        using False room assms by (auto simp: oreturn_error_def stream_written_def room_ok_def split: option.splits)
    qed
  qed
qed

lemma writes_bind [intro]:
  fixes m1 :: "('s ostream, unit) op"
  assumes "writes xs m1" "writes ys m2"
  shows "writes (xs @ ys) (op_bind m1 (\<lambda>_. m2))"
  unfolding writes_def
proof (intro conjI allI impI)
  fix s :: "'s ostream"
  show "op_bind m1 (\<lambda>_. m2) s = (Some (), s\<lparr>bytes_written := size_add (bytes_written s) (length (xs @ ys))\<rparr>)"
    if "callback s = None" "bytes_written s < size_mod"
    using writes_sizing [OF assms(1) that] writes_sizing [OF assms(2), of "s\<lparr>bytes_written := size_add (bytes_written s) (length xs)\<rparr>"] that
    by (simp add: size_add_assoc) (simp add: size_add_def)
  fix f out cap assume s: "callback s = Some f" "sink f out cap" and room: "room_ok cap s"
    and fits: "bytes_written s + length (xs @ ys) < size_mod"
  obtain r1 t1 where t1: "m1 s = (r1, t1)" "stream_written out cap xs s r1 t1"
    using writes_sink [OF assms(1) s room] fits by auto
  show "\<exists>r t. op_bind m1 (\<lambda>_. m2) s = (r, t) \<and> stream_written out cap (xs @ ys) s r t"
  proof (cases r1)
    case None
    then show ?thesis using t1 by (auto simp: stream_written_def prefix_append split: if_splits)
  next
    case (Some u)
    then obtain r t where t: "m2 t1 = (r, t)" "stream_written out cap ys t1 r t"
      using writes_sink [OF assms(2) _ s(2), of t1] t1(2) s(1) fits by (auto simp: stream_written_def split: if_splits)
    show ?thesis using t t1 Some by (auto simp: stream_written_def split: if_splits)
  qed
qed

end
