(* ===== verification/PbWire.thy ===== *)
theory PbWire
  imports PbStream
begin

text \<open>
  The wire format of protocol buffers as nanopb reads and writes it: variable-length integers, zig-zag
  and fixed-width numbers, tags, strings, delimited submessages, skipping of unknown fields.
\<close>

section \<open>Writing\<close>

text \<open>The bytes that the \<open>while (value)\<close> loop stores.\<close>

function encode_varint_loop :: "u64 \<Rightarrow> bytes" where
  "encode_varint_loop v =
     (if v \<noteq> 0 then ucast ((v AND 0x7F) OR 0x80) # encode_varint_loop (drop_bit 7 v) else [])"
  by auto
termination
proof (relation "measure unat")
  fix v :: u64 assume "v \<noteq> 0"
  then have "0 < unat v" by (simp add: unat_gt_0)
  then show "(drop_bit 7 v, v) \<in> measure unat" by (simp add: unat_drop_bit_div)
qed simp

declare encode_varint_loop.simps [simp del]

definition pb_encode_varint :: "u64 \<Rightarrow> ('s ostream, unit) op" where
  "pb_encode_varint v =
     (if v \<le> 0x7F then pb_write [ucast v] 1
      else let buffer = encode_varint_loop v; i = length buffer
           in pb_write (buffer[i - 1 := buffer ! (i - 1) AND 0x7F]) i)"

text \<open>The argument is the bit pattern of an \<open>int64_t\<close>.\<close>

definition pb_encode_svarint :: "u64 \<Rightarrow> ('s ostream, unit) op" where
  "pb_encode_svarint v =
     (let zigzagged = (if sint v < 0 then NOT (push_bit 1 v) else push_bit 1 v)
      in pb_encode_varint zigzagged)"

definition pb_encode_fixed32 :: "u32 \<Rightarrow> ('s ostream, unit) op" where
  "pb_encode_fixed32 val =
     pb_write [ucast (val AND 0xFF), ucast (drop_bit 8 val AND 0xFF), ucast (drop_bit 16 val AND 0xFF),
               ucast (drop_bit 24 val AND 0xFF)] 4"

definition pb_encode_fixed64 :: "u64 \<Rightarrow> ('s ostream, unit) op" where
  "pb_encode_fixed64 val =
     pb_write [ucast (val AND 0xFF), ucast (drop_bit 8 val AND 0xFF), ucast (drop_bit 16 val AND 0xFF),
               ucast (drop_bit 24 val AND 0xFF), ucast (drop_bit 32 val AND 0xFF), ucast (drop_bit 40 val AND 0xFF),
               ucast (drop_bit 48 val AND 0xFF), ucast (drop_bit 56 val AND 0xFF)] 8"

text \<open>Wire types are the values of \<open>pb_wire_type_t\<close>; three bits of a tag can also be another number.\<close>

definition PB_WT_VARINT :: u32 where "PB_WT_VARINT = 0"
definition PB_WT_64BIT :: u32 where "PB_WT_64BIT = 1"
definition PB_WT_STRING :: u32 where "PB_WT_STRING = 2"
definition PB_WT_32BIT :: u32 where "PB_WT_32BIT = 5"

definition pb_encode_tag :: "u32 \<Rightarrow> u32 \<Rightarrow> ('s ostream, unit) op" where
  "pb_encode_tag wiretype field_number =
     (let tag = push_bit 3 (ucast field_number :: u64) OR ucast wiretype in pb_encode_varint tag)"

definition pb_encode_string :: "bytes \<Rightarrow> nat \<Rightarrow> ('s ostream, unit) op" where
  "pb_encode_string buffer sz = op_bind (pb_encode_varint (word_of_nat sz)) (\<lambda>_. pb_write buffer sz)"

text \<open>\<open>encode\<close> is \<open>pb_encode\<close> with the fields and the structure of the submessage.\<close>

definition pb_encode_submessage :: "('s ostream, unit) op \<Rightarrow> ('s ostream, unit) op" where
  "pb_encode_submessage encode stream =
     (case encode (PB_OSTREAM_SIZING (state stream)) of
        (None, substream) \<Rightarrow> (None, stream\<lparr>oerrmsg := oerrmsg substream\<rparr>)
      | (Some _, substream) \<Rightarrow>
          let sz = bytes_written substream in
          (case pb_encode_varint (word_of_nat sz) stream of
             (None, stream) \<Rightarrow> (None, stream)
           | (Some _, stream) \<Rightarrow>
               if callback stream = None then pb_write [] sz stream
               else if size_add (bytes_written stream) sz > max_size stream then oreturn_error ''stream full'' stream
               else
                 case encode (substream\<lparr>callback := callback stream, state := state stream, max_size := sz,
                                       bytes_written := 0, oerrmsg := None\<rparr>) of
                   (status, substream) \<Rightarrow>
                     let stream = stream\<lparr>bytes_written := size_add (bytes_written stream) (bytes_written substream),
                                         state := state substream, oerrmsg := oerrmsg substream\<rparr>
                     in if bytes_written substream \<noteq> sz then oreturn_error ''submsg size changed'' stream
                        else (status, stream)))"

section \<open>Reading\<close>

lemma readbyte_left: "pb_readbyte s = (Some b, t) \<Longrightarrow> bytes_left t < bytes_left s"
  by (auto simp: pb_readbyte_def ireturn_error_def split: if_splits prod.splits option.splits)

lemma read_left: "0 < n \<Longrightarrow> pb_read n s = (Some b, t) \<Longrightarrow> bytes_left t < bytes_left s"
  by (auto simp: pb_read_def pb_read_direct_def ireturn_error_def split: if_splits prod.splits option.splits)

lemma read1_left: "(Some b, t) = pb_read (Suc 0) s \<Longrightarrow> bytes_left t < bytes_left s"
  using read_left [of "Suc 0" s b t] by simp

text \<open>
  The loop over the bytes after the first. \<open>uint_fast8_t\<close> is 8 bits wide on the platform, so the bit
  position wraps around. The result is the number, the bit position and the last byte.
\<close>

function decode_varint32_loop :: "u8 \<Rightarrow> u32 \<Rightarrow> ('s istream, u32 \<times> u8 \<times> u8) op" where
  "decode_varint32_loop bitpos result stream =
     (case pb_readbyte stream of
        (None, stream) \<Rightarrow> (None, stream)
      | (Some byte, stream) \<Rightarrow>
          let sign_extension = (if bitpos < 63 then 0xFF else 0x01);
              overflow = bitpos \<ge> 32 \<and> byte AND 0x7F \<noteq> 0 \<and> (drop_bit 31 result = 0 \<or> byte \<noteq> sign_extension);
              result = (if bitpos \<ge> 32 then result else result OR push_bit (unat bitpos) (ucast (byte AND 0x7F)));
              bitpos = bitpos + 7
          in if overflow then ireturn_error ''varint overflow'' stream
             else if byte AND 0x80 \<noteq> 0 then decode_varint32_loop bitpos result stream
             else (Some (result, bitpos, byte), stream))"
  by pat_completeness auto
termination by (relation "measure (\<lambda>(_, _, s). bytes_left s)") (auto dest: readbyte_left sym)

declare decode_varint32_loop.simps [simp del]

text \<open>The second result tells whether \<open>*eof\<close> is set to true.\<close>

definition pb_decode_varint32_eof :: "'s istream \<Rightarrow> (u32 option \<times> bool) \<times> 's istream" where
  "pb_decode_varint32_eof stream =
     (case pb_readbyte stream of
        (None, stream) \<Rightarrow> ((None, bytes_left stream = 0), stream)
      | (Some byte, stream) \<Rightarrow>
          if byte AND 0x80 = 0 then ((Some (ucast byte), False), stream)
          else case decode_varint32_loop 7 (ucast (byte AND 0x7F)) stream of
                 (None, stream) \<Rightarrow> ((None, False), stream)
               | (Some (result, bitpos, byte), stream) \<Rightarrow>
                   if bitpos = 35 \<and> byte AND 0x70 \<noteq> 0
                   then (case ireturn_error ''varint overflow'' stream of (r, stream) \<Rightarrow> ((r, False), stream))
                   else ((Some result, False), stream))"

definition pb_decode_varint32 :: "('s istream, u32) op" where
  "pb_decode_varint32 stream = (case pb_decode_varint32_eof stream of ((r, _), stream) \<Rightarrow> (r, stream))"

function decode_varint_loop :: "u8 \<Rightarrow> u64 \<Rightarrow> ('s istream, u64) op" where
  "decode_varint_loop bitpos result stream =
     (if bitpos \<ge> 64 then ireturn_error ''varint overflow'' stream
      else case pb_readbyte stream of
             (None, stream) \<Rightarrow> (None, stream)
           | (Some byte, stream) \<Rightarrow>
               let result = result OR push_bit (unat bitpos) (ucast (byte AND 0x7F));
                   bitpos = bitpos + 7
               in if byte AND 0x80 \<noteq> 0 then decode_varint_loop bitpos result stream else (Some result, stream))"
  by pat_completeness auto
termination by (relation "measure (\<lambda>(_, _, s). bytes_left s)") (auto dest: readbyte_left sym)

declare decode_varint_loop.simps [simp del]

definition pb_decode_varint :: "('s istream, u64) op" where
  "pb_decode_varint = decode_varint_loop 0 0"

function pb_skip_varint :: "('s istream, unit) op" where
  "pb_skip_varint stream =
     (case pb_read 1 stream of
        (None, stream) \<Rightarrow> (None, stream)
      | (Some buf, stream) \<Rightarrow> if hd buf AND 0x80 \<noteq> 0 then pb_skip_varint stream else (Some (), stream))"
  by pat_completeness auto
termination by (relation "measure bytes_left") (auto dest: read1_left)

declare pb_skip_varint.simps [simp del]

definition pb_skip_string :: "('s istream, unit) op" where
  "pb_skip_string = op_bind pb_decode_varint32 (\<lambda>len. pb_read_null (unat len))"

text \<open>The wire type and the tag, and whether \<open>*eof\<close> is set.\<close>

definition pb_decode_tag :: "'s istream \<Rightarrow> ((u32 \<times> u32) option \<times> bool) \<times> 's istream" where
  "pb_decode_tag stream =
     (case pb_decode_varint32_eof stream of
        ((None, eof), stream) \<Rightarrow> ((None, eof), stream)
      | ((Some temp, eof), stream) \<Rightarrow>
          if temp = 0 then ((None, True), stream)
          else ((Some (temp AND 7, drop_bit 3 temp), eof), stream))"

definition pb_skip_field :: "u32 \<Rightarrow> ('s istream, unit) op" where
  "pb_skip_field wire_type =
     (if wire_type = PB_WT_VARINT then pb_skip_varint
      else if wire_type = PB_WT_64BIT then pb_read_null 8
      else if wire_type = PB_WT_STRING then pb_skip_string
      else if wire_type = PB_WT_32BIT then pb_read_null 4
      else ireturn_error ''invalid wire_type'')"

text \<open>The bytes of the value; a varint longer than \<open>max_size\<close> fails without a message.\<close>

function read_raw_varint :: "nat \<Rightarrow> nat \<Rightarrow> ('s istream, bytes) op" where
  "read_raw_varint sz max_sz stream =
     (let sz = sz + 1 in
      if sz > max_sz then (None, stream)
      else case pb_read 1 stream of
             (None, stream) \<Rightarrow> (None, stream)
           | (Some buf, stream) \<Rightarrow>
               if hd buf AND 0x80 \<noteq> 0
               then (case read_raw_varint sz max_sz stream of (r, stream) \<Rightarrow> (map_option (\<lambda>bs. hd buf # bs) r, stream))
               else (Some [hd buf], stream))"
  by pat_completeness auto
termination by (relation "measure (\<lambda>(_, _, s). bytes_left s)") (auto dest: read1_left)

declare read_raw_varint.simps [simp del]

definition read_raw_value :: "u32 \<Rightarrow> nat \<Rightarrow> ('s istream, bytes) op" where
  "read_raw_value wire_type max_sz =
     (if wire_type = PB_WT_VARINT then read_raw_varint 0 max_sz
      else if wire_type = PB_WT_64BIT then pb_read 8
      else if wire_type = PB_WT_32BIT then pb_read 4
      else ireturn_error ''invalid wire_type'')"

text \<open>The substream; what is left of the parent is its state after the call.\<close>

definition pb_make_string_substream :: "('s istream, 's istream) op" where
  "pb_make_string_substream stream =
     (case pb_decode_varint32 stream of
        (None, stream) \<Rightarrow> (None, stream)
      | (Some sz, stream) \<Rightarrow>
          if bytes_left stream < unat sz then ireturn_error ''parent stream too short'' stream
          else (Some (stream\<lparr>bytes_left := unat sz\<rparr>), stream\<lparr>bytes_left := bytes_left stream - unat sz\<rparr>))"

definition pb_close_string_substream :: "'s istream \<Rightarrow> ('s istream, unit) op" where
  "pb_close_string_substream substream stream =
     (case (if bytes_left substream \<noteq> 0 then pb_read_null (bytes_left substream) substream else (Some (), substream)) of
        (None, _) \<Rightarrow> (None, stream)
      | (Some _, substream) \<Rightarrow> (Some (), stream\<lparr>source := source substream, ierrmsg := ierrmsg substream\<rparr>))"

text \<open>\<open>pb_decode_delimited\<close> and \<open>pb_decode_delimited_noinit\<close>, for \<open>decode\<close> the call on the substream.\<close>

definition pb_decode_delimited :: "('s istream, 'a) op \<Rightarrow> ('s istream, 'a) op" where
  "pb_decode_delimited decode =
     op_bind pb_make_string_substream (\<lambda>substream stream.
       case decode substream of
         (status, substream) \<Rightarrow>
           (case pb_close_string_substream substream stream of
              (None, stream) \<Rightarrow> (None, stream)
            | (Some _, stream) \<Rightarrow> (status, stream)))"

definition pb_decode_svarint :: "('s istream, u64) op" where
  "pb_decode_svarint =
     op_bind pb_decode_varint (\<lambda>v. op_return (if v AND 1 \<noteq> 0 then NOT (drop_bit 1 v) else drop_bit 1 v))"

definition pb_decode_fixed32 :: "('s istream, u32) op" where
  "pb_decode_fixed32 =
     op_bind (pb_read 4) (\<lambda>bytes. op_return
       (ucast (bytes ! 0) OR push_bit 8 (ucast (bytes ! 1)) OR push_bit 16 (ucast (bytes ! 2)) OR push_bit 24 (ucast (bytes ! 3))))"

definition pb_decode_fixed64 :: "('s istream, u64) op" where
  "pb_decode_fixed64 =
     op_bind (pb_read 8) (\<lambda>bytes. op_return
       (ucast (bytes ! 0) OR push_bit 8 (ucast (bytes ! 1)) OR push_bit 16 (ucast (bytes ! 2)) OR push_bit 24 (ucast (bytes ! 3))
        OR push_bit 32 (ucast (bytes ! 4)) OR push_bit 40 (ucast (bytes ! 5)) OR push_bit 48 (ucast (bytes ! 6))
        OR push_bit 56 (ucast (bytes ! 7))))"

end
