(* ===== verification/PbVarint.thy ===== *)
theory PbVarint
  imports PbWire
begin

text \<open>
  What the integers of the wire format are, as numbers: the bytes of a varint, and that the readers of
  nanopb refine the parsers of these bytes.
\<close>

section \<open>Variable-length integers\<close>

text \<open>The canonical form: seven bits to a byte, low bits first, the top bit set on all but the last.\<close>

fun varint :: "nat \<Rightarrow> bytes" where
  "varint n = (if n < 128 then [word_of_nat n] else word_of_nat (n mod 128 + 128) # varint (n div 128))"

declare varint.simps [simp del]

lemma varint_nonempty [simp]: "varint n \<noteq> []"
  by (subst varint.simps) simp

lemma length_varint: "n < 128 ^ Suc k \<Longrightarrow> length (varint n) \<le> Suc k"
proof (induction k arbitrary: n)
  case 0
  then show ?case by (simp add: varint.simps [of n])
next
  case (Suc k)
  then have "n div 128 < 128 ^ Suc k" by (simp add: less_mult_imp_div_less mult.commute)
  then show ?case using Suc.IH [of "n div 128"] by (auto simp: varint.simps [of n])
qed

lemma length_varint_64: "n < 2 ^ 64 \<Longrightarrow> length (varint n) \<le> 10"
  using length_varint [of n 9] by simp

lemma byte_low7: "unat (b AND 0x7F :: u8) = unat b mod 128"
  unfolding and_mask_take_bit by (simp add: unat_take_bit_mod)

lemma byte_cont: "(b :: u8) AND 0x80 = 0 \<longleftrightarrow> unat b < 128"
  using high_bit_byte [of b] by linarith

lemma byte_set_cont: "unat ((b AND 0x7F) OR 0x80 :: u8) = unat b mod 128 + 128"
  using unat_or_low_bits [of "0x80 :: u8" 1 7 "b AND 0x7F"] by (simp add: byte_low7 or.commute)

section \<open>Writing\<close>

lemma ucast_low7_cont: "ucast ((v AND 0x7F) OR 0x80 :: u64) = (word_of_nat (unat v mod 128 + 128) :: u8)"
proof -
  have "ucast ((v AND 0x7F) OR 0x80 :: u64) = ((ucast v AND 0x7F) OR 0x80 :: u8)"
    by (rule bit_word_eqI) (auto simp: bit_simps)
  moreover have "unat (ucast v :: u8) mod 128 = unat v mod 128" by (simp add: unat_ucast_mod mod_mod_cancel)
  ultimately show ?thesis using byte_set_cont [of "ucast v"] by (metis eq_word_of_natI)
qed

lemma encode_varint_loop_eq:
  "v \<noteq> 0 \<Longrightarrow> encode_varint_loop v \<noteq> [] \<and>
    (encode_varint_loop v)[length (encode_varint_loop v) - 1 := encode_varint_loop v ! (length (encode_varint_loop v) - 1) AND 0x7F]
    = varint (unat v)"
proof (induction v rule: encode_varint_loop.induct)
  case (1 v)
  let ?b = "ucast ((v AND 0x7F) OR 0x80) :: u8" and ?r = "encode_varint_loop (drop_bit 7 v)"
  have step: "encode_varint_loop v = ?b # ?r" using 1(2) by (simp add: encode_varint_loop.simps)
  have d: "unat (drop_bit 7 v) = unat v div 128" by (simp add: unat_drop_bit_div)
  show ?case
  proof (cases "drop_bit 7 v = 0")
    case True
    then have "unat v < 128" using d by (simp add: div_eq_0_iff)
    moreover have "?b AND 0x7F = word_of_nat (unat v)"
      unfolding ucast_low7_cont by (rule eq_word_of_natI) (use \<open>unat v < 128\<close> in \<open>simp add: byte_low7 unat_of_nat del: of_nat_add\<close>)
    ultimately show ?thesis
      using True step by (simp add: encode_varint_loop.simps [of 0] varint.simps [of "unat v"])
  next
    case False
    then have "\<not> unat v < 128" using d by (auto simp: word_unat_eq_iff)
    moreover have "?r \<noteq> []" "?r[length ?r - 1 := ?r ! (length ?r - 1) AND 0x7F] = varint (unat v div 128)"
      using 1 False d by auto
    ultimately show ?thesis
      unfolding step by (cases ?r) (simp_all add: varint.simps [of "unat v"] ucast_low7_cont)
  qed
qed

lemma writes_varint [intro]: "writes (varint (unat v)) (pb_encode_varint v)"
proof (cases "v \<le> 0x7F")
  case True
  then have "unat v < 128" by (simp add: word_le_nat_alt)
  then have "varint (unat v) = [ucast v]"
    by (subst varint.simps) (simp add: word_unat_eq_iff unat_ucast_mod unat_of_nat)
  then show ?thesis using True by (auto simp: pb_encode_varint_def size_mod_def)
next
  case False
  then have "v \<noteq> 0" by auto
  note l = encode_varint_loop_eq [OF this]
  have "length (varint (unat v)) = length (encode_varint_loop v)" using l by (metis length_list_update)
  moreover have "length (varint (unat v)) \<le> 10" by (rule length_varint_64) simp
  ultimately show ?thesis
    using False l writes_pb_write [of "varint (unat v)" "length (encode_varint_loop v)"]
    by (simp add: pb_encode_varint_def Let_def size_mod_def)
qed

section \<open>Reading\<close>

text \<open>The bytes up to and including the first without the top bit, and the number in them.\<close>

fun take_varint :: "(bytes, bytes) op" where
  "take_varint [] = (None, [])"
| "take_varint (b # bs) =
     (if unat b < 128 then (Some [b], bs)
      else case take_varint bs of (Some w, rest) \<Rightarrow> (Some (b # w), rest) | (None, rest) \<Rightarrow> (None, rest))"

fun leb :: "bytes \<Rightarrow> nat" where
  "leb [] = 0"
| "leb (b # w) = unat b mod 128 + 128 * leb w"

lemma take_varint_varint: "take_varint (varint n @ rest) = (Some (varint n), rest)"
proof (induction n rule: varint.induct)
  case (1 n)
  have "unat (word_of_nat (n mod 128 + 128) :: u8) = n mod 128 + 128"
    using mod_less_divisor [of 128 n] by (simp del: of_nat_add)
  then show ?case using 1 by (simp add: varint.simps [of n] del: of_nat_add)
qed

lemma leb_varint: "leb (varint n) = n"
proof (induction n rule: varint.induct)
  case (1 n)
  have "unat (word_of_nat (n mod 128 + 128) :: u8) = n mod 128 + 128"
    using mod_less_divisor [of 128 n] by (simp del: of_nat_add)
  then show ?case using 1 by (simp add: varint.simps [of n] del: of_nat_add)
qed

lemma take_varint_parts: "take_varint bs = (Some w, rest) \<Longrightarrow> bs = w @ rest \<and> w \<noteq> []"
  by (induction bs arbitrary: w) (auto split: if_splits prod.splits option.splits)

text \<open>What a run of the loop returns after \<open>k\<close> bytes of value \<open>R\<close>.\<close>

definition varint_from :: "nat \<Rightarrow> nat \<Rightarrow> (bytes, u64) op" where
  "varint_from k R bs =
     (case take_varint bs of
        (Some w, rest) \<Rightarrow> if k + length w \<le> 10 then (Some (word_of_nat (R + 128 ^ k * leb w)), rest) else (None, rest)
      | (None, rest) \<Rightarrow> (None, rest))"

lemma push7_or:
  assumes "R < 2 ^ n"
  shows "word_of_nat R OR push_bit n (ucast (b AND 0x7F :: u8)) = (word_of_nat (R + 2 ^ n * (unat b mod 128)) :: 'a::len word)"
proof -
  have low: "(word_of_nat R :: 'a word) = take_bit n (word_of_nat R)"
    using assms by (simp add: take_bit_of_nat flip: take_bit_nat_eq_self) (metis of_nat_take_bit take_bit_nat_eq_self take_bit_of_nat)
  have "word_of_nat R OR push_bit n (ucast (b AND 0x7F)) = word_of_nat R + push_bit n (ucast (b AND 0x7F) :: 'a word)"
    by (subst low, subst (2) low, rule disjunctive_add_eq_or [symmetric]) (auto simp: bit_eq_iff bit_simps)
  moreover have e: "ucast (b AND 0x7F) = (word_of_nat (unat b mod 128) :: 'a word)"
    by (simp flip: byte_low7)
  ultimately show ?thesis unfolding e by (simp add: push_bit_eq_mult mult.commute)
qed

lemma decode_varint_loop_reads:
  assumes "k \<le> 10" "R < 128 ^ k"
  shows "stream_reads (decode_varint_loop (word_of_nat (7 * k)) (word_of_nat R) :: ('s istream, u64) op) (varint_from k R)"
  using assms
proof (induction "10 - k" arbitrary: k R)
  case 0
  then have k: "k = 10" by simp
  have "decode_varint_loop (word_of_nat (7 * k)) (word_of_nat R) = (ireturn_error ''varint overflow'' :: ('s istream, u64) op)"
    by (rule ext, subst decode_varint_loop.simps) (simp add: k word_le_nat_alt)
  moreover have "stream_reads (ireturn_error ''varint overflow'' :: ('s istream, u64) op) (varint_from k R)"
    by (rule stream_reads_cong [OF stream_reads_fail])
      (auto simp: varint_from_def op_simps k split: prod.splits option.splits dest: take_varint_parts)
  ultimately show ?case by simp
next
  case (Suc m)
  then have k: "k < 10" by simp
  define next_R where "next_R = (\<lambda>b :: u8. R + 128 ^ k * (unat b mod 128))"
  have pow: "(128 :: nat) ^ k = 2 ^ (7 * k)" by (simp add: power_mult)
  have R': "next_R b < 128 ^ Suc k" for b
  proof -
    have "128 ^ k * (unat b mod 128) \<le> 128 ^ k * (127 :: nat)" by (rule mult_le_mono2) (simp add: less_Suc_eq_le [symmetric])
    then show ?thesis using Suc.prems(2) unfolding next_R_def power_Suc by linarith
  qed
  have bp: "unat (word_of_nat (7 * k) :: u8) = 7 * k" using k by (simp add: unat_of_nat del: of_nat_mult)
  have step: "decode_varint_loop (word_of_nat (7 * k)) (word_of_nat R) =
     op_bind pb_readbyte (\<lambda>b. if unat b < 128 then op_return (word_of_nat (next_R b))
       else (decode_varint_loop (word_of_nat (7 * Suc k)) (word_of_nat (next_R b)) :: ('s istream, u64) op))"
  proof
    fix s :: "'s istream"
    obtain r t where p: "pb_readbyte s = (r, t)" by fastforce
    have "\<not> (word_of_nat (7 * k) :: u8) \<ge> 64" using bp k by (simp add: word_le_nat_alt)
    moreover have "(word_of_nat (7 * k) :: u8) + 7 = word_of_nat (7 * Suc k)" by simp
    moreover have "(word_of_nat R :: u64) OR push_bit (7 * k) (ucast (b AND 0x7F)) = word_of_nat (next_R b)" for b :: u8
      using push7_or [of R "7 * k" b, where 'a = 64] Suc.prems(2) by (simp only: pow next_R_def)
    ultimately show "decode_varint_loop (word_of_nat (7 * k)) (word_of_nat R) s = op_bind pb_readbyte (\<lambda>b. if unat b < 128
       then op_return (word_of_nat (next_R b)) else decode_varint_loop (word_of_nat (7 * Suc k)) (word_of_nat (next_R b))) s"
      by (subst decode_varint_loop.simps)
        (cases r; simp only: p bp if_False Let_def op_bind_def byte_cont [symmetric] op_return_def prod.case option.case simp_thms split: if_split, blast?)
  qed
  have "stream_reads (decode_varint_loop (word_of_nat (7 * k)) (word_of_nat R) :: ('s istream, u64) op)
     (op_bind take_byte (\<lambda>b. if unat b < 128 then op_return (word_of_nat (next_R b)) else varint_from (Suc k) (next_R b)))"
    unfolding step
  proof (rule stream_reads_bind [OF readbyte_reads])
    fix b :: u8
    have "stream_reads (decode_varint_loop (word_of_nat (7 * Suc k)) (word_of_nat (next_R b)) :: ('s istream, u64) op) (varint_from (Suc k) (next_R b))"
      by (rule Suc.hyps(1)) (use Suc.hyps(2) k R' in auto)
    then show "stream_reads (if unat b < 128 then op_return (word_of_nat (next_R b))
        else decode_varint_loop (word_of_nat (7 * Suc k)) (word_of_nat (next_R b)) :: ('s istream, u64) op)
      (if unat b < 128 then op_return (word_of_nat (next_R b)) else varint_from (Suc k) (next_R b))"
      by (simp add: stream_reads_return)
  qed
  then show ?case
  proof (rule stream_reads_cong)
    fix bs :: bytes and x rest
    have eq: "fst (op_bind take_byte (\<lambda>b. if unat b < 128 then op_return (word_of_nat (next_R b)) else varint_from (Suc k) (next_R b)) bs) = fst (varint_from k R bs)
      \<and> (fst (varint_from k R bs) \<noteq> None \<longrightarrow> op_bind take_byte (\<lambda>b. if unat b < 128 then op_return (word_of_nat (next_R b)) else varint_from (Suc k) (next_R b)) bs = varint_from k R bs)"
      using k by (cases bs) (auto simp: take_byte_def varint_from_def op_bind_def op_return_def next_R_def algebra_simps split: prod.split option.split)
    then show "fst (op_bind take_byte (\<lambda>b. if unat b < 128 then op_return (word_of_nat (next_R b)) else varint_from (Suc k) (next_R b)) bs) = fst (varint_from k R bs)" by blast
    show "varint_from k R bs = (Some x, rest)" if "op_bind take_byte (\<lambda>b. if unat b < 128 then op_return (word_of_nat (next_R b)) else varint_from (Suc k) (next_R b)) bs = (Some x, rest)"
      using eq that by (metis fst_conv option.distinct(1))
  qed
qed

definition wire_varint :: "(bytes, u64) op" where
  "wire_varint = varint_from 0 0"

lemma decode_varint_reads [intro]: "stream_reads pb_decode_varint wire_varint"
  unfolding pb_decode_varint_def wire_varint_def using decode_varint_loop_reads [of 0 0] by simp

lemma wire_varint_iff:
  "wire_varint bs = (Some v, rest) \<longleftrightarrow> (\<exists>w. take_varint bs = (Some w, rest) \<and> length w \<le> 10 \<and> v = word_of_nat (leb w))"
  by (auto simp: wire_varint_def varint_from_def split: prod.splits option.splits if_splits)

lemma wire_varint_put: "wire_varint (varint (unat v) @ rest) = (Some v, rest)"
  using length_varint_64 [of "unat v"] by (simp add: wire_varint_iff take_varint_varint leb_varint)

subsection \<open>Skipping\<close>

definition skip_varint :: "(bytes, unit) op" where
  "skip_varint = op_bind take_varint (\<lambda>_. op_return ())"

lemma skip_varint_reads [intro]: "stream_reads (pb_skip_varint :: ('s istream, unit) op) skip_varint"
proof (rule stream_readsI)
  have step: "pb_skip_varint s = op_bind (pb_read 1) (\<lambda>buf. if hd buf AND 0x80 \<noteq> 0 then pb_skip_varint else op_return ()) s" for s :: "'s istream"
    by (subst pb_skip_varint.simps) (auto simp: op_bind_def op_simps split: prod.split option.split)
  have nil: "\<exists>t. pb_skip_varint s = (None, t)" if h: "holds behind s []" for s :: "'s istream" and behind
  proof -
    obtain t where "pb_read 1 s = (None, t)"
      using stream_reads_None [OF read_reads h, of 1 "[]"] by (auto simp: take_bytes_def)
    then show ?thesis by (subst step) simp
  qed
  have cons: "\<exists>t. holds behind t bs \<and> ierrmsg t = ierrmsg s \<and> pb_skip_varint s = (if 128 \<le> unat b then pb_skip_varint t else (Some (), t))"
    if h: "holds behind s (b # bs)" for s :: "'s istream" and behind b bs
  proof -
    obtain t where "pb_read 1 s = (Some [b], t)" "holds behind t bs" "ierrmsg t = ierrmsg s"
      using stream_reads_Some [OF read_reads h, of 1 "[b]" bs] by (auto simp: take_bytes_def)
    moreover from this have "pb_skip_varint s = (if hd [b] AND 0x80 \<noteq> 0 then pb_skip_varint else op_return ()) t" by (subst step) simp
    ultimately show ?thesis using high_bit_byte [of b] by (intro exI [of _ t]) (simp add: op_simps)
  qed
  fix s :: "'s istream" and behind bs x rest
  show "\<exists>t. pb_skip_varint s = (Some x, t) \<and> holds behind t rest \<and> ierrmsg t = ierrmsg s"
    if "holds behind s bs" "skip_varint bs = (Some x, rest)"
    using that
  proof (induction bs arbitrary: s)
    case (Cons b bs)
    then show ?case
      using cons [OF Cons.prems(1)]
      by (fastforce simp: skip_varint_def op_bind_def op_simps split: if_splits prod.splits option.splits)
  qed (simp add: skip_varint_def op_bind_def op_simps)
  show "\<exists>t. pb_skip_varint s = (None, t)" if "holds behind s bs" "skip_varint bs = (None, rest)"
    using that
  proof (induction bs arbitrary: s)
    case Nil
    then show ?case using nil by blast
  next
    case (Cons b bs)
    then show ?case
      using cons [OF Cons.prems(1)]
      by (fastforce simp: skip_varint_def op_bind_def op_simps split: if_splits prod.splits option.splits)
  qed
qed

subsection \<open>32-bit integers\<close>

text \<open>The same reader on a list of bytes.\<close>

fun varint32_tail :: "u8 \<Rightarrow> u32 \<Rightarrow> (bytes, u32 \<times> u8 \<times> u8) op" where
  "varint32_tail bitpos result [] = (None, [])"
| "varint32_tail bitpos result (byte # bs) =
     (let sign_extension = (if bitpos < 63 then 0xFF else 0x01);
          overflow = bitpos \<ge> 32 \<and> byte AND 0x7F \<noteq> 0 \<and> (drop_bit 31 result = 0 \<or> byte \<noteq> sign_extension);
          result = (if bitpos \<ge> 32 then result else result OR push_bit (unat bitpos) (ucast (byte AND 0x7F)));
          bitpos = bitpos + 7
      in if overflow then (None, bs)
         else if byte AND 0x80 \<noteq> 0 then varint32_tail bitpos result bs
         else (Some (result, bitpos, byte), bs))"

definition wire_varint32 :: "(bytes, u32) op" where
  "wire_varint32 =
     op_bind take_byte (\<lambda>byte.
       if byte AND 0x80 = 0 then op_return (ucast byte)
       else op_bind (varint32_tail 7 (ucast (byte AND 0x7F))) (\<lambda>(result, bitpos, byte).
         if bitpos = 35 \<and> byte AND 0x70 \<noteq> 0 then op_fail else op_return result))"

lemma varint32_loop_step:
  fixes p :: u8 and r :: u32
  assumes "pb_readbyte s = (Some b, t)"
  defines "overflow \<equiv> 32 \<le> p \<and> b AND 0x7F \<noteq> 0 \<and> (drop_bit 31 r = 0 \<or> b \<noteq> (if p < 63 then 0xFF else 0x01))"
    and "r' \<equiv> if 32 \<le> p then r else r OR push_bit (unat p) (ucast (b AND 0x7F))"
  shows "decode_varint32_loop p r s =
      (if overflow then ireturn_error ''varint overflow'' t
       else if b AND 0x80 \<noteq> 0 then decode_varint32_loop (p + 7) r' t else (Some (r', p + 7, b), t))"
    and "varint32_tail p r (b # bs) =
      (if overflow then (None, bs)
       else if b AND 0x80 \<noteq> 0 then varint32_tail (p + 7) r' bs else (Some (r', p + 7, b), bs))"
  by (subst decode_varint32_loop.simps, simp only: assms(1) Let_def overflow_def r'_def prod.case option.case)
    (simp only: varint32_tail.simps Let_def overflow_def r'_def)

lemma varint32_tail_reads: "stream_reads (decode_varint32_loop p r :: ('s istream, u32 \<times> u8 \<times> u8) op) (varint32_tail p r)"
proof (rule stream_readsI)
  fix s :: "'s istream" and behind bs x rest
  have nil: "\<exists>t. decode_varint32_loop p r s = (None, t)" if h: "holds behind s []" for s :: "'s istream" and behind p r
  proof -
    obtain t where "pb_readbyte s = (None, t)"
      using stream_reads_None [OF readbyte_reads h, of "[]"] by (auto simp: take_byte_def)
    then show ?thesis by (subst decode_varint32_loop.simps) simp
  qed
  have cons: "\<exists>t. pb_readbyte s = (Some b, t) \<and> holds behind t bs \<and> ierrmsg t = ierrmsg s" if h: "holds behind s (b # bs)"
    for s :: "'s istream" and behind b bs
    using stream_reads_Some [OF readbyte_reads h, of b bs] by (auto simp: take_byte_def)
  show "\<exists>t. decode_varint32_loop p r s = (Some x, t) \<and> holds behind t rest \<and> ierrmsg t = ierrmsg s"
    if "holds behind s bs" "varint32_tail p r bs = (Some x, rest)"
    using that
  proof (induction bs arbitrary: s p r)
    case (Cons b bs)
    obtain t where t: "pb_readbyte s = (Some b, t)" "holds behind t bs" "ierrmsg t = ierrmsg s"
      using cons [OF Cons.prems(1)] by blast
    show ?case
      using Cons.prems(2) Cons.IH [OF t(2)] t(2,3) unfolding varint32_loop_step [OF t(1)] by (metis option.distinct(1) prod.inject)
  qed simp
  show "\<exists>t. decode_varint32_loop p r s = (None, t)" if "holds behind s bs" "varint32_tail p r bs = (None, rest)"
    using that
  proof (induction bs arbitrary: s p r)
    case Nil
    then show ?case using nil by blast
  next
    case (Cons b bs)
    obtain t where t: "pb_readbyte s = (Some b, t)" "holds behind t bs"
      using cons [OF Cons.prems(1)] by blast
    show ?case
      using Cons.prems(2) Cons.IH [OF t(2)] unfolding varint32_loop_step [OF t(1)] ireturn_error_def by (metis option.distinct(1) prod.inject)
  qed
qed

lemma decode_varint32_eq:
  "pb_decode_varint32 =
     op_bind pb_readbyte (\<lambda>byte.
       if byte AND 0x80 = 0 then op_return (ucast byte)
       else op_bind (decode_varint32_loop 7 (ucast (byte AND 0x7F))) (\<lambda>(result, bitpos, byte).
         if bitpos = 35 \<and> byte AND 0x70 \<noteq> 0 then ireturn_error ''varint overflow'' else op_return result))"
  by (rule ext)
    (auto simp: pb_decode_varint32_def pb_decode_varint32_eof_def op_bind_def op_return_def split: prod.split option.split if_split)

lemma decode_varint32_reads [intro]: "stream_reads pb_decode_varint32 wire_varint32"
  unfolding decode_varint32_eq wire_varint32_def
  by (intro stream_reads_bind readbyte_reads) (auto intro!: stream_reads_bind varint32_tail_reads split: prod.split)

text \<open>Bytes of the canonical form, and the state of the 32-bit reader after \<open>k\<close> of them.\<close>

lemma varint_last: "n < 128 \<Longrightarrow> varint n = [word_of_nat n]"
  by (simp add: varint.simps)

lemma varint_more: "128 \<le> n \<Longrightarrow> varint n = word_of_nat (n mod 128 + 128) # varint (n div 128)"
  by (simp add: varint.simps [of n])

lemma unat_septet_cont [simp]: "unat (word_of_nat (n mod 128 + 128) :: u8) = n mod 128 + 128"
  using mod_less_divisor [of 128 n] by (simp del: of_nat_add)

lemma septet_bits:
  "n < 128 \<Longrightarrow> (word_of_nat n :: u8) AND 0x80 = 0"
  "(word_of_nat (n mod 128 + 128) :: u8) AND 0x80 \<noteq> 0"
  by (simp_all add: byte_cont unat_of_nat del: of_nat_add)

lemma low7_of_nat:
  "n < 128 \<Longrightarrow> unat (word_of_nat n AND 0x7F :: u8) = n"
  "unat (word_of_nat (n mod 128 + 128) AND 0x7F :: u8) = n mod 128"
  by (simp_all add: byte_low7 unat_of_nat del: of_nat_add)

lemma low7_zero: "b AND 0x7F = 0 \<longleftrightarrow> unat b mod 128 = 0" for b :: u8
  using byte_low7 [of b] by (metis unat_0 word_unat_eq_iff)

definition bit_position :: "nat \<Rightarrow> u8" where
  "bit_position k = word_of_nat (7 * k)"

lemma bit_position_simps [simp]:
  "bit_position k + 7 = bit_position (Suc k)"
  "k \<le> 10 \<Longrightarrow> unat (bit_position k) = 7 * k"
  by (simp_all add: bit_position_def unat_of_nat del: of_nat_mult)

lemma bit_position_cmp:
  "k \<le> 10 \<Longrightarrow> bit_position k < 63 \<longleftrightarrow> k < 9" "k \<le> 10 \<Longrightarrow> 32 \<le> bit_position k \<longleftrightarrow> 5 \<le> k"
  "k \<le> 10 \<Longrightarrow> bit_position k = 35 \<longleftrightarrow> k = 5"
  by (auto simp: word_less_nat_alt word_le_nat_alt word_unat_eq_iff)

lemma div_mod_septet: "v mod 128 ^ k + 2 ^ (7 * k) * (v div 128 ^ k mod 128) = v mod 128 ^ Suc k" for v :: nat
proof -
  have "(2 :: nat) ^ (7 * k) = 128 ^ k" by (simp add: power_mult)
  then show ?thesis using mod_mult2_eq [of v "128 ^ k" 128] by (simp add: mult.commute add.commute)
qed

lemma varint32_low_step:
  assumes "k < 5"
  shows "128 ^ k \<le> v \<Longrightarrow> v < 128 ^ Suc k \<Longrightarrow>
      varint32_tail (bit_position k) (word_of_nat (v mod 128 ^ k)) (varint (v div 128 ^ k) @ rest)
      = (Some (word_of_nat v, bit_position (Suc k), word_of_nat (v div 128 ^ k)), rest)"
    and "128 ^ Suc k \<le> v \<Longrightarrow>
      varint32_tail (bit_position k) (word_of_nat (v mod 128 ^ k)) (varint (v div 128 ^ k) @ rest)
      = varint32_tail (bit_position (Suc k)) (word_of_nat (v mod 128 ^ Suc k)) (varint (v div 128 ^ Suc k) @ rest)"
proof -
  have nlow: "\<not> 32 \<le> bit_position k" and pos: "unat (bit_position k) = 7 * k" using assms by (simp_all add: bit_position_cmp)
  have or: "(word_of_nat (v mod 128 ^ k) :: u32) OR push_bit (7 * k) (ucast (b AND 0x7F)) = word_of_nat (v mod 128 ^ Suc k)"
    if "unat b mod 128 = v div 128 ^ k mod 128" for b :: u8
  proof -
    have "v mod 128 ^ k < 2 ^ (7 * k)" by (simp add: power_mult)
    then show ?thesis using push7_or [of "v mod 128 ^ k" "7 * k" b, where 'a = 32] div_mod_septet [of v k] that by simp
  qed
  show "varint32_tail (bit_position k) (word_of_nat (v mod 128 ^ k)) (varint (v div 128 ^ k) @ rest)
      = (Some (word_of_nat v, bit_position (Suc k), word_of_nat (v div 128 ^ k)), rest)" if "128 ^ k \<le> v" "v < 128 ^ Suc k"
  proof -
    have m: "v div 128 ^ k < 128" using that(2) by (simp add: less_mult_imp_div_less mult.commute)
    then have "unat (word_of_nat (v div 128 ^ k) :: u8) mod 128 = v div 128 ^ k mod 128" by (simp add: unat_of_nat)
    from or [OF this] show ?thesis
      using that(2) m septet_bits(1) [OF m] by (simp add: varint_last nlow pos Let_def)
  qed
  show "varint32_tail (bit_position k) (word_of_nat (v mod 128 ^ k)) (varint (v div 128 ^ k) @ rest)
      = varint32_tail (bit_position (Suc k)) (word_of_nat (v mod 128 ^ Suc k)) (varint (v div 128 ^ Suc k) @ rest)" if "128 ^ Suc k \<le> v"
  proof -
    have m: "128 \<le> v div 128 ^ k" using that by (simp add: less_eq_div_iff_mult_less_eq)
    have d: "v div 128 ^ k div 128 = v div 128 ^ Suc k" by (simp add: div_mult2_eq [symmetric] mult.commute)
    let ?b = "word_of_nat (v div 128 ^ k mod 128 + 128) :: u8"
    have "unat ?b mod 128 = v div 128 ^ k mod 128" by (simp del: of_nat_add)
    from or [OF this] show ?thesis
      unfolding varint_more [OF m] d using septet_bits(2) [of "v div 128 ^ k"]
      by (simp add: nlow pos Let_def del: of_nat_add power_Suc)
  qed
qed

lemma varint32_high_fails:
  assumes "5 \<le> k" "0 < m" "m < 2 ^ (63 - 7 * k)" "k \<le> 9"
  shows "fst (varint32_tail (bit_position k) r (varint m @ rest)) = None"
  using assms
proof (induction m arbitrary: k rule: varint.induct)
  case (1 m)
  have k: "k \<le> 8" using "1.prems" by (cases "k = 9") auto
  have pos: "bit_position k < 63" "32 \<le> bit_position k" using k "1.prems" by (simp_all add: bit_position_cmp)
  show ?case
  proof (cases "m < 128")
    case True
    have "(word_of_nat m :: u8) AND 0x7F \<noteq> 0" using True "1.prems" by (simp add: low7_zero unat_of_nat)
    moreover have "(word_of_nat m :: u8) \<noteq> 0xFF" using True by (simp add: word_unat_eq_iff unat_of_nat)
    ultimately show ?thesis using True pos by (simp add: varint_last)
  next
    case False
    have "m div 128 < 2 ^ (63 - 7 * Suc k)"
    proof -
      have e: "63 - 7 * k = 7 + (63 - 7 * Suc k)" using k by simp
      have "m < 2 ^ 7 * 2 ^ (63 - 7 * Suc k)" using "1.prems"(3) unfolding e power_add .
      then show ?thesis by (simp add: less_mult_imp_div_less mult.commute)
    qed
    then have "fst (varint32_tail (bit_position (Suc k)) r (varint (m div 128) @ rest)) = None"
      using False "1.prems" k by (intro "1.IH") auto
    moreover have "128 \<le> m" using False by simp
    ultimately show ?thesis
      unfolding varint_more [OF \<open>128 \<le> m\<close>] using pos septet_bits(2) [of m] "1.prems"(4)
      by (simp add: Let_def del: of_nat_add)
  qed
qed

lemma varint32_high_accepts:
  assumes "5 \<le> k" "k \<le> 9" "m = 2 ^ (64 - 7 * k) - 1" "drop_bit 31 r \<noteq> 0"
  shows "varint32_tail (bit_position k) r (varint m @ rest) = (Some (r, bit_position 10, 1), rest)"
  using assms
proof (induction "9 - k" arbitrary: k m)
  case 0
  then show ?case by (simp add: varint_last bit_position_cmp)
next
  case (Suc j)
  then have k: "k < 9" by simp
  then have e: "64 - 7 * k = 7 + (64 - 7 * Suc k)" by simp
  define q :: nat where "q = 2 ^ (64 - 7 * Suc k)"
  have "1 \<le> q" by (simp add: q_def)
  have m: "m = 128 * q - 1" unfolding Suc.prems(3) e q_def by (simp add: power_add)
  then have "m = 128 * (q - 1) + 127" using \<open>1 \<le> q\<close> by (simp add: algebra_simps)
  then have parts: "m mod 128 = 127" "m div 128 = q - 1" by simp_all
  have "1 < q" using k unfolding q_def by (intro one_less_power) auto
  then have "128 \<le> m" unfolding m by simp
  moreover have "varint32_tail (bit_position (Suc k)) r (varint (m div 128) @ rest) = (Some (r, bit_position 10, 1), rest)"
  proof (rule Suc.hyps(1))
    show "m div 128 = 2 ^ (64 - 7 * Suc k) - 1" by (simp only: parts q_def)
  qed (use Suc.prems Suc.hyps(2) k in auto)
  ultimately show ?case
    using Suc.prems k parts(1) by (simp add: varint_more Let_def bit_position_cmp)
qed

text \<open>Exactly what the 32-bit reader makes of a canonical number.\<close>

lemma wire_varint32_unfold:
  assumes "128 \<le> v"
  shows "wire_varint32 (varint v @ rest) =
    op_bind (varint32_tail (bit_position 1) (word_of_nat (v mod 128 ^ 1))) (\<lambda>(result, bitpos, byte).
         if bitpos = 35 \<and> byte AND 0x70 \<noteq> 0 then op_fail else op_return result) (varint (v div 128 ^ 1) @ rest)"
proof -
  have "ucast (word_of_nat (v mod 128 + 128) AND 0x7F :: u8) = (word_of_nat (v mod 128) :: u32)"
    by (rule eq_word_of_natI) (simp add: low7_of_nat del: of_nat_add)
  moreover have "bit_position 1 = 7" by (simp add: bit_position_def)
  ultimately show ?thesis
    using septet_bits(2) [of v] by (simp add: wire_varint32_def varint_more [OF assms] take_byte_def del: of_nat_add)
qed

lemma varint32_low_steps:
  assumes "1 \<le> k" "k \<le> 5" "128 ^ k \<le> v"
  shows "varint32_tail (bit_position 1) (word_of_nat (v mod 128 ^ 1)) (varint (v div 128 ^ 1) @ rest)
    = varint32_tail (bit_position k) (word_of_nat (v mod 128 ^ k)) (varint (v div 128 ^ k) @ rest)"
  using assms
proof (induction k rule: dec_induct)
  case base
  then show ?case by simp
next
  case (step j)
  then have "128 ^ j \<le> v" using order_trans [of "128 ^ j" "128 ^ Suc j" v] by simp
  then show ?case using step varint32_low_step(2) [of j v rest] by simp
qed

lemma wire_varint32_small:
  assumes "v < 2 ^ 32"
  shows "wire_varint32 (varint v @ rest) = (Some (word_of_nat v), rest)"
proof (cases "v < 128")
  case True
  have "ucast (word_of_nat v :: u8) = (word_of_nat v :: u32)" using True by (intro eq_word_of_natI) (simp add: unat_of_nat)
  then show ?thesis using True septet_bits(1) [OF True] by (simp add: wire_varint32_def varint_last take_byte_def op_simps)
next
  case False
  define k where "k = (if v < 128 ^ 2 then 1 else if v < 128 ^ 3 then 2 else if v < 128 ^ 4 then 3 else 4 :: nat)"
  have k: "1 \<le> k" "k < 5" "128 ^ k \<le> v" "v < 128 ^ Suc k" using False assms by (auto simp: k_def)
  have "varint32_tail (bit_position 1) (word_of_nat (v mod 128 ^ 1)) (varint (v div 128 ^ 1) @ rest)
      = (Some (word_of_nat v, bit_position (Suc k), word_of_nat (v div 128 ^ k)), rest)"
    using varint32_low_steps [of k v rest] varint32_low_step(1) [OF k(2-4), of rest] k by simp
  moreover have "\<not> (bit_position (Suc k) = 35 \<and> (word_of_nat (v div 128 ^ k) :: u8) AND 0x70 \<noteq> 0)"
  proof (cases "k = 4")
    case True
    then have "v div 128 ^ k < 16" using assms by (auto simp: less_mult_imp_div_less)
    moreover have "\<forall>n \<in> set [0..<16]. (word_of_nat n :: u8) AND 0x70 = 0" by code_simp
    ultimately show ?thesis by simp
  next
    case False
    then show ?thesis using k by (simp add: bit_position_cmp)
  qed
  ultimately show ?thesis
    using False by (subst wire_varint32_unfold) (auto simp: op_bind_def op_return_def)
qed

lemma wire_varint32_large:
  assumes "2 ^ 32 \<le> v" "v < 2 ^ 63"
  shows "fst (wire_varint32 (varint v @ rest)) = None"
proof (cases "v < 128 ^ 5")
  case True
  have "varint32_tail (bit_position 1) (word_of_nat (v mod 128 ^ 1)) (varint (v div 128 ^ 1) @ rest)
      = (Some (word_of_nat v, bit_position 5, word_of_nat (v div 128 ^ 4)), rest)"
    using varint32_low_steps [of 4 v rest] varint32_low_step(1) [of 4 v rest] True assms by simp
  moreover have "(word_of_nat (v div 128 ^ 4) :: u8) AND 0x70 \<noteq> 0"
  proof -
    have "16 \<le> v div 128 ^ 4" using assms by (simp add: less_eq_div_iff_mult_less_eq)
    moreover have "v div 128 ^ 4 < 128" using True by (simp add: less_mult_imp_div_less)
    ultimately have "v div 128 ^ 4 \<in> set [16..<128]" unfolding set_upt atLeastLessThan_iff by (rule conjI)
    moreover have "\<forall>n \<in> set [16..<128]. (word_of_nat n :: u8) AND 0x70 \<noteq> 0" by code_simp
    ultimately show ?thesis by blast
  qed
  ultimately show ?thesis
    using assms by (subst wire_varint32_unfold) (simp_all add: op_bind_def op_fail_def bit_position_cmp)
next
  case False
  have "varint32_tail (bit_position 1) (word_of_nat (v mod 128 ^ 1)) (varint (v div 128 ^ 1) @ rest)
      = varint32_tail (bit_position 5) (word_of_nat (v mod 128 ^ 5)) (varint (v div 128 ^ 5) @ rest)"
    using varint32_low_steps [of 5 v rest] False by simp
  moreover have "fst (varint32_tail (bit_position 5) (word_of_nat (v mod 128 ^ 5)) (varint (v div 128 ^ 5) @ rest)) = None"
    using False assms by (intro varint32_high_fails) (auto simp: less_mult_imp_div_less div_greater_zero_iff)
  ultimately show ?thesis
    using assms by (subst wire_varint32_unfold) (auto simp: op_bind_def split: prod.splits option.splits)
qed

lemma wire_varint32_negative:
  assumes "2 ^ 64 - 2 ^ 31 \<le> v" "v < 2 ^ 64"
  shows "wire_varint32 (varint v @ rest) = (Some (word_of_nat v), rest)"
proof -
  have "varint32_tail (bit_position 1) (word_of_nat (v mod 128 ^ 1)) (varint (v div 128 ^ 1) @ rest)
      = varint32_tail (bit_position 5) (word_of_nat (v mod 128 ^ 5)) (varint (v div 128 ^ 5) @ rest)"
    using varint32_low_steps [of 5 v rest] assms by simp
  also have "(word_of_nat (v mod 128 ^ 5) :: u32) = word_of_nat v"
    by (simp add: word_unat_eq_iff unat_of_nat mod_mod_cancel)
  also have "varint32_tail (bit_position 5) (word_of_nat v) (varint (v div 128 ^ 5) @ rest) = (Some (word_of_nat v, bit_position 10, 1), rest)"
  proof (rule varint32_high_accepts)
    obtain x where x: "v = 2 ^ 64 - 2 ^ 31 + x" using assms(1) le_Suc_ex by blast
    then have "x < 2 ^ 31" using assms(2) by simp
    then show "v div 128 ^ 5 = 2 ^ (64 - 7 * 5) - 1" unfolding x by simp
    have "v = 4294967295 * 2 ^ 32 + (2 ^ 31 + x)" unfolding x by simp
    then have "v mod 2 ^ 32 = (2 ^ 31 + x) mod 2 ^ 32" by (metis mod_mult_self3)
    then have "unat (word_of_nat v :: u32) = 2 ^ 31 + x" using \<open>x < 2 ^ 31\<close> by (simp add: unat_of_nat)
    then have "unat (drop_bit 31 (word_of_nat v :: u32)) = 1" using \<open>x < 2 ^ 31\<close> by (simp add: unat_drop_bit_div)
    then show "drop_bit 31 (word_of_nat v :: u32) \<noteq> 0" by auto
  qed simp_all
  finally show ?thesis
    using assms by (subst wire_varint32_unfold) (simp_all add: op_bind_def op_return_def bit_position_cmp)
qed

end
