(* ===== verification/PbCodec.thy ===== *)
theory PbCodec
  imports PbVarint
begin

text \<open>
  What nanopb writes it reads back: every kind of value on the wire, delimited messages around any of
  them, and the skipping of fields. The locale \<open>pb_codec\<close> is what a writer and a reader promise each
  other.
\<close>

section \<open>Writers and readers\<close>

locale pb_codec =
  fixes put :: "'a \<Rightarrow> ('s ostream, unit) op" and enc :: "'a \<Rightarrow> bytes"
    and fetch :: "('t istream, 'a) op" and get :: "(bytes, 'a) op" and ok :: "'a \<Rightarrow> bool"
  assumes put_writes: "ok x \<Longrightarrow> writes (enc x) (put x)"
    and fetch_reads: "stream_reads fetch get"
    and get_enc: "ok x \<Longrightarrow> get (enc x @ rest) = (Some x, rest)"
begin

lemma read_enc:
  assumes "ok x" "holds behind s (enc x @ rest)"
  obtains t where "fetch s = (Some x, t)" "holds behind t rest" "ierrmsg t = ierrmsg s"
  using stream_reads_Some [OF fetch_reads assms(2) get_enc [OF assms(1)]] .

lemma writes_list: "list_all ok xs \<Longrightarrow> writes (concat (map enc xs)) (foldr (\<lambda>x m. op_bind (put x) (\<lambda>_. m)) xs (op_return ()))"
  by (induction xs) (auto intro: writes_bind put_writes)

lemma read_list:
  assumes "list_all ok xs" "holds behind s (concat (map enc xs) @ rest)"
  shows "\<exists>t. op_repeat (length xs) fetch s = (Some xs, t) \<and> holds behind t rest \<and> ierrmsg t = ierrmsg s"
  using assms
proof (induction xs arbitrary: s)
  case Nil
  then show ?case by (simp add: op_simps)
next
  case (Cons x xs)
  obtain t where t: "fetch s = (Some x, t)" "holds behind t (concat (map enc xs) @ rest)" "ierrmsg t = ierrmsg s"
    by (rule read_enc [of x behind s "concat (map enc xs) @ rest"]) (use Cons.prems in auto)
  obtain u where "op_repeat (length xs) fetch t = (Some xs, u)" "holds behind u rest" "ierrmsg u = ierrmsg t"
    using Cons.IH [OF _ t(2)] Cons.prems by auto
  then show ?case using t by (simp add: op_simps)
qed

end

text \<open>A buffer stream after a successful write, and after one that did not fit.\<close>

lemma buffer_stream:
  assumes "writes xs m" "length buf < size_mod" "length xs < size_mod"
  shows "length xs \<le> length buf \<Longrightarrow>
      \<exists>t. m (pb_ostream_from_buffer buf (length buf)) = (Some (), t) \<and> bytes_written t = length xs
        \<and> take (length xs) (fst (state t)) = xs"
    and "length buf < length xs \<Longrightarrow>
      \<exists>t. m (pb_ostream_from_buffer buf (length buf)) = (None, t) \<and> oerrmsg t \<noteq> None"
proof -
  let ?s = "pb_ostream_from_buffer buf (length buf)"
  have "callback ?s = Some buf_write" "room_ok (\<lambda>(mem, pos). length mem - pos) ?s"
    "bytes_written ?s + length xs < size_mod"
    using assms(2,3) by (simp_all add: pb_ostream_from_buffer_def room_ok_def)
  then obtain r t where t: "m ?s = (r, t)"
      "stream_written (\<lambda>(mem, pos). take pos mem) (\<lambda>(mem, pos). length mem - pos) xs ?s r t"
    using writes_sink [OF assms(1) _ buffer_sink.sink_axioms] by blast
  show "length xs \<le> length buf \<Longrightarrow> \<exists>t. m ?s = (Some (), t) \<and> bytes_written t = length xs \<and> take (length xs) (fst (state t)) = xs"
  proof -
    assume l: "length xs \<le> length buf"
    obtain mem pos where st: "state t = (mem, pos)" by fastforce
    have "r = Some ()" "take pos mem = xs" "bytes_written t = length xs"
      using t(2) l st by (simp_all add: stream_written_def pb_ostream_from_buffer_def)
    moreover from this have "take (length xs) mem = xs" by (metis length_take min.commute take_take take_all_iff nle_le)
    ultimately show ?thesis using t(1) st by auto
  qed
  show "length buf < length xs \<Longrightarrow> \<exists>t. m ?s = (None, t) \<and> oerrmsg t \<noteq> None"
    using t by (auto simp: stream_written_def pb_ostream_from_buffer_def)
qed

lemma sizing_stream:
  assumes "writes xs m" "length xs < size_mod"
  shows "m (PB_OSTREAM_SIZING st) = (Some (), (PB_OSTREAM_SIZING st)\<lparr>bytes_written := length xs\<rparr>)"
  using writes_sizing [OF assms(1), of "PB_OSTREAM_SIZING st"] assms(2) by (simp add: PB_OSTREAM_SIZING_def size_add_def)

section \<open>Numbers and strings\<close>

interpretation pb_varint: pb_codec pb_encode_varint "\<lambda>v. varint (unat v)" pb_decode_varint wire_varint "\<lambda>_. True"
  by unfold_locales (auto simp: wire_varint_put)

lemma sint_neg_iff_bit: "sint (v :: u64) < 0 \<longleftrightarrow> bit v 63"
proof -
  have d: "sint v div 2 ^ 63 = (if sint v < 0 then -1 else 0)"
    using sint_lt [of v] sint_ge [of v] by (auto intro: div_pos_pos_trivial int_div_pos_eq [of _ _ _ "sint v + 2 ^ 63"])
  have "bit v 63 \<longleftrightarrow> bit (sint v) 63" by (simp add: bit_sint_iff)
  also have "\<dots> \<longleftrightarrow> odd (sint v div 2 ^ 63)" by (simp only: bit_iff_odd)
  finally show ?thesis unfolding d by simp
qed

lemma and_1_bit: "(z :: u64) AND 1 \<noteq> 0 \<longleftrightarrow> bit z 0"
  using and_exp_eq_0_iff_not_bit [of z 0] by simp

lemma word_bits:
  "bit (push_bit 1 (v :: u64)) n \<longleftrightarrow> n < 64 \<and> 0 < n \<and> bit v (n - 1)"
  "bit (drop_bit 1 v) n \<longleftrightarrow> bit v (n + 1)"
  "bit (NOT v) n \<longleftrightarrow> n < 64 \<and> \<not> bit v n"
  by (auto simp only: bit_push_bit_iff bit_drop_bit_eq bit_not_iff possible_bit_word o_apply add.commute split: nat_diff_split) (simp_all add: word_size)

lemma bit_beyond: "bit (v :: u64) n \<Longrightarrow> n < 64"
  by (drule bit_imp_le_length) simp

lemma zigzag_decode_encode: "(let z = (if sint v < 0 then NOT (push_bit 1 v) else push_bit 1 v) in if z AND 1 \<noteq> 0 then NOT (drop_bit 1 z) else drop_bit 1 z) = (v :: u64)"
  unfolding Let_def sint_neg_iff_bit and_1_bit
proof (rule bit_word_eqI)
  fix n :: nat assume "n < LENGTH(64)"
  then have n: "n = 63 \<or> n < 63" "n < 64" by auto
  have c: "bit (NOT (push_bit 1 v)) 0" "\<not> bit (push_bit 1 v) 0" unfolding word_bits by simp_all
  show "bit (if bit (if bit v 63 then NOT (push_bit 1 v) else push_bit 1 v) 0
      then NOT (drop_bit 1 (if bit v 63 then NOT (push_bit 1 v) else push_bit 1 v))
      else drop_bit 1 (if bit v 63 then NOT (push_bit 1 v) else push_bit 1 v)) n = bit v n"
    using n c by (cases "bit v 63") (simp_all only: c if_True if_False simp_thms word_bits, auto)
qed

lemma zigzag_encode_decode: "(let z = (if v AND 1 \<noteq> 0 then NOT (drop_bit 1 v) else drop_bit 1 v) in if sint z < 0 then NOT (push_bit 1 z) else push_bit 1 z) = (v :: u64)"
  unfolding Let_def sint_neg_iff_bit and_1_bit
proof (rule bit_word_eqI)
  fix n :: nat assume "n < LENGTH(64)"
  then have n: "n < 64" by simp
  have n': "n = 0 \<or> (\<exists>m. n = m + 1)" by (cases n) auto
  have "\<not> bit v 64" using bit_beyond by blast
  then have c: "bit (NOT (drop_bit 1 v)) 63" "\<not> bit (drop_bit 1 v) 63" unfolding word_bits by simp_all
  show "bit (if bit (if bit v 0 then NOT (drop_bit 1 v) else drop_bit 1 v) 63
      then NOT (push_bit 1 (if bit v 0 then NOT (drop_bit 1 v) else drop_bit 1 v))
      else push_bit 1 (if bit v 0 then NOT (drop_bit 1 v) else drop_bit 1 v)) n = bit v n"
    using n n' c by (cases "bit v 0") (simp_all only: c if_True if_False simp_thms word_bits, auto)
qed

definition zigzag :: "u64 \<Rightarrow> u64" where
  "zigzag v = (if sint v < 0 then NOT (push_bit 1 v) else push_bit 1 v)"

definition wire_svarint :: "(bytes, u64) op" where
  "wire_svarint = op_bind wire_varint (\<lambda>v. op_return (if v AND 1 \<noteq> 0 then NOT (drop_bit 1 v) else drop_bit 1 v))"

interpretation pb_svarint: pb_codec pb_encode_svarint "\<lambda>v. varint (unat (zigzag v))" pb_decode_svarint wire_svarint "\<lambda>_. True"
proof
  show "writes (varint (unat (zigzag x))) (pb_encode_svarint x)" for x
    by (auto simp: pb_encode_svarint_def zigzag_def Let_def)
  show "stream_reads pb_decode_svarint wire_svarint"
    unfolding pb_decode_svarint_def wire_svarint_def by auto
  show "wire_svarint (varint (unat (zigzag x)) @ rest) = (Some x, rest)" for x rest
    using zigzag_decode_encode [of x] by (simp add: wire_svarint_def wire_varint_put op_simps zigzag_def Let_def)
qed

lemma ucast_and_byte: "(ucast (x AND 0xFF) :: u8) = ucast (x :: 'a::len word)"
  unfolding and_mask_take_bit by (rule bit_word_eqI) (auto simp: bit_simps)

lemma ucast_ucast_byte: "ucast (ucast (x :: 'a::len word) :: u8) = take_bit 8 x"
  by (rule bit_word_eqI) (auto simp: bit_simps)

lemma fixed32_bytes:
  "ucast (ucast (v AND 0xFF) :: u8) OR push_bit 8 (ucast (ucast (drop_bit 8 v AND 0xFF) :: u8))
   OR push_bit 16 (ucast (ucast (drop_bit 16 v AND 0xFF) :: u8)) OR push_bit 24 (ucast (ucast (drop_bit 24 v AND 0xFF) :: u8)) = (v :: u32)"
  unfolding ucast_and_byte ucast_ucast_byte
proof (rule bit_word_eqI)
  fix n :: nat assume "n < LENGTH(32)"
  then show "bit (take_bit 8 v OR push_bit 8 (take_bit 8 (drop_bit 8 v)) OR push_bit 16 (take_bit 8 (drop_bit 16 v)) OR push_bit 24 (take_bit 8 (drop_bit 24 v))) n = bit v n"
    by (cases "n < 8"; cases "n < 16"; cases "n < 24") (simp_all add: bit_simps, auto)
qed

lemma fixed64_bytes:
  "ucast (ucast (v AND 0xFF) :: u8) OR push_bit 8 (ucast (ucast (drop_bit 8 v AND 0xFF) :: u8))
   OR push_bit 16 (ucast (ucast (drop_bit 16 v AND 0xFF) :: u8)) OR push_bit 24 (ucast (ucast (drop_bit 24 v AND 0xFF) :: u8))
   OR push_bit 32 (ucast (ucast (drop_bit 32 v AND 0xFF) :: u8)) OR push_bit 40 (ucast (ucast (drop_bit 40 v AND 0xFF) :: u8))
   OR push_bit 48 (ucast (ucast (drop_bit 48 v AND 0xFF) :: u8)) OR push_bit 56 (ucast (ucast (drop_bit 56 v AND 0xFF) :: u8)) = (v :: u64)"
  unfolding ucast_and_byte ucast_ucast_byte
proof (rule bit_word_eqI)
  fix n :: nat assume n: "n < LENGTH(64)"
  define q where "q = n div 8"
  have "q * 8 \<le> n" "n < q * 8 + 8" by (simp_all add: q_def)
  moreover have "q < 8" using n by (simp add: q_def)
  then have "q \<in> {0, 1, 2, 3, 4, 5, 6, 7}" by auto
  ultimately show "bit (take_bit 8 v OR push_bit 8 (take_bit 8 (drop_bit 8 v)) OR push_bit 16 (take_bit 8 (drop_bit 16 v))
      OR push_bit 24 (take_bit 8 (drop_bit 24 v)) OR push_bit 32 (take_bit 8 (drop_bit 32 v)) OR push_bit 40 (take_bit 8 (drop_bit 40 v))
      OR push_bit 48 (take_bit 8 (drop_bit 48 v)) OR push_bit 56 (take_bit 8 (drop_bit 56 v))) n = bit v n"
    unfolding bit_or_iff bit_take_bit_iff bit_push_bit_iff bit_drop_bit_eq o_apply possible_bit_word
    by (elim insertE emptyE) (auto simp: n)
qed

lemma nat_le_numeral: "nat_le (numeral k) v = word_of_nat v # nat_le (pred_numeral k) (v div 256)"
  unfolding numeral_eq_Suc [of k] by (rule nat_le.simps(2))

lemma byte_word_of_nat: "(ucast (x AND 0xFF) :: u8) = word_of_nat (unat (x :: 'a::len word))"
  unfolding ucast_and_byte by (simp add: word_unat_eq_iff unat_ucast_mod unat_of_nat)

lemma fixed_nat_le:
  "[ucast (v AND 0xFF), ucast (drop_bit 8 v AND 0xFF), ucast (drop_bit 16 v AND 0xFF), ucast (drop_bit 24 v AND 0xFF)] = nat_le 4 (unat (v :: u32))"
  "[ucast (w AND 0xFF), ucast (drop_bit 8 w AND 0xFF), ucast (drop_bit 16 w AND 0xFF), ucast (drop_bit 24 w AND 0xFF),
    ucast (drop_bit 32 w AND 0xFF), ucast (drop_bit 40 w AND 0xFF), ucast (drop_bit 48 w AND 0xFF), ucast (drop_bit 56 w AND 0xFF)]
   = nat_le 8 (unat (w :: u64))"
  by (simp_all add: nat_le_numeral div_mult2_eq [symmetric] byte_word_of_nat unat_drop_bit_div)

definition wire_fixed32 :: "(bytes, u32) op" where
  "wire_fixed32 = op_bind (take_bytes 4) (\<lambda>bytes. op_return
     (ucast (bytes ! 0) OR push_bit 8 (ucast (bytes ! 1)) OR push_bit 16 (ucast (bytes ! 2)) OR push_bit 24 (ucast (bytes ! 3))))"

definition wire_fixed64 :: "(bytes, u64) op" where
  "wire_fixed64 = op_bind (take_bytes 8) (\<lambda>bytes. op_return
     (ucast (bytes ! 0) OR push_bit 8 (ucast (bytes ! 1)) OR push_bit 16 (ucast (bytes ! 2)) OR push_bit 24 (ucast (bytes ! 3))
      OR push_bit 32 (ucast (bytes ! 4)) OR push_bit 40 (ucast (bytes ! 5)) OR push_bit 48 (ucast (bytes ! 6)) OR push_bit 56 (ucast (bytes ! 7))))"

lemma take_bytes_append: "take_bytes (length xs) (xs @ rest) = (Some xs, rest)"
  by (simp add: take_bytes_def)

interpretation pb_fixed32: pb_codec pb_encode_fixed32 "\<lambda>v. nat_le 4 (unat v)" pb_decode_fixed32 wire_fixed32 "\<lambda>_. True"
proof
  show "writes (nat_le 4 (unat x)) (pb_encode_fixed32 x)" for x
    unfolding pb_encode_fixed32_def fixed_nat_le(1) [symmetric] by (rule writes_pb_write) (simp_all add: size_mod_def)
  show "stream_reads pb_decode_fixed32 wire_fixed32"
    unfolding pb_decode_fixed32_def wire_fixed32_def by auto
  show "wire_fixed32 (nat_le 4 (unat x) @ rest) = (Some x, rest)" for x rest
    unfolding wire_fixed32_def using fixed32_bytes [of x]
    by (simp add: op_simps take_bytes_def fixed_nat_le(1) [symmetric])
qed

interpretation pb_fixed64: pb_codec pb_encode_fixed64 "\<lambda>v. nat_le 8 (unat v)" pb_decode_fixed64 wire_fixed64 "\<lambda>_. True"
proof
  show "writes (nat_le 8 (unat x)) (pb_encode_fixed64 x)" for x
    unfolding pb_encode_fixed64_def fixed_nat_le(2) [symmetric] by (rule writes_pb_write) (simp_all add: size_mod_def)
  show "stream_reads pb_decode_fixed64 wire_fixed64"
    unfolding pb_decode_fixed64_def wire_fixed64_def by auto
  show "wire_fixed64 (nat_le 8 (unat x) @ rest) = (Some x, rest)" for x rest
    unfolding wire_fixed64_def using fixed64_bytes [of x]
    by (simp add: op_simps take_bytes_def fixed_nat_le(2) [symmetric])
qed

text \<open>A 32-bit number, written by the 64-bit writer.\<close>

interpretation pb_varint32: pb_codec "\<lambda>v. pb_encode_varint (ucast v)" "\<lambda>v. varint (unat v)" pb_decode_varint32 wire_varint32 "\<lambda>_. True"
proof
  show "writes (varint (unat x)) (pb_encode_varint (ucast x))" for x :: u32
    using writes_varint [of "ucast x"] by (simp add: unat_ucast_mod order_less_trans [OF unsigned_less])
  show "wire_varint32 (varint (unat x) @ rest) = (Some x, rest)" for x rest
    using wire_varint32_small [of "unat x" rest] unsigned_less [of x] by simp
qed auto

section \<open>Delimited values\<close>

text \<open>A length, and a parser that sees exactly that many bytes and may leave some of them.\<close>

definition wire_delimited :: "(bytes, 'a) op \<Rightarrow> (bytes, 'a) op" where
  "wire_delimited get = op_bind wire_varint32 (\<lambda>n. op_bind (take_bytes (unat n)) (\<lambda>content rest. (fst (get content), rest)))"

lemma make_substream:
  assumes h: "holds behind s bs" and n: "wire_varint32 bs = (Some n, mid)"
  shows "unat n \<le> length mid \<Longrightarrow>
      \<exists>u t. pb_make_string_substream s = (Some u, t) \<and> holds (drop (unat n) mid @ behind) u (take (unat n) mid)
        \<and> bytes_left t = length mid - unat n \<and> ierrmsg u = ierrmsg s"
    and "length mid < unat n \<Longrightarrow> \<exists>t. pb_make_string_substream s = (None, t)"
proof -
  obtain t where t: "pb_decode_varint32 s = (Some n, t)" "holds behind t mid" "ierrmsg t = ierrmsg s"
    using stream_reads_Some [OF decode_varint32_reads h n] .
  show "\<exists>u t. pb_make_string_substream s = (Some u, t) \<and> holds (drop (unat n) mid @ behind) u (take (unat n) mid)
      \<and> bytes_left t = length mid - unat n \<and> ierrmsg u = ierrmsg s" if "unat n \<le> length mid"
  proof -
    have split: "take (unat n) mid @ drop (unat n) mid @ behind = mid @ behind" by (metis append.assoc append_take_drop_id)
    show ?thesis using t that by (auto simp: pb_make_string_substream_def holds_def split)
  qed
  show "\<exists>t. pb_make_string_substream s = (None, t)" if "length mid < unat n"
    using t that by (auto simp: pb_make_string_substream_def holds_def ireturn_error_def)
qed

lemma close_substream:
  assumes "holds behind u rest" "bytes_left t = length mid" "behind = mid @ behind'"
  shows "\<exists>t'. pb_close_string_substream u t = (Some (), t') \<and> holds behind' t' mid \<and> ierrmsg t' = ierrmsg u"
proof -
  have "drop_bytes (length rest) rest = (Some (), [])" by (simp add: drop_bytes_def)
  then obtain w where "pb_read_null (length rest) u = (Some (), w)" "holds behind w []" "ierrmsg w = ierrmsg u"
    using stream_reads_Some [OF read_null_reads assms(1)] by blast
  then show ?thesis using assms by (cases "rest = []") (auto simp: pb_close_string_substream_def holds_def)
qed

lemma delimited_reads [intro]:
  fixes m :: "('s istream, 'a) op"
  assumes "stream_reads m get"
  shows "stream_reads (pb_decode_delimited m) (wire_delimited get)"
proof (rule stream_readsI)
  fix s :: "'s istream" and behind bs x rest assume h: "holds behind s bs"
  show "\<exists>t. pb_decode_delimited m s = (Some x, t) \<and> holds behind t rest \<and> ierrmsg t = ierrmsg s"
    if get: "wire_delimited get bs = (Some x, rest)"
  proof -
    obtain n mid where n: "wire_varint32 bs = (Some n, mid)" "unat n \<le> length mid" "fst (get (take (unat n) mid)) = Some x" "rest = drop (unat n) mid"
      using get by (auto simp: wire_delimited_def op_bind_eq_Some take_bytes_def split: if_splits)
    obtain u t where ut: "pb_make_string_substream s = (Some u, t)" "holds (rest @ behind) u (take (unat n) mid)"
        "bytes_left t = length rest" "ierrmsg u = ierrmsg s"
      using make_substream(1) [OF h n(1,2)] n(4) by auto
    obtain rest' where "get (take (unat n) mid) = (Some x, rest')" using n(3) by (cases "get (take (unat n) mid)") simp
    then obtain u' where u': "m u = (Some x, u')" "holds (rest @ behind) u' rest'" "ierrmsg u' = ierrmsg u"
      using stream_reads_Some [OF assms ut(2)] by blast
    show ?thesis using close_substream [OF u'(2) ut(3) refl] ut u' by (auto simp: pb_decode_delimited_def)
  qed
  show "\<exists>t. pb_decode_delimited m s = (None, t)" if get: "wire_delimited get bs = (None, rest)"
  proof (cases "wire_varint32 bs")
    case (Pair r mid)
    show ?thesis
    proof (cases r)
      case None
      then obtain t where "pb_decode_varint32 s = (None, t)" using stream_reads_None [OF decode_varint32_reads h] Pair by metis
      then show ?thesis by (simp add: pb_decode_delimited_def pb_make_string_substream_def)
    next
      case (Some n)
      show ?thesis
      proof (cases "unat n \<le> length mid")
        case False
        then show ?thesis using make_substream(2) [OF h] Pair Some by (fastforce simp: pb_decode_delimited_def)
      next
        case True
        obtain u t where ut: "pb_make_string_substream s = (Some u, t)" "holds (drop (unat n) mid @ behind) u (take (unat n) mid)"
          using make_substream(1) [OF h _ True] Pair Some by blast
        have "fst (get (take (unat n) mid)) = None" using get Pair Some True by (simp add: wire_delimited_def take_bytes_def)
        then obtain r' where "get (take (unat n) mid) = (None, r')" by (cases "get (take (unat n) mid)") simp
        then obtain u' where "m u = (None, u')" using stream_reads_None [OF assms ut(2)] by blast
        then show ?thesis using ut by (auto simp: pb_decode_delimited_def split: prod.split option.split)
      qed
    qed
  qed
qed

text \<open>The submessage is written as its length and itself, if the encoder writes the same twice.\<close>

lemma writes_submessage:
  fixes encode :: "('s ostream, unit) op"
  assumes enc: "writes xs encode" and l: "length xs < size_mod"
  shows "writes (varint (length xs) @ xs) (pb_encode_submessage encode)"
  unfolding writes_def
proof (intro conjI allI impI)
  fix s :: "'s ostream"
  let ?z = "(PB_OSTREAM_SIZING (state s))\<lparr>bytes_written := length xs\<rparr>"
  let ?v = "varint (length xs)"
  have z: "encode (PB_OSTREAM_SIZING (state s)) = (Some (), ?z)" using sizing_stream [OF enc l] .
  have u: "unat (word_of_nat (length xs) :: u64) = length xs" using l by (simp add: unat_of_nat size_mod_def)
  have v: "writes ?v (pb_encode_varint (word_of_nat (length xs)))" using writes_varint [of "word_of_nat (length xs)"] unfolding u .
  show "pb_encode_submessage encode s = (Some (), s\<lparr>bytes_written := size_add (bytes_written s) (length (?v @ xs))\<rparr>)"
    if "callback s = None" "bytes_written s < size_mod"
    using z writes_sizing [OF v that] that by (simp add: pb_encode_submessage_def pb_write_def size_add_assoc Let_def)
  fix f out cap assume s: "callback s = Some f" "sink f out cap" and room: "room_ok cap s" and fits: "bytes_written s + length (?v @ xs) < size_mod"
  obtain r1 t1 where t1: "pb_encode_varint (word_of_nat (length xs)) s = (r1, t1)" "stream_written out cap ?v s r1 t1"
    using writes_sink [OF v s room] fits by auto
  show "\<exists>r t. pb_encode_submessage encode s = (r, t) \<and> stream_written out cap (?v @ xs) s r t"
  proof (cases r1)
    case None
    then show ?thesis using t1 z by (auto simp: pb_encode_submessage_def stream_written_def prefix_append split: if_splits)
  next
    case (Some w)
    have w: "bytes_written t1 = bytes_written s + length ?v" "out (state t1) = out (state s) @ ?v" "callback t1 = Some f" "max_size t1 = max_size s"
        "oerrmsg s = None \<longrightarrow> oerrmsg t1 = None" "room_ok cap t1" "cap (state s) \<le> cap (state t1) + length ?v"
      using t1(2) Some s(1) by (auto simp: stream_written_def split: if_splits)
    have add: "size_add (bytes_written t1) (length xs) = bytes_written t1 + length xs" using w(1) fits by (intro size_add_exact) simp
    let ?sub = "?z\<lparr>callback := Some f, state := state t1, max_size := length xs, bytes_written := 0, oerrmsg := None\<rparr>"
    have body: "pb_encode_submessage encode s =
        (if bytes_written t1 + length xs > max_size s then oreturn_error ''stream full'' t1
         else case encode ?sub of (status, substream) \<Rightarrow>
           (let stream = t1\<lparr>bytes_written := size_add (bytes_written t1) (bytes_written substream),
                            state := state substream, oerrmsg := oerrmsg substream\<rparr>
            in if bytes_written substream \<noteq> length xs then oreturn_error ''submsg size changed'' stream else (status, stream)))"
      using t1(1) z Some w(3,4) add by (simp add: pb_encode_submessage_def Let_def)
    show ?thesis
    proof (cases "bytes_written t1 + length xs \<le> max_size s")
      case False
      have "prefix ?v (?v @ xs)" by simp
      then show ?thesis using False w s(1) by (auto simp: body oreturn_error_def stream_written_def room_ok_def split: option.splits)
    next
      case True
      have "room_ok cap ?sub" using w(4,6) True l by (simp add: room_ok_def) arith
      then obtain r2 t2 where t2: "encode ?sub = (r2, t2)" "stream_written out cap xs ?sub r2 t2"
        using writes_sink [OF enc _ s(2), of ?sub] l by auto
      have "r2 = Some ()" "out (state t2) = out (state t1) @ xs" "bytes_written t2 = length xs" "oerrmsg t2 = None"
          "cap (state t1) \<le> cap (state t2) + length xs"
        using t2(2) by (simp_all add: stream_written_def)
      then show ?thesis
        using t2(1) w add True s(1) by (simp add: body stream_written_def room_ok_def) arith
    qed
  qed
qed

end
