(* ===== verification/PbField.thy ===== *)
theory PbField
  imports PbCodec
begin

text \<open>
  Strings, tags and skipped fields as pairs of a writer and a reader; what reaches a buffer, by any
  sequence of writes and by any operation that writes.
\<close>

section \<open>Strings\<close>

lemma writes_string [intro]: "length xs = n \<Longrightarrow> n < size_mod \<Longrightarrow> writes (varint n @ xs) (pb_encode_string xs n)"
  unfolding pb_encode_string_def using writes_varint [of "word_of_nat n"]
  by (intro writes_bind writes_pb_write) (simp_all add: unat_of_nat size_mod_def)

lemma skip_string_reads [intro]: "stream_reads (pb_skip_string :: ('s istream, unit) op) (op_bind wire_varint32 (\<lambda>n. drop_bytes (unat n)))"
  unfolding pb_skip_string_def by auto

section \<open>Tags\<close>

definition read_tag :: "('s istream, u32 \<times> u32) op" where
  "read_tag s = (case pb_decode_tag s of ((r, _), t) \<Rightarrow> (r, t))"

definition wire_tag :: "(bytes, u32 \<times> u32) op" where
  "wire_tag = op_bind wire_varint32 (\<lambda>temp. if temp = 0 then op_fail else op_return (temp AND 7, drop_bit 3 temp))"

lemma read_tag_eq:
  "read_tag s = op_bind pb_decode_varint32 (\<lambda>temp. if temp = 0 then (\<lambda>t. (None, t)) else op_return (temp AND 7, drop_bit 3 temp)) s"
  by (auto simp: read_tag_def pb_decode_tag_def pb_decode_varint32_def op_bind_def op_simps split: prod.splits option.splits)

lemma stream_reads_None_op [intro]: "stream_reads (\<lambda>t. (None, t)) op_fail"
  by (rule stream_readsI) (auto simp: op_simps)

lemma read_tag_reads [intro]: "stream_reads (read_tag :: ('s istream, u32 \<times> u32) op) wire_tag"
proof -
  have "stream_reads (op_bind pb_decode_varint32 (\<lambda>temp. if temp = 0 then (\<lambda>t. (None, t)) else op_return (temp AND 7, drop_bit 3 temp))
      :: ('s istream, u32 \<times> u32) op) wire_tag"
    unfolding wire_tag_def by (intro stream_reads_bind decode_varint32_reads) auto
  moreover have "read_tag = (op_bind pb_decode_varint32 (\<lambda>temp. if temp = 0 then (\<lambda>t. (None, t)) else op_return (temp AND 7, drop_bit 3 temp))
      :: ('s istream, u32 \<times> u32) op)" by (rule ext) (rule read_tag_eq)
  ultimately show ?thesis by simp
qed

abbreviation tag_number :: "u32 \<Rightarrow> u32 \<Rightarrow> nat" where
  "tag_number wiretype field_number \<equiv> 8 * unat field_number + unat wiretype"

lemma tag_word:
  assumes "w < 8" "f < 2 ^ 29"
  shows "unat (push_bit 3 (ucast (f :: u32) :: u64) OR ucast (w :: u32)) = tag_number w f"
proof -
  have b: "unat w < 2 ^ 3" "unat f < 2 ^ 29" using assms by (simp_all add: word_less_nat_alt)
  have u: "unat (ucast w :: u64) = unat w" "unat (ucast f :: u64) = unat f" using b by (simp_all add: unat_ucast_mod)
  have "unat (push_bit 3 (ucast f) :: u64) = 8 * unat f" using b(2) u(2) by (simp add: push_bit_eq_mult unat_word_ariths)
  then show ?thesis
    using unat_or_low_bits [of "push_bit 3 (ucast f) :: u64" "unat f" 3 "ucast w"] b(1) u(1) by (simp add: mult.commute)
qed

lemma writes_tag: "w < 8 \<Longrightarrow> f < 2 ^ 29 \<Longrightarrow> writes (varint (tag_number w f)) (pb_encode_tag w f)"
  unfolding pb_encode_tag_def Let_def using writes_varint tag_word by metis

lemma tag_parts:
  assumes "w < 8" "f < 2 ^ 29"
  shows "(word_of_nat (tag_number w f) :: u32) AND 7 = w" "drop_bit 3 (word_of_nat (tag_number w f) :: u32) = f"
    and "f \<noteq> 0 \<Longrightarrow> (word_of_nat (tag_number w f) :: u32) \<noteq> 0"
proof -
  let ?t = "word_of_nat (tag_number w f) :: u32"
  have b: "unat w < 8" "unat f < 2 ^ 29" using assms by (simp_all add: word_less_nat_alt)
  have t: "unat ?t = tag_number w f" using b by (simp add: unat_of_nat del: of_nat_add of_nat_mult)
  have m: "?t AND 7 = take_bit 3 ?t" by (rule and_mask_take_bit)
  have "unat (?t AND 7) = unat w" unfolding m using t b by (simp add: unat_take_bit_mod del: of_nat_add of_nat_mult)
  then show "?t AND 7 = w" by (simp add: word_unat_eq_iff del: of_nat_add of_nat_mult)
  have "unat (drop_bit 3 ?t) = unat f" using t b by (simp add: unat_drop_bit_div del: of_nat_add of_nat_mult)
  then show "drop_bit 3 ?t = f" by (simp add: word_unat_eq_iff del: of_nat_add of_nat_mult)
  show "?t \<noteq> 0" if "f \<noteq> 0"
  proof
    assume "?t = 0"
    then have "tag_number w f = 0" using t by simp
    then show False using that by (simp add: unat_eq_0)
  qed
qed

lemma wire_tag_put:
  assumes "w < 8" "f < 2 ^ 29" "f \<noteq> 0"
  shows "wire_tag (varint (tag_number w f) @ rest) = (Some (w, f), rest)"
proof -
  have "unat w < 8" "unat f < 2 ^ 29" using assms by (simp_all add: word_less_nat_alt)
  then have "wire_varint32 (varint (tag_number w f) @ rest) = (Some (word_of_nat (tag_number w f)), rest)"
    by (intro wire_varint32_small) simp
  then show ?thesis unfolding wire_tag_def using tag_parts [OF assms(1,2)] assms(3) by (simp add: op_simps del: of_nat_add of_nat_mult)
qed

interpretation pb_tag: pb_codec "\<lambda>(w, f). pb_encode_tag w f" "\<lambda>(w, f). varint (tag_number w f)" read_tag wire_tag
    "\<lambda>(w, f). w < 8 \<and> f < 2 ^ 29 \<and> f \<noteq> 0"
  by unfold_locales (auto simp: writes_tag wire_tag_put)

section \<open>Skipping\<close>

text \<open>The values a field can have on the wire.\<close>

inductive wire_value :: "u32 \<Rightarrow> bytes \<Rightarrow> bool" where
  varint: "wire_value PB_WT_VARINT (varint n)"
| fixed64: "length bs = 8 \<Longrightarrow> wire_value PB_WT_64BIT bs"
| fixed32: "length bs = 4 \<Longrightarrow> wire_value PB_WT_32BIT bs"
| string: "length bs < 2 ^ 32 \<Longrightarrow> wire_value PB_WT_STRING (varint (length bs) @ bs)"

definition skip_value :: "u32 \<Rightarrow> (bytes, unit) op" where
  "skip_value wire_type =
     (if wire_type = PB_WT_VARINT then skip_varint
      else if wire_type = PB_WT_64BIT then drop_bytes 8
      else if wire_type = PB_WT_STRING then op_bind wire_varint32 (\<lambda>n. drop_bytes (unat n))
      else if wire_type = PB_WT_32BIT then drop_bytes 4
      else op_fail)"

lemma skip_field_reads [intro]: "stream_reads (pb_skip_field wt :: ('s istream, unit) op) (skip_value wt)"
  unfolding pb_skip_field_def skip_value_def by auto

lemma skip_value_skips: "wire_value wt bs \<Longrightarrow> skip_value wt (bs @ rest) = (Some (), rest)"
proof (induction rule: wire_value.induct)
  case (varint n)
  then show ?case by (simp add: skip_value_def skip_varint_def take_varint_varint op_simps)
next
  case (string bs)
  then show ?case
    using wire_varint32_small [of "length bs" "bs @ rest"]
    by (simp add: skip_value_def PB_WT_STRING_def PB_WT_VARINT_def PB_WT_64BIT_def drop_bytes_def unat_of_nat)
qed (simp_all add: skip_value_def PB_WT_STRING_def PB_WT_VARINT_def PB_WT_64BIT_def PB_WT_32BIT_def drop_bytes_def)

section \<open>Through a buffer\<close>

context pb_codec
begin

lemma buffer_round_trip:
  fixes buf :: bytes and put' :: "'a \<Rightarrow> ((bytes \<times> nat) ostream, unit) op"
  assumes "list_all ok xs" "\<And>x. ok x \<Longrightarrow> writes (enc x) (put' x)" "length (concat (map enc xs)) \<le> length buf" "length buf < size_mod"
  shows "\<exists>s t. foldr (\<lambda>x m. op_bind (put' x) (\<lambda>_. m)) xs (op_return ()) (pb_ostream_from_buffer buf (length buf)) = (Some (), s)
    \<and> bytes_written s = length (concat (map enc xs))
    \<and> op_repeat (length xs) fetch (pb_istream_from_buffer (fst (state s)) (bytes_written s)) = (Some xs, t) \<and> bytes_left t = 0"
proof -
  let ?bs = "concat (map enc xs)"
  have w: "writes ?bs (foldr (\<lambda>x m. op_bind (put' x) (\<lambda>_. m)) xs (op_return ()))"
    using assms(1)
  proof (induction xs)
    case (Cons x xs)
    then show ?case using writes_bind [OF assms(2)] by simp
  qed (simp add: writes_return)
  then obtain s where s: "foldr (\<lambda>x m. op_bind (put' x) (\<lambda>_. m)) xs (op_return ()) (pb_ostream_from_buffer buf (length buf)) = (Some (), s)"
      "bytes_written s = length ?bs" "take (length ?bs) (fst (state s)) = ?bs"
    using buffer_stream(1) [OF w assms(4) _ assms(3)] assms(3,4) by auto
  obtain zs where "fst (state s) = ?bs @ zs" using s(3) by (metis append_take_drop_id)
  then have "holds [] (pb_istream_from_buffer (fst (state s)) (bytes_written s)) (?bs @ [])"
    using holds_from_buffer [of "[]" ?bs zs] s(2) by simp
  then show ?thesis using read_list [OF assms(1)] s by (fastforce simp: holds_def)
qed

end


text \<open>A sink over a buffer with other memory behind it: the output is the memory behind and what was written.\<close>

lemma guarded_sink:
  fixes n l :: nat
  defines "out \<equiv> \<lambda>(mem, pos). if length mem = l then drop n mem @ take pos mem else []"
  shows "sink buf_write out (\<lambda>(mem :: bytes, pos). if length mem = l \<and> n \<le> l then n - pos else 0)"
proof
  fix c :: bytes and st :: "bytes \<times> nat"
  assume c: "length c \<le> (case st of (mem, pos) \<Rightarrow> if length mem = l \<and> n \<le> l then n - pos else 0)"
  obtain mem pos where st: "st = (mem, pos)" by fastforce
  show "\<exists>st'. buf_write c st = (True, st') \<and> out st' = out st @ c
      \<and> (case st' of (mem :: bytes, pos) \<Rightarrow> if length mem = l \<and> n \<le> l then n - pos else 0)
        = (case st of (mem, pos) \<Rightarrow> if length mem = l \<and> n \<le> l then n - pos else 0) - length c"
  proof (cases "c = []")
    case True
    then show ?thesis using st by (simp add: buf_write_def memcpy_at_def out_def)
  next
    case False
    then have "0 < length c" by simp
    then have "length mem = l" "n \<le> l" "pos + length c \<le> n" using c st by (auto simp del: length_greater_0_conv split: if_splits)
    then show ?thesis using st by (simp add: buf_write_def memcpy_at_def out_def)
  qed
qed


text \<open>
  A sequence of calls of \<open>pb_write\<close>, and what it should do: each chunk is taken if it fits into the room
  that is left, and refused otherwise, also when an earlier one was refused.
\<close>

fun write_all :: "bytes list \<Rightarrow> 's ostream \<Rightarrow> bool list \<times> 's ostream" where
  "write_all [] s = ([], s)"
| "write_all (c # cs) s =
     (case pb_write c (length c) s of (r, s) \<Rightarrow> case write_all cs s of (rs, s) \<Rightarrow> ((r \<noteq> None) # rs, s))"

fun chunks_fit :: "nat \<Rightarrow> bytes list \<Rightarrow> bool list" where
  "chunks_fit room [] = []"
| "chunks_fit room (c # cs) =
     (if length c \<le> room then True # chunks_fit (room - length c) cs else False # chunks_fit room cs)"

definition taken :: "bool list \<Rightarrow> bytes list \<Rightarrow> bytes" where
  "taken bs cs = concat (map snd (filter fst (zip bs cs)))"

lemma taken_simps [simp]:
  "taken [] cs = []" "taken (True # bs) (c # cs) = c @ taken bs cs" "taken (False # bs) (c # cs) = taken bs cs"
  by (simp_all add: taken_def)

lemma length_taken: "length (taken (chunks_fit room cs) cs) \<le> room"
  by (induction room cs rule: chunks_fit.induct) auto

text \<open>A stream over a buffer of \<open>n\<close> bytes at the start of the memory \<open>mem\<close>, with \<open>pos\<close> bytes written.\<close>

definition buffer_stream_at :: "bytes \<Rightarrow> nat \<Rightarrow> nat \<Rightarrow> string option \<Rightarrow> (bytes \<times> nat) ostream" where
  "buffer_stream_at mem n pos msg =
     \<lparr>callback = Some buf_write, state = (mem, pos), max_size = n, bytes_written = pos, oerrmsg = msg\<rparr>"

lemma write_buffer:
  assumes "pos \<le> n" "n \<le> length mem" "n < size_mod" "length c < size_mod"
  shows "pb_write c (length c) (buffer_stream_at mem n pos msg) =
    (if pos + length c \<le> n then (Some (), buffer_stream_at (take pos mem @ c @ drop (pos + length c) mem) n (pos + length c) msg)
     else (None, buffer_stream_at mem n pos (if msg = None then Some ''stream full'' else msg)))"
proof (cases "pos + length c < size_mod")
  case True
  then show ?thesis using assms
    by (cases "c = []") (auto simp: pb_write_def buffer_stream_at_def size_add_def buf_write_def memcpy_at_def oreturn_error_def split: option.splits)
next
  case False
  then have "size_add pos (length c) = pos + length c - size_mod" "pos + length c - size_mod < pos" "c \<noteq> []"
    using assms by (auto simp: size_add_def mod_if)
  then show ?thesis using False assms
    by (auto simp: pb_write_def buffer_stream_at_def oreturn_error_def split: option.splits)
qed

lemma write_all_buffer:
  assumes "length front \<le> n" "n \<le> length front + length mem" "n < size_mod" "\<forall>c \<in> set cs. length c < size_mod"
  shows "write_all cs (buffer_stream_at (front @ mem) n (length front) msg) =
    (let rs = chunks_fit (n - length front) cs; ys = taken rs cs
     in (rs, buffer_stream_at (front @ ys @ drop (length ys) mem) n (length front + length ys)
           (if False \<in> set rs \<and> msg = None then Some ''stream full'' else msg)))"
  using assms
proof (induction cs arbitrary: front mem msg)
  case (Cons c cs)
  let ?full = "if msg = None then Some ''stream full'' else msg"
  show ?case
  proof (cases "length c \<le> n - length front")
    case True
    then have "pb_write c (length c) (buffer_stream_at (front @ mem) n (length front) msg)
        = (Some (), buffer_stream_at ((front @ c) @ drop (length c) mem) n (length (front @ c)) msg)"
      using Cons.prems write_buffer [of "length front" n "front @ mem" c msg] by simp
    moreover have "write_all cs (buffer_stream_at ((front @ c) @ drop (length c) mem) n (length (front @ c)) msg) =
      (let rs = chunks_fit (n - length (front @ c)) cs; ys = taken rs cs
       in (rs, buffer_stream_at ((front @ c) @ ys @ drop (length ys) (drop (length c) mem)) n (length (front @ c) + length ys)
           (if False \<in> set rs \<and> msg = None then Some ''stream full'' else msg)))"
      by (rule Cons.IH) (use True Cons.prems in auto)
    ultimately show ?thesis using True by (simp add: Let_def add.commute add.left_commute)
  next
    case False
    then have "pb_write c (length c) (buffer_stream_at (front @ mem) n (length front) msg)
        = (None, buffer_stream_at (front @ mem) n (length front) ?full)"
      using Cons.prems write_buffer [of "length front" n "front @ mem" c msg] by simp
    then show ?thesis using False Cons.IH [of front mem ?full] Cons.prems by (simp add: Let_def)
  qed
qed simp

text \<open>Any operation that writes \<open>xs\<close>, over a buffer in front of other memory.\<close>

lemma writes_stay_in_buffer:
  fixes m :: "((bytes \<times> nat) ostream, unit) op"
  assumes "writes xs m" "length buf < size_mod" "length xs < size_mod" "behind \<noteq> []"
  shows "\<exists>r s. m (pb_ostream_from_buffer (buf @ behind) (length buf)) = (r, s)
    \<and> (r \<noteq> None \<longleftrightarrow> length xs \<le> length buf) \<and> drop (length buf) (fst (state s)) = behind
    \<and> (\<exists>ys. prefix ys xs \<and> take (snd (state s)) (fst (state s)) = ys)"
proof -
  let ?s = "pb_ostream_from_buffer (buf @ behind) (length buf)" and ?n = "length buf" and ?l = "length buf + length behind"
  define out :: "bytes \<times> nat \<Rightarrow> bytes" where "out = (\<lambda>(mem, pos). if length mem = ?l then drop ?n mem @ take pos mem else [])"
  define cap :: "bytes \<times> nat \<Rightarrow> nat" where "cap = (\<lambda>(mem :: bytes, pos). if length mem = ?l \<and> ?n \<le> ?l then ?n - pos else 0)"
  have s: "callback ?s = Some buf_write" "room_ok cap ?s" "bytes_written ?s + length xs < size_mod"
    using assms by (simp_all add: pb_ostream_from_buffer_def room_ok_def cap_def)
  obtain r t where t: "m ?s = (r, t)" "stream_written out cap xs ?s r t"
    by (rule writes_sink [OF assms(1) s(1) guarded_sink [of ?l ?n, folded out_def cap_def] s(2,3)])
  obtain mem pos where st: "state t = (mem, pos)" by fastforce
  have out: "out (state ?s) = behind" by (simp add: pb_ostream_from_buffer_def out_def)
  obtain ys where ys: "prefix ys xs" "out (state t) = behind @ ys"
    using t(2) unfolding stream_written_def out by (metis prefix_order.refl)
  then have "drop ?n mem @ take pos mem = behind @ ys" "length mem = ?l" using st assms(4) by (auto simp: out_def split: if_splits)
  then have "drop ?n mem = behind" "take pos mem = ys" by (simp_all add: append_eq_append_conv)
  moreover have "r \<noteq> None \<longleftrightarrow> length xs \<le> length buf"
    using t(2) by (auto simp: stream_written_def pb_ostream_from_buffer_def split: if_splits)
  ultimately show ?thesis using t(1) st ys(1) by auto
qed


end
