(* ===== verification/PbMemory.thy ===== *)
theory PbMemory
  imports PbField
begin

text \<open>
  The memory that nanopb's message structs live in: a byte for every address, little-endian numbers and
  64-bit pointers, as on the platforms of the application. Address 0 is the null pointer.
\<close>

type_synonym mem = "nat \<Rightarrow> u8"

definition load_bytes :: "mem \<Rightarrow> nat \<Rightarrow> nat \<Rightarrow> bytes" where
  "load_bytes m p n = map m [p..<p + n]"

definition store_bytes :: "nat \<Rightarrow> bytes \<Rightarrow> mem \<Rightarrow> mem" where
  "store_bytes p bs m = (\<lambda>a. if p \<le> a \<and> a < p + length bs then bs ! (a - p) else m a)"

definition load :: "mem \<Rightarrow> nat \<Rightarrow> 'a::len word" where
  "load m p = word_of_nat (le_nat (load_bytes m p (LENGTH('a) div 8)))"

definition store :: "nat \<Rightarrow> 'a::len word \<Rightarrow> mem \<Rightarrow> mem" where
  "store p v = store_bytes p (nat_le (LENGTH('a) div 8) (unat v))"

definition load_ptr :: "mem \<Rightarrow> nat \<Rightarrow> nat" where
  "load_ptr m p = unat (load m p :: u64)"

definition store_ptr :: "nat \<Rightarrow> nat \<Rightarrow> mem \<Rightarrow> mem" where
  "store_ptr p a = store p (word_of_nat a :: u64)"

section \<open>Loads after stores\<close>

lemma length_load_bytes [simp]: "length (load_bytes m p n) = n"
  by (simp add: load_bytes_def)

lemma nth_load_bytes [simp]: "i < n \<Longrightarrow> load_bytes m p n ! i = m (p + i)"
  by (simp add: load_bytes_def)

lemma load_bytes_0 [simp]: "load_bytes m p 0 = []"
  by (simp add: load_bytes_def)

lemma load_bytes_add: "load_bytes m p (a + b) = load_bytes m p a @ load_bytes m (p + a) b"
  by (rule nth_equalityI) (auto simp: nth_append add.assoc)

lemma take_load_bytes: "k \<le> n \<Longrightarrow> take k (load_bytes m p n) = load_bytes m p k"
  by (rule nth_equalityI) auto

lemma load_bytes_cong: "(\<And>a. p \<le> a \<Longrightarrow> a < p + n \<Longrightarrow> m a = m' a) \<Longrightarrow> load_bytes m p n = load_bytes m' p n"
  by (rule nth_equalityI) auto

lemma load_bytes_iff: "load_bytes m p n = load_bytes m' p n \<longleftrightarrow> (\<forall>a. p \<le> a \<longrightarrow> a < p + n \<longrightarrow> m a = m' a)"
proof
  assume l: "load_bytes m p n = load_bytes m' p n"
  show "\<forall>a. p \<le> a \<longrightarrow> a < p + n \<longrightarrow> m a = m' a"
  proof (intro allI impI)
    fix a assume a: "p \<le> a" "a < p + n"
    have "load_bytes m p n ! (a - p) = load_bytes m' p n ! (a - p)" using l by simp
    then show "m a = m' a" using a by simp
  qed
qed (rule load_bytes_cong, blast)

lemma store_bytes_outside [simp]: "a < p \<or> p + length bs \<le> a \<Longrightarrow> store_bytes p bs m a = m a"
  by (auto simp: store_bytes_def)

lemma load_store_bytes [simp]: "length bs = n \<Longrightarrow> load_bytes (store_bytes p bs m) p n = bs"
  by (rule nth_equalityI) (auto simp: store_bytes_def)

lemma load_bytes_store_disjoint:
  "q + n \<le> p \<or> p + length bs \<le> q \<Longrightarrow> load_bytes (store_bytes p bs m) q n = load_bytes m q n"
  by (rule load_bytes_cong) auto

lemma store_load_bytes: "length bs = n \<Longrightarrow> bs = load_bytes m p n \<Longrightarrow> store_bytes p bs m = m"
  by (rule ext) (auto simp: store_bytes_def)

lemma load_store:
  assumes "8 dvd LENGTH('a::len)"
  shows "load (store p (v :: 'a word) m) p = v"
proof -
  have "256 ^ (LENGTH('a) div 8) = (2 :: nat) ^ LENGTH('a)"
    using assms power_mult [of "2 :: nat" 8 "LENGTH('a) div 8"] by simp
  then show ?thesis by (simp add: load_def store_def le_nat_nat_le)
qed

lemma load_store_disjoint:
  fixes v :: "'a::len word"
  assumes "q + LENGTH('b::len) div 8 \<le> p \<or> p + LENGTH('a) div 8 \<le> q"
  shows "load (store p v m) q = (load m q :: 'b word)"
  using assms by (simp add: load_def store_def load_bytes_store_disjoint)

lemma store_outside [simp]: "a < p \<or> p + LENGTH('a::len) div 8 \<le> a \<Longrightarrow> store p (v :: 'a word) m a = m a"
  by (simp add: store_def)

lemma load_cong:
  "(\<And>a. p \<le> a \<Longrightarrow> a < p + LENGTH('a::len) div 8 \<Longrightarrow> m a = m' a) \<Longrightarrow> (load m p :: 'a word) = load m' p"
  unfolding load_def using load_bytes_cong by metis

end
