(* ===== verification/PbCommon.thy ===== *)
theory PbCommon
  imports PbMemory
begin

text \<open>
  The description of a message as nanopb's generator writes it (\<open>pb_field_t\<close> of \<open>pb.h\<close>), and the
  iterator over its fields (\<open>pb_common.c\<close>). A description is an array that ends with an entry of tag 0;
  here it is the list of the entries before that one. A submessage field refers to the description
  of the submessage, so descriptions are trees; a message type that contains itself is described to
  the depth that is looked at.
\<close>

section \<open>Descriptions\<close>

datatype 'fields pb_ptr = No_ptr | Submsg 'fields | Default_value bytes

datatype pb_field = Field
  (field_tag: u32) (field_type: u8) (data_offset: nat) (size_offset: int) (data_size: nat) (array_size: nat)
  (field_ptr: "pb_field list pb_ptr")

definition PB_LAST_FIELD :: pb_field where
  "PB_LAST_FIELD = Field 0 0 0 0 0 0 No_ptr"

definition PB_LTYPE :: "u8 \<Rightarrow> u8" where "PB_LTYPE x = x AND 0x0F"
definition PB_HTYPE :: "u8 \<Rightarrow> u8" where "PB_HTYPE x = x AND 0x30"
definition PB_ATYPE :: "u8 \<Rightarrow> u8" where "PB_ATYPE x = x AND 0xC0"

definition PB_LTYPE_BOOL :: u8 where "PB_LTYPE_BOOL = 0x00"
definition PB_LTYPE_VARINT :: u8 where "PB_LTYPE_VARINT = 0x01"
definition PB_LTYPE_UVARINT :: u8 where "PB_LTYPE_UVARINT = 0x02"
definition PB_LTYPE_SVARINT :: u8 where "PB_LTYPE_SVARINT = 0x03"
definition PB_LTYPE_FIXED32 :: u8 where "PB_LTYPE_FIXED32 = 0x04"
definition PB_LTYPE_FIXED64 :: u8 where "PB_LTYPE_FIXED64 = 0x05"
definition PB_LTYPE_LAST_PACKABLE :: u8 where "PB_LTYPE_LAST_PACKABLE = 0x05"
definition PB_LTYPE_BYTES :: u8 where "PB_LTYPE_BYTES = 0x06"
definition PB_LTYPE_STRING :: u8 where "PB_LTYPE_STRING = 0x07"
definition PB_LTYPE_SUBMESSAGE :: u8 where "PB_LTYPE_SUBMESSAGE = 0x08"
definition PB_LTYPE_EXTENSION :: u8 where "PB_LTYPE_EXTENSION = 0x09"
definition PB_LTYPE_FIXED_LENGTH_BYTES :: u8 where "PB_LTYPE_FIXED_LENGTH_BYTES = 0x0A"

definition PB_HTYPE_REQUIRED :: u8 where "PB_HTYPE_REQUIRED = 0x00"
definition PB_HTYPE_OPTIONAL :: u8 where "PB_HTYPE_OPTIONAL = 0x10"
definition PB_HTYPE_REPEATED :: u8 where "PB_HTYPE_REPEATED = 0x20"
definition PB_HTYPE_ONEOF :: u8 where "PB_HTYPE_ONEOF = 0x30"

definition PB_ATYPE_STATIC :: u8 where "PB_ATYPE_STATIC = 0x00"
definition PB_ATYPE_POINTER :: u8 where "PB_ATYPE_POINTER = 0x80"
definition PB_ATYPE_CALLBACK :: u8 where "PB_ATYPE_CALLBACK = 0x40"

definition PB_SIZE_MAX :: nat where "PB_SIZE_MAX = 2 ^ 32 - 1"

lemmas pb_type_defs = PB_LTYPE_BOOL_def PB_LTYPE_VARINT_def PB_LTYPE_UVARINT_def PB_LTYPE_SVARINT_def
  PB_LTYPE_FIXED32_def PB_LTYPE_FIXED64_def PB_LTYPE_LAST_PACKABLE_def PB_LTYPE_BYTES_def PB_LTYPE_STRING_def
  PB_LTYPE_SUBMESSAGE_def PB_LTYPE_EXTENSION_def PB_LTYPE_FIXED_LENGTH_BYTES_def
  PB_HTYPE_REQUIRED_def PB_HTYPE_OPTIONAL_def PB_HTYPE_REPEATED_def PB_HTYPE_ONEOF_def
  PB_ATYPE_STATIC_def PB_ATYPE_POINTER_def PB_ATYPE_CALLBACK_def

abbreviation ltype :: "pb_field \<Rightarrow> u8" where "ltype f \<equiv> PB_LTYPE (field_type f)"
abbreviation htype :: "pb_field \<Rightarrow> u8" where "htype f \<equiv> PB_HTYPE (field_type f)"
abbreviation atype :: "pb_field \<Rightarrow> u8" where "atype f \<equiv> PB_ATYPE (field_type f)"

definition submsg_fields :: "pb_field \<Rightarrow> pb_field list" where
  "submsg_fields f = (case field_ptr f of Submsg fs \<Rightarrow> fs | _ \<Rightarrow> [])"

lemma size_submsg_fields: "f \<in> set fs \<Longrightarrow> size_list size (submsg_fields f) < size_list size fs"
proof -
  assume f: "f \<in> set fs"
  have "size_list size (submsg_fields f) < size f" by (cases f) (auto simp: submsg_fields_def split: pb_ptr.split)
  then show ?thesis using size_list_estimation [OF f, of "size_list size (submsg_fields f)" size] by simp
qed

definition field_at :: "pb_field list \<Rightarrow> nat \<Rightarrow> pb_field" where
  "field_at fs i = (if i < length fs then fs ! i else PB_LAST_FIELD)"

section \<open>The iterator\<close>

text \<open>\<open>pSize\<close> points into the struct, or to the counter \<open>fixed_count_size\<close> of the decoder.\<close>

datatype size_ptr = Size_at nat | Fixed_count

record pb_field_iter =
  iter_start :: "pb_field list"
  iter_pos :: nat
  required_field_index :: nat
  dest_struct :: nat
  pData :: nat
  pSize :: size_ptr

definition iter_field :: "pb_field_iter \<Rightarrow> pb_field" where
  "iter_field iter = field_at (iter_start iter) (iter_pos iter)"

definition address_plus :: "nat \<Rightarrow> int \<Rightarrow> nat" where
  "address_plus p d = nat (int p + d)"

definition pb_field_iter_begin :: "pb_field list \<Rightarrow> nat \<Rightarrow> bool \<times> pb_field_iter" where
  "pb_field_iter_begin fs dest =
     (let pos = field_at fs 0;
          data = (if dest = 0 then 0 else dest + data_offset pos);
          sz = (if dest = 0 then 0 else address_plus data (size_offset pos))
      in (field_tag pos \<noteq> 0,
          \<lparr>iter_start = fs, iter_pos = 0, required_field_index = 0, dest_struct = dest, pData = data, pSize = Size_at sz\<rparr>))"

definition pb_field_iter_next :: "pb_field_iter \<Rightarrow> bool \<times> pb_field_iter" where
  "pb_field_iter_next iter =
     (let prev_field = iter_field iter; pos = field_at (iter_start iter) (iter_pos iter + 1) in
      if field_tag prev_field = 0 then (False, iter)
      else if field_tag pos = 0 then (False, snd (pb_field_iter_begin (iter_start iter) (dest_struct iter)))
      else if htype prev_field = PB_HTYPE_ONEOF \<and> htype pos = PB_HTYPE_ONEOF \<and> data_offset pos = PB_SIZE_MAX
      then (True, iter\<lparr>iter_pos := iter_pos iter + 1\<rparr>)
      else
        let prev_size =
              (if atype prev_field = PB_ATYPE_STATIC \<and> htype prev_field = PB_HTYPE_REPEATED
               then data_size prev_field * array_size prev_field
               else if atype prev_field = PB_ATYPE_POINTER then 8
               else data_size prev_field);
            required = (if htype prev_field = PB_HTYPE_REQUIRED then required_field_index iter + 1 else required_field_index iter);
            data = pData iter + prev_size + data_offset pos
        in (True, iter\<lparr>iter_pos := iter_pos iter + 1, required_field_index := required, pData := data,
                       pSize := Size_at (address_plus data (size_offset pos))\<rparr>))"

text \<open>
  The loops that step through the fields until a condition holds or the iterator is back at \<open>start\<close>:
  at most one step for each field (see \<open>seek_from\<close>).
\<close>

fun seek :: "(pb_field \<Rightarrow> bool) \<Rightarrow> nat \<Rightarrow> nat \<Rightarrow> pb_field_iter \<Rightarrow> bool \<times> pb_field_iter" where
  "seek wanted start 0 iter = (False, iter)"
| "seek wanted start (Suc fuel) iter =
     (if wanted (iter_field iter) then (True, iter)
      else let iter = snd (pb_field_iter_next iter)
           in if iter_pos iter \<noteq> start then seek wanted start fuel iter else (False, iter))"

definition pb_field_iter_find :: "u32 \<Rightarrow> pb_field_iter \<Rightarrow> bool \<times> pb_field_iter" where
  "pb_field_iter_find tag iter =
     seek (\<lambda>pos. field_tag pos = tag \<and> ltype pos \<noteq> PB_LTYPE_EXTENSION) (iter_pos iter) (length (iter_start iter) + 1) iter"

definition find_extension_field :: "pb_field_iter \<Rightarrow> bool \<times> pb_field_iter" where
  "find_extension_field iter =
     seek (\<lambda>pos. ltype pos = PB_LTYPE_EXTENSION) (iter_pos iter) (length (iter_start iter) + 1) iter"

text \<open>The positions that a \<open>do ... while (pb_field_iter_next(iter))\<close> loop visits.\<close>

lemma next_advances: "pb_field_iter_next iter = (True, iter') \<Longrightarrow>
    iter_start iter' = iter_start iter \<and> iter_pos iter' = iter_pos iter + 1 \<and> iter_pos iter' < length (iter_start iter)"
  by (auto simp: pb_field_iter_next_def Let_def field_at_def PB_LAST_FIELD_def split: if_splits)

function iter_visits :: "pb_field_iter \<Rightarrow> pb_field_iter list" where
  "iter_visits iter =
     iter # (case pb_field_iter_next iter of (True, iter') \<Rightarrow> iter_visits iter' | (False, _) \<Rightarrow> [])"
  by auto
termination
  by (relation "measure (\<lambda>iter. length (iter_start iter) - iter_pos iter)") (auto dest!: sym [of "(True, _)"] next_advances)

declare iter_visits.simps [simp del]

definition pb_fields_visited :: "pb_field list \<Rightarrow> nat \<Rightarrow> pb_field_iter list" where
  "pb_fields_visited fs dest =
     (case pb_field_iter_begin fs dest of (True, iter) \<Rightarrow> iter_visits iter | (False, _) \<Rightarrow> [])"

section \<open>Where the iterator goes\<close>

text \<open>The iterator at the \<open>k\<close>-th field of a struct.\<close>

fun iter_at :: "pb_field list \<Rightarrow> nat \<Rightarrow> nat \<Rightarrow> pb_field_iter" where
  "iter_at fs dest 0 = snd (pb_field_iter_begin fs dest)"
| "iter_at fs dest (Suc k) = snd (pb_field_iter_next (iter_at fs dest k))"

declare iter_at.simps [simp del]

definition pb_fields_ok :: "pb_field list \<Rightarrow> bool" where
  "pb_fields_ok fs \<longleftrightarrow> list_all (\<lambda>f. field_tag f \<noteq> 0) fs"

lemma begin_simps [simp]:
  "iter_start (snd (pb_field_iter_begin fs d)) = fs" "iter_pos (snd (pb_field_iter_begin fs d)) = 0"
  "dest_struct (snd (pb_field_iter_begin fs d)) = d"
  by (simp_all add: pb_field_iter_begin_def Let_def)

lemma next_simps [simp]:
  "iter_start (snd (pb_field_iter_next it)) = iter_start it"
  "dest_struct (snd (pb_field_iter_next it)) = dest_struct it"
  by (simp_all add: pb_field_iter_next_def Let_def)

lemma next_pos:
  assumes "pb_fields_ok (iter_start it)" "iter_pos it < length (iter_start it)"
  shows "fst (pb_field_iter_next it) \<longleftrightarrow> iter_pos it + 1 < length (iter_start it)"
    and "iter_pos (snd (pb_field_iter_next it)) = (if iter_pos it + 1 < length (iter_start it) then iter_pos it + 1 else 0)"
    and "iter_pos it + 1 = length (iter_start it) \<Longrightarrow> snd (pb_field_iter_next it) = iter_at (iter_start it) (dest_struct it) 0"
  using assms by (simp_all add: iter_at.simps pb_field_iter_next_def Let_def iter_field_def field_at_def PB_LAST_FIELD_def pb_fields_ok_def list_all_length)

lemma iter_at_start [simp]: "iter_start (iter_at fs d k) = fs" "dest_struct (iter_at fs d k) = d"
  by (induction k) (simp_all add: iter_at.simps)

lemma iter_at_pos [simp]: "pb_fields_ok fs \<Longrightarrow> k < length fs \<Longrightarrow> iter_pos (iter_at fs d k) = k"
  by (induction k) (simp_all add: iter_at.simps next_pos)

lemma iter_at_field [simp]: "pb_fields_ok fs \<Longrightarrow> k < length fs \<Longrightarrow> iter_field (iter_at fs d k) = fs ! k"
  by (simp add: iter_field_def field_at_def)

lemma next_iter_at:
  assumes "pb_fields_ok fs" "k < length fs"
  shows "pb_field_iter_next (iter_at fs d k) = (if k + 1 < length fs then (True, iter_at fs d (k + 1)) else (False, iter_at fs d 0))"
  using next_pos [of "iter_at fs d k"] assms by (auto simp: prod_eq_iff iter_at.simps)

lemma begin_iter_at: "pb_field_iter_begin fs d = (fs \<noteq> [] \<and> field_tag (fs ! 0) \<noteq> 0, iter_at fs d 0)"
  by (simp add: prod_eq_iff iter_at.simps) (simp add: pb_field_iter_begin_def Let_def field_at_def PB_LAST_FIELD_def)

lemma iter_visits_at: "pb_fields_ok fs \<Longrightarrow> k < length fs \<Longrightarrow> iter_visits (iter_at fs d k) = map (iter_at fs d) [k..<length fs]"
proof (induction "length fs - k" arbitrary: k)
  case (Suc n)
  then show ?case
    by (subst iter_visits.simps, cases "k + 1 < length fs") (simp_all add: next_iter_at upt_conv_Cons)
qed simp

lemma fields_visited: "pb_fields_ok fs \<Longrightarrow> pb_fields_visited fs d = map (iter_at fs d) [0..<length fs]"
  using iter_visits_at [of fs 0 d]
  by (cases fs) (simp_all add: pb_fields_visited_def begin_iter_at pb_fields_ok_def)

lemma visited_field: "it \<in> set (pb_fields_visited fs d) \<Longrightarrow> iter_field it \<in> set fs"
proof -
  have *: "iter_start it = iter_start i \<and> iter_pos it < length (iter_start i)"
    if "it \<in> set (iter_visits i)" "iter_pos i < length (iter_start i)" for i
    using that
  proof (induction i rule: iter_visits.induct)
    case (1 i)
    show ?case
    proof (cases "pb_field_iter_next i")
      case (Pair b i')
      have m: "it \<in> set (i # (case pb_field_iter_next i of (True, i') \<Rightarrow> iter_visits i' | (False, _) \<Rightarrow> []))"
        using 1(2) unfolding iter_visits.simps [of i] .
      show ?thesis
      proof (cases b)
        case True
        then have "pb_field_iter_next i = (True, i')" using Pair by simp
        moreover from this have "iter_start it = iter_start i' \<and> iter_pos it < length (iter_start i')" if "it \<in> set (iter_visits i')"
          using 1(1) [of True i'] that next_advances [of i i'] by simp
        ultimately show ?thesis using m 1(3) next_advances [of i i'] by auto
      next
        case False
        then show ?thesis using m 1(3) Pair by simp
      qed
    qed
  qed
  assume "it \<in> set (pb_fields_visited fs d)"
  then show ?thesis using * [of "iter_at fs d 0"] begin_simps(2) [of fs d, folded iter_at.simps(1)]
    by (auto simp: pb_fields_visited_def begin_iter_at iter_field_def field_at_def split: bool.splits)
qed

text \<open>A search looks at each field once, from the current one on and around.\<close>

lemma seek_from:
  assumes ok: "pb_fields_ok fs" and start: "start < length fs" and i: "i < length fs" "length fs - i \<le> fuel"
  shows "seek wanted start fuel (iter_at fs d ((start + i) mod length fs)) =
      (case find (\<lambda>j. wanted (fs ! j)) (map (\<lambda>i. (start + i) mod length fs) [i..<length fs]) of
         Some j \<Rightarrow> (True, iter_at fs d j) | None \<Rightarrow> (False, iter_at fs d start))"
  using i
proof (induction "length fs - i" arbitrary: i fuel)
  case (Suc n)
  let ?n = "length fs"
  let ?k = "(start + i) mod ?n"
  have k: "?k < ?n" using start by (intro mod_less_divisor) linarith
  have up: "[i..<?n] = i # [Suc i..<?n]" using Suc.prems by (simp add: upt_conv_Cons)
  obtain fuel' where fuel: "fuel = Suc fuel'" using Suc.prems by (cases fuel) auto
  show ?case
  proof (cases "wanted (fs ! ?k)")
    case True
    then show ?thesis using ok k by (simp add: fuel up)
  next
    case False
    have nx: "snd (pb_field_iter_next (iter_at fs d ?k)) = iter_at fs d ((start + Suc i) mod ?n)"
      using next_iter_at [OF ok k, of d] k mod_Suc [of "start + i" ?n] by auto
    have "(start + Suc i) mod ?n \<noteq> start \<longleftrightarrow> Suc i < ?n"
    proof (cases "Suc i < ?n")
      case True
      then show ?thesis using start mod_if [of "start + Suc i" ?n] by (auto simp: mod_if [of "start + Suc i - ?n" ?n])
    next
      case False
      then have "Suc i = ?n" using Suc.prems by simp
      then show ?thesis using start by simp
    qed
    moreover have "iter_pos (iter_at fs d ((start + Suc i) mod ?n)) = (start + Suc i) mod ?n" using ok start by (intro iter_at_pos mod_less_divisor) auto
    moreover have "Suc i < ?n \<Longrightarrow> seek wanted start fuel' (iter_at fs d ((start + Suc i) mod ?n)) =
        (case find (\<lambda>j. wanted (fs ! j)) (map (\<lambda>i. (start + i) mod ?n) [Suc i..<?n]) of
           Some j \<Rightarrow> (True, iter_at fs d j) | None \<Rightarrow> (False, iter_at fs d start))"
      using Suc.hyps(1) [of "Suc i" fuel'] Suc.hyps(2) Suc.prems fuel by simp
    ultimately show ?thesis
      using False ok k nx by (cases "Suc i < ?n") (simp_all add: fuel up Let_def)
  qed
qed simp

lemma seek_found:
  assumes "pb_fields_ok fs" "k < length fs"
  shows "seek wanted k (length fs + 1) (iter_at fs d k) =
      (case find (\<lambda>j. wanted (fs ! j)) ([k..<length fs] @ [0..<k]) of
         Some j \<Rightarrow> (True, iter_at fs d j) | None \<Rightarrow> (False, iter_at fs d k))"
proof -
  have "map (\<lambda>i. (k + i) mod length fs) [0..<length fs] = [k..<length fs] @ [0..<k]"
  proof (rule nth_equalityI)
    fix i assume "i < length (map (\<lambda>i. (k + i) mod length fs) [0..<length fs])"
    then have i: "i < length fs" by simp
    show "map (\<lambda>i. (k + i) mod length fs) [0..<length fs] ! i = ([k..<length fs] @ [0..<k]) ! i"
    proof (cases "k + i < length fs")
      case True
      then have "i < length fs - k" by simp
      then show ?thesis using True i by (simp add: nth_append)
    next
      case False
      then have "(k + i) mod length fs = k + i - length fs" "\<not> i < length fs - k" using i assms(2) by (simp_all add: le_mod_geq)
      then show ?thesis using False i assms(2) by (simp add: nth_append)
    qed
  qed (use assms(2) in simp)
  moreover have "0 < length fs" using assms(2) by linarith
  ultimately show ?thesis using seek_from [OF assms(1,2), of 0 "length fs + 1" wanted d] assms(2) by (auto simp del: seek.simps)
qed

end
