(* ===== verification/PbEncode.thy ===== *)
theory PbEncode
  imports PbCommon
begin

text \<open>
  Encoding of messages (\<open>pb_encode.c\<close>): the fields of a struct in memory, in the order of the description.
  The functions of the user, which are called through pointers in the struct, are in an environment:
  the encoder of a callback field, and the encoder of the list of extensions at an address.
\<close>

record 's encode_env =
  callback_encoder :: "nat \<Rightarrow> pb_field \<Rightarrow> nat \<Rightarrow> ('s ostream, unit) op"
  extensions_encoder :: "nat \<Rightarrow> ('s ostream, unit) op"

section \<open>Loops over a list\<close>

fun op_each :: "'x list \<Rightarrow> ('x \<Rightarrow> ('s, unit) op) \<Rightarrow> ('s, unit) op" where
  "op_each [] f = op_return ()"
| "op_each (x # xs) f = op_bind (f x) (\<lambda>_. op_each xs f)"

lemma op_each_cong [fundef_cong]: "xs = ys \<Longrightarrow> (\<And>x. x \<in> set ys \<Longrightarrow> f x = g x) \<Longrightarrow> op_each xs f = op_each ys g"
  by (induction xs arbitrary: ys) auto

lemma op_each_append: "op_each (xs @ ys) f = op_bind (op_each xs f) (\<lambda>_. op_each ys f)"
  by (induction xs) (simp_all add: op_bind_def op_simps fun_eq_iff split: prod.split option.split)

section \<open>Single values\<close>

definition safe_read_bool :: "mem \<Rightarrow> nat \<Rightarrow> bool" where
  "safe_read_bool m p \<longleftrightarrow> m p \<noteq> 0"

definition pb_encode_tag_for_field :: "pb_field \<Rightarrow> ('s ostream, unit) op" where
  "pb_encode_tag_for_field field =
     (let l = ltype field in
      if l \<in> {PB_LTYPE_BOOL, PB_LTYPE_VARINT, PB_LTYPE_UVARINT, PB_LTYPE_SVARINT} then pb_encode_tag PB_WT_VARINT (field_tag field)
      else if l = PB_LTYPE_FIXED32 then pb_encode_tag PB_WT_32BIT (field_tag field)
      else if l = PB_LTYPE_FIXED64 then pb_encode_tag PB_WT_64BIT (field_tag field)
      else if l \<in> {PB_LTYPE_BYTES, PB_LTYPE_STRING, PB_LTYPE_SUBMESSAGE, PB_LTYPE_FIXED_LENGTH_BYTES}
      then pb_encode_tag PB_WT_STRING (field_tag field)
      else oreturn_error ''invalid field type'')"

definition pb_enc_bool :: "mem \<Rightarrow> pb_field \<Rightarrow> nat \<Rightarrow> ('s ostream, unit) op" where
  "pb_enc_bool m field src = pb_encode_varint (if safe_read_bool m src then 1 else 0)"

text \<open>A number of 1, 2, 4 or 8 bytes, converted to 64 bits.\<close>

definition load_signed :: "mem \<Rightarrow> nat \<Rightarrow> nat \<Rightarrow> u64 option" where
  "load_signed m sz src =
     (if sz = 1 then Some (scast (load m src :: 8 word))
      else if sz = 2 then Some (scast (load m src :: 16 word))
      else if sz = 4 then Some (scast (load m src :: 32 word))
      else if sz = 8 then Some (load m src)
      else None)"

definition load_unsigned :: "mem \<Rightarrow> nat \<Rightarrow> nat \<Rightarrow> u64 option" where
  "load_unsigned m sz src =
     (if sz = 1 then Some (ucast (load m src :: 8 word))
      else if sz = 2 then Some (ucast (load m src :: 16 word))
      else if sz = 4 then Some (ucast (load m src :: 32 word))
      else if sz = 8 then Some (load m src)
      else None)"

definition pb_enc_varint :: "mem \<Rightarrow> pb_field \<Rightarrow> nat \<Rightarrow> ('s ostream, unit) op" where
  "pb_enc_varint m field src =
     (case load_signed m (data_size field) src of
        None \<Rightarrow> oreturn_error ''invalid data_size'' | Some value \<Rightarrow> pb_encode_varint value)"

definition pb_enc_uvarint :: "mem \<Rightarrow> pb_field \<Rightarrow> nat \<Rightarrow> ('s ostream, unit) op" where
  "pb_enc_uvarint m field src =
     (case load_unsigned m (data_size field) src of
        None \<Rightarrow> oreturn_error ''invalid data_size'' | Some value \<Rightarrow> pb_encode_varint value)"

definition pb_enc_svarint :: "mem \<Rightarrow> pb_field \<Rightarrow> nat \<Rightarrow> ('s ostream, unit) op" where
  "pb_enc_svarint m field src =
     (case load_signed m (data_size field) src of
        None \<Rightarrow> oreturn_error ''invalid data_size'' | Some value \<Rightarrow> pb_encode_svarint value)"

definition pb_enc_fixed64 :: "mem \<Rightarrow> pb_field \<Rightarrow> nat \<Rightarrow> ('s ostream, unit) op" where
  "pb_enc_fixed64 m field src = pb_encode_fixed64 (load m src)"

definition pb_enc_fixed32 :: "mem \<Rightarrow> pb_field \<Rightarrow> nat \<Rightarrow> ('s ostream, unit) op" where
  "pb_enc_fixed32 m field src = pb_encode_fixed32 (load m src)"

text \<open>A \<open>pb_bytes_array_t\<close> is a 32-bit size and the bytes after it.\<close>

definition pb_enc_bytes :: "mem \<Rightarrow> pb_field \<Rightarrow> nat \<Rightarrow> ('s ostream, unit) op" where
  "pb_enc_bytes m field src =
     (if src = 0 then pb_encode_string [] 0
      else
        let sz = unat (load m src :: u32) in
        if atype field = PB_ATYPE_STATIC \<and> sz > size_add (data_size field) (size_mod - 4)
        then oreturn_error ''bytes size exceeded''
        else pb_encode_string (load_bytes m (src + 4) sz) sz)"

function string_length :: "mem \<Rightarrow> nat \<Rightarrow> nat \<Rightarrow> nat \<Rightarrow> nat" where
  "string_length m src sz max_sz =
     (if sz < max_sz \<and> m (src + sz) \<noteq> 0 then string_length m src (sz + 1) max_sz else sz)"
  by auto
termination by (relation "measure (\<lambda>(_, _, sz, max_sz). max_sz - sz)") auto

declare string_length.simps [simp del]

definition pb_enc_string :: "mem \<Rightarrow> pb_field \<Rightarrow> nat \<Rightarrow> ('s ostream, unit) op" where
  "pb_enc_string m field src =
     (let max_sz = (if atype field = PB_ATYPE_POINTER then size_mod - 1 else data_size field);
          sz = (if src = 0 then 0 else string_length m src 0 max_sz)
      in pb_encode_string (load_bytes m src sz) sz)"

definition pb_enc_fixed_length_bytes :: "mem \<Rightarrow> pb_field \<Rightarrow> nat \<Rightarrow> ('s ostream, unit) op" where
  "pb_enc_fixed_length_bytes m field src = pb_encode_string (load_bytes m src (data_size field)) (data_size field)"

text \<open>\<open>encode\<close> is \<open>pb_encode\<close> with the description of the submessage.\<close>

definition pb_enc_submessage :: "(nat \<Rightarrow> ('s ostream, unit) op) \<Rightarrow> pb_field \<Rightarrow> nat \<Rightarrow> ('s ostream, unit) op" where
  "pb_enc_submessage encode field src =
     (case field_ptr field of
        Submsg _ \<Rightarrow> pb_encode_submessage (encode src)
      | _ \<Rightarrow> oreturn_error ''invalid field descriptor'')"

text \<open>
  The table \<open>PB_ENCODERS\<close>. Its entry for extensions is \<open>NULL\<close>, and there is none beyond the last type;
  \<open>pb_encode\<close> does not get there, and here the result is a failure.
\<close>

definition PB_ENCODERS :: "(nat \<Rightarrow> ('s ostream, unit) op) \<Rightarrow> mem \<Rightarrow> pb_field \<Rightarrow> nat \<Rightarrow> ('s ostream, unit) op" where
  "PB_ENCODERS encode m field src =
     (let l = ltype field in
      if l = PB_LTYPE_BOOL then pb_enc_bool m field src
      else if l = PB_LTYPE_VARINT then pb_enc_varint m field src
      else if l = PB_LTYPE_UVARINT then pb_enc_uvarint m field src
      else if l = PB_LTYPE_SVARINT then pb_enc_svarint m field src
      else if l = PB_LTYPE_FIXED32 then pb_enc_fixed32 m field src
      else if l = PB_LTYPE_FIXED64 then pb_enc_fixed64 m field src
      else if l = PB_LTYPE_BYTES then pb_enc_bytes m field src
      else if l = PB_LTYPE_STRING then pb_enc_string m field src
      else if l = PB_LTYPE_SUBMESSAGE then pb_enc_submessage encode field src
      else if l = PB_LTYPE_FIXED_LENGTH_BYTES then pb_enc_fixed_length_bytes m field src
      else op_fail)"

section \<open>Fields\<close>

text \<open>The entries of an array of \<open>count\<close> entries at \<open>data\<close>.\<close>

definition entries :: "pb_field \<Rightarrow> nat \<Rightarrow> nat \<Rightarrow> nat list" where
  "entries field data count = map (\<lambda>i. data + i * data_size field) [0..<count]"

text \<open>A packed array: its size, computed by a sizing stream for numbers of variable length, and its entries.\<close>

definition packed_size :: "pb_field \<Rightarrow> (nat \<Rightarrow> ('s ostream, unit) op) \<Rightarrow> nat \<Rightarrow> nat \<Rightarrow> 's ostream \<Rightarrow> nat option" where
  "packed_size field func data count stream =
     (if ltype field = PB_LTYPE_FIXED32 then Some (4 * count)
      else if ltype field = PB_LTYPE_FIXED64 then Some (8 * count)
      else case op_each (entries field data count) func (PB_OSTREAM_SIZING (state stream)) of
             (None, _) \<Rightarrow> None | (Some _, sizestream) \<Rightarrow> Some (bytes_written sizestream))"

definition packed_body :: "pb_field \<Rightarrow> (nat \<Rightarrow> ('s ostream, unit) op) \<Rightarrow> nat \<Rightarrow> nat \<Rightarrow> ('s ostream, unit) op" where
  "packed_body field func data count stream =
     (case packed_size field func data count stream of
        None \<Rightarrow> (None, stream)
      | Some sz \<Rightarrow>
          op_bind (pb_encode_varint (word_of_nat sz)) (\<lambda>_ stream.
            if callback stream = None then pb_write [] sz stream
            else op_each (entries field data count) func stream) stream)"

definition encode_array ::
    "(nat \<Rightarrow> ('s ostream, unit) op) \<Rightarrow> mem \<Rightarrow> pb_field \<Rightarrow> nat \<Rightarrow> nat \<Rightarrow> ('s ostream, unit) op" where
  "encode_array func m field data count =
     (if count = 0 then op_return ()
      else if atype field \<noteq> PB_ATYPE_POINTER \<and> count > array_size field then oreturn_error ''array max size exceeded''
      else if ltype field \<le> PB_LTYPE_LAST_PACKABLE then
        op_bind (pb_encode_tag PB_WT_STRING (field_tag field)) (\<lambda>_. packed_body field func data count)
      else
        op_each (entries field data count) (\<lambda>p.
          op_bind (pb_encode_tag_for_field field) (\<lambda>_.
            if atype field = PB_ATYPE_POINTER \<and> ltype field \<in> {PB_LTYPE_STRING, PB_LTYPE_BYTES}
            then func (load_ptr m p) else func p)))"

text \<open>
  A proto3 field that is equal to its default value is not encoded. A singular field has the value
  zero; a static submessage has it when all of its fields have it.
\<close>

function pb_check_proto3_default_value :: "mem \<Rightarrow> pb_field \<Rightarrow> nat \<Rightarrow> bool" where
  "pb_check_proto3_default_value m field data =
     (let sz = address_plus data (size_offset field);
          zero = list_all (\<lambda>b. b = 0) (load_bytes m data (data_size field));
          singular =
            (if atype field = PB_ATYPE_STATIC \<and> ltype field = PB_LTYPE_BYTES then (load m data :: u32) = 0
             else if atype field = PB_ATYPE_STATIC \<and> ltype field = PB_LTYPE_STRING then m data = 0
             else if atype field = PB_ATYPE_STATIC \<and> ltype field = PB_LTYPE_FIXED_LENGTH_BYTES then data_size field = 0
             else if atype field = PB_ATYPE_STATIC \<and> ltype field = PB_LTYPE_SUBMESSAGE
             then list_all (\<lambda>iter. pb_check_proto3_default_value m (iter_field iter) (pData iter))
                    (pb_fields_visited (submsg_fields field) data)
             else if atype field = PB_ATYPE_POINTER \<and> ltype field > PB_LTYPE_LAST_PACKABLE then load_ptr m data = 0
             else zero)
      in if htype field = PB_HTYPE_REQUIRED then False
         else if htype field = PB_HTYPE_REPEATED \<and> size_offset field \<noteq> 0 then (load m sz :: u32) = 0
         else if htype field = PB_HTYPE_REPEATED \<and> atype field = PB_ATYPE_STATIC then False
         else if htype field = PB_HTYPE_ONEOF then (load m sz :: u32) = 0
         else if htype field = PB_HTYPE_OPTIONAL \<and> size_offset field \<noteq> 0 then \<not> safe_read_bool m sz
         else singular)"
  by auto
termination
proof (relation "measure (\<lambda>(m, field, data). size field)")
  fix m field data it
  assume "it \<in> set (pb_fields_visited (submsg_fields field) data)"
  then have "size (iter_field it) \<le> size_list size (submsg_fields field)"
    using visited_field size_list_estimation' [of "iter_field it" "submsg_fields field" "size (iter_field it)" size] by auto
  also have "\<dots> < size field" by (cases field) (auto simp: submsg_fields_def split: pb_ptr.split)
  finally show "((m, iter_field it, pData it), m, field, data) \<in> measure (\<lambda>(m, field, data). size field)" by simp
qed simp

declare pb_check_proto3_default_value.simps [simp del]

text \<open>\<open>encode\<close> is \<open>pb_encode\<close> for the submessage of the field.\<close>

definition encode_basic_field ::
    "(nat \<Rightarrow> ('s ostream, unit) op) \<Rightarrow> mem \<Rightarrow> pb_field \<Rightarrow> nat \<Rightarrow> ('s ostream, unit) op" where
  "encode_basic_field encode m field data =
     (let func = PB_ENCODERS encode m field;
          size_addr = address_plus data (size_offset field);
          implicit_has =
            (if atype field = PB_ATYPE_POINTER then load_ptr m data \<noteq> 0
             else htype field \<noteq> PB_HTYPE_OPTIONAL \<or> \<not> pb_check_proto3_default_value m field data);
          has = (if size_offset field \<noteq> 0 then safe_read_bool m size_addr else implicit_has);
          which = (if size_offset field \<noteq> 0 then load m size_addr else of_bool implicit_has);
          data = (if atype field = PB_ATYPE_POINTER then load_ptr m data else data);
          tagged = op_bind (pb_encode_tag_for_field field) (\<lambda>_. func data)
      in if htype field = PB_HTYPE_REQUIRED then
           (if data = 0 then oreturn_error ''missing required field'' else tagged)
         else if htype field = PB_HTYPE_OPTIONAL then (if has then tagged else op_return ())
         else if htype field = PB_HTYPE_REPEATED then
           encode_array func m field data (if size_offset field \<noteq> 0 then unat (load m size_addr :: u32) else array_size field)
         else if htype field = PB_HTYPE_ONEOF then (if which = field_tag field then tagged else op_return ())
         else oreturn_error ''invalid field type'')"

text \<open>A \<open>pb_callback_t\<close> is the pointer to the function and the argument.\<close>

definition encode_callback_field :: "'s encode_env \<Rightarrow> mem \<Rightarrow> pb_field \<Rightarrow> nat \<Rightarrow> ('s ostream, unit) op" where
  "encode_callback_field env m field data stream =
     (let funcs = load_ptr m data; arg = data + 8 in
      if funcs \<noteq> 0 then
        (case callback_encoder env funcs field arg stream of
           (None, stream) \<Rightarrow> oreturn_error ''callback error'' stream
         | (Some _, stream) \<Rightarrow> (Some (), stream))
      else (Some (), stream))"

definition encode_field ::
    "(nat \<Rightarrow> ('s ostream, unit) op) \<Rightarrow> 's encode_env \<Rightarrow> mem \<Rightarrow> pb_field \<Rightarrow> nat \<Rightarrow> ('s ostream, unit) op" where
  "encode_field encode env m field data =
     (if atype field = PB_ATYPE_STATIC \<or> atype field = PB_ATYPE_POINTER then encode_basic_field encode m field data
      else if atype field = PB_ATYPE_CALLBACK then encode_callback_field env m field data
      else oreturn_error ''invalid field type'')"

section \<open>Messages\<close>

function pb_encode :: "'s encode_env \<Rightarrow> mem \<Rightarrow> pb_field list \<Rightarrow> nat \<Rightarrow> ('s ostream, unit) op" where
  "pb_encode env m fs src =
     op_each (pb_fields_visited fs src) (\<lambda>iter.
       if ltype (iter_field iter) = PB_LTYPE_EXTENSION then extensions_encoder env (load_ptr m (pData iter))
       else encode_field (\<lambda>src. pb_encode env m (submsg_fields (iter_field iter)) src) env m (iter_field iter) (pData iter))"
  by auto
termination
  by (relation "measure (\<lambda>(env, m, fs, src). size_list size fs)") (auto intro: size_submsg_fields visited_field)

declare pb_encode.simps [simp del]

definition pb_encode_delimited :: "'s encode_env \<Rightarrow> mem \<Rightarrow> pb_field list \<Rightarrow> nat \<Rightarrow> ('s ostream, unit) op" where
  "pb_encode_delimited env m fs src = pb_encode_submessage (pb_encode env m fs src)"

definition pb_encode_nullterminated :: "'s encode_env \<Rightarrow> mem \<Rightarrow> pb_field list \<Rightarrow> nat \<Rightarrow> ('s ostream, unit) op" where
  "pb_encode_nullterminated env m fs src = op_bind (pb_encode env m fs src) (\<lambda>_. pb_write [0] 1)"

definition pb_get_encoded_size :: "'s encode_env \<Rightarrow> 's \<Rightarrow> mem \<Rightarrow> pb_field list \<Rightarrow> nat \<Rightarrow> nat option" where
  "pb_get_encoded_size env st m fs src =
     (case pb_encode env m fs src (PB_OSTREAM_SIZING st) of
        (None, _) \<Rightarrow> None | (Some _, stream) \<Rightarrow> Some (bytes_written stream))"

end
