(* ===== verification/PbEncodeSpec.thy ===== *)
theory PbEncodeSpec
  imports PbEncode
begin

text \<open>
  What a message is encoded to. The specification is a function from the struct in memory to bytes, or to
  nothing when the struct cannot be encoded; \<open>pb_encode\<close> refines it on every stream, and so do the sizes it
  computes in advance for submessages and packed arrays.
\<close>

section \<open>Operations that write or fail\<close>

definition encodes :: "bytes option \<Rightarrow> ('s ostream, unit) op \<Rightarrow> bool" where
  "encodes r m \<longleftrightarrow> (case r of None \<Rightarrow> (\<forall>s. fst (m s) = None) | Some xs \<Rightarrow> length xs < size_mod \<longrightarrow> writes xs m)"

definition append_opt :: "bytes option \<Rightarrow> bytes option \<Rightarrow> bytes option" where
  "append_opt r1 r2 = (case r1 of None \<Rightarrow> None | Some xs \<Rightarrow> map_option ((@) xs) r2)"

fun concat_opt :: "bytes option list \<Rightarrow> bytes option" where
  "concat_opt [] = Some []"
| "concat_opt (r # rs) = append_opt r (concat_opt rs)"

lemma fst_None: "fst p = None \<longleftrightarrow> (\<exists>t. p = (None, t))"
  by (cases p) simp

lemma encodes_Some: "encodes (Some xs) m \<longleftrightarrow> (length xs < size_mod \<longrightarrow> writes xs m)"
  by (simp add: encodes_def)

lemma encodes_None: "encodes None m \<longleftrightarrow> (\<forall>s. \<exists>t. m s = (None, t))"
  by (simp add: encodes_def fst_None)

lemma encodes_writes [intro]: "writes xs m \<Longrightarrow> encodes (Some xs) m"
  by (simp add: encodes_Some)

lemma encodes_error [intro]: "encodes None (oreturn_error msg)"
  by (simp add: encodes_None oreturn_error_def)

lemma encodes_fail [intro]: "encodes None op_fail"
  by (simp add: encodes_None op_simps)

lemma encodes_return [intro]: "encodes (Some []) (op_return ())"
  by (simp add: encodes_Some writes_return)

lemma encodes_bind [intro]:
  assumes "encodes r1 m1" "encodes r2 m2"
  shows "encodes (append_opt r1 r2) (op_bind m1 (\<lambda>_. m2))"
proof (cases "r1 = None \<or> r2 = None")
  case True
  then have "append_opt r1 r2 = None" by (auto simp: append_opt_def split: option.split)
  moreover have "\<exists>t. op_bind m1 (\<lambda>_. m2) s = (None, t)" for s
  proof (cases "m1 s")
    case (Pair r t)
    show ?thesis
    proof (cases r)
      case None
      then show ?thesis using Pair by simp
    next
      case (Some u)
      then have "r1 \<noteq> None" using assms(1) Pair by (metis encodes_None option.distinct(1) prod.inject)
      then have "encodes None m2" using True assms(2) by metis
      then show ?thesis using Pair Some by (simp add: encodes_None)
    qed
  qed
  ultimately show ?thesis by (simp add: encodes_None)
next
  case False
  then obtain xs ys where r: "r1 = Some xs" "r2 = Some ys" by auto
  then show ?thesis using assms writes_bind [of xs m1 ys m2] by (auto simp: append_opt_def encodes_Some)
qed

lemma encodes_each:
  "(\<And>x. x \<in> set xs \<Longrightarrow> encodes (r x) (f x)) \<Longrightarrow> encodes (concat_opt (map r xs)) (op_each xs f)"
  by (induction xs) (auto intro: encodes_bind)

section \<open>Values\<close>

definition wire_type_of :: "pb_field \<Rightarrow> u32 option" where
  "wire_type_of field =
     (let l = ltype field in
      if l \<in> {PB_LTYPE_BOOL, PB_LTYPE_VARINT, PB_LTYPE_UVARINT, PB_LTYPE_SVARINT} then Some PB_WT_VARINT
      else if l = PB_LTYPE_FIXED32 then Some PB_WT_32BIT
      else if l = PB_LTYPE_FIXED64 then Some PB_WT_64BIT
      else if l \<in> {PB_LTYPE_BYTES, PB_LTYPE_STRING, PB_LTYPE_SUBMESSAGE, PB_LTYPE_FIXED_LENGTH_BYTES} then Some PB_WT_STRING
      else None)"

definition tag_bytes :: "pb_field \<Rightarrow> bytes option" where
  "tag_bytes field = map_option (\<lambda>wt. varint (tag_number wt (field_tag field))) (wire_type_of field)"

definition string_bytes :: "bytes \<Rightarrow> bytes" where
  "string_bytes xs = varint (length xs) @ xs"

definition value_bytes :: "(nat \<Rightarrow> bytes option) \<Rightarrow> mem \<Rightarrow> pb_field \<Rightarrow> nat \<Rightarrow> bytes option" where
  "value_bytes sub m field src =
     (let l = ltype field in
      if l = PB_LTYPE_BOOL then Some (varint (if safe_read_bool m src then 1 else 0))
      else if l = PB_LTYPE_VARINT then map_option (\<lambda>v. varint (unat v)) (load_signed m (data_size field) src)
      else if l = PB_LTYPE_UVARINT then map_option (\<lambda>v. varint (unat v)) (load_unsigned m (data_size field) src)
      else if l = PB_LTYPE_SVARINT then map_option (\<lambda>v. varint (unat (zigzag v))) (load_signed m (data_size field) src)
      else if l = PB_LTYPE_FIXED32 then Some (load_bytes m src 4)
      else if l = PB_LTYPE_FIXED64 then Some (load_bytes m src 8)
      else if l = PB_LTYPE_BYTES then
        (let sz = unat (load m src :: u32) in
         if src = 0 then Some (string_bytes [])
         else if atype field = PB_ATYPE_STATIC \<and> sz > size_add (data_size field) (size_mod - 4) then None
         else Some (string_bytes (load_bytes m (src + 4) sz)))
      else if l = PB_LTYPE_STRING then
        Some (string_bytes (if src = 0 then []
           else load_bytes m src (string_length m src 0 (if atype field = PB_ATYPE_POINTER then size_mod - 1 else data_size field))))
      else if l = PB_LTYPE_SUBMESSAGE then
        (case field_ptr field of Submsg _ \<Rightarrow> map_option string_bytes (sub src) | _ \<Rightarrow> None)
      else if l = PB_LTYPE_FIXED_LENGTH_BYTES then Some (string_bytes (load_bytes m src (data_size field)))
      else None)"

lemma tag_word_64:
  assumes "w < 8"
  shows "unat (push_bit 3 (ucast (f :: u32) :: u64) OR ucast (w :: u32)) = tag_number w f"
proof -
  have b: "unat w < 2 ^ 3" "unat f < 2 ^ 32" using assms unsigned_less [of f] by (simp_all add: word_less_nat_alt)
  then have "unat w < 2 ^ 64" "unat f < 2 ^ 64" using order_less_trans [OF b(2), of "2 ^ 64"] by simp_all
  then have u: "unat (ucast w :: u64) = unat w" "unat (ucast f :: u64) = unat f" unfolding unat_ucast_mod by simp_all
  have "unat f * 8 < 2 ^ 32 * 8" by (rule mult_less_mono1 [OF b(2)]) simp
  then have "unat f * 8 mod 2 ^ 64 = unat f * 8" by (intro mod_less) (rule order_less_trans, assumption, simp)
  then have "unat (push_bit 3 (ucast f) :: u64) = 8 * unat f" using u(2) by (simp add: push_bit_eq_mult unat_word_ariths mult.commute)
  then show ?thesis
    using unat_or_low_bits [of "push_bit 3 (ucast f) :: u64" "unat f" 3 "ucast w"] b(1) u(1) by (simp add: mult.commute)
qed

lemma encodes_tag: "w < 8 \<Longrightarrow> encodes (Some (varint (tag_number w f))) (pb_encode_tag w f)"
  unfolding pb_encode_tag_def Let_def using writes_varint tag_word_64 encodes_writes by metis

lemma wire_type_less: "wire_type_of field = Some w \<Longrightarrow> w < 8"
  by (auto simp: wire_type_of_def Let_def PB_WT_VARINT_def PB_WT_32BIT_def PB_WT_64BIT_def PB_WT_STRING_def split: if_splits)

lemma encodes_tag_for_field [intro]: "encodes (tag_bytes field) (pb_encode_tag_for_field field :: ('s ostream, unit) op)"
proof (cases "wire_type_of field")
  case None
  then have "pb_encode_tag_for_field field = (oreturn_error ''invalid field type'' :: ('s ostream, unit) op)"
    by (auto simp: wire_type_of_def pb_encode_tag_for_field_def Let_def split: if_splits)
  then show ?thesis unfolding tag_bytes_def None option.map using encodes_error by metis
next
  case (Some w)
  then have "pb_encode_tag_for_field field = (pb_encode_tag w (field_tag field) :: ('s ostream, unit) op)"
    by (auto simp: wire_type_of_def pb_encode_tag_for_field_def Let_def split: if_splits)
  then show ?thesis using encodes_tag [OF wire_type_less [OF Some]] by (simp add: tag_bytes_def Some)
qed

lemma encodes_string [intro]: "length xs = n \<Longrightarrow> encodes (Some (string_bytes xs)) (pb_encode_string xs n)"
  using writes_string [of xs n] by (auto simp: encodes_Some string_bytes_def)

lemma encodes_varint_opt:
  "encodes (map_option (\<lambda>v. varint (unat v)) r) (case r of None \<Rightarrow> oreturn_error msg | Some v \<Rightarrow> pb_encode_varint v)"
  by (cases r) auto

lemma encodes_svarint_opt:
  "encodes (map_option (\<lambda>v. varint (unat (zigzag v))) r) (case r of None \<Rightarrow> oreturn_error msg | Some v \<Rightarrow> pb_encode_svarint v)"
  using pb_svarint.put_writes by (cases r) auto

lemma load_bytes_le: "load_bytes m p (LENGTH('a::len) div 8) = nat_le (LENGTH('a) div 8) (unat (load m p :: 'a word))"
  if "8 dvd LENGTH('a)"
proof -
  have "256 ^ (LENGTH('a) div 8) = (2 :: nat) ^ LENGTH('a)"
    using that power_mult [of "2 :: nat" 8 "LENGTH('a) div 8"] by simp
  then have "unat (load m p :: 'a word) = le_nat (load_bytes m p (LENGTH('a) div 8))"
    using le_nat_less [of "load_bytes m p (LENGTH('a) div 8)"] by (simp add: load_def unat_of_nat)
  then show ?thesis by (metis length_load_bytes nat_le_le_nat)
qed

lemma encodes_submessage:
  assumes "encodes r m"
  shows "encodes (map_option string_bytes r) (pb_encode_submessage m)"
proof (cases r)
  case None
  then show ?thesis using assms by (auto simp: encodes_None pb_encode_submessage_def split: prod.split option.split) (metis option.distinct(1) prod.inject)
next
  case (Some xs)
  then show ?thesis using assms writes_submessage [of xs m] by (auto simp: encodes_Some string_bytes_def)
qed

lemma string_length_start: "pb_enc_string m field src =
    pb_encode_string (if src = 0 then [] else load_bytes m src (string_length m src 0 (if atype field = PB_ATYPE_POINTER then size_mod - 1 else data_size field)))
      (if src = 0 then 0 else string_length m src 0 (if atype field = PB_ATYPE_POINTER then size_mod - 1 else data_size field))"
  by (simp add: pb_enc_string_def Let_def)

lemma encodes_if: "(c \<Longrightarrow> encodes a x) \<Longrightarrow> (\<not> c \<Longrightarrow> encodes b y) \<Longrightarrow> encodes (if c then a else b) (if c then x else y)"
  by simp

lemma encodes_enc_bytes:
  "encodes (let sz = unat (load m src :: u32) in
         if src = 0 then Some (string_bytes [])
         else if atype field = PB_ATYPE_STATIC \<and> sz > size_add (data_size field) (size_mod - 4) then None
         else Some (string_bytes (load_bytes m (src + 4) sz)))
     (pb_enc_bytes m field src)"
  unfolding pb_enc_bytes_def Let_def by (intro encodes_if encodes_string encodes_error) simp_all

lemma encodes_enc_string:
  "encodes (Some (string_bytes (if src = 0 then []
           else load_bytes m src (string_length m src 0 (if atype field = PB_ATYPE_POINTER then size_mod - 1 else data_size field)))))
     (pb_enc_string m field src)"
  unfolding string_length_start by (rule encodes_string) simp

lemma encodes_enc_submessage:
  assumes "encodes (sub src) (encode src)"
  shows "encodes (case field_ptr field of Submsg _ \<Rightarrow> map_option string_bytes (sub src) | _ \<Rightarrow> None) (pb_enc_submessage encode field src)"
  unfolding pb_enc_submessage_def by (auto intro: encodes_submessage assms split: pb_ptr.split)

lemma encodes_enc_varints:
  "encodes (map_option (\<lambda>v. varint (unat v)) (load_signed m (data_size field) src)) (pb_enc_varint m field src)"
  "encodes (map_option (\<lambda>v. varint (unat v)) (load_unsigned m (data_size field) src)) (pb_enc_uvarint m field src)"
  "encodes (map_option (\<lambda>v. varint (unat (zigzag v))) (load_signed m (data_size field) src)) (pb_enc_svarint m field src)"
  unfolding pb_enc_varint_def pb_enc_uvarint_def pb_enc_svarint_def
  by (rule encodes_varint_opt encodes_svarint_opt)+

lemma encodes_value [intro]:
  assumes "\<And>src. encodes (sub src) (encode src)"
  shows "encodes (value_bytes sub m field src) (PB_ENCODERS encode m field src)"
proof -
  have f32: "encodes (Some (load_bytes m src 4)) (pb_enc_fixed32 m field src)"
    using pb_fixed32.put_writes [of "load m src"] load_bytes_le [where 'a = 32, of m src] by (auto simp: pb_enc_fixed32_def)
  have f64: "encodes (Some (load_bytes m src 8)) (pb_enc_fixed64 m field src)"
    using pb_fixed64.put_writes [of "load m src"] load_bytes_le [where 'a = 64, of m src] by (auto simp: pb_enc_fixed64_def)
  have b: "encodes (Some (varint (if safe_read_bool m src then 1 else 0))) (pb_enc_bool m field src)"
    using writes_varint [of "if safe_read_bool m src then 1 else 0"] by (auto simp: pb_enc_bool_def split: if_splits)
  have fl: "encodes (Some (string_bytes (load_bytes m src (data_size field)))) (pb_enc_fixed_length_bytes m field src)"
    unfolding pb_enc_fixed_length_bytes_def by (rule encodes_string) simp
  show ?thesis
    unfolding value_bytes_def PB_ENCODERS_def Let_def [of "ltype field"]
    by (intro encodes_if b f32 f64 fl encodes_enc_bytes encodes_enc_string encodes_enc_submessage assms encodes_fail
        encodes_enc_varints)
qed

end
