(* ===== verification/PbEncodeMessage.thy ===== *)
theory PbEncodeMessage
  imports PbEncodeSpec
begin

text \<open>Arrays, fields and whole messages: what each is encoded to, and that \<open>pb_encode\<close> writes it.\<close>

section \<open>Arrays\<close>

definition array_bytes :: "(nat \<Rightarrow> bytes option) \<Rightarrow> mem \<Rightarrow> pb_field \<Rightarrow> nat \<Rightarrow> nat \<Rightarrow> bytes option" where
  "array_bytes val m field data count =
     (if count = 0 then Some []
      else if atype field \<noteq> PB_ATYPE_POINTER \<and> count > array_size field then None
      else if ltype field \<le> PB_LTYPE_LAST_PACKABLE
      then append_opt (Some (varint (tag_number PB_WT_STRING (field_tag field))))
             (map_option string_bytes (concat_opt (map val (entries field data count))))
      else concat_opt (map (\<lambda>p. append_opt (tag_bytes field)
             (if atype field = PB_ATYPE_POINTER \<and> ltype field \<in> {PB_LTYPE_STRING, PB_LTYPE_BYTES}
              then val (load_ptr m p) else val p)) (entries field data count)))"

lemma encodes_sizing:
  assumes "encodes r m"
  shows "case m (PB_OSTREAM_SIZING st) of (None, _) \<Rightarrow> r = None \<or> (\<exists>xs. r = Some xs \<and> size_mod \<le> length xs)
     | (Some _, t) \<Rightarrow> (\<exists>xs. r = Some xs \<and> (length xs < size_mod \<longrightarrow> bytes_written t = length xs))"
proof (cases r)
  case None
  then show ?thesis using assms by (auto simp: encodes_None split: prod.split option.split) (metis option.distinct(1) prod.inject)
next
  case (Some xs)
  then show ?thesis using assms sizing_stream [of xs m st] by (cases "length xs < size_mod") (auto simp: encodes_Some split: prod.split option.split)
qed

lemma concat_opt_length:
  assumes "\<And>x. x \<in> set xs \<Longrightarrow> \<exists>bs. r x = Some bs \<and> length bs = k"
  shows "\<exists>bs. concat_opt (map r xs) = Some bs \<and> length bs = k * length xs"
  using assms by (induction xs) (fastforce simp: append_opt_def)+

lemma writes_string_bytes_body:
  assumes "writes xs m" "length (string_bytes xs) < size_mod"
  shows "writes (string_bytes xs) (op_bind (pb_encode_varint (word_of_nat (length xs))) (\<lambda>_ stream.
           if callback stream = None then pb_write [] (length xs) stream else m stream))"
proof -
  have "writes xs (\<lambda>stream. if callback stream = None then pb_write [] (length xs) stream else m stream)"
    using assms(1) by (auto simp: writes_def pb_write_def)
  moreover have "unat (word_of_nat (length xs) :: u64) = length xs"
    using assms(2) by (simp add: unat_of_nat size_mod_def string_bytes_def)
  ultimately show ?thesis using writes_bind writes_varint [of "word_of_nat (length xs)"] unfolding string_bytes_def by fastforce
qed

lemma encodes_packed_body:
  fixes func :: "nat \<Rightarrow> ('s ostream, unit) op"
  assumes val: "\<And>p. encodes (val p) (func p)"
    and fixed: "ltype field = PB_LTYPE_FIXED32 \<Longrightarrow> \<exists>bs. \<forall>p. val p = Some (bs p) \<and> length (bs p) = 4"
       "ltype field = PB_LTYPE_FIXED64 \<Longrightarrow> \<exists>bs. \<forall>p. val p = Some (bs p) \<and> length (bs p) = 8"
  shows "encodes (map_option string_bytes (concat_opt (map val (entries field data count)))) (packed_body field func data count)"
proof -
  let ?ps = "entries field data count"
  let ?r = "concat_opt (map val ?ps)"
  have each: "encodes ?r (op_each ?ps func)" by (rule encodes_each) (rule val)
  have len: "length ?ps = count" by (simp add: entries_def)
  have size: "packed_size field func data count stream = map_option length ?r" if "\<And>xs. ?r = Some xs \<Longrightarrow> length xs < size_mod" for stream
  proof (cases "ltype field = PB_LTYPE_FIXED32 \<or> ltype field = PB_LTYPE_FIXED64")
    case True
    have 4: "\<exists>bs. ?r = Some bs \<and> length bs = 4 * length ?ps" if "ltype field = PB_LTYPE_FIXED32"
      using fixed(1) [OF that] by (intro concat_opt_length) auto
    have 8: "\<exists>bs. ?r = Some bs \<and> length bs = 8 * length ?ps" if "ltype field = PB_LTYPE_FIXED64"
      using fixed(2) [OF that] by (intro concat_opt_length) auto
    show ?thesis using True 4 8 len by (auto simp: packed_size_def pb_type_defs)
  next
    case False
    show ?thesis
    proof (cases "op_each ?ps func (PB_OSTREAM_SIZING (state stream))")
      case (Pair r t)
      then show ?thesis using encodes_sizing [OF each, of "state stream"] False that
        by (cases r) (auto simp: packed_size_def)
    qed
  qed
  show ?thesis
  proof (cases ?r)
    case None
    then show ?thesis using size by (simp add: encodes_None packed_body_def)
  next
    case (Some xs)
    have "writes (string_bytes xs) (packed_body field func data count)" if l: "length (string_bytes xs) < size_mod"
    proof -
      have "length xs < size_mod" using l by (simp add: string_bytes_def)
      then have "packed_body field func data count = op_bind (pb_encode_varint (word_of_nat (length xs))) (\<lambda>_ stream.
           if callback stream = None then pb_write [] (length xs) stream else op_each ?ps func stream)"
        using size Some by (simp add: packed_body_def fun_eq_iff)
      then show ?thesis using writes_string_bytes_body [OF _ l] each Some \<open>length xs < size_mod\<close> by (simp add: encodes_Some)
    qed
    then show ?thesis by (simp add: Some encodes_Some)
  qed
qed

lemma encodes_array:
  assumes "\<And>p. encodes (val p) (func p)"
    and "ltype field = PB_LTYPE_FIXED32 \<Longrightarrow> \<exists>bs. \<forall>p. val p = Some (bs p) \<and> length (bs p) = 4"
    and "ltype field = PB_LTYPE_FIXED64 \<Longrightarrow> \<exists>bs. \<forall>p. val p = Some (bs p) \<and> length (bs p) = 8"
  shows "encodes (array_bytes val m field data count) (encode_array func m field data count)"
  unfolding encode_array_def array_bytes_def
proof (intro encodes_if)
  show "encodes (append_opt (Some (varint (tag_number PB_WT_STRING (field_tag field))))
            (map_option string_bytes (concat_opt (map val (entries field data count)))))
     (op_bind (pb_encode_tag PB_WT_STRING (field_tag field)) (\<lambda>_. packed_body field func data count))"
    by (intro encodes_bind encodes_tag encodes_packed_body assms) (simp_all add: PB_WT_STRING_def)
  show "encodes (concat_opt (map (\<lambda>p. append_opt (tag_bytes field)
             (if atype field = PB_ATYPE_POINTER \<and> ltype field \<in> {PB_LTYPE_STRING, PB_LTYPE_BYTES}
              then val (load_ptr m p) else val p)) (entries field data count)))
     (op_each (entries field data count) (\<lambda>p. op_bind (pb_encode_tag_for_field field) (\<lambda>_.
        if atype field = PB_ATYPE_POINTER \<and> ltype field \<in> {PB_LTYPE_STRING, PB_LTYPE_BYTES}
        then func (load_ptr m p) else func p)))"
    by (intro encodes_each encodes_bind encodes_tag_for_field) (auto intro: assms(1))
qed auto

section \<open>Fields and messages\<close>

definition basic_field_bytes :: "(nat \<Rightarrow> bytes option) \<Rightarrow> mem \<Rightarrow> pb_field \<Rightarrow> nat \<Rightarrow> bytes option" where
  "basic_field_bytes sub m field data =
     (let val = value_bytes sub m field;
          size_addr = address_plus data (size_offset field);
          implicit_has =
            (if atype field = PB_ATYPE_POINTER then load_ptr m data \<noteq> 0
             else htype field \<noteq> PB_HTYPE_OPTIONAL \<or> \<not> pb_check_proto3_default_value m field data);
          has = (if size_offset field \<noteq> 0 then safe_read_bool m size_addr else implicit_has);
          which = (if size_offset field \<noteq> 0 then load m size_addr else of_bool implicit_has);
          data = (if atype field = PB_ATYPE_POINTER then load_ptr m data else data);
          tagged = append_opt (tag_bytes field) (val data)
      in if htype field = PB_HTYPE_REQUIRED then (if data = 0 then None else tagged)
         else if htype field = PB_HTYPE_OPTIONAL then (if has then tagged else Some [])
         else if htype field = PB_HTYPE_REPEATED then
           array_bytes val m field data (if size_offset field \<noteq> 0 then unat (load m size_addr :: u32) else array_size field)
         else if htype field = PB_HTYPE_ONEOF then (if which = field_tag field then tagged else Some [])
         else None)"

text \<open>What the functions of the user write: a callback, and the extensions.\<close>

record encode_spec =
  callback_bytes :: "nat \<Rightarrow> pb_field \<Rightarrow> nat \<Rightarrow> bytes option"
  extensions_bytes :: "nat \<Rightarrow> bytes option"

definition env_encodes :: "encode_spec \<Rightarrow> 's encode_env \<Rightarrow> bool" where
  "env_encodes spec env \<longleftrightarrow>
     (\<forall>p field arg. encodes (callback_bytes spec p field arg) (callback_encoder env p field arg))
     \<and> (\<forall>p. encodes (extensions_bytes spec p) (extensions_encoder env p))"

definition field_bytes :: "(nat \<Rightarrow> bytes option) \<Rightarrow> encode_spec \<Rightarrow> mem \<Rightarrow> pb_field \<Rightarrow> nat \<Rightarrow> bytes option" where
  "field_bytes sub spec m field data =
     (if atype field = PB_ATYPE_STATIC \<or> atype field = PB_ATYPE_POINTER then basic_field_bytes sub m field data
      else if atype field = PB_ATYPE_CALLBACK then
        (if load_ptr m data \<noteq> 0 then callback_bytes spec (load_ptr m data) field (data + 8) else Some [])
      else None)"

function message_bytes :: "encode_spec \<Rightarrow> mem \<Rightarrow> pb_field list \<Rightarrow> nat \<Rightarrow> bytes option" where
  "message_bytes spec m fs src =
     concat_opt (map (\<lambda>iter.
       if ltype (iter_field iter) = PB_LTYPE_EXTENSION then extensions_bytes spec (load_ptr m (pData iter))
       else field_bytes (\<lambda>src. message_bytes spec m (submsg_fields (iter_field iter)) src) spec m (iter_field iter) (pData iter))
       (pb_fields_visited fs src))"
  by auto
termination
  by (relation "measure (\<lambda>(spec, m, fs, src). size_list size fs)") (auto intro: size_submsg_fields visited_field)

declare message_bytes.simps [simp del]

lemma value_bytes_fixed:
  "ltype field = PB_LTYPE_FIXED32 \<Longrightarrow> \<exists>bs. \<forall>p. value_bytes sub m field p = Some (bs p) \<and> length (bs p) = 4"
  "ltype field = PB_LTYPE_FIXED64 \<Longrightarrow> \<exists>bs. \<forall>p. value_bytes sub m field p = Some (bs p) \<and> length (bs p) = 8"
  by (rule exI [of _ "\<lambda>p. load_bytes m p 4"], simp add: value_bytes_def pb_type_defs)
    (rule exI [of _ "\<lambda>p. load_bytes m p 8"], simp add: value_bytes_def pb_type_defs)

lemma encodes_basic_field:
  assumes "\<And>src. encodes (sub src) (encode src)"
  shows "encodes (basic_field_bytes sub m field data) (encode_basic_field encode m field data)"
  unfolding basic_field_bytes_def encode_basic_field_def Let_def
  by (intro encodes_if encodes_bind encodes_tag_for_field encodes_value encodes_array value_bytes_fixed assms encodes_error encodes_return)

lemma encodes_callback_field:
  assumes "env_encodes spec env"
  shows "encodes (if load_ptr m data \<noteq> 0 then callback_bytes spec (load_ptr m data) field (data + 8) else Some [])
    (encode_callback_field env m field data)"
proof -
  let ?cb = "callback_encoder env (load_ptr m data) field (data + 8)" and ?r = "callback_bytes spec (load_ptr m data) field (data + 8)"
  let ?m = "\<lambda>stream. case ?cb stream of (None, stream) \<Rightarrow> oreturn_error ''callback error'' stream | (Some _, stream) \<Rightarrow> (Some (), stream)"
  have cb: "encodes ?r ?cb" using assms by (simp add: env_encodes_def)
  have "encodes ?r ?m"
  proof (cases ?r)
    case None
    then show ?thesis using cb by (auto simp: encodes_None oreturn_error_def split: prod.split option.split) (metis option.distinct(1) prod.inject)
  next
    case (Some xs)
    have "writes xs ?m" if w: "writes xs ?cb"
      unfolding writes_def
    proof (intro conjI allI impI)
      fix s :: "'a ostream"
      show "?m s = (Some (), s\<lparr>bytes_written := size_add (bytes_written s) (length xs)\<rparr>)" if "callback s = None" "bytes_written s < size_mod"
        using writes_sizing [OF w that] by simp
      fix f out cap assume s: "callback s = Some f" "sink f out cap" "room_ok cap s" "bytes_written s + length xs < size_mod"
      obtain r t where t: "?cb s = (r, t)" "stream_written out cap xs s r t" using writes_sink [OF w s] .
      show "\<exists>r t. ?m s = (r, t) \<and> stream_written out cap xs s r t"
      proof (cases r)
        case None
        then show ?thesis using t by (auto simp: oreturn_error_def stream_written_def room_ok_def split: if_splits option.splits)
      next
        case (Some u)
        then show ?thesis using t by auto
      qed
    qed
    then show ?thesis using cb Some by (simp add: encodes_Some)
  qed
  then show ?thesis
    by (cases "load_ptr m data = 0") (simp_all add: encode_callback_field_def [abs_def] Let_def encodes_return [unfolded op_return_def])
qed

lemma encodes_field:
  assumes "\<And>src. encodes (sub src) (encode src)" "env_encodes spec env"
  shows "encodes (field_bytes sub spec m field data) (encode_field encode env m field data)"
  unfolding field_bytes_def encode_field_def
  by (intro encodes_if encodes_basic_field encodes_callback_field encodes_error assms)

lemma encodes_message:
  assumes "env_encodes spec env"
  shows "encodes (message_bytes spec m fs src) (pb_encode env m fs src)"
  using assms
proof (induction spec m fs src rule: message_bytes.induct)
  case (1 spec m fs src)
  show ?case
    unfolding message_bytes.simps [of spec m fs src] pb_encode.simps [of env m fs src]
  proof (intro encodes_each encodes_if encodes_field)
    fix iter assume it: "iter \<in> set (pb_fields_visited fs src)"
    show "encodes (extensions_bytes spec (load_ptr m (pData iter))) (extensions_encoder env (load_ptr m (pData iter)))"
      using "1.prems" by (simp add: env_encodes_def)
    show "encodes (message_bytes spec m (submsg_fields (iter_field iter)) p) (pb_encode env m (submsg_fields (iter_field iter)) p)"
      if "ltype (iter_field iter) \<noteq> PB_LTYPE_EXTENSION" for p
      using "1.IH" [OF it that "1.prems"] .
  qed (rule "1.prems")
qed

lemma encoded_size:
  assumes "env_encodes spec env" "message_bytes spec m fs src = Some xs" "length xs < size_mod"
  shows "pb_get_encoded_size env st m fs src = Some (length xs)"
  using encodes_message [OF assms(1), of m fs src] assms(2,3) sizing_stream [of xs "pb_encode env m fs src" st]
  by (simp add: pb_get_encoded_size_def encodes_Some)

end
