(* ===== verification/PbDecode.thy ===== *)
theory PbDecode
  imports PbCommon
begin

text \<open>
  Decoding of messages (\<open>pb_decode.c\<close>) into a struct in memory. The state of the decoder is the memory,
  what it asked of the allocator so far, the stream it reads from and the counter \<open>fixed_count_size\<close>, a local
  variable of \<open>pb_decode_noinit\<close> that \<open>pSize\<close> may point to. A call on a substream runs with the substream
  in the state.
\<close>

datatype heap_event = Realloc nat nat nat | Free nat

record 's dstate =
  memory :: mem
  heap_log :: "heap_event list"
  input :: "'s istream"
  fixed_count_size :: u32

text \<open>
  What the decoder calls: \<open>pb_realloc\<close>, whose answer may depend on all that was asked before and which may
  change memory; the callbacks of the user; and the functions of the list of extensions at an address:
  decode, set to defaults, release.
\<close>

record 's decode_env =
  pb_realloc :: "heap_event list \<Rightarrow> nat \<Rightarrow> nat \<Rightarrow> mem \<Rightarrow> nat \<times> mem"
  callback_decoder :: "nat \<Rightarrow> pb_field \<Rightarrow> nat \<Rightarrow> ('s dstate, unit) op"
  extensions_decoder :: "nat \<Rightarrow> u32 \<Rightarrow> u32 \<Rightarrow> ('s dstate, unit) op"
  extensions_default :: "nat \<Rightarrow> mem \<Rightarrow> mem"
  extensions_release :: "nat \<Rightarrow> 's dstate \<Rightarrow> 's dstate"

section \<open>Access to the state\<close>

definition on_input :: "('s istream, 'a) op \<Rightarrow> ('s dstate, 'a) op" where
  "on_input m s = (case m (input s) of (r, t) \<Rightarrow> (r, s\<lparr>input := t\<rparr>))"

definition derror :: "string \<Rightarrow> ('s dstate, 'a) op" where
  "derror msg = on_input (ireturn_error msg)"

definition on_memory :: "(mem \<Rightarrow> mem) \<Rightarrow> ('s dstate, unit) op" where
  "on_memory f s = (Some (), s\<lparr>memory := f (memory s)\<rparr>)"

definition read_size :: "size_ptr \<Rightarrow> 's dstate \<Rightarrow> u32" where
  "read_size p s = (case p of Size_at a \<Rightarrow> load (memory s) a | Fixed_count \<Rightarrow> fixed_count_size s)"

definition write_size :: "size_ptr \<Rightarrow> u32 \<Rightarrow> 's dstate \<Rightarrow> 's dstate" where
  "write_size p v s =
     (case p of Size_at a \<Rightarrow> s\<lparr>memory := store a v (memory s)\<rparr> | Fixed_count \<Rightarrow> s\<lparr>fixed_count_size := v\<rparr>)"

definition read_to :: "nat \<Rightarrow> nat \<Rightarrow> ('s dstate, unit) op" where
  "read_to dest n = op_bind (on_input (pb_read n)) (\<lambda>bs. on_memory (store_bytes dest bs))"

text \<open>
  A call on a string substream: \<open>pb_make_string_substream\<close>, the call, \<open>pb_close_string_substream\<close>; the status
  is that of the call.
\<close>

definition in_substream :: "('s dstate, 'a) op \<Rightarrow> 's istream \<Rightarrow> 's dstate \<Rightarrow> 'a option \<times> 's istream \<times> 's dstate" where
  "in_substream m sub s = (case m (s\<lparr>input := sub\<rparr>) of (r, t) \<Rightarrow> (r, input t, t\<lparr>input := input s\<rparr>))"

definition with_substream :: "('s dstate, unit) op \<Rightarrow> ('s dstate, unit) op" where
  "with_substream m =
     op_bind (on_input pb_make_string_substream) (\<lambda>sub s.
       case in_substream m sub s of
         (status, sub, s) \<Rightarrow> op_bind (on_input (pb_close_string_substream sub)) (\<lambda>_ s. (status, s)) s)"

section \<open>Single values\<close>

definition pb_dec_bool :: "pb_field \<Rightarrow> nat \<Rightarrow> ('s dstate, unit) op" where
  "pb_dec_bool field dest =
     op_bind (on_input pb_decode_varint32) (\<lambda>v. on_memory (store_bytes dest [if v \<noteq> 0 then 1 else 0]))"

definition pb_decode_bool :: "nat \<Rightarrow> ('s dstate, unit) op" where
  "pb_decode_bool dest = pb_dec_bool PB_LAST_FIELD dest"

text \<open>A number stored in 1, 2, 4 or 8 bytes, and the number that is stored there as 64 bits.\<close>

definition store_number :: "nat \<Rightarrow> nat \<Rightarrow> u64 \<Rightarrow> mem \<Rightarrow> mem option" where
  "store_number sz dest v m =
     (if sz = 8 then Some (store dest v m)
      else if sz = 4 then Some (store dest (ucast v :: 32 word) m)
      else if sz = 2 then Some (store dest (ucast v :: 16 word) m)
      else if sz = 1 then Some (store dest (ucast v :: 8 word) m)
      else None)"

definition signed_part :: "nat \<Rightarrow> u64 \<Rightarrow> u64" where
  "signed_part sz v =
     (if sz = 4 then scast (ucast v :: 32 word) else if sz = 2 then scast (ucast v :: 16 word)
      else if sz = 1 then scast (ucast v :: 8 word) else v)"

definition unsigned_part :: "nat \<Rightarrow> u64 \<Rightarrow> u64" where
  "unsigned_part sz v =
     (if sz = 4 then ucast (ucast v :: 32 word) else if sz = 2 then ucast (ucast v :: 16 word)
      else if sz = 1 then ucast (ucast v :: 8 word) else v)"

definition dec_number :: "(nat \<Rightarrow> u64 \<Rightarrow> u64) \<Rightarrow> pb_field \<Rightarrow> nat \<Rightarrow> u64 \<Rightarrow> ('s dstate, unit) op" where
  "dec_number part field dest v s =
     (case store_number (data_size field) dest v (memory s) of
        None \<Rightarrow> derror ''invalid data_size'' s
      | Some m \<Rightarrow>
          (let s = s\<lparr>memory := m\<rparr>
           in if part (data_size field) v \<noteq> v then derror ''integer too large'' s else (Some (), s)))"

definition pb_dec_varint :: "pb_field \<Rightarrow> nat \<Rightarrow> ('s dstate, unit) op" where
  "pb_dec_varint field dest =
     op_bind (on_input pb_decode_varint) (\<lambda>v.
       let svalue = (if data_size field = 8 then v else scast (ucast v :: 32 word))
       in dec_number signed_part field dest svalue)"

definition pb_dec_uvarint :: "pb_field \<Rightarrow> nat \<Rightarrow> ('s dstate, unit) op" where
  "pb_dec_uvarint field dest = op_bind (on_input pb_decode_varint) (\<lambda>v. dec_number unsigned_part field dest v)"

definition pb_dec_svarint :: "pb_field \<Rightarrow> nat \<Rightarrow> ('s dstate, unit) op" where
  "pb_dec_svarint field dest = op_bind (on_input pb_decode_svarint) (\<lambda>v. dec_number signed_part field dest v)"

definition pb_dec_fixed32 :: "pb_field \<Rightarrow> nat \<Rightarrow> ('s dstate, unit) op" where
  "pb_dec_fixed32 field dest = op_bind (on_input pb_decode_fixed32) (\<lambda>v. on_memory (store dest v))"

definition pb_dec_fixed64 :: "pb_field \<Rightarrow> nat \<Rightarrow> ('s dstate, unit) op" where
  "pb_dec_fixed64 field dest = op_bind (on_input pb_decode_fixed64) (\<lambda>v. on_memory (store dest v))"

definition allocate_field :: "'s decode_env \<Rightarrow> nat \<Rightarrow> nat \<Rightarrow> nat \<Rightarrow> ('s dstate, unit) op" where
  "allocate_field env data data_sz array_sz s =
     (let ptr = load_ptr (memory s) data in
      if data_sz = 0 \<or> array_sz = 0 then derror ''invalid size'' s
      else if (data_sz \<ge> 2 ^ 32 \<or> array_sz \<ge> 2 ^ 32) \<and> (size_mod - 1) div array_sz < data_sz
      then derror ''size too large'' s
      else case pb_realloc env (heap_log s) ptr (array_sz * data_sz) (memory s) of
             (ptr', m) \<Rightarrow>
               let s = s\<lparr>memory := m, heap_log := heap_log s @ [Realloc ptr (array_sz * data_sz) ptr']\<rparr>
               in if ptr' = 0 then derror ''realloc failed'' s
                  else (Some (), s\<lparr>memory := store_ptr data ptr' (memory s)\<rparr>))"

definition pb_dec_bytes :: "'s decode_env \<Rightarrow> pb_field \<Rightarrow> nat \<Rightarrow> ('s dstate, unit) op" where
  "pb_dec_bytes env field dest =
     op_bind (on_input pb_decode_varint32) (\<lambda>sz s.
       let n = unat sz; alloc_size = n + 4;
           fill = (\<lambda>bdest. op_bind (on_memory (store bdest sz)) (\<lambda>_. read_to (bdest + 4) n))
       in if atype field = PB_ATYPE_POINTER then
            (if bytes_left (input s) < n then derror ''end-of-stream'' s
             else op_bind (allocate_field env dest alloc_size 1) (\<lambda>_ s. fill (load_ptr (memory s) dest) s) s)
          else if alloc_size > data_size field then derror ''bytes overflow'' s
          else fill dest s)"

definition pb_dec_string :: "'s decode_env \<Rightarrow> pb_field \<Rightarrow> nat \<Rightarrow> ('s dstate, unit) op" where
  "pb_dec_string env field dest =
     op_bind (on_input pb_decode_varint32) (\<lambda>sz s.
       let n = unat sz; alloc_size = unat (sz + 1);
           fill = (\<lambda>dest s. case read_to dest n s of
                     (status, s) \<Rightarrow> (status, s\<lparr>memory := store_bytes (dest + n) [0] (memory s)\<rparr>))
       in if alloc_size < n then derror ''size too large'' s
          else if atype field = PB_ATYPE_POINTER then
            (if bytes_left (input s) < n then derror ''end-of-stream'' s
             else op_bind (allocate_field env dest alloc_size 1) (\<lambda>_ s. fill (load_ptr (memory s) dest) s) s)
          else if alloc_size > data_size field then derror ''string overflow'' s
          else fill dest s)"

definition pb_dec_fixed_length_bytes :: "pb_field \<Rightarrow> nat \<Rightarrow> ('s dstate, unit) op" where
  "pb_dec_fixed_length_bytes field dest =
     op_bind (on_input pb_decode_varint32) (\<lambda>sz.
       if sz = 0 then on_memory (store_bytes dest (replicate (data_size field) 0))
       else if unat sz \<noteq> data_size field then derror ''incorrect fixed length bytes size''
       else read_to dest (data_size field))"

text \<open>
  \<open>decode field True\<close> is \<open>pb_decode\<close> for the submessage of the field, and \<open>decode field False\<close> is
  \<open>pb_decode_noinit\<close>.
\<close>

type_synonym 's subdecoder = "pb_field \<Rightarrow> bool \<Rightarrow> nat \<Rightarrow> ('s dstate, unit) op"

definition pb_dec_submessage :: "'s subdecoder \<Rightarrow> pb_field \<Rightarrow> nat \<Rightarrow> ('s dstate, unit) op" where
  "pb_dec_submessage decode field dest =
     op_bind (on_input pb_make_string_substream) (\<lambda>sub s.
       case field_ptr field of
         Submsg _ \<Rightarrow>
           (case in_substream (decode field (htype field = PB_HTYPE_REPEATED) dest) sub s of
              (status, sub, s) \<Rightarrow> op_bind (on_input (pb_close_string_substream sub)) (\<lambda>_ s. (status, s)) s)
       | _ \<Rightarrow> derror ''invalid field descriptor'' s)"

text \<open>The table \<open>PB_DECODERS\<close>; its entry for extensions is \<open>NULL\<close> and never called.\<close>

definition PB_DECODERS :: "'s subdecoder \<Rightarrow> 's decode_env \<Rightarrow> pb_field \<Rightarrow> nat \<Rightarrow> ('s dstate, unit) op" where
  "PB_DECODERS decode env field dest =
     (let l = ltype field in
      if l = PB_LTYPE_BOOL then pb_dec_bool field dest
      else if l = PB_LTYPE_VARINT then pb_dec_varint field dest
      else if l = PB_LTYPE_UVARINT then pb_dec_uvarint field dest
      else if l = PB_LTYPE_SVARINT then pb_dec_svarint field dest
      else if l = PB_LTYPE_FIXED32 then pb_dec_fixed32 field dest
      else if l = PB_LTYPE_FIXED64 then pb_dec_fixed64 field dest
      else if l = PB_LTYPE_BYTES then pb_dec_bytes env field dest
      else if l = PB_LTYPE_STRING then pb_dec_string env field dest
      else if l = PB_LTYPE_SUBMESSAGE then pb_dec_submessage decode field dest
      else if l = PB_LTYPE_FIXED_LENGTH_BYTES then pb_dec_fixed_length_bytes field dest
      else op_fail)"

end
