(* ===== verification/PbDecodeField.thy ===== *)
theory PbDecodeField
  imports PbDecode
begin

text \<open>
  Default values, release of allocated memory, and the decoding of a single field (\<open>pb_decode.c\<close>). A
  function that the code calls for the description of a submessage is an argument here.
\<close>

section \<open>Default values\<close>

definition pb_field_set_to_default :: "(nat \<Rightarrow> mem \<Rightarrow> mem) \<Rightarrow> (nat \<Rightarrow> mem \<Rightarrow> mem) \<Rightarrow> pb_field_iter \<Rightarrow> mem \<Rightarrow> mem" where
  "pb_field_set_to_default ext_default set_sub iter m =
     (let f = iter_field iter;
          size_addr = (case pSize iter of Size_at a \<Rightarrow> a | Fixed_count \<Rightarrow> 0)
      in if ltype f = PB_LTYPE_EXTENSION then ext_default (load_ptr m (pData iter)) m
         else if atype f = PB_ATYPE_STATIC then
           (let m = (if htype f = PB_HTYPE_OPTIONAL \<and> pSize iter \<noteq> Size_at (pData iter) then store_bytes size_addr [0] m
                     else if htype f = PB_HTYPE_REPEATED \<or> htype f = PB_HTYPE_ONEOF then store size_addr (0 :: u32) m
                     else m);
                init_data = (htype f \<noteq> PB_HTYPE_REPEATED \<and> htype f \<noteq> PB_HTYPE_ONEOF)
            in if \<not> init_data then m
               else if ltype f = PB_LTYPE_SUBMESSAGE then set_sub (pData iter) m
               else case field_ptr f of
                      Default_value bs \<Rightarrow> store_bytes (pData iter) (take (data_size f) bs) m
                    | _ \<Rightarrow> store_bytes (pData iter) (replicate (data_size f) 0) m)
         else if atype f = PB_ATYPE_POINTER then
           (let m = store_ptr (pData iter) 0 m
            in if htype f = PB_HTYPE_REPEATED \<or> htype f = PB_HTYPE_ONEOF then store size_addr (0 :: u32) m else m)
         else m)"

function pb_message_set_to_defaults :: "(nat \<Rightarrow> mem \<Rightarrow> mem) \<Rightarrow> pb_field list \<Rightarrow> nat \<Rightarrow> mem \<Rightarrow> mem" where
  "pb_message_set_to_defaults ext_default fs dest m =
     fold (\<lambda>iter m. pb_field_set_to_default ext_default
             (\<lambda>dest m. pb_message_set_to_defaults ext_default (submsg_fields (iter_field iter)) dest m) iter m)
       (pb_fields_visited fs dest) m"
  by auto
termination
  by (relation "measure (\<lambda>(ext_default, fs, dest, m). size_list size fs)") (auto intro: size_submsg_fields visited_field)

declare pb_message_set_to_defaults.simps [simp del]

section \<open>Release\<close>

definition pb_free :: "nat \<Rightarrow> 's dstate \<Rightarrow> 's dstate" where
  "pb_free ptr s = s\<lparr>heap_log := heap_log s @ [Free ptr]\<rparr>"

text \<open>\<open>release_sub\<close> is \<open>pb_release\<close> for the submessage of the field.\<close>

definition release_submessages :: "(nat \<Rightarrow> 's dstate \<Rightarrow> 's dstate) \<Rightarrow> pb_field_iter \<Rightarrow> 's dstate \<Rightarrow> 's dstate" where
  "release_submessages release_sub iter s =
     (let f = iter_field iter;
          pItem = (if atype f = PB_ATYPE_POINTER then load_ptr (memory s) (pData iter) else pData iter);
          count =
            (if htype f = PB_HTYPE_REPEATED then
               (let count = (if atype f = PB_ATYPE_STATIC \<and> pSize iter = Size_at (pData iter) then array_size f
                             else unat (read_size (pSize iter) s))
                in if atype f = PB_ATYPE_STATIC \<and> count > array_size f then array_size f else count)
             else 1)
      in if pItem = 0 then s else fold (\<lambda>i. release_sub (pItem + i * data_size f)) [0..<count] s)"

definition release_pointer :: "pb_field_iter \<Rightarrow> 's dstate \<Rightarrow> 's dstate" where
  "release_pointer iter s =
     (let f = iter_field iter;
          s = (if htype f = PB_HTYPE_REPEATED \<and> ltype f \<in> {PB_LTYPE_STRING, PB_LTYPE_BYTES} then
                 (let pItem = load_ptr (memory s) (pData iter)
                  in fold (\<lambda>i s. let p = pItem + i * 8; s = pb_free (load_ptr (memory s) p) s
                                 in s\<lparr>memory := store_ptr p 0 (memory s)\<rparr>)
                       [0..<unat (read_size (pSize iter) s)] s)
               else s);
          s = (if htype f = PB_HTYPE_REPEATED then write_size (pSize iter) 0 s else s);
          s = pb_free (load_ptr (memory s) (pData iter)) s
      in s\<lparr>memory := store_ptr (pData iter) 0 (memory s)\<rparr>)"

definition pb_release_single_field ::
    "(nat \<Rightarrow> 's dstate \<Rightarrow> 's dstate) \<Rightarrow> (nat \<Rightarrow> 's dstate \<Rightarrow> 's dstate) \<Rightarrow> pb_field_iter \<Rightarrow> 's dstate \<Rightarrow> 's dstate" where
  "pb_release_single_field ext_release release_sub iter s =
     (let f = iter_field iter in
      if htype f = PB_HTYPE_ONEOF \<and> read_size (pSize iter) s \<noteq> field_tag f then s
      else
        let s = (if ltype f = PB_LTYPE_EXTENSION then ext_release (load_ptr (memory s) (pData iter)) s
                 else if ltype f = PB_LTYPE_SUBMESSAGE \<and> atype f \<noteq> PB_ATYPE_CALLBACK
                 then release_submessages release_sub iter s
                 else s)
        in if atype f = PB_ATYPE_POINTER then release_pointer iter s else s)"

function pb_release :: "(nat \<Rightarrow> 's dstate \<Rightarrow> 's dstate) \<Rightarrow> pb_field list \<Rightarrow> nat \<Rightarrow> 's dstate \<Rightarrow> 's dstate" where
  "pb_release ext_release fs dest s =
     (if dest = 0 then s
      else fold (\<lambda>iter s. pb_release_single_field ext_release
                   (\<lambda>dest s. pb_release ext_release (submsg_fields (iter_field iter)) dest s) iter s)
             (pb_fields_visited fs dest) s)"
  by auto
termination
  by (relation "measure (\<lambda>(ext_release, fs, dest, s). size_list size fs)") (auto intro: size_submsg_fields visited_field)

declare pb_release.simps [simp del]

text \<open>The result is the iterator after the call.\<close>

definition pb_release_union_field :: "'s decode_env \<Rightarrow> pb_field_iter \<Rightarrow> ('s dstate, pb_field_iter) op" where
  "pb_release_union_field env iter s =
     (let old_tag = read_size (pSize iter) s; new_tag = field_tag (iter_field iter) in
      if old_tag = 0 \<or> old_tag = new_tag then (Some iter, s)
      else case pb_field_iter_find old_tag iter of
             (False, _) \<Rightarrow> derror ''invalid union tag'' s
           | (True, iter) \<Rightarrow>
               let s = pb_release_single_field (extensions_release env)
                         (pb_release (extensions_release env) (submsg_fields (iter_field iter))) iter s
               in (case pb_field_iter_find new_tag iter of
                     (False, _) \<Rightarrow> derror ''iterator error'' s
                   | (True, iter) \<Rightarrow>
                       (Some iter, if atype (iter_field iter) = PB_ATYPE_POINTER
                                   then s\<lparr>memory := store_ptr (pData iter) 0 (memory s)\<rparr> else s)))"

section \<open>Static fields\<close>

text \<open>
  The distance of an entry from the start of its array: \<open>data_size\<close> and \<open>*size\<close> are 32-bit integers,
  and so is their product.
\<close>

definition item_offset :: "pb_field \<Rightarrow> u32 \<Rightarrow> nat" where
  "item_offset f sz = unat ((word_of_nat (data_size f) :: u32) * sz)"

text \<open>
  The loop over the entries of a packed array. Every entry takes at least one byte, so there are no more
  rounds than bytes (see \<open>static_loop_rounds\<close>). The result is the status of the last entry.
\<close>

fun static_packed_loop :: "nat \<Rightarrow> (nat \<Rightarrow> ('s dstate, unit) op) \<Rightarrow> pb_field_iter \<Rightarrow> 's dstate \<Rightarrow> bool \<times> 's dstate" where
  "static_packed_loop 0 func iter s = (True, s)"
| "static_packed_loop (Suc fuel) func iter s =
     (let f = iter_field iter; sz = read_size (pSize iter) s in
      if bytes_left (input s) > 0 \<and> unat sz < array_size f then
        (case func (pData iter + item_offset f sz) s of
           (None, s) \<Rightarrow> (False, s)
         | (Some _, s) \<Rightarrow> static_packed_loop fuel func iter (write_size (pSize iter) (read_size (pSize iter) s + 1) s))
      else (True, s))"

definition decode_static_field :: "'s subdecoder \<Rightarrow> 's decode_env \<Rightarrow> u32 \<Rightarrow> pb_field_iter \<Rightarrow> ('s dstate, unit) op" where
  "decode_static_field decode env wire_type iter s =
     (let f = iter_field iter; func = PB_DECODERS decode env f; sz = read_size (pSize iter) s in
      if htype f = PB_HTYPE_REQUIRED then func (pData iter) s
      else if htype f = PB_HTYPE_OPTIONAL then
        (let s = (case pSize iter of
                    Size_at a \<Rightarrow> if a \<noteq> pData iter then s\<lparr>memory := store_bytes a [1] (memory s)\<rparr> else s
                  | Fixed_count \<Rightarrow> s)
         in func (pData iter) s)
      else if htype f = PB_HTYPE_REPEATED then
        (if wire_type = PB_WT_STRING \<and> ltype f \<le> PB_LTYPE_LAST_PACKABLE then
           op_bind (on_input pb_make_string_substream) (\<lambda>sub s.
             case static_packed_loop (bytes_left sub) func iter (s\<lparr>input := sub\<rparr>) of
               (status, t) \<Rightarrow>
                 let sub = input t; s = t\<lparr>input := input s\<rparr>
                 in if bytes_left sub \<noteq> 0 then derror ''array overflow'' s
                    else op_bind (on_input (pb_close_string_substream sub)) (\<lambda>_ s. (if status then Some () else None, s)) s) s
         else
           let s = write_size (pSize iter) (sz + 1) s
           in if unat sz \<ge> array_size f then derror ''array overflow'' s
              else func (pData iter + item_offset f sz) s)
      else
        let s = (if ltype f = PB_LTYPE_SUBMESSAGE \<and> sz \<noteq> field_tag f then
                   s\<lparr>memory := pb_message_set_to_defaults (extensions_default env) (submsg_fields f) (pData iter)
                                (store_bytes (pData iter) (replicate (data_size f) 0) (memory s))\<rparr>
                 else s)
        in func (pData iter) (write_size (pSize iter) (field_tag f) s))"

section \<open>Pointer fields\<close>

definition initialize_pointer_field :: "'s decode_env \<Rightarrow> nat \<Rightarrow> pb_field_iter \<Rightarrow> 's dstate \<Rightarrow> 's dstate" where
  "initialize_pointer_field env pItem iter s =
     (let f = iter_field iter in
      if ltype f = PB_LTYPE_STRING \<or> ltype f = PB_LTYPE_BYTES then s\<lparr>memory := store_ptr pItem 0 (memory s)\<rparr>
      else if ltype f = PB_LTYPE_SUBMESSAGE then
        s\<lparr>memory := pb_message_set_to_defaults (extensions_default env) (submsg_fields f) pItem
                     (store_bytes pItem (replicate (data_size f) 0) (memory s))\<rparr>
      else s)"

text \<open>The loop over a packed array, which grows the array as needed; the last argument but one is \<open>allocated_size\<close>.\<close>

fun pointer_packed_loop ::
    "nat \<Rightarrow> 's decode_env \<Rightarrow> (nat \<Rightarrow> ('s dstate, unit) op) \<Rightarrow> pb_field_iter \<Rightarrow> nat \<Rightarrow> 's dstate \<Rightarrow> (bool \<times> string option) \<times> 's dstate" where
  "pointer_packed_loop 0 env func iter allocated s = ((True, None), s)"
| "pointer_packed_loop (Suc fuel) env func iter allocated s =
     (let f = iter_field iter; sz = unat (read_size (pSize iter) s); left = bytes_left (input s) in
      if left = 0 then ((True, None), s)
      else if sz = PB_SIZE_MAX then ((False, Some ''too many array entries''), s)
      else
        let remain = (left - 1) div data_size f + 1;
            grown = (if sz + 1 > allocated
                     then allocated + (if remain < PB_SIZE_MAX - allocated then remain else 1)
                     else allocated)
        in case (if sz + 1 > allocated then allocate_field env (pData iter) (data_size f) grown s else (Some (), s)) of
             (None, s) \<Rightarrow> ((False, None), s)
           | (Some _, s) \<Rightarrow>
               let arr = load_ptr (memory s) (pData iter); pItem = arr + item_offset f (read_size (pSize iter) s)
               in if pItem = 0 then ((False, None), s)
                  else case func pItem (initialize_pointer_field env pItem iter s) of
                         (None, s) \<Rightarrow> ((False, None), s)
                       | (Some _, s) \<Rightarrow>
                           pointer_packed_loop fuel env func iter grown
                             (write_size (pSize iter) (read_size (pSize iter) s + 1) s))"

definition decode_pointer_field :: "'s subdecoder \<Rightarrow> 's decode_env \<Rightarrow> u32 \<Rightarrow> pb_field_iter \<Rightarrow> ('s dstate, unit) op" where
  "decode_pointer_field decode env wire_type iter s =
     (let f = iter_field iter; func = PB_DECODERS decode env f; sz = read_size (pSize iter) s in
      if htype f \<noteq> PB_HTYPE_REPEATED then
        (let s = (if ltype f = PB_LTYPE_SUBMESSAGE \<and> load_ptr (memory s) (pData iter) \<noteq> 0
                  then pb_release_single_field (extensions_release env) (pb_release (extensions_release env) (submsg_fields f)) iter s
                  else s);
             s = (if htype f = PB_HTYPE_ONEOF then write_size (pSize iter) (field_tag f) s else s)
         in if ltype f = PB_LTYPE_STRING \<or> ltype f = PB_LTYPE_BYTES then func (pData iter) s
            else op_bind (allocate_field env (pData iter) (data_size f) 1) (\<lambda>_ s.
                   let p = load_ptr (memory s) (pData iter)
                   in func p (initialize_pointer_field env p iter s)) s)
      else if wire_type = PB_WT_STRING \<and> ltype f \<le> PB_LTYPE_LAST_PACKABLE then
        op_bind (on_input pb_make_string_substream) (\<lambda>sub s.
          case pointer_packed_loop (bytes_left sub) env func iter (unat sz) (s\<lparr>input := sub\<rparr>) of
            ((status, msg), t) \<Rightarrow>
              let sub = input t;
                  parent = (case msg of None \<Rightarrow> input s | Some m \<Rightarrow> (input s)\<lparr>ierrmsg := Some m\<rparr>);
                  s = t\<lparr>input := parent\<rparr>
              in op_bind (on_input (pb_close_string_substream sub)) (\<lambda>_ s. (if status then Some () else None, s)) s) s
      else if unat sz = PB_SIZE_MAX then derror ''too many array entries'' s
      else
        op_bind (allocate_field env (pData iter) (data_size f) (unat (sz + 1))) (\<lambda>_ s.
          let pItem = load_ptr (memory s) (pData iter) + item_offset f (read_size (pSize iter) s);
              s = write_size (pSize iter) (read_size (pSize iter) s + 1) s
          in func pItem (initialize_pointer_field env pItem iter s)) s)"

section \<open>Callback fields\<close>

text \<open>
  The loop that calls the callback until its stream is empty. A callback that neither fails nor ever
  empties the stream hangs the decoder: then the loop has no result, and the call has none either, which
  is shown as a failure. With a callback that reads at least one byte each time the loop ends.
\<close>

partial_function (option) callback_loop :: "('s dstate, unit) op \<Rightarrow> 's dstate \<Rightarrow> (unit option \<times> 's dstate) option" where
  [code]: "callback_loop decode s =
     (case decode s of
        (None, s) \<Rightarrow> Some (None, s)
      | (Some _, s) \<Rightarrow> if bytes_left (input s) \<noteq> 0 then callback_loop decode s else Some (Some (), s))"

lemma callback_loop_ends:
  assumes "\<And>s t. decode s = (Some (), t) \<Longrightarrow> bytes_left (input s) \<noteq> 0 \<Longrightarrow> bytes_left (input t) < bytes_left (input s)"
  shows "bytes_left (input s) \<noteq> 0 \<Longrightarrow> callback_loop decode s \<noteq> None"
proof (induction "bytes_left (input s)" arbitrary: s rule: less_induct)
  case less
  show ?case
    using less assms [of s] by (subst callback_loop.simps) (auto split: prod.split option.split)
qed

definition run_callback :: "('s dstate, unit) op \<Rightarrow> ('s dstate, unit) op" where
  "run_callback decode s = (case callback_loop decode s of None \<Rightarrow> op_fail s | Some r \<Rightarrow> r)"

definition decode_callback_field :: "'s decode_env \<Rightarrow> u32 \<Rightarrow> pb_field_iter \<Rightarrow> ('s dstate, unit) op" where
  "decode_callback_field env wire_type iter s =
     (let f = iter_field iter; funcs = load_ptr (memory s) (pData iter); arg = pData iter + 8 in
      if pData iter = 0 \<or> funcs = 0 then on_input (pb_skip_field wire_type) s
      else if wire_type = PB_WT_STRING then
        op_bind (on_input pb_make_string_substream) (\<lambda>sub s.
          case in_substream (run_callback (callback_decoder env funcs f arg)) sub s of
            (None, _, s) \<Rightarrow> derror ''callback failed'' s
          | (Some _, sub, s) \<Rightarrow> on_input (pb_close_string_substream sub) s) s
      else
        op_bind (on_input (read_raw_value wire_type 10)) (\<lambda>buffer s.
          case in_substream (callback_decoder env funcs f arg) (pb_istream_from_buffer buffer (length buffer)) s of
            (status, _, s) \<Rightarrow> (status, s)) s)"

definition decode_field :: "'s subdecoder \<Rightarrow> 's decode_env \<Rightarrow> u32 \<Rightarrow> pb_field_iter \<Rightarrow> ('s dstate, pb_field_iter) op" where
  "decode_field decode env wire_type iter =
     op_bind (if htype (iter_field iter) = PB_HTYPE_ONEOF then pb_release_union_field env iter else op_return iter)
       (\<lambda>iter. op_bind
          (if atype (iter_field iter) = PB_ATYPE_STATIC then decode_static_field decode env wire_type iter
           else if atype (iter_field iter) = PB_ATYPE_POINTER then decode_pointer_field decode env wire_type iter
           else if atype (iter_field iter) = PB_ATYPE_CALLBACK then decode_callback_field env wire_type iter
           else derror ''invalid field type'')
          (\<lambda>_. op_return iter))"

end
