(* ===== verification/PbDecodeMessage.thy ===== *)
theory PbDecodeMessage
  imports PbDecodeField
begin

text \<open>Decoding of whole messages (\<open>pb_decode.c\<close>): the loop over the fields of the stream and the checks after it.\<close>

definition PB_MAX_REQUIRED_FIELDS :: nat where "PB_MAX_REQUIRED_FIELDS = 64"

text \<open>The local variables of \<open>pb_decode_noinit\<close>; \<open>fixed_count_size\<close> is in the state.\<close>

record decode_vars =
  fields_seen :: "u32 list"
  extension_range_start :: u32
  fixed_count_field :: "nat option"
  field_iter :: pb_field_iter

definition decode_extension :: "'s decode_env \<Rightarrow> u32 \<Rightarrow> u32 \<Rightarrow> pb_field_iter \<Rightarrow> ('s dstate, unit) op" where
  "decode_extension env tag wire_type iter s =
     extensions_decoder env (load_ptr (memory s) (pData iter)) tag wire_type s"

text \<open>
  A tag that is not in the description: the extensions are asked if there is an extension field whose
  range may hold it, and the value is skipped if they did not read it.
\<close>

definition decode_unknown :: "'s decode_env \<Rightarrow> u32 \<Rightarrow> u32 \<Rightarrow> decode_vars \<Rightarrow> ('s dstate, decode_vars) op" where
  "decode_unknown env tag wire_type vars =
     (let skip = (\<lambda>vars. op_bind (on_input (pb_skip_field wire_type)) (\<lambda>_. op_return vars)) in
      if tag \<ge> extension_range_start vars then
        (case find_extension_field (field_iter vars) of
           (found, iter) \<Rightarrow>
             let start = (if found then field_tag (iter_field iter) else - 1);
                 vars = vars\<lparr>field_iter := iter, extension_range_start := start\<rparr>
             in if tag \<ge> start then
                  (\<lambda>s. let left = bytes_left (input s) in
                       op_bind (decode_extension env tag wire_type iter) (\<lambda>_ s.
                         if left \<noteq> bytes_left (input s) then (Some vars, s) else skip vars s) s)
                else skip vars)
      else skip vars)"

text \<open>A repeated field of fixed size has no counter in the struct; it is counted in \<open>fixed_count_size\<close>.\<close>

definition enter_fixed_count :: "decode_vars \<Rightarrow> ('s dstate, decode_vars) op" where
  "enter_fixed_count vars s =
     (let iter = field_iter vars; f = iter_field iter in
      if htype f = PB_HTYPE_REPEATED \<and> pSize iter = Size_at (pData iter) then
        (let vars' = vars\<lparr>field_iter := iter\<lparr>pSize := Fixed_count\<rparr>\<rparr> in
         if fixed_count_field vars \<noteq> Some (iter_pos iter) then
           (case fixed_count_field vars of
              Some i \<Rightarrow>
                if unat (fixed_count_size s) \<noteq> array_size (field_at (iter_start iter) i)
                then derror ''wrong size for fixed count field'' s
                else (Some (vars'\<lparr>fixed_count_field := Some (iter_pos iter)\<rparr>), s\<lparr>fixed_count_size := 0\<rparr>)
            | None \<Rightarrow> (Some (vars'\<lparr>fixed_count_field := Some (iter_pos iter)\<rparr>), s\<lparr>fixed_count_size := 0\<rparr>))
         else (Some vars', s))
      else (Some vars, s))"

definition mark_seen :: "decode_vars \<Rightarrow> decode_vars" where
  "mark_seen vars =
     (let iter = field_iter vars; i = required_field_index iter in
      if htype (iter_field iter) = PB_HTYPE_REQUIRED \<and> i < PB_MAX_REQUIRED_FIELDS
      then vars\<lparr>fields_seen := (fields_seen vars)[i div 32 := fields_seen vars ! (i div 32) OR push_bit (i mod 32) 1]\<rparr>
      else vars)"

text \<open>One round of the loop for a tag and its wire type.\<close>

definition decode_tagged ::
    "'s subdecoder \<Rightarrow> 's decode_env \<Rightarrow> u32 \<Rightarrow> u32 \<Rightarrow> decode_vars \<Rightarrow> ('s dstate, decode_vars) op" where
  "decode_tagged decode env wire_type tag vars =
     (case pb_field_iter_find tag (field_iter vars) of
        (False, iter) \<Rightarrow> decode_unknown env tag wire_type (vars\<lparr>field_iter := iter\<rparr>)
      | (True, iter) \<Rightarrow>
          op_bind (enter_fixed_count (vars\<lparr>field_iter := iter\<rparr>)) (\<lambda>vars.
            let vars = mark_seen vars in
            op_bind (decode_field decode env wire_type (field_iter vars)) (\<lambda>iter.
              op_return (vars\<lparr>field_iter := iter\<rparr>))))"

text \<open>
  The loop over the stream. Every round reads a tag, which is at least one byte, so the number of bytes
  bounds the number of rounds.
\<close>

fun decode_loop :: "nat \<Rightarrow> 's subdecoder \<Rightarrow> 's decode_env \<Rightarrow> decode_vars \<Rightarrow> ('s dstate, decode_vars) op" where
  "decode_loop 0 decode env vars s = (Some vars, s)"
| "decode_loop (Suc fuel) decode env vars s =
     (if bytes_left (input s) = 0 then (Some vars, s)
      else case pb_decode_tag (input s) of
             ((None, eof), t) \<Rightarrow> (if eof then Some vars else None, s\<lparr>input := t\<rparr>)
           | ((Some (wire_type, tag), _), t) \<Rightarrow>
               op_bind (decode_tagged decode env wire_type tag vars) (decode_loop fuel decode env) (s\<lparr>input := t\<rparr>))"

text \<open>The number of required fields, found by going from the current field to the last one.\<close>

definition count_required :: "pb_field_iter \<Rightarrow> nat" where
  "count_required iter =
     (let final = last (iter_visits iter);
          req_field_count = required_field_index final;
          more = (htype (iter_field final) = PB_HTYPE_REQUIRED \<and> field_tag (field_at (iter_start iter) 0) \<noteq> 0)
      in min (if more then req_field_count + 1 else req_field_count) PB_MAX_REQUIRED_FIELDS)"

definition required_present :: "u32 list \<Rightarrow> nat \<Rightarrow> bool" where
  "required_present seen count \<longleftrightarrow>
     list_all (\<lambda>i. seen ! i = - 1) [0..<count div 32]
     \<and> (count mod 32 \<noteq> 0 \<longrightarrow> seen ! (count div 32) = drop_bit (32 - count mod 32) (- 1))"

definition finish_fields :: "decode_vars \<Rightarrow> ('s dstate, unit) op" where
  "finish_fields vars s =
     (let fixed_ok = (case fixed_count_field vars of
                        None \<Rightarrow> True
                      | Some i \<Rightarrow> unat (fixed_count_size s) = array_size (field_at (iter_start (field_iter vars)) i))
      in if \<not> fixed_ok then derror ''wrong size for fixed count field'' s
         else if \<not> required_present (fields_seen vars) (count_required (field_iter vars))
         then derror ''missing required field'' s
         else (Some (), s))"

definition decode_fields :: "'s subdecoder \<Rightarrow> 's decode_env \<Rightarrow> pb_field list \<Rightarrow> nat \<Rightarrow> ('s dstate, unit) op" where
  "decode_fields decode env fs dest s =
     (let vars = \<lparr>fields_seen = [0, 0], extension_range_start = 0, fixed_count_field = None,
                  field_iter = snd (pb_field_iter_begin fs dest)\<rparr>
      in case op_bind (decode_loop (bytes_left (input s)) decode env vars) finish_fields (s\<lparr>fixed_count_size := 0\<rparr>) of
           (status, t) \<Rightarrow> (status, t\<lparr>fixed_count_size := fixed_count_size s\<rparr>))"

text \<open>\<open>pb_decode\<close>, given what \<open>pb_decode_noinit\<close> does.\<close>

definition decode_with_defaults ::
    "'s decode_env \<Rightarrow> pb_field list \<Rightarrow> nat \<Rightarrow> ('s dstate, unit) op \<Rightarrow> ('s dstate, unit) op" where
  "decode_with_defaults env fs dest noinit s =
     (case noinit (s\<lparr>memory := pb_message_set_to_defaults (extensions_default env) fs dest (memory s)\<rparr>) of
        (None, s) \<Rightarrow> (None, pb_release (extensions_release env) fs dest s)
      | (Some _, s) \<Rightarrow> (Some (), s))"

text \<open>
  The decoder of a submessage is the decoder with its description. Only fields of the description
  are asked for, so that the test is always true; it makes the recursion well-founded.
\<close>

function pb_decode_noinit :: "'s decode_env \<Rightarrow> pb_field list \<Rightarrow> nat \<Rightarrow> ('s dstate, unit) op" where
  "pb_decode_noinit env fs dest =
     decode_fields
       (\<lambda>f init dest. if f \<notin> set fs then op_fail
          else if init then decode_with_defaults env (submsg_fields f) dest (pb_decode_noinit env (submsg_fields f) dest)
          else pb_decode_noinit env (submsg_fields f) dest)
       env fs dest"
  by auto
termination
  by (relation "measure (\<lambda>(env, fs, dest). size_list size fs)") (auto intro: size_submsg_fields)

declare pb_decode_noinit.simps [simp del]

definition pb_decode :: "'s decode_env \<Rightarrow> pb_field list \<Rightarrow> nat \<Rightarrow> ('s dstate, unit) op" where
  "pb_decode env fs dest = decode_with_defaults env fs dest (pb_decode_noinit env fs dest)"

definition pb_decode_nullterminated :: "'s decode_env \<Rightarrow> pb_field list \<Rightarrow> nat \<Rightarrow> ('s dstate, unit) op" where
  "pb_decode_nullterminated = pb_decode"

text \<open>\<open>pb_decode_delimited\<close> and \<open>pb_decode_delimited_noinit\<close>.\<close>

definition pb_decode_delimited_message :: "'s decode_env \<Rightarrow> pb_field list \<Rightarrow> nat \<Rightarrow> ('s dstate, unit) op" where
  "pb_decode_delimited_message env fs dest = with_substream (pb_decode env fs dest)"

definition pb_decode_delimited_noinit :: "'s decode_env \<Rightarrow> pb_field list \<Rightarrow> nat \<Rightarrow> ('s dstate, unit) op" where
  "pb_decode_delimited_noinit env fs dest = with_substream (pb_decode_noinit env fs dest)"

end
