(* ===== verification/PbLayout.thy ===== *)
theory PbLayout
  imports PbEncodeMessage PbDecodeMessage
begin

text \<open>
  Messages of static fields: required ones, and optional ones with a \<open>has_\<close> flag in front, of every
  scalar type, strings, bytes and submessages of the same kind. Where their fields are, when two structs
  hold the same message, and what the default values are.
\<close>

section \<open>Offsets\<close>

definition field_offset :: "pb_field list \<Rightarrow> nat \<Rightarrow> nat" where
  "field_offset fs k = sum_list (map (\<lambda>f. data_offset f + data_size f) (take k fs))"

definition data_at :: "pb_field list \<Rightarrow> nat \<Rightarrow> nat \<Rightarrow> nat" where
  "data_at fs dest k = dest + field_offset fs k + data_offset (fs ! k)"

definition has_at :: "pb_field list \<Rightarrow> nat \<Rightarrow> nat \<Rightarrow> nat" where
  "has_at fs dest k = address_plus (data_at fs dest k) (size_offset (fs ! k))"

abbreviation message_size :: "pb_field list \<Rightarrow> nat" where
  "message_size fs \<equiv> field_offset fs (length fs)"

text \<open>A field, by itself and within the description of a message.\<close>

definition scalar_size :: "u8 \<Rightarrow> nat \<Rightarrow> bool" where
  "scalar_size l n \<longleftrightarrow>
     (if l = PB_LTYPE_BOOL then n = 1
      else if l \<in> {PB_LTYPE_VARINT, PB_LTYPE_UVARINT, PB_LTYPE_SVARINT} then n \<in> {1, 2, 4, 8}
      else if l = PB_LTYPE_FIXED32 then n = 4
      else if l = PB_LTYPE_FIXED64 then n = 8
      else l \<in> {PB_LTYPE_BYTES, PB_LTYPE_STRING, PB_LTYPE_FIXED_LENGTH_BYTES})"

definition placed_ok :: "pb_field \<Rightarrow> bool" where
  "placed_ok f \<longleftrightarrow>
     0 < field_tag f \<and> field_tag f < 2 ^ 29 \<and> data_size f < 2 ^ 32 \<and> atype f = PB_ATYPE_STATIC \<and>
     (htype f = PB_HTYPE_REQUIRED \<and> size_offset f = 0
      \<or> htype f = PB_HTYPE_OPTIONAL \<and> size_offset f < 0 \<and> nat (- size_offset f) \<le> data_offset f)"

function field_ok :: "pb_field \<Rightarrow> bool" where
  "field_ok f \<longleftrightarrow>
     placed_ok f \<and>
     (if ltype f = PB_LTYPE_SUBMESSAGE then
        (case field_ptr f of
           Submsg fs \<Rightarrow> list_all field_ok fs \<and> distinct (map field_tag fs) \<and> message_size fs \<le> data_size f
         | _ \<Rightarrow> False)
      else scalar_size (ltype f) (data_size f))"
  by auto
termination
proof (relation "measure size")
  fix f fs g assume "field_ptr f = Submsg fs" "g \<in> set fs"
  then show "(g, f) \<in> measure size"
    using size_list_estimation' [of g fs "size g" size] by (cases f) auto
qed simp

declare field_ok.simps [simp del]

definition message_ok :: "pb_field list \<Rightarrow> bool" where
  "message_ok fs \<longleftrightarrow> list_all field_ok fs \<and> distinct (map field_tag fs)"

lemma message_ok_nth:
  assumes "message_ok fs" "k < length fs"
  shows "field_ok (fs ! k)" "placed_ok (fs ! k)" "atype (fs ! k) = PB_ATYPE_STATIC"
    "htype (fs ! k) = PB_HTYPE_REQUIRED \<or> htype (fs ! k) = PB_HTYPE_OPTIONAL"
  using assms by (auto simp: message_ok_def list_all_length field_ok.simps placed_ok_def)

lemma message_ok_fields: "message_ok fs \<Longrightarrow> pb_fields_ok fs"
  by (auto simp: message_ok_def pb_fields_ok_def list_all_length field_ok.simps placed_ok_def)

lemma message_ok_submsg:
  "field_ok f \<Longrightarrow> ltype f = PB_LTYPE_SUBMESSAGE \<Longrightarrow>
     field_ptr f = Submsg (submsg_fields f) \<and> message_ok (submsg_fields f) \<and> message_size (submsg_fields f) \<le> data_size f"
  by (auto simp: field_ok.simps [of f] message_ok_def submsg_fields_def split: pb_ptr.splits)

lemma field_offset_Suc: "k < length fs \<Longrightarrow> field_offset fs (Suc k) = field_offset fs k + data_offset (fs ! k) + data_size (fs ! k)"
  by (simp add: field_offset_def take_Suc_conv_app_nth)

lemma field_offset_mono: "i \<le> j \<Longrightarrow> field_offset fs i \<le> field_offset fs j"
proof (induction j)
  case (Suc j)
  have "field_offset fs j \<le> field_offset fs (Suc j)"
  proof (cases "j < length fs")
    case True
    then show ?thesis by (simp add: field_offset_Suc)
  next
    case False
    then show ?thesis by (simp add: field_offset_def)
  qed
  then show ?case using Suc by (cases "i = Suc j") auto
qed (simp add: field_offset_def)

lemma slot:
  assumes "message_ok fs" "k < length fs"
  shows "dest + field_offset fs k \<le> data_at fs dest k"
    "data_at fs dest k + data_size (fs ! k) = dest + field_offset fs (Suc k)"
    "htype (fs ! k) = PB_HTYPE_OPTIONAL \<Longrightarrow> dest + field_offset fs k \<le> has_at fs dest k"
    "htype (fs ! k) = PB_HTYPE_OPTIONAL \<Longrightarrow> has_at fs dest k < data_at fs dest k"
  using message_ok_nth(2) [OF assms] assms(2)
  by (auto simp: data_at_def has_at_def field_offset_Suc placed_ok_def address_plus_def pb_type_defs)

lemma iter_at_address:
  assumes "message_ok fs" "0 < dest" "k < length fs"
  shows "pData (iter_at fs dest k) = data_at fs dest k \<and> pSize (iter_at fs dest k) = Size_at (has_at fs dest k)"
  using assms(3)
proof (induction k)
  case 0
  then show ?case using assms(2) by (simp add: iter_at.simps pb_field_iter_begin_def Let_def data_at_def has_at_def field_offset_def field_at_def)
next
  case (Suc k)
  then have k: "k < length fs" "Suc k < length fs" by simp_all
  note tk = message_ok_nth [OF assms(1) k(1)] and tk' = message_ok_nth [OF assms(1) k(2)]
  have z: "field_tag (fs ! k) \<noteq> 0" "field_tag (fs ! Suc k) \<noteq> 0" using tk(2) tk'(2) by (auto simp: placed_ok_def)
  have "pb_field_iter_next (iter_at fs dest k) = (True, iter_at fs dest (Suc k))"
    using next_iter_at [OF message_ok_fields [OF assms(1)] k(1)] k(2) by simp
  moreover have "iter_pos (iter_at fs dest k) = k" using message_ok_fields [OF assms(1)] k by simp
  ultimately have "iter_at fs dest (Suc k) = snd (pb_field_iter_next (iter_at fs dest k))" by simp
  moreover have "htype (fs ! k) \<noteq> PB_HTYPE_ONEOF" "htype (fs ! k) \<noteq> PB_HTYPE_REPEATED" "atype (fs ! k) \<noteq> PB_ATYPE_POINTER"
    using tk(3,4) by (auto simp: pb_type_defs)
  ultimately have "pData (iter_at fs dest (Suc k)) = pData (iter_at fs dest k) + data_size (fs ! k) + data_offset (fs ! Suc k)"
    "pSize (iter_at fs dest (Suc k)) = Size_at (address_plus (pData (iter_at fs dest (Suc k))) (size_offset (fs ! Suc k)))"
    using z k message_ok_fields [OF assms(1)] by (simp_all add: pb_field_iter_next_def Let_def field_at_def)
  then show ?case using Suc.IH [OF k(1)] k(1) by (simp add: data_at_def has_at_def field_offset_Suc add.assoc)
qed

section \<open>The same message in two places\<close>

text \<open>
  Whether the value at \<open>dest\<close> is the one at \<open>src\<close>; strings and byte arrays must be within their fields. A
  value that is the same as itself is one that can be encoded and decoded.
\<close>

function same_value :: "pb_field \<Rightarrow> mem \<Rightarrow> nat \<Rightarrow> mem \<Rightarrow> nat \<Rightarrow> bool" where
  "same_value f m src m' dest \<longleftrightarrow>
     (if ltype f = PB_LTYPE_SUBMESSAGE then
        list_all (\<lambda>(g, k).
          (htype g = PB_HTYPE_OPTIONAL \<longrightarrow>
             safe_read_bool m' (has_at (submsg_fields f) dest k) = safe_read_bool m (has_at (submsg_fields f) src k)) \<and>
          (htype g = PB_HTYPE_REQUIRED \<or> safe_read_bool m (has_at (submsg_fields f) src k) \<longrightarrow>
             same_value g m (data_at (submsg_fields f) src k) m' (data_at (submsg_fields f) dest k)))
          (zip (submsg_fields f) [0..<length (submsg_fields f)])
      else if ltype f = PB_LTYPE_BOOL then safe_read_bool m' dest = safe_read_bool m src
      else if ltype f = PB_LTYPE_STRING then
        (let n = string_length m src 0 (data_size f)
         in n < data_size f \<and> load_bytes m' dest n = load_bytes m src n \<and> m' (dest + n) = 0)
      else if ltype f = PB_LTYPE_BYTES then
        (let n = unat (load m src :: u32) in 4 + n \<le> data_size f \<and> load_bytes m' dest (4 + n) = load_bytes m src (4 + n))
      else load_bytes m' dest (data_size f) = load_bytes m src (data_size f))"
  by auto
termination
proof (relation "measure (\<lambda>(f, _). size f)")
  fix f and g :: pb_field and k :: nat
  fix m m' :: mem and src dest :: nat and z
  assume "z \<in> set (zip (submsg_fields f) [0..<length (submsg_fields f)])" "(g, k) = z"
  then have "g \<in> set (submsg_fields f)" by (metis set_zip_leftD)
  then have "size g \<le> size_list size (submsg_fields f)"
    using size_list_estimation' [of g "submsg_fields f" "size g" size] by auto
  also have "\<dots> < size f" by (cases f) (auto simp: submsg_fields_def split: pb_ptr.split)
  finally show "((g, m, data_at (submsg_fields f) src k, m', data_at (submsg_fields f) dest k), f, m, src, m', dest)
      \<in> measure (\<lambda>(f, _). size f)" by simp
qed simp

declare same_value.simps [simp del]

definition same_message :: "pb_field list \<Rightarrow> mem \<Rightarrow> nat \<Rightarrow> mem \<Rightarrow> nat \<Rightarrow> bool" where
  "same_message fs m src m' dest \<longleftrightarrow>
     (\<forall>k < length fs.
        (htype (fs ! k) = PB_HTYPE_OPTIONAL \<longrightarrow> safe_read_bool m' (has_at fs dest k) = safe_read_bool m (has_at fs src k)) \<and>
        (htype (fs ! k) = PB_HTYPE_REQUIRED \<or> safe_read_bool m (has_at fs src k) \<longrightarrow>
           same_value (fs ! k) m (data_at fs src k) m' (data_at fs dest k)))"

lemma same_value_submessage:
  "ltype f = PB_LTYPE_SUBMESSAGE \<Longrightarrow> same_value f m src m' dest \<longleftrightarrow> same_message (submsg_fields f) m src m' dest"
  by (subst same_value.simps) (auto simp: same_message_def list_all_length)


lemma same_value_scalar:
  "ltype f = PB_LTYPE_BOOL \<Longrightarrow> same_value f m src m' dest \<longleftrightarrow> safe_read_bool m' dest = safe_read_bool m src"
  "ltype f = PB_LTYPE_STRING \<Longrightarrow> same_value f m src m' dest \<longleftrightarrow>
     string_length m src 0 (data_size f) < data_size f
     \<and> load_bytes m' dest (string_length m src 0 (data_size f)) = load_bytes m src (string_length m src 0 (data_size f))
     \<and> m' (dest + string_length m src 0 (data_size f)) = 0"
  "ltype f = PB_LTYPE_BYTES \<Longrightarrow> same_value f m src m' dest \<longleftrightarrow>
     4 + unat (load m src :: u32) \<le> data_size f
     \<and> load_bytes m' dest (4 + unat (load m src :: u32)) = load_bytes m src (4 + unat (load m src :: u32))"
  "ltype f \<notin> {PB_LTYPE_BOOL, PB_LTYPE_STRING, PB_LTYPE_BYTES, PB_LTYPE_SUBMESSAGE} \<Longrightarrow>
     same_value f m src m' dest \<longleftrightarrow> load_bytes m' dest (data_size f) = load_bytes m src (data_size f)"
  by (simp_all add: same_value.simps [of f] Let_def pb_type_defs)

text \<open>Memory that was changed in \<open>n\<close> bytes at \<open>p\<close> only.\<close>

definition changed_within :: "nat \<Rightarrow> nat \<Rightarrow> mem \<Rightarrow> mem \<Rightarrow> bool" where
  "changed_within p n m m' \<longleftrightarrow> (\<forall>a. a < p \<or> p + n \<le> a \<longrightarrow> m' a = m a)"

lemma changed_refl [simp]: "changed_within p n m m"
  by (simp add: changed_within_def)

lemma changed_trans: "changed_within p n m1 m2 \<Longrightarrow> changed_within p n m2 m3 \<Longrightarrow> changed_within p n m1 m3"
  by (simp add: changed_within_def)

lemma changed_mono: "changed_within p n m m' \<Longrightarrow> q \<le> p \<Longrightarrow> p + n \<le> q + k \<Longrightarrow> changed_within q k m m'"
  by (auto simp: changed_within_def)

lemma changed_store_bytes [simp]: "length bs \<le> n \<Longrightarrow> changed_within p n m (store_bytes p bs m)"
  by (auto simp: changed_within_def)

lemma changed_load: "changed_within p n m m' \<Longrightarrow> q + k \<le> p \<or> p + n \<le> q \<Longrightarrow> load_bytes m' q k = load_bytes m q k"
  by (rule load_bytes_cong) (auto simp: changed_within_def)

lemma changed_at: "changed_within p n m m' \<Longrightarrow> a < p \<or> p + n \<le> a \<Longrightarrow> m' a = m a"
  by (auto simp: changed_within_def)

lemma same_value_cong:
  assumes "field_ok f" "\<And>a. dest \<le> a \<Longrightarrow> a < dest + data_size f \<Longrightarrow> m1 a = m2 a"
  shows "same_value f m src m1 dest \<longleftrightarrow> same_value f m src m2 dest"
  using assms
proof (induction f m src m1 dest rule: same_value.induct)
  case (1 f m src m1 dest)
  have eq: "load_bytes m1 dest n = load_bytes m2 dest n" if "n \<le> data_size f" for n
    using "1.prems"(2) that by (intro load_bytes_cong) auto
  show ?case
  proof (cases "ltype f = PB_LTYPE_SUBMESSAGE")
    case True
    let ?fs = "submsg_fields f"
    have ok: "message_ok ?fs" and sz: "message_size ?fs \<le> data_size f"
      using message_ok_submsg [OF "1.prems"(1) True] by simp_all
    have "safe_read_bool m1 (has_at ?fs dest k) = safe_read_bool m2 (has_at ?fs dest k)"
      if k: "k < length ?fs" "htype (?fs ! k) = PB_HTYPE_OPTIONAL" for k
    proof -
      have "dest \<le> has_at ?fs dest k" "has_at ?fs dest k < dest + field_offset ?fs (Suc k)"
        using slot [OF ok k(1), of dest] k(2) by auto
      moreover have "field_offset ?fs (Suc k) \<le> data_size f" using field_offset_mono [of "Suc k" "length ?fs" ?fs] k(1) sz by simp
      ultimately have "m1 (has_at ?fs dest k) = m2 (has_at ?fs dest k)" by (intro "1.prems"(2)) linarith+
      then show ?thesis by (simp add: safe_read_bool_def)
    qed
    moreover have "same_value (?fs ! k) m (data_at ?fs src k) m1 (data_at ?fs dest k) \<longleftrightarrow> same_value (?fs ! k) m (data_at ?fs src k) m2 (data_at ?fs dest k)"
      if k: "k < length ?fs" and p: "htype (?fs ! k) = PB_HTYPE_REQUIRED \<or> safe_read_bool m (has_at ?fs src k)" for k
    proof -
      have z: "(?fs ! k, k) \<in> set (zip ?fs [0..<length ?fs])" using k by (auto simp: in_set_zip)
      have "field_offset ?fs (Suc k) \<le> data_size f" using field_offset_mono [of "Suc k" "length ?fs" ?fs] k sz by simp
      have "m1 a = m2 a" if "data_at ?fs dest k \<le> a" "a < data_at ?fs dest k + data_size (?fs ! k)" for a
        by (rule "1.prems"(2)) (use slot(1,2) [OF ok k, of dest] that \<open>field_offset ?fs (Suc k) \<le> data_size f\<close> in linarith)+
      then show ?thesis by (rule "1.IH" [OF True z refl p message_ok_nth(1) [OF ok k]])
    qed
    ultimately show ?thesis by (auto simp: same_value_submessage [OF True] same_message_def)
  next
    case False
    have sc: "scalar_size (ltype f) (data_size f)" using "1.prems"(1) False by (simp add: field_ok.simps [of f])
    consider "ltype f = PB_LTYPE_BOOL" | "ltype f = PB_LTYPE_STRING" | "ltype f = PB_LTYPE_BYTES"
      | "ltype f \<notin> {PB_LTYPE_BOOL, PB_LTYPE_STRING, PB_LTYPE_BYTES}" by auto
    then show ?thesis
    proof cases
      case 1
      then have "data_size f = 1" using sc by (simp add: scalar_size_def)
      then show ?thesis using "1.prems"(2) by (simp add: same_value_scalar(1) [OF 1] safe_read_bool_def)
    next
      case 2
      show ?thesis using eq "1.prems"(2) by (auto simp: same_value_scalar(2) [OF 2])
    next
      case 3
      show ?thesis using eq by (auto simp: same_value_scalar(3) [OF 3])
    next
      case 4
      then show ?thesis using eq False by (simp add: same_value_scalar(4))
    qed
  qed
qed

end
