(* ===== verification/PbValue.thy ===== *)
theory PbValue
  imports PbLayout
begin

text \<open>The decoder of every type of value, on the bytes that the encoder writes for it.\<close>

lemma on_input_reads:
  assumes "stream_reads m p" "holds behind (input s) bs" "p bs = (Some x, rest)"
  obtains t where "on_input m s = (Some x, s\<lparr>input := t\<rparr>)" "holds behind t rest" "ierrmsg t = ierrmsg (input s)"
proof -
  obtain t where "m (input s) = (Some x, t)" "holds behind t rest" "ierrmsg t = ierrmsg (input s)"
    using stream_reads_Some [OF assms] .
  then show ?thesis using that by (simp add: on_input_def)
qed

lemma read_to_reads:
  assumes "holds behind (input s) (xs @ rest)" "length xs = n"
  obtains t where "read_to dest n s = (Some (), s\<lparr>input := t, memory := store_bytes dest xs (memory s)\<rparr>)"
    "holds behind t rest" "ierrmsg t = ierrmsg (input s)"
proof -
  have "take_bytes n (xs @ rest) = (Some xs, rest)" using assms(2) by (simp add: take_bytes_def)
  then obtain t where "on_input (pb_read n) s = (Some xs, s\<lparr>input := t\<rparr>)" "holds behind t rest" "ierrmsg t = ierrmsg (input s)"
    using on_input_reads [OF read_reads assms(1)] by blast
  then show ?thesis using that by (simp add: read_to_def on_memory_def)
qed

lemma store_single [simp]: "store_bytes p [b] m p = b"
  by (simp add: store_bytes_def)

section \<open>Numbers in memory\<close>

lemma store_load: "8 dvd LENGTH('a::len) \<Longrightarrow> store dest (load m src :: 'a word) = store_bytes dest (load_bytes m src (LENGTH('a) div 8))"
  by (simp add: store_def load_bytes_le [where 'a = 'a])

lemma cast_back:
  "ucast (scast (w8 :: 8 word) :: u64) = w8" "ucast (scast (w16 :: 16 word) :: u64) = w16" "ucast (scast (w32 :: 32 word) :: u64) = w32"
  "ucast (ucast w8 :: u64) = w8" "ucast (ucast w16 :: u64) = w16" "ucast (ucast w32 :: u64) = w32"
  by (rule bit_word_eqI, auto simp: bit_simps)+

lemma number_stored:
  "load_signed m sz src = Some v \<Longrightarrow>
     store_number sz dest v mem = Some (store_bytes dest (load_bytes m src sz) mem) \<and> signed_part sz v = v"
  "load_unsigned m sz src = Some v \<Longrightarrow>
     store_number sz dest v mem = Some (store_bytes dest (load_bytes m src sz) mem) \<and> unsigned_part sz v = v"
  using store_load [where 'a = 8, of dest m src] store_load [where 'a = 16, of dest m src]
    store_load [where 'a = 32, of dest m src] store_load [where 'a = 64, of dest m src]
  by (auto simp: load_signed_def load_unsigned_def store_number_def signed_part_def unsigned_part_def cast_back split: if_splits)

lemma narrow_signed: "load_signed m sz src = Some v \<Longrightarrow> sz \<noteq> 8 \<Longrightarrow> scast (ucast v :: 32 word) = v"
proof -
  have "scast (ucast (scast (w :: 8 word) :: u64) :: 32 word) = (scast w :: u64)" for w :: u8
    by (rule bit_word_eqI) (auto simp: bit_simps min.assoc [symmetric])
  moreover have "scast (ucast (scast (w :: 16 word) :: u64) :: 32 word) = (scast w :: u64)" for w :: "16 word"
    by (rule bit_word_eqI) (auto simp: bit_simps min.assoc [symmetric])
  ultimately show "load_signed m sz src = Some v \<Longrightarrow> sz \<noteq> 8 \<Longrightarrow> scast (ucast v :: 32 word) = v"
    by (auto simp: load_signed_def cast_back split: if_splits)
qed

section \<open>Values\<close>

text \<open>What a successful decoder leaves: the value of the encoder in the field, all other memory as it was.\<close>

definition decodes_to :: "bytes \<Rightarrow> bytes \<Rightarrow> pb_field \<Rightarrow> mem \<Rightarrow> nat \<Rightarrow> nat \<Rightarrow> 's dstate \<Rightarrow> ('s dstate, unit) op \<Rightarrow> bool" where
  "decodes_to behind rest f m src dest s d \<longleftrightarrow>
     (\<exists>t mem. d s = (Some (), s\<lparr>input := t, memory := mem\<rparr>) \<and> holds behind t rest \<and> ierrmsg t = ierrmsg (input s)
        \<and> changed_within dest (data_size f) (memory s) mem \<and> same_value f m src mem dest)"

lemma decodes_toI:
  assumes "d s = (Some (), s\<lparr>input := t, memory := mem\<rparr>)" "holds behind t rest" "ierrmsg t = ierrmsg (input s)"
    "changed_within dest (data_size f) (memory s) mem" "same_value f m src mem dest"
  shows "decodes_to behind rest f m src dest s d"
  using assms unfolding decodes_to_def by blast

lemma decodes_copied:
  assumes "d s = (Some (), s\<lparr>input := t, memory := store_bytes dest (load_bytes m src (data_size f)) (memory s)\<rparr>)"
    "holds behind t rest" "ierrmsg t = ierrmsg (input s)"
    "ltype f \<notin> {PB_LTYPE_BOOL, PB_LTYPE_STRING, PB_LTYPE_BYTES, PB_LTYPE_SUBMESSAGE}"
  shows "decodes_to behind rest f m src dest s d"
proof (rule decodes_toI [where t = t and mem = "store_bytes dest (load_bytes m src (data_size f)) (memory s)"])
  show "changed_within dest (data_size f) (memory s) (store_bytes dest (load_bytes m src (data_size f)) (memory s))"
    by (rule changed_store_bytes) simp
  show "same_value f m src (store_bytes dest (load_bytes m src (data_size f)) (memory s)) dest"
    unfolding same_value_scalar(4) [OF assms(4)] by (rule load_store_bytes) simp
qed (fact assms)+

lemma decodes_bool:
  assumes "holds behind (input s) (varint (if safe_read_bool m src then 1 else 0) @ rest)" "ltype f = PB_LTYPE_BOOL" "data_size f = 1"
  shows "decodes_to behind rest f m src dest s (pb_dec_bool f dest)"
proof -
  let ?v = "if safe_read_bool m src then 1 else 0 :: u32"
  have "wire_varint32 (varint (if safe_read_bool m src then 1 else 0) @ rest) = (Some ?v, rest)"
    using pb_varint32.get_enc [of ?v rest] by (auto split: if_splits)
  then obtain t where "on_input pb_decode_varint32 s = (Some ?v, s\<lparr>input := t\<rparr>)" "holds behind t rest" "ierrmsg t = ierrmsg (input s)"
    using on_input_reads [OF decode_varint32_reads assms(1)] by blast
  then show ?thesis using assms(2,3)
    by (intro decodes_toI [where t = t and mem = "store_bytes dest [if ?v \<noteq> 0 then 1 else 0] (memory s)"])
      (simp_all add: pb_dec_bool_def on_memory_def same_value_scalar(1), simp_all add: safe_read_bool_def store_bytes_def)
qed

lemma decodes_number:
  assumes t: "on_input rd s = (Some v, s\<lparr>input := t\<rparr>)" "holds behind t rest" "ierrmsg t = ierrmsg (input s)"
    and part: "store_number (data_size f) dest v (memory s) = Some (store_bytes dest (load_bytes m src (data_size f)) (memory s))"
      "part (data_size f) v = v"
    and l: "ltype f \<in> {PB_LTYPE_VARINT, PB_LTYPE_UVARINT, PB_LTYPE_SVARINT}"
  shows "decodes_to behind rest f m src dest s (op_bind (on_input rd) (\<lambda>v. dec_number part f dest v))"
proof -
  have "ltype f \<notin> {PB_LTYPE_BOOL, PB_LTYPE_STRING, PB_LTYPE_BYTES, PB_LTYPE_SUBMESSAGE}" using l by (auto simp: pb_type_defs)
  then show ?thesis using t part by (intro decodes_copied [where t = t]) (simp_all add: dec_number_def)
qed

lemma decodes_varint:
  assumes "holds behind (input s) (varint (unat v) @ rest)" "load_signed m (data_size f) src = Some v" "ltype f = PB_LTYPE_VARINT"
  shows "decodes_to behind rest f m src dest s (pb_dec_varint f dest)"
proof -
  obtain t where t: "on_input pb_decode_varint s = (Some v, s\<lparr>input := t\<rparr>)" "holds behind t rest" "ierrmsg t = ierrmsg (input s)"
    using on_input_reads [OF decode_varint_reads assms(1) wire_varint_put] .
  have "decodes_to behind rest f m src dest s (op_bind (on_input pb_decode_varint) (\<lambda>v. dec_number signed_part f dest v))"
    using number_stored(1) [OF assms(2)] assms(3) by (intro decodes_number [OF t]) auto
  moreover have "(if data_size f = 8 then v else scast (ucast v :: 32 word)) = v" using narrow_signed [OF assms(2)] by simp
  then have "pb_dec_varint f dest s = op_bind (on_input pb_decode_varint) (\<lambda>v. dec_number signed_part f dest v) s"
    using t(1) by (simp add: pb_dec_varint_def Let_def)
  ultimately show ?thesis by (simp add: decodes_to_def)
qed

lemma decodes_uvarint:
  assumes "holds behind (input s) (varint (unat v) @ rest)" "load_unsigned m (data_size f) src = Some v" "ltype f = PB_LTYPE_UVARINT"
  shows "decodes_to behind rest f m src dest s (pb_dec_uvarint f dest)"
proof -
  obtain t where t: "on_input pb_decode_varint s = (Some v, s\<lparr>input := t\<rparr>)" "holds behind t rest" "ierrmsg t = ierrmsg (input s)"
    using on_input_reads [OF decode_varint_reads assms(1) wire_varint_put] .
  show ?thesis unfolding pb_dec_uvarint_def
    using number_stored(2) [OF assms(2)] assms(3) by (intro decodes_number [OF t]) auto
qed

lemma decodes_svarint:
  assumes "holds behind (input s) (varint (unat (zigzag v)) @ rest)" "load_signed m (data_size f) src = Some v" "ltype f = PB_LTYPE_SVARINT"
  shows "decodes_to behind rest f m src dest s (pb_dec_svarint f dest)"
proof -
  obtain t where t: "on_input pb_decode_svarint s = (Some v, s\<lparr>input := t\<rparr>)" "holds behind t rest" "ierrmsg t = ierrmsg (input s)"
    using on_input_reads [OF pb_svarint.fetch_reads assms(1)] pb_svarint.get_enc [of v rest] by auto
  show ?thesis unfolding pb_dec_svarint_def
    using number_stored(1) [OF assms(2)] assms(3) by (intro decodes_number [OF t]) auto
qed

lemma decodes_fixed:
  "holds behind (input s) (load_bytes m src 4 @ rest) \<Longrightarrow> ltype f = PB_LTYPE_FIXED32 \<Longrightarrow> data_size f = 4 \<Longrightarrow>
     decodes_to behind rest f m src dest s (pb_dec_fixed32 f dest)"
  "holds behind (input s) (load_bytes m src 8 @ rest) \<Longrightarrow> ltype f = PB_LTYPE_FIXED64 \<Longrightarrow> data_size f = 8 \<Longrightarrow>
     decodes_to behind rest f m src dest s (pb_dec_fixed64 f dest)"
proof -
  assume h: "holds behind (input s) (load_bytes m src 4 @ rest)" and l: "ltype f = PB_LTYPE_FIXED32" "data_size f = 4"
  have e: "load_bytes m src 4 = nat_le 4 (unat (load m src :: u32))" using load_bytes_le [where 'a = 32, of m src] by simp
  obtain t where "on_input pb_decode_fixed32 s = (Some (load m src), s\<lparr>input := t\<rparr>)" "holds behind t rest" "ierrmsg t = ierrmsg (input s)"
    using on_input_reads [OF pb_fixed32.fetch_reads h [unfolded e]] pb_fixed32.get_enc [of "load m src" rest] by auto
  then show "decodes_to behind rest f m src dest s (pb_dec_fixed32 f dest)"
    using l store_load [where 'a = 32, of dest m src]
    by (intro decodes_copied [where t = t]) (simp_all add: pb_dec_fixed32_def on_memory_def pb_type_defs)
next
  assume h: "holds behind (input s) (load_bytes m src 8 @ rest)" and l: "ltype f = PB_LTYPE_FIXED64" "data_size f = 8"
  have e: "load_bytes m src 8 = nat_le 8 (unat (load m src :: u64))" using load_bytes_le [where 'a = 64, of m src] by simp
  obtain t where "on_input pb_decode_fixed64 s = (Some (load m src), s\<lparr>input := t\<rparr>)" "holds behind t rest" "ierrmsg t = ierrmsg (input s)"
    using on_input_reads [OF pb_fixed64.fetch_reads h [unfolded e]] pb_fixed64.get_enc [of "load m src" rest] by auto
  then show "decodes_to behind rest f m src dest s (pb_dec_fixed64 f dest)"
    using l store_load [where 'a = 64, of dest m src]
    by (intro decodes_copied [where t = t]) (simp_all add: pb_dec_fixed64_def on_memory_def pb_type_defs)
qed


lemma string_varint:
  assumes "holds behind (input s) (string_bytes xs @ rest)" "length xs < 2 ^ 32"
  obtains t where "on_input pb_decode_varint32 s = (Some (word_of_nat (length xs)), s\<lparr>input := t\<rparr>)"
    "holds behind t (xs @ rest)" "ierrmsg t = ierrmsg (input s)"
proof -
  have "wire_varint32 (string_bytes xs @ rest) = (Some (word_of_nat (length xs)), xs @ rest)"
    using wire_varint32_small [OF assms(2), of "xs @ rest"] by (simp add: string_bytes_def)
  then show ?thesis using on_input_reads [OF decode_varint32_reads assms(1)] that by blast
qed

lemma decodes_string:
  assumes h: "holds behind (input s) (string_bytes (load_bytes m src n) @ rest)" and l: "ltype f = PB_LTYPE_STRING"
    and f: "atype f = PB_ATYPE_STATIC" "data_size f < 2 ^ 32" and n: "n = string_length m src 0 (data_size f)" "n < data_size f"
  shows "decodes_to behind rest f m src dest s (pb_dec_string env f dest)"
proof -
  let ?xs = "load_bytes m src n"
  have n32: "length ?xs < 2 ^ 32" "n < 2 ^ 32" using n(2) f(2) by simp_all
  obtain t where t: "on_input pb_decode_varint32 s = (Some (word_of_nat (length ?xs)), s\<lparr>input := t\<rparr>)"
      "holds behind t (?xs @ rest)" "ierrmsg t = ierrmsg (input s)"
    using string_varint [OF h n32(1)] .
  let ?s = "s\<lparr>input := t\<rparr>"
  obtain u where u: "read_to dest n ?s = (Some (), ?s\<lparr>input := u, memory := store_bytes dest ?xs (memory s)\<rparr>)"
      "holds behind u rest" "ierrmsg u = ierrmsg t"
    using read_to_reads [of behind ?s ?xs rest n dest] t(2) by auto
  have w: "unat (word_of_nat n :: u32) = n" "unat (word_of_nat n + 1 :: u32) = n + 1"
    using n(2) f(2) by (simp_all add: unat_of_nat unat_word_ariths)
  let ?mem = "store_bytes (dest + n) [0] (store_bytes dest ?xs (memory s))"
  have "pb_dec_string env f dest s = (Some (), s\<lparr>input := u, memory := ?mem\<rparr>)"
    using t(1) u(1) w n(2) f(1) by (simp add: pb_dec_string_def Let_def pb_type_defs)
  moreover have "changed_within dest (data_size f) (memory s) ?mem"
    using n(2) by (simp add: changed_within_def)
  moreover have "load_bytes ?mem dest n = ?xs" by (simp add: load_bytes_store_disjoint)
  then have "same_value f m src ?mem dest"
    using n by (simp add: same_value_scalar(2) [OF l])
  ultimately show ?thesis using u(2,3) t(3) by (intro decodes_toI [where t = u and mem = ?mem]) simp_all
qed

lemma decodes_bytes:
  assumes h: "holds behind (input s) (string_bytes (load_bytes m (src + 4) n) @ rest)" and l: "ltype f = PB_LTYPE_BYTES"
    and f: "atype f = PB_ATYPE_STATIC" "data_size f < 2 ^ 32" and n: "n = unat (load m src :: u32)" "4 + n \<le> data_size f"
  shows "decodes_to behind rest f m src dest s (pb_dec_bytes env f dest)"
proof -
  let ?xs = "load_bytes m (src + 4) n"
  have n32: "length ?xs < 2 ^ 32" using n(2) f(2) by simp
  obtain t where t: "on_input pb_decode_varint32 s = (Some (word_of_nat (length ?xs)), s\<lparr>input := t\<rparr>)"
      "holds behind t (?xs @ rest)" "ierrmsg t = ierrmsg (input s)"
    using string_varint [OF h n32] .
  have w: "word_of_nat n = (load m src :: u32)" unfolding n(1) by simp
  let ?s = "s\<lparr>input := t, memory := store dest (load m src :: u32) (memory s)\<rparr>"
  obtain u where u: "read_to (dest + 4) n ?s = (Some (), ?s\<lparr>input := u, memory := store_bytes (dest + 4) ?xs (memory ?s)\<rparr>)"
      "holds behind u rest" "ierrmsg u = ierrmsg t"
    using read_to_reads [of behind ?s ?xs rest n "dest + 4"] t(2) by auto
  have st: "store dest (load m src :: u32) = store_bytes dest (load_bytes m src 4)" using store_load [where 'a = 32, of dest m src] by simp
  let ?mem = "store_bytes (dest + 4) ?xs (store_bytes dest (load_bytes m src 4) (memory s))"
  have "pb_dec_bytes env f dest s = (Some (), s\<lparr>input := u, memory := ?mem\<rparr>)"
    using t(1) u(1) w n f(1) by (simp add: pb_dec_bytes_def Let_def pb_type_defs on_memory_def st)
  moreover have "changed_within dest (data_size f) (memory s) ?mem"
    using n(2) by (simp add: changed_within_def)
  moreover have "load_bytes ?mem dest 4 = load_bytes m src 4" by (simp add: load_bytes_store_disjoint)
  then have "load_bytes ?mem dest (4 + n) = load_bytes m src (4 + n)" by (simp add: load_bytes_add)
  then have "same_value f m src ?mem dest" using n by (simp add: same_value_scalar(3) [OF l])
  ultimately show ?thesis using u(2,3) t(3) by (intro decodes_toI [where t = u and mem = ?mem]) simp_all
qed

lemma decodes_fixed_length:
  assumes h: "holds behind (input s) (string_bytes (load_bytes m src (data_size f)) @ rest)" and l: "ltype f = PB_LTYPE_FIXED_LENGTH_BYTES"
    and n32: "data_size f < 2 ^ 32"
  shows "decodes_to behind rest f m src dest s (pb_dec_fixed_length_bytes f dest)"
proof -
  let ?n = "data_size f"
  let ?xs = "load_bytes m src ?n"
  obtain t where t: "on_input pb_decode_varint32 s = (Some (word_of_nat (length ?xs)), s\<lparr>input := t\<rparr>)"
      "holds behind t (?xs @ rest)" "ierrmsg t = ierrmsg (input s)"
    using string_varint [OF h] n32 by auto
  have w: "unat (word_of_nat ?n :: u32) = ?n" using n32 by (simp add: unat_of_nat)
  have nl: "ltype f \<notin> {PB_LTYPE_BOOL, PB_LTYPE_STRING, PB_LTYPE_BYTES, PB_LTYPE_SUBMESSAGE}" using l by (simp add: pb_type_defs)
  show ?thesis
  proof (cases "?n = 0")
    case True
    then show ?thesis using t nl
      by (intro decodes_copied [where t = t]) (simp_all add: pb_dec_fixed_length_bytes_def on_memory_def)
  next
    case False
    then have z: "word_of_nat ?n \<noteq> (0 :: u32)" using w by (metis unat_0)
    let ?s = "s\<lparr>input := t\<rparr>"
    obtain u where "read_to dest ?n ?s = (Some (), ?s\<lparr>input := u, memory := store_bytes dest ?xs (memory ?s)\<rparr>)"
        "holds behind u rest" "ierrmsg u = ierrmsg t"
      using read_to_reads [of behind ?s ?xs rest ?n dest] t(2) by auto
    then show ?thesis using t nl z w
      by (intro decodes_copied [where t = u]) (simp_all add: pb_dec_fixed_length_bytes_def)
  qed
qed

lemma decodes_scalar:
  assumes ok: "field_ok f" "ltype f \<noteq> PB_LTYPE_SUBMESSAGE" and src: "0 < src"
    and xs: "value_bytes sub m f src = Some xs" "same_value f m src m src" and h: "holds behind (input s) (xs @ rest)"
  shows "decodes_to behind rest f m src dest s (PB_DECODERS decode env f dest)"
proof -
  have sc: "scalar_size (ltype f) (data_size f)" "placed_ok f" using ok by (simp_all add: field_ok.simps [of f])
  have f: "atype f = PB_ATYPE_STATIC" "data_size f < 2 ^ 32" using sc(2) by (simp_all add: placed_ok_def)
  note defs = value_bytes_def PB_DECODERS_def Let_def pb_type_defs
  consider "ltype f = PB_LTYPE_BOOL" | "ltype f = PB_LTYPE_VARINT" | "ltype f = PB_LTYPE_UVARINT" | "ltype f = PB_LTYPE_SVARINT"
    | "ltype f = PB_LTYPE_FIXED32" | "ltype f = PB_LTYPE_FIXED64" | "ltype f = PB_LTYPE_BYTES" | "ltype f = PB_LTYPE_STRING"
    | "ltype f = PB_LTYPE_FIXED_LENGTH_BYTES" using sc(1) by (auto simp: scalar_size_def split: if_splits)
  then show ?thesis
  proof cases
    case 1
    then show ?thesis using decodes_bool [of behind s m src rest f dest] sc(1) xs h by (simp add: defs scalar_size_def)
  next
    case 2
    then show ?thesis using decodes_varint [of behind s _ rest m f src dest] xs h by (auto simp: defs)
  next
    case 3
    then show ?thesis using decodes_uvarint [of behind s _ rest m f src dest] xs h by (auto simp: defs)
  next
    case 4
    then show ?thesis using decodes_svarint [of behind s _ rest m f src dest] xs h by (auto simp: defs)
  next
    case 5
    then show ?thesis using decodes_fixed(1) [of behind s m src rest f dest] sc(1) xs h by (simp add: defs scalar_size_def)
  next
    case 6
    then show ?thesis using decodes_fixed(2) [of behind s m src rest f dest] sc(1) xs h by (simp add: defs scalar_size_def)
  next
    case 7
    note sv = same_value_scalar(3) [OF 7]
    show ?thesis using 7 decodes_bytes [of behind s m src _ rest f dest env] f xs h src by (auto simp: defs sv split: if_splits)
  next
    case 8
    note sv = same_value_scalar(2) [OF 8]
    show ?thesis using 8 decodes_string [of behind s m src _ rest f dest env] f xs h src by (auto simp: defs sv split: if_splits)
  next
    case 9
    then show ?thesis using decodes_fixed_length [of behind s m src f rest dest] f xs h by (auto simp: defs)
  qed
qed

end
