(* ===== verification/PbRoundTrip.thy ===== *)
theory PbRoundTrip
  imports PbValue
begin

text \<open>
  A message that was encoded is decoded to the same message, in another struct: by induction on the
  description for submessages, and on the fields for the loop over the stream.
\<close>

section \<open>Structs in which nothing was decoded yet\<close>

function cleared_value :: "pb_field \<Rightarrow> mem \<Rightarrow> nat \<Rightarrow> bool" where
  "cleared_value f m dest \<longleftrightarrow>
     (ltype f = PB_LTYPE_SUBMESSAGE \<longrightarrow>
        list_all (\<lambda>(g, k).
            (htype g = PB_HTYPE_OPTIONAL \<longrightarrow> m (has_at (submsg_fields f) dest k) = 0) \<and>
            cleared_value g m (data_at (submsg_fields f) dest k))
          (zip (submsg_fields f) [0..<length (submsg_fields f)]))"
  by auto
termination
proof (relation "measure (\<lambda>(f, _). size f)")
  fix f and g :: pb_field and k :: nat
  fix m :: mem and dest :: nat and z
  assume "z \<in> set (zip (submsg_fields f) [0..<length (submsg_fields f)])" "(g, k) = z"
  then have "g \<in> set (submsg_fields f)" by (metis set_zip_leftD)
  then have "size g \<le> size_list size (submsg_fields f)"
    using size_list_estimation' [of g "submsg_fields f" "size g" size] by auto
  also have "\<dots> < size f" by (cases f) (auto simp: submsg_fields_def split: pb_ptr.split)
  finally show "((g, m, data_at (submsg_fields f) dest k), f, m, dest) \<in> measure (\<lambda>(f, _). size f)" by simp
qed simp

declare cleared_value.simps [simp del]

definition cleared_field :: "pb_field list \<Rightarrow> nat \<Rightarrow> mem \<Rightarrow> nat \<Rightarrow> bool" where
  "cleared_field fs k m dest \<longleftrightarrow>
     (htype (fs ! k) = PB_HTYPE_OPTIONAL \<longrightarrow> m (has_at fs dest k) = 0) \<and> cleared_value (fs ! k) m (data_at fs dest k)"

definition cleared :: "pb_field list \<Rightarrow> mem \<Rightarrow> nat \<Rightarrow> bool" where
  "cleared fs m dest \<longleftrightarrow> (\<forall>k < length fs. cleared_field fs k m dest)"

lemma cleared_value_submessage:
  "ltype f = PB_LTYPE_SUBMESSAGE \<Longrightarrow> cleared_value f m dest \<longleftrightarrow> cleared (submsg_fields f) m dest"
  by (subst cleared_value.simps) (auto simp: cleared_def cleared_field_def list_all_length)

lemma has_in_slot:
  assumes "message_ok fs" "k < length fs" "htype (fs ! k) = PB_HTYPE_OPTIONAL" "message_size fs \<le> n"
  shows "dest \<le> has_at fs dest k" "has_at fs dest k < dest + n"
  using slot(1-4) [OF assms(1,2), of dest] assms(3,4) field_offset_mono [of "Suc k" "length fs" fs] assms(2) by linarith+

lemma data_in_slot:
  assumes "message_ok fs" "k < length fs" "message_size fs \<le> n"
  shows "dest \<le> data_at fs dest k" "data_at fs dest k + data_size (fs ! k) \<le> dest + n"
  using slot(1,2) [OF assms(1,2), of dest] assms(3) field_offset_mono [of "Suc k" "length fs" fs] assms(2) by linarith+

lemma cleared_value_cong:
  assumes "field_ok f" "\<And>a. dest \<le> a \<Longrightarrow> a < dest + data_size f \<Longrightarrow> m1 a = m2 a"
  shows "cleared_value f m1 dest \<longleftrightarrow> cleared_value f m2 dest"
  using assms
proof (induction f m1 dest rule: cleared_value.induct)
  case (1 f m1 dest)
  show ?case
  proof (cases "ltype f = PB_LTYPE_SUBMESSAGE")
    case True
    let ?fs = "submsg_fields f"
    have ok: "message_ok ?fs" and sz: "message_size ?fs \<le> data_size f"
      using message_ok_submsg [OF "1.prems"(1) True] by simp_all
    have "cleared_field ?fs k m1 dest \<longleftrightarrow> cleared_field ?fs k m2 dest" if k: "k < length ?fs" for k
    proof -
      have z: "(?fs ! k, k) \<in> set (zip ?fs [0..<length ?fs])" using k by (auto simp: in_set_zip)
      have "m1 (has_at ?fs dest k) = m2 (has_at ?fs dest k)" if o: "htype (?fs ! k) = PB_HTYPE_OPTIONAL"
        using has_in_slot [OF ok k o sz, of dest] by (rule "1.prems"(2))
      moreover have "cleared_value (?fs ! k) m1 (data_at ?fs dest k) \<longleftrightarrow> cleared_value (?fs ! k) m2 (data_at ?fs dest k)"
        by (rule "1.IH" [OF True z refl message_ok_nth(1) [OF ok k]], rule "1.prems"(2))
          (use data_in_slot [OF ok k sz, of dest] in linarith)+
      ultimately show ?thesis by (auto simp: cleared_field_def)
    qed
    then show ?thesis by (auto simp: cleared_value_submessage [OF True] cleared_def)
  next
    case False
    then show ?thesis by (simp add: cleared_value.simps [of f])
  qed
qed

lemma cleared_field_cong:
  assumes "message_ok fs" "k < length fs"
    "\<And>a. dest + field_offset fs k \<le> a \<Longrightarrow> a < dest + field_offset fs (Suc k) \<Longrightarrow> m1 a = m2 a"
  shows "cleared_field fs k m1 dest \<longleftrightarrow> cleared_field fs k m2 dest"
proof -
  note sl = slot [OF assms(1,2), of dest]
  have "m1 (has_at fs dest k) = m2 (has_at fs dest k)" if "htype (fs ! k) = PB_HTYPE_OPTIONAL"
    by (rule assms(3)) (use sl that in linarith)+
  moreover have "cleared_value (fs ! k) m1 (data_at fs dest k) \<longleftrightarrow> cleared_value (fs ! k) m2 (data_at fs dest k)"
    by (rule cleared_value_cong [OF message_ok_nth(1) [OF assms(1,2)]], rule assms(3)) (use sl in linarith)+
  ultimately show ?thesis by (auto simp: cleared_field_def)
qed

section \<open>A field\<close>

definition same_field :: "pb_field list \<Rightarrow> nat \<Rightarrow> mem \<Rightarrow> nat \<Rightarrow> mem \<Rightarrow> nat \<Rightarrow> bool" where
  "same_field fs k m src m' dest \<longleftrightarrow>
     (htype (fs ! k) = PB_HTYPE_OPTIONAL \<longrightarrow> safe_read_bool m' (has_at fs dest k) = safe_read_bool m (has_at fs src k)) \<and>
     (htype (fs ! k) = PB_HTYPE_REQUIRED \<or> safe_read_bool m (has_at fs src k) \<longrightarrow>
        same_value (fs ! k) m (data_at fs src k) m' (data_at fs dest k))"

lemma same_message_fields: "same_message fs m src m' dest \<longleftrightarrow> (\<forall>k < length fs. same_field fs k m src m' dest)"
  by (simp add: same_message_def same_field_def)

lemma same_field_cong:
  assumes "message_ok fs" "k < length fs"
    "\<And>a. dest + field_offset fs k \<le> a \<Longrightarrow> a < dest + field_offset fs (Suc k) \<Longrightarrow> m1 a = m2 a"
  shows "same_field fs k m src m1 dest \<longleftrightarrow> same_field fs k m src m2 dest"
proof -
  note sl = slot [OF assms(1,2), of dest]
  have "m1 (has_at fs dest k) = m2 (has_at fs dest k)" if "htype (fs ! k) = PB_HTYPE_OPTIONAL"
    by (rule assms(3)) (use sl that in linarith)+
  moreover have "same_value (fs ! k) m (data_at fs src k) m1 (data_at fs dest k) \<longleftrightarrow> same_value (fs ! k) m (data_at fs src k) m2 (data_at fs dest k)"
    by (rule same_value_cong [OF message_ok_nth(1) [OF assms(1,2)]], rule assms(3)) (use sl in linarith)+
  ultimately show ?thesis by (auto simp: same_field_def safe_read_bool_def)
qed

text \<open>What is needed of the decoder of submessages.\<close>

definition submessages_decode :: "encode_spec \<Rightarrow> mem \<Rightarrow> pb_field list \<Rightarrow> 's subdecoder \<Rightarrow> bool" where
  "submessages_decode spec m fs decode \<longleftrightarrow>
     (\<forall>f src dest xs behind s. f \<in> set fs \<longrightarrow> ltype f = PB_LTYPE_SUBMESSAGE \<longrightarrow> 0 < src \<longrightarrow> 0 < dest \<longrightarrow>
        message_bytes spec m (submsg_fields f) src = Some xs \<longrightarrow> length xs < 2 ^ 32 \<longrightarrow>
        same_message (submsg_fields f) m src m src \<longrightarrow> cleared (submsg_fields f) (memory s) dest \<longrightarrow>
        holds behind (input s) xs \<longrightarrow>
        (\<exists>t mem. decode f False dest s = (Some (), s\<lparr>input := t, memory := mem\<rparr>) \<and> holds behind t [] \<and> ierrmsg t = ierrmsg (input s)
           \<and> changed_within dest (message_size (submsg_fields f)) (memory s) mem \<and> same_message (submsg_fields f) m src mem dest))"

lemma decodes_submessage:
  assumes sub: "submessages_decode spec m fs decode" and f: "f \<in> set fs" "field_ok f" "ltype f = PB_LTYPE_SUBMESSAGE"
    and h: "htype f \<noteq> PB_HTYPE_REPEATED" and pos: "0 < src" "0 < dest"
    and xs: "message_bytes spec m (submsg_fields f) src = Some xs" "length xs < 2 ^ 32" "same_value f m src m src"
    and hold: "holds behind (input s) (string_bytes xs @ rest)" and cl: "cleared_value f (memory s) dest"
  shows "decodes_to behind rest f m src dest s (pb_dec_submessage decode f dest)"
proof -
  have f': "field_ptr f = Submsg (submsg_fields f)" "message_size (submsg_fields f) \<le> data_size f"
    using message_ok_submsg [OF f(2,3)] by simp_all
  have "wire_varint32 (string_bytes xs @ rest) = (Some (word_of_nat (length xs)), xs @ rest)"
    using wire_varint32_small [OF xs(2), of "xs @ rest"] by (simp add: string_bytes_def)
  moreover have n: "unat (word_of_nat (length xs) :: u32) = length xs" using xs(2) by (simp add: unat_of_nat)
  ultimately obtain u t where u: "pb_make_string_substream (input s) = (Some u, t)" "holds (rest @ behind) u xs"
      "bytes_left t = length rest" "ierrmsg u = ierrmsg (input s)"
    using make_substream(1) [OF hold, of "word_of_nat (length xs)" "xs @ rest"] by auto
  let ?s = "s\<lparr>input := t\<rparr>"
  have "cleared (submsg_fields f) (memory (?s\<lparr>input := u\<rparr>)) dest" using cl by (simp add: cleared_value_submessage [OF f(3)])
  moreover have "same_message (submsg_fields f) m src m src" using xs(3) by (simp add: same_value_submessage [OF f(3)])
  ultimately obtain v mem where v: "decode f False dest (?s\<lparr>input := u\<rparr>) = (Some (), ?s\<lparr>input := v, memory := mem\<rparr>)"
      "holds (rest @ behind) v []" "ierrmsg v = ierrmsg u"
      "changed_within dest (message_size (submsg_fields f)) (memory s) mem" "same_message (submsg_fields f) m src mem dest"
    using sub [unfolded submessages_decode_def, rule_format, OF f(1,3) pos xs(1,2), of "?s\<lparr>input := u\<rparr>" "rest @ behind"] u(2) by auto
  obtain w where w: "pb_close_string_substream v t = (Some (), w)" "holds behind w rest" "ierrmsg w = ierrmsg v"
    using close_substream [OF v(2) u(3) refl] by auto
  have "pb_dec_submessage decode f dest s = (Some (), s\<lparr>input := w, memory := mem\<rparr>)"
    using u(1) v(1) w(1) h f'(1) by (simp add: pb_dec_submessage_def on_input_def in_substream_def)
  moreover have "changed_within dest (data_size f) (memory s) mem" using v(4) f'(2) by (rule_tac changed_mono) auto
  moreover have "same_value f m src mem dest" using v(5) by (simp add: same_value_submessage [OF f(3)])
  ultimately show ?thesis using w(2,3) v(3) u(4) by (intro decodes_toI [where t = w and mem = mem]) simp_all
qed

lemma decodes_value:
  assumes sub: "submessages_decode spec m fs decode" and f: "f \<in> set fs" "field_ok f"
    and pos: "0 < src" "0 < dest"
    and xs: "value_bytes (message_bytes spec m (submsg_fields f)) m f src = Some xs" "length xs < 2 ^ 32" "same_value f m src m src"
    and hold: "holds behind (input s) (xs @ rest)" and cl: "cleared_value f (memory s) dest"
  shows "decodes_to behind rest f m src dest s (PB_DECODERS decode env f dest)"
proof (cases "ltype f = PB_LTYPE_SUBMESSAGE")
  case False
  then show ?thesis using decodes_scalar [OF f(2) False pos(1) xs(1,3) hold] by simp
next
  case True
  have h: "htype f \<noteq> PB_HTYPE_REPEATED" using f(2) by (auto simp: field_ok.simps [of f] placed_ok_def pb_type_defs)
  obtain ys where ys: "message_bytes spec m (submsg_fields f) src = Some ys" "xs = string_bytes ys"
    using xs(1) True message_ok_submsg [OF f(2) True] by (auto simp: value_bytes_def Let_def pb_type_defs)
  have "length ys < 2 ^ 32" using xs(2) ys(2) by (simp add: string_bytes_def)
  then have "decodes_to behind rest f m src dest s (pb_dec_submessage decode f dest)"
    using decodes_submessage [OF sub f True h pos ys(1) _ xs(3)] hold cl ys(2) by simp
  moreover have "PB_DECODERS decode env f dest = pb_dec_submessage decode f dest"
    using True by (simp add: PB_DECODERS_def Let_def pb_type_defs)
  ultimately show ?thesis by simp
qed

end
