(* ===== verification/PbLoop.thy ===== *)
theory PbLoop
  imports PbRoundTrip
begin

text \<open>
  The required fields: which ones the decoder has seen when it read the fields before the \<open>k\<close>-th, and
  that the check at the end passes when it read them all.
\<close>

section \<open>The required fields that were seen\<close>

definition required_before :: "pb_field list \<Rightarrow> nat \<Rightarrow> nat" where
  "required_before fs k = length (filter (\<lambda>f. htype f = PB_HTYPE_REQUIRED) (take k fs))"

lemma required_before_Suc:
  "k < length fs \<Longrightarrow> required_before fs (Suc k) = required_before fs k + (if htype (fs ! k) = PB_HTYPE_REQUIRED then 1 else 0)"
  by (simp add: required_before_def take_Suc_conv_app_nth)

lemma required_index:
  assumes "pb_fields_ok fs" "k < length fs"
  shows "required_field_index (iter_at fs dest k) = required_before fs k"
  using assms(2)
proof (induction k)
  case 0
  then show ?case by (simp add: iter_at.simps pb_field_iter_begin_def Let_def required_before_def)
next
  case (Suc k)
  then have k: "k < length fs" "Suc k < length fs" by simp_all
  have "pb_field_iter_next (iter_at fs dest k) = (True, iter_at fs dest (Suc k))"
    using next_iter_at [OF assms(1) k(1)] k(2) by simp
  moreover from this have "iter_at fs dest (Suc k) = snd (pb_field_iter_next (iter_at fs dest k))" by simp
  moreover have "field_tag (fs ! k) \<noteq> 0" "field_tag (fs ! Suc k) \<noteq> 0"
    using assms(1) k by (simp_all add: pb_fields_ok_def list_all_length)
  moreover have "iter_pos (iter_at fs dest k) = k" "iter_field (iter_at fs dest k) = fs ! k" using assms(1) k by simp_all
  moreover have "PB_HTYPE_ONEOF \<noteq> PB_HTYPE_REQUIRED" by (simp add: pb_type_defs)
  ultimately have "required_field_index (iter_at fs dest (Suc k)) =
      (if htype (fs ! k) = PB_HTYPE_REQUIRED then required_field_index (iter_at fs dest k) + 1 else required_field_index (iter_at fs dest k))"
    using k by (simp add: pb_field_iter_next_def Let_def field_at_def)
  then show ?case using Suc.IH k by (simp add: required_before_Suc)
qed

text \<open>The bits that are set: one for each required field among the fields \<open>K\<close>, by its number.\<close>

definition required_marks :: "pb_field list \<Rightarrow> nat set \<Rightarrow> nat set" where
  "required_marks fs K = required_before fs ` {k \<in> K. htype (fs ! k) = PB_HTYPE_REQUIRED}"

lemma required_marks_insert:
  "required_marks fs (insert k K) = (if htype (fs ! k) = PB_HTYPE_REQUIRED then insert (required_before fs k) (required_marks fs K) else required_marks fs K)"
  by (auto simp: required_marks_def)

lemma required_marks_all: "n \<le> length fs \<Longrightarrow> required_marks fs {..<n} = {..<required_before fs n}"
proof (induction n)
  case (Suc n)
  then show ?case by (auto simp: lessThan_Suc required_marks_insert required_before_Suc)
qed (simp add: required_marks_def required_before_def)

definition seen_is :: "nat set \<Rightarrow> u32 list \<Rightarrow> bool" where
  "seen_is S seen \<longleftrightarrow> length seen = 2 \<and> (\<forall>i < 64. bit (seen ! (i div 32)) (i mod 32) \<longleftrightarrow> i \<in> S)"

lemma seen_is_0: "seen_is {} [0, 0]"
proof -
  have "[0, 0 :: u32] ! j = 0" if "j < 2" for j using that by (auto simp: less_2_cases_iff)
  then show ?thesis by (simp add: seen_is_def)
qed

lemma seen_is_mark:
  assumes "seen_is S seen" "r < 64"
  shows "seen_is (insert r S) (seen[r div 32 := seen ! (r div 32) OR push_bit (r mod 32) 1])"
proof -
  have l: "length seen = 2" "r div 32 < 2" using assms by (simp_all add: seen_is_def)
  have "bit (seen[r div 32 := seen ! (r div 32) OR push_bit (r mod 32) 1] ! (i div 32)) (i mod 32) \<longleftrightarrow> i \<in> insert r S" if i: "i < 64" for i
  proof (cases "i div 32 = r div 32")
    case True
    then have "i mod 32 = r mod 32 \<longleftrightarrow> i = r" by (metis div_mod_decomp)
    moreover have "bit (push_bit (r mod 32) (1 :: u32)) (i mod 32) \<longleftrightarrow> i mod 32 = r mod 32"
      by (simp only: bit_push_bit_iff bit_1_iff) (auto simp: not_less)
    moreover have "bit (seen ! (r div 32)) (i mod 32) \<longleftrightarrow> i \<in> S" using assms(1) i True unfolding seen_is_def by metis
    ultimately show ?thesis using True l by (auto simp: bit_or_iff)
  next
    case False
    have "bit (seen ! (i div 32)) (i mod 32) \<longleftrightarrow> i \<in> S" using assms(1) i by (simp add: seen_is_def)
    moreover have "i \<noteq> r" using False by auto
    ultimately show ?thesis using False l by auto
  qed
  then show ?thesis using l by (simp add: seen_is_def)
qed

lemma seen_is_more: "seen_is S seen \<Longrightarrow> 64 \<le> r \<Longrightarrow> seen_is (insert r S) seen"
  by (auto simp: seen_is_def)

lemma seen_required_present:
  assumes "seen_is {..<r} seen"
  shows "required_present seen (min r 64)"
  unfolding required_present_def
proof (intro conjI impI)
  let ?c = "min r 64"
  have b: "bit (seen ! (i div 32)) (i mod 32) \<longleftrightarrow> i < r" if "i < 64" for i using assms that by (simp add: seen_is_def)
  show "list_all (\<lambda>i. seen ! i = - 1) [0..<?c div 32]"
  proof (simp add: list_all_iff, intro ballI)
    fix i assume "i \<in> {0..<?c div 32}"
    then have i: "i < ?c div 32" by simp
    show "seen ! i = - 1"
    proof (rule bit_word_eqI)
      fix n :: nat assume "n < LENGTH(32)"
      then have n: "n < 32" by simp
      have "i * 32 + n < ?c" using i n by linarith
      then have "i * 32 + n < 64" "i * 32 + n < r" by simp_all
      then show "bit (seen ! i) n \<longleftrightarrow> bit (- 1 :: u32) n" using b [of "i * 32 + n"] n by simp
    qed
  qed
  show "seen ! (?c div 32) = drop_bit (32 - ?c mod 32) (- 1)" if z: "?c mod 32 \<noteq> 0"
  proof (rule bit_word_eqI)
    fix n :: nat assume "n < LENGTH(32)"
    then have n: "n < 32" by simp
    have "r < 64" using z by (cases "r < 64") (simp_all add: min_def)
    then have c: "?c = r" "r < 64" by simp_all
    have "bit (seen ! (r div 32)) n \<longleftrightarrow> r div 32 * 32 + n < r" 
    proof -
      have "r div 32 < 2" using c(2) by simp
      then have "r div 32 * 32 + n < 64" using n by linarith
      then show ?thesis using b [of "r div 32 * 32 + n"] n by simp
    qed
    also have "\<dots> \<longleftrightarrow> n < r mod 32" using div_mult_mod_eq [of r 32] by linarith
    finally show "bit (seen ! (?c div 32)) n \<longleftrightarrow> bit (drop_bit (32 - ?c mod 32) (- 1 :: u32)) n"
      using n c z by (auto simp: bit_mask_iff)
  qed
qed

lemma count_required_at:
  assumes "pb_fields_ok fs" "k < length fs \<or> fs = [] \<and> k = 0"
  shows "count_required (iter_at fs dest k) = min (required_before fs (length fs)) 64"
proof (cases "fs = []")
  case True
  then have "k = 0" using assms(2) by simp
  have "iter_visits (iter_at fs dest 0) = [iter_at fs dest 0]"
    by (subst iter_visits.simps) (simp add: True iter_at.simps pb_field_iter_begin_def pb_field_iter_next_def Let_def iter_field_def field_at_def PB_LAST_FIELD_def)
  then show ?thesis using True \<open>k = 0\<close>
    by (simp add: count_required_def Let_def required_before_def field_at_def PB_LAST_FIELD_def)
      (simp add: iter_at.simps pb_field_iter_begin_def Let_def)
next
  case False
  then have k: "k < length fs" and n: "length fs - 1 < length fs" using assms(2) by auto
  have "last [k..<length fs] = length fs - 1" "[k..<length fs] \<noteq> []" using k False by simp_all
  then have l: "last (iter_visits (iter_at fs dest k)) = iter_at fs dest (length fs - 1)"
    unfolding iter_visits_at [OF assms(1) k] by (metis last_map)
  have "field_tag (fs ! 0) \<noteq> 0" using assms(1) False by (simp add: pb_fields_ok_def list_all_length)
  moreover have "required_before fs (length fs) = required_before fs (Suc (length fs - 1))" using n by (intro arg_cong [where f = "required_before fs"]) linarith
  ultimately show ?thesis
    using required_index [OF assms(1) n, of dest] required_before_Suc [OF n] assms(1) n False
    by (simp add: count_required_def Let_def l field_at_def PB_MAX_REQUIRED_FIELDS_def)
qed


lemma no_required_before: "required_before fs (length fs) = 0 \<longleftrightarrow> list_all (\<lambda>f. htype f \<noteq> PB_HTYPE_REQUIRED) fs"
  by (auto simp: required_before_def filter_empty_conv list_all_iff)

lemma nothing_seen:
  assumes "r \<noteq> 0"
  shows "\<not> required_present [0, 0] (min r 64)"
proof (cases "min r 64 < 32")
  case True
  then have z: "min r 64 mod 32 \<noteq> 0" "min r 64 div 32 = 0" using assms by auto
  have "bit (drop_bit (32 - min r 64 mod 32) (- 1 :: u32)) 0" 
    using True assms by (auto simp: bit_mask_iff min_def split: if_splits)
  then have "drop_bit (32 - min r 64 mod 32) (- 1 :: u32) \<noteq> 0" by (metis bit_0_eq bot_apply bot_bool_def)
  then show ?thesis using z by (auto simp: required_present_def)
next
  case False
  then have "0 < min r 64 div 32" by (simp add: div_greater_zero_iff)
  then show ?thesis unfolding required_present_def list_all_iff by (auto intro!: bexI [of _ 0])
qed

lemma empty_stream:
  assumes "pb_fields_ok fs" "bytes_left (input s) = 0"
  shows "pb_decode_noinit env fs dest s =
    (if list_all (\<lambda>f. htype f \<noteq> PB_HTYPE_REQUIRED) fs then (Some (), s) else derror ''missing required field'' s)"
proof -
  have c: "count_required (iter_at fs dest 0) = min (required_before fs (length fs)) 64"
    using assms(1) by (intro count_required_at) auto
  have p: "required_present [0, 0] 0" by (simp add: required_present_def)
  show ?thesis
    using c nothing_seen [of "required_before fs (length fs)"] p assms(2)
    by (auto simp: pb_decode_noinit.simps [of env fs dest] decode_fields_def Let_def finish_fields_def op_bind_def
        no_required_before [symmetric] derror_def on_input_def ireturn_error_def iter_at.simps split: prod.split)
qed

end
