(* ===== verification/PbMessage.thy ===== *)
theory PbMessage
  imports PbLoop
begin

text \<open>The loop over a whole message: every field is decoded into its place, in the order the encoder wrote them.\<close>

section \<open>The parts of an encoded message\<close>

definition field_part :: "encode_spec \<Rightarrow> mem \<Rightarrow> pb_field list \<Rightarrow> nat \<Rightarrow> nat \<Rightarrow> bytes option" where
  "field_part spec m fs src k =
     basic_field_bytes (message_bytes spec m (submsg_fields (fs ! k))) m (fs ! k) (data_at fs src k)"

lemma ltype_not_extension: "field_ok f \<Longrightarrow> ltype f \<noteq> PB_LTYPE_EXTENSION"
  by (auto simp: field_ok.simps [of f] scalar_size_def pb_type_defs split: if_splits)

lemma message_parts:
  assumes "message_ok fs" "0 < src"
  shows "message_bytes spec m fs src = concat_opt (map (field_part spec m fs src) [0..<length fs])"
proof -
  have "(if ltype (iter_field it) = PB_LTYPE_EXTENSION then extensions_bytes spec (load_ptr m (pData it))
       else field_bytes (\<lambda>src. message_bytes spec m (submsg_fields (iter_field it)) src) spec m (iter_field it) (pData it))
     = field_part spec m fs src k" if "it = iter_at fs src k" "k < length fs" for it k
    using that message_ok_nth [OF assms(1) that(2)] ltype_not_extension [of "fs ! k"] iter_at_address [OF assms that(2)]
      message_ok_fields [OF assms(1)] by (simp add: field_part_def field_bytes_def)
  then show ?thesis
    unfolding message_bytes.simps [of spec m fs src] fields_visited [OF message_ok_fields [OF assms(1)]] map_map
    by (intro arg_cong [where f = concat_opt] map_cong) auto
qed

lemma field_part_cases:
  assumes "message_ok fs" "0 < src" "k < length fs" "field_part spec m fs src k = Some xs"
  obtains (absent) "htype (fs ! k) = PB_HTYPE_OPTIONAL" "\<not> safe_read_bool m (has_at fs src k)" "xs = []"
  | (present) wt ys where "htype (fs ! k) = PB_HTYPE_REQUIRED \<or> safe_read_bool m (has_at fs src k)" "wire_type_of (fs ! k) = Some wt"
      "value_bytes (message_bytes spec m (submsg_fields (fs ! k))) m (fs ! k) (data_at fs src k) = Some ys"
      "xs = varint (tag_number wt (field_tag (fs ! k))) @ ys"
proof -
  note f = message_ok_nth [OF assms(1,3)]
  have d: "data_at fs src k \<noteq> 0" using assms(2) by (simp add: data_at_def)
  show thesis
  proof (cases "htype (fs ! k) = PB_HTYPE_OPTIONAL \<and> \<not> safe_read_bool m (has_at fs src k)")
    case True
    moreover from True have "size_offset (fs ! k) \<noteq> 0" using f(2) by (auto simp: placed_ok_def pb_type_defs)
    ultimately have "xs = []" using assms(4) f(3) by (simp add: field_part_def basic_field_bytes_def Let_def has_at_def pb_type_defs)
    then show thesis using absent True by simp
  next
    case False
    then have p: "htype (fs ! k) = PB_HTYPE_REQUIRED \<or> safe_read_bool m (has_at fs src k)" using f(4) by auto
    moreover from False have "htype (fs ! k) = PB_HTYPE_OPTIONAL \<Longrightarrow> size_offset (fs ! k) \<noteq> 0" using f(2) by (auto simp: placed_ok_def pb_type_defs)
    ultimately have "append_opt (tag_bytes (fs ! k)) (value_bytes (message_bytes spec m (submsg_fields (fs ! k))) m (fs ! k) (data_at fs src k)) = Some xs"
      using assms(4) f(3,4) d False by (auto simp: field_part_def basic_field_bytes_def Let_def has_at_def pb_type_defs)
    then show thesis using present p by (auto simp: append_opt_def tag_bytes_def split: option.splits)
  qed
qed

lemma concat_opt_from:
  assumes "concat_opt (map r [k..<n]) = Some xs" "k < n"
  obtains ys zs where "r k = Some ys" "concat_opt (map r [Suc k..<n]) = Some zs" "xs = ys @ zs"
  using assms by (auto simp: upt_conv_Cons append_opt_def split: option.splits)

definition at_field :: "pb_field list \<Rightarrow> nat \<Rightarrow> bool" where
  "at_field fs j \<longleftrightarrow> j < length fs \<or> fs = [] \<and> j = 0"

section \<open>The search for a tag\<close>

lemma find_distinct:
  assumes "distinct (map g xs)" "x \<in> set xs"
  shows "find (\<lambda>y. g y = g x) xs = Some x"
  using assms by (induction xs) (auto simp: image_iff)

lemma find_tag:
  assumes "message_ok fs" "j < length fs" "k < length fs"
  shows "pb_field_iter_find (field_tag (fs ! k)) (iter_at fs dest j) = (True, iter_at fs dest k)"
proof -
  have "field_tag (fs ! i) = field_tag (fs ! k) \<and> ltype (fs ! i) \<noteq> PB_LTYPE_EXTENSION \<longleftrightarrow> i = k" if "i < length fs" for i
    using assms(1,3) that ltype_not_extension [OF message_ok_nth(1) [OF assms(1) that]]
      nth_eq_iff_index_eq [of "map field_tag fs" i k]
    by (auto simp: message_ok_def)
  moreover have "i < length fs" if "i \<in> set ([j..<length fs] @ [0..<j])" for i using that assms(2) by auto
  ultimately have "find (\<lambda>i. field_tag (fs ! i) = field_tag (fs ! k) \<and> ltype (fs ! i) \<noteq> PB_LTYPE_EXTENSION) ([j..<length fs] @ [0..<j])
      = find (\<lambda>i. i = k) ([j..<length fs] @ [0..<j])"
    by (intro find_cong refl) blast
  also have "\<dots> = Some k"
  proof -
    have "distinct (map id ([j..<length fs] @ [0..<j]))" "k \<in> set ([j..<length fs] @ [0..<j])" using assms(2,3) by auto
    then show ?thesis using find_distinct [of id "[j..<length fs] @ [0..<j]" k] by (simp only: id_apply)
  qed
  finally show ?thesis
    using seek_found [OF message_ok_fields [OF assms(1)] assms(2)] message_ok_fields [OF assms(1)] assms(2)
    by (simp add: pb_field_iter_find_def del: seek.simps)
qed


section \<open>One field\<close>

text \<open>The local variables of the decoder when it has decoded the fields \<open>K\<close>.\<close>

definition vars_ok :: "pb_field list \<Rightarrow> nat \<Rightarrow> nat set \<Rightarrow> decode_vars \<Rightarrow> bool" where
  "vars_ok fs dest K vars \<longleftrightarrow>
     (\<exists>j. at_field fs j \<and> field_iter vars = iter_at fs dest j)
     \<and> fixed_count_field vars = None \<and> seen_is (required_marks fs K) (fields_seen vars)"

lemma mark_seen_ok:
  assumes "message_ok fs" "k < length fs" "vars_ok fs dest K vars"
  shows "vars_ok fs dest (insert k K) (mark_seen (vars\<lparr>field_iter := iter_at fs dest k\<rparr>))"
    "field_iter (mark_seen (vars\<lparr>field_iter := iter_at fs dest k\<rparr>)) = iter_at fs dest k"
proof -
  let ?v = "mark_seen (vars\<lparr>field_iter := iter_at fs dest k\<rparr>)"
  have r: "required_field_index (iter_at fs dest k) = required_before fs k" by (rule required_index [OF message_ok_fields [OF assms(1)] assms(2)])
  have f: "iter_field (iter_at fs dest k) = fs ! k" using message_ok_fields [OF assms(1)] assms(2) by simp
  have s: "seen_is (required_marks fs K) (fields_seen vars)" using assms(3) by (simp add: vars_ok_def)
  have "seen_is (required_marks fs (insert k K)) (fields_seen ?v)"
    using seen_is_mark [OF s] seen_is_more [OF s] s
    by (simp add: mark_seen_def Let_def r f required_marks_insert PB_MAX_REQUIRED_FIELDS_def)
  then show "vars_ok fs dest (insert k K) ?v" using assms(2,3) by (auto simp: vars_ok_def at_field_def mark_seen_def Let_def)
  show "field_iter ?v = iter_at fs dest k" by (simp add: mark_seen_def Let_def)
qed

lemma vars_ok_absent: "vars_ok fs dest K vars \<Longrightarrow> htype (fs ! k) = PB_HTYPE_OPTIONAL \<Longrightarrow> vars_ok fs dest (insert k K) vars"
  by (simp add: vars_ok_def required_marks_insert pb_type_defs)

text \<open>What the field at \<open>k\<close> is decoded to, from its value.\<close>

definition field_decoded :: "bytes \<Rightarrow> bytes \<Rightarrow> pb_field list \<Rightarrow> nat \<Rightarrow> mem \<Rightarrow> nat \<Rightarrow> nat \<Rightarrow> 's dstate \<Rightarrow> ('s dstate, 'a) op \<Rightarrow> 'a \<Rightarrow> bool" where
  "field_decoded behind rest fs k m src dest s d x \<longleftrightarrow>
     (\<exists>t mem. d s = (Some x, s\<lparr>input := t, memory := mem\<rparr>) \<and> holds behind t rest \<and> ierrmsg t = ierrmsg (input s)
        \<and> changed_within (dest + field_offset fs k) (data_offset (fs ! k) + data_size (fs ! k)) (memory s) mem
        \<and> same_field fs k m src mem dest)"

lemma decode_field_ok:
  assumes sub: "submessages_decode spec m fs decode" and ok: "message_ok fs" and k: "k < length fs" and pos: "0 < src" "0 < dest"
    and has: "htype (fs ! k) = PB_HTYPE_REQUIRED \<or> safe_read_bool m (has_at fs src k)"
    and xs: "value_bytes (message_bytes spec m (submsg_fields (fs ! k))) m (fs ! k) (data_at fs src k) = Some xs" "length xs < 2 ^ 32"
      "same_field fs k m src m src"
    and hold: "holds behind (input s) (xs @ rest)" and cl: "cleared_field fs k (memory s) dest"
  shows "field_decoded behind rest fs k m src dest s (decode_field decode env wt (iter_at fs dest k)) (iter_at fs dest k)"
proof -
  let ?f = "fs ! k" and ?a = "data_at fs dest k"
  note f = message_ok_nth [OF ok k] and sl = slot [OF ok k, of dest]
  have it: "iter_field (iter_at fs dest k) = ?f" "pData (iter_at fs dest k) = ?a" "pSize (iter_at fs dest k) = Size_at (has_at fs dest k)"
    using message_ok_fields [OF ok] k iter_at_address [OF ok pos(2) k] by simp_all
  let ?m = "if htype ?f = PB_HTYPE_OPTIONAL then store_bytes (has_at fs dest k) [1] (memory s) else memory s"
  let ?s = "s\<lparr>memory := ?m\<rparr>"
  have ch: "changed_within (dest + field_offset fs k) (data_offset ?f) (memory s) ?m"
    using sl f(2) by (auto simp: changed_within_def data_at_def)
  then have "cleared_value ?f ?m ?a \<longleftrightarrow> cleared_value ?f (memory s) ?a"
    by (intro cleared_value_cong [OF f(1)]) (auto simp: changed_within_def data_at_def)
  then have "cleared_value ?f (memory ?s) ?a" using cl by (simp add: cleared_field_def)
  moreover have "same_value ?f m (data_at fs src k) m (data_at fs src k)" using xs(3) has by (simp add: same_field_def)
  moreover have "holds behind (input ?s) (xs @ rest)" using hold by simp
  moreover have "?f \<in> set fs" "0 < data_at fs src k" "0 < ?a" using k pos by (simp_all add: data_at_def)
  ultimately have "decodes_to behind rest ?f m (data_at fs src k) ?a ?s (PB_DECODERS decode env ?f ?a)"
    using decodes_value [OF sub _ f(1) _ _ xs(1,2)] by blast
  then obtain t mem where t: "PB_DECODERS decode env ?f ?a ?s = (Some (), ?s\<lparr>input := t, memory := mem\<rparr>)" "holds behind t rest"
      "ierrmsg t = ierrmsg (input s)" "changed_within ?a (data_size ?f) ?m mem" "same_value ?f m (data_at fs src k) mem ?a"
    by (auto simp: decodes_to_def)
  have "decode_static_field decode env wt (iter_at fs dest k) s = PB_DECODERS decode env ?f ?a ?s"
    using f(4) sl(4) by (auto simp: decode_static_field_def it Let_def pb_type_defs)
  moreover have "htype ?f \<noteq> PB_HTYPE_ONEOF" using f(4) by (auto simp: pb_type_defs)
  ultimately have "decode_field decode env wt (iter_at fs dest k) s = (Some (iter_at fs dest k), s\<lparr>input := t, memory := mem\<rparr>)"
    using f(3) t(1) by (simp add: decode_field_def it op_simps)
  moreover have "changed_within (dest + field_offset fs k) (data_offset ?f + data_size ?f) (memory s) mem"
    using ch t(4) by (auto simp: changed_within_def data_at_def)
  moreover have "same_field fs k m src mem dest"
    unfolding same_field_def
  proof (intro conjI impI)
    assume o: "htype ?f = PB_HTYPE_OPTIONAL"
    have "mem (has_at fs dest k) = ?m (has_at fs dest k)" by (rule changed_at [OF t(4)]) (use o sl(4) in simp)
    then show "safe_read_bool mem (has_at fs dest k) = safe_read_bool m (has_at fs src k)"
      using o has by (auto simp: safe_read_bool_def pb_type_defs)
  qed (rule t(5))
  ultimately show ?thesis using t(2,3) unfolding field_decoded_def by blast
qed


lemma decode_tagged_ok:
  assumes sub: "submessages_decode spec m fs decode" and ok: "message_ok fs" and k: "k < length fs" and pos: "0 < src" "0 < dest"
    and has: "htype (fs ! k) = PB_HTYPE_REQUIRED \<or> safe_read_bool m (has_at fs src k)"
    and xs: "value_bytes (message_bytes spec m (submsg_fields (fs ! k))) m (fs ! k) (data_at fs src k) = Some xs" "length xs < 2 ^ 32"
      "same_field fs k m src m src"
    and hold: "holds behind (input s) (xs @ rest)" and cl: "cleared_field fs k (memory s) dest" and v: "vars_ok fs dest K vars"
  obtains vars' where "vars_ok fs dest (insert k K) vars'"
    "field_decoded behind rest fs k m src dest s (decode_tagged decode env wt (field_tag (fs ! k)) vars) vars'"
proof -
  let ?v = "mark_seen (vars\<lparr>field_iter := iter_at fs dest k\<rparr>)"
  obtain j where "j < length fs" "field_iter vars = iter_at fs dest j" using v k by (auto simp: vars_ok_def at_field_def)
  then have find: "pb_field_iter_find (field_tag (fs ! k)) (field_iter vars) = (True, iter_at fs dest k)"
    using find_tag [OF ok _ k] by simp
  have f: "iter_field (iter_at fs dest k) = fs ! k" using message_ok_fields [OF ok] k by simp
  have "htype (fs ! k) \<noteq> PB_HTYPE_REPEATED" using message_ok_nth(4) [OF ok k] by (auto simp: pb_type_defs)
  then have e: "enter_fixed_count (vars\<lparr>field_iter := iter_at fs dest k\<rparr>) = op_return (vars\<lparr>field_iter := iter_at fs dest k\<rparr>)"
    by (simp add: enter_fixed_count_def Let_def f op_simps fun_eq_iff)
  note mark = mark_seen_ok [OF ok k v]
  have d: "field_decoded behind rest fs k m src dest s (decode_field decode env wt (iter_at fs dest k)) (iter_at fs dest k)"
    by (rule decode_field_ok [OF sub ok k pos has xs hold cl])
  moreover have "fst (decode_tagged decode env wt (field_tag (fs ! k)) vars s) = Some (?v\<lparr>field_iter := iter_at fs dest k\<rparr>)
      \<and> snd (decode_tagged decode env wt (field_tag (fs ! k)) vars s) = t"
    if "decode_field decode env wt (iter_at fs dest k) s = (Some (iter_at fs dest k), t)" for t
    using that by (simp add: decode_tagged_def find e mark(2) op_simps Let_def)
  ultimately have "field_decoded behind rest fs k m src dest s (decode_tagged decode env wt (field_tag (fs ! k)) vars)
      (?v\<lparr>field_iter := iter_at fs dest k\<rparr>)"
    unfolding field_decoded_def prod_eq_iff by fastforce
  moreover have "?v\<lparr>field_iter := iter_at fs dest k\<rparr> = ?v" using mark(2) by simp
  ultimately show thesis using that mark(1) by simp
qed

section \<open>The loop\<close>

lemma read_tag_step:
  assumes "holds behind (input s) (varint (tag_number wt tag) @ rest)" "wt < 8" "0 < tag" "tag < 2 ^ 29"
  obtains t where "decode_loop (Suc fuel) decode env vars s =
      op_bind (decode_tagged decode env wt tag vars) (decode_loop fuel decode env) (s\<lparr>input := t\<rparr>)"
    "holds behind t rest" "ierrmsg t = ierrmsg (input s)"
proof -
  have "wire_tag (varint (tag_number wt tag) @ rest) = (Some (wt, tag), rest)" using assms(2-4) by (intro wire_tag_put) auto
  then obtain t where t: "read_tag (input s) = (Some (wt, tag), t)" "holds behind t rest" "ierrmsg t = ierrmsg (input s)"
    using stream_reads_Some [OF read_tag_reads assms(1)] by blast
  then obtain e where "pb_decode_tag (input s) = ((Some (wt, tag), e), t)" by (auto simp: read_tag_def split: prod.splits)
  moreover have "bytes_left (input s) \<noteq> 0" using assms(1) by (simp add: holds_def)
  ultimately show thesis using that t(2,3) by simp
qed

definition fields_decoded :: "bytes \<Rightarrow> pb_field list \<Rightarrow> mem \<Rightarrow> nat \<Rightarrow> nat \<Rightarrow> 's dstate \<Rightarrow> ('s dstate, 'a) op \<Rightarrow> 'a \<Rightarrow> bool" where
  "fields_decoded behind fs m src dest s d x \<longleftrightarrow>
     (\<exists>t mem. d s = (Some x, s\<lparr>input := t, memory := mem\<rparr>) \<and> holds behind t [] \<and> ierrmsg t = ierrmsg (input s)
        \<and> changed_within dest (message_size fs) (memory s) mem \<and> same_message fs m src mem dest)"

lemma other_fields:
  assumes "message_ok fs" "k < length fs" "i < length fs" "i \<noteq> k"
    "changed_within (dest + field_offset fs k) (data_offset (fs ! k) + data_size (fs ! k)) m1 m2"
    "dest + field_offset fs i \<le> a" "a < dest + field_offset fs (Suc i)"
  shows "m1 a = m2 a"
proof -
  have "field_offset fs (Suc i) \<le> field_offset fs k \<or> field_offset fs (Suc k) \<le> field_offset fs i"
    using field_offset_mono [of "Suc i" k fs] field_offset_mono [of "Suc k" i fs] assms(4) by (cases "i < k") auto
  then have "a < dest + field_offset fs k \<or> dest + field_offset fs k + (data_offset (fs ! k) + data_size (fs ! k)) \<le> a"
    using assms(6,7) field_offset_Suc [OF assms(2)] by linarith
  then show ?thesis using changed_at [OF assms(5)] by simp
qed

end
