(* ===== verification/PbFieldOrder.thy ===== *)
theory PbFieldOrder
  imports PbMessage
begin

text \<open>
  The loop over a whole message. The encoder writes the fields in the order of the description; the
  decoder accepts them in any order, and skips fields that the description does not have, which is how a
  program reads messages of a newer version of its types.
\<close>

section \<open>A field that is not in the description\<close>

definition unknown_tag :: "pb_field list \<Rightarrow> u32 \<Rightarrow> bool" where
  "unknown_tag fs tag \<longleftrightarrow> 0 < tag \<and> tag < 2 ^ 29 \<and> list_all (\<lambda>f. field_tag f \<noteq> tag) fs"

definition no_extensions :: "pb_field list \<Rightarrow> bool" where
  "no_extensions fs \<longleftrightarrow> list_all (\<lambda>f. ltype f \<noteq> PB_LTYPE_EXTENSION) fs"

lemma seek_nothing:
  assumes "pb_fields_ok fs" "at_field fs j" "\<And>f. f \<in> set fs \<Longrightarrow> \<not> wanted f" "\<not> wanted PB_LAST_FIELD"
  shows "seek wanted j (length fs + 1) (iter_at fs dest j) = (False, iter_at fs dest j)"
proof (cases "j < length fs")
  case True
  have "find (\<lambda>i. wanted (fs ! i)) ([j..<length fs] @ [0..<j]) = None"
    using assms(3) True by (auto simp: find_None_iff)
  then show ?thesis using seek_found [OF assms(1) True] by simp
next
  case False
  then have "fs = []" "j = 0" using assms(2) by (auto simp: at_field_def)
  then show ?thesis using assms(4)
    by (simp add: iter_at.simps pb_field_iter_begin_def pb_field_iter_next_def Let_def iter_field_def field_at_def PB_LAST_FIELD_def)
qed

lemma unknown_not_found:
  assumes "pb_fields_ok fs" "at_field fs j"
  shows "unknown_tag fs tag \<Longrightarrow> pb_field_iter_find tag (iter_at fs dest j) = (False, iter_at fs dest j)"
    and "no_extensions fs \<Longrightarrow> find_extension_field (iter_at fs dest j) = (False, iter_at fs dest j)"
proof -
  have p: "iter_pos (iter_at fs dest j) = j"
    using assms by (auto simp: at_field_def iter_at.simps)
  show "unknown_tag fs tag \<Longrightarrow> pb_field_iter_find tag (iter_at fs dest j) = (False, iter_at fs dest j)"
    unfolding pb_field_iter_find_def p iter_at_start
    by (intro seek_nothing [OF assms]) (auto simp: unknown_tag_def list_all_iff PB_LAST_FIELD_def)
  show "no_extensions fs \<Longrightarrow> find_extension_field (iter_at fs dest j) = (False, iter_at fs dest j)"
    unfolding find_extension_field_def p iter_at_start
    by (intro seek_nothing [OF assms]) (auto simp: no_extensions_def list_all_iff PB_LAST_FIELD_def pb_type_defs PB_LTYPE_def)
qed

lemma unknown_skipped:
  assumes ok: "pb_fields_ok fs" "at_field fs j" "no_extensions fs" "unknown_tag fs tag" and v: "field_iter vars = iter_at fs dest j"
    and bs: "wire_value wt bs" "holds behind (input s) (varint (tag_number wt tag) @ bs @ rest)"
  obtains t start where "decode_loop (Suc fuel) decode env vars s = decode_loop fuel decode env (vars\<lparr>extension_range_start := start\<rparr>) (s\<lparr>input := t\<rparr>)"
    "holds behind t rest" "ierrmsg t = ierrmsg (input s)"
proof -
  have tag: "0 < tag" "tag < 2 ^ 29" using ok(4) by (simp_all add: unknown_tag_def)
  have wt: "wt < 8" using bs(1)
    by cases (simp_all add: PB_WT_STRING_def PB_WT_VARINT_def PB_WT_64BIT_def PB_WT_32BIT_def)
  obtain u where u: "decode_loop (Suc fuel) decode env vars s =
      op_bind (decode_tagged decode env wt tag vars) (decode_loop fuel decode env) (s\<lparr>input := u\<rparr>)"
    "holds behind u (bs @ rest)" "ierrmsg u = ierrmsg (input s)"
    using read_tag_step [OF bs(2) wt tag] .
  obtain t where t: "pb_skip_field wt u = (Some (), t)" "holds behind t rest" "ierrmsg t = ierrmsg u"
    using stream_reads_Some [OF skip_field_reads u(2) skip_value_skips [OF bs(1)]] .
  note find = unknown_not_found [OF ok(1,2)]
  have m: "tag < - 1"
  proof -
    have "tag < 2 ^ 29" by (rule tag(2))
    also have "\<dots> \<le> (- 1 :: u32)" by simp
    finally show ?thesis .
  qed
  have "\<exists>start. decode_tagged decode env wt tag vars (s\<lparr>input := u\<rparr>) = (Some (vars\<lparr>extension_range_start := start\<rparr>), s\<lparr>input := t\<rparr>)"
  proof (cases "tag \<ge> extension_range_start vars")
    case True
    have "vars\<lparr>field_iter := iter_at fs dest j\<rparr> = vars" using v by simp
    then show ?thesis using True find(1) [OF ok(4)] find(2) [OF ok(3)] t(1) v m
      by (auto simp: decode_tagged_def decode_unknown_def Let_def on_input_def op_simps intro!: exI [of _ "- 1"])
  next
    case False
    then show ?thesis using find(1) [OF ok(4)] t(1) v
      by (auto simp: decode_tagged_def decode_unknown_def Let_def on_input_def op_simps intro!: exI [of _ "extension_range_start vars"])
  qed
  then show ?thesis using that u(1) t(2,3) u(3) by fastforce
qed


inductive unknown_fields :: "pb_field list \<Rightarrow> bytes \<Rightarrow> bool" for fs where
  none: "unknown_fields fs []"
| more: "unknown_tag fs tag \<Longrightarrow> wire_value wt bs \<Longrightarrow> unknown_fields fs us \<Longrightarrow> unknown_fields fs (varint (tag_number wt tag) @ bs @ us)"

lemma unknown_prefix:
  assumes "unknown_fields fs us" "pb_fields_ok fs" "at_field fs j" "no_extensions fs" "field_iter vars = iter_at fs dest j"
    and "holds behind (input s) (us @ rest)" "length (us @ rest) \<le> fuel"
  shows "\<exists>t start fuel'. decode_loop fuel decode env vars s = decode_loop fuel' decode env (vars\<lparr>extension_range_start := start\<rparr>) (s\<lparr>input := t\<rparr>)
    \<and> holds behind t rest \<and> ierrmsg t = ierrmsg (input s) \<and> length rest \<le> fuel'"
  using assms
proof (induction us arbitrary: vars s fuel rule: unknown_fields.induct)
  case none
  then show ?case
    by (intro exI [of _ "input s"] exI [of _ "extension_range_start vars"] exI [of _ fuel]) simp
next
  case (more tag wt bs us)
  have n: "0 < length (varint (tag_number wt tag))" by simp
  then obtain fl where fl: "fuel = Suc fl" using more.prems(6) by (cases fuel) auto
  have l: "length (us @ rest) \<le> fl" using more.prems(6) n unfolding fl length_append by linarith
  have h: "holds behind (input s) (varint (tag_number wt tag) @ bs @ (us @ rest))" using more.prems(5) by simp
  obtain t start where t: "decode_loop (Suc fl) decode env vars s = decode_loop fl decode env (vars\<lparr>extension_range_start := start\<rparr>) (s\<lparr>input := t\<rparr>)"
      "holds behind t (us @ rest)" "ierrmsg t = ierrmsg (input s)"
    using unknown_skipped [OF more.prems(1-3) more.hyps(1) more.prems(4) more.hyps(2) h] by blast
  show ?case
    unfolding fl t(1) using more.IH [of "vars\<lparr>extension_range_start := start\<rparr>" "s\<lparr>input := t\<rparr>" fl] more.prems(1-4) t(2,3) l by auto
qed

section \<open>The fields of a message, in any order\<close>

text \<open>
  The bytes of the fields that are not in \<open>K\<close>, in any order, and of unknown fields before, between and
  after them. An absent field has no bytes.
\<close>

inductive message_stream :: "encode_spec \<Rightarrow> mem \<Rightarrow> pb_field list \<Rightarrow> nat \<Rightarrow> nat set \<Rightarrow> bytes \<Rightarrow> bool" for spec m fs src where
  finished: "unknown_fields fs us \<Longrightarrow> message_stream spec m fs src {..<length fs} us"
| field: "k < length fs \<Longrightarrow> k \<notin> K \<Longrightarrow> unknown_fields fs us \<Longrightarrow> field_part spec m fs src k = Some ys \<Longrightarrow>
    message_stream spec m fs src (insert k K) zs \<Longrightarrow> message_stream spec m fs src K (us @ ys @ zs)"

lemma encoder_order:
  "concat_opt (map (field_part spec m fs src) [k..<length fs]) = Some xs \<Longrightarrow> k \<le> length fs \<Longrightarrow> message_stream spec m fs src {..<k} xs"
proof (induction "length fs - k" arbitrary: k xs)
  case 0
  then show ?case using finished [OF unknown_fields.none, where fs = fs] by simp
next
  case (Suc n)
  then have k: "k < length fs" by linarith
  obtain ys zs where p: "field_part spec m fs src k = Some ys" "concat_opt (map (field_part spec m fs src) [Suc k..<length fs]) = Some zs"
      and xs: "xs = ys @ zs" using concat_opt_from [OF Suc.prems(1) k] by blast
  have "message_stream spec m fs src (insert k {..<k}) zs"
    using Suc.hyps(1) [OF _ p(2)] Suc.hyps(2) k by (simp add: lessThan_Suc [symmetric])
  then show ?case using field [OF k _ unknown_fields.none p(1), of "{..<k}" zs] xs by simp
qed

lemma encoded_stream:
  "message_ok fs \<Longrightarrow> 0 < src \<Longrightarrow> message_bytes spec m fs src = Some xs \<Longrightarrow> message_stream spec m fs src {} xs"
  using encoder_order [of spec m fs src 0 xs] message_parts [of fs src spec m] by simp

lemma message_ok_no_extensions: "message_ok fs \<Longrightarrow> no_extensions fs"
  using ltype_not_extension by (auto simp: message_ok_def no_extensions_def list_all_iff)

lemma vars_ok_range: "vars_ok fs dest K (vars\<lparr>extension_range_start := e\<rparr>) \<longleftrightarrow> vars_ok fs dest K vars"
  by (simp add: vars_ok_def)

lemma decode_loop_ok:
  assumes sub: "submessages_decode spec m fs decode" and ok: "message_ok fs" and pos: "0 < src" "0 < dest"
    and self: "same_message fs m src m src"
    and "message_stream spec m fs src K xs" "length xs < 2 ^ 32"
    and "length xs \<le> fuel" "holds behind (input s) xs" "vars_ok fs dest K vars"
    and "\<And>i. i < length fs \<Longrightarrow> if i \<in> K then same_field fs i m src (memory s) dest else cleared_field fs i (memory s) dest"
  shows "\<exists>vars'. vars_ok fs dest {..<length fs} vars' \<and> fields_decoded behind fs m src dest s (decode_loop fuel decode env vars) vars'"
  using assms(6-11)
proof (induction arbitrary: fuel s vars rule: message_stream.induct)
  case (finished us)
  obtain j where j: "at_field fs j" "field_iter vars = iter_at fs dest j" using finished.prems(4) by (auto simp: vars_ok_def)
  obtain t start fl where t: "decode_loop fuel decode env vars s = decode_loop fl decode env (vars\<lparr>extension_range_start := start\<rparr>) (s\<lparr>input := t\<rparr>)"
      "holds behind t []" "ierrmsg t = ierrmsg (input s)"
    using unknown_prefix [OF finished.hyps message_ok_fields [OF ok] j(1) message_ok_no_extensions [OF ok] j(2), of behind s "[]" fuel decode env]
      finished.prems(2,3) by auto
  have "decode_loop fl decode env v (s\<lparr>input := t\<rparr>) = (Some v, s\<lparr>input := t\<rparr>)" for v
    using t(2) by (cases fl) (simp_all add: holds_def)
  then have "decode_loop fuel decode env vars s = (Some (vars\<lparr>extension_range_start := start\<rparr>), s\<lparr>input := t\<rparr>)" using t(1) by simp
  then have "fields_decoded behind fs m src dest s (decode_loop fuel decode env vars) (vars\<lparr>extension_range_start := start\<rparr>)"
    unfolding fields_decoded_def same_message_fields using t(2,3) finished.prems(5)
    by (intro exI [of _ t] exI [of _ "memory s"]) simp
  then show ?case using finished.prems(4) vars_ok_range by blast
next
  case (field k K us ys zs)
  note k = field.hyps(1)
  obtain j where j: "at_field fs j" "field_iter vars = iter_at fs dest j" using field.prems(4) by (auto simp: vars_ok_def)
  obtain t start fl where t: "decode_loop fuel decode env vars s = decode_loop fl decode env (vars\<lparr>extension_range_start := start\<rparr>) (s\<lparr>input := t\<rparr>)"
      "holds behind t (ys @ zs)" "ierrmsg t = ierrmsg (input s)" "length (ys @ zs) \<le> fl"
    using unknown_prefix [OF field.hyps(3) message_ok_fields [OF ok] j(1) message_ok_no_extensions [OF ok] j(2), of behind s "ys @ zs" fuel decode env]
      field.prems(2,3) by auto
  let ?v = "vars\<lparr>extension_range_start := start\<rparr>" and ?s = "s\<lparr>input := t\<rparr>"
  have v: "vars_ok fs dest K ?v" using field.prems(4) by (simp add: vars_ok_range)
  have cl: "cleared_field fs k (memory s) dest" using field.prems(5) [OF k] field.hyps(2) by simp
  have zs: "length zs < 2 ^ 32" using field.prems(1) by simp
  from ok pos(1) k field.hyps(4) have "\<exists>vars'. vars_ok fs dest {..<length fs} vars' \<and> fields_decoded behind fs m src dest ?s (decode_loop fl decode env ?v) vars'"
  proof (cases rule: field_part_cases)
    case absent
    have sk: "same_field fs k m src (memory s) dest"
      using absent cl by (auto simp: same_field_def cleared_field_def safe_read_bool_def pb_type_defs)
    show ?thesis
    proof (rule field.IH [OF zs])
      show "vars_ok fs dest (insert k K) ?v" by (rule vars_ok_absent [OF v absent(1)])
      show "if i \<in> insert k K then same_field fs i m src (memory ?s) dest else cleared_field fs i (memory ?s) dest" if "i < length fs" for i
        using field.prems(5) [OF that] sk by auto
    qed (use t(2,4) absent in simp_all)
  next
    case (present wt vs)
    have tag: "0 < field_tag (fs ! k)" "field_tag (fs ! k) < 2 ^ 29" using message_ok_nth(2) [OF ok k] by (simp_all add: placed_ok_def)
    obtain fl' where fl: "fl = Suc fl'" using t(4) present(4) by (cases fl) auto
    have h: "holds behind (input ?s) (varint (tag_number wt (field_tag (fs ! k))) @ (vs @ zs))" using t(2) present(4) by simp
    obtain u where u: "decode_loop fl decode env ?v ?s =
        op_bind (decode_tagged decode env wt (field_tag (fs ! k)) ?v) (decode_loop fl' decode env) (?s\<lparr>input := u\<rparr>)"
      "holds behind u (vs @ zs)" "ierrmsg u = ierrmsg (input ?s)"
      unfolding fl using read_tag_step [OF h wire_type_less [OF present(2)] tag] .
    have c: "same_field fs k m src m src" using self k by (simp add: same_message_fields)
    have vs: "length vs < 2 ^ 32" using field.prems(1) present(4) by simp
    obtain v' where v': "vars_ok fs dest (insert k K) v'"
        "field_decoded behind zs fs k m src dest (s\<lparr>input := u\<rparr>) (decode_tagged decode env wt (field_tag (fs ! k)) ?v) v'"
      using decode_tagged_ok [OF sub ok k pos present(1,3) vs c _ _ v, of behind "s\<lparr>input := u\<rparr>" zs env wt] u(2) cl by auto
    obtain w mem where w: "decode_tagged decode env wt (field_tag (fs ! k)) ?v (s\<lparr>input := u\<rparr>) = (Some v', s\<lparr>input := w, memory := mem\<rparr>)"
        "holds behind w zs" "ierrmsg w = ierrmsg u"
        "changed_within (dest + field_offset fs k) (data_offset (fs ! k) + data_size (fs ! k)) (memory s) mem"
        "same_field fs k m src mem dest"
      using v'(2) by (auto simp: field_decoded_def)
    let ?t = "s\<lparr>input := w, memory := mem\<rparr>"
    have "\<exists>vars'. vars_ok fs dest {..<length fs} vars' \<and> fields_decoded behind fs m src dest ?t (decode_loop fl' decode env v') vars'"
    proof (rule field.IH [OF zs])
      show "length zs \<le> fl'" using t(4) present(4) fl by (cases "varint (tag_number wt (field_tag (fs ! k)))") auto
      show "if i \<in> insert k K then same_field fs i m src (memory ?t) dest else cleared_field fs i (memory ?t) dest" if i: "i < length fs" for i
      proof (cases "i = k")
        case True
        then show ?thesis using w(5) by simp
      next
        case False
        note eq = other_fields [OF ok k i False w(4)]
        have "same_field fs i m src (memory s) dest \<longleftrightarrow> same_field fs i m src mem dest" by (rule same_field_cong [OF ok i eq])
        moreover have "cleared_field fs i (memory s) dest \<longleftrightarrow> cleared_field fs i mem dest" by (rule cleared_field_cong [OF ok i eq])
        ultimately show ?thesis using field.prems(5) [OF i] False by auto
      qed
    qed (use w(2) v'(1) in simp_all)
    then obtain vars' t' mem' where r: "vars_ok fs dest {..<length fs} vars'"
        "decode_loop fl' decode env v' ?t = (Some vars', ?t\<lparr>input := t', memory := mem'\<rparr>)" "holds behind t' []" "ierrmsg t' = ierrmsg w"
        "changed_within dest (message_size fs) mem mem'" "same_message fs m src mem' dest"
      by (auto simp: fields_decoded_def)
    have "changed_within dest (message_size fs) (memory s) mem"
      using w(4) by (rule changed_mono) (use field_offset_Suc [OF k] field_offset_mono [of "Suc k" "length fs" fs] k in linarith)+
    then have "changed_within dest (message_size fs) (memory s) mem'" using r(5) by (rule changed_trans)
    moreover have "decode_loop fl decode env ?v ?s = (Some vars', s\<lparr>input := t', memory := mem'\<rparr>)"
      using u(1) w(1) r(2) by (simp add: op_simps)
    ultimately show ?thesis using r(1,3,4,6) w(3) u(3) unfolding fields_decoded_def by auto
  qed
  then show ?case using t(1,3) unfolding fields_decoded_def by auto
qed

end
