(* ===== verification/PbTransfer.thy ===== *)
theory PbTransfer
  imports PbFieldOrder
begin

text \<open>
  Whole messages: what \<open>pb_encode\<close> writes, \<open>pb_decode\<close> reads back into another struct. The default values stay in the
  struct, for every description whose fields are inside it.
\<close>

section \<open>The decoder without defaults\<close>

lemma decode_fields_ok:
  assumes sub: "submessages_decode spec m fs decode" and ok: "message_ok fs" and pos: "0 < src" "0 < dest"
    and self: "same_message fs m src m src" and xs: "message_stream spec m fs src {} xs" "length xs < 2 ^ 32"
    and hold: "holds behind (input s) xs" and cl: "cleared fs (memory s) dest"
  shows "fields_decoded behind fs m src dest s (decode_fields decode env fs dest) ()"
proof -
  let ?vars = "\<lparr>fields_seen = [0, 0], extension_range_start = 0, fixed_count_field = None, field_iter = snd (pb_field_iter_begin fs dest)\<rparr>"
  let ?s = "s\<lparr>fixed_count_size := 0\<rparr>"
  have v: "vars_ok fs dest {} ?vars"
    using seen_is_0 by (auto simp: vars_ok_def at_field_def required_marks_def iter_at.simps intro: exI [of _ 0])
  have "bytes_left (input s) = length xs" using hold by (simp add: holds_def)
  then have "\<exists>vars'. vars_ok fs dest {..<length fs} vars'
      \<and> fields_decoded behind fs m src dest ?s (decode_loop (bytes_left (input s)) decode env ?vars) vars'"
    using decode_loop_ok [OF sub ok pos self xs _ _ v, of "bytes_left (input s)" behind ?s env] hold cl
    by (auto simp: cleared_def)
  then obtain vars' t mem where r: "vars_ok fs dest {..<length fs} vars'"
      "decode_loop (bytes_left (input s)) decode env ?vars ?s = (Some vars', ?s\<lparr>input := t, memory := mem\<rparr>)" "holds behind t []"
      "ierrmsg t = ierrmsg (input s)" "changed_within dest (message_size fs) (memory s) mem" "same_message fs m src mem dest"
    by (auto simp: fields_decoded_def)
  obtain j where "j < length fs \<or> fs = [] \<and> j = 0" "field_iter vars' = iter_at fs dest j" using r(1) by (auto simp: vars_ok_def at_field_def)
  then have "required_present (fields_seen vars') (count_required (field_iter vars'))"
    using count_required_at [OF message_ok_fields [OF ok]] seen_required_present [of _ "fields_seen vars'"] r(1)
    by (simp add: vars_ok_def required_marks_all)
  then have "finish_fields vars' (?s\<lparr>input := t, memory := mem\<rparr>) = (Some (), ?s\<lparr>input := t, memory := mem\<rparr>)"
    using r(1) by (simp add: finish_fields_def vars_ok_def)
  then have "decode_fields decode env fs dest s = (Some (), s\<lparr>input := t, memory := mem\<rparr>)"
    using r(2) by (simp add: decode_fields_def Let_def op_simps)
  then show ?thesis using r(3-6) unfolding fields_decoded_def by auto
qed

lemma decode_noinit_ok:
  fixes s :: "'s dstate"
  assumes "message_ok fs" "0 < src" "0 < dest" "same_message fs m src m src" "message_stream spec m fs src {} xs"
    "length xs < 2 ^ 32" "holds behind (input s) xs" "cleared fs (memory s) dest"
  shows "fields_decoded behind fs m src dest s (pb_decode_noinit env fs dest) ()"
  using assms
proof (induction "size_list size fs" arbitrary: fs src dest xs behind s rule: less_induct)
  case less
  let ?sub = "\<lambda>f init dest. if f \<notin> set fs then op_fail
      else if init then decode_with_defaults env (submsg_fields f) dest (pb_decode_noinit env (submsg_fields f) dest)
      else pb_decode_noinit env (submsg_fields f) dest"
  have "submessages_decode spec m fs ?sub"
    unfolding submessages_decode_def
  proof (intro allI impI)
    fix f src' dest' xs' behind' and s' :: "'s dstate"
    assume f: "f \<in> set fs" "ltype f = PB_LTYPE_SUBMESSAGE" and a: "0 < src'" "0 < dest'"
      "message_bytes spec m (submsg_fields f) src' = Some xs'" "length xs' < 2 ^ 32" "same_message (submsg_fields f) m src' m src'"
      "cleared (submsg_fields f) (memory s') dest'" "holds behind' (input s') xs'"
    have "field_ok f" using less.prems(1) f(1) by (auto simp: message_ok_def list_all_iff)
    then have "message_ok (submsg_fields f)" using message_ok_submsg f(2) by blast
    moreover from this have "message_stream spec m (submsg_fields f) src' {} xs'" using a(1,3) by (rule encoded_stream)
    ultimately have "fields_decoded behind' (submsg_fields f) m src' dest' s' (pb_decode_noinit env (submsg_fields f) dest') ()"
      using less.hyps [OF size_submsg_fields [OF f(1)]] a by blast
    then show "\<exists>t mem. ?sub f False dest' s' = (Some (), s'\<lparr>input := t, memory := mem\<rparr>) \<and> holds behind' t [] \<and> ierrmsg t = ierrmsg (input s')
           \<and> changed_within dest' (message_size (submsg_fields f)) (memory s') mem \<and> same_message (submsg_fields f) m src' mem dest'"
      using f(1) by (simp add: fields_decoded_def)
  qed
  then show ?case
    unfolding pb_decode_noinit.simps [of env fs dest] by (rule decode_fields_ok) (use less.prems in simp_all)
qed

section \<open>Default values\<close>

lemma default_field:
  assumes ok: "message_ok fs" and k: "k < length fs" and dest: "0 < dest"
    and sub: "\<And>m. ltype (fs ! k) = PB_LTYPE_SUBMESSAGE \<Longrightarrow> cleared (submsg_fields (fs ! k)) (set_sub (data_at fs dest k) m) (data_at fs dest k)
        \<and> changed_within (data_at fs dest k) (message_size (submsg_fields (fs ! k))) m (set_sub (data_at fs dest k) m)"
  shows "cleared_field fs k (pb_field_set_to_default ext set_sub (iter_at fs dest k) m) dest
    \<and> changed_within (dest + field_offset fs k) (data_offset (fs ! k) + data_size (fs ! k)) m
        (pb_field_set_to_default ext set_sub (iter_at fs dest k) m)"
proof -
  let ?f = "fs ! k" and ?a = "data_at fs dest k" and ?h = "has_at fs dest k"
  note f = message_ok_nth [OF ok k] and sl = slot [OF ok k, of dest]
  have it: "iter_field (iter_at fs dest k) = ?f" "pData (iter_at fs dest k) = ?a" "pSize (iter_at fs dest k) = Size_at ?h"
    using message_ok_fields [OF ok] k iter_at_address [OF ok dest k] by simp_all
  let ?m = "if htype ?f = PB_HTYPE_OPTIONAL then store_bytes ?h [0] m else m"
  let ?m' = "pb_field_set_to_default ext set_sub (iter_at fs dest k) m"
  define v where "v = (case field_ptr ?f of Default_value bs \<Rightarrow> take (data_size ?f) bs | _ \<Rightarrow> replicate (data_size ?f) 0)"
  have len: "length v \<le> data_size ?f" by (simp add: v_def split: pb_ptr.split)
  have m': "?m' = (if ltype ?f = PB_LTYPE_SUBMESSAGE then set_sub ?a ?m else store_bytes ?a v ?m)"
    using f(3,4) sl(4) ltype_not_extension [OF f(1)]
    by (auto simp: pb_field_set_to_default_def it Let_def pb_type_defs v_def split: pb_ptr.splits)
  have ch: "changed_within ?a (data_size ?f) ?m ?m'"
  proof (cases "ltype ?f = PB_LTYPE_SUBMESSAGE")
    case True
    have "changed_within ?a (message_size (submsg_fields ?f)) ?m ?m'" unfolding m' using sub [OF True] True by simp
    then show ?thesis by (rule changed_mono) (use message_ok_submsg [OF f(1) True] in simp_all)
  next
    case False
    then show ?thesis unfolding m' using len by simp
  qed
  have "changed_within (dest + field_offset fs k) (data_offset ?f + data_size ?f) m ?m"
    using sl by (auto simp: changed_within_def data_at_def)
  moreover have "changed_within (dest + field_offset fs k) (data_offset ?f + data_size ?f) ?m ?m'"
    using ch by (rule changed_mono) (simp_all add: data_at_def)
  ultimately have "changed_within (dest + field_offset fs k) (data_offset ?f + data_size ?f) m ?m'" by (rule changed_trans)
  moreover have "?m' ?h = 0" if o: "htype ?f = PB_HTYPE_OPTIONAL"
  proof -
    have "?m' ?h = ?m ?h" by (rule changed_at [OF ch]) (use o sl(4) in simp)
    then show ?thesis using o by simp
  qed
  moreover have "cleared_value ?f ?m' ?a"
  proof (cases "ltype ?f = PB_LTYPE_SUBMESSAGE")
    case True
    then show ?thesis unfolding cleared_value_submessage [OF True] m' using sub [OF True] by simp
  next
    case False
    then show ?thesis by (simp add: cleared_value.simps [of ?f])
  qed
  ultimately show ?thesis by (simp add: cleared_field_def)
qed

lemma message_defaults:
  assumes "message_ok fs" "0 < dest"
  shows "cleared fs (pb_message_set_to_defaults ext fs dest m) dest
    \<and> changed_within dest (message_size fs) m (pb_message_set_to_defaults ext fs dest m)"
  using assms
proof (induction "size_list size fs" arbitrary: fs dest m rule: less_induct)
  case less
  note ok = less.prems(1) and dest = less.prems(2)
  let ?step = "\<lambda>k. pb_field_set_to_default ext (\<lambda>dest m. pb_message_set_to_defaults ext (submsg_fields (fs ! k)) dest m) (iter_at fs dest k)"
  have step: "cleared_field fs k (?step k m) dest
      \<and> changed_within (dest + field_offset fs k) (data_offset (fs ! k) + data_size (fs ! k)) m (?step k m)" if k: "k < length fs" for k m
  proof (rule default_field [OF ok k dest])
    fix m assume l: "ltype (fs ! k) = PB_LTYPE_SUBMESSAGE"
    have "0 < data_at fs dest k" using dest by (simp add: data_at_def)
    then show "cleared (submsg_fields (fs ! k)) (pb_message_set_to_defaults ext (submsg_fields (fs ! k)) (data_at fs dest k) m) (data_at fs dest k)
        \<and> changed_within (data_at fs dest k) (message_size (submsg_fields (fs ! k))) m
            (pb_message_set_to_defaults ext (submsg_fields (fs ! k)) (data_at fs dest k) m)"
      using less.hyps [OF size_submsg_fields [of "fs ! k" fs]] k message_ok_submsg [OF message_ok_nth(1) [OF ok k] l] by simp
  qed
  have all: "(\<forall>i < k. cleared_field fs i (fold ?step [0..<k] m) dest) \<and> changed_within dest (message_size fs) m (fold ?step [0..<k] m)"
    if "k \<le> length fs" for k
    using that
  proof (induction k)
    case (Suc k)
    let ?m = "fold ?step [0..<k] m"
    have k: "k < length fs" and IH: "\<forall>i < k. cleared_field fs i ?m dest" "changed_within dest (message_size fs) m ?m" using Suc by simp_all
    have "cleared_field fs i (?step k ?m) dest" if "i < Suc k" for i
    proof (cases "i = k")
      case False
      have i: "i < length fs" using that k by simp
      note eq = other_fields [OF ok k i False step [OF k, of ?m, THEN conjunct2]]
      have "cleared_field fs i ?m dest \<longleftrightarrow> cleared_field fs i (?step k ?m) dest" by (rule cleared_field_cong [OF ok i eq])
      then show ?thesis using IH(1) that False by simp
    qed (use step [OF k] in simp)
    moreover have "changed_within dest (message_size fs) ?m (?step k ?m)"
      using step [OF k, THEN conjunct2] by (rule changed_mono) (use field_offset_Suc [OF k] field_offset_mono [of "Suc k" "length fs" fs] k in linarith)+
    ultimately show ?case using changed_trans [OF IH(2)] by simp
  qed simp
  have "pb_message_set_to_defaults ext fs dest m = fold ?step [0..<length fs] m"
    unfolding pb_message_set_to_defaults.simps [of ext fs dest m] fields_visited [OF message_ok_fields [OF ok]] fold_map
    by (rule fold_cong) (use message_ok_fields [OF ok] in simp_all)
  then show ?case using all [of "length fs"] by (simp add: cleared_def)
qed

section \<open>Defaults and the layout of a struct\<close>

text \<open>
  What the code relies on, for any description: the data of every field, its \<open>has_\<close> flag of one byte and
  its counter of four bytes are inside the struct of \<open>n\<close> bytes at \<open>dest\<close>, and the struct of a static
  submessage is inside its field. An array of fixed size has no counter, and \<open>pSize\<close> is the address of
  its data: it has to have room for a counter all the same (see \<open>fixed_array_overrun\<close>).
\<close>

definition field_room :: "pb_field \<Rightarrow> nat" where
  "field_room f =
     (if atype f = PB_ATYPE_POINTER then 8
      else if atype f = PB_ATYPE_STATIC \<and> htype f = PB_HTYPE_REPEATED then data_size f * array_size f
      else data_size f)"

definition counter_room :: "pb_field \<Rightarrow> nat" where
  "counter_room f =
     (if atype f = PB_ATYPE_CALLBACK then 0
      else if htype f = PB_HTYPE_REPEATED \<or> htype f = PB_HTYPE_ONEOF then 4
      else if htype f = PB_HTYPE_OPTIONAL \<and> atype f = PB_ATYPE_STATIC then 1
      else 0)"

definition room_inside :: "nat \<Rightarrow> nat \<Rightarrow> nat \<Rightarrow> nat \<Rightarrow> bool" where
  "room_inside dest n a k \<longleftrightarrow> k = 0 \<or> dest \<le> a \<and> a + k \<le> dest + n"

definition field_inside :: "nat \<Rightarrow> nat \<Rightarrow> pb_field_iter \<Rightarrow> bool" where
  "field_inside dest n iter \<longleftrightarrow>
     (let f = iter_field iter
      in room_inside dest n (pData iter) (field_room f) \<and>
         (case pSize iter of
            Size_at a \<Rightarrow> htype f = PB_HTYPE_OPTIONAL \<and> a = pData iter \<or> room_inside dest n a (counter_room f)
          | Fixed_count \<Rightarrow> counter_room f = 0))"

function struct_holds :: "pb_field list \<Rightarrow> nat \<Rightarrow> nat \<Rightarrow> bool" where
  "struct_holds fs dest n \<longleftrightarrow>
     list_all (\<lambda>iter. let f = iter_field iter in
         field_inside dest n iter \<and>
         (ltype f = PB_LTYPE_SUBMESSAGE \<and> atype f = PB_ATYPE_STATIC \<and> htype f \<notin> {PB_HTYPE_REPEATED, PB_HTYPE_ONEOF}
          \<longrightarrow> struct_holds (submsg_fields f) (pData iter) (data_size f)))
       (pb_fields_visited fs dest)"
  by auto
termination
  by (relation "measure (\<lambda>(fs, dest, n). size_list size fs)") (auto intro: size_submsg_fields visited_field)

declare struct_holds.simps [simp del]

definition changed_only :: "nat set \<Rightarrow> mem \<Rightarrow> mem \<Rightarrow> bool" where
  "changed_only A m m' \<longleftrightarrow> (\<forall>a. a \<notin> A \<longrightarrow> m' a = m a)"

lemma changed_only_refl [simp]: "changed_only A m m"
  by (simp add: changed_only_def)

lemma changed_only_trans: "changed_only A m m1 \<Longrightarrow> changed_only A m1 m2 \<Longrightarrow> changed_only A m m2"
  by (simp add: changed_only_def)

lemma changed_only_fold: "(\<And>x m. x \<in> set xs \<Longrightarrow> changed_only A m (step x m)) \<Longrightarrow> changed_only A m (fold step xs m)"
proof (induction xs arbitrary: m)
  case (Cons x xs)
  have "changed_only A m (step x m)" by (rule Cons.prems) simp
  moreover have "changed_only A (step x m) (fold step xs (step x m))" by (rule Cons.IH) (use Cons.prems in simp)
  ultimately show ?case using changed_only_trans by simp
qed simp

lemma changed_only_store_bytes:
  "room_inside dest n a (length bs) \<Longrightarrow> {dest..<dest + n} \<subseteq> A \<Longrightarrow> changed_only A m (store_bytes a bs m)"
  by (cases "bs = []") (auto simp: changed_only_def room_inside_def store_bytes_def subset_iff)

lemma changed_only_store:
  "room_inside dest n a (LENGTH('a::len) div 8) \<Longrightarrow> {dest..<dest + n} \<subseteq> A \<Longrightarrow> changed_only A m (store a (v :: 'a word) m)"
  unfolding store_def by (rule changed_only_store_bytes) simp_all

lemma room_inside_mono: "room_inside dest n a k \<Longrightarrow> j \<le> k \<Longrightarrow> room_inside dest n a j"
  by (auto simp: room_inside_def)

lemma default_field_only:
  assumes inside: "field_inside dest n iter" and A: "{dest..<dest + n} \<subseteq> A"
    and ext: "\<And>p m. changed_only A m (ext p m)"
    and sub: "\<And>m. ltype (iter_field iter) = PB_LTYPE_SUBMESSAGE \<Longrightarrow> atype (iter_field iter) = PB_ATYPE_STATIC \<Longrightarrow>
        htype (iter_field iter) \<noteq> PB_HTYPE_REPEATED \<Longrightarrow> htype (iter_field iter) \<noteq> PB_HTYPE_ONEOF \<Longrightarrow>
        changed_only A m (set_sub (pData iter) m)"
  shows "changed_only A m (pb_field_set_to_default ext set_sub iter m)"
proof -
  let ?f = "iter_field iter"
  define sz where "sz = (case pSize iter of Size_at a \<Rightarrow> a | Fixed_count \<Rightarrow> 0)"
  have data: "room_inside dest n (pData iter) (field_room ?f)" using inside by (simp add: field_inside_def Let_def)
  have counter: "room_inside dest n sz (counter_room ?f)" if "htype ?f \<noteq> PB_HTYPE_OPTIONAL \<or> pSize iter \<noteq> Size_at (pData iter)"
    using inside that by (auto simp: field_inside_def Let_def sz_def room_inside_def split: size_ptr.splits)
  have zero: "changed_only A m (store sz (0 :: u32) m)"
    if "htype ?f = PB_HTYPE_REPEATED \<or> htype ?f = PB_HTYPE_ONEOF" "atype ?f \<noteq> PB_ATYPE_CALLBACK" for m
    using counter that by (intro changed_only_store [OF _ A]) (auto simp: counter_room_def pb_type_defs)
  have flag: "changed_only A m (store_bytes sz [0] m)"
    if "htype ?f = PB_HTYPE_OPTIONAL" "pSize iter \<noteq> Size_at (pData iter)" "atype ?f = PB_ATYPE_STATIC" for m
    using counter that by (intro changed_only_store_bytes [OF _ A]) (auto simp: counter_room_def pb_type_defs)
  have bytes: "changed_only A m (store_bytes (pData iter) bs m)"
    if "length bs \<le> data_size ?f" "atype ?f = PB_ATYPE_STATIC" "htype ?f \<noteq> PB_HTYPE_REPEATED" for bs m
    by (rule changed_only_store_bytes [OF room_inside_mono [OF data] A]) (use that in \<open>simp add: field_room_def pb_type_defs\<close>)
  have ptr: "changed_only A m (store_ptr (pData iter) 0 m)" if "atype ?f = PB_ATYPE_POINTER" for m
    unfolding store_ptr_def by (rule changed_only_store [OF _ A]) (use data that in \<open>simp add: field_room_def\<close>)
  consider "ltype ?f = PB_LTYPE_EXTENSION" | "ltype ?f \<noteq> PB_LTYPE_EXTENSION" "atype ?f = PB_ATYPE_STATIC"
    | "ltype ?f \<noteq> PB_LTYPE_EXTENSION" "atype ?f = PB_ATYPE_POINTER"
    | "ltype ?f \<noteq> PB_LTYPE_EXTENSION" "atype ?f \<noteq> PB_ATYPE_STATIC" "atype ?f \<noteq> PB_ATYPE_POINTER" by blast
  then show ?thesis
  proof cases
    case 1
    then show ?thesis using ext by (simp add: pb_field_set_to_default_def)
  next
    case 2
    let ?m = "if htype ?f = PB_HTYPE_OPTIONAL \<and> pSize iter \<noteq> Size_at (pData iter) then store_bytes sz [0] m
       else if htype ?f = PB_HTYPE_REPEATED \<or> htype ?f = PB_HTYPE_ONEOF then store sz (0 :: u32) m else m"
    define v where "v = (case field_ptr ?f of Default_value bs \<Rightarrow> take (data_size ?f) bs | _ \<Rightarrow> replicate (data_size ?f) 0)"
    have "length v \<le> data_size ?f" by (simp add: v_def split: pb_ptr.split)
    moreover have "pb_field_set_to_default ext set_sub iter m =
        (if htype ?f = PB_HTYPE_REPEATED \<or> htype ?f = PB_HTYPE_ONEOF then ?m
         else if ltype ?f = PB_LTYPE_SUBMESSAGE then set_sub (pData iter) ?m else store_bytes (pData iter) v ?m)"
      using 2 by (simp add: pb_field_set_to_default_def Let_def v_def sz_def split: pb_ptr.split)
    moreover have "changed_only A m ?m" using 2 zero flag by (simp add: pb_type_defs)
    ultimately show ?thesis using 2 sub bytes by (auto intro: changed_only_trans)
  next
    case 3
    have "PB_ATYPE_POINTER \<noteq> PB_ATYPE_STATIC" "PB_ATYPE_POINTER \<noteq> PB_ATYPE_CALLBACK" by (simp_all add: pb_type_defs)
    then have "pb_field_set_to_default ext set_sub iter m =
        (if htype ?f = PB_HTYPE_REPEATED \<or> htype ?f = PB_HTYPE_ONEOF then store sz (0 :: u32) (store_ptr (pData iter) 0 m)
         else store_ptr (pData iter) 0 m)"
      using 3 by (simp add: pb_field_set_to_default_def Let_def sz_def)
    moreover have "changed_only A (store_ptr (pData iter) 0 m) (store sz (0 :: u32) (store_ptr (pData iter) 0 m))"
      if "htype ?f = PB_HTYPE_REPEATED \<or> htype ?f = PB_HTYPE_ONEOF"
      using zero [OF that] 3 \<open>PB_ATYPE_POINTER \<noteq> PB_ATYPE_CALLBACK\<close> by simp
    ultimately show ?thesis using changed_only_trans [OF ptr [OF 3(2)]] ptr [OF 3(2)] by simp
  next
    case 4
    then show ?thesis by (simp add: pb_field_set_to_default_def)
  qed
qed

lemma defaults_only:
  assumes "struct_holds fs dest n" "{dest..<dest + n} \<subseteq> A" "\<And>p m. changed_only A m (ext p m)"
  shows "changed_only A m (pb_message_set_to_defaults ext fs dest m)"
  using assms(1,2)
proof (induction "size_list size fs" arbitrary: fs dest n m rule: less_induct)
  case less
  show ?case unfolding pb_message_set_to_defaults.simps [of ext fs dest m]
  proof (rule changed_only_fold)
    fix iter m assume it: "iter \<in> set (pb_fields_visited fs dest)"
    let ?f = "iter_field iter"
    have h: "field_inside dest n iter"
      and hs: "ltype ?f = PB_LTYPE_SUBMESSAGE \<Longrightarrow> atype ?f = PB_ATYPE_STATIC \<Longrightarrow> htype ?f \<noteq> PB_HTYPE_REPEATED \<Longrightarrow>
          htype ?f \<noteq> PB_HTYPE_ONEOF \<Longrightarrow> struct_holds (submsg_fields ?f) (pData iter) (data_size ?f)"
      using less.prems(1) it unfolding struct_holds.simps [of fs dest n] by (simp_all add: list_all_iff Let_def)
    show "changed_only A m (pb_field_set_to_default ext (\<lambda>dest m. pb_message_set_to_defaults ext (submsg_fields ?f) dest m) iter m)"
    proof (rule default_field_only [OF h less.prems(2) assms(3)])
      fix m
      assume c: "ltype ?f = PB_LTYPE_SUBMESSAGE" "atype ?f = PB_ATYPE_STATIC" "htype ?f \<noteq> PB_HTYPE_REPEATED" "htype ?f \<noteq> PB_HTYPE_ONEOF"
      have "room_inside dest n (pData iter) (data_size ?f)"
        using h c by (simp add: field_inside_def Let_def field_room_def pb_type_defs)
      then have "{pData iter..<pData iter + data_size ?f} \<subseteq> A" using less.prems(2) by (fastforce simp: room_inside_def)
      then show "changed_only A m (pb_message_set_to_defaults ext (submsg_fields ?f) (pData iter) m)"
        using less.hyps [OF size_submsg_fields [OF visited_field [OF it]] hs [OF c]] by simp
    qed
  qed
qed

lemma message_struct_holds:
  assumes "message_ok fs" "0 < dest" "message_size fs \<le> n"
  shows "struct_holds fs dest n"
  using assms
proof (induction "size_list size fs" arbitrary: fs dest n rule: less_induct)
  case less
  note ok = less.prems(1) and dest = less.prems(2)
  have "field_inside dest n (iter_at fs dest k) \<and>
      (ltype (fs ! k) = PB_LTYPE_SUBMESSAGE \<longrightarrow> struct_holds (submsg_fields (fs ! k)) (data_at fs dest k) (data_size (fs ! k)))"
    if k: "k < length fs" for k
  proof
    note f = message_ok_nth [OF ok k] and sl = slot [OF ok k, of dest]
    have "field_offset fs (Suc k) \<le> n" using field_offset_mono [of "Suc k" "length fs" fs] k less.prems(3) by linarith
    then have "room_inside dest n (data_at fs dest k) (data_size (fs ! k))"
      and "htype (fs ! k) = PB_HTYPE_OPTIONAL \<Longrightarrow> room_inside dest n (has_at fs dest k) 1"
      using sl by (auto simp: room_inside_def)
    then show "field_inside dest n (iter_at fs dest k)"
      using message_ok_fields [OF ok] k iter_at_address [OF ok dest k] f(3,4)
      by (auto simp: field_inside_def Let_def field_room_def counter_room_def pb_type_defs room_inside_def)
    show "ltype (fs ! k) = PB_LTYPE_SUBMESSAGE \<longrightarrow> struct_holds (submsg_fields (fs ! k)) (data_at fs dest k) (data_size (fs ! k))"
    proof
      assume l: "ltype (fs ! k) = PB_LTYPE_SUBMESSAGE"
      show "struct_holds (submsg_fields (fs ! k)) (data_at fs dest k) (data_size (fs ! k))"
        by (rule less.hyps [OF size_submsg_fields [OF nth_mem [OF k]]])
          (use message_ok_submsg [OF f(1) l] dest in \<open>simp_all add: data_at_def\<close>)
    qed
  qed
  then show ?case
    unfolding struct_holds.simps [of fs dest n] fields_visited [OF message_ok_fields [OF ok]]
    using message_ok_fields [OF ok] iter_at_address [OF ok dest] by (auto simp: list_all_iff Let_def)
qed

section \<open>The round trip\<close>

lemma decode_message:
  assumes "message_ok fs" "0 < src" "0 < dest" "same_message fs m src m src" "message_stream spec m fs src {} xs"
    "length xs < 2 ^ 32" "holds behind (input s) xs"
  shows "fields_decoded behind fs m src dest s (pb_decode env fs dest) ()"
proof -
  let ?m = "pb_message_set_to_defaults (extensions_default env) fs dest (memory s)"
  have d: "cleared fs ?m dest" "changed_within dest (message_size fs) (memory s) ?m"
    using message_defaults [OF assms(1,3)] by simp_all
  have "fields_decoded behind fs m src dest (s\<lparr>memory := ?m\<rparr>) (pb_decode_noinit env fs dest) ()"
    by (rule decode_noinit_ok [OF assms(1-6)]) (use assms(7) d in simp_all)
  then obtain t mem where t: "pb_decode_noinit env fs dest (s\<lparr>memory := ?m\<rparr>) = (Some (), s\<lparr>input := t, memory := mem\<rparr>)"
      "holds behind t []" "ierrmsg t = ierrmsg (input s)" "changed_within dest (message_size fs) ?m mem" "same_message fs m src mem dest"
    by (auto simp: fields_decoded_def)
  then show ?thesis using changed_trans [OF d(2) t(4)]
    unfolding fields_decoded_def pb_decode_def decode_with_defaults_def by auto
qed


section \<open>Messages that can be encoded\<close>

lemma scalar_encodable:
  assumes "field_ok f" "ltype f \<noteq> PB_LTYPE_SUBMESSAGE" "same_value f m src m' dest"
  shows "\<exists>xs. value_bytes sub m f src = Some xs"
proof -
  have sc: "scalar_size (ltype f) (data_size f)" "data_size f < 2 ^ 32"
    using assms(1,2) by (simp_all add: field_ok.simps [of f] placed_ok_def)
  have "\<not> unat (load m src :: u32) > size_add (data_size f) (size_mod - 4)" if "ltype f = PB_LTYPE_BYTES"
    using assms(3) sc(2) unfolding same_value_scalar(3) [OF that] by (auto simp: size_add_def size_mod_def mod_if)
  moreover have "(\<exists>v. load_signed m n src = Some v) \<and> (\<exists>v. load_unsigned m n src = Some v)" if "n \<in> {1, 2, 4, 8}" for n
    using that by (auto simp: load_signed_def load_unsigned_def)
  ultimately show ?thesis
    using sc(1) assms(2) unfolding scalar_size_def value_bytes_def Let_def pb_type_defs by (simp split: if_splits) blast+
qed

lemma concat_opt_total: "(\<And>x. x \<in> set xs \<Longrightarrow> \<exists>ys. r x = Some ys) \<Longrightarrow> \<exists>ys. concat_opt (map r xs) = Some ys"
  by (induction xs) (fastforce simp: append_opt_def)+

lemma message_encodable:
  assumes "message_ok fs" "0 < src" "same_message fs m src m' dest"
  shows "\<exists>xs. message_bytes spec m fs src = Some xs"
  using assms
proof (induction "size_list size fs" arbitrary: fs src dest rule: less_induct)
  case less
  have "\<exists>ys. field_part spec m fs src k = Some ys" if k: "k < length fs" for k
  proof -
    let ?f = "fs ! k" and ?sub = "message_bytes spec m (submsg_fields (fs ! k))" and ?a = "data_at fs src k"
    note f = message_ok_nth [OF less.prems(1) k]
    have a: "0 < ?a" using less.prems(2) by (simp add: data_at_def)
    have enc: "\<exists>ys. value_bytes ?sub m ?f ?a = Some ys" if p: "htype ?f = PB_HTYPE_REQUIRED \<or> safe_read_bool m (has_at fs src k)"
    proof -
      have same: "same_value ?f m ?a m' (data_at fs dest k)" using less.prems(3) k p by (auto simp: same_message_fields same_field_def)
      show ?thesis
      proof (cases "ltype ?f = PB_LTYPE_SUBMESSAGE")
        case True
        note sub = message_ok_submsg [OF f(1) True]
        have "\<exists>xs. message_bytes spec m (submsg_fields ?f) ?a = Some xs"
          by (rule less.hyps [OF size_submsg_fields [OF nth_mem [OF k]] _ a]) (use sub same in \<open>auto simp: same_value_submessage [OF True]\<close>)
        then show ?thesis using sub True by (auto simp: value_bytes_def Let_def pb_type_defs)
      next
        case False
        then show ?thesis using scalar_encodable [OF f(1) False same] by simp
      qed
    qed
    have "\<exists>w. wire_type_of ?f = Some w"
      using f(1) by (auto simp: field_ok.simps [of ?f] scalar_size_def wire_type_of_def Let_def pb_type_defs split: if_splits)
    then have tagged: "\<exists>ys. append_opt (tag_bytes ?f) (value_bytes ?sub m ?f ?a) = Some ys" if "htype ?f = PB_HTYPE_REQUIRED \<or> safe_read_bool m (has_at fs src k)"
      using enc [OF that] by (auto simp: tag_bytes_def append_opt_def)
    have off: "htype ?f = PB_HTYPE_OPTIONAL \<Longrightarrow> size_offset ?f \<noteq> 0" using f(2) by (auto simp: placed_ok_def pb_type_defs)
    show ?thesis
    proof (cases "htype ?f = PB_HTYPE_REQUIRED")
      case True
      then show ?thesis using tagged a f(3) by (simp add: field_part_def basic_field_bytes_def Let_def pb_type_defs)
    next
      case False
      then have "htype ?f = PB_HTYPE_OPTIONAL" using f(4) by simp
      then show ?thesis using tagged off f(3) by (simp add: field_part_def basic_field_bytes_def Let_def has_at_def pb_type_defs)
    qed
  qed
  then show ?case unfolding message_parts [OF less.prems(1,2)] by (intro concat_opt_total) auto
qed

section \<open>Through a buffer\<close>

lemma transfer_message:
  assumes "message_ok fs" "same_message fs m src m src" "0 < src" "0 < dest" "env_encodes spec env" "length buf < 2 ^ 32"
  shows "\<exists>xs. message_bytes spec m fs src = Some xs
    \<and> (length xs < size_mod \<longrightarrow> pb_get_encoded_size env st m fs src = Some (length xs))
    \<and> (length xs \<le> length buf \<longrightarrow>
        (\<exists>out t. pb_encode env m fs src (pb_ostream_from_buffer buf (length buf)) = (Some (), out)
          \<and> pb_decode denv fs dest (s\<lparr>input := pb_istream_from_buffer (fst (state out)) (bytes_written out)\<rparr>) = (Some (), t)
          \<and> bytes_left (input t) = 0 \<and> same_message fs m src (memory t) dest
          \<and> changed_within dest (message_size fs) (memory s) (memory t)))"
proof -
  obtain xs where xs: "message_bytes spec m fs src = Some xs" using message_encodable [OF assms(1,3,2)] by blast
  have buf: "length buf < size_mod" using assms(6) by (simp add: size_mod_def)
  have "\<exists>out t. pb_encode env m fs src (pb_ostream_from_buffer buf (length buf)) = (Some (), out)
          \<and> pb_decode denv fs dest (s\<lparr>input := pb_istream_from_buffer (fst (state out)) (bytes_written out)\<rparr>) = (Some (), t)
          \<and> bytes_left (input t) = 0 \<and> same_message fs m src (memory t) dest
          \<and> changed_within dest (message_size fs) (memory s) (memory t)" if l: "length xs \<le> length buf"
  proof -
    have "writes xs (pb_encode env m fs src :: ((bytes \<times> nat) ostream, unit) op)"
      using encodes_message [OF assms(5), of m fs src] xs l buf by (simp add: encodes_Some)
    then obtain out where out: "pb_encode env m fs src (pb_ostream_from_buffer buf (length buf)) = (Some (), out)"
        "bytes_written out = length xs" "take (length xs) (fst (state out)) = xs"
      using buffer_stream(1) [of xs "pb_encode env m fs src" buf] l buf by auto
    obtain zs where "fst (state out) = xs @ zs" using out(3) by (metis append_take_drop_id)
    then have h: "holds [] (pb_istream_from_buffer (fst (state out)) (bytes_written out)) xs"
      using holds_from_buffer [of "[]" xs zs] out(2) by simp
    let ?s = "s\<lparr>input := pb_istream_from_buffer (fst (state out)) (bytes_written out)\<rparr>"
    have "fields_decoded [] fs m src dest ?s (pb_decode denv fs dest) ()"
      by (rule decode_message [OF assms(1,3,4,2) encoded_stream [OF assms(1,3) xs]]) (use l assms(6) h in simp_all)
    then show ?thesis using out(1) by (fastforce simp: fields_decoded_def holds_def)
  qed
  then show ?thesis using xs encoded_size [OF assms(5) xs, of st] by blast
qed

end
