(* ===== verification/PbProgress.thy ===== *)
theory PbProgress
  imports PbDecodeMessage
begin

text \<open>
  The decoder makes progress: every operation leaves at most as many bytes in the stream as there were,
  and every value and every tag takes at least one. So the loops over the stream end, and the bounds
  chosen for their number of rounds are never reached.
\<close>

section \<open>Operations that use up a measure\<close>

definition takes :: "('s \<Rightarrow> nat) \<Rightarrow> nat \<Rightarrow> ('s, 'a) op \<Rightarrow> bool" where
  "takes left k m \<longleftrightarrow> (\<forall>s r t. m s = (r, t) \<longrightarrow> left t \<le> left s \<and> (r \<noteq> None \<longrightarrow> left t + k \<le> left s))"

named_theorems takes_intros "operations and the number of bytes they take"

lemma takesI: "(\<And>s r t. m s = (r, t) \<Longrightarrow> left t \<le> left s \<and> (r \<noteq> None \<longrightarrow> left t + k \<le> left s)) \<Longrightarrow> takes left k m"
  by (simp add: takes_def)

lemma takesD: "takes left k m \<Longrightarrow> m s = (r, t) \<Longrightarrow> left t \<le> left s"
  by (auto simp: takes_def)

lemma takes_Some: "takes left k m \<Longrightarrow> m s = (Some x, t) \<Longrightarrow> left t + k \<le> left s"
  by (auto simp: takes_def)

lemma takes_mono: "takes left k m \<Longrightarrow> j \<le> k \<Longrightarrow> takes left j m"
  by (fastforce simp: takes_def)

lemma takes_0_iff: "takes left 0 m \<longleftrightarrow> (\<forall>s. left (snd (m s)) \<le> left s)"
  unfolding takes_def by (metis add_0_right prod.collapse snd_conv)

lemma takes_le: "takes left 0 m \<Longrightarrow> left s \<le> n \<Longrightarrow> left (snd (m s)) \<le> n"
  unfolding takes_0_iff using le_trans by blast

lemma takes_return [takes_intros]: "takes left 0 (op_return x)"
  by (auto simp: takes_def op_simps)

lemma takes_fail [takes_intros]: "takes left k op_fail"
  by (auto simp: takes_def op_simps)

lemma takes_bind_first [takes_intros]: "takes left k m \<Longrightarrow> (\<And>x. takes left 0 (f x)) \<Longrightarrow> takes left k (op_bind m f)"
  by (rule takesI) (fastforce simp: op_bind_def takes_def split: prod.splits option.splits)

lemma takes_if [takes_intros]: "(b \<Longrightarrow> takes left k m) \<Longrightarrow> (\<not> b \<Longrightarrow> takes left k m') \<Longrightarrow> takes left k (if b then m else m')"
  by simp

lemma takes_silent: "(\<And>s. left (snd (m s)) = left s) \<Longrightarrow> takes left 0 m"
  by (rule takesI) (metis order_refl add_0_right snd_conv)

section \<open>Streams\<close>

lemma takes_ierror [takes_intros]: "takes bytes_left k (ireturn_error msg)"
  by (auto simp: takes_def ireturn_error_def)

lemma takes_readbyte [takes_intros]: "k \<le> 1 \<Longrightarrow> takes bytes_left k pb_readbyte"
  by (rule takesI) (auto simp: pb_readbyte_def ireturn_error_def split: if_splits prod.splits option.splits)

lemma takes_read_direct: "k \<le> n \<Longrightarrow> takes bytes_left k (pb_read_direct n)"
  by (rule takesI) (auto simp: pb_read_direct_def ireturn_error_def split: if_splits prod.splits option.splits)

lemma takes_read [takes_intros]: "k \<le> n \<Longrightarrow> takes bytes_left k (pb_read n)"
  using takes_read_direct [of k n] takes_return by (auto simp: pb_read_def)

lemma takes_chunks: "takes bytes_left 0 (pb_read_chunks n :: ('s istream, unit) op)"
proof (induction n rule: pb_read_chunks.induct)
  case (1 n)
  then show ?case unfolding pb_read_chunks.simps [of n] by (intro takes_intros) simp_all
qed

lemma takes_read_null [takes_intros]: "takes bytes_left 0 (pb_read_null n)"
proof -
  have "takes bytes_left 0 (op_bind (pb_read_direct n) (\<lambda>_. op_return ()) :: ('a istream, unit) op)"
    by (intro takes_intros takes_read_direct) simp
  then show ?thesis
    using takes_le [OF takes_chunks] unfolding takes_0_iff pb_read_null_def by (auto split: source.split)
qed

text \<open>A loop that reads a byte in every round.\<close>

lemma takes_round:
  assumes "pb_readbyte s = (q, u)" "q = None \<Longrightarrow> t = u \<and> r = None" "\<And>b. q = Some b \<Longrightarrow> bytes_left t \<le> bytes_left u" "k \<le> 1"
  shows "bytes_left t \<le> bytes_left s \<and> (r \<noteq> None \<longrightarrow> bytes_left t + k \<le> bytes_left s)"
proof (cases q)
  case None
  then show ?thesis using assms takesD [OF takes_readbyte [OF order_refl] assms(1)] by simp
next
  case (Some b)
  then have "bytes_left u + 1 \<le> bytes_left s" using assms(1) takes_Some [OF takes_readbyte [OF order_refl]] by blast
  then show ?thesis using assms(3,4) Some by fastforce
qed

lemma varint32_loop_left: "decode_varint32_loop p v s = (r, t) \<Longrightarrow> bytes_left t \<le> bytes_left s"
proof (induction p v s arbitrary: r t rule: decode_varint32_loop.induct)
  case (1 p v s)
  show ?case
  proof (cases "pb_readbyte s")
    case (Pair q u)
    note sides = "1.prems" [unfolded decode_varint32_loop.simps [of p v s] Pair] "1.IH" [OF Pair [symmetric]]
    have "bytes_left t \<le> bytes_left s \<and> (r \<noteq> None \<longrightarrow> bytes_left t + 0 \<le> bytes_left s)"
    proof (rule takes_round [OF Pair])
      show "bytes_left t \<le> bytes_left u" if "q = Some b" for b
        using sides that by (auto simp: Let_def ireturn_error_def split: if_splits)
    qed (use sides in auto)
    then show ?thesis by simp
  qed
qed

lemma varint_loop_left: "decode_varint_loop p v s = (r, t) \<Longrightarrow> bytes_left t \<le> bytes_left s \<and> (r \<noteq> None \<longrightarrow> bytes_left t + 1 \<le> bytes_left s)"
proof (induction p v s arbitrary: r t rule: decode_varint_loop.induct)
  case (1 p v s)
  show ?case
  proof (cases "p \<ge> 64")
    case True
    then show ?thesis using "1.prems" by (auto simp: decode_varint_loop.simps [of p v s] ireturn_error_def)
  next
    case False
    show ?thesis
    proof (cases "pb_readbyte s")
      case (Pair q u)
      note sides = "1.prems" [unfolded decode_varint_loop.simps [of p v s] Pair]  "1.IH" [OF False Pair [symmetric]]
      show ?thesis
      proof (rule takes_round [OF Pair])
        show "bytes_left t \<le> bytes_left u" if "q = Some b" for b
        proof -
          have "b AND 0x80 \<noteq> 0 \<and> decode_varint_loop (p + 7) (v OR push_bit (unat p) (ucast (b AND 0x7F))) u = (r, t) \<or> t = u"
            using "1.prems" False Pair that unfolding decode_varint_loop.simps [of p v s] by (simp add: Let_def split: if_splits)
          then show ?thesis using "1.IH" [OF False Pair [symmetric] that refl refl] by blast
        qed
      qed (use sides False in auto)
    qed
  qed
qed

lemma takes_varint [takes_intros]: "k \<le> 1 \<Longrightarrow> takes bytes_left k pb_decode_varint"
  by (rule takes_mono [where k = 1], rule takesI) (use varint_loop_left in \<open>simp_all add: pb_decode_varint_def\<close>)

lemma varint32_eof_left: "pb_decode_varint32_eof s = ((r, e), t) \<Longrightarrow> bytes_left t \<le> bytes_left s \<and> (r \<noteq> None \<longrightarrow> bytes_left t + 1 \<le> bytes_left s)"
proof (cases "pb_readbyte s")
  fix q u
  assume h: "pb_decode_varint32_eof s = ((r, e), t)" and p: "pb_readbyte s = (q, u)"
  show ?thesis
  proof (rule takes_round [OF p])
    show "bytes_left t \<le> bytes_left u" if "q = Some b" for b
    proof (cases "decode_varint32_loop 7 (ucast (b AND 0x7F)) u")
      case (Pair x w)
      have "t = u \<or> bytes_left t = bytes_left w"
        using h p that Pair unfolding pb_decode_varint32_eof_def
        by (cases x) (auto simp: ireturn_error_def split: if_splits)
      then show ?thesis using varint32_loop_left [OF Pair] by auto
    qed
  qed (use h p in \<open>auto simp: pb_decode_varint32_eof_def\<close>)
qed

lemma takes_varint32 [takes_intros]: "k \<le> 1 \<Longrightarrow> takes bytes_left k pb_decode_varint32"
proof (rule takes_mono [where k = 1], rule takesI)
  fix s r and t :: "'a istream" assume "pb_decode_varint32 s = (r, t)"
  then obtain e where "pb_decode_varint32_eof s = ((r, e), t)" by (auto simp: pb_decode_varint32_def split: prod.splits)
  then show "bytes_left t \<le> bytes_left s \<and> (r \<noteq> None \<longrightarrow> bytes_left t + 1 \<le> bytes_left s)" by (rule varint32_eof_left)
qed

lemma decode_tag_left: "pb_decode_tag s = ((r, e), t) \<Longrightarrow> bytes_left t \<le> bytes_left s \<and> (r \<noteq> None \<longrightarrow> bytes_left t + 1 \<le> bytes_left s)"
  using varint32_eof_left [of s] by (force simp: pb_decode_tag_def split: prod.splits option.splits if_splits)


lemma takes_skip_varint [takes_intros]: "takes bytes_left 0 (pb_skip_varint :: ('s istream, unit) op)"
proof (rule takesI)
  fix s r and t :: "'s istream"
  show "pb_skip_varint s = (r, t) \<Longrightarrow> bytes_left t \<le> bytes_left s \<and> (r \<noteq> None \<longrightarrow> bytes_left t + 0 \<le> bytes_left s)"
  proof (induction s arbitrary: r t rule: pb_skip_varint.induct)
    case (1 s)
    show ?case
    proof (cases "pb_read 1 s")
      case (Pair q u)
      then have "bytes_left u \<le> bytes_left s" by (rule takesD [OF takes_read [OF order_refl]])
      moreover have "(\<exists>b. q = Some b \<and> hd b AND 0x80 \<noteq> 0 \<and> pb_skip_varint u = (r, t)) \<or> t = u"
        using "1.prems" Pair unfolding pb_skip_varint.simps [of s] by (auto split: option.splits if_splits)
      then have "bytes_left t \<le> bytes_left u" using "1.IH" [OF Pair [symmetric]] by blast
      ultimately show ?thesis by simp
    qed
  qed
qed

lemma takes_raw_varint: "takes bytes_left 0 (read_raw_varint n k :: ('s istream, bytes) op)"
proof (rule takesI)
  fix s r and t :: "'s istream"
  show "read_raw_varint n k s = (r, t) \<Longrightarrow> bytes_left t \<le> bytes_left s \<and> (r \<noteq> None \<longrightarrow> bytes_left t + 0 \<le> bytes_left s)"
  proof (induction n k s arbitrary: r t rule: read_raw_varint.induct)
    case (1 n k s)
    show ?case
    proof (cases "n + 1 > k")
      case True
      then show ?thesis using "1.prems" by (simp add: read_raw_varint.simps [of n k s])
    next
      case False
      show ?thesis
      proof (cases "pb_read 1 s")
        case (Pair q u)
        then have "bytes_left u \<le> bytes_left s" by (rule takesD [OF takes_read [OF order_refl]])
        moreover have "(\<exists>b q'. q = Some b \<and> hd b AND 0x80 \<noteq> 0 \<and> read_raw_varint (n + 1) k u = (q', t)) \<or> t = u"
          using "1.prems" Pair False unfolding read_raw_varint.simps [of n k s] by (auto simp: Let_def split: option.splits if_splits prod.splits)
        then have "bytes_left t \<le> bytes_left u" using "1.IH" [OF refl False Pair [symmetric]] by blast
        ultimately show ?thesis by simp
      qed
    qed
  qed
qed

lemma takes_skip_field [takes_intros]: "takes bytes_left 0 (pb_skip_field wt)"
  unfolding pb_skip_field_def pb_skip_string_def by (intro takes_intros) simp_all

lemma takes_raw_value [takes_intros]: "takes bytes_left 0 (read_raw_value wt k)"
  unfolding read_raw_value_def by (intro takes_intros takes_raw_varint) simp_all

lemma takes_numbers [takes_intros]:
  "k \<le> 1 \<Longrightarrow> takes bytes_left k pb_decode_svarint"
  "k \<le> 1 \<Longrightarrow> takes bytes_left k pb_decode_fixed32"
  "k \<le> 1 \<Longrightarrow> takes bytes_left k pb_decode_fixed64"
  unfolding pb_decode_svarint_def pb_decode_fixed32_def pb_decode_fixed64_def by (intro takes_intros; simp)+

lemma takes_make_substream [takes_intros]: "k \<le> 1 \<Longrightarrow> takes bytes_left k pb_make_string_substream"
proof (rule takes_mono [where k = 1], rule takesI)
  fix s r and t :: "'a istream" assume h: "pb_make_string_substream s = (r, t)"
  obtain q u where u: "pb_decode_varint32 s = (q, u)" by fastforce
  then have "bytes_left u \<le> bytes_left s \<and> (q \<noteq> None \<longrightarrow> bytes_left u + 1 \<le> bytes_left s)"
    using takes_varint32 [OF order_refl] by (auto simp: takes_def)
  then show "bytes_left t \<le> bytes_left s \<and> (r \<noteq> None \<longrightarrow> bytes_left t + 1 \<le> bytes_left s)"
    using h u by (auto simp: pb_make_string_substream_def ireturn_error_def split: option.splits if_splits)
qed

lemma takes_close_substream [takes_intros]: "takes bytes_left 0 (pb_close_string_substream sub)"
  by (rule takesI) (auto simp: pb_close_string_substream_def split: prod.splits option.splits)

section \<open>Values\<close>

abbreviation input_left :: "'s dstate \<Rightarrow> nat" where
  "input_left s \<equiv> bytes_left (input s)"

lemma takes_on_input [takes_intros]: "takes bytes_left k m \<Longrightarrow> takes input_left k (on_input m)"
  by (rule takesI) (auto simp: on_input_def takes_def split: prod.splits)

lemma takes_derror [takes_intros]: "takes input_left k (derror msg)"
  unfolding derror_def by (intro takes_intros)

lemma takes_on_memory [takes_intros]: "takes input_left 0 (on_memory f)"
  by (rule takesI) (auto simp: on_memory_def)

lemma takes_read_to [takes_intros]: "takes input_left 0 (read_to p n)"
  unfolding read_to_def by (intro takes_intros) simp

lemma takes_dec_number [takes_intros]: "takes input_left 0 (dec_number part f p v)"
  by (rule takesI) (auto simp: dec_number_def derror_def on_input_def ireturn_error_def Let_def split: option.splits if_splits)

lemma takes_allocate [takes_intros]: "takes input_left 0 (allocate_field env p n k)"
  by (rule takesI) (auto simp: allocate_field_def derror_def on_input_def ireturn_error_def Let_def split: if_splits prod.splits)

text \<open>A continuation that looks at the state before it goes on.\<close>

lemma takes_state: "(\<And>s0. takes left k (m s0)) \<Longrightarrow> takes left k (\<lambda>s. m s s)"
  by (auto simp: takes_def)

lemma takes_after: "(\<And>s. left (g s) = left s) \<Longrightarrow> takes left k m \<Longrightarrow> takes left k (\<lambda>s. m (g s))"
  unfolding takes_def by metis

lemma takes_if_state [takes_intros]: "takes left k m \<Longrightarrow> takes left k m' \<Longrightarrow> takes left k (\<lambda>s. if b s then m s else m' s)"
  by (auto simp: takes_def)

text \<open>A call on a substream leaves the parent stream to be closed.\<close>

lemma in_substream_input: "input (snd (snd (in_substream m sub s))) = input s"
  by (simp add: in_substream_def split: prod.split)

lemma takes_substream [takes_intros]:
  "takes input_left 0 (\<lambda>s. case in_substream m sub s of (r, sub, s) \<Rightarrow> op_bind (on_input (pb_close_string_substream sub)) (\<lambda>_ s. (g r, s)) s)"
proof (rule takesI)
  fix s q t
  assume h: "(case in_substream m sub s of (r, sub, s) \<Rightarrow> op_bind (on_input (pb_close_string_substream sub)) (\<lambda>_ s. (g r, s)) s) = (q, t)"
  obtain r sub' s' where s': "in_substream m sub s = (r, sub', s')" using prod_cases3 by blast
  then have "input_left s' = input_left s" using in_substream_input [of m sub s] by simp
  moreover have "takes input_left 0 (op_bind (on_input (pb_close_string_substream sub')) (\<lambda>_ s. (g r, s)))"
    by (intro takes_intros) (auto simp: takes_def)
  ultimately show "input_left t \<le> input_left s \<and> (q \<noteq> None \<longrightarrow> input_left t + 0 \<le> input_left s)"
    using h s' takesD by fastforce
qed


lemma takes_with_allocated [takes_intros]:
  "(\<And>p. takes input_left 0 (m p)) \<Longrightarrow> takes input_left 0 (\<lambda>s. op_bind (allocate_field env dest n k) (\<lambda>_ s. m (load_ptr (memory s) dest) s) s)"
  using takes_state [where m = "\<lambda>s0. m (load_ptr (memory s0) dest)"]
  by (intro takes_bind_first takes_allocate) auto

lemma takes_dec_bytes [takes_intros]: "k \<le> 1 \<Longrightarrow> takes input_left k (pb_dec_bytes env f dest)"
  unfolding pb_dec_bytes_def Let_def by (intro takes_intros) simp_all

lemma takes_dec_string [takes_intros]: "k \<le> 1 \<Longrightarrow> takes input_left k (pb_dec_string env f dest)"
proof -
  have "takes input_left 0 (\<lambda>s. case read_to dest n s of (status, s) \<Rightarrow> (status, s\<lparr>memory := h s\<rparr>))" for dest n h
  proof (rule takesI)
    fix s r t assume "(case read_to dest n s of (status, s) \<Rightarrow> (status, s\<lparr>memory := h s\<rparr>)) = (r, t)"
    then obtain u where "read_to dest n s = (r, u)" "t = u\<lparr>memory := h u\<rparr>" by (auto split: prod.splits)
    then show "input_left t \<le> input_left s \<and> (r \<noteq> None \<longrightarrow> input_left t + 0 \<le> input_left s)"
      using takesD [OF takes_read_to, of dest n s r u] by simp
  qed
  then show "k \<le> 1 \<Longrightarrow> takes input_left k (pb_dec_string env f dest)"
    unfolding pb_dec_string_def Let_def by (intro takes_intros) simp_all
qed

lemma takes_dec_submessage [takes_intros]: "k \<le> 1 \<Longrightarrow> takes input_left k (pb_dec_submessage decode f dest)"
  unfolding pb_dec_submessage_def
  by (cases "field_ptr f") (auto intro!: takes_intros)

lemma takes_value [takes_intros]: "k \<le> 1 \<Longrightarrow> takes input_left k (PB_DECODERS decode env f dest)"
  unfolding PB_DECODERS_def Let_def pb_dec_bool_def pb_dec_varint_def pb_dec_uvarint_def pb_dec_svarint_def
    pb_dec_fixed32_def pb_dec_fixed64_def pb_dec_fixed_length_bytes_def
  by (intro takes_intros) simp_all

section \<open>Fields\<close>

lemma write_size_input [simp]: "input (write_size p v s) = input s"
  by (simp add: write_size_def split: size_ptr.split)

lemma initialize_input [simp]: "input (initialize_pointer_field env p it s) = input s"
  by (simp add: initialize_pointer_field_def Let_def)

lemma free_input [simp]: "input (pb_free p s) = input s"
  by (simp add: pb_free_def)

lemma fold_keeps: "(\<And>x s. x \<in> set xs \<Longrightarrow> g (f x s) = g s) \<Longrightarrow> g (fold f xs s) = g s"
  by (induction xs arbitrary: s) auto

text \<open>What is asked of the functions for extensions: they do not give bytes back to the stream.\<close>

definition env_consumes :: "'s decode_env \<Rightarrow> bool" where
  "env_consumes env \<longleftrightarrow>
     (\<forall>p tag wt. takes input_left 0 (extensions_decoder env p tag wt)) \<and> (\<forall>p s. input (extensions_release env p s) = input s)"

lemma release_single_input:
  fixes s :: "'s dstate"
  assumes "\<And>p s. input (ext p s) = input s" "\<And>p s. input (sub p s) = input s"
  shows "input (pb_release_single_field ext sub it s) = input s"
proof -
  have "input (release_submessages sub it s) = input s" for s :: "'s dstate"
    using assms(2) by (simp add: release_submessages_def Let_def fold_keeps)
  moreover have "input (release_pointer it s) = input s" for s :: "'s dstate"
    by (simp add: release_pointer_def Let_def fold_keeps)
  ultimately show ?thesis using assms(1) by (simp add: pb_release_single_field_def Let_def)
qed

lemma release_input: "(\<And>p s. input (ext p s) = input s) \<Longrightarrow> input (pb_release ext fs dest s) = input s"
proof (induction ext fs dest s rule: pb_release.induct)
  case (1 ext fs dest s)
  have "input (pb_release_single_field ext (\<lambda>dest s. pb_release ext (submsg_fields (iter_field it)) dest s) it s) = input s"
    if "it \<in> set (pb_fields_visited fs dest)" "dest \<noteq> 0" for it s
    using "1.IH" [OF that(2,1)] "1.prems" by (intro release_single_input) auto
  then show ?case by (auto simp: pb_release.simps [of ext fs dest s] intro!: fold_keeps)
qed


lemma takes_static_loop:
  assumes "\<And>p. takes input_left 0 (func p)"
  shows "static_packed_loop fuel func it s = (b, t) \<Longrightarrow> input_left t \<le> input_left s"
proof (induction fuel arbitrary: s)
  case (Suc fuel)
  show ?case
  proof (cases "input_left s > 0 \<and> unat (read_size (pSize it) s) < array_size (iter_field it)")
    case True
    obtain r u where u: "func (pData it + item_offset (iter_field it) (read_size (pSize it) s)) s = (r, u)" by fastforce
    then have "input_left u \<le> input_left s" by (rule takesD [OF assms])
    moreover have "input_left t \<le> input_left u"
      using Suc.prems Suc.IH [of "write_size (pSize it) (read_size (pSize it) u + 1) u"] True u by (auto simp: Let_def split: option.splits)
    ultimately show ?thesis by simp
  qed (use Suc.prems in \<open>auto simp: Let_def split: if_splits\<close>)
qed simp

lemma left_if: "(b \<Longrightarrow> input_left (snd x) \<le> n) \<Longrightarrow> (\<not> b \<Longrightarrow> input_left (snd y) \<le> n) \<Longrightarrow> input_left (snd (if b then x else y)) \<le> n"
  by simp

lemma takes_closing: "takes input_left 0 (op_bind (on_input (pb_close_string_substream sub)) (\<lambda>_ s. (r, s)))"
  by (intro takes_intros) (auto simp: takes_def)

lemma takes_static_field [takes_intros]: "takes input_left 0 (decode_static_field decode env wt it)"
  unfolding takes_0_iff
proof
  fix s :: "'a dstate"
  let ?f = "iter_field it" and ?func = "PB_DECODERS decode env (iter_field it)"
  have func: "input_left (snd (?func p u)) \<le> input_left s" if "input u = input s" for p u
    using that by (intro takes_le [OF takes_value]) simp_all
  have closing: "input_left (snd (case static_packed_loop (bytes_left sub) ?func it (u\<lparr>input := sub\<rparr>) of
               (status, t) \<Rightarrow>
                 let sub = input t; s = t\<lparr>input := input u\<rparr>
                 in if bytes_left sub \<noteq> 0 then derror ''array overflow'' s
                    else op_bind (on_input (pb_close_string_substream sub)) (\<lambda>_ s. (if status then Some () else None, s)) s)) \<le> input_left u" for sub u
  proof (cases "static_packed_loop (bytes_left sub) ?func it (u\<lparr>input := sub\<rparr>)")
    case (Pair status t)
    show ?thesis
      using takes_le [OF takes_closing, of "t\<lparr>input := input u\<rparr>" "input_left u" "input t" "if status then Some () else None"]
      by (simp add: Pair Let_def, intro impI takes_le [OF takes_derror]) simp
  qed
  have packed: "takes input_left 0 (op_bind (on_input pb_make_string_substream) (\<lambda>sub s.
             case static_packed_loop (bytes_left sub) ?func it (s\<lparr>input := sub\<rparr>) of
               (status, t) \<Rightarrow>
                 let sub = input t; s = t\<lparr>input := input s\<rparr>
                 in if bytes_left sub \<noteq> 0 then derror ''array overflow'' s
                    else op_bind (on_input (pb_close_string_substream sub)) (\<lambda>_ s. (if status then Some () else None, s)) s))"
    by (rule takes_bind_first, intro takes_intros) (simp, unfold takes_0_iff, use closing in blast)
  note packed_le = takes_le [OF packed order_refl, unfolded Let_def]
  show "input_left (snd (decode_static_field decode env wt it s)) \<le> input_left s"
    using packed_le [of s] func
    by (simp add: decode_static_field_def Let_def split: size_ptr.split, intro impI takes_le [OF takes_derror]) simp
qed


lemma pointer_loop_left: "pointer_packed_loop fuel env func it n s = (b, t) \<Longrightarrow> (\<And>p. takes input_left 0 (func p)) \<Longrightarrow> input_left t \<le> input_left s"
proof (induction fuel arbitrary: n s)
  case (Suc fuel)
  note IH = Suc.IH [OF _ Suc.prems(2)]
  let ?f = "iter_field it" and ?sz = "unat (read_size (pSize it) s)"
  let ?grown = "if ?sz + 1 > n then n + (if (input_left s - 1) div data_size ?f + 1 < PB_SIZE_MAX - n then (input_left s - 1) div data_size ?f + 1 else 1) else n"
  show ?case
  proof (cases "input_left s = 0 \<or> ?sz = PB_SIZE_MAX")
    case True
    then have "t = s" using Suc.prems(1) by (auto simp: Let_def split: if_splits)
    then show ?thesis by simp
  next
    case False
    obtain r u where u: "(if ?sz + 1 > n then allocate_field env (pData it) (data_size ?f) ?grown s else (Some (), s)) = (r, u)" by fastforce
    then have lu: "input_left u \<le> input_left s" using takesD [OF takes_allocate] by (auto split: if_splits)
    let ?arr = "load_ptr (memory u) (pData it)"
    obtain q v where v: "func (?arr + item_offset ?f (read_size (pSize it) u)) (initialize_pointer_field env (?arr + item_offset ?f (read_size (pSize it) u)) it u) = (q, v)" by fastforce
    then have lv: "input_left v \<le> input_left u" using takesD [OF Suc.prems(2) v] by simp
    consider "t = u" | "t = v" | "pointer_packed_loop fuel env func it ?grown (write_size (pSize it) (read_size (pSize it) v + 1) v) = (b, t)"
      using Suc.prems(1) False u v unfolding pointer_packed_loop.simps Let_def by (auto split: option.splits if_splits)
    then show ?thesis using lu lv IH by cases fastforce+
  qed
qed simp

lemma takes_pointer_field [takes_intros]:
  assumes "env_consumes env"
  shows "takes input_left 0 (decode_pointer_field decode env wt it)"
  unfolding takes_0_iff
proof
  fix s :: "'a dstate"
  let ?f = "iter_field it" and ?func = "PB_DECODERS decode env (iter_field it)"
  have ext: "input (extensions_release env p u) = input u" for p u using assms by (simp add: env_consumes_def)
  have rel: "input (pb_release_single_field (extensions_release env) (pb_release (extensions_release env) (submsg_fields ?f)) it u) = input u" for u
    by (rule release_single_input) (simp_all add: ext release_input)
  have val: "takes input_left 0 (?func p)" for p by (intro takes_intros) simp
  have item: "takes input_left 0 (\<lambda>s. ?func p (initialize_pointer_field env p it s))" for p
    by (rule takes_after [OF _ val]) simp
  have single: "takes input_left 0 (op_bind (allocate_field env (pData it) (data_size ?f) 1) (\<lambda>_ s.
      ?func (load_ptr (memory s) (pData it)) (initialize_pointer_field env (load_ptr (memory s) (pData it)) it s)))"
    by (rule takes_with_allocated [where m = "\<lambda>p s. ?func p (initialize_pointer_field env p it s)"]) (rule item)
  have entry: "takes input_left 0 (op_bind (allocate_field env (pData it) (data_size ?f) k) (\<lambda>_ s.
      ?func (load_ptr (memory s) (pData it) + item_offset ?f (read_size (pSize it) s))
        (initialize_pointer_field env (load_ptr (memory s) (pData it) + item_offset ?f (read_size (pSize it) s)) it
          (write_size (pSize it) (read_size (pSize it) s + 1) s))))" for k
    by (rule takes_bind_first, rule takes_allocate, unfold takes_0_iff) (intro allI takes_le [OF val], simp)
  have closing: "input_left (snd (case pointer_packed_loop (bytes_left sub) env ?func it n (u\<lparr>input := sub\<rparr>) of
            ((status, msg), t) \<Rightarrow> op_bind (on_input (pb_close_string_substream (input t))) (\<lambda>_ s. (if status then Some () else None, s))
              (t\<lparr>input := (case msg of None \<Rightarrow> input u | Some m \<Rightarrow> (input u)\<lparr>ierrmsg := Some m\<rparr>)\<rparr>))) \<le> input_left u" for sub n u
  proof (cases "pointer_packed_loop (bytes_left sub) env ?func it n (u\<lparr>input := sub\<rparr>)")
    case (Pair sm t)
    obtain status msg where sm: "sm = (status, msg)" by fastforce
    show ?thesis
      using takes_le [OF takes_closing, of "t\<lparr>input := (case msg of None \<Rightarrow> input u | Some m \<Rightarrow> (input u)\<lparr>ierrmsg := Some m\<rparr>)\<rparr>" "input_left u"
          "input t" "if status then Some () else None"]
      by (simp add: Pair sm split: option.split)
  qed
  have packed: "takes input_left 0 (op_bind (on_input pb_make_string_substream) (\<lambda>sub s.
      case pointer_packed_loop (bytes_left sub) env ?func it n (s\<lparr>input := sub\<rparr>) of
            ((status, msg), t) \<Rightarrow> op_bind (on_input (pb_close_string_substream (input t))) (\<lambda>_ s. (if status then Some () else None, s))
              (t\<lparr>input := (case msg of None \<Rightarrow> input s | Some m \<Rightarrow> (input s)\<lparr>ierrmsg := Some m\<rparr>)\<rparr>)))" for n
    by (rule takes_bind_first, intro takes_intros) (simp, unfold takes_0_iff, use closing in blast)
  show "input_left (snd (decode_pointer_field decode env wt it s)) \<le> input_left s"
    unfolding decode_pointer_field_def Let_def
    by (intro left_if takes_le [OF single] takes_le [OF entry] takes_le [OF packed] takes_le [OF val] takes_le [OF takes_derror])
      (simp_all add: rel)
qed

lemma takes_callback_field [takes_intros]: "takes input_left 0 (decode_callback_field env wt it)"
proof -
  let ?f = "iter_field it"
  have stream: "takes input_left 0 (op_bind (on_input pb_make_string_substream) (\<lambda>sub s.
          case in_substream m sub s of
            (None, _, s) \<Rightarrow> derror ''callback failed'' s
          | (Some _, sub, s) \<Rightarrow> on_input (pb_close_string_substream sub) s))" for m :: "('a dstate, unit) op"
  proof (rule takes_bind_first, intro takes_intros)
    fix sub
    show "takes input_left 0 (\<lambda>s. case in_substream m sub s of
            (None, _, s) \<Rightarrow> derror ''callback failed'' s
          | (Some _, sub, s) \<Rightarrow> on_input (pb_close_string_substream sub) s)"
      unfolding takes_0_iff
    proof
      fix s
      obtain r sub' t where t: "in_substream m sub s = (r, sub', t)" using prod_cases3 by blast
      then have "input t = input s" using in_substream_input [of m sub s] by simp
      then show "input_left (snd (case in_substream m sub s of
            (None, _, s) \<Rightarrow> derror ''callback failed'' s
          | (Some _, sub, s) \<Rightarrow> on_input (pb_close_string_substream sub) s)) \<le> input_left s"
        using t takes_le [OF takes_derror, of t "input_left s"] takes_le [OF takes_on_input [OF takes_close_substream], of t "input_left s"]
        by (auto split: option.split)
    qed
  qed simp
  have once: "takes input_left 0 (op_bind (on_input (read_raw_value wt 10)) (\<lambda>buffer s.
          case in_substream m (pb_istream_from_buffer buffer (length buffer)) s of (status, _, s) \<Rightarrow> (status, s)))" for m :: "('a dstate, unit) op"
  proof (rule takes_bind_first, intro takes_intros)
    show "takes input_left 0 (\<lambda>s. case in_substream m (pb_istream_from_buffer buffer (length buffer)) s of (status, _, s) \<Rightarrow> (status, s))" for buffer
      unfolding takes_0_iff using in_substream_input by (metis (mono_tags, lifting) case_prod_beta order_refl snd_conv)
  qed
  show ?thesis
    unfolding takes_0_iff decode_callback_field_def Let_def
    using takes_le [OF stream order_refl] takes_le [OF once order_refl] takes_le [OF takes_on_input [OF takes_skip_field] order_refl] by auto
qed

lemma takes_union_field: "env_consumes env \<Longrightarrow> takes input_left 0 (pb_release_union_field env it)"
  unfolding takes_0_iff
proof
  fix s :: "'a dstate"
  assume env: "env_consumes env"
  have ext: "input (extensions_release env p u) = input u" for p u using env by (simp add: env_consumes_def)
  have rel: "input (pb_release_single_field (extensions_release env) (pb_release (extensions_release env) (submsg_fields f)) i u) = input u" for f i u
    by (rule release_single_input) (simp_all add: ext release_input)
  show "input_left (snd (pb_release_union_field env it s)) \<le> input_left s"
    unfolding pb_release_union_field_def Let_def
    by (auto intro!: takes_le [OF takes_derror] simp: rel split: prod.split bool.split)
qed

lemma takes_field: "env_consumes env \<Longrightarrow> takes input_left 0 (decode_field decode env wt it)"
  unfolding decode_field_def
  by (intro takes_bind_first takes_if takes_union_field takes_return takes_static_field takes_pointer_field takes_callback_field takes_derror)

lemma takes_unknown:
  assumes "env_consumes env"
  shows "takes input_left 0 (decode_unknown env tag wt vars)"
proof -
  have skip: "takes input_left 0 (op_bind (on_input (pb_skip_field wt)) (\<lambda>_. op_return v))" for v
    by (intro takes_intros)
  have ext: "takes input_left 0 (decode_extension env tag wt it)" for it
    using assms takes_state [where m = "\<lambda>s0. extensions_decoder env (load_ptr (memory s0) (pData it)) tag wt" and left = input_left]
    by (simp add: env_consumes_def decode_extension_def [abs_def])
  have "takes input_left 0 (\<lambda>s. op_bind (decode_extension env tag wt it) (\<lambda>_ s'.
      if input_left s \<noteq> input_left s' then (Some v, s') else op_bind (on_input (pb_skip_field wt)) (\<lambda>_. op_return v) s') s)" for it v
  proof (rule takes_state [where m = "\<lambda>s0. op_bind (decode_extension env tag wt it) (\<lambda>_ s'.
      if input_left s0 \<noteq> input_left s' then (Some v, s') else op_bind (on_input (pb_skip_field wt)) (\<lambda>_. op_return v) s')"])
    show "takes input_left 0 (op_bind (decode_extension env tag wt it) (\<lambda>_ s'.
      if input_left s0 \<noteq> input_left s' then (Some v, s') else op_bind (on_input (pb_skip_field wt)) (\<lambda>_. op_return v) s'))" for s0
      by (intro takes_bind_first takes_if_state ext skip) (auto simp: takes_def)
  qed
  then show ?thesis using skip unfolding decode_unknown_def Let_def by (auto split: prod.split)
qed

lemma takes_fixed_count: "takes input_left 0 (enter_fixed_count vars)"
  unfolding takes_0_iff enter_fixed_count_def Let_def
  by (auto intro!: takes_le [OF takes_derror] split: option.split)

lemma takes_tagged:
  assumes "env_consumes env"
  shows "takes input_left 0 (decode_tagged decode env wt tag vars)"
proof (cases "pb_field_iter_find tag (field_iter vars)")
  case (Pair found it)
  have "takes input_left 0 (op_bind (enter_fixed_count (vars\<lparr>field_iter := it\<rparr>)) (\<lambda>vars. let vars = mark_seen vars in
            op_bind (decode_field decode env wt (field_iter vars)) (\<lambda>iter. op_return (vars\<lparr>field_iter := iter\<rparr>))))"
    unfolding Let_def by (intro takes_bind_first takes_fixed_count takes_field takes_return assms)
  then show ?thesis using takes_unknown [OF assms] by (cases found) (simp_all add: decode_tagged_def Pair)
qed

section \<open>The rounds of the loops\<close>

lemma static_loop_rounds:
  assumes "\<And>p. takes input_left 1 (func p)"
  shows "input_left s \<le> fuel \<Longrightarrow> static_packed_loop (fuel + n) func it s = static_packed_loop fuel func it s"
proof (induction fuel arbitrary: s)
  case 0
  then show ?case by (cases n) (simp_all add: Let_def)
next
  case (Suc fuel)
  let ?p = "pData it + item_offset (iter_field it) (read_size (pSize it) s)"
  have "input_left u \<le> fuel" if "func ?p s = (Some x, u)" for x u
    using takes_Some [OF assms that] Suc.prems by simp
  then show ?case using Suc.IH by (auto simp: Let_def split: prod.split option.split)
qed

lemma pointer_loop_rounds:
  assumes "\<And>p. takes input_left 1 (func p)"
  shows "input_left s \<le> fuel \<Longrightarrow> pointer_packed_loop (fuel + k) env func it n s = pointer_packed_loop fuel env func it n s"
proof (induction fuel arbitrary: n s)
  case 0
  then show ?case by (cases k) (simp_all add: Let_def)
next
  case (Suc fuel)
  let ?f = "iter_field it" and ?sz = "unat (read_size (pSize it) s)"
  define grown where "grown = (if ?sz + 1 > n then n + (if (input_left s - 1) div data_size ?f + 1 < PB_SIZE_MAX - n then (input_left s - 1) div data_size ?f + 1 else 1) else n)"
  obtain r u where u: "(if ?sz + 1 > n then allocate_field env (pData it) (data_size ?f) grown s else (Some (), s)) = (r, u)" by fastforce
  then have lu: "input_left u \<le> input_left s" using takesD [OF takes_allocate] by (auto split: if_splits)
  let ?p = "load_ptr (memory u) (pData it) + item_offset ?f (read_size (pSize it) u)"
  obtain q v where v: "func ?p (initialize_pointer_field env ?p it u) = (q, v)" by fastforce
  have "pointer_packed_loop (fuel + k) env func it grown (write_size (pSize it) (read_size (pSize it) v + 1) v)
      = pointer_packed_loop fuel env func it grown (write_size (pSize it) (read_size (pSize it) v + 1) v)" if "q \<noteq> None"
  proof (rule Suc.IH)
    have "input_left v + 1 \<le> input_left u" using that v takes_Some [OF assms] by fastforce
    then show "input_left (write_size (pSize it) (read_size (pSize it) v + 1) v) \<le> fuel" using lu Suc.prems by simp
  qed
  then show ?case
    unfolding add_Suc pointer_packed_loop.simps Let_def
    unfolding u [unfolded grown_def] v prod.case grown_def [symmetric] using u v
    by (cases r; cases q) (simp_all add: grown_def [symmetric])
qed

lemma decode_loop_rounds:
  assumes "env_consumes env"
  shows "input_left s \<le> fuel \<Longrightarrow> decode_loop (fuel + n) decode env vars s = decode_loop fuel decode env vars s"
proof (induction fuel arbitrary: vars s)
  case 0
  then show ?case by (cases n) simp_all
next
  case (Suc fuel)
  show ?case
  proof (cases "input_left s = 0")
    case False
    obtain r e u where u: "pb_decode_tag (input s) = ((r, e), u)" by (metis prod.collapse)
    show ?thesis
    proof (cases r)
      case (Some x)
      obtain wt tag where x: "x = (wt, tag)" by fastforce
      have lu: "bytes_left u + 1 \<le> input_left s" using decode_tag_left [OF u] Some by simp
      have "decode_loop (fuel + n) decode env v t = decode_loop fuel decode env v t"
        if "decode_tagged decode env wt tag vars (s\<lparr>input := u\<rparr>) = (Some v, t)" for v t
        using takesD [OF takes_tagged [OF assms] that] lu Suc.prems by (intro Suc.IH) simp
      then show ?thesis using u Some x False by (auto simp: op_bind_def split: prod.split option.split)
    qed (use u False in simp)
  qed simp
qed

end
