(* ===== verification/PbExample.thy ===== *)
theory PbExample
  imports PbTransfer PbProgress
begin

text \<open>
  A message type with an optional boolean and a required submessage, a struct of it in which every byte
  is 1, and its encoding; and what the code does with two descriptions at the edge of what is supported.
\<close>

section \<open>An example\<close>

definition ex_fs :: "pb_field list" where
  "ex_fs = [Field 1 0x10 1 (-1) 1 0 No_ptr, Field 3 0x08 0 0 2 0 (Submsg [Field 1 0x02 0 0 1 0 No_ptr])]"

definition ex_spec :: encode_spec where
  "ex_spec = \<lparr>callback_bytes = (\<lambda>_ _ _. Some []), extensions_bytes = (\<lambda>_. Some [])\<rparr>"

definition ex_encode_env :: "'s encode_env" where
  "ex_encode_env = \<lparr>callback_encoder = (\<lambda>_ _ _. op_return ()), extensions_encoder = (\<lambda>_. op_return ())\<rparr>"

lemma ex_env: "env_encodes ex_spec (ex_encode_env :: 's encode_env)"
  by (simp add: env_encodes_def ex_spec_def ex_encode_env_def encodes_return)

lemma ex_ok: "message_ok ex_fs"
  by (simp add: message_ok_def ex_fs_def field_ok.simps placed_ok_def scalar_size_def pb_type_defs PB_LTYPE_def PB_HTYPE_def PB_ATYPE_def field_offset_def)

lemma ex_same: "same_message ex_fs m 1 m 1"
  by (simp add: same_message_def ex_fs_def less_Suc_eq same_value.simps pb_type_defs PB_LTYPE_def PB_HTYPE_def PB_ATYPE_def submsg_fields_def Let_def)

lemmas ex_simps = pb_type_defs PB_LTYPE_def PB_HTYPE_def PB_ATYPE_def field_offset_def data_at_def has_at_def address_plus_def safe_read_bool_def
   Let_def append_opt_def tag_bytes_def wire_type_of_def varint_last value_bytes_def PB_WT_VARINT_def PB_WT_STRING_def load_unsigned_def

lemma ex_part0: "field_part ex_spec (\<lambda>_. 1) ex_fs 1 0 = Some [8, 1]"
  by (simp add: field_part_def basic_field_bytes_def ex_fs_def ex_simps)

lemma ex_part1: "field_part ex_spec (\<lambda>_. 1) ex_fs 1 1 = Some [26, 2, 8, 1]"
proof -
  have "message_ok [Field 1 0x02 0 0 1 0 No_ptr]"
    by (simp add: message_ok_def field_ok.simps placed_ok_def scalar_size_def ex_simps)
  then have "message_bytes ex_spec (\<lambda>_. 1) [Field 1 0x02 0 0 1 0 No_ptr] 3 = Some [8, 1]"
    by (simp add: message_parts field_part_def basic_field_bytes_def ex_simps load_def load_bytes_def)
  then have "message_bytes ex_spec (\<lambda>_. 1) [Field 1 0x02 0 0 1 0 No_ptr] (Suc (Suc (Suc 0))) = Some [8, 1]" by (simp only: numeral_3_eq_3)
  then show ?thesis
    by (simp add: field_part_def basic_field_bytes_def ex_fs_def ex_simps submsg_fields_def string_bytes_def)
qed

lemma ex_bytes: "message_bytes ex_spec (\<lambda>_. 1) ex_fs 1 = Some [8, 1, 26, 2, 8, 1]"
proof -
  have "[0..<length ex_fs] = [0, 1]" by (simp add: ex_fs_def)
  then show ?thesis using message_parts [OF ex_ok, of 1 ex_spec "\<lambda>_. 1"] ex_part0 ex_part1 by (simp add: append_opt_def)
qed

text \<open>The fields in the other order, with an unknown field of tag 9 between them.\<close>

lemma ex_stream: "message_stream ex_spec (\<lambda>_. 1) ex_fs 1 {} [26, 2, 8, 1, 72, 5, 8, 1]"
proof -
  have n: "length ex_fs = 2" by (simp add: ex_fs_def)
  have "wire_value PB_WT_VARINT (varint 5)" by (rule wire_value.varint)
  moreover have "unknown_tag ex_fs 9" by (simp add: unknown_tag_def ex_fs_def)
  ultimately have "unknown_fields ex_fs (varint (tag_number PB_WT_VARINT 9) @ varint 5 @ [])"
    using unknown_fields.more unknown_fields.none by blast
  then have u: "unknown_fields ex_fs [72, 5]" by (simp add: varint_last PB_WT_VARINT_def)
  have "message_stream ex_spec (\<lambda>_. 1) ex_fs 1 {..<length ex_fs} []" by (intro finished unknown_fields.none)
  moreover have "insert 0 {1} = {..<length ex_fs}" unfolding n by auto
  ultimately have "message_stream ex_spec (\<lambda>_. 1) ex_fs 1 (insert 0 {1}) []" by simp
  then have "message_stream ex_spec (\<lambda>_. 1) ex_fs 1 {1} ([72, 5] @ [8, 1] @ [])"
    by (rule message_stream.field [OF _ _ u ex_part0, rotated 2]) (simp_all add: n)
  then have "message_stream ex_spec (\<lambda>_. 1) ex_fs 1 {} ([] @ [26, 2, 8, 1] @ [72, 5] @ [8, 1] @ [])"
    by (rule message_stream.field [OF _ _ unknown_fields.none ex_part1, rotated 2]) (simp_all add: n)
  then show ?thesis by simp
qed

definition ex_decode_env :: "'s decode_env" where
  "ex_decode_env = \<lparr>pb_realloc = (\<lambda>_ _ _ m. (0, m)), callback_decoder = (\<lambda>_ _ _. op_fail),
     extensions_decoder = (\<lambda>_ _ _. op_return ()), extensions_default = (\<lambda>_. id), extensions_release = (\<lambda>_. id)\<rparr>"

definition ex_state :: "bytes \<Rightarrow> unit dstate" where
  "ex_state bs = \<lparr>memory = (\<lambda>_. 0), heap_log = [], input = pb_istream_from_buffer bs (length bs), fixed_count_size = 0\<rparr>"

lemma ex_consumes: "env_consumes ex_decode_env"
  by (simp add: env_consumes_def ex_decode_env_def takes_return)

text \<open>
  A struct of 28 bytes with an array of two booleans behind its counter, a pointer, an optional boolean
  behind its flag, a list of extensions, and a submessage with an optional boolean.
\<close>

definition ex_layout_fs :: "pb_field list" where
  "ex_layout_fs = [Field 1 0x20 4 (-4) 1 2 No_ptr, Field 2 0x97 2 0 1 0 No_ptr, Field 3 0x10 1 (-1) 1 0 No_ptr,
     Field 4 0x59 0 0 8 0 No_ptr, Field 5 0x08 0 0 2 0 (Submsg [Field 1 0x10 1 (-1) 1 0 No_ptr])]"

lemma ex_layout: "struct_holds ex_layout_fs 100 28"
  by code_simp

section \<open>At the edge\<close>

text \<open>
  An array of fixed size has no counter, and \<open>pSize\<close> points to its first entry; the default values write
  the four bytes of a counter there all the same.
\<close>

lemma fixed_array_overrun:
  "pb_message_set_to_defaults ext [Field 1 0x20 0 0 1 2 No_ptr] dest m (dest + 2) = 0"
  "pb_message_set_to_defaults ext [Field 1 0x20 0 0 1 2 No_ptr] dest m (dest + 3) = 0"
proof -
  have z: "nat_le 4 0 ! 2 = 0" "nat_le 4 0 ! 3 = 0" by code_simp+
  have "pb_message_set_to_defaults ext [Field 1 0x20 0 0 1 2 No_ptr] dest m = store dest (0 :: u32) m"
    by (simp add: pb_message_set_to_defaults.simps pb_fields_visited_def pb_field_iter_begin_def iter_visits.simps
        pb_field_iter_next_def field_at_def iter_field_def PB_LAST_FIELD_def ex_simps pb_field_set_to_default_def)
  then show "pb_message_set_to_defaults ext [Field 1 0x20 0 0 1 2 No_ptr] dest m (dest + 2) = 0"
    "pb_message_set_to_defaults ext [Field 1 0x20 0 0 1 2 No_ptr] dest m (dest + 3) = 0"
    using z by (simp_all add: store_def store_bytes_def)
qed

text \<open>In an empty message the terminator of the description matches the tag 0.\<close>

lemma empty_message_reads_field_zero:
  "pb_decode_noinit env [] dest (s\<lparr>input := pb_istream_from_buffer [1, 5] 2\<rparr>) = (Some (), s\<lparr>input := pb_istream_from_buffer [] 0, memory := store_bytes dest [1] (memory s)\<rparr>)"
proof -
  let ?it = "snd (pb_field_iter_begin [] dest)"
  have f2: "iter_field ?it = PB_LAST_FIELD" by (simp add: iter_field_def field_at_def)
  have f1: "pb_field_iter_find 0 ?it = (True, ?it)"
    by (simp add: pb_field_iter_find_def f2) (simp add: PB_LAST_FIELD_def PB_LTYPE_def PB_LTYPE_EXTENSION_def)
  have f3: "pData ?it = dest" by (simp add: pb_field_iter_begin_def Let_def field_at_def PB_LAST_FIELD_def)
  have t: "pb_decode_tag (pb_istream_from_buffer [1, 5] 2 :: 'a istream) = ((Some (1, 0), False), pb_istream_from_buffer [5] 1)"
    by (simp add: pb_istream_from_buffer_def pb_decode_tag_def pb_decode_varint32_eof_def pb_readbyte_def buf_read_def)
  have b: "pb_dec_bool PB_LAST_FIELD dest (u\<lparr>input := pb_istream_from_buffer [5] 1\<rparr>)
      = (Some (), u\<lparr>input := pb_istream_from_buffer [] 0, memory := store_bytes dest [1] (memory u)\<rparr>)" for u :: "'a dstate"
    by (simp add: pb_dec_bool_def on_input_def on_memory_def pb_istream_from_buffer_def pb_decode_varint32_def pb_decode_varint32_eof_def pb_readbyte_def buf_read_def op_simps)
  have "decode_field d env 1 ?it (u\<lparr>input := pb_istream_from_buffer [5] 1\<rparr>)
      = (Some ?it, u\<lparr>input := pb_istream_from_buffer [] 0, memory := store_bytes dest [1] (memory u)\<rparr>)" for u :: "'a dstate" and d
  proof -
    have l: "ltype PB_LAST_FIELD = PB_LTYPE_BOOL" "htype PB_LAST_FIELD = PB_HTYPE_REQUIRED" "atype PB_LAST_FIELD = PB_ATYPE_STATIC"
      by (simp_all add: PB_LAST_FIELD_def ex_simps)
    have "PB_DECODERS d env PB_LAST_FIELD dest = pb_dec_bool PB_LAST_FIELD dest" by (simp add: PB_DECODERS_def Let_def l)
    then have "decode_static_field d env 1 ?it (u\<lparr>input := pb_istream_from_buffer [5] 1\<rparr>) = pb_dec_bool PB_LAST_FIELD dest (u\<lparr>input := pb_istream_from_buffer [5] 1\<rparr>)"
      by (simp add: decode_static_field_def f2 f3 l Let_def)
    moreover have "PB_HTYPE_REQUIRED \<noteq> PB_HTYPE_ONEOF" by (simp add: pb_type_defs)
    ultimately show ?thesis using b by (simp add: decode_field_def f2 l op_simps)
  qed
  note df = this
  have l: "htype PB_LAST_FIELD \<noteq> PB_HTYPE_REPEATED" by (simp add: PB_LAST_FIELD_def ex_simps)
  have loop: "\<exists>v. decode_loop 2 d env vars (u\<lparr>input := pb_istream_from_buffer [1, 5] 2\<rparr>)
     = (Some v, u\<lparr>input := pb_istream_from_buffer [] 0, memory := store_bytes dest [1] (memory u)\<rparr>) \<and> field_iter v = ?it \<and> fixed_count_field v = fixed_count_field vars"
    if it: "field_iter vars = ?it" for u :: "'a dstate" and d vars
  proof -
    let ?u = "u\<lparr>input := pb_istream_from_buffer [5] 1\<rparr>" and ?t = "u\<lparr>input := pb_istream_from_buffer [] 0, memory := store_bytes dest [1] (memory u)\<rparr>"
    have v: "vars\<lparr>field_iter := ?it\<rparr> = vars" using it by simp
    have e: "enter_fixed_count vars = op_return vars" using l it by (simp add: enter_fixed_count_def Let_def f2 op_simps fun_eq_iff)
    have m: "field_iter (mark_seen vars) = ?it" "fixed_count_field (mark_seen vars) = fixed_count_field vars"
      using it by (simp_all add: mark_seen_def Let_def)
    have "decode_tagged d env 1 0 vars ?u = (Some ((mark_seen vars)\<lparr>field_iter := ?it\<rparr>), ?t)"
      using df [of d u] by (simp add: decode_tagged_def it f1 v e m Let_def op_simps)
    then have "decode_loop 2 d env vars (u\<lparr>input := pb_istream_from_buffer [1, 5] 2\<rparr>) = (Some ((mark_seen vars)\<lparr>field_iter := ?it\<rparr>), ?t)"
      unfolding numeral_2_eq_2 using t [unfolded numeral_2_eq_2] by (simp add: pb_istream_from_buffer_def)
    then show ?thesis using m by auto
  qed
  have c: "count_required ?it = 0"
    using count_required_at [of "[]" 0 dest] by (simp add: iter_at.simps pb_fields_ok_def required_before_def)
  let ?vars = "\<lparr>fields_seen = [0, 0], extension_range_start = 0, fixed_count_field = None, field_iter = ?it\<rparr>"
  let ?d = "\<lambda>f init dest. if f \<notin> set [] then op_fail
      else if init then decode_with_defaults env (submsg_fields f) dest (pb_decode_noinit env (submsg_fields f) dest)
      else pb_decode_noinit env (submsg_fields f) dest"
  have sw: "s\<lparr>input := i, fixed_count_size := 0\<rparr> = s\<lparr>fixed_count_size := 0, input := i\<rparr>" for i by simp
  obtain v where "decode_loop 2 ?d env ?vars ((s\<lparr>fixed_count_size := 0\<rparr>)\<lparr>input := pb_istream_from_buffer [1, 5] 2\<rparr>)
      = (Some v, (s\<lparr>fixed_count_size := 0\<rparr>)\<lparr>input := pb_istream_from_buffer [] 0, memory := store_bytes dest [1] (memory s)\<rparr>)"
      "field_iter v = ?it" "fixed_count_field v = None"
    using loop [of ?vars ?d "s\<lparr>fixed_count_size := 0\<rparr>"] by auto
  moreover have "bytes_left (pb_istream_from_buffer [1, 5] 2 :: 'a istream) = 2" by (simp add: pb_istream_from_buffer_def)
  ultimately show ?thesis
    unfolding pb_decode_noinit.simps [of env "[]" dest] decode_fields_def Let_def sw
    by (simp add: op_bind_def finish_fields_def c required_present_def)
qed

end
