(* ===== verification/PbExtension.thy ===== *)
theory PbExtension
  imports PbProgress PbEncodeMessage
begin

text \<open>
  Extensions of messages (\<open>pb_encode.c\<close>, \<open>pb_decode.c\<close>, \<open>pb.h\<close>). A struct may point to a linked list of
  \<open>pb_extension_t\<close>, each with a destination for its value and a type; the type holds the functions of the user
  or, for the default handlers, the description of a field. Here the lists are in memory, and the types are
  a function of their addresses. The environments of the encoder and the decoder, whose functions for
  extensions were arguments so far, are those of this file.

  An extension can be a message that has extensions itself, and a list can be circular, in which case the
  code does not return. So the environments come with two bounds: \<open>levels\<close> of nesting, and the
  number of elements \<open>len\<close> that a list is walked along, and refuse what is beyond them.
\<close>

section \<open>Extensions in memory\<close>

record ('e, 'd) pb_extension_type =
  extension_decode :: "(nat \<Rightarrow> u32 \<Rightarrow> u32 \<Rightarrow> ('d dstate, unit) op) option"
  extension_encode :: "(mem \<Rightarrow> nat \<Rightarrow> ('e ostream, unit) op) option"
  extension_arg :: "pb_field list"

type_synonym ('e, 'd) ext_types = "nat \<Rightarrow> ('e, 'd) pb_extension_type"

text \<open>The members of \<open>pb_extension_t\<close>: \<open>type\<close>, \<open>dest\<close>, \<open>next\<close> and \<open>found\<close>.\<close>

definition ext_type :: "('e, 'd) ext_types \<Rightarrow> mem \<Rightarrow> nat \<Rightarrow> ('e, 'd) pb_extension_type" where
  "ext_type types m ext = types (load_ptr m ext)"

definition ext_dest :: "nat \<Rightarrow> nat" where "ext_dest ext = ext + 8"
definition ext_next :: "mem \<Rightarrow> nat \<Rightarrow> nat" where "ext_next m ext = load_ptr m (ext + 16)"
definition ext_found :: "nat \<Rightarrow> nat" where "ext_found ext = ext + 24"

definition ext_field :: "('e, 'd) ext_types \<Rightarrow> mem \<Rightarrow> nat \<Rightarrow> pb_field" where
  "ext_field types m ext = field_at (extension_arg (ext_type types m ext)) 0"

section \<open>Encoding\<close>

definition default_extension_encoder :: "('e, 'd) ext_types \<Rightarrow> 'e encode_env \<Rightarrow> mem \<Rightarrow> nat \<Rightarrow> ('e ostream, unit) op" where
  "default_extension_encoder types env m ext =
     (let field = ext_field types m ext in
      encode_field (\<lambda>src. pb_encode env m (submsg_fields field) src) env m field
        (if atype field = PB_ATYPE_POINTER then ext_dest ext else load_ptr m (ext_dest ext)))"

definition encode_extension :: "('e, 'd) ext_types \<Rightarrow> 'e encode_env \<Rightarrow> mem \<Rightarrow> nat \<Rightarrow> ('e ostream, unit) op" where
  "encode_extension types env m ext =
     (case extension_encode (ext_type types m ext) of
        Some encode \<Rightarrow> encode m ext
      | None \<Rightarrow> default_extension_encoder types env m ext)"

fun encode_extension_loop :: "nat \<Rightarrow> ('e, 'd) ext_types \<Rightarrow> 'e encode_env \<Rightarrow> mem \<Rightarrow> nat \<Rightarrow> ('e ostream, unit) op" where
  "encode_extension_loop 0 types env m ext = op_fail"
| "encode_extension_loop (Suc len) types env m ext =
     (if ext \<noteq> 0 then
        op_bind (encode_extension types env m ext) (\<lambda>_. encode_extension_loop len types env m (ext_next m ext))
      else op_return ())"

text \<open>\<open>encode_extension_field\<close> is the member \<open>extensions_encoder\<close>; it gets the head of the list.\<close>

fun extension_encode_env ::
    "nat \<Rightarrow> nat \<Rightarrow> ('e, 'd) ext_types \<Rightarrow> (nat \<Rightarrow> pb_field \<Rightarrow> nat \<Rightarrow> ('e ostream, unit) op) \<Rightarrow> mem \<Rightarrow> 'e encode_env" where
  "extension_encode_env 0 len types user_callback m = \<lparr>callback_encoder = user_callback, extensions_encoder = (\<lambda>_. op_fail)\<rparr>"
| "extension_encode_env (Suc levels) len types user_callback m =
     \<lparr>callback_encoder = user_callback,
      extensions_encoder = encode_extension_loop len types (extension_encode_env levels len types user_callback m) m\<rparr>"

section \<open>Decoding\<close>

definition iter_from_extension :: "('e, 'd) ext_types \<Rightarrow> mem \<Rightarrow> nat \<Rightarrow> pb_field_iter" where
  "iter_from_extension types m ext =
     (let iter = snd (pb_field_iter_begin (extension_arg (ext_type types m ext)) (load_ptr m (ext_dest ext)));
          iter = iter\<lparr>pData := load_ptr m (ext_dest ext), pSize := Size_at (ext_found ext)\<rparr>
      in if atype (ext_field types m ext) = PB_ATYPE_POINTER then iter\<lparr>pData := ext_dest ext\<rparr> else iter)"

definition default_extension_decoder ::
    "('e, 'd) ext_types \<Rightarrow> 'd decode_env \<Rightarrow> nat \<Rightarrow> u32 \<Rightarrow> u32 \<Rightarrow> ('d dstate, unit) op" where
  "default_extension_decoder types env ext tag wire_type s =
     (let field = ext_field types (memory s) ext in
      if field_tag field \<noteq> tag then (Some (), s)
      else
        let iter = iter_from_extension types (memory s) ext;
            s = s\<lparr>memory := store_bytes (ext_found ext) [1] (memory s)\<rparr>
        in op_bind
             (decode_field
                (\<lambda>f init dest. if init then pb_decode env (submsg_fields f) dest else pb_decode_noinit env (submsg_fields f) dest)
                env wire_type iter)
             (\<lambda>_. op_return ()) s)"

definition decode_with_extension ::
    "('e, 'd) ext_types \<Rightarrow> 'd decode_env \<Rightarrow> nat \<Rightarrow> u32 \<Rightarrow> u32 \<Rightarrow> ('d dstate, unit) op" where
  "decode_with_extension types env ext tag wire_type s =
     (case extension_decode (ext_type types (memory s) ext) of
        Some decode \<Rightarrow> decode ext tag wire_type s
      | None \<Rightarrow> default_extension_decoder types env ext tag wire_type s)"

text \<open>The loop of \<open>decode_extension\<close>; \<open>pos\<close> is the number of bytes that were left before it.\<close>

fun decode_extension_loop ::
    "nat \<Rightarrow> ('e, 'd) ext_types \<Rightarrow> 'd decode_env \<Rightarrow> nat \<Rightarrow> nat \<Rightarrow> u32 \<Rightarrow> u32 \<Rightarrow> ('d dstate, unit) op" where
  "decode_extension_loop 0 types env pos ext tag wire_type s = (None, s)"
| "decode_extension_loop (Suc len) types env pos ext tag wire_type s =
     (if ext \<noteq> 0 \<and> pos = bytes_left (input s) then
        op_bind (decode_with_extension types env ext tag wire_type)
          (\<lambda>_ s. decode_extension_loop len types env pos (ext_next (memory s) ext) tag wire_type s) s
      else (Some (), s))"

text \<open>The loop of \<open>pb_field_set_to_default\<close> and that of \<open>pb_release_single_field\<close>.\<close>

fun default_extension_loop :: "nat \<Rightarrow> ('e, 'd) ext_types \<Rightarrow> (nat \<Rightarrow> mem \<Rightarrow> mem) \<Rightarrow> nat \<Rightarrow> mem \<Rightarrow> mem" where
  "default_extension_loop 0 types ext_default ext m = m"
| "default_extension_loop (Suc len) types ext_default ext m =
     (if ext \<noteq> 0 then
        let m = store_bytes (ext_found ext) [0] m;
            iter = iter_from_extension types m ext;
            m = pb_field_set_to_default ext_default
                  (\<lambda>dest m. pb_message_set_to_defaults ext_default (submsg_fields (iter_field iter)) dest m) iter m
        in default_extension_loop len types ext_default (ext_next m ext) m
      else m)"

fun release_extension_loop ::
    "nat \<Rightarrow> ('e, 'd) ext_types \<Rightarrow> (nat \<Rightarrow> 'd dstate \<Rightarrow> 'd dstate) \<Rightarrow> nat \<Rightarrow> 'd dstate \<Rightarrow> 'd dstate" where
  "release_extension_loop 0 types ext_release ext s = s"
| "release_extension_loop (Suc len) types ext_release ext s =
     (if ext \<noteq> 0 then
        let iter = iter_from_extension types (memory s) ext;
            s = pb_release_single_field ext_release
                  (\<lambda>dest s. pb_release ext_release (submsg_fields (iter_field iter)) dest s) iter s
        in release_extension_loop len types ext_release (ext_next (memory s) ext) s
      else s)"

fun extension_decode_env ::
    "nat \<Rightarrow> nat \<Rightarrow> ('e, 'd) ext_types \<Rightarrow> (heap_event list \<Rightarrow> nat \<Rightarrow> nat \<Rightarrow> mem \<Rightarrow> nat \<times> mem)
      \<Rightarrow> (nat \<Rightarrow> pb_field \<Rightarrow> nat \<Rightarrow> ('d dstate, unit) op) \<Rightarrow> 'd decode_env" where
  "extension_decode_env 0 len types realloc user_callback =
     \<lparr>pb_realloc = realloc, callback_decoder = user_callback, extensions_decoder = (\<lambda>_ _ _. op_fail),
      extensions_default = (\<lambda>_. id), extensions_release = (\<lambda>_. id)\<rparr>"
| "extension_decode_env (Suc levels) len types realloc user_callback =
     (let env = extension_decode_env levels len types realloc user_callback
      in \<lparr>pb_realloc = realloc, callback_decoder = user_callback,
          extensions_decoder = (\<lambda>ext tag wire_type s.
            decode_extension_loop len types env (bytes_left (input s)) ext tag wire_type s),
          extensions_default = default_extension_loop len types (extensions_default env),
          extensions_release = release_extension_loop len types (extensions_release env)\<rparr>)"

end
