(* ===== verification/PbExtensionSpec.thy ===== *)
theory PbExtensionSpec
  imports PbExtension
begin

text \<open>
  What the functions for extensions do: the encoder writes the extensions of the list, each as a field or as
  its own function wants it, one after the other; the decoder gives an unknown field to the first extension
  that takes it; and the streams only ever get shorter, so that the loops over them end.
\<close>

section \<open>The list\<close>

fun ext_list :: "nat \<Rightarrow> mem \<Rightarrow> nat \<Rightarrow> nat list option" where
  "ext_list 0 m ext = None"
| "ext_list (Suc len) m ext = (if ext = 0 then Some [] else map_option ((#) ext) (ext_list len m (ext_next m ext)))"

fun ext_path :: "mem \<Rightarrow> nat \<Rightarrow> nat list \<Rightarrow> nat \<Rightarrow> bool" where
  "ext_path m p [] q \<longleftrightarrow> p = q"
| "ext_path m p (x # xs) q \<longleftrightarrow> p = x \<and> p \<noteq> 0 \<and> ext_path m (ext_next m p) xs q"

lemma ext_list_path: "ext_list len m p = Some xs \<longleftrightarrow> ext_path m p xs 0 \<and> length xs < len"
  by (induction len m p arbitrary: xs rule: ext_list.induct) (auto simp: ext_path.simps split: if_splits elim: ext_path.elims)

section \<open>Encoding\<close>

lemma encode_loop_each:
  "ext_list len m ext = Some exts \<Longrightarrow> encode_extension_loop len types env m ext = op_each exts (encode_extension types env m)"
  by (induction len types env m ext arbitrary: exts rule: encode_extension_loop.induct) (auto split: if_splits)

lemma encode_loop_refused: "ext_list len m ext = None \<Longrightarrow> fst (encode_extension_loop len types env m ext s) = None"
  by (induction len types env m ext arbitrary: s rule: encode_extension_loop.induct)
    (auto simp: op_simps op_bind_def split: if_splits option.splits prod.splits)

definition extension_bytes ::
    "('e, 'd) ext_types \<Rightarrow> (nat \<Rightarrow> bytes option) \<Rightarrow> encode_spec \<Rightarrow> mem \<Rightarrow> nat \<Rightarrow> bytes option" where
  "extension_bytes types user spec m ext =
     (if extension_encode (ext_type types m ext) \<noteq> None then user ext
      else
        let field = ext_field types m ext
        in field_bytes (\<lambda>src. message_bytes spec m (submsg_fields field) src) spec m field
             (if atype field = PB_ATYPE_POINTER then ext_dest ext else load_ptr m (ext_dest ext)))"

fun extension_spec ::
    "nat \<Rightarrow> nat \<Rightarrow> ('e, 'd) ext_types \<Rightarrow> (nat \<Rightarrow> pb_field \<Rightarrow> nat \<Rightarrow> bytes option) \<Rightarrow> (nat \<Rightarrow> bytes option) \<Rightarrow> mem \<Rightarrow> encode_spec" where
  "extension_spec 0 len types callback_spec user m = \<lparr>callback_bytes = callback_spec, extensions_bytes = (\<lambda>_. None)\<rparr>"
| "extension_spec (Suc levels) len types callback_spec user m =
     \<lparr>callback_bytes = callback_spec,
      extensions_bytes = (\<lambda>p. case ext_list len m p of
          None \<Rightarrow> None
        | Some exts \<Rightarrow> concat_opt (map (extension_bytes types user (extension_spec levels len types callback_spec user m) m) exts))\<rparr>"

text \<open>The functions of the user write what the specification says.\<close>

definition user_encodes ::
    "('e, 'd) ext_types \<Rightarrow> (nat \<Rightarrow> bytes option) \<Rightarrow> (nat \<Rightarrow> pb_field \<Rightarrow> nat \<Rightarrow> bytes option)
      \<Rightarrow> (nat \<Rightarrow> pb_field \<Rightarrow> nat \<Rightarrow> ('e ostream, unit) op) \<Rightarrow> mem \<Rightarrow> bool" where
  "user_encodes types user callback_spec user_callback m \<longleftrightarrow>
     (\<forall>p field arg. encodes (callback_spec p field arg) (user_callback p field arg))
     \<and> (\<forall>ext f. extension_encode (ext_type types m ext) = Some f \<longrightarrow> encodes (user ext) (f m ext))"

lemma encodes_extension:
  assumes "env_encodes spec env" "user_encodes types user callback_spec user_callback m"
  shows "encodes (extension_bytes types user spec m ext) (encode_extension types env m ext)"
proof (cases "extension_encode (ext_type types m ext)")
  case None
  then show ?thesis
    unfolding extension_bytes_def encode_extension_def default_extension_encoder_def Let_def
    using encodes_field [OF encodes_message [OF assms(1)] assms(1)] by simp
next
  case (Some f)
  then show ?thesis using assms(2) by (simp add: extension_bytes_def encode_extension_def user_encodes_def)
qed

lemma extension_env_encodes:
  assumes "user_encodes types user callback_spec user_callback m"
  shows "env_encodes (extension_spec levels len types callback_spec user m) (extension_encode_env levels len types user_callback m)"
proof (induction levels)
  case 0
  show ?case using assms by (auto simp: env_encodes_def user_encodes_def)
next
  case (Suc levels)
  let ?env = "extension_encode_env levels len types user_callback m"
  have "encodes (case ext_list len m p of None \<Rightarrow> None
      | Some exts \<Rightarrow> concat_opt (map (extension_bytes types user (extension_spec levels len types callback_spec user m) m) exts))
    (encode_extension_loop len types ?env m p)" for p
  proof (cases "ext_list len m p")
    case None
    then show ?thesis using encode_loop_refused [OF None, of types ?env] by (simp add: encodes_def)
  next
    case (Some exts)
    then show ?thesis using encode_loop_each [OF Some, of types ?env] encodes_each [OF encodes_extension [OF Suc.IH assms]] by simp
  qed
  then show ?case using assms by (simp add: env_encodes_def user_encodes_def)
qed

section \<open>Decoding\<close>

definition user_consumes :: "('e, 'd) ext_types \<Rightarrow> bool" where
  "user_consumes types \<longleftrightarrow>
     (\<forall>a f ext tag wt. extension_decode (types a) = Some f \<longrightarrow> takes input_left 0 (f ext tag wt))"

lemma takes_extension:
  assumes "env_consumes env" "user_consumes types"
  shows "takes input_left 0 (decode_with_extension types env ext tag wt)"
proof -
  have "takes input_left 0 (op_bind (decode_field decode env wt it) (\<lambda>_. op_return ()))" for decode it
    by (intro takes_bind_first takes_field assms(1) takes_return)
  from takes_le [OF this] have "input_left (snd (default_extension_decoder types env ext tag wt s)) \<le> input_left s" for s
    unfolding default_extension_decoder_def Let_def by simp
  then show ?thesis
    using assms(2) by (auto simp: takes_0_iff decode_with_extension_def ext_type_def user_consumes_def split: option.split)
qed

lemma takes_extension_loop:
  assumes "\<And>ext tag wt. takes input_left 0 (decode_with_extension types env ext tag wt)"
  shows "takes input_left 0 (decode_extension_loop len types env pos ext tag wt)"
proof (induction len arbitrary: ext)
  case 0
  show ?case by (simp add: takes_0_iff)
next
  case (Suc len)
  have "input_left (snd (op_bind (decode_with_extension types env ext tag wt)
      (\<lambda>_ s. decode_extension_loop len types env pos (ext_next (memory s) ext) tag wt s) s)) \<le> input_left s" for s
  proof (cases "decode_with_extension types env ext tag wt s")
    case (Pair r t)
    then have "input_left t \<le> input_left s" by (rule takesD [OF assms])
    then show ?thesis using Pair takes_le [OF Suc.IH] by (cases r) simp_all
  qed
  then show ?case
    unfolding takes_0_iff decode_extension_loop.simps by (simp only: split: if_split) simp
qed

lemma release_extension_input:
  fixes s :: "'d dstate"
  assumes "\<And>p (s :: 'd dstate). input (ext_release p s) = input s"
  shows "input (release_extension_loop len types ext_release ext s) = input s"
proof (induction len arbitrary: ext s)
  case (Suc len)
  have "input (pb_release_single_field ext_release (\<lambda>dest s. pb_release ext_release fs dest s) it s) = input s"
    for fs it and s :: "'d dstate"
    using assms by (intro release_single_input release_input)
  then show ?case by (simp add: Suc.IH Let_def)
qed simp

lemma extension_env_consumes:
  "user_consumes types \<Longrightarrow> env_consumes (extension_decode_env levels len types realloc user_callback)"
proof (induction levels)
  case 0
  show ?case by (simp add: env_consumes_def takes_fail)
next
  case (Suc levels)
  let ?env = "extension_decode_env levels len types realloc user_callback"
  note env = Suc.IH [OF Suc.prems]
  have loop: "takes input_left 0 (decode_extension_loop len types ?env pos p tag wt)" for pos p tag wt
    by (intro takes_extension_loop takes_extension env Suc.prems)
  have "takes input_left 0 (\<lambda>s. decode_extension_loop len types ?env (input_left s) p tag wt s)" for p tag wt
    by (rule takes_state) (rule loop)
  moreover have "input (release_extension_loop len types (extensions_release ?env) p s) = input s" for p s
    using env by (intro release_extension_input) (simp add: env_consumes_def)
  ultimately show ?case by (simp add: env_consumes_def Let_def)
qed

text \<open>An extension with a default handler and another tag lets the field pass.\<close>

lemma extension_passes:
  assumes "extension_decode (ext_type types (memory s) ext) = None" "field_tag (ext_field types (memory s) ext) \<noteq> tag"
  shows "decode_with_extension types env ext tag wt s = (Some (), s)"
  using assms by (simp add: decode_with_extension_def default_extension_decoder_def)

lemma decode_loop_passes:
  assumes "ext_path (memory s) p xs q" "pos = bytes_left (input s)"
    and "\<And>x. x \<in> set xs \<Longrightarrow> extension_decode (ext_type types (memory s) x) = None \<and> field_tag (ext_field types (memory s) x) \<noteq> tag"
  shows "decode_extension_loop (length xs + len) types env pos p tag wt s = decode_extension_loop len types env pos q tag wt s"
  using assms
proof (induction xs arbitrary: p)
  case (Cons x xs)
  then have p: "p = x" "x \<noteq> 0" "ext_path (memory s) (ext_next (memory s) x) xs q" by auto
  have "decode_with_extension types env x tag wt s = (Some (), s)"
    using Cons.prems(3) [of x] by (intro extension_passes) simp_all
  then show ?case using Cons.IH [OF p(3)] Cons.prems(2,3) p(1,2) by simp
qed simp

text \<open>The first extension with the tag takes the field.\<close>

lemma decode_loop_first:
  assumes path: "ext_path (memory s) p xs x" and x: "x \<noteq> 0" and pos: "pos = bytes_left (input s)" and len: "length xs + 2 \<le> len"
    and pass: "\<And>x. x \<in> set xs \<Longrightarrow> extension_decode (ext_type types (memory s) x) = None \<and> field_tag (ext_field types (memory s) x) \<noteq> tag"
    and takes: "\<And>t. decode_with_extension types env x tag wt s = (Some (), t) \<Longrightarrow> bytes_left (input t) < bytes_left (input s)"
  shows "decode_extension_loop len types env pos p tag wt s = decode_with_extension types env x tag wt s"
proof -
  obtain k where k: "len = length xs + Suc (Suc k)" using len by (auto simp: le_iff_add)
  obtain r t where r: "decode_with_extension types env x tag wt s = (r, t)" by fastforce
  have "decode_extension_loop len types env pos p tag wt s = decode_extension_loop (Suc (Suc k)) types env pos x tag wt s"
    unfolding k by (rule decode_loop_passes [OF path pos pass])
  then show ?thesis using x pos takes [of t] r by (cases r) auto
qed

lemma ext_path_append: "ext_path m p (xs @ ys) q \<longleftrightarrow> (\<exists>r. ext_path m p xs r \<and> ext_path m r ys q)"
  by (induction xs arbitrary: p) auto

text \<open>Nothing happens when no extension has the tag.\<close>

lemma decode_loop_ignores:
  assumes "ext_path (memory s) p xs 0" "pos = bytes_left (input s)" "length xs < len"
    and "\<And>x. x \<in> set xs \<Longrightarrow> extension_decode (ext_type types (memory s) x) = None \<and> field_tag (ext_field types (memory s) x) \<noteq> tag"
  shows "decode_extension_loop len types env pos p tag wt s = (Some (), s)"
proof -
  obtain k where "len = length xs + Suc k" using assms(3) less_imp_Suc_add by auto
  then show ?thesis using decode_loop_passes [OF assms(1,2,4), of "Suc k" env wt] by simp
qed

lemma extension_lookup:
  assumes path: "ext_path (memory s) p exts 0" "length exts < len"
    and default: "\<And>e. e \<in> set exts \<Longrightarrow> extension_decode (ext_type types (memory s) e) = None"
    and takes: "\<And>e t. e \<in> set exts \<Longrightarrow> field_tag (ext_field types (memory s) e) = tag \<Longrightarrow>
      default_extension_decoder types env e tag wt s = (Some (), t) \<Longrightarrow> bytes_left (input t) < bytes_left (input s)"
  shows "decode_extension_loop len types env (bytes_left (input s)) p tag wt s =
    (case find (\<lambda>e. field_tag (ext_field types (memory s) e) = tag) exts of
       None \<Rightarrow> (Some (), s) | Some e \<Rightarrow> default_extension_decoder types env e tag wt s)"
proof (cases "find (\<lambda>e. field_tag (ext_field types (memory s) e) = tag) exts")
  case None
  then have "decode_extension_loop len types env (bytes_left (input s)) p tag wt s = (Some (), s)"
    by (intro decode_loop_ignores [OF path(1) refl path(2)]) (use None default in \<open>auto simp: find_None_iff\<close>)
  then show ?thesis using None by simp
next
  case (Some e)
  then obtain i where i: "i < length exts" "field_tag (ext_field types (memory s) e) = tag" "e = exts ! i"
    "\<And>j. j < i \<Longrightarrow> field_tag (ext_field types (memory s) (exts ! j)) \<noteq> tag"
    by (auto simp: find_Some_iff)
  have "ext_path (memory s) p (take i exts @ e # drop (Suc i) exts) 0"
    using path(1) i(1,3) by (simp add: id_take_nth_drop [symmetric])
  then have e: "ext_path (memory s) p (take i exts) e" "e \<noteq> 0" by (auto simp: ext_path_append)
  have d: "decode_with_extension types env e tag wt s = default_extension_decoder types env e tag wt s"
    using default i(1,3) by (simp add: decode_with_extension_def)
  have "decode_extension_loop len types env (bytes_left (input s)) p tag wt s = decode_with_extension types env e tag wt s"
  proof (rule decode_loop_first [OF e refl])
    show "length (take i exts) + 2 \<le> len" using i(1) path(2) by simp
    show "extension_decode (ext_type types (memory s) x) = None \<and> field_tag (ext_field types (memory s) x) \<noteq> tag"
      if "x \<in> set (take i exts)" for x
    proof -
      obtain j where "j < i" "x = exts ! j" using \<open>x \<in> set (take i exts)\<close> by (auto simp: in_set_conv_nth)
      then show ?thesis using default [of x] i(4) in_set_takeD [OF that] by simp
    qed
    show "bytes_left (input t) < bytes_left (input s)" if "decode_with_extension types env e tag wt s = (Some (), t)" for t
      using that takes [of e t] i(1-3) d by simp
  qed
  then show ?thesis using Some d by simp
qed

section \<open>An example\<close>

text \<open>One extension at address 100, a required bool field with the tag 5 whose value is at address 200.\<close>

definition ex_ext_types :: "(unit, unit) ext_types" where
  "ex_ext_types = (\<lambda>_. \<lparr>extension_decode = None, extension_encode = None, extension_arg = [Field 5 0 0 0 1 0 No_ptr]\<rparr>)"

definition ex_ext_memory :: mem where "ex_ext_memory = store_ptr 108 200 (\<lambda>_. 0)"

definition ex_ext_state :: "bytes \<Rightarrow> unit dstate" where
  "ex_ext_state bs = \<lparr>memory = ex_ext_memory, heap_log = [], input = pb_istream_from_buffer bs (length bs), fixed_count_size = 0\<rparr>"

lemma ex_ext_loads [simp]:
  "load_ptr ex_ext_memory 100 = 0" "load_ptr ex_ext_memory 108 = 200" "load_ptr ex_ext_memory 116 = 0" "ex_ext_memory 200 = 0"
  by (simp_all add: ex_ext_memory_def load_ptr_def store_ptr_def load_store load_store_disjoint)
    (simp_all add: load_def load_bytes_def)

lemma ex_ext_path: "ext_path ex_ext_memory 100 [100] 0"
  by (simp add: ext_next_def)

lemma ex_ext_user: "user_encodes ex_ext_types user (\<lambda>_ _ _. Some []) (\<lambda>_ _ _. op_return ()) m"
  by (simp add: user_encodes_def ex_ext_types_def ext_type_def encodes_return)

lemma ex_ext_type:
  "ext_type ex_ext_types m ext = \<lparr>extension_decode = None, extension_encode = None, extension_arg = [Field 5 0 0 0 1 0 No_ptr]\<rparr>"
  by (simp add: ext_type_def ex_ext_types_def)

lemma ex_ext_field: "ext_field ex_ext_types m ext = Field 5 0 0 0 1 0 No_ptr"
  by (simp add: ext_field_def ex_ext_type field_at_def)

lemmas ex_ext_simps = pb_type_defs PB_LTYPE_def PB_HTYPE_def PB_ATYPE_def address_plus_def safe_read_bool_def Let_def append_opt_def
  tag_bytes_def wire_type_of_def value_bytes_def PB_WT_VARINT_def field_at_def

lemma ex_ext_bytes: "extension_bytes ex_ext_types user spec ex_ext_memory 100 = Some [40, 0]"
proof -
  have "varint 40 = [40]" "varint 0 = [0]" by (simp_all add: varint_last)
  then show ?thesis
    by (simp add: extension_bytes_def ex_ext_field ex_ext_type field_bytes_def basic_field_bytes_def
        ex_ext_simps ext_dest_def)
qed

lemma ex_ext_decoded:
  "decode_field decode env 0 (iter_from_extension ex_ext_types (memory (ex_ext_state [1])) 100)
     ((ex_ext_state [1])\<lparr>memory := store_bytes (ext_found 100) [1] (memory (ex_ext_state [1]))\<rparr>)
   = (Some (iter_from_extension ex_ext_types (memory (ex_ext_state [1])) 100),
      (ex_ext_state [])\<lparr>memory := store_bytes 200 [1] (store_bytes (ext_found 100) [1] (memory (ex_ext_state [1])))\<rparr>)"
proof -
  let ?it = "iter_from_extension ex_ext_types (memory (ex_ext_state [1])) 100"
  have it: "iter_field ?it = Field 5 0 0 0 1 0 No_ptr" "pData ?it = 200"
    by (simp_all add: iter_from_extension_def iter_field_def ex_ext_field ex_ext_type ex_ext_state_def
        ex_ext_simps pb_field_iter_begin_def ext_dest_def)
  have dec: "PB_DECODERS decode env (Field 5 0 0 0 1 0 No_ptr) = pb_dec_bool (Field 5 0 0 0 1 0 No_ptr)"
    by (simp add: PB_DECODERS_def ex_ext_simps fun_eq_iff)
  define it where "it = ?it"
  note it = it [folded it_def]
  show ?thesis unfolding it_def [symmetric]
    by (simp add: decode_field_def decode_static_field_def it dec [unfolded One_nat_def] ex_ext_simps pb_dec_bool_def ex_ext_state_def op_simps op_bind_def
        on_input_def on_memory_def pb_istream_from_buffer_def pb_decode_varint32_def pb_decode_varint32_eof_def pb_readbyte_def buf_read_def)
qed

end
