(* ===== verification/Siphash.thy ===== *)
theory Siphash
  imports Mem
begin

text \<open>
  \<open>crypto/siphash/siphash.c\<close>: SipHash-2-4, the keyed hash of the pools' tables. The array of four words that
  a round updates in place is a record; the assignments keep their order.
\<close>

record sip_state =
  v0 :: u64
  v1 :: u64
  v2 :: u64
  v3 :: u64

definition siphash_round :: "sip_state \<Rightarrow> sip_state" where
  "siphash_round v =
     (let a = v0 v + v1 v;
          c = v2 v + v3 v;
          b = CRYPTO_rotl_u64 (v1 v) 13;
          d = CRYPTO_rotl_u64 (v3 v) 16;
          b = b XOR a;
          d = d XOR c;
          a = CRYPTO_rotl_u64 a 32;
          c = c + b;
          a = a + d;
          b = CRYPTO_rotl_u64 b 17;
          d = CRYPTO_rotl_u64 d 21;
          b = b XOR c;
          d = d XOR a;
          c = CRYPTO_rotl_u64 c 32
      in \<lparr>v0 = a, v1 = b, v2 = c, v3 = d\<rparr>)"

definition sip_word :: "u64 \<Rightarrow> sip_state \<Rightarrow> sip_state" where
  "sip_word m v =
     (let v = v\<lparr>v3 := v3 v XOR m\<rparr>;
          v = siphash_round v;
          v = siphash_round v
      in v\<lparr>v0 := v0 v XOR m\<rparr>)"

text \<open>The loop over the whole words; with it the bytes that are left.\<close>

function sip_words :: "bytes \<Rightarrow> sip_state \<Rightarrow> bytes \<times> sip_state" where
  "sip_words input v =
     (if length input \<ge> 8 then sip_words (drop 8 input) (sip_word (CRYPTO_load_u64_le input) v) else (input, v))"
  by auto
termination by (relation "measure (\<lambda>(input, _). length input)") auto

declare sip_words.simps [simp del]

definition SIPHASH_24 :: "u64 \<times> u64 \<Rightarrow> bytes \<Rightarrow> u64" where
  "SIPHASH_24 key input =
     (let v = \<lparr>v0 = fst key XOR 0x736f6d6570736575, v1 = snd key XOR 0x646f72616e646f6d,
               v2 = fst key XOR 0x6c7967656e657261, v3 = snd key XOR 0x7465646279746573\<rparr>;
          (rest, v) = sip_words input v;
          last_block = memcpy_at 0 rest (replicate 8 0);
          last_block = last_block[7 := word_of_nat (length input) AND 0xff];
          v = sip_word (CRYPTO_load_u64_le last_block) v;
          v = v\<lparr>v2 := v2 v XOR 0xff\<rparr>;
          v = siphash_round v;
          v = siphash_round v;
          v = siphash_round v;
          v = siphash_round v
      in v0 v XOR v1 v XOR v2 v XOR v3 v)"

end
