(* ===== verification/Pool.thy ===== *)
theory Pool
  imports LhashSpec Siphash
begin

text \<open>
  \<open>crypto/pool/pool.c\<close>: immutable, reference-counted buffers, and pools that share equal ones, with the reference
  counts of \<open>crypto/refcount.c\<close>.

  The memory of the program is the buffers and the pools, each at its address. The contents of a buffer
  do not change, so a buffer holds its bytes. The operations on a pool run under its lock, and are steps of
  the program; creating a buffer in a pool is two such steps, and other threads may run in between.
\<close>

section \<open>Reference counts\<close>

definition CRYPTO_REFCOUNT_MAX :: u32 where "CRYPTO_REFCOUNT_MAX = 0xffffffff"

text \<open>
  The operations are loops around a compare-and-exchange, which fails when another thread changed the
  count in the meantime, or for no reason. An attempt is the count at that moment and whether it fails for no
  reason. The result is the number that is stored, if one is, and the count that it replaces; it is \<open>None\<close>
  while the attempts do not end the loop.
\<close>

type_synonym attempt = "u32 \<times> bool"

fun refcount_inc_loop :: "u32 \<Rightarrow> attempt list \<Rightarrow> (u32 option \<times> u32) option" where
  "refcount_inc_loop expected attempts =
     (if expected \<noteq> CRYPTO_REFCOUNT_MAX then
        let new_value = expected + 1
        in case attempts of
             [] \<Rightarrow> None
           | (current, spurious) # attempts \<Rightarrow>
               if current = expected \<and> \<not> spurious then Some (Some new_value, current)
               else refcount_inc_loop current attempts
      else Some (None, expected))"

declare refcount_inc_loop.simps [simp del]

text \<open>The loop of the other operation has a result of its own; its \<open>None\<close> is \<open>abort\<close>.\<close>

fun refcount_dec_loop :: "u32 \<Rightarrow> attempt list \<Rightarrow> (bool option \<times> u32 option \<times> u32) option" where
  "refcount_dec_loop expected attempts =
     (if expected = 0 then Some (None, None, expected)
      else if expected = CRYPTO_REFCOUNT_MAX then Some (Some False, None, expected)
      else
        let new_value = expected - 1
        in case attempts of
             [] \<Rightarrow> None
           | (current, spurious) # attempts \<Rightarrow>
               if current = expected \<and> \<not> spurious then Some (Some (new_value = 0), Some new_value, current)
               else refcount_dec_loop current attempts)"

declare refcount_dec_loop.simps [simp del]

text \<open>What the loops do to the count, as one step.\<close>

definition CRYPTO_refcount_inc :: "u32 \<Rightarrow> u32" where
  "CRYPTO_refcount_inc c = (if c = CRYPTO_REFCOUNT_MAX then c else c + 1)"

definition CRYPTO_refcount_dec_and_test_zero :: "u32 \<Rightarrow> (bool \<times> u32) option" where
  "CRYPTO_refcount_dec_and_test_zero c =
     (if c = 0 then None else if c = CRYPTO_REFCOUNT_MAX then Some (False, c) else Some (c - 1 = 0, c - 1))"

lemma refcount_inc_loop_atomic:
  assumes "refcount_inc_loop e attempts = Some (stored, c)"
  shows "(case stored of None \<Rightarrow> c | Some v \<Rightarrow> v) = CRYPTO_refcount_inc c"
  using assms
proof (induction e attempts rule: refcount_inc_loop.induct)
  case (1 e attempts)
  show ?case
    using "1.prems" "1.IH" [OF _ refl]
    by (subst (asm) refcount_inc_loop.simps [of e])
      (auto simp: CRYPTO_refcount_inc_def Let_def split: if_splits list.splits prod.splits)
qed

lemma refcount_dec_loop_atomic:
  assumes "refcount_dec_loop e attempts = Some (r, stored, c)"
  shows "CRYPTO_refcount_dec_and_test_zero c =
    (case r of None \<Rightarrow> None | Some zero \<Rightarrow> Some (zero, case stored of None \<Rightarrow> c | Some v \<Rightarrow> v))"
  using assms
proof (induction e attempts rule: refcount_dec_loop.induct)
  case (1 e attempts)
  show ?case
    using "1.prems" "1.IH" [OF _ _ refl]
    by (subst (asm) refcount_dec_loop.simps [of e])
      (auto simp: CRYPTO_refcount_dec_and_test_zero_def Let_def split: if_splits list.splits prod.splits)
qed

section \<open>Buffers and pools\<close>

record crypto_buffer =
  buf_pool :: ptr
  buf_data :: bytes
  references :: u32
  data_is_static :: bool

record buffer_pool =
  bufs :: lhash
  hash_key :: "u64 \<times> u64"

record pool_memory =
  buffers :: "ptr \<Rightarrow> crypto_buffer option"
  pools :: "ptr \<Rightarrow> buffer_pool option"

text \<open>
  The functions of the table read the objects that their arguments point to. They are never called with other
  pointers than those of live buffers: \<open>PoolSteps\<close> shows that the pointers in the table are.
\<close>

definition CRYPTO_BUFFER_hash :: "pool_memory \<Rightarrow> ptr \<Rightarrow> u32" where
  "CRYPTO_BUFFER_hash m p =
     (case buffers m p of
        None \<Rightarrow> 0
      | Some buf \<Rightarrow>
          (case pools m (buf_pool buf) of
             None \<Rightarrow> 0
           | Some pool \<Rightarrow> ucast (SIPHASH_24 (hash_key pool) (buf_data buf))))"

definition CRYPTO_BUFFER_cmp :: "pool_memory \<Rightarrow> ptr \<Rightarrow> ptr \<Rightarrow> int" where
  "CRYPTO_BUFFER_cmp m p q =
     (case (buffers m p, buffers m q) of
        (Some a, Some b) \<Rightarrow>
          if length (buf_data a) \<noteq> length (buf_data b) then 1 else OPENSSL_memcmp (buf_data a) (buf_data b)
      | _ \<Rightarrow> 1)"

text \<open>The wrappers of \<open>DEFINE_LHASH_OF(CRYPTO_BUFFER)\<close>, which call the function at the address they are given;
  here these are the addresses of the two functions.\<close>

definition addr_hash :: ptr where "addr_hash = 1"

definition addr_cmp :: ptr where "addr_cmp = 2"

definition call_hash_func :: "pool_memory \<Rightarrow> hash_helper" where
  "call_hash_func m func p = CRYPTO_BUFFER_hash m p"

definition call_cmp_func :: "pool_memory \<Rightarrow> cmp_helper" where
  "call_cmp_func m func p q = CRYPTO_BUFFER_cmp m p q"

text \<open>The results of allocations are arguments: the address of an object, or 0. \<open>RAND_bytes\<close> gives the key.\<close>

definition CRYPTO_BUFFER_POOL_new :: "heap \<Rightarrow> ptr \<Rightarrow> u64 \<times> u64 \<Rightarrow> pool_memory \<Rightarrow> ptr \<times> pool_memory" where
  "CRYPTO_BUFFER_POOL_new h a key m =
     (if a = 0 then (0, m)
      else case OPENSSL_lh_new h addr_hash addr_cmp of
             None \<Rightarrow> (0, m)
           | Some lh \<Rightarrow> (a, m\<lparr>pools := (pools m)(a \<mapsto> \<lparr>bufs = lh, hash_key = key\<rparr>)\<rparr>))"

definition CRYPTO_BUFFER_POOL_free :: "ptr \<Rightarrow> pool_memory \<Rightarrow> pool_memory" where
  "CRYPTO_BUFFER_POOL_free pool m = (if pool = 0 then m else m\<lparr>pools := (pools m)(pool := None)\<rparr>)"

definition crypto_buffer_free_object :: "ptr \<Rightarrow> pool_memory \<Rightarrow> pool_memory" where
  "crypto_buffer_free_object buf m = m\<lparr>buffers := (buffers m)(buf := None)\<rparr>"

definition set_references :: "ptr \<Rightarrow> (u32 \<Rightarrow> u32) \<Rightarrow> pool_memory \<Rightarrow> pool_memory" where
  "set_references p f m =
     m\<lparr>buffers := (buffers m)(p := map_option (\<lambda>b. b\<lparr>references := f (references b)\<rparr>) (buffers m p))\<rparr>"

text \<open>The buffer in the pool that is equal to the one at \<open>p\<close>; a static buffer does not count one that is not.\<close>

definition pool_duplicate :: "pool_memory \<Rightarrow> buffer_pool \<Rightarrow> ptr \<Rightarrow> bool \<Rightarrow> ptr" where
  "pool_duplicate m pool p is_static =
     (let duplicate = OPENSSL_lh_retrieve (call_hash_func m) (call_cmp_func m) (bufs pool) p
      in if is_static \<and> duplicate \<noteq> 0 \<and> \<not> (case buffers m duplicate of None \<Rightarrow> False | Some d \<Rightarrow> data_is_static d)
         then 0 else duplicate)"

text \<open>
  \<open>crypto_buffer_new\<close> in its parts: the search under the read lock, for which \<open>tmp\<close> is the address of the
  local variable; the allocation of a new buffer; and the insertion under the write lock.
\<close>

definition pool_lookup :: "ptr \<Rightarrow> bytes \<Rightarrow> bool \<Rightarrow> ptr \<Rightarrow> pool_memory \<Rightarrow> ptr \<times> pool_memory" where
  "pool_lookup tmp contents is_static pool m =
     (case pools m pool of
        None \<Rightarrow> (0, m)
      | Some p \<Rightarrow>
          let with_tmp = m\<lparr>buffers := (buffers m)(tmp \<mapsto>
                \<lparr>buf_pool = pool, buf_data = contents, references = 0, data_is_static = False\<rparr>)\<rparr>;
              duplicate = pool_duplicate with_tmp p tmp is_static
          in if duplicate \<noteq> 0 then (duplicate, set_references duplicate CRYPTO_refcount_inc m) else (0, m))"

definition buffer_alloc :: "heap \<Rightarrow> ptr \<Rightarrow> bytes \<Rightarrow> bool \<Rightarrow> ptr \<Rightarrow> pool_memory \<Rightarrow> ptr \<times> pool_memory" where
  "buffer_alloc h a contents is_static pool m =
     (if a = 0 then (0, m)
      else
        let copied = (if is_static then Some contents
                      else case OPENSSL_memdup h contents of
                             None \<Rightarrow> if length contents \<noteq> 0 then None else Some []
                           | Some d \<Rightarrow> Some (take (length contents) d))
        in case copied of
             None \<Rightarrow> (0, m)
           | Some d \<Rightarrow>
               (a, m\<lparr>buffers := (buffers m)(a \<mapsto>
                 \<lparr>buf_pool = pool, buf_data = d, references = 1, data_is_static = is_static\<rparr>)\<rparr>))"

definition pool_insert :: "heap \<Rightarrow> ptr \<Rightarrow> ptr \<Rightarrow> bool \<Rightarrow> ptr \<Rightarrow> pool_memory \<Rightarrow> ptr \<times> pool_memory" where
  "pool_insert h item buf is_static pool m =
     (case pools m pool of
        None \<Rightarrow> (0, m)
      | Some p \<Rightarrow>
          let duplicate = pool_duplicate m p buf is_static
          in if duplicate = 0 then
               (case OPENSSL_lh_insert h item (call_hash_func m) (call_cmp_func m) (bufs p) buf of
                  (inserted, old, lh) \<Rightarrow>
                    let m = m\<lparr>pools := (pools m)(pool \<mapsto> p\<lparr>bufs := lh\<rparr>)\<rparr>
                    in if inserted = 0 then (duplicate, crypto_buffer_free_object buf m) else (buf, m))
             else (duplicate, crypto_buffer_free_object buf (set_references duplicate CRYPTO_refcount_inc m)))"

text \<open>The part after the search, and the whole of it when no other thread intervenes.\<close>

definition buffer_create :: "heap \<Rightarrow> ptr \<Rightarrow> ptr \<Rightarrow> bytes \<Rightarrow> bool \<Rightarrow> ptr \<Rightarrow> pool_memory \<Rightarrow> ptr \<times> pool_memory" where
  "buffer_create h item a contents is_static pool m =
     (case buffer_alloc h a contents is_static pool m of
        (buf, m) \<Rightarrow> if buf = 0 \<or> pool = 0 then (buf, m) else pool_insert h item buf is_static pool m)"

definition crypto_buffer_new :: "heap \<Rightarrow> ptr \<Rightarrow> ptr \<Rightarrow> ptr \<Rightarrow> bytes \<Rightarrow> bool \<Rightarrow> ptr \<Rightarrow> pool_memory \<Rightarrow> ptr \<times> pool_memory" where
  "crypto_buffer_new h item tmp a contents is_static pool m =
     (if pool \<noteq> 0 then
        (case pool_lookup tmp contents is_static pool m of
           (duplicate, m) \<Rightarrow> if duplicate \<noteq> 0 then (duplicate, m) else buffer_create h item a contents is_static pool m)
      else buffer_create h item a contents is_static pool m)"

definition CRYPTO_BUFFER_new :: "heap \<Rightarrow> ptr \<Rightarrow> ptr \<Rightarrow> ptr \<Rightarrow> bytes \<Rightarrow> ptr \<Rightarrow> pool_memory \<Rightarrow> ptr \<times> pool_memory" where
  "CRYPTO_BUFFER_new h item tmp a contents pool m = crypto_buffer_new h item tmp a contents False pool m"

text \<open>A \<open>CBS\<close> is its bytes.\<close>

definition CRYPTO_BUFFER_new_from_CBS :: "heap \<Rightarrow> ptr \<Rightarrow> ptr \<Rightarrow> ptr \<Rightarrow> bytes \<Rightarrow> ptr \<Rightarrow> pool_memory \<Rightarrow> ptr \<times> pool_memory" where
  "CRYPTO_BUFFER_new_from_CBS h item tmp a cbs pool m = CRYPTO_BUFFER_new h item tmp a cbs pool m"

definition CRYPTO_BUFFER_new_from_static_data_unsafe ::
    "heap \<Rightarrow> ptr \<Rightarrow> ptr \<Rightarrow> ptr \<Rightarrow> bytes \<Rightarrow> ptr \<Rightarrow> pool_memory \<Rightarrow> ptr \<times> pool_memory" where
  "CRYPTO_BUFFER_new_from_static_data_unsafe h item tmp a contents pool m =
     crypto_buffer_new h item tmp a contents True pool m"

text \<open>The new buffer has whatever is in the memory that \<open>OPENSSL_malloc\<close> returns; the caller then fills it.\<close>

definition CRYPTO_BUFFER_alloc :: "heap \<Rightarrow> ptr \<Rightarrow> nat \<Rightarrow> pool_memory \<Rightarrow> ptr \<times> pool_memory" where
  "CRYPTO_BUFFER_alloc h a len m =
     (if a = 0 then (0, m)
      else
        let d = OPENSSL_malloc h len
        in if len \<noteq> 0 \<and> d = None then (0, m)
           else (a, m\<lparr>buffers := (buffers m)(a \<mapsto>
                  \<lparr>buf_pool = 0, buf_data = (case d of None \<Rightarrow> [] | Some d \<Rightarrow> take len d), references = 1, data_is_static = False\<rparr>)\<rparr>))"

text \<open>\<open>None\<close> is \<open>abort\<close>, or the use of a buffer or pool that does not exist.\<close>

definition CRYPTO_BUFFER_free :: "heap \<Rightarrow> ptr \<Rightarrow> pool_memory \<Rightarrow> pool_memory option" where
  "CRYPTO_BUFFER_free h buf m =
     (if buf = 0 then Some m
      else case buffers m buf of
             None \<Rightarrow> None
           | Some b \<Rightarrow>
               (case CRYPTO_refcount_dec_and_test_zero (references b) of
                  None \<Rightarrow> None
                | Some (zero, refs) \<Rightarrow>
                    let m = set_references buf (\<lambda>_. refs) m
                    in if buf_pool b = 0 then
                         Some (if zero then crypto_buffer_free_object buf m else m)
                       else
                         (case pools m (buf_pool b) of
                            None \<Rightarrow> None
                          | Some p \<Rightarrow>
                              if \<not> zero then Some m
                              else
                                let found = OPENSSL_lh_retrieve (call_hash_func m) (call_cmp_func m) (bufs p) buf;
                                    m = (if found = buf then
                                           m\<lparr>pools := (pools m)(buf_pool b \<mapsto>
                                             p\<lparr>bufs := snd (OPENSSL_lh_delete h (call_hash_func m) (call_cmp_func m) (bufs p) buf)\<rparr>)\<rparr>
                                         else m)
                                in Some (crypto_buffer_free_object buf m))))"

definition CRYPTO_BUFFER_up_ref :: "ptr \<Rightarrow> pool_memory \<Rightarrow> nat \<times> pool_memory" where
  "CRYPTO_BUFFER_up_ref buf m = (1, set_references buf CRYPTO_refcount_inc m)"

definition CRYPTO_BUFFER_data :: "pool_memory \<Rightarrow> ptr \<Rightarrow> bytes option" where
  "CRYPTO_BUFFER_data m buf = map_option buf_data (buffers m buf)"

definition CRYPTO_BUFFER_len :: "pool_memory \<Rightarrow> ptr \<Rightarrow> nat option" where
  "CRYPTO_BUFFER_len m buf = map_option (length \<circ> buf_data) (buffers m buf)"

definition CRYPTO_BUFFER_init_CBS :: "pool_memory \<Rightarrow> ptr \<Rightarrow> bytes option" where
  "CRYPTO_BUFFER_init_CBS m buf = map_option buf_data (buffers m buf)"

end
