(* ===== verification/PoolSteps.thy ===== *)
theory PoolSteps
  imports Pool
begin

text \<open>
  Buffers and pools under concurrency. A state is the memory and the references that callers hold; a step is one
  of the parts of an operation that runs under a lock, for some caller. The invariant \<open>pool_ok\<close> holds in
  every reachable state: every reference is to a live buffer and is counted, and the tables hold live
  buffers of their pool, no two with the same contents.
\<close>

definition pool_buffers :: "pool_memory \<Rightarrow> ptr \<Rightarrow> ptr set" where
  "pool_buffers m pool = {p. \<exists>b. buffers m p = Some b \<and> buf_pool b = pool}"

definition buffer_bytes :: "pool_memory \<Rightarrow> ptr \<Rightarrow> bytes" where
  "buffer_bytes m p = (case buffers m p of None \<Rightarrow> [] | Some b \<Rightarrow> buf_data b)"

definition pool_hash :: "(u64 \<times> u64) \<Rightarrow> bytes \<Rightarrow> u32" where
  "pool_hash key bs = ucast (SIPHASH_24 key bs)"

definition table_ok :: "pool_memory \<Rightarrow> ptr \<Rightarrow> buffer_pool \<Rightarrow> bool" where
  "table_ok m P pool \<longleftrightarrow>
     lh_inv addr_hash addr_cmp (pool_buffers m P) (buffer_bytes m) (pool_hash (hash_key pool)) (bufs pool)"

definition counted :: "pool_memory \<Rightarrow> ptr multiset \<Rightarrow> bool" where
  "counted m held \<longleftrightarrow> (\<forall>p b. buffers m p = Some b \<longrightarrow>
     references b = CRYPTO_REFCOUNT_MAX \<or> (0 < count held p \<and> unat (references b) = count held p))"

definition pool_ok :: "pool_memory \<Rightarrow> ptr multiset \<Rightarrow> bool" where
  "pool_ok m held \<longleftrightarrow> (\<forall>P pool. pools m P = Some pool \<longrightarrow> table_ok m P pool)
    \<and> counted m held \<and> (\<forall>p \<in># held. buffers m p \<noteq> None)
    \<and> (\<forall>p b. buffers m p = Some b \<longrightarrow> buf_pool b \<noteq> 0 \<longrightarrow> pools m (buf_pool b) \<noteq> None)
    \<and> buffers m 0 = None \<and> pools m 0 = None"

section \<open>The functions of the table\<close>

lemma OPENSSL_memcmp_zero: "length xs = length ys \<Longrightarrow> OPENSSL_memcmp xs ys = 0 \<longleftrightarrow> xs = ys"
  by (induction xs ys rule: OPENSSL_memcmp.induct) auto

text \<open>On the buffers of one pool they are compatible: buffers are equal when their contents are.\<close>

interpretation pool_table: lhash_functions "call_hash_func m" "call_cmp_func m" addr_hash addr_cmp
    "if pools m P = Some pool then pool_buffers m P else {}" "buffer_bytes m" "pool_hash (hash_key pool)"
  for m P pool
proof unfold_locales
  fix p q assume p: "p \<in> (if pools m P = Some pool then pool_buffers m P else {})"
  then show "call_hash_func m addr_hash p = pool_hash (hash_key pool) (buffer_bytes m p)"
    by (auto simp: call_hash_func_def CRYPTO_BUFFER_hash_def pool_hash_def buffer_bytes_def pool_buffers_def split: if_splits)
  assume "q \<in> (if pools m P = Some pool then pool_buffers m P else {})"
  with p show "call_cmp_func m addr_cmp p q = 0 \<longleftrightarrow> buffer_bytes m p = buffer_bytes m q"
    by (auto simp: call_cmp_func_def CRYPTO_BUFFER_cmp_def buffer_bytes_def pool_buffers_def OPENSSL_memcmp_zero split: if_splits)
qed

section \<open>The steps\<close>

inductive pool_step :: "pool_memory \<times> ptr multiset \<Rightarrow> pool_memory \<times> ptr multiset \<Rightarrow> bool" where
  new_pool: "pools m a = None \<Longrightarrow> CRYPTO_BUFFER_POOL_new h a key m = (r, m') \<Longrightarrow> pool_step (m, held) (m', held)"
| free_pool: "pool_buffers m P = {} \<Longrightarrow> pool_step (m, held) (CRYPTO_BUFFER_POOL_free P m, held)"
| lookup: "pools m P \<noteq> None \<Longrightarrow> buffers m tmp = None \<Longrightarrow> pool_lookup tmp contents is_static P m = (p, m')
    \<Longrightarrow> pool_step (m, held) (m', if p = 0 then held else add_mset p held)"
| create: "P = 0 \<or> (\<exists>pool. pools m P = Some pool \<and> item \<notin> iaddr ` set (lh_items (bufs pool))) \<Longrightarrow> buffers m a = None
    \<Longrightarrow> heap_ok h \<Longrightarrow> buffer_create h item a contents is_static P m = (p, m')
    \<Longrightarrow> pool_step (m, held) (m', if p = 0 then held else add_mset p held)"
| alloc: "buffers m a = None \<Longrightarrow> CRYPTO_BUFFER_alloc h a len m = (p, m')
    \<Longrightarrow> pool_step (m, held) (m', if p = 0 then held else add_mset p held)"
| up_ref: "p \<in># held \<Longrightarrow> CRYPTO_BUFFER_up_ref p m = (r, m') \<Longrightarrow> pool_step (m, held) (m', add_mset p held)"
| free: "p \<in># held \<Longrightarrow> CRYPTO_BUFFER_free h p m = Some m' \<Longrightarrow> pool_step (m, held) (m', held - {#p#})"

definition no_pools :: "pool_memory" where
  "no_pools = \<lparr>buffers = (\<lambda>_. None), pools = (\<lambda>_. None)\<rparr>"

inductive pool_reachable :: "pool_memory \<times> ptr multiset \<Rightarrow> bool" where
  start: "pool_reachable (no_pools, {#})"
| step: "pool_reachable s \<Longrightarrow> pool_step s t \<Longrightarrow> pool_reachable t"

section \<open>Every kind of step keeps the invariant\<close>

lemma pool_ok_start: "pool_ok no_pools {#}"
  by (simp add: pool_ok_def no_pools_def counted_def)

text \<open>A table does not notice changes of other things than the contents and pools of its buffers.\<close>

lemma table_ok_cong:
  assumes "table_ok m P pool"
    "\<And>p b. buffers m p = Some b \<Longrightarrow> buf_pool b = P \<Longrightarrow> p \<in> idata ` set (lh_items (bufs pool)) \<Longrightarrow>
      \<exists>b'. buffers m' p = Some b' \<and> buf_pool b' = P \<and> buf_data b' = buf_data b"
  shows "table_ok m' P pool"
    and "lh_map (buffer_bytes m') (bufs pool) = lh_map (buffer_bytes m) (bufs pool)"
proof -
  have inv: "lh_inv addr_hash addr_cmp (pool_buffers m P) (buffer_bytes m) (pool_hash (hash_key pool)) (bufs pool)"
    using assms(1) by (simp add: table_ok_def)
  have same: "p \<in> pool_buffers m' P \<and> buffer_bytes m' p = buffer_bytes m p" if "p \<in> idata ` set (lh_items (bufs pool))" for p
  proof -
    have "p \<in> pool_buffers m P" using inv that by (auto simp: lh_inv_def lh_keyed_def)
    then show ?thesis using assms(2) [OF _ _ that] by (fastforce simp: pool_buffers_def buffer_bytes_def)
  qed
  show "table_ok m' P pool" using lh_inv_cong(1) [OF inv same] by (simp add: table_ok_def)
  show "lh_map (buffer_bytes m') (bufs pool) = lh_map (buffer_bytes m) (bufs pool)"
    by (rule lh_inv_cong(2) [OF inv same])
qed

lemma lh_map_ran:
  assumes "lh_keyed D key khash lh"
  shows "idata ` set (lh_items lh) = ran (lh_map key lh)"
  by (auto simp: ran_def lh_map_eq [OF assms])

lemma pool_okD:
  assumes "pool_ok m held"
  shows "pools m P = Some pool \<Longrightarrow> table_ok m P pool" "p \<in># held \<Longrightarrow> buffers m p \<noteq> None"
    "buffers m p = Some b \<Longrightarrow> references b \<noteq> CRYPTO_REFCOUNT_MAX \<Longrightarrow> 0 < count held p \<and> unat (references b) = count held p"
    "buffers m p = Some b \<Longrightarrow> buf_pool b \<noteq> 0 \<Longrightarrow> pools m (buf_pool b) \<noteq> None" "buffers m 0 = None" "pools m 0 = None"
    "buffers m p = None \<Longrightarrow> count held p = 0"
  using assms by (auto simp: pool_ok_def counted_def count_eq_zero_iff)

text \<open>What the table holds.\<close>

lemma table_entry:
  assumes "table_ok m P pool" "lh_map (buffer_bytes m) (bufs pool) bs = Some q"
  shows "q \<in> pool_buffers m P" "buffer_bytes m q = bs" "q \<in> idata ` set (lh_items (bufs pool))"
proof -
  have keyed: "lh_keyed (pool_buffers m P) (buffer_bytes m) (pool_hash (hash_key pool)) (bufs pool)"
    using assms(1) by (simp add: table_ok_def lh_inv_def)
  show "q \<in> pool_buffers m P" "buffer_bytes m q = bs" "q \<in> idata ` set (lh_items (bufs pool))"
    using assms(2) keyed by (auto simp: lh_map_eq [OF keyed] lh_keyed_def)
qed

lemma table_retrieve:
  assumes "pools m P = Some pool" "table_ok m P pool" "p \<in> pool_buffers m P"
  shows "OPENSSL_lh_retrieve (call_hash_func m) (call_cmp_func m) (bufs pool) p
    = (case lh_map (buffer_bytes m) (bufs pool) (buffer_bytes m p) of None \<Rightarrow> 0 | Some q \<Rightarrow> q)"
  using pool_table.retrieve_map [of m P pool "bufs pool" p] assms by (simp add: table_ok_def)

text \<open>A duplicate is a buffer of the pool with the same contents.\<close>

lemma pool_duplicate_found:
  assumes "pools m P = Some pool" "table_ok m P pool" "p \<in> pool_buffers m P" "pool_duplicate m pool p is_static \<noteq> 0"
  shows "lh_map (buffer_bytes m) (bufs pool) (buffer_bytes m p) = Some (pool_duplicate m pool p is_static)"
  using assms(4) unfolding pool_duplicate_def table_retrieve [OF assms(1-3)]
  by (auto simp: Let_def split: option.splits if_splits)

lemma buffers_only [simp]:
  "buffer_bytes (m\<lparr>pools := f\<rparr>) = buffer_bytes m" "pool_buffers (m\<lparr>pools := f\<rparr>) = pool_buffers m"
  "table_ok (m\<lparr>pools := f\<rparr>) P pool \<longleftrightarrow> table_ok m P pool"
proof -
  show eq: "buffer_bytes (m\<lparr>pools := f\<rparr>) = buffer_bytes m" "pool_buffers (m\<lparr>pools := f\<rparr>) = pool_buffers m"
    by (auto simp: fun_eq_iff buffer_bytes_def pool_buffers_def)
  show "table_ok (m\<lparr>pools := f\<rparr>) P pool \<longleftrightarrow> table_ok m P pool" by (simp only: table_ok_def eq)
qed

lemma pool_ok_replace_table:
  assumes "pool_ok m held" "pools m P = Some pool" "table_ok m P pool'"
  shows "pool_ok (m\<lparr>pools := (pools m)(P \<mapsto> pool')\<rparr>) held"
  using assms by (auto simp: pool_ok_def counted_def)

lemma table_member:
  assumes "table_ok m P pool" "p \<in> idata ` set (lh_items (bufs pool))"
  shows "lh_map (buffer_bytes m) (bufs pool) (buffer_bytes m p) = Some p"
  using assms lh_map_eq [of "pool_buffers m P" "buffer_bytes m" "pool_hash (hash_key pool)" "bufs pool"]
  by (auto simp: table_ok_def lh_inv_def)

text \<open>The buffer that a pool has for some contents.\<close>

definition pool_entry :: "pool_memory \<Rightarrow> ptr \<Rightarrow> bytes \<Rightarrow> ptr option" where
  "pool_entry m P bs = (case pools m P of None \<Rightarrow> None | Some pool \<Rightarrow> lh_map (buffer_bytes m) (bufs pool) bs)"

section \<open>One more reference\<close>

lemma unat_refcount_inc: "c \<noteq> CRYPTO_REFCOUNT_MAX \<Longrightarrow> unat (c + 1) = unat c + 1"
proof -
  assume "c \<noteq> CRYPTO_REFCOUNT_MAX"
  then have "unat c \<noteq> 4294967295" by (simp add: CRYPTO_REFCOUNT_MAX_def word_unat_eq_iff)
  moreover have "unat c < 4294967296" using unsigned_less [of c] by simp
  ultimately have "unat c + 1 < 4294967296" by linarith
  then show "unat (c + 1) = unat c + 1" by (simp add: unat_word_ariths)
qed

lemma set_references_simps [simp]:
  "pools (set_references p f m) = pools m"
  "buffers (set_references p f m) q = (if q = p then map_option (\<lambda>b. b\<lparr>references := f (references b)\<rparr>) (buffers m p) else buffers m q)"
  by (simp_all add: set_references_def)

lemma buffer_bytes_references [simp]: "buffer_bytes (set_references p f m) = buffer_bytes m"
  by (auto simp: fun_eq_iff buffer_bytes_def split: option.split)

lemma pool_entry_references [simp]: "pool_entry (set_references p f m) = pool_entry m"
  by (simp add: fun_eq_iff pool_entry_def split: option.split)

lemma table_ok_references: "table_ok m P pool \<Longrightarrow> table_ok (set_references p f m) P pool"
  by (rule table_ok_cong(1)) auto

lemma pool_ok_reference:
  assumes "pool_ok m held" "buffers m p = Some b"
  shows "pool_ok (set_references p CRYPTO_refcount_inc m) (add_mset p held)"
proof -
  have "counted (set_references p CRYPTO_refcount_inc m) (add_mset p held)"
    using assms by (auto simp: pool_ok_def counted_def CRYPTO_refcount_inc_def unat_refcount_inc split: if_splits)
  then show ?thesis
    using assms table_ok_references by (auto simp: pool_ok_def split: if_splits)
qed

lemma pool_ok_lookup:
  assumes "pool_ok m held" "buffers m tmp = None" "pool_lookup tmp contents is_static P m = (p, m')" "p \<noteq> 0"
  shows "\<exists>b. buffers m p = Some b \<and> buf_data b = contents \<and> buf_pool b = P \<and> m' = set_references p CRYPTO_refcount_inc m"
proof -
  obtain pool where pool: "pools m P = Some pool"
    using assms(3,4) by (auto simp: pool_lookup_def split: option.splits)
  define mt where "mt = m\<lparr>buffers := (buffers m)(tmp \<mapsto>
      \<lparr>buf_pool = P, buf_data = contents, references = 0, data_is_static = False\<rparr>)\<rparr>"
  have ok: "table_ok m P pool" using assms(1) pool by (rule pool_okD)
  have tmp: "tmp \<in> pool_buffers mt P" "buffer_bytes mt tmp = contents" "pools mt P = Some pool"
    using pool by (simp_all add: mt_def pool_buffers_def buffer_bytes_def)
  have okt: "table_ok mt P pool"
    using ok by (rule table_ok_cong(1)) (use assms(2) in \<open>auto simp: mt_def\<close>)
  have p: "p = pool_duplicate mt pool tmp is_static" "m' = set_references p CRYPTO_refcount_inc m"
    using assms(3,4) pool by (auto simp: pool_lookup_def mt_def [symmetric] Let_def split: if_splits)
  then have "lh_map (buffer_bytes mt) (bufs pool) contents = Some p"
    using pool_duplicate_found [OF tmp(3) okt tmp(1), of is_static] assms(4) tmp(2) by simp
  moreover have "lh_map (buffer_bytes mt) (bufs pool) = lh_map (buffer_bytes m) (bufs pool)"
    using ok by (rule table_ok_cong(2)) (use assms(2) in \<open>auto simp: mt_def\<close>)
  ultimately show ?thesis
    using table_entry [OF ok, of contents p] assms(2) p(2) by (auto simp: pool_buffers_def buffer_bytes_def)
qed

text \<open>The search of a buffer that need not be static.\<close>

lemma pool_lookup_entry:
  assumes "pool_ok m held" "buffers m tmp = None"
  shows "pool_lookup tmp contents False P m =
    (case pool_entry m P contents of None \<Rightarrow> (0, m) | Some p \<Rightarrow> (p, set_references p CRYPTO_refcount_inc m))"
proof (cases "pools m P")
  case (Some pool)
  define mt where "mt = m\<lparr>buffers := (buffers m)(tmp \<mapsto>
      \<lparr>buf_pool = P, buf_data = contents, references = 0, data_is_static = False\<rparr>)\<rparr>"
  have ok: "table_ok m P pool" using assms(1) Some by (rule pool_okD)
  have tmp: "tmp \<in> pool_buffers mt P" "buffer_bytes mt tmp = contents" "pools mt P = Some pool"
    using Some by (simp_all add: mt_def pool_buffers_def buffer_bytes_def)
  have okt: "table_ok mt P pool"
    using ok by (rule table_ok_cong(1)) (use assms(2) in \<open>auto simp: mt_def\<close>)
  have "lh_map (buffer_bytes mt) (bufs pool) = lh_map (buffer_bytes m) (bufs pool)"
    using ok by (rule table_ok_cong(2)) (use assms(2) in \<open>auto simp: mt_def\<close>)
  then have d: "pool_duplicate mt pool tmp False = (case pool_entry m P contents of None \<Rightarrow> 0 | Some p \<Rightarrow> p)"
    using table_retrieve [OF tmp(3) okt tmp(1)] tmp(2) Some by (simp add: pool_duplicate_def pool_entry_def)
  have "p \<noteq> 0" if "pool_entry m P contents = Some p" for p
    using table_entry(1) [OF ok, of contents p] that Some pool_okD(5) [OF assms(1)]
    by (auto simp: pool_entry_def pool_buffers_def)
  then show ?thesis using Some d by (auto simp: pool_lookup_def mt_def [symmetric] Let_def split: option.splits)
qed (simp add: pool_lookup_def pool_entry_def)

section \<open>A new buffer\<close>

lemma pool_ok_add:
  assumes "pool_ok m held" "buffers m a = None" "a \<noteq> 0" "references b = 1" "buf_pool b = 0 \<or> pools m (buf_pool b) \<noteq> None"
  shows "pool_ok (m\<lparr>buffers := (buffers m)(a \<mapsto> b)\<rparr>) (add_mset a held)"
proof -
  have "table_ok (m\<lparr>buffers := (buffers m)(a \<mapsto> b)\<rparr>) P pool" if "pools m P = Some pool" for P pool
    using pool_okD(1) [OF assms(1) that] by (rule table_ok_cong(1)) (use assms(2) in auto)
  moreover have "counted (m\<lparr>buffers := (buffers m)(a \<mapsto> b)\<rparr>) (add_mset a held)"
    using assms by (auto simp: pool_ok_def counted_def count_eq_zero_iff)
  ultimately show ?thesis using assms by (auto simp: pool_ok_def)
qed

text \<open>The allocation, with a heap whose blocks have the size asked for.\<close>

lemma buffer_alloc_new:
  assumes "buffer_alloc h a contents is_static P m = (p, m')" "heap_ok h"
  shows "p = 0 \<and> m' = m \<or> p = a \<and> a \<noteq> 0 \<and> m' = m\<lparr>buffers := (buffers m)(a \<mapsto>
    \<lparr>buf_pool = P, buf_data = contents, references = 1, data_is_static = is_static\<rparr>)\<rparr>"
  using assms by (auto simp: buffer_alloc_def OPENSSL_memdup_def Let_def split: if_splits option.splits)

text \<open>The insertion of a buffer \<open>a\<close> that nobody else knows yet.\<close>

lemma pool_ok_insert:
  assumes ok: "pool_ok m held" and a: "buffers m a = None" "a \<noteq> 0" and pool: "pools m P = Some pool" "P \<noteq> 0"
    and item: "item \<notin> iaddr ` set (lh_items (bufs pool))"
    and b: "b = \<lparr>buf_pool = P, buf_data = contents, references = 1, data_is_static = is_static\<rparr>"
    and m1: "m1 = m\<lparr>buffers := (buffers m)(a \<mapsto> b)\<rparr>"
    and insert: "pool_insert h item a is_static P m1 = (p, m')"
  shows "pool_ok m' (if p = 0 then held else add_mset p held)"
    and "p \<noteq> 0 \<Longrightarrow> pool_entry m' P contents = Some p"
proof -
  have pool1: "pools m1 P = Some pool" using pool by (simp add: m1)
  have table: "table_ok m P pool" using ok pool(1) by (rule pool_okD)
  have unchanged: "\<exists>b'. buffers m1 q = Some b' \<and> buf_pool b' = buf_pool c \<and> buf_data b' = buf_data c"
    if "buffers m q = Some c" for q c using that a by (auto simp: m1)
  have table1: "table_ok m1 Q pool'" if "table_ok m Q pool'" for Q pool'
    using that by (rule table_ok_cong(1)) (use unchanged in auto)
  have map1: "lh_map (buffer_bytes m1) (bufs pool) = lh_map (buffer_bytes m) (bufs pool)"
    using table by (rule table_ok_cong(2)) (use unchanged in auto)
  have a1: "a \<in> pool_buffers m1 P" "buffer_bytes m1 a = contents" by (simp_all add: m1 b pool_buffers_def buffer_bytes_def)
  let ?d = "pool_duplicate m1 pool a is_static"
  have "pool_ok m' (if p = 0 then held else add_mset p held)
    \<and> (p \<noteq> 0 \<longrightarrow> pool_entry m' P contents = Some p)"
  proof (cases "?d = 0")
    case False
    have entry: "lh_map (buffer_bytes m) (bufs pool) contents = Some ?d"
      using pool_duplicate_found [OF pool1 table1 [OF table] a1(1) False] a1(2) map1 by simp
    from table_entry [OF table this] obtain c where c: "buffers m ?d = Some c" "buf_data c = contents" "buf_pool c = P"
      by (auto simp: pool_buffers_def buffer_bytes_def)
    then have "?d \<noteq> a" using a by auto
    moreover have "(buffers m)(a := None) = buffers m" using a(1) by (simp add: fun_upd_idem)
    ultimately have "crypto_buffer_free_object a (set_references ?d CRYPTO_refcount_inc m1) = set_references ?d CRYPTO_refcount_inc m"
      using a by (auto simp: crypto_buffer_free_object_def set_references_def m1 fun_upd_twist)
    then have "p = ?d" "m' = set_references ?d CRYPTO_refcount_inc m"
      using insert pool1 False by (auto simp: pool_insert_def Let_def)
    then show ?thesis using pool_ok_reference [OF ok c(1)] False entry pool by (simp add: pool_entry_def)
  next
    case True
    obtain t where t: "lh_inv addr_hash addr_cmp (pool_buffers m1 P) (buffer_bytes m1) (pool_hash (hash_key pool)) t"
      "OPENSSL_lh_insert h item (call_hash_func m1) (call_cmp_func m1) (bufs pool) a
        = (case lh_map (buffer_bytes m1) (bufs pool) (buffer_bytes m1 a) of
             Some old \<Rightarrow> (1, old, t) | None \<Rightarrow> (if item = 0 then 0 else 1, 0, t))"
      "lh_map (buffer_bytes m1) t = (if lh_map (buffer_bytes m1) (bufs pool) (buffer_bytes m1 a) = None \<and> item = 0
        then lh_map (buffer_bytes m1) (bufs pool) else (lh_map (buffer_bytes m1) (bufs pool))(buffer_bytes m1 a \<mapsto> a))"
      using pool_table.insert_map [of m1 P pool "bufs pool" a item h] table1 [OF table] pool1 a1(1) item
      unfolding table_ok_def by auto
    have tab: "table_ok m1 P (pool\<lparr>bufs := t\<rparr>)" using t(1) by (simp add: table_ok_def)
    show ?thesis
    proof (cases "lh_map (buffer_bytes m1) (bufs pool) contents = None \<and> item = 0")
      case fail: True
      have "table_ok m P (pool\<lparr>bufs := t\<rparr>)"
        using tab
      proof (rule table_ok_cong(1))
        fix q c assume "buffers m1 q = Some c" "buf_pool c = P" "q \<in> idata ` set (lh_items (bufs (pool\<lparr>bufs := t\<rparr>)))"
        moreover have "lh_map (buffer_bytes m1) t = lh_map (buffer_bytes m) (bufs pool)"
          using t(3) fail a1(2) map1 by simp
        ultimately have "q \<in> ran (lh_map (buffer_bytes m) (bufs pool))"
          using t(1) lh_map_ran [of "pool_buffers m1 P" "buffer_bytes m1" "pool_hash (hash_key pool)" t]
          by (simp add: lh_inv_def)
        then have "q \<in> pool_buffers m P" using table_entry(1) [OF table] by (auto simp: ran_def)
        then have "buffers m q \<noteq> None" by (auto simp: pool_buffers_def)
        then have "buffers m q = buffers m1 q" using a by (auto simp: m1)
        then show "\<exists>b'. buffers m q = Some b' \<and> buf_pool b' = P \<and> buf_data b' = buf_data c"
          using \<open>buffers m1 q = Some c\<close> \<open>buf_pool c = P\<close> by simp
      qed
      then have "pool_ok (m\<lparr>pools := (pools m)(P \<mapsto> pool\<lparr>bufs := t\<rparr>)\<rparr>) held"
        by (rule pool_ok_replace_table [OF ok pool(1)])
      moreover have gone: "m\<lparr>pools := f, buffers := (buffers m)(a := None)\<rparr> = m\<lparr>pools := f\<rparr>" for f
        using a(1) by (cases m) (simp add: fun_upd_idem)
      moreover have "p = 0" "m' = m\<lparr>pools := (pools m)(P \<mapsto> pool\<lparr>bufs := t\<rparr>)\<rparr>"
        using insert pool1 True t(2) fail a1(2) a
        by (auto simp: pool_insert_def Let_def crypto_buffer_free_object_def m1 gone)
      ultimately show ?thesis by simp
    next
      case False
      have "pool_ok m1 (add_mset a held)" unfolding m1 using ok a by (rule pool_ok_add) (use pool in \<open>auto simp: b\<close>)
      then have "pool_ok (m1\<lparr>pools := (pools m1)(P \<mapsto> pool\<lparr>bufs := t\<rparr>)\<rparr>) (add_mset a held)"
        by (rule pool_ok_replace_table [OF _ pool1 tab])
      moreover have "p = a" "m' = m1\<lparr>pools := (pools m1)(P \<mapsto> pool\<lparr>bufs := t\<rparr>)\<rparr>"
        using insert pool1 True t(2) False a1(2) by (auto simp: pool_insert_def Let_def split: option.splits if_splits)
      ultimately show ?thesis using a t(3) False a1(2) by (auto simp: pool_entry_def)
    qed
  qed
  then show "pool_ok m' (if p = 0 then held else add_mset p held)"
    and "p \<noteq> 0 \<Longrightarrow> pool_entry m' P contents = Some p"
    by auto
qed

text \<open>Creating a buffer, without a pool or in one.\<close>

lemma pool_ok_create:
  assumes ok: "pool_ok m held" and a: "buffers m a = None" and h: "heap_ok h"
    and pool: "P = 0 \<or> (\<exists>pool. pools m P = Some pool \<and> item \<notin> iaddr ` set (lh_items (bufs pool)))"
    and create: "buffer_create h item a contents is_static P m = (p, m')"
  shows "pool_ok m' (if p = 0 then held else add_mset p held)"
    "p \<noteq> 0 \<Longrightarrow> P \<noteq> 0 \<Longrightarrow> pool_entry m' P contents = Some p"
proof -
  obtain q m1 where q: "buffer_alloc h a contents is_static P m = (q, m1)" by fastforce
  let ?b = "\<lparr>buf_pool = P, buf_data = contents, references = 1, data_is_static = is_static\<rparr>"
  have "pool_ok m' (if p = 0 then held else add_mset p held)
    \<and> (p \<noteq> 0 \<longrightarrow> P \<noteq> 0 \<longrightarrow> pool_entry m' P contents = Some p)"
  proof (cases "q = 0")
    case True
    then show ?thesis using buffer_alloc_new [OF q h] create q ok by (auto simp: buffer_create_def)
  next
    case False
    then have m1: "q = a" "a \<noteq> 0" "m1 = m\<lparr>buffers := (buffers m)(a \<mapsto> ?b)\<rparr>"
      using buffer_alloc_new [OF q h] by auto
    show ?thesis
    proof (cases "P = 0")
      case True
      then have "p = a" "m' = m1" using create q False m1(1) by (simp_all add: buffer_create_def)
      then show ?thesis using pool_ok_add [OF ok a m1(2), of ?b] True m1 by simp
    next
      case P: False
      then obtain pool' where pool': "pools m P = Some pool'" "item \<notin> iaddr ` set (lh_items (bufs pool'))"
        using pool by auto
      have "pool_insert h item a is_static P m1 = (p, m')"
        using create q False m1(1) P by (simp add: buffer_create_def)
      then show ?thesis using pool_ok_insert [OF ok a m1(2) pool'(1) P pool'(2) refl m1(3)] by blast
    qed
  qed
  then show "pool_ok m' (if p = 0 then held else add_mset p held)"
    "p \<noteq> 0 \<Longrightarrow> P \<noteq> 0 \<Longrightarrow> pool_entry m' P contents = Some p" by auto
qed

section \<open>One reference less\<close>

lemma unat_refcount_dec: "(c :: u32) \<noteq> 0 \<Longrightarrow> unat (c - 1) = unat c - 1"
  by (simp add: unat_minus_one)

text \<open>Giving back a reference of several, or one that was not counted any more.\<close>

lemma pool_ok_release:
  assumes "pool_ok m held" "buffers m p = Some b" "p \<in># held"
    "CRYPTO_refcount_dec_and_test_zero (references b) = Some (False, refs)"
  shows "pool_ok (set_references p (\<lambda>_. refs) m) (held - {#p#})"
proof -
  have "counted (set_references p (\<lambda>_. refs) m) (held - {#p#})"
  proof (cases "references b = CRYPTO_REFCOUNT_MAX")
    case True
    then have "refs = CRYPTO_REFCOUNT_MAX"
      using assms(4) by (simp add: CRYPTO_refcount_dec_and_test_zero_def split: if_splits)
    then show ?thesis using assms(1,2) by (auto simp: pool_ok_def counted_def)
  next
    case False
    then have "refs = references b - 1" "refs \<noteq> 0" "references b \<noteq> 0"
      using assms(4) by (auto simp: CRYPTO_refcount_dec_and_test_zero_def split: if_splits)
    moreover have "unat (references b) = count held p" using pool_okD(3) [OF assms(1,2) False] by simp
    ultimately have "unat refs = count (held - {#p#}) p" by (simp add: unat_refcount_dec)
    moreover have "0 < unat refs" using \<open>refs \<noteq> 0\<close> by (simp add: unat_gt_0)
    ultimately show ?thesis using assms(1,2) by (auto simp: pool_ok_def counted_def)
  qed
  then show ?thesis
    using assms(1,2) table_ok_references by (auto simp: pool_ok_def dest: in_diffD split: if_splits)
qed

text \<open>Giving back the last one.\<close>

lemma last_reference:
  assumes "pool_ok m held" "buffers m p = Some b" "CRYPTO_refcount_dec_and_test_zero (references b) = Some (True, refs)"
  shows "refs = 0" "count held p = 1"
proof -
  have r: "refs = references b - 1" "refs = 0" "references b \<noteq> CRYPTO_REFCOUNT_MAX" "references b \<noteq> 0"
    using assms(3) by (auto simp: CRYPTO_refcount_dec_and_test_zero_def split: if_splits)
  then show "refs = 0" by simp
  have "references b = 1" using r by simp
  then show "count held p = 1" using pool_okD(3) [OF assms(1,2) r(3)] by simp
qed

lemma pool_ok_remove:
  assumes "pool_ok m held" "count held p = 1" "buffers m p = Some b"
    "\<And>pool. pools m (buf_pool b) = Some pool \<Longrightarrow> p \<notin> idata ` set (lh_items (bufs pool))"
  shows "pool_ok (crypto_buffer_free_object p m) (held - {#p#})"
proof -
  have "table_ok (crypto_buffer_free_object p m) P pool" if "pools m P = Some pool" for P pool
    using pool_okD(1) [OF assms(1) that]
    by (rule table_ok_cong(1)) (use that assms(3,4) in \<open>auto simp: crypto_buffer_free_object_def\<close>)
  moreover have "counted (crypto_buffer_free_object p m) (held - {#p#})"
    using assms(1) by (auto simp: pool_ok_def counted_def crypto_buffer_free_object_def)
  moreover have "p \<notin># held - {#p#}" using assms(2) by (simp add: not_in_iff)
  ultimately show ?thesis
    using assms(1) by (auto simp: pool_ok_def crypto_buffer_free_object_def dest: in_diffD)
qed

text \<open>Freeing a held reference does not abort, uses nothing that does not exist, and keeps the invariant.\<close>

lemma pool_ok_free:
  assumes ok: "pool_ok m held" and held: "p \<in># held"
  obtains m' where "CRYPTO_BUFFER_free h p m = Some m'" "pool_ok m' (held - {#p#})"
    "\<And>q. q \<in># held - {#p#} \<Longrightarrow> CRYPTO_BUFFER_data m' q = CRYPTO_BUFFER_data m q"
proof -
  obtain b where b: "buffers m p = Some b" using pool_okD(2) [OF ok held] by auto
  have p: "p \<noteq> 0" using b pool_okD(5) [OF ok] by auto
  have "references b \<noteq> 0"
  proof
    assume zero: "references b = 0"
    then have "references b \<noteq> CRYPTO_REFCOUNT_MAX" by (simp add: CRYPTO_REFCOUNT_MAX_def)
    from pool_okD(3) [OF ok b this] zero show False by (metis less_irrefl unsigned_0)
  qed
  then obtain zero refs where dec: "CRYPTO_refcount_dec_and_test_zero (references b) = Some (zero, refs)"
    by (cases "CRYPTO_refcount_dec_and_test_zero (references b)") (auto simp: CRYPTO_refcount_dec_and_test_zero_def split: if_splits)
  let ?m = "set_references p (\<lambda>_. refs) m"
  have live: "buf_pool b = 0 \<or> (\<exists>pool. pools m (buf_pool b) = Some pool)" using pool_okD(4) [OF ok b] by auto
  have kept: "CRYPTO_BUFFER_data ?m q = CRYPTO_BUFFER_data m q" for q
    by (simp add: CRYPTO_BUFFER_data_def option.map_comp comp_def)
  show ?thesis
  proof (cases zero)
    case False
    then have "CRYPTO_BUFFER_free h p m = Some ?m"
      using b p dec live by (auto simp: CRYPTO_BUFFER_free_def Let_def)
    then show ?thesis using that [of ?m] pool_ok_release [OF ok b held] dec False kept by simp
  next
    case True
    have one: "count held p = 1" using last_reference [OF ok b] dec True by simp
    then have gone: "p \<notin># held - {#p#}" by (simp add: not_in_iff)
    text \<open>With the reference taken back the count is off by one, but nobody looks at it any more.\<close>
    have m: "crypto_buffer_free_object p ?m = crypto_buffer_free_object p m"
      by (simp add: crypto_buffer_free_object_def set_references_def)
    have m2: "crypto_buffer_free_object p (?m\<lparr>pools := f\<rparr>) = crypto_buffer_free_object p (m\<lparr>pools := f\<rparr>)" for f
      by (simp add: crypto_buffer_free_object_def set_references_def)
    have kept': "CRYPTO_BUFFER_data (crypto_buffer_free_object p n) q = CRYPTO_BUFFER_data m q"
      if "q \<in># held - {#p#}" "buffers n = buffers m" for q n
      using that gone by (auto simp: CRYPTO_BUFFER_data_def crypto_buffer_free_object_def)
    show ?thesis
    proof (cases "buf_pool b = 0")
      case True
      then have "pool_ok (crypto_buffer_free_object p m) (held - {#p#})"
        using pool_ok_remove [OF ok one b] pool_okD(6) [OF ok] by simp
      moreover have "CRYPTO_BUFFER_free h p m = Some (crypto_buffer_free_object p m)"
        using b p dec \<open>zero\<close> True by (simp add: CRYPTO_BUFFER_free_def m)
      ultimately show ?thesis using that kept' [of _ m] by simp
    next
      case False
      then obtain pool where pool: "pools m (buf_pool b) = Some pool" using live by auto
      have table: "table_ok m (buf_pool b) pool" using ok pool by (rule pool_okD)
      then have table': "table_ok ?m (buf_pool b) pool" by (rule table_ok_references)
      have mem: "p \<in> pool_buffers ?m (buf_pool b)" using b by (simp add: pool_buffers_def)
      have pool': "pools ?m (buf_pool b) = Some pool" using pool by simp
      have bytes: "buffer_bytes ?m = buffer_bytes m" by simp
      let ?map = "lh_map (buffer_bytes m) (bufs pool)"
      let ?D = "if pools ?m (buf_pool b) = Some pool then pool_buffers ?m (buf_pool b) else {}"
      have D: "?D = pool_buffers ?m (buf_pool b)" using pool' by simp
      have "lh_inv addr_hash addr_cmp ?D (buffer_bytes ?m) (pool_hash (hash_key pool)) (bufs pool)" "p \<in> ?D"
        using table' mem unfolding D table_ok_def by auto
      then obtain t where del: "lh_inv addr_hash addr_cmp ?D (buffer_bytes ?m) (pool_hash (hash_key pool)) t"
        "OPENSSL_lh_delete h (call_hash_func ?m) (call_cmp_func ?m) (bufs pool) p =
          (case lh_map (buffer_bytes ?m) (bufs pool) (buffer_bytes ?m p) of None \<Rightarrow> 0 | Some p \<Rightarrow> p, t)"
        "lh_map (buffer_bytes ?m) t = (lh_map (buffer_bytes ?m) (bufs pool))(buffer_bytes ?m p := None)"
        by (rule pool_table.delete_map)
      then have t: "lh_inv addr_hash addr_cmp (pool_buffers ?m (buf_pool b)) (buffer_bytes m) (pool_hash (hash_key pool)) t"
        "snd (OPENSSL_lh_delete h (call_hash_func ?m) (call_cmp_func ?m) (bufs pool) p) = t"
        "lh_map (buffer_bytes m) t = ?map(buffer_bytes m p := None)"
        unfolding D bytes by simp_all
      have found: "OPENSSL_lh_retrieve (call_hash_func ?m) (call_cmp_func ?m) (bufs pool) p
          = (case ?map (buffer_bytes m p) of None \<Rightarrow> 0 | Some q \<Rightarrow> q)"
        using table_retrieve [OF pool' table' mem] by (simp add: bytes)
      show ?thesis
      proof (cases "?map (buffer_bytes m p) = Some p")
        case True
        let ?n = "m\<lparr>pools := (pools m)(buf_pool b \<mapsto> pool\<lparr>bufs := t\<rparr>)\<rparr>"
        have "table_ok ?m (buf_pool b) (pool\<lparr>bufs := t\<rparr>)" using t(1) by (simp add: table_ok_def bytes)
        then have tab: "table_ok m (buf_pool b) (pool\<lparr>bufs := t\<rparr>)"
          by (rule table_ok_cong(1)) (auto split: if_splits)
        then have "pool_ok ?n held" by (rule pool_ok_replace_table [OF ok pool])
        moreover have "p \<notin> idata ` set (lh_items t)"
          using table_member [OF tab, of p] t(3) by auto
        ultimately have "pool_ok (crypto_buffer_free_object p ?n) (held - {#p#})"
          using one b by (intro pool_ok_remove) auto
        moreover have "CRYPTO_BUFFER_free h p m = Some (crypto_buffer_free_object p ?n)"
          using p \<open>zero\<close> False by (simp add: CRYPTO_BUFFER_free_def b dec pool found True t(2) m2 Let_def)
        ultimately show ?thesis using that kept' [of _ ?n] by simp
      next
        case other: False
        then have "p \<notin> idata ` set (lh_items (bufs pool))" using table_member [OF table, of p] by blast
        then have "pool_ok (crypto_buffer_free_object p m) (held - {#p#})"
          using pool_ok_remove [OF ok one b] pool by simp
        moreover have "CRYPTO_BUFFER_free h p m = Some (crypto_buffer_free_object p m)"
          using b p dec \<open>zero\<close> False pool found other
          by (auto simp: CRYPTO_BUFFER_free_def Let_def m split: option.splits)
        ultimately show ?thesis using that kept' [of _ m] by simp
      qed
    qed
  qed
qed

section \<open>Every reachable state\<close>

theorem pool_step_ok:
  assumes "pool_step (m, held) (m', held')" "pool_ok m held"
  shows "pool_ok m' held'"
  using assms(1)
proof cases
  case (new_pool a h key r)
  show ?thesis
  proof (cases "m' = m")
    case False
    then obtain lh where lh: "OPENSSL_lh_new h addr_hash addr_cmp = Some lh" "a \<noteq> 0"
      "m' = m\<lparr>pools := (pools m)(a \<mapsto> \<lparr>bufs = lh, hash_key = key\<rparr>)\<rparr>"
      using new_pool by (auto simp: CRYPTO_BUFFER_POOL_new_def split: if_splits option.splits)
    have "table_ok m a \<lparr>bufs = lh, hash_key = key\<rparr>"
      unfolding table_ok_def using OPENSSL_lh_new_empty(1) [OF lh(1)] by simp
    then show ?thesis using assms(2) lh(2,3) new_pool(1) by (auto simp: pool_ok_def counted_def)
  qed (use assms(2) new_pool in simp)
next
  case (free_pool P)
  then show ?thesis
    using assms(2) by (auto simp: pool_ok_def counted_def CRYPTO_BUFFER_POOL_free_def pool_buffers_def)
next
  case (lookup P tmp contents is_static p)
  show ?thesis
  proof (cases "p = 0")
    case True
    then have "m' = m" using lookup pool_okD(5) [OF assms(2)] by (auto simp: pool_lookup_def Let_def split: option.splits if_splits)
    then show ?thesis using assms(2) lookup True by simp
  next
    case False
    from pool_ok_lookup [OF assms(2) lookup(3,4) False] show ?thesis
      using pool_ok_reference [OF assms(2)] False lookup by auto
  qed
next
  case (create P item a h contents is_static p)
  then show ?thesis using pool_ok_create(1) [OF assms(2), of a h P item contents is_static p m'] by simp
next
  case (alloc a h len p)
  then show ?thesis
    using pool_ok_add [OF assms(2), of a] assms(2)
    by (auto simp: CRYPTO_BUFFER_alloc_def Let_def split: if_splits)
next
  case (up_ref p r)
  then obtain b where "buffers m p = Some b" using pool_okD(2) [OF assms(2)] by auto
  then show ?thesis using up_ref pool_ok_reference [OF assms(2)] by (auto simp: CRYPTO_BUFFER_up_ref_def)
next
  case (free p h)
  show ?thesis
    by (rule pool_ok_free [OF assms(2) free(2), of h]) (use free in simp)
qed

lemma pool_reachable_ok: "pool_reachable s \<Longrightarrow> pool_ok (fst s) (snd s)"
proof (induction rule: pool_reachable.induct)
  case start
  show ?case by (simp add: pool_ok_start)
next
  case (step s t)
  then show ?case using pool_step_ok [of "fst s" "snd s" "fst t" "snd t"] by simp
qed

text \<open>A step does not change the contents of a buffer to which there is still a reference.\<close>

lemma pool_step_data:
  assumes "pool_step (m, held) (m', held')" "pool_ok m held" "q \<in># held" "q \<in># held'"
  shows "CRYPTO_BUFFER_data m' q = CRYPTO_BUFFER_data m q"
proof -
  have q: "buffers m q \<noteq> None" using pool_okD(2) [OF assms(2,3)] .
  have refs: "CRYPTO_BUFFER_data (set_references p f n) r = CRYPTO_BUFFER_data n r" for p f n r
    by (simp add: CRYPTO_BUFFER_data_def option.map_comp comp_def)
  from assms(1) show ?thesis
  proof cases
    case (new_pool a h key r)
    then show ?thesis
      by (auto simp: CRYPTO_BUFFER_POOL_new_def CRYPTO_BUFFER_data_def split: if_splits option.splits)
  next
    case (free_pool P)
    then show ?thesis by (simp add: CRYPTO_BUFFER_POOL_free_def CRYPTO_BUFFER_data_def)
  next
    case (lookup P tmp contents is_static p)
    then show ?thesis by (auto simp: pool_lookup_def Let_def refs split: option.splits if_splits)
  next
    case (create P item a h contents is_static p)
    have new: "a \<noteq> q" using create q by auto
    obtain r m1 where r: "buffer_alloc h a contents is_static P m = (r, m1)" by fastforce
    have m1: "CRYPTO_BUFFER_data m1 q = CRYPTO_BUFFER_data m q" "r = 0 \<or> r = a"
      using buffer_alloc_new [OF r \<open>heap_ok h\<close>] new by (auto simp: CRYPTO_BUFFER_data_def)
    moreover have "CRYPTO_BUFFER_data m' q = CRYPTO_BUFFER_data m1 q"
    proof (cases "r = 0 \<or> P = 0")
      case True
      then show ?thesis using create r by (auto simp: buffer_create_def)
    next
      case False
      then have "pool_insert h item a is_static P m1 = (p, m')" using create r m1(2) by (auto simp: buffer_create_def)
      then show ?thesis
        using new refs
        by (auto simp: pool_insert_def Let_def CRYPTO_BUFFER_data_def crypto_buffer_free_object_def
            option.map_comp comp_def split: option.splits prod.splits if_splits)
    qed
    ultimately show ?thesis by simp
  next
    case (alloc a h len p)
    then show ?thesis using q by (auto simp: CRYPTO_BUFFER_alloc_def CRYPTO_BUFFER_data_def Let_def split: if_splits)
  next
    case (up_ref p r)
    then show ?thesis by (auto simp: CRYPTO_BUFFER_up_ref_def refs)
  next
    case (free p h)
    show ?thesis by (rule pool_ok_free [OF assms(2) free(2), of h]) (use free assms(4) in simp)
  qed
qed

section \<open>Equal buffers are shared\<close>

text \<open>What \<open>CRYPTO_BUFFER_new\<close> returns is the pool's buffer for the contents.\<close>

lemma new_buffer_is_entry:
  assumes ok: "pool_ok m held" and a: "buffers m a = None" "buffers m tmp = None" and h: "heap_ok h"
    and pool: "pools m P = Some pool" "item \<notin> iaddr ` set (lh_items (bufs pool))"
    and new: "CRYPTO_BUFFER_new h item tmp a contents P m = (p, m')" "p \<noteq> 0"
  shows "pool_ok m' (add_mset p held)" "pool_entry m' P contents = Some p" "CRYPTO_BUFFER_data m' p = Some contents"
proof -
  have P: "P \<noteq> 0" using pool_okD(6) [OF ok] pool by auto
  have "pool_ok m' (add_mset p held) \<and> pool_entry m' P contents = Some p"
  proof (cases "pool_entry m P contents")
    case (Some q)
    then have "pool_lookup tmp contents False P m = (q, set_references q CRYPTO_refcount_inc m)"
      using pool_lookup_entry [OF ok a(2)] by simp
    moreover have "\<exists>b. buffers m q = Some b" "q \<noteq> 0"
      using table_entry(1) [OF pool_okD(1) [OF ok pool(1)], of contents q] Some pool(1) pool_okD(5) [OF ok]
      by (auto simp: pool_entry_def pool_buffers_def)
    ultimately have "p = q" "m' = set_references q CRYPTO_refcount_inc m" "\<exists>b. buffers m p = Some b"
      using new(1) P by (auto simp: CRYPTO_BUFFER_new_def crypto_buffer_new_def)
    then show ?thesis using pool_ok_reference [OF ok] Some by auto
  next
    case None
    then have create: "buffer_create h item a contents False P m = (p, m')"
      using new(1) P pool_lookup_entry [OF ok a(2), of contents P]
      by (simp add: CRYPTO_BUFFER_new_def crypto_buffer_new_def)
    show ?thesis using pool_ok_create [OF ok a(1) h _ create] pool new(2) P by simp
  qed
  then show ok': "pool_ok m' (add_mset p held)" and entry: "pool_entry m' P contents = Some p" by auto
  obtain pool' where pool': "pools m' P = Some pool'" using entry by (auto simp: pool_entry_def split: option.splits)
  show "CRYPTO_BUFFER_data m' p = Some contents"
    using table_entry [OF pool_okD(1) [OF ok' pool'], of contents p] entry pool'
    by (auto simp: pool_entry_def pool_buffers_def buffer_bytes_def CRYPTO_BUFFER_data_def)
qed

lemma new_buffer_shared:
  assumes "pool_ok m held" "pool_entry m P contents = Some p" "buffers m tmp = None"
  shows "CRYPTO_BUFFER_new h item tmp a contents P m = (p, set_references p CRYPTO_refcount_inc m)"
proof -
  obtain pool where pool: "pools m P = Some pool" using assms(2) by (auto simp: pool_entry_def split: option.splits)
  then have "P \<noteq> 0" "p \<noteq> 0"
    using pool_okD(5,6) [OF assms(1)] table_entry(1) [OF pool_okD(1) [OF assms(1) pool], of contents p] assms(2)
    by (auto simp: pool_entry_def pool_buffers_def)
  then show ?thesis
    using pool_lookup_entry [OF assms(1,3)] assms(2) by (simp add: CRYPTO_BUFFER_new_def crypto_buffer_new_def)
qed

section \<open>A pool\<close>

definition one_pool :: pool_memory where
  "one_pool = snd (CRYPTO_BUFFER_POOL_new (\<lambda>n. Some (replicate n 0)) 3 (1, 2) no_pools)"

lemma one_pool_new_table:
  "OPENSSL_lh_new (\<lambda>n. Some (replicate n 0)) addr_hash addr_cmp =
    Some \<lparr>num_items = 0, buckets = replicate kMinNumBuckets [], num_buckets = kMinNumBuckets,
          callback_depth = 0, lh_comp = addr_cmp, lh_hash = addr_hash\<rparr>"
  by (simp add: OPENSSL_lh_new_def OPENSSL_zalloc_def OPENSSL_calloc_def OPENSSL_malloc_def size_add_def
      size_mod_def OPENSSL_MALLOC_PREFIX_def sizeof_lhash_def kMinNumBuckets_def sizeof_ptr_def)

lemma one_pool_table:
  "pools one_pool 3 = Some \<lparr>bufs = \<lparr>num_items = 0, buckets = replicate kMinNumBuckets [], num_buckets = kMinNumBuckets,
     callback_depth = 0, lh_comp = addr_cmp, lh_hash = addr_hash\<rparr>, hash_key = (1, 2)\<rparr>"
  "buffers one_pool = (\<lambda>_. None)"
  by (simp_all add: one_pool_def CRYPTO_BUFFER_POOL_new_def one_pool_new_table no_pools_def)

lemma one_pool_reachable: "pool_reachable (one_pool, {#})"
  by (rule pool_reachable.step [OF pool_reachable.start], rule pool_step.new_pool
      [of _ 3 "\<lambda>n. Some (replicate n 0)" "(1, 2)" 3])
    (simp_all add: one_pool_def CRYPTO_BUFFER_POOL_new_def one_pool_new_table, simp add: no_pools_def)

lemma one_pool_new:
  "\<exists>m. CRYPTO_BUFFER_new (\<lambda>n. Some (replicate n 0)) 7 9 5 [] 3 one_pool = (5, m) \<and> buffers m 9 = None"
proof -
  let ?h = "\<lambda>n. Some (replicate n 0)"
  obtain pool where pool: "pools one_pool 3 = Some pool" "buckets (bufs pool) = replicate kMinNumBuckets []"
    "num_buckets (bufs pool) = kMinNumBuckets"
    by (simp add: one_pool_table)
  let ?m = "one_pool\<lparr>buffers := [5 \<mapsto> \<lparr>buf_pool = 3, buf_data = [], references = 1, data_is_static = False\<rparr>]\<rparr>"
  have none: "pool_entry one_pool 3 [] = None"
    by (simp add: pool_entry_def one_pool_table lh_map_def lh_items_def)
  have alloc: "buffer_alloc ?h 5 [] False 3 one_pool = (5, ?m)"
    by (simp add: buffer_alloc_def OPENSSL_memdup_def one_pool_table)
  have empty: "deref_next (bufs pool) (fst (get_next_ptr_and_hash f g (bufs pool) 5)) = None" for f g
    by (simp add: pool get_next_ptr_and_hash_def Let_def deref_next_def kMinNumBuckets_def)
  have dup: "pool_duplicate ?m pool 5 False = 0"
    by (simp add: pool_duplicate_def OPENSSL_lh_retrieve_def empty)
  have "fst (OPENSSL_lh_insert ?h 7 (call_hash_func ?m) (call_cmp_func ?m) (bufs pool) 5) = 1"
    using empty [of "call_hash_func ?m" "call_cmp_func ?m"] by (auto simp: OPENSSL_lh_insert_def split: prod.split)
  then obtain old lh where "OPENSSL_lh_insert ?h 7 (call_hash_func ?m) (call_cmp_func ?m) (bufs pool) 5 = (1, old, lh)"
    by (metis prod.collapse)
  then have "\<exists>m. pool_insert ?h 7 5 False 3 ?m = (5, m) \<and> buffers m 9 = None"
    by (simp add: pool_insert_def pool dup)
  then show ?thesis
    using pool_lookup_entry [OF pool_reachable_ok [OF one_pool_reachable, simplified], of 9 "[]" 3] none alloc
    by (auto simp: CRYPTO_BUFFER_new_def crypto_buffer_new_def buffer_create_def one_pool_table(2))
qed

end
