(* ===== verification/PosixTime.thy ===== *)
theory PosixTime
  imports Der "HOL-Library.Signed_Division"
begin

text \<open>
  \<open>crypto/asn1/posix_time.c\<close> and the time parser at the end of \<open>crypto/bytestring/cbs.c\<close>. The C
  \<open>int\<close> and \<open>int64_t\<close> values are integers here; \<open>sdiv\<close> and \<open>smod\<close> are the truncating division
  and remainder of C. No intermediate value leaves the range of its C type: the inputs of the
  arithmetic have been checked against the valid ranges by then.
\<close>

section \<open>Dates\<close>

definition SECS_PER_HOUR :: int where "SECS_PER_HOUR = 60 * 60"
definition SECS_PER_DAY :: int where "SECS_PER_DAY = 24 * SECS_PER_HOUR"

definition leap_year :: "int \<Rightarrow> bool" where
  "leap_year year \<longleftrightarrow> (year smod 4 = 0 \<and> year smod 100 \<noteq> 0) \<or> year smod 400 = 0"

definition is_valid_date :: "int \<Rightarrow> int \<Rightarrow> int \<Rightarrow> bool" where
  "is_valid_date year month day \<longleftrightarrow>
     (if day < 1 \<or> month < 1 \<or> year < 0 \<or> year > 9999 then False
      else if month \<in> {1, 3, 5, 7, 8, 10, 12} then day > 0 \<and> day \<le> 31
      else if month \<in> {4, 6, 9, 11} then day > 0 \<and> day \<le> 30
      else if month = 2 then (if leap_year year then day > 0 \<and> day \<le> 29 else day > 0 \<and> day \<le> 28)
      else False)"

definition is_valid_time :: "int \<Rightarrow> int \<Rightarrow> int \<Rightarrow> bool" where
  "is_valid_time hours minutes seconds \<longleftrightarrow>
     \<not> (hours < 0 \<or> minutes < 0 \<or> seconds < 0 \<or> hours > 23 \<or> minutes > 59 \<or> seconds > 59)"

definition MIN_POSIX_TIME :: int where "MIN_POSIX_TIME = -62167219200"
definition MAX_POSIX_TIME :: int where "MAX_POSIX_TIME = 253402300799"

definition is_valid_posix_time :: "int \<Rightarrow> bool" where
  "is_valid_posix_time time \<longleftrightarrow> MIN_POSIX_TIME \<le> time \<and> time \<le> MAX_POSIX_TIME"

definition posix_time_from_utc :: "int \<Rightarrow> int \<Rightarrow> int \<Rightarrow> int \<Rightarrow> int \<Rightarrow> int \<Rightarrow> int option" where
  "posix_time_from_utc year month day hours minutes seconds =
     (if \<not> is_valid_date year month day \<or> \<not> is_valid_time hours minutes seconds then None
      else
        let year = (if month \<le> 2 then year - 1 else year);
            era = (if year \<ge> 0 then year else year - 399) sdiv 400;
            year_of_era = year - era * 400;
            day_of_year = (153 * (if month > 2 then month - 3 else month + 9) + 2) sdiv 5 + day - 1;
            day_of_era = year_of_era * 365 + year_of_era sdiv 4 - year_of_era sdiv 100 + day_of_year;
            posix_days = era * 146097 + day_of_era - 719468
        in Some (posix_days * SECS_PER_DAY + hours * SECS_PER_HOUR + minutes * 60 + seconds))"

text \<open>The out-parameters are year, month, day, hours, minutes and seconds.\<close>

definition utc_from_posix_time :: "int \<Rightarrow> (int \<times> int \<times> int \<times> int \<times> int \<times> int) option" where
  "utc_from_posix_time time =
     (if \<not> is_valid_posix_time time then None
      else
        let days = time sdiv SECS_PER_DAY;
            leftover_seconds = time smod SECS_PER_DAY;
            (days, leftover_seconds) =
              (if leftover_seconds < 0 then (days - 1, leftover_seconds + SECS_PER_DAY)
               else (days, leftover_seconds));
            days = days + 719468;
            era = (if days > 0 then days else days - 146096) sdiv 146097;
            day_of_era = days - era * 146097;
            year_of_era = (day_of_era - day_of_era sdiv 1460 + day_of_era sdiv 36524
                           - day_of_era sdiv 146096) sdiv 365;
            out_year = year_of_era + era * 400;
            day_of_year = day_of_era - (365 * year_of_era + year_of_era sdiv 4 - year_of_era sdiv 100);
            month_of_year = (5 * day_of_year + 2) sdiv 153;
            out_month = (if month_of_year < 10 then month_of_year + 3 else month_of_year - 9);
            out_year = (if out_month \<le> 2 then out_year + 1 else out_year);
            out_day = day_of_year - (153 * month_of_year + 2) sdiv 5 + 1;
            out_hours = leftover_seconds sdiv SECS_PER_HOUR;
            leftover_seconds = leftover_seconds smod SECS_PER_HOUR;
            out_minutes = leftover_seconds sdiv 60;
            out_seconds = leftover_seconds smod 60
        in Some (out_year, out_month, out_day, out_hours, out_minutes, out_seconds))"

section \<open>\<open>struct tm\<close>\<close>

text \<open>The fields of the C standard.\<close>

record tm =
  tm_sec :: int
  tm_min :: int
  tm_hour :: int
  tm_mday :: int
  tm_mon :: int
  tm_year :: int
  tm_wday :: int
  tm_yday :: int
  tm_isdst :: int

definition OPENSSL_tm_to_posix :: "tm \<Rightarrow> int option" where
  "OPENSSL_tm_to_posix t =
     posix_time_from_utc (tm_year t + 1900) (tm_mon t + 1) (tm_mday t) (tm_hour t) (tm_min t) (tm_sec t)"

definition OPENSSL_posix_to_tm :: "int \<Rightarrow> tm option" where
  "OPENSSL_posix_to_tm time =
     (case utc_from_posix_time time of
        None \<Rightarrow> None
      | Some (year, mon, mday, hour, minute, sec) \<Rightarrow>
          let tmp_tm = \<lparr>tm_sec = sec, tm_min = minute, tm_hour = hour, tm_mday = mday, tm_mon = mon,
                        tm_year = year, tm_wday = 0, tm_yday = 0, tm_isdst = 0\<rparr>;
              tmp_tm = tmp_tm\<lparr>tm_year := tm_year tmp_tm - 1900\<rparr>;
              tmp_tm = tmp_tm\<lparr>tm_mon := tm_mon tmp_tm - 1\<rparr>
          in Some tmp_tm)"

text \<open>\<open>time_t\<close> has 64 bits, so the 32-bit range test is not taken.\<close>

definition sizeof_time_t :: nat where "sizeof_time_t = 8"

definition OPENSSL_timegm :: "tm \<Rightarrow> int option" where
  "OPENSSL_timegm t =
     (case OPENSSL_tm_to_posix t of
        None \<Rightarrow> None
      | Some posix_time \<Rightarrow>
          if sizeof_time_t = 4 \<and> (posix_time > 2147483647 \<or> posix_time < -2147483648) then None
          else Some posix_time)"

definition OPENSSL_gmtime :: "int \<Rightarrow> tm option" where
  "OPENSSL_gmtime time = OPENSSL_posix_to_tm time"

definition INT64_MAX :: int where "INT64_MAX = 2 ^ 63 - 1"
definition INT64_MIN :: int where "INT64_MIN = - (2 ^ 63)"

definition OPENSSL_gmtime_adj :: "int \<Rightarrow> int \<Rightarrow> (tm, unit) op" where
  "OPENSSL_gmtime_adj offset_day offset_sec t =
     (case OPENSSL_tm_to_posix t of
        None \<Rightarrow> (None, t)
      | Some posix_time \<Rightarrow>
          let posix_time = posix_time + offset_day * SECS_PER_DAY in
          if posix_time > 0 \<and> offset_sec > INT64_MAX - posix_time then (None, t)
          else if posix_time < 0 \<and> offset_sec < INT64_MIN - posix_time then (None, t)
          else
            let posix_time = posix_time + offset_sec in
            (case OPENSSL_posix_to_tm posix_time of
               None \<Rightarrow> (None, t)
             | Some out \<Rightarrow> (Some (), out)))"

text \<open>The result is \<open>(*out_days, *out_secs)\<close>.\<close>

definition OPENSSL_gmtime_diff :: "tm \<Rightarrow> tm \<Rightarrow> (int \<times> int) option" where
  "OPENSSL_gmtime_diff from_tm to_tm =
     (case OPENSSL_tm_to_posix to_tm of
        None \<Rightarrow> None
      | Some time_to \<Rightarrow>
          (case OPENSSL_tm_to_posix from_tm of
             None \<Rightarrow> None
           | Some time_from \<Rightarrow>
               let timediff = time_to - time_from;
                   daydiff = timediff sdiv SECS_PER_DAY;
                   timediff = timediff smod SECS_PER_DAY
               in Some (daydiff, timediff)))"

section \<open>UTCTime and GeneralizedTime\<close>

definition cbs_get_two_digits :: "(cbs, int) op" where
  "cbs_get_two_digits =
     op_bind CBS_get_u8 (\<lambda>first_digit.
       op_bind (op_guard (OPENSSL_isdigit (uint first_digit))) (\<lambda>_.
         op_bind CBS_get_u8 (\<lambda>second_digit.
           op_bind (op_guard (OPENSSL_isdigit (uint second_digit))) (\<lambda>_.
             op_return ((uint first_digit - 48) * 10 + (uint second_digit - 48))))))"

definition is_valid_day :: "int \<Rightarrow> int \<Rightarrow> int \<Rightarrow> bool" where
  "is_valid_day year month day \<longleftrightarrow>
     (if day < 1 then False
      else if month \<in> {1, 3, 5, 7, 8, 10, 12} then day \<le> 31
      else if month \<in> {4, 6, 9, 11} then day \<le> 30
      else if month = 2 then (if leap_year year then day \<le> 29 else day \<le> 28)
      else False)"

definition rfc5280_year :: "bool \<Rightarrow> (cbs, int) op" where
  "rfc5280_year is_gentime =
     (if is_gentime
      then op_bind cbs_get_two_digits (\<lambda>tmp.
             let year = tmp * 100 in
             op_bind cbs_get_two_digits (\<lambda>tmp. op_return (year + tmp)))
      else op_bind cbs_get_two_digits (\<lambda>tmp.
             let year = 1900 + tmp;
                 year = (if year < 1950 then year + 100 else year)
             in if year \<ge> 2050 then op_fail else op_return year))"

definition rfc5280_offset :: "bool \<Rightarrow> u8 \<Rightarrow> (cbs, int) op" where
  "rfc5280_offset allow_timezone_offset tz =
     (if tz \<notin> {0x5a, 0x2b, 0x2d} then op_fail
      else
        let offset_sign = (if tz = 0x5a then 0 else if tz = 0x2b then 1 else -1) in
        if offset_sign \<noteq> 0 then
          op_bind (op_guard allow_timezone_offset) (\<lambda>_.
            op_bind cbs_get_two_digits (\<lambda>offset_hours.
              op_bind (op_guard (\<not> offset_hours > 23)) (\<lambda>_.
                op_bind cbs_get_two_digits (\<lambda>offset_minutes.
                  op_bind (op_guard (\<not> offset_minutes > 59)) (\<lambda>_.
                    op_return (offset_sign * (offset_hours * 3600 + offset_minutes * 60)))))))
        else op_return 0)"

definition rfc5280_fields ::
  "bool \<Rightarrow> bool \<Rightarrow> (cbs, int \<times> int \<times> int \<times> int \<times> int \<times> int \<times> int) op" where
  "rfc5280_fields is_gentime allow_timezone_offset =
     op_bind (rfc5280_year is_gentime) (\<lambda>year.
     op_bind cbs_get_two_digits (\<lambda>month.
     op_bind (op_guard (\<not> (month < 1 \<or> month > 12))) (\<lambda>_.
     op_bind cbs_get_two_digits (\<lambda>day.
     op_bind (op_guard (is_valid_day year month day)) (\<lambda>_.
     op_bind cbs_get_two_digits (\<lambda>hour.
     op_bind (op_guard (\<not> hour > 23)) (\<lambda>_.
     op_bind cbs_get_two_digits (\<lambda>minute.
     op_bind (op_guard (\<not> minute > 59)) (\<lambda>_.
     op_bind cbs_get_two_digits (\<lambda>sec.
     op_bind (op_guard (\<not> sec > 59)) (\<lambda>_.
     op_bind CBS_get_u8 (\<lambda>tz.
     op_bind (rfc5280_offset allow_timezone_offset tz) (\<lambda>offset_seconds.
       op_return (year, month, day, hour, minute, sec, offset_seconds))))))))))))))"

text \<open>\<open>out_tm\<close> may be \<open>NULL\<close>; the result is the status and \<open>*out_tm\<close> afterwards.\<close>

definition CBS_parse_rfc5280_time_internal :: "cbs \<Rightarrow> bool \<Rightarrow> bool \<Rightarrow> tm option \<Rightarrow> bool \<times> tm option" where
  "CBS_parse_rfc5280_time_internal cbs is_gentime allow_timezone_offset out_tm =
     (case rfc5280_fields is_gentime allow_timezone_offset cbs of
        (None, _) \<Rightarrow> (False, out_tm)
      | (Some (year, month, day, hour, minute, sec, offset_seconds), copy) \<Rightarrow>
          if length copy \<noteq> 0 then (False, out_tm)
          else
            (case out_tm of
               None \<Rightarrow> (True, None)
             | Some t \<Rightarrow>
                 let t = t\<lparr>tm_year := year - 1900, tm_mon := month - 1, tm_mday := day,
                           tm_hour := hour, tm_min := minute, tm_sec := sec\<rparr>
                 in if offset_seconds \<noteq> 0
                    then (case OPENSSL_gmtime_adj 0 offset_seconds t of
                            (None, t) \<Rightarrow> (False, Some t)
                          | (Some _, t) \<Rightarrow> (True, Some t))
                    else (True, Some t)))"

definition CBS_parse_generalized_time :: "cbs \<Rightarrow> tm option \<Rightarrow> bool \<Rightarrow> bool \<times> tm option" where
  "CBS_parse_generalized_time cbs out_tm allow_timezone_offset =
     CBS_parse_rfc5280_time_internal cbs True allow_timezone_offset out_tm"

definition CBS_parse_utc_time :: "cbs \<Rightarrow> tm option \<Rightarrow> bool \<Rightarrow> bool \<times> tm option" where
  "CBS_parse_utc_time cbs out_tm allow_timezone_offset =
     CBS_parse_rfc5280_time_internal cbs False allow_timezone_offset out_tm"

section \<open>The calendar\<close>

lemma sdiv_nonneg: "0 \<le> a \<Longrightarrow> 0 < b \<Longrightarrow> (a :: int) sdiv b = a div b"
  by (cases "a = 0") (simp_all add: signed_divide_int_def)

lemma smod_nonneg: "0 \<le> a \<Longrightarrow> 0 < b \<Longrightarrow> (a :: int) smod b = a mod b"
  by (cases "a = 0") (simp_all add: signed_modulo_int_def sdiv_nonneg minus_div_mult_eq_mod)

lemma floor_sdiv:
  assumes "0 < b"
  shows "(if a \<ge> 0 then a else a - (b - 1)) sdiv b = a div (b :: int)"
proof (cases "a \<ge> 0")
  case True
  then show ?thesis using assms by (simp add: sdiv_nonneg)
next
  case False
  then have "(a - (b - 1)) sdiv b = - ((- (a - (b - 1))) div b)"
    using assms by (simp add: signed_divide_int_def sgn_mult)
  also have "(- (a - (b - 1))) div b = - (a div b)"
  proof -
    have a: "a = b * (a div b) + a mod b" by simp
    have "0 \<le> a mod b" "a mod b < b" using assms by auto
    then have "(- (a - (b - 1))) = b * (- (a div b)) + (b - 1 - a mod b)" "0 \<le> b - 1 - a mod b" "b - 1 - a mod b < b"
      using a by (simp_all add: algebra_simps)
    then show ?thesis by (metis add.commute div_mult_self2 div_pos_pos_trivial add_0 assms less_irrefl)
  qed
  finally show ?thesis using False by simp
qed

text \<open>Day numbers by counting: 365 or 366 days per year, the length of each month.\<close>

fun days_before_year :: "nat \<Rightarrow> int" where
  "days_before_year 0 = 0"
| "days_before_year (Suc y) = days_before_year y + (if leap_year (int y) then 366 else 365)"

definition month_days :: "bool \<Rightarrow> int list" where
  "month_days leap = [31, if leap then 29 else 28, 31, 30, 31, 30, 31, 31, 30, 31, 30, 31]"

definition calendar_days :: "int \<Rightarrow> int \<Rightarrow> int \<Rightarrow> int" where
  "calendar_days y m d =
     days_before_year (nat y) + sum_list (take (nat (m - 1)) (month_days (leap_year y))) + (d - 1)"

lemma leap_year_iff: "0 \<le> y \<Longrightarrow> leap_year y \<longleftrightarrow> (y mod 4 = 0 \<and> y mod 100 \<noteq> 0) \<or> y mod 400 = 0"
  by (simp add: leap_year_def smod_nonneg)

lemma leap_count_step:
  assumes "0 \<le> (y :: int)"
  shows "(y + 4) div 4 - (y + 100) div 100 + (y + 400) div 400
       = (y + 3) div 4 - (y + 99) div 100 + (y + 399) div 400 + (if leap_year y then 1 else 0)"
proof -
  have s: "(y + int (Suc n)) div int (Suc n) = (y + int n) div int (Suc n) + (if y mod int (Suc n) = 0 then 1 else 0)" for n
  proof -
    define k where "k = int (Suc n)"
    have k: "0 < k" "int n = k - 1" by (simp_all add: k_def)
    define q r where "q = y div k" and "r = y mod k"
    have y: "y = k * q + r" "0 \<le> r" "r < k" using k by (simp_all add: q_def r_def)
    show ?thesis
    proof (cases "r = 0")
      case True
      then have "(y + (k - 1)) div k = q" using y k by (simp add: int_div_pos_eq)
      then show ?thesis using True y k by (simp add: r_def [symmetric] flip: k_def)
    next
      case False
      have "(y + (k - 1)) div k = q + 1"
        by (rule int_div_pos_eq [where r = "r - 1"]) (use y False in \<open>auto simp: algebra_simps\<close>)
      moreover have "(y + k) div k = q + 1" using div_add_self2 [of k y] k(1) by (simp add: q_def)
      ultimately show ?thesis using False k by (simp add: r_def [symmetric] flip: k_def)
    qed
  qed
  have m: "y mod 400 = 0 \<Longrightarrow> y mod 100 = 0" "y mod 100 = 0 \<Longrightarrow> y mod 4 = 0"
    using mod_mod_cancel [of 100 400 y] mod_mod_cancel [of 4 100 y] by simp_all
  have gen: "(a + (if p then 1 else 0)) - (b + (if q then 1 else 0)) + (c + (if r then 1 else 0))
      = a - b + c + (if (p \<and> \<not> q) \<or> r then 1 else 0)"
    if "r \<Longrightarrow> q" "q \<Longrightarrow> p" for a b c :: int and p q r
    using that by (cases p; cases q; cases r) simp_all
  have s4: "(y + 4) div 4 = (y + 3) div 4 + (if y mod 4 = 0 then 1 else 0)" using s [of 3] by simp
  have s100: "(y + 100) div 100 = (y + 99) div 100 + (if y mod 100 = 0 then 1 else 0)" using s [of 99] by simp
  have s400: "(y + 400) div 400 = (y + 399) div 400 + (if y mod 400 = 0 then 1 else 0)" using s [of 399] by simp
  show ?thesis unfolding s4 s100 s400 leap_year_iff [OF assms] by (rule gen [OF m])
qed

lemma days_before_year_closed:
  "days_before_year y = 365 * int y + (int y + 3) div 4 - (int y + 99) div 100 + (int y + 399) div 400"
proof (induction y)
  case (Suc y)
  have e: "int (Suc y) + 3 = int y + 4" "int (Suc y) + 99 = int y + 100" "int (Suc y) + 399 = int y + 400"
    by simp_all
  show ?case unfolding e days_before_year.simps Suc
    using leap_count_step [of "int y"] by (cases "leap_year (int y)") simp_all
qed simp


section \<open>The algorithm counts these days\<close>

text \<open>The two directions on day numbers, counted from March 1 of year 0.\<close>

definition year_start :: "int \<Rightarrow> int" where
  "year_start k = 365 * k + k div 4 - k div 100"

definition month_start :: "int \<Rightarrow> int" where
  "month_start mp = (153 * mp + 2) div 5"

definition days_of_civil :: "int \<Rightarrow> int \<Rightarrow> int \<Rightarrow> int" where
  "days_of_civil y m d =
     (let y = (if m \<le> 2 then y - 1 else y)
      in y div 400 * 146097 + (year_start (y mod 400) + (month_start (if m > 2 then m - 3 else m + 9) + (d - 1))))"

definition year_of_era :: "int \<Rightarrow> int" where
  "year_of_era doe = (doe - doe div 1460 + doe div 36524 - doe div 146096) div 365"

definition civil_of_days :: "int \<Rightarrow> int \<times> int \<times> int" where
  "civil_of_days n =
     (let k = year_of_era (n mod 146097); doy = n mod 146097 - year_start k; mp = (5 * doy + 2) div 153;
          m = (if mp < 10 then mp + 3 else mp - 9); y = k + n div 146097 * 400
      in (if m \<le> 2 then y + 1 else y, m, doy - month_start mp + 1))"

lemma year_split: "y div 400 * 146097 + year_start (y mod 400) = 365 * y + y div 4 - y div 100 + y div 400"
proof -
  define e k where "e = y div 400" and "k = y mod 400"
  have y: "y = 4 * (100 * e) + k" "y = 100 * (4 * e) + k" by (simp_all add: e_def k_def)
  have "y div 4 = 100 * e + k div 4" "y div 100 = 4 * e + k div 100"
    unfolding y(1) [THEN arg_cong [where f = "\<lambda>y. y div 4"]] y(2) [THEN arg_cong [where f = "\<lambda>y. y div 100"]]
    by (simp_all only: div_mult_self4 zero_neq_numeral not_False_eq_True simp_thms add.commute)
  then have "e * 146097 + year_start k = 365 * (400 * e + k) + y div 4 - y div 100 + e"
    by (simp add: year_start_def)
  then show ?thesis by (simp add: e_def k_def)
qed

lemma list_all_upto: "list_all P [0..k] \<Longrightarrow> 0 \<le> x \<Longrightarrow> x < k + 1 \<Longrightarrow> P (x :: int)"
  by (simp add: list_all_iff)

text \<open>The next year of an era starts after 366 days when its February has 29.\<close>

definition year_end :: "int \<Rightarrow> int" where
  "year_end k = (if k = 399 then 146097 else year_start (k + 1))"

definition leap_in_era :: "int \<Rightarrow> bool" where
  "leap_in_era k \<longleftrightarrow> ((k + 1) mod 4 = 0 \<and> (k + 1) mod 100 \<noteq> 0) \<or> (k + 1) mod 400 = 0"

definition era_value :: "int \<Rightarrow> int" where
  "era_value doe = doe - doe div 1460 + doe div 36524 - doe div 146096"

lemma era_tables:
  assumes "0 \<le> k" "k < 400"
  shows "year_end k = year_start k + (if leap_in_era k then 366 else 365)"
    "365 * k \<le> era_value (year_start k)" "era_value (year_end k - 1) < 365 * (k + 1)"
proof -
  have "list_all (\<lambda>k. year_end k = year_start k + (if leap_in_era k then 366 else 365) \<and>
      365 * k \<le> era_value (year_start k) \<and> era_value (year_end k - 1) < 365 * (k + 1)) [0..399]"
    by code_simp
  note list_all_upto [OF this assms(1)]
  then show
    "year_end k = year_start k + (if leap_in_era k then 366 else 365)"
    "365 * k \<le> era_value (year_start k)" "era_value (year_end k - 1) < 365 * (k + 1)" using assms(2) by auto
qed

lemma month_tables:
  assumes "0 \<le> doy" "doy < 366"
  shows "0 \<le> (5 * doy + 2) div 153" "(5 * doy + 2) div 153 \<le> 11"
    "month_start ((5 * doy + 2) div 153) \<le> doy" "doy < month_start ((5 * doy + 2) div 153 + 1)"
proof -
  have "list_all (\<lambda>doy. 0 \<le> (5 * doy + 2) div 153 \<and> (5 * doy + 2) div 153 \<le> 11 \<and>
      month_start ((5 * doy + 2) div 153) \<le> doy \<and> doy < month_start ((5 * doy + 2) div 153 + 1)) [0..365]"
    by code_simp
  note list_all_upto [OF this assms(1)]
  then show
    "0 \<le> (5 * doy + 2) div 153" "(5 * doy + 2) div 153 \<le> 11"
    "month_start ((5 * doy + 2) div 153) \<le> doy" "doy < month_start ((5 * doy + 2) div 153 + 1)" using assms(2) by auto
qed

lemma div_slope:
  assumes "0 < k" "x \<le> (y :: int)"
  shows "x - x div k \<le> y - y div k"
proof -
  have "y div k \<le> x div k + (y - x)"
  proof -
    have "y \<le> x + (y - x) * k" using assms mult_left_mono [of 1 k "y - x"] by simp
    then have "y div k \<le> (x + (y - x) * k) div k" using assms(1) by (rule zdiv_mono1)
    also have "\<dots> = x div k + (y - x)" using assms(1) by simp
    finally show ?thesis .
  qed
  then show ?thesis by linarith
qed

lemma era_value_mono: "x \<le> y \<Longrightarrow> era_value x \<le> era_value y"
proof -
  assume le: "x \<le> y"
  have q: "z div 146096 = z div 36524 div 4" for z :: int by (simp add: zdiv_zmult2_eq [symmetric])
  have gen: "a - b + c - d = (a - b) + (c - d)" for a b c d :: int by simp
  have q': "x div 36524 \<le> y div 36524" using le by (rule zdiv_mono1) simp
  show ?thesis
    unfolding era_value_def q gen
    by (rule add_mono [OF div_slope [OF _ le] div_slope [OF _ q']]) simp_all
qed

lemma year_of_era_unique:
  assumes "0 \<le> k" "k < 400" "year_start k \<le> doe" "doe < year_end k"
  shows "year_of_era doe = k"
proof -
  have "365 * k \<le> era_value doe" "era_value doe < 365 * (k + 1)"
    using era_tables(2,3) [OF assms(1,2)] era_value_mono [OF assms(3)] era_value_mono [of doe "year_end k - 1"]
      assms(4) by linarith+
  then have "era_value doe div 365 = k"
    by (intro int_div_pos_eq [where r = "era_value doe - 365 * k"]) (simp_all add: algebra_simps)
  then show ?thesis by (simp add: year_of_era_def era_value_def)
qed

lemma year_of_era_exists:
  assumes "0 \<le> doe" "doe < 146097"
  obtains k where "0 \<le> k" "k < 400" "year_start k \<le> doe" "doe < year_end k"
proof -
  have "\<exists>k < n. year_start (int k) \<le> doe \<and> doe < year_end (int k)"
    if "n \<le> 400" "0 < n" "doe < year_end (int n - 1)" for n :: nat
    using that
  proof (induction n)
    case (Suc n)
    show ?case
    proof (cases "0 < n \<and> doe < year_end (int n - 1)")
      case True
      then show ?thesis using Suc by (meson Suc_leD less_SucI)
    next
      case False
      then have "year_start (int n) \<le> doe"
        using assms Suc.prems by (cases "n = 0") (auto simp: year_end_def year_start_def)
      then show ?thesis using Suc.prems by auto
    qed
  qed simp
  from this [of 400] obtain k where "k < 400" "year_start (int k) \<le> doe" "doe < year_end (int k)"
    using assms(2) by (auto simp: year_end_def)
  then show ?thesis by (intro that [of "int k"]) simp_all
qed

lemma is_valid_date_iff: "is_valid_date y m d \<longleftrightarrow> 0 \<le> y \<and> y \<le> 9999 \<and> is_valid_day y m d"
  by (auto simp: is_valid_date_def is_valid_day_def)

definition shifted_month :: "int \<Rightarrow> int" where
  "shifted_month m = (if m > 2 then m - 3 else m + 9)"

lemma month_cases:
  assumes "1 \<le> m" "m \<le> (12 :: int)"
  shows "m = 1 \<or> m = 2 \<or> m = 3 \<or> m = 4 \<or> m = 5 \<or> m = 6 \<or> m = 7 \<or> m = 8 \<or> m = 9 \<or> m = 10 \<or> m = 11 \<or> m = 12"
  using assms by presburger

lemma is_valid_day_iff:
  "is_valid_day y m d \<longleftrightarrow> 1 \<le> m \<and> m \<le> 12 \<and> 1 \<le> d \<and> month_start (shifted_month m) + d \<le> month_start (shifted_month m + 1)
     \<and> (m = 2 \<longrightarrow> d \<le> (if leap_year y then 29 else 28))"
proof (cases "1 \<le> m \<and> m \<le> 12")
  case True
  then show ?thesis
    using month_cases [of m] by (elim disjE conjE; auto simp: is_valid_day_def shifted_month_def month_start_def)
next
  case False
  then show ?thesis by (auto simp: is_valid_day_def)
qed

text \<open>A day of a shifted year is in the month that the algorithm finds.\<close>

lemma month_start_mono: "i \<le> j \<Longrightarrow> month_start i \<le> month_start j"
  unfolding month_start_def by (rule zdiv_mono1) simp_all

lemma shifted_month_unique:
  assumes "month_start mp \<le> doy" "doy < month_start (mp + 1)" "0 \<le> doy" "doy < 366"
  shows "(5 * doy + 2) div 153 = mp"
proof (rule ccontr)
  let ?m = "(5 * doy + 2) div 153"
  assume "?m \<noteq> mp"
  then consider "?m + 1 \<le> mp" | "mp + 1 \<le> ?m" by linarith
  then show False
    using month_tables(3,4) [OF assms(3,4)] month_start_mono [of "?m + 1" mp] month_start_mono [of "mp + 1" ?m] assms
    by cases linarith+
qed

lemma year_bounds:
  assumes "0 \<le> k" "k < 400"
  shows "0 \<le> year_start k" "year_end k \<le> 146097"
proof -
  have *: "0 \<le> j div 4 \<and> j div 4 \<le> 99 \<and> 0 \<le> j div 100 \<and> j div 100 \<le> j" if "0 \<le> j" "j < 400" for j :: int
    using that zdiv_mono1 [of j 399 4] zdiv_mono2 [of j 1 100] by (simp add: pos_imp_zdiv_nonneg_iff)
  show "0 \<le> year_start k" using * [of k] assms unfolding year_start_def by linarith
  show "year_end k \<le> 146097"
    using * [of "k + 1"] assms unfolding year_end_def year_start_def by auto
qed

lemma era_split:
  assumes "n = e * 146097 + (year_start k + doy)" "0 \<le> k" "k < 400" "0 \<le> doy" "year_start k + doy < year_end k"
  shows "n div 146097 = e" "n mod 146097 = year_start k + doy" "year_of_era (n mod 146097) = k"
proof -
  have b: "0 \<le> year_start k + doy" "year_start k + doy < 146097"
    using year_bounds [OF assms(2,3)] assms(4,5) by linarith+
  show "n div 146097 = e" by (rule int_div_pos_eq [where r = "year_start k + doy"]) (use b assms(1) in simp_all)
  show m: "n mod 146097 = year_start k + doy"
    by (rule int_mod_pos_eq [where q = e]) (use b assms(1) in simp_all)
  show "year_of_era (n mod 146097) = k"
    unfolding m by (rule year_of_era_unique) (use assms in simp_all)
qed

lemma leap_in_era_iff: "0 \<le> y + 1 \<Longrightarrow> leap_in_era (y mod 400) \<longleftrightarrow> leap_year (y + 1)"
proof -
  assume y: "0 \<le> y + 1"
  have "(y mod 400 + 1) mod c = (y + 1) mod c" if "c dvd 400" for c
    by (metis mod_add_left_eq mod_mod_cancel that)
  from this [of 4] this [of 100] this [of 400] show ?thesis
    unfolding leap_in_era_def leap_year_iff [OF y] by simp
qed

lemma civil_of_days_of_civil:
  assumes "0 \<le> y" "is_valid_day y m d"
  shows "civil_of_days (days_of_civil y m d) = (y, m, d)"
proof -
  define y' mp where "y' = (if m \<le> 2 then y - 1 else y)" and "mp = shifted_month m"
  define doy where "doy = month_start mp + (d - 1)"
  note v = assms(2) [unfolded is_valid_day_iff]
  have mp: "0 \<le> mp" "mp \<le> 11" "mp = 11 \<longleftrightarrow> m = 2" "m = (if mp < 10 then mp + 3 else mp - 9)"
    using v by (auto simp: mp_def shifted_month_def)
  have k: "0 \<le> y' mod 400" "y' mod 400 < 400" by simp_all
  have doy: "0 \<le> doy" "doy < 365 + (if leap_in_era (y' mod 400) then 1 else 0)"
  proof -
    show "0 \<le> doy" using month_start_mono [OF mp(1)] v by (simp add: doy_def month_start_def)
    show "doy < 365 + (if leap_in_era (y' mod 400) then 1 else 0)"
    proof (cases "m = 2")
      case True
      then have "leap_in_era (y' mod 400) \<longleftrightarrow> leap_year y"
        using leap_in_era_iff [of y'] assms(1) by (simp add: y'_def)
      then show ?thesis using True v mp by (auto simp: doy_def month_start_def split: if_splits)
    next
      case False
      then have "mp + 1 \<le> 11" using mp by linarith
      from month_start_mono [OF this] show ?thesis
        using v by (simp add: doy_def month_start_def mp_def)
    qed
  qed
  have n: "days_of_civil y m d = y' div 400 * 146097 + (year_start (y' mod 400) + doy)"
    by (simp add: days_of_civil_def y'_def doy_def mp_def shifted_month_def Let_def)
  have e: "year_start (y' mod 400) + doy < year_end (y' mod 400)"
    using era_tables(1) [OF k] doy(2) by auto
  have m: "(5 * doy + 2) div 153 = mp"
    by (rule shifted_month_unique) (use v doy in \<open>auto simp: doy_def mp_def split: if_splits\<close>)
  note s = era_split [OF n k doy(1) e]
  show ?thesis
    unfolding civil_of_days_def Let_def s(1,3) unfolding s(2) add_diff_cancel_left' m mp(4) [symmetric]
    by (simp add: doy_def y'_def)
qed

lemma days_of_civil_of_days:
  assumes "civil_of_days n = (y, m, d)"
  shows "days_of_civil y m d = n" "0 \<le> y \<Longrightarrow> is_valid_day y m d"
    "y = year_of_era (n mod 146097) + n div 146097 * 400 + (if m \<le> 2 then 1 else 0)"
    "m \<le> 2 \<longleftrightarrow> 306 \<le> n mod 146097 - year_start (year_of_era (n mod 146097))"
    "0 \<le> year_of_era (n mod 146097)" "year_of_era (n mod 146097) < 400"
    "year_start (year_of_era (n mod 146097)) \<le> n mod 146097"
    "n mod 146097 < year_end (year_of_era (n mod 146097))"
proof -
  define e doe where "e = n div 146097" and "doe = n mod 146097"
  have "0 \<le> doe" "doe < 146097" by (simp_all add: doe_def)
  then obtain k where k: "0 \<le> k" "k < 400" "year_start k \<le> doe" "doe < year_end k"
    by (rule year_of_era_exists)
  then have yoe: "year_of_era doe = k" by (rule year_of_era_unique)
  show "0 \<le> year_of_era (n mod 146097)" "year_of_era (n mod 146097) < 400"
    "year_start (year_of_era (n mod 146097)) \<le> n mod 146097"
    "n mod 146097 < year_end (year_of_era (n mod 146097))"
    using k yoe by (simp_all add: doe_def)
  define doy mp y' where "doy = doe - year_start k" and "mp = (5 * doy + 2) div 153" and "y' = k + e * 400"
  have doy: "0 \<le> doy" "doy < 365 + (if leap_in_era k then 1 else 0)"
    using k era_tables(1) [OF k(1,2)] by (auto simp: doy_def)
  then have "doy < 366" by (simp split: if_splits)
  note mt = month_tables [OF doy(1) this, folded mp_def]
  have r: "m = (if mp < 10 then mp + 3 else mp - 9)" "y = (if m \<le> 2 then y' + 1 else y')"
    "d = doy - month_start mp + 1"
    using assms yoe
    by (simp_all add: civil_of_days_def Let_def doe_def e_def doy_def mp_def y'_def split: if_splits prod.splits)
  have sm: "shifted_month m = mp" "m \<le> 2 \<longleftrightarrow> 10 \<le> mp" "1 \<le> m" "m \<le> 12" "m = 2 \<longleftrightarrow> mp = 11"
    using mt(1,2) by (auto simp: r(1) shifted_month_def)
  show "y = year_of_era (n mod 146097) + n div 146097 * 400 + (if m \<le> 2 then 1 else 0)"
    using r(2) yoe by (simp add: y'_def e_def doe_def)
  have "10 \<le> mp \<longleftrightarrow> 306 \<le> doy"
    using mt month_start_mono [of 10 mp] month_start_mono [of "mp + 1" 10] by (auto simp: month_start_def)
  then show "m \<le> 2 \<longleftrightarrow> 306 \<le> n mod 146097 - year_start (year_of_era (n mod 146097))"
    using sm yoe by (simp add: doy_def doe_def)
  have ym: "y' div 400 = e" "y' mod 400 = k" using k by (simp_all add: y'_def)
  have "(if m \<le> 2 then y - 1 else y) = y'" by (simp add: r(2))
  then have "days_of_civil y m d = e * 146097 + (year_start k + (month_start mp + (d - 1)))"
    using sm(1) by (simp add: days_of_civil_def Let_def ym shifted_month_def [symmetric])
  also have "\<dots> = n" using div_mult_mod_eq [of n 146097] by (simp add: r(3) doy_def doe_def e_def)
  finally show "days_of_civil y m d = n" .
  show "is_valid_day y m d" if "0 \<le> y"
  proof -
    have "d \<le> (if leap_year y then 29 else 28)" if "m = 2"
    proof -
      have "y = y' + 1" "mp = 11" using that r(2) sm by simp_all
      then have "leap_in_era k \<longleftrightarrow> leap_year y" using leap_in_era_iff [of y'] ym \<open>0 \<le> y\<close> by simp
      then show ?thesis using doy \<open>mp = 11\<close> by (simp add: r(3) month_start_def split: if_splits)
    qed
    then show ?thesis unfolding is_valid_day_iff using sm mt r(3) by auto
  qed
qed

section \<open>POSIX time and calendar time are in bijection\<close>

lemma secs_simps: "SECS_PER_HOUR = 3600" "SECS_PER_DAY = 86400"
  by (simp_all add: SECS_PER_HOUR_def SECS_PER_DAY_def)

lemma posix_time_from_utc_eq:
  "posix_time_from_utc y m d h mi s =
    (if is_valid_date y m d \<and> is_valid_time h mi s
     then Some ((days_of_civil y m d - 719468) * 86400 + h * 3600 + mi * 60 + s) else None)"
proof (cases "is_valid_date y m d \<and> is_valid_time h mi s")
  case True
  define y' where "y' = (if m \<le> 2 then y - 1 else y)"
  have v: "1 \<le> m" "1 \<le> d" using True by (auto simp: is_valid_date_def split: if_splits)
  have era: "(if y' \<ge> 0 then y' else y' - 399) sdiv 400 = y' div 400"
    using floor_sdiv [of 400 y'] by (simp split: if_splits)
  have k: "y' - y' div 400 * 400 = y' mod 400" by (simp add: minus_div_mult_eq_mod)
  have doy: "(153 * (if m > 2 then m - 3 else m + 9) + 2) sdiv 5 = month_start (if m > 2 then m - 3 else m + 9)"
    using v unfolding month_start_def by (intro sdiv_nonneg) auto
  have yr: "y' mod 400 sdiv 4 = y' mod 400 div 4" "y' mod 400 sdiv 100 = y' mod 400 div 100"
    by (simp_all add: sdiv_nonneg)
  have "posix_time_from_utc y m d h mi s =
    Some ((y' div 400 * 146097 + (y' mod 400 * 365 + y' mod 400 div 4 - y' mod 400 div 100 +
       (month_start (if m > 2 then m - 3 else m + 9) + d - 1)) - 719468) * 86400 + h * 3600 + mi * 60 + s)"
    using True unfolding posix_time_from_utc_def Let_def y'_def [symmetric] era k doy yr secs_simps by simp
  moreover have "days_of_civil y m d = y' div 400 * 146097 + (y' mod 400 * 365 + y' mod 400 div 4 - y' mod 400 div 100 +
       (month_start (if m > 2 then m - 3 else m + 9) + d - 1))"
    unfolding days_of_civil_def Let_def y'_def [symmetric] year_start_def by simp
  ultimately show ?thesis using True by simp
qed (auto simp: posix_time_from_utc_def)

lemma floor_day:
  "(if t smod 86400 < 0 then (t sdiv 86400 - 1, t smod 86400 + 86400) else (t sdiv 86400, t smod 86400))
   = (t div 86400, t mod (86400 :: int))"
proof (cases "0 \<le> t")
  case True
  then show ?thesis by (simp add: sdiv_nonneg smod_nonneg)
next
  case False
  define q r where "q = (- t) div 86400" and "r = (- t) mod 86400"
  have t: "t = - (q * 86400) - r" by (simp add: q_def r_def minus_div_mult_eq_mod [symmetric])
  have r: "0 \<le> r" "r < 86400" by (simp_all add: r_def)
  have sd: "t sdiv 86400 = - q" using False by (simp add: signed_divide_int_def q_def)
  have sm: "t smod 86400 = - r" using False by (simp add: signed_modulo_int_def r_def)
  show ?thesis
  proof (cases "r = 0")
    case True
    then have "t div 86400 = - q" "t mod 86400 = 0" using t by simp_all
    then show ?thesis using True unfolding sd sm by simp
  next
    case False
    have "t div 86400 = - q - 1"
      by (rule int_div_pos_eq [where r = "86400 - r"]) (use t r False in simp_all)
    moreover have "t mod 86400 = 86400 - r"
      by (rule int_mod_pos_eq [where q = "- q - 1"]) (use t r False in simp_all)
    ultimately show ?thesis using r False unfolding sd sm by simp
  qed
qed

lemma utc_from_posix_time_eq:
  "utc_from_posix_time t =
    (if is_valid_posix_time t then
       (case civil_of_days (t div 86400 + 719468) of (y, m, d) \<Rightarrow>
          Some (y, m, d, t mod 86400 div 3600, t mod 86400 mod 3600 div 60, t mod 86400 mod 3600 mod 60))
     else None)"
proof (cases "is_valid_posix_time t")
  case True
  define n s where "n = t div 86400 + 719468" and "s = t mod 86400"
  have s: "0 \<le> s" "s sdiv 3600 = s div 3600" "s smod 3600 = s mod 3600"
    "s mod 3600 sdiv 60 = s mod 3600 div 60" "s mod 3600 smod 60 = s mod 3600 mod 60"
    by (simp_all add: s_def sdiv_nonneg smod_nonneg)
  have era: "(if n > 0 then n else n - 146096) sdiv 146097 = n div 146097"
  proof (cases "n = 0")
    case False
    then show ?thesis using floor_sdiv [of 146097 n] by (auto split: if_splits)
  qed (simp add: signed_divide_int_def)
  have doe: "n - n div 146097 * 146097 = n mod 146097" by (simp add: minus_div_mult_eq_mod)
  define doe where "doe = n mod 146097"
  have d: "0 \<le> doe" "doe < 146097" by (simp_all add: doe_def)
  then obtain k where k: "0 \<le> k" "k < 400" "year_start k \<le> doe" "doe < year_end k"
    by (rule year_of_era_exists)
  then have yoe: "year_of_era doe = k" by (rule year_of_era_unique)
  have ev: "0 \<le> era_value doe"
    using era_value_mono [OF d(1)] by (simp add: era_value_def)
  have "(doe - doe sdiv 1460 + doe sdiv 36524 - doe sdiv 146096) sdiv 365 = era_value doe sdiv 365"
    using d by (simp add: sdiv_nonneg era_value_def)
  also have "\<dots> = k" using yoe ev by (simp add: sdiv_nonneg year_of_era_def era_value_def)
  finally have yoe': "(doe - doe sdiv 1460 + doe sdiv 36524 - doe sdiv 146096) sdiv 365 = k" .
  have doy: "doe - (365 * k + k sdiv 4 - k sdiv 100) = doe - year_start k"
    using k by (simp add: year_start_def sdiv_nonneg)
  have "doe - year_start k < 366" using k era_tables(1) [OF k(1,2)] by (auto split: if_splits)
  note mt = month_tables [OF _ this]
  have m: "(5 * (doe - year_start k) + 2) sdiv 153 = (5 * (doe - year_start k) + 2) div 153"
    using k by (simp add: sdiv_nonneg)
  have ms: "(153 * ((5 * (doe - year_start k) + 2) div 153) + 2) sdiv 5
      = month_start ((5 * (doe - year_start k) + 2) div 153)"
    using mt(1) k unfolding month_start_def by (intro sdiv_nonneg) simp_all
  show ?thesis
    using True
    unfolding utc_from_posix_time_def secs_simps Let_def floor_day split n_def [symmetric] s_def [symmetric] era doe
      doe_def [symmetric] yoe' doy m ms s civil_of_days_def yoe
    by simp
qed (simp add: utc_from_posix_time_def)

lemma days_range:
  assumes "is_valid_date y m d"
  shows "-60 \<le> days_of_civil y m d" "days_of_civil y m d \<le> 3652364"
proof -
  define y' where "y' = (if m \<le> 2 then y - 1 else y)"
  define f :: "int \<Rightarrow> int" where "f = (\<lambda>y. 365 * y + y div 4 - y div 100 + y div 400)"
  note v = assms [unfolded is_valid_date_iff is_valid_day_iff]
  define doy where "doy = month_start (shifted_month m) + (d - 1)"
  have n: "days_of_civil y m d = f y' + doy"
    unfolding days_of_civil_def Let_def y'_def [symmetric] f_def doy_def shifted_month_def
    using year_split [of y'] by simp
  have mono: "f a \<le> f b" if "a \<le> b" for a b
  proof -
    have g: "365 * z + z div 4 - z div 100 + z div 400 = 364 * z + (z - z div 100) + z div 4 + z div 400" for z :: int
      by simp
    show ?thesis unfolding f_def g
      using that by (intro add_mono div_slope zdiv_mono1) simp_all
  qed
  have ge: "0 \<le> doy" "m \<le> 2 \<Longrightarrow> 306 \<le> doy"
    using v month_start_mono [of 0 "shifted_month m"] month_start_mono [of 10 "shifted_month m"]
    by (auto simp: doy_def shifted_month_def month_start_def split: if_splits)
  have le: "doy \<le> 365" "2 < m \<Longrightarrow> doy \<le> 305"
    using v month_start_mono [of "shifted_month m + 1" 11] month_start_mono [of "shifted_month m + 1" 10]
    by (auto simp: doy_def shifted_month_def month_start_def split: if_splits)
  show "-60 \<le> days_of_civil y m d"
  proof (cases "y' \<ge> 0")
    case True
    then show ?thesis using mono [of 0 y'] ge(1) n by (simp add: f_def)
  next
    case False
    then have "y' = -1" "m \<le> 2" using v by (auto simp: y'_def split: if_splits)
    then show ?thesis using ge(2) n by (simp add: f_def)
  qed
  show "days_of_civil y m d \<le> 3652364"
  proof (cases "y' \<le> 9998")
    case True
    then show ?thesis using mono [of y' 9998] le(1) n by (simp add: f_def)
  next
    case False
    then have "y' = 9999" "2 < m" using v by (auto simp: y'_def split: if_splits)
    then show ?thesis using le(2) n by (simp add: f_def)
  qed
qed

lemma year_range:
  assumes "civil_of_days n = (y, m, d)" "-60 \<le> n" "n \<le> 3652364"
  shows "0 \<le> y" "y \<le> 9999"
proof -
  define e k doe where "e = n div 146097" and "k = year_of_era (n mod 146097)" and "doe = n mod 146097"
  note f = days_of_civil_of_days [OF assms(1), folded e_def k_def doe_def]
  have n: "n = e * 146097 + doe" "0 \<le> doe" "doe < 146097" by (simp_all add: e_def doe_def)
  have s: "year_start 399 = 145731" "year_end 398 = 145731" by (simp_all add: year_start_def year_end_def)
  show "0 \<le> y"
  proof (cases "0 \<le> e")
    case True
    then show ?thesis using f(3,5) by simp
  next
    case False
    then have e: "e = -1" "146037 \<le> doe" using n assms(2) by linarith+
    have "year_of_era doe = 399"
      by (rule year_of_era_unique) (use e n s in \<open>auto simp: year_end_def\<close>)
    then have "k = 399" by (simp add: k_def doe_def)
    then have "m \<le> 2" using f(4) e s by simp
    then show ?thesis using f(3) e \<open>k = 399\<close> by simp
  qed
  show "y \<le> 9999"
  proof (cases "e = 24 \<and> k = 399")
    case True
    then have "\<not> m \<le> 2" using f(4) n assms(3) s by simp
    then show ?thesis using f(3) True by simp
  next
    case False
    have "e \<le> 24" using n assms(3) by linarith
    then show ?thesis using False f(3,6) by (auto split: if_splits)
  qed
qed

lemma utc_from_posix_time_inverse:
  "utc_from_posix_time t = Some (y, m, d, h, mi, s) \<longleftrightarrow> posix_time_from_utc y m d h mi s = Some t"
  (is "?l \<longleftrightarrow> ?r")
proof
  assume ?l
  then have t: "is_valid_posix_time t" "civil_of_days (t div 86400 + 719468) = (y, m, d)"
    "h = t mod 86400 div 3600" "mi = t mod 86400 mod 3600 div 60" "s = t mod 86400 mod 3600 mod 60"
    by (auto simp: utc_from_posix_time_eq split: if_splits prod.splits)
  have q: "h * 3600 + mi * 60 + s = t mod 86400"
    using div_mult_mod_eq [of "t mod 86400" 3600] div_mult_mod_eq [of "t mod 86400 mod 3600" 60]
    unfolding t(3-5) by linarith
  have "h < 24" using zdiv_mono1 [of "t mod 86400" 86399 3600] unfolding t(3) by simp
  moreover have "mi < 60" using zdiv_mono1 [of "t mod 86400 mod 3600" 3599 60] unfolding t(4) by simp
  moreover have "0 \<le> h" "0 \<le> mi" "0 \<le> s" "s < 60" unfolding t(3-5) by (simp_all add: pos_imp_zdiv_nonneg_iff)
  ultimately have vt: "is_valid_time h mi s" by (simp add: is_valid_time_def)
  have "-60 \<le> t div 86400 + 719468" "t div 86400 + 719468 \<le> 3652364"
    using t(1) zdiv_mono1 [of MIN_POSIX_TIME t 86400] zdiv_mono1 [of t MAX_POSIX_TIME 86400]
    by (simp_all add: is_valid_posix_time_def MIN_POSIX_TIME_def MAX_POSIX_TIME_def)
  note yr = year_range [OF t(2) this]
  have "is_valid_date y m d"
    using yr days_of_civil_of_days(2) [OF t(2)] by (simp add: is_valid_date_iff)
  then show ?r
    using vt q days_of_civil_of_days(1) [OF t(2)] div_mult_mod_eq [of t 86400]
    by (simp add: posix_time_from_utc_eq add.assoc)
next
  assume ?r
  then have v: "is_valid_date y m d" "is_valid_time h mi s"
    "t = (days_of_civil y m d - 719468) * 86400 + (h * 3600 + mi * 60 + s)"
    by (auto simp: posix_time_from_utc_eq split: if_splits)
  define q where "q = h * 3600 + mi * 60 + s"
  have q: "0 \<le> q" "q < 86400" "q div 3600 = h" "q mod 3600 = mi * 60 + s" "(mi * 60 + s) div 60 = mi"
    "(mi * 60 + s) mod 60 = s"
    using v(2) by (auto simp: q_def is_valid_time_def intro!: int_div_pos_eq int_mod_pos_eq)
  have "t div 86400 = days_of_civil y m d - 719468"
    by (rule int_div_pos_eq [where r = q]) (use v(3) q(1,2) in \<open>simp_all add: q_def\<close>)
  moreover have "t mod 86400 = q"
    by (rule int_mod_pos_eq [where q = "days_of_civil y m d - 719468"]) (use v(3) q(1,2) in \<open>simp_all add: q_def\<close>)
  ultimately have t: "t div 86400 + 719468 = days_of_civil y m d" "t mod 86400 = q" by simp_all
  note r = days_range [OF v(1)]
  have "is_valid_posix_time t"
    using r q(1,2) unfolding v(3) q_def [symmetric]
    by (simp add: is_valid_posix_time_def MIN_POSIX_TIME_def MAX_POSIX_TIME_def)
  moreover have "civil_of_days (days_of_civil y m d) = (y, m, d)"
    using v(1) by (intro civil_of_days_of_civil) (simp_all add: is_valid_date_iff)
  moreover have "s mod 60 = s" using v(2) by (simp add: is_valid_time_def)
  ultimately show ?l by (simp add: utc_from_posix_time_eq t q)
qed


text \<open>The algorithm against the count of days.\<close>

lemma sum_month_days:
  assumes "1 \<le> m" "m \<le> 12"
  shows "sum_list (take (nat (m - 1)) (month_days leap)) =
    (if m \<le> 2 then month_start (shifted_month m) - 306 else month_start (shifted_month m) + (if leap then 60 else 59))"
  using month_cases [OF assms]
  by (elim disjE; simp add: month_days_def month_start_def shifted_month_def)

lemma days_of_civil_calendar:
  assumes "0 \<le> y" "is_valid_day y m d"
  shows "days_of_civil y m d = calendar_days y m d - 60"
proof -
  note v = assms(2) [unfolded is_valid_day_iff]
  define y' where "y' = (if m \<le> 2 then y - 1 else y)"
  define ms where "ms = month_start (shifted_month m)"
  have alg: "days_of_civil y m d = 365 * y' + y' div 4 - y' div 100 + y' div 400 + (ms + (d - 1))"
    unfolding days_of_civil_def Let_def y'_def [symmetric] ms_def shifted_month_def
    using year_split [of y'] by simp
  have cal: "calendar_days y m d = 365 * y + (y + 3) div 4 - (y + 99) div 100 + (y + 399) div 400
      + (if m \<le> 2 then ms - 306 else ms + (if leap_year y then 60 else 59)) + (d - 1)"
    unfolding calendar_days_def days_before_year_closed ms_def
    using sum_month_days [of m "leap_year y"] v assms(1) by simp
  show ?thesis
  proof (cases "m \<le> 2")
    case True
    have e: "y + 3 = y' + 4" "y + 99 = y' + 100" "y + 399 = y' + 400" "y = y' + 1"
      using True by (simp_all add: y'_def)
    have "(y' + 4) div 4 = y' div 4 + 1" "(y' + 100) div 100 = y' div 100 + 1" "(y' + 400) div 400 = y' div 400 + 1"
      by simp_all
    then show ?thesis unfolding alg cal e(1-3) if_P [OF True] using e(4) by linarith
  next
    case False
    then have y': "y' = y" by (simp add: y'_def)
    have "(y + 4) div 4 = y div 4 + 1" "(y + 100) div 100 = y div 100 + 1" "(y + 400) div 400 = y div 400 + 1"
      by simp_all
    then show ?thesis unfolding alg cal y' using leap_count_step [OF assms(1)] False by (cases "leap_year y") simp_all
  qed
qed

lemma posix_time_counts_seconds:
  "posix_time_from_utc y m d h mi s =
    (if is_valid_date y m d \<and> is_valid_time h mi s
     then Some ((calendar_days y m d - calendar_days 1970 1 1) * 86400 + h * 3600 + mi * 60 + s) else None)"
proof -
  have "calendar_days 1970 1 1 = 719528"
    unfolding calendar_days_def days_before_year_closed by (simp add: month_days_def)
  then show ?thesis
    by (auto simp: posix_time_from_utc_eq days_of_civil_calendar is_valid_date_iff)
qed


lemma posix_to_tm_inverse: "OPENSSL_posix_to_tm x = Some t \<Longrightarrow> OPENSSL_tm_to_posix t = Some x"
  by (auto simp: OPENSSL_posix_to_tm_def OPENSSL_tm_to_posix_def Let_def utc_from_posix_time_inverse
      split: option.splits)

lemma posix_to_tm_total: "OPENSSL_posix_to_tm x = None \<longleftrightarrow> \<not> is_valid_posix_time x"
  by (auto simp: OPENSSL_posix_to_tm_def utc_from_posix_time_eq Let_def split: option.splits prod.splits)

lemma gmtime_adj_exact:
  assumes "OPENSSL_tm_to_posix t = Some x" "INT64_MIN \<le> sec" "sec \<le> INT64_MAX"
    "is_valid_posix_time (x + day * SECS_PER_DAY + sec)"
  obtains t' where "OPENSSL_gmtime_adj day sec t = (Some (), t')"
    "OPENSSL_tm_to_posix t' = Some (x + day * SECS_PER_DAY + sec)"
proof -
  obtain t' where t': "OPENSSL_posix_to_tm (x + day * SECS_PER_DAY + sec) = Some t'"
    using assms(4) posix_to_tm_total by fastforce
  have "\<not> (x + day * SECS_PER_DAY > 0 \<and> sec > INT64_MAX - (x + day * SECS_PER_DAY))"
    "\<not> (x + day * SECS_PER_DAY < 0 \<and> sec < INT64_MIN - (x + day * SECS_PER_DAY))"
    using assms(2-4)
    by (auto simp: is_valid_posix_time_def INT64_MAX_def INT64_MIN_def MAX_POSIX_TIME_def MIN_POSIX_TIME_def)
  then show ?thesis
    using t' assms(1) by (intro that [OF _ posix_to_tm_inverse [OF t']]) (auto simp: OPENSSL_gmtime_adj_def Let_def)
qed

text \<open>The difference of two times, split by the truncating division.\<close>

lemma gmtime_diff_exact:
  assumes "OPENSSL_tm_to_posix from_tm = Some a" "OPENSSL_tm_to_posix to_tm = Some b"
  obtains days secs where "OPENSSL_gmtime_diff from_tm to_tm = Some (days, secs)"
    "days * SECS_PER_DAY + secs = b - a" "\<bar>secs\<bar> < SECS_PER_DAY" "days > 0 \<longrightarrow> secs \<ge> 0" "days < 0 \<longrightarrow> secs \<le> 0"
proof -
  define x where "x = b - a"
  have sum: "x sdiv 86400 * 86400 + x smod 86400 = x" by (rule sdiv_mult_smod_eq)
  have sgn: "(x sdiv 86400 > 0 \<longrightarrow> x smod 86400 \<ge> 0) \<and> (x sdiv 86400 < 0 \<longrightarrow> x smod 86400 \<le> 0) \<and> \<bar>x smod 86400\<bar> < 86400"
  proof (cases "0 \<le> x")
    case True
    then show ?thesis by (simp add: sdiv_nonneg smod_nonneg pos_imp_zdiv_nonneg_iff not_less)
  next
    case False
    then show ?thesis by (simp add: signed_modulo_int_def signed_divide_int_def)
  qed
  show ?thesis
    by (rule that [of "x sdiv 86400" "x smod 86400"])
      (use assms sum sgn in \<open>simp_all add: OPENSSL_gmtime_diff_def Let_def secs_simps x_def\<close>)
qed

section \<open>Time strings\<close>

definition two_digits :: "int \<Rightarrow> bytes" where
  "two_digits n = [digit_char (nat n div 10), digit_char (nat n mod 10)]"

lemma op_eq_Some:
  "op_guard b s = (Some u, t) \<longleftrightarrow> b \<and> t = s"
  "op_return x s = (Some y, t) \<longleftrightarrow> x = y \<and> t = s"
  "op_fail s = (Some y, t) \<longleftrightarrow> False"
  by (auto simp: op_simps)

interpretation two_digits_codec: exact_codec two_digits cbs_get_two_digits "\<lambda>n. 0 \<le> n \<and> n \<le> 99"
proof
  fix n rest bs
  show "cbs_get_two_digits (two_digits n @ rest) = (Some n, rest)" if n: "0 \<le> n \<and> n \<le> 99"
  proof -
    have "nat n div 10 < 10" "nat n mod 10 < 10" using n by auto
    then have u: "uint (digit_char (nat n div 10)) = 48 + int (nat n div 10)"
      "uint (digit_char (nat n mod 10)) = 48 + int (nat n mod 10)"
      using unat_digit_char by (metis of_nat_add of_nat_numeral uint_nat)+
    have "int (nat n div 10) * 10 + int (nat n mod 10) = n"
      using n by (simp add: zdiv_int zmod_int)
    moreover have "nat n mod 10 \<le> 9" using mod_less_divisor [of 10 "nat n"] by linarith
    ultimately show ?thesis
      using \<open>nat n div 10 < 10\<close>
      by (simp add: op_guard_def cbs_get_two_digits_def two_digits_def op_simps OPENSSL_isdigit_def u)
  qed
  assume "cbs_get_two_digits bs = (Some n, rest)"
  then obtain a b where ab: "bs = a # b # rest" "OPENSSL_isdigit (uint a)" "OPENSSL_isdigit (uint b)"
    "n = (uint a - 48) * 10 + (uint b - 48)"
    unfolding cbs_get_two_digits_def op_bind_eq_Some op_eq_Some u8_codec.accepts_iff by auto
  then have d: "48 \<le> unat a" "unat a \<le> 57" "48 \<le> unat b" "unat b \<le> 57" by (auto simp: isdigit_byte)
  then obtain i j where ij: "unat a = 48 + i" "unat b = 48 + j" "i \<le> 9" "j \<le> 9"
    using le_Suc_ex [of 48 "unat a"] le_Suc_ex [of 48 "unat b"] by auto
  have "uint a = int (unat a)" "uint b = int (unat b)" by simp_all
  then have n: "n = int (i * 10 + j)" unfolding ab(4) ij by simp
  then have "nat n = i * 10 + j" by simp
  moreover have "(i * 10 + j) div 10 = i" "(i * 10 + j) mod 10 = j" using ij by simp_all
  moreover have "digit_char i = a" "digit_char j = b"
    using digit_char_unat [OF d(1)] digit_char_unat [OF d(3)] ij by simp_all
  ultimately have "two_digits n = [a, b]" by (simp only: two_digits_def)
  then show "(0 \<le> n \<and> n \<le> 99) \<and> bs = two_digits n @ rest"
    using ab(1) n ij by simp
qed

datatype zone = Zulu | East int int | West int int

primrec zone_ok :: "bool \<Rightarrow> zone \<Rightarrow> bool" where
  "zone_ok allow Zulu \<longleftrightarrow> True"
| "zone_ok allow (East h m) \<longleftrightarrow> allow \<and> 0 \<le> h \<and> h \<le> 23 \<and> 0 \<le> m \<and> m \<le> 59"
| "zone_ok allow (West h m) \<longleftrightarrow> allow \<and> 0 \<le> h \<and> h \<le> 23 \<and> 0 \<le> m \<and> m \<le> 59"

primrec zone_bytes :: "zone \<Rightarrow> bytes" where
  "zone_bytes Zulu = [0x5a]"
| "zone_bytes (East h m) = 0x2b # two_digits h @ two_digits m"
| "zone_bytes (West h m) = 0x2d # two_digits h @ two_digits m"

primrec zone_seconds :: "zone \<Rightarrow> int" where
  "zone_seconds Zulu = 0"
| "zone_seconds (East h m) = h * 3600 + m * 60"
| "zone_seconds (West h m) = - (h * 3600 + m * 60)"

definition year_digits :: "bool \<Rightarrow> int \<Rightarrow> bytes" where
  "year_digits gentime y = (if gentime then two_digits (y div 100) @ two_digits (y mod 100) else two_digits (y mod 100))"

definition year_ok :: "bool \<Rightarrow> int \<Rightarrow> bool" where
  "year_ok gentime y \<longleftrightarrow> (if gentime then 0 \<le> y \<and> y \<le> 9999 else 1950 \<le> y \<and> y \<le> 2049)"

definition time_string :: "bool \<Rightarrow> int \<Rightarrow> int \<Rightarrow> int \<Rightarrow> int \<Rightarrow> int \<Rightarrow> int \<Rightarrow> zone \<Rightarrow> bytes" where
  "time_string gentime y m d h mi s z =
     year_digits gentime y @ two_digits m @ two_digits d @ two_digits h @ two_digits mi @ two_digits s @ zone_bytes z"

interpretation year_codec: exact_codec "year_digits gentime" "rfc5280_year gentime" "year_ok gentime" for gentime
proof
  fix y rest bs
  show "rfc5280_year gentime (year_digits gentime y @ rest) = (Some y, rest)" if "year_ok gentime y"
  proof (cases gentime)
    case True
    then have "0 \<le> y div 100" "y div 100 \<le> 99"
      using that zdiv_mono1 [of y 9999 100] by (simp_all add: year_ok_def pos_imp_zdiv_nonneg_iff)
    then show ?thesis
      using True two_digits_codec.get_put by (simp add: rfc5280_year_def year_digits_def op_simps Let_def)
  next
    case False
    then have "y mod 100 = (if y < 2000 then y - 1900 else y - 2000)"
      using that by (auto simp: year_ok_def intro: int_mod_pos_eq)
    then show ?thesis
      using False that two_digits_codec.get_put
      by (auto simp: rfc5280_year_def year_digits_def year_ok_def op_simps Let_def)
  qed
  assume r: "rfc5280_year gentime bs = (Some y, rest)"
  show "year_ok gentime y \<and> bs = year_digits gentime y @ rest"
  proof (cases gentime)
    case True
    then obtain a b where "0 \<le> a" "a \<le> 99" "0 \<le> b" "b \<le> 99" "bs = two_digits a @ two_digits b @ rest"
      "y = a * 100 + b"
      using r by (auto simp: rfc5280_year_def op_bind_eq_Some op_eq_Some two_digits_codec.accepts_iff Let_def)
    moreover from this have "y div 100 = a" "y mod 100 = b"
      by (auto intro: int_div_pos_eq int_mod_pos_eq)
    ultimately show ?thesis using True by (simp add: year_ok_def year_digits_def)
  next
    case False
    then obtain a where "cbs_get_two_digits bs = (Some a, rest)"
      and y: "y = (if 1900 + a < 1950 then 1900 + a + 100 else 1900 + a)"
      using r by (auto simp: rfc5280_year_def op_bind_eq_Some op_eq_Some Let_def split: if_splits)
    then have a: "0 \<le> a" "a \<le> 99" "bs = two_digits a @ rest"
      by (simp_all add: two_digits_codec.accepts_iff)
    then have "y mod 100 = a" using y by (auto intro: int_mod_pos_eq)
    then show ?thesis using False a y by (auto simp: year_ok_def year_digits_def)
  qed
qed


lemma rfc5280_offset_iff:
  "rfc5280_offset allow tz bs = (Some off, rest) \<longleftrightarrow>
   (\<exists>z. zone_ok allow z \<and> tz # bs = zone_bytes z @ rest \<and> off = zone_seconds z)" (is "?l \<longleftrightarrow> ?r")
proof
  assume l: ?l
  then consider "tz = 0x5a" | "tz = 0x2b" | "tz = 0x2d"
    by (auto simp: rfc5280_offset_def op_eq_Some split: if_splits)
  then show ?r
  proof cases
    case 1
    then show ?thesis using l by (intro exI [of _ Zulu]) (simp add: rfc5280_offset_def op_eq_Some)
  next
    case 2
    then obtain h m where "allow" "0 \<le> h" "h \<le> 23" "0 \<le> m" "m \<le> 59" "bs = two_digits h @ two_digits m @ rest"
      "off = h * 3600 + m * 60"
      using l by (auto simp: rfc5280_offset_def op_bind_eq_Some op_eq_Some two_digits_codec.accepts_iff not_less)
    then show ?thesis using 2 by (intro exI [of _ "East h m"]) simp
  next
    case 3
    then obtain h m where "allow" "0 \<le> h" "h \<le> 23" "0 \<le> m" "m \<le> 59" "bs = two_digits h @ two_digits m @ rest"
      "off = - (h * 3600 + m * 60)"
      using l by (auto simp: rfc5280_offset_def op_bind_eq_Some op_eq_Some two_digits_codec.accepts_iff not_less)
    then show ?thesis using 3 by (intro exI [of _ "West h m"]) simp
  qed
next
  assume ?r
  then obtain z where "zone_ok allow z" "tz # bs = zone_bytes z @ rest" "off = zone_seconds z" by blast
  then show ?l
    by (cases z) (auto simp: rfc5280_offset_def op_simps two_digits_codec.get_put)
qed

text \<open>The parser accepts exactly the time strings of valid times, with the offset it was given.\<close>

lemma rfc5280_fields_iff:
  "rfc5280_fields gentime allow bs = (Some (y, m, d, h, mi, s, off), rest) \<longleftrightarrow>
   (\<exists>z. year_ok gentime y \<and> is_valid_day y m d \<and> is_valid_time h mi s \<and> zone_ok allow z
      \<and> bs = time_string gentime y m d h mi s z @ rest \<and> off = zone_seconds z)" (is "?l \<longleftrightarrow> ?r")
proof
  assume ?l
  then obtain tz t where "year_ok gentime y" "0 \<le> m" "1 \<le> m" "m \<le> 12" "is_valid_day y m d"
    "0 \<le> h" "h \<le> 23" "0 \<le> mi" "mi \<le> 59" "0 \<le> s" "s \<le> 59"
    "bs = year_digits gentime y @ two_digits m @ two_digits d @ two_digits h @ two_digits mi @ two_digits s @ tz # t"
    "rfc5280_offset allow tz t = (Some off, rest)"
    by (auto simp: rfc5280_fields_def op_bind_eq_Some op_eq_Some two_digits_codec.accepts_iff
        year_codec.accepts_iff u8_codec.accepts_iff not_less)
  then show ?r
    unfolding rfc5280_offset_iff by (auto simp: time_string_def is_valid_time_def)
next
  assume ?r
  then obtain z where z: "year_ok gentime y" "is_valid_day y m d" "is_valid_time h mi s" "zone_ok allow z"
    "bs = time_string gentime y m d h mi s z @ rest" "off = zone_seconds z" by blast
  obtain tz zs where tz: "zone_bytes z = tz # zs" by (cases z) auto
  have off: "rfc5280_offset allow tz (zs @ rest) = (Some off, rest)"
    unfolding rfc5280_offset_iff using z(4,6) tz by auto
  have b: "1 \<le> m" "m \<le> 12" "1 \<le> d" "d \<le> 31"
    using z(2) by (auto simp: is_valid_day_def split: if_splits)
  have t: "0 \<le> h" "h \<le> 23" "0 \<le> mi" "mi \<le> 59" "0 \<le> s" "s \<le> 59"
    using z(3) by (auto simp: is_valid_time_def)
  show ?l
    unfolding z(5) time_string_def append_assoc tz append_Cons
    using z(1,2) b t off
    by (simp add: rfc5280_fields_def year_codec.get_put two_digits_codec.get_put op_simps op_bind_def)
qed

text \<open>Without the extension, the accepted strings are those of RFC 5280; \<open>*out_tm\<close> gets their fields.\<close>

definition set_tm :: "int \<Rightarrow> int \<Rightarrow> int \<Rightarrow> int \<Rightarrow> int \<Rightarrow> int \<Rightarrow> tm \<Rightarrow> tm" where
  "set_tm y m d h mi s t =
     t\<lparr>tm_year := y - 1900, tm_mon := m - 1, tm_mday := d, tm_hour := h, tm_min := mi, tm_sec := s\<rparr>"

lemma tm_to_posix_set_tm: "OPENSSL_tm_to_posix (set_tm y m d h mi s t) = posix_time_from_utc y m d h mi s"
  by (simp add: OPENSSL_tm_to_posix_def set_tm_def)

lemma rfc5280_time_strict:
  "CBS_parse_rfc5280_time_internal bs gentime False (Some t) = (True, Some t') \<longleftrightarrow>
   (\<exists>y m d h mi s. year_ok gentime y \<and> is_valid_day y m d \<and> is_valid_time h mi s
      \<and> bs = time_string gentime y m d h mi s Zulu \<and> t' = set_tm y m d h mi s t)" (is "?l \<longleftrightarrow> ?r")
proof
  assume ?l
  then obtain y m d h mi s off where f: "rfc5280_fields gentime False bs = (Some (y, m, d, h, mi, s, off), [])"
    and o: "(if off \<noteq> 0 then (case OPENSSL_gmtime_adj 0 off (set_tm y m d h mi s t) of
              (None, t) \<Rightarrow> (False, Some t) | (Some _, t) \<Rightarrow> (True, Some t))
           else (True, Some (set_tm y m d h mi s t))) = (True, Some t')"
    by (auto simp: CBS_parse_rfc5280_time_internal_def set_tm_def Let_def
        split: prod.splits option.splits if_splits)
  from f obtain z where z: "year_ok gentime y" "is_valid_day y m d" "is_valid_time h mi s" "zone_ok False z"
    "bs = time_string gentime y m d h mi s z" "off = zone_seconds z"
    unfolding rfc5280_fields_iff by auto
  have "z = Zulu" using z(4) by (cases z) auto
  moreover have "t' = set_tm y m d h mi s t" using o z(6) \<open>z = Zulu\<close> by simp
  ultimately show ?r using z by blast
next
  assume ?r
  then obtain y m d h mi s where "rfc5280_fields gentime False bs = (Some (y, m, d, h, mi, s, 0), [])"
    "t' = set_tm y m d h mi s t"
    unfolding rfc5280_fields_iff by (metis append_Nil2 zone_ok.simps(1) zone_seconds.simps(1))
  then show ?l by (simp add: CBS_parse_rfc5280_time_internal_def set_tm_def)
qed

end
