(* ===== verification/Stack.thy ===== *)
theory Stack
  imports Oid "HOL-Library.Multiset"
begin

text \<open>
  \<open>crypto/stack/stack.c\<close>: the growable array of pointers behind every \<open>STACK_OF(type)\<close>, with its heap
  sort and binary search. A pointer is a 64-bit address, 0 is \<open>NULL\<close>; function pointers are addresses
  too, and the code itself calls them through a wrapper that is an argument of the operation
  (\<open>call_cmp_func\<close> and so on), which is a HOL function here. An operation on an \<open>OPENSSL_STACK *\<close> that
  may be \<open>NULL\<close> takes and returns a \<open>stack option\<close>.
\<close>

section \<open>The structure\<close>

record stack =
  num :: nat
  data :: "ptr list"
  sorted_flag :: bool
  num_alloc :: nat
  comp :: ptr

text \<open>The pointers in use.\<close>

definition items :: "stack \<Rightarrow> ptr list" where
  "items sk = take (num sk) (data sk)"

text \<open>An array of pointers from the allocator: the answer to a request for so many pointers.\<close>

type_synonym array_heap = "nat \<Rightarrow> ptr list option"

definition array_heap_ok :: "array_heap \<Rightarrow> bool" where
  "array_heap_ok h \<longleftrightarrow> (\<forall>n b. h n = Some b \<longrightarrow> length b = n)"

definition sizeof_stack :: nat where "sizeof_stack = 40"

text \<open>\<open>OPENSSL_malloc\<close> and \<open>OPENSSL_realloc\<close> of a number of bytes that is a multiple of \<open>sizeof_ptr\<close>.\<close>

definition array_malloc :: "array_heap \<Rightarrow> nat \<Rightarrow> ptr list option" where
  "array_malloc h sz = (if size_add sz OPENSSL_MALLOC_PREFIX < sz then None else h (sz div sizeof_ptr))"

definition array_realloc :: "array_heap \<Rightarrow> ptr list \<Rightarrow> nat \<Rightarrow> ptr list option" where
  "array_realloc h old sz =
     (case array_malloc h sz of
        None \<Rightarrow> None
      | Some ret \<Rightarrow>
          let to_copy = (if length old < length ret then length old else length ret)
          in Some (take to_copy old @ drop to_copy ret))"

section \<open>Creating and reading\<close>

definition kMinSize :: nat where "kMinSize = 4"

definition OPENSSL_sk_new :: "heap \<Rightarrow> array_heap \<Rightarrow> ptr \<Rightarrow> stack option" where
  "OPENSSL_sk_new h ah cmp =
     (case OPENSSL_zalloc h sizeof_stack of
        None \<Rightarrow> None
      | Some _ \<Rightarrow>
          (case array_malloc ah (kMinSize * sizeof_ptr) of
             None \<Rightarrow> None
           | Some _ \<Rightarrow>
               Some \<lparr>num = 0, data = replicate kMinSize 0, sorted_flag = False, num_alloc = kMinSize, comp = cmp\<rparr>))"

definition OPENSSL_sk_new_null :: "heap \<Rightarrow> array_heap \<Rightarrow> stack option" where
  "OPENSSL_sk_new_null h ah = OPENSSL_sk_new h ah 0"

definition OPENSSL_sk_num :: "stack option \<Rightarrow> nat" where
  "OPENSSL_sk_num sk = (case sk of None \<Rightarrow> 0 | Some sk \<Rightarrow> num sk)"

definition OPENSSL_sk_zero :: "stack option \<Rightarrow> stack option" where
  "OPENSSL_sk_zero sk =
     (case sk of
        None \<Rightarrow> None
      | Some sk \<Rightarrow>
          Some (if num sk = 0 then sk
                else sk\<lparr>data := memcpy_at 0 (replicate (num sk) 0) (data sk), num := 0, sorted_flag := False\<rparr>))"

definition OPENSSL_sk_value :: "stack option \<Rightarrow> nat \<Rightarrow> ptr" where
  "OPENSSL_sk_value sk i = (case sk of None \<Rightarrow> 0 | Some sk \<Rightarrow> if i \<ge> num sk then 0 else data sk ! i)"

definition OPENSSL_sk_set :: "stack option \<Rightarrow> nat \<Rightarrow> ptr \<Rightarrow> ptr \<times> stack option" where
  "OPENSSL_sk_set sk i value =
     (case sk of
        None \<Rightarrow> (0, None)
      | Some s \<Rightarrow> if i \<ge> num s then (0, sk) else (value, Some (s\<lparr>data := (data s)[i := value]\<rparr>)))"

text \<open>The pointers handed to the callback, in order; the stack itself is gone.\<close>

definition OPENSSL_sk_pop_free_ex :: "stack option \<Rightarrow> ptr list" where
  "OPENSSL_sk_pop_free_ex sk =
     (case sk of None \<Rightarrow> [] | Some sk \<Rightarrow> [p \<leftarrow> map (\<lambda>i. data sk ! i) [0..<num sk]. p \<noteq> 0])"

definition sk_pop_free :: "stack option \<Rightarrow> ptr list" where
  "sk_pop_free sk = OPENSSL_sk_pop_free_ex sk"

section \<open>Inserting and deleting\<close>

definition OPENSSL_sk_insert :: "array_heap \<Rightarrow> stack option \<Rightarrow> ptr \<Rightarrow> nat \<Rightarrow> nat \<times> stack option" where
  "OPENSSL_sk_insert h sk p pos =
     (case sk of
        None \<Rightarrow> (0, None)
      | Some s \<Rightarrow>
          if num s \<ge> INT_MAX then (0, sk)
          else
            let grown =
              (if num_alloc s \<le> size_add (num s) 1 then
                 let new_alloc = size_mul (num_alloc s) 2;
                     alloc_size = size_mul new_alloc sizeof_ptr;
                     overflowed = (new_alloc < num_alloc s \<or> alloc_size div sizeof_ptr \<noteq> new_alloc);
                     new_alloc = (if overflowed then size_add (num_alloc s) 1 else new_alloc);
                     alloc_size = size_mul new_alloc sizeof_ptr
                 in if new_alloc < num_alloc s \<or> alloc_size div sizeof_ptr \<noteq> new_alloc then None
                    else case array_realloc h (data s) alloc_size of
                           None \<Rightarrow> None
                         | Some d \<Rightarrow> Some (s\<lparr>data := d, num_alloc := new_alloc\<rparr>)
               else Some s)
            in case grown of
                 None \<Rightarrow> (0, sk)
               | Some s \<Rightarrow>
                   let d = (if pos \<ge> num s then (data s)[num s := p]
                            else (memmove_at (pos + 1) pos (num s - pos) (data s))[pos := p])
                   in (num s + 1, Some (s\<lparr>data := d, num := num s + 1, sorted_flag := False\<rparr>)))"

definition OPENSSL_sk_delete :: "stack option \<Rightarrow> nat \<Rightarrow> ptr \<times> stack option" where
  "OPENSSL_sk_delete sk pos =
     (case sk of
        None \<Rightarrow> (0, None)
      | Some s \<Rightarrow>
          if pos \<ge> num s then (0, sk)
          else
            let ret = data s ! pos;
                d = (if pos \<noteq> num s - 1 then memmove_at pos (pos + 1) (num s - pos - 1) (data s) else data s)
            in (ret, Some (s\<lparr>data := d, num := num s - 1\<rparr>)))"

fun find_index_from :: "(ptr \<Rightarrow> bool) \<Rightarrow> ptr list \<Rightarrow> nat \<Rightarrow> nat option" where
  "find_index_from P [] i = None"
| "find_index_from P (x # xs) i = (if P x then Some i else find_index_from P xs (i + 1))"

definition OPENSSL_sk_delete_ptr :: "stack option \<Rightarrow> ptr \<Rightarrow> ptr \<times> stack option" where
  "OPENSSL_sk_delete_ptr sk p =
     (case sk of
        None \<Rightarrow> (0, None)
      | Some s \<Rightarrow>
          (case find_index_from (\<lambda>x. x = p) (items s) 0 of
             None \<Rightarrow> (0, sk)
           | Some i \<Rightarrow> OPENSSL_sk_delete sk i))"

function delete_if_loop :: "(ptr \<Rightarrow> bool) \<Rightarrow> nat \<Rightarrow> nat \<Rightarrow> nat \<Rightarrow> ptr list \<Rightarrow> nat \<times> ptr list" where
  "delete_if_loop f n i new_num d =
     (if i < n then
        if \<not> f (d ! i) then delete_if_loop f n (i + 1) (new_num + 1) (d[new_num := d ! i])
        else delete_if_loop f n (i + 1) new_num d
      else (new_num, d))"
  by auto
termination by (relation "measure (\<lambda>(f, n, i, _). n - i)") auto

declare delete_if_loop.simps [simp del]

definition OPENSSL_sk_delete_if :: "stack option \<Rightarrow> (ptr \<Rightarrow> bool) \<Rightarrow> stack option" where
  "OPENSSL_sk_delete_if sk f =
     (case sk of
        None \<Rightarrow> None
      | Some s \<Rightarrow> (case delete_if_loop f (num s) 0 0 (data s) of (new_num, d) \<Rightarrow> Some (s\<lparr>data := d, num := new_num\<rparr>)))"

definition OPENSSL_sk_shift :: "stack option \<Rightarrow> ptr \<times> stack option" where
  "OPENSSL_sk_shift sk =
     (case sk of None \<Rightarrow> (0, None) | Some s \<Rightarrow> if num s = 0 then (0, sk) else OPENSSL_sk_delete sk 0)"

definition OPENSSL_sk_push :: "array_heap \<Rightarrow> stack option \<Rightarrow> ptr \<Rightarrow> nat \<times> stack option" where
  "OPENSSL_sk_push h sk p = OPENSSL_sk_insert h sk p (OPENSSL_sk_num sk)"

definition OPENSSL_sk_pop :: "stack option \<Rightarrow> ptr \<times> stack option" where
  "OPENSSL_sk_pop sk =
     (case sk of None \<Rightarrow> (0, None) | Some s \<Rightarrow> if num s = 0 then (0, sk) else OPENSSL_sk_delete sk (num s - 1))"

section \<open>Sorting and searching\<close>

definition OPENSSL_sk_is_sorted :: "stack option \<Rightarrow> bool" where
  "OPENSSL_sk_is_sorted sk =
     (case sk of None \<Rightarrow> True | Some s \<Rightarrow> sorted_flag s \<or> (comp s \<noteq> 0 \<and> num s < 2))"

text \<open>The binary search, for \<open>cmp\<close> the result of comparing \<open>p\<close> with the pointer at an index.\<close>

function binary_search :: "(nat \<Rightarrow> int) \<Rightarrow> nat \<Rightarrow> nat \<Rightarrow> nat option" where
  "binary_search cmp lo hi =
     (if lo < hi then
        let mid = lo + (hi - lo - 1) div 2; r = cmp mid
        in if r > 0 then binary_search cmp (mid + 1) hi
           else if r < 0 then binary_search cmp lo mid
           else if hi - lo = 1 then Some mid
           else binary_search cmp lo (mid + 1)
      else None)"
  by auto
termination by (relation "measure (\<lambda>(cmp, lo, hi). hi - lo)") auto

declare binary_search.simps [simp del]

definition OPENSSL_sk_find :: "stack option \<Rightarrow> ptr \<Rightarrow> (ptr \<Rightarrow> ptr \<Rightarrow> ptr \<Rightarrow> int) \<Rightarrow> nat option" where
  "OPENSSL_sk_find sk p call_cmp_func =
     (case sk of
        None \<Rightarrow> None
      | Some s \<Rightarrow>
          if comp s = 0 then find_index_from (\<lambda>x. x = p) (items s) 0
          else if p = 0 then None
          else if \<not> OPENSSL_sk_is_sorted sk then find_index_from (\<lambda>x. call_cmp_func (comp s) p x = 0) (items s) 0
          else binary_search (\<lambda>i. call_cmp_func (comp s) p (data s ! i)) 0 (num s))"

definition parent_idx :: "nat \<Rightarrow> nat" where
  "parent_idx idx = (idx - 1) div 2"

definition left_idx :: "nat \<Rightarrow> nat" where
  "left_idx idx = 2 * idx + 1"

definition swap_items :: "nat \<Rightarrow> nat \<Rightarrow> ptr list \<Rightarrow> ptr list" where
  "swap_items i j d = d[i := d ! j, j := d ! i]"

function down_heap :: "(ptr \<Rightarrow> ptr \<Rightarrow> int) \<Rightarrow> nat \<Rightarrow> nat \<Rightarrow> ptr list \<Rightarrow> ptr list" where
  "down_heap cmp i n d =
     (let left = left_idx i
      in if left \<ge> n then d
         else let next = (if cmp (d ! i) (d ! left) < 0 then left else i);
                  right = left + 1;
                  next = (if right < n \<and> cmp (d ! next) (d ! right) < 0 then right else next)
              in if i = next then d else down_heap cmp next n (swap_items i next d))"
  by auto
termination by (relation "measure (\<lambda>(cmp, i, n, d). n - i)") (auto simp: left_idx_def Let_def split: if_splits)

declare down_heap.simps [simp del]

text \<open>The first loop counts down from \<open>i\<close> and ends when the index wraps around below 0.\<close>

fun build_heap :: "(ptr \<Rightarrow> ptr \<Rightarrow> int) \<Rightarrow> nat \<Rightarrow> nat \<Rightarrow> ptr list \<Rightarrow> ptr list" where
  "build_heap cmp n 0 d = down_heap cmp 0 n d"
| "build_heap cmp n (Suc i) d = build_heap cmp n i (down_heap cmp (Suc i) n d)"

fun remove_maxima :: "(ptr \<Rightarrow> ptr \<Rightarrow> int) \<Rightarrow> nat \<Rightarrow> ptr list \<Rightarrow> ptr list" where
  "remove_maxima cmp 0 d = d"
| "remove_maxima cmp (Suc i) d = remove_maxima cmp i (down_heap cmp 0 (Suc i) (swap_items 0 (Suc i) d))"

definition OPENSSL_sk_sort :: "stack option \<Rightarrow> (ptr \<Rightarrow> ptr \<Rightarrow> ptr \<Rightarrow> int) \<Rightarrow> stack option" where
  "OPENSSL_sk_sort sk call_cmp_func =
     (case sk of
        None \<Rightarrow> None
      | Some s \<Rightarrow>
          if comp s = 0 \<or> sorted_flag s then sk
          else
            let cmp = call_cmp_func (comp s);
                d = (if num s \<ge> 2 then
                       remove_maxima cmp (num s - 1) (build_heap cmp (num s) (parent_idx (num s - 1)) (data s))
                     else data s)
            in Some (s\<lparr>data := d, sorted_flag := True\<rparr>))"

definition OPENSSL_sk_set_cmp_func :: "stack \<Rightarrow> ptr \<Rightarrow> ptr \<times> stack" where
  "OPENSSL_sk_set_cmp_func s cmp =
     (comp s, (if comp s \<noteq> cmp then s\<lparr>sorted_flag := False\<rparr> else s)\<lparr>comp := cmp\<rparr>)"

section \<open>Copying\<close>

definition OPENSSL_sk_dup :: "heap \<Rightarrow> array_heap \<Rightarrow> stack option \<Rightarrow> stack option" where
  "OPENSSL_sk_dup h ah sk =
     (case sk of
        None \<Rightarrow> None
      | Some s \<Rightarrow>
          (case OPENSSL_zalloc h sizeof_stack of
             None \<Rightarrow> None
           | Some _ \<Rightarrow>
               (case (if num_alloc s = 0 then None else array_malloc ah (sizeof_ptr * num_alloc s)) of
                  None \<Rightarrow> None
                | Some _ \<Rightarrow>
                    Some \<lparr>num = num s, data = take (num_alloc s) (data s), sorted_flag = sorted_flag s,
                          num_alloc = num_alloc s, comp = comp s\<rparr>)))"

text \<open>
  \<open>copy i p\<close> is the answer of the copy function when it is called for index \<open>i\<close>. The loop returns the
  new array, or the pointers that it passes to the free function before giving up.
\<close>

function deep_copy_loop :: "(nat \<Rightarrow> ptr \<Rightarrow> ptr) \<Rightarrow> nat \<Rightarrow> nat \<Rightarrow> ptr list \<Rightarrow> ptr list + ptr list" where
  "deep_copy_loop copy n i d =
     (if i < n then
        if d ! i = 0 then deep_copy_loop copy n (i + 1) d
        else let q = copy i (d ! i); d = d[i := q]
             in if q = 0 then Inl [p \<leftarrow> map (\<lambda>j. d ! j) [0..<i]. p \<noteq> 0]
                else deep_copy_loop copy n (i + 1) d
      else Inr d)"
  by auto
termination by (relation "measure (\<lambda>(copy, n, i, d). n - i)") auto

declare deep_copy_loop.simps [simp del]

definition OPENSSL_sk_deep_copy ::
    "heap \<Rightarrow> array_heap \<Rightarrow> stack option \<Rightarrow> (nat \<Rightarrow> ptr \<Rightarrow> ptr) \<Rightarrow> stack option \<times> ptr list" where
  "OPENSSL_sk_deep_copy h ah sk copy =
     (case OPENSSL_sk_dup h ah sk of
        None \<Rightarrow> (None, [])
      | Some ret \<Rightarrow>
          (case deep_copy_loop copy (num ret) 0 (data ret) of
             Inl freed \<Rightarrow> (None, freed)
           | Inr d \<Rightarrow> (Some (ret\<lparr>data := d\<rparr>), [])))"

section \<open>The older names\<close>

definition sk_new_null :: "heap \<Rightarrow> array_heap \<Rightarrow> stack option" where
  "sk_new_null h ah = OPENSSL_sk_new_null h ah"

definition sk_num :: "stack option \<Rightarrow> nat" where
  "sk_num sk = OPENSSL_sk_num sk"

definition sk_value :: "stack option \<Rightarrow> nat \<Rightarrow> ptr" where
  "sk_value sk i = OPENSSL_sk_value sk i"

definition sk_push :: "array_heap \<Rightarrow> stack option \<Rightarrow> ptr \<Rightarrow> nat \<times> stack option" where
  "sk_push h sk p = OPENSSL_sk_push h sk p"

definition sk_pop :: "stack option \<Rightarrow> ptr \<times> stack option" where
  "sk_pop sk = OPENSSL_sk_pop sk"

definition sk_pop_free_ex :: "stack option \<Rightarrow> ptr list" where
  "sk_pop_free_ex sk = OPENSSL_sk_pop_free_ex sk"

section \<open>The stack as a list\<close>

definition sk_wf :: "stack \<Rightarrow> bool" where
  "sk_wf s \<longleftrightarrow> num s < num_alloc s \<and> length (data s) = num_alloc s \<and> num s \<le> INT_MAX \<and> num_alloc s \<le> 2 * INT_MAX"

lemma sk_wfD:
  assumes "sk_wf s"
  shows "num s < num_alloc s" "length (data s) = num_alloc s" "num s \<le> INT_MAX" "num_alloc s \<le> 2 * INT_MAX"
    "num s < length (data s)" "length (items s) = num s"
  using assms by (simp_all add: sk_wf_def items_def)

lemma take_insert_slot:
  assumes "n < length d" "pos < n"
  shows "take (Suc n) ((memmove_at (Suc pos) pos (n - pos) d)[pos := p]) = take pos d @ p # drop pos (take n d)"
    "length ((memmove_at (Suc pos) pos (n - pos) d)[pos := p]) = length d"
proof -
  define A B C where "A = take pos d" "B = take (n - pos) (drop pos d)" "C = drop n d"
  have d: "d = A @ B @ C" "length A = pos" "length B = n - pos"
    using assms append_take_drop_id [of "n - pos" "drop pos d"] by (simp_all add: A_B_C_def)
  have "length B \<noteq> 0" "length C \<noteq> 0" using assms d(3) by (simp_all add: A_B_C_def(3))
  then obtain b B' c C' where BC: "B = b # B'" "C = c # C'" by (cases B; cases C) simp_all
  have m: "memmove_at (Suc pos) pos (n - pos) d = A @ b # B @ C'"
  proof -
    have n: "n = length A + length B" using d assms by simp
    show ?thesis unfolding memmove_at_def memcpy_at_def n d(2) [symmetric] d(1) by (simp add: BC)
  qed
  show "take (Suc n) ((memmove_at (Suc pos) pos (n - pos) d)[pos := p]) = take pos d @ p # drop pos (take n d)"
  proof -
    have n: "n = length A + length B" using d assms by simp
    show ?thesis unfolding m unfolding n d(2) [symmetric] d(1) by (simp add: list_update_append)
  qed
  show "length ((memmove_at (Suc pos) pos (n - pos) d)[pos := p]) = length d"
    unfolding m using d BC by simp
qed

lemma take_delete_slot:
  assumes "n \<le> length d" "pos < n"
  shows "take (n - 1) (memmove_at pos (Suc pos) (n - pos - 1) d) = take pos d @ drop (Suc pos) (take n d)"
    "length (memmove_at pos (Suc pos) (n - pos - 1) d) = length d"
proof -
  define A B C where "A = take pos d" "B = take (n - pos) (drop pos d)" "C = drop n d"
  have d: "d = A @ B @ C" "length A = pos" "length B = n - pos"
    using assms append_take_drop_id [of "n - pos" "drop pos d"] by (simp_all add: A_B_C_def)
  obtain b B' where B: "B = b # B'" using assms d by (cases B) auto
  have "drop (length B') ((b # B') @ C) = drop (length B') (b # B') @ C" by (simp only: drop_append) simp
  then have m: "memmove_at pos (Suc pos) (n - pos - 1) d = A @ B' @ drop (length B') B @ C"
    using d B assms by (simp add: memmove_at_def memcpy_at_def)
  have "n = length A + length B" using d assms by simp
  then have "take n d = A @ B" "take pos d = A" "n - 1 = length A + length B'" using d(1,2) B by simp_all
  then show "take (n - 1) (memmove_at pos (Suc pos) (n - pos - 1) d) = take pos d @ drop (Suc pos) (take n d)"
    unfolding m using d(2) B by simp
  show "length (memmove_at pos (Suc pos) (n - pos - 1) d) = length d"
    unfolding m using d B by simp
qed

definition array_heap_total :: "array_heap \<Rightarrow> bool" where
  "array_heap_total h \<longleftrightarrow> (\<forall>n. \<exists>b. h n = Some b \<and> length b = n)"

lemma array_heap_total_ok: "array_heap_total h \<Longrightarrow> array_heap_ok h"
  unfolding array_heap_total_def array_heap_ok_def by (metis option.inject)

lemma array_realloc_spec:
  assumes "array_heap_ok h" "n \<le> 2 * INT_MAX" "length old \<le> n"
  shows "array_realloc h old (n * sizeof_ptr) = Some b \<Longrightarrow> length b = n \<and> take (length old) b = old"
    and "array_heap_total h \<Longrightarrow> array_realloc h old (n * sizeof_ptr) \<noteq> None"
proof -
  have m: "array_malloc h (n * sizeof_ptr) = h n"
    using assms(2) by (simp add: array_malloc_def sizeof_ptr_def OPENSSL_MALLOC_PREFIX_def INT_MAX_def size_add_exact size_mod_def)
  show "array_realloc h old (n * sizeof_ptr) = Some b \<Longrightarrow> length b = n \<and> take (length old) b = old"
    using assms by (auto simp: array_realloc_def m array_heap_ok_def Let_def split: option.splits if_splits)
  show "array_heap_total h \<Longrightarrow> array_realloc h old (n * sizeof_ptr) \<noteq> None"
    unfolding array_realloc_def m array_heap_total_def using spec [of _ n] by (auto simp: Let_def split: option.splits)
qed

text \<open>Under the invariant the doubling never overflows.\<close>

definition sk_place :: "ptr \<Rightarrow> nat \<Rightarrow> stack \<Rightarrow> stack" where
  "sk_place p pos s = s\<lparr>data := (if pos \<ge> num s then (data s)[num s := p]
                            else (memmove_at (pos + 1) pos (num s - pos) (data s))[pos := p]),
                 num := num s + 1, sorted_flag := False\<rparr>"

lemma sk_insert_eq:
  assumes "sk_wf s"
  shows "OPENSSL_sk_insert h (Some s) p pos =
    (if num s = INT_MAX then (0, Some s)
     else if num_alloc s = num s + 1 then
       (case array_realloc h (data s) (2 * num_alloc s * sizeof_ptr) of
          None \<Rightarrow> (0, Some s)
        | Some d \<Rightarrow> (num s + 1, Some (sk_place p pos (s\<lparr>data := d, num_alloc := 2 * num_alloc s\<rparr>))))
     else (num s + 1, Some (sk_place p pos s)))"
proof -
  note w = sk_wfD [OF assms]
  have e: "size_mul (num_alloc s) 2 = 2 * num_alloc s" "size_mul (2 * num_alloc s) sizeof_ptr = 2 * num_alloc s * sizeof_ptr"
    "size_add (num s) 1 = num s + 1"
    using w by (simp_all add: size_mul_def size_add_def size_mod_def INT_MAX_def sizeof_ptr_def)
  have d: "2 * num_alloc s * sizeof_ptr div sizeof_ptr = 2 * num_alloc s" by (simp add: sizeof_ptr_def)
  have o: "\<not> (2 * num_alloc s < num_alloc s \<or> 2 * num_alloc s \<noteq> 2 * num_alloc s)" by simp
  have c: "num s \<ge> INT_MAX \<longleftrightarrow> num s = INT_MAX" "num_alloc s \<le> num s + 1 \<longleftrightarrow> num_alloc s = num s + 1" using w by auto
  show ?thesis
    unfolding OPENSSL_sk_insert_def Let_def e d c option.case if_not_P [OF o] sk_place_def
    by (cases "num_alloc s = num s + 1"; cases "array_realloc h (data s) (2 * num_alloc s * sizeof_ptr)") simp_all
qed

definition list_insert_at :: "nat \<Rightarrow> 'a \<Rightarrow> 'a list \<Rightarrow> 'a list" where
  "list_insert_at pos x xs = take pos xs @ x # drop pos xs"

definition list_delete_at :: "nat \<Rightarrow> 'a list \<Rightarrow> 'a list" where
  "list_delete_at pos xs = take pos xs @ drop (Suc pos) xs"

lemma items_sk_place:
  assumes "num s < length (data s)"
  shows "items (sk_place p pos s) = list_insert_at pos p (items s)" "length (data (sk_place p pos s)) = length (data s)"
  using assms take_insert_slot [of "num s" "data s" pos p] take_Suc_conv_app_nth [of "num s" "(data s)[num s := p]"]
  by (auto simp: items_def sk_place_def list_insert_at_def)

lemma sk_insert_spec:
  assumes "sk_wf s" "array_heap_ok h" "OPENSSL_sk_insert h (Some s) p pos = (r, s')"
  shows "r = 0 \<and> s' = Some s \<or>
    (\<exists>t. s' = Some t \<and> sk_wf t \<and> r = num s + 1 \<and> num t = r \<and> items t = list_insert_at pos p (items s) \<and> comp t = comp s \<and> \<not> sorted_flag t)"
    (is "_ \<or> ?ok s'")
    and "array_heap_total h \<Longrightarrow> num s < INT_MAX \<Longrightarrow> r \<noteq> 0"
proof -
  note w = sk_wfD [OF assms(1)] and eq = assms(3) [unfolded sk_insert_eq [OF assms(1)]]
  note re = array_realloc_spec [OF assms(2), of "2 * num_alloc s" "data s"]
  have place: "\<exists>t'. Some (sk_place p pos t) = Some t' \<and> sk_wf t' \<and> num t' = num s + 1
      \<and> items t' = list_insert_at pos p (items s) \<and> comp t' = comp s \<and> \<not> sorted_flag t'"
    if "num t = num s" "comp t = comp s" "items t = items s" "num s + 1 < num_alloc t" "length (data t) = num_alloc t"
      "num_alloc t \<le> 2 * INT_MAX" "num s < INT_MAX" for t
    using that items_sk_place [of t p pos] by (auto simp: sk_wf_def sk_place_def)
  consider "num s = INT_MAX" "r = 0" "s' = Some s"
    | "num s < INT_MAX" "num_alloc s = num s + 1" "array_realloc h (data s) (2 * num_alloc s * sizeof_ptr) = None" "r = 0" "s' = Some s"
    | d where "num s < INT_MAX" "num_alloc s = num s + 1" "array_realloc h (data s) (2 * num_alloc s * sizeof_ptr) = Some d"
      "r = num s + 1" "s' = Some (sk_place p pos (s\<lparr>data := d, num_alloc := 2 * num_alloc s\<rparr>))"
    | "num s < INT_MAX" "num s + 1 < num_alloc s" "r = num s + 1" "s' = Some (sk_place p pos s)"
    using eq w by (auto split: if_splits option.splits)
  then show "r = 0 \<and> s' = Some s \<or> ?ok s'"
  proof cases
    case 3
    then have d: "length d = 2 * num_alloc s" "take (num_alloc s) d = data s"
      using re(1) w by auto
    then have "take (num s) d = take (num s) (data s)" using w(1) by (metis take_take min.absorb1 less_imp_le)
    then have "\<exists>t'. s' = Some t' \<and> sk_wf t' \<and> num t' = num s + 1
      \<and> items t' = list_insert_at pos p (items s) \<and> comp t' = comp s \<and> \<not> sorted_flag t'"
      unfolding 3(5) by (intro place) (use 3(1,2) d w in \<open>simp_all add: items_def\<close>)
    then show ?thesis using 3(4) by simp
  next
    case 4
    then have "\<exists>t'. s' = Some t' \<and> sk_wf t' \<and> num t' = num s + 1
      \<and> items t' = list_insert_at pos p (items s) \<and> comp t' = comp s \<and> \<not> sorted_flag t'"
      unfolding 4(4) by (intro place) (use 4 w in simp_all)
    then show ?thesis using 4(3) by simp
  qed simp_all
  show "r \<noteq> 0" if "array_heap_total h" "num s < INT_MAX"
    using eq re(2) that w by (auto split: if_splits option.splits)
qed

lemma sk_delete_spec:
  assumes "sk_wf s"
  shows "pos \<ge> num s \<Longrightarrow> OPENSSL_sk_delete (Some s) pos = (0, Some s)"
    and "pos < num s \<Longrightarrow> \<exists>t. OPENSSL_sk_delete (Some s) pos = (items s ! pos, Some t) \<and> sk_wf t
      \<and> items t = list_delete_at pos (items s) \<and> comp t = comp s \<and> sorted_flag t = sorted_flag s \<and> num t = num s - 1"
proof -
  note w = sk_wfD [OF assms]
  show "pos \<ge> num s \<Longrightarrow> OPENSSL_sk_delete (Some s) pos = (0, Some s)" by (simp add: OPENSSL_sk_delete_def)
  assume p: "pos < num s"
  note t = take_delete_slot [of "num s" "data s" pos]
  have "pos = num s - 1 \<Longrightarrow> take pos (data s) = take pos (data s) @ drop (Suc pos) (take (num s) (data s))" by auto
  then show "\<exists>t. OPENSSL_sk_delete (Some s) pos = (items s ! pos, Some t) \<and> sk_wf t
      \<and> items t = list_delete_at pos (items s) \<and> comp t = comp s \<and> sorted_flag t = sorted_flag s \<and> num t = num s - 1"
    using p w t by (auto simp: OPENSSL_sk_delete_def Let_def items_def list_delete_at_def sk_wf_def)
qed

lemma delete_if_loop_spec:
  assumes "new_num \<le> i" "i \<le> n" "n \<le> length d"
  shows "delete_if_loop f n i new_num d = (m, d') \<Longrightarrow>
    take m d' = take new_num d @ filter (\<lambda>p. \<not> f p) (drop i (take n d)) \<and> m \<le> n \<and> length d' = length d"
  using assms
proof (induction f n i new_num d rule: delete_if_loop.induct)
  case (1 f n i new_num d)
  show ?case
  proof (cases "i < n")
    case True
    have dr: "drop i (take n d) = d ! i # drop (Suc i) (take n d)" 
      using True 1 by (simp add: Cons_nth_drop_Suc [of i "take n d", symmetric])
    show ?thesis
    proof (cases "f (d ! i)")
      case f: True
      then show ?thesis using 1 True dr by (simp add: delete_if_loop.simps [of f n i])
    next
      case False
      have "take (Suc new_num) (d[new_num := d ! i]) = take new_num d @ [d ! i]"
        using 1 True by (simp add: take_Suc_conv_app_nth)
      moreover have "drop (Suc i) (take n (d[new_num := d ! i])) = drop (Suc i) (take n d)"
        using 1 True by (simp add: take_update_swap drop_update_swap)
      ultimately show ?thesis using 1 True False dr by (simp add: delete_if_loop.simps [of f n i])
    qed
  next
    case False
    then show ?thesis using 1 by (auto simp: delete_if_loop.simps)
  qed
qed

lemma sk_delete_if_spec:
  assumes "sk_wf s"
  shows "\<exists>t. OPENSSL_sk_delete_if (Some s) f = Some t \<and> sk_wf t \<and> items t = filter (\<lambda>p. \<not> f p) (items s)
    \<and> comp t = comp s \<and> sorted_flag t = sorted_flag s"
proof -
  obtain m d where l: "delete_if_loop f (num s) 0 0 (data s) = (m, d)" by fastforce
  show ?thesis
    using delete_if_loop_spec [OF _ _ _ l] sk_wfD [OF assms] l
    by (auto simp: OPENSSL_sk_delete_if_def items_def sk_wf_def)
qed

lemma find_index_from_Some:
  "find_index_from P xs k = Some i \<longleftrightarrow> k \<le> i \<and> i < k + length xs \<and> P (xs ! (i - k)) \<and> (\<forall>j < i - k. \<not> P (xs ! j))"
proof (induction xs arbitrary: k)
  case (Cons x xs)
  show ?case
  proof (cases "P x")
    case True
    then show ?thesis by (auto simp: nth_Cons split: nat.splits)
  next
    case False
    then have "find_index_from P (x # xs) k = Some i \<longleftrightarrow> Suc k \<le> i \<and> i < Suc k + length xs \<and> P (xs ! (i - Suc k)) \<and> (\<forall>j < i - Suc k. \<not> P (xs ! j))"
      using Cons by simp
    also have "\<dots> \<longleftrightarrow> k \<le> i \<and> i < k + length (x # xs) \<and> P ((x # xs) ! (i - k)) \<and> (\<forall>j < i - k. \<not> P ((x # xs) ! j))"
    proof (cases "Suc k \<le> i")
      case True
      then have "i - k = Suc (i - Suc k)" by simp
      then show ?thesis using False True by (auto simp: All_less_Suc2)
    qed (use False in \<open>auto simp: le_Suc_eq not_le\<close>)
    finally show ?thesis .
  qed
qed simp

lemma find_index_from_None: "find_index_from P xs k = None \<longleftrightarrow> (\<forall>x \<in> set xs. \<not> P x)"
  by (induction xs arbitrary: k) auto

section \<open>Comparison functions\<close>

text \<open>What \<open>sk_sort\<close> and \<open>sk_find\<close> rely on: the sign of a comparison is that of a total preorder.\<close>

locale comparator =
  fixes cmp :: "ptr \<Rightarrow> ptr \<Rightarrow> int"
  assumes swap_sign: "cmp a b < 0 \<longleftrightarrow> cmp b a > 0"
    and le_trans: "cmp a b \<le> 0 \<Longrightarrow> cmp b c \<le> 0 \<Longrightarrow> cmp a c \<le> 0"
begin

lemma le_total: "cmp a b \<le> 0 \<or> cmp b a \<le> 0"
  using swap_sign [of b a] by linarith

lemma eq_sym: "cmp a b = 0 \<longleftrightarrow> cmp b a = 0"
  using swap_sign [of b a] swap_sign [of a b] by linarith

lemma le_refl [simp]: "cmp a a \<le> 0"
  using le_total by blast

lemma not_less: "\<not> cmp a b < 0 \<Longrightarrow> cmp b a \<le> 0"
  using swap_sign by force

lemma le_eq_le: "cmp a b \<le> 0 \<Longrightarrow> cmp c b = 0 \<Longrightarrow> cmp a c \<le> 0"
  using le_trans [of a b c] eq_sym [of c b] by simp

end

section \<open>The binary search\<close>

text \<open>
  On a range where the comparison goes from positive over zero to negative, the search returns the
  first index at which it is zero.
\<close>

lemma binary_search_first:
  assumes "\<And>i j. lo \<le> i \<Longrightarrow> i \<le> j \<Longrightarrow> j < hi \<Longrightarrow> c i \<le> 0 \<Longrightarrow> c j \<le> 0"
    and "\<And>i j. lo \<le> i \<Longrightarrow> i \<le> j \<Longrightarrow> j < hi \<Longrightarrow> c i < 0 \<Longrightarrow> c j < 0"
  shows "binary_search c lo hi = Some k \<longleftrightarrow> lo \<le> k \<and> k < hi \<and> c k = 0 \<and> (\<forall>j. lo \<le> j \<longrightarrow> j < k \<longrightarrow> c j \<noteq> 0)"
  using assms
proof (induction c lo hi rule: binary_search.induct)
  case (1 c lo hi)
  show ?case
  proof (cases "lo < hi")
    case True
    define mid where "mid = lo + (hi - lo - 1) div 2"
    have mid: "lo \<le> mid" "mid < hi" using True by (auto simp: mid_def)
    note step = binary_search.simps [of c lo hi, folded mid_def, simplified Let_def]
    consider "c mid > 0" | "c mid < 0" | "c mid = 0" "hi - lo = 1" | "c mid = 0" "hi - lo \<noteq> 1" by linarith
    then show ?thesis
    proof cases
      case 1
      have pos: "c j > 0" if "lo \<le> j" "j \<le> mid" for j using "1.prems"(1) [of j mid] that mid \<open>c mid > 0\<close> by force
      have "binary_search c (mid + 1) hi = Some k \<longleftrightarrow> mid + 1 \<le> k \<and> k < hi \<and> c k = 0 \<and> (\<forall>j. mid + 1 \<le> j \<longrightarrow> j < k \<longrightarrow> c j \<noteq> 0)"
      proof (rule "1.IH"(1) [OF True mid_def refl 1])
        show "c j \<le> 0" if "mid + 1 \<le> i" "i \<le> j" "j < hi" "c i \<le> 0" for i j using "1.prems"(1) [of i j] that mid by simp
        show "c j < 0" if "mid + 1 \<le> i" "i \<le> j" "j < hi" "c i < 0" for i j using "1.prems"(2) [of i j] that mid by simp
      qed
      moreover have "mid + 1 \<le> k \<and> k < hi \<and> c k = 0 \<and> (\<forall>j. mid + 1 \<le> j \<longrightarrow> j < k \<longrightarrow> c j \<noteq> 0)
          \<longleftrightarrow> lo \<le> k \<and> k < hi \<and> c k = 0 \<and> (\<forall>j. lo \<le> j \<longrightarrow> j < k \<longrightarrow> c j \<noteq> 0)" (is "?l \<longleftrightarrow> ?r")
      proof
        assume ?l
        then show ?r using pos mid by (force simp: not_le [symmetric])
      next
        assume r: ?r
        then have "\<not> k \<le> mid" using pos [of k] by auto
        then show ?l using r mid by auto
      qed
      ultimately show ?thesis using True 1 step by simp
    next
      case 2
      have n0: "\<not> 0 < c mid" using 2 by simp
      have neg: "c j < 0" if "mid \<le> j" "j < hi" for j using "1.prems"(2) [of mid j] that mid \<open>c mid < 0\<close> by simp
      have "binary_search c lo mid = Some k \<longleftrightarrow> lo \<le> k \<and> k < mid \<and> c k = 0 \<and> (\<forall>j. lo \<le> j \<longrightarrow> j < k \<longrightarrow> c j \<noteq> 0)"
      proof (rule "1.IH"(2) [OF True mid_def refl n0 2])
        show "c j \<le> 0" if "lo \<le> i" "i \<le> j" "j < mid" "c i \<le> 0" for i j using "1.prems"(1) [of i j] that mid by simp
        show "c j < 0" if "lo \<le> i" "i \<le> j" "j < mid" "c i < 0" for i j using "1.prems"(2) [of i j] that mid by simp
      qed
      moreover have "k < mid \<longleftrightarrow> k < hi" if "c k = 0" using neg [of k] that mid by (cases "k < mid") auto
      ultimately show ?thesis using True 2 step by auto
    next
      case 3
      then show ?thesis using True mid step by (auto simp: le_less_Suc_eq dest: le_antisym)
    next
      case 4
      have n0: "\<not> 0 < c mid" and n1: "\<not> c mid < 0" using 4 by simp_all
      have mh: "mid + 1 < hi" using 4 True by (auto simp: mid_def)
      have "binary_search c lo (mid + 1) = Some k \<longleftrightarrow> lo \<le> k \<and> k < mid + 1 \<and> c k = 0 \<and> (\<forall>j. lo \<le> j \<longrightarrow> j < k \<longrightarrow> c j \<noteq> 0)"
      proof (rule "1.IH"(3) [OF True mid_def refl n0 n1 4(2)])
        show "c j \<le> 0" if "lo \<le> i" "i \<le> j" "j < mid + 1" "c i \<le> 0" for i j using "1.prems"(1) [of i j] that mh by simp
        show "c j < 0" if "lo \<le> i" "i \<le> j" "j < mid + 1" "c i < 0" for i j using "1.prems"(2) [of i j] that mh by simp
      qed
      moreover have "k < mid + 1 \<longleftrightarrow> k < hi" if "\<forall>j. lo \<le> j \<longrightarrow> j < k \<longrightarrow> c j \<noteq> 0" "c k = 0"
        using that mid 4(1) mh by (metis Suc_eq_plus1 less_Suc_eq not_less_eq order.strict_trans)
      ultimately show ?thesis using True 4 step by auto
    qed
  next
    case False
    then show ?thesis by (auto simp: binary_search.simps)
  qed
qed

section \<open>The heap\<close>

text \<open>Every index of the first \<open>n\<close> whose parent is at or after \<open>lo\<close> is not above its parent.\<close>

definition heap_from :: "(ptr \<Rightarrow> ptr \<Rightarrow> int) \<Rightarrow> nat \<Rightarrow> nat \<Rightarrow> ptr list \<Rightarrow> bool" where
  "heap_from cmp lo n d \<longleftrightarrow> (\<forall>k<n. 0 < k \<longrightarrow> lo \<le> parent_idx k \<longrightarrow> cmp (d ! k) (d ! parent_idx k) \<le> 0)"

definition heap_except :: "(ptr \<Rightarrow> ptr \<Rightarrow> int) \<Rightarrow> nat \<Rightarrow> nat \<Rightarrow> nat \<Rightarrow> ptr list \<Rightarrow> bool" where
  "heap_except cmp lo i n d \<longleftrightarrow>
     (\<forall>k<n. 0 < k \<longrightarrow> lo \<le> parent_idx k \<longrightarrow> parent_idx k \<noteq> i \<longrightarrow> cmp (d ! k) (d ! parent_idx k) \<le> 0)
   \<and> (\<forall>k<n. 0 < k \<longrightarrow> parent_idx k = i \<longrightarrow> 0 < i \<longrightarrow> lo \<le> parent_idx i \<longrightarrow> cmp (d ! k) (d ! parent_idx i) \<le> 0)"

lemma parent_eq_iff: "0 < k \<Longrightarrow> parent_idx k = i \<longleftrightarrow> k = left_idx i \<or> k = left_idx i + 1"
  by (auto simp: parent_idx_def left_idx_def)

lemma parent_less: "0 < k \<Longrightarrow> parent_idx k < k"
  by (auto simp: parent_idx_def)

lemma swap_nth:
  assumes "i < length d" "j < length d"
  shows "swap_items i j d ! k = (if k = j then d ! i else if k = i then d ! j else d ! k)"
  using assms by (simp add: swap_items_def nth_list_update)

lemma swap_items_props:
  assumes "i < n" "j < n" "n \<le> length d"
  shows "length (swap_items i j d) = length d" "mset (swap_items i j d) = mset d" "drop n (swap_items i j d) = drop n d"
  using assms by (simp_all add: swap_items_def mset_swap)

context comparator begin

lemma down_heap_correct:
  assumes "heap_except cmp lo i n d" "lo \<le> i" "i < n" "n \<le> length d"
  shows "heap_from cmp lo n (down_heap cmp i n d) \<and> mset (down_heap cmp i n d) = mset d
    \<and> length (down_heap cmp i n d) = length d \<and> drop n (down_heap cmp i n d) = drop n d"
  using assms
proof (induction "n - i" arbitrary: i d rule: less_induct)
  case less
  define left where "left = left_idx i"
  define n1 where "n1 = (if cmp (d ! i) (d ! left) < 0 then left else i)"
  define nxt where "nxt = (if left + 1 < n \<and> cmp (d ! n1) (d ! (left + 1)) < 0 then left + 1 else n1)"
  note step = down_heap.simps [of cmp i n d, folded left_def, unfolded Let_def, folded n1_def, folded nxt_def]
  have left: "left = 2 * i + 1" by (simp add: left_def left_idx_def)
  have heap: "cmp (d ! k) (d ! parent_idx k) \<le> 0" if "k < n" "0 < k" "lo \<le> parent_idx k" "parent_idx k \<noteq> i" for k
    using less.prems(1) that by (auto simp: heap_except_def)
  have above: "cmp (d ! k) (d ! parent_idx i) \<le> 0" if "k < n" "0 < k" "parent_idx k = i" "0 < i" "lo \<le> parent_idx i" for k
    using less.prems(1) that by (auto simp: heap_except_def)
  show ?case
  proof (cases "left < n")
    case False
    then have "heap_from cmp lo n d"
      using heap left by (force simp: heap_from_def parent_idx_def)
    then show ?thesis using step False by simp
  next
    case True
    have l1: "cmp (d ! i) (d ! n1) \<le> 0" "cmp (d ! left) (d ! n1) \<le> 0"
      using not_less [of "d ! i" "d ! left"] by (auto simp: n1_def)
    have n1n: "cmp (d ! n1) (d ! nxt) \<le> 0" "left + 1 < n \<Longrightarrow> cmp (d ! (left + 1)) (d ! nxt) \<le> 0"
      using not_less [of "d ! n1" "d ! (left + 1)"] by (auto simp: nxt_def)
    have top: "cmp (d ! i) (d ! nxt) \<le> 0" using l1(1) n1n(1) by (rule le_trans)
    have kids: "cmp (d ! k) (d ! nxt) \<le> 0" if "k < n" "0 < k" "parent_idx k = i" for k
      using that parent_eq_iff [of k i] le_trans [OF l1(2) n1n(1)] n1n(2) by (auto simp: left_def)
    show ?thesis
    proof (cases "i = nxt")
      case True
      then have "heap_from cmp lo n d" using heap kids by (auto simp: heap_from_def)
      then show ?thesis using step True by simp
    next
      case False
      have nxt: "nxt < n" "parent_idx nxt = i" "i < nxt"
        using False True by (auto simp: nxt_def n1_def left parent_idx_def split: if_splits)
      note sw = swap_items_props [of i n nxt d]
      have sn: "swap_items i nxt d ! k = (if k = nxt then d ! i else if k = i then d ! nxt else d ! k)" for k
        using nxt less.prems by (simp add: swap_nth)
      have "heap_except cmp lo nxt n (swap_items i nxt d)"
        unfolding heap_except_def
      proof (intro conjI allI impI)
        fix k assume k: "k < n" "0 < k" "lo \<le> parent_idx k" "parent_idx k \<noteq> nxt"
        consider "k = nxt" | "k \<noteq> nxt" "parent_idx k = i" | "k = i" | "k \<noteq> nxt" "k \<noteq> i" "parent_idx k \<noteq> i" by blast
        then show "cmp (swap_items i nxt d ! k) (swap_items i nxt d ! parent_idx k) \<le> 0"
        proof cases
          case 3
          then show ?thesis using above [of nxt] k nxt parent_less [of i] by (simp add: sn)
        qed (use k nxt top kids heap in \<open>auto simp: sn\<close>)
      next
        fix k assume "k < n" "0 < k" "parent_idx k = nxt"
        then show "cmp (swap_items i nxt d ! k) (swap_items i nxt d ! parent_idx nxt) \<le> 0"
          using heap [of k] nxt less.prems(2) parent_less [of k] by (auto simp: sn)
      qed
      then show ?thesis
        using less.hyps [of nxt "swap_items i nxt d"] nxt less.prems sw step True False by simp
    qed
  qed
qed

lemma build_heap_correct:
  assumes "heap_from cmp (Suc i) n d" "i < n" "n \<le> length d"
  shows "heap_from cmp 0 n (build_heap cmp n i d) \<and> mset (build_heap cmp n i d) = mset d
    \<and> length (build_heap cmp n i d) = length d \<and> drop n (build_heap cmp n i d) = drop n d"
  using assms
proof (induction i arbitrary: d)
  case 0
  then have "heap_except cmp 0 0 n d" by (auto simp: heap_from_def heap_except_def)
  then show ?case using down_heap_correct [of 0 0 n d] 0 by simp
next
  case (Suc i)
  then have "heap_except cmp (Suc i) (Suc i) n d" using parent_less [of "Suc i"] by (auto simp: heap_from_def heap_except_def)
  then show ?case using down_heap_correct [of "Suc i" "Suc i" n d] Suc by simp
qed

lemma heap_root: "heap_from cmp 0 n d \<Longrightarrow> k < n \<Longrightarrow> cmp (d ! k) (d ! 0) \<le> 0"
proof (induction k rule: less_induct)
  case (less k)
  show ?case
  proof (cases "k = 0")
    case False
    then have "cmp (d ! k) (d ! parent_idx k) \<le> 0" using less.prems by (simp add: heap_from_def)
    moreover have "cmp (d ! parent_idx k) (d ! 0) \<le> 0" using less.IH [of "parent_idx k"] less.prems False parent_less [of k] by simp
    ultimately show ?thesis by (rule le_trans)
  qed simp
qed

lemma remove_maxima_correct:
  assumes "heap_from cmp 0 (Suc i) d" "i < n" "n \<le> length d"
    and "sorted_wrt (\<lambda>a b. cmp a b \<le> 0) (drop (Suc i) (take n d))"
    and "\<forall>x \<in> set (take (Suc i) d). \<forall>y \<in> set (drop (Suc i) (take n d)). cmp x y \<le> 0"
  shows "sorted_wrt (\<lambda>a b. cmp a b \<le> 0) (take n (remove_maxima cmp i d)) \<and> mset (remove_maxima cmp i d) = mset d
    \<and> length (remove_maxima cmp i d) = length d \<and> drop n (remove_maxima cmp i d) = drop n d"
  using assms
proof (induction i arbitrary: d)
  case 0
  obtain x xs m where "d = x # xs" "n = Suc m" using 0 by (cases d; cases n) auto
  then show ?case using 0 by simp
next
  case (Suc i)
  let ?d1 = "swap_items 0 (Suc i) d" and ?d2 = "down_heap cmp 0 (Suc i) (swap_items 0 (Suc i) d)"
  let ?rest = "drop (Suc (Suc i)) (take n d)"
  note sw = swap_items_props [of 0 "Suc (Suc i)" "Suc i" d]
  have nth: "?d1 ! k = (if k = Suc i then d ! 0 else if k = 0 then d ! Suc i else d ! k)" for k
  proof (rule swap_nth)
    show "0 < length d" "Suc i < length d" using Suc.prems(2,3) by linarith+
  qed
  have "heap_except cmp 0 0 (Suc i) ?d1"
    unfolding heap_except_def
  proof (intro conjI allI impI)
    fix k assume k: "k < Suc i" "0 < k" "parent_idx k \<noteq> 0"
    then have "cmp (d ! k) (d ! parent_idx k) \<le> 0" using Suc.prems(1) by (simp add: heap_from_def)
    then show "cmp (?d1 ! k) (?d1 ! parent_idx k) \<le> 0" using k parent_less [of k] by (simp add: nth)
  qed simp
  then have d2: "heap_from cmp 0 (Suc i) ?d2" "mset ?d2 = mset d" "length ?d2 = length d" "drop (Suc i) ?d2 = drop (Suc i) ?d1"
    using down_heap_correct [of 0 0 "Suc i" ?d1] sw Suc.prems by simp_all
  have dr1: "drop (Suc i) ?d1 = d ! 0 # drop (Suc (Suc i)) d"
    using sw Suc.prems nth [of "Suc i"] Cons_nth_drop_Suc [of "Suc i" ?d1] by simp
  then have rest: "drop (Suc i) (take n ?d2) = d ! 0 # ?rest"
    using d2 Suc.prems by (simp add: drop_take Suc_diff_Suc [symmetric])
  have "mset (take (Suc i) ?d2) + mset (drop (Suc i) ?d2) = mset (take (Suc (Suc i)) d) + mset (drop (Suc (Suc i)) d)"
    using d2(2) by (metis append_take_drop_id mset_append)
  then have "mset (take (Suc (Suc i)) d) = add_mset (d ! 0) (mset (take (Suc i) ?d2))"
    unfolding d2(4) dr1 by simp
  then have sub: "set (take (Suc i) ?d2) \<subseteq> set (take (Suc (Suc i)) d)" by (metis insertCI set_mset_add_mset_insert set_mset_mset subsetI)
  have max: "cmp x (d ! 0) \<le> 0" if "x \<in> set (take (Suc (Suc i)) d)" for x
    using that heap_root [OF Suc.prems(1)] Suc.prems by (auto simp: in_set_conv_nth)
  have in0: "d ! 0 \<in> set (take (Suc (Suc i)) d)" using Suc.prems by (auto simp: in_set_conv_nth)
  have drn: "drop n ?d2 = drop n d"
  proof -
    obtain j where n: "n = j + Suc (Suc i)" using Suc.prems(2) by (metis Suc_leI add.commute le_Suc_ex)
    have "drop n ?d2 = drop (Suc j) (drop (Suc i) ?d2)" by (simp add: n)
    also have "\<dots> = drop n d" unfolding d2(4) dr1 by (simp add: n)
    finally show ?thesis .
  qed
  show ?case
    using Suc.IH [of ?d2] d2 rest drn Suc.prems max in0 sub by auto
qed

lemma sort_items_correct:
  assumes "n \<le> length d" "2 \<le> n"
  defines "d' \<equiv> remove_maxima cmp (n - 1) (build_heap cmp n (parent_idx (n - 1)) d)"
  shows "sorted_wrt (\<lambda>a b. cmp a b \<le> 0) (take n d')" "mset (take n d') = mset (take n d)" "length d' = length d"
proof -
  let ?b = "build_heap cmp n (parent_idx (n - 1)) d"
  have "parent_idx (n - 1) < n" "heap_from cmp (Suc (parent_idx (n - 1))) n d"
    using assms by (auto simp: parent_idx_def heap_from_def dest: less_imp_le)
  then have b: "heap_from cmp 0 n ?b" "mset ?b = mset d" "length ?b = length d" "drop n ?b = drop n d"
    using build_heap_correct assms(1) by blast+
  have r: "sorted_wrt (\<lambda>a b. cmp a b \<le> 0) (take n d')" "mset d' = mset d" "length d' = length d" "drop n d' = drop n d"
    using remove_maxima_correct [of "n - 1" ?b n] b assms by simp_all
  then show "sorted_wrt (\<lambda>a b. cmp a b \<le> 0) (take n d')" "length d' = length d" by auto
  have "mset (take n d') + mset (drop n d') = mset (take n d) + mset (drop n d)"
    using r(2) by (metis append_take_drop_id mset_append)
  then show "mset (take n d') = mset (take n d)" using r(4) by simp
qed

end

section \<open>Comparison functions of the library\<close>

text \<open>A stack of byte strings (addresses of objects in \<open>mem\<close>) compared as the elements of a SET OF.\<close>

lemma compare_set_of_sign: "compare_set_of_element a b < 0 \<longleftrightarrow> compare_set_of_element b a > 0"
proof (induction a arbitrary: b)
  case Nil
  then show ?case by (cases "b = []") (simp_all add: compare_Nil)
next
  case (Cons x a)
  then show ?case by (cases b) (auto simp: memcmp_prefix compare_Nil)
qed

interpretation set_of_order: comparator "\<lambda>a b. compare_set_of_element (mem a) (mem b)" for mem
  by unfold_locales (use compare_set_of_sign set_of_le_trans [unfolded set_of_le_def] in auto)

text \<open>A stack ordered by address.\<close>

interpretation address_order: comparator "\<lambda>a b. uint a - uint b"
  by unfold_locales auto

section \<open>The sorted flag\<close>

context comparator begin

text \<open>On a sorted array the binary search finds what the linear search finds.\<close>

lemma binary_search_is_linear:
  assumes "sorted_wrt (\<lambda>a b. cmp a b \<le> 0) (take n d)" "n \<le> length d"
  shows "binary_search (\<lambda>i. cmp p (d ! i)) 0 n = find_index_from (\<lambda>x. cmp p x = 0) (take n d) 0"
proof -
  have le: "cmp (d ! i) (d ! j) \<le> 0" if "i \<le> j" "j < n" for i j
    using sorted_wrt_nth_less [OF assms(1), of i j] that assms(2) by (cases "i = j") auto
  have first: "binary_search (\<lambda>i. cmp p (d ! i)) 0 n = Some k
      \<longleftrightarrow> 0 \<le> k \<and> k < n \<and> cmp p (d ! k) = 0 \<and> (\<forall>j. 0 \<le> j \<longrightarrow> j < k \<longrightarrow> cmp p (d ! j) \<noteq> 0)" for k
  proof (rule binary_search_first)
    fix i j assume ij: "i \<le> j" "j < n"
    show "cmp p (d ! j) \<le> 0" if "cmp p (d ! i) \<le> 0" using le_trans [OF that le [OF ij]] .
    show "cmp p (d ! j) < 0" if "cmp p (d ! i) < 0"
    proof (rule ccontr)
      assume "\<not> cmp p (d ! j) < 0"
      then have "cmp (d ! i) p \<le> 0" using le_trans [OF le [OF ij] not_less] by blast
      then show False using that swap_sign [of p "d ! i"] by simp
    qed
  qed
  have "binary_search (\<lambda>i. cmp p (d ! i)) 0 n = Some k \<longleftrightarrow> find_index_from (\<lambda>x. cmp p x = 0) (take n d) 0 = Some k" for k
    unfolding first find_index_from_Some using assms(2) by auto
  then show ?thesis by (metis option.exhaust)
qed

end

definition sk_ordered :: "(ptr \<Rightarrow> ptr \<Rightarrow> ptr \<Rightarrow> int) \<Rightarrow> stack \<Rightarrow> bool" where
  "sk_ordered call s \<longleftrightarrow>
     (sorted_flag s \<longrightarrow> comp s \<noteq> 0 \<and> sorted_wrt (\<lambda>a b. call (comp s) a b \<le> 0) (items s))"

lemma short_sorted: "length xs < 2 \<Longrightarrow> sorted_wrt P xs"
  by (cases xs rule: remdups_adj.cases) simp_all

lemma sk_sort_spec:
  assumes "sk_wf s" "sk_ordered call s" "comparator (call (comp s))" "comp s \<noteq> 0"
  shows "\<exists>t. OPENSSL_sk_sort (Some s) call = Some t \<and> sk_wf t \<and> sorted_flag t \<and> comp t = comp s
    \<and> mset (items t) = mset (items s) \<and> sorted_wrt (\<lambda>a b. call (comp s) a b \<le> 0) (items t)"
proof (cases "sorted_flag s")
  case True
  then show ?thesis using assms by (auto simp: OPENSSL_sk_sort_def sk_ordered_def)
next
  case False
  note w = sk_wfD [OF assms(1)]
  show ?thesis
  proof (cases "2 \<le> num s")
    case True
    then show ?thesis
      using False w assms(1,4) comparator.sort_items_correct [OF assms(3), of "num s" "data s"]
      by (auto simp: OPENSSL_sk_sort_def Let_def items_def sk_wf_def)
  next
    case n: False
    then have "sorted_wrt (\<lambda>a b. call (comp s) a b \<le> 0) (items s)"
      using w(6) by (intro short_sorted) simp
    then show ?thesis using False n assms by (auto simp: OPENSSL_sk_sort_def Let_def items_def sk_wf_def)
  qed
qed

lemma sk_find_spec:
  assumes "sk_wf s" "sk_ordered call s" "comparator (call (comp s))"
  shows "OPENSSL_sk_find (Some s) p call =
    (if comp s = 0 then find_index_from (\<lambda>x. x = p) (items s) 0
     else if p = 0 then None
     else find_index_from (\<lambda>x. call (comp s) p x = 0) (items s) 0)"
proof (cases "comp s \<noteq> 0 \<and> p \<noteq> 0 \<and> OPENSSL_sk_is_sorted (Some s)")
  case True
  note w = sk_wfD [OF assms(1)]
  have "sorted_wrt (\<lambda>a b. call (comp s) a b \<le> 0) (take (num s) (data s))"
  proof (cases "sorted_flag s")
    case True
    then show ?thesis using assms(2) by (simp add: sk_ordered_def items_def)
  next
    case False
    then have "num s < 2" using True by (simp add: OPENSSL_sk_is_sorted_def)
    then show ?thesis using w(6) short_sorted [of "items s"] by (simp add: items_def)
  qed
  then show ?thesis
    using True w comparator.binary_search_is_linear [OF assms(3), of "num s" "data s" p] by (simp add: OPENSSL_sk_find_def items_def)
next
  case False
  then show ?thesis by (auto simp: OPENSSL_sk_find_def)
qed

section \<open>Sequences of operations\<close>

datatype sk_cmd =
    Insert ptr nat | Push ptr | Delete nat | Delete_ptr ptr | Delete_if "ptr \<Rightarrow> bool"
  | Set_at nat ptr | Zero | Pop | Shift

text \<open>The result is the pointer or the count that the function returns.\<close>

fun run_cmd :: "array_heap \<Rightarrow> sk_cmd \<Rightarrow> stack option \<Rightarrow> (ptr + nat) \<times> stack option" where
  "run_cmd h (Insert p pos) sk = map_prod Inr id (OPENSSL_sk_insert h sk p pos)"
| "run_cmd h (Push p) sk = map_prod Inr id (OPENSSL_sk_push h sk p)"
| "run_cmd h (Delete pos) sk = map_prod Inl id (OPENSSL_sk_delete sk pos)"
| "run_cmd h (Delete_ptr p) sk = map_prod Inl id (OPENSSL_sk_delete_ptr sk p)"
| "run_cmd h (Delete_if f) sk = (Inl 0, OPENSSL_sk_delete_if sk f)"
| "run_cmd h (Set_at i p) sk = map_prod Inl id (OPENSSL_sk_set sk i p)"
| "run_cmd h Zero sk = (Inl 0, OPENSSL_sk_zero sk)"
| "run_cmd h Pop sk = map_prod Inl id (OPENSSL_sk_pop sk)"
| "run_cmd h Shift sk = map_prod Inl id (OPENSSL_sk_shift sk)"

fun list_cmd :: "sk_cmd \<Rightarrow> ptr list \<Rightarrow> (ptr + nat) \<times> ptr list" where
  "list_cmd (Insert p pos) xs =
     (if length xs \<ge> INT_MAX then (Inr 0, xs) else (Inr (length xs + 1), list_insert_at pos p xs))"
| "list_cmd (Push p) xs = (if length xs \<ge> INT_MAX then (Inr 0, xs) else (Inr (length xs + 1), xs @ [p]))"
| "list_cmd (Delete pos) xs = (if pos \<ge> length xs then (Inl 0, xs) else (Inl (xs ! pos), list_delete_at pos xs))"
| "list_cmd (Delete_ptr p) xs = (if p \<in> set xs then (Inl p, remove1 p xs) else (Inl 0, xs))"
| "list_cmd (Delete_if f) xs = (Inl 0, filter (\<lambda>p. \<not> f p) xs)"
| "list_cmd (Set_at i p) xs = (if i \<ge> length xs then (Inl 0, xs) else (Inl p, xs[i := p]))"
| "list_cmd Zero xs = (Inl 0, [])"
| "list_cmd Pop xs = (if xs = [] then (Inl 0, xs) else (Inl (last xs), butlast xs))"
| "list_cmd Shift xs = (if xs = [] then (Inl 0, xs) else (Inl (hd xs), tl xs))"

fun run_cmds :: "(sk_cmd \<Rightarrow> 's \<Rightarrow> 'r \<times> 's) \<Rightarrow> sk_cmd list \<Rightarrow> 's \<Rightarrow> 'r list \<times> 's" where
  "run_cmds step [] s = ([], s)"
| "run_cmds step (c # cs) s = (case step c s of (r, t) \<Rightarrow> map_prod (Cons r) id (run_cmds step cs t))"

lemma find_index_remove1:
  "find_index_from (\<lambda>x. x = p) xs k = Some i \<Longrightarrow> p \<in> set xs \<and> xs ! (i - k) = p \<and> list_delete_at (i - k) xs = remove1 p xs"
proof (induction xs arbitrary: k)
  case (Cons x xs)
  show ?case
  proof (cases "x = p")
    case False
    then have f: "find_index_from (\<lambda>x. x = p) xs (k + 1) = Some i" using Cons.prems by simp
    then have "i - k = Suc (i - (k + 1))" using find_index_from_Some [of _ xs "k + 1" i] by auto
    then show ?thesis using Cons.IH [OF f] False by (simp add: list_delete_at_def)
  qed (use Cons.prems in \<open>auto simp: list_delete_at_def\<close>)
qed simp

lemma push_spec:
  assumes "sk_wf s" "array_heap_total h"
  shows "\<exists>t. OPENSSL_sk_insert h (Some s) p pos =
      (if num s \<ge> INT_MAX then (0, Some s) else (num s + 1, Some t))
    \<and> (num s < INT_MAX \<longrightarrow> sk_wf t \<and> items t = list_insert_at pos p (items s) \<and> comp t = comp s \<and> \<not> sorted_flag t)"
proof -
  obtain r s' where r: "OPENSSL_sk_insert h (Some s) p pos = (r, s')" by fastforce
  note sp = sk_insert_spec [OF assms(1) array_heap_total_ok [OF assms(2)] r] 
  show ?thesis
  proof (cases "num s \<ge> INT_MAX")
    case True
    then show ?thesis by (simp add: OPENSSL_sk_insert_def)
  next
    case False
    then show ?thesis using sp(1) sp(2) [OF assms(2)] r by fastforce
  qed
qed

lemma set_list_delete_at: "set (list_delete_at pos xs) \<subseteq> set xs"
  by (auto simp: list_delete_at_def dest: in_set_takeD in_set_dropD)

lemma sorted_wrt_list_delete_at: "sorted_wrt P xs \<Longrightarrow> sorted_wrt P (list_delete_at pos xs)"
proof (induction xs arbitrary: pos)
  case (Cons x xs)
  show ?case
  proof (cases pos)
    case 0
    then show ?thesis using Cons.prems by (simp add: list_delete_at_def)
  next
    case (Suc k)
    then have "list_delete_at pos (x # xs) = x # list_delete_at k xs" by (simp add: list_delete_at_def)
    then show ?thesis using Cons set_list_delete_at [of k xs] by auto
  qed
qed (simp add: list_delete_at_def)

lemma list_delete_at_ends: "xs \<noteq> [] \<Longrightarrow> list_delete_at (length xs - 1) xs = butlast xs" "list_delete_at 0 xs = tl xs"
  by (simp_all add: list_delete_at_def butlast_conv_take drop_Suc)

lemma sk_ordered_delete:
  assumes "sk_ordered call s" "sorted_flag t = sorted_flag s" "comp t = comp s" "items t = list_delete_at pos (items s)"
  shows "sk_ordered call t"
  using assms sorted_wrt_list_delete_at [of _ "items s" pos] by (auto simp: sk_ordered_def)

lemma sk_delete_refines:
  assumes "sk_wf s" "pos < num s"
  shows "\<exists>t. OPENSSL_sk_delete (Some s) pos = (items s ! pos, Some t) \<and> sk_wf t \<and> items t = list_delete_at pos (items s)
    \<and> comp t = comp s \<and> (sk_ordered call s \<longrightarrow> sk_ordered call t)"
  using sk_delete_spec(2) [OF assms] sk_ordered_delete [of call s _ pos] by auto

text \<open>One step: the result and contents of the list, and what becomes of the sorted flag.\<close>

lemma run_cmd_refines:
  assumes "sk_wf s" "array_heap_total h"
  shows "\<exists>t. run_cmd h c (Some s) = (fst (list_cmd c (items s)), Some t) \<and> sk_wf t
    \<and> items t = snd (list_cmd c (items s)) \<and> comp t = comp s
    \<and> (sk_ordered call s \<longrightarrow> (\<forall>i p. c \<noteq> Set_at i p) \<longrightarrow> sk_ordered call t)"
proof -
  note w = sk_wfD [OF assms(1)]
  note del = sk_delete_refines [OF assms(1), of _ call]
  show ?thesis
  proof (cases c)
    case (Insert p pos)
    then show ?thesis using push_spec [OF assms, of p pos] assms(1) w by (auto simp: sk_ordered_def split: if_splits)
  next
    case (Push p)
    then show ?thesis
      using push_spec [OF assms, of p "num s"] assms(1) w
      by (auto simp: sk_ordered_def OPENSSL_sk_push_def OPENSSL_sk_num_def list_insert_at_def split: if_splits)
  next
    case (Delete pos)
    then show ?thesis using del [of pos] sk_delete_spec(1) [OF assms(1), of pos] assms(1) w by (cases "pos < num s") auto
  next
    case (Delete_ptr p)
    show ?thesis
    proof (cases "find_index_from (\<lambda>x. x = p) (items s) 0")
      case None
      then show ?thesis
        using Delete_ptr assms(1) None [unfolded find_index_from_None] by (auto simp: OPENSSL_sk_delete_ptr_def)
    next
      case (Some i)
      then have "run_cmd h c (Some s) = map_prod Inl id (OPENSSL_sk_delete (Some s) i)"
        using Delete_ptr by (simp add: OPENSSL_sk_delete_ptr_def)
      then show ?thesis
        using Delete_ptr find_index_remove1 [OF Some] iffD1 [OF find_index_from_Some Some] del [of i] w by auto
    qed
  next
    case (Delete_if f)
    then show ?thesis
      using sk_delete_if_spec [OF assms(1), of f] sorted_wrt_filter [of _ "items s" "\<lambda>p. \<not> f p"] by (auto simp: sk_ordered_def)
  next
    case (Set_at i p)
    then show ?thesis using assms(1) w by (auto simp: OPENSSL_sk_set_def items_def sk_wf_def take_update_swap)
  next
    case Zero
    then show ?thesis using assms(1) w by (auto simp: OPENSSL_sk_zero_def items_def sk_wf_def memcpy_at_def sk_ordered_def)
  next
    case Pop
    then show ?thesis
      using del [of "num s - 1"] assms(1) w list_delete_at_ends(1) [of "items s"]
      by (auto simp: OPENSSL_sk_pop_def last_conv_nth)
  next
    case Shift
    then show ?thesis
      using del [of 0] assms(1) w list_delete_at_ends(2) [of "items s"] by (auto simp: OPENSSL_sk_shift_def hd_conv_nth)
  qed
qed

lemma run_cmds_refines:
  assumes "sk_wf s" "array_heap_total h"
  shows "\<exists>t. run_cmds (run_cmd h) cs (Some s) = (fst (run_cmds list_cmd cs (items s)), Some t) \<and> sk_wf t
    \<and> items t = snd (run_cmds list_cmd cs (items s)) \<and> comp t = comp s
    \<and> (sk_ordered call s \<longrightarrow> (\<forall>i p. Set_at i p \<notin> set cs) \<longrightarrow> sk_ordered call t)"
  using assms(1)
proof (induction cs arbitrary: s)
  case (Cons c cs)
  obtain u where u: "run_cmd h c (Some s) = (fst (list_cmd c (items s)), Some u)" "sk_wf u"
    "items u = snd (list_cmd c (items s))" "comp u = comp s"
    "sk_ordered call s \<longrightarrow> (\<forall>i p. c \<noteq> Set_at i p) \<longrightarrow> sk_ordered call u"
    using run_cmd_refines [OF Cons.prems assms(2)] by blast
  obtain t where t: "run_cmds (run_cmd h) cs (Some u) = (fst (run_cmds list_cmd cs (items u)), Some t)" "sk_wf t"
    "items t = snd (run_cmds list_cmd cs (items u))" "comp t = comp u"
    "sk_ordered call u \<longrightarrow> (\<forall>i p. Set_at i p \<notin> set cs) \<longrightarrow> sk_ordered call t"
    using Cons.IH [OF u(2)] by blast
  show ?case
    using u t by (intro exI [of _ t]) (auto simp: split: prod.split)
qed simp

section \<open>Creation and copies\<close>

lemma sk_new_wf: "OPENSSL_sk_new h ah c = Some s \<Longrightarrow> sk_wf s \<and> items s = [] \<and> comp s = c \<and> \<not> sorted_flag s"
  by (auto simp: OPENSSL_sk_new_def sk_wf_def items_def kMinSize_def INT_MAX_def split: option.splits)

lemma sk_dup_eq: "sk_wf s \<Longrightarrow> OPENSSL_sk_dup h ah (Some s) = Some t \<Longrightarrow> t = s"
  by (auto simp: OPENSSL_sk_dup_def sk_wf_def split: option.splits if_splits)

text \<open>The copy of the \<open>j\<close>-th pointer: \<open>NULL\<close> is not passed to the copy function.\<close>

definition copied :: "(nat \<Rightarrow> ptr \<Rightarrow> ptr) \<Rightarrow> ptr list \<Rightarrow> nat \<Rightarrow> ptr" where
  "copied copy d j = (if d ! j = 0 then 0 else copy j (d ! j))"

lemma deep_copy_loop_spec:
  assumes "i \<le> n" "n \<le> length d0" "d = map (copied copy d0) [0..<i] @ drop i d0" "\<forall>j<i. copied copy d0 j = 0 \<longrightarrow> d0 ! j = 0"
  shows "case deep_copy_loop copy n i d of
       Inr d' \<Rightarrow> d' = map (copied copy d0) [0..<n] @ drop n d0 \<and> (\<forall>j<n. copied copy d0 j = 0 \<longrightarrow> d0 ! j = 0)
     | Inl freed \<Rightarrow> \<exists>k<n. d0 ! k \<noteq> 0 \<and> copied copy d0 k = 0 \<and> (\<forall>j<k. copied copy d0 j = 0 \<longrightarrow> d0 ! j = 0)
         \<and> freed = [p \<leftarrow> map (copied copy d0) [0..<k]. p \<noteq> 0]"
  using assms
proof (induction "n - i" arbitrary: i d)
  case 0
  then have "i = n" by simp
  then show ?case using 0 by (simp add: deep_copy_loop.simps)
next
  case (Suc m)
  then have i: "i < n" by simp
  have di: "d ! i = d0 ! i" "length d = length d0" using Suc.prems i by (simp_all add: nth_append)
  have upd: "d[i := q] = (map (copied copy d0) [0..<i] @ [q]) @ drop (Suc i) d0" for q
    using Suc.prems(2) i unfolding Suc.prems(3) by (simp add: list_update_append upd_conv_take_nth_drop Cons_nth_drop_Suc [symmetric])
  have step: "map (copied copy d0) [0..<i] @ [copied copy d0 i] = map (copied copy d0) [0..<Suc i]" by simp
  consider "d0 ! i = 0" | "d0 ! i \<noteq> 0" "copy i (d0 ! i) = 0" | "d0 ! i \<noteq> 0" "copy i (d0 ! i) \<noteq> 0" by blast
  then show ?case
  proof cases
    case 1
    have "d = map (copied copy d0) [0..<Suc i] @ drop (Suc i) d0"
    proof -
      have "drop i d0 = d0 ! i # drop (Suc i) d0" using i Suc.prems(2) by (simp add: Cons_nth_drop_Suc)
      then show ?thesis unfolding Suc.prems(3) step [symmetric] using 1 by (simp add: copied_def)
    qed
    then show ?thesis
      using Suc.hyps(1) [of "Suc i" d] Suc.hyps(2) Suc.prems i 1 di by (simp add: deep_copy_loop.simps [of copy n i] less_Suc_eq)
  next
    case 2
    have m: "map (\<lambda>j. d[i := 0] ! j) [0..<i] = map (copied copy d0) [0..<i]"
      unfolding upd by (rule map_cong) (auto simp: nth_append)
    have "deep_copy_loop copy n i d = Inl [p \<leftarrow> map (\<lambda>j. d[i := 0] ! j) [0..<i]. p \<noteq> 0]"
      by (subst deep_copy_loop.simps) (simp only: i 2 di Let_def if_True if_False simp_thms)
    moreover have "copied copy d0 i = 0" using 2 by (simp add: copied_def)
    ultimately show ?thesis unfolding m using i 2(1) Suc.prems(4) by (simp only: sum.case) blast
  next
    case 3
    have d: "d[i := copy i (d0 ! i)] = map (copied copy d0) [0..<Suc i] @ drop (Suc i) d0"
      unfolding upd step [symmetric] using 3 by (simp add: copied_def)
    have nz: "\<forall>j<Suc i. copied copy d0 j = 0 \<longrightarrow> d0 ! j = 0"
    proof (intro allI impI)
      fix j assume "j < Suc i" "copied copy d0 j = 0"
      moreover have "copied copy d0 i \<noteq> 0" using 3 by (simp add: copied_def)
      ultimately show "d0 ! j = 0" using Suc.prems(4) by (metis less_antisym)
    qed
    have eq: "deep_copy_loop copy n i d = deep_copy_loop copy n (Suc i) (d[i := copy i (d0 ! i)])"
      by (subst deep_copy_loop.simps) (simp only: i 3 di Let_def if_True if_False simp_thms Suc_eq_plus1)
    have "m = n - Suc i" "Suc i \<le> n" using Suc.hyps(2) i by simp_all
    then show ?thesis unfolding eq by (rule Suc.hyps(1) [OF _ _ Suc.prems(2) d nz])
  qed
qed

lemma sk_deep_copy_spec:
  assumes "sk_wf s"
  shows "OPENSSL_sk_deep_copy h ah (Some s) copy = (Some t, freed) \<Longrightarrow>
      freed = [] \<and> sk_wf t \<and> items t = map (copied copy (items s)) [0..<num s]
      \<and> (\<forall>j < num s. items t ! j = 0 \<longrightarrow> items s ! j = 0)"
    and "OPENSSL_sk_deep_copy h ah (Some s) copy = (None, freed) \<Longrightarrow>
      (OPENSSL_sk_dup h ah (Some s) = None \<and> freed = []) \<or>
      (\<exists>k < num s. items s ! k \<noteq> 0 \<and> copied copy (items s) k = 0 \<and> (\<forall>j<k. copied copy (items s) j = 0 \<longrightarrow> items s ! j = 0)
        \<and> freed = [p \<leftarrow> map (copied copy (items s)) [0..<k]. p \<noteq> 0])"
proof -
  note w = sk_wfD [OF assms]
  have nth: "items s ! j = data s ! j" if "j < num s" for j using that w by (simp add: items_def)
  have cp: "copied copy (items s) j = copied copy (data s) j" if "j < num s" for j using nth [OF that] by (simp add: copied_def)
  have mp: "map (copied copy (items s)) [0..<k] = map (copied copy (data s)) [0..<k]" if "k \<le> num s" for k
    by (rule map_cong [OF refl]) (use cp that in auto)
  note l = deep_copy_loop_spec [of 0 "num s" "data s" "data s" copy, simplified]
  show "freed = [] \<and> sk_wf t \<and> items t = map (copied copy (items s)) [0..<num s]
      \<and> (\<forall>j < num s. items t ! j = 0 \<longrightarrow> items s ! j = 0)" if r: "OPENSSL_sk_deep_copy h ah (Some s) copy = (Some t, freed)"
  proof -
    obtain d where d: "deep_copy_loop copy (num s) 0 (data s) = Inr d" "t = s\<lparr>data := d\<rparr>" "freed = []"
      using r by (auto simp: OPENSSL_sk_deep_copy_def dest!: sk_dup_eq [OF assms] split: option.splits sum.splits)
    then show ?thesis using l w mp [of "num s"] nth by (auto simp: items_def sk_wf_def)
  qed
  show "(OPENSSL_sk_dup h ah (Some s) = None \<and> freed = []) \<or>
      (\<exists>k < num s. items s ! k \<noteq> 0 \<and> copied copy (items s) k = 0 \<and> (\<forall>j<k. copied copy (items s) j = 0 \<longrightarrow> items s ! j = 0)
        \<and> freed = [p \<leftarrow> map (copied copy (items s)) [0..<k]. p \<noteq> 0])" if r: "OPENSSL_sk_deep_copy h ah (Some s) copy = (None, freed)"
  proof (cases "OPENSSL_sk_dup h ah (Some s)")
    case None
    then show ?thesis using r by (simp add: OPENSSL_sk_deep_copy_def)
  next
    case (Some u)
    then have "deep_copy_loop copy (num s) 0 (data s) = Inl freed"
      using r sk_dup_eq [OF assms Some] by (auto simp: OPENSSL_sk_deep_copy_def split: sum.splits)
    then obtain k where k: "k < num s" "data s ! k \<noteq> 0" "copied copy (data s) k = 0" "\<forall>j<k. copied copy (data s) j = 0 \<longrightarrow> data s ! j = 0"
        "freed = [p \<leftarrow> map (copied copy (data s)) [0..<k]. p \<noteq> 0]"
      using l w by auto
    moreover have "freed = [p \<leftarrow> map (copied copy (items s)) [0..<k]. p \<noteq> 0]"
      unfolding mp [OF less_imp_le [OF k(1)]] by (rule k(5))
    ultimately show ?thesis using nth cp by (intro disjI2 exI [of _ k]) auto
  qed
qed

end
