(* ===== verification/Unicode.thy ===== *)
theory Unicode
  imports CbbAsn1
begin

text \<open>
  \<open>crypto/bytestring/unicode.c\<close>: code points in UTF-8, Latin-1, UCS-2 and UTF-32. Each encoding is read
  exactly as it is written; the locale \<open>cbb_codec\<close> is interpreted for all four.
\<close>

section \<open>Code points\<close>

definition is_valid_code_point :: "u32 \<Rightarrow> bool" where
  "is_valid_code_point v \<longleftrightarrow>
     \<not> (v > 0x10ffff \<or> v AND 0xfffe = 0xfffe \<or> (v \<ge> 0xfdd0 \<and> v \<le> 0xfdef) \<or> (v \<ge> 0xd800 \<and> v \<le> 0xdfff))"

definition BOTTOM_BITS :: "nat \<Rightarrow> u8" where
  "BOTTOM_BITS n = ucast (push_bit n 1 - 1 :: u32)"

definition TOP_BITS :: "nat \<Rightarrow> u8" where
  "TOP_BITS n = NOT (BOTTOM_BITS (8 - n))"

section \<open>Reading\<close>

text \<open>The loop over the continuation bytes.\<close>

fun utf8_loop :: "nat \<Rightarrow> u32 \<Rightarrow> (cbs, u32) op" where
  "utf8_loop 0 v = op_return v"
| "utf8_loop (Suc len) v =
     op_bind CBS_get_u8 (\<lambda>c.
       if c AND TOP_BITS 2 \<noteq> TOP_BITS 1 then op_fail
       else utf8_loop len (push_bit 6 v OR ucast (c AND BOTTOM_BITS 6)))"

definition CBS_get_utf8 :: "(cbs, u32) op" where
  "CBS_get_utf8 =
     op_bind CBS_get_u8 (\<lambda>c.
       if c \<le> 0x7f then op_return (ucast c)
       else
         let tail = (\<lambda>v len lower_bound.
               op_bind (utf8_loop len v) (\<lambda>v.
                 if \<not> is_valid_code_point v \<or> v < lower_bound then op_fail else op_return v))
         in if c AND TOP_BITS 3 = TOP_BITS 2 then tail (ucast (c AND BOTTOM_BITS 5)) 1 0x80
            else if c AND TOP_BITS 4 = TOP_BITS 3 then tail (ucast (c AND BOTTOM_BITS 4)) 2 0x800
            else if c AND TOP_BITS 5 = TOP_BITS 4 then tail (ucast (c AND BOTTOM_BITS 3)) 3 0x10000
            else op_fail)"

definition CBS_get_latin1 :: "(cbs, u32) op" where
  "CBS_get_latin1 = op_bind CBS_get_u8 (\<lambda>c. op_return (ucast c))"

definition CBS_get_ucs2_be :: "(cbs, u32) op" where
  "CBS_get_ucs2_be =
     op_bind CBS_get_u16 (\<lambda>c. if \<not> is_valid_code_point (ucast c) then op_fail else op_return (ucast c))"

definition CBS_get_utf32_be :: "(cbs, u32) op" where
  "CBS_get_utf32_be = op_bind CBS_get_u32 (\<lambda>v. if is_valid_code_point v then op_return v else op_fail)"

section \<open>Writing\<close>

definition CBB_get_utf8_len :: "u32 \<Rightarrow> nat" where
  "CBB_get_utf8_len u = (if u \<le> 0x7f then 1 else if u \<le> 0x7ff then 2 else if u \<le> 0xffff then 3 else 4)"

definition CBB_add_utf8 :: "nat \<Rightarrow> u32 \<Rightarrow> (cbb, unit) op" where
  "CBB_add_utf8 d u =
     (let lead = (\<lambda>n v. CBB_add_u8 d (ucast ((ucast (TOP_BITS n) :: u32) OR v)));
          cont = (\<lambda>v. CBB_add_u8 d (ucast ((ucast (TOP_BITS 1) :: u32) OR (v AND ucast (BOTTOM_BITS 6)))))
      in if \<not> is_valid_code_point u then op_fail
         else if u \<le> 0x7f then CBB_add_u8 d (ucast u)
         else if u \<le> 0x7ff then op_bind (lead 2 (drop_bit 6 u)) (\<lambda>_. cont u)
         else if u \<le> 0xffff then
           op_bind (lead 3 (drop_bit 12 u)) (\<lambda>_. op_bind (cont (drop_bit 6 u)) (\<lambda>_. cont u))
         else if u \<le> 0x10ffff then
           op_bind (lead 4 (drop_bit 18 u)) (\<lambda>_.
             op_bind (cont (drop_bit 12 u)) (\<lambda>_. op_bind (cont (drop_bit 6 u)) (\<lambda>_. cont u)))
         else op_fail)"

definition CBB_add_latin1 :: "nat \<Rightarrow> u32 \<Rightarrow> (cbb, unit) op" where
  "CBB_add_latin1 d u = (if u \<le> 0xff then CBB_add_u8 d (ucast u) else op_fail)"

definition CBB_add_ucs2_be :: "nat \<Rightarrow> u32 \<Rightarrow> (cbb, unit) op" where
  "CBB_add_ucs2_be d u = (if u \<le> 0xffff \<and> is_valid_code_point u then CBB_add_u16 d (ucast u) else op_fail)"

definition CBB_add_utf32_be :: "nat \<Rightarrow> u32 \<Rightarrow> (cbb, unit) op" where
  "CBB_add_utf32_be d u = (if is_valid_code_point u then CBB_add_u32 d u else op_fail)"

section \<open>UTF-8 as arithmetic\<close>

definition utf8_cont :: "nat \<Rightarrow> u8" where
  "utf8_cont n = word_of_nat (128 + n mod 64)"

text \<open>Table 3-6 of the Unicode standard.\<close>

definition utf8 :: "nat \<Rightarrow> bytes" where
  "utf8 n =
     (if n < 0x80 then [word_of_nat n]
      else if n < 0x800 then [word_of_nat (192 + n div 64), utf8_cont n]
      else if n < 0x10000 then [word_of_nat (224 + n div 64 div 64), utf8_cont (n div 64), utf8_cont n]
      else [word_of_nat (240 + n div 64 div 64 div 64), utf8_cont (n div 64 div 64), utf8_cont (n div 64), utf8_cont n])"

lemma bits_eval [simp]:
  "TOP_BITS 1 = 0x80" "TOP_BITS (Suc 0) = 0x80" "TOP_BITS 2 = 0xc0" "TOP_BITS 3 = 0xe0" "TOP_BITS 4 = 0xf0" "TOP_BITS 5 = 0xf8"
  "BOTTOM_BITS 3 = 0x07" "BOTTOM_BITS 4 = 0x0f" "BOTTOM_BITS 5 = 0x1f" "BOTTOM_BITS 6 = 0x3f"
  by (code_simp)+

lemma unat_and_high: "unat (c AND NOT (mask n) :: 'a::len word) = unat c div 2 ^ n * 2 ^ n"
proof -
  have "c AND NOT (mask n) = push_bit n (drop_bit n c)"
    by (rule bit_word_eqI) (auto simp: bit_simps possible_bit_def)
  moreover have "unat (push_bit n (drop_bit n c)) = unat (drop_bit n c) * 2 ^ n"
  proof (rule unat_push_bit_exact)
    have "unat c div 2 ^ n * 2 ^ n \<le> unat c" by simp
    also have "\<dots> < 2 ^ LENGTH('a)" by (rule unsigned_less)
    finally show "unat (drop_bit n c) * 2 ^ n < 2 ^ LENGTH('a)" by (simp only: unat_drop_bit_div)
  qed
  ultimately show ?thesis by (simp only: unat_drop_bit_div)
qed

lemma unat_class: "unat (0x80 :: u8) = 128" "unat (0xc0 :: u8) = 192" "unat (0xe0 :: u8) = 224" "unat (0xf0 :: u8) = 240"
  by simp_all

lemma utf8_byte_classes:
  "c AND 0xc0 = 0x80 \<longleftrightarrow> 128 \<le> unat c \<and> unat c < 192"
  "c AND 0xe0 = 0xc0 \<longleftrightarrow> 192 \<le> unat c \<and> unat c < 224"
  "c AND 0xf0 = 0xe0 \<longleftrightarrow> 224 \<le> unat c \<and> unat c < 240"
  "c AND 0xf8 = 0xf0 \<longleftrightarrow> 240 \<le> unat c \<and> unat c < 248" for c :: u8
proof -
  have m: "(0xc0 :: u8) = NOT (mask 6)" "(0xe0 :: u8) = NOT (mask 5)" "(0xf0 :: u8) = NOT (mask 4)" "(0xf8 :: u8) = NOT (mask 3)"
    by (simp_all add: mask_eq_exp_minus_1)
  have "unat (c AND 0xc0) = unat c div 64 * 64" "unat (c AND 0xe0) = unat c div 32 * 32"
    "unat (c AND 0xf0) = unat c div 16 * 16" "unat (c AND 0xf8) = unat c div 8 * 8"
    unfolding m unat_and_high by simp_all
  moreover have "k div 64 * 64 = 128 \<longleftrightarrow> 128 \<le> k \<and> k < 192" "k div 32 * 32 = 192 \<longleftrightarrow> 192 \<le> k \<and> k < 224"
    "k div 16 * 16 = 224 \<longleftrightarrow> 224 \<le> k \<and> k < 240" "k div 8 * 8 = 240 \<longleftrightarrow> 240 \<le> k \<and> k < 248" for k :: nat
    by auto
  ultimately show "c AND 0xc0 = 0x80 \<longleftrightarrow> 128 \<le> unat c \<and> unat c < 192"
    "c AND 0xe0 = 0xc0 \<longleftrightarrow> 192 \<le> unat c \<and> unat c < 224"
    "c AND 0xf0 = 0xe0 \<longleftrightarrow> 224 \<le> unat c \<and> unat c < 240"
    "c AND 0xf8 = 0xf0 \<longleftrightarrow> 240 \<le> unat c \<and> unat c < 248"
    by (simp_all only: word_unat_eq_iff unat_class)
qed

lemma unat_utf8_cont [simp]: "unat (utf8_cont n) = 128 + n mod 64"
  using mod_less_divisor [of 64 n] by (simp add: utf8_cont_def del: of_nat_add)

lemma utf8_cont_iff: "c AND 0xc0 = 0x80 \<and> unat (c AND 0x3f) = n mod 64 \<longleftrightarrow> c = utf8_cont n" for c :: u8
proof -
  have "unat (c AND 0x3f) = unat c mod 64" by (simp add: byte_simps unat_take_bit_mod)
  moreover have "128 \<le> k \<and> k < 192 \<and> k mod 64 = n mod 64 \<longleftrightarrow> k = 128 + n mod 64" for k :: nat
  proof
    assume k: "128 \<le> k \<and> k < 192 \<and> k mod 64 = n mod 64"
    then obtain j where "k = 128 + j" using le_Suc_ex by blast
    then show "k = 128 + n mod 64" using k mod_mult_self2 [of j 64 2] by (simp add: add.commute)
  qed (use mod_less_divisor [of 64 n] mod_mult_self2 [of "n mod 64" 64 2] in \<open>simp add: add.commute\<close>)
  moreover have "c = utf8_cont n \<longleftrightarrow> unat c = 128 + n mod 64"
    by (simp add: word_unat_eq_iff)
  ultimately show ?thesis by (simp add: utf8_byte_classes)
qed

lemma valid_code_point_less: "is_valid_code_point v \<Longrightarrow> unat v < 0x110000"
  by (simp add: is_valid_code_point_def word_less_nat_alt)

text \<open>One continuation byte: the value so far, shifted, plus its six bits.\<close>

lemma utf8_step:
  assumes "unat v < 2 ^ 26"
  shows "unat (push_bit 6 v OR ucast (c AND 0x3f :: u8) :: u32) = unat v * 64 + unat c mod 64"
proof -
  have "unat (ucast (c AND 0x3f :: u8) :: u32) = unat c mod 64" by (simp add: byte_simps unat_take_bit_mod)
  moreover have "unat (push_bit 6 v OR (ucast (c AND 0x3f :: u8) :: u32)) = unat v * 2 ^ 6 + unat (ucast (c AND 0x3f :: u8) :: u32)"
    using assms calculation by (intro unat_push_or) simp_all
  ultimately show ?thesis by simp
qed

lemma utf8_loop_Suc:
  assumes "unat v < 2 ^ 26"
  shows "utf8_loop (Suc len) v bs = (Some w, rest) \<longleftrightarrow>
    (\<exists>m t. m div 64 = unat v \<and> bs = utf8_cont m # t \<and> utf8_loop len (word_of_nat m) t = (Some w, rest))" (is "?l \<longleftrightarrow> ?r")
proof
  assume ?l
  then obtain c t where c: "bs = c # t" "c AND 0xc0 = 0x80"
    "utf8_loop len (push_bit 6 v OR ucast (c AND 0x3f)) t = (Some w, rest)"
    by (cases bs) (auto simp: op_simps op_bind_def split: if_splits)
  let ?m = "unat v * 64 + unat c mod 64"
  have "word_of_nat ?m = push_bit 6 v OR (ucast (c AND 0x3f) :: u32)"
    by (rule eq_word_of_natI [symmetric]) (rule utf8_step [OF assms])
  moreover have "c = utf8_cont ?m"
    using c(2) by (intro utf8_cont_iff [THEN iffD1]) (simp add: byte_simps unat_take_bit_mod)
  ultimately show ?r using c by (intro exI [of _ ?m] exI [of _ t]) simp
next
  assume ?r
  then obtain m t where m: "m div 64 = unat v" "bs = utf8_cont m # t" "utf8_loop len (word_of_nat m) t = (Some w, rest)"
    by blast
  have c: "utf8_cont m AND 0xc0 = 0x80" "unat (utf8_cont m) mod 64 = m mod 64"
    using utf8_cont_iff [of "utf8_cont m" m] by (simp_all add: byte_simps unat_take_bit_mod)
  have "word_of_nat m = push_bit 6 v OR (ucast (utf8_cont m AND 0x3f) :: u32)"
    using utf8_step [OF assms, of "utf8_cont m"] c(2) m(1) div_mult_mod_eq [of m 64]
    by (intro eq_word_of_natI [symmetric]) simp
  then show ?l using m c by (simp add: op_simps)
qed


declare utf8_loop.simps(2) [simp del]

lemma utf8_loop_1:
  assumes "k < 2 ^ 26"
  shows "utf8_loop 1 (word_of_nat k) bs = (Some w, rest) \<longleftrightarrow>
    (\<exists>n. n div 64 = k \<and> w = word_of_nat n \<and> bs = utf8_cont n # rest)"
proof -
  have "unat (word_of_nat k :: u32) = k" using assms by (simp add: unat_of_nat)
  then show ?thesis using utf8_loop_Suc [of "word_of_nat k" 0] assms by (auto simp: op_simps)
qed

lemma utf8_loop_2:
  assumes "k < 2 ^ 20"
  shows "utf8_loop 2 (word_of_nat k) bs = (Some w, rest) \<longleftrightarrow>
    (\<exists>n. n div 64 div 64 = k \<and> w = word_of_nat n \<and> bs = utf8_cont (n div 64) # utf8_cont n # rest)"
proof -
  have "unat (word_of_nat k :: u32) = k" using assms by (simp add: unat_of_nat)
  then have a: "utf8_loop 2 (word_of_nat k) bs = (Some w, rest) \<longleftrightarrow>
      (\<exists>m t. m div 64 = k \<and> bs = utf8_cont m # t \<and> utf8_loop 1 (word_of_nat m) t = (Some w, rest))"
    using utf8_loop_Suc [of "word_of_nat k" 1 bs w rest, unfolded Suc_1] assms by (simp)
  have "m < 2 ^ 26" if "m div 64 = k" for m using assms that by auto
  then have b: "m div 64 = k \<Longrightarrow> utf8_loop 1 (word_of_nat m) t = (Some w, rest) \<longleftrightarrow>
      (\<exists>n. n div 64 = m \<and> w = word_of_nat n \<and> t = utf8_cont n # rest)" for m t
    by (rule utf8_loop_1)
  show ?thesis unfolding a using b by blast
qed

lemma utf8_loop_3:
  assumes "k < 2 ^ 14"
  shows "utf8_loop 3 (word_of_nat k) bs = (Some w, rest) \<longleftrightarrow>
    (\<exists>n. n div 64 div 64 div 64 = k \<and> w = word_of_nat n
       \<and> bs = utf8_cont (n div 64 div 64) # utf8_cont (n div 64) # utf8_cont n # rest)"
proof -
  have "unat (word_of_nat k :: u32) = k" using assms by (simp add: unat_of_nat)
  then have a: "utf8_loop 3 (word_of_nat k) bs = (Some w, rest) \<longleftrightarrow>
      (\<exists>m t. m div 64 = k \<and> bs = utf8_cont m # t \<and> utf8_loop 2 (word_of_nat m) t = (Some w, rest))"
    using utf8_loop_Suc [of "word_of_nat k" 2 bs w rest] assms by (simp)
  have "m < 2 ^ 20" if "m div 64 = k" for m using assms that by auto
  then have b: "m div 64 = k \<Longrightarrow> utf8_loop 2 (word_of_nat m) t = (Some w, rest) \<longleftrightarrow>
      (\<exists>n. n div 64 div 64 = m \<and> w = word_of_nat n \<and> t = utf8_cont (n div 64) # utf8_cont n # rest)" for m t
    by (rule utf8_loop_2)
  show ?thesis unfolding a using b by blast
qed

section \<open>The codec\<close>

lemma utf8_lead:
  "192 \<le> unat c \<Longrightarrow> unat c < 224 \<Longrightarrow> ucast (c AND 0x1f) = (word_of_nat (unat c - 192) :: u32)"
  "224 \<le> unat c \<Longrightarrow> unat c < 240 \<Longrightarrow> ucast (c AND 0x0f) = (word_of_nat (unat c - 224) :: u32)"
  "240 \<le> unat c \<Longrightarrow> unat c < 248 \<Longrightarrow> ucast (c AND 0x07) = (word_of_nat (unat c - 240) :: u32)" for c :: u8
proof -
  have r: "unat c mod 2 ^ k = j" if "unat c = 2 ^ k * q + j" "j < 2 ^ k" for k q j using that by simp
  have *: "ucast (c AND x) = (word_of_nat j :: u32)" if "c AND x = take_bit k c" "unat c mod 2 ^ k = j" for x k j
    using that by (intro eq_word_of_natI) (simp add: unat_take_bit_mod)
  show "192 \<le> unat c \<Longrightarrow> unat c < 224 \<Longrightarrow> ucast (c AND 0x1f) = (word_of_nat (unat c - 192) :: u32)"
    by (rule * [where k = 5], simp add: byte_simps, rule r [where q = 6]) auto
  show "224 \<le> unat c \<Longrightarrow> unat c < 240 \<Longrightarrow> ucast (c AND 0x0f) = (word_of_nat (unat c - 224) :: u32)"
    by (rule * [where k = 4], simp add: byte_simps, rule r [where q = 14]) auto
  show "240 \<le> unat c \<Longrightarrow> unat c < 248 \<Longrightarrow> ucast (c AND 0x07) = (word_of_nat (unat c - 240) :: u32)"
    by (rule * [where k = 3], simp add: byte_simps, rule r [where q = 30]) auto
qed

lemma valid_ascii: "unat v < 128 \<Longrightarrow> is_valid_code_point v"
proof -
  assume v: "unat v < 128"
  have "unat (v AND 0xfffe) \<le> unat v" by (simp add: word_and_le2 flip: word_le_nat_alt)
  then have "v AND 0xfffe \<noteq> 0xfffe" using v by (auto simp: word_unat_eq_iff)
  then show ?thesis using v by (simp add: is_valid_code_point_def word_le_nat_alt word_less_nat_alt)
qed

text \<open>The reader by the class of the first byte.\<close>

lemma get_utf8_cases:
  "unat c < 128 \<Longrightarrow> CBS_get_utf8 (c # bs) = (Some (ucast c), bs)"
  "192 \<le> unat c \<Longrightarrow> unat c < 224 \<Longrightarrow> CBS_get_utf8 (c # bs) = (Some v, rest) \<longleftrightarrow>
     utf8_loop 1 (word_of_nat (unat c - 192)) bs = (Some v, rest) \<and> is_valid_code_point v \<and> 0x80 \<le> unat v"
  "224 \<le> unat c \<Longrightarrow> unat c < 240 \<Longrightarrow> CBS_get_utf8 (c # bs) = (Some v, rest) \<longleftrightarrow>
     utf8_loop 2 (word_of_nat (unat c - 224)) bs = (Some v, rest) \<and> is_valid_code_point v \<and> 0x800 \<le> unat v"
  "240 \<le> unat c \<Longrightarrow> unat c < 248 \<Longrightarrow> CBS_get_utf8 (c # bs) = (Some v, rest) \<longleftrightarrow>
     utf8_loop 3 (word_of_nat (unat c - 240)) bs = (Some v, rest) \<and> is_valid_code_point v \<and> 0x10000 \<le> unat v"
  by (auto simp: CBS_get_utf8_def op_simps Let_def utf8_byte_classes word_le_nat_alt word_less_nat_alt utf8_lead
      op_bind_eq_Some split: if_splits)

lemma get_utf8_other:
  "128 \<le> unat c \<Longrightarrow> unat c < 192 \<or> 248 \<le> unat c \<Longrightarrow> CBS_get_utf8 (c # bs) = (None, bs)"
  by (auto simp: CBS_get_utf8_def op_simps Let_def utf8_byte_classes word_le_nat_alt)

lemma byte_of_unat: "unat (c :: u8) = n \<Longrightarrow> word_of_nat n = c"
  by auto

lemma get_utf8_sound:
  assumes "CBS_get_utf8 bs = (Some v, rest)"
  shows "is_valid_code_point v \<and> bs = utf8 (unat v) @ rest"
proof (cases bs)
  case Nil
  then show ?thesis using assms by (simp add: CBS_get_utf8_def op_simps op_bind_def)
next
  case (Cons c t)
  have vn: "unat v = n" if "v = word_of_nat n" "n < 2 ^ 32" for n using that by (simp add: unat_of_nat)
  consider "unat c < 128" | "192 \<le> unat c" "unat c < 224" | "224 \<le> unat c" "unat c < 240" | "240 \<le> unat c" "unat c < 248"
    | "128 \<le> unat c" "unat c < 192 \<or> 248 \<le> unat c" by linarith
  then show ?thesis
  proof cases
    case 1
    then have v: "v = ucast c" "rest = t" using assms Cons by (simp_all add: get_utf8_cases(1))
    then have "unat v = unat c" by simp
    then show ?thesis using 1 v(2) Cons valid_ascii [of v] by (simp add: utf8_def)
  next
    case 2
    then obtain n where n: "n div 64 = unat c - 192" "v = word_of_nat n" "t = utf8_cont n # rest"
      and v: "is_valid_code_point v" "0x80 \<le> unat v"
      using utf8_loop_1 [of "unat c - 192" t v rest] get_utf8_cases(2) [of c t v rest] assms Cons by auto
    moreover have "n < 0x800" using n(1) 2 by auto
    moreover have "word_of_nat (192 + n div 64) = c" using n(1) 2 by (intro byte_of_unat) simp
    ultimately show ?thesis using vn [of n] Cons by (simp add: utf8_def)
  next
    case 3
    then obtain n where n: "n div 64 div 64 = unat c - 224" "v = word_of_nat n" "t = utf8_cont (n div 64) # utf8_cont n # rest"
      and v: "is_valid_code_point v" "0x800 \<le> unat v"
      using utf8_loop_2 [of "unat c - 224" t v rest] get_utf8_cases(3) [of c t v rest] assms Cons by auto
    moreover have "n div 64 < 0x400" using n(1) 3 by auto
    moreover then have "n < 0x10000" by auto
    moreover have "word_of_nat (224 + n div 64 div 64) = c" using n(1) 3 by (intro byte_of_unat) simp
    ultimately show ?thesis using vn [of n] Cons by (simp add: utf8_def)
  next
    case 4
    then obtain n where n: "n div 64 div 64 div 64 = unat c - 240" "v = word_of_nat n"
      "t = utf8_cont (n div 64 div 64) # utf8_cont (n div 64) # utf8_cont n # rest"
      and v: "is_valid_code_point v" "0x10000 \<le> unat v"
      using utf8_loop_3 [of "unat c - 240" t v rest] get_utf8_cases(4) [of c t v rest] assms Cons by auto
    moreover have "n div 64 div 64 < 0x200" using n(1) 4 by auto
    moreover then have "n div 64 < 0x8000" by auto
    moreover then have "n < 0x200000" by auto
    moreover have "word_of_nat (240 + n div 64 div 64 div 64) = c" using n(1) 4 by (intro byte_of_unat) simp
    ultimately show ?thesis using vn [of n] Cons by (simp add: utf8_def)
  next
    case 5
    then show ?thesis using assms Cons by (simp add: get_utf8_other)
  qed
qed

lemma get_utf8_complete:
  assumes "is_valid_code_point v"
  shows "CBS_get_utf8 (utf8 (unat v) @ rest) = (Some v, rest)"
proof -
  have n: "unat v < 0x110000" using valid_code_point_less [OF assms] .
  have w: "word_of_nat (unat v) = v" by simp
  consider "unat v < 0x80" | "0x80 \<le> unat v" "unat v < 0x800" | "0x800 \<le> unat v" "unat v < 0x10000" | "0x10000 \<le> unat v" by linarith
  then show ?thesis
  proof cases
    case 1
    define c :: u8 where "c = ucast v"
    have "unat c < 128" "ucast c = v" using 1 by (simp_all add: c_def word_unat_eq_iff unat_ucast_mod)
    then show ?thesis using 1 get_utf8_cases(1) [of c rest] by (simp add: utf8_def c_def [symmetric])
  next
    case 2
    define c :: u8 where "c = word_of_nat (192 + unat v div 64)"
    have c: "unat c = 192 + unat v div 64" "unat v div 64 < 32" using 2 by (auto simp: c_def simp del: of_nat_add)
    moreover have "utf8_loop 1 (word_of_nat (unat v div 64)) (utf8_cont (unat v) # rest) = (Some v, rest)"
      using c w by (subst utf8_loop_1) (auto intro!: exI [of _ "unat v"])
    moreover have "utf8 (unat v) = [c, utf8_cont (unat v)]" using 2 by (simp add: utf8_def c_def)
    ultimately show ?thesis
      using 2 assms get_utf8_cases(2) [of c "utf8_cont (unat v) # rest" v rest] by simp
  next
    case 3
    define c :: u8 where "c = word_of_nat (224 + unat v div 64 div 64)"
    have "unat v div 64 < 1024" using 3 by auto
    then have c: "unat c = 224 + unat v div 64 div 64" "unat v div 64 div 64 < 16" by (auto simp: c_def simp del: of_nat_add)
    moreover have "utf8_loop 2 (word_of_nat (unat v div 64 div 64)) (utf8_cont (unat v div 64) # utf8_cont (unat v) # rest) = (Some v, rest)"
      using c w by (subst utf8_loop_2) (auto intro!: exI [of _ "unat v"])
    moreover have "utf8 (unat v) = [c, utf8_cont (unat v div 64), utf8_cont (unat v)]" using 3 by (simp add: utf8_def c_def)
    ultimately show ?thesis
      using 3 assms get_utf8_cases(3) [of c "utf8_cont (unat v div 64) # utf8_cont (unat v) # rest" v rest]
      by simp
  next
    case 4
    define c :: u8 where "c = word_of_nat (240 + unat v div 64 div 64 div 64)"
    have "unat v div 64 < 0x4400" using n by auto
    then have "unat v div 64 div 64 < 0x110" by auto
    then have c: "unat c = 240 + unat v div 64 div 64 div 64" "unat v div 64 div 64 div 64 < 8" by (auto simp: c_def simp del: of_nat_add)
    moreover have "utf8_loop 3 (word_of_nat (unat v div 64 div 64 div 64))
        (utf8_cont (unat v div 64 div 64) # utf8_cont (unat v div 64) # utf8_cont (unat v) # rest) = (Some v, rest)"
      using c w by (subst utf8_loop_3) (auto intro!: exI [of _ "unat v"])
    moreover have "utf8 (unat v) = [c, utf8_cont (unat v div 64 div 64), utf8_cont (unat v div 64), utf8_cont (unat v)]" using 4 by (simp add: utf8_def c_def)
    ultimately show ?thesis
      using 4 assms get_utf8_cases(4) [of c "utf8_cont (unat v div 64 div 64) # utf8_cont (unat v div 64) # utf8_cont (unat v) # rest" v rest]
      by simp
  qed
qed

interpretation utf8_codec: exact_codec "\<lambda>v. utf8 (unat v)" CBS_get_utf8 is_valid_code_point
  by standard (use get_utf8_sound get_utf8_complete in auto)


lemma or_word_byte:
  assumes "unat (x :: u32) = a * 2 ^ n" "unat y < 2 ^ n" "a * 2 ^ n + unat y < 256"
  shows "ucast (x OR y) = (word_of_nat (a * 2 ^ n + unat y) :: u8)"
  using assms by (intro eq_word_of_natI) (simp add: unat_ucast_mod unat_or_low_bits)

lemma unat_low_6: "unat (v AND 0x3f :: u32) = unat v mod 64"
  unfolding and_mask_take_bit by (simp add: unat_take_bit_mod)

lemma cont_byte: "ucast ((0x80 :: u32) OR (v AND 0x3f)) = utf8_cont (unat v)"
  using or_word_byte [of "0x80" 2 6 "v AND 0x3f"] mod_less_divisor [of 64 "unat v"]
  by (simp add: unat_low_6 utf8_cont_def del: of_nat_add)

lemma lead_byte:
  "unat v < 64 \<Longrightarrow> ucast ((0xc0 :: u32) OR v) = (word_of_nat (192 + unat v) :: u8)"
  "unat v < 32 \<Longrightarrow> ucast ((0xe0 :: u32) OR v) = (word_of_nat (224 + unat v) :: u8)"
  "unat v < 16 \<Longrightarrow> ucast ((0xf0 :: u32) OR v) = (word_of_nat (240 + unat v) :: u8)"
  using or_word_byte [of "0xc0" 3 6 v] or_word_byte [of "0xe0" 7 5 v] or_word_byte [of "0xf0" 15 4 v] by (simp_all del: of_nat_add)

lemma emits_u8s: "emits d (x # xs) (op_bind (CBB_add_u8 d x) (\<lambda>_. m))" if "emits d xs m"
  using emits_bind [of d "[x]" "CBB_add_u8 d x" xs "\<lambda>_. m"] u8_writer.writes [where d = d and x = x] that by simp

lemma emits_utf8:
  assumes "is_valid_code_point u"
  shows "emits d (utf8 (unat u)) (CBB_add_utf8 d u)"
proof -
  have n: "unat u < 0x110000" using valid_code_point_less [OF assms] .
  have last: "emits d [b] (CBB_add_u8 d b)" for b using u8_writer.writes [where d = d and x = b] by simp
  have le: "u \<le> k \<longleftrightarrow> unat u \<le> unat k" for k by (rule word_le_nat_alt)
  have div: "unat (drop_bit 12 u) = unat u div 64 div 64" "unat (drop_bit 18 u) = unat u div 64 div 64 div 64"
    "unat (drop_bit 6 u) = unat u div 64"
    by (simp_all add: unat_drop_bit_div div_mult2_eq [symmetric])
  consider "unat u < 0x80" | "0x80 \<le> unat u" "unat u < 0x800" | "0x800 \<le> unat u" "unat u < 0x10000" | "0x10000 \<le> unat u" by linarith
  then show ?thesis
  proof cases
    case 1
    have "(ucast u :: u8) = word_of_nat (unat u)" by (rule eq_word_of_natI) (use 1 in \<open>simp add: unat_ucast_mod\<close>)
    then have "CBB_add_utf8 d u = CBB_add_u8 d (word_of_nat (unat u))"
      using 1 assms by (simp add: CBB_add_utf8_def le Let_def)
    then show ?thesis using 1 last by (simp add: utf8_def)
  next
    case 2
    then have "unat u div 64 < 64" by auto
    then have "CBB_add_utf8 d u = op_bind (CBB_add_u8 d (word_of_nat (192 + unat u div 64))) (\<lambda>_. CBB_add_u8 d (utf8_cont (unat u)))"
      using 2 assms lead_byte(1) [of "drop_bit 6 u"] cont_byte [of u]
      by (simp add: CBB_add_utf8_def le Let_def div del: of_nat_add)
    then show ?thesis using 2 emits_u8s [OF last] by (simp add: utf8_def)
  next
    case 3
    then have "unat u div 64 < 1024" by auto
    then have "unat u div 64 div 64 < 32" by auto
    then have "CBB_add_utf8 d u = op_bind (CBB_add_u8 d (word_of_nat (224 + unat u div 64 div 64))) (\<lambda>_.
        op_bind (CBB_add_u8 d (utf8_cont (unat u div 64))) (\<lambda>_. CBB_add_u8 d (utf8_cont (unat u))))"
      using 3 assms lead_byte(2) [of "drop_bit 12 u"] cont_byte [of u] cont_byte [of "drop_bit 6 u"]
      by (simp add: CBB_add_utf8_def le Let_def div del: of_nat_add)
    then show ?thesis using 3 emits_u8s [OF emits_u8s [OF last]] by (simp add: utf8_def)
  next
    case 4
    have "unat u div 64 < 0x4400" using n by auto
    then have "unat u div 64 div 64 < 0x110" by auto
    then have "unat u div 64 div 64 div 64 < 16" by auto
    then have "CBB_add_utf8 d u = op_bind (CBB_add_u8 d (word_of_nat (240 + unat u div 64 div 64 div 64))) (\<lambda>_.
        op_bind (CBB_add_u8 d (utf8_cont (unat u div 64 div 64))) (\<lambda>_.
        op_bind (CBB_add_u8 d (utf8_cont (unat u div 64))) (\<lambda>_. CBB_add_u8 d (utf8_cont (unat u)))))"
      using 4 n assms lead_byte(3) [of "drop_bit 18 u"] cont_byte [of u] cont_byte [of "drop_bit 6 u"] cont_byte [of "drop_bit 12 u"]
      by (simp add: CBB_add_utf8_def le Let_def div del: of_nat_add)
    then show ?thesis using 4 emits_u8s [OF emits_u8s [OF emits_u8s [OF last]]] by (simp add: utf8_def)
  qed
qed

interpretation utf8_rw: cbb_codec CBB_add_utf8 "\<lambda>v. utf8 (unat v)" is_valid_code_point CBS_get_utf8 is_valid_code_point
  by unfold_locales (rule emits_utf8)

lemma utf8_length: "is_valid_code_point u \<Longrightarrow> CBB_get_utf8_len u = length (utf8 (unat u))"
  by (simp add: CBB_get_utf8_len_def utf8_def word_le_nat_alt)

section \<open>The fixed-width encodings\<close>

lemma ucast_back: "(ucast (ucast (c :: u8) :: u32) :: u8) = c" "(ucast (ucast (h :: u16) :: u32) :: u16) = h"
  by (simp_all add: word_unat_eq_iff unat_ucast_mod mod_mod_cancel)

interpretation latin1_rw: cbb_codec CBB_add_latin1 "\<lambda>u. [ucast u]" "\<lambda>u. unat u < 256" CBS_get_latin1 "\<lambda>u. unat u < 256"
proof
  show "emits d [ucast u] (CBB_add_latin1 d u)" if "unat u < 256" for u d
    using that u8_writer.writes [where d = d and x = "ucast u"] by (simp add: CBB_add_latin1_def word_le_nat_alt)
  show "CBS_get_latin1 ([ucast u] @ rest) = (Some u, rest)" if "unat u < 256" for u rest
  proof -
    have "(ucast (ucast u :: u8) :: u32) = u" using that by (simp add: word_unat_eq_iff unat_ucast_mod)
    then show ?thesis by (simp add: CBS_get_latin1_def op_simps)
  qed
  show "unat u < 256 \<and> bs = [ucast u] @ rest" if "CBS_get_latin1 bs = (Some u, rest)" for bs u rest
    using that by (auto simp: CBS_get_latin1_def op_bind_eq_Some op_simps u8_codec.accepts_iff ucast_back)
qed

definition ucs2_ok :: "u32 \<Rightarrow> bool" where
  "ucs2_ok u \<longleftrightarrow> unat u < 65536 \<and> is_valid_code_point u"

interpretation ucs2_rw: cbb_codec CBB_add_ucs2_be "\<lambda>u. nat_be 2 (unat u)" ucs2_ok CBS_get_ucs2_be ucs2_ok
proof
  have low: "unat (ucast u :: u16) = unat u" if "unat u < 65536" for u :: u32 using that by (simp add: unat_ucast_mod)
  show "emits d (nat_be 2 (unat u)) (CBB_add_ucs2_be d u)" if "ucs2_ok u" for u d
    using that u16_writer.writes [where d = d and x = "ucast u"] low by (simp add: CBB_add_ucs2_be_def word_le_nat_alt ucs2_ok_def)
  show "CBS_get_ucs2_be (nat_be 2 (unat u) @ rest) = (Some u, rest)" if "ucs2_ok u" for u rest
  proof -
    have "(ucast (ucast u :: u16) :: u32) = u" using that low by (simp add: word_unat_eq_iff unat_ucast_up ucs2_ok_def)
    then show ?thesis
      using that low [of u] u16_codec.get_put [of "ucast u" rest]
      by (simp add: CBS_get_ucs2_be_def op_simps ucs2_ok_def)
  qed
  show "ucs2_ok u \<and> bs = nat_be 2 (unat u) @ rest" if r: "CBS_get_ucs2_be bs = (Some u, rest)" for bs u rest
    using r by (auto simp: CBS_get_ucs2_be_def op_bind_eq_Some op_simps u16_codec.accepts_iff ucs2_ok_def unat_ucast_up split: if_splits)
qed

interpretation utf32_rw: cbb_codec CBB_add_utf32_be "\<lambda>u. nat_be 4 (unat u)" is_valid_code_point CBS_get_utf32_be is_valid_code_point
proof
  show "emits d (nat_be 4 (unat u)) (CBB_add_utf32_be d u)" if "is_valid_code_point u" for u d
    using that u32_writer.writes [where d = d and x = u] by (simp add: CBB_add_utf32_be_def)
  show "CBS_get_utf32_be (nat_be 4 (unat u) @ rest) = (Some u, rest)" if "is_valid_code_point u" for u rest
    using that u32_codec.get_put [of u rest] by (simp add: CBS_get_utf32_be_def op_simps)
  show "is_valid_code_point u \<and> bs = nat_be 4 (unat u) @ rest" if "CBS_get_utf32_be bs = (Some u, rest)" for bs u rest
    using that by (auto simp: CBS_get_utf32_be_def op_bind_eq_Some op_simps u32_codec.accepts_iff split: if_splits)
qed

end
