(* ===== verification/Spec2Isabelle.thy ===== *)
theory Spec2Isabelle
  imports Base64Stream BerDer BufMem CbcSpec CfbSpec CtrSpec LhashIter PbExample PbExtensionSpec PoolSteps PosixTime Stack Unicode
begin

text \<open>
  The C core under \<open>src/iosApp/Pods\<close> that the iOS application links: byte-level code of BoringSSL
  (\<open>BoringSSL-GRPC/src/crypto\<close>) and nanopb, the protocol buffer library of Firestore. The application itself is Kotlin and Swift; the C libraries do its
  parsing and serialisation underneath gRPC and Firebase, and every byte of a certificate, key or
  message goes through the components modelled here.

  \<^bold>\<open>Model.\<close> Machine integers are words of their C width; \<open>size_t\<close> is 64 bits wide, and sizes are natural
  numbers whose sums wrap where the code lets them (\<open>size_add\<close>, \<open>size_mod\<close>). A C function that returns
  1 or 0 and works on an object is an \<open>op\<close>: a function from the object to an optional result, with
  \<open>None\<close> for the return value 0, and the object it leaves behind, also on failure. Memory is explicit where
  it is observable: the answer of the platform allocator is an argument (\<open>heap\<close>, one per allocation), so
  that every pattern of allocation failures and every content of fresh memory is covered. What is assumed of an
  allocator is that a block has the size that was asked for (\<open>heap_ok\<close>). The theorems that say that an operation
  succeeds need memory, and name it: \<open>can_hold\<close> of a builder, \<open>heap_gives\<close> for \<open>BUF_MEM\<close>; and those on whole
  messages, object identifiers to text, SET OF, BER and programs on stacks assume an allocator that never refuses
  (\<open>heap_total\<close>, \<open>array_heap_total\<close>).

  \<^bold>\<open>Theories.\<close>
  \<^item> \<open>Prelude\<close>: operations with a status, bit operations as arithmetic, byte strings as numbers.
  \<^item> \<open>Codec\<close>: the locales \<open>parser\<close> (consumes a prefix) and \<open>exact_codec\<close> (accepts exactly the encodings
    of valid values), with prefix-freeness, injectivity and sequences proved once.
  \<^item> \<open>Mem\<close> (\<open>mem.c\<close>, \<open>internal.h\<close>): allocation wrappers, \<open>CRYPTO_memcmp\<close>, C strings, byte swaps.
  \<^item> \<open>ConstTime\<close> (\<open>internal.h\<close>): the branch-free comparisons and selections.
  \<^item> \<open>Cbs\<close>, \<open>CbsNum\<close>, \<open>CbsAsn1\<close>, \<open>Der\<close> (\<open>bytestring/cbs.c\<close>): the reader \<open>CBS\<close>, which is the list of bytes
    it still covers; numbers, length-prefixed blocks, decimal and base-128 numbers; ASN.1 elements in
    DER and BER. Each reader of a format is interpreted as an \<open>exact_codec\<close>.
  \<^item> \<open>Cbb\<close>, \<open>CbbFlush\<close>, \<open>CbbAsn1\<close> (\<open>bytestring/cbb.c\<close>): the builder \<open>CBB\<close>, its buffer and its chain of
    pending children. \<open>cbb_wf\<close> is the invariant, \<open>closed\<close> the abstract flush, which \<open>CBB_flush\<close> refines.
    The locale \<open>cbb_writer\<close> states what an operation that appends promises, and \<open>cbb_codec\<close> joins it
    with a reader: what is written is read back. Both are interpreted for every kind of number.
  \<^item> \<open>Oid\<close>: object identifiers between text and DER, and the sorting of SET OF, in the order \<open>x690_le\<close> that the
    standard prescribes.
  \<^item> \<open>Build\<close>: whole messages, from \<open>CBB_init\<close> to \<open>CBB_finish\<close>.
  \<^item> \<open>Ber\<close>, \<open>BerSpec\<close>, \<open>BerDer\<close> (\<open>bytestring/ber.c\<close>, \<open>asn1_compat.c\<close>): the conversion of BER to DER. Reader and
    builder work together in one recursive loop; \<open>converts\<close> says what it appends to the builder or that it
    fails, \<open>ber_encodes\<close> and \<open>ber_der\<close> are the specification, trees and their encodings.
  \<^item> \<open>PosixTime\<close> (\<open>asn1/posix_time.c\<close> and the time parser of \<open>cbs.c\<close>): calendar arithmetic.
  \<^item> \<open>Unicode\<close> (\<open>bytestring/unicode.c\<close>): code points in UTF-8, Latin-1, UCS-2 and UTF-32.
  \<^item> \<open>BufMem\<close> (\<open>buf/buf.c\<close>): growing buffers, with \<open>mem_contents\<close> as their abstraction to a list and programs of
    calls (\<open>run_mem\<close>) that refine programs on lists.
  \<^item> \<open>Stack\<close> (\<open>stack/stack.c\<close>): the array of pointers; \<open>items\<close> is its abstraction to a list, \<open>sk_wf\<close> its
    invariant, \<open>sk_ordered\<close> the truth of its sorted flag. The locale \<open>comparator\<close> states what the heap sort
    and the binary search need of a comparison function; it is interpreted for the order of SET OF.
  \<^item> \<open>Lhash\<close>, \<open>LhashSpec\<close>, \<open>LhashIter\<close> (\<open>lhash/lhash.c\<close>): the hash table with its chains, resizing and iteration.
    \<open>lh_inv\<close> is its invariant, \<open>lh_map\<close> its abstraction to a map. The locale \<open>lhash_functions\<close> states what the
    hash and comparison functions of a client have to do: to depend on a key only, and to agree.
  \<^item> \<open>Siphash\<close> (\<open>siphash/siphash.c\<close>), \<open>Pool\<close>, \<open>PoolSteps\<close> (\<open>pool/pool.c\<close>, \<open>refcount.c\<close>): buffers with reference counts, and
    pools that share buffers with the same contents, in a table keyed by SipHash; \<open>pool_table\<close> interprets
    \<open>lhash_functions\<close> on the functions of the pool. The operations of all threads are steps of one relation,
    \<open>pool_step\<close>; \<open>pool_ok\<close> is its invariant: every reference that is held is counted, and the table holds
    no buffer that has been freed. The retry loops of the atomic counters are functions of the values that other
    threads store between the attempts.
  \<^item> \<open>Base64\<close>, \<open>Base64Stream\<close> (\<open>base64/base64.c\<close>): block and streaming encoder and decoder.

  \<^item> \<open>StreamModes\<close>, \<open>StreamModesSpec\<close>, \<open>CtrSpec\<close>, \<open>CfbSpec\<close> (\<open>fipsmodule/modes/ctr.c\<close>, \<open>ofb.c\<close>, \<open>cfb.c\<close>): the modes that work on
    bytes, over a block cipher that is an argument. The locale \<open>stream\<close> says that an operation does the same as a
    machine that takes one item at a time, \<open>stream_pair\<close> that a second one undoes it; \<open>keystream\<close> is what counter mode
    and output feedback share. Each is interpreted on the functions of the code.
  \<^item> \<open>Cbc\<close>, \<open>CbcSpec\<close> (\<open>cbc.c\<close>): cipher block chaining on a memory in which input and output may overlap;
    decryption for every length, the one undefined call included.

  \<^item> \<open>PbStream\<close>, \<open>PbWire\<close> (\<open>nanopb/pb_encode.c\<close>, \<open>pb_decode.c\<close>): streams and the wire format.
    \<open>stream_reads m p\<close> says that the operation \<open>m\<close> refines the parser \<open>p\<close> on byte lists, on every stream,
    buffer or callback; \<open>writes xs m\<close> that \<open>m\<close> writes \<open>xs\<close>, to a sizing stream, or to any \<open>sink\<close> with room,
    and fails cleanly without room. \<open>PbVarint\<close>, \<open>PbCodec\<close>, \<open>PbField\<close> prove them of every operation; \<open>write_all_buffer\<close> is what
    any sequence of writes leaves in a buffer; the locale
    \<open>pb_codec\<close> joins a writer and a reader, and is interpreted for every kind of value.
  \<^item> \<open>PbMemory\<close>, \<open>PbCommon\<close> (\<open>nanopb/pb_common.c\<close>, \<open>pb.h\<close>): memory as a function from addresses to bytes;
    descriptions of messages, which are trees (a message type that contains itself is described to the
    depth that is looked at), and the iterator over them; \<open>seek_found\<close> says what a search finds.
  \<^item> \<open>PbEncode\<close> (\<open>nanopb/pb_encode.c\<close>): \<open>pb_encode\<close> on structs in memory. \<open>PbEncodeSpec\<close> and
    \<open>PbEncodeMessage\<close> give the specification, \<open>message_bytes\<close>, and prove that the encoder refines it.
  \<^item> \<open>PbDecode\<close>, \<open>PbDecodeField\<close>, \<open>PbDecodeMessage\<close> (\<open>nanopb/pb_decode.c\<close>): the decoder, with allocation,
    release and default values. \<open>PbProgress\<close>: every operation takes at least so many bytes from the stream,
    from which the loops end. \<open>PbLayout\<close>, \<open>PbValue\<close>, \<open>PbRoundTrip\<close>, \<open>PbLoop\<close>, \<open>PbMessage\<close>, \<open>PbFieldOrder\<close>,
    \<open>PbTransfer\<close>: the round trip of whole messages, from single values over fields to the loop and the
    recursion on the description; it covers required and optional static fields (\<open>message_ok\<close>), in any order
    and with unknown fields between them. \<open>struct_holds\<close> is the layout that setting the defaults relies on, for any description.
  \<^item> \<open>PbExtension\<close>, \<open>PbExtensionSpec\<close>: the functions for lists of extensions, which \<open>PbEncode\<close> and \<open>PbDecode\<close>
    take from an environment. Here the lists are in memory; the environments built from them
    (\<open>extension_encode_env\<close>, \<open>extension_decode_env\<close>) satisfy what the theorems on messages ask of an environment.
  \<^item> \<open>PbExample\<close>: concrete messages.

  \<^bold>\<open>Termination and bounds.\<close> Every definition is total. Loops are recursive on the bytes that remain or
  carry a measure, with three exceptions in the message decoder: the search of the iterator makes at most
  one step for each field and one more (\<open>seek_from\<close>), the loops over the stream and over packed arrays at
  most one round for each byte of the stream; \<open>loops_end\<close> shows that these bounds are never reached. The
  loop that calls a callback of the user until its stream is empty may run forever, and is a
  \<open>partial_function\<close>; \<open>callback_loop_ends\<close> shows when it returns. A list of extensions in memory can be circular, and
  then the loops along it do not return; they are bounded by arguments, and the theorems are about
  lists that end within the bound (\<open>ext_path\<close>). The bounds in the theorems are those of the code: lengths below
  2^32 for ASN.1 elements and messages, below 2^62 for a growing buffer (doubling does not wrap), and input chunks
  below \<open>max_update\<close> for the streaming encoder, whose output length is an \<open>int\<close>.

  \<^bold>\<open>Not modelled.\<close> The error queue (\<open>OPENSSL_PUT_ERROR\<close>), freeing and cleansing of memory, assertions that
  the code proves itself; in nanopb, what a callback that fails has already written to the destination of the read; everything listed as \<open>not_modelled\<close> in the manifest: cryptographic
  algorithms, X.509, TLS, the C++ and Objective-C libraries and the application.
\<close>

section \<open>Protocol buffer messages\<close>

text \<open>C1: A message that is encoded is decoded to the same message. For a description of required and optional
  fields with static storage, submessages included, every struct whose strings and byte arrays are within
  their fields can be encoded; \<open>pb_get_encoded_size\<close> computes the length; and if the buffer has room,
  \<open>pb_encode\<close> writes it, and \<open>pb_decode\<close>, run on what was written, succeeds, reads it to the end, leaves
  in another struct the same message (the has-flags, and the values of the fields that are present), and
  changes no memory outside of that struct.\<close>

theorem message_round_trip:
  assumes "message_ok fs" "same_message fs m src m src" "0 < src" "0 < dest" "env_encodes spec env" "length buf < 2 ^ 32"
  shows "\<exists>xs. message_bytes spec m fs src = Some xs
    \<and> (length xs < size_mod \<longrightarrow> pb_get_encoded_size env st m fs src = Some (length xs))
    \<and> (length xs \<le> length buf \<longrightarrow>
        (\<exists>out t. pb_encode env m fs src (pb_ostream_from_buffer buf (length buf)) = (Some (), out)
          \<and> pb_decode denv fs dest (s\<lparr>input := pb_istream_from_buffer (fst (state out)) (bytes_written out)\<rparr>) = (Some (), t)
          \<and> bytes_left (input t) = 0 \<and> same_message fs m src (memory t) dest
          \<and> changed_within dest (message_size fs) (memory s) (memory t)))"
  by (rule transfer_message [OF assms])

theorem message_round_trip_witness:
  "\<exists>out t. pb_encode ex_encode_env (\<lambda>_. 1) ex_fs 1 (pb_ostream_from_buffer [0, 0, 0, 0, 0, 0, 0] 7) = (Some (), out)
    \<and> pb_decode ex_decode_env ex_fs 100 ((ex_state [])\<lparr>input := pb_istream_from_buffer (fst (state out)) (bytes_written out)\<rparr>) = (Some (), t)
    \<and> same_message ex_fs (\<lambda>_. 1) 1 (memory t) 100"
proof -
  have n: "(0 :: nat) < 1" "(0 :: nat) < 100" "length [0, 0, 0, 0, 0, 0, 0 :: u8] < 2 ^ 32" "length [8, 1, 26, 2, 8, 1 :: u8] \<le> 7"
    "length [0, 0, 0, 0, 0, 0, 0 :: u8] = 7" by simp_all
  show ?thesis
    using message_round_trip [OF ex_ok ex_same n(1,2) ex_env n(3), where m = "\<lambda>_. 1" and st = "([], 0)" and s = "ex_state []" and denv = ex_decode_env]
      ex_bytes n(4) unfolding n(5) by auto
qed

text \<open>C2: The decoder accepts the fields of a message of static required and optional fields (\<open>message_ok\<close>) in any order, and skips fields that the description does
  not have, before, between and after the others, at the top level of the message: from such a stream it
  reads the message that was encoded, and sees that all required fields are there.\<close>

theorem fields_in_any_order:
  assumes "message_ok fs" "same_message fs m src m src" "0 < src" "0 < dest"
    and "message_stream spec m fs src {} xs" "length xs < 2 ^ 32" "holds behind (input s) xs"
  shows "\<exists>t. pb_decode env fs dest s = (Some (), t) \<and> holds behind (input t) [] \<and> same_message fs m src (memory t) dest
    \<and> changed_within dest (message_size fs) (memory s) (memory t)"
  using decode_message [OF assms(1,3,4,2,5-7)] by (fastforce simp: fields_decoded_def)

theorem fields_in_any_order_witness:
  "\<exists>t. pb_decode ex_decode_env ex_fs 100 (ex_state [26, 2, 8, 1, 72, 5, 8, 1]) = (Some (), t)
    \<and> same_message ex_fs (\<lambda>_. 1) 1 (memory t) 100"
proof -
  have h: "holds [] (input (ex_state [26, 2, 8, 1, 72, 5, 8, 1])) [26, 2, 8, 1, 72, 5, 8, 1]"
    using holds_from_buffer [of "[]" "[26, 2, 8, 1, 72, 5, 8, 1]" "[]"] by (simp add: ex_state_def)
  have n: "(0 :: nat) < 1" "(0 :: nat) < 100" "length [26, 2, 8, 1, 72, 5, 8, 1 :: u8] < 2 ^ 32" by simp_all
  show ?thesis using fields_in_any_order [OF ex_ok ex_same n(1,2) ex_stream n(3) h, where env = ex_decode_env] by blast
qed

text \<open>C3: \<open>pb_encode\<close> refines the specification \<open>message_bytes\<close>, a function from the struct in memory to bytes,
  for every description: arrays packed or not, fixed or counted, unions, pointers, callbacks and
  extensions whose functions do what their own specification says. It fails when the message has no
  encoding or does not fit the buffer, and otherwise has written exactly the encoding.\<close>

theorem encoder_refines_specification:
  assumes "env_encodes spec env" "length buf < size_mod"
  shows "(message_bytes spec m fs src = None \<longrightarrow> fst (pb_encode env m fs src (pb_ostream_from_buffer buf (length buf))) = None)
    \<and> (\<forall>xs. message_bytes spec m fs src = Some xs \<longrightarrow> length xs < size_mod \<longrightarrow>
        (if length xs \<le> length buf
         then \<exists>out. pb_encode env m fs src (pb_ostream_from_buffer buf (length buf)) = (Some (), out)
           \<and> bytes_written out = length xs \<and> take (length xs) (fst (state out)) = xs
         else \<exists>out. pb_encode env m fs src (pb_ostream_from_buffer buf (length buf)) = (None, out) \<and> oerrmsg out \<noteq> None))"
  using encodes_message [OF assms(1), of m fs src] buffer_stream [OF _ assms(2), of _ "pb_encode env m fs src"]
  by (auto simp: encodes_def split: option.splits)

theorem encoder_refines_specification_witness:
  "\<exists>out. pb_encode ex_encode_env (\<lambda>_. 1) ex_fs 1 (pb_ostream_from_buffer [0, 0, 0, 0, 0, 0, 0] (length [0, 0, 0, 0, 0, 0, 0 :: u8])) = (Some (), out)
    \<and> take 6 (fst (state out)) = [8, 1, 26, 2, 8, 1]"
proof -
  have n: "length [8, 1, 26, 2, 8, 1 :: u8] = 6" "length [0, 0, 0, 0, 0, 0, 0 :: u8] < size_mod" "(6 :: nat) < size_mod" "(6 :: nat) \<le> 7"
    by (simp_all add: size_mod_def)
  show ?thesis
    using encoder_refines_specification [OF ex_env n(2), THEN conjunct2, rule_format, OF ex_bytes, unfolded n(1), OF n(3)] by auto
qed

text \<open>C4: The encoder of extensions refines its specification. A linked list of extensions in memory is written
  one after the other: those with a function of their own as that function wants it, the others as the
  field that their type describes, from the place their \<open>dest\<close> points to, or from \<open>dest\<close> itself for pointers.
  With it, the refinement of whole messages covers messages that have extensions, whose fields can be
  messages with extensions again.\<close>

theorem extensions_are_encoded:
  assumes "user_encodes types user callback_spec user_callback m" "ext_path m p exts 0" "length exts < len"
  shows "encodes (concat_opt (map (extension_bytes types user (extension_spec levels len types callback_spec user m) m) exts))
      (extensions_encoder (extension_encode_env (Suc levels) len types user_callback m) p)
    \<and> encodes (message_bytes (extension_spec levels len types callback_spec user m) m fs src)
      (pb_encode (extension_encode_env levels len types user_callback m) m fs src)"
proof -
  have "ext_list len m p = Some exts" using assms(2,3) by (simp add: ext_list_path)
  moreover have "encodes (extensions_bytes (extension_spec (Suc levels) len types callback_spec user m) p)
      (extensions_encoder (extension_encode_env (Suc levels) len types user_callback m) p)"
    using extension_env_encodes [OF assms(1)] unfolding env_encodes_def by blast
  ultimately show ?thesis using encodes_message [OF extension_env_encodes [OF assms(1)]] by simp
qed

theorem extensions_are_encoded_witness:
  "encodes (Some [40, 0]) (extensions_encoder (extension_encode_env (Suc 0) 2 ex_ext_types (\<lambda>_ _ _. op_return ()) ex_ext_memory) 100)"
  using extensions_are_encoded [OF ex_ext_user ex_ext_path, where len = 2 and levels = 0] by (simp add: ex_ext_bytes append_opt_def)

text \<open>C5: A field that the description of a message does not have goes to the first extension of the list with its
  tag, which is marked as found, and in whose place the value is decoded; the extensions after it are not
  asked, and those before it are left as they are. When there is none, nothing is changed or read. This is for
  the default handlers and fields that read at least one byte.\<close>

theorem unknown_field_goes_to_its_extension:
  fixes s :: "'d dstate" and types :: "('e, 'd) ext_types"
  assumes "ext_path (memory s) p exts 0" "length exts < len"
    and "\<forall>e \<in> set exts. extension_decode (ext_type types (memory s) e) = None"
    and "decoded = (\<lambda>e. op_bind
        (decode_field
          (\<lambda>f init dest. if init then pb_decode env (submsg_fields f) dest else pb_decode_noinit env (submsg_fields f) dest)
          env wire_type (iter_from_extension types (memory s) e))
        (\<lambda>_. op_return ()) (s\<lparr>memory := store_bytes (ext_found e) [1] (memory s)\<rparr>))"
    and "\<forall>e \<in> set exts. \<forall>t. decoded e = (Some (), t) \<longrightarrow> bytes_left (input t) < bytes_left (input s)"
    and "env = extension_decode_env levels len types realloc user_callback"
  shows "extensions_decoder (extension_decode_env (Suc levels) len types realloc user_callback) p tag wire_type s =
    (case find (\<lambda>e. field_tag (ext_field types (memory s) e) = tag) exts of None \<Rightarrow> (Some (), s) | Some e \<Rightarrow> decoded e)"
proof -
  have d: "default_extension_decoder types env e tag wire_type s = decoded e"
    if "field_tag (ext_field types (memory s) e) = tag" for e
    using that by (simp add: default_extension_decoder_def assms(4) Let_def)
  have "decode_extension_loop len types env (bytes_left (input s)) p tag wire_type s =
    (case find (\<lambda>e. field_tag (ext_field types (memory s) e) = tag) exts of
       None \<Rightarrow> (Some (), s) | Some e \<Rightarrow> default_extension_decoder types env e tag wire_type s)"
    by (rule extension_lookup [OF assms(1,2)]) (use assms(3,5) d in auto)
  moreover have "default_extension_decoder types env e tag wire_type s = decoded e"
    if "find (\<lambda>e. field_tag (ext_field types (memory s) e) = tag) exts = Some e" for e
    using d [of e] that by (auto simp: find_Some_iff)
  ultimately show ?thesis
    using assms(6) by (cases "find (\<lambda>e. field_tag (ext_field types (memory s) e) = tag) exts") (simp_all add: Let_def)
qed

theorem unknown_field_goes_to_its_extension_witness:
  "\<exists>t. extensions_decoder (extension_decode_env (Suc 0) 2 ex_ext_types (\<lambda>_ _ _ m. (0, m)) (\<lambda>_ _ _. op_fail)) 100 5 0
      (ex_ext_state [1]) = (Some (), t) \<and> memory t (ext_found 100) = 1 \<and> memory t 200 = 1"
proof -
  have m: "memory (ex_ext_state [1]) = ex_ext_memory" by (simp add: ex_ext_state_def)
  let ?s = "ex_ext_state [1]" and ?env = "extension_decode_env 0 2 ex_ext_types (\<lambda>_ _ _ m. (0, m)) (\<lambda>_ _ _. op_fail)"
  let ?t = "(ex_ext_state [])\<lparr>memory := store_bytes 200 [1] (store_bytes (ext_found 100) [1] (memory ?s))\<rparr>"
  have less: "bytes_left (input ?t) < bytes_left (input ?s)" by (simp add: ex_ext_state_def pb_istream_from_buffer_def)
  have path: "ext_path (memory ?s) 100 [100] 0" using ex_ext_path m by simp
  have t: "memory ?t (ext_found 100) = 1" "memory ?t 200 = 1" by (simp_all add: ext_found_def store_bytes_def)
  define decoded where "decoded = (\<lambda>e. op_bind
      (decode_field
        (\<lambda>f init dest. if init then pb_decode ?env (submsg_fields f) dest else pb_decode_noinit ?env (submsg_fields f) dest)
        ?env 0 (iter_from_extension ex_ext_types (memory ?s) e))
      (\<lambda>_. op_return ()) (?s\<lparr>memory := store_bytes (ext_found e) [1] (memory ?s)\<rparr>))"
  have dec: "decoded 100 = (Some (), ?t)" unfolding decoded_def using ex_ext_decoded by (simp add: op_simps)
  have "extensions_decoder (extension_decode_env (Suc 0) 2 ex_ext_types (\<lambda>_ _ _ m. (0, m)) (\<lambda>_ _ _. op_fail)) 100 5 0 ?s = (Some (), ?t)"
    using unknown_field_goes_to_its_extension [OF path _ _ decoded_def _ refl, of 5] dec less
    by (simp add: ex_ext_type ex_ext_field del: extension_decode_env.simps)
  then show ?thesis using t by blast
qed



text \<open>C7: The iterator visits every field of a description once, in order, and a search from any position
  looks at every field once, from the current one on and around: it stops at the first field with the
  tag that is not an extension field, and is back where it was when there is none.\<close>

theorem iterator_visits_and_finds:
  assumes "pb_fields_ok fs" "k < length fs"
  shows "map (\<lambda>iter. (iter_pos iter, iter_field iter)) (pb_fields_visited fs dest) = zip [0..<length fs] fs
    \<and> pb_field_iter_find tag (iter_at fs dest k) =
      (case find (\<lambda>j. field_tag (fs ! j) = tag \<and> ltype (fs ! j) \<noteq> PB_LTYPE_EXTENSION) ([k..<length fs] @ [0..<k]) of
         Some j \<Rightarrow> (True, iter_at fs dest j) | None \<Rightarrow> (False, iter_at fs dest k))"
proof
  show "map (\<lambda>iter. (iter_pos iter, iter_field iter)) (pb_fields_visited fs dest) = zip [0..<length fs] fs"
    unfolding fields_visited [OF assms(1)] using assms(1) by (intro nth_equalityI) simp_all
  have "iter_pos (iter_at fs dest k) = k" using assms by simp
  then show "pb_field_iter_find tag (iter_at fs dest k) =
      (case find (\<lambda>j. field_tag (fs ! j) = tag \<and> ltype (fs ! j) \<noteq> PB_LTYPE_EXTENSION) ([k..<length fs] @ [0..<k]) of
         Some j \<Rightarrow> (True, iter_at fs dest j) | None \<Rightarrow> (False, iter_at fs dest k))"
    unfolding pb_field_iter_find_def iter_at_start by (simp only: seek_found [OF assms])
qed

theorem iterator_visits_and_finds_witness:
  "pb_field_iter_find 1 (iter_at ex_fs 100 1) = (True, iter_at ex_fs 100 0)"
  using iterator_visits_and_finds [OF message_ok_fields [OF ex_ok], of 1 100 1]
  by (simp add: ex_fs_def ex_simps upt_conv_Cons)

text \<open>C8: The loops over the stream end, and the bounds of the model on their number of rounds are never
  reached: every tag and every value takes at least one byte, no operation gives bytes back (the functions
  for extensions must not either), so that as many rounds as there are bytes are as good as any number,
  in the loop over the fields of a message and in the loops over packed arrays.\<close>

theorem loops_end:
  assumes "env_consumes env" "bytes_left (input s) \<le> fuel"
  shows "decode_loop (fuel + n) decode env vars s = decode_loop fuel decode env vars s
    \<and> static_packed_loop (fuel + n) (PB_DECODERS decode env f) iter s = static_packed_loop fuel (PB_DECODERS decode env f) iter s
    \<and> pointer_packed_loop (fuel + n) env (PB_DECODERS decode env f) iter k s = pointer_packed_loop fuel env (PB_DECODERS decode env f) iter k s"
  using decode_loop_rounds [OF assms] static_loop_rounds [OF takes_value [OF order_refl] assms(2)]
    pointer_loop_rounds [OF takes_value [OF order_refl] assms(2)] by simp

theorem loops_end_witness:
  "\<forall>vars. decode_loop (2 + 5) (\<lambda>_ _ _. op_fail) ex_decode_env vars (ex_state [8, 1]) = decode_loop 2 (\<lambda>_ _ _. op_fail) ex_decode_env vars (ex_state [8, 1])"
  using loops_end [OF ex_consumes, of "ex_state [8, 1]" 2 5] by (simp add: ex_state_def pb_istream_from_buffer_def)

text \<open>C9: An empty stream is a message if and only if no field is required: otherwise decoding fails, with an
  error message that names the reason, and memory is as it was.\<close>

theorem empty_message_lacks_required_fields:
  assumes "pb_fields_ok fs" "bytes_left (input s) = 0"
  shows "pb_decode_noinit env fs dest s =
    (if list_all (\<lambda>f. htype f \<noteq> PB_HTYPE_REQUIRED) fs then (Some (), s)
     else (None, s\<lparr>input := (input s)\<lparr>ierrmsg := Some (case ierrmsg (input s) of None \<Rightarrow> ''missing required field'' | Some msg \<Rightarrow> msg)\<rparr>\<rparr>))"
  using empty_stream [OF assms, of env dest]
  by (simp add: derror_def on_input_def ireturn_error_def split: option.split)

theorem empty_message_lacks_required_fields_witness:
  "fst (pb_decode_noinit ex_decode_env ex_fs 100 (ex_state [])) = None"
  using empty_message_lacks_required_fields [OF message_ok_fields [OF ex_ok], of "ex_state []"]
  by (simp add: ex_state_def pb_istream_from_buffer_def) (simp add: ex_fs_def ex_simps)

section \<open>Reading and writing DER\<close>

text \<open>C10: The DER reader accepts exactly the canonical encodings. An element is read from the front of a
  byte string if and only if the string starts with \<open>der_element tag c\<close>, the identifier octets in their
  shortest form and the length in its shortest form, for a tag other than [UNIVERSAL 0] and contents
  of less than 2^32 bytes; and what is returned is that element, its tag and its header length.\<close>

theorem der_reader_accepts_exactly_der:
  "CBS_get_any_asn1_element bs = (Some e, rest) \<longleftrightarrow>
   (\<exists>tag c. valid_asn1_tag tag \<and> length c < 2 ^ 32 \<and> bs = der_element tag c @ rest \<and> e = der_result tag c)"
  by (rule any_asn1_element_accepts_iff)

text \<open>C11: A builder writes every message it is asked for. For a tree of raw bytes, ASN.1 elements and
  length-prefixed blocks whose lengths fit their prefixes, fewer than \<open>2 ^ 62\<close> bytes in all, the nested calls from \<open>CBB_init\<close> to \<open>CBB_finish\<close> succeed with an allocator that does not refuse
  (\<open>heap_total\<close>), whatever initial capacity is chosen, and the buffer returned holds the
  rendering of the tree, with every pending length filled in and the contents moved where a length
  needs more than one byte.\<close>

theorem builder_renders_messages:
  assumes "msg_fits m" "heap_total h" "cap < 2 ^ 62" "length (render m) < 2 ^ 62"
  shows "\<exists>c c' buf. CBB_init cap h = (Some (), c)
    \<and> op_bind (build 0 m) (\<lambda>_. CBB_finish 0 True) c = (Some (buf, length (render m)), c')
    \<and> take (length (render m)) buf = render m"
  using build_renders [OF assms] by metis

theorem builder_renders_messages_witness:
  "\<exists>c c' buf. CBB_init 0 (\<lambda>_ n. Some (replicate n 0)) = (Some (), c)
    \<and> op_bind (build 0 (Prefixed 2 [Raw [1, 2]])) (\<lambda>_. CBB_finish 0 True) c = (Some (buf, 4), c')
    \<and> take 4 buf = [0, 2, 1, 2]"
proof -
  have h: "heap_total (\<lambda>_ n. Some (replicate n 0))" by (simp add: heap_total_def heap_ok_def)
  have r: "render (Prefixed 2 [Raw [1, 2]]) = [0, 2, 1, 2]" by (simp add: numeral_2_eq_2)
  have f: "msg_fits (Prefixed 2 [Raw [1, 2]])" by (simp add: size_mod_def)
  have l: "length [0, 2, 1, 2 :: u8] = 4" by simp
  show ?thesis using builder_renders_messages [OF f h, of 0, unfolded r l] by simp
qed

text \<open>C12: \<open>CBB_flush\<close> refines the abstract flush. On a well-formed builder it closes the pending children
  of the \<open>CBB\<close> at depth \<open>d\<close>, innermost first: the bytes afterwards are \<open>closed\<close> of the bytes and the
  chain before. It keeps the invariant, leaves no pending child below \<open>d\<close>, marks the builder as failed
  when it fails, and cannot fail while the abstract flush is defined and there is room for its result.\<close>

theorem flush_refines_closing:
  assumes "cbb_wf c" "CBB_flush d c = (r, c')" "attached d c"
  shows "cbb_wf c' \<and> (r = None \<longrightarrow> cbb_error c') \<and>
    (r \<noteq> None \<longrightarrow> \<not> cbb_error c' \<and> cbb_children c' = take d (cbb_children c)
       \<and> closed (cbb_data c) (drop d (cbb_children c)) = Some (cbb_data c')) \<and>
    (\<forall>ys. closed (cbb_data c) (drop d (cbb_children c)) = Some ys \<longrightarrow> can_hold c (length ys) \<longrightarrow> r \<noteq> None)"
  using CBB_flush_spec [OF assms(1,2)] assms(3) unfolding flush_post_def by blast

theorem flush_refines_closing_witness:
  "\<exists>r c'. CBB_flush 0 (CBB_init_fixed [9, 9] 2 (\<lambda>_ _. None)) = (r, c') \<and> cbb_wf c' \<and> r \<noteq> None"
proof -
  let ?c = "CBB_init_fixed [9, 9] 2 (\<lambda>_ _. None)"
  obtain r c' where r: "CBB_flush 0 ?c = (r, c')" by fastforce
  have "cbb_wf ?c" "attached 0 ?c" "cbb_children ?c = []" "cbb_data ?c = []" "can_hold ?c 0"
    by (simp_all add: CBB_init_fixed_def cbb_init_def CBB_zero_def cbb_wf_def attached_def heap_ok_def size_mod_def
        cbb_data_def can_hold_def)
  then show ?thesis using flush_refines_closing [OF _ r] r by auto
qed

text \<open>C13: Object identifiers go from text to DER and back. On a well-formed builder with no open child,
  \<open>CBB_add_asn1_oid_from_text\<close> accepts only the dotted decimal texts of an identifier, and it accepts every
  one for which the builder has room (\<open>can_hold\<close>): when it fails, the text is not one or there is no room.
  What it appends are the DER contents of the identifier, from which \<open>CBS_asn1_oid_to_text\<close>, with an
  allocator that does not refuse (\<open>heap_total\<close>), recovers the very text, ended by a NUL.\<close>

theorem oid_text_round_trip:
  assumes "cbb_wf c" "cbb_children c = []" "heap_total h" "length text < 2 ^ 61"
  shows "case CBB_add_asn1_oid_from_text 0 text c of
      (Some _, c') \<Rightarrow> \<exists>v vs buf. text = oid_text v vs \<and> cbb_wf c' \<and> cbb_data c' = cbb_data c @ oid_contents v vs
        \<and> CBS_asn1_oid_to_text h (oid_contents v vs) = Some buf \<and> take (length text + 1) buf = text @ [0]
    | (None, _) \<Rightarrow> \<not> (\<exists>v vs. text = oid_text v vs \<and> can_hold c (cbb_len c + length (oid_contents v vs)))"
proof -
  obtain r c' where r: "CBB_add_asn1_oid_from_text 0 text c = (r, c')" by fastforce
  show ?thesis
  proof (cases r)
    case None
    have "\<not> can_hold c (cbb_len c + length (oid_contents v vs))" if "text = oid_text v vs" for v vs
      using oid_from_text_accepts [OF assms(1,2), of v vs] r None that by auto
    then show ?thesis using r None by auto
  next
    case (Some u)
    then obtain v vs where t: "text = oid_text v vs" "cbb_wf c'" "cbb_data c' = cbb_data c @ oid_contents v vs"
      using oid_from_text_appends [OF assms(1,2)] r by metis
    obtain buf where "CBS_asn1_oid_to_text h (oid_contents v vs) = Some buf" "take (length text + 1) buf = text @ [0]"
      using oid_to_text_spec [OF assms(3), of v vs] assms(4) unfolding t(1) by metis
    then show ?thesis using r Some t by auto
  qed
qed

theorem oid_text_round_trip_witness:
  "\<exists>u c' v vs. CBB_add_asn1_oid_from_text 0 (oid_text 42 []) (CBB_init_fixed [0] 1 (\<lambda>_ _. None)) = (Some u, c')
    \<and> oid_text 42 [] = oid_text v vs \<and> cbb_data c' = oid_contents v vs"
proof -
  let ?c = "CBB_init_fixed [0] 1 (\<lambda>_ _. None)" and ?h = "\<lambda>(_ :: nat) n. Some (replicate n (0 :: u8))"
  have l: "length (oid_contents 42 []) = 1" by (simp add: oid_contents_def base128_def)
  have wf: "cbb_wf ?c" "cbb_children ?c = []" "cbb_data ?c = []" "cbb_len ?c = 0" "can_hold ?c 1"
    by (simp_all add: CBB_init_fixed_def cbb_init_def CBB_zero_def cbb_wf_def heap_ok_def size_mod_def can_hold_def cbb_data_def)
  have t: "length (oid_text 42 []) < 2 ^ 61"
    by (simp add: oid_text_def oid_first_def oid_second_def decimal.simps [of "Suc 0"] decimal.simps [of 2])
  have h: "heap_total ?h" by (simp add: heap_total_def heap_ok_def)
  show ?thesis
    using oid_text_round_trip [OF wf(1,2) h t] wf(3-5) l by (fastforce split: prod.splits option.splits)
qed

text \<open>C14: \<open>CBB_flush_asn1_set_of\<close> puts the elements of a SET OF in their canonical order. On a well-formed
  builder, with an allocator that does not refuse (\<open>heap_total\<close>), when the contents of the open child are
  DER elements of fewer than \<open>2 ^ 56\<close> bytes in all, the call succeeds and replaces them by the same elements,
  none lost or duplicated, in the order of X.690, 11.6: each at most the next one as a number, the shorter
  of the two padded with zero octets at its end. There is only one list of the same elements in this
  order, so the result does not depend on the order in which they were added.\<close>

theorem set_of_becomes_canonical:
  assumes "cbb_wf c" "length (cbb_children c) = d" "\<not> cbb_error c" "heap_total (cbb_heap c)"
    "drop (CBB_data d c) (cbb_data c) = concat xs" "list_all is_der xs" "length (concat xs) < 2 ^ 56"
    "CBB_data d c \<le> cbb_len c"
  shows "\<exists>c' ys. CBB_flush_asn1_set_of d c = (Some (), c') \<and> cbb_wf c'
    \<and> cbb_data c' = take (CBB_data d c) (cbb_data c) @ concat ys
    \<and> mset ys = mset xs \<and> sorted_wrt x690_le ys
    \<and> (\<forall>zs. mset zs = mset xs \<and> sorted_wrt x690_le zs \<longrightarrow> zs = ys)"
proof -
  obtain c' where "CBB_flush_asn1_set_of d c = (Some (), c')" "cbb_wf c'"
    "cbb_data c' = take (CBB_data d c) (cbb_data c) @ concat (qsort compare_set_of_element xs)"
    using flush_set_of_spec [OF assms] by metis
  then show ?thesis using mset_qsort qsort_x690 [OF assms(6)] by metis
qed

theorem set_of_becomes_canonical_witness:
  "\<exists>c'. CBB_flush_asn1_set_of 0
      (cbb_init [5, 0, 1, 1, 0xff] 5 False (CBB_zero (\<lambda>_ n. Some (replicate n 0)))\<lparr>cbb_len := 5\<rparr>) = (Some (), c') \<and> cbb_wf c'"
proof -
  let ?c = "cbb_init [5, 0, 1, 1, 0xff] 5 False (CBB_zero (\<lambda>_ n. Some (replicate n 0)))\<lparr>cbb_len := 5\<rparr>"
  have d: "is_der [5, 0]" "is_der [1, 1, 0xff]"
    unfolding is_der_def by (rule exI [of _ 5], rule exI [of _ "[]"], simp add: der_element_def der_header_def asn1_tag_bytes_def der_length_def valid_asn1_tag_def
        CBS_ASN1_CONSTRUCTED_def Let_def asn1_tag_bits_def CBS_ASN1_TAG_NUMBER_MASK_def)
      (rule exI [of _ 1], rule exI [of _ "[0xff]"], simp add: der_element_def der_header_def asn1_tag_bytes_def der_length_def valid_asn1_tag_def
        CBS_ASN1_CONSTRUCTED_def Let_def asn1_tag_bits_def CBS_ASN1_TAG_NUMBER_MASK_def word_le_nat_alt)
  show ?thesis
    using set_of_becomes_canonical [of ?c 0 "[[5, 0], [1, 1, 0xff]]"] d
    by (auto simp: cbb_wf_def cbb_init_def CBB_zero_def heap_ok_def heap_total_def size_mod_def CBB_data_def cbb_data_def)
qed

text \<open>C15: The conversion of BER to DER. A BER value is a tree; \<open>ber_encodes\<close> says which byte strings encode
  it: primitive and constructed elements, with definite lengths of any number of bytes up to four or
  with indefinite ones. \<open>ber_der\<close> gives the one DER encoding of a tree, in which a string of pieces is one
  primitive element, or refuses a tree that is too deep or has a wrong piece. Given any encoding of fewer than \<open>2 ^ 31\<close> bytes and
  an allocator that does not refuse (\<open>heap_total\<close>), \<open>CBS_asn1_ber_to_der\<close> returns that DER encoding, so that all encodings of a value become the same; it fails
  exactly on the trees that are refused. The result is left alone by a second call.\<close>

theorem ber_becomes_der:
  assumes "ber_encodes t x" "length x < 2 ^ 31" "heap_total h"
  shows "case ber_der 0 0 t of
      None \<Rightarrow> CBS_asn1_ber_to_der h x = (None, x)
    | Some y \<Rightarrow> (\<exists>storage. CBS_asn1_ber_to_der h x = (Some (y, storage), []))
        \<and> CBS_asn1_ber_to_der h y = (Some (y, None), [])"
  using convert_ber_to_der [OF assms] get_any_unchanged [OF assms(1,2)] by (auto split: option.splits)

theorem ber_becomes_der_witness:
  "\<exists>storage. CBS_asn1_ber_to_der (\<lambda>_ n. Some (replicate n 0)) [0x24, 0x80, 4, 1, 0xaa, 4, 0x81, 1, 0xbb, 0, 0]
    = (Some ([4, 2, 0xaa, 0xbb], storage), [])"
proof -
  let ?t = "Constructed 0x20000004 [Primitive 4 [0xaa], Primitive 4 [0xbb]]"
  note tags = asn1_tag_bytes_def valid_asn1_tag_def CBS_ASN1_CONSTRUCTED_def CBS_ASN1_TAG_SHIFT_def Let_def asn1_tag_bits_def
    CBS_ASN1_TAG_NUMBER_MASK_def word_le_nat_alt CBS_ASN1_OCTETSTRING_def
  have "ber_encodes (Primitive 4 [0xaa]) [4, 1, 0xaa]"
    using primitive [of 4 "[0xaa]" "[1]"] by (simp add: tags ber_length_def)
  moreover have "ber_encodes (Primitive 4 [0xbb]) [4, 0x81, 1, 0xbb]"
    using primitive [of 4 "[0xbb]" "[0x81, 1]"] by (simp add: tags ber_length_def exI [of _ "[1]"])
  ultimately have "ber_encodes_list [Primitive 4 [0xaa], Primitive 4 [0xbb]] ([4, 1, 0xaa] @ [4, 0x81, 1, 0xbb] @ [])"
    by (intro ber_encodes_ber_encodes_list.intros)
  then have e: "ber_encodes ?t [0x24, 0x80, 4, 1, 0xaa, 4, 0x81, 1, 0xbb, 0, 0]"
    using ber_encodes_ber_encodes_list.indefinite [of "0x20000004" _ "[4, 1, 0xaa, 4, 0x81, 1, 0xbb]"] by (simp add: tags)
  have der: "ber_der 0 0 ?t = Some [4, 2, 0xaa, 0xbb]"
    by (simp add: ber_der.simps tags kMaxDepth_def is_string_type_def der_element_def der_header_def der_length_def)
  show ?thesis using ber_becomes_der [OF e, of "\<lambda>_ n. Some (replicate n 0)"] der
    by (simp add: heap_total_def heap_ok_def)
qed

text \<open>C16: Only BER is accepted. When \<open>CBS_asn1_ber_to_der\<close> succeeds on fewer than \<open>2 ^ 31\<close> bytes, with an allocator that
  does not refuse (\<open>heap_total\<close>), its whole input is a sequence of encodings of
  values. Without storage, the input is DER already and the result is its first element; otherwise all
  of the input has been converted and used up, not only its first element.\<close>

theorem only_ber_is_converted:
  assumes "CBS_asn1_ber_to_der h x = (Some (y, storage), rest)" "length x < 2 ^ 31" "heap_total h"
  shows "\<exists>ts. ber_encodes_list ts x \<and>
    (if storage = None then ber_der_list 0 0 ts = Some x \<and> x = y @ rest
     else ber_der_list 0 0 ts = Some y \<and> rest = [])"
  by (rule converted_was_encoding [OF assms])

theorem only_ber_is_converted_witness: "\<exists>ts. ber_encodes_list ts [5, 0, 5, 0] \<and> ber_der_list 0 0 ts = Some [5, 0, 5, 0]"
proof -
  have get: "CBS_get_any_ber_asn1_element (5 # 0 # r)
      = (Some \<lparr>element = [5, 0], element_tag = 5, header_len = 2, ber_found = False, indefinite = False\<rparr>, r)"
    "CBS_get_any_asn1_element (5 # 0 # r)
      = (Some \<lparr>element = [5, 0], element_tag = 5, header_len = 2, ber_found = False, indefinite = False\<rparr>, r)" for r
    by (simp_all add: CBS_get_any_ber_asn1_element_def CBS_get_any_asn1_element_def cbs_get_any_asn1_element_def parse_asn1_tag_def
        op_simps Let_def asn1_tag_join_def CBS_ASN1_CONSTRUCTED_def CBS_ASN1_TAG_SHIFT_def asn1_finish_eq_Some)
  have "find_ber_loop 0 [] = Some False" by (simp add: find_ber_loop.simps [of 0 "[]"])
  then have "cbs_find_ber [5, 0, 5, 0] 0 = Some False"
    by (simp add: cbs_find_ber_def find_ber_loop.simps [of 0 "_ # _"] get CBS_ASN1_CONSTRUCTED_def CBS_ASN1_TAG_SHIFT_def)
  then have "CBS_asn1_ber_to_der (\<lambda>_ n. Some (replicate n 0)) [5, 0, 5, 0] = (Some ([5, 0], None), [5, 0])"
    by (simp add: CBS_asn1_ber_to_der_def get)
  then show ?thesis using only_ber_is_converted [of "\<lambda>_ n. Some (replicate n 0)" "[5, 0, 5, 0]" "[5, 0]" None "[5, 0]"]
    by (simp add: heap_total_def heap_ok_def)
qed

section \<open>Numbers and lengths\<close>

text \<open>C17: Reserving room never damages the builder. From a well-formed builder, whatever \<open>realloc\<close> answers,
  the result is well-formed with the same bytes and children; a position is only returned when that
  many bytes lie inside the block, and a failure, be it a wrapped length, a fixed buffer or missing
  memory, sets the error flag.\<close>

theorem reserve_is_safe:
  assumes "cbb_wf c" "cbb_buffer_reserve n c = (r, c')" "n < size_mod"
  shows "cbb_wf c' \<and> cbb_data c' = cbb_data c \<and> cbb_children c' = cbb_children c
    \<and> (case r of None \<Rightarrow> cbb_error c' | Some p \<Rightarrow> p = cbb_len c \<and> p + n \<le> length (cbb_buf c'))"
  using cbb_buffer_reserve_spec [OF assms] by (cases r) (auto simp: cbb_wf_def)

theorem reserve_is_safe_witness:
  "\<exists>r c'. cbb_buffer_reserve 5 (CBB_init_fixed [7, 7] 2 (\<lambda>_ _. None)) = (r, c') \<and> cbb_wf c' \<and> r = None \<and> cbb_error c'"
proof -
  let ?c = "CBB_init_fixed [7, 7] 2 (\<lambda>_ _. None)"
  have wf: "cbb_wf ?c"
    by (simp add: CBB_init_fixed_def cbb_init_def CBB_zero_def cbb_wf_def heap_ok_def size_mod_def)
  have r: "cbb_buffer_reserve 5 ?c = (None, ?c\<lparr>cbb_error := True\<rparr>)"
    by (simp add: cbb_buffer_reserve_def CBB_init_fixed_def cbb_init_def CBB_zero_def size_add_def size_mod_def)
  show ?thesis using reserve_is_safe [OF wf r] r by (simp add: size_mod_def)
qed

section \<open>Time\<close>

text \<open>C18: The two conversions between POSIX time and calendar fields are inverse bijections: a time has the
  fields \<open>y m d h mi s\<close> exactly when those fields are valid and have that time.\<close>

theorem posix_time_bijection:
  "utc_from_posix_time t = Some (y, m, d, h, mi, s) \<longleftrightarrow> posix_time_from_utc y m d h mi s = Some t"
  by (rule utc_from_posix_time_inverse)

text \<open>C19: The closed formula for POSIX time agrees with counting the calendar: for valid fields the result
  is the days of all earlier years and months, leap years included, since 1970, in seconds, plus the
  time of the day; for invalid fields there is none.\<close>

theorem posix_time_counts_calendar:
  "posix_time_from_utc y m d h mi s =
    (if is_valid_date y m d \<and> is_valid_time h mi s
     then Some ((calendar_days y m d - calendar_days 1970 1 1) * 86400 + h * 3600 + mi * 60 + s) else None)"
  by (rule posix_time_counts_seconds)

text \<open>C20: Without time zone offsets the parser accepts exactly the strings of RFC 5280: the digits of a valid
  date and time, with four year digits for GeneralizedTime and two (1950 to 2049) for UTCTime, ended by
  Z; and \<open>*out_tm\<close> receives these fields and keeps the others.\<close>

theorem rfc5280_time_exact:
  "CBS_parse_rfc5280_time_internal bs gentime False (Some t) = (True, Some t') \<longleftrightarrow>
   (\<exists>y m d h mi s. year_ok gentime y \<and> is_valid_day y m d \<and> is_valid_time h mi s
      \<and> bs = time_string gentime y m d h mi s Zulu \<and> t' = set_tm y m d h mi s t)"
  by (rule rfc5280_time_strict)

section \<open>Constant-time primitives and Base64\<close>

text \<open>C21: The Base64 block decoder inverts the block encoder for inputs of every length, whenever the output
  array has the decoded length that \<open>EVP_DecodedLength\<close> computes.\<close>

theorem base64_block_round_trip:
  assumes "(length xs + 2) div 3 * 3 \<le> max_out"
  shows "EVP_DecodeBase64 max_out (take (snd (EVP_EncodeBlock xs)) (fst (EVP_EncodeBlock xs))) = Some xs"
  using assms by (rule DecodeBase64_EncodeBlock)

theorem base64_block_round_trip_witness:
  "EVP_DecodeBase64 3 (take (snd (EVP_EncodeBlock [1, 2])) (fst (EVP_EncodeBlock [1, 2]))) = Some [1, 2]"
  using base64_block_round_trip [of "[1, 2]" 3] by simp

text \<open>C22: The streaming encoder does not depend on how its input is cut. For chunks short enough for an
  \<open>int\<close> output length, the concatenated outputs of \<open>EVP_EncodeUpdate\<close> and \<open>EVP_EncodeFinal\<close> are the
  lines of the whole input: 48 bytes to a line, each encoded and ended by a newline.\<close>

theorem encode_stream_is_line_encoding:
  assumes "\<forall>c \<in> set cs. length c \<le> max_update"
  shows "encode_stream cs = base64_lines (concat cs)"
  using assms by (rule encode_stream_lines)

theorem encode_stream_is_line_encoding_witness: "encode_stream [[1], [2, 3]] = base64_lines [1, 2, 3]"
  using encode_stream_is_line_encoding [of "[[1], [2, 3]]"] by (simp add: max_update_def)

text \<open>C23: The streaming decoder refines the block decoder. However the input is cut into chunks of at most \<open>INT_MAX - 4\<close> bytes, the calls of
  \<open>EVP_DecodeUpdate\<close> and \<open>EVP_DecodeFinal\<close> succeed exactly when the whole input without white space is a
  multiple of four characters that the block decoder accepts, and return its bytes; padding in the
  middle, or anything after it, is refused.\<close>

theorem decode_stream_is_block_decoding:
  assumes "\<forall>c \<in> set cs. length c + 4 \<le> INT_MAX"
  shows "decode_stream cs =
    (if length (strip_spaces (concat cs)) mod 4 = 0 then decode_quads (strip_spaces (concat cs)) else None)"
  using assms by (rule decode_stream_block)

theorem decode_stream_is_block_decoding_witness: "decode_stream [[0x41, 0x41], [0x0a, 0x41]] = None"
  using decode_stream_is_block_decoding [of "[[0x41, 0x41], [0x0a, 0x41]]"]
  by (simp add: INT_MAX_def strip_spaces_def is_space_char_def)

section \<open>Unicode\<close>

text \<open>C24: The UTF-8 reader is exact: it returns a code point if and only if the input starts with the
  encoding of that code point by Table 3-6 of the Unicode standard and the code point is neither a
  surrogate, a noncharacter nor above 10ffff; so over-long forms, stray and missing continuation bytes
  are all refused, and nothing beyond the encoding is consumed.\<close>

theorem utf8_reader_exact:
  "CBS_get_utf8 bs = (Some v, rest) \<longleftrightarrow> is_valid_code_point v \<and> bs = utf8 (unat v) @ rest"
  by (rule utf8_codec.accepts_iff)

text \<open>C25: Text survives UTF-8. Any list of valid code points is written to a builder with room for it, as many
  bytes as \<open>CBB_get_utf8_len\<close> adds up to, and reading as many code points returns the list and leaves
  nothing.\<close>

theorem utf8_text_round_trip:
  assumes "list_all is_valid_code_point us" "cbb_wf c" "cbb_children c = []"
    "can_hold c (cbb_len c + sum_list (map CBB_get_utf8_len us))"
  shows "\<exists>c'. fold (\<lambda>u m. op_bind m (\<lambda>_. CBB_add_utf8 0 u)) us (CBB_flush 0) c = (Some (), c')
    \<and> op_repeat (length us) CBS_get_utf8 (drop (cbb_len c) (cbb_data c')) = (Some us, [])"
proof -
  have "map CBB_get_utf8_len us = map (\<lambda>u. length (utf8 (unat u))) us"
    by (rule map_cong) (use assms(1) in \<open>simp_all add: utf8_length list_all_iff\<close>)
  then have "sum_list (map CBB_get_utf8_len us) = length (concat (map (\<lambda>u. utf8 (unat u)) us))"
    by (simp only: length_concat map_map o_def)
  then show ?thesis using utf8_rw.sequence_is_read [OF assms(1-3)] assms(4) by simp blast
qed

theorem utf8_text_round_trip_witness:
  "\<exists>c'. op_bind (CBB_flush 0) (\<lambda>_. CBB_add_utf8 0 0xe9) (CBB_init_fixed [0, 0] 2 (\<lambda>_ _. None)) = (Some (), c')
    \<and> op_repeat 1 CBS_get_utf8 (cbb_data c') = (Some [0xe9], [])"
proof -
  let ?c = "CBB_init_fixed [0, 0] 2 (\<lambda>_ _. None)"
  have "is_valid_code_point 0xe9" "CBB_get_utf8_len 0xe9 = 2" by code_simp+
  moreover have "cbb_wf ?c" "cbb_children ?c = []" "cbb_len ?c = 0" "can_hold ?c 2"
    by (simp_all add: CBB_init_fixed_def cbb_init_def CBB_zero_def cbb_wf_def heap_ok_def size_mod_def can_hold_def)
  ultimately show ?thesis using utf8_text_round_trip [of "[0xe9]" ?c] by (simp add: numeral_2_eq_2)
qed

section \<open>Modes of operation of block ciphers\<close>

text \<open>C26: Counter mode over a function that only counts in 32 bits does the same as counter mode that counts in 128 bits: for
  inputs of any length, in the middle of a block or at its start, and across every overflow of the 32 bits,
  where the code stops in time and carries over. The contract of the function (\<open>counts_32\<close>) says nothing about an overflow.
  The states agree but for a buffer that will not be read.\<close>

theorem ctr32_is_ctr128:
  assumes "block_sized block" "counts_32 block func" "length (ctr_ivec s) = 16" "ctr_num s < 16"
    and "CRYPTO_ctr128_encrypt block inp s = (out, t)"
  shows "\<exists>u. CRYPTO_ctr128_encrypt_ctr32 func inp s = (out, u) \<and> same_position u t"
  using assms(5) by (intro ctr32_run [OF assms(1-4)]) (simp add: ctr.crypt_is_run [OF assms(1,4)])

theorem ctr32_is_ctr128_witness:
  "\<exists>block func s out t u. CRYPTO_ctr128_encrypt block (replicate 40 1) s = (out, t) \<and> be_nat (ctr_ivec s) = 2 ^ 128 - 1
    \<and> CRYPTO_ctr128_encrypt_ctr32 func (replicate 40 1) s = (out, u) \<and> same_position u t"
proof -
  define block :: block128 where "block = (\<lambda>b. take 16 (rev b @ replicate 16 7))"
  define func :: ctr128 where "func = (\<lambda>inp iv.
    map2 (XOR) inp (keystream_blocks block (\<lambda>i. take 12 iv @ nat_be 4 (be_nat (drop 12 iv) + i)) (length inp div 16)))"
  define s where "s = \<lparr>ctr_ivec = nat_be 16 (2 ^ 128 - 1), ecount_buf = [], ctr_num = 0\<rparr>"
  obtain out t where run: "CRYPTO_ctr128_encrypt block (replicate 40 1) s = (out, t)" by fastforce
  have "block_sized block" "counts_32 block func" "length (ctr_ivec s) = 16" "ctr_num s < 16"
    by (simp_all add: block_sized_def counts_32_def block_def func_def s_def min_def)
  then obtain u where "CRYPTO_ctr128_encrypt_ctr32 func (replicate 40 1) s = (out, u)" "same_position u t"
    using ctr32_is_ctr128 [OF _ _ _ _ run] by blast
  moreover have "be_nat (ctr_ivec s) = 2 ^ 128 - 1" by (simp add: s_def be_nat_nat_be)
  ultimately show ?thesis using run by blast
qed

text \<open>C27: CBC decryption computes the mode of operation on the input as it was, for a message of any length, wherever the
  two arrays overlap in the way that the code allows (the input is ahead of the output, or behind it altogether),
  with both of its strategies. The input is read in whole blocks, the last one too; the vector is apart from the
  input and the output. The plaintext, cut to the length, goes to the output and the last block read to the vector, and
  no other byte of memory changes. One call is undefined, and it is the only one: a message shorter than a
  block, to an output two blocks behind the input or after it, has the vector copied to itself.\<close>

theorem cbc_decrypts_where_arrays_overlap:
  assumes "block_sized dblock" "inp + 16 * K \<le> length m" "out + len \<le> length m" "ivec + 16 \<le> length m"
    and "out \<le> inp \<or> inp + 16 * K \<le> out" "apart ivec 16 out len" "apart ivec 16 inp (16 * K)" "K = (len + 15) div 16"
  shows "CRYPTO_cbc128_decrypt dblock m inp out len ivec =
    (if 0 < len \<and> len < 16 \<and> (out + 32 \<le> inp \<or> inp < out) then None
     else let cs = blocks_at m inp K
       in Some (write_at ivec (last (read_at m ivec 16 # cs))
            (write_at out (take len (concat (cbc_decrypt dblock (read_at m ivec 16) cs))) m)))"
proof (cases "0 < len \<and> len < 16 \<and> (out + 32 \<le> inp \<or> inp < out)")
  case True
  then show ?thesis by (auto simp: CRYPTO_cbc128_decrypt_def cbc_decrypt_apart.simps OPENSSL_memcpy_def)
next
  case False
  then show ?thesis using cbc128_decrypt_any [OF assms] by (simp only: if_False) blast
qed

theorem cbc_decrypts_where_arrays_overlap_witness:
  "\<exists>dblock m. CRYPTO_cbc128_decrypt dblock (map word_of_nat [0..<80]) 28 20 27 0 = Some m
    \<and> read_at m 0 16 = map word_of_nat [44..<60]"
proof -
  define dblock :: block128 where "dblock = (\<lambda>b. take 16 (b @ replicate 16 0))"
  let ?m = "map word_of_nat [0..<80] :: bytes"
  define xs where "xs = take 27 (concat (cbc_decrypt dblock (read_at ?m 0 16) (blocks_at ?m 28 2)))"
  have d: "block_sized dblock" by (simp add: block_sized_def dblock_def min_def)
  have "length xs = 27"
    using concat_cbc_decrypt [OF d, of "read_at ?m 0 16" 28 2 ?m] by (simp add: xs_def length_read_at)
  moreover have "CRYPTO_cbc128_decrypt dblock ?m 28 20 27 0 = Some (write_at 0 (read_at ?m 44 16) (write_at 20 xs ?m))"
    using cbc_decrypts_where_arrays_overlap [OF d, of 28 2 ?m 20 27 0]
    by (simp add: apart_def xs_def numeral_2_eq_2)
  moreover have "read_at ?m 44 16 = map word_of_nat [44..<60]"
    by (simp add: read_at_def drop_map take_map)
  moreover have "read_at (write_at 0 (map word_of_nat [44..<60]) (write_at 20 xs ?m)) 0 16 = map word_of_nat [44..<60]"
    using calculation(1) by (intro read_write_same) (simp_all add: length_write_at)
  ultimately show ?thesis by metis
qed

text \<open>C28: Cipher feedback is decrypted whatever the pieces: what was encrypted in two calls is decrypted in one, and the
  decryption ends in the state in which the encryption ended.\<close>

theorem cfb_round_trip_in_pieces:
  assumes "block_sized block" "cfb_num s < 16" "length (cfb_ivec s) = 16"
    and "CRYPTO_cfb128_encrypt block True xs s = (a, t)" "CRYPTO_cfb128_encrypt block True ys t = (b, u)"
  shows "CRYPTO_cfb128_encrypt block False (a @ b) s = (xs @ ys, u)"
  using cfb_pair.enc.in_pieces [of block s xs ys] cfb_pair.decrypts [of block s "xs @ ys"] assms by simp

theorem cfb_round_trip_in_pieces_witness:
  "\<exists>block s a b t u. CRYPTO_cfb128_encrypt block True [1, 2, 3] s = (a, t) \<and> CRYPTO_cfb128_encrypt block True (replicate 40 4) t = (b, u)
    \<and> CRYPTO_cfb128_encrypt block False (a @ b) s = ([1, 2, 3] @ replicate 40 4, u)"
proof -
  define block :: block128 where "block = (\<lambda>b. take 16 (rev b @ replicate 16 7))"
  define s where "s = \<lparr>cfb_ivec = replicate 16 9, cfb_num = 5\<rparr>"
  obtain a t where a: "CRYPTO_cfb128_encrypt block True [1, 2, 3] s = (a, t)" by fastforce
  obtain b u where b: "CRYPTO_cfb128_encrypt block True (replicate 40 4) t = (b, u)" by fastforce
  have "block_sized block" "cfb_num s < 16" "length (cfb_ivec s) = 16"
    by (simp_all add: block_sized_def block_def s_def min_def)
  from cfb_round_trip_in_pieces [OF this a b] a b show ?thesis by blast
qed

text \<open>C29: A message of whole blocks that CBC encrypts in its place is decrypted in its place, with the vector of the encryption: after that,
  and with the vector as it was, memory is what it was.\<close>

theorem cbc_round_trip_in_place:
  assumes "block_sized block" "block_sized dblock" "\<And>b. length b = 16 \<Longrightarrow> dblock (block b) = b"
    and "p + 16 * k \<le> length m" "ivec + 16 \<le> length m" "apart ivec 16 p (16 * k)"
  shows "\<exists>m1 m2. CRYPTO_cbc128_encrypt block m p p (16 * k) ivec = Some m1
    \<and> CRYPTO_cbc128_decrypt dblock (write_at ivec (read_at m ivec 16) m1) p p (16 * k) ivec = Some m2
    \<and> write_at ivec (read_at m ivec 16) m2 = m"
  by (rule cbc_in_place [OF assms]) blast+

theorem cbc_round_trip_in_place_witness:
  "\<exists>block dblock m1 m2. CRYPTO_cbc128_encrypt block (replicate 64 3) 16 16 48 0 = Some m1
    \<and> CRYPTO_cbc128_decrypt dblock (write_at 0 (replicate 16 3) m1) 16 16 48 0 = Some m2
    \<and> write_at 0 (replicate 16 3) m2 = replicate 64 3"
proof -
  define block :: block128 where "block = (\<lambda>b. rev (take 16 (b @ replicate 16 0)))"
  have "block_sized block" "length b = 16 \<Longrightarrow> block (block b) = b" for b
    by (simp_all add: block_sized_def block_def min_def)
  then show ?thesis
    using cbc_round_trip_in_place [of block block 16 3 "replicate 64 3" 0]
    by (auto simp: apart_def read_at_def)
qed

section \<open>Memory buffers\<close>

text \<open>C30: A memory buffer is a list of bytes. After any sequence of appends, changes of the length and reservations
  on a new buffer, its contents are those of the list after the calls that succeeded: an append adds its
  bytes, a change of the length cuts off the end or adds zeros, a reservation and a failed call change nothing. The
  length never exceeds the allocated size. While memory is available and the sizes stay below 2^62, all
  calls succeed.\<close>

theorem memory_buffer_refines_list:
  assumes "\<forall>i. heap_ok (h i)" "list_all mem_cmd_ok cmds" "run_mem h cmds BUF_MEM_new = (rs, buf)"
  shows "mem_contents buf = list_mem cmds rs [] \<and> mem_length buf = length (mem_contents buf) \<and> mem_length buf \<le> mem_max buf
    \<and> (heap_gives h \<longrightarrow> sum_list (map mem_cmd_size cmds) < 2 ^ 62 \<longrightarrow> rs = replicate (length cmds) True)"
proof -
  have "mem_wf buf \<and> mem_contents buf = list_mem cmds rs []"
    using run_mem_refines [OF BUF_MEM_new_wf(1) assms] BUF_MEM_new_wf(2) by simp
  moreover have "heap_gives h \<Longrightarrow> sum_list (map mem_cmd_size cmds) < 2 ^ 62 \<Longrightarrow> rs = replicate (length cmds) True"
    using run_mem_succeeds [OF BUF_MEM_new_wf(1) _ _ assms(3)] by (simp add: BUF_MEM_new_def)
  ultimately show ?thesis using length_contents [of buf] by (simp add: mem_wf_def)
qed

theorem memory_buffer_refines_list_witness:
  "\<exists>buf. run_mem (\<lambda>_ n. Some (replicate n 7)) [Append [1, 2, 3], Grow 2, Grow 4] BUF_MEM_new = ([True, True, True], buf)
    \<and> mem_contents buf = [1, 2, 0, 0]"
proof -
  let ?h = "\<lambda>_ n. Some (replicate n 7)" and ?cmds = "[Append [1, 2, 3], Grow 2, Grow 4]"
  obtain rs buf where run: "run_mem ?h ?cmds BUF_MEM_new = (rs, buf)" by fastforce
  have h: "\<forall>i :: nat. heap_ok (\<lambda>n. Some (replicate n 7))" "heap_gives ?h" by (simp_all add: heap_ok_def heap_gives_def)
  have "list_all mem_cmd_ok ?cmds" by (simp add: size_mod_def)
  from memory_buffer_refines_list [OF h(1) this run] h(2) have "rs = [True, True, True]" "mem_contents buf = list_mem ?cmds rs []"
    by simp_all
  then show ?thesis using run by (simp add: numeral_2_eq_2)
qed

section \<open>The hash table\<close>

text \<open>C31: A hash table is a finite map from keys to pointers. If the caller's comparison finds two objects equal
  exactly when they have the same key, and the hash is a function of the key, then the number of items is the
  number of keys, retrieving reads the map, inserting updates it and returns what was there, and deleting
  removes the key and returns what was there; an insertion only fails when a new item is needed and
  cannot be allocated, and then the map is as it was. Whether and with what success the table is resized in
  between makes no difference, and the invariant of the table is kept.\<close>

theorem hash_table_refines_map:
  assumes "lh_inv hf cf D key khash lh" "d \<in> D"
    and "\<And>p. p \<in> D \<Longrightarrow> call_hash hf p = khash (key p)"
    and "\<And>p q. p \<in> D \<Longrightarrow> q \<in> D \<Longrightarrow> call_cmp cf p q = 0 \<longleftrightarrow> key p = key q"
    and "item \<notin> iaddr ` set (lh_items lh)"
  defines "found \<equiv> (case lh_map key lh (key d) of None \<Rightarrow> 0 | Some p \<Rightarrow> p)"
  shows "OPENSSL_lh_num_items lh = card (dom (lh_map key lh))
    \<and> OPENSSL_lh_retrieve call_hash call_cmp lh d = found
    \<and> (case OPENSSL_lh_insert h item call_hash call_cmp lh d of (ok, old, t) \<Rightarrow>
         old = found \<and> lh_inv hf cf D key khash t \<and> (ok = 0 \<longleftrightarrow> lh_map key lh (key d) = None \<and> item = 0)
         \<and> lh_map key t = (if ok = 0 then lh_map key lh else (lh_map key lh)(key d \<mapsto> d)))
    \<and> (case OPENSSL_lh_delete h call_hash call_cmp lh d of (old, t) \<Rightarrow>
         old = found \<and> lh_inv hf cf D key khash t \<and> lh_map key t = (lh_map key lh)(key d := None))"
proof -
  have laws: "lhash_functions call_hash call_cmp hf cf D key khash"
    using assms(3,4) by unfold_locales
  obtain t where t: "lh_inv hf cf D key khash t"
    "OPENSSL_lh_insert h item call_hash call_cmp lh d
       = (case lh_map key lh (key d) of Some old \<Rightarrow> (1, old, t) | None \<Rightarrow> (if item = 0 then 0 else 1, 0, t))"
    "lh_map key t = (if lh_map key lh (key d) = None \<and> item = 0 then lh_map key lh else (lh_map key lh)(key d \<mapsto> d))"
    by (rule lhash_functions.insert_map [OF laws assms(1,2,5), of h])
  obtain u where "lh_inv hf cf D key khash u" "OPENSSL_lh_delete h call_hash call_cmp lh d = (found, u)"
    "lh_map key u = (lh_map key lh)(key d := None)"
    unfolding found_def by (rule lhash_functions.delete_map [OF laws assms(1,2), of h])
  moreover have "OPENSSL_lh_retrieve call_hash call_cmp lh d = found"
    unfolding found_def by (rule lhash_functions.retrieve_map [OF laws assms(1,2)])
  moreover have "OPENSSL_lh_num_items lh = card (dom (lh_map key lh))"
    unfolding OPENSSL_lh_num_items_def by (rule num_items_is_card [OF assms(1)])
  ultimately show ?thesis using t by (cases "lh_map key lh (key d)") (simp_all add: found_def)
qed

theorem hash_table_refines_map_witness:
  "fst (OPENSSL_lh_delete (\<lambda>n. None) (\<lambda>_ p. ucast p) (\<lambda>_ p q. uint p - uint q) one_item_table 37) = 37"
  using hash_table_refines_map [where hf = 1 and cf = 2 and lh = one_item_table and key = "\<lambda>p. p" and D = UNIV and khash = ucast
      and d = 37 and item = 5 and h = "\<lambda>n. None" and call_hash = "\<lambda>_ p. ucast p" and call_cmp = "\<lambda>_ p q. uint p - uint q"]
    one_item_table_ok one_item_table_map
  by (auto simp: one_item_table_num one_item_table_items size_mod_def word_uint_eq_iff split: prod.splits)

text \<open>C32: Iterating over a hash table with a callback that may delete the item it is called on is safe: it ends, reads no
  item that was freed, calls the callback exactly once for every item that was in the table, in the order of
  the chains, and leaves the items that were not deleted. The depth counter, which keeps
  the table from being resized meanwhile, is back at its value, unless it got stuck at its maximum.\<close>

theorem iteration_may_delete:
  assumes "lh_inv hf cf D key khash lh"
    and "\<And>p. p \<in> D \<Longrightarrow> call_hash hf p = khash (key p)"
    and "\<And>p q. p \<in> D \<Longrightarrow> q \<in> D \<Longrightarrow> call_cmp cf p q = 0 \<longleftrightarrow> key p = key q"
  shows "\<exists>t. OPENSSL_lh_doall_arg h (deleting_callback (OPENSSL_lh_delete h call_hash call_cmp) doomed update) (Some lh, s)
      = Some (Some t, fold (\<lambda>x. update (idata x)) (lh_items lh) s)
    \<and> lh_inv hf cf D key khash t \<and> mset (lh_items t) = mset (surviving doomed update (lh_items lh) s)
    \<and> (callback_depth lh < UINT_MAX - 1 \<longrightarrow> callback_depth t = callback_depth lh)"
proof -
  have laws: "lhash_functions call_hash call_cmp hf cf D key khash"
    using assms(2,3) by unfold_locales
  show ?thesis using lhash_functions.doall_deleting [OF laws assms(1), of h doomed update s] by (simp add: visit_def)
qed

theorem iteration_may_delete_witness:
  "\<exists>t. OPENSSL_lh_doall_arg (\<lambda>n. None) (deleting_callback (OPENSSL_lh_delete (\<lambda>n. None) (\<lambda>_ p. ucast p) (\<lambda>_ p q. uint p - uint q))
      (\<lambda>p s. True) (\<lambda>p s. p # s)) (Some one_item_table, []) = Some (Some t, [37]) \<and> lh_items t = []"
  using iteration_may_delete [where hf = 1 and cf = 2 and lh = one_item_table and key = "\<lambda>p. p" and D = UNIV and khash = ucast
      and h = "\<lambda>n. None" and call_hash = "\<lambda>_ p. ucast p" and call_cmp = "\<lambda>_ p q. uint p - uint q"
      and doomed = "\<lambda>p s. True" and update = "\<lambda>p s. p # s" and s = "[]"] one_item_table_ok
  by (auto simp: one_item_table_items word_uint_eq_iff)

section \<open>Buffers and pools\<close>

text \<open>C33: References to buffers are safe. After any number of steps of any number of threads, in any order, that
  create, find, share and free buffers and pools, a buffer to which a caller holds a reference exists; freeing
  the reference neither aborts nor uses anything that was freed; and no step changes
  the contents of the buffer as long as a reference to it is left. This includes counts that got stuck at the
  maximum and buffers that a static one has replaced in the pool.\<close>

theorem references_are_safe:
  assumes "pool_reachable (m, held)" "p \<in># held"
  shows "CRYPTO_BUFFER_data m p \<noteq> None \<and> CRYPTO_BUFFER_free h p m \<noteq> None
    \<and> (\<forall>m' held'. pool_step (m, held) (m', held') \<longrightarrow> p \<in># held' \<longrightarrow> CRYPTO_BUFFER_data m' p = CRYPTO_BUFFER_data m p)"
proof -
  have ok: "pool_ok m held" using pool_reachable_ok [OF assms(1)] by simp
  obtain m' where "CRYPTO_BUFFER_free h p m = Some m'" by (rule pool_ok_free [OF ok assms(2)])
  then show ?thesis
    using pool_okD(2) [OF ok assms(2)] pool_step_data [OF _ ok assms(2)] by (auto simp: CRYPTO_BUFFER_data_def)
qed

theorem references_are_safe_witness:
  "CRYPTO_BUFFER_free (\<lambda>n. None) 5 (snd (CRYPTO_BUFFER_alloc (\<lambda>n. None) 5 0 no_pools)) \<noteq> None"
  using references_are_safe [OF pool_reachable.step [OF pool_reachable.start, OF pool_step.alloc
      [of no_pools 5 "\<lambda>n. None" 0 5 "snd (CRYPTO_BUFFER_alloc (\<lambda>n. None) 5 0 no_pools)"]], of 5]
  by (simp add: CRYPTO_BUFFER_alloc_def no_pools_def OPENSSL_malloc_def)

text \<open>C34: A pool shares equal buffers. In a reachable state \<open>CRYPTO_BUFFER_new\<close>, when it does not run out of memory, returns a
  buffer with the contents asked for, and asking for the same contents again returns the
  same buffer with one more reference, and allocates nothing.\<close>

theorem pool_shares_buffers:
  assumes "pool_reachable (m, held)" "pools m P = Some pool" "item \<notin> iaddr ` set (lh_items (bufs pool))"
    and "buffers m a = None" "buffers m tmp = None" "heap_ok h"
    and "CRYPTO_BUFFER_new h item tmp a contents P m = (p, m')" "p \<noteq> 0" "buffers m' tmp = None"
  shows "CRYPTO_BUFFER_data m' p = Some contents
    \<and> CRYPTO_BUFFER_new h' item' tmp a' contents P m' = (p, set_references p CRYPTO_refcount_inc m')"
proof -
  have "pool_ok m held" using pool_reachable_ok [OF assms(1)] by simp
  note new = new_buffer_is_entry [OF this assms(4-6,2,3,7,8)]
  show ?thesis using new(3) new_buffer_shared [OF new(1,2) assms(9)] by blast
qed

theorem pool_shares_buffers_witness:
  "\<exists>m. CRYPTO_BUFFER_new (\<lambda>n. None) 0 9 0 [] 3
     (snd (CRYPTO_BUFFER_new (\<lambda>n. Some (replicate n 0)) 7 9 5 [] 3 one_pool)) = (5, m)"
proof -
  obtain m where "CRYPTO_BUFFER_new (\<lambda>n. Some (replicate n 0)) 7 9 5 [] 3 one_pool = (5, m)" "buffers m 9 = None"
    using one_pool_new by blast
  then show ?thesis
    using pool_shares_buffers [OF one_pool_reachable one_pool_table(1), of 7 5 9 "\<lambda>n. Some (replicate n 0)" "[]" 5 m "\<lambda>n. None" 0 0]
    by (auto simp: one_pool_table(2) heap_ok_def lh_items_def)
qed

section \<open>The stack\<close>

text \<open>C35: A stack is a list. When the allocator does not fail (\<open>array_heap_total\<close>), any sequence of insertions, deletions and
  updates returns what the same operations on the list of its pointers return, ends with those
  pointers, and keeps the invariant of the array; an insertion is refused exactly at \<open>INT_MAX\<close> pointers.\<close>

theorem stack_refines_list:
  assumes "sk_wf s" "array_heap_total h"
  shows "\<exists>t. run_cmds (run_cmd h) cs (Some s) = (fst (run_cmds list_cmd cs (items s)), Some t)
    \<and> items t = snd (run_cmds list_cmd cs (items s)) \<and> sk_wf t \<and> comp t = comp s"
  using run_cmds_refines [OF assms] by blast

theorem stack_refines_list_witness:
  "\<exists>t. run_cmds (run_cmd (\<lambda>n. Some (replicate n 0))) [Push 7, Insert 9 0, Pop]
      (Some \<lparr>num = 0, data = [0, 0, 0, 0], sorted_flag = False, num_alloc = 4, comp = 0\<rparr>)
    = ([Inr 1, Inr 2, Inl 7], Some t) \<and> items t = [9]"
  using stack_refines_list
    [of "\<lparr>num = 0, data = [0, 0, 0, 0], sorted_flag = False, num_alloc = 4, comp = 0\<rparr>" "\<lambda>n. Some (replicate n 0)" "[Push 7, Insert 9 0, Pop]"]
  by (auto simp: sk_wf_def array_heap_total_def items_def INT_MAX_def list_insert_at_def)

text \<open>C36: \<open>OPENSSL_sk_sort\<close> sorts. For a comparison function whose sign is that of a total preorder, and a
  stack whose sorted flag, if it is set, is true of its contents (\<open>sk_ordered\<close>), the heap sort permutes the pointers into ascending order, sets the sorted flag, and keeps the invariant.\<close>

theorem stack_sort_sorts:
  assumes "sk_wf s" "sk_ordered call s" "comp s \<noteq> 0" "comparator (call (comp s))"
  shows "\<exists>t. OPENSSL_sk_sort (Some s) call = Some t \<and> sk_wf t \<and> OPENSSL_sk_is_sorted (Some t)
    \<and> mset (items t) = mset (items s) \<and> sorted_wrt (\<lambda>a b. call (comp s) a b \<le> 0) (items t)"
  using sk_sort_spec [OF assms(1,2,4,3)] by (auto simp: OPENSSL_sk_is_sorted_def)

theorem stack_sort_sorts_witness:
  "\<exists>t. OPENSSL_sk_sort (Some \<lparr>num = 3, data = [5, 1, 3, 0], sorted_flag = False, num_alloc = 4, comp = 1\<rparr>)
      (\<lambda>_ a b. uint a - uint b) = Some t \<and> mset (items t) = {#5, 1, 3#} \<and> sorted_wrt (\<lambda>a b. uint a - uint b \<le> 0) (items t)"
  using stack_sort_sorts [of "\<lparr>num = 3, data = [5, 1, 3, 0], sorted_flag = False, num_alloc = 4, comp = 1\<rparr>" "\<lambda>_ a b. uint a - uint b"]
    address_order.comparator_axioms
  by (auto simp: sk_wf_def sk_ordered_def items_def INT_MAX_def add_mset_commute)

text \<open>C37: \<open>OPENSSL_sk_find\<close> finds the first match, whichever search it uses. While the sorted flag tells the
  truth, the result on a stack with a comparison function is the least index whose pointer compares
  equal to \<open>p\<close>, the one a linear search finds, and \<open>None\<close> if there is none or \<open>p\<close> is \<open>NULL\<close>; without a
  comparison function it is the first index of \<open>p\<close> itself.\<close>

theorem stack_find_is_first_match:
  assumes "sk_wf s" "sk_ordered call s" "comparator (call (comp s))"
  shows "OPENSSL_sk_find (Some s) p call = Some i \<longleftrightarrow>
    i < num s \<and> (if comp s = 0 then items s ! i = p \<and> (\<forall>j<i. items s ! j \<noteq> p)
                  else p \<noteq> 0 \<and> call (comp s) p (items s ! i) = 0 \<and> (\<forall>j<i. call (comp s) p (items s ! j) \<noteq> 0))"
  unfolding sk_find_spec [OF assms] using sk_wfD(6) [OF assms(1)] by (auto simp: find_index_from_Some)

theorem stack_find_is_first_match_witness:
  "OPENSSL_sk_find (Some \<lparr>num = 3, data = [1, 5, 5, 0], sorted_flag = True, num_alloc = 4, comp = 1\<rparr>) 5
      (\<lambda>_ a b. uint a - uint b) = Some 1"
  using stack_find_is_first_match
      [of "\<lparr>num = 3, data = [1, 5, 5, 0], sorted_flag = True, num_alloc = 4, comp = 1\<rparr>" "\<lambda>_ a b. uint a - uint b" 5 1]
    address_order.comparator_axioms
  by (auto simp: sk_wf_def sk_ordered_def items_def INT_MAX_def)

text \<open>C38: The sorted flag stays true to the contents under every sequence of insertions and deletions, by index, pointer or
  condition and at either end, and of emptying the stack: insertions clear it, and deletions keep the order. (The
  allocator does not fail, \<open>array_heap_total\<close>; a pointer that is overwritten in place is left out, and can make the flag
  wrong, see \<open>set_leaves_stale_sorted_flag\<close>.)\<close>

theorem stack_sorted_flag_invariant:
  assumes "sk_wf s" "array_heap_total h" "sk_ordered call s" "\<forall>i p. Set_at i p \<notin> set cs"
  shows "\<exists>rs t. run_cmds (run_cmd h) cs (Some s) = (rs, Some t) \<and> sk_ordered call t"
  using run_cmds_refines [OF assms(1,2), of cs call] assms(3,4) by blast

theorem stack_sorted_flag_invariant_witness:
  "\<exists>rs t. run_cmds (run_cmd (\<lambda>n. Some (replicate n 0))) [Delete 0]
      (Some \<lparr>num = 3, data = [1, 5, 5, 0], sorted_flag = True, num_alloc = 4, comp = 1\<rparr>) = (rs, Some t)
    \<and> sk_ordered (\<lambda>_ a b. uint a - uint b) t"
  by (rule stack_sorted_flag_invariant) (simp_all add: sk_wf_def array_heap_total_def sk_ordered_def items_def INT_MAX_def)

section \<open>Protocol buffer streams and wire format\<close>

text \<open>C39: Variable-length integers survive the round trip through a buffer. Any list of 64-bit values is
  written without error into a buffer with room for their encodings, and as many reads from the bytes
  written return the list and leave nothing.\<close>

theorem pb_varint_round_trip:
  assumes "length (concat (map (\<lambda>v. varint (unat v)) vs)) \<le> length buf" "length buf < size_mod"
  shows "\<exists>s t. foldr (\<lambda>v m. op_bind (pb_encode_varint v) (\<lambda>_. m)) vs (op_return ()) (pb_ostream_from_buffer buf (length buf)) = (Some (), s)
    \<and> op_repeat (length vs) pb_decode_varint (pb_istream_from_buffer (fst (state s)) (bytes_written s)) = (Some vs, t)
    \<and> bytes_left t = 0"
  using pb_varint.buffer_round_trip [of vs pb_encode_varint buf] assms by (auto simp: list_all_iff)

theorem pb_varint_round_trip_witness:
  "\<exists>s t. op_bind (pb_encode_varint 300) (\<lambda>_. op_return ()) (pb_ostream_from_buffer [0, 0, 0] (length [0, 0, 0 :: u8])) = (Some (), s)
    \<and> op_repeat (length [300 :: u64]) pb_decode_varint (pb_istream_from_buffer (fst (state s)) (bytes_written s)) = (Some [300], t)"
proof -
  have l: "length (concat (map (\<lambda>v. varint (unat v)) [300 :: u64])) \<le> length [0, 0, 0 :: u8]" "length [0, 0, 0 :: u8] < size_mod"
    by (simp_all add: varint.simps [of 300] varint.simps [of 2] size_mod_def)
  show ?thesis using pb_varint_round_trip [OF l] by (fastforce simp: op_simps)
qed

text \<open>C40: Nothing is written outside a buffer. In any sequence of calls of \<open>pb_write\<close> on a stream over a buffer in
  front of other memory, a chunk is taken if and only if it fits into the room that is left, also when its length
  makes the count of bytes overflow and when an earlier chunk was refused. Memory then consists of the chunks
  taken, in order, the rest of the buffer and the memory behind it, both as they were; the count is the number of
  bytes taken, and the error is that the stream is full if and only if a chunk was refused.\<close>

theorem buffer_takes_what_fits:
  assumes "length buf < size_mod" "\<forall>c \<in> set cs. length c < size_mod"
  shows "case write_all cs (pb_ostream_from_buffer (buf @ behind) (length buf)) of
    (rs, s) \<Rightarrow>
      let ys = taken rs cs
      in rs = chunks_fit (length buf) cs \<and> length ys \<le> length buf
        \<and> state s = (ys @ drop (length ys) buf @ behind, length ys) \<and> bytes_written s = length ys
        \<and> oerrmsg s = (if False \<in> set rs then Some ''stream full'' else None)"
proof -
  have "pb_ostream_from_buffer (buf @ behind) (length buf) = buffer_stream_at ([] @ buf @ behind) (length buf) (length []) None"
    by (simp add: pb_ostream_from_buffer_def buffer_stream_at_def)
  then show ?thesis
    using write_all_buffer [of "[]" "length buf" "buf @ behind" cs None] assms length_taken [of "length buf" cs]
    by (simp add: Let_def buffer_stream_at_def)
qed

theorem buffer_takes_what_fits_witness:
  "\<exists>s. write_all [[1, 2], [3, 4], [5]] (pb_ostream_from_buffer ([0, 0, 0] @ [9]) (length [0, 0, 0 :: u8])) = ([True, False, True], s)
    \<and> fst (state s) = [1, 2, 5, 9] \<and> bytes_written s = 3 \<and> oerrmsg s = Some ''stream full''"
  using buffer_takes_what_fits [of "[0, 0, 0]" "[[1, 2], [3, 4], [5]]" "[9]"]
  by (auto simp: size_mod_def Let_def split: prod.splits)

section \<open>Further theorems\<close>

text \<open>With an array of fixed size the default values can overrun the struct. Such a field has no counter,
  and \<open>pSize\<close> points to its data, but the counter of four bytes is cleared all the same: an array of two
  booleans at the end of a struct of two bytes has the two bytes behind the struct overwritten.\<close>

theorem defaults_overrun_fixed_array:
  "let f = Field 1 0x20 0 0 1 2 No_ptr; m' = pb_message_set_to_defaults ext [f] dest m
   in data_size f * array_size f = 2 \<and> m' (dest + 2) = 0 \<and> m' (dest + 3) = 0"
  using fixed_array_overrun by (simp add: Let_def)

text \<open>The distance of an array entry from the start of its array is a 32-bit product: the entry number 2^22 of an array
  of submessages of 1024 bytes has the address of the first.\<close>

theorem array_entry_address_wraps:
  "data_size f = 1024 \<Longrightarrow> item_offset f (2 ^ 22) = 0"
  by (simp add: item_offset_def)

text \<open>In an empty message type the field number 0, which no field can have, is not skipped: it matches the
  terminator of the description, which looks like a required boolean, and its value is stored in the
  first byte of the struct.\<close>

theorem empty_message_stores_field_zero:
  "pb_decode_noinit env [] dest (s\<lparr>input := pb_istream_from_buffer [1, 5] 2\<rparr>)
   = (Some (), s\<lparr>input := pb_istream_from_buffer [] 0, memory := store_bytes dest [1] (memory s)\<rparr>)"
  by (rule empty_message_reads_field_zero)

text \<open>Unsigned INTEGERs survive the round trip, in sequence. Any list of 64-bit values added to an empty
  builder with room for them is added without failure, and reading as many INTEGERs from the bytes
  written returns the list and leaves nothing.\<close>

theorem asn1_uint64_round_trip:
  assumes "cbb_wf c" "cbb_children c = []"
    "can_hold c (cbb_len c + length (concat (map (\<lambda>v. der_element CBS_ASN1_INTEGER (asn1_uint_body (unat v))) vs)))"
  shows "\<exists>c'. fold (\<lambda>v m. op_bind m (\<lambda>_. CBB_add_asn1_uint64 0 v)) vs (CBB_flush 0) c = (Some (), c')
    \<and> op_repeat (length vs) CBS_get_asn1_uint64 (drop (cbb_len c) (cbb_data c')) = (Some vs, [])"
  using asn1_uint64_rw.sequence_is_read [OF _ assms] by (simp add: list_all_iff) blast

theorem asn1_uint64_round_trip_witness:
  "\<exists>c'. op_bind (CBB_flush 0) (\<lambda>_. CBB_add_asn1_uint64 0 300) (CBB_init_fixed [0, 0, 0, 0] 4 (\<lambda>_ _. None)) = (Some (), c')
    \<and> op_repeat 1 CBS_get_asn1_uint64 (cbb_data c') = (Some [300], [])"
proof -
  let ?c = "CBB_init_fixed [0, 0, 0, 0] 4 (\<lambda>_ _. None)"
  have l: "length (der_element CBS_ASN1_INTEGER (asn1_uint_body (unat (300 :: u64)))) = 4"
    by (simp add: der_element_def der_header_def asn1_tag_bytes_def asn1_uint_body_def be_min.simps [of 300]
        be_min.simps [of "Suc 0"] der_length_def CBS_ASN1_INTEGER_def Let_def asn1_tag_bits_def
        CBS_ASN1_TAG_NUMBER_MASK_def)
  have "cbb_wf ?c" "cbb_children ?c = []" "cbb_len ?c = 0" "can_hold ?c 4"
    by (simp_all add: CBB_init_fixed_def cbb_init_def CBB_zero_def cbb_wf_def heap_ok_def size_mod_def can_hold_def)
  then show ?thesis using asn1_uint64_round_trip [of ?c "[300]"] l by simp
qed

text \<open>Signed INTEGERs are read exactly in their minimal two's complement form: \<open>CBS_get_asn1_int64\<close>
  returns \<open>v\<close> if and only if the input starts with the INTEGER element whose contents are the eight
  bytes of \<open>v\<close> without redundant sign bytes.\<close>

theorem asn1_int64_reads_minimal_form:
  "CBS_get_asn1_int64 bs = (Some v, rest) \<longleftrightarrow> bs = der_element CBS_ASN1_INTEGER (strip_sign (nat_be 8 (unat v))) @ rest"
  using asn1_int64_codec.accepts_iff [of bs v rest] by (simp add: asn1_int64_body_def)

text \<open>INTEGER contents are valid exactly when they are not empty and have no redundant sign byte in
  front, and the sign reported is the top bit of the first byte.\<close>

theorem valid_integer_is_minimal:
  "CBS_is_valid_asn1_integer bs = Some neg \<longleftrightarrow>
   bs \<noteq> [] \<and> strip_sign bs = bs \<and> (hd bs AND 0x80 \<noteq> 0) = neg"
  by (rule valid_integer_iff)

text \<open>The decimal reader accepts exactly the numbers below 2^64 without leading zeros, and stops at the
  first character that is not a digit.\<close>

theorem decimal_reader_exact:
  "CBS_get_u64_decimal cbs = (Some v, rest) \<longleftrightarrow>
   cbs = decimal (unat v) @ rest \<and> (rest = [] \<or> \<not> OPENSSL_isdigit (uint (hd rest)))"
  by (rule u64_decimal_accepts_iff)

theorem decimal_reader_exact_witness:
  "CBS_get_u64_decimal [0x34, 0x32, 0x2e] = (Some 42, [0x2e])"
proof -
  have "[0x34, 0x32, 0x2e] = decimal (unat (42 :: u64)) @ [0x2e]" 
    by (simp add: decimal.simps [of 42] decimal.simps [of 4] digit_char_def)
  then show ?thesis using decimal_reader_exact [of "[0x34, 0x32, 0x2e]" 42 "[0x2e]"] by (simp add: OPENSSL_isdigit_def)
qed

text \<open>Base-128 integers are read exactly as they are written: the parser returns \<open>v\<close> if and only if the
  input starts with the minimal septets of \<open>v\<close>, which are the bytes the builder appends for \<open>v\<close>.\<close>

theorem base128_reads_what_is_written:
  "parse_base128_integer bs = (Some v, rest) \<longleftrightarrow>
   bs = map (base128_byte v) (rev [0..<(let k = base128_len_loop v 0 in if k = 0 then 1 else k)]) @ rest"
  unfolding base128_bytes using base128_codec.accepts_iff [of bs v rest] by simp

text \<open>A 16-bit length-prefixed block is read if and only if the input starts with the big-endian length
  and that many bytes; the block and the rest are split there.\<close>

theorem length_prefixed_reads_exactly:
  "CBS_get_u16_length_prefixed bs = (Some xs, rest) \<longleftrightarrow>
   length xs < 65536 \<and> bs = nat_be 2 (length xs) @ xs @ rest"
  using u16_prefixed_codec.accepts_iff [of bs xs rest] by (simp add: CBS_get_u16_length_prefixed_def)

text \<open>A value that does not fit its width is an error, and errors are final. Adding to a well-formed
  builder a number with more significant bytes than asked for fails and sets the error flag, and after
  that no flush of any depth succeeds.\<close>

theorem oversized_value_locks_builder:
  assumes "cbb_wf c" "n < size_mod" "256 ^ n \<le> unat v" "attached d c" "cbb_add_u d v n c = (r, c')"
  shows "r = None \<and> cbb_error c' \<and> (\<forall>k. CBB_flush k c' = (None, c'))"
  using cbb_add_u_too_large [OF assms] CBB_flush.simps [of _ c'] by simp

theorem oversized_value_locks_builder_witness:
  "cbb_error (snd (CBB_add_u24 0 0x1000000 (CBB_init_fixed [0, 0, 0] 3 (\<lambda>_ _. None))))"
proof -
  let ?c = "CBB_init_fixed [0, 0, 0] 3 (\<lambda>_ _. None)"
  obtain r c' where r: "cbb_add_u 0 (ucast (0x1000000 :: u32)) 3 ?c = (r, c')" by fastforce
  have "cbb_wf ?c" "attached 0 ?c"
    by (simp_all add: CBB_init_fixed_def cbb_init_def CBB_zero_def cbb_wf_def heap_ok_def size_mod_def attached_def)
  then have "cbb_error c'" using oversized_value_locks_builder [OF _ _ _ _ r] by (simp add: size_mod_def)
  then show ?thesis using r by (simp add: CBB_add_u24_def)
qed

text \<open>Adjusting a time and then taking the difference gives back the adjustment. When the adjusted time
  stays in the years 0 to 9999, \<open>OPENSSL_gmtime_adj\<close> succeeds, and \<open>OPENSSL_gmtime_diff\<close> from the old to
  the new time returns days and seconds of the same sign that add up to what was added.\<close>

theorem gmtime_adj_then_diff:
  assumes "OPENSSL_tm_to_posix t = Some x" "INT64_MIN \<le> sec" "sec \<le> INT64_MAX"
    "is_valid_posix_time (x + day * SECS_PER_DAY + sec)"
  shows "\<exists>t' days secs. OPENSSL_gmtime_adj day sec t = (Some (), t')
    \<and> OPENSSL_gmtime_diff t t' = Some (days, secs)
    \<and> days * SECS_PER_DAY + secs = day * SECS_PER_DAY + sec \<and> \<bar>secs\<bar> < SECS_PER_DAY
    \<and> (days > 0 \<longrightarrow> secs \<ge> 0) \<and> (days < 0 \<longrightarrow> secs \<le> 0)"
proof -
  obtain t' where t': "OPENSSL_gmtime_adj day sec t = (Some (), t')"
    "OPENSSL_tm_to_posix t' = Some (x + day * SECS_PER_DAY + sec)"
    using gmtime_adj_exact [OF assms] by metis
  obtain days secs where "OPENSSL_gmtime_diff t t' = Some (days, secs)"
    "days * SECS_PER_DAY + secs = x + day * SECS_PER_DAY + sec - x" "\<bar>secs\<bar> < SECS_PER_DAY"
    "days > 0 \<longrightarrow> secs \<ge> 0" "days < 0 \<longrightarrow> secs \<le> 0"
    using gmtime_diff_exact [OF assms(1) t'(2)] by metis
  then show ?thesis using t'(1) by (intro exI [of _ t'] exI [of _ days] exI [of _ secs]) simp
qed

theorem gmtime_adj_then_diff_witness:
  "\<exists>t' days secs. OPENSSL_gmtime_adj 1 1 (set_tm 1970 1 1 0 0 0 undefined) = (Some (), t')
    \<and> OPENSSL_gmtime_diff (set_tm 1970 1 1 0 0 0 undefined) t' = Some (days, secs) \<and> days * SECS_PER_DAY + secs = 86401"
proof -
  have "OPENSSL_tm_to_posix (set_tm 1970 1 1 0 0 0 undefined) = Some 0"
    by (simp add: tm_to_posix_set_tm posix_time_counts_seconds is_valid_date_def is_valid_time_def)
  then show ?thesis
    using gmtime_adj_then_diff [of "set_tm 1970 1 1 0 0 0 undefined" 0 1 1]
    by (auto simp: INT64_MIN_def INT64_MAX_def is_valid_posix_time_def MIN_POSIX_TIME_def MAX_POSIX_TIME_def
        SECS_PER_DAY_def SECS_PER_HOUR_def)
qed

text \<open>With offsets allowed, what is stored is the written time plus the signed offset: for a string that
  ends in +hhmm the offset is added to the written time, for -hhmm it is subtracted.\<close>

theorem rfc5280_offset_is_added:
  assumes "CBS_parse_rfc5280_time_internal bs gentime allow (Some t) = (True, Some t')"
  shows "\<exists>y m d h mi s z x. zone_ok allow z \<and> bs = time_string gentime y m d h mi s z
    \<and> posix_time_from_utc y m d h mi s = Some x \<and> OPENSSL_tm_to_posix t' = Some (x + zone_seconds z)"
proof -
  obtain y m d h mi s off where f: "rfc5280_fields gentime allow bs = (Some (y, m, d, h, mi, s, off), [])"
    and o: "(if off \<noteq> 0 then (case OPENSSL_gmtime_adj 0 off (set_tm y m d h mi s t) of
              (None, t) \<Rightarrow> (False, Some t) | (Some _, t) \<Rightarrow> (True, Some t))
           else (True, Some (set_tm y m d h mi s t))) = (True, Some t')"
    using assms by (auto simp: CBS_parse_rfc5280_time_internal_def set_tm_def Let_def
        split: prod.splits option.splits if_splits)
  obtain z where z: "year_ok gentime y" "is_valid_day y m d" "is_valid_time h mi s" "zone_ok allow z"
    "bs = time_string gentime y m d h mi s z" "off = zone_seconds z"
    using f unfolding rfc5280_fields_iff by auto
  have "is_valid_date y m d" using z(1,2) by (auto simp: is_valid_date_iff year_ok_def split: if_splits)
  then obtain x where x: "posix_time_from_utc y m d h mi s = Some x"
    using z(3) by (simp add: posix_time_counts_seconds)
  have "OPENSSL_tm_to_posix t' = Some (x + off)"
  proof (cases "off = 0")
    case True
    then show ?thesis using o x by (auto simp: tm_to_posix_set_tm)
  next
    case False
    then show ?thesis using o x
      by (auto simp: OPENSSL_gmtime_adj_def tm_to_posix_set_tm Let_def posix_to_tm_inverse
          split: option.splits if_splits prod.splits)
  qed
  then show ?thesis using z x by blast
qed

theorem rfc5280_offset_is_added_witness:
  "\<exists>y m d h mi s z x. time_string True 1970 1 1 0 0 0 Zulu = time_string True y m d h mi s z
    \<and> posix_time_from_utc y m d h mi s = Some x
    \<and> OPENSSL_tm_to_posix (set_tm 1970 1 1 0 0 0 undefined) = Some (x + zone_seconds z)"
proof -
  have "CBS_parse_rfc5280_time_internal (time_string True 1970 1 1 0 0 0 Zulu) True False (Some undefined)
      = (True, Some (set_tm 1970 1 1 0 0 0 undefined))"
    unfolding rfc5280_time_strict
    by (intro exI [of _ 1970] exI [of _ 1] exI [of _ 0]) (simp add: year_ok_def is_valid_day_def is_valid_time_def)
  from rfc5280_offset_is_added [OF this] show ?thesis by metis
qed

text \<open>The branch-free comparisons compute the comparisons they are named after, and selecting by such a
  mask is the conditional expression.\<close>

theorem constant_time_conditionals:
  "constant_time_select_w (constant_time_lt_w a b) x y = (if a < b then x else y) \<and>
   constant_time_select_w (constant_time_ge_w a b) x y = (if b \<le> a then x else y) \<and>
   constant_time_select_w (constant_time_eq_w a b) x y = (if a = b then x else y) \<and>
   constant_time_select_w (constant_time_is_zero_w a) x y = (if a = 0 then x else y)"
  by (simp add: lt_w ge_w eq_w is_zero_w select_w)

text \<open>\<open>CRYPTO_memcmp\<close>, which visits every byte, returns zero exactly when the two ranges are equal.\<close>

theorem memcmp_decides_equality:
  assumes "n \<le> length a" "n \<le> length b"
  shows "CRYPTO_memcmp a b n = 0 \<longleftrightarrow> take n a = take n b"
  using assms by (rule CRYPTO_memcmp_eq_0)

theorem memcmp_decides_equality_witness: "CRYPTO_memcmp [1, 2, 3] [1, 2, 4] 2 = 0"
  using memcmp_decides_equality [of 2 "[1, 2, 3]" "[1, 2, 4]"] by simp

text \<open>Unpadded Base64 is canonical: when the decoder accepts a string and returns a multiple of three
  bytes, the string is the encoding of those bytes.\<close>

theorem base64_unpadded_canonical:
  assumes "EVP_DecodeBase64 max_out s = Some xs" "length xs mod 3 = 0"
  shows "take (snd (EVP_EncodeBlock xs)) (fst (EVP_EncodeBlock xs)) = s"
  using assms decode_quads_unpadded [of s xs]
  by (simp add: EVP_DecodeBase64_def EncodeBlock_take split: if_splits option.splits)

theorem base64_unpadded_canonical_witness:
  "take (snd (EVP_EncodeBlock [1, 2, 3])) (fst (EVP_EncodeBlock [1, 2, 3])) = encode_block_loop [1, 2, 3]"
proof -
  have "EVP_DecodeBase64 3 (encode_block_loop [1, 2, 3]) = Some [1, 2, 3]"
    using DecodeBase64_EncodeBlock [of "[1, 2, 3]" 3] by (simp add: EncodeBlock_take)
  from base64_unpadded_canonical [OF this] show ?thesis by simp
qed

text \<open>\<open>EVP_EncodedLength\<close> is exact and never wraps: it returns the number of bytes that \<open>EVP_EncodeBlock\<close>
  stores, the NUL included, when that fits in a \<open>size_t\<close>, and fails otherwise.\<close>

theorem encoded_length_is_exact:
  assumes "length xs < size_mod"
  shows "EVP_EncodedLength (length xs) =
    (if length (fst (EVP_EncodeBlock xs)) < size_mod then Some (length (fst (EVP_EncodeBlock xs))) else None)"
  using EncodedLength_exact [OF assms] by (simp add: EVP_EncodeBlock_def length_encode_block_loop)

theorem encoded_length_is_exact_witness: "EVP_EncodedLength 4 = Some 9"
proof -
  have l: "length [0, 0, 0, 0 :: u8] = 4" by simp
  show ?thesis
    using encoded_length_is_exact [of "[0, 0, 0, 0]"]
    unfolding EVP_EncodeBlock_def fst_conv length_append length_encode_block_loop l by (simp add: size_mod_def)
qed

text \<open>Counter mode: the blocks of the input are combined with the encryptions of the counter, which counts up from
  its first value modulo 2^128.\<close>

theorem counter_mode_is_keystream:
  assumes "block_sized block" "length (ctr_ivec s) = 16" "ctr_num s = 0" "length inp = 16 * k"
  shows "\<exists>t. CRYPTO_ctr128_encrypt block inp s =
      (map2 (XOR) inp (keystream_blocks block (\<lambda>i. nat_be 16 (be_nat (ctr_ivec s) + i)) k), t)
    \<and> ctr_ivec t = nat_be 16 (be_nat (ctr_ivec s) + k) \<and> ctr_num t = 0"
  using ctr_run_blocks [OF assms(1,3) _ assms(4), of "be_nat (ctr_ivec s)"] assms(1-3)
  by (auto simp: ctr.crypt_is_run nat_be_id)

text \<open>Cipher feedback of one bit: the bits of the input that were encrypted are decrypted, and the other bits of the output keep
  their values.\<close>

theorem cfb_one_bit_round_trip:
  assumes "bits \<le> 8 * length inp" "bits \<le> 8 * length out" "bits \<le> 8 * length res" "length ivec = 16"
    and "CRYPTO_cfb128_1_encrypt block True inp out bits ivec = (c, iv)"
    and "CRYPTO_cfb128_1_encrypt block False c res bits ivec = (p, jv)"
  shows "jv = iv \<and> length p = length res \<and> (\<forall>n. bit_at p n = (if n < bits then bit_at inp n else bit_at res n))"
  using cfb1_decrypts [OF assms] by blast

text \<open>A message shorter than a block that is decrypted to a separate array has the vector copied to itself.\<close>

theorem cbc_short_message_is_undefined:
  assumes "0 < len" "len < 16" "inp < out"
  shows "CRYPTO_cbc128_decrypt dblock m inp out len ivec = None"
  using assms by (simp add: CRYPTO_cbc128_decrypt_def cbc_decrypt_apart.simps OPENSSL_memcpy_def)

text \<open>\<open>OPENSSL_sk_deep_copy\<close> is all or nothing. Either it returns a stack with a copy of every pointer that
  is not \<open>NULL\<close> and frees nothing, or it returns \<open>NULL\<close> after freeing exactly the copies that the copy
  function had made before it failed, or before any copy if there was no memory for the array.\<close>

theorem deep_copy_all_or_nothing:
  assumes "sk_wf s" "OPENSSL_sk_deep_copy h ah (Some s) copy = (r, freed)"
  shows "(\<exists>t. r = Some t \<and> freed = [] \<and> sk_wf t \<and> items t = map (copied copy (items s)) [0..<num s]
      \<and> (\<forall>j < num s. items t ! j = 0 \<longrightarrow> items s ! j = 0))
    \<or> (r = None \<and> OPENSSL_sk_dup h ah (Some s) = None \<and> freed = [])
    \<or> (r = None \<and> (\<exists>k < num s. items s ! k \<noteq> 0 \<and> copy k (items s ! k) = 0
        \<and> freed = [p \<leftarrow> map (copied copy (items s)) [0..<k]. p \<noteq> 0]))"
proof (cases r)
  case None
  have "copy k (items s ! k) = 0" if "items s ! k \<noteq> 0" "copied copy (items s) k = 0" for k
    using that by (simp add: copied_def)
  then show ?thesis using sk_deep_copy_spec(2) [OF assms(1) assms(2) [unfolded None]] None by blast
next
  case (Some t)
  then show ?thesis using sk_deep_copy_spec(1) [OF assms(1)] assms(2) by blast
qed

theorem deep_copy_all_or_nothing_witness:
  "snd (OPENSSL_sk_deep_copy (\<lambda>n. Some (replicate n 0)) (\<lambda>n. Some (replicate n 0))
      (Some \<lparr>num = 2, data = [7, 8, 0], sorted_flag = False, num_alloc = 3, comp = 0\<rparr>) (\<lambda>i p. if i = 1 then 0 else p + 1)) = [8]"
proof -
  let ?s = "\<lparr>num = 2, data = [7, 8, 0], sorted_flag = False, num_alloc = 3, comp = 0\<rparr>"
  let ?h = "\<lambda>n. Some (replicate n 0)" and ?ah = "\<lambda>n. Some (replicate n 0)"
  let ?r = "OPENSSL_sk_deep_copy ?h ?ah (Some ?s) (\<lambda>i p. if i = 1 then 0 else p + 1)"
  have d: "OPENSSL_sk_dup ?h ?ah (Some ?s) = Some ?s"
    by (simp add: OPENSSL_sk_dup_def OPENSSL_zalloc_def OPENSSL_malloc_def array_malloc_def sizeof_ptr_def
        sizeof_stack_def size_add_def size_mod_def OPENSSL_MALLOC_PREFIX_def)
  have n: "fst ?r = None"
    by (simp add: OPENSSL_sk_deep_copy_def d) (simp add: deep_copy_loop.simps [of _ _ 0] deep_copy_loop.simps [of _ _ "Suc 0"] Let_def)
  have w: "sk_wf ?s" by (simp add: sk_wf_def INT_MAX_def)
  obtain k where k: "k < 2" "(if k = 1 then 0 else items ?s ! k + 1) = 0"
      "snd ?r = [p \<leftarrow> map (copied (\<lambda>i p. if i = 1 then 0 else p + 1) (items ?s)) [0..<k]. p \<noteq> 0]"
    using deep_copy_all_or_nothing [OF w prod.collapse [symmetric], of ?h ?ah "\<lambda>i p. if i = 1 then 0 else p + 1"] n d by auto
  moreover have "items ?s = [7, 8]" by (simp add: items_def)
  ultimately have "k = 1" by (cases "k = 0") auto
  then show ?thesis unfolding k(3) \<open>items ?s = [7, 8]\<close> by (simp add: copied_def)
qed

text \<open>\<open>OPENSSL_sk_set\<close> does not clear the sorted flag. After sorting the stack of 3 and 1 and overwriting its
  first pointer with 5, the stack is still reported as sorted although it holds 5 and 3, and a search
  for 3, which it holds at index 1, finds nothing.\<close>

theorem set_leaves_stale_sorted_flag:
  "let call = (\<lambda>_ a b. uint a - uint b);
       s = OPENSSL_sk_sort (Some \<lparr>num = 2, data = [3, 1, 0, 0], sorted_flag = False, num_alloc = 4, comp = 1\<rparr>) call;
       t = snd (OPENSSL_sk_set s 0 5)
   in OPENSSL_sk_is_sorted t \<and> map_option items t = Some [5, 3] \<and> OPENSSL_sk_find t 3 call = None"
  by code_simp

text \<open>A submessage is read back from what was written. For any encoder that writes \<open>xs\<close>, and any decoder
  that refines a parser which returns \<open>x\<close> on \<open>xs\<close>, the two passes of \<open>pb_encode_submessage\<close> agree on the
  size, the length and the contents are written, and \<open>pb_decode_delimited\<close> on them returns \<open>x\<close> and
  leaves nothing, even if the decoder did not read all of its bytes.\<close>

theorem submessage_round_trip:
  fixes buf :: bytes
  assumes "writes xs encode" "stream_reads decode get" "get xs = (Some x, rest)"
    "length xs < 2 ^ 32" "length (varint (length xs)) + length xs \<le> length buf" "length buf < size_mod"
  shows "\<exists>s t. pb_encode_submessage encode (pb_ostream_from_buffer buf (length buf)) = (Some (), s)
    \<and> bytes_written s = length (varint (length xs)) + length xs
    \<and> pb_decode_delimited decode (pb_istream_from_buffer (fst (state s)) (bytes_written s)) = (Some x, t) \<and> bytes_left t = 0"
proof -
  let ?bs = "varint (length xs) @ xs"
  have "writes ?bs (pb_encode_submessage encode)" using writes_submessage [OF assms(1)] assms(4) by (simp add: size_mod_def)
  then obtain s where s: "pb_encode_submessage encode (pb_ostream_from_buffer buf (length buf)) = (Some (), s)"
      "bytes_written s = length ?bs" "take (length ?bs) (fst (state s)) = ?bs"
    using buffer_stream(1) [of ?bs _ buf] assms(5,6) by auto
  obtain zs where "fst (state s) = ?bs @ zs" using s(3) by (metis append_take_drop_id)
  then have "holds [] (pb_istream_from_buffer (fst (state s)) (bytes_written s)) ?bs"
    using holds_from_buffer [of "[]" ?bs zs] s(2) by simp
  moreover have "wire_delimited get ?bs = (Some x, [])"
    using wire_varint32_small [OF assms(4), of xs] assms(3,4) by (simp add: wire_delimited_def take_bytes_def unat_of_nat)
  ultimately show ?thesis using stream_reads_Some [OF delimited_reads [OF assms(2)]] s by (fastforce simp: holds_def)
qed

theorem submessage_round_trip_witness:
  "\<exists>s t. pb_encode_submessage (pb_encode_fixed32 7) (pb_ostream_from_buffer (replicate 8 0) 8) = (Some (), s)
    \<and> pb_decode_delimited pb_decode_fixed32 (pb_istream_from_buffer (fst (state s)) (bytes_written s)) = (Some 7, t)"
proof -
  have w: "writes (nat_le 4 (unat (7 :: u32))) (pb_encode_fixed32 7)" by (rule pb_fixed32.put_writes) simp
  have g: "wire_fixed32 (nat_le 4 (unat (7 :: u32))) = (Some 7, [])" using pb_fixed32.get_enc [of 7 "[]"] by simp
  show ?thesis
    using submessage_round_trip [OF w pb_fixed32.fetch_reads g, of "replicate 8 0"] by (auto simp: varint.simps [of 4] size_mod_def)
qed

text \<open>A delimited message is isolated from what follows it. Whatever the decoder of the contents does
  (succeed early, fail, ask for more than there is), it sees exactly the bytes that the length
  announces: the result is the result on those bytes alone, and on success the parent stream stands at
  the byte after them, on buffers as on callback streams.\<close>

theorem delimited_reads_its_bytes:
  assumes "stream_reads decode get" "length c < 2 ^ 32"
    "source_has src (varint (length c) @ c @ rest)" "left = length (varint (length c)) + length c + n" "n \<le> length rest"
  shows "\<exists>t. pb_decode_delimited decode \<lparr>source = src, bytes_left = left, ierrmsg = None\<rparr> = (fst (get c), t)
    \<and> (fst (get c) \<noteq> None \<longrightarrow> source_has (source t) rest \<and> bytes_left t = n)"
proof -
  let ?s = "\<lparr>source = src, bytes_left = left, ierrmsg = None\<rparr>" and ?bs = "varint (length c) @ c @ take n rest"
  have "?bs @ drop n rest = varint (length c) @ c @ rest" by simp
  then have h: "holds (drop n rest) ?s ?bs" unfolding holds_def using assms(3-5) by simp
  have w: "wire_delimited get ?bs = (fst (get c), take n rest)"
    using wire_varint32_small [OF assms(2), of "c @ take n rest"] assms(2)
    by (simp add: wire_delimited_def take_bytes_def unat_of_nat)
  show ?thesis
  proof (cases "fst (get c)")
    case None
    then show ?thesis using stream_reads_None [OF delimited_reads [OF assms(1)] h] w by metis
  next
    case (Some x)
    then obtain t where t: "pb_decode_delimited decode ?s = (Some x, t)" "holds (drop n rest) t (take n rest)"
      using stream_reads_Some [OF delimited_reads [OF assms(1)] h] w by metis
    then show ?thesis using assms(5) Some by (auto simp: holds_def)
  qed
qed

theorem delimited_reads_its_bytes_witness:
  "\<exists>t. pb_decode_delimited pb_decode_varint \<lparr>source = Buffer [2, 0x80, 0x80, 9], bytes_left = 4, ierrmsg = None\<rparr> = (None, t)"
proof -
  have n: "fst (wire_varint [0x80, 0x80]) = None" by (simp add: wire_varint_def varint_from_def)
  show ?thesis
    using delimited_reads_its_bytes [OF decode_varint_reads, of "[0x80, 0x80]" "Buffer [2, 0x80, 0x80, 9]" "[9]" 4 1] n
    by (simp add: varint_last)
qed

text \<open>An unknown field is skipped exactly. On a stream that starts with a tag and a value of its wire
  type, decoding the tag and skipping the field succeeds and leaves the stream at the next field.\<close>

theorem field_is_skipped:
  assumes "wire_value wt bs" "0 < f" "f < 2 ^ 29" "source_has src (varint (tag_number wt f) @ bs @ rest)"
    "left = length (varint (tag_number wt f)) + length bs + n" "n \<le> length rest"
  shows "\<exists>t. op_bind read_tag (\<lambda>(wire_type, tag). pb_skip_field wire_type) \<lparr>source = src, bytes_left = left, ierrmsg = None\<rparr> = (Some (), t)
    \<and> source_has (source t) rest \<and> bytes_left t = n"
proof -
  let ?s = "\<lparr>source = src, bytes_left = left, ierrmsg = None\<rparr>" and ?bs = "varint (tag_number wt f) @ bs @ take n rest"
  have "?bs @ drop n rest = varint (tag_number wt f) @ bs @ rest" by simp
  then have h: "holds (drop n rest) ?s ?bs" unfolding holds_def using assms(4-6) by simp
  have wt: "wt < 8" using assms(1)
    by cases (simp_all add: PB_WT_STRING_def PB_WT_VARINT_def PB_WT_64BIT_def PB_WT_32BIT_def)
  have "stream_reads (op_bind read_tag (\<lambda>(wire_type, tag). pb_skip_field wire_type)) (op_bind wire_tag (\<lambda>(wire_type, tag). skip_value wire_type))"
    by (intro stream_reads_bind read_tag_reads) (auto split: prod.split)
  moreover have "op_bind wire_tag (\<lambda>(wire_type, tag). skip_value wire_type) ?bs = (Some (), take n rest)"
    using wire_tag_put [OF wt assms(3), of "bs @ take n rest"] assms(2) skip_value_skips [OF assms(1)] by simp
  ultimately obtain t where "op_bind read_tag (\<lambda>(wire_type, tag). pb_skip_field wire_type) ?s = (Some (), t)" "holds (drop n rest) t (take n rest)"
    by (rule stream_reads_Some [OF _ h])
  then show ?thesis using assms(6) by (auto simp: holds_def)
qed

theorem field_is_skipped_witness:
  "\<exists>t. op_bind read_tag (\<lambda>(wire_type, tag). pb_skip_field wire_type) \<lparr>source = Buffer [10, 1, 65, 8], bytes_left = 4, ierrmsg = None\<rparr> = (Some (), t)
    \<and> source_has (source t) [8] \<and> bytes_left t = 1"
proof -
  have v: "wire_value PB_WT_STRING [1, 65]" using wire_value.string [of "[65]"] by (simp add: varint_last)
  have t: "varint (tag_number PB_WT_STRING 1) = [10]" by (simp add: PB_WT_STRING_def varint_last)
  have h: "source_has (Buffer [10, 1, 65, 8]) (varint (tag_number PB_WT_STRING 1) @ [1, 65] @ [8])"
    "4 = length (varint (tag_number PB_WT_STRING 1)) + length [1, 65 :: u8] + 1"
    unfolding t by simp_all
  show ?thesis by (rule field_is_skipped [OF v _ _ h]) simp_all
qed

text \<open>An encoder never writes outside its buffer: \<open>pb_encode\<close> into a buffer in front of other memory succeeds if
  and only if the encoding fits, leaves the memory behind the buffer as it was, and has put a prefix of the encoding
  into the buffer in any case.\<close>

theorem encoder_stays_in_buffer:
  assumes "env_encodes spec env" "message_bytes spec m fs src = Some xs" "length buf < size_mod" "length xs < size_mod" "behind \<noteq> []"
  shows "\<exists>r s. pb_encode env m fs src (pb_ostream_from_buffer (buf @ behind) (length buf)) = (r, s)
    \<and> (r \<noteq> None \<longleftrightarrow> length xs \<le> length buf) \<and> drop (length buf) (fst (state s)) = behind
    \<and> (\<exists>ys. prefix ys xs \<and> take (snd (state s)) (fst (state s)) = ys)"
proof -
  have "writes xs (pb_encode env m fs src :: ((bytes \<times> nat) ostream, unit) op)"
    using encodes_message [OF assms(1), of m fs src] assms(2,4) by (simp add: encodes_Some)
  then show ?thesis using assms(3-5) by (rule writes_stay_in_buffer)
qed

text \<open>The 32-bit reader on the canonical encoding of a number returns the number if it fits 32 bits,
  the low half if it is a sign-extended negative 32-bit number, and fails on the numbers from 2^32 up to
  2^63, which do not fit.\<close>

theorem pb_varint32_value:
  assumes "v < 2 ^ 64" "v < 2 ^ 63 \<or> 2 ^ 64 - 2 ^ 31 \<le> v" "length zs + 10 < size_mod"
  shows "fst (pb_decode_varint32 (pb_istream_from_buffer (varint v @ zs) (length (varint v) + length zs)))
    = (if v < 2 ^ 32 \<or> 2 ^ 63 \<le> v then Some (word_of_nat v) else None)"
proof -
  let ?s = "pb_istream_from_buffer (varint v @ zs) (length (varint v) + length zs)"
  have h: "holds [] ?s (varint v @ zs)" using holds_from_buffer [of "[]" "varint v @ zs" "[]"] by simp
  have "fst (pb_decode_varint32 ?s) = fst (wire_varint32 (varint v @ zs))"
    using stream_reads_iff [OF decode_varint32_reads h] 
    by (metis fst_conv not_Some_eq prod.collapse)
  then show ?thesis
    using wire_varint32_small [of v zs] wire_varint32_large [of v zs] wire_varint32_negative [of v zs] assms by auto
qed

theorem pb_varint32_value_witness:
  "fst (pb_decode_varint32 (pb_istream_from_buffer (varint (2 ^ 32) @ []) (length (varint (2 ^ 32)) + 0))) = None"
  using pb_varint32_value [of "2 ^ 32" "[]"] by (simp add: size_mod_def)

text \<open>Encodings that the overflow check of the 32-bit reader misses. The bits of the fifth byte that
  do not fit are only looked at when that byte is the last one; and the 8-bit bit position wraps around
  after 37 bytes, so that later bytes are added to the result again.\<close>

theorem pb_varint32_misses_overflow:
  "fst (pb_decode_varint32 (pb_istream_from_buffer [0x80, 0x80, 0x80, 0x80, 0xF0, 0x00] 6)) = Some 0
   \<and> fst (pb_decode_varint32 (pb_istream_from_buffer (replicate 37 0x80 @ [0x01]) 38)) = Some 8"
  by code_simp

end
